(* ===== verification/Radio_Prelude.thy ===== *)
theory Radio_Prelude
  imports Main "HOL-Library.Word" "HOL-Library.Monad_Syntax"
begin

unbundle bit_operations_syntax

text \<open>
  Shared ground of the development: names for the machine types of the C code, the
  conventions for aborting runs and for loops that fill an output buffer, and the generic
  facts on words, bits and lists that the component theories use.

  Conventions. An \<^verbatim>\<open>unsigned char\<close> is an 8-bit word, an \<^verbatim>\<open>unsigned int\<close> used as a bit
  pattern is a 32-bit word; an \<^verbatim>\<open>unsigned int\<close> used as a length, a counter or an index is a
  natural number, and where its arithmetic can leave 32 bits the reduction is written out
  with \<open>wrap32\<close>. A byte buffer is a list of bytes. A function that can call \<^verbatim>\<open>exit()\<close> or fail
  an \<^verbatim>\<open>assert()\<close> returns an option, and \<open>None\<close> stands for the process ending there.
\<close>

type_synonym u8 = "8 word"
type_synonym u16 = "16 word"
type_synonym u32 = "32 word"
type_synonym bytes = "u8 list"

named_theorems bit_rules \<open>bitwise descriptions of the code's word-level operations\<close>
named_theorems len_rules \<open>lengths of the buffers the operations write\<close>

definition wrap32 :: "nat \<Rightarrow> nat" where
  "wrap32 n = n mod 2 ^ 32"

lemma wrap32_id [simp]: "n < 2 ^ 32 \<Longrightarrow> wrap32 n = n"
  by (simp add: wrap32_def)

lemma wrap32_less: "wrap32 n < 2 ^ 32"
  by (simp add: wrap32_def)

lemma diff_less_iff: "0 < n \<Longrightarrow> i - k < n \<longleftrightarrow> i < n + k" for i k n :: nat
  by arith

text \<open>Division rounded up: the \<^verbatim>\<open>d.quot + (d.rem > 0 ? 1 : 0)\<close> of the code.\<close>

definition ceil_div :: "nat \<Rightarrow> nat \<Rightarrow> nat" where
  "ceil_div n b = n div b + (if n mod b > 0 then 1 else 0)"

lemma ceil_div_le_iff: "0 < b \<Longrightarrow> ceil_div n b \<le> m \<longleftrightarrow> n \<le> b * m"
proof -
  assume b: "0 < b"
  have n: "n = b * (n div b) + n mod b" by simp
  show ?thesis
  proof (cases "n mod b = 0")
    case True
    then have "n \<le> b * m \<longleftrightarrow> n div b \<le> m"
      using n b by (metis add.right_neutral mult_le_cancel1)
    with True show ?thesis by (simp add: ceil_div_def)
  next
    case False
    then have "n \<le> b * m \<longleftrightarrow> n div b < m"
      using b by (metis div_less_iff_less_mult le_neq_implies_less mod_mult_self1_is_0 less_imp_le_nat mult.commute)
    with False show ?thesis by (auto simp: ceil_div_def)
  qed
qed

lemma le_mult_ceil_div: "0 < b \<Longrightarrow> n \<le> b * ceil_div n b"
  using ceil_div_le_iff [of b n "ceil_div n b"] by simp

lemma ceil_div_mult [simp]: "0 < b \<Longrightarrow> ceil_div (b * m) b = m"
  by (simp add: ceil_div_def)

section \<open>Loops that append to an output buffer\<close>

text \<open>
  \<open>for_append is f\<close> runs the loop body \<open>f\<close> for each index of \<open>is\<close> in order; each run gives
  the bytes it appends to the output, or ends the process.
\<close>

fun for_append :: "'i list \<Rightarrow> ('i \<Rightarrow> 'a list option) \<Rightarrow> 'a list option" where
  "for_append [] f = Some []"
| "for_append (i # is) f = do { x \<leftarrow> f i; xs \<leftarrow> for_append is f; Some (x @ xs) }"

lemma for_append_Some:
  assumes "\<And>i. i \<in> set is \<Longrightarrow> f i = Some (g i)"
  shows "for_append is f = Some (concat (map g is))"
  using assms by (induction "is") auto

lemma for_append_cong [fundef_cong]:
  assumes "is = js" and "\<And>i. i \<in> set js \<Longrightarrow> f i = g i"
  shows "for_append is f = for_append js g"
  unfolding assms(1) using assms(2) by (induction js) auto

lemma for_append_length:
  assumes "for_append is f = Some out" and "\<And>i x. i \<in> set is \<Longrightarrow> f i = Some x \<Longrightarrow> length x = k"
  shows "length out = k * length is"
  using assms
proof (induction "is" arbitrary: out)
  case Nil
  then show ?case by simp
next
  case (Cons i "is")
  then obtain x xs where run: "f i = Some x" "for_append is f = Some xs" "out = x @ xs"
    by (auto simp: bind_eq_Some_conv)
  from run(1) have "length x = k" by (rule Cons.prems(2) [OF list.set_intros(1)])
  moreover from run(2) Cons.prems(2) have "length xs = k * length is"
    by (intro Cons.IH) auto
  ultimately show ?case using run(3) by simp
qed

section \<open>Blocks of a concatenation\<close>

lemma length_concat_uniform:
  assumes "\<And>i. i \<in> set is \<Longrightarrow> length (g i) = k"
  shows "length (concat (map g is)) = k * length is"
  using assms by (induction "is") auto

lemma nth_concat_uniform:
  assumes "\<And>t. t < m \<Longrightarrow> length (g t) = k" and "t < m" and "c < k"
  shows "concat (map g [0..<m]) ! (k * t + c) = g t ! c"
  using assms(1,2)
proof (induction m)
  case 0
  then show ?case by simp
next
  case (Suc m)
  have len: "length (concat (map g [0..<m])) = k * m"
    using Suc.prems(1) by (subst length_concat_uniform [where k = k]) auto
  show ?case
  proof (cases "t = m")
    case True
    with assms(3) len show ?thesis by (simp add: nth_append)
  next
    case False
    with Suc.prems have t: "t < m" by simp
    then have "k * t + k \<le> k * m"
      using mult_le_mono2 [of "Suc t" m k] by simp
    with assms(3) len have "k * t + c < length (concat (map g [0..<m]))" by simp
    with t Suc show ?thesis by (simp add: nth_append)
  qed
qed

text \<open>Reading a byte of block \<open>t\<close>, with a tail after the blocks.\<close>

lemma nth_concat_uniform_append:
  assumes "\<And>t. t < m \<Longrightarrow> length (g t) = k" and "t < m" and "c < k"
  shows "(concat (map g [0..<m]) @ ys) ! (k * t + c) = g t ! c"
proof -
  have len: "length (concat (map g [0..<m])) = k * m"
    using assms(1) by (subst length_concat_uniform [where k = k]) auto
  have "k * t + k \<le> k * m"
    using mult_le_mono2 [of "Suc t" m k] assms(2) by simp
  with assms(3) len have "k * t + c < length (concat (map g [0..<m]))" by simp
  then have "(concat (map g [0..<m]) @ ys) ! (k * t + c) = concat (map g [0..<m]) ! (k * t + c)"
    by (simp only: nth_append if_True)
  also have "\<dots> = g t ! c" by (rule nth_concat_uniform [OF assms])
  finally show ?thesis .
qed

lemma concat_map_singleton: "concat (map (\<lambda>i. [f i]) is) = map f is"
  by (induction "is") auto

section \<open>Counting ones\<close>

text \<open>The number of bits set in a word, and its parity: the specification of the code's tables.\<close>

definition ones :: "'a::len word \<Rightarrow> nat" where
  "ones x = length (filter (bit x) [0..<LENGTH('a)])"

definition parity_of :: "'a::len word \<Rightarrow> bool" where
  "parity_of x \<longleftrightarrow> odd (ones x)"

lemma odd_length_filter_neq:
  "odd (length (filter (\<lambda>i. P i \<noteq> Q i) xs)) \<longleftrightarrow>
   (odd (length (filter P xs)) \<noteq> odd (length (filter Q xs)))"
  by (induction xs) auto

lemma bit_xor_fun: "bit (x XOR y) = (\<lambda>i. bit x i \<noteq> bit y i)" for x y :: "'a::len word"
  by (simp add: fun_eq_iff bit_xor_iff)

lemma parity_of_xor [simp]: "parity_of (x XOR y) \<longleftrightarrow> (parity_of x \<noteq> parity_of y)"
  using odd_length_filter_neq [of "bit x" "bit y" "[0..<LENGTH('a)]"]
  by (simp only: parity_of_def ones_def bit_xor_fun)

lemma parity_of_0 [simp]: "\<not> parity_of 0"
  by (simp add: parity_of_def ones_def)

lemma ones_eq_0_iff: "ones x = 0 \<longleftrightarrow> x = 0"
proof
  assume "ones x = 0"
  then have "\<forall>i < LENGTH('a). \<not> bit x i"
    by (simp add: ones_def filter_empty_conv)
  then show "x = 0" by (intro bit_word_eqI) simp
qed (simp add: ones_def)

lemma xor_zero_iff: "x XOR y = 0 \<longleftrightarrow> x = y" for x y :: "'a::len word"
proof
  assume zero: "x XOR y = 0"
  have "x = (x XOR y) XOR y" by (simp add: xor.assoc)
  also have "\<dots> = y" by (simp only: zero) simp
  finally show "x = y" .
qed simp

lemma ucast_u8_u32_u8 [simp]: "(ucast (ucast (b :: u8) :: u32) :: u8) = b"
  by (rule bit_word_eqI) (simp add: bit_simps)

lemma length_filter_sum: "length (filter P xs) = sum_list (map (\<lambda>x. of_bool (P x)) xs)"
  by (induction xs) auto

lemma ones_xor_le: "ones (x XOR y) \<le> ones x + ones y"
proof -
  have "length (filter (\<lambda>i. P i \<noteq> Q i) xs) \<le> length (filter P xs) + length (filter Q xs)"
    for P Q :: "nat \<Rightarrow> bool" and xs
    by (induction xs) auto
  then show ?thesis
    unfolding ones_def bit_xor_fun .
qed

lemma ones_triangle: "ones (x XOR y) + ones y \<ge> ones x"
  using ones_xor_le [of "x XOR y" y] by (simp add: xor.assoc)

lemma length_filter_eq: "length (filter (\<lambda>i. i = k) [0..<n]) = of_bool (k < n)"
  by (induction n) auto

lemma bit_exp_word: "bit (push_bit k (1 :: 'a::len word)) i \<longleftrightarrow> i = k \<and> k < LENGTH('a)"
  by (simp only: bit_push_bit_iff bit_1_iff) auto

lemma ones_exp: "k < LENGTH('a) \<Longrightarrow> ones (push_bit k 1 :: 'a::len word) = 1"
proof -
  assume k: "k < LENGTH('a)"
  have "bit (push_bit k 1 :: 'a word) = (\<lambda>i. i = k)"
    using k by (simp add: bit_exp_word fun_eq_iff del: push_bit_of_1)
  then show ?thesis unfolding ones_def using length_filter_eq [of k "LENGTH('a)"] k by simp
qed

lemma ones_take_bit: "m \<le> LENGTH('a) \<Longrightarrow> ones (take_bit m x :: 'a::len word) = length (filter (bit x) [0..<m])"
proof -
  assume "m \<le> LENGTH('a)"
  then have split: "[0..<LENGTH('a)] = [0..<m] @ [m..<LENGTH('a)]"
    by (metis le_add_diff_inverse upt_add_eq_append zero_le)
  have "filter (bit (take_bit m x)) [0..<m] = filter (bit x) [0..<m]"
    by (rule filter_cong) (auto simp: bit_take_bit_iff)
  moreover have "filter (bit (take_bit m x)) [m..<LENGTH('a)] = []"
    by (auto simp: filter_empty_conv bit_take_bit_iff)
  ultimately show ?thesis by (simp only: ones_def split filter_append append_Nil2)
qed

lemma ones_0 [simp]: "ones 0 = 0"
  by (simp add: ones_def)

lemma list_all_upt: "list_all P [0..<n] \<longleftrightarrow> (\<forall>i < n. P i)"
  by (auto simp: list_all_iff)

lemma take_bit_self: "m < 32 \<Longrightarrow> take_bit m w = w \<longleftrightarrow> w < 2 ^ m" for w :: "32 word"
proof -
  assume m: "m < 32"
  have "(2 :: nat) ^ m < 2 ^ 32" using m by (intro power_strict_increasing) simp_all
  then have "unat (of_nat (2 ^ m) :: u32) = 2 ^ m" unfolding unat_of_nat by (intro mod_less) simp
  then have "unat (2 ^ m :: u32) = 2 ^ m" by simp
  then show ?thesis by (simp add: word_less_nat_alt word_unat_eq_iff unsigned_take_bit_eq take_bit_nat_eq_self_iff)
qed

end
