(* ===== verification/Byte_Utilities.thy ===== *)
theory Byte_Utilities
  imports Radio_Prelude
begin

unbundle bit_operations_syntax

text \<open>
  \<^verbatim>\<open>liquid_dsp/src/utility/src/byte_utilities.c\<close> and the counting macros of
  \<^verbatim>\<open>include/liquid.internal.h\<close>: the tables of ones, of parities and of reversed bytes, the
  functions that read them, and the binary dot product. Every routine is shown equal to its
  bitwise specification (\<open>ones\<close>, \<open>parity_of\<close>, reversal of the bit order). The build has
  4-byte integers, so the \<^verbatim>\<open>SIZEOF_INT == 4\<close> branches are the ones modelled.
\<close>

section \<open>Tables\<close>

definition liquid_c_ones :: "nat list" where
  "liquid_c_ones = [
    0, 1, 1, 2, 1, 2, 2, 3, 1, 2, 2, 3, 2, 3, 3, 4,
    1, 2, 2, 3, 2, 3, 3, 4, 2, 3, 3, 4, 3, 4, 4, 5,
    1, 2, 2, 3, 2, 3, 3, 4, 2, 3, 3, 4, 3, 4, 4, 5,
    2, 3, 3, 4, 3, 4, 4, 5, 3, 4, 4, 5, 4, 5, 5, 6,
    1, 2, 2, 3, 2, 3, 3, 4, 2, 3, 3, 4, 3, 4, 4, 5,
    2, 3, 3, 4, 3, 4, 4, 5, 3, 4, 4, 5, 4, 5, 5, 6,
    2, 3, 3, 4, 3, 4, 4, 5, 3, 4, 4, 5, 4, 5, 5, 6,
    3, 4, 4, 5, 4, 5, 5, 6, 4, 5, 5, 6, 5, 6, 6, 7,
    1, 2, 2, 3, 2, 3, 3, 4, 2, 3, 3, 4, 3, 4, 4, 5,
    2, 3, 3, 4, 3, 4, 4, 5, 3, 4, 4, 5, 4, 5, 5, 6,
    2, 3, 3, 4, 3, 4, 4, 5, 3, 4, 4, 5, 4, 5, 5, 6,
    3, 4, 4, 5, 4, 5, 5, 6, 4, 5, 5, 6, 5, 6, 6, 7,
    2, 3, 3, 4, 3, 4, 4, 5, 3, 4, 4, 5, 4, 5, 5, 6,
    3, 4, 4, 5, 4, 5, 5, 6, 4, 5, 5, 6, 5, 6, 6, 7,
    3, 4, 4, 5, 4, 5, 5, 6, 4, 5, 5, 6, 5, 6, 6, 7,
    4, 5, 5, 6, 5, 6, 6, 7, 5, 6, 6, 7, 6, 7, 7, 8]"

definition liquid_c_ones_mod2 :: "nat list" where
  "liquid_c_ones_mod2 = [
    0, 1, 1, 0, 1, 0, 0, 1, 1, 0, 0, 1, 0, 1, 1, 0,
    1, 0, 0, 1, 0, 1, 1, 0, 0, 1, 1, 0, 1, 0, 0, 1,
    1, 0, 0, 1, 0, 1, 1, 0, 0, 1, 1, 0, 1, 0, 0, 1,
    0, 1, 1, 0, 1, 0, 0, 1, 1, 0, 0, 1, 0, 1, 1, 0,
    1, 0, 0, 1, 0, 1, 1, 0, 0, 1, 1, 0, 1, 0, 0, 1,
    0, 1, 1, 0, 1, 0, 0, 1, 1, 0, 0, 1, 0, 1, 1, 0,
    0, 1, 1, 0, 1, 0, 0, 1, 1, 0, 0, 1, 0, 1, 1, 0,
    1, 0, 0, 1, 0, 1, 1, 0, 0, 1, 1, 0, 1, 0, 0, 1,
    1, 0, 0, 1, 0, 1, 1, 0, 0, 1, 1, 0, 1, 0, 0, 1,
    0, 1, 1, 0, 1, 0, 0, 1, 1, 0, 0, 1, 0, 1, 1, 0,
    0, 1, 1, 0, 1, 0, 0, 1, 1, 0, 0, 1, 0, 1, 1, 0,
    1, 0, 0, 1, 0, 1, 1, 0, 0, 1, 1, 0, 1, 0, 0, 1,
    0, 1, 1, 0, 1, 0, 0, 1, 1, 0, 0, 1, 0, 1, 1, 0,
    1, 0, 0, 1, 0, 1, 1, 0, 0, 1, 1, 0, 1, 0, 0, 1,
    1, 0, 0, 1, 0, 1, 1, 0, 0, 1, 1, 0, 1, 0, 0, 1,
    0, 1, 1, 0, 1, 0, 0, 1, 1, 0, 0, 1, 0, 1, 1, 0]"

definition liquid_reverse_byte_gentab :: "u8 list" where
  "liquid_reverse_byte_gentab = [
    0x00, 0x80, 0x40, 0xc0, 0x20, 0xa0, 0x60, 0xe0,
    0x10, 0x90, 0x50, 0xd0, 0x30, 0xb0, 0x70, 0xf0,
    0x08, 0x88, 0x48, 0xc8, 0x28, 0xa8, 0x68, 0xe8,
    0x18, 0x98, 0x58, 0xd8, 0x38, 0xb8, 0x78, 0xf8,
    0x04, 0x84, 0x44, 0xc4, 0x24, 0xa4, 0x64, 0xe4,
    0x14, 0x94, 0x54, 0xd4, 0x34, 0xb4, 0x74, 0xf4,
    0x0c, 0x8c, 0x4c, 0xcc, 0x2c, 0xac, 0x6c, 0xec,
    0x1c, 0x9c, 0x5c, 0xdc, 0x3c, 0xbc, 0x7c, 0xfc,
    0x02, 0x82, 0x42, 0xc2, 0x22, 0xa2, 0x62, 0xe2,
    0x12, 0x92, 0x52, 0xd2, 0x32, 0xb2, 0x72, 0xf2,
    0x0a, 0x8a, 0x4a, 0xca, 0x2a, 0xaa, 0x6a, 0xea,
    0x1a, 0x9a, 0x5a, 0xda, 0x3a, 0xba, 0x7a, 0xfa,
    0x06, 0x86, 0x46, 0xc6, 0x26, 0xa6, 0x66, 0xe6,
    0x16, 0x96, 0x56, 0xd6, 0x36, 0xb6, 0x76, 0xf6,
    0x0e, 0x8e, 0x4e, 0xce, 0x2e, 0xae, 0x6e, 0xee,
    0x1e, 0x9e, 0x5e, 0xde, 0x3e, 0xbe, 0x7e, 0xfe,
    0x01, 0x81, 0x41, 0xc1, 0x21, 0xa1, 0x61, 0xe1,
    0x11, 0x91, 0x51, 0xd1, 0x31, 0xb1, 0x71, 0xf1,
    0x09, 0x89, 0x49, 0xc9, 0x29, 0xa9, 0x69, 0xe9,
    0x19, 0x99, 0x59, 0xd9, 0x39, 0xb9, 0x79, 0xf9,
    0x05, 0x85, 0x45, 0xc5, 0x25, 0xa5, 0x65, 0xe5,
    0x15, 0x95, 0x55, 0xd5, 0x35, 0xb5, 0x75, 0xf5,
    0x0d, 0x8d, 0x4d, 0xcd, 0x2d, 0xad, 0x6d, 0xed,
    0x1d, 0x9d, 0x5d, 0xdd, 0x3d, 0xbd, 0x7d, 0xfd,
    0x03, 0x83, 0x43, 0xc3, 0x23, 0xa3, 0x63, 0xe3,
    0x13, 0x93, 0x53, 0xd3, 0x33, 0xb3, 0x73, 0xf3,
    0x0b, 0x8b, 0x4b, 0xcb, 0x2b, 0xab, 0x6b, 0xeb,
    0x1b, 0x9b, 0x5b, 0xdb, 0x3b, 0xbb, 0x7b, 0xfb,
    0x07, 0x87, 0x47, 0xc7, 0x27, 0xa7, 0x67, 0xe7,
    0x17, 0x97, 0x57, 0xd7, 0x37, 0xb7, 0x77, 0xf7,
    0x0f, 0x8f, 0x4f, 0xcf, 0x2f, 0xaf, 0x6f, 0xef,
    0x1f, 0x9f, 0x5f, 0xdf, 0x3f, 0xbf, 0x7f, 0xff]"

section \<open>Operations\<close>

definition liquid_count_ones_uint16 :: "u32 \<Rightarrow> nat" where
  "liquid_count_ones_uint16 x =
     liquid_c_ones ! unat (x AND 0xff) + liquid_c_ones ! unat (drop_bit 8 x AND 0xff)"

definition liquid_count_ones_uint24 :: "u32 \<Rightarrow> nat" where
  "liquid_count_ones_uint24 x =
     liquid_c_ones ! unat (x AND 0xff) + liquid_c_ones ! unat (drop_bit 8 x AND 0xff) +
     liquid_c_ones ! unat (drop_bit 16 x AND 0xff)"

definition liquid_count_ones_uint32 :: "u32 \<Rightarrow> nat" where
  "liquid_count_ones_uint32 x =
     liquid_c_ones ! unat (x AND 0xff) + liquid_c_ones ! unat (drop_bit 8 x AND 0xff) +
     liquid_c_ones ! unat (drop_bit 16 x AND 0xff) + liquid_c_ones ! unat (drop_bit 24 x AND 0xff)"

definition liquid_count_ones :: "u32 \<Rightarrow> nat" where
  "liquid_count_ones x = liquid_count_ones_uint32 x"

definition liquid_count_ones_mod2_uint16 :: "u32 \<Rightarrow> nat" where
  "liquid_count_ones_mod2_uint16 x =
     (liquid_c_ones_mod2 ! unat (x AND 0xff) + liquid_c_ones_mod2 ! unat (drop_bit 8 x AND 0xff)) mod 2"

definition liquid_count_ones_mod2_uint32 :: "u32 \<Rightarrow> nat" where
  "liquid_count_ones_mod2_uint32 x =
     (liquid_c_ones_mod2 ! unat (x AND 0xff) + liquid_c_ones_mod2 ! unat (drop_bit 8 x AND 0xff) +
      liquid_c_ones_mod2 ! unat (drop_bit 16 x AND 0xff) +
      liquid_c_ones_mod2 ! unat (drop_bit 24 x AND 0xff)) mod 2"

definition liquid_count_ones_mod2 :: "u32 \<Rightarrow> nat" where
  "liquid_count_ones_mod2 x = liquid_count_ones_mod2_uint32 x"

text \<open>The dot products return an \<^verbatim>\<open>unsigned int\<close> bit that their callers shift into place.\<close>

definition liquid_bdotprod_uint8 :: "u8 \<Rightarrow> u8 \<Rightarrow> u32" where
  "liquid_bdotprod_uint8 x y = of_nat (liquid_c_ones_mod2 ! unat (x AND y))"

definition liquid_bdotprod_uint16 :: "u32 \<Rightarrow> u32 \<Rightarrow> u32" where
  "liquid_bdotprod_uint16 x y = of_nat (liquid_count_ones_mod2_uint16 (x AND y))"

definition liquid_bdotprod_uint32 :: "u32 \<Rightarrow> u32 \<Rightarrow> u32" where
  "liquid_bdotprod_uint32 x y = of_nat (liquid_count_ones_mod2_uint32 (x AND y))"

definition liquid_bdotprod :: "u32 \<Rightarrow> u32 \<Rightarrow> u32" where
  "liquid_bdotprod x y = (let t = x AND y in of_nat (liquid_count_ones_mod2_uint32 t))"

definition count_bit_errors :: "u32 \<Rightarrow> u32 \<Rightarrow> nat" where
  "count_bit_errors s1 s2 = liquid_count_ones (s1 XOR s2)"

fun count_bit_errors_loop :: "bytes \<Rightarrow> bytes \<Rightarrow> nat list \<Rightarrow> nat \<Rightarrow> nat" where
  "count_bit_errors_loop msg0 msg1 [] num_bit_errors = num_bit_errors"
| "count_bit_errors_loop msg0 msg1 (i # is) num_bit_errors =
     count_bit_errors_loop msg0 msg1 is
       (num_bit_errors + liquid_c_ones ! unat (msg0 ! i XOR msg1 ! i))"

definition count_bit_errors_array :: "bytes \<Rightarrow> bytes \<Rightarrow> nat \<Rightarrow> nat" where
  "count_bit_errors_array msg0 msg1 n = count_bit_errors_loop msg0 msg1 [0..<n] 0"

fun liquid_reverse_byte_loop :: "nat \<Rightarrow> u8 \<Rightarrow> u8 \<Rightarrow> u8" where
  "liquid_reverse_byte_loop 0 x y = y"
| "liquid_reverse_byte_loop (Suc i) x y =
     liquid_reverse_byte_loop i (drop_bit 1 x) (push_bit 1 y OR (x AND 1))"

definition liquid_reverse_byte :: "u8 \<Rightarrow> u8" where
  "liquid_reverse_byte x = liquid_reverse_byte_loop 8 x 0"

definition reverse_lookup :: "u32 \<Rightarrow> u32" where
  "reverse_lookup x = ucast (liquid_reverse_byte_gentab ! unat x)"

definition liquid_reverse_uint16 :: "u32 \<Rightarrow> u32" where
  "liquid_reverse_uint16 x =
     push_bit 8 (reverse_lookup (x AND 0xff)) OR reverse_lookup (drop_bit 8 x AND 0xff)"

definition liquid_reverse_uint24 :: "u32 \<Rightarrow> u32" where
  "liquid_reverse_uint24 x =
     push_bit 16 (reverse_lookup (x AND 0xff)) OR
     push_bit 8 (reverse_lookup (drop_bit 8 x AND 0xff)) OR
     reverse_lookup (drop_bit 16 x AND 0xff)"

definition liquid_reverse_uint32 :: "u32 \<Rightarrow> u32" where
  "liquid_reverse_uint32 x =
     push_bit 24 (reverse_lookup (x AND 0xff)) OR
     push_bit 16 (reverse_lookup (drop_bit 8 x AND 0xff)) OR
     push_bit 8 (reverse_lookup (drop_bit 16 x AND 0xff)) OR
     reverse_lookup (drop_bit 24 x AND 0xff)"

section \<open>The tables against their specification\<close>

lemma upt_256: "[0..<256] =
    [0, 1, 2, 3, 4, 5, 6, 7, 8, 9, 10, 11, 12, 13, 14, 15, 16, 17, 18, 19, 20, 21, 22, 23, 24,
    25, 26, 27, 28, 29, 30, 31, 32, 33, 34, 35, 36, 37, 38, 39, 40, 41, 42, 43, 44, 45, 46,
    47, 48, 49, 50, 51, 52, 53, 54, 55, 56, 57, 58, 59, 60, 61, 62, 63, 64, 65, 66, 67, 68,
    69, 70, 71, 72, 73, 74, 75, 76, 77, 78, 79, 80, 81, 82, 83, 84, 85, 86, 87, 88, 89, 90,
    91, 92, 93, 94, 95, 96, 97, 98, 99, 100, 101, 102, 103, 104, 105, 106, 107, 108, 109, 110,
    111, 112, 113, 114, 115, 116, 117, 118, 119, 120, 121, 122, 123, 124, 125, 126, 127, 128,
    129, 130, 131, 132, 133, 134, 135, 136, 137, 138, 139, 140, 141, 142, 143, 144, 145, 146,
    147, 148, 149, 150, 151, 152, 153, 154, 155, 156, 157, 158, 159, 160, 161, 162, 163, 164,
    165, 166, 167, 168, 169, 170, 171, 172, 173, 174, 175, 176, 177, 178, 179, 180, 181, 182,
    183, 184, 185, 186, 187, 188, 189, 190, 191, 192, 193, 194, 195, 196, 197, 198, 199, 200,
    201, 202, 203, 204, 205, 206, 207, 208, 209, 210, 211, 212, 213, 214, 215, 216, 217, 218,
    219, 220, 221, 222, 223, 224, 225, 226, 227, 228, 229, 230, 231, 232, 233, 234, 235, 236,
    237, 238, 239, 240, 241, 242, 243, 244, 245, 246, 247, 248, 249, 250, 251, 252, 253, 254,
    255]"
  by (simp add: upt_rec_numeral upt_rec [of 0] upt_rec [of "Suc 0"] numeral_2_eq_2 [symmetric])

lemma upt_8: "[0..<8] = [0, 1, 2, 3, 4, 5, 6, 7 :: nat]"
  by code_simp

lemma filter_length_Cons: "length (filter P (x # xs)) = of_bool (P x) + length (filter P xs)"
  by simp

lemma ones_u8: "ones (x :: u8) = of_bool (bit x 0) + of_bool (bit x 1) + of_bool (bit x 2) +
    of_bool (bit x 3) + of_bool (bit x 4) + of_bool (bit x 5) + of_bool (bit x 6) + of_bool (bit x 7)"
proof -
  have "ones x = length (filter (bit x) [0, 1, 2, 3, 4, 5, 6, 7])"
    by (simp only: ones_def upt_8 [symmetric] len_bit0 len_num1) simp
  then show ?thesis by (simp only: filter_length_Cons filter.simps list.size) simp
qed

lemma liquid_c_ones_table: "liquid_c_ones = map (\<lambda>i. ones (word_of_nat i :: u8)) [0..<256]"
  unfolding liquid_c_ones_def upt_256 by (simp add: ones_u8)

lemma liquid_c_ones_mod2_table: "liquid_c_ones_mod2 = map (\<lambda>n. n mod 2) liquid_c_ones"
  by (simp add: liquid_c_ones_mod2_def liquid_c_ones_def)

lemma bit_liquid_reverse_byte_loop:
  "bit (liquid_reverse_byte_loop n x y) i \<longleftrightarrow>
     (if i < n then i < 8 \<and> bit x (n - 1 - i) else i < 8 \<and> bit y (i - n))"
proof (induction n arbitrary: x y)
  case 0
  then show ?case by (auto dest: bit_imp_le_length)
next
  case (Suc n)
  consider "i < n" | "i = n" | "n < i" by linarith
  then show ?case
  proof cases
    case 1
    then have "Suc (n - 1 - i) = n - i" by simp
    with 1 Suc show ?thesis by (simp add: bit_drop_bit_eq)
  next
    case 2
    with Suc show ?thesis by (simp add: bit_or_iff bit_and_iff bit_push_bit_iff bit_1_iff bit_0 even_or_iff even_and_iff)
  next
    case 3
    then have "i - n = Suc (i - Suc n)" by simp
    with 3 Suc show ?thesis
      by (auto simp: bit_or_iff bit_and_iff bit_push_bit_iff bit_1_iff simp del: push_bit_Suc)
  qed
qed

lemma bit_liquid_reverse_byte [bit_rules]:
  "bit (liquid_reverse_byte x) i \<longleftrightarrow> i < 8 \<and> bit x (7 - i)"
  by (simp add: liquid_reverse_byte_def bit_liquid_reverse_byte_loop)

lemma u8_of_bits: "(x :: u8) = of_bool (bit x 0) OR push_bit 1 (of_bool (bit x 1)) OR
    push_bit 2 (of_bool (bit x 2)) OR push_bit 3 (of_bool (bit x 3)) OR
    push_bit 4 (of_bool (bit x 4)) OR push_bit 5 (of_bool (bit x 5)) OR
    push_bit 6 (of_bool (bit x 6)) OR push_bit 7 (of_bool (bit x 7))"
proof (rule bit_word_eqI)
  fix n :: nat assume "n < LENGTH(8)"
  then have "n = 0 \<or> n = 1 \<or> n = 2 \<or> n = 3 \<or> n = 4 \<or> n = 5 \<or> n = 6 \<or> n = 7"
    by (simp only: len_bit0 len_num1) linarith
  then show "bit x n \<longleftrightarrow> bit (of_bool (bit x 0) OR push_bit 1 (of_bool (bit x 1)) OR
    push_bit 2 (of_bool (bit x 2)) OR push_bit 3 (of_bool (bit x 3)) OR
    push_bit 4 (of_bool (bit x 4)) OR push_bit 5 (of_bool (bit x 5)) OR
    push_bit 6 (of_bool (bit x 6)) OR push_bit 7 (of_bool (bit x 7)) :: u8) n"
    by (elim disjE)
      (simp_all add: bit_or_iff bit_push_bit_iff bit_of_bool_iff del: push_bit_Suc One_nat_def)
qed

lemma liquid_reverse_byte_bits: "liquid_reverse_byte x = of_bool (bit x 7) OR
    push_bit 1 (of_bool (bit x 6)) OR push_bit 2 (of_bool (bit x 5)) OR
    push_bit 3 (of_bool (bit x 4)) OR push_bit 4 (of_bool (bit x 3)) OR
    push_bit 5 (of_bool (bit x 2)) OR push_bit 6 (of_bool (bit x 1)) OR
    push_bit 7 (of_bool (bit x 0))"
  by (rule trans [OF u8_of_bits]) (simp add: bit_liquid_reverse_byte)

lemma liquid_reverse_byte_gentab_table:
  "liquid_reverse_byte_gentab = map (\<lambda>i. liquid_reverse_byte (word_of_nat i)) [0..<256]"
  unfolding liquid_reverse_byte_gentab_def upt_256 by (simp add: liquid_reverse_byte_bits)

section \<open>Lookups on 32-bit values\<close>

lemma and_255: "(x :: u32) AND 0xff = ucast (ucast x :: u8)"
proof -
  have "x AND 0xff = take_bit 8 x" by (simp add: take_bit_eq_mask mask_numeral)
  also have "\<dots> = ucast (ucast x :: u8)" by (auto intro!: bit_word_eqI simp: bit_simps)
  finally show ?thesis .
qed

lemma unat_and_255: "unat ((x :: u32) AND 0xff) = unat (ucast x :: u8)"
  by (simp only: and_255) (simp add: unsigned_ucast_eq unsigned_take_bit_eq)

lemma unat_u8_less: "unat (x :: u8) < 256"
proof -
  have "unat x < 2 ^ LENGTH(8)" by (rule unsigned_less)
  then show ?thesis by simp
qed

lemma liquid_c_ones_byte: "liquid_c_ones ! unat (x :: u8) = ones x"
  using unat_u8_less [of x] by (simp add: liquid_c_ones_table)

lemma liquid_c_ones_mod2_byte: "liquid_c_ones_mod2 ! unat (x :: u8) = ones x mod 2"
  using unat_u8_less [of x] by (simp add: liquid_c_ones_mod2_table liquid_c_ones_table)

lemma liquid_c_ones_lookup: "liquid_c_ones ! unat (x AND 0xff :: u32) = ones (ucast x :: u8)"
  by (simp only: unat_and_255 liquid_c_ones_byte)

lemma liquid_c_ones_mod2_lookup:
  "liquid_c_ones_mod2 ! unat (x AND 0xff :: u32) = ones (ucast x :: u8) mod 2"
  by (simp only: unat_and_255 liquid_c_ones_mod2_byte)

lemma reverse_lookup_byte:
  "reverse_lookup (x AND 0xff) = ucast (liquid_reverse_byte (ucast x))"
  using unat_u8_less [of "ucast x"]
  by (simp add: reverse_lookup_def unat_and_255 liquid_reverse_byte_gentab_table)

lemma bit_reverse_lookup [bit_rules]:
  "bit (reverse_lookup (drop_bit k x AND 0xff)) i \<longleftrightarrow> i < 8 \<and> bit x (k + 7 - i)"
  by (auto simp: reverse_lookup_byte bit_ucast_iff bit_liquid_reverse_byte bit_drop_bit_eq
      dest: bit_imp_le_length)

lemma ones_split: "ones (x :: u32) = ones (ucast x :: u8) + ones (ucast (drop_bit 8 x) :: u8) +
    ones (ucast (drop_bit 16 x) :: u8) + ones (ucast (drop_bit 24 x) :: u8)"
proof -
  have byte: "ones (ucast (drop_bit k x) :: u8) = length (filter (bit x) [k..<k + 8])" for k
  proof -
    have "[k..<k + 8] = map (\<lambda>i. k + i) [0..<8]"
      by (simp add: map_add_upt add.commute)
    then have "length (filter (bit x) [k..<k + 8]) = length (filter (\<lambda>i. bit x (k + i)) [0..<8])"
      by (simp add: filter_map comp_def)
    moreover have "filter (bit (ucast (drop_bit k x) :: u8)) [0..<8] =
        filter (\<lambda>i. bit x (k + i)) [0..<8]"
      by (rule filter_cong) (auto simp: bit_ucast_iff bit_drop_bit_eq)
    ultimately show ?thesis by (simp add: ones_def)
  qed
  have "[0..<32] = [0..<8] @ [8..<16] @ [16..<24] @ [24..<32 :: nat]" by code_simp
  then show ?thesis
    using byte [of 0] byte [of 8] byte [of 16] byte [of 24] by (simp add: ones_def)
qed

lemma ones_take_bit_split: "ones (take_bit 16 x :: u32) = ones (ucast x :: u8) + ones (ucast (drop_bit 8 x) :: u8)"
proof -
  have *: "ucast (take_bit 16 x) = (ucast x :: u8)"
      "ucast (drop_bit 8 (take_bit 16 x)) = (ucast (drop_bit 8 x) :: u8)"
      "ucast (drop_bit 16 (take_bit 16 x)) = (0 :: u8)" "ucast (drop_bit 24 (take_bit 16 x)) = (0 :: u8)"
    by (auto intro!: bit_word_eqI simp: bit_simps)
  show ?thesis by (subst ones_split) (simp only: *, simp add: ones_def)
qed

section \<open>Counting and dot products\<close>

lemma liquid_count_ones_uint32_ones: "liquid_count_ones_uint32 x = ones x"
  by (simp only: liquid_count_ones_uint32_def liquid_c_ones_lookup ones_split [of x])

lemma liquid_count_ones_ones: "liquid_count_ones x = ones x"
  by (simp only: liquid_count_ones_def liquid_count_ones_uint32_ones)

lemma liquid_count_ones_uint16_ones: "liquid_count_ones_uint16 x = ones (take_bit 16 x)"
  by (simp only: liquid_count_ones_uint16_def liquid_c_ones_lookup ones_take_bit_split)

lemma liquid_count_ones_uint24_ones: "liquid_count_ones_uint24 x = ones (take_bit 24 x)"
proof -
  have *: "ucast (take_bit 24 x) = (ucast x :: u8)"
      "ucast (drop_bit 8 (take_bit 24 x)) = (ucast (drop_bit 8 x) :: u8)"
      "ucast (drop_bit 16 (take_bit 24 x)) = (ucast (drop_bit 16 x) :: u8)"
      "ucast (drop_bit 24 (take_bit 24 x)) = (0 :: u8)"
    by (auto intro!: bit_word_eqI simp: bit_simps)
  show ?thesis
    by (simp only: liquid_count_ones_uint24_def liquid_c_ones_lookup ones_split [of "take_bit 24 x"] *)
      (simp add: ones_def)
qed

lemma add_mod2_add_mod2: "(a mod 2 + b mod 2 + c mod 2 + d mod 2) mod 2 = (a + b + c + d) mod (2 :: nat)"
  by (simp add: mod2_eq_if)

lemma liquid_count_ones_mod2_uint32_parity:
  "liquid_count_ones_mod2_uint32 x = of_bool (parity_of x)"
  unfolding liquid_count_ones_mod2_uint32_def liquid_c_ones_mod2_lookup add_mod2_add_mod2
    ones_split [of x, symmetric] parity_of_def
  by (simp add: mod_2_eq_odd)

lemma liquid_count_ones_mod2_parity: "liquid_count_ones_mod2 x = of_bool (parity_of x)"
  by (simp only: liquid_count_ones_mod2_def liquid_count_ones_mod2_uint32_parity)

lemma liquid_count_ones_mod2_uint16_parity:
  "liquid_count_ones_mod2_uint16 x = of_bool (parity_of (take_bit 16 x))"
  unfolding liquid_count_ones_mod2_uint16_def liquid_c_ones_mod2_lookup parity_of_def
    ones_take_bit_split
  by (simp add: mod_2_eq_odd)

lemma liquid_bdotprod_parity: "liquid_bdotprod x y = of_bool (parity_of (x AND y))"
  by (simp add: liquid_bdotprod_def liquid_count_ones_mod2_uint32_parity)

lemma liquid_bdotprod_uint32_parity: "liquid_bdotprod_uint32 x y = of_bool (parity_of (x AND y))"
  by (simp add: liquid_bdotprod_uint32_def liquid_count_ones_mod2_uint32_parity)

lemma liquid_bdotprod_uint16_parity:
  "liquid_bdotprod_uint16 x y = of_bool (parity_of (take_bit 16 (x AND y)))"
  by (simp only: liquid_bdotprod_uint16_def liquid_count_ones_mod2_uint16_parity of_nat_of_bool)

lemma liquid_bdotprod_uint8_parity: "liquid_bdotprod_uint8 x y = of_bool (parity_of (x AND y))"
  by (simp add: liquid_bdotprod_uint8_def liquid_c_ones_mod2_byte parity_of_def mod_2_eq_odd)

lemma and_xor_distrib: "(x :: 'a::len word) AND (y XOR z) = (x AND y) XOR (x AND z)"
  by (auto intro!: bit_word_eqI simp: bit_simps)

lemma of_bool_neq_xor: "(of_bool (p \<noteq> q) :: 'a::len word) = of_bool p XOR of_bool q"
  by (cases p; cases q) simp_all

lemma liquid_bdotprod_xor:
  "liquid_bdotprod x (y XOR z) = liquid_bdotprod x y XOR liquid_bdotprod x z"
  by (simp only: liquid_bdotprod_parity and_xor_distrib parity_of_xor of_bool_neq_xor)

section \<open>Hamming distance\<close>

lemma count_bit_errors_distance: "count_bit_errors s1 s2 = ones (s1 XOR s2)"
  by (simp only: count_bit_errors_def liquid_count_ones_ones)

lemma count_bit_errors_loop_sum:
  "count_bit_errors_loop msg0 msg1 is acc =
     acc + (\<Sum>i\<leftarrow>is. ones (msg0 ! i XOR msg1 ! i))"
  by (induction "is" arbitrary: acc) (simp_all add: liquid_c_ones_byte)

lemma count_bit_errors_array_distance:
  "count_bit_errors_array msg0 msg1 n = (\<Sum>i\<leftarrow>[0..<n]. ones (msg0 ! i XOR msg1 ! i))"
  by (simp add: count_bit_errors_array_def count_bit_errors_loop_sum)

lemma ones_byte_xor_0_iff: "ones (x XOR y) = 0 \<longleftrightarrow> x = y"
  by (simp only: ones_eq_0_iff) (metis xor.right_neutral xor_self_eq xor.left_commute)

section \<open>Reversal\<close>

lemma liquid_reverse_byte_lookup:
  "liquid_reverse_byte_gentab ! unat (x :: u8) = liquid_reverse_byte x"
  using unat_u8_less [of x] by (simp add: liquid_reverse_byte_gentab_table)

lemma liquid_reverse_byte_invol: "liquid_reverse_byte (liquid_reverse_byte x) = x"
  by (rule bit_word_eqI) (simp add: bit_liquid_reverse_byte diff_less_iff)

lemma bit_liquid_reverse_uint16 [bit_rules]:
  "bit (liquid_reverse_uint16 x) i \<longleftrightarrow> i < 16 \<and> bit x (15 - i)"
proof -
  consider "i < 8" | "8 \<le> i" "i < 16" | "16 \<le> i" by linarith
  then show ?thesis
    using bit_reverse_lookup [of 0 x]
    by cases
      (simp_all add: liquid_reverse_uint16_def bit_or_iff bit_push_bit_iff bit_reverse_lookup
        diff_less_iff)
qed

lemma bit_liquid_reverse_uint24 [bit_rules]:
  "bit (liquid_reverse_uint24 x) i \<longleftrightarrow> i < 24 \<and> bit x (23 - i)"
proof -
  consider "i < 8" | "8 \<le> i" "i < 16" | "16 \<le> i" "i < 24" | "24 \<le> i" by linarith
  then show ?thesis
    using bit_reverse_lookup [of 0 x]
    by cases
      (simp_all add: liquid_reverse_uint24_def bit_or_iff bit_push_bit_iff bit_reverse_lookup
        diff_less_iff)
qed

lemma bit_liquid_reverse_uint32 [bit_rules]:
  "bit (liquid_reverse_uint32 x) i \<longleftrightarrow> i < 32 \<and> bit x (31 - i)"
proof -
  consider "i < 8" | "8 \<le> i" "i < 16" | "16 \<le> i" "i < 24" | "24 \<le> i" "i < 32" | "32 \<le> i"
    by linarith
  then show ?thesis
    using bit_reverse_lookup [of 0 x]
    by cases
      (simp_all add: liquid_reverse_uint32_def bit_or_iff bit_push_bit_iff bit_reverse_lookup
        diff_less_iff)
qed

lemma liquid_reverse_uint32_invol: "liquid_reverse_uint32 (liquid_reverse_uint32 x) = x"
  by (rule bit_word_eqI) (simp add: bit_liquid_reverse_uint32 diff_less_iff)

section \<open>Properties\<close>

text \<open>C24: The table-driven bit counting equals the mathematical definition on every 32-bit word:
  \<open>liquid_count_ones\<close> is the number of bits set, \<open>count_bit_errors\<close> is the Hamming distance of its
  arguments, and \<open>liquid_bdotprod\<close> is the parity of the bitwise product.\<close>
theorem bit_counting_correct:
  "liquid_count_ones x = ones x \<and>
   count_bit_errors x y = ones (x XOR y) \<and>
   liquid_bdotprod x y = of_bool (odd (ones (x AND y))) \<and>
   liquid_count_ones_mod2 x = ones x mod 2"
  by (simp add: liquid_count_ones_ones count_bit_errors_distance liquid_bdotprod_parity
      liquid_count_ones_mod2_parity parity_of_def mod_2_eq_odd)

text \<open>The reversal routines reverse the order of the bits: for 32-bit words bit \<open>i\<close> of the result is
  bit \<open>31 - i\<close> of the argument (so reversing twice is the identity), and the table of reversed bytes
  agrees with the loop \<open>liquid_reverse_byte\<close> at every index.\<close>
theorem bit_reversal_correct:
  "bit (liquid_reverse_uint32 x) i = (i < 32 \<and> bit x (31 - i)) \<and>
   liquid_reverse_uint32 (liquid_reverse_uint32 x) = x \<and>
   liquid_reverse_byte_gentab ! unat b = liquid_reverse_byte b"
  by (simp only: bit_liquid_reverse_uint32 liquid_reverse_uint32_invol liquid_reverse_byte_lookup)

end
