(* ===== verification/Msb_Index.thy ===== *)
theory Msb_Index
  imports Byte_Utilities
begin

unbundle bit_operations_syntax

text \<open>
  \<^verbatim>\<open>liquid_dsp/src/utility/src/msb_index.c\<close>: the position of the most significant bit of a
  32-bit word. The portable branch walks the bytes from the top and reads a table; on x86 the
  function is a \<^verbatim>\<open>bsr\<close> instruction behind a test for zero. The instruction is modelled by what
  it computes, the index of the highest bit set, and both branches are shown to agree.
\<close>

definition liquid_c_leading_zeros :: "nat list" where
  "liquid_c_leading_zeros = [
    8, 7, 6, 6, 5, 5, 5, 5, 4, 4, 4, 4, 4, 4, 4, 4, 3, 3, 3, 3, 3, 3, 3, 3, 3,
    3, 3, 3, 3, 3, 3, 3, 2, 2, 2, 2, 2, 2, 2, 2, 2, 2, 2, 2, 2, 2, 2, 2, 2, 2,
    2, 2, 2, 2, 2, 2, 2, 2, 2, 2, 2, 2, 2, 2, 1, 1, 1, 1, 1, 1, 1, 1, 1, 1, 1,
    1, 1, 1, 1, 1, 1, 1, 1, 1, 1, 1, 1, 1, 1, 1, 1, 1, 1, 1, 1, 1, 1, 1, 1, 1,
    1, 1, 1, 1, 1, 1, 1, 1, 1, 1, 1, 1, 1, 1, 1, 1, 1, 1, 1, 1, 1, 1, 1, 1, 1,
    1, 1, 1, 0, 0, 0, 0, 0, 0, 0, 0, 0, 0, 0, 0, 0, 0, 0, 0, 0, 0, 0, 0, 0, 0,
    0, 0, 0, 0, 0, 0, 0, 0, 0, 0, 0, 0, 0, 0, 0, 0, 0, 0, 0, 0, 0, 0, 0, 0, 0,
    0, 0, 0, 0, 0, 0, 0, 0, 0, 0, 0, 0, 0, 0, 0, 0, 0, 0, 0, 0, 0, 0, 0, 0, 0,
    0, 0, 0, 0, 0, 0, 0, 0, 0, 0, 0, 0, 0, 0, 0, 0, 0, 0, 0, 0, 0, 0, 0, 0, 0,
    0, 0, 0, 0, 0, 0, 0, 0, 0, 0, 0, 0, 0, 0, 0, 0, 0, 0, 0, 0, 0, 0, 0, 0, 0,
    0, 0, 0, 0, 0, 0]"

text \<open>The portable branch: \<open>i\<close> is the loop variable, \<open>bits\<close> the running result.\<close>

fun msb_index_loop :: "u32 \<Rightarrow> nat list \<Rightarrow> nat \<Rightarrow> nat" where
  "msb_index_loop x [] bits = 0"
| "msb_index_loop x (i # is) bits =
     (let b = drop_bit (i - 8) x AND 0xff
      in if b \<noteq> 0 then bits - liquid_c_leading_zeros ! unat b
         else msb_index_loop x is (bits - 8))"

definition liquid_msb_index :: "u32 \<Rightarrow> nat" where
  "liquid_msb_index x = msb_index_loop x [32, 24, 16, 8] 32"

text \<open>The x86 branch: \<^verbatim>\<open>bsr\<close> gives the index of the highest bit set of a non-zero operand.\<close>

fun bsr_from :: "nat \<Rightarrow> u32 \<Rightarrow> nat" where
  "bsr_from 0 x = 0"
| "bsr_from (Suc n) x = (if bit x n then n else bsr_from n x)"

definition liquid_msb_index_x86 :: "u32 \<Rightarrow> nat" where
  "liquid_msb_index_x86 x = (if x = 0 then 0 else bsr_from 32 x + 1)"

definition liquid_count_leading_zeros :: "u32 \<Rightarrow> nat" where
  "liquid_count_leading_zeros x = 4 * 8 - liquid_msb_index x"

section \<open>The table against its specification\<close>

text \<open>The number of significant bits of a value: the position of the top bit, counted from 1.\<close>

fun bit_width :: "nat \<Rightarrow> nat" where
  "bit_width n = (if n = 0 then 0 else Suc (bit_width (n div 2)))"

declare bit_width.simps [simp del]

lemma bit_width_0 [simp]: "bit_width 0 = 0"
  by (simp add: bit_width.simps)

lemma bit_width_numeral [simp]: "bit_width (numeral k) = Suc (bit_width (numeral k div 2))"
  by (simp add: bit_width.simps [of "numeral k"])

lemma bit_width_1 [simp]: "bit_width (Suc 0) = Suc 0"
  by (simp add: bit_width.simps [of "Suc 0"])

lemma bit_width_less_iff: "bit_width n \<le> k \<longleftrightarrow> n < 2 ^ k"
proof (induction n arbitrary: k rule: bit_width.induct)
  case (1 n)
  show ?case
  proof (cases "n = 0")
    case False
    then have bw: "bit_width n = Suc (bit_width (n div 2))" by (subst bit_width.simps) simp
    show ?thesis
    proof (cases k)
      case (Suc j)
      have "n div 2 < 2 ^ j \<longleftrightarrow> n < 2 * 2 ^ j" by (simp add: div_less_iff_less_mult mult.commute)
      with Suc show ?thesis by (simp add: bw 1 [OF False])
    qed (use False bw in simp)
  qed simp
qed

lemma bit_width_eqI: "2 ^ k \<le> n \<Longrightarrow> n < 2 ^ Suc k \<Longrightarrow> bit_width n = Suc k"
  using bit_width_less_iff [of n k] bit_width_less_iff [of n "Suc k"] by simp

lemma byte_width_cases: "n < 256 \<Longrightarrow> 8 - bit_width n =
   (if n < 1 then 8 else if n < 2 then 7 else if n < 4 then 6 else if n < 8 then 5
    else if n < 16 then 4 else if n < 32 then 3 else if n < 64 then 2 else if n < 128 then 1 else 0)"
proof -
  assume "n < 256"
  then consider "n = 0" | "1 \<le> n" "n < 2" | "2 \<le> n" "n < 4" | "4 \<le> n" "n < 8" | "8 \<le> n" "n < 16"
    | "16 \<le> n" "n < 32" | "32 \<le> n" "n < 64" | "64 \<le> n" "n < 128" | "128 \<le> n" "n < 256"
    by linarith
  then show ?thesis
    using bit_width_eqI [of 0 n] bit_width_eqI [of 1 n] bit_width_eqI [of 2 n] bit_width_eqI [of 3 n]
      bit_width_eqI [of 4 n] bit_width_eqI [of 5 n] bit_width_eqI [of 6 n] bit_width_eqI [of 7 n]
    by cases simp_all
qed

lemma liquid_c_leading_zeros_table: "liquid_c_leading_zeros = map (\<lambda>i. 8 - bit_width i) [0..<256]"
  unfolding liquid_c_leading_zeros_def upt_256 by (simp add: byte_width_cases del: bit_width_numeral)

lemma liquid_c_leading_zeros_lookup:
  "liquid_c_leading_zeros ! unat (x :: u8) = 8 - bit_width (unat x)"
  using unat_u8_less [of x] by (simp add: liquid_c_leading_zeros_table)

section \<open>The two branches\<close>

lemma bit_width_drop:
  assumes "drop_bit k n = b" and "b \<noteq> 0"
  shows "bit_width n = k + bit_width b"
  using assms
proof (induction k arbitrary: n)
  case (Suc k)
  then have "bit_width (n div 2) = k + bit_width b" by (simp add: drop_bit_Suc)
  moreover from Suc.prems have "n \<noteq> 0" by (intro notI) simp
  ultimately show ?case by (simp add: bit_width.simps [of n])
qed simp

lemma unat_drop_bit: "unat (drop_bit k x) = drop_bit k (unat x)"
  by (rule bit_eqI) (simp add: bit_simps)

lemma byte_at_top:
  assumes "unat (x :: u32) < 2 ^ (k + 8)"
  shows "unat (drop_bit k x AND 0xff) = drop_bit k (unat x)"
proof -
  have "drop_bit k (unat x) < 2 ^ 8"
    using assms by (simp add: drop_bit_eq_div power_add less_mult_imp_div_less mult.commute)
  then show ?thesis
    unfolding and_255 
    by (simp add: unsigned_ucast_eq unsigned_take_bit_eq unat_drop_bit take_bit_nat_eq_self)
qed

lemma msb_index_step:
  assumes "unat x < 2 ^ (k + 8)"
  shows "msb_index_loop x ((k + 8) # is) (k + 8) =
     (if unat x < 2 ^ k then msb_index_loop x is k else bit_width (unat x))"
proof -
  let ?b = "drop_bit k x AND 0xff"
  have b: "unat ?b = drop_bit k (unat x)" by (rule byte_at_top [OF assms])
  show ?thesis
  proof (cases "unat x < 2 ^ k")
    case True
    then have "unat ?b = 0" unfolding b by (simp add: drop_bit_eq_div)
    then have "?b = 0" by (simp only: unat_eq_0)
    with True show ?thesis by simp
  next
    case False
    then have nz: "drop_bit k (unat x) \<noteq> 0" by (simp add: drop_bit_eq_div div_eq_0_iff)
    with b have "?b \<noteq> 0" by (metis unsigned_0)
    have bw: "bit_width (unat x) = k + bit_width (unat ?b)"
      by (rule bit_width_drop) (use b nz in auto)
    have "bit_width (unat x) \<le> k + 8" using assms by (simp only: bit_width_less_iff)
    with bw have "bit_width (unat ?b) \<le> 8" by simp
    moreover have "liquid_c_leading_zeros ! unat ?b = 8 - bit_width (unat ?b)"
      using liquid_c_leading_zeros_lookup by (simp only: unat_and_255)
    ultimately show ?thesis using False \<open>?b \<noteq> 0\<close> bw by simp
  qed
qed

lemma unat_u32_less: "unat (x :: u32) < 2 ^ 32"
proof -
  have "unat x < 2 ^ LENGTH(32)" by (rule unsigned_less)
  then show ?thesis by simp
qed

lemma liquid_msb_index_bit_width: "liquid_msb_index x = bit_width (unat x)"
proof -
  have loop: "msb_index_loop x [32, 24, 16, 8] 32 =
      (if unat x < 2 ^ 24 then
        (if unat x < 2 ^ 16 then
          (if unat x < 2 ^ 8 then (if unat x < 2 ^ 0 then 0 else bit_width (unat x))
           else bit_width (unat x)) else bit_width (unat x)) else bit_width (unat x))"
    using msb_index_step [of x 24 "[24, 16, 8]"] msb_index_step [of x 16 "[16, 8]"]
      msb_index_step [of x 8 "[8]"] msb_index_step [of x 0 "[]"] unat_u32_less [of x]
    by (simp del: msb_index_loop.simps add: msb_index_loop.simps(1))
  show ?thesis unfolding liquid_msb_index_def loop by simp
qed

lemma bsr_from_bit_width:
  assumes "unat x < 2 ^ n" and "x \<noteq> 0" and "n \<le> 32"
  shows "bsr_from n x + 1 = bit_width (unat x)"
  using assms
proof (induction n)
  case 0
  then show ?case by (simp add: unat_eq_0)
next
  case (Suc n)
  show ?case
  proof (cases "bit x n")
    case True
    then have "bit (unat x) n" by (simp add: bit_simps)
    then have "2 ^ n \<le> unat x"
      by (metis bit_iff_odd div_less even_zero not_le)
    with Suc.prems True show ?thesis by (simp add: bit_width_eqI)
  next
    case False
    then have "\<not> bit (unat x) n" by (simp add: bit_unsigned_iff)
    then have "even (unat x div 2 ^ n)" by (simp only: bit_iff_odd) simp
    moreover from Suc.prems(1) have "unat x div 2 ^ n < 2" by (simp add: less_mult_imp_div_less)
    ultimately have "unat x div 2 ^ n = 0" by (auto simp: less_2_cases_iff)
    then have "unat x < 2 ^ n" by (simp add: div_eq_0_iff)
    with Suc False show ?thesis by simp
  qed
qed

lemma liquid_msb_index_x86_bit_width: "liquid_msb_index_x86 x = bit_width (unat x)"
  using bsr_from_bit_width [of x 32] unat_u32_less [of x] by (simp add: liquid_msb_index_x86_def)

section \<open>Properties\<close>

text \<open>Both branches of \<open>liquid_msb_index\<close> compute the same: the portable walk over the bytes
  with its table of leading zeros, and the x86 bit-scan behind its test for zero, give the number of
  significant bits of every 32-bit word, and \<open>liquid_count_leading_zeros\<close> its complement to 32.\<close>
theorem msb_index_branches_agree:
  "liquid_msb_index x = liquid_msb_index_x86 x \<and>
   liquid_msb_index x = bit_width (unat x) \<and>
   liquid_count_leading_zeros x + bit_width (unat x) = 32"
proof -
  have "bit_width (unat x) \<le> 32" using unat_u32_less [of x] by (simp only: bit_width_less_iff)
  then show ?thesis
    by (simp add: liquid_msb_index_bit_width liquid_msb_index_x86_bit_width liquid_count_leading_zeros_def)
qed

end
