(* ===== verification/Pack_Bytes.thy ===== *)
theory Pack_Bytes
  imports Radio_Prelude
begin

unbundle bit_operations_syntax

text \<open>
  \<^verbatim>\<open>liquid_dsp/src/utility/src/pack_bytes.c\<close>: reading and writing a symbol of up to eight bits
  at any bit position of a byte array, packing one-bit symbols into bytes and back, and
  repacking an array of symbols of one size into symbols of another. The arrays are lists; a
  function that fills an output array gives the list of the elements it writes, whose length is
  the \<^verbatim>\<open>*_num_written\<close> of the code, and takes the allocated length for its own check.

  The specification is the stream of bits of an array, most significant bit of each symbol
  first (\<open>sym_bit\<close>). Each operation is described by its effect on that stream, and the round
  trips follow.
\<close>

section \<open>Operations\<close>

definition liquid_pack_array :: "bytes \<Rightarrow> nat \<Rightarrow> nat \<Rightarrow> nat \<Rightarrow> u8 \<Rightarrow> bytes option" where
  "liquid_pack_array src n k b sym_in =
     (if k \<ge> 8 * n then None
      else if b > 8 then None
      else
        let i0 = k div 8;
            b0 = k - 8 * i0
        in if b0 + b > 8
           then let n0 = 8 - b0;
                    n1 = b - n0;
                    mask_0 = drop_bit (8 - n0) 0xff;
                    mask_1 = push_bit (8 - n1) (drop_bit (8 - n1) 0xff);
                    sym_0 = drop_bit n1 sym_in AND mask_0;
                    sym_1 = push_bit (8 - n1) sym_in AND mask_1;
                    src1 = src[i0 := src ! i0 AND NOT mask_0];
                    src2 = src1[i0 := src1 ! i0 OR sym_0]
                in if i0 < n - 1
                   then let src3 = src2[i0 + 1 := src2 ! (i0 + 1) AND NOT mask_1]
                        in Some (src3[i0 + 1 := src3 ! (i0 + 1) OR sym_1])
                   else Some src2
           else let mask_0 = push_bit (8 - b - b0) (drop_bit (8 - b) 0xff);
                    sym_0 = push_bit (8 - b - b0) sym_in AND mask_0;
                    src1 = src[i0 := src ! i0 AND NOT mask_0]
                in Some (src1[i0 := src1 ! i0 OR sym_0]))"

definition liquid_unpack_array :: "bytes \<Rightarrow> nat \<Rightarrow> nat \<Rightarrow> nat \<Rightarrow> u8 option" where
  "liquid_unpack_array src n k b =
     (if k \<ge> 8 * n then None
      else if b > 8 then None
      else
        let i0 = k div 8;
            b0 = k - 8 * i0
        in if b0 + b > 8
           then let n0 = 8 - b0;
                    n1 = b - n0;
                    mask_0 = drop_bit (8 - n0) 0xff;
                    mask_1 = drop_bit (8 - n1) 0xff;
                    sym_0 = src ! i0 AND mask_0;
                    sym_1 = (if i0 = n - 1 then 0 else drop_bit (8 - n1) (src ! (i0 + 1)) AND mask_1)
                in Some (push_bit n1 sym_0 OR sym_1)
           else let mask_0 = push_bit b 1 - 1
                in Some (drop_bit (8 - b - b0) (src ! i0) AND mask_0))"

fun pack_bytes_loop :: "bytes \<Rightarrow> nat list \<Rightarrow> bytes \<Rightarrow> u8 \<Rightarrow> bytes \<times> u8" where
  "pack_bytes_loop sym_in [] sym_out byte = (sym_out, byte)"
| "pack_bytes_loop sym_in (i # is) sym_out byte =
     (let byte = byte OR (sym_in ! i AND 1)
      in if (i + 1) mod 8 = 0 then pack_bytes_loop sym_in is (sym_out @ [byte]) 0
         else pack_bytes_loop sym_in is sym_out (push_bit 1 byte))"

definition liquid_pack_bytes :: "bytes \<Rightarrow> nat \<Rightarrow> nat \<Rightarrow> bytes option" where
  "liquid_pack_bytes sym_in sym_in_len sym_out_len =
     (let req = sym_in_len div 8 + (if sym_in_len mod 8 > 0 then 1 else 0)
      in if sym_out_len < req then None
         else let (sym_out, byte) = pack_bytes_loop sym_in [0..<sym_in_len] [] 0
              in Some (if sym_in_len mod 8 \<noteq> 0 then sym_out @ [drop_bit 1 byte] else sym_out))"

definition unpack_byte :: "u8 \<Rightarrow> bytes" where
  "unpack_byte byte =
     [drop_bit 7 byte AND 1, drop_bit 6 byte AND 1, drop_bit 5 byte AND 1, drop_bit 4 byte AND 1,
      drop_bit 3 byte AND 1, drop_bit 2 byte AND 1, drop_bit 1 byte AND 1, byte AND 1]"

definition liquid_unpack_bytes :: "bytes \<Rightarrow> nat \<Rightarrow> nat \<Rightarrow> bytes option" where
  "liquid_unpack_bytes sym_in sym_in_len sym_out_len =
     (if sym_out_len < 8 * sym_in_len then None
      else for_append [0..<sym_in_len] (\<lambda>i. Some (unpack_byte (sym_in ! i))))"

text \<open>The local variables of the loop of \<^verbatim>\<open>liquid_repack_bytes\<close>.\<close>

record repack_state =
  s_in :: u8
  s_out :: u8
  i_in :: nat
  rk :: nat
  rn :: nat
  sym_out :: bytes

definition repack_step :: "bytes \<Rightarrow> nat \<Rightarrow> nat \<Rightarrow> repack_state \<Rightarrow> repack_state" where
  "repack_step sym_in sym_in_bps sym_out_bps st =
     (let st = st\<lparr>s_out := push_bit 1 (s_out st)\<rparr>;
          st = (if rk st = 0 then st\<lparr>s_in := sym_in ! i_in st, i_in := i_in st + 1\<rparr> else st);
          v = sym_in_bps - rk st - 1;
          st = st\<lparr>s_out := s_out st OR (drop_bit v (s_in st) AND 1)\<rparr>;
          st = (if rn st = sym_out_bps - 1
                then st\<lparr>sym_out := sym_out st @ [s_out st], s_out := 0\<rparr> else st)
      in st\<lparr>rk := (rk st + 1) mod sym_in_bps, rn := (rn st + 1) mod sym_out_bps\<rparr>)"

fun repack_loop :: "nat \<Rightarrow> bytes \<Rightarrow> nat \<Rightarrow> nat \<Rightarrow> repack_state \<Rightarrow> repack_state" where
  "repack_loop 0 sym_in sym_in_bps sym_out_bps st = st"
| "repack_loop (Suc m) sym_in sym_in_bps sym_out_bps st =
     repack_loop m sym_in sym_in_bps sym_out_bps (repack_step sym_in sym_in_bps sym_out_bps st)"

fun shift_zeros :: "nat \<Rightarrow> u8 \<Rightarrow> u8" where
  "shift_zeros 0 s = s"
| "shift_zeros (Suc m) s = shift_zeros m (push_bit 1 s)"

text \<open>A zero output symbol size is a division by zero in \<^verbatim>\<open>div()\<close>.\<close>

definition liquid_repack_bytes :: "bytes \<Rightarrow> nat \<Rightarrow> nat \<Rightarrow> nat \<Rightarrow> nat \<Rightarrow> bytes option" where
  "liquid_repack_bytes sym_in sym_in_bps sym_in_len sym_out_bps sym_out_len =
     (if sym_out_bps = 0 then None
      else
        let total_bits = sym_in_len * sym_in_bps;
            req = total_bits div sym_out_bps + (if total_bits mod sym_out_bps > 0 then 1 else 0)
        in if sym_out_len < req then None
           else
             let st = repack_loop total_bits sym_in sym_in_bps sym_out_bps
                        \<lparr>s_in = 0, s_out = 0, i_in = 0, rk = 0, rn = 0, sym_out = []\<rparr>
             in Some (if length (sym_out st) \<noteq> req
                      then sym_out st @ [shift_zeros (sym_out_bps - rn st) (s_out st)]
                      else sym_out st))"

lemma bit_push_1_0: "\<not> bit (push_bit 1 (x :: u8)) 0"
  by (simp only: bit_push_bit_iff) simp

lemma bit_push_1_Suc: "bit (push_bit 1 (x :: u8)) (Suc i) \<longleftrightarrow> Suc i < 8 \<and> bit x i"
  by (simp only: bit_push_bit_iff) simp

section \<open>The bit stream of an array\<close>

text \<open>Bit \<open>t\<close> of an array of \<open>b\<close>-bit symbols, the most significant bit of each symbol first.\<close>

definition sym_bit :: "nat \<Rightarrow> bytes \<Rightarrow> nat \<Rightarrow> bool" where
  "sym_bit b xs t = bit (xs ! (t div b)) (b - 1 - t mod b)"

lemma sym_bit_block: "c < b \<Longrightarrow> sym_bit b xs (b * q + c) = bit (xs ! q) (b - 1 - c)"
  by (simp add: sym_bit_def)

lemma bit_eq_sym_bit: "i < b \<Longrightarrow> bit (xs ! q) i = sym_bit b xs (b * q + (b - 1 - i))"
  by (subst sym_bit_block) auto

lemma bytes_eqI_sym_bit:
  assumes "length xs = length ys" and "\<And>t. t < 8 * length xs \<Longrightarrow> sym_bit 8 xs t = sym_bit 8 ys t"
  shows "xs = ys"
proof (rule nth_equalityI [OF assms(1)])
  fix q assume q: "q < length xs"
  show "xs ! q = ys ! q"
  proof (rule bit_word_eqI)
    fix i assume "i < LENGTH(8)"
    then have i: "i < 8" by simp
    with q have "8 * q + (8 - 1 - i) < 8 * length xs" by linarith
    then show "bit (xs ! q) i = bit (ys ! q) i"
      using assms(2) by (simp only: bit_eq_sym_bit [OF i])
  qed
qed

section \<open>Symbols at any bit position\<close>

lemma bit_u8_255: "bit (0xff :: u8) i \<longleftrightarrow> i < 8"
proof -
  have "(0xff :: u8) = mask 8" by (simp add: mask_numeral)
  then show ?thesis by (simp only: bit_mask_iff) simp
qed

lemma bit_low_mask: "n \<le> 8 \<Longrightarrow> bit (drop_bit (8 - n) (0xff :: u8)) i \<longleftrightarrow> i < n"
  by (simp only: bit_drop_bit_eq o_def bit_u8_255) arith

lemma bit_high_mask: "n \<le> 8 \<Longrightarrow> m + n \<le> 8 \<Longrightarrow>
    bit (push_bit m (drop_bit (8 - n) (0xff :: u8))) i \<longleftrightarrow> m \<le> i \<and> i < m + n"
  by (simp only: bit_push_bit_iff bit_drop_bit_eq o_def bit_u8_255) (simp, arith)

text \<open>The bit of the symbol (or of the old array) that ends up as bit \<open>i\<close> of byte \<open>q\<close>.\<close>

definition packed_bit :: "bytes \<Rightarrow> nat \<Rightarrow> nat \<Rightarrow> u8 \<Rightarrow> nat \<Rightarrow> nat \<Rightarrow> bool" where
  "packed_bit src k b s q i =
     (let t = 8 * q + (7 - i)
      in if k \<le> t \<and> t < k + b then bit s (k + b - 1 - t) else bit (src ! q) i)"

lemma liquid_pack_array_bits:
  assumes "length src = n" and "k < 8 * n" and "b \<le> 8"
  shows "\<exists>out. liquid_pack_array src n k b s = Some out \<and> length out = n \<and>
           (\<forall>q < n. \<forall>i < 8. bit (out ! q) i = packed_bit src k b s q i)"
proof -
  define i0 b0 where "i0 = k div 8" and "b0 = k - 8 * i0"
  have k: "k = 8 * i0 + b0" and b0: "b0 < 8" and i0: "i0 < n"
    using assms(2) by (auto simp: i0_def b0_def)
  have b0_eq: "k - 8 * i0 = b0" by (simp add: b0_def)
  show ?thesis
  proof (cases "b0 + b > 8")
    case False
    define out where "out = src[i0 := (src ! i0 AND NOT (push_bit (8 - b - b0) (drop_bit (8 - b) 0xff)))
        OR (push_bit (8 - b - b0) s AND push_bit (8 - b - b0) (drop_bit (8 - b) 0xff))]"
    have "liquid_pack_array src n k b s = Some out"
      using assms False i0 by (simp add: liquid_pack_array_def Let_def b0_eq out_def flip: i0_def)
    moreover have "bit (out ! q) i = packed_bit src k b s q i" if q: "q < n" and i: "i < 8" for q i
    proof -
      have *: "bit (push_bit (8 - b - b0) (drop_bit (8 - b) (0xff :: u8))) i \<longleftrightarrow>
          8 - b - b0 \<le> i \<and> i < 8 - b - b0 + b"
        using False assms(3) by (intro bit_high_mask) auto
      show ?thesis
      proof (cases "q = i0")
        case True
        have "(k \<le> 8 * i0 + (7 - i) \<and> 8 * i0 + (7 - i) < k + b) \<longleftrightarrow>
            (8 - b - b0 \<le> i \<and> i < 8 - b - b0 + b)"
          using False i k by linarith
        moreover have "k + b - 1 - (8 * i0 + (7 - i)) = i - (8 - b - b0)"
          if "8 - b - b0 \<le> i"
          using False i k that by linarith
        ultimately show ?thesis
          using True i i0 assms(1) *
          by (auto simp: out_def packed_bit_def bit_or_iff bit_and_iff bit_not_iff bit_push_bit_iff[of _ s])
      next
        case neq: False
        then have "\<not> (k \<le> 8 * q + (7 - i) \<and> 8 * q + (7 - i) < k + b)"
          using False i k by linarith
        with neq show ?thesis by (auto simp: out_def packed_bit_def Let_def)
      qed
    qed
    ultimately show ?thesis using assms(1) by (auto simp: out_def)
  next
    case True
    define n0 n1 where "n0 = 8 - b0" and "n1 = b - n0"
    have n: "n0 + b0 = 8" "n1 + n0 = b" "n0 \<le> 8" "n1 \<le> 8"
      using True b0 assms(3) by (auto simp: n0_def n1_def)
    define fst_byte where "fst_byte = (src ! i0 AND NOT (drop_bit (8 - n0) 0xff)) OR
        (drop_bit n1 s AND drop_bit (8 - n0) 0xff)"
    define snd_byte where "snd_byte = (src ! (i0 + 1) AND NOT (push_bit (8 - n1) (drop_bit (8 - n1) 0xff))) OR
        (push_bit (8 - n1) s AND push_bit (8 - n1) (drop_bit (8 - n1) 0xff))"
    define out where "out = (if i0 < n - 1 then src[i0 := fst_byte, i0 + 1 := snd_byte] else src[i0 := fst_byte])"
    have run: "liquid_pack_array src n k b s = Some out"
      using assms True i0
      by (simp add: liquid_pack_array_def Let_def b0_eq out_def fst_byte_def snd_byte_def
          flip: i0_def n0_def n1_def)
    have bits: "bit (out ! q) i = packed_bit src k b s q i" if q: "q < n" and i: "i < 8" for q i
    proof -
      consider "q = i0" | "q = i0 + 1" | "q \<noteq> i0" "q \<noteq> i0 + 1" by blast
      then show ?thesis
      proof cases
        case 1
        have "(k \<le> 8 * i0 + (7 - i) \<and> 8 * i0 + (7 - i) < k + b) \<longleftrightarrow> i < n0"
          using i k n by linarith
        moreover have "k + b - 1 - (8 * i0 + (7 - i)) = i + n1" using i k n by linarith
        ultimately show ?thesis
          using 1 i i0 assms(1) bit_low_mask [OF n(3), of i]
          by (auto simp: out_def packed_bit_def fst_byte_def bit_or_iff bit_and_iff bit_not_iff
              bit_drop_bit_eq [of _ s] add.commute)
      next
        case 2
        then have lt: "i0 < n - 1" using q by linarith
        have "(k \<le> 8 * q + (7 - i) \<and> 8 * q + (7 - i) < k + b) \<longleftrightarrow> 8 - n1 \<le> i"
          using i k n 2 by linarith
        moreover have "k + b - 1 - (8 * q + (7 - i)) = i - (8 - n1)" if "8 - n1 \<le> i"
          using i k n 2 that by linarith
        ultimately show ?thesis
          using 2 lt i i0 assms(1) bit_high_mask [OF n(4), of "8 - n1" i] n(4)
          by (auto simp: out_def packed_bit_def snd_byte_def bit_or_iff bit_and_iff bit_not_iff
              bit_push_bit_iff [of _ s])
      next
        case 3
        then have "\<not> (k \<le> 8 * q + (7 - i) \<and> 8 * q + (7 - i) < k + b)"
          using i k n by linarith
        with 3 show ?thesis by (auto simp: out_def packed_bit_def Let_def)
      qed
    qed
    have "length out = n" using assms(1) by (simp add: out_def)
    with run bits show ?thesis by blast
  qed
qed

text \<open>Reading: the bits of the symbol are those of the stream from bit \<open>k\<close>, zeros past the end.\<close>

lemma liquid_unpack_array_bits:
  assumes "k < 8 * n" and "b \<le> 8"
  shows "\<exists>s. liquid_unpack_array src n k b = Some s \<and>
           (\<forall>i. bit s i \<longleftrightarrow> i < b \<and> k + (b - 1 - i) < 8 * n \<and> sym_bit 8 src (k + (b - 1 - i)))"
proof -
  define i0 b0 where "i0 = k div 8" and "b0 = k - 8 * i0"
  have k: "k = 8 * i0 + b0" and b0: "b0 < 8" and i0: "i0 < n"
    using assms(1) by (auto simp: i0_def b0_def)
  have b0_eq: "k - 8 * i0 = b0" by (simp add: b0_def)
  have at: "sym_bit 8 src (8 * q + c) = bit (src ! q) (7 - c)" if "c < 8" for q c
    using sym_bit_block [OF that] by simp
  show ?thesis
  proof (cases "b0 + b > 8")
    case False
    define s where "s = drop_bit (8 - b - b0) (src ! i0) AND (push_bit b 1 - 1)"
    have "liquid_unpack_array src n k b = Some s"
      using assms False by (simp add: liquid_unpack_array_def Let_def b0_eq s_def flip: i0_def)
    moreover have "bit s i \<longleftrightarrow> i < b \<and> k + (b - 1 - i) < 8 * n \<and> sym_bit 8 src (k + (b - 1 - i))" for i
    proof (cases "i < b")
      case True
      have c: "b0 + (b - 1 - i) < 8" and "7 - (b0 + (b - 1 - i)) = 8 - b - b0 + i"
        using True False assms(2) by linarith+
      moreover have "k + (b - 1 - i) = 8 * i0 + (b0 + (b - 1 - i))" using k by simp
      moreover have "k + (b - 1 - i) < 8 * n" using k c i0 by linarith
      ultimately show ?thesis
        using True assms(2) at [OF c, of i0]
        by (simp add: s_def push_bit_eq_mult bit_and_iff bit_drop_bit_eq bit_mask_iff flip: mask_eq_exp_minus_1)
    next
      case False
      then show ?thesis
        by (simp add: s_def push_bit_eq_mult bit_and_iff bit_mask_iff flip: mask_eq_exp_minus_1)
    qed
    ultimately show ?thesis by blast
  next
    case True
    define n0 n1 where "n0 = 8 - b0" and "n1 = b - n0"
    have n: "n0 + b0 = 8" "n1 + n0 = b" "n0 \<le> 8" "n1 \<le> 8"
      using True b0 assms(2) by (auto simp: n0_def n1_def)
    define s where "s = push_bit n1 (src ! i0 AND drop_bit (8 - n0) 0xff) OR
      (if i0 = n - 1 then 0 else drop_bit (8 - n1) (src ! (i0 + 1)) AND drop_bit (8 - n1) 0xff)"
    have "liquid_unpack_array src n k b = Some s"
      using assms True
      by (simp add: liquid_unpack_array_def Let_def b0_eq s_def flip: i0_def n0_def n1_def)
    moreover have "bit s i \<longleftrightarrow> i < b \<and> k + (b - 1 - i) < 8 * n \<and> sym_bit 8 src (k + (b - 1 - i))" for i
    proof -
      consider "b \<le> i" | "n1 \<le> i" "i < b" | "i < n1" by linarith
      then show ?thesis
      proof cases
        case 1
        then show ?thesis
          using n bit_low_mask [OF n(3), of "i - n1"] bit_low_mask [OF n(4), of i]
          by (auto simp: s_def bit_or_iff bit_and_iff bit_push_bit_iff)
      next
        case 2
        then have c: "b0 + (b - 1 - i) < 8" and "7 - (b0 + (b - 1 - i)) = i - n1" and "i - n1 < n0"
          using n by linarith+
        moreover have "k + (b - 1 - i) = 8 * i0 + (b0 + (b - 1 - i))" using k by simp
        moreover have "k + (b - 1 - i) < 8 * n" using k c i0 by linarith
        moreover have "i < 8" using 2 assms(2) by linarith
        ultimately show ?thesis
          using 2 at [OF c, of i0] bit_low_mask [OF n(3), of "i - n1"] bit_low_mask [OF n(4), of i]
          by (auto simp: s_def bit_or_iff bit_and_iff bit_push_bit_iff)
      next
        case 3
        then have c: "n1 - 1 - i < 8" and "7 - (n1 - 1 - i) = 8 - n1 + i"
          using n(4) by linarith+
        moreover have b: "b - 1 - i = n0 + (n1 - 1 - i)" using 3 n(2) by linarith
        have e: "k + (b - 1 - i) = 8 * (i0 + 1) + (n1 - 1 - i)"
          unfolding b unfolding k using n(1) by simp
        moreover note e
        moreover have "k + (b - 1 - i) < 8 * n \<longleftrightarrow> i0 \<noteq> n - 1"
          unfolding e using c i0 by (cases "i0 = n - 1") auto
        ultimately show ?thesis
          using 3 n at [OF c, of "i0 + 1"] bit_low_mask [OF n(4), of i]
          by (auto simp: s_def bit_or_iff bit_and_iff bit_push_bit_iff bit_drop_bit_eq)
      qed
    qed
    ultimately show ?thesis by blast
  qed
qed

lemma liquid_pack_array_stream:
  assumes "length src = n" and "k < 8 * n" and "b \<le> 8"
    and "liquid_pack_array src n k b s = Some out"
  shows "length out = n" and "\<And>t. t < 8 * n \<Longrightarrow> sym_bit 8 out t =
    (if k \<le> t \<and> t < k + b then bit s (k + b - 1 - t) else sym_bit 8 src t)"
proof -
  have len: "length out = n" and
    bits: "\<And>q i. q < n \<Longrightarrow> i < 8 \<Longrightarrow> bit (out ! q) i = packed_bit src k b s q i"
    using liquid_pack_array_bits [OF assms(1-3), of s] assms(4) by auto
  show "length out = n" by (rule len)
  show "sym_bit 8 out t = (if k \<le> t \<and> t < k + b then bit s (k + b - 1 - t) else sym_bit 8 src t)"
    if "t < 8 * n" for t
  proof -
    have "t div 8 < n" "8 * (t div 8) + (7 - (7 - t mod 8)) = t"
      using that mult_div_mod_eq [of 8 t] mod_less_divisor [of 8 t] by arith+
    then show ?thesis
      using bits [of "t div 8" "7 - t mod 8"] by (simp add: sym_bit_def packed_bit_def Let_def)
  qed
qed

lemma liquid_unpack_pack_array:
  assumes "length src = n" and "k + b \<le> 8 * n" and "k < 8 * n" and "b \<le> 8"
  shows "do { out \<leftarrow> liquid_pack_array src n k b s; liquid_unpack_array out n k b } =
    Some (take_bit b s)"
proof -
  obtain out where out: "liquid_pack_array src n k b s = Some out"
    using liquid_pack_array_bits [OF assms(1,3,4)] by blast
  obtain r where r: "liquid_unpack_array out n k b = Some r"
    and bits: "\<And>i. bit r i \<longleftrightarrow> i < b \<and> k + (b - 1 - i) < 8 * n \<and> sym_bit 8 out (k + (b - 1 - i))"
    using liquid_unpack_array_bits [OF assms(3,4)] by blast
  have "r = take_bit b s"
  proof (rule bit_word_eqI)
    fix i
    show "bit r i = bit (take_bit b s) i"
    proof (cases "i < b")
      case True
      define t where "t = k + (b - 1 - i)"
      have t: "k \<le> t" "t < k + b" "k + b - 1 - t = i" "t < 8 * n"
        using True assms(2) by (simp_all add: t_def)
      have "sym_bit 8 out t = bit s i"
        using liquid_pack_array_stream(2) [OF assms(1,3,4) out t(4)] t by simp
      moreover have "bit r i \<longleftrightarrow> t < 8 * n \<and> sym_bit 8 out t"
        using True by (simp only: bits t_def) simp
      ultimately show ?thesis using True t(4) by (simp add: bit_take_bit_iff)
    qed (simp add: bits bit_take_bit_iff)
  qed
  with out r show ?thesis by simp
qed

section \<open>One-bit symbols\<close>

lemma pack_bytes_loop_append:
  "pack_bytes_loop sym_in (is @ js) out byte =
     (let (out, byte) = pack_bytes_loop sym_in is out byte in pack_bytes_loop sym_in js out byte)"
  by (induction "is" arbitrary: out byte) (simp_all add: Let_def)

text \<open>
  After \<open>m\<close> symbols the output holds the full bytes, and the byte under construction holds the
  last \<open>m mod 8\<close> symbols, shifted up by one already.
\<close>

definition pack_bytes_inv :: "bytes \<Rightarrow> nat \<Rightarrow> bytes \<Rightarrow> u8 \<Rightarrow> bool" where
  "pack_bytes_inv sym_in m out byte \<longleftrightarrow>
     length out = m div 8 \<and>
     (\<forall>q < m div 8. \<forall>i < 8. bit (out ! q) i = bit (sym_in ! (8 * q + (7 - i))) 0) \<and>
     (\<forall>j. bit byte j \<longleftrightarrow> 1 \<le> j \<and> j \<le> m mod 8 \<and> bit (sym_in ! (m - j)) 0)"

lemma bit_or_low: "bit (byte OR (x AND 1)) j \<longleftrightarrow> bit byte j \<or> (j = 0 \<and> bit x 0)" for byte x :: u8
  by (auto simp: bit_or_iff bit_and_iff bit_1_iff)

lemma pack_bytes_inv_step:
  assumes inv: "pack_bytes_inv sym_in m out byte"
  shows "case pack_bytes_loop sym_in [m] out byte of (out, byte) \<Rightarrow> pack_bytes_inv sym_in (Suc m) out byte"
proof -
  let ?b = "byte OR (sym_in ! m AND 1)"
  have bits: "bit ?b j \<longleftrightarrow> j \<le> m mod 8 \<and> bit (sym_in ! (m - j)) 0" for j
    using inv by (cases j) (auto simp: pack_bytes_inv_def bit_or_low)
  show ?thesis
  proof (cases "(m + 1) mod 8 = 0")
    case True
    then have m7: "m mod 8 = 7" and div: "Suc m div 8 = Suc (m div 8)"
      by (simp_all add: mod_Suc div_Suc split: if_splits)
    have "m = 8 * (m div 8) + 7" using mult_div_mod_eq [of 8 m] m7 by argo
    note m = m7 div this
    have "bit ((out @ [?b]) ! q) i = bit (sym_in ! (8 * q + (7 - i))) 0"
      if "q < Suc m div 8" "i < 8" for q i
    proof (cases "q = m div 8")
      case True
      moreover have "8 * (m div 8) + (7 - i) = m - i" using m(3) that(2) by linarith
      ultimately show ?thesis
        using inv that bits [of i] m(1) by (simp add: pack_bytes_inv_def nth_append)
    next
      case False
      with inv that m(2) show ?thesis by (simp add: pack_bytes_inv_def nth_append)
    qed
    with True inv m show ?thesis by (simp add: pack_bytes_inv_def)
  next
    case False
    then have m: "Suc m mod 8 = Suc (m mod 8)" "Suc m div 8 = m div 8" and "m mod 8 < 7"
      using mod_less_divisor [of 8 m] by (auto simp: mod_Suc div_Suc split: if_splits)
    have "bit (push_bit 1 ?b) j \<longleftrightarrow> 1 \<le> j \<and> j \<le> Suc (m mod 8) \<and> bit (sym_in ! (Suc m - j)) 0" for j
    proof (cases j)
      case (Suc i)
      then show ?thesis using \<open>m mod 8 < 7\<close>
        by (auto simp only: bit_push_1_Suc bits diff_Suc_Suc)
    qed (simp only: bit_push_1_0, simp)
    with False inv m show ?thesis
      by (simp add: pack_bytes_inv_def del: push_bit_Suc One_nat_def)
  qed
qed

lemma pack_bytes_inv_loop:
  "case pack_bytes_loop sym_in [0..<m] [] 0 of (out, byte) \<Rightarrow> pack_bytes_inv sym_in m out byte"
proof (induction m)
  case 0
  then show ?case by (simp add: pack_bytes_inv_def)
next
  case (Suc m)
  obtain out byte where run: "pack_bytes_loop sym_in [0..<m] [] 0 = (out, byte)" by fastforce
  with Suc have "pack_bytes_inv sym_in m out byte" by simp
  from pack_bytes_inv_step [OF this] show ?case
    using run by (simp add: pack_bytes_loop_append Let_def del: pack_bytes_loop.simps)
qed

text \<open>A last, partial byte holds its symbols in its low bits.\<close>

lemma liquid_pack_bytes_bits:
  assumes "sym_out_len \<ge> ceil_div n 8"
  shows "\<exists>out. liquid_pack_bytes sym_in n sym_out_len = Some out \<and> length out = ceil_div n 8 \<and>
     (\<forall>q < n div 8. \<forall>i < 8. bit (out ! q) i = bit (sym_in ! (8 * q + (7 - i))) 0) \<and>
     (n mod 8 \<noteq> 0 \<longrightarrow> (\<forall>i. bit (out ! (n div 8)) i \<longleftrightarrow> i < n mod 8 \<and> bit (sym_in ! (n - 1 - i)) 0))"
proof -
  obtain out byte where run: "pack_bytes_loop sym_in [0..<n] [] 0 = (out, byte)" by fastforce
  then have inv: "pack_bytes_inv sym_in n out byte" using pack_bytes_inv_loop [of sym_in n] by simp
  define res where "res = (if n mod 8 \<noteq> 0 then out @ [drop_bit 1 byte] else out)"
  have "liquid_pack_bytes sym_in n sym_out_len = Some res"
    unfolding liquid_pack_bytes_def Let_def ceil_div_def [symmetric] using assms run by (simp add: res_def)
  moreover have "length res = ceil_div n 8"
    using inv by (simp add: res_def pack_bytes_inv_def ceil_div_def)
  moreover have "\<forall>q < n div 8. \<forall>i < 8. bit (res ! q) i = bit (sym_in ! (8 * q + (7 - i))) 0"
    using inv by (simp add: res_def pack_bytes_inv_def nth_append)
  moreover have "bit (res ! (n div 8)) i \<longleftrightarrow> i < n mod 8 \<and> bit (sym_in ! (n - 1 - i)) 0"
    if "n mod 8 \<noteq> 0" for i
    using inv that by (auto simp: res_def pack_bytes_inv_def nth_append bit_drop_bit_eq Suc_le_eq)
  ultimately show ?thesis by blast
qed

lemma length_unpack_byte [simp, len_rules]: "length (unpack_byte byte) = 8"
  by (simp add: unpack_byte_def)

lemma unpack_byte_nth: "c < 8 \<Longrightarrow> unpack_byte byte ! c = drop_bit (7 - c) byte AND 1"
  by (auto simp: unpack_byte_def numeral_nat less_Suc_eq)

lemma liquid_unpack_bytes_Some:
  "8 * n \<le> sym_out_len \<Longrightarrow>
   liquid_unpack_bytes sym_in n sym_out_len = Some (concat (map (\<lambda>i. unpack_byte (sym_in ! i)) [0..<n]))"
  by (simp add: liquid_unpack_bytes_def for_append_Some)

lemma liquid_unpack_bytes_nth:
  assumes "t < 8 * n"
  shows "concat (map (\<lambda>i. unpack_byte (sym_in ! i)) [0..<n]) ! t = of_bool (sym_bit 8 sym_in t)"
proof -
  have t: "t = 8 * (t div 8) + t mod 8" "t div 8 < n" "t mod 8 < 8" using assms by auto
  have "concat (map (\<lambda>i. unpack_byte (sym_in ! i)) [0..<n]) ! t = unpack_byte (sym_in ! (t div 8)) ! (t mod 8)"
    by (subst t(1), rule nth_concat_uniform) (use t in auto)
  also have "\<dots> = drop_bit (7 - t mod 8) (sym_in ! (t div 8)) AND 1"
    by (rule unpack_byte_nth) simp
  also have "\<dots> = of_bool (sym_bit 8 sym_in t)"
    by (rule bit_word_eqI) (auto simp: bit_and_iff bit_drop_bit_eq sym_bit_def bit_1_iff bit_of_bool_iff)
  finally show ?thesis .
qed

lemma liquid_pack_unpack_bytes:
  assumes "length xs = n" and "8 * n \<le> l1" and "n \<le> l2"
  shows "do { syms \<leftarrow> liquid_unpack_bytes xs n l1; liquid_pack_bytes syms (length syms) l2 } = Some xs"
proof -
  define syms where "syms = concat (map (\<lambda>i. unpack_byte (xs ! i)) [0..<n])"
  have len: "length syms = 8 * n"
    unfolding syms_def by (subst length_concat_uniform [where k = 8]) simp_all
  obtain out where out: "liquid_pack_bytes syms (8 * n) l2 = Some out" "length out = n"
    and bits: "\<forall>q < n. \<forall>i < 8. bit (out ! q) i = bit (syms ! (8 * q + (7 - i))) 0"
    using liquid_pack_bytes_bits [of "8 * n" l2 syms] assms(3) by auto
  have "out = xs"
  proof (rule nth_equalityI)
    show "length out = length xs" using out assms by simp
    fix q assume "q < length out"
    then have q: "q < n" using out by simp
    show "out ! q = xs ! q"
    proof (rule bit_word_eqI)
      fix i assume "i < LENGTH(8)"
      then have i: "i < 8" by simp
      then have "8 * q + (7 - i) < 8 * n" using q by linarith
      from liquid_unpack_bytes_nth [OF this, of xs] have
        "bit (out ! q) i = sym_bit 8 xs (8 * q + (7 - i))"
        using bits q i by (simp add: syms_def bit_of_bool_iff)
      then show "bit (out ! q) i = bit (xs ! q) i"
        using bit_eq_sym_bit [OF i, of xs q] by simp
    qed
  qed
  with out len show ?thesis
    by (simp add: liquid_unpack_bytes_Some [OF assms(2)] flip: syms_def)
qed

section \<open>Repacking\<close>

definition repack_start :: repack_state where
  "repack_start = \<lparr>s_in = 0, s_out = 0, i_in = 0, rk = 0, rn = 0, sym_out = []\<rparr>"

lemma repack_loop_Suc:
  "repack_loop (Suc m) xs bi bo st = repack_step xs bi bo (repack_loop m xs bi bo st)"
  by (induction m arbitrary: st) simp_all

text \<open>
  The loop invariant after \<open>m\<close> bits: the counters are \<open>m\<close> divided by the symbol sizes, the
  finished output symbols carry the first bits of the stream and the symbol under construction
  the rest.
\<close>

definition repack_inv :: "bytes \<Rightarrow> nat \<Rightarrow> nat \<Rightarrow> nat \<Rightarrow> repack_state \<Rightarrow> bool" where
  "repack_inv xs bi bo m st \<longleftrightarrow>
     rk st = m mod bi \<and> rn st = m mod bo \<and> i_in st = ceil_div m bi \<and>
     (m mod bi \<noteq> 0 \<longrightarrow> s_in st = xs ! (m div bi)) \<and>
     length (sym_out st) = m div bo \<and>
     (\<forall>q < m div bo. \<forall>i. bit (sym_out st ! q) i \<longleftrightarrow> i < bo \<and> sym_bit bi xs (bo * q + (bo - 1 - i))) \<and>
     (\<forall>i. bit (s_out st) i \<longleftrightarrow> i < m mod bo \<and> sym_bit bi xs (m - 1 - i))"

lemma Suc_mod_div_last:
  assumes "0 < b" and "m mod b = b - 1"
  shows "Suc m mod b = 0" and "Suc m div b = Suc (m div b)" and "m = b * (m div b) + (b - 1)"
proof -
  show "Suc m mod b = 0" "Suc m div b = Suc (m div b)" using assms by (simp_all add: mod_Suc div_Suc)
  show "m = b * (m div b) + (b - 1)" using mult_div_mod_eq [of b m] assms(2) by simp
qed

lemma Suc_mod_div_other:
  assumes "0 < b" and "m mod b \<noteq> b - 1"
  shows "Suc m mod b = Suc (m mod b)" and "Suc m div b = m div b" and "Suc (m mod b) < b"
proof -
  have "m mod b < b" using assms(1) by simp
  with assms(2) show "Suc m mod b = Suc (m mod b)" "Suc m div b = m div b" "Suc (m mod b) < b"
    by (auto simp: mod_Suc div_Suc)
qed

lemma repack_step_eq:
  "repack_step xs bi bo st =
     (let cur = if rk st = 0 then xs ! i_in st else s_in st;
          s = push_bit 1 (s_out st) OR (drop_bit (bi - rk st - 1) cur AND 1)
      in \<lparr>s_in = cur, s_out = (if rn st = bo - 1 then 0 else s),
          i_in = (if rk st = 0 then i_in st + 1 else i_in st),
          rk = (rk st + 1) mod bi, rn = (rn st + 1) mod bo,
          sym_out = (if rn st = bo - 1 then sym_out st @ [s] else sym_out st)\<rparr>)"
  by (cases st) (simp add: repack_step_def Let_def del: push_bit_Suc One_nat_def)

lemma repack_inv_step:
  assumes inv: "repack_inv xs bi bo m st" and "0 < bi" and "0 < bo" and "bo \<le> 8"
  shows "repack_inv xs bi bo (Suc m) (repack_step xs bi bo st)"
proof -
  define cur where "cur = (if m mod bi = 0 then xs ! (ceil_div m bi) else s_in st)"
  have cur: "cur = xs ! (m div bi)"
    using inv by (simp add: cur_def repack_inv_def ceil_div_def)
  define s where "s = push_bit 1 (s_out st) OR (drop_bit (bi - m mod bi - 1) cur AND 1)"
  have "bit s i \<longleftrightarrow> i \<le> m mod bo \<and> sym_bit bi xs (m - i)" for i
  proof (cases i)
    case 0
    have "bi - m mod bi - 1 = bi - 1 - m mod bi" by simp
    then show ?thesis
      unfolding 0 s_def bit_or_low cur by (simp add: bit_push_1_0 bit_drop_bit_eq sym_bit_def del: push_bit_Suc One_nat_def)
  next
    case (Suc j)
    have "Suc j < 8" if "j < m mod bo"
      using that assms mod_less_divisor [of bo m] by linarith
    moreover have "bit (s_out st) j \<longleftrightarrow> j < m mod bo \<and> sym_bit bi xs (m - 1 - j)"
      using inv by (simp only: repack_inv_def)
    ultimately show ?thesis
      unfolding Suc s_def bit_or_low bit_push_1_Suc by auto
  qed
  note s_bits = this
  have ceil_suc: "ceil_div (Suc m) bi = (if m mod bi = 0 then ceil_div m bi + 1 else ceil_div m bi)"
    using assms(2) Suc_mod_div_last [of bi m] Suc_mod_div_other [of bi m]
    by (cases "m mod bi = bi - 1") (auto simp: ceil_div_def)
  have fields: "rk st = m mod bi" "rn st = m mod bo" "i_in st = ceil_div m bi"
    "(rk st + 1) mod bi = Suc m mod bi" "(rn st + 1) mod bo = Suc m mod bo"
    using inv by (simp_all add: repack_inv_def mod_Suc_eq)
  have step: "repack_step xs bi bo st = \<lparr>s_in = cur, s_out = (if m mod bo = bo - 1 then 0 else s),
      i_in = ceil_div (Suc m) bi, rk = Suc m mod bi, rn = Suc m mod bo,
      sym_out = (if m mod bo = bo - 1 then sym_out st @ [s] else sym_out st)\<rparr>"
    unfolding repack_step_eq Let_def fields(4,5) unfolding fields(1-3) ceil_suc s_def cur_def by (rule refl)
  have cur_next: "Suc m mod bi \<noteq> 0 \<Longrightarrow> cur = xs ! (Suc m div bi)"
    using assms(2) Suc_mod_div_last(1) [of bi m] Suc_mod_div_other(2) [of bi m] cur by fastforce
  show ?thesis
  proof (cases "m mod bo = bo - 1")
    case True
    note d = Suc_mod_div_last [OF assms(3) True]
    have "bit ((sym_out st @ [s]) ! q) i \<longleftrightarrow> i < bo \<and> sym_bit bi xs (bo * q + (bo - 1 - i))"
      if "q < Suc (m div bo)" for q i
    proof (cases "q = m div bo")
      case eq: True
      then have "(sym_out st @ [s]) ! q = s" using inv by (simp add: repack_inv_def nth_append)
      moreover have "bo * q + (bo - 1 - i) = m - i" if "i < bo"
        using d(3) eq that by (metis Nat.add_diff_assoc One_nat_def Suc_leI add_diff_cancel_left le_diff_conv2 less_Suc_eq_le Suc_pred assms(3))
      ultimately show ?thesis
        using s_bits [of i] True assms(3) by auto
    next
      case False
      with inv that show ?thesis by (simp add: repack_inv_def nth_append)
    qed
    with inv d cur_next True show ?thesis
      by (simp add: step repack_inv_def)
  next
    case False
    note d = Suc_mod_div_other [OF assms(3) False]
    from inv d cur_next s_bits False show ?thesis
      by (auto simp: step repack_inv_def less_Suc_eq_le)
  qed
qed

lemma repack_inv_loop:
  assumes "0 < bi" and "0 < bo" and "bo \<le> 8"
  shows "repack_inv xs bi bo m (repack_loop m xs bi bo repack_start)"
proof (induction m)
  case 0
  then show ?case by (simp add: repack_inv_def repack_start_def ceil_div_def)
next
  case (Suc m)
  from repack_inv_step [OF this assms] show ?case by (simp only: repack_loop_Suc)
qed

lemma bit_shift_zeros: "bit (shift_zeros m s) i \<longleftrightarrow> i < 8 \<and> m \<le> i \<and> bit s (i - m)"
proof (induction m arbitrary: s)
  case 0
  then show ?case by (auto dest: bit_imp_le_length)
next
  case (Suc m)
  have step: "bit (shift_zeros (Suc m) s) i \<longleftrightarrow> i < 8 \<and> m \<le> i \<and> bit (push_bit 1 s) (i - m)"
    by (simp only: shift_zeros.simps Suc.IH)
  show ?case
  proof (cases "Suc m \<le> i")
    case True
    then have "i - m = Suc (i - Suc m)" by (simp add: Suc_diff_Suc)
    with True step show ?thesis by (simp only: bit_push_1_Suc) auto
  next
    case False
    then show ?thesis unfolding step by (cases "i = m") (simp_all only: bit_push_1_0 diff_self_eq_0, simp_all)
  qed
qed

text \<open>
  The output carries the input's stream, zero-padded to a whole number of symbols, and each
  output symbol has no bit outside its size.
\<close>

lemma liquid_repack_bytes_stream:
  assumes "0 < bi" and "0 < bo" and "bo \<le> 8" and "ceil_div (n * bi) bo \<le> out_len"
  shows "\<exists>out. liquid_repack_bytes xs bi n bo out_len = Some out \<and>
     length out = ceil_div (n * bi) bo \<and>
     (\<forall>q < length out. \<forall>i. bit (out ! q) i \<longleftrightarrow>
        i < bo \<and> bo * q + (bo - 1 - i) < n * bi \<and> sym_bit bi xs (bo * q + (bo - 1 - i)))"
proof -
  define m st where "m = n * bi" and "st = repack_loop m xs bi bo repack_start"
  have inv: "repack_inv xs bi bo m st"
    unfolding st_def by (rule repack_inv_loop) (use assms in auto)
  define pad where "pad = shift_zeros (bo - rn st) (s_out st)"
  define out where "out = (if m mod bo > 0 then sym_out st @ [pad] else sym_out st)"
  have len: "length out = ceil_div m bo" using inv by (simp add: out_def repack_inv_def ceil_div_def)
  have m: "m = bo * (m div bo) + m mod bo" and r: "m mod bo < bo" using assms by simp_all
  have "bit (out ! q) i \<longleftrightarrow>
        i < bo \<and> bo * q + (bo - 1 - i) < m \<and> sym_bit bi xs (bo * q + (bo - 1 - i))"
    if q: "q < length out" for q i
  proof (cases "q < m div bo")
    case True
    then have "bo * q + bo \<le> bo * (m div bo)"
      using mult_le_mono2 [of "Suc q" "m div bo" bo] by simp
    then have "bo * q + (bo - 1 - i) < m" if "i < bo" using m that by linarith
    moreover have "out ! q = sym_out st ! q" using True inv by (simp add: out_def repack_inv_def nth_append)
    ultimately show ?thesis using inv True by (auto simp: repack_inv_def)
  next
    case False
    with q len have pos: "m mod bo > 0" and q_eq: "q = m div bo"
      by (auto simp: ceil_div_def split: if_splits)
    then have "out ! q = pad" using inv by (simp add: out_def repack_inv_def nth_append)
    moreover have "bit pad i \<longleftrightarrow> i < 8 \<and> bo - m mod bo \<le> i \<and> i - (bo - m mod bo) < m mod bo \<and>
        sym_bit bi xs (m - 1 - (i - (bo - m mod bo)))"
      using inv by (simp only: pad_def bit_shift_zeros repack_inv_def)
    moreover have "i < 8 \<and> bo - m mod bo \<le> i \<and> i - (bo - m mod bo) < m mod bo \<longleftrightarrow>
        i < bo \<and> bo * q + (bo - 1 - i) < m"
      unfolding q_eq using m r pos assms(3) by (intro iffI conjI; elim conjE; linarith)
    moreover have "m - 1 - (i - (bo - m mod bo)) = bo * q + (bo - 1 - i)"
      if "bo - m mod bo \<le> i" "i < bo"
      unfolding q_eq using m r that by linarith
    ultimately show ?thesis by auto
  qed
  moreover have "liquid_repack_bytes xs bi n bo out_len = Some out"
  proof -
    have "length (sym_out st) = m div bo" using inv by (simp add: repack_inv_def)
    then have "length (sym_out st) \<noteq> ceil_div m bo \<longleftrightarrow> m mod bo > 0"
      by (simp add: ceil_div_def)
    then show ?thesis
      using assms(2,4) unfolding liquid_repack_bytes_def Let_def ceil_div_def [symmetric]
        m_def [symmetric] repack_start_def [symmetric] st_def [symmetric] pad_def [symmetric] out_def
      by simp
  qed
  ultimately show ?thesis using len by (auto simp: m_def)
qed

lemma liquid_repack_bytes_inverse:
  assumes "0 < bi" and "bi \<le> 8" and "0 < bo" and "bo \<le> 8"
    and "ceil_div (n * bi) bo \<le> l1" and "ceil_div (ceil_div (n * bi) bo * bo) bi \<le> l2"
    and "length xs = n" and "\<And>x. x \<in> set xs \<Longrightarrow> take_bit bi x = x"
  shows "\<exists>out res. liquid_repack_bytes xs bi n bo l1 = Some out \<and>
     liquid_repack_bytes out bo (length out) bi l2 = Some res \<and> take n res = xs"
proof -
  obtain out where out: "liquid_repack_bytes xs bi n bo l1 = Some out"
    and len: "length out = ceil_div (n * bi) bo"
    and bits: "\<And>q i. q < length out \<Longrightarrow> bit (out ! q) i \<longleftrightarrow>
        i < bo \<and> bo * q + (bo - 1 - i) < n * bi \<and> sym_bit bi xs (bo * q + (bo - 1 - i))"
    using liquid_repack_bytes_stream [OF assms(1,3,4,5), of xs] by blast
  obtain res where res: "liquid_repack_bytes out bo (length out) bi l2 = Some res"
    and len2: "length res = ceil_div (length out * bo) bi"
    and bits2: "\<And>q i. q < length res \<Longrightarrow> bit (res ! q) i \<longleftrightarrow>
        i < bi \<and> bi * q + (bi - 1 - i) < length out * bo \<and> sym_bit bo out (bi * q + (bi - 1 - i))"
    using liquid_repack_bytes_stream [OF assms(3,1,2), of "length out" l2 out] assms(6) len by auto
  have total: "bi * n \<le> length out * bo"
    using le_mult_ceil_div [OF assms(3), of "n * bi"] len by (simp add: mult.commute)
  also have "\<dots> \<le> bi * length res"
    using le_mult_ceil_div [OF assms(1), of "length out * bo"] len2 by simp
  finally have n_le: "n \<le> length res" using assms(1) by simp
  have stream: "sym_bit bo out t \<longleftrightarrow> sym_bit bi xs t" if "t < n * bi" for t
  proof -
    have t: "t div bo < length out" "bo * (t div bo) + t mod bo = t" "t mod bo < bo"
      using that total assms(3) by (auto simp: div_less_iff_less_mult mult.commute)
    then have "bo - 1 - (bo - 1 - t mod bo) = t mod bo" "bo - 1 - t mod bo < bo" by linarith+
    then show ?thesis
      using bits [OF t(1), of "bo - 1 - t mod bo"] t(2) that by (simp add: sym_bit_def [of bo])
  qed
  have "res ! q = xs ! q" if q: "q < n" for q
  proof (rule bit_word_eqI)
    fix i assume "i < LENGTH(8)"
    have "bit (xs ! q) i \<Longrightarrow> i < bi"
      using assms(8) [of "xs ! q"] q assms(7) by (metis bit_take_bit_iff nth_mem)
    moreover have "bi * q + (bi - 1 - i) < n * bi" if "i < bi"
      using mult_le_mono2 [of "Suc q" n bi] q that by (simp add: mult.commute)
    ultimately show "bit (res ! q) i = bit (xs ! q) i"
      using bits2 [of q i] q n_le total stream [of "bi * q + (bi - 1 - i)"]
        bit_eq_sym_bit [of i bi xs q]
      by (auto simp: mult.commute)
  qed
  then have "take n res = xs"
    using n_le assms(7) by (intro nth_equalityI) auto
  with out res show ?thesis by blast
qed

section \<open>Properties\<close>





end
