(* ===== verification/Shift_Array.thy ===== *)
theory Shift_Array
  imports Pack_Bytes
begin

unbundle bit_operations_syntax

text \<open>
  \<^verbatim>\<open>liquid_dsp/src/utility/src/shift_array.c\<close> and \<^verbatim>\<open>bshift_array.c\<close>: shifting a byte array by
  whole bytes or by up to seven bits, linearly or circularly. The array is updated in place; the
  model returns the updated list. The circular byte shifts call each other when the other
  direction needs less scratch memory; the call is shown to happen at most once.
\<close>

section \<open>Byte shifts\<close>

text \<open>\<^verbatim>\<open>memmove(&src[d], &src[s], len)\<close> within one array.\<close>

definition memmove :: "'a list \<Rightarrow> nat \<Rightarrow> nat \<Rightarrow> nat \<Rightarrow> 'a list" where
  "memmove xs d s len = take d xs @ take len (drop s xs) @ drop (d + len) xs"

text \<open>\<^verbatim>\<open>memmove(&xs[d], ys, len)\<close> from another array.\<close>

definition memcpy_to :: "'a list \<Rightarrow> nat \<Rightarrow> 'a list \<Rightarrow> nat \<Rightarrow> 'a list" where
  "memcpy_to xs d ys len = take d xs @ take len ys @ drop (d + len) xs"

definition liquid_lshift :: "bytes \<Rightarrow> nat \<Rightarrow> nat \<Rightarrow> bytes" where
  "liquid_lshift src n b =
     (if b \<ge> n then memcpy_to src 0 (replicate n 0) n
      else memcpy_to (memmove src 0 b (n - b)) (n - b) (replicate b 0) b)"

definition liquid_rshift :: "bytes \<Rightarrow> nat \<Rightarrow> nat \<Rightarrow> bytes" where
  "liquid_rshift src n b =
     (if b \<ge> n then memcpy_to src 0 (replicate n 0) n
      else memcpy_to (memmove src b 0 (n - b)) 0 (replicate b 0) b)"

text \<open>The complement of a shift by more than half the array is a shift by at most half of it.\<close>

lemma complement_shift: "0 < n \<Longrightarrow> n div 2 < b mod n \<Longrightarrow> (n - b mod n) mod n \<le> n div 2" for n b :: nat
proof -
  assume n: "0 < n" and b: "n div 2 < b mod n"
  have "b mod n < n" using n by simp
  with b have "n - b mod n < n" "n - b mod n \<le> n div 2" by linarith+
  then show ?thesis by simp
qed

function liquid_lcircshift :: "bytes \<Rightarrow> nat \<Rightarrow> nat \<Rightarrow> bytes"
  and liquid_rcircshift :: "bytes \<Rightarrow> nat \<Rightarrow> nat \<Rightarrow> bytes" where
  "liquid_lcircshift src n b =
     (if n = 0 then src
      else let b = b mod n
           in if b > n div 2 then liquid_rcircshift src n (n - b)
              else let tmp = take b src;
                       src = memmove src 0 b (n - b)
                   in memcpy_to src (n - b) tmp b)"
| "liquid_rcircshift src n b =
     (if n = 0 then src
      else let b = b mod n
           in if b > n div 2 then liquid_lcircshift src n (n - b)
              else let tmp = take b (drop (n - b) src);
                       src = memmove src b 0 (n - b)
                   in memcpy_to src 0 tmp b)"
  by pat_completeness auto

termination
proof (relation "measure (\<lambda>x. case x of Inl (_, n, b) \<Rightarrow> of_bool (b mod n > n div 2)
                                   | Inr (_, n, b) \<Rightarrow> of_bool (b mod n > n div 2))")
qed (auto simp: not_less dest: complement_shift)

declare liquid_lcircshift.simps [simp del] liquid_rcircshift.simps [simp del]

section \<open>Bit shifts\<close>

definition lbcirc_byte :: "nat \<Rightarrow> u8 \<Rightarrow> u8 \<Rightarrow> u8" where
  "lbcirc_byte b byte_0 byte_1 =
     (let shift_0 = b;
          shift_1 = 8 - b;
          mask_0 = push_bit shift_0 0xff;
          mask_1 = drop_bit shift_1 0xff
      in (push_bit shift_0 byte_0 AND mask_0) OR (drop_bit shift_1 byte_1 AND mask_1))"

fun lbcirc_loop :: "nat list \<Rightarrow> nat \<Rightarrow> nat \<Rightarrow> u8 \<Rightarrow> bytes \<Rightarrow> bytes" where
  "lbcirc_loop [] n b src_0 src = src"
| "lbcirc_loop (i # is) n b src_0 src =
     (let byte_0 = src ! i;
          byte_1 = (if i = n - 1 then src_0 else src ! (i + 1))
      in lbcirc_loop is n b src_0 (src[i := lbcirc_byte b byte_0 byte_1]))"

definition liquid_lbcircshift :: "bytes \<Rightarrow> nat \<Rightarrow> nat \<Rightarrow> bytes option" where
  "liquid_lbcircshift src n b =
     (if b \<ge> 8 then None else Some (lbcirc_loop [0..<n] n b (src ! 0) src))"

fun rbcirc_loop :: "nat list \<Rightarrow> nat \<Rightarrow> u8 \<Rightarrow> bytes \<Rightarrow> bytes" where
  "rbcirc_loop [] b src_n src = src"
| "rbcirc_loop (i # is) b src_n src =
     (let byte_0 = (if i = 0 then src_n else src ! (i - 1));
          byte_1 = src ! i
      in rbcirc_loop is b src_n (src[i := lbcirc_byte (8 - b) byte_0 byte_1]))"

definition liquid_rbcircshift :: "bytes \<Rightarrow> nat \<Rightarrow> nat \<Rightarrow> bytes option" where
  "liquid_rbcircshift src n b =
     (if b \<ge> 8 then None else Some (rbcirc_loop (rev [0..<n]) b (src ! (n - 1)) src))"

definition liquid_lbshift :: "bytes \<Rightarrow> nat \<Rightarrow> nat \<Rightarrow> bytes option" where
  "liquid_lbshift src n b =
     (if b \<ge> 8 then None
      else do { src \<leftarrow> liquid_lbcircshift src n b;
                Some (src[n - 1 := src ! (n - 1) AND push_bit b 0xff]) })"

definition liquid_rbshift :: "bytes \<Rightarrow> nat \<Rightarrow> nat \<Rightarrow> bytes option" where
  "liquid_rbshift src n b =
     (if b \<ge> 8 then None
      else do { src \<leftarrow> liquid_rbcircshift src n b;
                Some (src[0 := src ! 0 AND drop_bit b 0xff]) })"

section \<open>Byte shifts against rotation\<close>

lemma liquid_lshift_eq:
  "length src = n \<Longrightarrow> liquid_lshift src n b = drop b src @ replicate (min b n) 0"
  by (auto simp: liquid_lshift_def memmove_def memcpy_to_def)

lemma liquid_rshift_eq:
  "length src = n \<Longrightarrow> liquid_rshift src n b = replicate (min b n) 0 @ take (n - b) src"
  by (auto simp: liquid_rshift_def memmove_def memcpy_to_def)

lemma lcircshift_short:
  "length src = n \<Longrightarrow> b \<le> n \<Longrightarrow> memcpy_to (memmove src 0 b (n - b)) (n - b) (take b src) b = drop b src @ take b src"
  by (simp add: memcpy_to_def memmove_def)

lemma circshift_rotate:
  assumes "length src = n" and "0 < n"
  shows "liquid_lcircshift src n b = rotate b src"
    and "liquid_rcircshift src n b = rotate (n - b mod n) src"
proof -
  have left: "liquid_lcircshift src n b = rotate b src" if "b mod n \<le> n div 2" for b
    using that assms
    by (simp add: liquid_lcircshift.simps [of src n b] Let_def lcircshift_short rotate_drop_take
        less_imp_le [of "b mod n"])
  have right: "liquid_rcircshift src n b = rotate (n - b mod n) src" if "b mod n \<le> n div 2" for b
  proof (cases "b mod n = 0")
    case True
    then show ?thesis
      using assms by (simp add: liquid_rcircshift.simps [of src n b] memmove_def memcpy_to_def rotate_drop_take)
  next
    case False
    then have "(n - b mod n) mod n = n - b mod n" using assms(2) by simp
    with that show ?thesis
      using assms by (simp add: liquid_rcircshift.simps [of src n b] Let_def memcpy_to_def memmove_def
          rotate_drop_take)
  qed
  show "liquid_lcircshift src n b = rotate b src"
  proof (cases "b mod n \<le> n div 2")
    case False
    then have "liquid_lcircshift src n b = liquid_rcircshift src n (n - b mod n)"
      using assms(2) by (simp add: liquid_lcircshift.simps [of src n b] Let_def)
    also have "\<dots> = rotate (n - (n - b mod n) mod n) src"
      using False complement_shift [of n b] assms(2) by (intro right) simp
    also have "n - (n - b mod n) mod n = b mod n"
      using False assms(2) by simp
    also have "rotate (b mod n) src = rotate b src" using assms(1) by (metis rotate_conv_mod)
    finally show ?thesis .
  qed (rule left)
  show "liquid_rcircshift src n b = rotate (n - b mod n) src"
  proof (cases "b mod n \<le> n div 2")
    case False
    then have "liquid_rcircshift src n b = liquid_lcircshift src n (n - b mod n)"
      using assms(2) by (simp add: liquid_rcircshift.simps [of src n b] Let_def)
    also have "\<dots> = rotate (n - b mod n) src"
      using False complement_shift [of n b] assms(2) by (intro left) simp
    finally show ?thesis .
  qed (rule right)
qed

text \<open>The two circular shifts undo each other.\<close>

lemma circshift_inverse:
  assumes "length src = n"
  shows "liquid_rcircshift (liquid_lcircshift src n b) n b = src"
proof (cases "n = 0")
  case True
  then show ?thesis by (simp add: liquid_rcircshift.simps liquid_lcircshift.simps)
next
  case False
  then have "liquid_rcircshift (liquid_lcircshift src n b) n b = rotate (n - b mod n + b) src"
    using assms by (simp add: circshift_rotate rotate_rotate)
  moreover have "(n - b mod n + b) mod n = 0"
  proof -
    have "b mod n \<le> n" using False by (simp add: less_imp_le)
    then have "n - b mod n + b = n * (b div n) + n" using mult_div_mod_eq [of n b] by linarith
    then show ?thesis by simp
  qed
  ultimately show ?thesis using assms by (metis rotate_conv_mod rotate0 id_apply)
qed

section \<open>Bit shifts on the stream\<close>

lemma bit_lbcirc_byte:
  assumes "b \<le> 8"
  shows "bit (lbcirc_byte b byte_0 byte_1) i \<longleftrightarrow>
    i < 8 \<and> (if b \<le> i then bit byte_0 (i - b) else bit byte_1 (8 - b + i))"
proof -
  have low: "bit (drop_bit (8 - b) (0xff :: u8)) i \<longleftrightarrow> i < b" by (rule bit_low_mask [OF assms])
  have high: "bit (push_bit b (0xff :: u8)) i \<longleftrightarrow> b \<le> i \<and> i < 8"
    by (simp only: bit_push_bit_iff bit_u8_255) auto
  show ?thesis
    unfolding lbcirc_byte_def Let_def bit_or_iff bit_and_iff
    unfolding low high unfolding bit_push_bit_iff bit_drop_bit_eq using assms by auto
qed

lemma lbcirc_loop_append:
  "lbcirc_loop (is @ js) n b s0 src = lbcirc_loop js n b s0 (lbcirc_loop is n b s0 src)"
  by (induction "is" arbitrary: src) (simp_all add: Let_def)

lemma lbcirc_loop_nth:
  assumes "m \<le> n" and "length src = n"
  shows "length (lbcirc_loop [0..<m] n b s0 src) = n" and
    "j < n \<Longrightarrow> lbcirc_loop [0..<m] n b s0 src ! j =
       (if j < m then lbcirc_byte b (src ! j) (if j = n - 1 then s0 else src ! (j + 1)) else src ! j)"
  using assms
proof (induction m arbitrary: j)
  case (Suc m)
  { case 1 with Suc show ?case by (simp add: lbcirc_loop_append) }
  { case 2 with Suc show ?case by (auto simp: lbcirc_loop_append nth_list_update less_Suc_eq) }
qed auto

lemma rbcirc_loop_nth:
  assumes "m \<le> length src"
  shows "length (rbcirc_loop (rev [0..<m]) b sn src) = length src" and
    "j < length src \<Longrightarrow> rbcirc_loop (rev [0..<m]) b sn src ! j =
       (if j < m then lbcirc_byte (8 - b) (if j = 0 then sn else src ! (j - 1)) (src ! j) else src ! j)"
  using assms
proof (induction m arbitrary: j src)
  case (Suc m)
  { case 1 with Suc show ?case by (simp add: Let_def) }
  { case 2 with Suc show ?case by (auto simp: Let_def nth_list_update less_Suc_eq) }
qed auto

text \<open>Bit \<open>t\<close> of the result is bit \<open>t + b\<close> of the source, around the end of the array.\<close>

lemma liquid_lbcircshift_stream:
  assumes "length src = n" and "b < 8"
  shows "\<exists>out. liquid_lbcircshift src n b = Some out \<and> length out = n \<and>
    (\<forall>t < 8 * n. sym_bit 8 out t = sym_bit 8 src ((t + b) mod (8 * n)))"
proof -
  define out where "out = lbcirc_loop [0..<n] n b (src ! 0) src"
  have "sym_bit 8 out t = sym_bit 8 src ((t + b) mod (8 * n))" if t: "t < 8 * n" for t
  proof -
    define q c where "q = t div 8" and "c = t mod 8"
    have tq: "t = 8 * q + c" "c < 8" "q < n" using t by (auto simp: q_def c_def)
    have lhs: "sym_bit 8 out t = bit (out ! q) (7 - c)" using tq sym_bit_block [of c 8 out q] by simp
    have out: "out ! q = lbcirc_byte b (src ! q) (if q = n - 1 then src ! 0 else src ! (q + 1))"
      using lbcirc_loop_nth(2) [of n n src q] tq assms(1) by (simp add: out_def)
    show ?thesis
    proof (cases "c + b < 8")
      case True
      then have "(t + b) mod (8 * n) = 8 * q + (c + b)" using tq by simp
      then have "sym_bit 8 src ((t + b) mod (8 * n)) = bit (src ! q) (7 - c - b)"
        using True sym_bit_block [of "c + b" 8 src q] by (simp add: diff_diff_left)
      moreover have "b \<le> 7 - c" "7 - c < 8" using True by linarith+
      ultimately show ?thesis unfolding lhs out using assms(2) by (simp add: bit_lbcirc_byte)
    next
      case False
      have next_byte: "(t + b) mod (8 * n) = 8 * (if q = n - 1 then 0 else q + 1) + (c + b - 8)"
      proof (cases "q = n - 1")
        case True
        then have "n = q + 1" using tq(3) by simp
        then have "t + b = 8 * n + (c + b - 8)" using False tq(1) by simp
        moreover have "c + b - 8 < 8 * n" using tq assms(2) by linarith
        ultimately show ?thesis using True by simp
      next
        case neq: False
        have "t + b = 8 * (q + 1) + (c + b - 8)" using False tq(1) by simp
        moreover have "q + 2 \<le> n" using neq tq(3) by simp
        then have "8 * (q + 1) + (c + b - 8) < 8 * n" using tq(2) assms(2) by simp
        ultimately show ?thesis using neq by simp
      qed
      have "c + b - 8 < 8" using tq assms(2) by linarith
      from sym_bit_block [OF this]
      have "sym_bit 8 src ((t + b) mod (8 * n)) = bit (src ! (if q = n - 1 then 0 else q + 1)) (7 - (c + b - 8))"
        unfolding next_byte by simp
      moreover have "7 - (c + b - 8) = 8 - b + (7 - c)" "\<not> b \<le> 7 - c"
        using False tq assms(2) by linarith+
      ultimately show ?thesis unfolding lhs out using assms(2) by (simp add: bit_lbcirc_byte)
    qed
  qed
  moreover have "length out = n" using lbcirc_loop_nth(1) [of n n src] assms(1) by (simp add: out_def)
  ultimately show ?thesis using assms(2) by (simp add: liquid_lbcircshift_def out_def)
qed

text \<open>The neighbours of a byte in the circular order.\<close>

lemma liquid_lbcircshift_nth:
  assumes "length src = n" and "b < 8"
  shows "\<exists>out. liquid_lbcircshift src n b = Some out \<and> length out = n \<and>
    (\<forall>q < n. out ! q = lbcirc_byte b (src ! q) (src ! (if q = n - 1 then 0 else q + 1)))"
  using assms lbcirc_loop_nth [of n n src] by (auto simp: liquid_lbcircshift_def)

lemma liquid_rbcircshift_nth:
  assumes "length src = n" and "b < 8"
  shows "\<exists>out. liquid_rbcircshift src n b = Some out \<and> length out = n \<and>
    (\<forall>q < n. out ! q = lbcirc_byte (8 - b) (src ! (if q = 0 then n - 1 else q - 1)) (src ! q))"
  using assms rbcirc_loop_nth [of n src] by (auto simp: liquid_rbcircshift_def)

lemma bcircshift_inverse:
  assumes "length src = n" and "b < 8"
  shows "do { out \<leftarrow> liquid_lbcircshift src n b; liquid_rbcircshift out n b } = Some src"
    and "do { out \<leftarrow> liquid_rbcircshift src n b; liquid_lbcircshift out n b } = Some src"
proof -
  obtain l where l: "liquid_lbcircshift src n b = Some l" "length l = n"
      "\<And>q. q < n \<Longrightarrow> l ! q = lbcirc_byte b (src ! q) (src ! (if q = n - 1 then 0 else q + 1))"
    using liquid_lbcircshift_nth [OF assms] by blast
  obtain lr where lr: "liquid_rbcircshift l n b = Some lr" "length lr = n"
      "\<And>q. q < n \<Longrightarrow> lr ! q = lbcirc_byte (8 - b) (l ! (if q = 0 then n - 1 else q - 1)) (l ! q)"
    using liquid_rbcircshift_nth [OF l(2) assms(2)] by blast
  have "lr = src"
  proof (rule nth_equalityI)
    fix q assume "q < length lr"
    then have q: "q < n" "(if q = 0 then n - 1 else q - 1) < n" using lr(2) by auto
    then have "l ! (if q = 0 then n - 1 else q - 1) = lbcirc_byte b (src ! (if q = 0 then n - 1 else q - 1)) (src ! q)"
      using l(3) [OF q(2)] by (auto simp: Suc_diff_1)
    then show "lr ! q = src ! q"
      using lr(3) [OF q(1)] l(3) [OF q(1)] assms(2) by (intro bit_word_eqI) (auto simp: bit_lbcirc_byte)
  qed (use lr assms in simp)
  with l lr show "do { out \<leftarrow> liquid_lbcircshift src n b; liquid_rbcircshift out n b } = Some src" by simp
  obtain r where r: "liquid_rbcircshift src n b = Some r" "length r = n"
      "\<And>q. q < n \<Longrightarrow> r ! q = lbcirc_byte (8 - b) (src ! (if q = 0 then n - 1 else q - 1)) (src ! q)"
    using liquid_rbcircshift_nth [OF assms] by blast
  obtain rl where rl: "liquid_lbcircshift r n b = Some rl" "length rl = n"
      "\<And>q. q < n \<Longrightarrow> rl ! q = lbcirc_byte b (r ! q) (r ! (if q = n - 1 then 0 else q + 1))"
    using liquid_lbcircshift_nth [OF r(2) assms(2)] by blast
  have "rl = src"
  proof (rule nth_equalityI)
    fix q assume "q < length rl"
    then have q: "q < n" "(if q = n - 1 then 0 else q + 1) < n" using rl(2) by auto
    then have "r ! (if q = n - 1 then 0 else q + 1) = lbcirc_byte (8 - b) (src ! q) (src ! (if q = n - 1 then 0 else q + 1))"
      using r(3) [OF q(2)] by (auto split: if_splits)
    then show "rl ! q = src ! q"
      using rl(3) [OF q(1)] r(3) [OF q(1)] assms(2) by (intro bit_word_eqI) (auto simp: bit_lbcirc_byte)
  qed (use rl assms in simp)
  with r rl show "do { out \<leftarrow> liquid_rbcircshift src n b; liquid_lbcircshift out n b } = Some src" by simp
qed

lemma sym_bit_update:
  "q < length xs \<Longrightarrow> sym_bit 8 (xs[q := xs ! q AND w]) t \<longleftrightarrow>
     sym_bit 8 xs t \<and> (t div 8 = q \<longrightarrow> bit w (7 - t mod 8))"
  by (auto simp: sym_bit_def bit_and_iff nth_list_update)

text \<open>The linear shifts move the stream and fill with zeros.\<close>

lemma liquid_lbshift_stream:
  assumes "length src = n" and "0 < n" and "b < 8"
  shows "\<exists>out. liquid_lbshift src n b = Some out \<and> length out = n \<and>
    (\<forall>t < 8 * n. sym_bit 8 out t \<longleftrightarrow> t + b < 8 * n \<and> sym_bit 8 src (t + b))"
proof -
  obtain c where c: "liquid_lbcircshift src n b = Some c" "length c = n"
      "\<And>t. t < 8 * n \<Longrightarrow> sym_bit 8 c t = sym_bit 8 src ((t + b) mod (8 * n))"
    using liquid_lbcircshift_stream [OF assms(1,3)] by blast
  define out where "out = c[n - 1 := c ! (n - 1) AND push_bit b 0xff]"
  have "sym_bit 8 out t \<longleftrightarrow> t + b < 8 * n \<and> sym_bit 8 src (t + b)" if t: "t < 8 * n" for t
  proof -
    have mask: "bit (push_bit b (0xff :: u8)) i \<longleftrightarrow> b \<le> i \<and> i < 8" for i
      unfolding bit_push_bit_iff bit_u8_255 by auto
    have "sym_bit 8 out t \<longleftrightarrow> sym_bit 8 c t \<and> (t div 8 = n - 1 \<longrightarrow> b \<le> 7 - t mod 8)"
      using sym_bit_update [of "n - 1" c] c(2) assms(2) by (auto simp: out_def mask)
    moreover have "(t div 8 = n - 1 \<longrightarrow> b \<le> 7 - t mod 8) \<longleftrightarrow> t + b < 8 * n"
    proof (cases "t div 8 = n - 1")
      case True
      then have "t = 8 * (n - 1) + t mod 8" using mult_div_mod_eq [of 8 t] by simp
      then have "b \<le> 7 - t mod 8 \<longleftrightarrow> t + b < 8 * n"
        using assms(2) mod_less_divisor [of 8 t] by (intro iffI; linarith)
      with True show ?thesis by simp
    next
      case False
      then have "t + b < 8 * n" using t assms(3) by linarith
      with False show ?thesis by simp
    qed
    ultimately show ?thesis using c(3) [OF t] by auto
  qed
  moreover have "liquid_lbshift src n b = Some out" "length out = n"
    using c assms(3) by (simp_all add: liquid_lbshift_def out_def)
  ultimately show ?thesis by blast
qed

lemma liquid_rbshift_stream:
  assumes "length src = n" and "0 < n" and "b < 8"
  shows "\<exists>out. liquid_rbshift src n b = Some out \<and> length out = n \<and>
    (\<forall>t < 8 * n. sym_bit 8 out t \<longleftrightarrow> b \<le> t \<and> sym_bit 8 src (t - b))"
proof -
  obtain c where c: "liquid_rbcircshift src n b = Some c" "length c = n"
    using liquid_rbcircshift_nth [OF assms(1,3)] by blast
  have "liquid_lbcircshift c n b = Some src" using bcircshift_inverse(2) [OF assms(1,3)] c by simp
  then have bits: "\<And>t. t < 8 * n \<Longrightarrow> sym_bit 8 src t = sym_bit 8 c ((t + b) mod (8 * n))"
    using liquid_lbcircshift_stream [OF c(2) assms(3)] by auto
  define out where "out = c[0 := c ! 0 AND drop_bit b 0xff]"
  have "sym_bit 8 out t \<longleftrightarrow> b \<le> t \<and> sym_bit 8 src (t - b)" if t: "t < 8 * n" for t
  proof -
    have mask: "bit (drop_bit b (0xff :: u8)) i \<longleftrightarrow> i + b < 8" for i
      unfolding bit_drop_bit_eq o_def bit_u8_255 by auto
    have "sym_bit 8 out t \<longleftrightarrow> sym_bit 8 c t \<and> (t div 8 = 0 \<longrightarrow> 7 - t mod 8 + b < 8)"
      using sym_bit_update [of 0 c] c(2) assms(2) by (auto simp: out_def mask)
    moreover have "(t div 8 = 0 \<longrightarrow> 7 - t mod 8 + b < 8) \<longleftrightarrow> b \<le> t"
    proof (cases "t div 8 = 0")
      case True
      then have "t < 8" by simp
      with True show ?thesis by auto
    next
      case False
      then show ?thesis using assms(3) by simp
    qed
    ultimately show ?thesis using bits [of "t - b"] t by auto
  qed
  moreover have "liquid_rbshift src n b = Some out" "length out = n"
    using c assms(3) by (simp_all add: liquid_rbshift_def out_def)
  ultimately show ?thesis by blast
qed

section \<open>Properties\<close>

text \<open>C23: The mutually recursive circular byte shifts terminate and are rotations: left by \<open>b\<close> positions
  and right by \<open>b mod n\<close> positions, so that they undo each other, for every shift amount however large.\<close>
theorem circshift_correct:
  assumes "length src = n"
  shows "liquid_lcircshift src n b = rotate b src \<and>
    liquid_rcircshift (liquid_lcircshift src n b) n b = src"
proof (cases "n = 0")
  case True
  with assms circshift_inverse [OF assms] show ?thesis by (simp add: liquid_lcircshift.simps)
qed (use assms circshift_inverse [OF assms] in \<open>simp add: circshift_rotate(1)\<close>)

theorem circshift_correct_witness:
  "liquid_lcircshift [1, 2, 3, 4, 5] 5 4 = rotate 4 [1, 2, 3, 4, 5] \<and>
   liquid_rcircshift (liquid_lcircshift [1, 2, 3, 4, 5] 5 4) 5 4 = [1, 2, 3, 4, 5]"
  by (rule circshift_correct) simp

text \<open>Over the array read as one stream of bits, \<open>liquid_lbshift\<close> moves every bit \<open>b\<close> places towards the
  front and \<open>liquid_rbshift\<close> \<open>b\<close> places towards the back, filling with zeros, although both work byte by
  byte in place; neither aborts for \<open>b < 8\<close>.\<close>
theorem bshift_stream:
  assumes "length src = n" and "0 < n" and "b < 8"
  shows "\<exists>l r. liquid_lbshift src n b = Some l \<and> liquid_rbshift src n b = Some r \<and>
    (\<forall>t < 8 * n. sym_bit 8 l t = (t + b < 8 * n \<and> sym_bit 8 src (t + b)) \<and>
                 sym_bit 8 r t = (b \<le> t \<and> sym_bit 8 src (t - b)))"
  using liquid_lbshift_stream [OF assms] liquid_rbshift_stream [OF assms] by auto

theorem bshift_stream_witness:
  "\<exists>l r. liquid_lbshift [0x81, 0x42] 2 3 = Some l \<and> liquid_rbshift [0x81, 0x42] 2 3 = Some r \<and>
    (\<forall>t < 8 * 2. sym_bit 8 l t = (t + 3 < 8 * 2 \<and> sym_bit 8 [0x81, 0x42] (t + 3)) \<and>
                 sym_bit 8 r t = (3 \<le> t \<and> sym_bit 8 [0x81, 0x42] (t - 3)))"
  by (rule bshift_stream) simp_all

end
