(* ===== verification/Crc.thy ===== *)
theory Crc
  imports Byte_Utilities
begin

unbundle bit_operations_syntax

text \<open>
  \<^verbatim>\<open>liquid_dsp/src/fec/src/crc.c\<close>: the error-detection keys. The registers are 32-bit words in
  the code whatever the key size, and so they are here. The locale \<open>crc_register\<close> states what the
  detection argument needs of a key size and its reversed polynomial; it is interpreted for the
  four polynomials of \<^verbatim>\<open>liquid.internal.h\<close>. Its lemmas give that a key of \<open>k\<close> bytes detects every
  error confined to \<open>k\<close> consecutive bytes.
\<close>

section \<open>Schemes\<close>

datatype crc_scheme = CRC_UNKNOWN | CRC_NONE | CRC_CHECKSUM | CRC_8 | CRC_16 | CRC_24 | CRC_32

definition crc_scheme_list :: "(crc_scheme \<times> string) list" where
  "crc_scheme_list = [
    (CRC_UNKNOWN, ''unknown''),
    (CRC_NONE, ''none''),
    (CRC_CHECKSUM, ''checksum''),
    (CRC_8, ''crc8''),
    (CRC_16, ''crc16''),
    (CRC_24, ''crc24''),
    (CRC_32, ''crc32'')]"

fun str2crc_loop :: "string \<Rightarrow> (crc_scheme \<times> string) list \<Rightarrow> crc_scheme" where
  "str2crc_loop str [] = CRC_UNKNOWN"
| "str2crc_loop str ((s, name) # rest) = (if str = name then s else str2crc_loop str rest)"

definition liquid_getopt_str2crc :: "string \<Rightarrow> crc_scheme" where
  "liquid_getopt_str2crc str = str2crc_loop str crc_scheme_list"

fun crc_get_length :: "crc_scheme \<Rightarrow> nat" where
  "crc_get_length CRC_UNKNOWN = 0"
| "crc_get_length CRC_NONE = 0"
| "crc_get_length CRC_CHECKSUM = 1"
| "crc_get_length CRC_8 = 1"
| "crc_get_length CRC_16 = 2"
| "crc_get_length CRC_24 = 3"
| "crc_get_length CRC_32 = 4"

section \<open>Keys\<close>

definition CRC8_POLY :: u32 where "CRC8_POLY = 0x07"
definition CRC16_POLY :: u32 where "CRC16_POLY = 0x8005"
definition CRC24_POLY :: u32 where "CRC24_POLY = 0x5D6DCB"
definition CRC32_POLY :: u32 where "CRC32_POLY = 0x04C11DB7"

fun checksum_loop :: "bytes \<Rightarrow> nat list \<Rightarrow> u32 \<Rightarrow> u32" where
  "checksum_loop data [] s = s"
| "checksum_loop data (i # is) s = checksum_loop data is (s + ucast (data ! i))"

definition checksum_generate_key :: "bytes \<Rightarrow> nat \<Rightarrow> u32" where
  "checksum_generate_key data n =
     (let s = checksum_loop data [0..<n] 0;
          key = ucast (NOT (s AND 0xff) + 1) :: u8
      in ucast key)"

text \<open>The loops of the four CRC functions are the same code over their own register and polynomial.\<close>

definition crc_bit :: "u32 \<Rightarrow> u32 \<Rightarrow> u32" where
  "crc_bit poly key = (let mask = - (key AND 1) in drop_bit 1 key XOR (poly AND mask))"

fun crc_bits :: "nat \<Rightarrow> u32 \<Rightarrow> u32 \<Rightarrow> u32" where
  "crc_bits 0 poly key = key"
| "crc_bits (Suc j) poly key = crc_bits j poly (crc_bit poly key)"

fun crc_bytes :: "u32 \<Rightarrow> bytes \<Rightarrow> nat list \<Rightarrow> u32 \<Rightarrow> u32" where
  "crc_bytes poly msg [] key = key"
| "crc_bytes poly msg (i # is) key =
     crc_bytes poly msg is (crc_bits 8 poly (key XOR ucast (msg ! i)))"

definition crc8_generate_key :: "bytes \<Rightarrow> nat \<Rightarrow> u32" where
  "crc8_generate_key msg n =
     (let poly = ucast (liquid_reverse_byte_gentab ! unat CRC8_POLY)
      in NOT (crc_bytes poly msg [0..<n] (NOT 0)) AND 0xff)"

definition crc16_generate_key :: "bytes \<Rightarrow> nat \<Rightarrow> u32" where
  "crc16_generate_key msg n =
     (let poly = liquid_reverse_uint16 CRC16_POLY
      in NOT (crc_bytes poly msg [0..<n] (NOT 0)) AND 0xffff)"

definition crc24_generate_key :: "bytes \<Rightarrow> nat \<Rightarrow> u32" where
  "crc24_generate_key msg n =
     (let poly = liquid_reverse_uint24 CRC24_POLY
      in NOT (crc_bytes poly msg [0..<n] (NOT 0)) AND 0xffffff)"

definition crc32_generate_key :: "bytes \<Rightarrow> nat \<Rightarrow> u32" where
  "crc32_generate_key msg n =
     (let poly = liquid_reverse_uint32 CRC32_POLY
      in NOT (crc_bytes poly msg [0..<n] (NOT 0)) AND 0xffffffff)"

fun crc_generate_key :: "crc_scheme \<Rightarrow> bytes \<Rightarrow> nat \<Rightarrow> u32 option" where
  "crc_generate_key CRC_UNKNOWN msg n = None"
| "crc_generate_key CRC_NONE msg n = Some 0"
| "crc_generate_key CRC_CHECKSUM msg n = Some (checksum_generate_key msg n)"
| "crc_generate_key CRC_8 msg n = Some (crc8_generate_key msg n)"
| "crc_generate_key CRC_16 msg n = Some (crc16_generate_key msg n)"
| "crc_generate_key CRC_24 msg n = Some (crc24_generate_key msg n)"
| "crc_generate_key CRC_32 msg n = Some (crc32_generate_key msg n)"

definition crc_validate_message :: "crc_scheme \<Rightarrow> bytes \<Rightarrow> nat \<Rightarrow> u32 \<Rightarrow> bool option" where
  "crc_validate_message scheme msg n key =
     (if scheme = CRC_UNKNOWN then None
      else if scheme = CRC_NONE then Some True
      else do { k \<leftarrow> crc_generate_key scheme msg n; Some (k = key) })"

section \<open>The register is linear\<close>

lemma neg_low_bit: "- (x AND 1) = (if bit x 0 then - 1 else 0)" for x :: "'a::len word"
proof -
  have "x AND 1 = of_bool (bit x 0)" by (rule bit_word_eqI) (auto simp: bit_simps)
  then show ?thesis by simp
qed

lemma crc_bit_eq: "crc_bit poly key = drop_bit 1 key XOR (if bit key 0 then poly else 0)"
  by (simp add: crc_bit_def Let_def neg_low_bit)

lemma crc_bit_xor: "crc_bit poly (x XOR y) = crc_bit poly x XOR crc_bit poly y"
  by (rule bit_word_eqI) (auto simp: crc_bit_eq bit_xor_iff bit_drop_bit_eq simp del: drop_bit_Suc)

lemma crc_bits_xor: "crc_bits j poly (x XOR y) = crc_bits j poly x XOR crc_bits j poly y"
  by (induction j arbitrary: x y) (simp_all add: crc_bit_xor)

lemma crc_bit_0 [simp]: "crc_bit poly 0 = 0"
  by (simp add: crc_bit_eq)

lemma crc_bits_0 [simp]: "crc_bits j poly 0 = 0"
  by (induction j) simp_all

lemma crc_bits_add: "crc_bits (i + j) poly x = crc_bits j poly (crc_bits i poly x)"
  by (induction i arbitrary: x) simp_all

text \<open>The register after the bytes of a list.\<close>

definition crc_reg :: "u32 \<Rightarrow> bytes \<Rightarrow> u32 \<Rightarrow> u32" where
  "crc_reg poly xs key = fold (\<lambda>b key. crc_bits 8 poly (key XOR ucast b)) xs key"

lemma crc_reg_simps [simp]:
  "crc_reg poly [] key = key"
  "crc_reg poly (b # xs) key = crc_reg poly xs (crc_bits 8 poly (key XOR ucast b))"
  "crc_reg poly (xs @ ys) key = crc_reg poly ys (crc_reg poly xs key)"
  by (simp_all add: crc_reg_def)

lemma crc_bytes_reg: "crc_bytes poly msg is key = crc_reg poly (map ((!) msg) is) key"
  by (induction "is" arbitrary: key) simp_all

lemma crc_reg_xor:
  "length xs = length ys \<Longrightarrow>
   crc_reg poly (map2 (XOR) xs ys) (k XOR l) = crc_reg poly xs k XOR crc_reg poly ys l"
proof (induction xs ys arbitrary: k l rule: list_induct2)
  case (Cons x xs y ys)
  have "(k XOR l) XOR ucast (x XOR y) = (k XOR ucast x) XOR (l XOR ucast y)"
    by (rule bit_word_eqI) (auto simp: bit_simps)
  then have "crc_bits 8 poly ((k XOR l) XOR ucast (x XOR y)) =
      crc_bits 8 poly (k XOR ucast x) XOR crc_bits 8 poly (l XOR ucast y)"
    by (simp only: crc_bits_xor [symmetric])
  then show ?case using Cons.IH by (simp del: crc_bits.simps)
qed simp

lemma crc_reg_zeros: "crc_reg poly (replicate m 0) 0 = 0"
  by (induction m) (simp_all del: crc_bits.simps)

section \<open>Detection\<close>

text \<open>A word with no bit at \<open>w\<close> or above.\<close>

definition fits :: "nat \<Rightarrow> 'a::len word \<Rightarrow> bool" where
  "fits w x \<longleftrightarrow> (\<forall>i. bit x i \<longrightarrow> i < w)"

lemma fits_0 [simp]: "fits w 0"
  by (simp add: fits_def)

lemma fits_xor: "fits w x \<Longrightarrow> fits w y \<Longrightarrow> fits w (x XOR y)"
  by (auto simp: fits_def bit_xor_iff)

lemma fits_mono: "fits v x \<Longrightarrow> v \<le> w \<Longrightarrow> fits w x"
  by (auto simp: fits_def)

lemma fits_take_bit: "fits w x \<Longrightarrow> take_bit w x = x"
  by (rule bit_word_eqI) (auto simp: fits_def bit_take_bit_iff)

lemma fits_ucast_u8: "8 \<le> w \<Longrightarrow> fits w (ucast (b :: u8) :: u32)"
  using bit_imp_le_length [of b] by (fastforce simp: fits_def bit_ucast_iff)

text \<open>
  A register of \<open>w\<close> bits with a reversed polynomial whose top bit is set: a step can be undone,
  so a non-zero difference never vanishes while equal bytes are fed.
\<close>

locale crc_register =
  fixes w :: nat and poly :: u32
  assumes width: "8 \<le> w" "w \<le> 32"
    and poly_fits: "fits w poly"
    and poly_top: "bit poly (w - 1)"
begin

lemma crc_bit_fits: "fits w x \<Longrightarrow> fits w (crc_bit poly x)"
  using poly_fits by (fastforce simp: fits_def crc_bit_eq bit_xor_iff bit_drop_bit_eq
      simp del: drop_bit_Suc split: if_splits)

lemma crc_bit_nonzero: "fits w x \<Longrightarrow> crc_bit poly x = 0 \<Longrightarrow> x = 0"
proof -
  assume x: "fits w x" and z: "crc_bit poly x = 0"
  have bits: "bit x (Suc i) \<longleftrightarrow> bit x 0 \<and> bit poly i" for i
  proof -
    have "bit (crc_bit poly x) i \<longleftrightarrow> (bit x (Suc i) \<noteq> (bit x 0 \<and> bit poly i))"
      by (simp add: crc_bit_eq bit_xor_iff bit_drop_bit_eq del: drop_bit_Suc)
    then show ?thesis by (simp add: z)
  qed
  have "\<not> bit x w" using x by (auto simp: fits_def)
  then have "\<not> bit x 0" using bits [of "w - 1"] poly_top width by simp
  then have "\<not> bit x i" for i using bits by (cases i) auto
  then show "x = 0" by (intro bit_word_eqI) simp
qed

lemma crc_bits_fits: "fits w x \<Longrightarrow> fits w (crc_bits j poly x)"
  by (induction j arbitrary: x) (simp_all add: crc_bit_fits)

lemma crc_bits_nonzero: "fits w x \<Longrightarrow> crc_bits j poly x = 0 \<Longrightarrow> x = 0"
  by (induction j arbitrary: x) (auto dest: crc_bit_nonzero crc_bit_fits)

lemma crc_reg_fits: "fits w x \<Longrightarrow> fits w (crc_reg poly xs x)"
  by (induction xs arbitrary: x) (simp_all add: crc_bits_fits fits_xor fits_ucast_u8 width del: crc_bits.simps)

lemma crc_reg_zeros_nonzero:
  "fits w x \<Longrightarrow> x \<noteq> 0 \<Longrightarrow> crc_reg poly (replicate m 0) x \<noteq> 0"
proof (induction m arbitrary: x)
  case (Suc m)
  then have "crc_bits 8 poly x \<noteq> 0" using crc_bits_nonzero by blast
  with Suc show ?case by (simp add: crc_bits_fits del: crc_bits.simps)
qed simp

text \<open>Feeding \<open>j\<close> zero bits undoes a shift by \<open>j\<close>.\<close>

lemma crc_bits_push: "fits (32 - j) y \<Longrightarrow> j \<le> 32 \<Longrightarrow> crc_bits j poly (push_bit j y) = y"
proof (induction j)
  case (Suc j)
  have "crc_bit poly (push_bit (Suc j) y) = push_bit j y"
  proof (rule bit_word_eqI)
    fix i assume i: "i < LENGTH(32)"
    have "\<not> bit (push_bit (Suc j) y) 0" by (simp add: bit_push_bit_iff del: push_bit_Suc)
    then have "bit (crc_bit poly (push_bit (Suc j) y)) i \<longleftrightarrow> bit (push_bit (Suc j) y) (Suc i)"
      by (simp add: crc_bit_eq bit_drop_bit_eq del: drop_bit_Suc push_bit_Suc)
    also have "\<dots> \<longleftrightarrow> bit (push_bit j y) i"
      using i Suc.prems by (auto simp: bit_push_bit_iff fits_def simp del: push_bit_Suc)
    finally show "bit (crc_bit poly (push_bit (Suc j) y)) i = bit (push_bit j y) i" .
  qed
  moreover have "crc_bits j poly (push_bit j y) = y"
    using Suc.prems by (intro Suc.IH) (auto intro: fits_mono)
  ultimately show ?case by (simp only: crc_bits.simps)
qed simp

end

text \<open>The bytes of a burst as one word, first byte lowest.\<close>

fun burst_word :: "bytes \<Rightarrow> u32" where
  "burst_word [] = 0"
| "burst_word (b # bs) = ucast b XOR push_bit 8 (burst_word bs)"

lemma fits_push_bit: "fits w x \<Longrightarrow> fits (w + k) (push_bit k x)"
  by (fastforce simp: fits_def bit_push_bit_iff)

lemma burst_word_fits: "fits (8 * length bs) (burst_word bs)"
proof (induction bs)
  case (Cons b bs)
  have "8 * length bs + 8 = 8 * length (b # bs)" by simp
  with fits_push_bit [OF Cons, of 8] show ?case
    by (auto intro!: fits_xor fits_ucast_u8)
qed simp

lemma burst_word_nonzero:
  "length bs \<le> 4 \<Longrightarrow> burst_word bs = 0 \<Longrightarrow> \<forall>b \<in> set bs. b = 0"
proof (induction bs)
  case (Cons b bs)
  have low: "bit (push_bit 8 (burst_word bs)) i = (8 \<le> i \<and> i < 32 \<and> bit (burst_word bs) (i - 8))" for i
    by (auto simp: bit_push_bit_iff)
  have zero: "bit (ucast b :: u32) i = bit (push_bit 8 (burst_word bs)) i" for i
    using Cons.prems(2) by (simp only: burst_word.simps xor_zero_iff)
  have b: "b = 0"
  proof (rule bit_word_eqI)
    fix i assume "i < LENGTH(8)"
    then show "bit b i = bit 0 i" using zero [of i] by (simp add: low bit_ucast_iff)
  qed
  have "burst_word bs = 0"
  proof (rule bit_word_eqI)
    fix i
    have "bit (burst_word bs) i \<Longrightarrow> i < 24"
      using burst_word_fits [of bs] Cons.prems(1) by (fastforce simp: fits_def)
    then show "bit (burst_word bs) i = bit 0 i"
      using zero [of "i + 8"] b by (auto simp: low)
  qed
  with Cons b show ?case by simp
qed simp

context crc_register
begin

lemma crc_reg_burst:
  "8 * length bs \<le> w \<Longrightarrow> bs \<noteq> [] \<Longrightarrow> 
   crc_reg poly bs d = crc_bits (8 * length bs) poly (d XOR burst_word bs)"
proof (induction bs arbitrary: d)
  case (Cons b bs)
  show ?case
  proof (cases "bs = []")
    case True
    then show ?thesis by (simp del: crc_bits.simps)
  next
    case False
    let ?d = "d XOR ucast b"
    have "crc_reg poly (b # bs) d = crc_bits (8 * length bs) poly (crc_bits 8 poly ?d XOR burst_word bs)"
      using Cons False by (simp del: crc_bits.simps)
    also have "burst_word bs = crc_bits 8 poly (push_bit 8 (burst_word bs))"
    proof (rule crc_bits_push [symmetric])
      show "fits (32 - 8) (burst_word bs)"
        using Cons.prems(1) width(2) by (intro fits_mono [OF burst_word_fits]) simp
    qed simp
    also have "crc_bits 8 poly ?d XOR crc_bits 8 poly (push_bit 8 (burst_word bs)) =
        crc_bits 8 poly (d XOR burst_word (b # bs))"
      by (simp only: crc_bits_xor [symmetric] burst_word.simps xor.assoc)
    also have "crc_bits (8 * length bs) poly \<dots> =
        crc_bits (8 + 8 * length bs) poly (d XOR burst_word (b # bs))"
      by (simp only: crc_bits_add)
    finally show ?thesis by simp
  qed
qed simp

lemma crc_reg_burst_nonzero:
  assumes "8 * length bs \<le> w" and "b \<in> set bs" and "b \<noteq> 0"
  shows "crc_reg poly bs 0 \<noteq> 0"
proof -
  have len: "length bs \<le> 4" using assms(1) width by linarith
  from assms(2,3) have "burst_word bs \<noteq> 0" using burst_word_nonzero [OF len] by blast
  moreover have "fits w (burst_word bs)" using burst_word_fits assms(1) by (rule fits_mono)
  moreover have "bs \<noteq> []" using assms(2) by auto
  ultimately show ?thesis
    using crc_bits_nonzero crc_reg_burst [OF assms(1), of 0] by fastforce
qed

text \<open>Two messages of one length that differ only inside \<open>w\<close> bits leave different registers.\<close>

lemma crc_bytes_detect:
  assumes len: "8 * k \<le> w" and p: "p + k \<le> n"
    and same: "\<And>i. i < n \<Longrightarrow> i < p \<or> p + k \<le> i \<Longrightarrow> msg ! i = rx ! i"
    and diff: "\<exists>i < n. msg ! i \<noteq> rx ! i"
  shows "crc_bytes poly msg [0..<n] key XOR crc_bytes poly rx [0..<n] key \<noteq> 0"
    and "fits w (crc_bytes poly msg [0..<n] key XOR crc_bytes poly rx [0..<n] key)"
proof -
  define e where "e = (\<lambda>i. msg ! i XOR rx ! i)"
  define bs where "bs = map e [p..<p + k]"
  have zero: "map e [a..<b] = replicate (b - a) 0"
    if "\<And>i. a \<le> i \<Longrightarrow> i < b \<Longrightarrow> i < n \<and> (i < p \<or> p + k \<le> i)" for a b
    using that same by (intro nth_equalityI) (simp_all add: e_def)
  have "[0..<n] = [0..<p] @ [p..<p + k] @ [p + k..<n]"
    using p by (metis add_leE le_add1 upt_add_eq_append zero_le le_add_diff_inverse)
  then have split: "map e [0..<n] = replicate p 0 @ bs @ replicate (n - (p + k)) 0"
    using zero [of 0 p] zero [of "p + k" n] p by (simp add: bs_def)
  have "crc_bytes poly msg [0..<n] key XOR crc_bytes poly rx [0..<n] key =
      crc_reg poly (map2 (XOR) (map ((!) msg) [0..<n]) (map ((!) rx) [0..<n])) (key XOR key)"
    unfolding crc_bytes_reg by (rule crc_reg_xor [symmetric]) simp
  also have "map2 (XOR) (map ((!) msg) [0..<n]) (map ((!) rx) [0..<n]) = map e [0..<n]"
    by (rule nth_equalityI) (simp_all add: e_def)
  also have "crc_reg poly (map e [0..<n]) (key XOR key) =
      crc_reg poly (replicate (n - (p + k)) 0) (crc_reg poly bs 0)"
    by (simp add: split crc_reg_zeros)
  finally have reg: "crc_bytes poly msg [0..<n] key XOR crc_bytes poly rx [0..<n] key =
      crc_reg poly (replicate (n - (p + k)) 0) (crc_reg poly bs 0)" .
  obtain i where i: "i < n" "msg ! i \<noteq> rx ! i" using diff by blast
  then have "p \<le> i" "i < p + k" using same by (meson not_le)+
  then have "e i \<in> set bs" "e i \<noteq> 0" using i by (auto simp: bs_def e_def xor_zero_iff)
  then have "crc_reg poly bs 0 \<noteq> 0"
    using len by (intro crc_reg_burst_nonzero) (simp_all add: bs_def)
  then show "crc_bytes poly msg [0..<n] key XOR crc_bytes poly rx [0..<n] key \<noteq> 0"
    unfolding reg by (intro crc_reg_zeros_nonzero crc_reg_fits) simp
  show "fits w (crc_bytes poly msg [0..<n] key XOR crc_bytes poly rx [0..<n] key)"
    unfolding reg by (intro crc_reg_fits) simp
qed

lemma crc_keys_differ:
  assumes "8 * k \<le> w" and "p + k \<le> n"
    and "\<And>i. i < n \<Longrightarrow> i < p \<or> p + k \<le> i \<Longrightarrow> msg ! i = rx ! i"
    and "\<exists>i < n. msg ! i \<noteq> rx ! i"
  shows "NOT (crc_bytes poly msg [0..<n] key) AND mask w \<noteq>
    NOT (crc_bytes poly rx [0..<n] key) AND mask w"
proof
  let ?a = "crc_bytes poly msg [0..<n] key" and ?b = "crc_bytes poly rx [0..<n] key"
  assume eq: "NOT ?a AND mask w = NOT ?b AND mask w"
  have "?a XOR ?b = 0"
  proof (rule bit_word_eqI)
    fix i assume i: "i < LENGTH(32)"
    have "bit (NOT ?a AND mask w) i = bit (NOT ?b AND mask w) i" by (simp only: eq)
    then have "i < w \<Longrightarrow> bit ?a i = bit ?b i"
      using i by (simp add: bit_and_iff bit_not_iff bit_mask_iff)
    moreover have "bit (?a XOR ?b) i \<Longrightarrow> i < w"
      using crc_bytes_detect(2) [OF assms, of key] by (auto simp: fits_def)
    ultimately show "bit (?a XOR ?b) i = bit 0 i" by (auto simp: bit_xor_iff)
  qed
  with crc_bytes_detect(1) [OF assms, of key] show False by contradiction
qed

end

section \<open>The four registers\<close>

lemma fits_iff: "fits w (x :: u32) \<longleftrightarrow> take_bit w x = x"
  by (metis bit_take_bit_iff fits_def fits_take_bit)

interpretation crc8: crc_register 8 "ucast (liquid_reverse_byte_gentab ! unat CRC8_POLY)"
  by unfold_locales (simp_all add: fits_iff CRC8_POLY_def liquid_reverse_byte_gentab_def)

interpretation crc16: crc_register 16 "liquid_reverse_uint16 CRC16_POLY"
  by unfold_locales (auto simp: fits_def CRC16_POLY_def bit_liquid_reverse_uint16)

interpretation crc24: crc_register 24 "liquid_reverse_uint24 CRC24_POLY"
  by unfold_locales (auto simp: fits_def CRC24_POLY_def bit_liquid_reverse_uint24)

interpretation crc32: crc_register 32 "liquid_reverse_uint32 CRC32_POLY"
  by unfold_locales (auto simp: fits_def CRC32_POLY_def bit_liquid_reverse_uint32)

section \<open>The checksum\<close>

lemma ucast_u8_add: "(ucast (x + y :: u32) :: u8) = ucast x + ucast y"
proof -
  have "x + y = word_of_int (uint x + uint y)" by (simp add: wi_hom_add [symmetric])
  then have "(ucast (x + y) :: u8) = word_of_int (uint x + uint y)"
    by (simp only: ucast_down_wi is_down len_bit0 len_num1)
  also have "\<dots> = word_of_int (uint x) + word_of_int (uint y)" by (rule wi_hom_add [symmetric])
  finally show ?thesis by simp
qed

lemma checksum_loop_sum:
  "ucast (checksum_loop data is s) = ucast s + (\<Sum>i\<leftarrow>is. data ! i)"
  by (induction "is" arbitrary: s) (simp_all add: ucast_u8_add add.assoc)

lemma ucast_u8_neg: "(ucast (NOT ((x :: u32) AND 0xff) + 1) :: u8) = - ucast x"
proof -
  have "(ucast (NOT (x AND 0xff)) :: u8) = NOT (ucast x)"
    by (rule bit_word_eqI) (auto simp: and_255 bit_simps)
  then have "(ucast (NOT (x AND 0xff) + 1) :: u8) = NOT (ucast x) + 1"
    by (simp only: ucast_u8_add) simp
  then show ?thesis by (simp add: not_eq_complement)
qed

lemma checksum_key_eq:
  "checksum_generate_key data n = ucast (- (\<Sum>i\<leftarrow>[0..<n]. data ! i) :: u8)"
  by (simp only: checksum_generate_key_def Let_def ucast_u8_neg checksum_loop_sum) simp

text \<open>Adding the checksum to the sum of the bytes gives zero: the property a receiver tests.\<close>

lemma checksum_balances:
  "(\<Sum>i\<leftarrow>[0..<n]. data ! i) + ucast (checksum_generate_key data n) = (0 :: u8)"
  by (simp add: checksum_key_eq)

lemma checksum_differs:
  assumes "p < n" and "\<And>i. i < n \<Longrightarrow> i \<noteq> p \<Longrightarrow> msg ! i = rx ! i" and "msg ! p \<noteq> rx ! p"
  shows "checksum_generate_key msg n \<noteq> checksum_generate_key rx n"
proof
  assume eq: "checksum_generate_key msg n = checksum_generate_key rx n"
  have split: "(\<Sum>i\<leftarrow>[0..<n]. f i) = f p + (\<Sum>i \<in> {0..<n} - {p}. f i)" for f :: "nat \<Rightarrow> u8"
    using assms(1) by (simp add: interv_sum_list_conv_sum_set_nat sum.remove [of _ p])
  have rest: "(\<Sum>i \<in> {0..<n} - {p}. msg ! i) = (\<Sum>i \<in> {0..<n} - {p}. rx ! i)"
    by (rule sum.cong) (use assms(2) in auto)
  have "(\<Sum>i\<leftarrow>[0..<n]. msg ! i) = (\<Sum>i\<leftarrow>[0..<n]. rx ! i)"
    using checksum_balances [of msg n] checksum_balances [of rx n] unfolding eq
    by (metis add_right_cancel)
  then have "msg ! p = rx ! p" unfolding split rest by simp
  with assms(3) show False by contradiction
qed

section \<open>Validation\<close>

lemma mask_numerals: "(0xff :: u32) = mask 8" "(0xffff :: u32) = mask 16"
  "(0xffffff :: u32) = mask 24" "(0xffffffff :: u32) = mask 32"
  by (simp_all add: mask_numeral)

lemma crc_generate_key_Some: "scheme \<noteq> CRC_UNKNOWN \<Longrightarrow> \<exists>key. crc_generate_key scheme msg n = Some key"
  by (cases scheme) simp_all

lemma crc_generate_key_fits:
  "crc_generate_key scheme msg n = Some key \<Longrightarrow> fits (8 * crc_get_length scheme) key"
  by (cases scheme)
    (auto simp: fits_def bit_and_iff mask_numerals bit_mask_iff Let_def checksum_key_eq
      crc8_generate_key_def crc16_generate_key_def crc24_generate_key_def crc32_generate_key_def
      dest!: fits_ucast_u8 [of 8, unfolded fits_def, simplified, rule_format])

lemma crc_validate_generate:
  "crc_generate_key scheme msg n = Some key \<Longrightarrow> crc_validate_message scheme msg n key = Some True"
  by (cases scheme) (simp_all add: crc_validate_message_def)

lemma crc_generate_key_cong:
  "(\<And>i. i < n \<Longrightarrow> xs ! i = ys ! i) \<Longrightarrow> crc_generate_key scheme xs n = crc_generate_key scheme ys n"
proof -
  assume "\<And>i. i < n \<Longrightarrow> xs ! i = ys ! i"
  then have map: "map ((!) xs) [0..<n] = map ((!) ys) [0..<n]" by simp
  then have "(\<Sum>i\<leftarrow>[0..<n]. xs ! i) = (\<Sum>i\<leftarrow>[0..<n]. ys ! i)" by (simp only:)
  moreover have "crc_bytes p xs [0..<n] k = crc_bytes p ys [0..<n] k" for p k
    by (simp only: crc_bytes_reg map)
  ultimately show ?thesis
    by (cases scheme)
      (simp_all add: checksum_key_eq crc8_generate_key_def crc16_generate_key_def
        crc24_generate_key_def crc32_generate_key_def)
qed

text \<open>
  A key of \<open>k\<close> bytes catches every corruption of at most \<open>k\<close> consecutive bytes: the received
  message no longer validates against the key of the one sent.
\<close>

lemma crc_burst_detected:
  assumes "crc_generate_key scheme msg n = Some key"
    and "p + crc_get_length scheme \<le> n"
    and "\<And>i. i < n \<Longrightarrow> i < p \<or> p + crc_get_length scheme \<le> i \<Longrightarrow> msg ! i = rx ! i"
    and "\<exists>i < n. msg ! i \<noteq> rx ! i"
  shows "scheme = CRC_NONE \<or> crc_validate_message scheme rx n key = Some False"
proof (cases scheme)
  case CRC_CHECKSUM
  obtain i where i: "i < n" "msg ! i \<noteq> rx ! i" using assms(4) by blast
  with assms(3) have "i = p" by (metis CRC_CHECKSUM One_nat_def Suc_leI add.commute crc_get_length.simps(3) linorder_neqE_nat plus_1_eq_Suc)
  then have "checksum_generate_key msg n \<noteq> checksum_generate_key rx n"
    using i assms(3) by (intro checksum_differs [of p]) (simp_all add: CRC_CHECKSUM Suc_le_eq nat_neq_iff)
  with assms(1) show ?thesis by (auto simp: CRC_CHECKSUM crc_validate_message_def)
next
  case CRC_8
  with assms crc8.crc_keys_differ [of 1 p n msg rx "NOT 0"] show ?thesis
    by (auto simp: crc_validate_message_def crc8_generate_key_def mask_numerals simp del: bit.compl_zero)
next
  case CRC_16
  with assms crc16.crc_keys_differ [of 2 p n msg rx "NOT 0"] show ?thesis
    by (auto simp: crc_validate_message_def crc16_generate_key_def mask_numerals simp del: bit.compl_zero)
next
  case CRC_24
  with assms crc24.crc_keys_differ [of 3 p n msg rx "NOT 0"] show ?thesis
    by (auto simp: crc_validate_message_def crc24_generate_key_def mask_numerals simp del: bit.compl_zero)
next
  case CRC_32
  with assms crc32.crc_keys_differ [of 4 p n msg rx "NOT 0"] show ?thesis
    by (auto simp: crc_validate_message_def crc32_generate_key_def mask_numerals simp del: bit.compl_zero)
qed (use assms in simp_all)

section \<open>Properties\<close>

text \<open>C6: Burst detection. For the checksum and each CRC with a key of \<open>k\<close> bytes, a received message that
  differs from the one sent only inside some window of \<open>k\<close> consecutive bytes, in whatever bits, never
  validates against the key generated for the message sent.\<close>
theorem crc_detects_bursts:
  assumes "crc_generate_key scheme msg n = Some key" and "scheme \<noteq> CRC_NONE"
    and "p + crc_get_length scheme \<le> n"
    and "\<forall>i < n. i < p \<or> p + crc_get_length scheme \<le> i \<longrightarrow> msg ! i = rx ! i"
    and "\<exists>i < n. msg ! i \<noteq> rx ! i"
  shows "crc_validate_message scheme rx n key = Some False"
  using crc_burst_detected [OF assms(1,3)] assms(2,4,5) by blast

theorem crc_detects_bursts_witness:
  "crc_validate_message CRC_16 [1, 7, 9, 4] 4 (crc16_generate_key [1, 2, 3, 4] 4) = Some False"
proof (rule crc_detects_bursts)
  show "\<forall>i < 4. i < 1 \<or> 1 + crc_get_length CRC_16 \<le> i \<longrightarrow>
      [1, 2, 3, 4 :: u8] ! i = [1, 7, 9, 4] ! i"
    by (auto simp: less_Suc_eq numeral_nat)
  show "\<exists>i < 4. [1, 2, 3, 4 :: u8] ! i \<noteq> [1, 7, 9, 4] ! i"
    by (rule exI [of _ 1]) simp
qed simp_all

text \<open>An intact message validates against its own key, for every scheme but the unknown one (where both
  functions abort), and the key fits into the number of bytes reserved for it.\<close>
theorem crc_accepts_intact:
  assumes "scheme \<noteq> CRC_UNKNOWN"
  shows "\<exists>key. crc_generate_key scheme msg n = Some key \<and>
    crc_validate_message scheme msg n key = Some True \<and>
    take_bit (8 * crc_get_length scheme) key = key"
proof -
  obtain key where key: "crc_generate_key scheme msg n = Some key"
    using crc_generate_key_Some [OF assms] by blast
  then show ?thesis
    using crc_validate_generate [OF key] fits_take_bit [OF crc_generate_key_fits [OF key]] by blast
qed

theorem crc_accepts_intact_witness:
  "\<exists>key. crc_generate_key CRC_24 [0xca, 0xfe] 2 = Some key \<and>
    crc_validate_message CRC_24 [0xca, 0xfe] 2 key = Some True \<and>
    take_bit (8 * crc_get_length CRC_24) key = key"
  by (rule crc_accepts_intact) simp

end
