(* ===== verification/Fec_Scheme.thy ===== *)
theory Fec_Scheme
  imports Radio_Prelude
begin

text \<open>
  \<^verbatim>\<open>liquid_dsp/src/fec/src/fec.c\<close>, the part that depends on the scheme alone: the enumeration and
  its names, the predicates on schemes, the length of an encoded message and the nominal code
  rate. The build has libfec, so the branches of \<^verbatim>\<open>LIBFEC_ENABLED\<close> are the ones modelled. Message
  lengths are natural numbers and every product and sum that a 32-bit unsigned can lose is reduced
  with \<open>wrap32\<close>; \<open>None\<close> is the process ending in \<^verbatim>\<open>exit()\<close>.
\<close>

section \<open>Schemes\<close>

datatype fec_scheme =
    FEC_UNKNOWN | FEC_NONE | FEC_REP3 | FEC_REP5 | FEC_HAMMING74 | FEC_HAMMING84 |
    FEC_HAMMING128 | FEC_GOLAY2412 | FEC_SECDED2216 | FEC_SECDED3932 | FEC_SECDED7264 |
    FEC_CONV_V27 | FEC_CONV_V29 | FEC_CONV_V39 | FEC_CONV_V615 | FEC_CONV_V27P23 |
    FEC_CONV_V27P34 | FEC_CONV_V27P45 | FEC_CONV_V27P56 | FEC_CONV_V27P67 | FEC_CONV_V27P78 |
    FEC_CONV_V29P23 | FEC_CONV_V29P34 | FEC_CONV_V29P45 | FEC_CONV_V29P56 | FEC_CONV_V29P67 |
    FEC_CONV_V29P78 | FEC_RS_M8

definition fec_scheme_list :: "(fec_scheme \<times> string) list" where
  "fec_scheme_list = [
    (FEC_UNKNOWN, ''unknown''),
    (FEC_NONE, ''none''),
    (FEC_REP3, ''rep3''),
    (FEC_REP5, ''rep5''),
    (FEC_HAMMING74, ''h74''),
    (FEC_HAMMING84, ''h84''),
    (FEC_HAMMING128, ''h128''),
    (FEC_GOLAY2412, ''g2412''),
    (FEC_SECDED2216, ''secded2216''),
    (FEC_SECDED3932, ''secded3932''),
    (FEC_SECDED7264, ''secded7264''),
    (FEC_CONV_V27, ''v27''),
    (FEC_CONV_V29, ''v29''),
    (FEC_CONV_V39, ''v39''),
    (FEC_CONV_V615, ''v615''),
    (FEC_CONV_V27P23, ''v27p23''),
    (FEC_CONV_V27P34, ''v27p34''),
    (FEC_CONV_V27P45, ''v27p45''),
    (FEC_CONV_V27P56, ''v27p56''),
    (FEC_CONV_V27P67, ''v27p67''),
    (FEC_CONV_V27P78, ''v27p78''),
    (FEC_CONV_V29P23, ''v29p23''),
    (FEC_CONV_V29P34, ''v29p34''),
    (FEC_CONV_V29P45, ''v29p45''),
    (FEC_CONV_V29P56, ''v29p56''),
    (FEC_CONV_V29P67, ''v29p67''),
    (FEC_CONV_V29P78, ''v29p78''),
    (FEC_RS_M8, ''rs8'')]"

fun str2fec_loop :: "string \<Rightarrow> (fec_scheme \<times> string) list \<Rightarrow> fec_scheme" where
  "str2fec_loop str [] = FEC_UNKNOWN"
| "str2fec_loop str ((s, name) # rest) = (if str = name then s else str2fec_loop str rest)"

definition liquid_getopt_str2fec :: "string \<Rightarrow> fec_scheme" where
  "liquid_getopt_str2fec str = str2fec_loop str fec_scheme_list"

definition fec_scheme_is_convolutional :: "fec_scheme \<Rightarrow> bool" where
  "fec_scheme_is_convolutional scheme = (scheme \<in> {
    FEC_CONV_V27, FEC_CONV_V29, FEC_CONV_V39, FEC_CONV_V615, FEC_CONV_V27P23, FEC_CONV_V27P34,
    FEC_CONV_V27P45, FEC_CONV_V27P56, FEC_CONV_V27P67, FEC_CONV_V27P78, FEC_CONV_V29P23,
    FEC_CONV_V29P34, FEC_CONV_V29P45, FEC_CONV_V29P56, FEC_CONV_V29P67, FEC_CONV_V29P78})"

definition fec_scheme_is_punctured :: "fec_scheme \<Rightarrow> bool" where
  "fec_scheme_is_punctured scheme = (scheme \<in> {
    FEC_CONV_V27P23, FEC_CONV_V27P34, FEC_CONV_V27P45, FEC_CONV_V27P56, FEC_CONV_V27P67,
    FEC_CONV_V27P78, FEC_CONV_V29P23, FEC_CONV_V29P34, FEC_CONV_V29P45, FEC_CONV_V29P56,
    FEC_CONV_V29P67, FEC_CONV_V29P78})"

definition fec_scheme_is_reedsolomon :: "fec_scheme \<Rightarrow> bool" where
  "fec_scheme_is_reedsolomon scheme = (scheme \<in> {FEC_RS_M8})"

definition fec_scheme_is_hamming :: "fec_scheme \<Rightarrow> bool" where
  "fec_scheme_is_hamming scheme = (scheme \<in> {FEC_HAMMING74, FEC_HAMMING84, FEC_HAMMING128})"

definition fec_scheme_is_repeat :: "fec_scheme \<Rightarrow> bool" where
  "fec_scheme_is_repeat scheme = (scheme \<in> {FEC_REP3, FEC_REP5})"

section \<open>Lengths\<close>

definition fec_block_get_enc_msg_len :: "nat \<Rightarrow> nat \<Rightarrow> nat \<Rightarrow> nat option" where
  "fec_block_get_enc_msg_len dec_msg_len m k =
     (if m = 0 then None
      else if k < m then None
      else
        let num_bits_in = wrap32 (dec_msg_len * 8);
            num_blocks = num_bits_in div m + (if num_bits_in mod m \<noteq> 0 then 1 else 0);
            num_bits_out = wrap32 (num_blocks * k);
            num_bytes_out = num_bits_out div 8 + (if num_bits_out mod 8 \<noteq> 0 then 1 else 0)
        in Some num_bytes_out)"

definition fec_conv_get_enc_msg_len :: "nat \<Rightarrow> nat \<Rightarrow> nat \<Rightarrow> nat" where
  "fec_conv_get_enc_msg_len dec_msg_len K p =
     (let num_bits_in = wrap32 (dec_msg_len * 8);
          n = wrap32 (num_bits_in + K - 1);
          num_bits_out = wrap32 (n + wrap32 (n + p - 1) div p);
          num_bytes_out = num_bits_out div 8 + (if num_bits_out mod 8 \<noteq> 0 then 1 else 0)
      in num_bytes_out)"

definition fec_rs_get_enc_msg_len :: "nat \<Rightarrow> nat \<Rightarrow> nat \<Rightarrow> nat \<Rightarrow> nat option" where
  "fec_rs_get_enc_msg_len dec_msg_len nroots nn kk =
     (if dec_msg_len = 0 then None
      else
        let num_blocks = dec_msg_len div kk + (if dec_msg_len mod kk = 0 then 0 else 1);
            dec_block_len = dec_msg_len div num_blocks + (if dec_msg_len mod num_blocks = 0 then 0 else 1);
            enc_block_len = dec_block_len + nroots;
            enc_msg_len = wrap32 (enc_block_len * num_blocks)
        in Some enc_msg_len)"

fun fec_get_enc_msg_length :: "fec_scheme \<Rightarrow> nat \<Rightarrow> nat option" where
  "fec_get_enc_msg_length FEC_UNKNOWN n = Some 0"
| "fec_get_enc_msg_length FEC_NONE n = Some n"
| "fec_get_enc_msg_length FEC_REP3 n = Some (wrap32 (3 * n))"
| "fec_get_enc_msg_length FEC_REP5 n = Some (wrap32 (5 * n))"
| "fec_get_enc_msg_length FEC_HAMMING74 n = fec_block_get_enc_msg_len n 4 7"
| "fec_get_enc_msg_length FEC_HAMMING84 n = fec_block_get_enc_msg_len n 4 8"
| "fec_get_enc_msg_length FEC_HAMMING128 n = fec_block_get_enc_msg_len n 8 12"
| "fec_get_enc_msg_length FEC_GOLAY2412 n = fec_block_get_enc_msg_len n 12 24"
| "fec_get_enc_msg_length FEC_SECDED2216 n = Some (wrap32 (n + n div 2 + (if n mod 2 \<noteq> 0 then 1 else 0)))"
| "fec_get_enc_msg_length FEC_SECDED3932 n = Some (wrap32 (n + n div 4 + (if n mod 4 \<noteq> 0 then 1 else 0)))"
| "fec_get_enc_msg_length FEC_SECDED7264 n = Some (wrap32 (n + n div 8 + (if n mod 8 \<noteq> 0 then 1 else 0)))"
| "fec_get_enc_msg_length FEC_CONV_V27 n = Some (wrap32 (2 * n + 2))"
| "fec_get_enc_msg_length FEC_CONV_V29 n = Some (wrap32 (2 * n + 2))"
| "fec_get_enc_msg_length FEC_CONV_V39 n = Some (wrap32 (3 * n + 3))"
| "fec_get_enc_msg_length FEC_CONV_V615 n = Some (wrap32 (6 * n + 11))"
| "fec_get_enc_msg_length FEC_CONV_V27P23 n = Some (fec_conv_get_enc_msg_len n 7 2)"
| "fec_get_enc_msg_length FEC_CONV_V27P34 n = Some (fec_conv_get_enc_msg_len n 7 3)"
| "fec_get_enc_msg_length FEC_CONV_V27P45 n = Some (fec_conv_get_enc_msg_len n 7 4)"
| "fec_get_enc_msg_length FEC_CONV_V27P56 n = Some (fec_conv_get_enc_msg_len n 7 5)"
| "fec_get_enc_msg_length FEC_CONV_V27P67 n = Some (fec_conv_get_enc_msg_len n 7 6)"
| "fec_get_enc_msg_length FEC_CONV_V27P78 n = Some (fec_conv_get_enc_msg_len n 7 7)"
| "fec_get_enc_msg_length FEC_CONV_V29P23 n = Some (fec_conv_get_enc_msg_len n 9 2)"
| "fec_get_enc_msg_length FEC_CONV_V29P34 n = Some (fec_conv_get_enc_msg_len n 9 3)"
| "fec_get_enc_msg_length FEC_CONV_V29P45 n = Some (fec_conv_get_enc_msg_len n 9 4)"
| "fec_get_enc_msg_length FEC_CONV_V29P56 n = Some (fec_conv_get_enc_msg_len n 9 5)"
| "fec_get_enc_msg_length FEC_CONV_V29P67 n = Some (fec_conv_get_enc_msg_len n 9 6)"
| "fec_get_enc_msg_length FEC_CONV_V29P78 n = Some (fec_conv_get_enc_msg_len n 9 7)"
| "fec_get_enc_msg_length FEC_RS_M8 n = fec_rs_get_enc_msg_len n 32 255 223"

text \<open>The rate as a fraction, numerator and denominator, before the rounding of \<^verbatim>\<open>float\<close>.\<close>

fun fec_get_rate :: "fec_scheme \<Rightarrow> nat \<times> nat" where
  "fec_get_rate FEC_UNKNOWN = (0, 1)"
| "fec_get_rate FEC_NONE = (1, 1)"
| "fec_get_rate FEC_REP3 = (1, 3)"
| "fec_get_rate FEC_REP5 = (1, 5)"
| "fec_get_rate FEC_HAMMING74 = (4, 7)"
| "fec_get_rate FEC_HAMMING84 = (4, 8)"
| "fec_get_rate FEC_HAMMING128 = (8, 12)"
| "fec_get_rate FEC_GOLAY2412 = (1, 2)"
| "fec_get_rate FEC_SECDED2216 = (2, 3)"
| "fec_get_rate FEC_SECDED3932 = (4, 5)"
| "fec_get_rate FEC_SECDED7264 = (8, 9)"
| "fec_get_rate FEC_CONV_V27 = (1, 2)"
| "fec_get_rate FEC_CONV_V29 = (1, 2)"
| "fec_get_rate FEC_CONV_V39 = (1, 3)"
| "fec_get_rate FEC_CONV_V615 = (1, 6)"
| "fec_get_rate FEC_CONV_V27P23 = (2, 3)"
| "fec_get_rate FEC_CONV_V27P34 = (3, 4)"
| "fec_get_rate FEC_CONV_V27P45 = (4, 5)"
| "fec_get_rate FEC_CONV_V27P56 = (5, 6)"
| "fec_get_rate FEC_CONV_V27P67 = (6, 7)"
| "fec_get_rate FEC_CONV_V27P78 = (7, 8)"
| "fec_get_rate FEC_CONV_V29P23 = (2, 3)"
| "fec_get_rate FEC_CONV_V29P34 = (3, 4)"
| "fec_get_rate FEC_CONV_V29P45 = (4, 5)"
| "fec_get_rate FEC_CONV_V29P56 = (5, 6)"
| "fec_get_rate FEC_CONV_V29P67 = (6, 7)"
| "fec_get_rate FEC_CONV_V29P78 = (7, 8)"
| "fec_get_rate FEC_RS_M8 = (223, 255)"

section \<open>Names\<close>

lemma fec_scheme_names: "list_all (\<lambda>(s, name). liquid_getopt_str2fec name = s) fec_scheme_list"
  by code_simp

section \<open>Lengths in closed form\<close>

text \<open>The lengths the library is used with stay far below the point where 32 bits overflow.\<close>

abbreviation msg_bound :: nat where "msg_bound \<equiv> 2 ^ 26"

lemma ceil_div_mult_less: "0 < m \<Longrightarrow> ceil_div n m * m < n + m"
proof -
  assume m: "0 < m"
  have a: "m * (n div m) + n mod m = n" by simp
  show ?thesis
  proof (cases "n mod m = 0")
    case True
    then have "ceil_div n m * m = m * (n div m)" by (simp add: ceil_div_def)
    with a m show ?thesis by linarith
  next
    case False
    then have "ceil_div n m * m = m * (n div m) + m" by (simp add: ceil_div_def)
    with a False show ?thesis by linarith
  qed
qed

lemma ceil_div_alt:
  "n div b + (if n mod b \<noteq> 0 then 1 else 0) = ceil_div n b"
  "n div b + (if n mod b = 0 then 0 else 1) = ceil_div n b"
  by (simp_all add: ceil_div_def)

lemma fec_block_len:
  assumes "n < msg_bound" and "0 < m" and "m \<le> 64" and "m \<le> k" and "k \<le> 2 * m"
  shows "fec_block_get_enc_msg_len n m k = Some (ceil_div (ceil_div (8 * n) m * k) 8)"
proof -
  have small: "8 * n < 2 ^ 29" using assms(1) by simp
  have "ceil_div (8 * n) m * k \<le> 2 * (ceil_div (8 * n) m * m)"
    using mult_le_mono2 [OF assms(5), of "ceil_div (8 * n) m"] by (simp add: ac_simps)
  also have "\<dots> \<le> 2 * (8 * n + m)" using ceil_div_mult_less [OF assms(2), of "8 * n"] by simp
  also have "\<dots> < 2 ^ 32" using small assms(3) by simp
  finally have "ceil_div (8 * n) m * k < 2 ^ 32" .
  moreover have "wrap32 (n * 8) = 8 * n" using small by (simp add: mult.commute)
  ultimately show ?thesis
    using assms(2,4)
    unfolding fec_block_get_enc_msg_len_def Let_def ceil_div_alt by simp
qed

lemma fec_conv_len:
  assumes "n < msg_bound" and "K \<le> 16" and "0 < K" and "0 < p" and "p \<le> 16"
  shows "fec_conv_get_enc_msg_len n K p =
    ceil_div ((8 * n + K - 1) + ((8 * n + K - 1) + p - 1) div p) 8"
proof -
  define m where "m = 8 * n + K - 1"
  have m: "m < 2 ^ 30" using assms(1,2) by (simp add: m_def)
  have "(m + p - 1) div p \<le> m + p - 1" by (rule div_le_dividend)
  moreover have p: "m + p - 1 < 2 ^ 31" using m assms(5) by simp
  ultimately have "m + (m + p - 1) div p < 2 ^ 30 + 2 ^ 31" using m by (intro add_strict_mono) linarith+
  then have "m + (m + p - 1) div p < 2 ^ 32" "m + p - 1 < 2 ^ 32" using p by simp_all
  moreover have "n * 8 < 2 ^ 32" "m < 2 ^ 32" using assms(1) m by simp_all
  ultimately have "wrap32 (n * 8) = 8 * n" "wrap32 m = m" "wrap32 (m + p - 1) = m + p - 1"
    "wrap32 (m + (m + p - 1) div p) = m + (m + p - 1) div p"
    by (simp_all only: wrap32_id mult.commute)
  then have "wrap32 (n * 8) = 8 * n" "wrap32 (8 * n + K - 1) = 8 * n + K - 1"
    "wrap32 (8 * n + K - 1 + p - 1) = 8 * n + K - 1 + p - 1"
    "wrap32 ((8 * n + K - 1) + (8 * n + K - 1 + p - 1) div p) = (8 * n + K - 1) + (8 * n + K - 1 + p - 1) div p"
    by (simp_all only: m_def)
  then show ?thesis unfolding fec_conv_get_enc_msg_len_def Let_def ceil_div_alt by simp
qed

lemma fec_rs_len:
  assumes "n < msg_bound" and "0 < n" and "0 < kk" and "nroots \<le> 32"
  shows "fec_rs_get_enc_msg_len n nroots nn kk =
    Some ((ceil_div n (ceil_div n kk) + nroots) * ceil_div n kk)"
proof -
  let ?B = "ceil_div n kk"
  have B: "0 < ?B" using assms(2,3) ceil_div_le_iff [of kk n 0] by auto
  have Bn: "?B \<le> n" using assms(3) by (simp add: ceil_div_le_iff)
  have "(ceil_div n ?B + nroots) * ?B = ceil_div n ?B * ?B + nroots * ?B" by (rule add_mult_distrib)
  also have "\<dots> < (n + ?B) + 32 * ?B"
    using ceil_div_mult_less [OF B, of n] mult_le_mono1 [OF assms(4), of ?B] by linarith
  also have "\<dots> \<le> 2 ^ 32" using Bn assms(1) by simp
  finally show ?thesis
    using assms(2) unfolding fec_rs_get_enc_msg_len_def Let_def ceil_div_alt by simp
qed

section \<open>Lengths and rates\<close>

lemma ceil_div_times_ge: "0 < b \<Longrightarrow> n \<le> ceil_div n b * b"
  using le_mult_ceil_div [of b n] by (simp add: mult.commute)

lemma block_rate:
  assumes "0 < m" shows "n * k \<le> ceil_div (ceil_div (8 * n) m * k) 8 * m"
proof -
  have "8 * n * k \<le> ceil_div (8 * n) m * m * k"
    using ceil_div_times_ge [OF assms, of "8 * n"] by (intro mult_le_mono1)
  also have "\<dots> = ceil_div (8 * n) m * k * m" by (simp add: ac_simps)
  also have "\<dots> \<le> ceil_div (ceil_div (8 * n) m * k) 8 * 8 * m"
    using ceil_div_times_ge [of 8] by (intro mult_le_mono1) simp
  finally show ?thesis by (simp add: ac_simps)
qed

lemma conv_rate:
  assumes "0 < p" and "0 < K"
  shows "n * (p + 1) \<le> ceil_div ((8 * n + K - 1) + ((8 * n + K - 1) + p - 1) div p) 8 * p"
proof -
  define m where "m = 8 * n + K - 1"
  have "m \<le> (m + p - 1) div p * p"
    using assms(1) div_mult_mod_eq [of "m + p - 1" p] mod_less_divisor [of p "m + p - 1"] by linarith
  then have "m * (p + 1) \<le> (m + (m + p - 1) div p) * p" by (simp add: algebra_simps)
  also have "\<dots> \<le> ceil_div (m + (m + p - 1) div p) 8 * 8 * p"
    by (intro mult_le_mono1 ceil_div_times_ge) simp
  finally have "m * (p + 1) \<le> 8 * (ceil_div (m + (m + p - 1) div p) 8 * p)" by (simp add: ac_simps)
  moreover have "8 * n * (p + 1) \<le> m * (p + 1)" using assms(2) by (intro mult_le_mono1) (simp add: m_def)
  ultimately have "8 * (n * (p + 1)) \<le> 8 * (ceil_div (m + (m + p - 1) div p) 8 * p)" by simp
  then show ?thesis by (simp only: m_def mult_le_cancel1)
qed

lemma rs_rate:
  assumes "0 < n" shows "n * 255 \<le> (ceil_div n (ceil_div n 223) + 32) * ceil_div n 223 * 223"
proof -
  let ?B = "ceil_div n 223"
  have "0 < ?B" using assms ceil_div_le_iff [of 223 n 0] by auto
  then have "n \<le> ceil_div n ?B * ?B" by (rule ceil_div_times_ge)
  moreover have "n \<le> ?B * 223" by (rule ceil_div_times_ge) simp
  ultimately show ?thesis by (simp add: algebra_simps)
qed

lemma secded_rate: "n * (b + 1) \<le> (n + n div b + (if n mod b \<noteq> 0 then 1 else 0)) * b" if "0 < b" for b :: nat
proof -
  have "n \<le> ceil_div n b * b" using that by (rule ceil_div_times_ge)
  then show ?thesis
    unfolding add.assoc ceil_div_alt by (simp add: algebra_simps)
qed

lemma fec_get_enc_msg_length_Some:
  assumes "n < msg_bound" and "scheme = FEC_RS_M8 \<Longrightarrow> 0 < n"
  shows "\<exists>len. fec_get_enc_msg_length scheme n = Some len"
  using assms by (cases scheme) (auto simp: fec_block_len fec_rs_len)

lemma fec_block_rate:
  assumes "n < msg_bound" and "0 < m" and "m \<le> 64" and "m \<le> k" and "k \<le> 2 * m"
  shows "\<exists>len. fec_block_get_enc_msg_len n m k = Some len \<and> n * k \<le> len * m"
  using fec_block_len [OF assms] block_rate [OF assms(2), of n k] by blast

lemma fec_conv_rate:
  assumes "n < msg_bound" and "K \<le> 16" and "0 < K" and "0 < p" and "p \<le> 16" and "q = p + 1"
  shows "n * q \<le> fec_conv_get_enc_msg_len n K p * p"
  unfolding fec_conv_len [OF assms(1-5)] assms(6) by (rule conv_rate [OF assms(4,3)])

lemma fec_rs_rate:
  "n < msg_bound \<Longrightarrow> 0 < n \<Longrightarrow>
   \<exists>len. fec_rs_get_enc_msg_len n 32 255 223 = Some len \<and> n * 255 \<le> len * 223"
  using rs_rate [of n] by (simp add: fec_rs_len)

lemma secded_len_rate:
  assumes "n < msg_bound" and "0 < b" and "q = b + 1"
  shows "n * q \<le> wrap32 (n + n div b + (if n mod b \<noteq> 0 then 1 else 0)) * b"
proof -
  have "n div b \<le> n" by (rule div_le_dividend)
  then have "n + n div b + (if n mod b \<noteq> 0 then 1 else 0) < 2 ^ 26 + 2 ^ 26 + 2"
    using assms(1) by (intro add_strict_mono) (linarith, linarith, simp)
  also have "\<dots> < 2 ^ 32" by simp
  finally have "n + n div b + (if n mod b \<noteq> 0 then 1 else 0) < 2 ^ 32" .
  then show ?thesis using secded_rate [OF assms(2), of n] by (simp add: assms(3))
qed

section \<open>Properties\<close>

text \<open>C28: For every scheme and every message of fewer than \<open>2 ^ 26\<close> bytes the length of the encoded
  message is defined (Reed-Solomon excepts the empty message, where the code aborts), nothing in its
  computation overflows 32 bits, and the encoded message is never shorter than the nominal code rate
  \<open>a / b\<close> of \<open>fec_get_rate\<close> allows: \<open>len * a\<close> is at least \<open>n * b\<close>.\<close>
theorem fec_length_respects_rate:
  assumes "n < msg_bound" and "scheme \<noteq> FEC_UNKNOWN" and "scheme = FEC_RS_M8 \<longrightarrow> 0 < n"
  shows "\<exists>len. fec_get_enc_msg_length scheme n = Some len \<and>
    n * snd (fec_get_rate scheme) \<le> len * fst (fec_get_rate scheme)"
proof (cases scheme)
  case FEC_HAMMING84
  with assms fec_block_rate [of n 4 8] show ?thesis by simp
next
  case FEC_HAMMING128
  with assms fec_block_rate [of n 8 12] show ?thesis by simp
next
  case FEC_GOLAY2412
  with assms fec_block_rate [of n 12 24] show ?thesis by (simp add: mult.commute)
next
  case FEC_SECDED2216
  with assms secded_len_rate [of n 2 3] show ?thesis by simp
next
  case FEC_SECDED3932
  with assms secded_len_rate [of n 4 5] show ?thesis by simp
next
  case FEC_SECDED7264
  with assms secded_len_rate [of n 8 9] show ?thesis by simp
qed (use assms in \<open>simp_all add: fec_block_rate fec_conv_rate fec_rs_rate\<close>)

theorem fec_length_respects_rate_witness:
  "\<exists>len. fec_get_enc_msg_length FEC_CONV_V27P34 100 = Some len \<and>
    100 * snd (fec_get_rate FEC_CONV_V27P34) \<le> len * fst (fec_get_rate FEC_CONV_V27P34)"
  by (rule fec_length_respects_rate) simp_all

end
