(* ===== verification/Fec_Rep.thy ===== *)
theory Fec_Rep
  imports Pack_Bytes
begin

unbundle bit_operations_syntax

text \<open>
  \<^verbatim>\<open>liquid_dsp/src/fec/src/fec_pass.c\<close>, \<^verbatim>\<open>fec_rep3.c\<close> and \<^verbatim>\<open>fec_rep5.c\<close>: the codec that copies,
  and the repeat codes. An encoder gives the bytes it writes, a decoder the \<open>n\<close> decoded bytes.
  The hard decoders take a bitwise majority, the soft decoders the mean of the soft bits of one
  position. The lemmas give what either corrects and that the soft decoder agrees with the hard one
  on hard decisions.
\<close>

section \<open>Operations\<close>

definition fec_pass_encode :: "nat \<Rightarrow> bytes \<Rightarrow> bytes" where
  "fec_pass_encode n msg_dec = take n msg_dec"

definition fec_pass_decode :: "nat \<Rightarrow> bytes \<Rightarrow> bytes" where
  "fec_pass_decode n msg_enc = take n msg_enc"

definition fec_rep3_encode :: "nat \<Rightarrow> bytes \<Rightarrow> bytes" where
  "fec_rep3_encode n msg_dec = concat (map (\<lambda>i. take n msg_dec) [0..<3])"

definition fec_rep3_decode :: "nat \<Rightarrow> bytes \<Rightarrow> bytes" where
  "fec_rep3_decode n msg_enc =
     map (\<lambda>i. let s0 = msg_enc ! i;
                   s1 = msg_enc ! (i + n);
                   s2 = msg_enc ! (i + 2 * n)
               in (s0 AND s1) OR (s0 AND s2) OR (s1 AND s2)) [0..<n]"

definition LIQUID_SOFTBIT_ERASURE :: nat where
  "LIQUID_SOFTBIT_ERASURE = 127"

text \<open>The decisions of the inner loop, put into the byte from the most significant bit on.\<close>

fun soft_byte :: "nat list \<Rightarrow> (nat \<Rightarrow> nat) \<Rightarrow> u8 \<Rightarrow> u8" where
  "soft_byte [] s_hat byte = byte"
| "soft_byte (j # js) s_hat byte =
     soft_byte js s_hat
       (byte OR (if s_hat j > LIQUID_SOFTBIT_ERASURE then push_bit (8 - j - 1) 1 else 0))"

definition fec_rep3_decode_soft :: "nat \<Rightarrow> bytes \<Rightarrow> bytes" where
  "fec_rep3_decode_soft n msg_enc =
     map (\<lambda>i. soft_byte [0..<8]
       (\<lambda>j. let s0 = msg_enc ! (8 * i + j);
                 s1 = msg_enc ! (8 * (i + n) + j);
                 s2 = msg_enc ! (8 * (i + 2 * n) + j)
             in (unat s0 + unat s1 + unat s2) div 3) 0) [0..<n]"

definition fec_rep5_encode :: "nat \<Rightarrow> bytes \<Rightarrow> bytes" where
  "fec_rep5_encode n msg_dec = concat (map (\<lambda>i. take n msg_dec) [0..<5])"

definition fec_rep5_decode :: "nat \<Rightarrow> bytes \<Rightarrow> bytes" where
  "fec_rep5_decode n msg_enc =
     map (\<lambda>i. let s0 = msg_enc ! i;
                   s1 = msg_enc ! (i + n);
                   s2 = msg_enc ! (i + 2 * n);
                   s3 = msg_enc ! (i + 3 * n);
                   s4 = msg_enc ! (i + 4 * n)
               in (s0 AND s1 AND s2) OR (s0 AND s1 AND s3) OR (s0 AND s1 AND s4) OR
                  (s0 AND s2 AND s3) OR (s0 AND s2 AND s4) OR (s0 AND s3 AND s4) OR
                  (s1 AND s2 AND s3) OR (s1 AND s2 AND s4) OR (s1 AND s3 AND s4) OR
                  (s2 AND s3 AND s4)) [0..<n]"

definition fec_rep5_decode_soft :: "nat \<Rightarrow> bytes \<Rightarrow> bytes" where
  "fec_rep5_decode_soft n msg_enc =
     map (\<lambda>i. soft_byte [0..<8]
       (\<lambda>j. let s0 = msg_enc ! (8 * i + j);
                 s1 = msg_enc ! (8 * (i + n) + j);
                 s2 = msg_enc ! (8 * (i + 2 * n) + j);
                 s3 = msg_enc ! (8 * (i + 3 * n) + j);
                 s4 = msg_enc ! (8 * (i + 4 * n) + j)
             in (unat s0 + unat s1 + unat s2 + unat s3 + unat s4) div 5) 0) [0..<n]"

section \<open>Repetition\<close>

lemma copy_index: "i < n \<Longrightarrow> c < k \<Longrightarrow> i + c * n < k * n" for i c k n :: nat
proof -
  assume "i < n" and "c < k"
  then have "Suc c * n \<le> k * n" by (intro mult_le_mono1) simp
  with \<open>i < n\<close> show "i + c * n < k * n" by simp
qed

lemma length_rep_encode [simp, len_rules]:
  "length msg = n \<Longrightarrow> length (fec_rep3_encode n msg) = 3 * n"
  "length msg = n \<Longrightarrow> length (fec_rep5_encode n msg) = 5 * n"
  by (simp_all add: fec_rep3_encode_def fec_rep5_encode_def length_concat_uniform [where k = n])

lemma rep_encode_nth:
  assumes "length msg = n" and "i < n"
  shows "c < 3 \<Longrightarrow> fec_rep3_encode n msg ! (i + c * n) = msg ! i"
    and "c < 5 \<Longrightarrow> fec_rep5_encode n msg ! (i + c * n) = msg ! i"
  using assms nth_concat_uniform [of 3 "\<lambda>i. take n msg" n c i]
    nth_concat_uniform [of 5 "\<lambda>i. take n msg" n c i]
  by (simp_all add: fec_rep3_encode_def fec_rep5_encode_def ac_simps)

text \<open>The number of copies that carry a wrong bit \<open>j\<close> of byte \<open>i\<close>.\<close>

definition wrong_copies :: "nat \<Rightarrow> nat \<Rightarrow> bytes \<Rightarrow> bytes \<Rightarrow> nat \<Rightarrow> nat \<Rightarrow> nat" where
  "wrong_copies k n msg rx i j = length (filter (\<lambda>c. bit (rx ! (i + c * n)) j \<noteq> bit (msg ! i) j) [0..<k])"

lemma upt_3_5: "[0..<3] = [0, 1, 2 :: nat]" "[0..<5] = [0, 1, 2, 3, 4 :: nat]"
  by code_simp+

lemma rep3_majority:
  assumes "length msg = n" and "\<And>i j. i < n \<Longrightarrow> j < 8 \<Longrightarrow> wrong_copies 3 n msg rx i j \<le> 1"
  shows "fec_rep3_decode n rx = msg"
proof (rule nth_equalityI)
  fix i assume "i < length (fec_rep3_decode n rx)"
  then have i: "i < n" by (simp add: fec_rep3_decode_def)
  show "fec_rep3_decode n rx ! i = msg ! i"
  proof (rule bit_word_eqI)
    fix j assume "j < LENGTH(8)"
    then have "wrong_copies 3 n msg rx i j \<le> 1" using assms(2) i by simp
    then show "bit (fec_rep3_decode n rx ! i) j = bit (msg ! i) j"
      using i by (auto simp: fec_rep3_decode_def Let_def wrong_copies_def upt_3_5 bit_or_iff
          bit_and_iff split: if_splits)
  qed
qed (simp add: assms fec_rep3_decode_def)

lemma rep5_majority:
  assumes "length msg = n" and "\<And>i j. i < n \<Longrightarrow> j < 8 \<Longrightarrow> wrong_copies 5 n msg rx i j \<le> 2"
  shows "fec_rep5_decode n rx = msg"
proof (rule nth_equalityI)
  fix i assume "i < length (fec_rep5_decode n rx)"
  then have i: "i < n" by (simp add: fec_rep5_decode_def)
  show "fec_rep5_decode n rx ! i = msg ! i"
  proof (rule bit_word_eqI)
    fix j assume "j < LENGTH(8)"
    then have "wrong_copies 5 n msg rx i j \<le> 2" using assms(2) i by simp
    then show "bit (fec_rep5_decode n rx ! i) j = bit (msg ! i) j"
      using i by (simp add: fec_rep5_decode_def Let_def wrong_copies_def upt_3_5 bit_or_iff
          bit_and_iff split: if_splits)
  qed
qed (simp add: assms fec_rep5_decode_def)

lemma wrong_copies_encode:
  assumes "length msg = n" and "i < n"
  shows "wrong_copies 3 n msg (fec_rep3_encode n msg @ ys) i j = 0"
    and "wrong_copies 5 n msg (fec_rep5_encode n msg @ ys) i j = 0"
proof -
  note copy_index [OF assms(2)]
  then show "wrong_copies 3 n msg (fec_rep3_encode n msg @ ys) i j = 0"
    and "wrong_copies 5 n msg (fec_rep5_encode n msg @ ys) i j = 0"
    using assms rep_encode_nth [OF assms] by (auto simp: wrong_copies_def nth_append filter_empty_conv)
qed

section \<open>Soft decisions\<close>

lemma bit_soft_byte:
  assumes "set js \<subseteq> {0..<8}"
  shows "bit (soft_byte js s_hat byte) i \<longleftrightarrow>
    bit byte i \<or> (i < 8 \<and> 7 - i \<in> set js \<and> s_hat (7 - i) > LIQUID_SOFTBIT_ERASURE)"
  using assms
proof (induction js arbitrary: byte)
  case (Cons j js)
  then have "j < 8" by simp
  then have "bit (push_bit (8 - j - 1) (1 :: u8)) i \<longleftrightarrow> i < 8 \<and> 7 - i = j"
    by (simp only: bit_push_bit_iff bit_1_iff) auto
  with Cons show ?case by (auto simp: bit_or_iff)
qed simp

lemma bit_soft_byte_8:
  "bit (soft_byte [0..<8] s_hat 0) i \<longleftrightarrow> i < 8 \<and> s_hat (7 - i) > LIQUID_SOFTBIT_ERASURE"
  by (subst bit_soft_byte) auto

text \<open>The soft bits of hard decisions: \<open>255\<close> for a one, \<open>0\<close> for a zero.\<close>

definition soft_of :: "bytes \<Rightarrow> bytes" where
  "soft_of xs = map (\<lambda>t. if sym_bit 8 xs t then 255 else 0) [0..<8 * length xs]"

lemma length_soft_of [simp]: "length (soft_of xs) = 8 * length xs"
  by (simp add: soft_of_def)

lemma soft_of_nth: "t < 8 * length xs \<Longrightarrow> soft_of xs ! t = (if sym_bit 8 xs t then 255 else 0)"
  by (simp add: soft_of_def)

lemma soft_of_byte:
  "q < length xs \<Longrightarrow> c < 8 \<Longrightarrow> soft_of xs ! (8 * q + c) = (if bit (xs ! q) (7 - c) then 255 else 0)"
  by (simp add: soft_of_nth sym_bit_def)

lemma rep3_soft_hard:
  assumes "length rx = 3 * n"
  shows "fec_rep3_decode_soft n (soft_of rx) = fec_rep3_decode n rx"
proof (rule nth_equalityI)
  fix i assume "i < length (fec_rep3_decode_soft n (soft_of rx))"
  then have i: "i < n" by (simp add: fec_rep3_decode_soft_def)
  show "fec_rep3_decode_soft n (soft_of rx) ! i = fec_rep3_decode n rx ! i"
  proof (rule bit_word_eqI)
    fix j assume "j < LENGTH(8)"
    then have j: "j < 8" by simp
    have *: "soft_of rx ! (8 * (i + c * n) + (7 - j)) = (if bit (rx ! (i + c * n)) j then 255 else 0)"
      if "c < 3" for c
    proof -
      have "i + c * n < length rx" using assms copy_index [OF i that] by simp
      then show ?thesis using soft_of_byte [of "i + c * n" rx "7 - j"] j by simp
    qed
    show "bit (fec_rep3_decode_soft n (soft_of rx) ! i) j = bit (fec_rep3_decode n rx ! i) j"
      using i j * [of 0] * [of 1] * [of 2]
      by (simp add: fec_rep3_decode_soft_def fec_rep3_decode_def bit_soft_byte_8 Let_def
          LIQUID_SOFTBIT_ERASURE_def bit_or_iff bit_and_iff)
  qed
qed (simp_all add: fec_rep3_decode_soft_def fec_rep3_decode_def)

lemma rep5_soft_hard:
  assumes "length rx = 5 * n"
  shows "fec_rep5_decode_soft n (soft_of rx) = fec_rep5_decode n rx"
proof (rule nth_equalityI)
  fix i assume "i < length (fec_rep5_decode_soft n (soft_of rx))"
  then have i: "i < n" by (simp add: fec_rep5_decode_soft_def)
  show "fec_rep5_decode_soft n (soft_of rx) ! i = fec_rep5_decode n rx ! i"
  proof (rule bit_word_eqI)
    fix j assume "j < LENGTH(8)"
    then have j: "j < 8" by simp
    have *: "soft_of rx ! (8 * (i + c * n) + (7 - j)) = (if bit (rx ! (i + c * n)) j then 255 else 0)"
      if "c < 5" for c
    proof -
      have "i + c * n < length rx" using assms copy_index [OF i that] by simp
      then show ?thesis using soft_of_byte [of "i + c * n" rx "7 - j"] j by simp
    qed
    show "bit (fec_rep5_decode_soft n (soft_of rx) ! i) j = bit (fec_rep5_decode n rx ! i) j"
      using i j * [of 0] * [of 1] * [of 2] * [of 3] * [of 4]
      by (simp add: fec_rep5_decode_soft_def fec_rep5_decode_def bit_soft_byte_8 Let_def
          LIQUID_SOFTBIT_ERASURE_def bit_or_iff bit_and_iff)
  qed
qed (simp_all add: fec_rep5_decode_soft_def fec_rep5_decode_def)

section \<open>Properties\<close>

text \<open>The repeat codes correct by majority. If at every bit position at most one of the three copies (two of
  the five) of the received array is wrong, the hard decoder returns the message, and the soft decoder returns
  the same from the soft bits of the received array.\<close>
theorem repeat_codes_correct:
  assumes "length msg = n"
    and "length rx3 = 3 * n" and "\<And>i j. i < n \<Longrightarrow> j < 8 \<Longrightarrow> wrong_copies 3 n msg rx3 i j \<le> 1"
    and "length rx5 = 5 * n" and "\<And>i j. i < n \<Longrightarrow> j < 8 \<Longrightarrow> wrong_copies 5 n msg rx5 i j \<le> 2"
  shows "fec_rep3_decode n rx3 = msg \<and> fec_rep3_decode_soft n (soft_of rx3) = msg \<and>
    fec_rep5_decode n rx5 = msg \<and> fec_rep5_decode_soft n (soft_of rx5) = msg"
  using rep3_majority [OF assms(1,3)] rep5_majority [OF assms(1,5)]
    rep3_soft_hard [OF assms(2)] rep5_soft_hard [OF assms(4)] by simp

theorem repeat_codes_correct_witness:
  "fec_rep3_decode 1 [0xa5, 0xff, 0xa5] = [0xa5] \<and> fec_rep3_decode_soft 1 (soft_of [0xa5, 0xff, 0xa5]) = [0xa5] \<and>
    fec_rep5_decode 1 [0xa5, 0xff, 0xa5, 0x00, 0xa5] = [0xa5] \<and>
    fec_rep5_decode_soft 1 (soft_of [0xa5, 0xff, 0xa5, 0x00, 0xa5]) = [0xa5]"
  by (rule repeat_codes_correct) (auto simp: wrong_copies_def upt_3_5)

end
