(* ===== verification/Block_Codes.thy ===== *)
theory Block_Codes
  imports Pack_Bytes Byte_Utilities
begin

unbundle bit_operations_syntax

text \<open>
  What the block codecs of \<^verbatim>\<open>liquid_dsp/src/fec/src\<close> share. Their soft decoders search for the
  symbol whose code word has the least distance to the soft bits; the loop and the distance term
  are modelled once. The locale \<open>block_code\<close> states the minimum distance of a code and gives
  what follows from it for hard and soft decoding; each codec interprets it on its own table.
  Blocks of a received message are compared on the bit stream of \<open>Pack_Bytes\<close>.
\<close>

section \<open>Soft search\<close>

text \<open>One line of the distance metric: the cost of a soft bit against one bit of a code word.\<close>

definition soft_term :: "'a::len word \<Rightarrow> 'a word \<Rightarrow> u8 \<Rightarrow> nat" where
  "soft_term c m soft_bit = (if c AND m \<noteq> 0 then 255 - unat soft_bit else unat soft_bit)"

text \<open>The search loop over all symbols; the symbol \<open>0\<close> is always taken first.\<close>

fun soft_search :: "(nat \<Rightarrow> nat) \<Rightarrow> nat list \<Rightarrow> nat \<Rightarrow> nat \<Rightarrow> nat" where
  "soft_search metric [] dmin s_hat = s_hat"
| "soft_search metric (s # ss) dmin s_hat =
     (let d = metric s
      in if d < dmin \<or> s = 0 then soft_search metric ss d s else soft_search metric ss dmin s_hat)"

lemma soft_search_min:
  assumes "0 \<notin> set ss" and "metric s_hat = dmin"
  shows "soft_search metric ss dmin s_hat \<in> insert s_hat (set ss)"
    and "s \<in> insert s_hat (set ss) \<Longrightarrow> metric (soft_search metric ss dmin s_hat) \<le> metric s"
proof -
  have "soft_search metric ss dmin s_hat \<in> insert s_hat (set ss) \<and>
    (\<forall>s \<in> insert s_hat (set ss). metric (soft_search metric ss dmin s_hat) \<le> metric s)"
    using assms
  proof (induction ss arbitrary: dmin s_hat)
    case (Cons a ss)
    show ?case
    proof (cases "metric a < dmin")
      case True
      with Cons.IH [of a "metric a"] Cons.prems show ?thesis by (auto simp: Let_def)
    next
      case False
      with Cons.IH [of s_hat dmin] Cons.prems show ?thesis by (fastforce simp: Let_def)
    qed
  qed simp
  then show "soft_search metric ss dmin s_hat \<in> insert s_hat (set ss)"
    and "s \<in> insert s_hat (set ss) \<Longrightarrow> metric (soft_search metric ss dmin s_hat) \<le> metric s"
    by auto
qed

text \<open>Over all symbols below \<open>k\<close> the search returns one of least distance.\<close>

lemma soft_search_upt:
  assumes "0 < k"
  shows "soft_search metric [0..<k] dmin s_hat < k"
    and "s < k \<Longrightarrow> metric (soft_search metric [0..<k] dmin s_hat) \<le> metric s"
proof -
  have "[0..<k] = 0 # [1..<k]" using assms by (simp add: upt_conv_Cons)
  then have *: "soft_search metric [0..<k] dmin s_hat = soft_search metric [1..<k] (metric 0) 0"
    by (simp add: Let_def)
  have zero: "0 \<notin> set [1..<k]" by simp
  have set: "insert 0 (set [1..<k]) = {0..<k}" using assms by auto
  show "soft_search metric [0..<k] dmin s_hat < k"
    using soft_search_min(1) [OF zero, of metric 0 "metric 0"] unfolding * set by simp
  show "s < k \<Longrightarrow> metric (soft_search metric [0..<k] dmin s_hat) \<le> metric s"
    using soft_search_min(2) [OF zero, of metric 0 "metric 0" s] unfolding * set by simp
qed

section \<open>Minimum distance\<close>

lemma ones_xor_triangle: "ones (x XOR z) \<le> ones (x XOR y) + ones (y XOR z)"
proof -
  have "x XOR z = (x XOR y) XOR (y XOR z)" by (rule bit_word_eqI) (auto simp: bit_xor_iff)
  then show ?thesis using ones_xor_le by metis
qed

locale block_code =
  fixes code :: "nat \<Rightarrow> 'a::len word" and size :: nat and dmin :: nat
  assumes distance: "a < size \<Longrightarrow> b < size \<Longrightarrow> a \<noteq> b \<Longrightarrow> dmin \<le> ones (code a XOR code b)"
begin

text \<open>Within half the minimum distance of a code word no other is as near.\<close>

lemma nearest:
  assumes "a < size" and "b < size" and "a \<noteq> b" and "2 * ones (code a XOR r) < dmin"
  shows "ones (code a XOR r) < ones (code b XOR r)"
proof -
  have "dmin \<le> ones (code a XOR r) + ones (r XOR code b)"
    using distance [OF assms(1-3)] ones_xor_triangle [of "code a" "code b" r] by linarith
  with assms(4) show ?thesis by (simp add: xor.commute)
qed

lemma nearest_unique:
  assumes "a < size" and "b < size" and "2 * ones (code a XOR r) < dmin"
    and "ones (code b XOR r) \<le> ones (code a XOR r)"
  shows "b = a"
  using nearest [OF assms(1,2) _ assms(3)] assms(4) by fastforce

text \<open>A decoder that stays within half the minimum distance of its input decodes to a nearest symbol.\<close>

lemma half_distance_ml:
  assumes "a < size" and "b < size" and "2 * ones (code a XOR r) \<le> dmin"
  shows "ones (code a XOR r) \<le> ones (code b XOR r)"
proof (cases "a = b")
  case False
  have "dmin \<le> ones (code a XOR r) + ones (r XOR code b)"
    using distance [OF assms(1,2) False] ones_xor_triangle [of "code a" "code b" r] by linarith
  with assms(3) show ?thesis by (simp add: xor.commute)
qed simp

text \<open>The soft search on metrics proportional to the Hamming distance finds the same symbol.\<close>

lemma soft_search_code:
  assumes "a < size" and "2 * ones (code a XOR r) < dmin"
    and metric: "\<And>s. s < size \<Longrightarrow> metric s = 255 * ones (code s XOR r)"
  shows "soft_search metric [0..<size] d0 s0 = a"
proof -
  have size: "0 < size" using assms(1) by simp
  let ?b = "soft_search metric [0..<size] d0 s0"
  have b: "?b < size" by (rule soft_search_upt(1) [OF size])
  have "metric ?b \<le> metric a" by (rule soft_search_upt(2) [OF size assms(1)])
  then have "ones (code ?b XOR r) \<le> ones (code a XOR r)" by (simp add: metric b assms(1))
  from nearest_unique [OF assms(1) b assms(2) this] show ?thesis .
qed

end

section \<open>Blocks of the bit stream\<close>

text \<open>The \<open>w\<close> bits of the stream from bit \<open>k\<close> as a word, first bit most significant.\<close>

definition stream_word :: "nat \<Rightarrow> bytes \<Rightarrow> nat \<Rightarrow> 'a::len word" where
  "stream_word w xs k = horner_sum of_bool 2 (map (\<lambda>i. sym_bit 8 xs (k + (w - 1 - i))) [0..<w])"

lemma bit_stream_word:
  "bit (stream_word w xs k :: 'a::len word) i \<longleftrightarrow> i < LENGTH('a) \<and> i < w \<and> sym_bit 8 xs (k + (w - 1 - i))"
  by (auto simp: stream_word_def bit_horner_sum_bit_word_iff)

definition stream_errors :: "nat \<Rightarrow> bytes \<Rightarrow> bytes \<Rightarrow> nat \<Rightarrow> nat" where
  "stream_errors w xs ys k =
     length (filter (\<lambda>c. sym_bit 8 xs (k + c) \<noteq> sym_bit 8 ys (k + c)) [0..<w])"

lemma rev_upt_conv: "rev [0..<w] = map (\<lambda>i. w - 1 - i) [0..<w]"
  by (intro nth_equalityI) (simp_all add: rev_nth)

lemma stream_errors_ones:
  assumes "w \<le> LENGTH('a::len)"
  shows "ones (stream_word w xs k XOR stream_word w ys k :: 'a word) = stream_errors w xs ys k"
proof -
  let ?P = "\<lambda>c. sym_bit 8 xs (k + c) \<noteq> sym_bit 8 ys (k + c)"
  have split: "[0..<LENGTH('a)] = [0..<w] @ [w..<LENGTH('a)]"
    using assms by (metis le_add_diff_inverse upt_add_eq_append zero_le)
  have "ones (stream_word w xs k XOR stream_word w ys k :: 'a word) =
      length (filter (\<lambda>i. i < w \<and> ?P (w - 1 - i)) [0..<LENGTH('a)])"
    unfolding ones_def bit_xor_fun by (intro arg_cong [where f = length] filter_cong)
      (auto simp: bit_stream_word)
  also have "\<dots> = length (filter (\<lambda>i. ?P (w - 1 - i)) [0..<w])"
    unfolding split by (simp add: filter_empty_conv) (metis (mono_tags, lifting) atLeastLessThan_iff filter_cong set_upt)
  also have "\<dots> = length (filter ?P (map (\<lambda>i. w - 1 - i) [0..<w]))"
    by (simp add: filter_map comp_def)
  also have "\<dots> = length (filter ?P (rev [0..<w]))" by (simp only: rev_upt_conv)
  also have "\<dots> = stream_errors w xs ys k" by (simp add: stream_errors_def rev_filter [symmetric] del: upt_Suc)
  finally show ?thesis .
qed

lemma stream_errors_same: "(\<And>c. c < w \<Longrightarrow> sym_bit 8 xs (k + c) = sym_bit 8 ys (k + c)) \<Longrightarrow> stream_errors w xs ys k = 0"
  by (simp add: stream_errors_def filter_empty_conv)

lemma unpack_array_stream_word:
  assumes "k + b \<le> 8 * n" and "0 < b" and "b \<le> 8"
  shows "liquid_unpack_array src n k b = Some (stream_word b src k)"
proof -
  have "k < 8 * n" using assms by linarith
  from liquid_unpack_array_bits [OF this assms(3), of src] obtain s where
    s: "liquid_unpack_array src n k b = Some s" and
    bits: "\<And>i. bit s i \<longleftrightarrow> i < b \<and> k + (b - 1 - i) < 8 * n \<and> sym_bit 8 src (k + (b - 1 - i))"
    by blast
  have "s = stream_word b src k"
    using assms by (intro bit_word_eqI) (auto simp: bits bit_stream_word)
  with s show ?thesis by simp
qed

lemma stream_word_cong:
  assumes "\<And>c. c < w \<Longrightarrow> sym_bit 8 xs (k + c) = sym_bit 8 ys (k + c)"
  shows "stream_word w xs k = (stream_word w ys k :: 'a::len word)"
proof (rule bit_word_eqI)
  fix i
  show "bit (stream_word w xs k :: 'a word) i = bit (stream_word w ys k :: 'a word) i"
    using assms [of "w - 1 - i"] by (cases "i < w") (simp_all add: bit_stream_word)
qed

lemma take_bit_stream_word: "take_bit w (stream_word w xs k :: 'a::len word) = stream_word w xs k"
  by (rule bit_word_eqI) (auto simp: bit_take_bit_iff bit_stream_word)

lemma unat_stream_word_less: "unat (stream_word w xs k :: 'a::len word) < 2 ^ w"
proof -
  have "unat (take_bit w x) < 2 ^ w" for x :: "'a::len word"
    by (simp only: unsigned_take_bit_eq take_bit_nat_less_exp)
  then show ?thesis by (metis take_bit_stream_word)
qed

lemma pack_array_stream_word:
  assumes "length src = n" and "k + b \<le> 8 * n" and "0 < b" and "b \<le> 8"
  shows "\<exists>out. liquid_pack_array src n k b s = Some out \<and> length out = n \<and>
    stream_word b out k = take_bit b s \<and>
    (\<forall>t < 8 * n. t < k \<or> k + b \<le> t \<longrightarrow> sym_bit 8 out t = sym_bit 8 src t)"
proof -
  have k: "k < 8 * n" using assms by linarith
  obtain out where out: "liquid_pack_array src n k b s = Some out"
    using liquid_pack_array_bits [OF assms(1) k assms(4)] by blast
  then have "liquid_unpack_array out n k b = Some (take_bit b s)"
    using liquid_unpack_pack_array [OF assms(1,2) k assms(4), of s] by simp
  then have "stream_word b out k = take_bit b s"
    using unpack_array_stream_word [OF assms(2-4), of out] by simp
  with out liquid_pack_array_stream [OF assms(1) k assms(4) out] show ?thesis by auto
qed

lemma concat_map_blocks: "concat (map (\<lambda>t. map (\<lambda>c. f (k * t + c)) [0..<k]) [0..<m]) = map f [0..<k * m]"
proof (induction m)
  case 0
  show ?case by simp
next
  case (Suc m)
  have "[0..<k * Suc m] = [0..<k * m] @ map (\<lambda>c. k * m + c) [0..<k]"
    by (rule nth_equalityI) (auto simp: nth_append)
  moreover have "[0..<Suc m] = [0..<m] @ [m]" by simp
  ultimately show ?case
    by (simp only: Suc.IH map_append concat_append list.map concat.simps append_Nil2 map_map comp_def)
qed

section \<open>Words stored as bytes\<close>

text \<open>The \<open>k\<close> low bytes of a word, most significant first.\<close>

definition word_bytes :: "nat \<Rightarrow> 'a::len word \<Rightarrow> bytes" where
  "word_bytes k v = map (\<lambda>c. ucast (drop_bit (8 * (k - 1 - c)) v)) [0..<k]"

lemma length_word_bytes [simp, len_rules]: "length (word_bytes k v) = k"
  by (simp add: word_bytes_def)

lemma bit_word_bytes: "c < k \<Longrightarrow> bit (word_bytes k v ! c) b \<longleftrightarrow> b < 8 \<and> bit v (8 * (k - 1 - c) + b)"
  by (auto simp: word_bytes_def bit_ucast_iff bit_drop_bit_eq dest: bit_imp_le_length)

lemma stream_position:
  fixes i k q :: nat
  assumes "i < 8 * k"
  shows "8 * q + (8 * k - 1 - i) = 8 * (q + (k - 1 - i div 8)) + (7 - i mod 8)" and "k - 1 - (k - 1 - i div 8) = i div 8"
proof -
  define a b where ab: "a = i div 8" "b = i mod 8"
  have i: "i = 8 * a + b" "b < 8" by (simp_all add: ab)
  have a: "a < k" using assms i by linarith
  have "8 * q + (8 * k - 1 - (8 * a + b)) = 8 * (q + (k - 1 - a)) + (7 - b)"
    using i(2) less_imp_Suc_add [OF a] by auto
  then show "8 * q + (8 * k - 1 - i) = 8 * (q + (k - 1 - i div 8)) + (7 - i mod 8)" by (simp add: ab)
  have "k - 1 - (k - 1 - a) = a" using a by linarith
  then show "k - 1 - (k - 1 - i div 8) = i div 8" by (simp only: ab)
qed

lemma sym_bit_reversed:
  assumes "i < 8 * k"
  shows "sym_bit 8 xs (8 * q + (8 * k - 1 - i)) \<longleftrightarrow> bit (xs ! (q + (k - 1 - i div 8))) (i mod 8)"
  using bit_eq_sym_bit [of "i mod 8" 8 xs "q + (k - 1 - i div 8)"] by (simp only: stream_position(1) [OF assms]) simp

lemma stream_word_bytes:
  assumes "\<And>c. c < k \<Longrightarrow> xs ! (q + c) = word_bytes k v ! c" and v: "take_bit (8 * k) v = v"
  shows "stream_word (8 * k) xs (8 * q) = (v :: 'a::len word)"
proof (rule bit_word_eqI)
  fix i assume i: "i < LENGTH('a)"
  show "bit (stream_word (8 * k) xs (8 * q) :: 'a word) i = bit v i"
  proof (cases "i < 8 * k")
    case True
    have c: "k - 1 - i div 8 < k" using True by simp
    have "bit (xs ! (q + (k - 1 - i div 8))) (i mod 8) = bit v i"
      by (simp only: assms(1) [OF c] bit_word_bytes [OF c] stream_position(2) [OF True]) simp
    then show ?thesis using True i by (simp only: bit_stream_word sym_bit_reversed [OF True]) simp
  next
    case False
    then show ?thesis by (subst v [symmetric]) (simp add: bit_stream_word bit_take_bit_iff)
  qed
qed

lemma word_bytes_stream:
  assumes "8 * k \<le> LENGTH('a::len)"
  shows "word_bytes k (stream_word (8 * k) xs (8 * q) :: 'a word) = map (\<lambda>c. xs ! (q + c)) [0..<k]"
proof (rule nth_equalityI)
  fix c assume "c < length (word_bytes k (stream_word (8 * k) xs (8 * q) :: 'a word))"
  then have c: "c < k" by simp
  show "word_bytes k (stream_word (8 * k) xs (8 * q) :: 'a word) ! c = map (\<lambda>c. xs ! (q + c)) [0..<k] ! c"
  proof (rule bit_word_eqI)
    fix b assume "b < LENGTH(8)"
    then have b: "b < 8" by simp
    define i where "i = 8 * (k - 1 - c) + b"
    have i: "i < 8 * k" using b c by (simp add: i_def)
    have "i div 8 = k - 1 - c" "i mod 8 = b" using b by (simp_all add: i_def)
    then have "sym_bit 8 xs (8 * q + (8 * k - 1 - i)) \<longleftrightarrow> bit (xs ! (q + c)) b"
      using sym_bit_reversed [OF i, of xs q] c by simp
    then show "bit (word_bytes k (stream_word (8 * k) xs (8 * q) :: 'a word) ! c) b =
        bit (map (\<lambda>c. xs ! (q + c)) [0..<k] ! c) b"
      using b c i assms by (simp only: bit_word_bytes [OF c] bit_stream_word i_def [symmetric]) simp
  qed
qed simp

lemma stream_word_halves:
  assumes "2 * h \<le> LENGTH('a::len)" and "w = 2 * h"
  shows "stream_word h xs k = drop_bit h (stream_word w xs k :: 'a word)"
    and "stream_word h xs (k + h) = take_bit h (stream_word w xs k :: 'a word)"
proof -
  show "stream_word h xs k = drop_bit h (stream_word w xs k :: 'a word)"
    using assms by (intro bit_word_eqI) (auto simp: bit_stream_word bit_drop_bit_eq)
  have "k + (2 * h - Suc i) = k + h + (h - Suc i)" if "i < h" for i using that by linarith
  then show "stream_word h xs (k + h) = take_bit h (stream_word w xs k :: 'a word)"
    using assms by (intro bit_word_eqI) (auto simp: bit_stream_word bit_take_bit_iff)
qed

section \<open>Twelve-bit symbols, two in three bytes\<close>

lemma sym_bit_12:
  assumes "i < 12"
  shows "sym_bit 8 msg (24 * t + (11 - i)) \<longleftrightarrow>
      (if 4 \<le> i then bit (msg ! (3 * t)) (i - 4) else bit (msg ! (3 * t + 1)) (4 + i))"
    and "sym_bit 8 msg (24 * t + 12 + (11 - i)) \<longleftrightarrow>
      (if 8 \<le> i then bit (msg ! (3 * t + 1)) (i - 8) else bit (msg ! (3 * t + 2)) i)"
proof -
  have hi: "8 * q + (7 - b) = k \<Longrightarrow> b < 8 \<Longrightarrow> sym_bit 8 msg k = bit (msg ! q) b" for q b k
    using bit_eq_sym_bit [of b 8 msg q] by simp
  have 1: "8 * (3 * t) + (7 - (i - 4)) = 24 * t + (11 - i)" if "4 \<le> i" using that assms by linarith
  have 2: "8 * (3 * t + 1) + (7 - (4 + i)) = 24 * t + (11 - i)" if "\<not> 4 \<le> i" using that by simp
  show "sym_bit 8 msg (24 * t + (11 - i)) \<longleftrightarrow>
      (if 4 \<le> i then bit (msg ! (3 * t)) (i - 4) else bit (msg ! (3 * t + 1)) (4 + i))"
    using hi [OF 1] hi [OF 2] assms by (cases "4 \<le> i") (simp_all only: if_True if_False not_True_eq_False, simp_all)
  have 3: "8 * (3 * t + 1) + (7 - (i - 8)) = 24 * t + 12 + (11 - i)" if "8 \<le> i" using that assms by presburger
  have 4: "8 * (3 * t + 2) + (7 - i) = 24 * t + 12 + (11 - i)" if "\<not> 8 \<le> i" using that by simp
  show "sym_bit 8 msg (24 * t + 12 + (11 - i)) \<longleftrightarrow>
      (if 8 \<le> i then bit (msg ! (3 * t + 1)) (i - 8) else bit (msg ! (3 * t + 2)) i)"
    using hi [OF 3] hi [OF 4] assms by (cases "8 \<le> i") (simp_all only: if_True if_False not_True_eq_False, simp_all)
qed

lemma bit_nibble_masks:
  "bit (0x0ff0 :: u32) i \<longleftrightarrow> 4 \<le> i \<and> i < 12" "bit (0x000f :: u32) i \<longleftrightarrow> i < 4"
  "bit (0x0f00 :: u32) i \<longleftrightarrow> 8 \<le> i \<and> i < 12" "bit (0x00ff :: u32) i \<longleftrightarrow> i < 8"
  "bit (0x00f0 :: u32) i \<longleftrightarrow> 4 \<le> i \<and> i < 8"
proof -
  have *: "(0x0ff0 :: u32) = push_bit 4 (mask 8)" "(0x000f :: u32) = mask 4"
    "(0x0f00 :: u32) = push_bit 8 (mask 4)" "(0x00ff :: u32) = mask 8" "(0x00f0 :: u32) = push_bit 4 (mask 4)"
    by (simp_all add: mask_numeral)
  show "bit (0x0ff0 :: u32) i \<longleftrightarrow> 4 \<le> i \<and> i < 12" "bit (0x000f :: u32) i \<longleftrightarrow> i < 4"
    "bit (0x0f00 :: u32) i \<longleftrightarrow> 8 \<le> i \<and> i < 12" "bit (0x00ff :: u32) i \<longleftrightarrow> i < 8"
    "bit (0x00f0 :: u32) i \<longleftrightarrow> 4 \<le> i \<and> i < 8"
    unfolding * by (auto simp: bit_push_bit_iff bit_mask_iff)
qed

lemma stream_word_12:
  "(push_bit 4 (ucast (msg ! (3 * t))) AND 0x0ff0) OR (drop_bit 4 (ucast (msg ! (3 * t + 1))) AND 0x000f)
      = (stream_word 12 msg (24 * t) :: u32)"
  "(push_bit 8 (ucast (msg ! (3 * t + 1))) AND 0x0f00) OR (ucast (msg ! (3 * t + 2)) AND 0x00ff)
      = (stream_word 12 msg (24 * t + 12) :: u32)"
proof -
  have low: "bit (msg ! k) j \<Longrightarrow> j < 8" for k j by (auto dest: bit_imp_le_length)
  show "(push_bit 4 (ucast (msg ! (3 * t))) AND 0x0ff0) OR (drop_bit 4 (ucast (msg ! (3 * t + 1))) AND 0x000f)
      = (stream_word 12 msg (24 * t) :: u32)"
  proof (rule bit_word_eqI)
    fix i assume i: "i < LENGTH(32)"
    show "bit ((push_bit 4 (ucast (msg ! (3 * t)) :: u32) AND 0x0ff0) OR (drop_bit 4 (ucast (msg ! (3 * t + 1))) AND 0x000f)) i
        = bit (stream_word 12 msg (24 * t) :: u32) i"
    proof (cases "i < 12")
      case True
      have "bit (stream_word 12 msg (24 * t) :: u32) i \<longleftrightarrow>
          (if 4 \<le> i then bit (msg ! (3 * t)) (i - 4) else bit (msg ! (3 * t + 1)) (4 + i))"
        using True i by (simp only: sym_bit_12(1) [OF True, symmetric] bit_stream_word) simp
      then show ?thesis
        using True i by (simp only: bit_or_iff bit_and_iff bit_nibble_masks bit_push_bit_iff bit_drop_bit_eq
            bit_ucast_iff o_def) (auto dest: low)
    next
      case False
      then show ?thesis by (simp add: bit_stream_word bit_or_iff bit_and_iff bit_nibble_masks del: bit_numeral_word_iff)
    qed
  qed
  show "(push_bit 8 (ucast (msg ! (3 * t + 1))) AND 0x0f00) OR (ucast (msg ! (3 * t + 2)) AND 0x00ff)
      = (stream_word 12 msg (24 * t + 12) :: u32)"
  proof (rule bit_word_eqI)
    fix i assume i: "i < LENGTH(32)"
    show "bit ((push_bit 8 (ucast (msg ! (3 * t + 1)) :: u32) AND 0x0f00) OR (ucast (msg ! (3 * t + 2)) AND 0x00ff)) i
        = bit (stream_word 12 msg (24 * t + 12) :: u32) i"
    proof (cases "i < 12")
      case True
      have "bit (stream_word 12 msg (24 * t + 12) :: u32) i \<longleftrightarrow>
          (if 8 \<le> i then bit (msg ! (3 * t + 1)) (i - 8) else bit (msg ! (3 * t + 2)) i)"
        using True i by (simp only: sym_bit_12(2) [OF True, symmetric] bit_stream_word) simp
      then show ?thesis
        using True i by (simp only: bit_or_iff bit_and_iff bit_nibble_masks bit_push_bit_iff
            bit_ucast_iff) (auto dest: low)
    next
      case False
      then show ?thesis by (simp add: bit_stream_word bit_or_iff bit_and_iff bit_nibble_masks del: bit_numeral_word_iff)
    qed
  qed
qed


text \<open>The converse: the three bytes of two symbols.\<close>

definition pair_bytes :: "u32 \<Rightarrow> u32 \<Rightarrow> bytes" where
  "pair_bytes m0 m1 = [ucast (drop_bit 4 m0 AND 0xff), ucast ((push_bit 4 m0 AND 0xf0) OR (drop_bit 8 m1 AND 0x0f)),
     ucast (m1 AND 0xff)]"

lemma pair_bytes_word:
  assumes m0: "take_bit 12 m0 = m0" and m1: "take_bit 12 m1 = m1"
  shows "pair_bytes m0 m1 = word_bytes 3 (push_bit 12 m0 OR m1)"
proof -
  have 0: "bit m0 i \<Longrightarrow> i < 12" for i by (metis bit_take_bit_iff m0)
  have 1: "bit m1 i \<Longrightarrow> i < 12" for i by (metis bit_take_bit_iff m1)
  have up: "[0..<3] = [0, 1, 2 :: nat]" by code_simp
  have "ucast (drop_bit 4 m0 AND 0xff) = (ucast (drop_bit 16 (push_bit 12 m0 OR m1)) :: u8)"
    by (rule bit_word_eqI) (auto simp: bit_ucast_iff bit_drop_bit_eq bit_push_bit_iff bit_or_iff bit_and_iff bit_nibble_masks
      simp del: bit_numeral_word_iff dest: 0 1)
  moreover have "ucast ((push_bit 4 m0 AND 0xf0) OR (drop_bit 8 m1 AND 0x0f)) = (ucast (drop_bit 8 (push_bit 12 m0 OR m1)) :: u8)"
    by (rule bit_word_eqI) (auto simp: bit_ucast_iff bit_drop_bit_eq bit_push_bit_iff bit_or_iff bit_and_iff bit_nibble_masks
      simp del: bit_numeral_word_iff dest: 0 1)
  moreover have "ucast (m1 AND 0xff) = (ucast (push_bit 12 m0 OR m1) :: u8)"
    by (rule bit_word_eqI) (auto simp: bit_ucast_iff bit_push_bit_iff bit_or_iff bit_and_iff bit_nibble_masks
      simp del: bit_numeral_word_iff dest: 0 1)
  ultimately show ?thesis by (simp add: pair_bytes_def word_bytes_def up)
qed

end
