(* ===== verification/Fec_Hamming_Table.thy ===== *)
theory Fec_Hamming_Table
  imports Block_Codes Fec_Scheme Fec_Rep
begin

unbundle bit_operations_syntax

text \<open>
  \<^verbatim>\<open>liquid_dsp/src/fec/src/fec_hamming74.c\<close> and \<^verbatim>\<open>fec_hamming84.c\<close>: the Hamming codes that encode
  and decode a nibble by table look-up. The (7,4) encoder packs its symbols into the output array
  at any bit position, so it takes the array as it was and leaves the padding bits of the last byte
  alone. The tables are shown to be a code of minimum distance 3 (4) and a nearest-word decoder.
\<close>

section \<open>Tables\<close>

definition hamming74_enc_gentab :: "u8 list" where
  "hamming74_enc_gentab = [
    0x00, 0x69, 0x2a, 0x43, 0x4c, 0x25, 0x66, 0x0f, 0x70, 0x19, 0x5a, 0x33, 0x3c, 0x55, 0x16, 0x7f]"

definition hamming74_dec_gentab :: "u8 list" where
  "hamming74_dec_gentab = [
    0x00, 0x00, 0x00, 0x03, 0x00, 0x05, 0x0e, 0x07, 0x00, 0x09, 0x02, 0x07, 0x04, 0x07, 0x07, 0x07,
    0x00, 0x09, 0x0e, 0x0b, 0x0e, 0x0d, 0x0e, 0x0e, 0x09, 0x09, 0x0a, 0x09, 0x0c, 0x09, 0x0e, 0x07,
    0x00, 0x05, 0x02, 0x0b, 0x05, 0x05, 0x06, 0x05, 0x02, 0x01, 0x02, 0x02, 0x0c, 0x05, 0x02, 0x07,
    0x08, 0x0b, 0x0b, 0x0b, 0x0c, 0x05, 0x0e, 0x0b, 0x0c, 0x09, 0x02, 0x0b, 0x0c, 0x0c, 0x0c, 0x0f,
    0x00, 0x03, 0x03, 0x03, 0x04, 0x0d, 0x06, 0x03, 0x04, 0x01, 0x0a, 0x03, 0x04, 0x04, 0x04, 0x07,
    0x08, 0x0d, 0x0a, 0x03, 0x0d, 0x0d, 0x0e, 0x0d, 0x0a, 0x09, 0x0a, 0x0a, 0x04, 0x0d, 0x0a, 0x0f,
    0x08, 0x01, 0x06, 0x03, 0x06, 0x05, 0x06, 0x06, 0x01, 0x01, 0x02, 0x01, 0x04, 0x01, 0x06, 0x0f,
    0x08, 0x08, 0x08, 0x0b, 0x08, 0x0d, 0x06, 0x0f, 0x08, 0x01, 0x0a, 0x0f, 0x0c, 0x0f, 0x0f, 0x0f]"

definition hamming84_enc_gentab :: "u8 list" where
  "hamming84_enc_gentab = [
    0x00, 0xd2, 0x55, 0x87, 0x99, 0x4b, 0xcc, 0x1e, 0xe1, 0x33, 0xb4, 0x66, 0x78, 0xaa, 0x2d, 0xff]"

definition hamming84_dec_gentab :: "u8 list" where
  "hamming84_dec_gentab = [
    0x00, 0x00, 0x00, 0x00, 0x00, 0x00, 0x03, 0x03, 0x00, 0x00, 0x05, 0x05, 0x0e, 0x0e, 0x07, 0x07,
    0x00, 0x00, 0x09, 0x09, 0x02, 0x02, 0x07, 0x07, 0x04, 0x04, 0x07, 0x07, 0x07, 0x07, 0x07, 0x07,
    0x00, 0x00, 0x09, 0x09, 0x0e, 0x0e, 0x0b, 0x0b, 0x0e, 0x0e, 0x0d, 0x0d, 0x0e, 0x0e, 0x0e, 0x0e,
    0x09, 0x09, 0x09, 0x09, 0x0a, 0x0a, 0x09, 0x09, 0x0c, 0x0c, 0x09, 0x09, 0x0e, 0x0e, 0x07, 0x07,
    0x00, 0x00, 0x05, 0x05, 0x02, 0x02, 0x0b, 0x0b, 0x05, 0x05, 0x05, 0x05, 0x06, 0x06, 0x05, 0x05,
    0x02, 0x02, 0x01, 0x01, 0x02, 0x02, 0x02, 0x02, 0x0c, 0x0c, 0x05, 0x05, 0x02, 0x02, 0x07, 0x07,
    0x08, 0x08, 0x0b, 0x0b, 0x0b, 0x0b, 0x0b, 0x0b, 0x0c, 0x0c, 0x05, 0x05, 0x0e, 0x0e, 0x0b, 0x0b,
    0x0c, 0x0c, 0x09, 0x09, 0x02, 0x02, 0x0b, 0x0b, 0x0c, 0x0c, 0x0c, 0x0c, 0x0c, 0x0c, 0x0f, 0x0f,
    0x00, 0x00, 0x03, 0x03, 0x03, 0x03, 0x03, 0x03, 0x04, 0x04, 0x0d, 0x0d, 0x06, 0x06, 0x03, 0x03,
    0x04, 0x04, 0x01, 0x01, 0x0a, 0x0a, 0x03, 0x03, 0x04, 0x04, 0x04, 0x04, 0x04, 0x04, 0x07, 0x07,
    0x08, 0x08, 0x0d, 0x0d, 0x0a, 0x0a, 0x03, 0x03, 0x0d, 0x0d, 0x0d, 0x0d, 0x0e, 0x0e, 0x0d, 0x0d,
    0x0a, 0x0a, 0x09, 0x09, 0x0a, 0x0a, 0x0a, 0x0a, 0x04, 0x04, 0x0d, 0x0d, 0x0a, 0x0a, 0x0f, 0x0f,
    0x08, 0x08, 0x01, 0x01, 0x06, 0x06, 0x03, 0x03, 0x06, 0x06, 0x05, 0x05, 0x06, 0x06, 0x06, 0x06,
    0x01, 0x01, 0x01, 0x01, 0x02, 0x02, 0x01, 0x01, 0x04, 0x04, 0x01, 0x01, 0x06, 0x06, 0x0f, 0x0f,
    0x08, 0x08, 0x08, 0x08, 0x08, 0x08, 0x0b, 0x0b, 0x08, 0x08, 0x0d, 0x0d, 0x06, 0x06, 0x0f, 0x0f,
    0x08, 0x08, 0x01, 0x01, 0x0a, 0x0a, 0x0f, 0x0f, 0x0c, 0x0c, 0x0f, 0x0f, 0x0f, 0x0f, 0x0f, 0x0f]"

section \<open>Hamming(7,4)\<close>

fun h74_enc_loop :: "bytes \<Rightarrow> nat \<Rightarrow> nat list \<Rightarrow> nat \<Rightarrow> bytes \<Rightarrow> bytes option" where
  "h74_enc_loop msg_dec enc_msg_len [] k msg_enc = Some msg_enc"
| "h74_enc_loop msg_dec enc_msg_len (i # is) k msg_enc =
     (let s0 = drop_bit 4 (msg_dec ! i) AND 0x0f;
          s1 = msg_dec ! i AND 0x0f;
          m0 = hamming74_enc_gentab ! unat s0;
          m1 = hamming74_enc_gentab ! unat s1
      in do {
        msg_enc \<leftarrow> liquid_pack_array msg_enc enc_msg_len k 7 m0;
        msg_enc \<leftarrow> liquid_pack_array msg_enc enc_msg_len (k + 7) 7 m1;
        h74_enc_loop msg_dec enc_msg_len is (k + 14) msg_enc
      })"

definition fec_hamming74_encode :: "nat \<Rightarrow> bytes \<Rightarrow> bytes \<Rightarrow> bytes option" where
  "fec_hamming74_encode n msg_dec msg_enc = do {
     enc_msg_len \<leftarrow> fec_block_get_enc_msg_len n 4 7;
     h74_enc_loop msg_dec enc_msg_len [0..<n] 0 msg_enc
   }"

definition fec_hamming74_decode :: "nat \<Rightarrow> bytes \<Rightarrow> bytes option" where
  "fec_hamming74_decode n msg_enc = do {
     enc_msg_len \<leftarrow> fec_block_get_enc_msg_len n 4 7;
     for_append [0..<n] (\<lambda>i. let k = 14 * i in do {
       r0 \<leftarrow> liquid_unpack_array msg_enc enc_msg_len k 7;
       r1 \<leftarrow> liquid_unpack_array msg_enc enc_msg_len (k + 7) 7;
       let s0 = hamming74_dec_gentab ! unat r0;
           s1 = hamming74_dec_gentab ! unat r1
       in Some [push_bit 4 s0 OR s1]
     })
   }"

definition h74_metric :: "bytes \<Rightarrow> nat \<Rightarrow> nat" where
  "h74_metric soft_bits s =
     (let c = hamming74_enc_gentab ! s
      in soft_term c 0x40 (soft_bits ! 0) + soft_term c 0x20 (soft_bits ! 1) +
         soft_term c 0x10 (soft_bits ! 2) + soft_term c 0x08 (soft_bits ! 3) +
         soft_term c 0x04 (soft_bits ! 4) + soft_term c 0x02 (soft_bits ! 5) +
         soft_term c 0x01 (soft_bits ! 6))"

definition fecsoft_hamming74_decode :: "bytes \<Rightarrow> u8" where
  "fecsoft_hamming74_decode soft_bits = of_nat (soft_search (h74_metric soft_bits) [0..<16] 0 0)"

definition fec_hamming74_decode_soft :: "nat \<Rightarrow> bytes \<Rightarrow> bytes option" where
  "fec_hamming74_decode_soft n msg_enc = do {
     enc_msg_len \<leftarrow> fec_block_get_enc_msg_len n 4 7;
     let msg_dec = map (\<lambda>i. let k = 14 * i;
           s0 = fecsoft_hamming74_decode (drop k msg_enc);
           s1 = fecsoft_hamming74_decode (drop (k + 7) msg_enc)
         in push_bit 4 s0 OR s1) [0..<n]
     in if 14 * n = 8 * enc_msg_len then Some msg_dec else None
   }"

section \<open>Hamming(8,4)\<close>

definition fec_hamming84_encode :: "nat \<Rightarrow> bytes \<Rightarrow> bytes" where
  "fec_hamming84_encode n msg_dec =
     concat (map (\<lambda>i. let s0 = drop_bit 4 (msg_dec ! i) AND 0x0f;
                           s1 = msg_dec ! i AND 0x0f
                       in [hamming84_enc_gentab ! unat s0, hamming84_enc_gentab ! unat s1]) [0..<n])"

definition fec_hamming84_decode :: "nat \<Rightarrow> bytes \<Rightarrow> bytes" where
  "fec_hamming84_decode n msg_enc =
     map (\<lambda>i. let r0 = msg_enc ! (2 * i + 0) AND 0xff;
                   r1 = msg_enc ! (2 * i + 1) AND 0xff;
                   s0 = hamming84_dec_gentab ! unat r0;
                   s1 = hamming84_dec_gentab ! unat r1
               in push_bit 4 s0 OR s1) [0..<n]"

definition h84_metric :: "bytes \<Rightarrow> nat \<Rightarrow> nat" where
  "h84_metric soft_bits s =
     (let c = hamming84_enc_gentab ! s
      in soft_term c 0x80 (soft_bits ! 0) + soft_term c 0x40 (soft_bits ! 1) +
         soft_term c 0x20 (soft_bits ! 2) + soft_term c 0x10 (soft_bits ! 3) +
         soft_term c 0x08 (soft_bits ! 4) + soft_term c 0x04 (soft_bits ! 5) +
         soft_term c 0x02 (soft_bits ! 6) + soft_term c 0x01 (soft_bits ! 7))"

definition fecsoft_hamming84_decode :: "bytes \<Rightarrow> u8" where
  "fecsoft_hamming84_decode soft_bits = of_nat (soft_search (h84_metric soft_bits) [0..<16] 0 0)"

definition fec_hamming84_decode_soft :: "nat \<Rightarrow> bytes \<Rightarrow> bytes option" where
  "fec_hamming84_decode_soft n msg_enc = do {
     enc_msg_len \<leftarrow> fec_block_get_enc_msg_len n 4 8;
     let msg_dec = map (\<lambda>i. let k = 16 * i;
           s0 = fecsoft_hamming84_decode (drop k msg_enc);
           s1 = fecsoft_hamming84_decode (drop (k + 8) msg_enc)
         in push_bit 4 s0 OR s1) [0..<n]
     in if 16 * n = 8 * enc_msg_len then Some msg_dec else None
   }"

section \<open>The tables\<close>

lemma upt_16: "[0..<16] = [0, 1, 2, 3, 4, 5, 6, 7, 8, 9, 10, 11, 12, 13, 14, 15 :: nat]"
  by code_simp

lemma h74_distance_check:
  "list_all (\<lambda>a. list_all (\<lambda>b. a = b \<or> 3 \<le> ones (hamming74_enc_gentab ! a XOR hamming74_enc_gentab ! b)) [0..<16]) [0..<16]"
  unfolding upt_16 hamming74_enc_gentab_def by (simp add: ones_u8)

lemma h84_distance_check:
  "list_all (\<lambda>a. list_all (\<lambda>b. a = b \<or> 4 \<le> ones (hamming84_enc_gentab ! a XOR hamming84_enc_gentab ! b)) [0..<16]) [0..<16]"
  unfolding upt_16 hamming84_enc_gentab_def by (simp add: ones_u8)

interpretation h74: block_code "\<lambda>a. hamming74_enc_gentab ! a" 16 3
  using h74_distance_check by unfold_locales (auto simp: list_all_upt)

interpretation h84: block_code "\<lambda>a. hamming84_enc_gentab ! a" 16 4
  using h84_distance_check by unfold_locales (auto simp: list_all_upt)

text \<open>Every received word is decoded to a symbol at distance at most 1 (at most 2).\<close>

fun near_check :: "u8 list \<Rightarrow> nat \<Rightarrow> u8 \<Rightarrow> u8 list \<Rightarrow> bool" where
  "near_check enc d r [] = True"
| "near_check enc d r (s # ss) =
     (s < 16 \<and> ones (enc ! unat s XOR r) \<le> d \<and> near_check enc d (r + 1) ss)"

lemma h74_near_check: "near_check hamming74_enc_gentab 1 0 hamming74_dec_gentab"
  unfolding hamming74_dec_gentab_def hamming74_enc_gentab_def by (simp add: ones_u8)

lemma h84_near_check: "near_check hamming84_enc_gentab 2 0 hamming84_dec_gentab"
  unfolding hamming84_dec_gentab_def hamming84_enc_gentab_def by (simp add: ones_u8)

lemma near_check_nth:
  "near_check enc d r ss \<Longrightarrow> i < length ss \<Longrightarrow>
   ss ! i < 16 \<and> ones (enc ! unat (ss ! i) XOR (r + of_nat i)) \<le> d"
proof (induction ss arbitrary: r i)
  case (Cons s ss)
  show ?case
  proof (cases i)
    case (Suc j)
    with Cons.IH [of "r + 1" j] Cons.prems show ?thesis by (simp add: add.assoc)
  qed (use Cons.prems in simp)
qed simp

lemma length_dec_gentab: "length hamming74_dec_gentab = 128" "length hamming84_dec_gentab = 256"
  by (simp_all add: hamming74_dec_gentab_def hamming84_dec_gentab_def)

lemma h74_near:
  assumes "unat (r :: u8) < 128"
  shows "unat (hamming74_dec_gentab ! unat r) < 16"
    and "ones (hamming74_enc_gentab ! unat (hamming74_dec_gentab ! unat r) XOR r) \<le> 1"
  using near_check_nth [OF h74_near_check, of "unat r"] assms
  by (simp_all add: length_dec_gentab word_less_nat_alt)

lemma h84_near:
  shows "unat (hamming84_dec_gentab ! unat (r :: u8)) < 16"
    and "ones (hamming84_enc_gentab ! unat (hamming84_dec_gentab ! unat r) XOR r) \<le> 2"
  using near_check_nth [OF h84_near_check, of "unat r"] unat_u8_less [of r]
  by (simp_all add: length_dec_gentab word_less_nat_alt)

text \<open>The decoding tables are maximum-likelihood: no symbol is nearer than the one they give.\<close>

lemma h74_table_ml:
  assumes "unat (r :: u8) < 128" and "b < 16"
  shows "ones (hamming74_enc_gentab ! unat (hamming74_dec_gentab ! unat r) XOR r)
    \<le> ones (hamming74_enc_gentab ! b XOR r)"
  by (rule h74.half_distance_ml [OF h74_near(1) [OF assms(1)] assms(2)])
    (use h74_near(2) [OF assms(1)] in linarith)

lemma h84_table_ml:
  assumes "b < 16"
  shows "ones (hamming84_enc_gentab ! unat (hamming84_dec_gentab ! unat r) XOR r)
    \<le> ones (hamming84_enc_gentab ! b XOR r)"
  by (rule h84.half_distance_ml [OF h84_near(1) assms]) (use h84_near(2) [of r] in linarith)

lemma h74_table_correct:
  assumes "unat s < 16" and "unat (r :: u8) < 128" and "ones (hamming74_enc_gentab ! unat s XOR r) \<le> 1"
  shows "hamming74_dec_gentab ! unat r = s"
  using h74.nearest_unique [OF assms(1) h74_near(1) [OF assms(2)] _ h74_table_ml [OF assms(2,1)]] assms(3)
  by (simp add: word_unat_eq_iff)

lemma h84_table_correct:
  assumes "unat s < 16" and "ones (hamming84_enc_gentab ! unat s XOR r) \<le> 1"
  shows "hamming84_dec_gentab ! unat r = s"
  using h84.nearest_unique [OF assms(1) h84_near(1) [of r] _ h84_table_ml [OF assms(1)]] assms(2)
  by (simp add: word_unat_eq_iff)

section \<open>Nibbles\<close>

definition nibble :: "bytes \<Rightarrow> nat \<Rightarrow> u8" where
  "nibble msg t = (if even t then drop_bit 4 (msg ! (t div 2)) else msg ! (t div 2)) AND 0x0f"

lemma nibble_0: "nibble msg (2 * i) = drop_bit 4 (msg ! i) AND 0x0f"
  and nibble_1: "nibble msg (Suc (2 * i)) = msg ! i AND 0x0f"
  by (simp_all add: nibble_def)

lemma and_15: "(x :: u8) AND 0x0f = take_bit 4 x"
  by (simp add: take_bit_eq_mask mask_numeral)

lemma nibble_less: "unat (nibble msg t) < 16"
proof -
  have "unat (take_bit 4 x :: u8) < 2 ^ 4" for x
    by (simp only: unsigned_take_bit_eq take_bit_nat_less_exp)
  then show ?thesis by (simp add: nibble_def and_15)
qed

lemma nibbles_byte: "push_bit 4 (nibble msg (2 * i)) OR nibble msg (Suc (2 * i)) = msg ! i"
  unfolding nibble_0 nibble_1 and_15
  by (rule bit_word_eqI) (auto simp: bit_or_iff bit_push_bit_iff bit_take_bit_iff bit_drop_bit_eq)

section \<open>The (7,4) block codec\<close>

lemma h74_enc_len: "n < msg_bound \<Longrightarrow> fec_block_get_enc_msg_len n 4 7 = Some (ceil_div (14 * n) 8)"
  using fec_block_len [of n 4 7] ceil_div_mult [of 4 "2 * n"] by (simp add: mult.commute)

lemma h74_code_fits: "unat s < 16 \<Longrightarrow> take_bit 7 (hamming74_enc_gentab ! unat (s :: u8)) = hamming74_enc_gentab ! unat s"
proof -
  have "list_all (\<lambda>a. take_bit 7 (hamming74_enc_gentab ! a) = hamming74_enc_gentab ! a) [0..<16]"
    unfolding upt_16 hamming74_enc_gentab_def by simp
  then show "unat s < 16 \<Longrightarrow> ?thesis" by (simp only: list_all_upt)
qed


lemma h74_enc_loop_stream:
  assumes "length msg_enc = m" and "14 * n \<le> 8 * m" and "j \<le> n"
  shows "\<exists>out. h74_enc_loop msg m [j..<n] (14 * j) msg_enc = Some out \<and> length out = m \<and>
    (\<forall>t. 2 * j \<le> t \<and> t < 2 * n \<longrightarrow>
       stream_word 7 out (7 * t) = hamming74_enc_gentab ! unat (nibble msg t)) \<and>
    (\<forall>u < 8 * m. u < 14 * j \<or> 14 * n \<le> u \<longrightarrow> sym_bit 8 out u = sym_bit 8 msg_enc u)"
  using assms(3,1)
proof (induction arbitrary: msg_enc rule: inc_induct)
  case base
  then show ?case by auto
next
  case (step j)
  let ?m0 = "hamming74_enc_gentab ! unat (nibble msg (2 * j))"
    and ?m1 = "hamming74_enc_gentab ! unat (nibble msg (Suc (2 * j)))"
  have "14 * Suc j \<le> 14 * n" using step.hyps by simp
  then have cap: "14 * j + 7 \<le> 8 * m" "14 * j + 7 + 7 \<le> 8 * m" using assms(2) by simp_all
  obtain b1 where b1: "liquid_pack_array msg_enc m (14 * j) 7 ?m0 = Some b1" "length b1 = m"
      "stream_word 7 b1 (14 * j) = ?m0"
      "\<And>u. u < 8 * m \<Longrightarrow> u < 14 * j \<or> 14 * j + 7 \<le> u \<Longrightarrow> sym_bit 8 b1 u = sym_bit 8 msg_enc u"
    using pack_array_stream_word [OF step.prems cap(1), of ?m0] h74_code_fits [OF nibble_less] by auto
  obtain b2 where b2: "liquid_pack_array b1 m (14 * j + 7) 7 ?m1 = Some b2" "length b2 = m"
      "stream_word 7 b2 (14 * j + 7) = ?m1"
      "\<And>u. u < 8 * m \<Longrightarrow> u < 14 * j + 7 \<or> 14 * j + 7 + 7 \<le> u \<Longrightarrow> sym_bit 8 b2 u = sym_bit 8 b1 u"
    using pack_array_stream_word [OF b1(2) cap(2), of ?m1] h74_code_fits [OF nibble_less] by auto
  obtain out where out: "h74_enc_loop msg m [Suc j..<n] (14 * Suc j) b2 = Some out" "length out = m"
      "\<And>t. 2 * Suc j \<le> t \<Longrightarrow> t < 2 * n \<Longrightarrow>
         stream_word 7 out (7 * t) = hamming74_enc_gentab ! unat (nibble msg t)"
      "\<And>u. u < 8 * m \<Longrightarrow> u < 14 * Suc j \<or> 14 * n \<le> u \<Longrightarrow> sym_bit 8 out u = sym_bit 8 b2 u"
    using step.IH [OF b2(2)] by auto
  have run: "h74_enc_loop msg m [j..<n] (14 * j) msg_enc = Some out"
    using step.hyps out(1) b1(1) b2(1)
    by (simp add: upt_conv_Cons Let_def nibble_0 [symmetric] nibble_1 [symmetric] add.commute)
  have "stream_word 7 out (7 * t) = hamming74_enc_gentab ! unat (nibble msg t)"
    if t: "2 * j \<le> t" "t < 2 * n" for t
  proof -
    from t have "t = 2 * j \<or> t = Suc (2 * j) \<or> 2 * Suc j \<le> t" by arith
    then consider "t = 2 * j" | "t = Suc (2 * j)" | "2 * Suc j \<le> t" by blast
    then show ?thesis
    proof cases
      case 1
      have "stream_word 7 out (14 * j) = (stream_word 7 b1 (14 * j) :: u8)"
        using out(4) b2(4) cap by (intro stream_word_cong) simp
      with 1 b1(3) show ?thesis by simp
    next
      case 2
      have "stream_word 7 out (14 * j + 7) = (stream_word 7 b2 (14 * j + 7) :: u8)"
        using out(4) cap by (intro stream_word_cong) simp
      with 2 b2(3) show ?thesis by (simp add: add.commute)
    next
      case 3
      then show ?thesis using out(3) t(2) by simp
    qed
  qed
  moreover have "sym_bit 8 out u = sym_bit 8 msg_enc u" if "u < 8 * m" "u < 14 * j \<or> 14 * n \<le> u" for u
    using that out(4) [of u] b2(4) [of u] b1(4) [of u] step.hyps by auto
  ultimately show ?case using run out(2) by blast
qed

lemma fec_hamming74_encode_stream:
  assumes "n < msg_bound" and "length msg_enc = ceil_div (14 * n) 8"
  shows "\<exists>out. fec_hamming74_encode n msg msg_enc = Some out \<and> length out = ceil_div (14 * n) 8 \<and>
    (\<forall>t < 2 * n. stream_word 7 out (7 * t) = hamming74_enc_gentab ! unat (nibble msg t)) \<and>
    (\<forall>u. 14 * n \<le> u \<and> u < 8 * length out \<longrightarrow> sym_bit 8 out u = sym_bit 8 msg_enc u)"
proof -
  have "14 * n \<le> 8 * ceil_div (14 * n) 8" by (rule le_mult_ceil_div) simp
  from h74_enc_loop_stream [OF assms(2) this, of 0 msg] show ?thesis
    by (auto simp: fec_hamming74_encode_def h74_enc_len [OF assms(1)])
qed

lemma fec_hamming74_decode_eq:
  assumes "n < msg_bound"
  shows "fec_hamming74_decode n rx = Some (map (\<lambda>i.
    push_bit 4 (hamming74_dec_gentab ! unat (stream_word 7 rx (7 * (2 * i)) :: u8)) OR
    hamming74_dec_gentab ! unat (stream_word 7 rx (7 * Suc (2 * i)) :: u8)) [0..<n])"
proof -
  have cap: "14 * i + 7 \<le> 8 * ceil_div (14 * n) 8" "14 * i + 7 + 7 \<le> 8 * ceil_div (14 * n) 8" if "i < n" for i
    using le_mult_ceil_div [of 8 "14 * n"] that by simp_all
  have "fec_hamming74_decode n rx = Some (concat (map (\<lambda>i. [
    push_bit 4 (hamming74_dec_gentab ! unat (stream_word 7 rx (7 * (2 * i)) :: u8)) OR
    hamming74_dec_gentab ! unat (stream_word 7 rx (7 * Suc (2 * i)) :: u8)]) [0..<n]))"
    unfolding fec_hamming74_decode_def h74_enc_len [OF assms] bind.bind_lunit Let_def
  proof (rule for_append_Some)
    fix i assume "i \<in> set [0..<n]"
    then have i: "i < n" by simp
    have "7 * (2 * i) = 14 * i" "7 * Suc (2 * i) = 14 * i + 7" by simp_all
    then show "do { r0 \<leftarrow> liquid_unpack_array rx (ceil_div (14 * n) 8) (14 * i) 7;
        r1 \<leftarrow> liquid_unpack_array rx (ceil_div (14 * n) 8) (14 * i + 7) 7;
        Some [push_bit 4 (hamming74_dec_gentab ! unat r0) OR hamming74_dec_gentab ! unat r1] } =
      Some [push_bit 4 (hamming74_dec_gentab ! unat (stream_word 7 rx (7 * (2 * i)) :: u8)) OR
        hamming74_dec_gentab ! unat (stream_word 7 rx (7 * Suc (2 * i)) :: u8)]"
      by (simp only: unpack_array_stream_word [OF cap(1) [OF i]] unpack_array_stream_word [OF cap(2) [OF i]]
          zero_less_numeral numeral_le_iff semiring_norm bind.bind_lunit)
  qed
  then show ?thesis by (simp only: concat_map_singleton)
qed

lemma fec_hamming74_corrects:
  assumes "n < msg_bound" and "length msg = n" and "length msg_enc = ceil_div (14 * n) 8"
    and enc: "fec_hamming74_encode n msg msg_enc = Some out"
    and err: "\<And>t. t < 2 * n \<Longrightarrow> stream_errors 7 out rx (7 * t) \<le> 1"
  shows "fec_hamming74_decode n rx = Some msg"
proof -
  from fec_hamming74_encode_stream [OF assms(1,3), of msg] enc
  have words: "\<And>t. t < 2 * n \<Longrightarrow> stream_word 7 out (7 * t) = hamming74_enc_gentab ! unat (nibble msg t)"
    by auto
  have dec: "hamming74_dec_gentab ! unat (stream_word 7 rx (7 * t) :: u8) = nibble msg t" if "t < 2 * n" for t
  proof (rule h74_table_correct [OF nibble_less])
    show "unat (stream_word 7 rx (7 * t) :: u8) < 128"
      using unat_stream_word_less [of 7 rx "7 * t", where 'a = 8] by simp
    show "ones (hamming74_enc_gentab ! unat (nibble msg t) XOR stream_word 7 rx (7 * t)) \<le> 1"
      using stream_errors_ones [of 7 out "7 * t" rx, where 'a = 8] err [OF that] words [OF that] by simp
  qed
  have "map (\<lambda>i. push_bit 4 (nibble msg (2 * i)) OR nibble msg (Suc (2 * i))) [0..<n] = msg"
    using assms(2) by (intro nth_equalityI) (simp_all add: nibbles_byte)
  moreover have "2 * i < 2 * n" "Suc (2 * i) < 2 * n" if "i < n" for i using that by simp_all
  then have "map (\<lambda>i. push_bit 4 (hamming74_dec_gentab ! unat (stream_word 7 rx (7 * (2 * i)) :: u8)) OR
      hamming74_dec_gentab ! unat (stream_word 7 rx (7 * Suc (2 * i)) :: u8)) [0..<n] =
    map (\<lambda>i. push_bit 4 (nibble msg (2 * i)) OR nibble msg (Suc (2 * i))) [0..<n]"
    by (intro map_cong refl) (simp only: dec set_upt atLeastLessThan_iff)
  ultimately show ?thesis by (simp only: fec_hamming74_decode_eq [OF assms(1)])
qed

section \<open>The (8,4) block codec\<close>

lemma length_fec_hamming84_encode [simp, len_rules]: "length (fec_hamming84_encode n msg) = 2 * n"
  by (simp add: fec_hamming84_encode_def Let_def length_concat_uniform [where k = 2])

lemma fec_hamming84_encode_nth:
  assumes "t < 2 * n"
  shows "fec_hamming84_encode n msg ! t = hamming84_enc_gentab ! unat (nibble msg t)"
proof -
  have t: "t = 2 * (t div 2) + t mod 2" "t div 2 < n" "t mod 2 < 2" using assms by auto
  have "fec_hamming84_encode n msg ! (2 * (t div 2) + t mod 2) =
      [hamming84_enc_gentab ! unat (nibble msg (2 * (t div 2))),
       hamming84_enc_gentab ! unat (nibble msg (Suc (2 * (t div 2))))] ! (t mod 2)"
    unfolding fec_hamming84_encode_def Let_def nibble_0 nibble_1
    by (rule nth_concat_uniform) (use t in auto)
  also have "\<dots> = hamming84_enc_gentab ! unat (nibble msg t)"
    by (cases "even t") (auto elim: evenE oddE)
  finally show ?thesis using t(1) by simp
qed

lemma and_255_u8: "(x :: u8) AND 0xff = x"
  by (rule bit_word_eqI) (simp only: bit_and_iff bit_u8_255, simp)

lemma fec_hamming84_corrects:
  assumes "length msg = n"
    and err: "\<And>t. t < 2 * n \<Longrightarrow> ones (fec_hamming84_encode n msg ! t XOR rx ! t) \<le> 1"
  shows "fec_hamming84_decode n rx = msg"
proof (rule nth_equalityI)
  fix i assume "i < length (fec_hamming84_decode n rx)"
  then have i: "2 * i < 2 * n" "Suc (2 * i) < 2 * n" by (simp_all add: fec_hamming84_decode_def)
  have dec: "hamming84_dec_gentab ! unat (rx ! t) = nibble msg t" if "t < 2 * n" for t
    using err [OF that] unfolding fec_hamming84_encode_nth [OF that]
    by (rule h84_table_correct [OF nibble_less])
  have "i < n" using i by simp
  then show "fec_hamming84_decode n rx ! i = msg ! i"
    using dec [OF i(1)] dec [OF i(2)] nibbles_byte [of msg i]
    by (simp add: fec_hamming84_decode_def Let_def and_255_u8)
qed (simp add: assms fec_hamming84_decode_def)

section \<open>Soft decoding\<close>

lemma mask_bit_u8:
  "(c :: u8) AND 0x80 \<noteq> 0 \<longleftrightarrow> bit c 7" "c AND 0x40 \<noteq> 0 \<longleftrightarrow> bit c 6"
  "c AND 0x20 \<noteq> 0 \<longleftrightarrow> bit c 5" "c AND 0x10 \<noteq> 0 \<longleftrightarrow> bit c 4"
  "c AND 0x08 \<noteq> 0 \<longleftrightarrow> bit c 3" "c AND 0x04 \<noteq> 0 \<longleftrightarrow> bit c 2"
  "c AND 0x02 \<noteq> 0 \<longleftrightarrow> bit c 1" "c AND 0x01 \<noteq> 0 \<longleftrightarrow> bit c 0"
  using and_exp_eq_0_iff_not_bit [of c 7] and_exp_eq_0_iff_not_bit [of c 6]
    and_exp_eq_0_iff_not_bit [of c 5] and_exp_eq_0_iff_not_bit [of c 4]
    and_exp_eq_0_iff_not_bit [of c 3] and_exp_eq_0_iff_not_bit [of c 2]
    and_exp_eq_0_iff_not_bit [of c 1] and_exp_eq_0_iff_not_bit [of c 0]
  by simp_all

lemma soft_term_hard: "soft_term c m (if q then 255 else 0) = 255 * of_bool ((c AND m \<noteq> 0) \<noteq> q)"
  by (simp add: soft_term_def)

lemma h74_metric_hard:
  assumes "\<And>i. i < 7 \<Longrightarrow> soft_bits ! i = (if bit r (6 - i) then 255 else 0)"
    and "\<not> bit (hamming74_enc_gentab ! s) 7" and "\<not> bit r 7"
  shows "h74_metric soft_bits s = 255 * ones (hamming74_enc_gentab ! s XOR r)"
  using assms(2,3) assms(1) [of 0] assms(1) [of 1] assms(1) [of 2] assms(1) [of 3] assms(1) [of 4]
    assms(1) [of 5] assms(1) [of 6]
  by (simp add: h74_metric_def Let_def soft_term_hard ones_u8 bit_xor_iff mask_bit_u8 [simplified]
      del: of_bool_eq_iff)

lemma h84_metric_hard:
  assumes "\<And>i. i < 8 \<Longrightarrow> soft_bits ! i = (if bit r (7 - i) then 255 else 0)"
  shows "h84_metric soft_bits s = 255 * ones (hamming84_enc_gentab ! s XOR r)"
  using assms [of 0] assms [of 1] assms [of 2] assms [of 3] assms [of 4]
    assms [of 5] assms [of 6] assms [of 7]
  by (simp add: h84_metric_def Let_def soft_term_hard ones_u8 bit_xor_iff mask_bit_u8 [simplified])

lemma unat_of_nat_16: "k < 16 \<Longrightarrow> unat (of_nat k :: u8) = k"
  by (simp add: unat_of_nat take_bit_nat_eq_self)

text \<open>The soft decoders give a symbol of least metric.\<close>

lemma fecsoft_hamming74_ml:
  "unat (fecsoft_hamming74_decode soft_bits) < 16"
  "s < 16 \<Longrightarrow> h74_metric soft_bits (unat (fecsoft_hamming74_decode soft_bits)) \<le> h74_metric soft_bits s"
  using soft_search_upt [where k = 16 and metric = "h74_metric soft_bits" and dmin = 0 and s_hat = 0]
  by (simp_all add: fecsoft_hamming74_decode_def unat_of_nat_16)

lemma fecsoft_hamming84_ml:
  "unat (fecsoft_hamming84_decode soft_bits) < 16"
  "s < 16 \<Longrightarrow> h84_metric soft_bits (unat (fecsoft_hamming84_decode soft_bits)) \<le> h84_metric soft_bits s"
  using soft_search_upt [where k = 16 and metric = "h84_metric soft_bits" and dmin = 0 and s_hat = 0]
  by (simp_all add: fecsoft_hamming84_decode_def unat_of_nat_16)

lemma h74_code_bit7: "\<not> bit (hamming74_enc_gentab ! s) 7" if "s < 16"
proof -
  have "list_all (\<lambda>a. \<not> bit (hamming74_enc_gentab ! a) 7) [0..<16]"
    unfolding upt_16 hamming74_enc_gentab_def by simp
  with that show ?thesis by (simp add: list_all_upt)
qed

text \<open>On hard decisions they agree with the tables wherever these correct.\<close>

lemma fecsoft_hamming74_hard:
  assumes "\<And>i. i < 7 \<Longrightarrow> soft_bits ! i = (if bit r (6 - i) then 255 else 0)" and "\<not> bit r 7"
    and "unat s < 16" and "ones (hamming74_enc_gentab ! unat s XOR r) \<le> 1"
  shows "fecsoft_hamming74_decode soft_bits = s"
proof -
  have "soft_search (h74_metric soft_bits) [0..<16] 0 0 = unat s"
    using assms(4) by (intro h74.soft_search_code [where r = r] assms(3))
      (auto intro!: h74_metric_hard assms(1,2) h74_code_bit7)
  then show ?thesis by (simp add: fecsoft_hamming74_decode_def)
qed

lemma fecsoft_hamming84_hard:
  assumes "\<And>i. i < 8 \<Longrightarrow> soft_bits ! i = (if bit r (7 - i) then 255 else 0)"
    and "unat s < 16" and "ones (hamming84_enc_gentab ! unat s XOR r) \<le> 1"
  shows "fecsoft_hamming84_decode soft_bits = s"
proof -
  have "soft_search (h84_metric soft_bits) [0..<16] 0 0 = unat s"
    using assms(3) by (intro h84.soft_search_code [where r = r] assms(2))
      (auto intro!: h84_metric_hard assms(1))
  then show ?thesis by (simp add: fecsoft_hamming84_decode_def)
qed

text \<open>
  The (7,4) soft decoder asserts that the bits it read fill the encoded array. The array is rounded
  up to whole bytes, so the assertion fails unless the message is a multiple of four bytes.
\<close>

lemma h74_soft_assert: "14 * n = 8 * ceil_div (14 * n) 8 \<longleftrightarrow> n mod 4 = 0"
proof -
  have "8 * ceil_div (14 * n) 8 = 14 * n \<longleftrightarrow> (14 * n) mod 8 = 0"
    using mult_div_mod_eq [of 8 "14 * n"] by (auto simp: ceil_div_def)
  also have "(14 * n) mod 8 = 0 \<longleftrightarrow> n mod 4 = 0" by presburger
  finally show ?thesis by metis
qed

lemma fec_hamming74_decode_soft_None:
  "n < msg_bound \<Longrightarrow> n mod 4 \<noteq> 0 \<Longrightarrow> fec_hamming74_decode_soft n soft = None"
  by (simp only: fec_hamming74_decode_soft_def h74_enc_len h74_soft_assert Let_def bind.bind_lunit) simp

lemma fec_hamming74_decode_soft_Some:
  "n < msg_bound \<Longrightarrow> n mod 4 = 0 \<Longrightarrow> fec_hamming74_decode_soft n soft =
    Some (map (\<lambda>i. push_bit 4 (fecsoft_hamming74_decode (drop (7 * (2 * i)) soft)) OR
      fecsoft_hamming74_decode (drop (7 * Suc (2 * i)) soft)) [0..<n])"
  by (simp only: fec_hamming74_decode_soft_def h74_enc_len h74_soft_assert Let_def bind.bind_lunit)
    (simp add: add.commute)

lemma fec_hamming74_soft_corrects:
  assumes "n < msg_bound" and "n mod 4 = 0" and "length msg = n" and "length msg_enc = ceil_div (14 * n) 8"
    and enc: "fec_hamming74_encode n msg msg_enc = Some out" and "length rx = length out"
    and err: "\<And>t. t < 2 * n \<Longrightarrow> stream_errors 7 out rx (7 * t) \<le> 1"
  shows "fec_hamming74_decode_soft n (soft_of rx) = Some msg"
proof -
  from fec_hamming74_encode_stream [OF assms(1,4), of msg] enc
  have words: "\<And>t. t < 2 * n \<Longrightarrow> stream_word 7 out (7 * t) = hamming74_enc_gentab ! unat (nibble msg t)"
    and len: "length out = ceil_div (14 * n) 8"
    by auto
  have dec: "fecsoft_hamming74_decode (drop (7 * t) (soft_of rx)) = nibble msg t" if t: "t < 2 * n" for t
  proof (rule fecsoft_hamming74_hard [OF _ _ nibble_less, where r = "stream_word 7 rx (7 * t)"])
    fix i :: nat assume i: "i < 7"
    have "7 * Suc t \<le> 7 * (2 * n)" using t by simp
    then have "7 * t + i < 8 * length rx"
      using i le_mult_ceil_div [of 8 "14 * n"] len assms(6) by simp
    then show "drop (7 * t) (soft_of rx) ! i = (if bit (stream_word 7 rx (7 * t) :: u8) (6 - i) then 255 else 0)"
      using i by (simp add: soft_of_nth bit_stream_word)
  next
    show "\<not> bit (stream_word 7 rx (7 * t) :: u8) 7" by (simp add: bit_stream_word)
    show "ones (hamming74_enc_gentab ! unat (nibble msg t) XOR stream_word 7 rx (7 * t)) \<le> 1"
      using stream_errors_ones [of 7 out "7 * t" rx, where 'a = 8] err [OF t] words [OF t] by simp
  qed
  have "map (\<lambda>i. push_bit 4 (nibble msg (2 * i)) OR nibble msg (Suc (2 * i))) [0..<n] = msg"
    using assms(3) by (intro nth_equalityI) (simp_all add: nibbles_byte)
  moreover have "2 * i < 2 * n" "Suc (2 * i) < 2 * n" if "i < n" for i using that by simp_all
  then have "map (\<lambda>i. push_bit 4 (fecsoft_hamming74_decode (drop (7 * (2 * i)) (soft_of rx))) OR
      fecsoft_hamming74_decode (drop (7 * Suc (2 * i)) (soft_of rx))) [0..<n] =
    map (\<lambda>i. push_bit 4 (nibble msg (2 * i)) OR nibble msg (Suc (2 * i))) [0..<n]"
    by (intro map_cong refl) (simp only: dec set_upt atLeastLessThan_iff)
  ultimately show ?thesis by (simp only: fec_hamming74_decode_soft_Some [OF assms(1,2)])
qed

lemma fec_hamming84_soft_corrects:
  assumes "n < msg_bound" and "length msg = n" and "length rx = 2 * n"
    and err: "\<And>t. t < 2 * n \<Longrightarrow> ones (fec_hamming84_encode n msg ! t XOR rx ! t) \<le> 1"
  shows "fec_hamming84_decode_soft n (soft_of rx) = Some msg"
proof -
  have len: "fec_block_get_enc_msg_len n 4 8 = Some (2 * n)"
    using fec_block_len [of n 4 8] assms(1) ceil_div_mult [of 4 "2 * n"] ceil_div_mult [of 8 "2 * n"]
    by (simp add: mult.commute)
  have dec: "fecsoft_hamming84_decode (drop (8 * t) (soft_of rx)) = nibble msg t" if t: "t < 2 * n" for t
  proof (rule fecsoft_hamming84_hard [OF _ nibble_less, where r = "rx ! t"])
    fix i :: nat assume i: "i < 8"
    show "drop (8 * t) (soft_of rx) ! i = (if bit (rx ! t) (7 - i) then 255 else 0)"
      using i t assms(3) soft_of_byte [of t rx i] by simp
  qed (use err [OF t] fec_hamming84_encode_nth [OF t] in simp)
  have "map (\<lambda>i. push_bit 4 (nibble msg (2 * i)) OR nibble msg (Suc (2 * i))) [0..<n] = msg"
    using assms(2) by (intro nth_equalityI) (simp_all add: nibbles_byte)
  moreover have "2 * i < 2 * n" "Suc (2 * i) < 2 * n" if "i < n" for i using that by simp_all
  then have "map (\<lambda>i. push_bit 4 (fecsoft_hamming84_decode (drop (8 * (2 * i)) (soft_of rx))) OR
      fecsoft_hamming84_decode (drop (8 * Suc (2 * i)) (soft_of rx))) [0..<n] =
    map (\<lambda>i. push_bit 4 (nibble msg (2 * i)) OR nibble msg (Suc (2 * i))) [0..<n]"
    by (intro map_cong refl) (simp only: dec set_upt atLeastLessThan_iff)
  ultimately have "map (\<lambda>i. push_bit 4 (fecsoft_hamming84_decode (drop (8 * (2 * i)) (soft_of rx))) OR
      fecsoft_hamming84_decode (drop (8 * Suc (2 * i)) (soft_of rx))) [0..<n] = msg" by (simp only:)
  then show ?thesis by (simp add: fec_hamming84_decode_soft_def len Let_def add.commute)
qed

section \<open>Properties\<close>

text \<open>Hamming(7,4) and Hamming(8,4) decoding is maximum-likelihood. For every received word the decoding
  table gives a symbol whose code word is at the least Hamming distance among all sixteen, and the soft
  decoders give a symbol of least soft metric.\<close>
theorem hamming_tables_maximum_likelihood:
  assumes "s < 16" and "unat (r :: u8) < 128"
  shows "ones (hamming74_enc_gentab ! unat (hamming74_dec_gentab ! unat r) XOR r)
      \<le> ones (hamming74_enc_gentab ! s XOR r) \<and>
    ones (hamming84_enc_gentab ! unat (hamming84_dec_gentab ! unat r') XOR r')
      \<le> ones (hamming84_enc_gentab ! s XOR r') \<and>
    h74_metric soft_bits (unat (fecsoft_hamming74_decode soft_bits)) \<le> h74_metric soft_bits s \<and>
    h84_metric soft_bits (unat (fecsoft_hamming84_decode soft_bits)) \<le> h84_metric soft_bits s"
  using h74_table_ml [OF assms(2,1)] h84_table_ml [OF assms(1), of r']
    fecsoft_hamming74_ml(2) [OF assms(1)] fecsoft_hamming84_ml(2) [OF assms(1)]
  by blast

theorem hamming_tables_maximum_likelihood_witness:
  "ones (hamming74_enc_gentab ! unat (hamming74_dec_gentab ! unat (0x29 :: u8)) XOR 0x29)
      \<le> ones (hamming74_enc_gentab ! 5 XOR 0x29) \<and>
    ones (hamming84_enc_gentab ! unat (hamming84_dec_gentab ! unat (0xa5 :: u8)) XOR 0xa5)
      \<le> ones (hamming84_enc_gentab ! 5 XOR 0xa5) \<and>
    h74_metric [9, 200, 31, 127, 128, 255, 0, 64] (unat (fecsoft_hamming74_decode [9, 200, 31, 127, 128, 255, 0, 64])) \<le> h74_metric [9, 200, 31, 127, 128, 255, 0, 64] 5 \<and>
    h84_metric [9, 200, 31, 127, 128, 255, 0, 64] (unat (fecsoft_hamming84_decode [9, 200, 31, 127, 128, 255, 0, 64])) \<le> h84_metric [9, 200, 31, 127, 128, 255, 0, 64] 5"
  by (rule hamming_tables_maximum_likelihood) simp_all

text \<open>C26: Hamming(7,4) corrects one error per symbol. Whatever the output array held before encoding, a
  received array in which each 7-bit block carries at most one wrong bit decodes to the message, for every
  message of fewer than \<open>2 ^ 26\<close> bytes; no packing or unpacking step aborts.\<close>
theorem hamming74_corrects_single_errors:
  assumes "n < msg_bound" and "length msg = n" and "length msg_enc = ceil_div (14 * n) 8"
  shows "\<exists>out. fec_hamming74_encode n msg msg_enc = Some out \<and> length out = ceil_div (14 * n) 8 \<and>
    (\<forall>rx. (\<forall>t < 2 * n. stream_errors 7 out rx (7 * t) \<le> 1) \<longrightarrow> fec_hamming74_decode n rx = Some msg)"
  using fec_hamming74_encode_stream [OF assms(1,3), of msg] fec_hamming74_corrects [OF assms] by blast

theorem hamming74_corrects_single_errors_witness:
  "\<exists>out. fec_hamming74_encode 2 [0x3c, 0xf1] [9, 9, 9, 9] = Some out \<and> length out = ceil_div (14 * 2) 8 \<and>
    (\<forall>rx. (\<forall>t < 2 * 2. stream_errors 7 out rx (7 * t) \<le> 1) \<longrightarrow> fec_hamming74_decode 2 rx = Some [0x3c, 0xf1])"
  by (rule hamming74_corrects_single_errors) (simp_all add: ceil_div_def)

text \<open>C27: The soft decoder of Hamming(7,4) ends in its assertion for every message whose length is not a
  multiple of four bytes, and decodes correctly otherwise: the bits it consumes are compared with the length
  of the encoded array in whole bytes, which is rounded up.\<close>
theorem hamming74_soft_assertion:
  assumes "n < msg_bound" and "length msg = n" and "length msg_enc = ceil_div (14 * n) 8"
  shows "\<exists>out. fec_hamming74_encode n msg msg_enc = Some out \<and>
    fec_hamming74_decode_soft n (soft_of out) = (if n mod 4 = 0 then Some msg else None)"
proof -
  obtain out where out: "fec_hamming74_encode n msg msg_enc = Some out"
    using fec_hamming74_encode_stream [OF assms(1,3)] by blast
  have "stream_errors 7 out out (7 * t) \<le> 1" for t by (simp add: stream_errors_same)
  then show ?thesis
    using out fec_hamming74_soft_corrects [OF assms(1) _ assms(2,3) out refl]
      fec_hamming74_decode_soft_None [OF assms(1)] by simp
qed

theorem hamming74_soft_assertion_witness:
  "\<exists>out. fec_hamming74_encode 3 [1, 2, 3] [0, 0, 0, 0, 0, 0] = Some out \<and>
    fec_hamming74_decode_soft 3 (soft_of out) = (if (3 :: nat) mod 4 = 0 then Some [1, 2, 3] else None)"
  by (rule hamming74_soft_assertion) (simp_all add: ceil_div_def)

end
