(* ===== verification/Fec_Golay.thy ===== *)
theory Fec_Golay
  imports Block_Codes Fec_Scheme
begin

unbundle bit_operations_syntax

text \<open>
  \<^verbatim>\<open>liquid_dsp/src/fec/src/fec_golay2412.c\<close>: the extended Golay code. The decoder estimates the
  error from the syndrome in eight steps; the central result is that it recovers the symbol from
  any word with at most three wrong bits. The argument is algebraic: the matrix \<open>P\<close> is symmetric
  and its own inverse over GF(2), and a combination of up to four of its rows has enough ones.
\<close>

section \<open>Operations\<close>

definition golay2412_P :: "u32 list" where
  "golay2412_P = [
    0x08ed, 0x01db, 0x03b5, 0x0769,
    0x0ed1, 0x0da3, 0x0b47, 0x068f,
    0x0d1d, 0x0a3b, 0x0477, 0x0ffe]"

definition golay2412_Gt :: "u32 list" where
  "golay2412_Gt = [
    0x08ed, 0x01db, 0x03b5, 0x0769, 0x0ed1, 0x0da3, 0x0b47, 0x068f,
    0x0d1d, 0x0a3b, 0x0477, 0x0ffe, 0x0800, 0x0400, 0x0200, 0x0100,
    0x0080, 0x0040, 0x0020, 0x0010, 0x0008, 0x0004, 0x0002, 0x0001]"

definition golay2412_H :: "u32 list" where
  "golay2412_H = [
    0x008008ed, 0x004001db, 0x002003b5, 0x00100769,
    0x00080ed1, 0x00040da3, 0x00020b47, 0x0001068f,
    0x00008d1d, 0x00004a3b, 0x00002477, 0x00001ffe]"

fun golay2412_mul_loop :: "u32 \<Rightarrow> u32 list \<Rightarrow> nat list \<Rightarrow> u32 \<Rightarrow> u32" where
  "golay2412_mul_loop v A [] x = x"
| "golay2412_mul_loop v A (i # is) x =
     (let x = push_bit 1 x;
          p = A ! i AND v;
          c = liquid_c_ones ! unat (p AND 0xff);
          p = drop_bit 8 p;
          c = c + liquid_c_ones ! unat (p AND 0xff);
          p = drop_bit 8 p;
          c = c + liquid_c_ones ! unat (p AND 0xff)
      in golay2412_mul_loop v A is (x OR (of_nat c AND 0x0001)))"

definition golay2412_matrix_mul :: "u32 \<Rightarrow> u32 list \<Rightarrow> nat \<Rightarrow> u32" where
  "golay2412_matrix_mul v A n = golay2412_mul_loop v A [0..<n] 0"

definition fec_golay2412_encode_symbol :: "u32 \<Rightarrow> u32 option" where
  "fec_golay2412_encode_symbol sym_dec =
     (if sym_dec \<ge> push_bit 12 1 then None
      else Some (golay2412_matrix_mul sym_dec golay2412_Gt 24))"

fun golay2412_search_loop :: "u32 \<Rightarrow> nat list \<Rightarrow> int" where
  "golay2412_search_loop v [] = - 1"
| "golay2412_search_loop v (i # is) =
     (let p = v XOR golay2412_P ! i;
          wj = liquid_c_ones ! unat (p AND 0xff) + liquid_c_ones ! unat (drop_bit 8 p AND 0xff)
      in if wj \<le> 2 then int i else golay2412_search_loop v is)"

definition golay2412_parity_search :: "u32 \<Rightarrow> int" where
  "golay2412_parity_search v = golay2412_search_loop v [0..<12]"

text \<open>The estimated error of steps 2 to 7, from the syndrome.\<close>

definition golay2412_error :: "u32 \<Rightarrow> u32" where
  "golay2412_error s =
     (let ws = liquid_count_ones_uint16 s
      in if ws \<le> 3 then push_bit 12 s AND 0xfff000
         else let s_index = golay2412_parity_search s
              in if s_index \<ge> 0
                 then push_bit 12 (s XOR golay2412_P ! nat s_index) OR push_bit (11 - nat s_index) 1
                 else let sP = golay2412_matrix_mul s golay2412_P 12;
                          wsP = liquid_count_ones_uint16 sP
                      in if wsP = 2 \<or> wsP = 3 then sP
                         else let sP_index = golay2412_parity_search sP
                              in if sP_index \<ge> 0
                                 then push_bit (23 - nat sP_index) 1 OR (sP XOR golay2412_P ! nat sP_index)
                                 else 0)"

definition fec_golay2412_decode_symbol :: "u32 \<Rightarrow> u32 option" where
  "fec_golay2412_decode_symbol sym_enc =
     (if sym_enc \<ge> push_bit 24 1 then None
      else let s = golay2412_matrix_mul sym_enc golay2412_H 12;
               e_hat = golay2412_error s;
               v_hat = sym_enc XOR e_hat
           in Some (v_hat AND 0x0fff))"

text \<open>The three bytes of a 24-bit word.\<close>

definition golay_bytes :: "u32 \<Rightarrow> bytes" where
  "golay_bytes v = [ucast (drop_bit 16 v AND 0xff), ucast (drop_bit 8 v AND 0xff), ucast (v AND 0xff)]"

definition golay_word :: "u8 \<Rightarrow> u8 \<Rightarrow> u8 \<Rightarrow> u32" where
  "golay_word r0 r1 r2 =
     (push_bit 16 (ucast r0) AND 0xff0000) OR (push_bit 8 (ucast r1) AND 0x00ff00) OR
     (ucast r2 AND 0x0000ff)"

definition fec_golay2412_encode :: "nat \<Rightarrow> bytes \<Rightarrow> bytes option" where
  "fec_golay2412_encode n msg_dec = do {
     let r = n mod 3;
     blocks \<leftarrow> for_append [0..<(n - r) div 3] (\<lambda>t. let i = 3 * t;
         s0 = ucast (msg_dec ! (i + 0)) :: u32;
         s1 = ucast (msg_dec ! (i + 1)) :: u32;
         s2 = ucast (msg_dec ! (i + 2)) :: u32;
         m0 = (push_bit 4 s0 AND 0x0ff0) OR (drop_bit 4 s1 AND 0x000f);
         m1 = (push_bit 8 s1 AND 0x0f00) OR (s2 AND 0x00ff)
       in do {
         v0 \<leftarrow> fec_golay2412_encode_symbol m0;
         v1 \<leftarrow> fec_golay2412_encode_symbol m1;
         Some (golay_bytes v0 @ golay_bytes v1)
       });
     tail \<leftarrow> for_append [n - r..<n] (\<lambda>i. let m0 = ucast (msg_dec ! i) in do {
         v0 \<leftarrow> fec_golay2412_encode_symbol m0;
         Some (golay_bytes v0)
       });
     enc_msg_len \<leftarrow> fec_get_enc_msg_length FEC_GOLAY2412 n;
     let msg_enc = blocks @ tail in
     if length msg_enc = enc_msg_len then Some msg_enc else None
   }"

definition fec_golay2412_decode :: "nat \<Rightarrow> bytes \<Rightarrow> bytes option" where
  "fec_golay2412_decode n msg_enc = do {
     let r = n mod 3;
     blocks \<leftarrow> for_append [0..<(n - r) div 3] (\<lambda>t. let j = 6 * t;
         v0 = golay_word (msg_enc ! (j + 0)) (msg_enc ! (j + 1)) (msg_enc ! (j + 2));
         v1 = golay_word (msg_enc ! (j + 3)) (msg_enc ! (j + 4)) (msg_enc ! (j + 5))
       in do {
         m0_hat \<leftarrow> fec_golay2412_decode_symbol v0;
         m1_hat \<leftarrow> fec_golay2412_decode_symbol v1;
         Some [ucast (drop_bit 4 m0_hat AND 0xff),
               ucast ((push_bit 4 m0_hat AND 0xf0) OR (drop_bit 8 m1_hat AND 0x0f)),
               ucast (m1_hat AND 0xff)]
       });
     let j0 = 6 * ((n - r) div 3);
     tail \<leftarrow> for_append [0..<r] (\<lambda>t. let j = j0 + 3 * t;
         v0 = golay_word (msg_enc ! (j + 0)) (msg_enc ! (j + 1)) (msg_enc ! (j + 2))
       in do {
         m0_hat \<leftarrow> fec_golay2412_decode_symbol v0;
         Some [ucast (m0_hat AND 0xff)]
       });
     enc_msg_len \<leftarrow> fec_get_enc_msg_length FEC_GOLAY2412 n;
     if j0 + 3 * r = enc_msg_len then Some (blocks @ tail) else None
   }"

section \<open>Multiplication by a matrix\<close>

lemma ones_24_split: "ones (take_bit 24 x :: u32) =
    ones (ucast x :: u8) + ones (ucast (drop_bit 8 x) :: u8) + ones (ucast (drop_bit 16 x) :: u8)"
  using liquid_count_ones_uint24_ones [of x]
  by (simp only: liquid_count_ones_uint24_def liquid_c_ones_lookup)

lemma of_nat_and_1: "of_nat c AND (1 :: u32) = of_bool (odd c)"
  by (simp add: and_one_eq mod_2_eq_odd)

text \<open>Row \<open>i\<close> of the matrix against the 24 low bits of the vector.\<close>

definition row_parity :: "u32 \<Rightarrow> u32 \<Rightarrow> bool" where
  "row_parity a v \<longleftrightarrow> parity_of (take_bit 24 (a AND v))"

lemma golay2412_mul_step:
  "golay2412_mul_loop v A (i # is) x =
     golay2412_mul_loop v A is (push_bit 1 x OR of_bool (row_parity (A ! i) v))"
proof -
  have drop: "drop_bit 8 (drop_bit 8 p) = drop_bit 16 p" for p :: u32 by simp
  show ?thesis
    by (simp only: golay2412_mul_loop.simps Let_def liquid_c_ones_lookup of_nat_and_1 row_parity_def
        parity_of_def ones_24_split drop)
qed

lemma bit_mul_loop:
  assumes "length is \<le> 32"
  shows "bit (golay2412_mul_loop v A is x) j \<longleftrightarrow>
    (if j < length is then row_parity (A ! (is ! (length is - 1 - j))) v
     else j < 32 \<and> bit x (j - length is))"
  using assms
proof (induction "is" arbitrary: x)
  case Nil
  then show ?case by (auto dest: bit_imp_le_length)
next
  case (Cons i "is")
  let ?x = "push_bit 1 x OR of_bool (row_parity (A ! i) v)"
  have x0: "bit ?x 0 \<longleftrightarrow> row_parity (A ! i) v"
    by (simp only: bit_or_iff bit_push_bit_iff bit_of_bool_iff) simp
  have xS: "bit ?x (Suc k) \<longleftrightarrow> Suc k < 32 \<and> bit x k" for k
    by (simp only: bit_or_iff bit_push_bit_iff bit_of_bool_iff) simp
  have run: "bit (golay2412_mul_loop v A (i # is) x) j \<longleftrightarrow>
      (if j < length is then row_parity (A ! (is ! (length is - 1 - j))) v
       else j < 32 \<and> bit ?x (j - length is))"
    unfolding golay2412_mul_step using Cons.prems by (intro Cons.IH) simp
  consider "j < length is" | "j = length is" | "length is < j" by linarith
  then show ?case
  proof cases
    case 1
    then have "length is - j = Suc (length is - 1 - j)" by simp
    with 1 show ?thesis unfolding run by simp
  next
    case 2
    with Cons.prems x0 show ?thesis unfolding run by simp
  next
    case 3
    then obtain k where k: "j = Suc (length is + k)" using less_imp_Suc_add by blast
    then have d: "j - length is = Suc k" "j - length (i # is) = k" "\<not> j < length is" by simp_all
    have "bit (golay2412_mul_loop v A (i # is) x) j \<longleftrightarrow> j < 32 \<and> Suc k < 32 \<and> bit x k"
      unfolding run d(1) xS using d(3) by (simp only: if_False)
    then show ?thesis using 3 k d(2) by auto
  qed
qed

lemma bit_matrix_mul:
  assumes "n \<le> 32"
  shows "bit (golay2412_matrix_mul v A n) j \<longleftrightarrow> j < n \<and> row_parity (A ! (n - 1 - j)) v"
  using assms bit_mul_loop [of "[0..<n]" v A 0 j] by (auto simp: golay2412_matrix_mul_def)

lemma row_parity_xor: "row_parity a (v XOR w) \<longleftrightarrow> (row_parity a v \<noteq> row_parity a w)"
  unfolding row_parity_def and_xor_distrib take_bit_xor parity_of_xor ..

lemma matrix_mul_xor:
  assumes "n \<le> 32"
  shows "golay2412_matrix_mul (v XOR w) A n = golay2412_matrix_mul v A n XOR golay2412_matrix_mul w A n"
  by (rule bit_word_eqI) (auto simp: bit_matrix_mul [OF assms] bit_xor_iff row_parity_xor)

section \<open>The matrix\<close>

text \<open>Twelve-bit vectors times \<open>P\<close>.\<close>

abbreviation mulP :: "u32 \<Rightarrow> u32" where
  "mulP v \<equiv> golay2412_matrix_mul v golay2412_P 12"

definition unit12 :: "nat \<Rightarrow> u32" where
  "unit12 i = push_bit (11 - i) 1"

lemma upt_12: "[0..<12] = [0, 1, 2, 3, 4, 5, 6, 7, 8, 9, 10, 11 :: nat]"
  by code_simp

lemma upt_24: "[0..<24] = [0, 1, 2, 3, 4, 5, 6, 7, 8, 9, 10, 11, 12, 13, 14, 15, 16, 17, 18, 19, 20, 21, 22, 23 :: nat]"
  by code_simp

lemma row_parity_unit: "k < 24 \<Longrightarrow> row_parity a (push_bit k 1) \<longleftrightarrow> bit a k"
proof -
  assume k: "k < 24"
  have "take_bit 24 (a AND push_bit k 1) = (if bit a k then push_bit k 1 else 0)"
    using k by (intro bit_word_eqI)
      (auto simp: bit_take_bit_iff bit_and_iff bit_exp_word simp del: push_bit_of_1)
  then show ?thesis using ones_exp [of k, where 'a = 32] k by (simp add: row_parity_def parity_of_def del: push_bit_of_1 take_bit_and)
qed

text \<open>The weight of a vector that fits 12 bits.\<close>

definition w12 :: "u32 \<Rightarrow> nat" where
  "w12 x = of_bool (bit x 0) + of_bool (bit x 1) + of_bool (bit x 2) + of_bool (bit x 3) +
     of_bool (bit x 4) + of_bool (bit x 5) + of_bool (bit x 6) + of_bool (bit x 7) +
     of_bool (bit x 8) + of_bool (bit x 9) + of_bool (bit x 10) + of_bool (bit x 11)"

lemma ones_w12: "ones (take_bit 12 x :: u32) = w12 x"
proof -
  have "ones (take_bit 12 x) = length (filter (bit x) [0, 1, 2, 3, 4, 5, 6, 7, 8, 9, 10, 11])"
    using ones_take_bit [of 12 x] by (simp only: upt_12 [symmetric]) simp
  then show ?thesis by (simp only: filter_length_Cons filter.simps list.size w12_def) simp
qed

lemma P_symmetric_check:
  "list_all (\<lambda>i. list_all (\<lambda>j. bit (golay2412_P ! j) (11 - i) = bit (golay2412_P ! i) (11 - j)) [0..<12]) [0..<12]"
  unfolding upt_12 golay2412_P_def by simp

lemma P_orthogonal_check:
  "list_all (\<lambda>i. list_all (\<lambda>j. odd (w12 (golay2412_P ! i AND golay2412_P ! j)) = (i = j)) [0..<12]) [0..<12]"
  unfolding upt_12 golay2412_P_def by (simp add: w12_def)

lemma P_fits_check: "list_all (\<lambda>i. take_bit 12 (golay2412_P ! i) = golay2412_P ! i) [0..<12]"
  unfolding upt_12 golay2412_P_def by simp

lemma P_facts:
  assumes "i < 12"
  shows P_symmetric: "j < 12 \<Longrightarrow> bit (golay2412_P ! j) (11 - i) = bit (golay2412_P ! i) (11 - j)"
    and P_orthogonal: "j < 12 \<Longrightarrow> row_parity (golay2412_P ! i) (golay2412_P ! j) \<longleftrightarrow> i = j"
    and P_take: "take_bit 12 (golay2412_P ! i) = golay2412_P ! i"
proof -
  show take: "take_bit 12 (golay2412_P ! i) = golay2412_P ! i"
    using P_fits_check assms by (simp only: list_all_upt)
  show "j < 12 \<Longrightarrow> bit (golay2412_P ! j) (11 - i) = bit (golay2412_P ! i) (11 - j)"
    using P_symmetric_check assms by (simp only: list_all_upt)
  have "take_bit 24 (golay2412_P ! i AND v) = take_bit 12 (golay2412_P ! i AND v)" for v
    by (subst (1 2) take [symmetric]) (auto intro!: bit_word_eqI simp: bit_simps)
  moreover have "j < 12 \<Longrightarrow> odd (w12 (golay2412_P ! i AND golay2412_P ! j)) = (i = j)"
    using P_orthogonal_check assms by (simp only: list_all_upt)
  ultimately show "j < 12 \<Longrightarrow> row_parity (golay2412_P ! i) (golay2412_P ! j) \<longleftrightarrow> i = j"
    by (simp only: row_parity_def parity_of_def ones_w12)
qed

lemma mulP_xor: "mulP (v XOR w) = mulP v XOR mulP w"
  by (rule matrix_mul_xor) simp

lemma mulP_0 [simp]: "mulP 0 = 0"
  by (rule bit_word_eqI) (simp add: bit_matrix_mul row_parity_def)

lemma take_bit_mulP: "take_bit 12 (mulP v) = mulP v"
  by (rule bit_word_eqI) (auto simp: bit_take_bit_iff bit_matrix_mul)

lemma mulP_unit: "i < 12 \<Longrightarrow> mulP (unit12 i) = golay2412_P ! i"
proof (rule bit_word_eqI)
  fix j assume i: "i < 12" and "j < LENGTH(32)"
  show "bit (mulP (unit12 i)) j = bit (golay2412_P ! i) j"
  proof (cases "j < 12")
    case True
    then show ?thesis
      using i row_parity_unit [of "11 - i"] P_symmetric [of i "11 - j"]
      by (simp add: bit_matrix_mul unit12_def del: push_bit_of_1)
  next
    case False
    have "bit (take_bit 12 (golay2412_P ! i)) j \<longleftrightarrow> False" using False by (simp add: bit_take_bit_iff)
    then show ?thesis using False by (simp add: bit_matrix_mul P_take [OF i])
  qed
qed

lemma mulP_row: "i < 12 \<Longrightarrow> mulP (golay2412_P ! i) = unit12 i"
proof (rule bit_word_eqI)
  fix j assume i: "i < 12" and "j < LENGTH(32)"
  show "bit (mulP (golay2412_P ! i)) j = bit (unit12 i) j"
    using i P_orthogonal [of "11 - j" i]
    by (auto simp: bit_matrix_mul unit12_def bit_exp_word simp del: push_bit_of_1)
qed

text \<open>Every 12-bit vector is the sum of its units, so \<open>P\<close> is its own inverse.\<close>

definition unit_sum :: "nat list \<Rightarrow> u32" where
  "unit_sum is = foldr (\<lambda>i x. unit12 i XOR x) is 0"

lemma unit_sum_simps [simp]: "unit_sum [] = 0" "unit_sum (i # is) = unit12 i XOR unit_sum is"
  by (simp_all add: unit_sum_def)

lemma bit_unit_sum:
  "distinct is \<Longrightarrow> set is \<subseteq> {0..<12} \<Longrightarrow> bit (unit_sum is) j \<longleftrightarrow> j < 12 \<and> 11 - j \<in> set is"
proof (induction "is")
  case (Cons i "is")
  then have "i < 12" by simp
  then have "bit (unit12 i) j \<longleftrightarrow> j < 12 \<and> 11 - j = i"
    by (auto simp: unit12_def bit_exp_word simp del: push_bit_of_1)
  with Cons show ?case by (auto simp: bit_xor_iff)
qed simp

definition support12 :: "u32 \<Rightarrow> nat list" where
  "support12 x = filter (\<lambda>i. bit x (11 - i)) [0..<12]"

lemma unit_sum_support:
  assumes "take_bit 12 x = x" shows "unit_sum (support12 x) = x"
proof (rule bit_word_eqI)
  fix j
  have "bit (unit_sum (support12 x)) j \<longleftrightarrow> j < 12 \<and> bit x j"
    by (subst bit_unit_sum) (auto simp: support12_def)
  then show "bit (unit_sum (support12 x)) j = bit x j" using assms by (metis bit_take_bit_iff)
qed

lemma support12_subset: "set (support12 x) \<subseteq> {0..<12}"
  by (auto simp: support12_def)

lemma length_support12: "length (support12 x) = ones (take_bit 12 x :: u32)"
proof -
  have "length (filter (bit x) [0..<12]) = length (filter (bit x) (rev [0..<12]))"
    by (metis length_rev rev_filter)
  also have "rev [0..<12] = map (\<lambda>i. 11 - i) [0..<12]" using rev_upt_conv [of 12] by simp
  finally show ?thesis by (simp add: ones_take_bit support12_def filter_map comp_def)
qed

lemma mulP_unit_sum_invol: "set is \<subseteq> {0..<12} \<Longrightarrow> mulP (mulP (unit_sum is)) = unit_sum is"
  by (induction "is") (simp_all add: mulP_xor mulP_unit mulP_row)

lemma mulP_invol: "take_bit 12 x = x \<Longrightarrow> mulP (mulP x) = x"
  using mulP_unit_sum_invol [OF support12_subset, of x] by (simp add: unit_sum_support)

section \<open>Minimum distance\<close>

text \<open>The sums of up to four rows, checked along the list of rows on their bits.\<close>

fun bxor :: "bool list \<Rightarrow> bool list \<Rightarrow> bool list" where
  "bxor (a # as) (b # bs) = (a \<noteq> b) # bxor as bs"
| "bxor _ _ = []"

fun heavier :: "nat \<Rightarrow> bool list \<Rightarrow> bool" where
  "heavier 0 bs = True"
| "heavier (Suc k) [] = False"
| "heavier (Suc k) (b # bs) = (if b then heavier k bs else heavier (Suc k) bs)"

fun rows_heavy :: "nat \<Rightarrow> bool list \<Rightarrow> bool list list \<Rightarrow> bool" where
  "rows_heavy 0 acc ps = True"
| "rows_heavy (Suc d) acc [] = True"
| "rows_heavy (Suc d) acc (p # ps) =
     (let q = bxor acc p
      in heavier (Suc (Suc (Suc (Suc d)))) q \<and> rows_heavy d q ps \<and> rows_heavy (Suc d) acc ps)"

definition bits12 :: "u32 \<Rightarrow> bool list" where
  "bits12 x = map (bit x) [0..<12]"

lemma bits12_P: "map bits12 golay2412_P = [
    [True, False, True, True, False, True, True, True, False, False, False, True],
    [True, True, False, True, True, False, True, True, True, False, False, False],
    [True, False, True, False, True, True, False, True, True, True, False, False],
    [True, False, False, True, False, True, True, False, True, True, True, False],
    [True, False, False, False, True, False, True, True, False, True, True, True],
    [True, True, False, False, False, True, False, True, True, False, True, True],
    [True, True, True, False, False, False, True, False, True, True, False, True],
    [True, True, True, True, False, False, False, True, False, True, True, False],
    [True, False, True, True, True, False, False, False, True, False, True, True],
    [True, True, False, True, True, True, False, False, False, True, False, True],
    [True, True, True, False, True, True, True, False, False, False, True, False],
    [False, True, True, True, True, True, True, True, True, True, True, True]]"
  unfolding bits12_def upt_12 golay2412_P_def by simp

lemma P_rows_heavy: "rows_heavy (Suc (Suc (Suc (Suc 0)))) (replicate 12 False) (map bits12 golay2412_P)"
  unfolding bits12_P by code_simp

lemma heavier_iff: "heavier k bs \<longleftrightarrow> k \<le> length (filter id bs)"
  by (induction k bs rule: heavier.induct) auto

lemma bxor_bits12: "bxor (bits12 x) (bits12 y) = bits12 (x XOR y)"
  by (simp add: bits12_def upt_12 bit_xor_iff)

lemma bits12_0: "bits12 0 = replicate 12 False"
  by (rule nth_equalityI) (simp_all add: bits12_def)

lemma heavier_bits12: "heavier k (bits12 x) \<longleftrightarrow> k \<le> ones (take_bit 12 x)"
  by (simp add: heavier_iff bits12_def filter_map comp_def ones_take_bit)

lemma rows_heavy_filter:
  "rows_heavy d (bits12 acc) (map bits12 (map f is)) \<Longrightarrow> filter Q is \<noteq> [] \<Longrightarrow>
   length (filter Q is) \<le> d \<Longrightarrow>
   4 + d \<le> ones (take_bit 12 (acc XOR foldr (\<lambda>i x. f i XOR x) (filter Q is) 0)) + length (filter Q is)"
proof (induction "is" arbitrary: d acc)
  case (Cons i "is")
  show ?case
  proof (cases d)
    case 0
    with Cons.prems show ?thesis by simp
  next
    case (Suc e)
    have heavy: "4 + e \<le> ones (take_bit 12 (acc XOR f i))"
      and deep: "rows_heavy e (bits12 (acc XOR f i)) (map bits12 (map f is))"
      and rest: "rows_heavy d (bits12 acc) (map bits12 (map f is))"
      using Cons.prems(1) by (simp_all add: Suc bxor_bits12 Let_def heavier_bits12)
    show ?thesis
    proof (cases "Q i")
      case True
      show ?thesis
      proof (cases "filter Q is = []")
        case True
        with \<open>Q i\<close> heavy Suc show ?thesis by simp
      next
        case False
        have "4 + e \<le> ones (take_bit 12 ((acc XOR f i) XOR foldr (\<lambda>i x. f i XOR x) (filter Q is) 0)) +
            length (filter Q is)"
          using Cons.prems(3) True Suc by (intro Cons.IH [OF deep False]) simp
        with True Suc show ?thesis by (simp add: xor.assoc)
      qed
    next
      case False
      with Cons.prems rest show ?thesis by (intro Cons.IH [THEN le_trans]) auto
    qed
  qed
qed simp

lemma mulP_unit_sum: "set is \<subseteq> {0..<12} \<Longrightarrow> mulP (unit_sum is) = foldr (\<lambda>i x. golay2412_P ! i XOR x) is 0"
  by (induction "is") (simp_all add: mulP_xor mulP_unit)

text \<open>The minimum distance of the code: 8.\<close>

lemma mulP_weight:
  assumes "take_bit 12 x = x" and "x \<noteq> 0" and "ones x \<le> 4"
  shows "8 \<le> ones (mulP x) + ones x"
proof -
  have P: "golay2412_P = map ((!) golay2412_P) [0..<12]"
    by (rule nth_equalityI) (simp_all add: golay2412_P_def)
  have len: "length (support12 x) = ones x" by (simp add: length_support12 assms(1))
  have ne: "support12 x \<noteq> []"
    using len assms(2) ones_eq_0_iff [of x] by auto
  have "mulP x = foldr (\<lambda>i x. golay2412_P ! i XOR x) (support12 x) 0"
    using mulP_unit_sum [OF support12_subset, of x] by (simp add: unit_sum_support [OF assms(1)])
  moreover have "rows_heavy (Suc (Suc (Suc (Suc 0)))) (bits12 0) (map bits12 (map ((!) golay2412_P) [0..<12]))"
    using P_rows_heavy unfolding bits12_0 P [symmetric] .
  from rows_heavy_filter [OF this, of "\<lambda>i. bit x (11 - i)"]
  have "8 \<le> ones (take_bit 12 (foldr (\<lambda>i x. golay2412_P ! i XOR x) (support12 x) 0)) + ones x"
    using ne len assms(3) by (simp add: support12_def)
  ultimately show ?thesis by (metis take_bit_mulP)
qed

section \<open>Code words and syndromes\<close>

lemma row_parity_comm: "row_parity a v \<longleftrightarrow> row_parity v a"
  by (simp add: row_parity_def and.commute)

lemma unit_row_parity: "k < 24 \<Longrightarrow> row_parity (push_bit k 1) v \<longleftrightarrow> bit v k"
  using row_parity_unit row_parity_comm by blast

lemma Gt_check: "list_all (\<lambda>i. golay2412_Gt ! i = golay2412_P ! i \<and>
    golay2412_Gt ! (12 + i) = push_bit (11 - i) 1) [0..<12]"
  unfolding upt_12 golay2412_Gt_def golay2412_P_def by simp

lemma H_check: "list_all (\<lambda>i. golay2412_H ! i = push_bit (23 - i) 1 XOR golay2412_P ! i) [0..<12]"
  unfolding upt_12 golay2412_H_def golay2412_P_def by simp

text \<open>A code word is the parity half above the symbol.\<close>

definition golay_code :: "u32 \<Rightarrow> u32" where
  "golay_code m = push_bit 12 (mulP m) XOR m"

lemma matrix_mul_Gt:
  assumes "take_bit 12 m = m"
  shows "golay2412_matrix_mul m golay2412_Gt 24 = golay_code m"
proof (rule bit_word_eqI)
  fix j assume "j < LENGTH(32)"
  have bit_m: "bit m j \<Longrightarrow> j < 12" using assms by (metis bit_take_bit_iff)
  have Gt: "i < 12 \<Longrightarrow> golay2412_Gt ! i = golay2412_P ! i"
    "i < 12 \<Longrightarrow> golay2412_Gt ! (12 + i) = push_bit (11 - i) 1" for i
    using Gt_check by (simp_all only: list_all_upt)
  consider "j < 12" | "12 \<le> j" "j < 24" | "24 \<le> j" by linarith
  then show "bit (golay2412_matrix_mul m golay2412_Gt 24) j = bit (golay_code m) j"
  proof cases
    case 1
    then have "24 - 1 - j = 12 + (11 - j)" by simp
    with 1 Gt(2) [of "11 - j"] show ?thesis
      by (simp add: bit_matrix_mul unit_row_parity golay_code_def bit_xor_iff bit_push_bit_iff
          del: push_bit_of_1)
  next
    case 2
    then have "24 - 1 - j < 12" "12 - 1 - (j - 12) = 24 - 1 - j" by simp_all
    with 2 bit_m Gt(1) [of "24 - 1 - j"] show ?thesis
      by (auto simp: bit_matrix_mul golay_code_def bit_xor_iff bit_push_bit_iff)
  next
    case 3
    with bit_m show ?thesis by (auto simp: bit_matrix_mul golay_code_def bit_xor_iff bit_push_bit_iff)
  qed
qed

lemma row_parity_P_take: "i < 12 \<Longrightarrow> row_parity (golay2412_P ! i) (take_bit 12 v) \<longleftrightarrow> row_parity (golay2412_P ! i) v"
proof -
  assume i: "i < 12"
  have "golay2412_P ! i AND take_bit 12 v = golay2412_P ! i AND v"
    by (subst (1 2) P_take [OF i, symmetric]) (rule bit_word_eqI, auto simp: bit_and_iff bit_take_bit_iff)
  then show ?thesis by (simp only: row_parity_def)
qed

lemma row_parity_xor_left: "row_parity (a XOR b) v \<longleftrightarrow> (row_parity a v \<noteq> row_parity b v)"
  by (metis row_parity_comm row_parity_xor)

lemma golay_syndrome:
  assumes "take_bit 24 r = r"
  shows "golay2412_matrix_mul r golay2412_H 12 = drop_bit 12 r XOR mulP (take_bit 12 r)"
proof (rule bit_word_eqI)
  fix j assume "j < LENGTH(32)"
  have r: "bit r (12 + j) \<Longrightarrow> j < 12" using assms by (metis bit_take_bit_iff add_less_cancel_left numeral_Bit0)
  have H: "i < 12 \<Longrightarrow> golay2412_H ! i = push_bit (23 - i) 1 XOR golay2412_P ! i" for i
    using H_check by (simp only: list_all_upt)
  show "bit (golay2412_matrix_mul r golay2412_H 12) j = bit (drop_bit 12 r XOR mulP (take_bit 12 r)) j"
  proof (cases "j < 12")
    case True
    then have "23 - (11 - j) = 12 + j" "11 - j < 12" "12 + j < 24" by simp_all
    with True H [of "11 - j"] show ?thesis
      by (simp add: bit_matrix_mul bit_xor_iff bit_drop_bit_eq row_parity_xor_left unit_row_parity
          row_parity_P_take del: push_bit_of_1)
  next
    case False
    with r show ?thesis by (auto simp: bit_matrix_mul bit_xor_iff bit_drop_bit_eq)
  qed
qed

section \<open>The error estimate\<close>

lemma ones_single:
  assumes "take_bit 12 x = x" and "ones x = 1"
  shows "\<exists>i < 12. x = unit12 i"
proof -
  from assms length_support12 [of x] obtain i where i: "support12 x = [i]"
    by (auto simp: length_Suc_conv)
  then have "x = unit12 i" using unit_sum_support [OF assms(1)] by simp
  moreover have "i < 12" using support12_subset [of x] i by simp
  ultimately show ?thesis by blast
qed

lemma take_bit_unit12: "i < 12 \<Longrightarrow> take_bit 12 (unit12 i) = unit12 i"
  by (rule bit_word_eqI) (auto simp: unit12_def bit_exp_word bit_take_bit_iff simp del: push_bit_of_1)

lemma unit12_eq_iff: "i < 12 \<Longrightarrow> j < 12 \<Longrightarrow> unit12 i = unit12 j \<longleftrightarrow> i = j"
proof
  assume "i < 12" "j < 12" and eq: "unit12 i = unit12 j"
  have "bit (unit12 i) (11 - i)" by (simp add: unit12_def bit_exp_word del: push_bit_of_1)
  then have "bit (unit12 j) (11 - i)" by (simp only: eq)
  then have "11 - i = 11 - j" by (simp add: unit12_def bit_exp_word del: push_bit_of_1)
  with \<open>i < 12\<close> \<open>j < 12\<close> show "i = j" by linarith
qed simp

lemma ones_unit12: "i < 12 \<Longrightarrow> ones (unit12 i) = 1"
  by (simp add: unit12_def ones_exp del: push_bit_of_1)

lemma heavy_sum:
  assumes "take_bit 12 x = x" and "x \<noteq> 0" and "ones x \<le> 4"
  shows "8 \<le> ones (y XOR mulP x) + ones y + ones x"
  using mulP_weight [OF assms] ones_triangle [of "mulP x" y] by (simp add: xor.commute)

lemma take_bit_16_12: "take_bit 12 x = x \<Longrightarrow> take_bit 16 x = (x :: u32)"
proof -
  assume x: "take_bit 12 x = x"
  have "take_bit 16 (take_bit 12 x) = take_bit 12 x" by simp
  then show ?thesis by (simp only: x)
qed

lemma count_ones_12: "take_bit 12 x = x \<Longrightarrow> liquid_count_ones_uint16 x = ones x"
  by (simp add: liquid_count_ones_uint16_ones take_bit_16_12)

lemma search_loop_find:
  assumes "take_bit 12 v = v" and "set is \<subseteq> {0..<12}"
  shows "golay2412_search_loop v is =
    (case find (\<lambda>i. ones (v XOR golay2412_P ! i) \<le> 2) is of None \<Rightarrow> - 1 | Some i \<Rightarrow> int i)"
  using assms(2)
proof (induction "is")
  case (Cons i "is")
  then have "take_bit 12 (v XOR golay2412_P ! i) = v XOR golay2412_P ! i"
    using assms(1) P_take [of i] by (simp add: take_bit_xor)
  then have "liquid_count_ones_uint16 (v XOR golay2412_P ! i) = ones (v XOR golay2412_P ! i)"
    by (rule count_ones_12)
  with Cons show ?case by (simp add: Let_def liquid_count_ones_uint16_def)
qed simp

lemma parity_search_none:
  assumes "take_bit 12 v = v" and "\<And>i. i < 12 \<Longrightarrow> 2 < ones (v XOR golay2412_P ! i)"
  shows "golay2412_parity_search v = - 1"
proof -
  have "find (\<lambda>i. ones (v XOR golay2412_P ! i) \<le> 2) [0..<12] = None"
    using assms(2) by (auto simp: find_None_iff not_le)
  then show ?thesis by (simp add: golay2412_parity_search_def search_loop_find [OF assms(1)])
qed

lemma parity_search_some:
  assumes "take_bit 12 v = v" and "j < 12" and "ones (v XOR golay2412_P ! j) \<le> 2"
    and "\<And>i. i < 12 \<Longrightarrow> i \<noteq> j \<Longrightarrow> 2 < ones (v XOR golay2412_P ! i)"
  shows "golay2412_parity_search v = int j"
proof -
  have "find (\<lambda>i. ones (v XOR golay2412_P ! i) \<le> 2) [0..<12] = Some j"
    using assms(2-4) by (auto simp: find_Some_iff not_le intro!: exI [of _ j])
  then show ?thesis by (simp add: golay2412_parity_search_def search_loop_find [OF assms(1)])
qed

text \<open>The steps of the decoder, by the halves of an error of weight at most three.\<close>

lemma ones_xor_unit: "i < 12 \<Longrightarrow> ones (x XOR unit12 i) \<le> ones x + 1"
  using ones_xor_le [of x "unit12 i"] by (simp add: ones_unit12)

lemma xor_row: "i < 12 \<Longrightarrow> (y XOR mulP x) XOR golay2412_P ! i = y XOR mulP (x XOR unit12 i)"
  by (simp add: mulP_xor mulP_unit xor.assoc)

lemma golay_search_unit:
  assumes y: "take_bit 12 y = y" "ones y \<le> 2" and j: "j < 12"
  shows "golay2412_parity_search (y XOR mulP (unit12 j)) = int j"
proof (rule parity_search_some [OF _ j])
  show "take_bit 12 (y XOR mulP (unit12 j)) = y XOR mulP (unit12 j)"
    by (simp add: take_bit_xor y take_bit_mulP)
  show "ones ((y XOR mulP (unit12 j)) XOR golay2412_P ! j) \<le> 2"
    unfolding xor_row [OF j] using y(2) by simp
  fix i assume i: "i < 12" "i \<noteq> j"
  let ?x = "unit12 j XOR unit12 i"
  have "?x \<noteq> 0" using i j by (simp add: xor_zero_iff unit12_eq_iff)
  moreover have "take_bit 12 ?x = ?x" by (simp add: take_bit_xor take_bit_unit12 i j)
  moreover have "ones ?x \<le> 2" using ones_xor_unit [OF i(1), of "unit12 j"] j by (simp add: ones_unit12)
  ultimately have "8 \<le> ones (y XOR mulP ?x) + ones y + ones ?x" by (intro heavy_sum) simp_all
  with \<open>ones ?x \<le> 2\<close> y(2) show "2 < ones ((y XOR mulP (unit12 j)) XOR golay2412_P ! i)"
    unfolding xor_row [OF i(1)] by linarith
qed

lemma golay_search_fails:
  assumes "take_bit 12 y = y" and x: "take_bit 12 x = x" "2 \<le> ones x" and "ones y + ones x \<le> 3"
  shows "golay2412_parity_search (y XOR mulP x) = - 1"
proof (rule parity_search_none)
  show "take_bit 12 (y XOR mulP x) = y XOR mulP x" by (simp add: take_bit_xor assms(1) take_bit_mulP)
  fix i :: nat assume i: "i < 12"
  let ?x = "x XOR unit12 i"
  have "x \<noteq> unit12 i" using x(2) ones_unit12 [OF i] by auto
  then have "?x \<noteq> 0" by (simp add: xor_zero_iff)
  moreover have "take_bit 12 ?x = ?x" by (simp add: take_bit_xor take_bit_unit12 i x)
  moreover have "ones ?x \<le> ones x + 1" by (rule ones_xor_unit [OF i])
  ultimately have "8 \<le> ones (y XOR mulP ?x) + ones y + ones ?x"
    using assms(4) by (intro heavy_sum) simp_all
  with \<open>ones ?x \<le> ones x + 1\<close> assms(4) show "2 < ones ((y XOR mulP x) XOR golay2412_P ! i)"
    unfolding xor_row [OF i] by linarith
qed

lemma push_12_mask: "take_bit 12 y = y \<Longrightarrow> push_bit 12 y AND 0xfff000 = (push_bit 12 y :: u32)"
proof (rule bit_word_eqI)
  fix i assume y: "take_bit 12 y = y" and "i < LENGTH(32)"
  have "(0xfff000 :: u32) = push_bit 12 (mask 12)" by (simp add: mask_numeral)
  then have "bit (push_bit 12 y AND 0xfff000) i \<longleftrightarrow> bit (push_bit 12 y) i \<and> bit (push_bit 12 (mask 12 :: u32)) i"
    by (simp only: bit_and_iff)
  moreover have "bit (push_bit 12 y) i \<Longrightarrow> i < 24"
    using y by (metis bit_push_bit_iff bit_take_bit_iff less_diff_conv2 numeral_plus_numeral add_num_simps)
  ultimately show "bit (push_bit 12 y AND 0xfff000) i = bit (push_bit 12 y) i"
    by (auto simp: bit_push_bit_iff bit_mask_iff)
qed

lemma or_xor_halves: "take_bit 12 x = x \<Longrightarrow> push_bit 12 y OR x = push_bit 12 y XOR (x :: u32)"
proof (rule bit_word_eqI)
  fix i assume x: "take_bit 12 x = x" and "i < LENGTH(32)"
  have "bit x i \<Longrightarrow> i < 12" using x by (metis bit_take_bit_iff)
  then show "bit (push_bit 12 y OR x) i = bit (push_bit 12 y XOR x) i"
    by (auto simp: bit_or_iff bit_xor_iff bit_push_bit_iff)
qed

lemma push_unit12: "i < 12 \<Longrightarrow> push_bit 12 (unit12 i) = push_bit (23 - i) 1"
  by (simp add: unit12_def push_bit_push_bit del: push_bit_of_1)

lemma golay_error_correct:
  assumes eh: "take_bit 12 eh = eh" and el: "take_bit 12 el = el" and w: "ones eh + ones el \<le> 3"
  shows "golay2412_error (eh XOR mulP el) = push_bit 12 eh XOR el"
proof (cases "el = 0")
  case True
  then show ?thesis using w eh by (simp add: golay2412_error_def count_ones_12 push_12_mask)
next
  case False
  let ?s = "eh XOR mulP el"
  have s12: "take_bit 12 ?s = ?s" by (simp add: take_bit_xor eh take_bit_mulP)
  have "8 \<le> ones ?s + ones eh + ones el" using False el w by (intro heavy_sum) simp_all
  then have step2: "\<not> liquid_count_ones_uint16 ?s \<le> 3" using w by (simp add: count_ones_12 [OF s12])
  have "ones el \<noteq> 0" using False by (simp add: ones_eq_0_iff)
  then consider "ones el = 1" | "2 \<le> ones el" by linarith
  then show ?thesis
  proof cases
    case 1
    then obtain j where j: "j < 12" "el = unit12 j" using ones_single [OF el] by blast
    have search: "golay2412_parity_search ?s = int j"
      unfolding j(2) by (rule golay_search_unit [OF eh _ j(1)]) (use w 1 in simp)
    have "?s XOR golay2412_P ! j = eh" unfolding j(2) xor_row [OF j(1)] by simp
    then show ?thesis
      using step2 search or_xor_halves [OF el, of eh]
      by (simp add: golay2412_error_def Let_def j(2) unit12_def [symmetric] del: push_bit_of_1)
  next
    case 2
    have search: "golay2412_parity_search ?s = - 1" by (rule golay_search_fails [OF eh el 2 w])
    have sP: "mulP ?s = el XOR mulP eh" by (simp add: mulP_xor mulP_invol [OF el] xor.commute)
    have sP12: "take_bit 12 (mulP ?s) = mulP ?s" by (rule take_bit_mulP)
    show ?thesis
    proof (cases "eh = 0")
      case True
      then have "ones el = 2 \<or> ones el = 3" using w 2 by auto
      then show ?thesis
        using step2 search sP by (simp add: golay2412_error_def Let_def True count_ones_12 [OF el])
    next
      case False
      then have "ones eh = 1" "ones el = 2" using w 2 ones_eq_0_iff [of eh] by linarith+
      then obtain k where k: "k < 12" "eh = unit12 k" using ones_single [OF eh] by blast
      have "8 \<le> ones (mulP ?s) + ones el + ones eh"
        unfolding sP using False eh w by (intro heavy_sum) simp_all
      then have step5: "\<not> (liquid_count_ones_uint16 (mulP ?s) = 2 \<or> liquid_count_ones_uint16 (mulP ?s) = 3)"
        using w by (simp add: count_ones_12 [OF sP12])
      have search2: "golay2412_parity_search (mulP ?s) = int k"
        unfolding sP unfolding k(2) by (rule golay_search_unit [OF el _ k(1)]) (use \<open>ones el = 2\<close> in simp)
      have "mulP ?s XOR golay2412_P ! k = el" unfolding sP unfolding k(2) xor_row [OF k(1)] by simp
      then have "golay2412_error ?s = push_bit (23 - k) 1 OR el"
        unfolding golay2412_error_def Let_def using step2 search step5 search2
        by (simp del: push_bit_of_1)
      then show ?thesis using or_xor_halves [OF el, of eh] by (simp add: k push_unit12 del: push_bit_of_1)
    qed
  qed
qed

section \<open>Symbols\<close>

lemma not_exceeds: "take_bit k x = x \<Longrightarrow> k < 32 \<Longrightarrow> \<not> push_bit k 1 \<le> (x :: u32)"
proof -
  assume x: "take_bit k x = x" and k: "k < 32"
  have "unat (take_bit k x) < 2 ^ k" by (simp only: unsigned_take_bit_eq take_bit_nat_less_exp)
  moreover have "unat (push_bit k 1 :: u32) = 2 ^ k"
    using k by (simp only: unsigned_push_bit_eq) (simp add: take_bit_push_bit)
  ultimately show ?thesis by (simp add: x word_le_nat_alt)
qed

lemma ones_halves: "take_bit 24 e = e \<Longrightarrow> ones (e :: u32) = ones (drop_bit 12 e) + ones (take_bit 12 e)"
proof -
  assume e: "take_bit 24 e = e"
  have dt: "drop_bit 12 e = take_bit 12 (drop_bit 12 e)"
    by (subst e [symmetric]) (simp add: drop_bit_take_bit)
  have "[0..<24] = [0..<12] @ map (\<lambda>i. 12 + i) [0..<12 :: nat]" by code_simp
  then have "ones (take_bit 24 e) = length (filter (bit e) [0..<12]) + length (filter (\<lambda>i. bit e (12 + i)) [0..<12])"
    by (simp add: ones_take_bit filter_map comp_def)
  also have "length (filter (\<lambda>i. bit e (12 + i)) [0..<12]) = ones (take_bit 12 (drop_bit 12 e))"
    by (simp add: ones_take_bit bit_drop_bit_eq comp_def)
  finally show ?thesis using e by (simp add: ones_take_bit dt [symmetric])
qed

lemma halves: "push_bit 12 (drop_bit 12 e) XOR take_bit 12 e = (e :: u32)"
  by (rule bit_word_eqI) (auto simp: bit_xor_iff bit_push_bit_iff bit_drop_bit_eq bit_take_bit_iff)

lemma golay_code_halves:
  assumes "take_bit 12 m = m"
  shows "drop_bit 12 (golay_code m) = mulP m" and "take_bit 12 (golay_code m) = m"
    and "take_bit 24 (golay_code m) = golay_code m"
proof -
  have m: "bit m i \<Longrightarrow> i < 12" for i using assms by (metis bit_take_bit_iff)
  have Pm: "bit (mulP m) i \<Longrightarrow> i < 12" for i by (simp add: bit_matrix_mul)
  show "drop_bit 12 (golay_code m) = mulP m"
    by (rule bit_word_eqI) (auto simp: golay_code_def bit_drop_bit_eq bit_xor_iff bit_push_bit_iff dest: m Pm)
  show "take_bit 12 (golay_code m) = m"
    by (rule bit_word_eqI) (auto simp: golay_code_def bit_take_bit_iff bit_xor_iff bit_push_bit_iff dest: m)
  show "take_bit 24 (golay_code m) = golay_code m"
    by (rule bit_word_eqI) (auto simp: golay_code_def bit_take_bit_iff bit_xor_iff bit_push_bit_iff dest: m Pm)
qed

lemma golay_encode_symbol:
  "take_bit 12 m = m \<Longrightarrow> fec_golay2412_encode_symbol m = Some (golay_code m)"
  using not_exceeds [of 12 m] by (simp add: fec_golay2412_encode_symbol_def matrix_mul_Gt)

lemma golay_decode_symbol:
  assumes m: "take_bit 12 m = m" and r: "take_bit 24 r = r" and w: "ones (golay_code m XOR r) \<le> 3"
  shows "fec_golay2412_decode_symbol r = Some m"
proof -
  define e where "e = golay_code m XOR r"
  have e24: "take_bit 24 e = e" by (simp add: e_def take_bit_xor r golay_code_halves [OF m])
  have r_eq: "r = golay_code m XOR e"
    by (simp add: e_def xor.assoc [symmetric])
  have syn_code: "golay2412_matrix_mul (golay_code m) golay2412_H 12 = 0"
    by (simp add: golay_syndrome golay_code_halves [OF m])
  have "golay2412_matrix_mul r golay2412_H 12 = drop_bit 12 e XOR mulP (take_bit 12 e)"
    unfolding r_eq by (simp add: matrix_mul_xor syn_code golay_syndrome [OF e24])
  moreover have "golay2412_error (drop_bit 12 e XOR mulP (take_bit 12 e)) = e"
  proof -
    have "take_bit 12 (drop_bit 12 e) = drop_bit 12 e"
      by (subst (2) e24 [symmetric]) (simp add: drop_bit_take_bit)
    moreover have "ones (drop_bit 12 e) + ones (take_bit 12 e) \<le> 3"
      using w ones_halves [OF e24] by (simp add: e_def)
    ultimately show ?thesis using golay_error_correct [of "drop_bit 12 e" "take_bit 12 e"] halves [of e] by simp
  qed
  moreover have "r XOR e = golay_code m" by (simp add: r_eq xor.assoc)
  moreover have "golay_code m AND 0x0fff = m"
  proof -
    have "(0x0fff :: u32) = mask 12" by (simp add: mask_numeral)
    then show ?thesis using golay_code_halves(2) [OF m] by (simp add: take_bit_eq_mask)
  qed
  ultimately show ?thesis
    using not_exceeds [OF r] by (simp add: fec_golay2412_decode_symbol_def Let_def)
qed

section \<open>Blocks\<close>

text \<open>Symbol \<open>t\<close> of a message: twelve bits of the stream for full triples of bytes, then single bytes.\<close>

definition golay_sym :: "nat \<Rightarrow> bytes \<Rightarrow> nat \<Rightarrow> u32" where
  "golay_sym n msg t =
     (if t < 2 * (n div 3) then stream_word 12 msg (12 * t)
      else ucast (msg ! (3 * (n div 3) + (t - 2 * (n div 3)))))"

abbreviation golay_blocks :: "nat \<Rightarrow> nat" where
  "golay_blocks n \<equiv> 2 * (n div 3) + n mod 3"

lemma take_bit_golay_sym: "take_bit 12 (golay_sym n msg t) = golay_sym n msg t"
proof -
  have "take_bit 12 (ucast (b :: u8) :: u32) = ucast b" for b
    by (rule bit_word_eqI) (auto simp: bit_take_bit_iff bit_ucast_iff dest: bit_imp_le_length)
  then show ?thesis by (simp add: golay_sym_def take_bit_stream_word)
qed

lemma golay_sym_pair:
  assumes "t < n div 3"
  shows "golay_sym n msg (2 * t) = stream_word 12 msg (24 * t)"
    and "golay_sym n msg (2 * t + 1) = stream_word 12 msg (24 * t + 12)"
  using assms by (simp_all add: golay_sym_def add.commute)

lemma golay_sym_tail: "golay_sym n msg (2 * (n div 3) + c) = ucast (msg ! (3 * (n div 3) + c))"
  by (simp add: golay_sym_def)

lemma concat_pairs: "concat (map (\<lambda>t. f (2 * t) @ f (2 * t + 1)) [0..<m]) = concat (map f [0..<2 * m])"
  by (induction m) simp_all

lemma concat_blocks_tail:
  "concat (map f [0..<a]) @ concat (map (\<lambda>c. f (a + c)) [0..<b]) = concat (map f [0..<a + b])"
  by (induction b) (simp_all add: add.assoc [symmetric])

lemma golay_enc_len: "n < msg_bound \<Longrightarrow> fec_get_enc_msg_length FEC_GOLAY2412 n = Some (3 * golay_blocks n)"
proof -
  assume "n < msg_bound"
  moreover have "ceil_div (8 * n) 12 = golay_blocks n"
  proof -
    define q r where "q = n div 3" "r = n mod 3"
    then have n: "n = 3 * q + r" and r: "r = 0 \<or> r = 1 \<or> r = 2" by auto
    have "8 * n = 8 * r + q * 2 * 12" using n by simp
    then have "8 * n div 12 = 2 * q + 8 * r div 12" and "8 * n mod 12 = 8 * r mod 12"
      by (simp, simp only: mod_mult_self1)
    then show ?thesis using r by (auto simp: ceil_div_def q_r_def)
  qed
  moreover have "ceil_div (m * 24) 8 = 3 * m" for m using ceil_div_mult [of 8 "3 * m"] by (simp add: mult.commute)
  ultimately show ?thesis using fec_block_len [of n 12 24] by (simp only: fec_get_enc_msg_length.simps)
qed

lemma blocks_of_three: "3 * (n div 3) div 3 = n div 3" "n - n mod 3 = 3 * (n div 3)" for n :: nat
  by (simp_all add: minus_mod_eq_mult_div)

definition golay_stream :: "nat \<Rightarrow> bytes \<Rightarrow> bytes" where
  "golay_stream n msg = concat (map (\<lambda>t. golay_bytes (golay_code (golay_sym n msg t))) [0..<golay_blocks n])"

lemma length_golay_stream [simp]: "length (golay_stream n msg) = 3 * golay_blocks n"
  unfolding golay_stream_def by (subst length_concat_uniform [where k = 3]) (simp_all add: golay_bytes_def)

lemma golay_encode_symbols:
  assumes "n < msg_bound"
  shows "fec_golay2412_encode n msg = Some (golay_stream n msg)"
proof -
  let ?f = "\<lambda>t. golay_bytes (golay_code (golay_sym n msg t))"
  have tail: "[3 * (n div 3)..<n] = map (\<lambda>c. 3 * (n div 3) + c) [0..<n mod 3]"
    by (rule nth_equalityI) (simp_all add: minus_mod_eq_mult_div [symmetric])
  have pairs: "for_append [0..<n div 3] (\<lambda>t. let i = 3 * t;
         s0 = ucast (msg ! (i + 0)) :: u32; s1 = ucast (msg ! (i + 1)) :: u32; s2 = ucast (msg ! (i + 2)) :: u32;
         m0 = (push_bit 4 s0 AND 0x0ff0) OR (drop_bit 4 s1 AND 0x000f);
         m1 = (push_bit 8 s1 AND 0x0f00) OR (s2 AND 0x00ff)
       in do { v0 \<leftarrow> fec_golay2412_encode_symbol m0; v1 \<leftarrow> fec_golay2412_encode_symbol m1;
         Some (golay_bytes v0 @ golay_bytes v1) }) = Some (concat (map ?f [0..<2 * (n div 3)]))"
    unfolding concat_pairs [of ?f, symmetric]
  proof (rule for_append_Some)
    fix t assume "t \<in> set [0..<n div 3]"
    then have t: "t < n div 3" by simp
    show "(let i = 3 * t;
         s0 = ucast (msg ! (i + 0)) :: u32; s1 = ucast (msg ! (i + 1)) :: u32; s2 = ucast (msg ! (i + 2)) :: u32;
         m0 = (push_bit 4 s0 AND 0x0ff0) OR (drop_bit 4 s1 AND 0x000f);
         m1 = (push_bit 8 s1 AND 0x0f00) OR (s2 AND 0x00ff)
       in do { v0 \<leftarrow> fec_golay2412_encode_symbol m0; v1 \<leftarrow> fec_golay2412_encode_symbol m1;
         Some (golay_bytes v0 @ golay_bytes v1) }) = Some (?f (2 * t) @ ?f (2 * t + 1))"
      unfolding Let_def add_0_right stream_word_12 golay_sym_pair [OF t, symmetric]
        golay_encode_symbol [OF take_bit_golay_sym] bind.bind_lunit ..
  qed
  have tails: "for_append [3 * (n div 3)..<n] (\<lambda>i. let m0 = ucast (msg ! i) in do {
         v0 \<leftarrow> fec_golay2412_encode_symbol m0; Some (golay_bytes v0) }) =
      Some (concat (map (\<lambda>c. ?f (2 * (n div 3) + c)) [0..<n mod 3]))"
  proof -
    have "for_append [3 * (n div 3)..<n] (\<lambda>i. let m0 = ucast (msg ! i) in do {
         v0 \<leftarrow> fec_golay2412_encode_symbol m0; Some (golay_bytes v0) }) =
      Some (concat (map (\<lambda>i. ?f (2 * (n div 3) + (i - 3 * (n div 3)))) [3 * (n div 3)..<n]))"
    proof (rule for_append_Some)
      fix i assume "i \<in> set [3 * (n div 3)..<n]"
      then have "i = 3 * (n div 3) + (i - 3 * (n div 3))" by simp
      then have sym: "ucast (msg ! i) = golay_sym n msg (2 * (n div 3) + (i - 3 * (n div 3)))"
        unfolding golay_sym_tail by simp
      show "(let m0 = ucast (msg ! i) in do { v0 \<leftarrow> fec_golay2412_encode_symbol m0; Some (golay_bytes v0) }) =
          Some (?f (2 * (n div 3) + (i - 3 * (n div 3))))"
        unfolding Let_def sym golay_encode_symbol [OF take_bit_golay_sym] bind.bind_lunit ..
    qed
    then show ?thesis by (simp add: tail comp_def)
  qed
  have len: "length (concat (map ?f [0..<golay_blocks n])) = 3 * golay_blocks n"
    using length_golay_stream [of n msg] unfolding golay_stream_def .
  show ?thesis
    unfolding fec_golay2412_encode_def Let_def blocks_of_three pairs [unfolded Let_def] tails [unfolded Let_def]
      bind.bind_lunit concat_blocks_tail [of ?f] golay_enc_len [OF assms] golay_stream_def len
    by simp
qed

lemma golay_word_stream:
  "golay_word (xs ! (3 * t)) (xs ! (3 * t + 1)) (xs ! (3 * t + 2)) = stream_word 24 xs (24 * t)"
proof -
  have "golay_word r0 r1 r2 = stream_word (8 * 3) [r0, r1, r2] (8 * 0)" for r0 r1 r2
  proof -
    have up: "[0..<3] = [0, 1, 2 :: nat]" by code_simp
    have masks: "(0xff0000 :: u32) = push_bit 16 (mask 8)" "(0x00ff00 :: u32) = push_bit 8 (mask 8)" "(0xff :: u32) = mask 8"
      by (simp_all add: mask_numeral)
    have w: "golay_word r0 r1 r2 = push_bit 16 (ucast r0) OR push_bit 8 (ucast r1) OR ucast r2"
      unfolding golay_word_def masks by (intro bit_word_eqI) (simp only: bit_or_iff bit_and_iff bit_push_bit_iff bit_mask_iff bit_ucast_iff,
        auto dest: bit_imp_le_length)
    have low: "bit r j \<Longrightarrow> j < 8" for r :: u8 and j by (auto dest: bit_imp_le_length)
    have high: "\<not> bit r (8 + j)" "\<not> bit r (16 + j)" for r :: u8 and j by (auto dest: low)
    show ?thesis
    proof (rule stream_word_bytes [symmetric])
      have "bit (golay_word r0 r1 r2) i \<Longrightarrow> i < 24" for i
        by (auto simp: w bit_or_iff bit_push_bit_iff bit_ucast_iff dest: bit_imp_le_length)
      then show "take_bit (8 * 3) (golay_word r0 r1 r2) = golay_word r0 r1 r2"
        by (intro bit_word_eqI) (auto simp: bit_take_bit_iff)
      have "word_bytes 3 (golay_word r0 r1 r2) = [r0, r1, r2]"
        unfolding word_bytes_def up w
        by (auto intro!: bit_word_eqI simp: bit_or_iff bit_push_bit_iff bit_drop_bit_eq bit_ucast_iff high)
      then show "[r0, r1, r2] ! (0 + c) = word_bytes 3 (golay_word r0 r1 r2) ! c" for c by simp
    qed
  qed
  then have "golay_word (xs ! (3 * t)) (xs ! (3 * t + 1)) (xs ! (3 * t + 2)) =
      stream_word 24 [xs ! (3 * t), xs ! (3 * t + 1), xs ! (3 * t + 2)] 0" by simp
  also have "\<dots> = stream_word 24 xs (24 * t)"
  proof -
    let ?w = "stream_word (8 * 3) xs (8 * (3 * t)) :: u32"
    have "word_bytes 3 ?w = map (\<lambda>c. xs ! (3 * t + c)) [0..<3]" by (rule word_bytes_stream) simp
    then have "[xs ! (3 * t), xs ! (3 * t + 1), xs ! (3 * t + 2)] ! (0 + c) = word_bytes 3 ?w ! c" if "c < 3" for c
      using that by (auto simp: less_Suc_eq numeral_3_eq_3)
    from stream_word_bytes [OF this take_bit_stream_word] show ?thesis by simp
  qed
  finally show ?thesis .
qed

lemma golay_bytes_word: "golay_bytes v = word_bytes 3 v"
proof -
  have up: "[0..<3] = [0, 1, 2 :: nat]" by code_simp
  have "(ucast (x AND 0xff) :: u8) = ucast x" for x :: u32
    by (rule bit_word_eqI) (auto simp: bit_ucast_iff bit_and_iff bit_nibble_masks simp del: bit_numeral_word_iff)
  then show ?thesis by (simp add: golay_bytes_def word_bytes_def up)
qed

lemma golay_stream_word:
  assumes "t < golay_blocks n"
  shows "stream_word 24 (golay_stream n msg) (24 * t) = golay_code (golay_sym n msg t)"
proof -
  have "golay_stream n msg ! (3 * t + c) = word_bytes 3 (golay_code (golay_sym n msg t)) ! c" if "c < 3" for c
    unfolding golay_stream_def golay_bytes_word by (rule nth_concat_uniform) (use assms that in auto)
  from stream_word_bytes [OF this] golay_code_halves(3) [OF take_bit_golay_sym]
  show ?thesis by simp
qed

lemma golay_received:
  "golay_word (xs ! (6 * t + 0)) (xs ! (6 * t + 1)) (xs ! (6 * t + 2)) = stream_word 24 xs (24 * (2 * t))"
  "golay_word (xs ! (6 * t + 3)) (xs ! (6 * t + 4)) (xs ! (6 * t + 5)) = stream_word 24 xs (24 * (2 * t + 1))"
  "golay_word (xs ! (6 * t + 3 * c + 0)) (xs ! (6 * t + 3 * c + 1)) (xs ! (6 * t + 3 * c + 2)) =
    stream_word 24 xs (24 * (2 * t + c))"
proof -
  have idx: "6 * t + 0 = 3 * (2 * t)" "6 * t + 1 = 3 * (2 * t) + 1" "6 * t + 2 = 3 * (2 * t) + 2"
    "6 * t + 3 = 3 * (2 * t + 1)" "6 * t + 4 = 3 * (2 * t + 1) + 1" "6 * t + 5 = 3 * (2 * t + 1) + 2"
    "6 * t + 3 * c + 0 = 3 * (2 * t + c)" "6 * t + 3 * c + 1 = 3 * (2 * t + c) + 1"
    "6 * t + 3 * c + 2 = 3 * (2 * t + c) + 2" by simp_all
  show "golay_word (xs ! (6 * t + 0)) (xs ! (6 * t + 1)) (xs ! (6 * t + 2)) = stream_word 24 xs (24 * (2 * t))"
    unfolding idx by (rule golay_word_stream)
  show "golay_word (xs ! (6 * t + 3)) (xs ! (6 * t + 4)) (xs ! (6 * t + 5)) = stream_word 24 xs (24 * (2 * t + 1))"
    unfolding idx by (rule golay_word_stream)
  show "golay_word (xs ! (6 * t + 3 * c + 0)) (xs ! (6 * t + 3 * c + 1)) (xs ! (6 * t + 3 * c + 2)) =
    stream_word 24 xs (24 * (2 * t + c))"
    unfolding idx by (rule golay_word_stream)
qed

lemma golay_triple:
  assumes "t < n div 3"
  shows "pair_bytes (golay_sym n msg (2 * t)) (golay_sym n msg (2 * t + 1)) = map (\<lambda>c. msg ! (3 * t + c)) [0..<3]"
proof -
  let ?w = "stream_word (8 * 3) msg (8 * (3 * t)) :: u32"
  have "golay_sym n msg (2 * t) = drop_bit 12 ?w" "golay_sym n msg (2 * t + 1) = take_bit 12 ?w"
    using stream_word_halves [where h = 12 and w = "8 * 3" and xs = msg and k = "24 * t" and 'a = 32]
    by (simp_all add: golay_sym_pair [OF assms, simplified])
  moreover have "push_bit 12 (drop_bit 12 ?w) OR take_bit 12 ?w = ?w"
    by (rule bit_word_eqI) (auto simp: bit_or_iff bit_push_bit_iff bit_drop_bit_eq bit_take_bit_iff)
  ultimately have "pair_bytes (golay_sym n msg (2 * t)) (golay_sym n msg (2 * t + 1)) = word_bytes 3 ?w"
    using pair_bytes_word [OF take_bit_golay_sym [of n msg "2 * t"] take_bit_golay_sym [of n msg "2 * t + 1"]] by (simp only:)
  also have "\<dots> = map (\<lambda>c. msg ! (3 * t + c)) [0..<3]" by (rule word_bytes_stream) simp
  finally show ?thesis .
qed

lemma golay_decode_symbols:
  assumes "n < msg_bound" and "length msg = n"
    and err: "\<And>t. t < golay_blocks n \<Longrightarrow> stream_errors 24 (golay_stream n msg) rx (24 * t) \<le> 3"
  shows "fec_golay2412_decode n rx = Some msg"
proof -
  have dec: "fec_golay2412_decode_symbol (stream_word 24 rx (24 * t)) = Some (golay_sym n msg t)"
    if t: "t < golay_blocks n" for t
  proof (rule golay_decode_symbol [OF take_bit_golay_sym take_bit_stream_word])
    show "ones (golay_code (golay_sym n msg t) XOR stream_word 24 rx (24 * t)) \<le> 3"
      using err [OF t] stream_errors_ones [of 24 "golay_stream n msg" "24 * t" rx, where 'a = 32]
      by (simp add: golay_stream_word [OF t])
  qed
  have pairs: "for_append [0..<n div 3] (\<lambda>t. let j = 6 * t;
         v0 = golay_word (rx ! (j + 0)) (rx ! (j + 1)) (rx ! (j + 2));
         v1 = golay_word (rx ! (j + 3)) (rx ! (j + 4)) (rx ! (j + 5))
       in do {
         m0_hat \<leftarrow> fec_golay2412_decode_symbol v0;
         m1_hat \<leftarrow> fec_golay2412_decode_symbol v1;
         Some [ucast (drop_bit 4 m0_hat AND 0xff),
               ucast ((push_bit 4 m0_hat AND 0xf0) OR (drop_bit 8 m1_hat AND 0x0f)),
               ucast (m1_hat AND 0xff)] }) =
      Some (concat (map (\<lambda>t. map (\<lambda>c. msg ! (3 * t + c)) [0..<3]) [0..<n div 3]))"
    unfolding Let_def golay_received
  proof (rule for_append_Some)
    fix t assume "t \<in> set [0..<n div 3]"
    then have t: "t < n div 3" "2 * t < golay_blocks n" "2 * t + 1 < golay_blocks n" by simp_all
    show "fec_golay2412_decode_symbol (stream_word 24 rx (24 * (2 * t))) \<bind>
        (\<lambda>m0_hat. fec_golay2412_decode_symbol (stream_word 24 rx (24 * (2 * t + 1))) \<bind>
        (\<lambda>m1_hat. Some [ucast (drop_bit 4 m0_hat AND 0xff),
               ucast ((push_bit 4 m0_hat AND 0xf0) OR (drop_bit 8 m1_hat AND 0x0f)),
               ucast (m1_hat AND 0xff)])) = Some (map (\<lambda>c. msg ! (3 * t + c)) [0..<3])"
      unfolding dec [OF t(2)] dec [OF t(3)] bind.bind_lunit golay_triple [OF t(1), symmetric] pair_bytes_def ..
  qed
  have tails: "for_append [0..<n mod 3] (\<lambda>t. let j = 6 * (n div 3) + 3 * t;
         v0 = golay_word (rx ! (j + 0)) (rx ! (j + 1)) (rx ! (j + 2))
       in do { m0_hat \<leftarrow> fec_golay2412_decode_symbol v0; Some [ucast (m0_hat AND 0xff)] }) =
      Some (concat (map (\<lambda>t. [msg ! (3 * (n div 3) + t)]) [0..<n mod 3]))"
    unfolding Let_def golay_received
  proof (rule for_append_Some)
    fix t assume "t \<in> set [0..<n mod 3]"
    then have t: "2 * (n div 3) + t < golay_blocks n" by simp
    have "(ucast (ucast (b :: u8) AND (0xff :: u32)) :: u8) = b" for b
      by (rule bit_word_eqI) (auto simp: bit_ucast_iff bit_and_iff bit_nibble_masks simp del: bit_numeral_word_iff)
    then show "fec_golay2412_decode_symbol (stream_word 24 rx (24 * (2 * (n div 3) + t))) \<bind>
        (\<lambda>m0_hat. Some [ucast (m0_hat AND 0xff)]) = Some [msg ! (3 * (n div 3) + t)]"
      unfolding dec [OF t] bind.bind_lunit golay_sym_tail by simp
  qed
  have "concat (map (\<lambda>t. map (\<lambda>c. msg ! (3 * t + c)) [0..<3]) [0..<n div 3]) @
      concat (map (\<lambda>t. [msg ! (3 * (n div 3) + t)]) [0..<n mod 3]) = msg"
  proof -
    have "concat (map (\<lambda>t. map (\<lambda>c. msg ! (3 * t + c)) [0..<3]) [0..<n div 3]) @
        concat (map (\<lambda>t. [msg ! (3 * (n div 3) + t)]) [0..<n mod 3]) =
      map ((!) msg) [0..<3 * (n div 3)] @ map (\<lambda>t. msg ! (3 * (n div 3) + t)) [0..<n mod 3]"
      by (simp only: concat_map_singleton concat_map_blocks)
    also have "\<dots> = msg"
    proof (rule nth_equalityI)
      fix i assume "i < length (map ((!) msg) [0..<3 * (n div 3)] @ map (\<lambda>t. msg ! (3 * (n div 3) + t)) [0..<n mod 3])"
      then have "i < n" by simp
      moreover from this have "i - 3 * (n div 3) < n mod 3" if "\<not> i < 3 * (n div 3)" using that by (simp add: less_diff_conv2)
      ultimately show "(map ((!) msg) [0..<3 * (n div 3)] @ map (\<lambda>t. msg ! (3 * (n div 3) + t)) [0..<n mod 3]) ! i = msg ! i"
        by (auto simp: nth_append)
    qed (simp add: assms(2))
    finally show ?thesis .
  qed
  moreover have "6 * (n div 3) + 3 * (n mod 3) = 3 * golay_blocks n" by simp
  ultimately show ?thesis
    unfolding fec_golay2412_decode_def Let_def blocks_of_three pairs [unfolded Let_def] tails [unfolded Let_def]
      bind.bind_lunit golay_enc_len [OF assms(1)] by (simp only: if_True refl)
qed

text \<open>C25: The Golay codec corrects three errors per symbol. Encoding never aborts; from any received array in
  which each 24-bit block carries at most three wrong bits, decoding gives the message back, for every message
  of fewer than \<open>2 ^ 26\<close> bytes, whatever its length modulo 3.\<close>
theorem golay_corrects_three_errors:
  assumes "n < msg_bound" and "length msg = n"
  shows "\<exists>out. fec_golay2412_encode n msg = Some out \<and> fec_get_enc_msg_length FEC_GOLAY2412 n = Some (length out) \<and>
    (\<forall>rx. (\<forall>t < length out div 3. stream_errors 24 out rx (24 * t) \<le> 3) \<longrightarrow> fec_golay2412_decode n rx = Some msg)"
  using golay_encode_symbols [OF assms(1), of msg] golay_decode_symbols [OF assms] golay_enc_len [OF assms(1)]
  by (intro exI [where x = "golay_stream n msg"]) (simp del: fec_get_enc_msg_length.simps)

theorem golay_corrects_three_errors_witness:
  "\<exists>out. fec_golay2412_encode 4 [0x3c, 0xf1, 0x07, 0xaa] = Some out \<and>
    fec_get_enc_msg_length FEC_GOLAY2412 4 = Some (length out) \<and>
    (\<forall>rx. (\<forall>t < length out div 3. stream_errors 24 out rx (24 * t) \<le> 3) \<longrightarrow>
      fec_golay2412_decode 4 rx = Some [0x3c, 0xf1, 0x07, 0xaa])"
  by (rule golay_corrects_three_errors) simp_all

end
