(* ===== verification/Hamming_Codes.thy ===== *)
theory Hamming_Codes
  imports Block_Codes
begin

unbundle bit_operations_syntax

text \<open>
  The interface of the syndrome decoders \<^verbatim>\<open>fec_hamming128.c\<close>, \<^verbatim>\<open>fec_hamming1511.c\<close> and
  \<^verbatim>\<open>fec_hamming3126.c\<close>: encoder, syndrome and data extraction are additive over exclusive or, the
  syndrome of a single wrong bit is its position, and the syndrome of a code word is zero. The
  locale proves from these laws that one wrong bit is corrected and that the minimum distance is 3.
  All laws but additivity speak of single bits, so each codec discharges them by evaluation.
\<close>

section \<open>Additive functions on words\<close>

definition unit_word :: "nat \<Rightarrow> 'a::len word" where
  "unit_word j = push_bit j 1"

lemma bit_unit_word [simp]: "bit (unit_word j :: 'a::len word) i \<longleftrightarrow> i = j \<and> j < LENGTH('a)"
  unfolding unit_word_def by (rule bit_exp_word)

lemma ones_flip: "bit e j \<Longrightarrow> ones e = Suc (ones (e XOR unit_word j))"
proof -
  fix e :: "'a::len word" assume e: "bit e j"
  then have j: "j < LENGTH('a)" by (rule bit_imp_le_length)
  have split: "filter P [0..<n] = filter P [0..<j] @ (if P j then [j] else []) @ filter P [Suc j..<n]"
    if "j < n" for P :: "nat \<Rightarrow> bool" and n
  proof -
    have "[0..<n] = [0..<j] @ j # [Suc j..<n]"
      using upt_add_eq_append [of 0 j "n - j"] upt_conv_Cons [OF that] that by simp
    then show ?thesis by simp
  qed
  have "filter (bit (e XOR unit_word j)) xs = filter (bit e) xs" if "j \<notin> set xs" for xs
    using that by (intro filter_cong refl) (auto simp: bit_xor_iff)
  then have "filter (bit (e XOR unit_word j)) [0..<j] = filter (bit e) [0..<j]"
    "filter (bit (e XOR unit_word j)) [Suc j..<LENGTH('a)] = filter (bit e) [Suc j..<LENGTH('a)]" by simp_all
  then show "ones e = Suc (ones (e XOR unit_word j))"
    unfolding ones_def split [OF j] using e j by (simp add: bit_xor_iff)
qed

lemma ones_le_1: "ones e \<le> 1 \<longleftrightarrow> e = 0 \<or> (\<exists>j < LENGTH('a). e = unit_word j)" for e :: "'a::len word"
proof
  assume w: "ones e \<le> 1"
  show "e = 0 \<or> (\<exists>j < LENGTH('a). e = unit_word j)"
  proof (cases "e = 0")
    case False
    then obtain j where j: "bit e j" by (auto simp: bit_eq_iff)
    from ones_flip [OF j] w have "ones (e XOR unit_word j) = 0" by simp
    then have "e = unit_word j" by (simp add: ones_eq_0_iff xor_zero_iff)
    with j show ?thesis by (auto dest: bit_imp_le_length)
  qed simp
qed (auto simp: unit_word_def ones_exp simp del: push_bit_of_1)

lemma ones_le_2:
  fixes e :: "'a::len word"
  assumes "ones e \<le> 2" and "e \<noteq> 0"
  obtains j where "j < LENGTH('a)" "e = unit_word j"
    | i j where "i < LENGTH('a)" "j < LENGTH('a)" "i \<noteq> j" "e = unit_word i XOR unit_word j"
proof -
  from assms(2) obtain i where i: "bit e i" by (auto simp: bit_eq_iff)
  from ones_flip [OF i] assms(1) have "ones (e XOR unit_word i) \<le> 1" by simp
  then consider "e XOR unit_word i = 0" | j where "j < LENGTH('a)" "e XOR unit_word i = unit_word j"
    by (auto simp only: ones_le_1)
  then show thesis
  proof cases
    case 1
    then show thesis using i that(1) [of i] by (auto simp: xor_zero_iff dest: bit_imp_le_length)
  next
    case (2 j)
    have "e = (e XOR unit_word i) XOR unit_word i" by (simp add: xor.assoc)
    then have e: "e = unit_word i XOR unit_word j" by (simp only: 2(2) xor.commute)
    have "i \<noteq> j" using i 2(1) by (auto simp: e bit_xor_iff)
    then show thesis using that(2) [OF _ 2(1) _ e] i by (auto dest: bit_imp_le_length)
  qed
qed

text \<open>Additive functions that agree on single bits agree on all words of these bits.\<close>

lemma additive_agree:
  fixes f g :: "'a::len word \<Rightarrow> 'b::len word"
  assumes f: "\<And>x y. f (x XOR y) = f x XOR f y" and g: "\<And>x y. g (x XOR y) = g x XOR g y"
    and units: "\<And>j. j < k \<Longrightarrow> f (unit_word j) = g (unit_word j)"
    and "take_bit k x = x"
  shows "f x = g x"
  using units assms(4)
proof (induction k arbitrary: x)
  case 0
  have "f (0 XOR 0) = f 0 XOR f 0" "g (0 XOR 0) = g 0 XOR g 0" by (simp_all only: f g)
  with 0 show ?case by simp
next
  case (Suc k)
  have low: "take_bit k (take_bit k x) = take_bit k x" by simp
  have IH: "f (take_bit k x) = g (take_bit k x)" using Suc.IH [OF _ low] Suc.prems(1) by simp
  show ?case
  proof (cases "bit x k")
    case True
    have "x = take_bit k x XOR unit_word k"
    proof (rule bit_word_eqI)
      fix i assume "i < LENGTH('a)"
      have "bit x i \<longleftrightarrow> i < Suc k \<and> bit x i" by (subst (1) Suc.prems(2) [symmetric]) (simp add: bit_take_bit_iff)
      with True show "bit x i = bit (take_bit k x XOR unit_word k) i"
        by (auto simp: bit_xor_iff bit_take_bit_iff less_Suc_eq dest: bit_imp_le_length)
    qed
    then have "f x = f (take_bit k x) XOR f (unit_word k)" "g x = g (take_bit k x) XOR g (unit_word k)"
      by (metis f, metis g)
    with IH Suc.prems(1) [of k] show ?thesis by simp
  next
    case False
    have "x = take_bit k x"
    proof (rule bit_word_eqI)
      fix i assume "i < LENGTH('a)"
      have "bit x i \<longleftrightarrow> i < Suc k \<and> bit x i" by (subst (1) Suc.prems(2) [symmetric]) (simp add: bit_take_bit_iff)
      with False show "bit x i = bit (take_bit k x) i" by (auto simp: bit_take_bit_iff less_Suc_eq)
    qed
    with IH show ?thesis by simp
  qed
qed

section \<open>Syndrome decoding\<close>

text \<open>The correction step of the decoders.\<close>

definition flip_at :: "nat \<Rightarrow> nat \<Rightarrow> u32 \<Rightarrow> u32" where
  "flip_at len z r = (if z \<noteq> 0 then if z > len then r else r XOR push_bit (len - z) 1 else r)"

locale hamming_code =
  fixes enc syn strip :: "u32 \<Rightarrow> u32" and len k :: nat
  assumes enc_xor: "enc (x XOR y) = enc x XOR enc y"
    and syn_xor: "syn (x XOR y) = syn x XOR syn y"
    and strip_xor: "strip (x XOR y) = strip x XOR strip y"
    and len: "len < 32" and k: "k < 32"
    and syn_unit: "j < len \<Longrightarrow> syn (unit_word j) = of_nat (len - j)"
    and syn_enc_unit: "j < k \<Longrightarrow> syn (enc (unit_word j)) = 0"
    and strip_enc_unit: "j < k \<Longrightarrow> strip (enc (unit_word j)) = unit_word j"
    and enc_unit_fits: "j < k \<Longrightarrow> take_bit len (enc (unit_word j)) = enc (unit_word j)"
begin

lemma syn_enc: "take_bit k m = m \<Longrightarrow> syn (enc m) = 0"
  using additive_agree [of "\<lambda>m. syn (enc m)" "\<lambda>_. 0" k m] syn_enc_unit by (simp add: enc_xor syn_xor)

lemma strip_enc: "take_bit k m = m \<Longrightarrow> strip (enc m) = m"
  using additive_agree [of "\<lambda>m. strip (enc m)" "\<lambda>m. m" k m] strip_enc_unit by (simp add: enc_xor strip_xor)

lemma enc_fits: "take_bit k m = m \<Longrightarrow> take_bit len (enc m) = enc m"
  using additive_agree [of "\<lambda>m. take_bit len (enc m)" enc k m] enc_unit_fits by (simp add: enc_xor take_bit_xor)

lemma unat_syn_unit: "j < len \<Longrightarrow> unat (syn (unit_word j)) = len - j"
  using len by (simp only: syn_unit unat_of_nat) (simp add: take_bit_nat_eq_self)

lemma fits_xor_unit:
  "take_bit len (x :: u32) = x \<Longrightarrow> take_bit len (x XOR unit_word j) = x XOR unit_word j \<Longrightarrow> j < 32 \<Longrightarrow> j < len"
proof -
  assume x: "take_bit len x = x" and xu: "take_bit len (x XOR unit_word j) = x XOR unit_word j" and j: "j < 32"
  show "j < len"
  proof (rule ccontr)
    assume "\<not> j < len"
    then have "\<not> bit x j" "\<not> bit (x XOR unit_word j) j"
      by (subst x [symmetric], simp add: bit_take_bit_iff, subst xu [symmetric], simp only: bit_take_bit_iff, simp)
    with j show False by (simp add: bit_xor_iff)
  qed
qed

lemma corrects:
  assumes m: "take_bit k m = m" and r: "take_bit len r = r" and w: "ones (enc m XOR r) \<le> 1"
  shows "strip (flip_at len (unat (syn r)) r) = m"
proof -
  define e where "e = enc m XOR r"
  have r_eq: "r = enc m XOR e" by (simp add: e_def xor.assoc [symmetric])
  have syn: "syn r = syn e" by (simp add: r_eq syn_xor syn_enc [OF m])
  from w consider "e = 0" | j where "j < 32" "e = unit_word j"
    unfolding e_def [symmetric] ones_le_1 by auto
  then show ?thesis
  proof cases
    case 1
    then have "syn r = 0" using syn_xor [of 0 0] by (simp add: syn)
    with 1 show ?thesis by (simp add: flip_at_def r_eq strip_enc [OF m])
  next
    case (2 j)
    have "j < len" using r 2(1) by (intro fits_xor_unit [OF enc_fits [OF m], of j]) (simp_all add: r_eq 2(2))
    then have "flip_at len (unat (syn r)) r = r XOR unit_word j"
      using diff_le_self [of len j]
      by (simp add: syn 2(2) unat_syn_unit flip_at_def unit_word_def [symmetric] leD del: push_bit_of_1)
    also have "\<dots> = enc m" by (simp add: r_eq 2(2) xor.assoc)
    finally show ?thesis by (simp add: strip_enc [OF m])
  qed
qed

text \<open>Two symbols never have code words nearer than three bits.\<close>

lemma word_distance:
  assumes a: "take_bit k a = a" and b: "take_bit k b = b" and "a \<noteq> b"
  shows "3 \<le> ones (enc a XOR enc b)"
proof (rule ccontr)
  assume "\<not> 3 \<le> ones (enc a XOR enc b)"
  then have le: "ones (enc a XOR enc b) \<le> 2" by simp
  have fits: "take_bit len (enc a XOR enc b) = enc a XOR enc b" by (simp add: take_bit_xor enc_fits a b)
  have syn0: "syn (enc a XOR enc b) = 0" by (simp add: syn_xor syn_enc a b)
  have ne: "enc a XOR enc b \<noteq> 0" using strip_enc [OF a] strip_enc [OF b] assms(3) by (auto simp: xor_zero_iff)
  have bound: "j < len" if "bit (enc a XOR enc b) j" for j
    using that fits bit_take_bit_iff [of len "enc a XOR enc b" j] by simp
  from le ne show False
  proof (cases rule: ones_le_2)
    case (1 j)
    then have "j < len" using bound [of j] by simp
    then have "unat (syn (enc a XOR enc b)) \<noteq> 0" by (simp add: 1(2) unat_syn_unit)
    with syn0 show False by simp
  next
    case (2 i j)
    then have "i < len" "j < len" using bound [of i] bound [of j] by (simp_all add: bit_xor_iff)
    moreover have "syn (unit_word i) = syn (unit_word j)" using syn0 by (simp add: 2(4) syn_xor xor_zero_iff)
    ultimately have "len - i = len - j" using unat_syn_unit by metis
    with \<open>i < len\<close> \<open>j < len\<close> 2(3) show False by simp
  qed
qed

lemma symbol_fits: "a < 2 ^ k \<Longrightarrow> take_bit k (of_nat a :: u32) = of_nat a"
  using k by (simp add: take_bit_of_nat take_bit_nat_eq_self)

lemma symbol_inj: "a < 2 ^ k \<Longrightarrow> b < 2 ^ k \<Longrightarrow> (of_nat a :: u32) = of_nat b \<longleftrightarrow> a = b"
proof -
  assume ab: "a < 2 ^ k" "b < 2 ^ k"
  have "(2 :: nat) ^ k \<le> 2 ^ 32" using k by (intro power_increasing) simp_all
  with ab show ?thesis by (simp add: of_nat_inverse word_of_nat_eq_iff take_bit_nat_eq_self)
qed

end

text \<open>Every such code is a block code of minimum distance 3.\<close>

sublocale hamming_code \<subseteq> block_code "\<lambda>a. enc (of_nat a)" "2 ^ k" 3
  by unfold_locales (simp add: word_distance symbol_fits symbol_inj)

section \<open>Proving the laws for a concrete code\<close>

text \<open>Additivity is shown bit by bit: each output bit is an input bit or a parity.\<close>

lemma less_32_cases: "i < 32 \<Longrightarrow> P 0 \<Longrightarrow> P 1 \<Longrightarrow> P 2 \<Longrightarrow> P 3 \<Longrightarrow> P 4 \<Longrightarrow> P 5 \<Longrightarrow> P 6 \<Longrightarrow> P 7 \<Longrightarrow>
  P 8 \<Longrightarrow> P 9 \<Longrightarrow> P 10 \<Longrightarrow> P 11 \<Longrightarrow> P 12 \<Longrightarrow> P 13 \<Longrightarrow> P 14 \<Longrightarrow> P 15 \<Longrightarrow>
  P 16 \<Longrightarrow> P 17 \<Longrightarrow> P 18 \<Longrightarrow> P 19 \<Longrightarrow> P 20 \<Longrightarrow> P 21 \<Longrightarrow> P 22 \<Longrightarrow> P 23 \<Longrightarrow>
  P 24 \<Longrightarrow> P 25 \<Longrightarrow> P 26 \<Longrightarrow> P 27 \<Longrightarrow> P 28 \<Longrightarrow> P 29 \<Longrightarrow> P 30 \<Longrightarrow> P 31 \<Longrightarrow> P (i :: nat)"
  by (simp add: less_Suc_eq numeral_eq_Suc) (elim disjE; simp)

definition dot16 :: "u32 \<Rightarrow> u32 \<Rightarrow> bool" where
  "dot16 x m \<longleftrightarrow> parity_of (take_bit 16 (x AND m))"

definition dot32 :: "u32 \<Rightarrow> u32 \<Rightarrow> bool" where
  "dot32 x m \<longleftrightarrow> parity_of (x AND m)"

lemma bit_bdotprod:
  "bit (liquid_bdotprod_uint16 x m) i \<longleftrightarrow> i = 0 \<and> dot16 x m"
  "bit (liquid_bdotprod_uint32 x m) i \<longleftrightarrow> i = 0 \<and> dot32 x m"
  by (auto simp: dot16_def dot32_def liquid_bdotprod_uint16_parity liquid_bdotprod_uint32_parity bit_of_bool_iff)

lemma dot_xor:
  "dot16 (x XOR y) m \<longleftrightarrow> (dot16 x m \<noteq> dot16 y m)"
  "dot32 (x XOR y) m \<longleftrightarrow> (dot32 x m \<noteq> dot32 y m)"
  by (simp_all only: dot16_def dot32_def and_xor_distrib and.commute [of _ m] take_bit_xor parity_of_xor)

lemmas code_bits = bit_bdotprod dot_xor bit_or_iff bit_xor_iff bit_and_iff bit_push_bit_iff bit_drop_bit_eq comp_apply

lemma word32_eqI: "(\<And>i. i < 32 \<Longrightarrow> bit x i = bit y i) \<Longrightarrow> x = (y :: u32)"
  by (rule bit_word_eqI) simp

lemma symbol_too_large: "take_bit k x = x \<Longrightarrow> k < 32 \<Longrightarrow> \<not> push_bit k 1 \<le> (x :: u32)"
proof -
  assume x: "take_bit k x = x" and k: "k < 32"
  have "unat (take_bit k x) < 2 ^ k" by (simp only: unsigned_take_bit_eq take_bit_nat_less_exp)
  moreover have "unat (push_bit k 1 :: u32) = 2 ^ k"
    using k by (simp only: unsigned_push_bit_eq) (simp add: take_bit_push_bit)
  ultimately show ?thesis by (simp add: x word_le_nat_alt)
qed

lemma list_all_upt_units:
  "map f [0..<k] = cs \<Longrightarrow> list_all P cs \<Longrightarrow> j < k \<Longrightarrow> P (f j)"
  by (auto simp: list_all_iff)

text \<open>All code words from those of the single bits, in the order of the symbols.\<close>

fun span_words :: "u32 list \<Rightarrow> u32 list" where
  "span_words [] = [0]"
| "span_words (b # bs) = span_words bs @ map (\<lambda>x. b XOR x) (span_words bs)"

lemma of_nat_add_unit:
  assumes "s < 2 ^ k" and "k < 32"
  shows "(of_nat (2 ^ k + s) :: u32) = unit_word k XOR of_nat s"
proof -
  have s: "bit (of_nat s :: u32) i \<Longrightarrow> i < k" for i
  proof -
    assume "bit (of_nat s :: u32) i"
    then have "bit (take_bit k s) i" using assms(1) by (simp add: bit_of_nat_iff take_bit_nat_eq_self)
    then show "i < k" by (simp add: bit_take_bit_iff)
  qed
  have "(unit_word k :: u32) + of_nat s = unit_word k OR of_nat s"
    by (rule disjunctive_add_eq_or) (auto intro!: bit_word_eqI simp: bit_and_iff dest: s)
  also have "\<dots> = unit_word k XOR of_nat s"
    by (rule bit_word_eqI) (auto simp: bit_or_iff bit_xor_iff dest: s)
  finally show ?thesis by (simp add: unit_word_def push_bit_of_1)
qed

lemma span_words_additive:
  fixes f :: "u32 \<Rightarrow> u32"
  assumes f: "\<And>x y. f (x XOR y) = f x XOR f y" and "k \<le> 32"
  shows "map (\<lambda>s. f (of_nat s)) [0..<2 ^ k] = span_words (map (\<lambda>j. f (unit_word j)) (rev [0..<k]))"
  using assms(2)
proof (induction k)
  case 0
  have "f (0 XOR 0) = f 0 XOR f 0" by (rule f)
  then show ?case by simp
next
  case (Suc k)
  have "[0..<2 ^ Suc k] = [0..<2 ^ k] @ map (\<lambda>s. 2 ^ k + s) [0..<2 ^ k :: nat]"
    by (rule nth_equalityI) (auto simp: nth_append)
  then have "map (\<lambda>s. f (of_nat s)) [0..<2 ^ Suc k] =
      map (\<lambda>s. f (of_nat s)) [0..<2 ^ k] @ map (\<lambda>s. f (of_nat (2 ^ k + s))) [0..<2 ^ k]"
    by (simp only: map_append map_map comp_def)
  also have "map (\<lambda>s. f (of_nat (2 ^ k + s))) [0..<2 ^ k] =
      map (\<lambda>x. f (unit_word k) XOR x) (map (\<lambda>s. f (of_nat s)) [0..<2 ^ k])"
    using Suc.prems by (simp only: map_map comp_def) (intro map_cong refl, auto simp only: set_upt atLeastLessThan_iff of_nat_add_unit f Suc_le_eq)
  finally show ?case using Suc by simp
qed

end
