(* ===== verification/Fec_Hamming128.thy ===== *)
theory Fec_Hamming128
  imports Hamming_Codes Fec_Scheme Fec_Rep
begin

unbundle bit_operations_syntax

text \<open>
  \<^verbatim>\<open>liquid_dsp/src/fec/src/fec_hamming128.c\<close> and \<^verbatim>\<open>fec_hamming128_gentab.c\<close>: the Hamming(12,8)
  code, its tables, the hard decoder by syndrome, the soft decoder over all symbols and the soft
  decoder over the nearest neighbours of the hard decision. Two 12-bit code words take three bytes; a
  last single one takes two, its final four bits being zero.
\<close>

section \<open>Tables\<close>

definition hamming128_enc_gentab :: "u16 list" where
  "hamming128_enc_gentab = [
    0x0000, 0x0111, 0x0c12, 0x0d03, 0x0414, 0x0505, 0x0806, 0x0917,
    0x0818, 0x0909, 0x040a, 0x051b, 0x0c0c, 0x0d1d, 0x001e, 0x010f,
    0x0d20, 0x0c31, 0x0132, 0x0023, 0x0934, 0x0825, 0x0526, 0x0437,
    0x0538, 0x0429, 0x092a, 0x083b, 0x012c, 0x003d, 0x0d3e, 0x0c2f,
    0x0540, 0x0451, 0x0952, 0x0843, 0x0154, 0x0045, 0x0d46, 0x0c57,
    0x0d58, 0x0c49, 0x014a, 0x005b, 0x094c, 0x085d, 0x055e, 0x044f,
    0x0860, 0x0971, 0x0472, 0x0563, 0x0c74, 0x0d65, 0x0066, 0x0177,
    0x0078, 0x0169, 0x0c6a, 0x0d7b, 0x046c, 0x057d, 0x087e, 0x096f,
    0x0980, 0x0891, 0x0592, 0x0483, 0x0d94, 0x0c85, 0x0186, 0x0097,
    0x0198, 0x0089, 0x0d8a, 0x0c9b, 0x058c, 0x049d, 0x099e, 0x088f,
    0x04a0, 0x05b1, 0x08b2, 0x09a3, 0x00b4, 0x01a5, 0x0ca6, 0x0db7,
    0x0cb8, 0x0da9, 0x00aa, 0x01bb, 0x08ac, 0x09bd, 0x04be, 0x05af,
    0x0cc0, 0x0dd1, 0x00d2, 0x01c3, 0x08d4, 0x09c5, 0x04c6, 0x05d7,
    0x04d8, 0x05c9, 0x08ca, 0x09db, 0x00cc, 0x01dd, 0x0cde, 0x0dcf,
    0x01e0, 0x00f1, 0x0df2, 0x0ce3, 0x05f4, 0x04e5, 0x09e6, 0x08f7,
    0x09f8, 0x08e9, 0x05ea, 0x04fb, 0x0dec, 0x0cfd, 0x01fe, 0x00ef,
    0x0e00, 0x0f11, 0x0212, 0x0303, 0x0a14, 0x0b05, 0x0606, 0x0717,
    0x0618, 0x0709, 0x0a0a, 0x0b1b, 0x020c, 0x031d, 0x0e1e, 0x0f0f,
    0x0320, 0x0231, 0x0f32, 0x0e23, 0x0734, 0x0625, 0x0b26, 0x0a37,
    0x0b38, 0x0a29, 0x072a, 0x063b, 0x0f2c, 0x0e3d, 0x033e, 0x022f,
    0x0b40, 0x0a51, 0x0752, 0x0643, 0x0f54, 0x0e45, 0x0346, 0x0257,
    0x0358, 0x0249, 0x0f4a, 0x0e5b, 0x074c, 0x065d, 0x0b5e, 0x0a4f,
    0x0660, 0x0771, 0x0a72, 0x0b63, 0x0274, 0x0365, 0x0e66, 0x0f77,
    0x0e78, 0x0f69, 0x026a, 0x037b, 0x0a6c, 0x0b7d, 0x067e, 0x076f,
    0x0780, 0x0691, 0x0b92, 0x0a83, 0x0394, 0x0285, 0x0f86, 0x0e97,
    0x0f98, 0x0e89, 0x038a, 0x029b, 0x0b8c, 0x0a9d, 0x079e, 0x068f,
    0x0aa0, 0x0bb1, 0x06b2, 0x07a3, 0x0eb4, 0x0fa5, 0x02a6, 0x03b7,
    0x02b8, 0x03a9, 0x0eaa, 0x0fbb, 0x06ac, 0x07bd, 0x0abe, 0x0baf,
    0x02c0, 0x03d1, 0x0ed2, 0x0fc3, 0x06d4, 0x07c5, 0x0ac6, 0x0bd7,
    0x0ad8, 0x0bc9, 0x06ca, 0x07db, 0x0ecc, 0x0fdd, 0x02de, 0x03cf,
    0x0fe0, 0x0ef1, 0x03f2, 0x02e3, 0x0bf4, 0x0ae5, 0x07e6, 0x06f7,
    0x07f8, 0x06e9, 0x0bea, 0x0afb, 0x03ec, 0x02fd, 0x0ffe, 0x0eef]"

definition fecsoft_hamming128_n3 :: "u8 list list" where
  "fecsoft_hamming128_n3 = [
    [0x01, 0x04, 0x06, 0x08, 0x0a, 0x13, 0x20, 0x25, 0x30, 0x40, 0x49, 0x50, 0x80, 0x82, 0x8c, 0x90, 0xe0],
    [0x00, 0x05, 0x07, 0x09, 0x0b, 0x12, 0x21, 0x24, 0x31, 0x41, 0x48, 0x51, 0x81, 0x83, 0x8d, 0x91, 0xe1],
    [0x03, 0x04, 0x06, 0x08, 0x0a, 0x11, 0x22, 0x27, 0x32, 0x42, 0x4b, 0x52, 0x80, 0x82, 0x8e, 0x92, 0xe2],
    [0x02, 0x05, 0x07, 0x09, 0x0b, 0x10, 0x23, 0x26, 0x33, 0x43, 0x4a, 0x53, 0x81, 0x83, 0x8f, 0x93, 0xe3],
    [0x00, 0x02, 0x05, 0x0c, 0x0e, 0x17, 0x21, 0x24, 0x34, 0x44, 0x4d, 0x54, 0x84, 0x86, 0x88, 0x94, 0xe4],
    [0x01, 0x03, 0x04, 0x0d, 0x0f, 0x16, 0x20, 0x25, 0x35, 0x45, 0x4c, 0x55, 0x85, 0x87, 0x89, 0x95, 0xe5],
    [0x00, 0x02, 0x07, 0x0c, 0x0e, 0x15, 0x23, 0x26, 0x36, 0x46, 0x4f, 0x56, 0x84, 0x86, 0x8a, 0x96, 0xe6],
    [0x01, 0x03, 0x06, 0x0d, 0x0f, 0x14, 0x22, 0x27, 0x37, 0x47, 0x4e, 0x57, 0x85, 0x87, 0x8b, 0x97, 0xe7],
    [0x00, 0x02, 0x09, 0x0c, 0x0e, 0x1b, 0x28, 0x2d, 0x38, 0x41, 0x48, 0x58, 0x84, 0x88, 0x8a, 0x98, 0xe8],
    [0x01, 0x03, 0x08, 0x0d, 0x0f, 0x1a, 0x29, 0x2c, 0x39, 0x40, 0x49, 0x59, 0x85, 0x89, 0x8b, 0x99, 0xe9],
    [0x00, 0x02, 0x0b, 0x0c, 0x0e, 0x19, 0x2a, 0x2f, 0x3a, 0x43, 0x4a, 0x5a, 0x86, 0x88, 0x8a, 0x9a, 0xea],
    [0x01, 0x03, 0x0a, 0x0d, 0x0f, 0x18, 0x2b, 0x2e, 0x3b, 0x42, 0x4b, 0x5b, 0x87, 0x89, 0x8b, 0x9b, 0xeb],
    [0x04, 0x06, 0x08, 0x0a, 0x0d, 0x1f, 0x29, 0x2c, 0x3c, 0x45, 0x4c, 0x5c, 0x80, 0x8c, 0x8e, 0x9c, 0xec],
    [0x05, 0x07, 0x09, 0x0b, 0x0c, 0x1e, 0x28, 0x2d, 0x3d, 0x44, 0x4d, 0x5d, 0x81, 0x8d, 0x8f, 0x9d, 0xed],
    [0x04, 0x06, 0x08, 0x0a, 0x0f, 0x1d, 0x2b, 0x2e, 0x3e, 0x47, 0x4e, 0x5e, 0x82, 0x8c, 0x8e, 0x9e, 0xee],
    [0x05, 0x07, 0x09, 0x0b, 0x0e, 0x1c, 0x2a, 0x2f, 0x3f, 0x46, 0x4f, 0x5f, 0x83, 0x8d, 0x8f, 0x9f, 0xef],
    [0x03, 0x11, 0x14, 0x16, 0x18, 0x1a, 0x20, 0x30, 0x35, 0x40, 0x50, 0x59, 0x80, 0x90, 0x92, 0x9c, 0xf0],
    [0x02, 0x10, 0x15, 0x17, 0x19, 0x1b, 0x21, 0x31, 0x34, 0x41, 0x51, 0x58, 0x81, 0x91, 0x93, 0x9d, 0xf1],
    [0x01, 0x13, 0x14, 0x16, 0x18, 0x1a, 0x22, 0x32, 0x37, 0x42, 0x52, 0x5b, 0x82, 0x90, 0x92, 0x9e, 0xf2],
    [0x00, 0x12, 0x15, 0x17, 0x19, 0x1b, 0x23, 0x33, 0x36, 0x43, 0x53, 0x5a, 0x83, 0x91, 0x93, 0x9f, 0xf3],
    [0x07, 0x10, 0x12, 0x15, 0x1c, 0x1e, 0x24, 0x31, 0x34, 0x44, 0x54, 0x5d, 0x84, 0x94, 0x96, 0x98, 0xf4],
    [0x06, 0x11, 0x13, 0x14, 0x1d, 0x1f, 0x25, 0x30, 0x35, 0x45, 0x55, 0x5c, 0x85, 0x95, 0x97, 0x99, 0xf5],
    [0x05, 0x10, 0x12, 0x17, 0x1c, 0x1e, 0x26, 0x33, 0x36, 0x46, 0x56, 0x5f, 0x86, 0x94, 0x96, 0x9a, 0xf6],
    [0x04, 0x11, 0x13, 0x16, 0x1d, 0x1f, 0x27, 0x32, 0x37, 0x47, 0x57, 0x5e, 0x87, 0x95, 0x97, 0x9b, 0xf7],
    [0x0b, 0x10, 0x12, 0x19, 0x1c, 0x1e, 0x28, 0x38, 0x3d, 0x48, 0x51, 0x58, 0x88, 0x94, 0x98, 0x9a, 0xf8],
    [0x0a, 0x11, 0x13, 0x18, 0x1d, 0x1f, 0x29, 0x39, 0x3c, 0x49, 0x50, 0x59, 0x89, 0x95, 0x99, 0x9b, 0xf9],
    [0x09, 0x10, 0x12, 0x1b, 0x1c, 0x1e, 0x2a, 0x3a, 0x3f, 0x4a, 0x53, 0x5a, 0x8a, 0x96, 0x98, 0x9a, 0xfa],
    [0x08, 0x11, 0x13, 0x1a, 0x1d, 0x1f, 0x2b, 0x3b, 0x3e, 0x4b, 0x52, 0x5b, 0x8b, 0x97, 0x99, 0x9b, 0xfb],
    [0x0f, 0x14, 0x16, 0x18, 0x1a, 0x1d, 0x2c, 0x39, 0x3c, 0x4c, 0x55, 0x5c, 0x8c, 0x90, 0x9c, 0x9e, 0xfc],
    [0x0e, 0x15, 0x17, 0x19, 0x1b, 0x1c, 0x2d, 0x38, 0x3d, 0x4d, 0x54, 0x5d, 0x8d, 0x91, 0x9d, 0x9f, 0xfd],
    [0x0d, 0x14, 0x16, 0x18, 0x1a, 0x1f, 0x2e, 0x3b, 0x3e, 0x4e, 0x57, 0x5e, 0x8e, 0x92, 0x9c, 0x9e, 0xfe],
    [0x0c, 0x15, 0x17, 0x19, 0x1b, 0x1e, 0x2f, 0x3a, 0x3f, 0x4f, 0x56, 0x5f, 0x8f, 0x93, 0x9d, 0x9f, 0xff],
    [0x00, 0x05, 0x10, 0x21, 0x24, 0x26, 0x28, 0x2a, 0x33, 0x60, 0x69, 0x70, 0xa0, 0xa2, 0xac, 0xb0, 0xc0],
    [0x01, 0x04, 0x11, 0x20, 0x25, 0x27, 0x29, 0x2b, 0x32, 0x61, 0x68, 0x71, 0xa1, 0xa3, 0xad, 0xb1, 0xc1],
    [0x02, 0x07, 0x12, 0x23, 0x24, 0x26, 0x28, 0x2a, 0x31, 0x62, 0x6b, 0x72, 0xa0, 0xa2, 0xae, 0xb2, 0xc2],
    [0x03, 0x06, 0x13, 0x22, 0x25, 0x27, 0x29, 0x2b, 0x30, 0x63, 0x6a, 0x73, 0xa1, 0xa3, 0xaf, 0xb3, 0xc3],
    [0x01, 0x04, 0x14, 0x20, 0x22, 0x25, 0x2c, 0x2e, 0x37, 0x64, 0x6d, 0x74, 0xa4, 0xa6, 0xa8, 0xb4, 0xc4],
    [0x00, 0x05, 0x15, 0x21, 0x23, 0x24, 0x2d, 0x2f, 0x36, 0x65, 0x6c, 0x75, 0xa5, 0xa7, 0xa9, 0xb5, 0xc5],
    [0x03, 0x06, 0x16, 0x20, 0x22, 0x27, 0x2c, 0x2e, 0x35, 0x66, 0x6f, 0x76, 0xa4, 0xa6, 0xaa, 0xb6, 0xc6],
    [0x02, 0x07, 0x17, 0x21, 0x23, 0x26, 0x2d, 0x2f, 0x34, 0x67, 0x6e, 0x77, 0xa5, 0xa7, 0xab, 0xb7, 0xc7],
    [0x08, 0x0d, 0x18, 0x20, 0x22, 0x29, 0x2c, 0x2e, 0x3b, 0x61, 0x68, 0x78, 0xa4, 0xa8, 0xaa, 0xb8, 0xc8],
    [0x09, 0x0c, 0x19, 0x21, 0x23, 0x28, 0x2d, 0x2f, 0x3a, 0x60, 0x69, 0x79, 0xa5, 0xa9, 0xab, 0xb9, 0xc9],
    [0x0a, 0x0f, 0x1a, 0x20, 0x22, 0x2b, 0x2c, 0x2e, 0x39, 0x63, 0x6a, 0x7a, 0xa6, 0xa8, 0xaa, 0xba, 0xca],
    [0x0b, 0x0e, 0x1b, 0x21, 0x23, 0x2a, 0x2d, 0x2f, 0x38, 0x62, 0x6b, 0x7b, 0xa7, 0xa9, 0xab, 0xbb, 0xcb],
    [0x09, 0x0c, 0x1c, 0x24, 0x26, 0x28, 0x2a, 0x2d, 0x3f, 0x65, 0x6c, 0x7c, 0xa0, 0xac, 0xae, 0xbc, 0xcc],
    [0x08, 0x0d, 0x1d, 0x25, 0x27, 0x29, 0x2b, 0x2c, 0x3e, 0x64, 0x6d, 0x7d, 0xa1, 0xad, 0xaf, 0xbd, 0xcd],
    [0x0b, 0x0e, 0x1e, 0x24, 0x26, 0x28, 0x2a, 0x2f, 0x3d, 0x67, 0x6e, 0x7e, 0xa2, 0xac, 0xae, 0xbe, 0xce],
    [0x0a, 0x0f, 0x1f, 0x25, 0x27, 0x29, 0x2b, 0x2e, 0x3c, 0x66, 0x6f, 0x7f, 0xa3, 0xad, 0xaf, 0xbf, 0xcf],
    [0x00, 0x10, 0x15, 0x23, 0x31, 0x34, 0x36, 0x38, 0x3a, 0x60, 0x70, 0x79, 0xa0, 0xb0, 0xb2, 0xbc, 0xd0],
    [0x01, 0x11, 0x14, 0x22, 0x30, 0x35, 0x37, 0x39, 0x3b, 0x61, 0x71, 0x78, 0xa1, 0xb1, 0xb3, 0xbd, 0xd1],
    [0x02, 0x12, 0x17, 0x21, 0x33, 0x34, 0x36, 0x38, 0x3a, 0x62, 0x72, 0x7b, 0xa2, 0xb0, 0xb2, 0xbe, 0xd2],
    [0x03, 0x13, 0x16, 0x20, 0x32, 0x35, 0x37, 0x39, 0x3b, 0x63, 0x73, 0x7a, 0xa3, 0xb1, 0xb3, 0xbf, 0xd3],
    [0x04, 0x11, 0x14, 0x27, 0x30, 0x32, 0x35, 0x3c, 0x3e, 0x64, 0x74, 0x7d, 0xa4, 0xb4, 0xb6, 0xb8, 0xd4],
    [0x05, 0x10, 0x15, 0x26, 0x31, 0x33, 0x34, 0x3d, 0x3f, 0x65, 0x75, 0x7c, 0xa5, 0xb5, 0xb7, 0xb9, 0xd5],
    [0x06, 0x13, 0x16, 0x25, 0x30, 0x32, 0x37, 0x3c, 0x3e, 0x66, 0x76, 0x7f, 0xa6, 0xb4, 0xb6, 0xba, 0xd6],
    [0x07, 0x12, 0x17, 0x24, 0x31, 0x33, 0x36, 0x3d, 0x3f, 0x67, 0x77, 0x7e, 0xa7, 0xb5, 0xb7, 0xbb, 0xd7],
    [0x08, 0x18, 0x1d, 0x2b, 0x30, 0x32, 0x39, 0x3c, 0x3e, 0x68, 0x71, 0x78, 0xa8, 0xb4, 0xb8, 0xba, 0xd8],
    [0x09, 0x19, 0x1c, 0x2a, 0x31, 0x33, 0x38, 0x3d, 0x3f, 0x69, 0x70, 0x79, 0xa9, 0xb5, 0xb9, 0xbb, 0xd9],
    [0x0a, 0x1a, 0x1f, 0x29, 0x30, 0x32, 0x3b, 0x3c, 0x3e, 0x6a, 0x73, 0x7a, 0xaa, 0xb6, 0xb8, 0xba, 0xda],
    [0x0b, 0x1b, 0x1e, 0x28, 0x31, 0x33, 0x3a, 0x3d, 0x3f, 0x6b, 0x72, 0x7b, 0xab, 0xb7, 0xb9, 0xbb, 0xdb],
    [0x0c, 0x19, 0x1c, 0x2f, 0x34, 0x36, 0x38, 0x3a, 0x3d, 0x6c, 0x75, 0x7c, 0xac, 0xb0, 0xbc, 0xbe, 0xdc],
    [0x0d, 0x18, 0x1d, 0x2e, 0x35, 0x37, 0x39, 0x3b, 0x3c, 0x6d, 0x74, 0x7d, 0xad, 0xb1, 0xbd, 0xbf, 0xdd],
    [0x0e, 0x1b, 0x1e, 0x2d, 0x34, 0x36, 0x38, 0x3a, 0x3f, 0x6e, 0x77, 0x7e, 0xae, 0xb2, 0xbc, 0xbe, 0xde],
    [0x0f, 0x1a, 0x1f, 0x2c, 0x35, 0x37, 0x39, 0x3b, 0x3e, 0x6f, 0x76, 0x7f, 0xaf, 0xb3, 0xbd, 0xbf, 0xdf],
    [0x00, 0x09, 0x10, 0x41, 0x44, 0x46, 0x48, 0x4a, 0x53, 0x60, 0x65, 0x70, 0xa0, 0xc0, 0xc2, 0xcc, 0xd0],
    [0x01, 0x08, 0x11, 0x40, 0x45, 0x47, 0x49, 0x4b, 0x52, 0x61, 0x64, 0x71, 0xa1, 0xc1, 0xc3, 0xcd, 0xd1],
    [0x02, 0x0b, 0x12, 0x43, 0x44, 0x46, 0x48, 0x4a, 0x51, 0x62, 0x67, 0x72, 0xa2, 0xc0, 0xc2, 0xce, 0xd2],
    [0x03, 0x0a, 0x13, 0x42, 0x45, 0x47, 0x49, 0x4b, 0x50, 0x63, 0x66, 0x73, 0xa3, 0xc1, 0xc3, 0xcf, 0xd3],
    [0x04, 0x0d, 0x14, 0x40, 0x42, 0x45, 0x4c, 0x4e, 0x57, 0x61, 0x64, 0x74, 0xa4, 0xc4, 0xc6, 0xc8, 0xd4],
    [0x05, 0x0c, 0x15, 0x41, 0x43, 0x44, 0x4d, 0x4f, 0x56, 0x60, 0x65, 0x75, 0xa5, 0xc5, 0xc7, 0xc9, 0xd5],
    [0x06, 0x0f, 0x16, 0x40, 0x42, 0x47, 0x4c, 0x4e, 0x55, 0x63, 0x66, 0x76, 0xa6, 0xc4, 0xc6, 0xca, 0xd6],
    [0x07, 0x0e, 0x17, 0x41, 0x43, 0x46, 0x4d, 0x4f, 0x54, 0x62, 0x67, 0x77, 0xa7, 0xc5, 0xc7, 0xcb, 0xd7],
    [0x01, 0x08, 0x18, 0x40, 0x42, 0x49, 0x4c, 0x4e, 0x5b, 0x68, 0x6d, 0x78, 0xa8, 0xc4, 0xc8, 0xca, 0xd8],
    [0x00, 0x09, 0x19, 0x41, 0x43, 0x48, 0x4d, 0x4f, 0x5a, 0x69, 0x6c, 0x79, 0xa9, 0xc5, 0xc9, 0xcb, 0xd9],
    [0x03, 0x0a, 0x1a, 0x40, 0x42, 0x4b, 0x4c, 0x4e, 0x59, 0x6a, 0x6f, 0x7a, 0xaa, 0xc6, 0xc8, 0xca, 0xda],
    [0x02, 0x0b, 0x1b, 0x41, 0x43, 0x4a, 0x4d, 0x4f, 0x58, 0x6b, 0x6e, 0x7b, 0xab, 0xc7, 0xc9, 0xcb, 0xdb],
    [0x05, 0x0c, 0x1c, 0x44, 0x46, 0x48, 0x4a, 0x4d, 0x5f, 0x69, 0x6c, 0x7c, 0xac, 0xc0, 0xcc, 0xce, 0xdc],
    [0x04, 0x0d, 0x1d, 0x45, 0x47, 0x49, 0x4b, 0x4c, 0x5e, 0x68, 0x6d, 0x7d, 0xad, 0xc1, 0xcd, 0xcf, 0xdd],
    [0x07, 0x0e, 0x1e, 0x44, 0x46, 0x48, 0x4a, 0x4f, 0x5d, 0x6b, 0x6e, 0x7e, 0xae, 0xc2, 0xcc, 0xce, 0xde],
    [0x06, 0x0f, 0x1f, 0x45, 0x47, 0x49, 0x4b, 0x4e, 0x5c, 0x6a, 0x6f, 0x7f, 0xaf, 0xc3, 0xcd, 0xcf, 0xdf],
    [0x00, 0x10, 0x19, 0x43, 0x51, 0x54, 0x56, 0x58, 0x5a, 0x60, 0x70, 0x75, 0xb0, 0xc0, 0xd0, 0xd2, 0xdc],
    [0x01, 0x11, 0x18, 0x42, 0x50, 0x55, 0x57, 0x59, 0x5b, 0x61, 0x71, 0x74, 0xb1, 0xc1, 0xd1, 0xd3, 0xdd],
    [0x02, 0x12, 0x1b, 0x41, 0x53, 0x54, 0x56, 0x58, 0x5a, 0x62, 0x72, 0x77, 0xb2, 0xc2, 0xd0, 0xd2, 0xde],
    [0x03, 0x13, 0x1a, 0x40, 0x52, 0x55, 0x57, 0x59, 0x5b, 0x63, 0x73, 0x76, 0xb3, 0xc3, 0xd1, 0xd3, 0xdf],
    [0x04, 0x14, 0x1d, 0x47, 0x50, 0x52, 0x55, 0x5c, 0x5e, 0x64, 0x71, 0x74, 0xb4, 0xc4, 0xd4, 0xd6, 0xd8],
    [0x05, 0x15, 0x1c, 0x46, 0x51, 0x53, 0x54, 0x5d, 0x5f, 0x65, 0x70, 0x75, 0xb5, 0xc5, 0xd5, 0xd7, 0xd9],
    [0x06, 0x16, 0x1f, 0x45, 0x50, 0x52, 0x57, 0x5c, 0x5e, 0x66, 0x73, 0x76, 0xb6, 0xc6, 0xd4, 0xd6, 0xda],
    [0x07, 0x17, 0x1e, 0x44, 0x51, 0x53, 0x56, 0x5d, 0x5f, 0x67, 0x72, 0x77, 0xb7, 0xc7, 0xd5, 0xd7, 0xdb],
    [0x08, 0x11, 0x18, 0x4b, 0x50, 0x52, 0x59, 0x5c, 0x5e, 0x68, 0x78, 0x7d, 0xb8, 0xc8, 0xd4, 0xd8, 0xda],
    [0x09, 0x10, 0x19, 0x4a, 0x51, 0x53, 0x58, 0x5d, 0x5f, 0x69, 0x79, 0x7c, 0xb9, 0xc9, 0xd5, 0xd9, 0xdb],
    [0x0a, 0x13, 0x1a, 0x49, 0x50, 0x52, 0x5b, 0x5c, 0x5e, 0x6a, 0x7a, 0x7f, 0xba, 0xca, 0xd6, 0xd8, 0xda],
    [0x0b, 0x12, 0x1b, 0x48, 0x51, 0x53, 0x5a, 0x5d, 0x5f, 0x6b, 0x7b, 0x7e, 0xbb, 0xcb, 0xd7, 0xd9, 0xdb],
    [0x0c, 0x15, 0x1c, 0x4f, 0x54, 0x56, 0x58, 0x5a, 0x5d, 0x6c, 0x79, 0x7c, 0xbc, 0xcc, 0xd0, 0xdc, 0xde],
    [0x0d, 0x14, 0x1d, 0x4e, 0x55, 0x57, 0x59, 0x5b, 0x5c, 0x6d, 0x78, 0x7d, 0xbd, 0xcd, 0xd1, 0xdd, 0xdf],
    [0x0e, 0x17, 0x1e, 0x4d, 0x54, 0x56, 0x58, 0x5a, 0x5f, 0x6e, 0x7b, 0x7e, 0xbe, 0xce, 0xd2, 0xdc, 0xde],
    [0x0f, 0x16, 0x1f, 0x4c, 0x55, 0x57, 0x59, 0x5b, 0x5e, 0x6f, 0x7a, 0x7f, 0xbf, 0xcf, 0xd3, 0xdd, 0xdf],
    [0x20, 0x29, 0x30, 0x40, 0x45, 0x50, 0x61, 0x64, 0x66, 0x68, 0x6a, 0x73, 0x80, 0xe0, 0xe2, 0xec, 0xf0],
    [0x21, 0x28, 0x31, 0x41, 0x44, 0x51, 0x60, 0x65, 0x67, 0x69, 0x6b, 0x72, 0x81, 0xe1, 0xe3, 0xed, 0xf1],
    [0x22, 0x2b, 0x32, 0x42, 0x47, 0x52, 0x63, 0x64, 0x66, 0x68, 0x6a, 0x71, 0x82, 0xe0, 0xe2, 0xee, 0xf2],
    [0x23, 0x2a, 0x33, 0x43, 0x46, 0x53, 0x62, 0x65, 0x67, 0x69, 0x6b, 0x70, 0x83, 0xe1, 0xe3, 0xef, 0xf3],
    [0x24, 0x2d, 0x34, 0x41, 0x44, 0x54, 0x60, 0x62, 0x65, 0x6c, 0x6e, 0x77, 0x84, 0xe4, 0xe6, 0xe8, 0xf4],
    [0x25, 0x2c, 0x35, 0x40, 0x45, 0x55, 0x61, 0x63, 0x64, 0x6d, 0x6f, 0x76, 0x85, 0xe5, 0xe7, 0xe9, 0xf5],
    [0x26, 0x2f, 0x36, 0x43, 0x46, 0x56, 0x60, 0x62, 0x67, 0x6c, 0x6e, 0x75, 0x86, 0xe4, 0xe6, 0xea, 0xf6],
    [0x27, 0x2e, 0x37, 0x42, 0x47, 0x57, 0x61, 0x63, 0x66, 0x6d, 0x6f, 0x74, 0x87, 0xe5, 0xe7, 0xeb, 0xf7],
    [0x21, 0x28, 0x38, 0x48, 0x4d, 0x58, 0x60, 0x62, 0x69, 0x6c, 0x6e, 0x7b, 0x88, 0xe4, 0xe8, 0xea, 0xf8],
    [0x20, 0x29, 0x39, 0x49, 0x4c, 0x59, 0x61, 0x63, 0x68, 0x6d, 0x6f, 0x7a, 0x89, 0xe5, 0xe9, 0xeb, 0xf9],
    [0x23, 0x2a, 0x3a, 0x4a, 0x4f, 0x5a, 0x60, 0x62, 0x6b, 0x6c, 0x6e, 0x79, 0x8a, 0xe6, 0xe8, 0xea, 0xfa],
    [0x22, 0x2b, 0x3b, 0x4b, 0x4e, 0x5b, 0x61, 0x63, 0x6a, 0x6d, 0x6f, 0x78, 0x8b, 0xe7, 0xe9, 0xeb, 0xfb],
    [0x25, 0x2c, 0x3c, 0x49, 0x4c, 0x5c, 0x64, 0x66, 0x68, 0x6a, 0x6d, 0x7f, 0x8c, 0xe0, 0xec, 0xee, 0xfc],
    [0x24, 0x2d, 0x3d, 0x48, 0x4d, 0x5d, 0x65, 0x67, 0x69, 0x6b, 0x6c, 0x7e, 0x8d, 0xe1, 0xed, 0xef, 0xfd],
    [0x27, 0x2e, 0x3e, 0x4b, 0x4e, 0x5e, 0x64, 0x66, 0x68, 0x6a, 0x6f, 0x7d, 0x8e, 0xe2, 0xec, 0xee, 0xfe],
    [0x26, 0x2f, 0x3f, 0x4a, 0x4f, 0x5f, 0x65, 0x67, 0x69, 0x6b, 0x6e, 0x7c, 0x8f, 0xe3, 0xed, 0xef, 0xff],
    [0x20, 0x30, 0x39, 0x40, 0x50, 0x55, 0x63, 0x71, 0x74, 0x76, 0x78, 0x7a, 0x90, 0xe0, 0xf0, 0xf2, 0xfc],
    [0x21, 0x31, 0x38, 0x41, 0x51, 0x54, 0x62, 0x70, 0x75, 0x77, 0x79, 0x7b, 0x91, 0xe1, 0xf1, 0xf3, 0xfd],
    [0x22, 0x32, 0x3b, 0x42, 0x52, 0x57, 0x61, 0x73, 0x74, 0x76, 0x78, 0x7a, 0x92, 0xe2, 0xf0, 0xf2, 0xfe],
    [0x23, 0x33, 0x3a, 0x43, 0x53, 0x56, 0x60, 0x72, 0x75, 0x77, 0x79, 0x7b, 0x93, 0xe3, 0xf1, 0xf3, 0xff],
    [0x24, 0x34, 0x3d, 0x44, 0x51, 0x54, 0x67, 0x70, 0x72, 0x75, 0x7c, 0x7e, 0x94, 0xe4, 0xf4, 0xf6, 0xf8],
    [0x25, 0x35, 0x3c, 0x45, 0x50, 0x55, 0x66, 0x71, 0x73, 0x74, 0x7d, 0x7f, 0x95, 0xe5, 0xf5, 0xf7, 0xf9],
    [0x26, 0x36, 0x3f, 0x46, 0x53, 0x56, 0x65, 0x70, 0x72, 0x77, 0x7c, 0x7e, 0x96, 0xe6, 0xf4, 0xf6, 0xfa],
    [0x27, 0x37, 0x3e, 0x47, 0x52, 0x57, 0x64, 0x71, 0x73, 0x76, 0x7d, 0x7f, 0x97, 0xe7, 0xf5, 0xf7, 0xfb],
    [0x28, 0x31, 0x38, 0x48, 0x58, 0x5d, 0x6b, 0x70, 0x72, 0x79, 0x7c, 0x7e, 0x98, 0xe8, 0xf4, 0xf8, 0xfa],
    [0x29, 0x30, 0x39, 0x49, 0x59, 0x5c, 0x6a, 0x71, 0x73, 0x78, 0x7d, 0x7f, 0x99, 0xe9, 0xf5, 0xf9, 0xfb],
    [0x2a, 0x33, 0x3a, 0x4a, 0x5a, 0x5f, 0x69, 0x70, 0x72, 0x7b, 0x7c, 0x7e, 0x9a, 0xea, 0xf6, 0xf8, 0xfa],
    [0x2b, 0x32, 0x3b, 0x4b, 0x5b, 0x5e, 0x68, 0x71, 0x73, 0x7a, 0x7d, 0x7f, 0x9b, 0xeb, 0xf7, 0xf9, 0xfb],
    [0x2c, 0x35, 0x3c, 0x4c, 0x59, 0x5c, 0x6f, 0x74, 0x76, 0x78, 0x7a, 0x7d, 0x9c, 0xec, 0xf0, 0xfc, 0xfe],
    [0x2d, 0x34, 0x3d, 0x4d, 0x58, 0x5d, 0x6e, 0x75, 0x77, 0x79, 0x7b, 0x7c, 0x9d, 0xed, 0xf1, 0xfd, 0xff],
    [0x2e, 0x37, 0x3e, 0x4e, 0x5b, 0x5e, 0x6d, 0x74, 0x76, 0x78, 0x7a, 0x7f, 0x9e, 0xee, 0xf2, 0xfc, 0xfe],
    [0x2f, 0x36, 0x3f, 0x4f, 0x5a, 0x5f, 0x6c, 0x75, 0x77, 0x79, 0x7b, 0x7e, 0x9f, 0xef, 0xf3, 0xfd, 0xff],
    [0x00, 0x02, 0x0c, 0x10, 0x60, 0x81, 0x84, 0x86, 0x88, 0x8a, 0x93, 0xa0, 0xa5, 0xb0, 0xc0, 0xc9, 0xd0],
    [0x01, 0x03, 0x0d, 0x11, 0x61, 0x80, 0x85, 0x87, 0x89, 0x8b, 0x92, 0xa1, 0xa4, 0xb1, 0xc1, 0xc8, 0xd1],
    [0x00, 0x02, 0x0e, 0x12, 0x62, 0x83, 0x84, 0x86, 0x88, 0x8a, 0x91, 0xa2, 0xa7, 0xb2, 0xc2, 0xcb, 0xd2],
    [0x01, 0x03, 0x0f, 0x13, 0x63, 0x82, 0x85, 0x87, 0x89, 0x8b, 0x90, 0xa3, 0xa6, 0xb3, 0xc3, 0xca, 0xd3],
    [0x04, 0x06, 0x08, 0x14, 0x64, 0x80, 0x82, 0x85, 0x8c, 0x8e, 0x97, 0xa1, 0xa4, 0xb4, 0xc4, 0xcd, 0xd4],
    [0x05, 0x07, 0x09, 0x15, 0x65, 0x81, 0x83, 0x84, 0x8d, 0x8f, 0x96, 0xa0, 0xa5, 0xb5, 0xc5, 0xcc, 0xd5],
    [0x04, 0x06, 0x0a, 0x16, 0x66, 0x80, 0x82, 0x87, 0x8c, 0x8e, 0x95, 0xa3, 0xa6, 0xb6, 0xc6, 0xcf, 0xd6],
    [0x05, 0x07, 0x0b, 0x17, 0x67, 0x81, 0x83, 0x86, 0x8d, 0x8f, 0x94, 0xa2, 0xa7, 0xb7, 0xc7, 0xce, 0xd7],
    [0x04, 0x08, 0x0a, 0x18, 0x68, 0x80, 0x82, 0x89, 0x8c, 0x8e, 0x9b, 0xa8, 0xad, 0xb8, 0xc1, 0xc8, 0xd8],
    [0x05, 0x09, 0x0b, 0x19, 0x69, 0x81, 0x83, 0x88, 0x8d, 0x8f, 0x9a, 0xa9, 0xac, 0xb9, 0xc0, 0xc9, 0xd9],
    [0x06, 0x08, 0x0a, 0x1a, 0x6a, 0x80, 0x82, 0x8b, 0x8c, 0x8e, 0x99, 0xaa, 0xaf, 0xba, 0xc3, 0xca, 0xda],
    [0x07, 0x09, 0x0b, 0x1b, 0x6b, 0x81, 0x83, 0x8a, 0x8d, 0x8f, 0x98, 0xab, 0xae, 0xbb, 0xc2, 0xcb, 0xdb],
    [0x00, 0x0c, 0x0e, 0x1c, 0x6c, 0x84, 0x86, 0x88, 0x8a, 0x8d, 0x9f, 0xa9, 0xac, 0xbc, 0xc5, 0xcc, 0xdc],
    [0x01, 0x0d, 0x0f, 0x1d, 0x6d, 0x85, 0x87, 0x89, 0x8b, 0x8c, 0x9e, 0xa8, 0xad, 0xbd, 0xc4, 0xcd, 0xdd],
    [0x02, 0x0c, 0x0e, 0x1e, 0x6e, 0x84, 0x86, 0x88, 0x8a, 0x8f, 0x9d, 0xab, 0xae, 0xbe, 0xc7, 0xce, 0xde],
    [0x03, 0x0d, 0x0f, 0x1f, 0x6f, 0x85, 0x87, 0x89, 0x8b, 0x8e, 0x9c, 0xaa, 0xaf, 0xbf, 0xc6, 0xcf, 0xdf],
    [0x00, 0x10, 0x12, 0x1c, 0x70, 0x83, 0x91, 0x94, 0x96, 0x98, 0x9a, 0xa0, 0xb0, 0xb5, 0xc0, 0xd0, 0xd9],
    [0x01, 0x11, 0x13, 0x1d, 0x71, 0x82, 0x90, 0x95, 0x97, 0x99, 0x9b, 0xa1, 0xb1, 0xb4, 0xc1, 0xd1, 0xd8],
    [0x02, 0x10, 0x12, 0x1e, 0x72, 0x81, 0x93, 0x94, 0x96, 0x98, 0x9a, 0xa2, 0xb2, 0xb7, 0xc2, 0xd2, 0xdb],
    [0x03, 0x11, 0x13, 0x1f, 0x73, 0x80, 0x92, 0x95, 0x97, 0x99, 0x9b, 0xa3, 0xb3, 0xb6, 0xc3, 0xd3, 0xda],
    [0x04, 0x14, 0x16, 0x18, 0x74, 0x87, 0x90, 0x92, 0x95, 0x9c, 0x9e, 0xa4, 0xb1, 0xb4, 0xc4, 0xd4, 0xdd],
    [0x05, 0x15, 0x17, 0x19, 0x75, 0x86, 0x91, 0x93, 0x94, 0x9d, 0x9f, 0xa5, 0xb0, 0xb5, 0xc5, 0xd5, 0xdc],
    [0x06, 0x14, 0x16, 0x1a, 0x76, 0x85, 0x90, 0x92, 0x97, 0x9c, 0x9e, 0xa6, 0xb3, 0xb6, 0xc6, 0xd6, 0xdf],
    [0x07, 0x15, 0x17, 0x1b, 0x77, 0x84, 0x91, 0x93, 0x96, 0x9d, 0x9f, 0xa7, 0xb2, 0xb7, 0xc7, 0xd7, 0xde],
    [0x08, 0x14, 0x18, 0x1a, 0x78, 0x8b, 0x90, 0x92, 0x99, 0x9c, 0x9e, 0xa8, 0xb8, 0xbd, 0xc8, 0xd1, 0xd8],
    [0x09, 0x15, 0x19, 0x1b, 0x79, 0x8a, 0x91, 0x93, 0x98, 0x9d, 0x9f, 0xa9, 0xb9, 0xbc, 0xc9, 0xd0, 0xd9],
    [0x0a, 0x16, 0x18, 0x1a, 0x7a, 0x89, 0x90, 0x92, 0x9b, 0x9c, 0x9e, 0xaa, 0xba, 0xbf, 0xca, 0xd3, 0xda],
    [0x0b, 0x17, 0x19, 0x1b, 0x7b, 0x88, 0x91, 0x93, 0x9a, 0x9d, 0x9f, 0xab, 0xbb, 0xbe, 0xcb, 0xd2, 0xdb],
    [0x0c, 0x10, 0x1c, 0x1e, 0x7c, 0x8f, 0x94, 0x96, 0x98, 0x9a, 0x9d, 0xac, 0xb9, 0xbc, 0xcc, 0xd5, 0xdc],
    [0x0d, 0x11, 0x1d, 0x1f, 0x7d, 0x8e, 0x95, 0x97, 0x99, 0x9b, 0x9c, 0xad, 0xb8, 0xbd, 0xcd, 0xd4, 0xdd],
    [0x0e, 0x12, 0x1c, 0x1e, 0x7e, 0x8d, 0x94, 0x96, 0x98, 0x9a, 0x9f, 0xae, 0xbb, 0xbe, 0xce, 0xd7, 0xde],
    [0x0f, 0x13, 0x1d, 0x1f, 0x7f, 0x8c, 0x95, 0x97, 0x99, 0x9b, 0x9e, 0xaf, 0xba, 0xbf, 0xcf, 0xd6, 0xdf],
    [0x20, 0x22, 0x2c, 0x30, 0x40, 0x80, 0x85, 0x90, 0xa1, 0xa4, 0xa6, 0xa8, 0xaa, 0xb3, 0xe0, 0xe9, 0xf0],
    [0x21, 0x23, 0x2d, 0x31, 0x41, 0x81, 0x84, 0x91, 0xa0, 0xa5, 0xa7, 0xa9, 0xab, 0xb2, 0xe1, 0xe8, 0xf1],
    [0x20, 0x22, 0x2e, 0x32, 0x42, 0x82, 0x87, 0x92, 0xa3, 0xa4, 0xa6, 0xa8, 0xaa, 0xb1, 0xe2, 0xeb, 0xf2],
    [0x21, 0x23, 0x2f, 0x33, 0x43, 0x83, 0x86, 0x93, 0xa2, 0xa5, 0xa7, 0xa9, 0xab, 0xb0, 0xe3, 0xea, 0xf3],
    [0x24, 0x26, 0x28, 0x34, 0x44, 0x81, 0x84, 0x94, 0xa0, 0xa2, 0xa5, 0xac, 0xae, 0xb7, 0xe4, 0xed, 0xf4],
    [0x25, 0x27, 0x29, 0x35, 0x45, 0x80, 0x85, 0x95, 0xa1, 0xa3, 0xa4, 0xad, 0xaf, 0xb6, 0xe5, 0xec, 0xf5],
    [0x24, 0x26, 0x2a, 0x36, 0x46, 0x83, 0x86, 0x96, 0xa0, 0xa2, 0xa7, 0xac, 0xae, 0xb5, 0xe6, 0xef, 0xf6],
    [0x25, 0x27, 0x2b, 0x37, 0x47, 0x82, 0x87, 0x97, 0xa1, 0xa3, 0xa6, 0xad, 0xaf, 0xb4, 0xe7, 0xee, 0xf7],
    [0x24, 0x28, 0x2a, 0x38, 0x48, 0x88, 0x8d, 0x98, 0xa0, 0xa2, 0xa9, 0xac, 0xae, 0xbb, 0xe1, 0xe8, 0xf8],
    [0x25, 0x29, 0x2b, 0x39, 0x49, 0x89, 0x8c, 0x99, 0xa1, 0xa3, 0xa8, 0xad, 0xaf, 0xba, 0xe0, 0xe9, 0xf9],
    [0x26, 0x28, 0x2a, 0x3a, 0x4a, 0x8a, 0x8f, 0x9a, 0xa0, 0xa2, 0xab, 0xac, 0xae, 0xb9, 0xe3, 0xea, 0xfa],
    [0x27, 0x29, 0x2b, 0x3b, 0x4b, 0x8b, 0x8e, 0x9b, 0xa1, 0xa3, 0xaa, 0xad, 0xaf, 0xb8, 0xe2, 0xeb, 0xfb],
    [0x20, 0x2c, 0x2e, 0x3c, 0x4c, 0x89, 0x8c, 0x9c, 0xa4, 0xa6, 0xa8, 0xaa, 0xad, 0xbf, 0xe5, 0xec, 0xfc],
    [0x21, 0x2d, 0x2f, 0x3d, 0x4d, 0x88, 0x8d, 0x9d, 0xa5, 0xa7, 0xa9, 0xab, 0xac, 0xbe, 0xe4, 0xed, 0xfd],
    [0x22, 0x2c, 0x2e, 0x3e, 0x4e, 0x8b, 0x8e, 0x9e, 0xa4, 0xa6, 0xa8, 0xaa, 0xaf, 0xbd, 0xe7, 0xee, 0xfe],
    [0x23, 0x2d, 0x2f, 0x3f, 0x4f, 0x8a, 0x8f, 0x9f, 0xa5, 0xa7, 0xa9, 0xab, 0xae, 0xbc, 0xe6, 0xef, 0xff],
    [0x20, 0x30, 0x32, 0x3c, 0x50, 0x80, 0x90, 0x95, 0xa3, 0xb1, 0xb4, 0xb6, 0xb8, 0xba, 0xe0, 0xf0, 0xf9],
    [0x21, 0x31, 0x33, 0x3d, 0x51, 0x81, 0x91, 0x94, 0xa2, 0xb0, 0xb5, 0xb7, 0xb9, 0xbb, 0xe1, 0xf1, 0xf8],
    [0x22, 0x30, 0x32, 0x3e, 0x52, 0x82, 0x92, 0x97, 0xa1, 0xb3, 0xb4, 0xb6, 0xb8, 0xba, 0xe2, 0xf2, 0xfb],
    [0x23, 0x31, 0x33, 0x3f, 0x53, 0x83, 0x93, 0x96, 0xa0, 0xb2, 0xb5, 0xb7, 0xb9, 0xbb, 0xe3, 0xf3, 0xfa],
    [0x24, 0x34, 0x36, 0x38, 0x54, 0x84, 0x91, 0x94, 0xa7, 0xb0, 0xb2, 0xb5, 0xbc, 0xbe, 0xe4, 0xf4, 0xfd],
    [0x25, 0x35, 0x37, 0x39, 0x55, 0x85, 0x90, 0x95, 0xa6, 0xb1, 0xb3, 0xb4, 0xbd, 0xbf, 0xe5, 0xf5, 0xfc],
    [0x26, 0x34, 0x36, 0x3a, 0x56, 0x86, 0x93, 0x96, 0xa5, 0xb0, 0xb2, 0xb7, 0xbc, 0xbe, 0xe6, 0xf6, 0xff],
    [0x27, 0x35, 0x37, 0x3b, 0x57, 0x87, 0x92, 0x97, 0xa4, 0xb1, 0xb3, 0xb6, 0xbd, 0xbf, 0xe7, 0xf7, 0xfe],
    [0x28, 0x34, 0x38, 0x3a, 0x58, 0x88, 0x98, 0x9d, 0xab, 0xb0, 0xb2, 0xb9, 0xbc, 0xbe, 0xe8, 0xf1, 0xf8],
    [0x29, 0x35, 0x39, 0x3b, 0x59, 0x89, 0x99, 0x9c, 0xaa, 0xb1, 0xb3, 0xb8, 0xbd, 0xbf, 0xe9, 0xf0, 0xf9],
    [0x2a, 0x36, 0x38, 0x3a, 0x5a, 0x8a, 0x9a, 0x9f, 0xa9, 0xb0, 0xb2, 0xbb, 0xbc, 0xbe, 0xea, 0xf3, 0xfa],
    [0x2b, 0x37, 0x39, 0x3b, 0x5b, 0x8b, 0x9b, 0x9e, 0xa8, 0xb1, 0xb3, 0xba, 0xbd, 0xbf, 0xeb, 0xf2, 0xfb],
    [0x2c, 0x30, 0x3c, 0x3e, 0x5c, 0x8c, 0x99, 0x9c, 0xaf, 0xb4, 0xb6, 0xb8, 0xba, 0xbd, 0xec, 0xf5, 0xfc],
    [0x2d, 0x31, 0x3d, 0x3f, 0x5d, 0x8d, 0x98, 0x9d, 0xae, 0xb5, 0xb7, 0xb9, 0xbb, 0xbc, 0xed, 0xf4, 0xfd],
    [0x2e, 0x32, 0x3c, 0x3e, 0x5e, 0x8e, 0x9b, 0x9e, 0xad, 0xb4, 0xb6, 0xb8, 0xba, 0xbf, 0xee, 0xf7, 0xfe],
    [0x2f, 0x33, 0x3d, 0x3f, 0x5f, 0x8f, 0x9a, 0x9f, 0xac, 0xb5, 0xb7, 0xb9, 0xbb, 0xbe, 0xef, 0xf6, 0xff],
    [0x20, 0x40, 0x42, 0x4c, 0x50, 0x80, 0x89, 0x90, 0xc1, 0xc4, 0xc6, 0xc8, 0xca, 0xd3, 0xe0, 0xe5, 0xf0],
    [0x21, 0x41, 0x43, 0x4d, 0x51, 0x81, 0x88, 0x91, 0xc0, 0xc5, 0xc7, 0xc9, 0xcb, 0xd2, 0xe1, 0xe4, 0xf1],
    [0x22, 0x40, 0x42, 0x4e, 0x52, 0x82, 0x8b, 0x92, 0xc3, 0xc4, 0xc6, 0xc8, 0xca, 0xd1, 0xe2, 0xe7, 0xf2],
    [0x23, 0x41, 0x43, 0x4f, 0x53, 0x83, 0x8a, 0x93, 0xc2, 0xc5, 0xc7, 0xc9, 0xcb, 0xd0, 0xe3, 0xe6, 0xf3],
    [0x24, 0x44, 0x46, 0x48, 0x54, 0x84, 0x8d, 0x94, 0xc0, 0xc2, 0xc5, 0xcc, 0xce, 0xd7, 0xe1, 0xe4, 0xf4],
    [0x25, 0x45, 0x47, 0x49, 0x55, 0x85, 0x8c, 0x95, 0xc1, 0xc3, 0xc4, 0xcd, 0xcf, 0xd6, 0xe0, 0xe5, 0xf5],
    [0x26, 0x44, 0x46, 0x4a, 0x56, 0x86, 0x8f, 0x96, 0xc0, 0xc2, 0xc7, 0xcc, 0xce, 0xd5, 0xe3, 0xe6, 0xf6],
    [0x27, 0x45, 0x47, 0x4b, 0x57, 0x87, 0x8e, 0x97, 0xc1, 0xc3, 0xc6, 0xcd, 0xcf, 0xd4, 0xe2, 0xe7, 0xf7],
    [0x28, 0x44, 0x48, 0x4a, 0x58, 0x81, 0x88, 0x98, 0xc0, 0xc2, 0xc9, 0xcc, 0xce, 0xdb, 0xe8, 0xed, 0xf8],
    [0x29, 0x45, 0x49, 0x4b, 0x59, 0x80, 0x89, 0x99, 0xc1, 0xc3, 0xc8, 0xcd, 0xcf, 0xda, 0xe9, 0xec, 0xf9],
    [0x2a, 0x46, 0x48, 0x4a, 0x5a, 0x83, 0x8a, 0x9a, 0xc0, 0xc2, 0xcb, 0xcc, 0xce, 0xd9, 0xea, 0xef, 0xfa],
    [0x2b, 0x47, 0x49, 0x4b, 0x5b, 0x82, 0x8b, 0x9b, 0xc1, 0xc3, 0xca, 0xcd, 0xcf, 0xd8, 0xeb, 0xee, 0xfb],
    [0x2c, 0x40, 0x4c, 0x4e, 0x5c, 0x85, 0x8c, 0x9c, 0xc4, 0xc6, 0xc8, 0xca, 0xcd, 0xdf, 0xe9, 0xec, 0xfc],
    [0x2d, 0x41, 0x4d, 0x4f, 0x5d, 0x84, 0x8d, 0x9d, 0xc5, 0xc7, 0xc9, 0xcb, 0xcc, 0xde, 0xe8, 0xed, 0xfd],
    [0x2e, 0x42, 0x4c, 0x4e, 0x5e, 0x87, 0x8e, 0x9e, 0xc4, 0xc6, 0xc8, 0xca, 0xcf, 0xdd, 0xeb, 0xee, 0xfe],
    [0x2f, 0x43, 0x4d, 0x4f, 0x5f, 0x86, 0x8f, 0x9f, 0xc5, 0xc7, 0xc9, 0xcb, 0xce, 0xdc, 0xea, 0xef, 0xff],
    [0x30, 0x40, 0x50, 0x52, 0x5c, 0x80, 0x90, 0x99, 0xc3, 0xd1, 0xd4, 0xd6, 0xd8, 0xda, 0xe0, 0xf0, 0xf5],
    [0x31, 0x41, 0x51, 0x53, 0x5d, 0x81, 0x91, 0x98, 0xc2, 0xd0, 0xd5, 0xd7, 0xd9, 0xdb, 0xe1, 0xf1, 0xf4],
    [0x32, 0x42, 0x50, 0x52, 0x5e, 0x82, 0x92, 0x9b, 0xc1, 0xd3, 0xd4, 0xd6, 0xd8, 0xda, 0xe2, 0xf2, 0xf7],
    [0x33, 0x43, 0x51, 0x53, 0x5f, 0x83, 0x93, 0x9a, 0xc0, 0xd2, 0xd5, 0xd7, 0xd9, 0xdb, 0xe3, 0xf3, 0xf6],
    [0x34, 0x44, 0x54, 0x56, 0x58, 0x84, 0x94, 0x9d, 0xc7, 0xd0, 0xd2, 0xd5, 0xdc, 0xde, 0xe4, 0xf1, 0xf4],
    [0x35, 0x45, 0x55, 0x57, 0x59, 0x85, 0x95, 0x9c, 0xc6, 0xd1, 0xd3, 0xd4, 0xdd, 0xdf, 0xe5, 0xf0, 0xf5],
    [0x36, 0x46, 0x54, 0x56, 0x5a, 0x86, 0x96, 0x9f, 0xc5, 0xd0, 0xd2, 0xd7, 0xdc, 0xde, 0xe6, 0xf3, 0xf6],
    [0x37, 0x47, 0x55, 0x57, 0x5b, 0x87, 0x97, 0x9e, 0xc4, 0xd1, 0xd3, 0xd6, 0xdd, 0xdf, 0xe7, 0xf2, 0xf7],
    [0x38, 0x48, 0x54, 0x58, 0x5a, 0x88, 0x91, 0x98, 0xcb, 0xd0, 0xd2, 0xd9, 0xdc, 0xde, 0xe8, 0xf8, 0xfd],
    [0x39, 0x49, 0x55, 0x59, 0x5b, 0x89, 0x90, 0x99, 0xca, 0xd1, 0xd3, 0xd8, 0xdd, 0xdf, 0xe9, 0xf9, 0xfc],
    [0x3a, 0x4a, 0x56, 0x58, 0x5a, 0x8a, 0x93, 0x9a, 0xc9, 0xd0, 0xd2, 0xdb, 0xdc, 0xde, 0xea, 0xfa, 0xff],
    [0x3b, 0x4b, 0x57, 0x59, 0x5b, 0x8b, 0x92, 0x9b, 0xc8, 0xd1, 0xd3, 0xda, 0xdd, 0xdf, 0xeb, 0xfb, 0xfe],
    [0x3c, 0x4c, 0x50, 0x5c, 0x5e, 0x8c, 0x95, 0x9c, 0xcf, 0xd4, 0xd6, 0xd8, 0xda, 0xdd, 0xec, 0xf9, 0xfc],
    [0x3d, 0x4d, 0x51, 0x5d, 0x5f, 0x8d, 0x94, 0x9d, 0xce, 0xd5, 0xd7, 0xd9, 0xdb, 0xdc, 0xed, 0xf8, 0xfd],
    [0x3e, 0x4e, 0x52, 0x5c, 0x5e, 0x8e, 0x97, 0x9e, 0xcd, 0xd4, 0xd6, 0xd8, 0xda, 0xdf, 0xee, 0xfb, 0xfe],
    [0x3f, 0x4f, 0x53, 0x5d, 0x5f, 0x8f, 0x96, 0x9f, 0xcc, 0xd5, 0xd7, 0xd9, 0xdb, 0xde, 0xef, 0xfa, 0xff],
    [0x00, 0x60, 0x62, 0x6c, 0x70, 0xa0, 0xa9, 0xb0, 0xc0, 0xc5, 0xd0, 0xe1, 0xe4, 0xe6, 0xe8, 0xea, 0xf3],
    [0x01, 0x61, 0x63, 0x6d, 0x71, 0xa1, 0xa8, 0xb1, 0xc1, 0xc4, 0xd1, 0xe0, 0xe5, 0xe7, 0xe9, 0xeb, 0xf2],
    [0x02, 0x60, 0x62, 0x6e, 0x72, 0xa2, 0xab, 0xb2, 0xc2, 0xc7, 0xd2, 0xe3, 0xe4, 0xe6, 0xe8, 0xea, 0xf1],
    [0x03, 0x61, 0x63, 0x6f, 0x73, 0xa3, 0xaa, 0xb3, 0xc3, 0xc6, 0xd3, 0xe2, 0xe5, 0xe7, 0xe9, 0xeb, 0xf0],
    [0x04, 0x64, 0x66, 0x68, 0x74, 0xa4, 0xad, 0xb4, 0xc1, 0xc4, 0xd4, 0xe0, 0xe2, 0xe5, 0xec, 0xee, 0xf7],
    [0x05, 0x65, 0x67, 0x69, 0x75, 0xa5, 0xac, 0xb5, 0xc0, 0xc5, 0xd5, 0xe1, 0xe3, 0xe4, 0xed, 0xef, 0xf6],
    [0x06, 0x64, 0x66, 0x6a, 0x76, 0xa6, 0xaf, 0xb6, 0xc3, 0xc6, 0xd6, 0xe0, 0xe2, 0xe7, 0xec, 0xee, 0xf5],
    [0x07, 0x65, 0x67, 0x6b, 0x77, 0xa7, 0xae, 0xb7, 0xc2, 0xc7, 0xd7, 0xe1, 0xe3, 0xe6, 0xed, 0xef, 0xf4],
    [0x08, 0x64, 0x68, 0x6a, 0x78, 0xa1, 0xa8, 0xb8, 0xc8, 0xcd, 0xd8, 0xe0, 0xe2, 0xe9, 0xec, 0xee, 0xfb],
    [0x09, 0x65, 0x69, 0x6b, 0x79, 0xa0, 0xa9, 0xb9, 0xc9, 0xcc, 0xd9, 0xe1, 0xe3, 0xe8, 0xed, 0xef, 0xfa],
    [0x0a, 0x66, 0x68, 0x6a, 0x7a, 0xa3, 0xaa, 0xba, 0xca, 0xcf, 0xda, 0xe0, 0xe2, 0xeb, 0xec, 0xee, 0xf9],
    [0x0b, 0x67, 0x69, 0x6b, 0x7b, 0xa2, 0xab, 0xbb, 0xcb, 0xce, 0xdb, 0xe1, 0xe3, 0xea, 0xed, 0xef, 0xf8],
    [0x0c, 0x60, 0x6c, 0x6e, 0x7c, 0xa5, 0xac, 0xbc, 0xc9, 0xcc, 0xdc, 0xe4, 0xe6, 0xe8, 0xea, 0xed, 0xff],
    [0x0d, 0x61, 0x6d, 0x6f, 0x7d, 0xa4, 0xad, 0xbd, 0xc8, 0xcd, 0xdd, 0xe5, 0xe7, 0xe9, 0xeb, 0xec, 0xfe],
    [0x0e, 0x62, 0x6c, 0x6e, 0x7e, 0xa7, 0xae, 0xbe, 0xcb, 0xce, 0xde, 0xe4, 0xe6, 0xe8, 0xea, 0xef, 0xfd],
    [0x0f, 0x63, 0x6d, 0x6f, 0x7f, 0xa6, 0xaf, 0xbf, 0xca, 0xcf, 0xdf, 0xe5, 0xe7, 0xe9, 0xeb, 0xee, 0xfc],
    [0x10, 0x60, 0x70, 0x72, 0x7c, 0xa0, 0xb0, 0xb9, 0xc0, 0xd0, 0xd5, 0xe3, 0xf1, 0xf4, 0xf6, 0xf8, 0xfa],
    [0x11, 0x61, 0x71, 0x73, 0x7d, 0xa1, 0xb1, 0xb8, 0xc1, 0xd1, 0xd4, 0xe2, 0xf0, 0xf5, 0xf7, 0xf9, 0xfb],
    [0x12, 0x62, 0x70, 0x72, 0x7e, 0xa2, 0xb2, 0xbb, 0xc2, 0xd2, 0xd7, 0xe1, 0xf3, 0xf4, 0xf6, 0xf8, 0xfa],
    [0x13, 0x63, 0x71, 0x73, 0x7f, 0xa3, 0xb3, 0xba, 0xc3, 0xd3, 0xd6, 0xe0, 0xf2, 0xf5, 0xf7, 0xf9, 0xfb],
    [0x14, 0x64, 0x74, 0x76, 0x78, 0xa4, 0xb4, 0xbd, 0xc4, 0xd1, 0xd4, 0xe7, 0xf0, 0xf2, 0xf5, 0xfc, 0xfe],
    [0x15, 0x65, 0x75, 0x77, 0x79, 0xa5, 0xb5, 0xbc, 0xc5, 0xd0, 0xd5, 0xe6, 0xf1, 0xf3, 0xf4, 0xfd, 0xff],
    [0x16, 0x66, 0x74, 0x76, 0x7a, 0xa6, 0xb6, 0xbf, 0xc6, 0xd3, 0xd6, 0xe5, 0xf0, 0xf2, 0xf7, 0xfc, 0xfe],
    [0x17, 0x67, 0x75, 0x77, 0x7b, 0xa7, 0xb7, 0xbe, 0xc7, 0xd2, 0xd7, 0xe4, 0xf1, 0xf3, 0xf6, 0xfd, 0xff],
    [0x18, 0x68, 0x74, 0x78, 0x7a, 0xa8, 0xb1, 0xb8, 0xc8, 0xd8, 0xdd, 0xeb, 0xf0, 0xf2, 0xf9, 0xfc, 0xfe],
    [0x19, 0x69, 0x75, 0x79, 0x7b, 0xa9, 0xb0, 0xb9, 0xc9, 0xd9, 0xdc, 0xea, 0xf1, 0xf3, 0xf8, 0xfd, 0xff],
    [0x1a, 0x6a, 0x76, 0x78, 0x7a, 0xaa, 0xb3, 0xba, 0xca, 0xda, 0xdf, 0xe9, 0xf0, 0xf2, 0xfb, 0xfc, 0xfe],
    [0x1b, 0x6b, 0x77, 0x79, 0x7b, 0xab, 0xb2, 0xbb, 0xcb, 0xdb, 0xde, 0xe8, 0xf1, 0xf3, 0xfa, 0xfd, 0xff],
    [0x1c, 0x6c, 0x70, 0x7c, 0x7e, 0xac, 0xb5, 0xbc, 0xcc, 0xd9, 0xdc, 0xef, 0xf4, 0xf6, 0xf8, 0xfa, 0xfd],
    [0x1d, 0x6d, 0x71, 0x7d, 0x7f, 0xad, 0xb4, 0xbd, 0xcd, 0xd8, 0xdd, 0xee, 0xf5, 0xf7, 0xf9, 0xfb, 0xfc],
    [0x1e, 0x6e, 0x72, 0x7c, 0x7e, 0xae, 0xb7, 0xbe, 0xce, 0xdb, 0xde, 0xed, 0xf4, 0xf6, 0xf8, 0xfa, 0xff],
    [0x1f, 0x6f, 0x73, 0x7d, 0x7f, 0xaf, 0xb6, 0xbf, 0xcf, 0xda, 0xdf, 0xec, 0xf5, 0xf7, 0xf9, 0xfb, 0xfe]]"

section \<open>Symbols\<close>

text \<open>The parity bits and their positions in the code word.\<close>

definition h128_symbol :: "u32 \<Rightarrow> u32" where
  "h128_symbol sym_dec =
     (let p1 = liquid_bdotprod_uint16 sym_dec 0xda;
          p2 = liquid_bdotprod_uint16 sym_dec 0xb6;
          p4 = liquid_bdotprod_uint16 sym_dec 0x71;
          p8 = liquid_bdotprod_uint16 sym_dec 0x0f
      in push_bit 0 (sym_dec AND 0x000f) OR
         push_bit 1 (sym_dec AND 0x0070) OR
         push_bit 2 (sym_dec AND 0x0080) OR
         push_bit 11 p1 OR push_bit 10 p2 OR push_bit 8 p4 OR push_bit 4 p8)"

definition fec_hamming128_encode_symbol :: "u32 \<Rightarrow> u32 option" where
  "fec_hamming128_encode_symbol sym_dec =
     (if sym_dec \<ge> push_bit 8 1 then None else Some (h128_symbol sym_dec))"

definition h128_syndrome :: "u32 \<Rightarrow> u32" where
  "h128_syndrome sym_enc =
     (let s1 = liquid_bdotprod_uint16 sym_enc 0x0aaa;
          s2 = liquid_bdotprod_uint16 sym_enc 0x0666;
          s4 = liquid_bdotprod_uint16 sym_enc 0x01e1;
          s8 = liquid_bdotprod_uint16 sym_enc 0x001f
      in push_bit 3 s8 OR push_bit 2 s4 OR push_bit 1 s2 OR s1)"

definition h128_strip :: "u32 \<Rightarrow> u32" where
  "h128_strip sym_enc =
     (sym_enc AND 0x000f) OR drop_bit 1 (sym_enc AND 0x00e0) OR drop_bit 2 (sym_enc AND 0x0200)"

definition fec_hamming128_decode_symbol :: "u32 \<Rightarrow> u32 option" where
  "fec_hamming128_decode_symbol sym_enc =
     (if sym_enc \<ge> push_bit 12 1 then None
      else let z = unat (h128_syndrome sym_enc);
               sym_enc = flip_at 12 z sym_enc
           in Some (h128_strip sym_enc))"

section \<open>Blocks\<close>

definition fec_hamming128_encode :: "nat \<Rightarrow> bytes \<Rightarrow> bytes option" where
  "fec_hamming128_encode n msg_dec = do {
     let r = n mod 2;
     let pairs = concat (map (\<lambda>t. let i = 2 * t;
             s0 = msg_dec ! (i + 0);
             s1 = msg_dec ! (i + 1);
             m0 = ucast (hamming128_enc_gentab ! unat s0) :: u32;
             m1 = ucast (hamming128_enc_gentab ! unat s1) :: u32
           in [ucast (drop_bit 4 m0 AND 0xff),
               ucast ((push_bit 4 m0 AND 0xf0) OR (drop_bit 8 m1 AND 0x0f)),
               ucast (m1 AND 0xff)]) [0..<(n - r) div 2]);
     let tail = (if r \<noteq> 0
           then let s0 = msg_dec ! (n - 1);
                    m0 = ucast (hamming128_enc_gentab ! unat s0) :: u32
                in [ucast (drop_bit 4 (m0 AND 0x0ff0)), ucast (push_bit 4 (m0 AND 0x000f))]
           else []);
     let msg_enc = pairs @ tail;
     enc_msg_len \<leftarrow> fec_get_enc_msg_length FEC_HAMMING128 n;
     if length msg_enc = enc_msg_len then Some msg_enc else None
   }"

definition fec_hamming128_decode :: "nat \<Rightarrow> bytes \<Rightarrow> bytes option" where
  "fec_hamming128_decode n msg_enc = do {
     let r = n mod 2;
     pairs \<leftarrow> for_append [0..<(n - r) div 2] (\<lambda>t. let j = 3 * t;
         r0 = ucast (msg_enc ! (j + 0)) :: u32;
         r1 = ucast (msg_enc ! (j + 1)) :: u32;
         r2 = ucast (msg_enc ! (j + 2)) :: u32;
         m0 = (push_bit 4 r0 AND 0x0ff0) OR (drop_bit 4 r1 AND 0x000f);
         m1 = (push_bit 8 r1 AND 0x0f00) OR (r2 AND 0x00ff)
       in do {
         s0 \<leftarrow> fec_hamming128_decode_symbol m0;
         s1 \<leftarrow> fec_hamming128_decode_symbol m1;
         Some [ucast s0, ucast s1]
       });
     let j = 3 * ((n - r) div 2);
     tail \<leftarrow> (if r \<noteq> 0
       then let r0 = ucast (msg_enc ! (j + 0)) :: u32;
                r1 = ucast (msg_enc ! (j + 1)) :: u32;
                m0 = (push_bit 4 r0 AND 0x0ff0) OR (drop_bit 4 r1 AND 0x000f)
            in do { s0 \<leftarrow> fec_hamming128_decode_symbol m0; Some [ucast s0] }
       else Some []);
     let j = j + (if r \<noteq> 0 then 2 else 0);
     enc_msg_len \<leftarrow> fec_get_enc_msg_length FEC_HAMMING128 n;
     if j = enc_msg_len then Some (pairs @ tail) else None
   }"

section \<open>Soft decoders\<close>

definition h128_metric :: "bytes \<Rightarrow> nat \<Rightarrow> nat" where
  "h128_metric soft_bits s =
     (let c = ucast (hamming128_enc_gentab ! s) :: u32
      in soft_term c 0x0800 (soft_bits ! 0) + soft_term c 0x0400 (soft_bits ! 1) +
         soft_term c 0x0200 (soft_bits ! 2) + soft_term c 0x0100 (soft_bits ! 3) +
         soft_term c 0x0080 (soft_bits ! 4) + soft_term c 0x0040 (soft_bits ! 5) +
         soft_term c 0x0020 (soft_bits ! 6) + soft_term c 0x0010 (soft_bits ! 7) +
         soft_term c 0x0008 (soft_bits ! 8) + soft_term c 0x0004 (soft_bits ! 9) +
         soft_term c 0x0002 (soft_bits ! 10) + soft_term c 0x0001 (soft_bits ! 11))"

definition fecsoft_hamming128_decode :: "bytes \<Rightarrow> nat" where
  "fecsoft_hamming128_decode soft_bits = soft_search (h128_metric soft_bits) [0..<256] 0 0"

text \<open>The hard decision on twelve soft bits.\<close>

definition h128_hard :: "bytes \<Rightarrow> u32" where
  "h128_hard soft_bits =
     (if soft_bits ! 0 > 127 then 0x0800 else 0) OR
     (if soft_bits ! 1 > 127 then 0x0400 else 0) OR
     (if soft_bits ! 2 > 127 then 0x0200 else 0) OR
     (if soft_bits ! 3 > 127 then 0x0100 else 0) OR
     (if soft_bits ! 4 > 127 then 0x0080 else 0) OR
     (if soft_bits ! 5 > 127 then 0x0040 else 0) OR
     (if soft_bits ! 6 > 127 then 0x0020 else 0) OR
     (if soft_bits ! 7 > 127 then 0x0010 else 0) OR
     (if soft_bits ! 8 > 127 then 0x0008 else 0) OR
     (if soft_bits ! 9 > 127 then 0x0004 else 0) OR
     (if soft_bits ! 10 > 127 then 0x0002 else 0) OR
     (if soft_bits ! 11 > 127 then 0x0001 else 0)"

fun h128_n3_loop :: "bytes \<Rightarrow> u8 list \<Rightarrow> nat \<Rightarrow> nat \<Rightarrow> nat" where
  "h128_n3_loop soft_bits [] dmin s_hat = s_hat"
| "h128_n3_loop soft_bits (s # ss) dmin s_hat =
     (let d = h128_metric soft_bits (unat s)
      in if d < dmin then h128_n3_loop soft_bits ss d (unat s) else h128_n3_loop soft_bits ss dmin s_hat)"

definition fecsoft_hamming128_decode_n3 :: "bytes \<Rightarrow> nat option" where
  "fecsoft_hamming128_decode_n3 soft_bits = do {
     s_hat \<leftarrow> fec_hamming128_decode_symbol (h128_hard soft_bits);
     let s_hat = unat s_hat;
         dmin = h128_metric soft_bits s_hat
     in Some (h128_n3_loop soft_bits (fecsoft_hamming128_n3 ! s_hat) dmin s_hat)
   }"

definition fec_hamming128_decode_soft :: "nat \<Rightarrow> bytes \<Rightarrow> bytes option" where
  "fec_hamming128_decode_soft n msg_enc = do {
     let r = n mod 2;
     let enc_msg_len = wrap32 (wrap32 (3 * n) div 2 + r);
     msg_dec \<leftarrow> for_append [0..<n] (\<lambda>i. do {
       s \<leftarrow> fecsoft_hamming128_decode_n3 (drop (12 * i) msg_enc);
       Some [of_nat s]
     });
     let k = wrap32 (12 * n + r * 4)
     in if k = wrap32 (8 * enc_msg_len) then Some msg_dec else None
   }"

section \<open>The code\<close>

lemma h128_symbol_xor: "h128_symbol (x XOR y) = h128_symbol x XOR h128_symbol y"
  unfolding h128_symbol_def Let_def
  by (rule word32_eqI) (unfold code_bits, erule less_32_cases, simp_all)

lemma h128_syndrome_xor: "h128_syndrome (x XOR y) = h128_syndrome x XOR h128_syndrome y"
  unfolding h128_syndrome_def Let_def
  by (rule word32_eqI) (unfold code_bits, erule less_32_cases, simp_all)

lemma h128_strip_xor: "h128_strip (x XOR y) = h128_strip x XOR h128_strip y"
  unfolding h128_strip_def
  by (rule word32_eqI) (unfold code_bits, erule less_32_cases, simp_all)

lemma h128_syndrome_units: "list_all (\<lambda>j. h128_syndrome (unit_word j) = of_nat (12 - j)) [0..<12]"
  by code_simp

abbreviation h128_rows :: "u32 list" where
  "h128_rows \<equiv> [0x0111, 0x0c12, 0x0414, 0x0818, 0x0d20, 0x0540, 0x0980, 0x0e00]"

lemma h128_rows: "map (\<lambda>j. h128_symbol (unit_word j)) [0..<8] = h128_rows"
  by code_simp

lemma h128_rows_syndrome: "list_all (\<lambda>c. h128_syndrome c = 0 \<and> take_bit 12 c = c) h128_rows"
  by code_simp

lemma h128_rows_strip: "map h128_strip h128_rows = map unit_word [0..<8]"
  by code_simp

interpretation h128: hamming_code h128_symbol h128_syndrome h128_strip 12 8
proof
  fix j :: nat
  show "j < 12 \<Longrightarrow> h128_syndrome (unit_word j) = of_nat (12 - j)"
    using h128_syndrome_units by (simp add: list_all_upt)
  show "h128_syndrome (h128_symbol (unit_word j)) = 0" "take_bit 12 (h128_symbol (unit_word j)) = h128_symbol (unit_word j)"
    if "j < 8"
    using list_all_upt_units [OF h128_rows h128_rows_syndrome that] by simp_all
  have "map h128_strip (map (\<lambda>j. h128_symbol (unit_word j)) [0..<8]) = map unit_word [0..<8]"
    unfolding h128_rows by (rule h128_rows_strip)
  then show "h128_strip (h128_symbol (unit_word j)) = unit_word j" if "j < 8"
    using that by simp
qed (simp_all add: h128_symbol_xor h128_syndrome_xor h128_strip_xor)

lemma hamming128_span: "span_words (rev h128_rows) = map ucast hamming128_enc_gentab"
  unfolding hamming128_enc_gentab_def by simp

lemma hamming128_table: "s < 256 \<Longrightarrow> ucast (hamming128_enc_gentab ! s) = h128_symbol (of_nat s)"
proof -
  assume s: "s < 256"
  have "map (\<lambda>s. h128_symbol (of_nat s)) [0..<2 ^ 8] = span_words (rev h128_rows)"
    using span_words_additive [of h128_symbol 8] by (simp only: h128_symbol_xor rev_map [symmetric] h128_rows)
  also have "\<dots> = map ucast hamming128_enc_gentab" by (rule hamming128_span)
  finally have "map ucast hamming128_enc_gentab ! s = map (\<lambda>s. h128_symbol (of_nat s)) [0..<256] ! s" by simp
  moreover have "length hamming128_enc_gentab = 256" by (simp add: hamming128_enc_gentab_def)
  ultimately show ?thesis using s by (simp del: upt_Suc)
qed

lemma byte_symbol: "take_bit 8 (ucast (b :: u8) :: u32) = ucast b"
  by (rule bit_word_eqI) (auto simp: bit_take_bit_iff bit_ucast_iff dest: bit_imp_le_length)

lemma hamming128_table_byte: "ucast (hamming128_enc_gentab ! unat (b :: u8)) = h128_symbol (ucast b)"
  using hamming128_table [OF unat_u8_less [of b]] by simp

lemma ucast_strip_byte: "(ucast (ucast (b :: u8) :: u32) :: u8) = b"
  by simp

lemma fec_hamming128_encode_symbol_Some:
  "fec_hamming128_encode_symbol (ucast (b :: u8)) = Some (h128_symbol (ucast b))"
  using symbol_too_large [OF byte_symbol [of b]] by (simp add: fec_hamming128_encode_symbol_def)

lemma fec_hamming128_decode_symbol_Some:
  "take_bit 12 r = r \<Longrightarrow>
   fec_hamming128_decode_symbol r = Some (h128_strip (flip_at 12 (unat (h128_syndrome r)) r))"
  using symbol_too_large [of 12 r] by (simp add: fec_hamming128_decode_symbol_def Let_def)

lemma fec_hamming128_decode_symbol_corrects:
  assumes "take_bit 12 r = r" and "ones (h128_symbol (ucast (b :: u8)) XOR r) \<le> 1"
  shows "fec_hamming128_decode_symbol r = Some (ucast b)"
  using h128.corrects [OF byte_symbol [of b] assms] by (simp add: fec_hamming128_decode_symbol_Some [OF assms(1)])

section \<open>The encoded stream\<close>

lemma h128_enc_len: "n < msg_bound \<Longrightarrow> fec_get_enc_msg_length FEC_HAMMING128 n = Some (3 * (n div 2) + 2 * (n mod 2))"
proof -
  assume "n < msg_bound"
  moreover have "ceil_div (8 * n) 8 = n" by simp
  moreover have "ceil_div (n * 12) 8 = 3 * (n div 2) + 2 * (n mod 2)"
  proof -
    define q r where "q = n div 2" "r = n mod 2"
    then have n: "n = 2 * q + r" and r: "r = 0 \<or> r = 1" by auto
    have "n * 12 = 12 * r + 3 * q * 8" using n by simp
    then have "n * 12 div 8 = 3 * q + 12 * r div 8" and "n * 12 mod 8 = 12 * r mod 8"
      by (simp, simp only: mod_mult_self1)
    then show ?thesis using r by (auto simp: ceil_div_def q_r_def)
  qed
  ultimately show ?thesis using fec_block_len [of n 8 12] by (simp only: fec_get_enc_msg_length.simps)
qed

definition h128_pairs :: "nat \<Rightarrow> bytes \<Rightarrow> bytes" where
  "h128_pairs n msg = concat (map (\<lambda>t. pair_bytes (h128_symbol (ucast (msg ! (2 * t)))) (h128_symbol (ucast (msg ! (2 * t + 1)))))
     [0..<n div 2])"

definition h128_tail :: "nat \<Rightarrow> bytes \<Rightarrow> bytes" where
  "h128_tail n msg = (if n mod 2 \<noteq> 0 then let m0 = h128_symbol (ucast (msg ! (n - 1)))
     in [ucast (drop_bit 4 (m0 AND 0x0ff0)), ucast (push_bit 4 (m0 AND 0x000f))] else [])"

lemma h128_stream_length:
  "length (h128_pairs n msg) = 3 * (n div 2)" "length (h128_tail n msg) = 2 * (n mod 2)"
proof -
  show "length (h128_pairs n msg) = 3 * (n div 2)"
    unfolding h128_pairs_def by (subst length_concat_uniform [where k = 3]) (simp_all add: pair_bytes_def)
  show "length (h128_tail n msg) = 2 * (n mod 2)" by (cases "even n") (auto simp: h128_tail_def Let_def odd_iff_mod_2_eq_one)
qed

lemma fec_hamming128_encode_Some:
  assumes "n < msg_bound"
  shows "fec_hamming128_encode n msg = Some (h128_pairs n msg @ h128_tail n msg)"
proof -
  have half: "(n - n mod 2) div 2 = n div 2" by (simp add: minus_mod_eq_mult_div)
  have "length (h128_pairs n msg @ h128_tail n msg) = 3 * (n div 2) + 2 * (n mod 2)" by (simp add: h128_stream_length)
  then show ?thesis
    unfolding fec_hamming128_encode_def Let_def hamming128_table_byte pair_bytes_def [symmetric] half add_0_right
    unfolding h128_pairs_def [symmetric] h128_tail_def [unfolded Let_def, symmetric] h128_enc_len [OF assms] bind.bind_lunit
    by simp
qed

lemma h128_fits: "take_bit 12 (h128_symbol (ucast (b :: u8))) = h128_symbol (ucast b)"
  by (rule h128.enc_fits [OF byte_symbol])

lemma pair_word_fits:
  "take_bit 12 m0 = m0 \<Longrightarrow> take_bit 12 m1 = m1 \<Longrightarrow> take_bit (8 * 3) (push_bit 12 m0 OR m1 :: u32) = push_bit 12 m0 OR m1"
  "take_bit 12 m0 = m0 \<Longrightarrow> take_bit 12 m1 = m1 \<Longrightarrow> drop_bit 12 (push_bit 12 m0 OR m1 :: u32) = m0"
  "take_bit 12 m0 = m0 \<Longrightarrow> take_bit 12 m1 = m1 \<Longrightarrow> take_bit 12 (push_bit 12 m0 OR m1 :: u32) = m1"
proof -
  assume m0: "take_bit 12 m0 = m0" and m1: "take_bit 12 m1 = m1"
  have 0: "bit m0 i \<Longrightarrow> i < 12" for i by (metis bit_take_bit_iff m0)
  have 1: "bit m1 i \<Longrightarrow> i < 12" for i by (metis bit_take_bit_iff m1)
  show "take_bit (8 * 3) (push_bit 12 m0 OR m1) = push_bit 12 m0 OR m1"
    by (rule bit_word_eqI) (auto simp: bit_take_bit_iff bit_or_iff bit_push_bit_iff dest: 0 1)
  show "drop_bit 12 (push_bit 12 m0 OR m1) = m0"
    by (rule bit_word_eqI) (auto simp: bit_drop_bit_eq bit_or_iff bit_push_bit_iff dest: 0 1)
  show "take_bit 12 (push_bit 12 m0 OR m1) = m1"
    by (rule bit_word_eqI) (auto simp: bit_take_bit_iff bit_or_iff bit_push_bit_iff dest: 0 1)
qed

lemma h128_stream_pair:
  assumes "q < n div 2"
  shows "stream_word 12 (h128_pairs n msg @ ys) (24 * q) = h128_symbol (ucast (msg ! (2 * q)))"
    and "stream_word 12 (h128_pairs n msg @ ys) (24 * q + 12) = h128_symbol (ucast (msg ! (2 * q + 1)))"
proof -
  let ?m0 = "h128_symbol (ucast (msg ! (2 * q)))" and ?m1 = "h128_symbol (ucast (msg ! (2 * q + 1)))"
  let ?out = "h128_pairs n msg @ ys"
  have "?out ! (3 * q + c) = word_bytes 3 (push_bit 12 ?m0 OR ?m1) ! c" if "c < 3" for c
    unfolding h128_pairs_def pair_bytes_word [OF h128_fits h128_fits, symmetric]
    by (rule nth_concat_uniform_append) (use assms that in \<open>simp_all add: pair_bytes_def\<close>)
  from stream_word_bytes [OF this pair_word_fits(1) [OF h128_fits h128_fits]]
  have w: "stream_word 24 ?out (24 * q) = push_bit 12 ?m0 OR ?m1" by simp
  have h: "stream_word 12 ?out (24 * q) = drop_bit 12 (stream_word 24 ?out (24 * q) :: u32)"
    "stream_word 12 ?out (24 * q + 12) = take_bit 12 (stream_word 24 ?out (24 * q) :: u32)"
    by (rule stream_word_halves; simp)+
  show "stream_word 12 ?out (24 * q) = ?m0" and "stream_word 12 ?out (24 * q + 12) = ?m1"
    unfolding h w by (rule pair_word_fits [OF h128_fits h128_fits])+
qed

lemma tail_bytes_12:
  assumes m: "take_bit 12 m = m"
  shows "(push_bit 4 (ucast (ucast (drop_bit 4 (m AND 0x0ff0)) :: u8)) AND 0x0ff0) OR
    (drop_bit 4 (ucast (ucast (push_bit 4 (m AND 0x000f)) :: u8)) AND 0x000f) = (m :: u32)" (is "?l = m")
proof (rule word32_eqI)
  fix i :: nat assume i: "i < 32"
  have "bit m i \<Longrightarrow> i < 12" by (metis bit_take_bit_iff m)
  then show "bit ?l i = bit m i"
    using i by (simp only: bit_or_iff bit_and_iff bit_nibble_masks bit_push_bit_iff bit_drop_bit_eq bit_ucast_iff comp_apply)
      auto
qed

lemma h128_stream_tail:
  assumes "n mod 2 \<noteq> 0"
  shows "stream_word 12 (h128_pairs n msg @ h128_tail n msg) (24 * (n div 2)) = h128_symbol (ucast (msg ! (n - 1)))"
proof -
  let ?m = "h128_symbol (ucast (msg ! (n - 1)))" and ?out = "h128_pairs n msg @ h128_tail n msg"
  have "?out ! (3 * (n div 2)) = ucast (drop_bit 4 (?m AND 0x0ff0))"
    "?out ! (3 * (n div 2) + 1) = ucast (push_bit 4 (?m AND 0x000f))"
    using assms by (simp_all add: nth_append h128_stream_length h128_tail_def Let_def)
  then show ?thesis
    using tail_bytes_12 [OF h128_fits [of "msg ! (n - 1)"]] unfolding stream_word_12(1) [symmetric] by simp
qed

lemma h128_stream:
  assumes "t < n"
  shows "stream_word 12 (h128_pairs n msg @ h128_tail n msg) (12 * t) = h128_symbol (ucast (msg ! t))"
proof (cases "t < 2 * (n div 2)")
  case True
  show ?thesis
  proof (cases "even t")
    case even: True
    then obtain q where q: "t = 2 * q" by (elim evenE)
    then show ?thesis using h128_stream_pair(1) [of q n msg] True by simp
  next
    case False
    then obtain q where q: "t = 2 * q + 1" by (elim oddE)
    then show ?thesis using h128_stream_pair(2) [of q n msg] True by (simp add: add.commute)
  qed
next
  case False
  then have t: "t = 2 * (n div 2)" "t = n - 1" "n mod 2 \<noteq> 0" using assms by presburger+
  have "12 * t = 24 * (n div 2)" unfolding t(1) by simp
  then show ?thesis using h128_stream_tail [OF t(3), of msg] t(2) by (simp only:)
qed

section \<open>Decoding\<close>

lemma h128_bytes_back:
  assumes "length msg = n"
  shows "concat (map (\<lambda>t. [msg ! (2 * t), msg ! (2 * t + 1)]) [0..<n div 2]) @
    (if n mod 2 \<noteq> 0 then [msg ! (n - 1)] else []) = msg"
proof -
  have "[msg ! (2 * t), msg ! (2 * t + 1)] = map (\<lambda>c. msg ! (2 * t + c)) [0..<2]" for t
    by (simp add: numeral_2_eq_2)
  then have blocks: "concat (map (\<lambda>t. [msg ! (2 * t), msg ! (2 * t + 1)]) [0..<n div 2]) = map ((!) msg) [0..<2 * (n div 2)]"
    by (simp only: concat_map_blocks)
  show ?thesis
    unfolding blocks
  proof (rule nth_equalityI)
    fix i assume "i < length (map ((!) msg) [0..<2 * (n div 2)] @ (if n mod 2 \<noteq> 0 then [msg ! (n - 1)] else []))"
    then have "i < 2 * (n div 2) \<or> (n mod 2 \<noteq> 0 \<and> i = 2 * (n div 2))" by (auto split: if_splits)
    moreover have "2 * (n div 2) = n - 1" if "n mod 2 \<noteq> 0" using that by presburger
    ultimately show "(map ((!) msg) [0..<2 * (n div 2)] @ (if n mod 2 \<noteq> 0 then [msg ! (n - 1)] else [])) ! i = msg ! i"
      by (auto simp: nth_append)
  next
    have "2 * (n div 2) + (if n mod 2 \<noteq> 0 then 1 else 0) = n" by presburger
    then show "length (map ((!) msg) [0..<2 * (n div 2)] @ (if n mod 2 \<noteq> 0 then [msg ! (n - 1)] else [])) = length msg"
      using assms by (simp split: if_splits)
  qed
qed

lemma fec_hamming128_decode_corrects:
  assumes "n < msg_bound" and "length msg = n"
    and enc: "fec_hamming128_encode n msg = Some out"
    and err: "\<And>t. t < n \<Longrightarrow> stream_errors 12 out rx (12 * t) \<le> 1"
  shows "fec_hamming128_decode n rx = Some msg"
proof -
  have out: "out = h128_pairs n msg @ h128_tail n msg" using enc fec_hamming128_encode_Some [OF assms(1)] by simp
  have dec: "fec_hamming128_decode_symbol (stream_word 12 rx (12 * t)) = Some (ucast (msg ! t))" if t: "t < n" for t
  proof (rule fec_hamming128_decode_symbol_corrects [OF take_bit_stream_word])
    show "ones (h128_symbol (ucast (msg ! t)) XOR stream_word 12 rx (12 * t)) \<le> 1"
      using err [OF t] stream_errors_ones [of 12 out "12 * t" rx, where 'a = 32]
      by (simp add: out h128_stream [OF t])
  qed
  have idx: "12 * (2 * t) = 24 * t" "12 * (2 * t + 1) = 24 * t + 12" for t :: nat by simp_all
  have half: "(n - n mod 2) div 2 = n div 2" by (simp add: minus_mod_eq_mult_div)
  have pairs: "for_append [0..<n div 2] (\<lambda>t.
       fec_hamming128_decode_symbol (stream_word 12 rx (24 * t)) \<bind>
       (\<lambda>s0. fec_hamming128_decode_symbol (stream_word 12 rx (24 * t + 12)) \<bind>
       (\<lambda>s1. Some [ucast s0, ucast s1]))) =
     Some (concat (map (\<lambda>t. [msg ! (2 * t), msg ! (2 * t + 1)]) [0..<n div 2]))"
  proof (rule for_append_Some)
    fix t assume "t \<in> set [0..<n div 2]"
    then have "2 * t < n" "2 * t + 1 < n" by simp_all
    from dec [OF this(1)] dec [OF this(2)]
    show "fec_hamming128_decode_symbol (stream_word 12 rx (24 * t)) \<bind>
       (\<lambda>s0. fec_hamming128_decode_symbol (stream_word 12 rx (24 * t + 12)) \<bind>
       (\<lambda>s1. Some [ucast s0, ucast s1])) = Some [msg ! (2 * t), msg ! (2 * t + 1)]"
      unfolding idx by simp
  qed
  have tail: "(if n mod 2 \<noteq> 0 then fec_hamming128_decode_symbol (stream_word 12 rx (24 * (n div 2))) \<bind> (\<lambda>s0. Some [ucast s0])
      else Some []) = Some (if n mod 2 \<noteq> 0 then [msg ! (n - 1)] else [] :: bytes)"
  proof (cases "n mod 2 \<noteq> 0")
    case True
    then have "2 * (n div 2) = n - 1" and "n - 1 < n" by presburger+
    then have "24 * (n div 2) = 12 * (n - 1)" and "n - 1 < n" by simp_all
    then show ?thesis using dec [of "n - 1"] True by (simp only: if_True not_False_eq_True bind.bind_lunit ucast_u8_u32_u8)
  qed simp
  have len: "3 * (n div 2) + (if n mod 2 \<noteq> 0 then 2 else 0) = 3 * (n div 2) + 2 * (n mod 2)" by presburger
  show ?thesis
    unfolding fec_hamming128_decode_def Let_def half add_0_right stream_word_12
    unfolding bind.bind_lunit pairs tail len h128_enc_len [OF assms(1)] h128_bytes_back [OF assms(2)]
    by (simp only: if_True refl)
qed

section \<open>Soft decoding\<close>

lemma h128_n3_loop_le:
  "h128_metric soft_bits (h128_n3_loop soft_bits ss (h128_metric soft_bits s) s) \<le> h128_metric soft_bits s"
  "s' \<in> set ss \<Longrightarrow> h128_metric soft_bits (h128_n3_loop soft_bits ss (h128_metric soft_bits s) s) \<le> h128_metric soft_bits (unat s')"
proof (induction ss arbitrary: s)
  case (Cons a ss)
  { case 1 show ?case using Cons.IH(1) [of "unat a"] Cons.IH(1) [of s] by (auto simp: Let_def) next
    case 2 show ?case
      using 2 Cons.IH(1) [of "unat a"] Cons.IH(1) [of s] Cons.IH(2) [of "unat a"] Cons.IH(2) [of s]
      by (auto simp: Let_def) }
qed simp_all

lemma h128_n3_loop_in: "h128_n3_loop soft_bits ss dmin s = s \<or> (\<exists>x \<in> set ss. h128_n3_loop soft_bits ss dmin s = unat x)"
  by (induction ss arbitrary: dmin s) (auto simp: Let_def)

text \<open>A symbol that no other beats stays.\<close>

lemma h128_n3_loop_keep:
  assumes "\<And>x. x \<in> set ss \<Longrightarrow> h128_metric soft_bits s \<le> h128_metric soft_bits (unat x)"
  shows "h128_n3_loop soft_bits ss (h128_metric soft_bits s) s = s"
  using assms
proof (induction ss)
  case (Cons a ss)
  then have "\<not> h128_metric soft_bits (unat a) < h128_metric soft_bits s" by (simp add: not_less)
  with Cons show ?case by (simp add: Let_def)
qed simp

lemma bit_if_zero: "bit (if p then x else 0 :: u32) i \<longleftrightarrow> p \<and> bit x i"
  by simp

lemma bit_h128_hard: "bit (h128_hard soft_bits) i \<longleftrightarrow> i < 12 \<and> 127 < soft_bits ! (11 - i)"
proof (cases "i < 32")
  case True
  then show ?thesis
    unfolding h128_hard_def bit_or_iff bit_if_zero by (rule less_32_cases) simp_all
next
  case False
  then show ?thesis by (auto dest: bit_imp_le_length)
qed

lemma mask_bit_12:
  "(c :: u32) AND 0x0800 \<noteq> 0 \<longleftrightarrow> bit c 11" "c AND 0x0400 \<noteq> 0 \<longleftrightarrow> bit c 10"
  "c AND 0x0200 \<noteq> 0 \<longleftrightarrow> bit c 9" "c AND 0x0100 \<noteq> 0 \<longleftrightarrow> bit c 8"
  "c AND 0x0080 \<noteq> 0 \<longleftrightarrow> bit c 7" "c AND 0x0040 \<noteq> 0 \<longleftrightarrow> bit c 6"
  "c AND 0x0020 \<noteq> 0 \<longleftrightarrow> bit c 5" "c AND 0x0010 \<noteq> 0 \<longleftrightarrow> bit c 4"
  "c AND 0x0008 \<noteq> 0 \<longleftrightarrow> bit c 3" "c AND 0x0004 \<noteq> 0 \<longleftrightarrow> bit c 2"
  "c AND 0x0002 \<noteq> 0 \<longleftrightarrow> bit c 1" "c AND 0x0001 \<noteq> 0 \<longleftrightarrow> bit c 0"
  using and_exp_eq_0_iff_not_bit [of c 11] and_exp_eq_0_iff_not_bit [of c 10]
    and_exp_eq_0_iff_not_bit [of c 9] and_exp_eq_0_iff_not_bit [of c 8]
    and_exp_eq_0_iff_not_bit [of c 7] and_exp_eq_0_iff_not_bit [of c 6]
    and_exp_eq_0_iff_not_bit [of c 5] and_exp_eq_0_iff_not_bit [of c 4]
    and_exp_eq_0_iff_not_bit [of c 3] and_exp_eq_0_iff_not_bit [of c 2]
    and_exp_eq_0_iff_not_bit [of c 1] and_exp_eq_0_iff_not_bit [of c 0]
  by simp_all

lemma ones_12:
  assumes "take_bit 12 (x :: u32) = x"
  shows "ones x = of_bool (bit x 11) + of_bool (bit x 10) + of_bool (bit x 9) + of_bool (bit x 8) +
    of_bool (bit x 7) + of_bool (bit x 6) + of_bool (bit x 5) + of_bool (bit x 4) +
    of_bool (bit x 3) + of_bool (bit x 2) + of_bool (bit x 1) + of_bool (bit x 0)"
proof -
  have up: "[0..<12] = [0, 1, 2, 3, 4, 5, 6, 7, 8, 9, 10, 11 :: nat]" by code_simp
  have "ones x = length (filter (bit x) [0..<12])" using ones_take_bit [of 12 x] assms by simp
  then show ?thesis by (simp only: up filter_length_Cons filter.simps(1) list.size)
qed

lemma soft_term_decision: "soft_term c m (if q then 255 else 0) = 255 * of_bool ((c AND m \<noteq> 0) \<noteq> q)"
  by (simp add: soft_term_def)

lemma h128_metric_hard:
  assumes "\<And>i. i < 12 \<Longrightarrow> soft_bits ! i = (if bit r (11 - i) then 255 else 0)"
    and "take_bit 12 r = r" and "s < 256"
  shows "h128_metric soft_bits s = 255 * ones (h128_symbol (of_nat s) XOR r)"
proof -
  have "take_bit 8 (of_nat s :: u32) = of_nat s" using h128.symbol_fits [of s] assms(3) by simp
  then have fits: "take_bit 12 (h128_symbol (of_nat s) XOR r) = h128_symbol (of_nat s) XOR r"
    by (simp add: take_bit_xor h128.enc_fits assms(2))
  have soft: "soft_bits ! 0 = (if bit r 11 then 255 else 0)" "soft_bits ! 1 = (if bit r 10 then 255 else 0)"
    "soft_bits ! 2 = (if bit r 9 then 255 else 0)" "soft_bits ! 3 = (if bit r 8 then 255 else 0)"
    "soft_bits ! 4 = (if bit r 7 then 255 else 0)" "soft_bits ! 5 = (if bit r 6 then 255 else 0)"
    "soft_bits ! 6 = (if bit r 5 then 255 else 0)" "soft_bits ! 7 = (if bit r 4 then 255 else 0)"
    "soft_bits ! 8 = (if bit r 3 then 255 else 0)" "soft_bits ! 9 = (if bit r 2 then 255 else 0)"
    "soft_bits ! 10 = (if bit r 1 then 255 else 0)" "soft_bits ! 11 = (if bit r 0 then 255 else 0)"
    by (simp_all add: assms(1))
  show ?thesis
    unfolding h128_metric_def Let_def soft soft_term_decision hamming128_table [OF assms(3)] mask_bit_12
      ones_12 [OF fits] bit_xor_iff by (simp only: add_mult_distrib2)
qed

lemma h128_hard_decision:
  assumes "\<And>i. i < 12 \<Longrightarrow> soft_bits ! i = (if bit r (11 - i) then 255 else 0)" and "take_bit 12 r = r"
  shows "h128_hard soft_bits = r"
proof (rule bit_word_eqI)
  fix i
  have "bit r i \<Longrightarrow> i < 12" by (metis assms(2) bit_take_bit_iff)
  then show "bit (h128_hard soft_bits) i = bit r i"
    using assms(1) [of "11 - i"] by (auto simp: bit_h128_hard)
qed

lemma fecsoft_hamming128_decode_ml:
  "fecsoft_hamming128_decode soft_bits < 256"
  "s < 256 \<Longrightarrow> h128_metric soft_bits (fecsoft_hamming128_decode soft_bits) \<le> h128_metric soft_bits s"
  unfolding fecsoft_hamming128_decode_def by (rule soft_search_upt; simp)+

lemma fecsoft_hamming128_hard:
  assumes "\<And>i. i < 12 \<Longrightarrow> soft_bits ! i = (if bit r (11 - i) then 255 else 0)" and "take_bit 12 r = r"
    and "ones (h128_symbol (ucast (b :: u8)) XOR r) \<le> 1"
  shows "fecsoft_hamming128_decode soft_bits = unat b"
    and "fecsoft_hamming128_decode_n3 soft_bits = Some (unat b)"
proof -
  have b: "unat b < 2 ^ 8" using unat_u8_less [of b] by simp
  have sym: "(ucast b :: u32) = of_nat (unat b)" by simp
  show "fecsoft_hamming128_decode soft_bits = unat b"
    using h128.soft_search_code [OF b, of r "h128_metric soft_bits" 0 0] assms(3) h128_metric_hard [OF assms(1,2)]
    by (simp add: fecsoft_hamming128_decode_def)
  have dec: "fec_hamming128_decode_symbol (h128_hard soft_bits) = Some (ucast b)"
    using fec_hamming128_decode_symbol_corrects [OF assms(2,3)] h128_hard_decision [OF assms(1,2)] by simp
  have "h128_metric soft_bits (unat b) \<le> h128_metric soft_bits (unat x)" for x :: u8
    using h128.half_distance_ml [OF b, of "unat x" r] assms(3) unat_u8_less [of x] b
    by (simp add: h128_metric_hard [OF assms(1,2)])
  then have "h128_n3_loop soft_bits ss (h128_metric soft_bits (unat b)) (unat b) = unat b" for ss
    by (rule h128_n3_loop_keep)
  moreover have "unat (ucast b :: u32) = unat b" by (simp add: unsigned_ucast_eq take_bit_nat_eq_self unat_u8_less less_trans [OF unat_u8_less])
  ultimately show "fecsoft_hamming128_decode_n3 soft_bits = Some (unat b)"
    by (simp add: fecsoft_hamming128_decode_n3_def dec Let_def)
qed

lemma h128_strip_less: "unat (h128_strip r) < 256"
proof -
  have "take_bit 8 (h128_strip r) = h128_strip r"
  proof (rule word32_eqI)
    fix i :: nat assume "i < 32"
    then show "bit (take_bit 8 (h128_strip r)) i = bit (h128_strip r) i"
      unfolding h128_strip_def bit_take_bit_iff code_bits by (rule less_32_cases) simp_all
  qed
  moreover have "unat (take_bit 8 (h128_strip r)) < 2 ^ 8"
    by (simp only: unsigned_take_bit_eq take_bit_nat_less_exp)
  ultimately show ?thesis by (simp only:) simp
qed

lemma h128_soft_lengths:
  assumes "n < msg_bound"
  shows "wrap32 (12 * n + n mod 2 * 4) = wrap32 (8 * wrap32 (wrap32 (3 * n) div 2 + n mod 2))"
proof -
  have small: "12 * n + n mod 2 * 4 < 2 ^ 32" "3 * n < 2 ^ 32" "3 * n div 2 + n mod 2 < 2 ^ 32"
  proof -
    have "n mod 2 < 2" "3 * n div 2 \<le> 3 * n" "n < 67108864" using assms by simp_all
    moreover have "(2 :: nat) ^ 32 = 4294967296" by simp
    ultimately show "12 * n + n mod 2 * 4 < 2 ^ 32" "3 * n < 2 ^ 32" "3 * n div 2 + n mod 2 < 2 ^ 32" by linarith+
  qed
  have "12 * n + n mod 2 * 4 = 8 * (3 * n div 2 + n mod 2)" by presburger
  with small show ?thesis by simp
qed

lemma fec_hamming128_decode_soft_corrects:
  assumes "n < msg_bound" and "length msg = n"
    and enc: "fec_hamming128_encode n msg = Some out" and "length rx = length out"
    and err: "\<And>t. t < n \<Longrightarrow> stream_errors 12 out rx (12 * t) \<le> 1"
  shows "fec_hamming128_decode_soft n (soft_of rx) = Some msg"
proof -
  have out: "out = h128_pairs n msg @ h128_tail n msg" using enc fec_hamming128_encode_Some [OF assms(1)] by simp
  have dec: "fecsoft_hamming128_decode_n3 (drop (12 * t) (soft_of rx)) = Some (unat (msg ! t))" if t: "t < n" for t
  proof (rule fecsoft_hamming128_hard(2) [OF _ take_bit_stream_word])
    fix i :: nat assume i: "i < 12"
    have "12 * Suc t \<le> 12 * n" using t by simp
    also have "12 * n \<le> 8 * (3 * (n div 2) + 2 * (n mod 2))" by presburger
    finally have "12 * t + i < 8 * length rx" using i by (simp add: assms(4) out h128_stream_length)
    then show "drop (12 * t) (soft_of rx) ! i = (if bit (stream_word 12 rx (12 * t) :: u32) (11 - i) then 255 else 0)"
      using i by (simp add: soft_of_nth bit_stream_word)
  next
    show "ones (h128_symbol (ucast (msg ! t)) XOR stream_word 12 rx (12 * t)) \<le> 1"
      using err [OF t] stream_errors_ones [of 12 out "12 * t" rx, where 'a = 32]
      by (simp add: out h128_stream [OF t])
  qed
  have "for_append [0..<n] (\<lambda>i. fecsoft_hamming128_decode_n3 (drop (12 * i) (soft_of rx)) \<bind> (\<lambda>s. Some [of_nat s])) =
      Some (concat (map (\<lambda>i. [msg ! i]) [0..<n]))"
    by (rule for_append_Some) (simp add: dec)
  moreover have "map ((!) msg) [0..<n] = msg" using map_nth [of msg] assms(2) by simp
  ultimately show ?thesis
    unfolding fec_hamming128_decode_soft_def Let_def h128_soft_lengths [OF assms(1)] by (simp add: concat_map_singleton)
qed

section \<open>Properties\<close>



text \<open>The soft decoders of Hamming(12,8) minimise their metric. For any twelve soft bits the full search gives
  a symbol of least metric among all 256; the search over nearest neighbours always returns a symbol below 256,
  whose metric is at most that of the hard decision and of every symbol in the row of neighbours searched.\<close>
theorem hamming128_soft_decoders:
  assumes "s < 256"
  shows "h128_metric soft_bits (fecsoft_hamming128_decode soft_bits) \<le> h128_metric soft_bits s \<and>
    (\<exists>hard s_hat. fec_hamming128_decode_symbol (h128_hard soft_bits) = Some hard \<and>
      fecsoft_hamming128_decode_n3 soft_bits = Some s_hat \<and> s_hat < 256 \<and>
      h128_metric soft_bits s_hat \<le> h128_metric soft_bits (unat hard) \<and>
      (\<forall>x \<in> set (fecsoft_hamming128_n3 ! unat hard). h128_metric soft_bits s_hat \<le> h128_metric soft_bits (unat x)))"
proof -
  have "take_bit 12 (h128_hard soft_bits) = h128_hard soft_bits"
    by (rule bit_word_eqI) (auto simp: bit_take_bit_iff bit_h128_hard)
  from fec_hamming128_decode_symbol_Some [OF this] obtain hard where
    hard: "fec_hamming128_decode_symbol (h128_hard soft_bits) = Some hard" "unat hard < 256"
    using h128_strip_less by blast
  define s_hat where "s_hat = h128_n3_loop soft_bits (fecsoft_hamming128_n3 ! unat hard) (h128_metric soft_bits (unat hard)) (unat hard)"
  have "s_hat < 256"
    using h128_n3_loop_in [of soft_bits "fecsoft_hamming128_n3 ! unat hard" "h128_metric soft_bits (unat hard)" "unat hard"]
      hard(2) unat_u8_less unfolding s_hat_def by metis
  moreover have "fecsoft_hamming128_decode_n3 soft_bits = Some s_hat"
    by (simp add: fecsoft_hamming128_decode_n3_def hard(1) Let_def s_hat_def)
  ultimately show ?thesis
    using hard(1) fecsoft_hamming128_decode_ml(2) [OF assms, of soft_bits] h128_n3_loop_le unfolding s_hat_def by blast
qed

theorem hamming128_soft_decoders_witness:
  "h128_metric [9, 200, 31, 127, 128, 255, 0, 64, 190, 3, 250, 99] (fecsoft_hamming128_decode [9, 200, 31, 127, 128, 255, 0, 64, 190, 3, 250, 99]) \<le> h128_metric [9, 200, 31, 127, 128, 255, 0, 64, 190, 3, 250, 99] 77 \<and>
    (\<exists>hard s_hat. fec_hamming128_decode_symbol (h128_hard [9, 200, 31, 127, 128, 255, 0, 64, 190, 3, 250, 99]) = Some hard \<and>
      fecsoft_hamming128_decode_n3 [9, 200, 31, 127, 128, 255, 0, 64, 190, 3, 250, 99] = Some s_hat \<and> s_hat < 256 \<and>
      h128_metric [9, 200, 31, 127, 128, 255, 0, 64, 190, 3, 250, 99] s_hat \<le> h128_metric [9, 200, 31, 127, 128, 255, 0, 64, 190, 3, 250, 99] (unat hard) \<and>
      (\<forall>x \<in> set (fecsoft_hamming128_n3 ! unat hard). h128_metric [9, 200, 31, 127, 128, 255, 0, 64, 190, 3, 250, 99] s_hat \<le> h128_metric [9, 200, 31, 127, 128, 255, 0, 64, 190, 3, 250, 99] (unat x)))"
  by (rule hamming128_soft_decoders) simp

end
