(* ===== verification/Fec_Hamming_Long.thy ===== *)
theory Fec_Hamming_Long
  imports Hamming_Codes
begin

unbundle bit_operations_syntax

text \<open>
  \<^verbatim>\<open>liquid_dsp/src/fec/src/fec_hamming1511.c\<close> and \<^verbatim>\<open>fec_hamming3126.c\<close>: the symbol codecs of
  Hamming(15,11) and Hamming(31,26), two further interpretations of \<open>hamming_code\<close>. No scheme of
  the library uses them on blocks. In the comparison with \<^verbatim>\<open>1<<31\<close> the constant is taken as the
  unsigned value the comparison converts it to.
\<close>

section \<open>Hamming(15,11)\<close>

definition h1511_symbol :: "u32 \<Rightarrow> u32" where
  "h1511_symbol sym_dec =
     (let p1 = liquid_bdotprod_uint16 sym_dec 0x06d5;
          p2 = liquid_bdotprod_uint16 sym_dec 0x05b3;
          p4 = liquid_bdotprod_uint16 sym_dec 0x038f;
          p8 = liquid_bdotprod_uint16 sym_dec 0x007f
      in push_bit 0 (sym_dec AND 0x007f) OR
         push_bit 1 (sym_dec AND 0x0380) OR
         push_bit 2 (sym_dec AND 0x0400) OR
         push_bit 14 p1 OR
         push_bit 13 p2 OR
         push_bit 11 p4 OR
         push_bit 7 p8)"

definition fec_hamming1511_encode_symbol :: "u32 \<Rightarrow> u32 option" where
  "fec_hamming1511_encode_symbol sym_dec =
     (if sym_dec \<ge> push_bit 11 1 then None else Some (h1511_symbol sym_dec))"

definition h1511_syndrome :: "u32 \<Rightarrow> u32" where
  "h1511_syndrome sym_enc =
     (let s1 = liquid_bdotprod_uint16 sym_enc 0x5555;
          s2 = liquid_bdotprod_uint16 sym_enc 0x3333;
          s4 = liquid_bdotprod_uint16 sym_enc 0x0f0f;
          s8 = liquid_bdotprod_uint16 sym_enc 0x00ff
      in push_bit 3 s8 OR push_bit 2 s4 OR push_bit 1 s2 OR s1)"

definition h1511_strip :: "u32 \<Rightarrow> u32" where
  "h1511_strip sym_enc =
     (sym_enc AND 0x007f) OR drop_bit 1 (sym_enc AND 0x0700) OR drop_bit 2 (sym_enc AND 0x1000)"

definition fec_hamming1511_decode_symbol :: "u32 \<Rightarrow> u32 option" where
  "fec_hamming1511_decode_symbol sym_enc =
     (if sym_enc \<ge> push_bit 15 1 then None
      else let z = unat (h1511_syndrome sym_enc);
               sym_enc = flip_at 15 z sym_enc
           in Some (h1511_strip sym_enc))"

section \<open>Hamming(31,26)\<close>

definition h3126_symbol :: "u32 \<Rightarrow> u32" where
  "h3126_symbol sym_dec =
     (let p1 = liquid_bdotprod_uint32 sym_dec 0x036AD555;
          p2 = liquid_bdotprod_uint32 sym_dec 0x02D9B333;
          p4 = liquid_bdotprod_uint32 sym_dec 0x01C78F0F;
          p8 = liquid_bdotprod_uint32 sym_dec 0x003F80FF;
          p16 = liquid_bdotprod_uint32 sym_dec 0x00007FFF
      in push_bit 0 (sym_dec AND 0x00007fff) OR
         push_bit 1 (sym_dec AND 0x003F8000) OR
         push_bit 2 (sym_dec AND 0x01C00000) OR
         push_bit 3 (sym_dec AND 0x02000000) OR
         push_bit 30 p1 OR
         push_bit 29 p2 OR
         push_bit 27 p4 OR
         push_bit 23 p8 OR
         push_bit 15 p16)"

definition fec_hamming3126_encode_symbol :: "u32 \<Rightarrow> u32 option" where
  "fec_hamming3126_encode_symbol sym_dec =
     (if sym_dec \<ge> push_bit 26 1 then None else Some (h3126_symbol sym_dec))"

definition h3126_syndrome :: "u32 \<Rightarrow> u32" where
  "h3126_syndrome sym_enc =
     (let s1 = liquid_bdotprod_uint32 sym_enc 0x55555555;
          s2 = liquid_bdotprod_uint32 sym_enc 0x33333333;
          s4 = liquid_bdotprod_uint32 sym_enc 0x0f0f0f0f;
          s8 = liquid_bdotprod_uint32 sym_enc 0x00ff00ff;
          s16 = liquid_bdotprod_uint32 sym_enc 0x0000ffff
      in push_bit 4 s16 OR push_bit 3 s8 OR push_bit 2 s4 OR push_bit 1 s2 OR s1)"

definition h3126_strip :: "u32 \<Rightarrow> u32" where
  "h3126_strip sym_enc =
     (sym_enc AND 0x00007fff) OR drop_bit 1 (sym_enc AND 0x007f0000) OR drop_bit 2 (sym_enc AND 0x07000000) OR drop_bit 3 (sym_enc AND 0x10000000)"

definition fec_hamming3126_decode_symbol :: "u32 \<Rightarrow> u32 option" where
  "fec_hamming3126_decode_symbol sym_enc =
     (if sym_enc \<ge> push_bit 31 1 then None
      else let z = unat (h3126_syndrome sym_enc);
               sym_enc = flip_at 31 z sym_enc
           in Some (h3126_strip sym_enc))"

section \<open>The laws\<close>

lemma h1511_symbol_xor: "h1511_symbol (x XOR y) = h1511_symbol x XOR h1511_symbol y"
  unfolding h1511_symbol_def Let_def
  by (rule word32_eqI) (unfold code_bits, erule less_32_cases, simp_all)

lemma h1511_syndrome_xor: "h1511_syndrome (x XOR y) = h1511_syndrome x XOR h1511_syndrome y"
  unfolding h1511_syndrome_def Let_def
  by (rule word32_eqI) (unfold code_bits, erule less_32_cases, simp_all)

lemma h1511_strip_xor: "h1511_strip (x XOR y) = h1511_strip x XOR h1511_strip y"
  unfolding h1511_strip_def 
  by (rule word32_eqI) (unfold code_bits, erule less_32_cases, simp_all)

lemma h1511_syndrome_units: "list_all (\<lambda>j. h1511_syndrome (unit_word j) = of_nat (15 - j)) [0..<15]"
  by code_simp

abbreviation h1511_rows :: "u32 list" where
  "h1511_rows \<equiv> [0x6881, 0x2882, 0x4884, 0x888, 0x6090, 0x20a0, 0x40c0, 0x6900, 0x2a00, 0x4c00, 0x7000]"

lemma h1511_rows: "map (\<lambda>j. h1511_symbol (unit_word j)) [0..<11] = h1511_rows"
  by code_simp

lemma h1511_rows_syndrome: "list_all (\<lambda>c. h1511_syndrome c = 0 \<and> take_bit 15 c = c) h1511_rows"
  by code_simp

lemma h1511_rows_strip: "map h1511_strip h1511_rows = map unit_word [0..<11]"
  by code_simp

interpretation h1511: hamming_code h1511_symbol h1511_syndrome h1511_strip 15 11
proof
  fix j :: nat
  show "j < 15 \<Longrightarrow> h1511_syndrome (unit_word j) = of_nat (15 - j)"
    using h1511_syndrome_units by (simp add: list_all_upt)
  show "h1511_syndrome (h1511_symbol (unit_word j)) = 0" "take_bit 15 (h1511_symbol (unit_word j)) = h1511_symbol (unit_word j)"
    if "j < 11"
    using list_all_upt_units [OF h1511_rows h1511_rows_syndrome that] by simp_all
  have "map h1511_strip (map (\<lambda>j. h1511_symbol (unit_word j)) [0..<11]) = map unit_word [0..<11]"
    unfolding h1511_rows by (rule h1511_rows_strip)
  then show "h1511_strip (h1511_symbol (unit_word j)) = unit_word j" if "j < 11"
    using that by simp
qed (simp_all add: h1511_symbol_xor h1511_syndrome_xor h1511_strip_xor)

lemma h3126_symbol_xor: "h3126_symbol (x XOR y) = h3126_symbol x XOR h3126_symbol y"
  unfolding h3126_symbol_def Let_def
  by (rule word32_eqI) (unfold code_bits, erule less_32_cases, simp_all)

lemma h3126_syndrome_xor: "h3126_syndrome (x XOR y) = h3126_syndrome x XOR h3126_syndrome y"
  unfolding h3126_syndrome_def Let_def
  by (rule word32_eqI) (unfold code_bits, erule less_32_cases, simp_all)

lemma h3126_strip_xor: "h3126_strip (x XOR y) = h3126_strip x XOR h3126_strip y"
  unfolding h3126_strip_def 
  by (rule word32_eqI) (unfold code_bits, erule less_32_cases, simp_all)

text \<open>On a single bit a parity is a bit of the mask; this is faster to evaluate than the tables.\<close>

lemma bdotprod_unit: "j < 32 \<Longrightarrow> liquid_bdotprod_uint32 (unit_word j) m = of_bool (bit m j)"
proof -
  assume j: "j < 32"
  have "unit_word j AND m = (if bit m j then unit_word j else 0)"
    by (rule bit_word_eqI) (auto simp: bit_and_iff)
  then show ?thesis
    using j by (simp add: liquid_bdotprod_uint32_parity parity_of_def unit_word_def ones_exp del: push_bit_of_1)
qed

lemma h3126_syndrome_units: "j < 31 \<Longrightarrow> h3126_syndrome (unit_word j) = of_nat (31 - j)"
proof -
  assume j: "j < 31"
  then have "j < 32" by simp
  then have "j < 31 \<longrightarrow> push_bit 4 (of_bool (bit (0x0000ffff :: u32) j)) OR push_bit 3 (of_bool (bit (0x00ff00ff :: u32) j)) OR
      push_bit 2 (of_bool (bit (0x0f0f0f0f :: u32) j)) OR push_bit 1 (of_bool (bit (0x33333333 :: u32) j)) OR
      of_bool (bit (0x55555555 :: u32) j) = (of_nat (31 - j) :: u32)"
    by (rule less_32_cases) simp_all
  with j show ?thesis by (simp add: h3126_syndrome_def Let_def bdotprod_unit)
qed

abbreviation h3126_rows :: "u32 list" where
  "h3126_rows \<equiv> [0x68808001, 0x28808002, 0x48808004, 0x8808008, 0x60808010, 0x20808020, 0x40808040, 0x808080,
    0x68008100, 0x28008200, 0x48008400, 0x8008800, 0x60009000, 0x2000a000, 0x4000c000, 0x68810000,
    0x28820000, 0x48840000, 0x8880000, 0x60900000, 0x20a00000, 0x40c00000, 0x69000000, 0x2a000000,
    0x4c000000, 0x70000000]"

lemma h3126_rows: "map (\<lambda>j. h3126_symbol (unit_word j)) [0..<26] = h3126_rows"
proof -
  have "h3126_symbol (unit_word j) = push_bit 0 (push_bit j 1 AND 0x00007fff) OR push_bit 1 (push_bit j 1 AND 0x003F8000) OR
      push_bit 2 (push_bit j 1 AND 0x01C00000) OR push_bit 3 (push_bit j 1 AND 0x02000000) OR
      push_bit 30 (of_bool (bit (0x036AD555 :: u32) j)) OR push_bit 29 (of_bool (bit (0x02D9B333 :: u32) j)) OR
      push_bit 27 (of_bool (bit (0x01C78F0F :: u32) j)) OR push_bit 23 (of_bool (bit (0x003F80FF :: u32) j)) OR
      push_bit 15 (of_bool (bit (0x00007FFF :: u32) j))" if "j < 32" for j
    unfolding h3126_symbol_def Let_def bdotprod_unit [OF that] unfolding unit_word_def ..
  moreover have "[0..<26] = [0, 1, 2, 3, 4, 5, 6, 7, 8, 9, 10, 11, 12, 13, 14, 15, 16, 17, 18, 19, 20, 21, 22, 23, 24, 25 :: nat]"
    by code_simp
  ultimately show ?thesis by simp
qed

lemma h3126_rows_syndrome: "list_all (\<lambda>c. h3126_syndrome c = 0 \<and> take_bit 31 c = c) h3126_rows"
  by code_simp

lemma h3126_rows_strip: "map h3126_strip h3126_rows = map unit_word [0..<26]"
  by code_simp

interpretation h3126: hamming_code h3126_symbol h3126_syndrome h3126_strip 31 26
proof
  fix j :: nat
  show "j < 31 \<Longrightarrow> h3126_syndrome (unit_word j) = of_nat (31 - j)"
    by (rule h3126_syndrome_units)
  show "h3126_syndrome (h3126_symbol (unit_word j)) = 0" "take_bit 31 (h3126_symbol (unit_word j)) = h3126_symbol (unit_word j)"
    if "j < 26"
    using list_all_upt_units [OF h3126_rows h3126_rows_syndrome that] by simp_all
  have "map h3126_strip (map (\<lambda>j. h3126_symbol (unit_word j)) [0..<26]) = map unit_word [0..<26]"
    unfolding h3126_rows by (rule h3126_rows_strip)
  then show "h3126_strip (h3126_symbol (unit_word j)) = unit_word j" if "j < 26"
    using that by simp
qed (simp_all add: h3126_symbol_xor h3126_syndrome_xor h3126_strip_xor)

section \<open>Properties\<close>

lemma fec_hamming1511_symbols:
  assumes "take_bit 11 m = m" and "take_bit 15 r = r" and "ones (h1511_symbol m XOR r) \<le> 1"
  shows "fec_hamming1511_encode_symbol m = Some (h1511_symbol m) \<and> fec_hamming1511_decode_symbol r = Some m"
  using symbol_too_large [OF assms(1)] symbol_too_large [OF assms(2)] h1511.corrects [OF assms]
  by (simp add: fec_hamming1511_encode_symbol_def fec_hamming1511_decode_symbol_def Let_def)

lemma fec_hamming3126_symbols:
  assumes "take_bit 26 m = m" and "take_bit 31 r = r" and "ones (h3126_symbol m XOR r) \<le> 1"
  shows "fec_hamming3126_encode_symbol m = Some (h3126_symbol m) \<and> fec_hamming3126_decode_symbol r = Some m"
  using symbol_too_large [OF assms(1)] symbol_too_large [OF assms(2)] h3126.corrects [OF assms]
  by (simp add: fec_hamming3126_encode_symbol_def fec_hamming3126_decode_symbol_def Let_def)

text \<open>The Hamming(15,11) and Hamming(31,26) symbol codecs: every symbol of 11 (26) bits is encoded without
  aborting into a word of 15 (31) bits, and decoding any word that differs from it in at most one bit gives the
  symbol back.\<close>
theorem hamming_long_correct:
  assumes "take_bit 11 m = m" and "take_bit 26 m' = m'"
  shows "\<exists>c c'. fec_hamming1511_encode_symbol m = Some c \<and> take_bit 15 c = c \<and>
    fec_hamming3126_encode_symbol m' = Some c' \<and> take_bit 31 c' = c' \<and>
    (\<forall>r. take_bit 15 r = r \<and> ones (c XOR r) \<le> 1 \<longrightarrow> fec_hamming1511_decode_symbol r = Some m) \<and>
    (\<forall>r. take_bit 31 r = r \<and> ones (c' XOR r) \<le> 1 \<longrightarrow> fec_hamming3126_decode_symbol r = Some m')"
  using fec_hamming1511_symbols [OF assms(1)] fec_hamming3126_symbols [OF assms(2)]
    fec_hamming1511_symbols [OF assms(1) h1511.enc_fits [OF assms(1)]]
    fec_hamming3126_symbols [OF assms(2) h3126.enc_fits [OF assms(2)]]
    h1511.enc_fits [OF assms(1)] h3126.enc_fits [OF assms(2)] by auto

theorem hamming_long_correct_witness:
  "\<exists>c c'. fec_hamming1511_encode_symbol 0x5a3 = Some c \<and> take_bit 15 c = c \<and>
    fec_hamming3126_encode_symbol 0x2345678 = Some c' \<and> take_bit 31 c' = c' \<and>
    (\<forall>r. take_bit 15 r = r \<and> ones (c XOR r) \<le> 1 \<longrightarrow> fec_hamming1511_decode_symbol r = Some 0x5a3) \<and>
    (\<forall>r. take_bit 31 r = r \<and> ones (c' XOR r) \<le> 1 \<longrightarrow> fec_hamming3126_decode_symbol r = Some 0x2345678)"
  by (rule hamming_long_correct) simp_all

end
