(* ===== verification/Secded_Codes.thy ===== *)
theory Secded_Codes
  imports Block_Codes Fec_Scheme
begin

unbundle bit_operations_syntax

text \<open>
  What the single-error-correcting, double-error-detecting codecs \<^verbatim>\<open>fec_secded2216.c\<close>,
  \<^verbatim>\<open>fec_secded3932.c\<close> and \<^verbatim>\<open>fec_secded7264.c\<close> share: the parity loop, the search for a syndrome
  and, as the locale \<open>secded_code\<close>, the laws of their two tables and what follows from them for any
  number \<open>k\<close> of data bytes and \<open>w\<close> of parity bits. The codecs unroll the sums over the bytes; the
  operations here are the same with the sums rolled up.
\<close>

section \<open>The loops\<close>

fun secded_loop :: "(nat \<Rightarrow> nat) \<Rightarrow> nat list \<Rightarrow> u8 \<Rightarrow> u8" where
  "secded_loop p [] parity = parity"
| "secded_loop p (i # is) parity =
     (let parity = push_bit 1 parity
      in secded_loop p is (parity OR (of_nat (p i) AND 0x01)))"

fun secded_search :: "u8 \<Rightarrow> u8 list \<Rightarrow> nat list \<Rightarrow> nat option" where
  "secded_search s w1 [] = None"
| "secded_search s w1 (n # ns) = (if s = w1 ! n then Some n else secded_search s w1 ns)"

lemma bit_secded_loop:
  assumes "length is \<le> 8"
  shows "bit (secded_loop p is x) j \<longleftrightarrow>
    (if j < length is then odd (p (is ! (length is - 1 - j))) else j < 8 \<and> bit x (j - length is))"
  using assms
proof (induction "is" arbitrary: x)
  case Nil
  then show ?case by (auto dest: bit_imp_le_length)
next
  case (Cons i "is")
  let ?x = "push_bit 1 x OR (of_nat (p i) AND 1)"
  have one: "(of_nat (p i) AND 1 :: u8) = of_bool (odd (p i))" by (simp add: and_one_eq mod_2_eq_odd)
  have x0: "bit ?x 0 \<longleftrightarrow> odd (p i)" and xS: "bit ?x (Suc k) \<longleftrightarrow> Suc k < 8 \<and> bit x k" for k
    unfolding one by (simp_all only: bit_or_iff bit_push_bit_iff bit_of_bool_iff) simp_all
  have run: "bit (secded_loop p (i # is) x) j \<longleftrightarrow>
      (if j < length is then odd (p (is ! (length is - 1 - j))) else j < 8 \<and> bit ?x (j - length is))"
    unfolding secded_loop.simps Let_def using Cons.prems by (intro Cons.IH) simp
  consider "j < length is" | "j = length is" | "length is < j" by linarith
  then show ?case
  proof cases
    case 1
    then have "length is - j = Suc (length is - 1 - j)" by simp
    with 1 show ?thesis unfolding run by simp
  next
    case 2
    with Cons.prems x0 show ?thesis unfolding run by simp
  next
    case 3
    then obtain k where k: "j = Suc (length is + k)" using less_imp_Suc_add by blast
    then have d: "j - length is = Suc k" "j - length (i # is) = k" "\<not> j < length is" by simp_all
    have "bit (secded_loop p (i # is) x) j \<longleftrightarrow> j < 8 \<and> Suc k < 8 \<and> bit x k"
      unfolding run d(1) xS using d(3) by (simp only: if_False)
    then show ?thesis using 3 k d(2) by auto
  qed
qed

lemma bit_secded_loop_0:
  "w \<le> 8 \<Longrightarrow> bit (secded_loop p [0..<w] 0) j \<longleftrightarrow> j < w \<and> odd (p (w - 1 - j))"
  by (auto simp: bit_secded_loop)

lemma secded_search_upt:
  assumes "distinct w1" and "N = length w1"
  shows "m < N \<Longrightarrow> secded_search (w1 ! m) w1 [0..<N] = Some m"
    and "s \<notin> set w1 \<Longrightarrow> secded_search s w1 [0..<N] = None"
proof -
  have find: "secded_search (w1 ! m) w1 ns = (if m \<in> set ns then Some m else None)"
    if "m < N" "set ns \<subseteq> {0..<N}" for m ns
    using that by (induction ns) (auto simp: assms nth_eq_iff_index_eq)
  then show "m < N \<Longrightarrow> secded_search (w1 ! m) w1 [0..<N] = Some m" by simp
  have none: "secded_search s w1 ns = None" if "s \<notin> set w1" "set ns \<subseteq> {0..<N}" for s ns
    using that by (induction ns) (auto simp: assms)
  then show "s \<notin> set w1 \<Longrightarrow> secded_search s w1 [0..<N] = None" by simp
qed

section \<open>Operations on any number of bytes\<close>

definition sd_parity :: "nat \<Rightarrow> nat \<Rightarrow> u8 list \<Rightarrow> bytes \<Rightarrow> u8" where
  "sd_parity k w P m = secded_loop (\<lambda>i. \<Sum>c<k. liquid_c_ones ! unat (P ! (k * i + c) AND m ! c)) [0..<w] 0"

definition sd_syndrome :: "nat \<Rightarrow> nat \<Rightarrow> u8 list \<Rightarrow> bytes \<Rightarrow> u8" where
  "sd_syndrome k w P v = secded_loop (\<lambda>i. (if v ! 0 AND push_bit (w - i - 1) 1 \<noteq> 0 then 1 else 0) +
     (\<Sum>c<k. liquid_c_ones ! unat (P ! (k * i + c) AND v ! Suc c))) [0..<w] 0"

definition sd_encode :: "nat \<Rightarrow> nat \<Rightarrow> u8 list \<Rightarrow> bytes \<Rightarrow> bytes" where
  "sd_encode k w P m = sd_parity k w P m # map (\<lambda>c. m ! c) [0..<k]"

definition sd_ehat :: "nat \<Rightarrow> nat \<Rightarrow> u8 list \<Rightarrow> u8 list \<Rightarrow> bytes \<Rightarrow> nat \<times> bytes" where
  "sd_ehat k w P w1 v =
     (let s = sd_syndrome k w P v
      in if liquid_c_ones ! unat s = 0 then (0, replicate (k + 1) 0)
         else case secded_search s w1 [0..<8 * k + w] of
             Some n \<Rightarrow> (1, (replicate (k + 1) 0)[k + 1 - n div 8 - 1 := push_bit (n mod 8) 1])
           | None \<Rightarrow> (2, replicate (k + 1) 0))"

definition sd_decode :: "nat \<Rightarrow> nat \<Rightarrow> u8 list \<Rightarrow> u8 list \<Rightarrow> bytes \<Rightarrow> nat \<times> bytes" where
  "sd_decode k w P w1 v =
     (let (flag, e_hat) = sd_ehat k w P w1 v in (flag, map (\<lambda>c. v ! Suc c XOR e_hat ! Suc c) [0..<k]))"

text \<open>Bit \<open>n\<close> of a word of \<open>k\<close> data bytes behind the parity byte, and the number of differing used bits.\<close>

definition vbit :: "nat \<Rightarrow> bytes \<Rightarrow> nat \<Rightarrow> bool" where
  "vbit k v n = bit (v ! (k - n div 8)) (n mod 8)"

definition secded_diff :: "nat \<Rightarrow> nat \<Rightarrow> bytes \<Rightarrow> bytes \<Rightarrow> nat list" where
  "secded_diff k w xs ys = filter (\<lambda>n. vbit k xs n \<noteq> vbit k ys n) [0..<8 * k + w]"

definition secded_errors :: "nat \<Rightarrow> nat \<Rightarrow> bytes \<Rightarrow> bytes \<Rightarrow> nat" where
  "secded_errors k w xs ys = length (secded_diff k w xs ys)"

lemma length_filter_blocks:
  "length (filter p [0..<b * k]) = (\<Sum>q<k. length (filter (\<lambda>c. p (b * q + c)) [0..<b]))"
proof (induction k)
  case (Suc k)
  have "[0..<b * Suc k] = [0..<b * k] @ map (\<lambda>c. b * k + c) [0..<b]"
    by (rule nth_equalityI) (auto simp: nth_append)
  with Suc show ?case by (simp add: filter_map comp_def)
qed simp

lemma odd_filter_conj:
  "odd (length (filter (\<lambda>n. P n \<and> R n) xs)) \<longleftrightarrow>
   (odd (length (filter (\<lambda>n. Q n \<and> R n) xs)) \<noteq> odd (length (filter (\<lambda>n. (P n \<noteq> Q n) \<and> R n) xs)))"
  by (induction xs) auto

lemma ones_u8_filter: "ones (x AND y :: u8) = length (filter (\<lambda>b. bit y b \<and> bit x b) [0..<8])"
proof -
  have "bit (x AND y) = (\<lambda>b. bit y b \<and> bit x b)" by (auto simp: bit_and_iff)
  then show ?thesis by (simp add: ones_def)
qed

section \<open>The laws\<close>

locale secded_code =
  fixes k w :: nat and P w1 :: "u8 list"
  assumes k: "0 < k" and w: "w \<le> 8"
    and columns: "length w1 = 8 * k + w"
    and column_bits: "c < k \<Longrightarrow> b < 8 \<Longrightarrow> i < w \<Longrightarrow>
      bit (w1 ! (8 * (k - 1 - c) + b)) (w - 1 - i) \<longleftrightarrow> bit (P ! (k * i + c)) b"
    and column_top: "x \<in> set w1 \<Longrightarrow> take_bit w x = x"
    and parity_column: "b < w \<Longrightarrow> w1 ! (8 * k + b) = push_bit b 1"
    and columns_distinct: "distinct w1"
    and columns_odd: "x \<in> set w1 \<Longrightarrow> odd (ones x)"
begin

lemma bit_syndrome:
  "bit (sd_syndrome k w P v) j \<longleftrightarrow>
    j < w \<and> odd (of_bool (bit (v ! 0) j) + (\<Sum>c<k. ones (P ! (k * (w - 1 - j) + c) AND v ! Suc c)))"
proof -
  have "w - (w - 1 - j) - 1 = j" if "j < w" using that by simp
  moreover have "(v ! 0 AND push_bit j 1 \<noteq> 0) = bit (v ! 0) j"
    using and_exp_eq_0_iff_not_bit [of "v ! 0" j] by (simp add: push_bit_of_1)
  ultimately show ?thesis
    unfolding sd_syndrome_def bit_secded_loop_0 [OF w] liquid_c_ones_byte
    by (cases "j < w") (simp_all only: simp_thms of_bool_def)
qed

lemma bit_parity:
  "bit (sd_parity k w P m) j \<longleftrightarrow> j < w \<and> odd (\<Sum>c<k. ones (P ! (k * (w - 1 - j) + c) AND m ! c))"
  unfolding sd_parity_def bit_secded_loop_0 [OF w] liquid_c_ones_byte ..

text \<open>The syndrome adds up the columns of the bits that are set.\<close>

lemma syndrome_columns:
  assumes j: "j < w"
  shows "bit (sd_syndrome k w P v) j \<longleftrightarrow> odd (length (filter (\<lambda>n. vbit k v n \<and> bit (w1 ! n) j) [0..<8 * k + w]))"
proof -
  have split: "[0..<8 * k + w] = [0..<8 * k] @ map (\<lambda>b. 8 * k + b) [0..<w]"
    by (rule nth_equalityI) (auto simp: nth_append)
  have "length (filter (\<lambda>b. vbit k v (8 * k + b) \<and> bit (w1 ! (8 * k + b)) j) [0..<w]) =
      length (filter (\<lambda>b. bit (v ! 0) j \<and> b = j) [0..<w])"
    using w j by (intro arg_cong [where f = length] filter_cong refl)
      (auto simp: vbit_def parity_column bit_exp_word simp del: push_bit_of_1)
  also have "\<dots> = of_bool (bit (v ! 0) j)"
    using length_filter_eq [of j w] j by (cases "bit (v ! 0) j") simp_all
  finally have high: "length (filter (\<lambda>b. vbit k v (8 * k + b) \<and> bit (w1 ! (8 * k + b)) j) [0..<w]) = of_bool (bit (v ! 0) j)" .
  have "length (filter (\<lambda>b. vbit k v (8 * q + b) \<and> bit (w1 ! (8 * q + b)) j) [0..<8]) =
      ones (P ! (k * (w - 1 - j) + (k - 1 - q)) AND v ! Suc (k - 1 - q))" if q: "q < k" for q
  proof -
    have c: "k - 1 - q < k" "k - 1 - (k - 1 - q) = q" "Suc (k - 1 - q) = k - q" "w - 1 - (w - 1 - j) = j" "w - 1 - j < w"
      using q j by simp_all
    have "bit (w1 ! (8 * q + b)) j \<longleftrightarrow> bit (P ! (k * (w - 1 - j) + (k - 1 - q))) b" if "b < 8" for b
      using column_bits [OF c(1) that c(5)] unfolding c(2) c(4) .
    then show ?thesis unfolding ones_u8_filter c(3)
      by (intro arg_cong [where f = length] filter_cong refl) (auto simp: vbit_def)
  qed
  then have "(\<Sum>q<k. length (filter (\<lambda>b. vbit k v (8 * q + b) \<and> bit (w1 ! (8 * q + b)) j) [0..<8])) =
      (\<Sum>q<k. ones (P ! (k * (w - 1 - j) + (k - Suc q)) AND v ! Suc (k - Suc q)))"
    by (intro sum.cong refl) simp
  also have "\<dots> = (\<Sum>c<k. ones (P ! (k * (w - 1 - j) + c) AND v ! Suc c))"
    by (rule sum.nat_diff_reindex)
  finally have low: "length (filter (\<lambda>n. vbit k v n \<and> bit (w1 ! n) j) [0..<8 * k]) =
      (\<Sum>c<k. ones (P ! (k * (w - 1 - j) + c) AND v ! Suc c))"
    by (simp only: length_filter_blocks)
  show ?thesis
    using j high low by (simp add: bit_syndrome split filter_map comp_def)
qed

lemma syndrome_top: "bit (sd_syndrome k w P v) j \<Longrightarrow> j < w"
  by (simp add: bit_syndrome)

lemma syndrome_encode: "sd_syndrome k w P (sd_encode k w P m) = 0"
proof (rule bit_word_eqI)
  fix j
  have enc: "sd_encode k w P m ! 0 = sd_parity k w P m" "\<And>c. c < k \<Longrightarrow> sd_encode k w P m ! Suc c = m ! c"
    by (simp_all add: sd_encode_def)
  have "(\<Sum>c<k. ones (P ! (k * (w - 1 - j) + c) AND sd_encode k w P m ! Suc c)) =
      (\<Sum>c<k. ones (P ! (k * (w - 1 - j) + c) AND m ! c))"
    by (intro sum.cong refl) (simp add: enc)
  then show "bit (sd_syndrome k w P (sd_encode k w P m)) j = bit 0 j"
    by (simp add: bit_syndrome bit_parity enc)
qed

text \<open>So the syndrome of a received word adds up the columns of the wrong bits.\<close>

lemma syndrome_received:
  assumes "j < w"
  shows "bit (sd_syndrome k w P v) j \<longleftrightarrow>
    odd (length (filter (\<lambda>n. bit (w1 ! n) j) (secded_diff k w (sd_encode k w P m) v)))"
proof -
  have "\<not> odd (length (filter (\<lambda>n. vbit k (sd_encode k w P m) n \<and> bit (w1 ! n) j) [0..<8 * k + w]))"
    using syndrome_columns [OF assms, of "sd_encode k w P m"] by (simp add: syndrome_encode)
  then show ?thesis
    using odd_filter_conj [of "vbit k (sd_encode k w P m)" "\<lambda>n. bit (w1 ! n) j" "[0..<8 * k + w]" "vbit k v"]
    by (simp add: syndrome_columns [OF assms] secded_diff_def conj_commute)
qed

lemma column_eqI: "(\<And>j. j < w \<Longrightarrow> bit x j = bit y j) \<Longrightarrow> take_bit w x = x \<Longrightarrow> take_bit w y = y \<Longrightarrow> x = (y :: u8)"
  by (rule bit_word_eqI) (metis bit_take_bit_iff)

lemma syndrome_fits: "take_bit w (sd_syndrome k w P v) = sd_syndrome k w P v"
  by (rule bit_word_eqI) (auto simp: bit_take_bit_iff dest: syndrome_top)

lemma diff_less: "n \<in> set (secded_diff k w xs ys) \<Longrightarrow> n < length w1"
  by (simp add: secded_diff_def columns)

lemma syndrome_no_error: "secded_diff k w (sd_encode k w P m) v = [] \<Longrightarrow> sd_syndrome k w P v = 0"
  by (rule column_eqI) (simp_all add: syndrome_received [of _ _ m] syndrome_fits)

lemma syndrome_one_error:
  assumes "secded_diff k w (sd_encode k w P m) v = [n]"
  shows "n < length w1" and "sd_syndrome k w P v = w1 ! n"
proof -
  show n: "n < length w1" using diff_less [of n "sd_encode k w P m" v] by (simp add: assms)
  show "sd_syndrome k w P v = w1 ! n"
    by (rule column_eqI) (simp_all add: syndrome_received [of _ _ m] assms syndrome_fits column_top n)
qed

lemma syndrome_two_errors:
  assumes "secded_diff k w (sd_encode k w P m) v = [n, n']"
  shows "n < length w1" and "n' < length w1" and "n \<noteq> n'" and "sd_syndrome k w P v = w1 ! n XOR w1 ! n'"
proof -
  show n: "n < length w1" "n' < length w1"
    using diff_less [of n "sd_encode k w P m" v] diff_less [of n' "sd_encode k w P m" v] by (simp_all add: assms)
  have "distinct (secded_diff k w (sd_encode k w P m) v)" by (simp add: secded_diff_def)
  then show "n \<noteq> n'" by (simp add: assms)
  show "sd_syndrome k w P v = w1 ! n XOR w1 ! n'"
    by (rule column_eqI)
      (simp_all add: syndrome_received [of _ _ m] assms syndrome_fits column_top n take_bit_xor bit_xor_iff)
qed

section \<open>Correction and detection\<close>

lemma c_ones_zero: "liquid_c_ones ! unat (s :: u8) = 0 \<longleftrightarrow> s = 0"
  by (simp add: liquid_c_ones_byte ones_eq_0_iff)

lemma data_bit:
  assumes "c < k" and "b < 8"
  shows "vbit k v (8 * (k - 1 - c) + b) = bit (v ! Suc c) b" and "8 * (k - 1 - c) + b < 8 * k + w"
proof -
  have "k - (k - 1 - c) = Suc c" using assms(1) by simp
  then show "vbit k v (8 * (k - 1 - c) + b) = bit (v ! Suc c) b" using assms by (simp add: vbit_def)
  have "8 * (k - 1 - c) + 8 \<le> 8 * k" using assms(1) by (simp add: diff_mult_distrib2)
  then show "8 * (k - 1 - c) + b < 8 * k + w" using assms(2) by simp
qed

lemma decode_no_error:
  assumes "length m = k" and diff: "secded_diff k w (sd_encode k w P m) v = []"
  shows "sd_decode k w P w1 v = (0, m)"
proof -
  have "v ! Suc c = m ! c" if c: "c < k" for c
  proof (rule bit_word_eqI)
    fix b assume "b < LENGTH(8)"
    then have b: "b < 8" by simp
    have "vbit k (sd_encode k w P m) (8 * (k - 1 - c) + b) = vbit k v (8 * (k - 1 - c) + b)"
      using diff data_bit(2) [OF c b] by (auto simp: secded_diff_def filter_empty_conv)
    then show "bit (v ! Suc c) b = bit (m ! c) b"
      using c unfolding data_bit(1) [OF c b] by (simp add: sd_encode_def)
  qed
  then have "map (\<lambda>c. v ! Suc c XOR replicate (k + 1) 0 ! Suc c) [0..<k] = m"
    using assms(1) by (intro nth_equalityI) (simp_all del: replicate_Suc)
  then show ?thesis
    by (simp add: sd_decode_def sd_ehat_def syndrome_no_error [OF diff] c_ones_zero del: replicate_Suc)
qed

lemma decode_one_error:
  assumes "length m = k" and diff: "secded_diff k w (sd_encode k w P m) v = [n]"
  shows "sd_decode k w P w1 v = (1, m)"
proof -
  note n = syndrome_one_error [OF diff]
  let ?e = "(replicate (k + 1) 0)[k + 1 - n div 8 - 1 := push_bit (n mod 8) 1] :: bytes"
  have "w1 ! n \<noteq> 0" using columns_odd [OF nth_mem [OF n(1)]] by auto
  then have ehat: "sd_ehat k w P w1 v = (1, ?e)"
    using secded_search_upt(1) [OF columns_distinct columns [symmetric], of n] n
    by (simp add: sd_ehat_def c_ones_zero columns del: replicate_Suc push_bit_of_1)
  have "v ! Suc c XOR ?e ! Suc c = m ! c" if c: "c < k" for c
  proof (rule bit_word_eqI)
    fix b assume "b < LENGTH(8)"
    then have b: "b < 8" by simp
    let ?p = "8 * (k - 1 - c) + b"
    have div: "?p div 8 = k - 1 - c" "?p mod 8 = b" using b by simp_all
    have pos: "n = ?p \<longleftrightarrow> k + 1 - n div 8 - 1 = Suc c \<and> n mod 8 = b"
    proof
      assume "n = ?p"
      then show "k + 1 - n div 8 - 1 = Suc c \<and> n mod 8 = b" using div c by simp
    next
      assume *: "k + 1 - n div 8 - 1 = Suc c \<and> n mod 8 = b"
      then have "n div 8 = k - 1 - c" using c by linarith
      with * show "n = ?p" by (metis div_mult_mod_eq mult.commute)
    qed
    have "bit (?e ! Suc c) b \<longleftrightarrow> n = ?p"
      using c b pos by (auto simp: nth_list_update bit_exp_word simp del: replicate_Suc push_bit_of_1)
    moreover have "?p \<in> set (secded_diff k w (sd_encode k w P m) v) \<longleftrightarrow> n = ?p" by (auto simp: diff)
    then have "(vbit k (sd_encode k w P m) ?p \<noteq> vbit k v ?p) = (n = ?p)"
      using data_bit(2) [OF c b] by (simp add: secded_diff_def)
    ultimately show "bit (v ! Suc c XOR ?e ! Suc c) b = bit (m ! c) b"
      using c unfolding data_bit(1) [OF c b] by (auto simp: bit_xor_iff sd_encode_def)
  qed
  then have "map (\<lambda>c. v ! Suc c XOR ?e ! Suc c) [0..<k] = m"
    using assms(1) by (intro nth_equalityI) (simp_all del: replicate_Suc push_bit_of_1)
  then show ?thesis by (simp add: sd_decode_def ehat del: replicate_Suc push_bit_of_1)
qed

lemma decode_two_errors:
  assumes diff: "secded_diff k w (sd_encode k w P m) v = [n, n']"
  shows "sd_decode k w P w1 v = (2, map (\<lambda>c. v ! Suc c) [0..<k])"
proof -
  note n = syndrome_two_errors [OF diff]
  have "odd (ones (w1 ! n))" "odd (ones (w1 ! n'))" using n by (simp_all add: columns_odd)
  then have "\<not> parity_of (w1 ! n XOR w1 ! n')" by (simp add: parity_of_xor [unfolded parity_of_def] parity_of_def)
  then have "w1 ! n XOR w1 ! n' \<notin> set w1" using columns_odd by (auto simp: parity_of_def)
  moreover have "w1 ! n XOR w1 ! n' \<noteq> 0"
    using n columns_distinct by (simp add: xor_zero_iff nth_eq_iff_index_eq)
  ultimately have "sd_ehat k w P w1 v = (2, replicate (k + 1) 0)"
    using secded_search_upt(2) [OF columns_distinct columns [symmetric]] n(4)
    by (simp add: sd_ehat_def c_ones_zero del: replicate_Suc)
  then show ?thesis by (simp add: sd_decode_def del: replicate_Suc)
qed

text \<open>Up to one error the symbol comes back and the flag counts the errors; two errors are flagged.\<close>

lemma decode_correct:
  assumes "length m = k" and "secded_errors k w (sd_encode k w P m) v \<le> 1"
  shows "sd_decode k w P w1 v = (secded_errors k w (sd_encode k w P m) v, m)"
  using assms decode_no_error [OF assms(1), of v] decode_one_error [OF assms(1), of v]
  by (cases "secded_diff k w (sd_encode k w P m) v") (auto simp: secded_errors_def)

lemma decode_detect:
  assumes "secded_errors k w (sd_encode k w P m) v = 2"
  shows "fst (sd_decode k w P w1 v) = 2"
proof -
  obtain n n' where "secded_diff k w (sd_encode k w P m) v = [n, n']"
    using assms by (auto simp: secded_errors_def numeral_2_eq_2 length_Suc_conv)
  then show ?thesis by (simp add: decode_two_errors)
qed

end

section \<open>Blocks\<close>

text \<open>
  Block \<open>t\<close> of a message and of an encoded array, filled up with zeros where the array ends: the
  codecs do not send the zero bytes of a last short symbol.
\<close>

definition zero_pad :: "bytes \<Rightarrow> nat \<Rightarrow> u8" where
  "zero_pad xs i = (if i < length xs then xs ! i else 0)"

definition secded_block :: "nat \<Rightarrow> bytes \<Rightarrow> nat \<Rightarrow> bytes" where
  "secded_block b xs t = map (\<lambda>c. zero_pad xs (b * t + c)) [0..<b]"

definition sd_encode_blocks :: "nat \<Rightarrow> nat \<Rightarrow> u8 list \<Rightarrow> nat \<Rightarrow> bytes \<Rightarrow> bytes" where
  "sd_encode_blocks k w P n msg =
     concat (map (\<lambda>t. sd_encode k w P (drop (k * t) msg)) [0..<n div k]) @
     (if n mod k \<noteq> 0 then take (n mod k + 1) (sd_encode k w P (secded_block k msg (n div k))) else [])"

definition sd_decode_blocks :: "nat \<Rightarrow> nat \<Rightarrow> u8 list \<Rightarrow> u8 list \<Rightarrow> nat \<Rightarrow> bytes \<Rightarrow> bytes" where
  "sd_decode_blocks k w P w1 n rx =
     concat (map (\<lambda>t. snd (sd_decode k w P w1 (drop ((k + 1) * t) rx))) [0..<n div k]) @
     (if n mod k \<noteq> 0 then take (n mod k) (snd (sd_decode k w P w1 (secded_block (k + 1) rx (n div k)))) else [])"

text \<open>Every block carries at most one wrong bit.\<close>

definition secded_correctable :: "nat \<Rightarrow> nat \<Rightarrow> nat \<Rightarrow> bytes \<Rightarrow> bytes \<Rightarrow> bool" where
  "secded_correctable k w n out rx \<longleftrightarrow> length rx = length out \<and>
     (\<forall>t < ceil_div n k. secded_errors k w (secded_block (k + 1) out t) (secded_block (k + 1) rx t) \<le> 1)"

lemma length_secded_block [simp]: "length (secded_block b xs t) = b"
  by (simp add: secded_block_def)

lemma secded_block_nth: "c < b \<Longrightarrow> secded_block b xs t ! c = zero_pad xs (b * t + c)"
  by (simp add: secded_block_def)

lemma sd_encode_cong:
  assumes "\<And>c. c < k \<Longrightarrow> m ! c = m' ! c"
  shows "sd_encode k w P m = sd_encode k w P m'"
proof -
  have "(\<lambda>i. \<Sum>c<k. liquid_c_ones ! unat (P ! (k * i + c) AND m ! c)) = (\<lambda>i. \<Sum>c<k. liquid_c_ones ! unat (P ! (k * i + c) AND m' ! c))"
    by (intro ext sum.cong refl) (simp add: assms)
  then show ?thesis using assms by (simp add: sd_encode_def sd_parity_def)
qed

lemma sd_decode_cong:
  assumes "\<And>c. c \<le> k \<Longrightarrow> v ! c = v' ! c"
  shows "sd_decode k w P w1 v = sd_decode k w P w1 v'"
proof -
  have "(\<lambda>i. (if v ! 0 AND push_bit (w - i - 1) 1 \<noteq> 0 then 1 else 0) +
        (\<Sum>c<k. liquid_c_ones ! unat (P ! (k * i + c) AND v ! Suc c))) =
      (\<lambda>i. (if v' ! 0 AND push_bit (w - i - 1) 1 \<noteq> 0 then 1 else 0) +
        (\<Sum>c<k. liquid_c_ones ! unat (P ! (k * i + c) AND v' ! Suc c)))"
    using assms by (intro ext arg_cong2 [where f = "(+)"] sum.cong refl) simp_all
  then have "sd_ehat k w P w1 v = sd_ehat k w P w1 v'" by (simp only: sd_ehat_def sd_syndrome_def)
  then show ?thesis using assms by (auto simp: sd_decode_def split: prod.splits)
qed

lemma length_sd_encode [simp, len_rules]: "length (sd_encode k w P m) = k + 1"
  by (simp add: sd_encode_def)

lemma length_sd_encode_blocks [len_rules]:
  assumes "0 < k"
  shows "length (sd_encode_blocks k w P n msg) = n + ceil_div n k"
proof -
  have "length (concat (map (\<lambda>t. sd_encode k w P (drop (k * t) msg)) [0..<n div k])) = (k + 1) * (n div k)"
    by (subst length_concat_uniform [where k = "k + 1"]) simp_all
  moreover have "(k + 1) * (n div k) + n mod k = n + n div k"
    using mult_div_mod_eq [of k n] by (simp add: algebra_simps)
  moreover have "n mod k \<le> k" using assms by (simp add: less_imp_le)
  moreover have "k * (n div k) = n" if "n mod k = 0" using mult_div_mod_eq [of k n] that by simp
  ultimately show ?thesis by (simp add: sd_encode_blocks_def ceil_div_def)
qed

lemma drop_block:
  assumes "b * t + b \<le> length xs" and "c < b"
  shows "drop (b * t) xs ! c = secded_block b xs t ! c"
  using assms by (simp add: secded_block_nth zero_pad_def)

lemma block_in_range:
  fixes t n k :: nat
  assumes "t < n div k" shows "k * t + k \<le> n"
proof -
  have "k * Suc t \<le> k * (n div k)" using assms by (intro mult_le_mono2) simp
  also have "\<dots> \<le> n" by simp
  finally show ?thesis by simp
qed

text \<open>The blocks of the encoded array are the code words of the blocks of the message.\<close>

lemma secded_block_encoded:
  assumes k: "0 < k" and len: "length msg = n" and t: "t < ceil_div n k"
  shows "secded_block (k + 1) (sd_encode_blocks k w P n msg) t = sd_encode k w P (secded_block k msg t)"
proof (cases "t < n div k")
  case True
  have r: "k * t + k \<le> length msg" using block_in_range [OF True] len by simp
  have enc: "sd_encode k w P (drop (k * t) msg) = sd_encode k w P (secded_block k msg t)"
    by (rule sd_encode_cong) (rule drop_block [OF r])
  have "(k + 1) * t + (k + 1) \<le> (k + 1) * (n div k)"
    using mult_le_mono2 [of "Suc t" "n div k" "k + 1"] True by simp
  also have "\<dots> \<le> n + n div k" by (simp add: algebra_simps)
  finally have pos: "(k + 1) * t + (k + 1) \<le> n + ceil_div n k" by (simp add: ceil_div_def)
  show ?thesis
  proof (rule nth_equalityI)
    fix c assume "c < length (secded_block (k + 1) (sd_encode_blocks k w P n msg) t)"
    then have c: "c < k + 1" by simp
    have "secded_block (k + 1) (sd_encode_blocks k w P n msg) t ! c = sd_encode_blocks k w P n msg ! ((k + 1) * t + c)"
      using c pos by (simp only: secded_block_nth zero_pad_def length_sd_encode_blocks [OF k]) simp
    also have "\<dots> = sd_encode k w P (drop (k * t) msg) ! c"
      unfolding sd_encode_blocks_def by (rule nth_concat_uniform_append) (use True c in simp_all)
    finally show "secded_block (k + 1) (sd_encode_blocks k w P n msg) t ! c = sd_encode k w P (secded_block k msg t) ! c"
      by (simp only: enc)
  qed simp
next
  case False
  then have t: "t = n div k" and r: "n mod k \<noteq> 0" using assms(3) by (auto simp: ceil_div_def split: if_splits)
  let ?full = "concat (map (\<lambda>t. sd_encode k w P (drop (k * t) msg)) [0..<n div k])"
  let ?m = "secded_block k msg (n div k)"
  have full: "length ?full = (k + 1) * (n div k)"
    by (subst length_concat_uniform [where k = "k + 1"]) simp_all
  have out: "sd_encode_blocks k w P n msg = ?full @ take (n mod k + 1) (sd_encode k w P ?m)"
    using r by (simp add: sd_encode_blocks_def)
  have short: "n mod k < k" using k by simp
  have mul: "k * (n div k) + n mod k = n" by simp
  show ?thesis
    unfolding t
  proof (rule nth_equalityI)
    fix c assume "c < length (secded_block (k + 1) (sd_encode_blocks k w P n msg) (n div k))"
    then have c: "c < k + 1" by simp
    have "zero_pad (sd_encode_blocks k w P n msg) ((k + 1) * (n div k) + c) =
        (if c < n mod k + 1 then sd_encode k w P ?m ! c else 0)"
    proof -
      have "length (?full @ take (n mod k + 1) (sd_encode k w P ?m)) = (k + 1) * (n div k) + (n mod k + 1)"
        using short by (simp only: length_append full length_take length_sd_encode)
      moreover have "(?full @ take (n mod k + 1) (sd_encode k w P ?m)) ! ((k + 1) * (n div k) + c) = sd_encode k w P ?m ! c"
        if "c < n mod k + 1" using that nth_append_length_plus [of ?full _ c] by (simp only: full nth_take)
      ultimately show ?thesis unfolding zero_pad_def out by (cases "c < n mod k + 1") (simp_all only: nat_add_left_cancel_less if_True if_False simp_thms)
    qed
    also have "\<dots> = sd_encode k w P ?m ! c"
    proof (cases "c < n mod k + 1")
      case False
      then obtain d where d: "c = Suc d" "n mod k \<le> d" by (cases c) auto
      then have "\<not> k * (n div k) + d < length msg" using len mul by linarith
      then have "?m ! d = 0" using c d by (simp add: secded_block_nth zero_pad_def)
      with False c d show ?thesis by (simp add: sd_encode_def)
    qed simp
    finally show "secded_block (k + 1) (sd_encode_blocks k w P n msg) (n div k) ! c = sd_encode k w P ?m ! c"
      using c by (simp only: secded_block_nth)
  qed simp
qed

lemma secded_blocks_back:
  assumes k: "0 < k" and len: "length msg = n"
  shows "concat (map (secded_block k msg) [0..<n div k]) @
    (if n mod k \<noteq> 0 then take (n mod k) (secded_block k msg (n div k)) else []) = msg"
proof -
  have "concat (map (secded_block k msg) [0..<n div k]) = map (zero_pad msg) [0..<k * (n div k)]"
    unfolding secded_block_def by (rule concat_map_blocks)
  moreover have "(if n mod k \<noteq> 0 then take (n mod k) (secded_block k msg (n div k)) else []) =
      map (\<lambda>c. zero_pad msg (k * (n div k) + c)) [0..<n mod k]"
    using k by (auto simp: secded_block_def take_map less_imp_le)
  ultimately show ?thesis
  proof (simp only:, intro nth_equalityI)
    fix i assume "i < length (map (zero_pad msg) [0..<k * (n div k)] @
        map (\<lambda>c. zero_pad msg (k * (n div k) + c)) [0..<n mod k])"
    then have i: "i < n" by simp
    show "(map (zero_pad msg) [0..<k * (n div k)] @ map (\<lambda>c. zero_pad msg (k * (n div k) + c)) [0..<n mod k]) ! i = msg ! i"
    proof (cases "i < k * (n div k)")
      case False
      then have "i - k * (n div k) < n mod k" using i by (simp add: less_diff_conv2)
      with False i show ?thesis by (simp add: nth_append zero_pad_def len)
    qed (use i len in \<open>simp add: nth_append zero_pad_def\<close>)
  qed (simp add: len)
qed

context secded_code
begin

lemma decode_blocks_correct:
  assumes len: "length msg = n" and ok: "secded_correctable k w n (sd_encode_blocks k w P n msg) rx"
  shows "sd_decode_blocks k w P w1 n rx = msg"
proof -
  have rx: "length rx = n + ceil_div n k"
    using ok by (simp add: secded_correctable_def length_sd_encode_blocks [OF k])
  have dec: "snd (sd_decode k w P w1 (secded_block (k + 1) rx t)) = secded_block k msg t" if t: "t < ceil_div n k" for t
  proof -
    have "secded_errors k w (sd_encode k w P (secded_block k msg t)) (secded_block (k + 1) rx t) \<le> 1"
      using ok t unfolding secded_correctable_def secded_block_encoded [OF k len t, symmetric] by blast
    from decode_correct [OF length_secded_block this] show ?thesis by simp
  qed
  have full: "snd (sd_decode k w P w1 (drop ((k + 1) * t) rx)) = secded_block k msg t" if t: "t < n div k" for t
  proof -
    have "(k + 1) * t + (k + 1) \<le> length rx"
      using block_in_range [OF t] t by (simp add: rx ceil_div_def)
    then have "drop ((k + 1) * t) rx ! c = secded_block (k + 1) rx t ! c" if "c \<le> k" for c
      using that by (intro drop_block) simp_all
    from sd_decode_cong [OF this] dec [of t] t show ?thesis by (simp add: ceil_div_def)
  qed
  have "map (\<lambda>t. snd (sd_decode k w P w1 (drop ((k + 1) * t) rx))) [0..<n div k] = map (secded_block k msg) [0..<n div k]"
    by (intro map_cong refl) (simp only: full set_upt atLeastLessThan_iff)
  moreover have "snd (sd_decode k w P w1 (secded_block (k + 1) rx (n div k))) = secded_block k msg (n div k)"
    if "n mod k \<noteq> 0" using dec [of "n div k"] that by (simp add: ceil_div_def)
  then have "(if n mod k \<noteq> 0 then take (n mod k) (snd (sd_decode k w P w1 (secded_block (k + 1) rx (n div k)))) else []) =
      (if n mod k \<noteq> 0 then take (n mod k) (secded_block k msg (n div k)) else [])"
    by (intro if_cong refl) simp_all
  ultimately show ?thesis unfolding sd_decode_blocks_def by (simp only: secded_blocks_back [OF k len])
qed

lemma correctable_self: "secded_correctable k w n out out"
  by (simp add: secded_correctable_def secded_errors_def secded_diff_def)

end

end
