(* ===== verification/Fec_Secded.thy ===== *)
theory Fec_Secded
  imports Secded_Codes
begin

unbundle bit_operations_syntax

text \<open>
  \<^verbatim>\<open>liquid_dsp/src/fec/src/fec_secded2216.c\<close>, \<^verbatim>\<open>fec_secded3932.c\<close> and \<^verbatim>\<open>fec_secded7264.c\<close>: the
  codecs that correct one wrong bit per symbol and detect two. A symbol is a parity byte and two,
  four or eight data bytes; the last symbol of a message may be short, its missing bytes are not
  sent. Each codec interprets \<open>secded_code\<close> on its own two tables.
\<close>

section \<open>SEC-DED(22,16)\<close>

definition secded2216_P :: "u8 list" where
  "secded2216_P = [
    0x99, 0x3c, 0x3e, 0x8a,
    0xee, 0x60, 0xe1, 0xd1,
    0x13, 0xc7, 0x44, 0x3f]"

definition secded2216_syndrome_w1 :: "u8 list" where
  "secded2216_syndrome_w1 = [
    0x07, 0x13, 0x23, 0x31, 0x25, 0x29, 0x0e, 0x16,
    0x26, 0x1a, 0x19, 0x38, 0x32, 0x1c, 0x0d, 0x2c,
    0x01, 0x02, 0x04, 0x08, 0x10, 0x20]"

definition fec_secded2216_compute_parity :: "bytes \<Rightarrow> u8" where
  "fec_secded2216_compute_parity m = secded_loop (\<lambda>i.
       liquid_c_ones ! unat (secded2216_P ! (2 * i + 0) AND m ! 0) +
       liquid_c_ones ! unat (secded2216_P ! (2 * i + 1) AND m ! 1)) [0..<6] 0"

definition fec_secded2216_compute_syndrome :: "bytes \<Rightarrow> u8" where
  "fec_secded2216_compute_syndrome v = secded_loop (\<lambda>i.
       (if v ! 0 AND push_bit (6 - i - 1) 1 \<noteq> 0 then 1 else 0) +
       liquid_c_ones ! unat (secded2216_P ! (2 * i + 0) AND v ! 1) +
       liquid_c_ones ! unat (secded2216_P ! (2 * i + 1) AND v ! 2)) [0..<6] 0"

definition fec_secded2216_encode_symbol :: "bytes \<Rightarrow> bytes" where
  "fec_secded2216_encode_symbol sym_dec = [fec_secded2216_compute_parity sym_dec, sym_dec ! 0, sym_dec ! 1]"

definition fec_secded2216_estimate_ehat :: "bytes \<Rightarrow> nat \<times> bytes" where
  "fec_secded2216_estimate_ehat sym_enc =
     (let e_hat = [0, 0, 0];
          s = fec_secded2216_compute_syndrome sym_enc;
          ws = liquid_c_ones ! unat s
      in if ws = 0 then (0, e_hat)
         else case secded_search s secded2216_syndrome_w1 [0..<22] of
             Some n \<Rightarrow> (1, e_hat[3 - n div 8 - 1 := push_bit (n mod 8) 1])
           | None \<Rightarrow> (2, e_hat))"

definition fec_secded2216_decode_symbol :: "bytes \<Rightarrow> nat \<times> bytes" where
  "fec_secded2216_decode_symbol sym_enc =
     (let (syndrome_flag, e_hat) = fec_secded2216_estimate_ehat sym_enc
      in (syndrome_flag, [sym_enc ! 1 XOR e_hat ! 1,
          sym_enc ! 2 XOR e_hat ! 2]))"

definition fec_secded2216_encode :: "nat \<Rightarrow> bytes \<Rightarrow> bytes option" where
  "fec_secded2216_encode n msg_dec = do {
     let r = n mod 2;
     let blocks = concat (map (\<lambda>t. let i = 2 * t in
         [fec_secded2216_compute_parity (drop i msg_dec), msg_dec ! (i + 0), msg_dec ! (i + 1)]) [0..<(n - r) div 2]);
     let i = 2 * ((n - r) div 2);
     let tail = (if r \<noteq> 0
           then let m = [msg_dec ! i, 0];
                    v = fec_secded2216_encode_symbol m
                in [v ! 0, v ! 1]
           else []);
     let msg_enc = blocks @ tail;
     enc_msg_len \<leftarrow> fec_get_enc_msg_length FEC_SECDED2216 n;
     if length msg_enc = enc_msg_len \<and> i + r = n then Some msg_enc else None
   }"

definition fec_secded2216_decode :: "nat \<Rightarrow> bytes \<Rightarrow> bytes option" where
  "fec_secded2216_decode n msg_enc = do {
     let r = n mod 2;
     let blocks = concat (map (\<lambda>t. snd (fec_secded2216_decode_symbol (drop (3 * t) msg_enc))) [0..<(n - r) div 2]);
     let i = 2 * ((n - r) div 2);
     let j = 3 * ((n - r) div 2);
     let tail = (if r \<noteq> 0
           then let v = [msg_enc ! (j + 0), msg_enc ! (j + 1), 0];
                    m_hat = snd (fec_secded2216_decode_symbol v)
                in [m_hat ! 0]
           else []);
     enc_msg_len \<leftarrow> fec_get_enc_msg_length FEC_SECDED2216 n;
     if j + (if r \<noteq> 0 then r + 1 else 0) = enc_msg_len \<and> i + r = n then Some (blocks @ tail) else None
   }"

section \<open>SEC-DED(39,32)\<close>

definition secded3932_P :: "u8 list" where
  "secded3932_P = [
    0x8a, 0x82, 0x0f, 0x1b,
    0x10, 0x1f, 0x71, 0x61,
    0x16, 0xf0, 0x92, 0xa6,
    0xff, 0x01, 0xa4, 0x44,
    0x6c, 0xff, 0x08, 0x08,
    0x21, 0x24, 0xff, 0x90,
    0xc1, 0x48, 0x40, 0xff]"

definition secded3932_syndrome_w1 :: "u8 list" where
  "secded3932_syndrome_w1 = [
    0x61, 0x51, 0x19, 0x45, 0x43, 0x31, 0x29, 0x13,
    0x62, 0x52, 0x4a, 0x46, 0x32, 0x2a, 0x23, 0x1a,
    0x2c, 0x64, 0x26, 0x25, 0x34, 0x16, 0x15, 0x54,
    0x0b, 0x58, 0x1c, 0x4c, 0x38, 0x0e, 0x0d, 0x49,
    0x01, 0x02, 0x04, 0x08, 0x10, 0x20, 0x40]"

definition fec_secded3932_compute_parity :: "bytes \<Rightarrow> u8" where
  "fec_secded3932_compute_parity m = secded_loop (\<lambda>i.
       liquid_c_ones ! unat (secded3932_P ! (4 * i + 0) AND m ! 0) +
       liquid_c_ones ! unat (secded3932_P ! (4 * i + 1) AND m ! 1) +
       liquid_c_ones ! unat (secded3932_P ! (4 * i + 2) AND m ! 2) +
       liquid_c_ones ! unat (secded3932_P ! (4 * i + 3) AND m ! 3)) [0..<7] 0"

definition fec_secded3932_compute_syndrome :: "bytes \<Rightarrow> u8" where
  "fec_secded3932_compute_syndrome v = secded_loop (\<lambda>i.
       (if v ! 0 AND push_bit (7 - i - 1) 1 \<noteq> 0 then 1 else 0) +
       liquid_c_ones ! unat (secded3932_P ! (4 * i + 0) AND v ! 1) +
       liquid_c_ones ! unat (secded3932_P ! (4 * i + 1) AND v ! 2) +
       liquid_c_ones ! unat (secded3932_P ! (4 * i + 2) AND v ! 3) +
       liquid_c_ones ! unat (secded3932_P ! (4 * i + 3) AND v ! 4)) [0..<7] 0"

definition fec_secded3932_encode_symbol :: "bytes \<Rightarrow> bytes" where
  "fec_secded3932_encode_symbol sym_dec = [fec_secded3932_compute_parity sym_dec, sym_dec ! 0, sym_dec ! 1, sym_dec ! 2, sym_dec ! 3]"

definition fec_secded3932_estimate_ehat :: "bytes \<Rightarrow> nat \<times> bytes" where
  "fec_secded3932_estimate_ehat sym_enc =
     (let e_hat = [0, 0, 0, 0, 0];
          s = fec_secded3932_compute_syndrome sym_enc;
          ws = liquid_c_ones ! unat s
      in if ws = 0 then (0, e_hat)
         else case secded_search s secded3932_syndrome_w1 [0..<39] of
             Some n \<Rightarrow> (1, e_hat[5 - n div 8 - 1 := push_bit (n mod 8) 1])
           | None \<Rightarrow> (2, e_hat))"

definition fec_secded3932_decode_symbol :: "bytes \<Rightarrow> nat \<times> bytes" where
  "fec_secded3932_decode_symbol sym_enc =
     (let (syndrome_flag, e_hat) = fec_secded3932_estimate_ehat sym_enc
      in (syndrome_flag, [sym_enc ! 1 XOR e_hat ! 1,
          sym_enc ! 2 XOR e_hat ! 2,
          sym_enc ! 3 XOR e_hat ! 3,
          sym_enc ! 4 XOR e_hat ! 4]))"

definition fec_secded3932_encode :: "nat \<Rightarrow> bytes \<Rightarrow> bytes option" where
  "fec_secded3932_encode n msg_dec = do {
     let r = n mod 4;
     let blocks = concat (map (\<lambda>t. let i = 4 * t in
         [fec_secded3932_compute_parity (drop i msg_dec), msg_dec ! (i + 0), msg_dec ! (i + 1),
          msg_dec ! (i + 2), msg_dec ! (i + 3)]) [0..<(n - r) div 4]);
     let i = 4 * ((n - r) div 4);
     let tail = (if r \<noteq> 0
           then let m = map (\<lambda>n. if n < r then msg_dec ! (i + n) else 0) [0..<4];
                    v = fec_secded3932_encode_symbol m
                in v ! 0 # map (\<lambda>n. v ! (n + 1)) [0..<r]
           else []);
     let msg_enc = blocks @ tail;
     enc_msg_len \<leftarrow> fec_get_enc_msg_length FEC_SECDED3932 n;
     if length msg_enc = enc_msg_len \<and> i + r = n then Some msg_enc else None
   }"

definition fec_secded3932_decode :: "nat \<Rightarrow> bytes \<Rightarrow> bytes option" where
  "fec_secded3932_decode n msg_enc = do {
     let r = n mod 4;
     let blocks = concat (map (\<lambda>t. snd (fec_secded3932_decode_symbol (drop (5 * t) msg_enc))) [0..<(n - r) div 4]);
     let i = 4 * ((n - r) div 4);
     let j = 5 * ((n - r) div 4);
     let tail = (if r \<noteq> 0
           then let v = msg_enc ! (j + 0) # map (\<lambda>n. if n < r then msg_enc ! (j + n + 1) else 0) [0..<4];
                    m_hat = snd (fec_secded3932_decode_symbol v)
                in map (\<lambda>n. m_hat ! n) [0..<r]
           else []);
     enc_msg_len \<leftarrow> fec_get_enc_msg_length FEC_SECDED3932 n;
     if j + (if r \<noteq> 0 then r + 1 else 0) = enc_msg_len \<and> i + r = n then Some (blocks @ tail) else None
   }"

section \<open>SEC-DED(72,64)\<close>

definition secded7264_P :: "u8 list" where
  "secded7264_P = [
    0xff, 0x0f, 0x0f, 0x0c, 0x68, 0x88, 0x88, 0x80,
    0xf0, 0xff, 0x00, 0xf3, 0x64, 0x44, 0x44, 0x40,
    0x30, 0xf0, 0xff, 0x0f, 0x02, 0x22, 0x22, 0x26,
    0xcf, 0x00, 0xf0, 0xff, 0x01, 0x11, 0x11, 0x16,
    0x68, 0x88, 0x88, 0x80, 0xff, 0x0f, 0x00, 0xf3,
    0x64, 0x44, 0x44, 0x40, 0xf0, 0xff, 0x0f, 0x0c,
    0x02, 0x22, 0x22, 0x26, 0xcf, 0x00, 0xff, 0x0f,
    0x01, 0x11, 0x11, 0x16, 0x30, 0xf0, 0xf0, 0xff]"

definition secded7264_syndrome_w1 :: "u8 list" where
  "secded7264_syndrome_w1 = [
    0x0b, 0x3b, 0x37, 0x07, 0x19, 0x29, 0x49, 0x89,
    0x16, 0x26, 0x46, 0x86, 0x13, 0x23, 0x43, 0x83,
    0x1c, 0x2c, 0x4c, 0x8c, 0x15, 0x25, 0x45, 0x85,
    0x1a, 0x2a, 0x4a, 0x8a, 0x0d, 0xcd, 0xce, 0x0e,
    0x70, 0x73, 0xb3, 0xb0, 0x51, 0x52, 0x54, 0x58,
    0xa1, 0xa2, 0xa4, 0xa8, 0x31, 0x32, 0x34, 0x38,
    0xc1, 0xc2, 0xc4, 0xc8, 0x61, 0x62, 0x64, 0x68,
    0x91, 0x92, 0x94, 0x98, 0xe0, 0xec, 0xdc, 0xd0,
    0x01, 0x02, 0x04, 0x08, 0x10, 0x20, 0x40, 0x80]"

definition fec_secded7264_compute_parity :: "bytes \<Rightarrow> u8" where
  "fec_secded7264_compute_parity m = secded_loop (\<lambda>i.
       liquid_c_ones ! unat (secded7264_P ! (8 * i + 0) AND m ! 0) +
       liquid_c_ones ! unat (secded7264_P ! (8 * i + 1) AND m ! 1) +
       liquid_c_ones ! unat (secded7264_P ! (8 * i + 2) AND m ! 2) +
       liquid_c_ones ! unat (secded7264_P ! (8 * i + 3) AND m ! 3) +
       liquid_c_ones ! unat (secded7264_P ! (8 * i + 4) AND m ! 4) +
       liquid_c_ones ! unat (secded7264_P ! (8 * i + 5) AND m ! 5) +
       liquid_c_ones ! unat (secded7264_P ! (8 * i + 6) AND m ! 6) +
       liquid_c_ones ! unat (secded7264_P ! (8 * i + 7) AND m ! 7)) [0..<8] 0"

definition fec_secded7264_compute_syndrome :: "bytes \<Rightarrow> u8" where
  "fec_secded7264_compute_syndrome v = secded_loop (\<lambda>i.
       (if v ! 0 AND push_bit (8 - i - 1) 1 \<noteq> 0 then 1 else 0) +
       liquid_c_ones ! unat (secded7264_P ! (8 * i + 0) AND v ! 1) +
       liquid_c_ones ! unat (secded7264_P ! (8 * i + 1) AND v ! 2) +
       liquid_c_ones ! unat (secded7264_P ! (8 * i + 2) AND v ! 3) +
       liquid_c_ones ! unat (secded7264_P ! (8 * i + 3) AND v ! 4) +
       liquid_c_ones ! unat (secded7264_P ! (8 * i + 4) AND v ! 5) +
       liquid_c_ones ! unat (secded7264_P ! (8 * i + 5) AND v ! 6) +
       liquid_c_ones ! unat (secded7264_P ! (8 * i + 6) AND v ! 7) +
       liquid_c_ones ! unat (secded7264_P ! (8 * i + 7) AND v ! 8)) [0..<8] 0"

definition fec_secded7264_encode_symbol :: "bytes \<Rightarrow> bytes" where
  "fec_secded7264_encode_symbol sym_dec = [fec_secded7264_compute_parity sym_dec, sym_dec ! 0, sym_dec ! 1, sym_dec ! 2, sym_dec ! 3, sym_dec ! 4, sym_dec ! 5, sym_dec ! 6, sym_dec ! 7]"

definition fec_secded7264_estimate_ehat :: "bytes \<Rightarrow> nat \<times> bytes" where
  "fec_secded7264_estimate_ehat sym_enc =
     (let e_hat = [0, 0, 0, 0, 0, 0, 0, 0, 0];
          s = fec_secded7264_compute_syndrome sym_enc;
          ws = liquid_c_ones ! unat s
      in if ws = 0 then (0, e_hat)
         else case secded_search s secded7264_syndrome_w1 [0..<72] of
             Some n \<Rightarrow> (1, e_hat[9 - n div 8 - 1 := push_bit (n mod 8) 1])
           | None \<Rightarrow> (2, e_hat))"

definition fec_secded7264_decode_symbol :: "bytes \<Rightarrow> nat \<times> bytes" where
  "fec_secded7264_decode_symbol sym_enc =
     (let (syndrome_flag, e_hat) = fec_secded7264_estimate_ehat sym_enc
      in (syndrome_flag, [sym_enc ! 1 XOR e_hat ! 1,
          sym_enc ! 2 XOR e_hat ! 2,
          sym_enc ! 3 XOR e_hat ! 3,
          sym_enc ! 4 XOR e_hat ! 4,
          sym_enc ! 5 XOR e_hat ! 5,
          sym_enc ! 6 XOR e_hat ! 6,
          sym_enc ! 7 XOR e_hat ! 7,
          sym_enc ! 8 XOR e_hat ! 8]))"

definition fec_secded7264_encode :: "nat \<Rightarrow> bytes \<Rightarrow> bytes option" where
  "fec_secded7264_encode n msg_dec = do {
     let r = n mod 8;
     let blocks = concat (map (\<lambda>t. fec_secded7264_encode_symbol (drop (8 * t) msg_dec)) [0..<(n - r) div 8]);
     let i = 8 * ((n - r) div 8);
     let tail = (if r \<noteq> 0
           then let v = map (\<lambda>n. if n < r then msg_dec ! (i + n) else 0) [0..<8];
                    parity = fec_secded7264_compute_parity v
                in parity # map (\<lambda>n. msg_dec ! (i + n)) [0..<r]
           else []);
     let msg_enc = blocks @ tail;
     enc_msg_len \<leftarrow> fec_get_enc_msg_length FEC_SECDED7264 n;
     if length msg_enc = enc_msg_len \<and> i + r = n then Some msg_enc else None
   }"

definition fec_secded7264_decode :: "nat \<Rightarrow> bytes \<Rightarrow> bytes option" where
  "fec_secded7264_decode n msg_enc = do {
     let r = n mod 8;
     let blocks = concat (map (\<lambda>t. snd (fec_secded7264_decode_symbol (drop (9 * t) msg_enc))) [0..<(n - r) div 8]);
     let i = 8 * ((n - r) div 8);
     let j = 9 * ((n - r) div 8);
     let tail = (if r \<noteq> 0
           then let v = map (\<lambda>n. if n < r + 1 then msg_enc ! (j + n) else 0) [0..<9];
                    c = snd (fec_secded7264_decode_symbol v)
                in map (\<lambda>n. c ! n) [0..<r]
           else []);
     enc_msg_len \<leftarrow> fec_get_enc_msg_length FEC_SECDED7264 n;
     if j + (if r \<noteq> 0 then r + 1 else 0) = enc_msg_len \<and> i + r = n then Some (blocks @ tail) else None
   }"

section \<open>The tables\<close>

lemma secded_length:
  assumes "n < msg_bound" and "0 < b"
  shows "wrap32 (n + n div b + (if n mod b \<noteq> 0 then 1 else 0)) = n + ceil_div n b"
proof -
  have "n div b \<le> n" by (rule div_le_dividend)
  with assms(1) have "n + n div b + (if n mod b \<noteq> 0 then 1 else 0) < 2 ^ 32"
    by (simp, linarith)
  then show ?thesis by (auto simp: ceil_div_def)
qed

lemma secded_position: "0 < b \<Longrightarrow> b * (n div b) + n mod b = n" for n b :: nat
  by simp

lemma secded_block_tail:
  assumes "0 < k" and "length msg = n"
  shows "secded_block k msg (n div k) = map (\<lambda>c. if c < n mod k then msg ! (k * (n div k) + c) else 0) [0..<k]"
proof -
  have "k * (n div k) + c < n \<longleftrightarrow> c < n mod k" for c
    using mult_div_mod_eq [of k n] by linarith
  then show ?thesis by (simp add: secded_block_def zero_pad_def assms(2))
qed

lemma sd_encode_take: "r \<le> k \<Longrightarrow> take (r + 1) (sd_encode k w P m) = sd_parity k w P m # map (\<lambda>c. m ! c) [0..<r]"
  by (simp add: sd_encode_def take_map)

lemma sd_encode_nth: "sd_encode k w P m ! 0 = sd_parity k w P m" "c < k \<Longrightarrow> sd_encode k w P m ! (c + 1) = m ! c"
  by (simp_all add: sd_encode_def)

lemma upt_bytes: "[0..<2] = [0, 1 :: nat]" "[0..<4] = [0, 1, 2, 3 :: nat]" "[0..<8] = [0, 1, 2, 3, 4, 5, 6, 7 :: nat]"
  by code_simp+

lemma sum_bytes:
  "(\<Sum>c<2. g c) = g 0 + g (1 :: nat)" "(\<Sum>c<4. g c) = g 0 + g 1 + g 2 + g (3 :: nat)"
  "(\<Sum>c<8. g c) = g 0 + g 1 + g 2 + g 3 + g 4 + g 5 + g 6 + g (7 :: nat)"
  by (simp_all add: numeral_eq_Suc)

subsection \<open>(22,16)\<close>

lemma secded2216_ops:
  "fec_secded2216_compute_parity m = sd_parity 2 6 secded2216_P m"
  "fec_secded2216_compute_syndrome v = sd_syndrome 2 6 secded2216_P v"
  "fec_secded2216_encode_symbol m = sd_encode 2 6 secded2216_P m"
  "fec_secded2216_estimate_ehat v = sd_ehat 2 6 secded2216_P secded2216_syndrome_w1 v"
  "fec_secded2216_decode_symbol v = sd_decode 2 6 secded2216_P secded2216_syndrome_w1 v"
proof -
  show parity: "fec_secded2216_compute_parity m = sd_parity 2 6 secded2216_P m"
    by (simp add: fec_secded2216_compute_parity_def sd_parity_def sum_bytes add.assoc)
  show syn: "fec_secded2216_compute_syndrome v = sd_syndrome 2 6 secded2216_P v"
    by (simp add: fec_secded2216_compute_syndrome_def sd_syndrome_def sum_bytes add.assoc flip: numeral_2_eq_2)
  show "fec_secded2216_encode_symbol m = sd_encode 2 6 secded2216_P m"
    by (simp add: fec_secded2216_encode_symbol_def sd_encode_def parity upt_bytes)
  have ehat: "fec_secded2216_estimate_ehat v = sd_ehat 2 6 secded2216_P secded2216_syndrome_w1 v"
  proof -
    have "replicate (2 + 1) 0 = ([0, 0, 0] :: bytes)" by (simp add: numeral_eq_Suc)
    moreover have "8 * 2 + 6 = (22 :: nat)" "2 + 1 = (3 :: nat)" by simp_all
    ultimately show ?thesis by (simp only: fec_secded2216_estimate_ehat_def sd_ehat_def syn Let_def)
  qed
  then show "fec_secded2216_estimate_ehat v = sd_ehat 2 6 secded2216_P secded2216_syndrome_w1 v" .
  show "fec_secded2216_decode_symbol v = sd_decode 2 6 secded2216_P secded2216_syndrome_w1 v"
    by (simp add: fec_secded2216_decode_symbol_def sd_decode_def ehat upt_bytes split: prod.split flip: numeral_2_eq_2)
qed

lemma secded2216_tables:
  "length secded2216_syndrome_w1 = 8 * 2 + 6"
  "distinct secded2216_syndrome_w1"
  "list_all (\<lambda>x. odd (liquid_c_ones ! unat x) \<and> take_bit 6 x = x) secded2216_syndrome_w1"
  "list_all (\<lambda>b. secded2216_syndrome_w1 ! (8 * 2 + b) = push_bit b 1) [0..<6]"
  unfolding secded2216_syndrome_w1_def by code_simp+

lemma secded2216_column_bits:
  "list_all (\<lambda>c. list_all (\<lambda>i. list_all (\<lambda>b.
     bit (secded2216_syndrome_w1 ! (8 * (2 - 1 - c) + b)) (6 - 1 - i) \<longleftrightarrow> bit (secded2216_P ! (2 * i + c)) b)
       [0..<8]) [0..<6]) [0..<2]"
  by code_simp

interpretation secded2216: secded_code 2 6 secded2216_P secded2216_syndrome_w1
proof
  fix x :: u8 assume "x \<in> set secded2216_syndrome_w1"
  then show "take_bit 6 x = x" and "odd (ones x)"
    using secded2216_tables(3) by (simp_all add: list_all_iff liquid_c_ones_byte)
next
  fix c b i :: nat assume "c < 2" "b < 8" "i < 6"
  then show "bit (secded2216_syndrome_w1 ! (8 * (2 - 1 - c) + b)) (6 - 1 - i) \<longleftrightarrow> bit (secded2216_P ! (2 * i + c)) b"
    using secded2216_column_bits unfolding list_all_upt by blast
next
  fix b :: nat assume "b < 6"
  then show "secded2216_syndrome_w1 ! (8 * 2 + b) = push_bit b 1"
    using secded2216_tables(4) unfolding list_all_upt by blast
qed (use secded2216_tables(1,2) in simp_all)

lemma secded2216_len: "n < msg_bound \<Longrightarrow> fec_get_enc_msg_length FEC_SECDED2216 n = Some (n + ceil_div n 2)"
  using secded_length [of n 2] by simp

lemma fec_secded2216_encode_blocks:
  assumes "n < msg_bound" and "length msg = n"
  shows "fec_secded2216_encode n msg = Some (sd_encode_blocks 2 6 secded2216_P n msg)"
proof -
  have full: "[fec_secded2216_compute_parity (drop (2 * t) msg), msg ! (2 * t + 0), msg ! (2 * t + 1)] = sd_encode 2 6 secded2216_P (drop (2 * t) msg)"
    if "t < n div 2" for t
    using block_in_range [OF that] assms(2) by (simp add: secded2216_ops sd_encode_def upt_bytes flip: numeral_2_eq_2)
  have half: "(n - n mod 2) div 2 = n div 2" by (simp add: minus_mod_eq_mult_div)
  have blocks: "concat (map (\<lambda>t. [fec_secded2216_compute_parity (drop (2 * t) msg), msg ! (2 * t + 0), msg ! (2 * t + 1)]) [0..<n div 2]) =
      concat (map (\<lambda>t. sd_encode 2 6 secded2216_P (drop (2 * t) msg)) [0..<n div 2])"
    by (intro arg_cong [where f = concat] map_cong refl full) simp
  have tail: "(if n mod 2 \<noteq> 0 then let m = [msg ! (2 * (n div 2)), 0]; v = fec_secded2216_encode_symbol m in [v ! 0, v ! 1] else []) =
      (if n mod 2 \<noteq> 0 then take (n mod 2 + 1) (sd_encode 2 6 secded2216_P (secded_block 2 msg (n div 2))) else [])"
  proof (intro if_cong refl)
    assume "n mod 2 \<noteq> 0"
    then have r: "n mod 2 = 1" by presburger
    have "secded_block 2 msg (n div 2) = [msg ! (2 * (n div 2)), 0]"
      using secded_block_tail [OF _ assms(2), of 2] r by (simp add: upt_bytes)
    then show "(let m = [msg ! (2 * (n div 2)), 0]; v = fec_secded2216_encode_symbol m in [v ! 0, v ! 1]) =
        take (n mod 2 + 1) (sd_encode 2 6 secded2216_P (secded_block 2 msg (n div 2)))"
      by (simp only: r Let_def secded2216_ops) (simp add: sd_encode_def upt_bytes)
  qed
  show ?thesis
    unfolding fec_secded2216_encode_def Let_def half bind.bind_lunit secded2216_len [OF assms(1)]
    unfolding blocks [unfolded Let_def] tail [unfolded Let_def] sd_encode_blocks_def [symmetric]
    by (simp add: length_sd_encode_blocks)
qed

subsection \<open>(39,32)\<close>

lemma secded3932_ops:
  "fec_secded3932_compute_parity m = sd_parity 4 7 secded3932_P m"
  "fec_secded3932_compute_syndrome v = sd_syndrome 4 7 secded3932_P v"
  "fec_secded3932_encode_symbol m = sd_encode 4 7 secded3932_P m"
  "fec_secded3932_estimate_ehat v = sd_ehat 4 7 secded3932_P secded3932_syndrome_w1 v"
  "fec_secded3932_decode_symbol v = sd_decode 4 7 secded3932_P secded3932_syndrome_w1 v"
proof -
  show parity: "fec_secded3932_compute_parity m = sd_parity 4 7 secded3932_P m"
    by (simp add: fec_secded3932_compute_parity_def sd_parity_def sum_bytes add.assoc)
  show syn: "fec_secded3932_compute_syndrome v = sd_syndrome 4 7 secded3932_P v"
    by (simp add: fec_secded3932_compute_syndrome_def sd_syndrome_def sum_bytes add.assoc flip: numeral_2_eq_2)
  show "fec_secded3932_encode_symbol m = sd_encode 4 7 secded3932_P m"
    by (simp add: fec_secded3932_encode_symbol_def sd_encode_def parity upt_bytes)
  have ehat: "fec_secded3932_estimate_ehat v = sd_ehat 4 7 secded3932_P secded3932_syndrome_w1 v"
  proof -
    have "replicate (4 + 1) 0 = ([0, 0, 0, 0, 0] :: bytes)" by (simp add: numeral_eq_Suc)
    moreover have "8 * 4 + 7 = (39 :: nat)" "4 + 1 = (5 :: nat)" by simp_all
    ultimately show ?thesis by (simp only: fec_secded3932_estimate_ehat_def sd_ehat_def syn Let_def)
  qed
  then show "fec_secded3932_estimate_ehat v = sd_ehat 4 7 secded3932_P secded3932_syndrome_w1 v" .
  show "fec_secded3932_decode_symbol v = sd_decode 4 7 secded3932_P secded3932_syndrome_w1 v"
    by (simp add: fec_secded3932_decode_symbol_def sd_decode_def ehat upt_bytes split: prod.split flip: numeral_2_eq_2)
qed

lemma secded3932_tables:
  "length secded3932_syndrome_w1 = 8 * 4 + 7"
  "distinct secded3932_syndrome_w1"
  "list_all (\<lambda>x. odd (liquid_c_ones ! unat x) \<and> take_bit 7 x = x) secded3932_syndrome_w1"
  "list_all (\<lambda>b. secded3932_syndrome_w1 ! (8 * 4 + b) = push_bit b 1) [0..<7]"
  unfolding secded3932_syndrome_w1_def by code_simp+

lemma secded3932_column_bits:
  "list_all (\<lambda>c. list_all (\<lambda>i. list_all (\<lambda>b.
     bit (secded3932_syndrome_w1 ! (8 * (4 - 1 - c) + b)) (7 - 1 - i) \<longleftrightarrow> bit (secded3932_P ! (4 * i + c)) b)
       [0..<8]) [0..<7]) [0..<4]"
  by code_simp

interpretation secded3932: secded_code 4 7 secded3932_P secded3932_syndrome_w1
proof
  fix x :: u8 assume "x \<in> set secded3932_syndrome_w1"
  then show "take_bit 7 x = x" and "odd (ones x)"
    using secded3932_tables(3) by (simp_all add: list_all_iff liquid_c_ones_byte)
next
  fix c b i :: nat assume "c < 4" "b < 8" "i < 7"
  then show "bit (secded3932_syndrome_w1 ! (8 * (4 - 1 - c) + b)) (7 - 1 - i) \<longleftrightarrow> bit (secded3932_P ! (4 * i + c)) b"
    using secded3932_column_bits unfolding list_all_upt by blast
next
  fix b :: nat assume "b < 7"
  then show "secded3932_syndrome_w1 ! (8 * 4 + b) = push_bit b 1"
    using secded3932_tables(4) unfolding list_all_upt by blast
qed (use secded3932_tables(1,2) in simp_all)

lemma secded3932_len: "n < msg_bound \<Longrightarrow> fec_get_enc_msg_length FEC_SECDED3932 n = Some (n + ceil_div n 4)"
  using secded_length [of n 4] by simp

lemma fec_secded3932_encode_blocks:
  assumes "n < msg_bound" and "length msg = n"
  shows "fec_secded3932_encode n msg = Some (sd_encode_blocks 4 7 secded3932_P n msg)"
proof -
  have full: "[fec_secded3932_compute_parity (drop (4 * t) msg), msg ! (4 * t + 0), msg ! (4 * t + 1), msg ! (4 * t + 2), msg ! (4 * t + 3)] = sd_encode 4 7 secded3932_P (drop (4 * t) msg)"
    if "t < n div 4" for t
    using block_in_range [OF that] assms(2) by (simp add: secded3932_ops sd_encode_def upt_bytes flip: numeral_2_eq_2)
  have half: "(n - n mod 4) div 4 = n div 4" by (simp add: minus_mod_eq_mult_div)
  have blocks: "concat (map (\<lambda>t. [fec_secded3932_compute_parity (drop (4 * t) msg), msg ! (4 * t + 0), msg ! (4 * t + 1), msg ! (4 * t + 2), msg ! (4 * t + 3)]) [0..<n div 4]) =
      concat (map (\<lambda>t. sd_encode 4 7 secded3932_P (drop (4 * t) msg)) [0..<n div 4])"
    by (intro arg_cong [where f = concat] map_cong refl full) simp
  have tail: "(if n mod 4 \<noteq> 0 then let m = map (\<lambda>c. if c < n mod 4 then msg ! (4 * (n div 4) + c) else 0) [0..<4]; v = fec_secded3932_encode_symbol m in v ! 0 # map (\<lambda>c. v ! (c + 1)) [0..<n mod 4] else []) =
      (if n mod 4 \<noteq> 0 then take (n mod 4 + 1) (sd_encode 4 7 secded3932_P (secded_block 4 msg (n div 4))) else [])"
  proof (intro if_cong refl)
    have r: "n mod 4 \<le> 4" by simp
    show "(let m = map (\<lambda>c. if c < n mod 4 then msg ! (4 * (n div 4) + c) else 0) [0..<4]; v = fec_secded3932_encode_symbol m
        in v ! 0 # map (\<lambda>c. v ! (c + 1)) [0..<n mod 4]) =
        take (n mod 4 + 1) (sd_encode 4 7 secded3932_P (secded_block 4 msg (n div 4)))"
      unfolding Let_def secded3932_ops secded_block_tail [OF _ assms(2), of 4, simplified, symmetric] sd_encode_take [OF r]
      by (simp add: sd_encode_nth del: One_nat_def add_Suc_right)
  qed
  show ?thesis
    unfolding fec_secded3932_encode_def Let_def half bind.bind_lunit secded3932_len [OF assms(1)]
    unfolding blocks [unfolded Let_def] tail [unfolded Let_def] sd_encode_blocks_def [symmetric]
    by (simp add: length_sd_encode_blocks)
qed

subsection \<open>(72,64)\<close>

lemma secded7264_ops:
  "fec_secded7264_compute_parity m = sd_parity 8 8 secded7264_P m"
  "fec_secded7264_compute_syndrome v = sd_syndrome 8 8 secded7264_P v"
  "fec_secded7264_encode_symbol m = sd_encode 8 8 secded7264_P m"
  "fec_secded7264_estimate_ehat v = sd_ehat 8 8 secded7264_P secded7264_syndrome_w1 v"
  "fec_secded7264_decode_symbol v = sd_decode 8 8 secded7264_P secded7264_syndrome_w1 v"
proof -
  show parity: "fec_secded7264_compute_parity m = sd_parity 8 8 secded7264_P m"
    by (simp add: fec_secded7264_compute_parity_def sd_parity_def sum_bytes add.assoc)
  show syn: "fec_secded7264_compute_syndrome v = sd_syndrome 8 8 secded7264_P v"
    by (simp add: fec_secded7264_compute_syndrome_def sd_syndrome_def sum_bytes add.assoc flip: numeral_2_eq_2)
  show "fec_secded7264_encode_symbol m = sd_encode 8 8 secded7264_P m"
    by (simp add: fec_secded7264_encode_symbol_def sd_encode_def parity upt_bytes)
  have ehat: "fec_secded7264_estimate_ehat v = sd_ehat 8 8 secded7264_P secded7264_syndrome_w1 v"
  proof -
    have "replicate (8 + 1) 0 = ([0, 0, 0, 0, 0, 0, 0, 0, 0] :: bytes)" by (simp add: numeral_eq_Suc)
    moreover have "8 * 8 + 8 = (72 :: nat)" "8 + 1 = (9 :: nat)" by simp_all
    ultimately show ?thesis by (simp only: fec_secded7264_estimate_ehat_def sd_ehat_def syn Let_def)
  qed
  then show "fec_secded7264_estimate_ehat v = sd_ehat 8 8 secded7264_P secded7264_syndrome_w1 v" .
  show "fec_secded7264_decode_symbol v = sd_decode 8 8 secded7264_P secded7264_syndrome_w1 v"
    by (simp add: fec_secded7264_decode_symbol_def sd_decode_def ehat upt_bytes split: prod.split flip: numeral_2_eq_2)
qed

lemma secded7264_tables:
  "length secded7264_syndrome_w1 = 8 * 8 + 8"
  "distinct secded7264_syndrome_w1"
  "list_all (\<lambda>x. odd (liquid_c_ones ! unat x) \<and> take_bit 8 x = x) secded7264_syndrome_w1"
  "list_all (\<lambda>b. secded7264_syndrome_w1 ! (8 * 8 + b) = push_bit b 1) [0..<8]"
  unfolding secded7264_syndrome_w1_def by code_simp+

lemma secded7264_column_bits:
  "list_all (\<lambda>c. list_all (\<lambda>i. list_all (\<lambda>b.
     bit (secded7264_syndrome_w1 ! (8 * (8 - 1 - c) + b)) (8 - 1 - i) \<longleftrightarrow> bit (secded7264_P ! (8 * i + c)) b)
       [0..<8]) [0..<8]) [0..<8]"
  by code_simp

interpretation secded7264: secded_code 8 8 secded7264_P secded7264_syndrome_w1
proof
  fix x :: u8 assume "x \<in> set secded7264_syndrome_w1"
  then show "take_bit 8 x = x" and "odd (ones x)"
    using secded7264_tables(3) by (simp_all add: list_all_iff liquid_c_ones_byte)
next
  fix c b i :: nat assume "c < 8" "b < 8" "i < 8"
  then show "bit (secded7264_syndrome_w1 ! (8 * (8 - 1 - c) + b)) (8 - 1 - i) \<longleftrightarrow> bit (secded7264_P ! (8 * i + c)) b"
    using secded7264_column_bits unfolding list_all_upt by blast
next
  fix b :: nat assume "b < 8"
  then show "secded7264_syndrome_w1 ! (8 * 8 + b) = push_bit b 1"
    using secded7264_tables(4) unfolding list_all_upt by blast
qed (use secded7264_tables(1,2) in simp_all)

lemma secded7264_len: "n < msg_bound \<Longrightarrow> fec_get_enc_msg_length FEC_SECDED7264 n = Some (n + ceil_div n 8)"
  using secded_length [of n 8] by simp

lemma fec_secded7264_encode_blocks:
  assumes "n < msg_bound" and "length msg = n"
  shows "fec_secded7264_encode n msg = Some (sd_encode_blocks 8 8 secded7264_P n msg)"
proof -
  have full: "fec_secded7264_encode_symbol (drop (8 * t) msg) = sd_encode 8 8 secded7264_P (drop (8 * t) msg)"
    if "t < n div 8" for t
    using block_in_range [OF that] assms(2) by (simp add: secded7264_ops sd_encode_def upt_bytes flip: numeral_2_eq_2)
  have half: "(n - n mod 8) div 8 = n div 8" by (simp add: minus_mod_eq_mult_div)
  have blocks: "concat (map (\<lambda>t. fec_secded7264_encode_symbol (drop (8 * t) msg)) [0..<n div 8]) =
      concat (map (\<lambda>t. sd_encode 8 8 secded7264_P (drop (8 * t) msg)) [0..<n div 8])"
    by (intro arg_cong [where f = concat] map_cong refl full) simp
  have tail: "(if n mod 8 \<noteq> 0 then let v = map (\<lambda>c. if c < n mod 8 then msg ! (8 * (n div 8) + c) else 0) [0..<8]; parity = fec_secded7264_compute_parity v in parity # map (\<lambda>c. msg ! (8 * (n div 8) + c)) [0..<n mod 8] else []) =
      (if n mod 8 \<noteq> 0 then take (n mod 8 + 1) (sd_encode 8 8 secded7264_P (secded_block 8 msg (n div 8))) else [])"
  proof (intro if_cong refl)
    have r: "n mod 8 \<le> 8" by simp
    have "map (\<lambda>c. secded_block 8 msg (n div 8) ! c) [0..<n mod 8] = map (\<lambda>c. msg ! (8 * (n div 8) + c)) [0..<n mod 8]"
      using secded_block_tail [OF _ assms(2), of 8] by simp
    then show "(let v = map (\<lambda>c. if c < n mod 8 then msg ! (8 * (n div 8) + c) else 0) [0..<8]; parity = fec_secded7264_compute_parity v
        in parity # map (\<lambda>c. msg ! (8 * (n div 8) + c)) [0..<n mod 8]) =
        take (n mod 8 + 1) (sd_encode 8 8 secded7264_P (secded_block 8 msg (n div 8)))"
      unfolding Let_def secded7264_ops secded_block_tail [OF _ assms(2), of 8, simplified, symmetric] sd_encode_take [OF r]
      by simp
  qed
  show ?thesis
    unfolding fec_secded7264_encode_def Let_def half bind.bind_lunit secded7264_len [OF assms(1)]
    unfolding blocks [unfolded Let_def] tail [unfolded Let_def] sd_encode_blocks_def [symmetric]
    by (simp add: length_sd_encode_blocks)
qed

section \<open>Decoding\<close>

lemma secded_received_tail:
  assumes "0 < k" and "n mod k \<noteq> 0" and "length rx = n + ceil_div n k"
  shows "secded_block (k + 1) rx (n div k) =
    map (\<lambda>c. if c < n mod k + 1 then rx ! ((k + 1) * (n div k) + c) else 0) [0..<k + 1]"
proof -
  have "length rx = (k + 1) * (n div k) + (n mod k + 1)"
    using assms(2,3) mult_div_mod_eq [of k n] by (simp add: ceil_div_def)
  then have "(k + 1) * (n div k) + c < length rx \<longleftrightarrow> c < n mod k + 1" for c
    by (simp only: nat_add_left_cancel_less)
  then show ?thesis by (simp only: secded_block_def zero_pad_def)
qed

lemma secded_encoded_length:
  "K = k + 1 \<Longrightarrow> K * (n div k) + (if n mod k \<noteq> 0 then n mod k + 1 else 0) = n + ceil_div n k"
proof (cases "n mod k = 0")
  case True
  then have "k * (n div k) = n" using mult_div_mod_eq [of k n] by (simp only: add_0_right)
  moreover assume "K = k + 1"
  ultimately show ?thesis using True by (simp add: ceil_div_def)
next
  case False
  assume "K = k + 1"
  then show ?thesis using False mult_div_mod_eq [of k n] by (simp add: ceil_div_def)
qed

lemma length_sd_decode [simp, len_rules]: "length (snd (sd_decode k w P w1 v)) = k"
  by (simp add: sd_decode_def split: prod.split)

lemma map_nth_take: "r \<le> length xs \<Longrightarrow> map (\<lambda>c. xs ! c) [0..<r] = take r xs"
  by (rule nth_equalityI) simp_all

lemma fec_secded2216_decode_blocks:
  assumes "n < msg_bound" and "length rx = n + ceil_div n 2"
  shows "fec_secded2216_decode n rx = Some (sd_decode_blocks 2 6 secded2216_P secded2216_syndrome_w1 n rx)"
proof -
  have half: "(n - n mod 2) div 2 = n div 2" by (simp add: minus_mod_eq_mult_div)
  have tail: "(if n mod 2 \<noteq> 0 then let v = [rx ! (3 * (n div 2) + 0), rx ! (3 * (n div 2) + 1), 0]; m_hat = snd (fec_secded2216_decode_symbol v) in [m_hat ! 0] else []) =
      (if n mod 2 \<noteq> 0 then take (n mod 2) (snd (sd_decode 2 6 secded2216_P secded2216_syndrome_w1
        (secded_block (2 + 1) rx (n div 2)))) else [])"
  proof (intro if_cong refl)
    assume nz: "n mod 2 \<noteq> 0"
    then have r: "n mod 2 = 1" by presburger
    have "secded_block (2 + 1) rx (n div 2) = [rx ! (3 * (n div 2) + 0), rx ! (3 * (n div 2) + 1), 0]"
    proof -
      have up: "[0..<2 + 1] = [0, 1, 2 :: nat]" by code_simp
      show ?thesis unfolding secded_received_tail [OF zero_less_numeral nz assms(2)] up r by simp
    qed
    moreover have "take 1 xs = [xs ! 0]" if "length xs = 2" for xs :: bytes
      using that by (cases xs) simp_all
    ultimately show "(let v = [rx ! (3 * (n div 2) + 0), rx ! (3 * (n div 2) + 1), 0]; m_hat = snd (fec_secded2216_decode_symbol v) in [m_hat ! 0]) =
        take (n mod 2) (snd (sd_decode 2 6 secded2216_P secded2216_syndrome_w1 (secded_block (2 + 1) rx (n div 2))))"
      by (simp only: r Let_def secded2216_ops length_sd_decode)
  qed
  have len: "3 * (n div 2) + (if n mod 2 \<noteq> 0 then n mod 2 + 1 else 0) = n + ceil_div n 2"
    by (rule secded_encoded_length) simp
  show ?thesis
    unfolding fec_secded2216_decode_def Let_def half bind.bind_lunit secded2216_len [OF assms(1)]
    unfolding tail [unfolded Let_def] len secded_position [of 2 n, simplified]
    by (simp add: sd_decode_blocks_def secded2216_ops)
qed

lemma fec_secded3932_decode_blocks:
  assumes "n < msg_bound" and "length rx = n + ceil_div n 4"
  shows "fec_secded3932_decode n rx = Some (sd_decode_blocks 4 7 secded3932_P secded3932_syndrome_w1 n rx)"
proof -
  have half: "(n - n mod 4) div 4 = n div 4" by (simp add: minus_mod_eq_mult_div)
  have tail: "(if n mod 4 \<noteq> 0 then let v = rx ! (5 * (n div 4) + 0) # map (\<lambda>c. if c < n mod 4 then rx ! (5 * (n div 4) + c + 1) else 0) [0..<4]; m_hat = snd (fec_secded3932_decode_symbol v) in map (\<lambda>c. m_hat ! c) [0..<n mod 4] else []) =
      (if n mod 4 \<noteq> 0 then take (n mod 4) (snd (sd_decode 4 7 secded3932_P secded3932_syndrome_w1
        (secded_block (4 + 1) rx (n div 4)))) else [])"
  proof (intro if_cong refl)
    assume nz: "n mod 4 \<noteq> 0"
    have r: "n mod 4 \<le> length (snd (sd_decode 4 7 secded3932_P secded3932_syndrome_w1 v))" for v by simp
    have "secded_block (4 + 1) rx (n div 4) =
        rx ! (5 * (n div 4) + 0) # map (\<lambda>c. if c < n mod 4 then rx ! (5 * (n div 4) + c + 1) else 0) [0..<4]"
    proof -
      have up: "[0..<4 + 1] = 0 # map Suc [0..<4]" by code_simp
      show ?thesis unfolding secded_received_tail [OF zero_less_numeral nz assms(2)] up
        by (simp add: comp_def del: upt_Suc)
    qed
    then show "(let v = rx ! (5 * (n div 4) + 0) # map (\<lambda>c. if c < n mod 4 then rx ! (5 * (n div 4) + c + 1) else 0) [0..<4]; m_hat = snd (fec_secded3932_decode_symbol v) in map (\<lambda>c. m_hat ! c) [0..<n mod 4]) =
        take (n mod 4) (snd (sd_decode 4 7 secded3932_P secded3932_syndrome_w1 (secded_block (4 + 1) rx (n div 4))))"
      unfolding Let_def secded3932_ops by (simp only: map_nth_take [OF r] length_sd_decode)
  qed
  have len: "5 * (n div 4) + (if n mod 4 \<noteq> 0 then n mod 4 + 1 else 0) = n + ceil_div n 4"
    by (rule secded_encoded_length) simp
  show ?thesis
    unfolding fec_secded3932_decode_def Let_def half bind.bind_lunit secded3932_len [OF assms(1)]
    unfolding tail [unfolded Let_def] len secded_position [of 4 n, simplified]
    by (simp add: sd_decode_blocks_def secded3932_ops)
qed

lemma fec_secded7264_decode_blocks:
  assumes "n < msg_bound" and "length rx = n + ceil_div n 8"
  shows "fec_secded7264_decode n rx = Some (sd_decode_blocks 8 8 secded7264_P secded7264_syndrome_w1 n rx)"
proof -
  have half: "(n - n mod 8) div 8 = n div 8" by (simp add: minus_mod_eq_mult_div)
  have tail: "(if n mod 8 \<noteq> 0 then let v = map (\<lambda>c. if c < n mod 8 + 1 then rx ! (9 * (n div 8) + c) else 0) [0..<9]; c = snd (fec_secded7264_decode_symbol v) in map (\<lambda>n. c ! n) [0..<n mod 8] else []) =
      (if n mod 8 \<noteq> 0 then take (n mod 8) (snd (sd_decode 8 8 secded7264_P secded7264_syndrome_w1
        (secded_block (8 + 1) rx (n div 8)))) else [])"
  proof (intro if_cong refl)
    assume nz: "n mod 8 \<noteq> 0"
    have r: "n mod 8 \<le> length (snd (sd_decode 8 8 secded7264_P secded7264_syndrome_w1 v))" for v by simp
    have "secded_block (8 + 1) rx (n div 8) = map (\<lambda>c. if c < n mod 8 + 1 then rx ! (9 * (n div 8) + c) else 0) [0..<9]"
      using secded_received_tail [OF _ nz assms(2)] by simp
    then show "(let v = map (\<lambda>c. if c < n mod 8 + 1 then rx ! (9 * (n div 8) + c) else 0) [0..<9]; c = snd (fec_secded7264_decode_symbol v) in map (\<lambda>n. c ! n) [0..<n mod 8]) =
        take (n mod 8) (snd (sd_decode 8 8 secded7264_P secded7264_syndrome_w1 (secded_block (8 + 1) rx (n div 8))))"
      unfolding Let_def secded7264_ops by (simp only: map_nth_take [OF r] length_sd_decode)
  qed
  have len: "9 * (n div 8) + (if n mod 8 \<noteq> 0 then n mod 8 + 1 else 0) = n + ceil_div n 8"
    by (rule secded_encoded_length) simp
  show ?thesis
    unfolding fec_secded7264_decode_def Let_def half bind.bind_lunit secded7264_len [OF assms(1)]
    unfolding tail [unfolded Let_def] len secded_position [of 8 n, simplified]
    by (simp add: sd_decode_blocks_def secded7264_ops)
qed

section \<open>Properties\<close>

text \<open>The SEC-DED symbol decoders correct one error and detect two. For a symbol of two, four or eight bytes
  and any received word of one byte more, let the errors be the differing bits among the parity and data bits.
  With at most one error the decoder returns the symbol and its flag is the number of errors; with two errors
  the flag is 2.\<close>
theorem secded_symbols:
  assumes "length m2 = 2" and "length m4 = 4" and "length m8 = 8"
  shows "(secded_errors 2 6 (fec_secded2216_encode_symbol m2) v2 \<le> 1 \<longrightarrow>
      fec_secded2216_decode_symbol v2 = (secded_errors 2 6 (fec_secded2216_encode_symbol m2) v2, m2)) \<and>
    (secded_errors 2 6 (fec_secded2216_encode_symbol m2) v2 = 2 \<longrightarrow> fst (fec_secded2216_decode_symbol v2) = 2) \<and>
    (secded_errors 4 7 (fec_secded3932_encode_symbol m4) v4 \<le> 1 \<longrightarrow>
      fec_secded3932_decode_symbol v4 = (secded_errors 4 7 (fec_secded3932_encode_symbol m4) v4, m4)) \<and>
    (secded_errors 4 7 (fec_secded3932_encode_symbol m4) v4 = 2 \<longrightarrow> fst (fec_secded3932_decode_symbol v4) = 2) \<and>
    (secded_errors 8 8 (fec_secded7264_encode_symbol m8) v8 \<le> 1 \<longrightarrow>
      fec_secded7264_decode_symbol v8 = (secded_errors 8 8 (fec_secded7264_encode_symbol m8) v8, m8)) \<and>
    (secded_errors 8 8 (fec_secded7264_encode_symbol m8) v8 = 2 \<longrightarrow> fst (fec_secded7264_decode_symbol v8) = 2)"
  unfolding secded2216_ops secded3932_ops secded7264_ops
  using secded2216.decode_correct [OF assms(1)] secded2216.decode_detect
    secded3932.decode_correct [OF assms(2)] secded3932.decode_detect
    secded7264.decode_correct [OF assms(3)] secded7264.decode_detect by blast

theorem secded_symbols_witness:
  "fec_secded2216_decode_symbol (fec_secded2216_encode_symbol [0x3c, 0xa5]) = (0, [0x3c, 0xa5]) \<and>
    fec_secded3932_decode_symbol (fec_secded3932_encode_symbol [1, 2, 3, 4]) = (0, [1, 2, 3, 4]) \<and>
    fec_secded7264_decode_symbol (fec_secded7264_encode_symbol [1, 2, 3, 4, 5, 6, 7, 8]) = (0, [1, 2, 3, 4, 5, 6, 7, 8])"
  using secded_symbols [of "[0x3c, 0xa5]" "[1, 2, 3, 4]" "[1, 2, 3, 4, 5, 6, 7, 8]"
      "fec_secded2216_encode_symbol [0x3c, 0xa5]" "fec_secded3932_encode_symbol [1, 2, 3, 4]"
      "fec_secded7264_encode_symbol [1, 2, 3, 4, 5, 6, 7, 8]"]
  by (simp add: secded_errors_def secded_diff_def)

text \<open>C29: The SEC-DED block codecs correct one error per symbol. Encoding a message of fewer than \<open>2 ^ 26\<close> bytes of
  any length never fails an assertion and gives the announced length; from any received array in which every
  symbol, the short last one included, has at most one wrong bit, decoding gives the message.\<close>
theorem secded_corrects_single_errors:
  assumes "n < msg_bound" and "length msg = n"
  shows "(\<exists>out. fec_secded2216_encode n msg = Some out \<and> fec_get_enc_msg_length FEC_SECDED2216 n = Some (length out) \<and>
      (\<forall>rx. secded_correctable 2 6 n out rx \<longrightarrow> fec_secded2216_decode n rx = Some msg)) \<and>
    (\<exists>out. fec_secded3932_encode n msg = Some out \<and> fec_get_enc_msg_length FEC_SECDED3932 n = Some (length out) \<and>
      (\<forall>rx. secded_correctable 4 7 n out rx \<longrightarrow> fec_secded3932_decode n rx = Some msg)) \<and>
    (\<exists>out. fec_secded7264_encode n msg = Some out \<and> fec_get_enc_msg_length FEC_SECDED7264 n = Some (length out) \<and>
      (\<forall>rx. secded_correctable 8 8 n out rx \<longrightarrow> fec_secded7264_decode n rx = Some msg))"
proof (intro conjI)
  show "\<exists>out. fec_secded2216_encode n msg = Some out \<and> fec_get_enc_msg_length FEC_SECDED2216 n = Some (length out) \<and>
      (\<forall>rx. secded_correctable 2 6 n out rx \<longrightarrow> fec_secded2216_decode n rx = Some msg)"
    using secded2216.decode_blocks_correct [OF assms(2)] fec_secded2216_decode_blocks [OF assms(1)]
      fec_secded2216_encode_blocks [OF assms] secded2216_len [OF assms(1)]
    by (simp add: length_sd_encode_blocks secded_correctable_def del: fec_get_enc_msg_length.simps)
next
  show "\<exists>out. fec_secded3932_encode n msg = Some out \<and> fec_get_enc_msg_length FEC_SECDED3932 n = Some (length out) \<and>
      (\<forall>rx. secded_correctable 4 7 n out rx \<longrightarrow> fec_secded3932_decode n rx = Some msg)"
    using secded3932.decode_blocks_correct [OF assms(2)] fec_secded3932_decode_blocks [OF assms(1)]
      fec_secded3932_encode_blocks [OF assms] secded3932_len [OF assms(1)]
    by (simp add: length_sd_encode_blocks secded_correctable_def del: fec_get_enc_msg_length.simps)
next
  show "\<exists>out. fec_secded7264_encode n msg = Some out \<and> fec_get_enc_msg_length FEC_SECDED7264 n = Some (length out) \<and>
      (\<forall>rx. secded_correctable 8 8 n out rx \<longrightarrow> fec_secded7264_decode n rx = Some msg)"
    using secded7264.decode_blocks_correct [OF assms(2)] fec_secded7264_decode_blocks [OF assms(1)]
      fec_secded7264_encode_blocks [OF assms] secded7264_len [OF assms(1)]
    by (simp add: length_sd_encode_blocks secded_correctable_def del: fec_get_enc_msg_length.simps)
qed

theorem secded_corrects_single_errors_witness:
  "(\<exists>out. fec_secded2216_encode 5 [1, 2, 3, 4, 5] = Some out \<and> fec_get_enc_msg_length FEC_SECDED2216 5 = Some (length out) \<and>
      (\<forall>rx. secded_correctable 2 6 5 out rx \<longrightarrow> fec_secded2216_decode 5 rx = Some [1, 2, 3, 4, 5])) \<and>
    (\<exists>out. fec_secded3932_encode 5 [1, 2, 3, 4, 5] = Some out \<and> fec_get_enc_msg_length FEC_SECDED3932 5 = Some (length out) \<and>
      (\<forall>rx. secded_correctable 4 7 5 out rx \<longrightarrow> fec_secded3932_decode 5 rx = Some [1, 2, 3, 4, 5])) \<and>
    (\<exists>out. fec_secded7264_encode 5 [1, 2, 3, 4, 5] = Some out \<and> fec_get_enc_msg_length FEC_SECDED7264 5 = Some (length out) \<and>
      (\<forall>rx. secded_correctable 8 8 5 out rx \<longrightarrow> fec_secded7264_decode 5 rx = Some [1, 2, 3, 4, 5]))"
  by (rule secded_corrects_single_errors) simp_all

end
