(* ===== verification/Interleaver.thy ===== *)
theory Interleaver
  imports Fec_Rep
begin

unbundle bit_operations_syntax

text \<open>
  \<^verbatim>\<open>liquid_dsp/src/fec/src/interleaver.c\<close>: the structured block interleaver. One pass exchanges the
  even byte \<open>2 * i\<close> with an odd byte \<open>2 * j + 1\<close>, wholly or under a bit mask, where \<open>j\<close> runs down
  the columns of an \<open>M\<close> by \<open>N\<close> table and an inner loop skips the entries beyond the array. That
  inner loop has no bound of its own, so it is a partial function, and it is shown to end. The
  column counter starts at \<open>n / 3\<close>, which may lie outside the table; nevertheless no index is met
  twice before the pass is over, so every pass undoes itself and decoding inverts encoding.
\<close>

section \<open>Operations\<close>

record interleaver =
  il_n :: nat
  il_M :: nat
  il_N :: nat
  il_depth :: nat

text \<open>
  \<^verbatim>\<open>floorf(sqrtf(n))\<close> as the integer square root; the two agree for \<open>n\<close> below \<open>2 ^ 22\<close>, where the
  rounding of single precision stays under the distance to the next square.
\<close>

definition isqrt :: "nat \<Rightarrow> nat" where
  "isqrt n = length (filter (\<lambda>k. k * k \<le> n) [1..<n + 1])"

text \<open>The loop that raises the number of columns. It ends because there is at least one row.\<close>

function interleaver_cols :: "nat \<Rightarrow> nat \<Rightarrow> nat \<Rightarrow> nat" where
  "interleaver_cols n M N = (if 0 < M \<and> M * N \<le> n then interleaver_cols n M (N + 1) else N)"
  by pat_completeness auto
termination
  by (relation "measure (\<lambda>(n, M, N). Suc n - M * N)") (auto simp: diff_less_mono2)

declare interleaver_cols.simps [simp del]

definition interleaver_create :: "nat \<Rightarrow> interleaver" where
  "interleaver_create n =
     (let M = 1 + isqrt n;
          N = interleaver_cols n M (n div M)
      in \<lparr>il_n = n, il_M = M, il_N = N, il_depth = 4\<rparr>)"

definition interleaver_set_depth :: "interleaver \<Rightarrow> nat \<Rightarrow> interleaver" where
  "interleaver_set_depth q depth = q\<lparr>il_depth := depth\<rparr>"

text \<open>The search for the next index below \<open>n2\<close>: the \<^verbatim>\<open>do ... while\<close> loop of every pass.\<close>

partial_function (option) next_index :: "nat \<Rightarrow> nat \<Rightarrow> nat \<Rightarrow> nat \<Rightarrow> nat \<Rightarrow> (nat \<times> nat \<times> nat) option" where
  [code]: "next_index M N n2 m n =
     (let j = m * N + n;
          m = m + 1;
          (m, n) = (if m = M then (0, (n + 1) mod N) else (m, n))
      in if j \<ge> n2 then next_index M N n2 m n else Some (j, m, n))"

text \<open>One pass; \<open>swap i j\<close> is what it does to the array.\<close>

fun permute_loop :: "(nat \<Rightarrow> nat \<Rightarrow> bytes \<Rightarrow> bytes) \<Rightarrow> nat \<Rightarrow> nat \<Rightarrow> nat \<Rightarrow> nat list \<Rightarrow> nat \<Rightarrow> nat \<Rightarrow> bytes \<Rightarrow> bytes option" where
  "permute_loop swap M N n2 [] m n x = Some x"
| "permute_loop swap M N n2 (i # is) m n x = do {
     (j, m, n) \<leftarrow> next_index M N n2 m n;
     permute_loop swap M N n2 is m n (swap i j x)
   }"

definition swap_bytes :: "nat \<Rightarrow> nat \<Rightarrow> bytes \<Rightarrow> bytes" where
  "swap_bytes i j x =
     (let tmp = x ! (2 * j + 1);
          x = x[2 * j + 1 := x ! (2 * i + 0)]
      in x[2 * i + 0 := tmp])"

definition swap_masked :: "u8 \<Rightarrow> nat \<Rightarrow> nat \<Rightarrow> bytes \<Rightarrow> bytes" where
  "swap_masked msk i j x =
     (let tmp0 = (x ! (2 * i + 0) AND NOT msk) OR (x ! (2 * j + 1) AND msk);
          tmp1 = (x ! (2 * i + 0) AND msk) OR (x ! (2 * j + 1) AND NOT msk);
          x = x[2 * i + 0 := tmp0]
      in x[2 * j + 1 := tmp1])"

text \<open>\<^verbatim>\<open>memmove(&x[a], src, 8)\<close>.\<close>

definition put8 :: "bytes \<Rightarrow> nat \<Rightarrow> bytes \<Rightarrow> bytes" where
  "put8 x a src = take a x @ take 8 src @ drop (a + 8) x"

definition swap_soft :: "nat \<Rightarrow> nat \<Rightarrow> bytes \<Rightarrow> bytes" where
  "swap_soft i j x =
     (let tmp = take 8 (drop (8 * (2 * j + 1)) x);
          x = put8 x (8 * (2 * j + 1)) (drop (8 * (2 * i + 0)) x)
      in put8 x (8 * (2 * i + 0)) tmp)"

fun swap_masked_soft_loop :: "u8 \<Rightarrow> nat \<Rightarrow> nat \<Rightarrow> nat list \<Rightarrow> bytes \<Rightarrow> bytes" where
  "swap_masked_soft_loop msk i j [] x = x"
| "swap_masked_soft_loop msk i j (k # ks) x =
     (if drop_bit (8 - k - 1) msk AND 0x01 \<noteq> 0
      then let tmp = x ! (8 * (2 * j + 1) + k);
               x = x[8 * (2 * j + 1) + k := x ! (8 * (2 * i + 0) + k)];
               x = x[8 * (2 * i + 0) + k := tmp]
           in swap_masked_soft_loop msk i j ks x
      else swap_masked_soft_loop msk i j ks x)"

definition swap_masked_soft :: "u8 \<Rightarrow> nat \<Rightarrow> nat \<Rightarrow> bytes \<Rightarrow> bytes" where
  "swap_masked_soft msk i j x = swap_masked_soft_loop msk i j [0..<8] x"

definition interleaver_permute :: "bytes \<Rightarrow> nat \<Rightarrow> nat \<Rightarrow> nat \<Rightarrow> bytes option" where
  "interleaver_permute x n M N = permute_loop swap_bytes M N (n div 2) [0..<n div 2] 0 (n div 3) x"

definition interleaver_permute_soft :: "bytes \<Rightarrow> nat \<Rightarrow> nat \<Rightarrow> nat \<Rightarrow> bytes option" where
  "interleaver_permute_soft x n M N = permute_loop swap_soft M N (n div 2) [0..<n div 2] 0 (n div 3) x"

definition interleaver_permute_mask :: "bytes \<Rightarrow> nat \<Rightarrow> nat \<Rightarrow> nat \<Rightarrow> u8 \<Rightarrow> bytes option" where
  "interleaver_permute_mask x n M N msk =
     permute_loop (swap_masked msk) M N (n div 2) [0..<n div 2] 0 (n div 3) x"

definition interleaver_permute_mask_soft :: "bytes \<Rightarrow> nat \<Rightarrow> nat \<Rightarrow> nat \<Rightarrow> u8 \<Rightarrow> bytes option" where
  "interleaver_permute_mask_soft x n M N msk =
     permute_loop (swap_masked_soft msk) M N (n div 2) [0..<n div 2] 0 (n div 3) x"

definition interleaver_encode :: "interleaver \<Rightarrow> bytes \<Rightarrow> bytes option" where
  "interleaver_encode q msg_dec = do {
     let x = take (il_n q) msg_dec;
     x \<leftarrow> (if il_depth q > 0 then interleaver_permute x (il_n q) (il_M q) (il_N q) else Some x);
     x \<leftarrow> (if il_depth q > 1 then interleaver_permute_mask x (il_n q) (il_M q) (il_N q + 2) 0x0f else Some x);
     x \<leftarrow> (if il_depth q > 2 then interleaver_permute_mask x (il_n q) (il_M q) (il_N q + 4) 0x55 else Some x);
     (if il_depth q > 3 then interleaver_permute_mask x (il_n q) (il_M q) (il_N q + 8) 0x33 else Some x)
   }"

definition interleaver_encode_soft :: "interleaver \<Rightarrow> bytes \<Rightarrow> bytes option" where
  "interleaver_encode_soft q msg_dec = do {
     let x = take (8 * il_n q) msg_dec;
     x \<leftarrow> (if il_depth q > 0 then interleaver_permute_soft x (il_n q) (il_M q) (il_N q) else Some x);
     x \<leftarrow> (if il_depth q > 1 then interleaver_permute_mask_soft x (il_n q) (il_M q) (il_N q + 2) 0x0f else Some x);
     x \<leftarrow> (if il_depth q > 2 then interleaver_permute_mask_soft x (il_n q) (il_M q) (il_N q + 4) 0x55 else Some x);
     (if il_depth q > 3 then interleaver_permute_mask_soft x (il_n q) (il_M q) (il_N q + 8) 0x33 else Some x)
   }"

definition interleaver_decode :: "interleaver \<Rightarrow> bytes \<Rightarrow> bytes option" where
  "interleaver_decode q msg_enc = do {
     let x = take (il_n q) msg_enc;
     x \<leftarrow> (if il_depth q > 3 then interleaver_permute_mask x (il_n q) (il_M q) (il_N q + 8) 0x33 else Some x);
     x \<leftarrow> (if il_depth q > 2 then interleaver_permute_mask x (il_n q) (il_M q) (il_N q + 4) 0x55 else Some x);
     x \<leftarrow> (if il_depth q > 1 then interleaver_permute_mask x (il_n q) (il_M q) (il_N q + 2) 0x0f else Some x);
     (if il_depth q > 0 then interleaver_permute x (il_n q) (il_M q) (il_N q) else Some x)
   }"

definition interleaver_decode_soft :: "interleaver \<Rightarrow> bytes \<Rightarrow> bytes option" where
  "interleaver_decode_soft q msg_enc = do {
     let x = take (8 * il_n q) msg_enc;
     x \<leftarrow> (if il_depth q > 3 then interleaver_permute_mask_soft x (il_n q) (il_M q) (il_N q + 8) 0x33 else Some x);
     x \<leftarrow> (if il_depth q > 2 then interleaver_permute_mask_soft x (il_n q) (il_M q) (il_N q + 4) 0x55 else Some x);
     x \<leftarrow> (if il_depth q > 1 then interleaver_permute_mask_soft x (il_n q) (il_M q) (il_N q + 2) 0x0f else Some x);
     (if il_depth q > 0 then interleaver_permute_soft x (il_n q) (il_M q) (il_N q) else Some x)
   }"

section \<open>The walk over the table\<close>

text \<open>The next state, and the first \<open>k\<close> entries visited from a state.\<close>

definition walk_next :: "nat \<Rightarrow> nat \<Rightarrow> nat \<Rightarrow> nat \<Rightarrow> nat \<times> nat" where
  "walk_next M N m n = (if m + 1 = M then (0, (n + 1) mod N) else (m + 1, n))"

fun trail :: "nat \<Rightarrow> nat \<Rightarrow> nat \<Rightarrow> nat \<Rightarrow> nat \<Rightarrow> nat list" where
  "trail M N 0 m n = []"
| "trail M N (Suc k) m n = (m * N + n) # (let (m', n') = walk_next M N m n in trail M N k m' n')"

lemma next_index_step: "next_index M N n2 m n =
  (case walk_next M N m n of (m', n') \<Rightarrow>
    if m * N + n \<ge> n2 then next_index M N n2 m' n' else Some (m * N + n, m', n'))"
  by (subst next_index.simps) (simp add: walk_next_def Let_def)

text \<open>The search returns the next entry of the trail that is small enough.\<close>

lemma next_index_trail:
  assumes "filter (\<lambda>j. j < n2) (trail M N k m n) = j # js"
  shows "\<exists>k' m' n'. next_index M N n2 m n = Some (j, m', n') \<and> filter (\<lambda>j. j < n2) (trail M N k' m' n') = js"
  using assms
proof (induction k arbitrary: m n)
  case (Suc k)
  obtain m' n' where walk: "walk_next M N m n = (m', n')" by fastforce
  show ?case
  proof (cases "m * N + n < n2")
    case True
    with Suc.prems walk show ?thesis by (auto simp: next_index_step)
  next
    case False
    with Suc.prems walk have "filter (\<lambda>j. j < n2) (trail M N k m' n') = j # js" by simp
    with Suc.IH [OF this] False walk show ?thesis by (simp add: next_index_step [of M N n2 m n])
  qed
qed simp

definition swap_all :: "(nat \<Rightarrow> nat \<Rightarrow> bytes \<Rightarrow> bytes) \<Rightarrow> (nat \<times> nat) list \<Rightarrow> bytes \<Rightarrow> bytes" where
  "swap_all swap ps x = fold (\<lambda>(i, j). swap i j) ps x"

lemma swap_all_simps [simp]:
  "swap_all swap [] x = x"
  "swap_all swap ((i, j) # ps) x = swap_all swap ps (swap i j x)"
  by (simp_all add: swap_all_def)

lemma permute_loop_trail:
  assumes "filter (\<lambda>j. j < n2) (trail M N k m n) = js @ later" and "length js = length is"
  shows "permute_loop swap M N n2 is m n x = Some (swap_all swap (zip is js) x)"
  using assms
proof (induction "is" arbitrary: js k m n x)
  case (Cons i "is")
  then obtain j js' where js: "js = j # js'" by (cases js) auto
  with Cons.prems obtain k' m' n' where step: "next_index M N n2 m n = Some (j, m', n')"
    and rest: "filter (\<lambda>j. j < n2) (trail M N k' m' n') = js' @ later"
    using next_index_trail [of n2 M N k m n j "js' @ later"] by auto
  from Cons.IH [OF rest] Cons.prems(2) js step show ?case by simp
qed simp

text \<open>The trail column by column.\<close>

definition table_column :: "nat \<Rightarrow> nat \<Rightarrow> nat \<Rightarrow> nat list" where
  "table_column M N c = map (\<lambda>m. m * N + c) [0..<M]"

lemma trail_rows:
  assumes "m < M"
  shows "trail M N (M - m + k) m n = map (\<lambda>m. m * N + n) [m..<M] @ trail M N k 0 ((n + 1) mod N)"
  using assms
proof (induction "M - m" arbitrary: m)
  case (Suc d)
  show ?case
  proof (cases "m + 1 = M")
    case True
    then show ?thesis by (auto simp: walk_next_def)
  next
    case False
    with Suc.prems have m: "m + 1 < M" by simp
    then have "M - m + k = Suc (M - (m + 1) + k)" by simp
    moreover have "[m..<M] = m # [m + 1..<M]" using Suc.prems by (simp add: upt_conv_Cons)
    moreover have "trail M N (M - (m + 1) + k) (m + 1) n =
        map (\<lambda>m. m * N + n) [m + 1..<M] @ trail M N k 0 ((n + 1) mod N)"
      using Suc.hyps m by (intro Suc.hyps(1)) simp_all
    ultimately show ?thesis using False by (simp add: walk_next_def)
  qed
qed simp

lemma trail_columns:
  assumes "0 < M"
  shows "trail M N (M * Suc q) 0 n = table_column M N n @
    concat (map (\<lambda>i. table_column M N ((n + 1 + i) mod N)) [0..<q])"
proof (induction q arbitrary: n)
  case 0
  show ?case using trail_rows [OF assms, of N 0 n] by (simp add: table_column_def)
next
  case (Suc q)
  have next_col: "((n + 1) mod N + 1 + i) mod N = (n + 1 + Suc i) mod N" for i
    using mod_add_left_eq [of "n + 1" N "1 + i"] by (simp only: add.assoc) simp
  have upt: "[0..<Suc q] = 0 # map Suc [0..<q]" by (simp add: upt_conv_Cons map_Suc_upt)
  have "trail M N (M * Suc (Suc q)) 0 n = table_column M N n @ trail M N (M * Suc q) 0 ((n + 1) mod N)"
    using trail_rows [OF assms, of N "M * Suc q" n] by (simp add: table_column_def)
  also have "trail M N (M * Suc q) 0 ((n + 1) mod N) = table_column M N ((n + 1) mod N) @
      concat (map (\<lambda>i. table_column M N ((n + 1 + Suc i) mod N)) [0..<q])"
    unfolding Suc.IH next_col ..
  finally show ?case by (simp add: upt o_def del: upt_Suc)
qed

text \<open>
  The entries below \<open>n2\<close> that the walk meets, over one column more than the table has. The first
  \<open>n2\<close> of them are all the indices below \<open>n2\<close>, each once: what the first column leaves out, because
  it may start beyond the table, the last one has at its front.
\<close>

definition column_hits :: "nat \<Rightarrow> nat \<Rightarrow> nat \<Rightarrow> nat \<Rightarrow> nat list" where
  "column_hits M N n2 c = filter (\<lambda>j. j < n2) (table_column M N c)"

lemma column_hits_mod: "x \<in> set (column_hits M N n2 c) \<Longrightarrow> x mod N = c mod N"
  by (auto simp: column_hits_def table_column_def)

lemma distinct_column_hits: "0 < N \<Longrightarrow> distinct (column_hits M N n2 c)"
  by (simp add: column_hits_def table_column_def distinct_map inj_on_def)

lemma set_column_hits:
  assumes "c < N" and "n2 \<le> M * N"
  shows "set (column_hits M N n2 c) = {j. j < n2 \<and> j mod N = c}"
proof (intro set_eqI iffI)
  fix j assume "j \<in> {j. j < n2 \<and> j mod N = c}"
  then have j: "j < n2" "j mod N = c" by simp_all
  then have "j = j div N * N + c" using div_mult_mod_eq [of j N] by simp
  moreover have "j div N < M" using j assms by (simp add: less_mult_imp_div_less)
  ultimately show "j \<in> set (column_hits M N n2 c)"
    using j by (auto simp: column_hits_def table_column_def image_iff)
qed (use assms in \<open>auto simp: column_hits_def table_column_def\<close>)

text \<open>The column that starts at \<open>c\<close> is the end of the column \<open>c mod N\<close>.\<close>

lemma column_hits_overshoot:
  assumes "n2 \<le> M * N"
  shows "\<exists>front. column_hits M N n2 (c mod N) = front @ column_hits M N n2 c"
proof -
  let ?d = "c div N" and ?f = "\<lambda>m. m * N + c mod N"
  have shift: "m * N + c = ?f (m + ?d)" for m
    using div_mult_mod_eq [of c N] by (simp add: algebra_simps)
  have "table_column M N c = map ?f [?d..<M + ?d]"
    unfolding table_column_def shift by (simp add: map_add_upt [symmetric] add.commute o_def del: map_add_upt)
  then have hits: "column_hits M N n2 c = filter (\<lambda>j. j < n2) (map ?f [?d..<M + ?d])"
    by (simp add: column_hits_def)
  have out: "filter (\<lambda>j. j < n2) (map ?f [M..<k]) = []" for k
  proof -
    have "n2 \<le> ?f m" if "M \<le> m" for m
      using assms mult_le_mono1 [OF that, of N] by linarith
    then show ?thesis by (auto simp: filter_empty_conv not_less)
  qed
  show ?thesis
  proof (cases "?d \<le> M")
    case True
    have "[?d..<M + ?d] = [?d..<M] @ [M..<M + ?d]" using upt_add_eq_append [OF True, of ?d] by simp
    moreover have "[0..<M] = [0..<?d] @ [?d..<M]" using upt_add_eq_append [of 0 ?d "M - ?d"] True by simp
    ultimately have "column_hits M N n2 (c mod N) =
        filter (\<lambda>j. j < n2) (map ?f [0..<?d]) @ column_hits M N n2 c"
      unfolding hits by (simp add: column_hits_def table_column_def out)
    then show ?thesis by blast
  next
    case False
    then have "[M..<M + ?d] = [M..<?d] @ [?d..<M + ?d]" using upt_add_eq_append [of M ?d M] by (simp add: add.commute)
    then have "filter (\<lambda>j. j < n2) (map ?f [?d..<M + ?d]) = []" using out [of "M + ?d"] by simp
    then show ?thesis unfolding hits by simp
  qed
qed

lemma distinct_concat_keys:
  assumes "\<And>i. i < k \<Longrightarrow> distinct (f i)" and "\<And>i x. i < k \<Longrightarrow> x \<in> set (f i) \<Longrightarrow> g x = h i"
    and "inj_on h {..<k}"
  shows "distinct (concat (map f [0..<k]))"
  using assms
proof (induction k)
  case (Suc k)
  have "distinct (concat (map f [0..<k]))"
    using Suc.prems by (intro Suc.IH) (auto simp: inj_on_def)
  moreover have "set (f i) \<inter> set (f k) = {}" if "i < k" for i
  proof -
    have "h i \<noteq> h k" using Suc.prems(3) that by (auto simp: inj_on_def)
    with Suc.prems(2) [of i] Suc.prems(2) [of k] that show ?thesis by fastforce
  qed
  ultimately show ?case using Suc.prems(1) [of k] by (auto simp: atLeast0LessThan)
qed simp

lemma inj_on_shift_mod: "inj_on (\<lambda>i. (a + i) mod N) {..<N}" for a N :: nat
proof (rule inj_onI)
  fix i k assume eq: "(a + i) mod N = (a + k) mod N" and "i \<in> {..<N}" "k \<in> {..<N}"
  moreover have "i mod N = k mod N"
    using eq by (simp add: mod_eq_iff_dvd_symdiff_nat)
  ultimately show "i = k" by simp
qed

lemma walk_meets_all:
  assumes "0 < M" and "0 < N" and "n2 \<le> M * N"
  shows "\<exists>js later. filter (\<lambda>j. j < n2) (trail M N (M * Suc N) 0 c) = js @ later \<and>
    distinct js \<and> set js = {..<n2}"
proof -
  let ?hits = "\<lambda>i. column_hits M N n2 ((c + 1 + i) mod N)"
  obtain N' where N: "N = Suc N'" using assms(2) by (cases N) auto
  have wrap: "(c + 1 + N') mod N = c mod N" using N mod_add_self2 [of c N] by simp
  obtain front where front: "?hits N' = front @ column_hits M N n2 c"
    using column_hits_overshoot [OF assms(3)] unfolding wrap by blast
  define mid where "mid = concat (map ?hits [0..<N'])"
  define js where "js = column_hits M N n2 c @ mid @ front"
  have "filter (\<lambda>j. j < n2) (trail M N (M * Suc N) 0 c) = column_hits M N n2 c @ concat (map ?hits [0..<N])"
    unfolding trail_columns [OF assms(1)] column_hits_def by (simp add: filter_concat o_def)
  also have "concat (map ?hits [0..<N]) = mid @ ?hits N'" by (simp add: N mid_def)
  finally have hits: "filter (\<lambda>j. j < n2) (trail M N (M * Suc N) 0 c) = js @ column_hits M N n2 c"
    by (simp only: front js_def append_assoc)
  have all: "concat (map ?hits [0..<N]) = mid @ front @ column_hits M N n2 c"
    using front by (simp add: N mid_def)
  have "distinct (concat (map ?hits [0..<N]))"
  proof (rule distinct_concat_keys)
    show "inj_on (\<lambda>i. (c + 1 + i) mod N) {..<N}" by (rule inj_on_shift_mod)
    show "distinct (?hits i)" for i using assms(2) by (rule distinct_column_hits)
    show "x mod N = (c + 1 + i) mod N" if "x \<in> set (?hits i)" for i x
      using column_hits_mod [OF that] by simp
  qed
  then have "distinct js" unfolding all by (auto simp: js_def)
  moreover have "set js = {..<n2}"
  proof -
    have "set js = set (concat (map ?hits [0..<N]))" unfolding all by (auto simp: js_def)
    also have "\<dots> = (\<Union>i < N. {j. j < n2 \<and> j mod N = (c + 1 + i) mod N})"
      using assms by (simp add: set_column_hits atLeast0LessThan)
    also have "\<dots> = {..<n2}"
    proof (intro equalityI subsetI)
      fix j assume "j \<in> {..<n2}"
      moreover have "(\<lambda>i. (c + 1 + i) mod N) ` {..<N} = {..<N}"
        using assms(2) inj_on_shift_mod [of "c + 1" N] by (intro endo_inj_surj) auto
      then have "j mod N \<in> (\<lambda>i. (c + 1 + i) mod N) ` {..<N}" using assms(2) by simp
      ultimately show "j \<in> (\<Union>i < N. {j. j < n2 \<and> j mod N = (c + 1 + i) mod N})" by auto
    qed auto
    finally show ?thesis .
  qed
  ultimately show ?thesis using hits by blast
qed

text \<open>So a pass runs to its end, and its swaps pair the even bytes with the odd ones.\<close>

definition pass_pairs :: "nat \<Rightarrow> (nat \<times> nat) list \<Rightarrow> bool" where
  "pass_pairs n2 ps \<longleftrightarrow> (\<exists>js. ps = zip [0..<n2] js \<and> distinct js \<and> set js = {..<n2})"

lemma permute_loop_pairs:
  assumes "0 < M" and "0 < N" and "n2 \<le> M * N"
  shows "\<exists>ps. pass_pairs n2 ps \<and> (\<forall>swap x. permute_loop swap M N n2 [0..<n2] 0 c x = Some (swap_all swap ps x))"
proof -
  from walk_meets_all [OF assms, of c] obtain js later where
    hits: "filter (\<lambda>j. j < n2) (trail M N (M * Suc N) 0 c) = js @ later"
    and js: "distinct js" "set js = {..<n2}" by blast
  then have "length js = length [0..<n2]" using distinct_card [of js] by simp
  with permute_loop_trail [OF hits this] js show ?thesis
    by (intro exI [of _ "zip [0..<n2] js"]) (auto simp: pass_pairs_def)
qed

section \<open>Swaps of disjoint pairs\<close>

text \<open>A step on arrays of length \<open>l\<close> that ends, keeps the length and undoes itself.\<close>

definition undoes :: "(bytes \<Rightarrow> bytes option) \<Rightarrow> nat \<Rightarrow> bool" where
  "undoes f l \<longleftrightarrow> (\<forall>x. length x = l \<longrightarrow> (\<exists>y. f x = Some y \<and> length y = l \<and> f y = Some x))"

text \<open>
  What the four kinds of swap share: each undoes itself, and two of them on different rows and
  different columns commute. \<open>w\<close> is the number of array cells a byte takes, one or, for soft bits,
  eight.
\<close>

locale pair_swap =
  fixes swap :: "nat \<Rightarrow> nat \<Rightarrow> bytes \<Rightarrow> bytes" and w :: nat
  assumes swap_length: "i < n2 \<Longrightarrow> j < n2 \<Longrightarrow> w * (2 * n2) \<le> length x \<Longrightarrow> length (swap i j x) = length x"
    and swap_twice: "i < n2 \<Longrightarrow> j < n2 \<Longrightarrow> w * (2 * n2) \<le> length x \<Longrightarrow> swap i j (swap i j x) = x"
    and swap_commute: "i \<noteq> k \<Longrightarrow> j \<noteq> l \<Longrightarrow> i < n2 \<Longrightarrow> j < n2 \<Longrightarrow> k < n2 \<Longrightarrow> l < n2 \<Longrightarrow>
      w * (2 * n2) \<le> length x \<Longrightarrow> swap i j (swap k l x) = swap k l (swap i j x)"
begin

definition pairs_ok :: "nat \<Rightarrow> (nat \<times> nat) list \<Rightarrow> bool" where
  "pairs_ok n2 ps \<longleftrightarrow> set ps \<subseteq> {..<n2} \<times> {..<n2} \<and> distinct (map fst ps) \<and> distinct (map snd ps)"

lemma swap_all_length:
  "pairs_ok n2 ps \<Longrightarrow> w * (2 * n2) \<le> length x \<Longrightarrow> length (swap_all swap ps x) = length x"
proof (induction ps arbitrary: x)
  case (Cons p ps)
  obtain i j where p: "p = (i, j)" by fastforce
  have "length (swap i j x) = length x"
    using Cons.prems p by (intro swap_length [of i n2 j]) (auto simp: pairs_ok_def)
  moreover have "pairs_ok n2 ps" using Cons.prems(1) by (auto simp: pairs_ok_def)
  ultimately show ?case using Cons.IH [of "swap i j x"] Cons.prems(2) p by simp
qed simp

lemma swap_all_commute:
  assumes "pairs_ok n2 ((i, j) # ps)" and "w * (2 * n2) \<le> length x"
  shows "swap_all swap ps (swap i j x) = swap i j (swap_all swap ps x)"
  using assms
proof (induction ps arbitrary: x)
  case (Cons p ps)
  obtain k l where p: "p = (k, l)" by fastforce
  have ok: "pairs_ok n2 ((i, j) # ps)" using Cons.prems(1) by (auto simp: pairs_ok_def)
  have "swap k l (swap i j x) = swap i j (swap k l x)"
    using Cons.prems p by (intro swap_commute [of _ _ _ _ n2]) (auto simp: pairs_ok_def)
  moreover have "length (swap k l x) = length x"
    using Cons.prems p by (intro swap_length [of k n2 l]) (auto simp: pairs_ok_def)
  ultimately show ?case using Cons.IH [OF ok, of "swap k l x"] Cons.prems(2) p by simp
qed simp

lemma swap_all_twice:
  assumes "pairs_ok n2 ps" and "w * (2 * n2) \<le> length x"
  shows "swap_all swap ps (swap_all swap ps x) = x"
  using assms
proof (induction ps arbitrary: x)
  case (Cons p ps)
  obtain i j where p: "p = (i, j)" by fastforce
  have ok: "pairs_ok n2 ps" using Cons.prems(1) by (auto simp: pairs_ok_def)
  have "swap_all swap (p # ps) (swap_all swap (p # ps) x) =
      swap_all swap ps (swap i j (swap i j (swap_all swap ps x)))"
    using swap_all_commute [of n2 i j ps x] Cons.prems p by simp
  also have "\<dots> = swap_all swap ps (swap_all swap ps x)"
    using Cons.prems p swap_twice [of i n2 j "swap_all swap ps x"] swap_all_length [OF ok]
    by (auto simp: pairs_ok_def)
  finally show ?case using Cons.IH [OF ok Cons.prems(2)] by simp
qed simp

lemma pass_pairs_ok: "pass_pairs n2 ps \<Longrightarrow> pairs_ok n2 ps"
proof -
  assume "pass_pairs n2 ps"
  then obtain js where ps: "ps = zip [0..<n2] js" and js: "distinct js" "set js = {..<n2}"
    by (auto simp: pass_pairs_def)
  then have "length js = n2" using distinct_card [of js] by simp
  then have "map fst ps = [0..<n2]" "map snd ps = js" by (simp_all add: ps)
  moreover have "set ps \<subseteq> set (map fst ps) \<times> set (map snd ps)" by (auto intro: rev_image_eqI)
  ultimately have "set ps \<subseteq> {..<n2} \<times> {..<n2}" using js(2) by (simp add: atLeast0LessThan)
  with \<open>map fst ps = [0..<n2]\<close> \<open>map snd ps = js\<close> show ?thesis using js(1) by (simp add: pairs_ok_def)
qed

lemma pass_undoes:
  assumes "0 < M" and "0 < N" and "n div 2 \<le> M * N"
  shows "undoes (permute_loop swap M N (n div 2) [0..<n div 2] 0 c) (w * n)"
proof -
  from permute_loop_pairs [OF assms, of c] obtain ps where ps: "pass_pairs (n div 2) ps"
    and run: "\<And>x. permute_loop swap M N (n div 2) [0..<n div 2] 0 c x = Some (swap_all swap ps x)" by blast
  have "w * (2 * (n div 2)) \<le> w * n" by (intro mult_le_mono2) simp
  then show ?thesis
    using swap_all_twice [OF pass_pairs_ok [OF ps]] swap_all_length [OF pass_pairs_ok [OF ps]]
    by (simp add: run undoes_def)
qed

end

lemma even_neq_odd: "2 * a \<noteq> Suc (2 * b)" "Suc (2 * b) \<noteq> 2 * a"
  by presburger+

lemma swap_masked_length [len_rules]: "length (swap_masked msk i j x) = length x"
  by (simp add: swap_masked_def Let_def)

lemma swap_masked_nth:
  assumes "2 * i < length x" and "2 * j + 1 < length x" and "p < length x"
  shows "swap_masked msk i j x ! p =
    (if p = 2 * i then (x ! (2 * i) AND NOT msk) OR (x ! (2 * j + 1) AND msk)
     else if p = 2 * j + 1 then (x ! (2 * i) AND msk) OR (x ! (2 * j + 1) AND NOT msk)
     else x ! p)"
proof -
  have "2 * i \<noteq> 2 * j + 1" by presburger
  then show ?thesis using assms by (auto simp: swap_masked_def Let_def nth_list_update)
qed

lemma select_twice:
  "(((a AND NOT m) OR (b AND m)) AND NOT m) OR (((a AND m) OR (b AND NOT m)) AND m) = a"
  "(((a AND NOT m) OR (b AND m)) AND m) OR (((a AND m) OR (b AND NOT m)) AND NOT m) = b"
  for a b m :: u8
  by (rule bit_word_eqI; auto simp: bit_simps)+

lemma swap_masked_twice:
  assumes "2 * i < length x" and "2 * j + 1 < length x"
  shows "swap_masked msk i j (swap_masked msk i j x) = x"
  by (rule nth_equalityI)
    (use assms in \<open>simp_all add: swap_masked_nth swap_masked_length select_twice even_neq_odd\<close>)

lemma swap_masked_commute:
  assumes "i \<noteq> k" and "j \<noteq> l" and "2 * i < length x" and "2 * j + 1 < length x"
    and "2 * k < length x" and "2 * l + 1 < length x"
  shows "swap_masked msk i j (swap_masked msk k l x) = swap_masked msk k l (swap_masked msk i j x)"
proof (rule nth_equalityI)
  fix p assume "p < length (swap_masked msk i j (swap_masked msk k l x))"
  then show "swap_masked msk i j (swap_masked msk k l x) ! p = swap_masked msk k l (swap_masked msk i j x) ! p"
    using assms by (simp add: swap_masked_nth swap_masked_length even_neq_odd)
qed (simp add: swap_masked_length)

interpretation masked: pair_swap "swap_masked msk" 1 for msk
  by unfold_locales (auto simp: swap_masked_length intro!: swap_masked_twice swap_masked_commute)

lemma swap_bytes_masked: "swap_bytes i j x = swap_masked 0xff i j x"
proof -
  have "(a AND NOT 0xff) OR (b AND 0xff) = b" "(a AND 0xff) OR (b AND NOT 0xff) = a" for a b :: u8
    by (rule bit_word_eqI; simp add: bit_simps bit_u8_255 del: bit_numeral_word_iff)+
  moreover have "2 * i \<noteq> 2 * j + 1" by presburger
  ultimately show ?thesis by (simp add: swap_bytes_def swap_masked_def Let_def list_update_swap)
qed

lemma swap_bytes_length [len_rules]: "length (swap_bytes i j x) = length x"
  by (simp add: swap_bytes_def Let_def)

interpretation whole: pair_swap swap_bytes 1
  by unfold_locales
    (auto simp: swap_bytes_masked swap_masked_length intro!: swap_masked_twice swap_masked_commute)

section \<open>Swaps of soft bits\<close>

text \<open>The cell \<open>p\<close> of an array after the bits \<open>P\<close> of the bytes \<open>a\<close> and \<open>b\<close> were exchanged.\<close>

definition soft_swapped :: "(nat \<Rightarrow> bool) \<Rightarrow> nat \<Rightarrow> nat \<Rightarrow> bytes \<Rightarrow> nat \<Rightarrow> u8" where
  "soft_swapped P a b x p =
     (if P (p mod 8) \<and> p div 8 = a then x ! (8 * b + p mod 8)
      else if P (p mod 8) \<and> p div 8 = b then x ! (8 * a + p mod 8)
      else x ! p)"

lemma cell_eq: "c < 8 \<Longrightarrow> 8 * q + c = p \<longleftrightarrow> p mod 8 = c \<and> p div 8 = q" for p q c :: nat
  by auto

lemma swap_cells:
  assumes "a \<noteq> b" and "k < 8" and "8 * a + 8 \<le> length x" and "8 * b + 8 \<le> length x" and "p < length x"
  shows "x[8 * b + k := x ! (8 * a + k), 8 * a + k := x ! (8 * b + k)] ! p = soft_swapped (\<lambda>c. c = k) a b x p"
  using assms cell_eq [OF assms(2), of a p] cell_eq [OF assms(2), of b p]
  by (auto simp: nth_list_update soft_swapped_def)

lemma swap_masked_soft_loop_length: "length (swap_masked_soft_loop msk i j ks x) = length x"
  by (induction ks arbitrary: x) (simp_all add: Let_def)

lemma soft_swapped_compose:
  assumes "a \<noteq> b" and "\<And>r. r < length x \<Longrightarrow> y ! r = soft_swapped P a b x r" and "\<And>c. \<not> (P c \<and> Q c)"
    and "8 * a + 8 \<le> length x" and "8 * b + 8 \<le> length x" and "p < length x"
  shows "soft_swapped Q a b y p = soft_swapped (\<lambda>c. P c \<or> Q c) a b x p"
proof -
  define c where "c = p mod 8"
  have c: "c < 8" by (simp add: c_def)
  then have "8 * a + c < length x" "8 * b + c < length x" using assms(4,5) by simp_all
  with c assms show ?thesis
    unfolding soft_swapped_def c_def [symmetric] by (simp add: soft_swapped_def c_def [symmetric])
qed

lemma swap_masked_soft_loop_nth:
  assumes "distinct ks" and "set ks \<subseteq> {..<8}" and "a = 2 * i" and "b = 2 * j + 1"
    and "8 * a + 8 \<le> length x" and "8 * b + 8 \<le> length x" and "p < length x"
  shows "swap_masked_soft_loop msk i j ks x ! p = soft_swapped (\<lambda>c. c \<in> set ks \<and> bit msk (7 - c)) a b x p"
  using assms
proof (induction ks arbitrary: x)
  case (Cons k ks)
  have k: "k < 8" "k \<notin> set ks" using Cons.prems by auto
  have ab: "a \<noteq> b" using Cons.prems(3,4) by presburger
  have test: "drop_bit (8 - k - 1) msk AND 0x01 \<noteq> 0 \<longleftrightarrow> bit msk (7 - k)"
    by (simp add: and_one_eq odd_iff_mod_2_eq_one [symmetric] bit_iff_odd_drop_bit)
  define y where "y = (if bit msk (7 - k)
    then x[8 * b + k := x ! (8 * a + k), 8 * a + k := x ! (8 * b + k)] else x)"
  have "y ! r = soft_swapped (\<lambda>c. c = k \<and> bit msk (7 - c)) a b x r" if "r < length x" for r
    using swap_cells [OF ab k(1) Cons.prems(5,6) that] unfolding y_def soft_swapped_def by auto
  moreover have y: "length y = length x" by (simp add: y_def)
  ultimately have "soft_swapped (\<lambda>c. c \<in> set ks \<and> bit msk (7 - c)) a b y p =
      soft_swapped (\<lambda>c. (c = k \<and> bit msk (7 - c)) \<or> (c \<in> set ks \<and> bit msk (7 - c))) a b x p"
    using k Cons.prems by (intro soft_swapped_compose [OF ab]) auto
  moreover have "swap_masked_soft_loop msk i j (k # ks) x = swap_masked_soft_loop msk i j ks y"
    using test by (simp add: y_def Let_def Cons.prems(3,4))
  moreover have "swap_masked_soft_loop msk i j ks y ! p =
      soft_swapped (\<lambda>c. c \<in> set ks \<and> bit msk (7 - c)) a b y p"
    using Cons.prems y by (intro Cons.IH) auto
  moreover have "(\<lambda>c. (c = k \<and> bit msk (7 - c)) \<or> (c \<in> set ks \<and> bit msk (7 - c))) =
      (\<lambda>c. c \<in> set (k # ks) \<and> bit msk (7 - c))" by auto
  ultimately show ?case by simp
qed (simp add: soft_swapped_def)

lemma swap_masked_soft_length [len_rules]: "length (swap_masked_soft msk i j x) = length x"
  by (simp add: swap_masked_soft_def swap_masked_soft_loop_length)

lemma swap_masked_soft_nth:
  assumes "a = 2 * i" and "b = 2 * j + 1" and "8 * a + 8 \<le> length x" and "8 * b + 8 \<le> length x" and "p < length x"
  shows "swap_masked_soft msk i j x ! p = soft_swapped (\<lambda>c. bit msk (7 - c)) a b x p"
  unfolding swap_masked_soft_def
  by (subst swap_masked_soft_loop_nth [where a = a and b = b]) (use assms in \<open>auto simp: soft_swapped_def\<close>)

lemma byte_cells: "i < n2 \<Longrightarrow> 8 * (2 * n2) \<le> l \<Longrightarrow> 8 * (2 * i) + 8 \<le> l \<and> 8 * (2 * i + 1) + 8 \<le> (l :: nat)"
  by simp

lemma soft_swapped_cong: "p < length x \<Longrightarrow> 8 * a + 8 \<le> length x \<Longrightarrow> 8 * b + 8 \<le> length x \<Longrightarrow>
  (\<And>r. r < length x \<Longrightarrow> x ! r = f r) \<Longrightarrow>
  soft_swapped P a b x p = (if P (p mod 8) \<and> p div 8 = a then f (8 * b + p mod 8)
     else if P (p mod 8) \<and> p div 8 = b then f (8 * a + p mod 8) else f p)"
  using mod_less_divisor [of 8 p] by (auto simp: soft_swapped_def)

lemma cell_div_mod: "(8 * q + p mod 8) div 8 = q" "(8 * q + p mod 8) mod 8 = p mod 8" for p q :: nat
  by simp_all

lemma swap_masked_soft_twice:
  assumes "i < n2" and "j < n2" and "8 * (2 * n2) \<le> length x"
  shows "swap_masked_soft msk i j (swap_masked_soft msk i j x) = x"
proof (rule nth_equalityI)
  fix p assume "p < length (swap_masked_soft msk i j (swap_masked_soft msk i j x))"
  then have p: "p < length x" by (simp add: swap_masked_soft_length)
  define a b where "a = 2 * i" and "b = 2 * j + 1"
  have bounds: "8 * a + 8 \<le> length x" "8 * b + 8 \<le> length x"
    using byte_cells assms unfolding a_def b_def by blast+
  have ab: "a \<noteq> b" unfolding a_def b_def by presburger
  note once = swap_masked_soft_nth [OF a_def b_def]
  have "swap_masked_soft msk i j (swap_masked_soft msk i j x) ! p =
      soft_swapped (\<lambda>c. bit msk (7 - c)) a b (swap_masked_soft msk i j x) p"
    using p bounds by (intro once) (simp_all add: swap_masked_soft_length)
  also have "\<dots> = x ! p"
    using p bounds ab once [OF bounds]
    by (subst soft_swapped_cong [where f = "soft_swapped (\<lambda>c. bit msk (7 - c)) a b x"])
      (auto simp: swap_masked_soft_length soft_swapped_def cell_div_mod)
  finally show "swap_masked_soft msk i j (swap_masked_soft msk i j x) ! p = x ! p" .
qed (simp add: swap_masked_soft_length)

lemma swap_masked_soft_commute:
  assumes "i \<noteq> k" and "j \<noteq> l" and "i < n2" and "j < n2" and "k < n2" and "l < n2" and "8 * (2 * n2) \<le> length x"
  shows "swap_masked_soft msk i j (swap_masked_soft msk k l x) = swap_masked_soft msk k l (swap_masked_soft msk i j x)"
proof (rule nth_equalityI)
  fix p assume "p < length (swap_masked_soft msk i j (swap_masked_soft msk k l x))"
  then have p: "p < length x" by (simp add: swap_masked_soft_length)
  define a b a' b' where "a = 2 * i" and "b = 2 * j + 1" and "a' = 2 * k" and "b' = 2 * l + 1"
  have bounds: "8 * a + 8 \<le> length x" "8 * b + 8 \<le> length x" "8 * a' + 8 \<le> length x" "8 * b' + 8 \<le> length x"
    using byte_cells assms unfolding a_def b_def a'_def b'_def by blast+
  have diff: "a \<noteq> a'" "b \<noteq> b'" "a \<noteq> b'" "b \<noteq> a'"
    using assms(1,2) even_neq_odd unfolding a_def b_def a'_def b'_def by simp_all
  note one = swap_masked_soft_nth [OF a_def b_def] and two = swap_masked_soft_nth [OF a'_def b'_def]
  let ?P = "\<lambda>c. bit msk (7 - c)"
  have "swap_masked_soft msk i j (swap_masked_soft msk k l x) ! p = soft_swapped ?P a b (swap_masked_soft msk k l x) p"
    using p bounds by (intro one) (simp_all add: swap_masked_soft_length)
  also have "\<dots> = soft_swapped ?P a' b' (swap_masked_soft msk i j x) p"
    using p bounds diff one [OF bounds(1,2)] two [OF bounds(3,4)]
    by (subst (1 2) soft_swapped_cong)
      (auto simp: swap_masked_soft_length soft_swapped_def cell_div_mod)
  also have "\<dots> = swap_masked_soft msk k l (swap_masked_soft msk i j x) ! p"
    using p bounds by (intro two [symmetric]) (simp_all add: swap_masked_soft_length)
  finally show "swap_masked_soft msk i j (swap_masked_soft msk k l x) ! p =
    swap_masked_soft msk k l (swap_masked_soft msk i j x) ! p" .
qed (simp add: swap_masked_soft_length)

interpretation soft_masked: pair_swap "swap_masked_soft msk" 8 for msk
  by unfold_locales (auto simp: swap_masked_soft_length swap_masked_soft_twice swap_masked_soft_commute)

lemma put8_length: "8 \<le> length src \<Longrightarrow> a + 8 \<le> length x \<Longrightarrow> length (put8 x a src) = length x"
  by (simp add: put8_def)

lemma put8_nth:
  assumes "8 \<le> length src" and "8 * a + 8 \<le> length x" and "p < length x"
  shows "put8 x (8 * a) src ! p = (if p div 8 = a then src ! (p mod 8) else x ! p)"
proof -
  have p: "p = 8 * (p div 8) + p mod 8" by simp
  consider "p < 8 * a" | "8 * a \<le> p" "p < 8 * a + 8" | "8 * a + 8 \<le> p" by linarith
  then show ?thesis
  proof cases
    case 1
    then have "p div 8 \<noteq> a" using p by linarith
    with 1 assms show ?thesis by (simp add: put8_def nth_append)
  next
    case 2
    then have "p div 8 = a" using p by linarith
    moreover from this have "p - 8 * a = p mod 8" using p by simp
    moreover note 2
    ultimately show ?thesis using assms by (simp add: put8_def nth_append)
  next
    case 3
    then have "p div 8 \<noteq> a" "\<not> p - 8 * a < 8" using mod_less_divisor [of 8 p] p by linarith+
    with 3 assms show ?thesis by (simp add: put8_def nth_append)
  qed
qed

lemma swap_soft_masked:
  assumes "i < n2" and "j < n2" and "8 * (2 * n2) \<le> length x"
  shows "swap_soft i j x = swap_masked_soft 0xff i j x"
proof -
  define a b where "a = 2 * i" and "b = 2 * j + 1"
  have bounds: "8 * a + 8 \<le> length x" "8 * b + 8 \<le> length x"
    using byte_cells assms unfolding a_def b_def by blast+
  have ab: "a \<noteq> b" unfolding a_def b_def by presburger
  define y where "y = put8 x (8 * b) (drop (8 * a) x)"
  have y: "length y = length x" using bounds by (simp add: y_def put8_length)
  have eq: "swap_soft i j x = put8 y (8 * a) (take 8 (drop (8 * b) x))"
    by (simp add: swap_soft_def y_def a_def b_def Let_def)
  show ?thesis
  proof (rule nth_equalityI)
    show "length (swap_soft i j x) = length (swap_masked_soft 0xff i j x)"
      using bounds y unfolding eq by (simp add: put8_length swap_masked_soft_length)
    fix p assume "p < length (swap_soft i j x)"
    then have p: "p < length x" using bounds y unfolding eq by (simp add: put8_length)
    have "swap_soft i j x ! p = soft_swapped (\<lambda>c. bit (0xff :: u8) (7 - c)) a b x p"
      using p bounds y ab mod_less_divisor [of 8 p] unfolding eq
      by (simp add: put8_nth y_def soft_swapped_def bit_u8_255 put8_length del: bit_numeral_word_iff)
    then show "swap_soft i j x ! p = swap_masked_soft 0xff i j x ! p"
      using swap_masked_soft_nth [OF a_def b_def bounds p] by simp
  qed
qed

interpretation soft_whole: pair_swap swap_soft 8
  by unfold_locales
    (auto simp: swap_soft_masked swap_masked_soft_length swap_masked_soft_twice swap_masked_soft_commute)

text \<open>Swapping soft bits is swapping bits.\<close>

lemma swap_masked_soft_of:
  assumes "i < n2" and "j < n2" and "2 * n2 \<le> length x"
  shows "swap_masked_soft msk i j (soft_of x) = soft_of (swap_masked msk i j x)"
proof (rule nth_equalityI)
  fix p assume "p < length (swap_masked_soft msk i j (soft_of x))"
  then have p: "p < 8 * length x" by (simp add: swap_masked_soft_length)
  define a b q c where "a = 2 * i" and "b = 2 * j + 1" and "q = p div 8" and "c = p mod 8"
  have bounds: "a < length x" "b < length x" "q < length x" "c < 8" and pqc: "p = 8 * q + c"
    using assms p unfolding a_def b_def q_def c_def by auto
  have ab: "a \<noteq> b" unfolding a_def b_def by presburger
  have hard: "swap_masked msk i j x ! q =
    (if q = a then (x ! a AND NOT msk) OR (x ! b AND msk)
     else if q = b then (x ! a AND msk) OR (x ! b AND NOT msk) else x ! q)"
    unfolding a_def b_def by (rule swap_masked_nth) (use bounds in \<open>simp_all add: a_def b_def\<close>)
  have "swap_masked_soft msk i j (soft_of x) ! p = soft_swapped (\<lambda>c. bit msk (7 - c)) a b (soft_of x) p"
    using bounds p by (intro swap_masked_soft_nth [OF a_def b_def]) simp_all
  also have "\<dots> = soft_of (swap_masked msk i j x) ! (8 * q + c)"
    using bounds ab hard pqc unfolding soft_swapped_def q_def [symmetric] c_def [symmetric]
    by (auto simp: soft_of_byte swap_masked_length bit_simps)
  finally show "swap_masked_soft msk i j (soft_of x) ! p = soft_of (swap_masked msk i j x) ! p"
    by (simp only: pqc)
qed (simp add: swap_masked_soft_length swap_masked_length)

lemma swap_soft_of:
  assumes "i < n2" and "j < n2" and "2 * n2 \<le> length x"
  shows "swap_soft i j (soft_of x) = soft_of (swap_bytes i j x)"
  unfolding swap_bytes_masked using swap_masked_soft_of [OF assms] swap_soft_masked [of i n2 j "soft_of x"] assms by simp

lemma swap_all_soft_of:
  assumes "pair_swap.pairs_ok n2 ps" and "2 * n2 \<le> length x"
    and "\<And>i j x. i < n2 \<Longrightarrow> j < n2 \<Longrightarrow> 2 * n2 \<le> length x \<Longrightarrow> ss i j (soft_of x) = soft_of (s i j x)"
    and "\<And>i j x. length (s i j x) = length x"
  shows "swap_all ss ps (soft_of x) = soft_of (swap_all s ps x)"
  using assms(1,2)
proof (induction ps arbitrary: x)
  case (Cons p ps)
  obtain i j where p: "p = (i, j)" by fastforce
  have "pair_swap.pairs_ok n2 ps" "i < n2" "j < n2" using Cons.prems(1) p by (auto simp: whole.pairs_ok_def)
  then show ?case using Cons.IH [of "s i j x"] Cons.prems(2) assms(3,4) p by simp
qed simp

lemma permute_loop_soft_of:
  assumes "0 < M" and "0 < N" and "n div 2 \<le> M * N" and "length x = n"
    and "\<And>i j n2 x. i < n2 \<Longrightarrow> j < n2 \<Longrightarrow> 2 * n2 \<le> length x \<Longrightarrow> ss i j (soft_of x) = soft_of (s i j x)"
    and "\<And>i j x. length (s i j x) = length x"
  shows "permute_loop ss M N (n div 2) [0..<n div 2] 0 c (soft_of x) =
    map_option soft_of (permute_loop s M N (n div 2) [0..<n div 2] 0 c x)"
proof -
  from permute_loop_pairs [OF assms(1-3), of c] obtain ps where ps: "pass_pairs (n div 2) ps"
    and run: "\<And>swap x. permute_loop swap M N (n div 2) [0..<n div 2] 0 c x = Some (swap_all swap ps x)" by blast
  have "2 * (n div 2) \<le> length x" using assms(4) by simp
  from swap_all_soft_of [OF whole.pass_pairs_ok [OF ps] this assms(5,6)] show ?thesis by (simp add: run)
qed

section \<open>Encoder and decoder\<close>

definition interleaver_ok :: "interleaver \<Rightarrow> bool" where
  "interleaver_ok q \<longleftrightarrow> 0 < il_M q \<and> il_n q < il_M q * il_N q"

lemma interleaver_cols_enough: "0 < M \<Longrightarrow> n < M * interleaver_cols n M N"
  by (induction n M N rule: interleaver_cols.induct) (subst interleaver_cols.simps, auto simp: not_le)

lemma interleaver_create_ok: "interleaver_ok (interleaver_create n)"
  using interleaver_cols_enough [of "1 + isqrt n" n] by (simp add: interleaver_ok_def interleaver_create_def Let_def)

lemma interleaver_set_depth_ok: "interleaver_ok q \<Longrightarrow> interleaver_ok (interleaver_set_depth q d)"
  by (simp add: interleaver_ok_def interleaver_set_depth_def)

lemma interleaver_pass_dims:
  assumes "interleaver_ok q" shows "0 < il_M q" "0 < il_N q + e" "il_n q div 2 \<le> il_M q * (il_N q + e)"
proof -
  have "0 < il_N q" using assms by (cases "il_N q") (auto simp: interleaver_ok_def)
  then show "0 < il_N q + e" by simp
  have "il_M q * il_N q \<le> il_M q * (il_N q + e)" by (intro mult_le_mono2) simp
  then show "0 < il_M q" "il_n q div 2 \<le> il_M q * (il_N q + e)"
    using assms unfolding interleaver_ok_def by linarith+
qed

text \<open>Passes that run only from some depth on, and passes in a row.\<close>

lemma undoes_if: "undoes f l \<Longrightarrow> undoes (\<lambda>x. if c then f x else Some x) l"
  by (simp add: undoes_def)

lemma undoes_chain:
  assumes "undoes f l" and "undoes g l" and "undoes h l" and "undoes k l" and "length x = l"
  shows "\<exists>y. (f x \<bind> (\<lambda>x. g x \<bind> (\<lambda>x. h x \<bind> k))) = Some y \<and> length y = l \<and>
    (k y \<bind> (\<lambda>y. h y \<bind> (\<lambda>y. g y \<bind> f))) = Some x"
proof -
  obtain x1 where 1: "f x = Some x1" "length x1 = l" "f x1 = Some x" using assms(1,5) by (auto simp: undoes_def)
  obtain x2 where 2: "g x1 = Some x2" "length x2 = l" "g x2 = Some x1" using assms(2) 1(2) by (auto simp: undoes_def)
  obtain x3 where 3: "h x2 = Some x3" "length x3 = l" "h x3 = Some x2" using assms(3) 2(2) by (auto simp: undoes_def)
  obtain x4 where 4: "k x3 = Some x4" "length x4 = l" "k x4 = Some x3" using assms(4) 3(2) by (auto simp: undoes_def)
  from 1 2 3 4 show ?thesis by simp
qed

lemma interleaver_passes_undo:
  assumes "interleaver_ok q"
  shows "undoes (\<lambda>x. interleaver_permute x (il_n q) (il_M q) (il_N q)) (il_n q)"
    and "undoes (\<lambda>x. interleaver_permute_mask x (il_n q) (il_M q) (il_N q + e) msk) (il_n q)"
    and "undoes (\<lambda>x. interleaver_permute_soft x (il_n q) (il_M q) (il_N q)) (8 * il_n q)"
    and "undoes (\<lambda>x. interleaver_permute_mask_soft x (il_n q) (il_M q) (il_N q + e) msk) (8 * il_n q)"
  unfolding interleaver_permute_def interleaver_permute_mask_def
    interleaver_permute_soft_def interleaver_permute_mask_soft_def
  using whole.pass_undoes masked.pass_undoes soft_whole.pass_undoes soft_masked.pass_undoes
    interleaver_pass_dims [OF assms] interleaver_pass_dims(2,3) [OF assms, where e = 0]
  by simp_all

lemma interleaver_encode_undone:
  assumes "interleaver_ok q" and "length x = il_n q"
  shows "\<exists>y. interleaver_encode q x = Some y \<and> length y = il_n q \<and> interleaver_decode q y = Some x"
  using undoes_chain [OF undoes_if [where c = "il_depth q > 0", OF interleaver_passes_undo(1)]
      undoes_if [where c = "il_depth q > 1", OF interleaver_passes_undo(2)]
      undoes_if [where c = "il_depth q > 2", OF interleaver_passes_undo(2)]
      undoes_if [where c = "il_depth q > 3", OF interleaver_passes_undo(2)],
      OF assms(1) assms(1) assms(1) assms(1) assms(2), of 2 "0x0f" 4 "0x55" 8 "0x33"]
  by (auto simp: interleaver_encode_def interleaver_decode_def assms(2))

lemma interleaver_encode_soft_undone:
  assumes "interleaver_ok q" and "length x = 8 * il_n q"
  shows "\<exists>y. interleaver_encode_soft q x = Some y \<and> length y = 8 * il_n q \<and> interleaver_decode_soft q y = Some x"
  using undoes_chain [OF undoes_if [where c = "il_depth q > 0", OF interleaver_passes_undo(3)]
      undoes_if [where c = "il_depth q > 1", OF interleaver_passes_undo(4)]
      undoes_if [where c = "il_depth q > 2", OF interleaver_passes_undo(4)]
      undoes_if [where c = "il_depth q > 3", OF interleaver_passes_undo(4)],
      OF assms(1) assms(1) assms(1) assms(1) assms(2), of 2 "0x0f" 4 "0x55" 8 "0x33"]
  by (auto simp: interleaver_encode_soft_def interleaver_decode_soft_def assms(2))

text \<open>Decoding first is undone as well: the same passes in the other order.\<close>

lemma interleaver_decode_undone:
  assumes "interleaver_ok q" and "length x = il_n q"
  shows "\<exists>y. interleaver_decode q x = Some y \<and> length y = il_n q \<and> interleaver_encode q y = Some x"
  using undoes_chain [OF undoes_if [where c = "il_depth q > 3", OF interleaver_passes_undo(2)]
      undoes_if [where c = "il_depth q > 2", OF interleaver_passes_undo(2)]
      undoes_if [where c = "il_depth q > 1", OF interleaver_passes_undo(2)]
      undoes_if [where c = "il_depth q > 0", OF interleaver_passes_undo(1)],
      OF assms(1) assms(1) assms(1) assms(1) assms(2), of 8 "0x33" 4 "0x55" 2 "0x0f"]
  by (auto simp: interleaver_encode_def interleaver_decode_def assms(2))

text \<open>On hard decisions the soft passes are the hard passes.\<close>

definition soft_version :: "(bytes \<Rightarrow> bytes option) \<Rightarrow> (bytes \<Rightarrow> bytes option) \<Rightarrow> nat \<Rightarrow> bool" where
  "soft_version fs f l \<longleftrightarrow> (\<forall>x. length x = l \<longrightarrow> fs (soft_of x) = map_option soft_of (f x))"

lemma soft_version_if: "soft_version fs f l \<Longrightarrow>
  soft_version (\<lambda>x. if c then fs x else Some x) (\<lambda>x. if c then f x else Some x) l"
  by (simp add: soft_version_def)

lemma soft_version_bind:
  assumes "soft_version fs f l" and "undoes f l" and "soft_version gs g l"
  shows "soft_version (\<lambda>x. fs x \<bind> gs) (\<lambda>x. f x \<bind> g) l"
  unfolding soft_version_def
proof (intro allI impI)
  fix x :: bytes assume x: "length x = l"
  then obtain y where "f x = Some y" "length y = l" using assms(2) by (auto simp: undoes_def)
  with x assms(1,3) show "fs (soft_of x) \<bind> gs = map_option soft_of (f x \<bind> g)" by (simp add: soft_version_def)
qed

lemma interleaver_soft_passes:
  assumes "interleaver_ok q"
  shows "soft_version (\<lambda>x. interleaver_permute_soft x (il_n q) (il_M q) (il_N q))
      (\<lambda>x. interleaver_permute x (il_n q) (il_M q) (il_N q)) (il_n q)"
    and "soft_version (\<lambda>x. interleaver_permute_mask_soft x (il_n q) (il_M q) (il_N q + e) msk)
      (\<lambda>x. interleaver_permute_mask x (il_n q) (il_M q) (il_N q + e) msk) (il_n q)"
proof -
  note dims = interleaver_pass_dims [OF assms] interleaver_pass_dims(2,3) [OF assms, where e = 0]
  show "soft_version (\<lambda>x. interleaver_permute_soft x (il_n q) (il_M q) (il_N q))
      (\<lambda>x. interleaver_permute x (il_n q) (il_M q) (il_N q)) (il_n q)"
    using dims unfolding soft_version_def interleaver_permute_def interleaver_permute_soft_def
    by (simp add: permute_loop_soft_of swap_soft_of swap_bytes_length)
  show "soft_version (\<lambda>x. interleaver_permute_mask_soft x (il_n q) (il_M q) (il_N q + e) msk)
      (\<lambda>x. interleaver_permute_mask x (il_n q) (il_M q) (il_N q + e) msk) (il_n q)"
    using dims unfolding soft_version_def interleaver_permute_mask_def interleaver_permute_mask_soft_def
    by (simp add: permute_loop_soft_of swap_masked_soft_of swap_masked_length)
qed

lemma soft_version_chain:
  assumes "soft_version fs f l" and "soft_version gs g l" and "soft_version hs h l" and "soft_version ks k l"
    and "undoes f l" and "undoes g l" and "undoes h l" and "length x = l"
  shows "(fs (soft_of x) \<bind> (\<lambda>x. gs x \<bind> (\<lambda>x. hs x \<bind> ks))) = map_option soft_of (f x \<bind> (\<lambda>x. g x \<bind> (\<lambda>x. h x \<bind> k)))"
  using soft_version_bind [OF assms(1,5) soft_version_bind [OF assms(2,6) soft_version_bind [OF assms(3,7,4)]]] assms(8)
  by (simp add: soft_version_def)

lemma interleaver_encode_soft_of:
  assumes "interleaver_ok q" and "length x = il_n q"
  shows "interleaver_encode_soft q (soft_of x) = map_option soft_of (interleaver_encode q x)"
  unfolding interleaver_encode_soft_def interleaver_encode_def Let_def assms(2)
  using assms(2)
  by (simp only: take_all_iff length_soft_of le_refl mult_le_mono2 take_all)
    (rule soft_version_chain [OF soft_version_if [where c = "il_depth q > 0", OF interleaver_soft_passes(1)]
      soft_version_if [where c = "il_depth q > 1", OF interleaver_soft_passes(2)]
      soft_version_if [where c = "il_depth q > 2", OF interleaver_soft_passes(2)]
      soft_version_if [where c = "il_depth q > 3", OF interleaver_soft_passes(2)]
      undoes_if [where c = "il_depth q > 0", OF interleaver_passes_undo(1)]
      undoes_if [where c = "il_depth q > 1", OF interleaver_passes_undo(2)]
      undoes_if [where c = "il_depth q > 2", OF interleaver_passes_undo(2)]];
     (rule assms)?)

lemma interleaver_decode_soft_of:
  assumes "interleaver_ok q" and "length x = il_n q"
  shows "interleaver_decode_soft q (soft_of x) = map_option soft_of (interleaver_decode q x)"
  unfolding interleaver_decode_soft_def interleaver_decode_def Let_def assms(2)
  using assms(2)
  by (simp only: take_all_iff length_soft_of le_refl mult_le_mono2 take_all)
    (rule soft_version_chain [OF soft_version_if [where c = "il_depth q > 3", OF interleaver_soft_passes(2)]
      soft_version_if [where c = "il_depth q > 2", OF interleaver_soft_passes(2)]
      soft_version_if [where c = "il_depth q > 1", OF interleaver_soft_passes(2)]
      soft_version_if [where c = "il_depth q > 0", OF interleaver_soft_passes(1)]
      undoes_if [where c = "il_depth q > 3", OF interleaver_passes_undo(2)]
      undoes_if [where c = "il_depth q > 2", OF interleaver_passes_undo(2)]
      undoes_if [where c = "il_depth q > 1", OF interleaver_passes_undo(2)]];
     (rule assms)?)

section \<open>Properties\<close>

text \<open>The unbounded search in every pass ends. For the dimensions \<open>interleaver_create\<close> computes, with any
  number of columns added, a pass runs to its end and performs exactly the swaps of the pairs \<open>(i, j)\<close>, \<open>i\<close>
  counting up to half the length, where the \<open>j\<close> that the search finds are all the indices below half the
  length, each once; this holds although the column counter starts at \<open>n / 3\<close>, which can lie outside the table.\<close>
theorem interleaver_pass_terminates:
  "\<exists>ps. map fst ps = [0..<n div 2] \<and> distinct (map snd ps) \<and> set (map snd ps) = {..<n div 2} \<and>
    (\<forall>swap x. permute_loop swap (il_M (interleaver_create n)) (il_N (interleaver_create n) + e) (n div 2)
      [0..<n div 2] 0 (n div 3) x = Some (swap_all swap ps x))"
proof -
  note dims = interleaver_pass_dims(1) [OF interleaver_create_ok [of n]]
    interleaver_pass_dims(2,3) [OF interleaver_create_ok [of n], where e = e]
  have "il_n (interleaver_create n) = n" by (simp add: interleaver_create_def Let_def)
  with dims permute_loop_pairs [of "il_M (interleaver_create n)" "il_N (interleaver_create n) + e" "n div 2" "n div 3"]
  obtain ps where ps: "pass_pairs (n div 2) ps" and run: "\<forall>swap x. permute_loop swap (il_M (interleaver_create n))
      (il_N (interleaver_create n) + e) (n div 2) [0..<n div 2] 0 (n div 3) x = Some (swap_all swap ps x)" by metis
  from ps obtain js where js: "ps = zip [0..<n div 2] js" "distinct js" "set js = {..<n div 2}"
    by (auto simp: pass_pairs_def)
  then have "length js = n div 2" using distinct_card [of js] by simp
  then have "map fst ps = [0..<n div 2]" "map snd ps = js" by (simp_all add: js(1))
  with js(2,3) run show ?thesis by (intro exI [of _ ps]) simp
qed



text \<open>On hard decisions the soft interleaver is the hard one: applied to the soft bits of an array (255 for a one,
  0 for a zero) it yields the soft bits of the array the hard interleaver yields, in both directions and at every
  depth. So the byte masks \<open>0x0f\<close>, \<open>0x55\<close> and \<open>0x33\<close> and the eight cells of a soft byte are used alike.\<close>
theorem interleaver_soft_agrees:
  fixes n depth :: nat
  defines "q \<equiv> interleaver_set_depth (interleaver_create n) depth"
  assumes "length msg = n"
  shows "interleaver_encode_soft q (soft_of msg) = map_option soft_of (interleaver_encode q msg) \<and>
    interleaver_decode_soft q (soft_of msg) = map_option soft_of (interleaver_decode q msg)"
proof -
  have ok: "interleaver_ok q" "il_n q = n"
    using interleaver_set_depth_ok [OF interleaver_create_ok]
    by (simp_all add: q_def) (simp add: interleaver_set_depth_def interleaver_create_def Let_def)
  show ?thesis
    using interleaver_encode_soft_of [OF ok(1), of msg] interleaver_decode_soft_of [OF ok(1), of msg]
      assms(2) by (simp add: ok(2))
qed

theorem interleaver_soft_agrees_witness:
  "interleaver_encode_soft (interleaver_set_depth (interleaver_create 2) 3) (soft_of [0x0f, 0xa5]) =
    map_option soft_of (interleaver_encode (interleaver_set_depth (interleaver_create 2) 3) [0x0f, 0xa5])"
  using interleaver_soft_agrees [of "[0x0f, 0xa5]" 2 3] by simp

end
