(* ===== verification/Fec_Codec.thy ===== *)
theory Fec_Codec
  imports Fec_Scheme Fec_Hamming_Table Fec_Golay Fec_Hamming128 Fec_Secded
begin

unbundle bit_operations_syntax

text \<open>
  \<^verbatim>\<open>liquid_dsp/src/fec/src/fec.c\<close>, the codec objects: a codec is a record with the function pointers
  that its \<^verbatim>\<open>create\<close> function sets, \<open>fec_create\<close> chooses it by scheme, and \<open>fec_encode\<close>,
  \<open>fec_decode\<close> and \<open>fec_decode_soft\<close> call through the pointers; a codec without a soft decoder packs
  the soft bits and decodes hard. The convolutional and Reed-Solomon codecs are built on libfec and
  are a parameter of \<open>fec_create\<close>. The contract of a codec is the locale \<open>fec_codec\<close>, which every
  codec of the library satisfies; what is built on codecs uses the contract alone.

  An encoder is given the length and the bytes of the message and what the output array held before,
  since one of them does not overwrite all of it; it gives what the output array holds afterwards.
\<close>

section \<open>Codec objects\<close>

record fec_s =
  fec_scheme_of :: fec_scheme
  fec_rate :: "nat \<times> nat"
  encode_func :: "nat \<Rightarrow> bytes \<Rightarrow> bytes \<Rightarrow> bytes option"
  decode_func :: "nat \<Rightarrow> bytes \<Rightarrow> bytes option"
  decode_soft_func :: "(nat \<Rightarrow> bytes \<Rightarrow> bytes option) option"

definition fec_pass_create :: fec_s where
  "fec_pass_create = \<lparr>fec_scheme_of = FEC_NONE, fec_rate = fec_get_rate FEC_NONE,
     encode_func = (\<lambda>n msg_dec _. Some (fec_pass_encode n msg_dec)),
     decode_func = (\<lambda>n msg_enc. Some (fec_pass_decode n msg_enc)),
     decode_soft_func = None\<rparr>"

definition fec_rep3_create :: fec_s where
  "fec_rep3_create = \<lparr>fec_scheme_of = FEC_REP3, fec_rate = fec_get_rate FEC_REP3,
     encode_func = (\<lambda>n msg_dec _. Some (fec_rep3_encode n msg_dec)),
     decode_func = (\<lambda>n msg_enc. Some (fec_rep3_decode n msg_enc)),
     decode_soft_func = Some (\<lambda>n msg_enc. Some (fec_rep3_decode_soft n msg_enc))\<rparr>"

definition fec_rep5_create :: fec_s where
  "fec_rep5_create = \<lparr>fec_scheme_of = FEC_REP5, fec_rate = fec_get_rate FEC_REP5,
     encode_func = (\<lambda>n msg_dec _. Some (fec_rep5_encode n msg_dec)),
     decode_func = (\<lambda>n msg_enc. Some (fec_rep5_decode n msg_enc)),
     decode_soft_func = Some (\<lambda>n msg_enc. Some (fec_rep5_decode_soft n msg_enc))\<rparr>"

definition fec_hamming74_create :: fec_s where
  "fec_hamming74_create = \<lparr>fec_scheme_of = FEC_HAMMING74, fec_rate = fec_get_rate FEC_HAMMING74,
     encode_func = fec_hamming74_encode,
     decode_func = fec_hamming74_decode,
     decode_soft_func = Some fec_hamming74_decode_soft\<rparr>"

definition fec_hamming84_create :: fec_s where
  "fec_hamming84_create = \<lparr>fec_scheme_of = FEC_HAMMING84, fec_rate = fec_get_rate FEC_HAMMING84,
     encode_func = (\<lambda>n msg_dec _. Some (fec_hamming84_encode n msg_dec)),
     decode_func = (\<lambda>n msg_enc. Some (fec_hamming84_decode n msg_enc)),
     decode_soft_func = Some fec_hamming84_decode_soft\<rparr>"

definition fec_hamming128_create :: fec_s where
  "fec_hamming128_create = \<lparr>fec_scheme_of = FEC_HAMMING128, fec_rate = fec_get_rate FEC_HAMMING128,
     encode_func = (\<lambda>n msg_dec _. fec_hamming128_encode n msg_dec),
     decode_func = fec_hamming128_decode,
     decode_soft_func = Some fec_hamming128_decode_soft\<rparr>"

definition fec_golay2412_create :: fec_s where
  "fec_golay2412_create = \<lparr>fec_scheme_of = FEC_GOLAY2412, fec_rate = fec_get_rate FEC_GOLAY2412,
     encode_func = (\<lambda>n msg_dec _. fec_golay2412_encode n msg_dec),
     decode_func = fec_golay2412_decode,
     decode_soft_func = None\<rparr>"

definition fec_secded2216_create :: fec_s where
  "fec_secded2216_create = \<lparr>fec_scheme_of = FEC_SECDED2216, fec_rate = fec_get_rate FEC_SECDED2216,
     encode_func = (\<lambda>n msg_dec _. fec_secded2216_encode n msg_dec),
     decode_func = fec_secded2216_decode,
     decode_soft_func = None\<rparr>"

definition fec_secded3932_create :: fec_s where
  "fec_secded3932_create = \<lparr>fec_scheme_of = FEC_SECDED3932, fec_rate = fec_get_rate FEC_SECDED3932,
     encode_func = (\<lambda>n msg_dec _. fec_secded3932_encode n msg_dec),
     decode_func = fec_secded3932_decode,
     decode_soft_func = None\<rparr>"

definition fec_secded7264_create :: fec_s where
  "fec_secded7264_create = \<lparr>fec_scheme_of = FEC_SECDED7264, fec_rate = fec_get_rate FEC_SECDED7264,
     encode_func = (\<lambda>n msg_dec _. fec_secded7264_encode n msg_dec),
     decode_func = fec_secded7264_decode,
     decode_soft_func = None\<rparr>"

text \<open>\<open>libfec_create\<close> stands for the three \<^verbatim>\<open>create\<close> functions of the codecs built on libfec.\<close>

definition fec_create :: "(fec_scheme \<Rightarrow> fec_s) \<Rightarrow> fec_scheme \<Rightarrow> fec_s option" where
  "fec_create libfec_create scheme = (case scheme of
     FEC_UNKNOWN \<Rightarrow> None
   | FEC_NONE \<Rightarrow> Some fec_pass_create
   | FEC_REP3 \<Rightarrow> Some fec_rep3_create
   | FEC_REP5 \<Rightarrow> Some fec_rep5_create
   | FEC_HAMMING74 \<Rightarrow> Some fec_hamming74_create
   | FEC_HAMMING84 \<Rightarrow> Some fec_hamming84_create
   | FEC_HAMMING128 \<Rightarrow> Some fec_hamming128_create
   | FEC_GOLAY2412 \<Rightarrow> Some fec_golay2412_create
   | FEC_SECDED2216 \<Rightarrow> Some fec_secded2216_create
   | FEC_SECDED3932 \<Rightarrow> Some fec_secded3932_create
   | FEC_SECDED7264 \<Rightarrow> Some fec_secded7264_create
   | _ \<Rightarrow> Some (libfec_create scheme))"

definition fec_recreate :: "(fec_scheme \<Rightarrow> fec_s) \<Rightarrow> fec_s \<Rightarrow> fec_scheme \<Rightarrow> fec_s option" where
  "fec_recreate libfec_create q scheme =
     (if fec_scheme_of q \<noteq> scheme then fec_create libfec_create scheme else Some q)"

definition fec_encode :: "fec_s \<Rightarrow> nat \<Rightarrow> bytes \<Rightarrow> bytes \<Rightarrow> bytes option" where
  "fec_encode q dec_msg_len msg_dec msg_enc = encode_func q dec_msg_len msg_dec msg_enc"

definition fec_decode :: "fec_s \<Rightarrow> nat \<Rightarrow> bytes \<Rightarrow> bytes option" where
  "fec_decode q dec_msg_len msg_enc = decode_func q dec_msg_len msg_enc"

text \<open>The hard decision on eight soft bits: their most significant bits.\<close>

definition hard_byte :: "bytes \<Rightarrow> nat \<Rightarrow> u8" where
  "hard_byte msg_enc i =
     (drop_bit 0 (msg_enc ! (8 * i + 0)) AND 0x80) OR
     (drop_bit 1 (msg_enc ! (8 * i + 1)) AND 0x40) OR
     (drop_bit 2 (msg_enc ! (8 * i + 2)) AND 0x20) OR
     (drop_bit 3 (msg_enc ! (8 * i + 3)) AND 0x10) OR
     (drop_bit 4 (msg_enc ! (8 * i + 4)) AND 0x08) OR
     (drop_bit 5 (msg_enc ! (8 * i + 5)) AND 0x04) OR
     (drop_bit 6 (msg_enc ! (8 * i + 6)) AND 0x02) OR
     (drop_bit 7 (msg_enc ! (8 * i + 7)) AND 0x01)"

definition fec_decode_soft :: "fec_s \<Rightarrow> nat \<Rightarrow> bytes \<Rightarrow> bytes option" where
  "fec_decode_soft q dec_msg_len msg_enc = (case decode_soft_func q of
     Some decode_soft \<Rightarrow> decode_soft dec_msg_len msg_enc
   | None \<Rightarrow> do {
       enc_msg_len \<leftarrow> fec_get_enc_msg_length (fec_scheme_of q) dec_msg_len;
       let msg_enc_hard = map (hard_byte msg_enc) [0..<enc_msg_len];
       fec_decode q dec_msg_len msg_enc_hard
     })"

section \<open>The contract of a codec\<close>

text \<open>
  What the users of a codec rely on: encoding a message of bounded length ends and gives an array of
  the announced length, and from every received array that the code can correct, the encoded array
  itself among them, decoding gives the message.
\<close>

locale fec_codec =
  fixes q :: fec_s and correctable :: "nat \<Rightarrow> bytes \<Rightarrow> bytes \<Rightarrow> bool"
  assumes encode_total: "n < msg_bound \<Longrightarrow> length msg = n \<Longrightarrow> fec_get_enc_msg_length (fec_scheme_of q) n = Some l \<Longrightarrow>
      length target = l \<Longrightarrow> \<exists>out. fec_encode q n msg target = Some out \<and> length out = l \<and> correctable n out out"
    and decode_corrects: "n < msg_bound \<Longrightarrow> length msg = n \<Longrightarrow> fec_get_enc_msg_length (fec_scheme_of q) n = Some l \<Longrightarrow>
      length target = l \<Longrightarrow> fec_encode q n msg target = Some out \<Longrightarrow> length rx = l \<Longrightarrow> correctable n out rx \<Longrightarrow>
      fec_decode q n rx = Some msg"
begin

lemma decode_encode:
  assumes "n < msg_bound" and "length msg = n" and "fec_get_enc_msg_length (fec_scheme_of q) n = Some l"
    and "length target = l"
  shows "\<exists>out. fec_encode q n msg target = Some out \<and> length out = l \<and> correctable n out out \<and>
    (\<forall>rx. length rx = l \<and> correctable n out rx \<longrightarrow> fec_decode q n rx = Some msg)"
  using encode_total [OF assms] decode_corrects [OF assms] by blast

end

text \<open>
  The contract with the soft decoder: for the lengths that \<open>soft_ok\<close> admits, decoding the soft bits
  of a received array gives the message as well.
\<close>

locale fec_soft_codec = fec_codec +
  fixes soft_ok :: "nat \<Rightarrow> bool"
  assumes decode_soft_corrects: "n < msg_bound \<Longrightarrow> length msg = n \<Longrightarrow> fec_get_enc_msg_length (fec_scheme_of q) n = Some l \<Longrightarrow>
      length target = l \<Longrightarrow> fec_encode q n msg target = Some out \<Longrightarrow> length rx = l \<Longrightarrow> correctable n out rx \<Longrightarrow>
      soft_ok n \<Longrightarrow> fec_decode_soft q n (soft_of rx) = Some msg"

text \<open>A codec that packs the soft bits: its soft decoder needs no proof of its own.\<close>

lemma soft_cell: 
  "drop_bit 0 (if b then 0xff else 0 :: u8) AND 0x80 = push_bit 7 (of_bool b)"
  "drop_bit 1 (if b then 0xff else 0 :: u8) AND 0x40 = push_bit 6 (of_bool b)"
  "drop_bit 2 (if b then 0xff else 0 :: u8) AND 0x20 = push_bit 5 (of_bool b)"
  "drop_bit 3 (if b then 0xff else 0 :: u8) AND 0x10 = push_bit 4 (of_bool b)"
  "drop_bit 4 (if b then 0xff else 0 :: u8) AND 0x08 = push_bit 3 (of_bool b)"
  "drop_bit 5 (if b then 0xff else 0 :: u8) AND 0x04 = push_bit 2 (of_bool b)"
  "drop_bit 6 (if b then 0xff else 0 :: u8) AND 0x02 = push_bit 1 (of_bool b)"
  "drop_bit 7 (if b then 0xff else 0 :: u8) AND 0x01 = of_bool b"
  by (cases b; simp)+
lemma hard_byte_soft_of: "i < length rx \<Longrightarrow> hard_byte (soft_of rx) i = rx ! i"
proof -
  assume i: "i < length rx"
  have soft: "soft_of rx ! (8 * i + 0) = (if bit (rx ! i) 7 then 0xff else 0)"
    "soft_of rx ! (8 * i + 1) = (if bit (rx ! i) 6 then 0xff else 0)"
    "soft_of rx ! (8 * i + 2) = (if bit (rx ! i) 5 then 0xff else 0)"
    "soft_of rx ! (8 * i + 3) = (if bit (rx ! i) 4 then 0xff else 0)"
    "soft_of rx ! (8 * i + 4) = (if bit (rx ! i) 3 then 0xff else 0)"
    "soft_of rx ! (8 * i + 5) = (if bit (rx ! i) 2 then 0xff else 0)"
    "soft_of rx ! (8 * i + 6) = (if bit (rx ! i) 1 then 0xff else 0)"
    "soft_of rx ! (8 * i + 7) = (if bit (rx ! i) 0 then 0xff else 0)"
    using soft_of_byte [OF i, of 0] soft_of_byte [OF i, of 1] soft_of_byte [OF i, of 2] soft_of_byte [OF i, of 3]
      soft_of_byte [OF i, of 4] soft_of_byte [OF i, of 5] soft_of_byte [OF i, of 6] soft_of_byte [OF i, of 7]
    by simp_all
  show ?thesis
    unfolding hard_byte_def soft soft_cell
    by (subst (9) u8_of_bits) (simp only: ac_simps)
qed

lemma fec_decode_soft_packed:
  assumes "decode_soft_func q = None" and "fec_get_enc_msg_length (fec_scheme_of q) n = Some (length rx)"
  shows "fec_decode_soft q n (soft_of rx) = fec_decode q n rx"
proof -
  have "map (hard_byte (soft_of rx)) [0..<length rx] = rx"
    by (rule nth_equalityI) (simp_all add: hard_byte_soft_of)
  with assms show ?thesis by (simp add: fec_decode_soft_def)
qed

lemma fec_soft_codec_packed:
  assumes "fec_codec q correctable" and "decode_soft_func q = None"
  shows "fec_soft_codec q correctable soft_ok"
  using fec_decode_soft_packed [OF assms(2)] fec_codec.decode_corrects [OF assms(1)]
  by (intro fec_soft_codec.intro [OF assms(1)] fec_soft_codec_axioms.intro) auto

section \<open>Every codec satisfies the contract\<close>

fun fec_correctable :: "fec_scheme \<Rightarrow> nat \<Rightarrow> bytes \<Rightarrow> bytes \<Rightarrow> bool" where
  "fec_correctable FEC_REP3 n out rx = (\<forall>i < n. \<forall>j < 8. wrong_copies 3 n out rx i j \<le> 1)"
| "fec_correctable FEC_REP5 n out rx = (\<forall>i < n. \<forall>j < 8. wrong_copies 5 n out rx i j \<le> 2)"
| "fec_correctable FEC_HAMMING74 n out rx = (\<forall>t < 2 * n. stream_errors 7 out rx (7 * t) \<le> 1)"
| "fec_correctable FEC_HAMMING84 n out rx = (\<forall>t < 2 * n. ones (out ! t XOR rx ! t) \<le> 1)"
| "fec_correctable FEC_HAMMING128 n out rx = (\<forall>t < n. stream_errors 12 out rx (12 * t) \<le> 1)"
| "fec_correctable FEC_GOLAY2412 n out rx = (\<forall>t < length out div 3. stream_errors 24 out rx (24 * t) \<le> 3)"
| "fec_correctable FEC_SECDED2216 n out rx = secded_correctable 2 6 n out rx"
| "fec_correctable FEC_SECDED3932 n out rx = secded_correctable 4 7 n out rx"
| "fec_correctable FEC_SECDED7264 n out rx = secded_correctable 8 8 n out rx"
| "fec_correctable scheme n out rx = (rx = out)"

fun fec_soft_ok :: "fec_scheme \<Rightarrow> nat \<Rightarrow> bool" where
  "fec_soft_ok FEC_HAMMING74 n = (n mod 4 = 0)"
| "fec_soft_ok scheme n = True"

lemma wrong_copies_cong:
  "(\<And>i. i < n \<Longrightarrow> xs ! i = ys ! i) \<Longrightarrow> i < n \<Longrightarrow> wrong_copies k n xs rx i j = wrong_copies k n ys rx i j"
  by (simp add: wrong_copies_def)

lemma correctable_same:
  "scheme \<noteq> FEC_REP3 \<Longrightarrow> scheme \<noteq> FEC_REP5 \<Longrightarrow> fec_correctable scheme n out out"
  by (cases scheme) (auto simp: stream_errors_same secded_correctable_def secded_errors_def secded_diff_def)

lemma rep_length: "n < msg_bound \<Longrightarrow> wrap32 (3 * n) = 3 * n" "n < msg_bound \<Longrightarrow> wrap32 (5 * n) = 5 * n"
  by simp_all

lemma rep_encode_front:
  "length msg = n \<Longrightarrow> i < n \<Longrightarrow> fec_rep3_encode n msg ! i = msg ! i"
  "length msg = n \<Longrightarrow> i < n \<Longrightarrow> fec_rep5_encode n msg ! i = msg ! i"
  using rep_encode_nth(1) [of msg n i 0] rep_encode_nth(2) [of msg n i 0] by simp_all

interpretation pass: fec_soft_codec fec_pass_create "fec_correctable FEC_NONE" "fec_soft_ok FEC_NONE"
proof (rule fec_soft_codec_packed)
  show "fec_codec fec_pass_create (fec_correctable FEC_NONE)"
    by unfold_locales
      (auto simp: fec_encode_def fec_decode_def fec_pass_create_def fec_pass_encode_def fec_pass_decode_def)
qed (simp add: fec_pass_create_def)

interpretation rep3: fec_soft_codec fec_rep3_create "fec_correctable FEC_REP3" "fec_soft_ok FEC_REP3"
proof (unfold_locales, goal_cases)
  case (1 n msg l target)
  then show ?case
    using wrong_copies_encode(1) [OF 1(2), of _ "[]"] wrong_copies_cong [of n "fec_rep3_encode n msg" msg]
    by (auto simp: fec_encode_def fec_rep3_create_def rep_encode_front)
next
  case (2 n msg l target out rx)
  then show ?case
    using rep3_majority [OF 2(2), of rx] wrong_copies_cong [of n "fec_rep3_encode n msg" msg]
    by (auto simp: fec_encode_def fec_decode_def fec_rep3_create_def rep_encode_front)
next
  case (3 n msg l target out rx)
  then show ?case
    using rep3_majority [OF 3(2), of rx] rep3_soft_hard [of rx n] wrong_copies_cong [of n "fec_rep3_encode n msg" msg]
    by (auto simp: fec_encode_def fec_decode_soft_def fec_rep3_create_def rep_encode_front)
qed

interpretation rep5: fec_soft_codec fec_rep5_create "fec_correctable FEC_REP5" "fec_soft_ok FEC_REP5"
proof (unfold_locales, goal_cases)
  case (1 n msg l target)
  then show ?case
    using wrong_copies_encode(2) [OF 1(2), of _ "[]"] wrong_copies_cong [of n "fec_rep5_encode n msg" msg]
    by (auto simp: fec_encode_def fec_rep5_create_def rep_encode_front)
next
  case (2 n msg l target out rx)
  then show ?case
    using rep5_majority [OF 2(2), of rx] wrong_copies_cong [of n "fec_rep5_encode n msg" msg]
    by (auto simp: fec_encode_def fec_decode_def fec_rep5_create_def rep_encode_front)
next
  case (3 n msg l target out rx)
  then show ?case
    using rep5_majority [OF 3(2), of rx] rep5_soft_hard [of rx n] wrong_copies_cong [of n "fec_rep5_encode n msg" msg]
    by (auto simp: fec_encode_def fec_decode_soft_def fec_rep5_create_def rep_encode_front)
qed

interpretation hamming74: fec_soft_codec fec_hamming74_create "fec_correctable FEC_HAMMING74" "fec_soft_ok FEC_HAMMING74"
proof (unfold_locales, goal_cases)
  case (1 n msg l target)
  then have "l = ceil_div (14 * n) 8" by (simp add: fec_hamming74_create_def h74_enc_len)
  with 1 fec_hamming74_encode_stream [OF 1(1), of target msg] show ?case
    by (auto simp: fec_encode_def fec_hamming74_create_def stream_errors_same)
next
  case (2 n msg l target out rx)
  then have "l = ceil_div (14 * n) 8" by (simp add: fec_hamming74_create_def h74_enc_len)
  with 2 fec_hamming74_corrects [OF 2(1,2), of target out rx] show ?case
    by (auto simp: fec_encode_def fec_decode_def fec_hamming74_create_def)
next
  case (3 n msg l target out rx)
  then have "l = ceil_div (14 * n) 8" by (simp add: fec_hamming74_create_def h74_enc_len)
  with 3 fec_hamming74_encode_stream [OF 3(1), of target msg] fec_hamming74_soft_corrects [OF 3(1) _ 3(2), of target out rx]
  show ?case by (auto simp: fec_encode_def fec_decode_soft_def fec_hamming74_create_def)
qed

lemma h84_enc_len: "n < msg_bound \<Longrightarrow> fec_block_get_enc_msg_len n 4 8 = Some (2 * n)"
  using fec_block_len [of n 4 8] ceil_div_mult [of 4 "2 * n"] ceil_div_mult [of 8 "2 * n"]
  by (simp add: mult.commute)

lemma length_h84_encode: "length (fec_hamming84_encode n msg) = 2 * n"
  unfolding fec_hamming84_encode_def by (subst length_concat_uniform [where k = 2]) (simp_all add: Let_def)

interpretation hamming84: fec_soft_codec fec_hamming84_create "fec_correctable FEC_HAMMING84" "fec_soft_ok FEC_HAMMING84"
proof (unfold_locales, goal_cases)
  case (1 n msg l target)
  then show ?case
    by (auto simp: fec_encode_def fec_hamming84_create_def h84_enc_len length_h84_encode)
next
  case (2 n msg l target out rx)
  then show ?case using fec_hamming84_corrects [OF 2(2), of rx]
    by (auto simp: fec_encode_def fec_decode_def fec_hamming84_create_def)
next
  case (3 n msg l target out rx)
  then show ?case using fec_hamming84_soft_corrects [OF 3(1,2), of rx]
    by (auto simp: fec_encode_def fec_decode_soft_def fec_hamming84_create_def h84_enc_len)
qed

lemma h128_total:
  "n < msg_bound \<Longrightarrow> fec_get_enc_msg_length FEC_HAMMING128 n = Some l \<Longrightarrow>
    \<exists>out. fec_hamming128_encode n msg = Some out \<and> length out = l"
  using fec_hamming128_encode_Some [of n msg] h128_enc_len [of n] by (auto simp: h128_stream_length)

interpretation hamming128: fec_soft_codec fec_hamming128_create "fec_correctable FEC_HAMMING128" "fec_soft_ok FEC_HAMMING128"
proof (unfold_locales, goal_cases)
  case (1 n msg l target)
  then have "fec_get_enc_msg_length FEC_HAMMING128 n = Some l" by (simp add: fec_hamming128_create_def)
  from h128_total [OF 1(1) this] show ?case
    by (auto simp: fec_encode_def fec_hamming128_create_def stream_errors_same)
next
  case (2 n msg l target out rx)
  then show ?case using fec_hamming128_decode_corrects [OF 2(1,2), of out rx]
    by (simp add: fec_encode_def fec_decode_def fec_hamming128_create_def)
next
  case (3 n msg l target out rx)
  then have "fec_get_enc_msg_length FEC_HAMMING128 n = Some l" "fec_hamming128_encode n msg = Some out"
    by (simp_all add: fec_hamming128_create_def fec_encode_def)
  with h128_total [OF 3(1), of l msg] 3 have "length rx = length out" by auto
  with 3 show ?case using fec_hamming128_decode_soft_corrects [OF 3(1,2), of out rx]
    by (simp add: fec_encode_def fec_decode_soft_def fec_hamming128_create_def)
qed

interpretation golay: fec_soft_codec fec_golay2412_create "fec_correctable FEC_GOLAY2412" "fec_soft_ok FEC_GOLAY2412"
proof (rule fec_soft_codec_packed)
  show "fec_codec fec_golay2412_create (fec_correctable FEC_GOLAY2412)"
  proof (unfold_locales, goal_cases)
    case (1 n msg l target)
    then have "l = 3 * golay_blocks n" using golay_enc_len [OF 1(1)] by (simp add: fec_golay2412_create_def)
    with golay_encode_symbols [OF 1(1), of msg] show ?case
      by (simp add: fec_encode_def fec_golay2412_create_def stream_errors_same)
  next
    case (2 n msg l target out rx)
    then have "out = golay_stream n msg"
      using golay_encode_symbols [OF 2(1), of msg] by (simp add: fec_encode_def fec_golay2412_create_def)
    with 2 golay_decode_symbols [OF 2(1,2), of rx] show ?case
      by (simp add: fec_decode_def fec_golay2412_create_def)
  qed
qed (simp add: fec_golay2412_create_def)

interpretation secded22: fec_soft_codec fec_secded2216_create "fec_correctable FEC_SECDED2216" "fec_soft_ok FEC_SECDED2216"
proof (rule fec_soft_codec_packed)
  show "fec_codec fec_secded2216_create (fec_correctable FEC_SECDED2216)"
  proof (unfold_locales, goal_cases)
    case (1 n msg l target)
    then have "l = n + ceil_div n 2" using secded2216_len [OF 1(1)] by (simp add: fec_secded2216_create_def)
    with fec_secded2216_encode_blocks [OF 1(1,2)] 1(2) correctable_same [of FEC_SECDED2216 n] show ?case
      by (simp add: fec_encode_def fec_secded2216_create_def length_sd_encode_blocks)
  next
    case (2 n msg l target out rx)
    then have "l = n + ceil_div n 2" using secded2216_len [OF 2(1)] by (simp add: fec_secded2216_create_def)
    with 2 fec_secded2216_encode_blocks [OF 2(1,2)] fec_secded2216_decode_blocks [OF 2(1), of rx]
      secded2216.decode_blocks_correct [OF 2(2)] show ?case
      by (auto simp: fec_encode_def fec_decode_def fec_secded2216_create_def secded_correctable_def)
  qed
qed (simp add: fec_secded2216_create_def)

interpretation secded39: fec_soft_codec fec_secded3932_create "fec_correctable FEC_SECDED3932" "fec_soft_ok FEC_SECDED3932"
proof (rule fec_soft_codec_packed)
  show "fec_codec fec_secded3932_create (fec_correctable FEC_SECDED3932)"
  proof (unfold_locales, goal_cases)
    case (1 n msg l target)
    then have "l = n + ceil_div n 4" using secded3932_len [OF 1(1)] by (simp add: fec_secded3932_create_def)
    with fec_secded3932_encode_blocks [OF 1(1,2)] 1(2) correctable_same [of FEC_SECDED3932 n] show ?case
      by (simp add: fec_encode_def fec_secded3932_create_def length_sd_encode_blocks)
  next
    case (2 n msg l target out rx)
    then have "l = n + ceil_div n 4" using secded3932_len [OF 2(1)] by (simp add: fec_secded3932_create_def)
    with 2 fec_secded3932_encode_blocks [OF 2(1,2)] fec_secded3932_decode_blocks [OF 2(1), of rx]
      secded3932.decode_blocks_correct [OF 2(2)] show ?case
      by (auto simp: fec_encode_def fec_decode_def fec_secded3932_create_def secded_correctable_def)
  qed
qed (simp add: fec_secded3932_create_def)

interpretation secded72: fec_soft_codec fec_secded7264_create "fec_correctable FEC_SECDED7264" "fec_soft_ok FEC_SECDED7264"
proof (rule fec_soft_codec_packed)
  show "fec_codec fec_secded7264_create (fec_correctable FEC_SECDED7264)"
  proof (unfold_locales, goal_cases)
    case (1 n msg l target)
    then have "l = n + ceil_div n 8" using secded7264_len [OF 1(1)] by (simp add: fec_secded7264_create_def)
    with fec_secded7264_encode_blocks [OF 1(1,2)] 1(2) correctable_same [of FEC_SECDED7264 n] show ?case
      by (simp add: fec_encode_def fec_secded7264_create_def length_sd_encode_blocks)
  next
    case (2 n msg l target out rx)
    then have "l = n + ceil_div n 8" using secded7264_len [OF 2(1)] by (simp add: fec_secded7264_create_def)
    with 2 fec_secded7264_encode_blocks [OF 2(1,2)] fec_secded7264_decode_blocks [OF 2(1), of rx]
      secded7264.decode_blocks_correct [OF 2(2)] show ?case
      by (auto simp: fec_encode_def fec_decode_def fec_secded7264_create_def secded_correctable_def)
  qed
qed (simp add: fec_secded7264_create_def)

section \<open>Dispatch\<close>

text \<open>The schemes whose codecs are part of the library itself.\<close>

definition block_scheme :: "fec_scheme \<Rightarrow> bool" where
  "block_scheme scheme \<longleftrightarrow> scheme \<in> {FEC_NONE, FEC_REP3, FEC_REP5, FEC_HAMMING74, FEC_HAMMING84,
     FEC_HAMMING128, FEC_GOLAY2412, FEC_SECDED2216, FEC_SECDED3932, FEC_SECDED7264}"

lemma fec_create_codec:
  assumes "block_scheme scheme"
  shows "\<exists>q. fec_create L scheme = Some q \<and> fec_scheme_of q = scheme \<and>
    fec_soft_codec q (fec_correctable scheme) (fec_soft_ok scheme)"
  using assms unfolding block_scheme_def fec_create_def
  by (elim insertE emptyE)
    (simp_all add: pass.fec_soft_codec_axioms rep3.fec_soft_codec_axioms rep5.fec_soft_codec_axioms
      hamming74.fec_soft_codec_axioms hamming84.fec_soft_codec_axioms hamming128.fec_soft_codec_axioms
      golay.fec_soft_codec_axioms secded22.fec_soft_codec_axioms secded39.fec_soft_codec_axioms
      secded72.fec_soft_codec_axioms,
     simp_all add: fec_pass_create_def fec_rep3_create_def fec_rep5_create_def fec_hamming74_create_def
      fec_hamming84_create_def fec_hamming128_create_def fec_golay2412_create_def fec_secded2216_create_def
      fec_secded3932_create_def fec_secded7264_create_def)

text \<open>The lengths in closed form: at least as long as the message, at most five times as long and a bit
  more, and growing with the message.\<close>

fun block_len :: "fec_scheme \<Rightarrow> nat \<Rightarrow> nat" where
  "block_len FEC_REP3 n = 3 * n"
| "block_len FEC_REP5 n = 5 * n"
| "block_len FEC_HAMMING74 n = ceil_div (14 * n) 8"
| "block_len FEC_HAMMING84 n = 2 * n"
| "block_len FEC_HAMMING128 n = 3 * (n div 2) + 2 * (n mod 2)"
| "block_len FEC_GOLAY2412 n = 6 * (n div 3) + 3 * (n mod 3)"
| "block_len FEC_SECDED2216 n = n + ceil_div n 2"
| "block_len FEC_SECDED3932 n = n + ceil_div n 4"
| "block_len FEC_SECDED7264 n = n + ceil_div n 8"
| "block_len scheme n = n"

lemma block_scheme_length:
  assumes "block_scheme scheme" and "n < msg_bound"
  shows "fec_get_enc_msg_length scheme n = Some (block_len scheme n)"
  using assms(1) h128_enc_len [OF assms(2)] golay_enc_len [OF assms(2)] secded2216_len [OF assms(2)]
    secded3932_len [OF assms(2)] secded7264_len [OF assms(2)] assms(2)
  unfolding block_scheme_def
  by (elim insertE emptyE) (simp_all add: h74_enc_len h84_enc_len)

lemma ceil_div_le_self: "0 < b \<Longrightarrow> ceil_div n b \<le> n"
  by (simp add: ceil_div_le_iff)

lemma ceil_div_mono: "0 < b \<Longrightarrow> n \<le> m \<Longrightarrow> ceil_div n b \<le> ceil_div m b"
  using le_mult_ceil_div [of b m] by (simp add: ceil_div_le_iff)

lemma block_len_bounds: "n \<le> block_len scheme n" "block_len scheme n \<le> 5 * n + 8"
proof -
  note up = ceil_div_le_self [of 2 n] ceil_div_le_self [of 4 n] ceil_div_le_self [of 8 n]
  note h74 = le_mult_ceil_div [of 8 "14 * n"] ceil_div_mult_less [of 8 "14 * n"]
  have n: "n = 2 * (n div 2) + n mod 2" "n = 3 * (n div 3) + n mod 3" by simp_all
  show "n \<le> block_len scheme n"
    by (cases scheme; simp only: block_len.simps; (use h74 n in linarith))
  show "block_len scheme n \<le> 5 * n + 8"
    by (cases scheme; simp only: block_len.simps; (use up h74 n in linarith))
qed

lemma block_len_mono: "n \<le> m \<Longrightarrow> block_len scheme n \<le> block_len scheme m"
proof (cases scheme)
  case FEC_HAMMING128
  assume "n \<le> m"
  moreover have "3 * (k div 2) + 2 * (k mod 2) = k + (k + 1) div 2" for k :: nat
    by (cases "even k") (auto elim!: evenE oddE)
  ultimately have "3 * (n div 2) + 2 * (n mod 2) \<le> 3 * (m div 2) + 2 * (m mod 2)"
    by (simp add: add_mono div_le_mono)
  with FEC_HAMMING128 show ?thesis by simp
next
  case FEC_GOLAY2412
  assume "n \<le> m"
  then have "2 * n + n mod 3 \<le> 2 * m + m mod 3"
  proof (cases "n = m")
    case False
    with \<open>n \<le> m\<close> have "n + 1 \<le> m" by simp
    moreover have "n mod 3 < 3" by simp
    ultimately show ?thesis by linarith
  qed simp
  moreover have "6 * (k div 3) + 3 * (k mod 3) = 2 * k + k mod 3" for k :: nat
    using mult_div_mod_eq [of 3 k] by linarith
  ultimately show ?thesis by (simp only: FEC_GOLAY2412 block_len.simps)
qed (auto intro!: add_le_mono intro: ceil_div_mono)

section \<open>Properties\<close>



end
