(* ===== verification/Packetizer.thy ===== *)
theory Packetizer
  imports Crc Fec_Codec Interleaver
begin

unbundle bit_operations_syntax

text \<open>
  \<^verbatim>\<open>liquid_dsp/src/fec/src/packetizer.c\<close>: a packetizer appends the key of an error-detecting scheme to
  a message and passes it through two stages of a codec and an interleaver, ping-pong between two
  buffers; decoding runs the stages backwards and validates the key. The buffers are the two arrays
  that \<open>packetizer_create\<close> allocates, of arbitrary first contents. A write beyond the end of a buffer
  is an error of the program and gives \<open>None\<close>, as \<^verbatim>\<open>exit()\<close> does. Where a codec is called it is handed
  the part of a buffer that its length arguments cover.
\<close>

section \<open>State\<close>

record fecintlv_plan =
  dec_msg_len :: nat
  enc_msg_len :: nat
  plan_fs :: fec_scheme
  plan_f :: fec_s
  plan_q :: interleaver

record packetizer_s =
  msg_len :: nat
  packet_len :: nat
  check :: crc_scheme
  crc_length :: nat
  buffer_len :: nat
  buffer_0 :: bytes
  buffer_1 :: bytes
  plan_len :: nat
  plan :: "fecintlv_plan list"

definition write_buf :: "bytes \<Rightarrow> bytes \<Rightarrow> bytes option" where
  "write_buf buf xs = (if length xs \<le> length buf then Some (xs @ drop (length xs) buf) else None)"

section \<open>Lengths\<close>

definition packetizer_compute_enc_msg_len :: "nat \<Rightarrow> crc_scheme \<Rightarrow> fec_scheme \<Rightarrow> fec_scheme \<Rightarrow> nat option" where
  "packetizer_compute_enc_msg_len n crc fec0 fec1 = do {
     let k = wrap32 (n + crc_get_length crc);
     n0 \<leftarrow> fec_get_enc_msg_length fec0 k;
     fec_get_enc_msg_length fec1 n0
   }"

text \<open>The search for the length of the message; it is not bounded.\<close>

partial_function (option) dec_len_loop ::
  "nat \<Rightarrow> crc_scheme \<Rightarrow> fec_scheme \<Rightarrow> fec_scheme \<Rightarrow> nat \<Rightarrow> nat \<Rightarrow> nat option" where
  [code]: "dec_len_loop k crc fec0 fec1 n_hat k_hat =
     (if k_hat < k
      then do {
        k_hat \<leftarrow> packetizer_compute_enc_msg_len n_hat crc fec0 fec1;
        (if k_hat = k then Some n_hat
         else if k_hat > k then Some n_hat
         else dec_len_loop k crc fec0 fec1 (n_hat + 1) k_hat)
      }
      else Some 0)"

definition packetizer_compute_dec_msg_len :: "nat \<Rightarrow> crc_scheme \<Rightarrow> fec_scheme \<Rightarrow> fec_scheme \<Rightarrow> nat option" where
  "packetizer_compute_dec_msg_len k crc fec0 fec1 = dec_len_loop k crc fec0 fec1 0 0"

section \<open>Creation\<close>

definition make_plan :: "(fec_scheme \<Rightarrow> fec_s) \<Rightarrow> fec_scheme \<Rightarrow> nat \<Rightarrow> fecintlv_plan option" where
  "make_plan L fs n0 = do {
     enc_len \<leftarrow> fec_get_enc_msg_length fs n0;
     f \<leftarrow> fec_create L fs;
     let q = interleaver_create enc_len;
     let q = (if fs = FEC_NONE then interleaver_set_depth q 0 else q);
     Some \<lparr>dec_msg_len = n0, enc_msg_len = enc_len, plan_fs = fs, plan_f = f, plan_q = q\<rparr>
   }"

text \<open>\<open>mem0\<close> and \<open>mem1\<close> are what the allocated buffers hold at first.\<close>

definition packetizer_create ::
  "(fec_scheme \<Rightarrow> fec_s) \<Rightarrow> bytes \<Rightarrow> bytes \<Rightarrow> nat \<Rightarrow> crc_scheme \<Rightarrow> fec_scheme \<Rightarrow> fec_scheme \<Rightarrow> packetizer_s option" where
  "packetizer_create L mem0 mem1 n crc fec0 fec1 = do {
     len \<leftarrow> packetizer_compute_enc_msg_len n crc fec0 fec1;
     let n0 = wrap32 (n + crc_get_length crc);
     p0 \<leftarrow> make_plan L fec0 n0;
     p1 \<leftarrow> make_plan L fec1 (enc_msg_len p0);
     Some \<lparr>msg_len = n, packet_len = len, check = crc, crc_length = crc_get_length crc, buffer_len = len,
       buffer_0 = mem0, buffer_1 = mem1, plan_len = 2, plan = [p0, p1]\<rparr>
   }"

definition packetizer_recreate ::
  "(fec_scheme \<Rightarrow> fec_s) \<Rightarrow> bytes \<Rightarrow> bytes \<Rightarrow> packetizer_s option \<Rightarrow> nat \<Rightarrow> crc_scheme \<Rightarrow> fec_scheme \<Rightarrow> fec_scheme \<Rightarrow>
   packetizer_s option" where
  "packetizer_recreate L mem0 mem1 p n crc fec0 fec1 = (case p of
     None \<Rightarrow> packetizer_create L mem0 mem1 n crc fec0 fec1
   | Some q \<Rightarrow>
       if msg_len q = n \<and> check q = crc \<and> plan_fs (plan q ! 0) = fec0 \<and> plan_fs (plan q ! 1) = fec1
       then Some q
       else packetizer_create L mem0 mem1 n crc fec0 fec1)"

definition packetizer_get_dec_msg_len :: "packetizer_s \<Rightarrow> nat" where
  "packetizer_get_dec_msg_len p = msg_len p"

definition packetizer_get_enc_msg_len :: "packetizer_s \<Rightarrow> nat" where
  "packetizer_get_enc_msg_len p = packet_len p"

section \<open>Encoding and decoding\<close>

text \<open>The key, most significant byte first, behind the message.\<close>

fun append_key :: "nat \<Rightarrow> nat \<Rightarrow> nat list \<Rightarrow> u32 \<Rightarrow> bytes \<Rightarrow> bytes option" where
  "append_key mlen clen [] key buf = Some buf"
| "append_key mlen clen (i # is) key buf =
     (let a = mlen + clen - i - 1
      in if a < length buf
         then append_key mlen clen is (drop_bit 8 key) (buf[a := ucast (key AND 0xff)])
         else None)"

fun encode_plans :: "fecintlv_plan list \<Rightarrow> bytes \<Rightarrow> bytes \<Rightarrow> (bytes \<times> bytes) option" where
  "encode_plans [] buf0 buf1 = Some (buf0, buf1)"
| "encode_plans (p # ps) buf0 buf1 = do {
     out \<leftarrow> fec_encode (plan_f p) (dec_msg_len p) (take (dec_msg_len p) buf0) (take (enc_msg_len p) buf1);
     buf1 \<leftarrow> write_buf buf1 out;
     out \<leftarrow> interleaver_encode (plan_q p) buf1;
     buf0 \<leftarrow> write_buf buf0 out;
     encode_plans ps buf0 buf1
   }"

definition packetizer_encode :: "packetizer_s \<Rightarrow> bytes \<Rightarrow> (bytes \<times> packetizer_s) option" where
  "packetizer_encode p msg = do {
     buf0 \<leftarrow> write_buf (buffer_0 p) (take (msg_len p) msg);
     key \<leftarrow> crc_generate_key (check p) buf0 (msg_len p);
     buf0 \<leftarrow> append_key (msg_len p) (crc_length p) [0..<crc_length p] key buf0;
     (buf0, buf1) \<leftarrow> encode_plans (take (plan_len p) (plan p)) buf0 (buffer_1 p);
     Some (take (packet_len p) buf0, p\<lparr>buffer_0 := buf0, buffer_1 := buf1\<rparr>)
   }"

fun decode_plans :: "fecintlv_plan list \<Rightarrow> bytes \<Rightarrow> bytes \<Rightarrow> (bytes \<times> bytes) option" where
  "decode_plans [] buf0 buf1 = Some (buf0, buf1)"
| "decode_plans (p # ps) buf0 buf1 = do {
     out \<leftarrow> interleaver_decode (plan_q p) buf0;
     buf1 \<leftarrow> write_buf buf1 out;
     out \<leftarrow> fec_decode (plan_f p) (dec_msg_len p) (take (enc_msg_len p) buf1);
     buf0 \<leftarrow> write_buf buf0 out;
     decode_plans ps buf0 buf1
   }"

fun strip_key :: "nat \<Rightarrow> bytes \<Rightarrow> nat list \<Rightarrow> u32 \<Rightarrow> u32" where
  "strip_key mlen buf [] key = key"
| "strip_key mlen buf (i # is) key =
     strip_key mlen buf is (push_bit 8 key OR ucast (buf ! (mlen + i)))"

definition packetizer_decode :: "packetizer_s \<Rightarrow> bytes \<Rightarrow> (bytes \<times> bool \<times> packetizer_s) option" where
  "packetizer_decode p pkt = do {
     buf0 \<leftarrow> write_buf (buffer_0 p) (take (packet_len p) pkt);
     (buf0, buf1) \<leftarrow> decode_plans (rev (take (plan_len p) (plan p))) buf0 (buffer_1 p);
     let key = strip_key (msg_len p) buf0 [0..<crc_length p] 0;
     valid \<leftarrow> crc_validate_message (check p) buf0 (msg_len p) key;
     Some (take (msg_len p) buf0, valid, p\<lparr>buffer_0 := buf0, buffer_1 := buf1\<rparr>)
   }"

definition packetizer_decode_soft :: "packetizer_s \<Rightarrow> bytes \<Rightarrow> (bytes \<times> bool \<times> packetizer_s) option" where
  "packetizer_decode_soft p pkt = do {
     let p0 = plan p ! 0;
     let p1 = plan p ! 1;
     buf0 \<leftarrow> write_buf (buffer_0 p) (take (8 * packet_len p) pkt);
     out \<leftarrow> interleaver_decode_soft (plan_q p1) buf0;
     buf1 \<leftarrow> write_buf (buffer_1 p) out;
     out \<leftarrow> fec_decode_soft (plan_f p1) (dec_msg_len p1) (take (8 * enc_msg_len p1) buf1);
     buf0 \<leftarrow> write_buf buf0 out;
     out \<leftarrow> interleaver_decode (plan_q p0) buf0;
     buf1 \<leftarrow> write_buf buf1 out;
     out \<leftarrow> fec_decode (plan_f p0) (dec_msg_len p0) (take (enc_msg_len p0) buf1);
     buf0 \<leftarrow> write_buf buf0 out;
     let key = strip_key (msg_len p) buf0 [0..<crc_length p] 0;
     valid \<leftarrow> crc_validate_message (check p) buf0 (msg_len p) key;
     Some (take (msg_len p) buf0, valid, p\<lparr>buffer_0 := buf0, buffer_1 := buf1\<rparr>)
   }"

section \<open>The key behind the message\<close>

lemma write_buf_Some: "length xs \<le> length buf \<Longrightarrow> write_buf buf xs = Some (xs @ drop (length xs) buf)"
  by (simp add: write_buf_def)

lemma append_key_nth:
  assumes "j \<le> c" and "n + c \<le> length buf"
  shows "\<exists>out. append_key n c [j..<c] key buf = Some out \<and> length out = length buf \<and>
    (\<forall>p < length buf. out ! p = (if n \<le> p \<and> p < n + c - j then ucast (drop_bit (8 * (n + c - j - 1 - p)) key) else buf ! p))"
  using assms
proof (induction "c - j" arbitrary: j key buf)
  case 0
  then show ?case by auto
next
  case (Suc d)
  then have j: "j < c" by simp
  define buf' where "buf' = buf[n + c - j - 1 := (ucast (key AND 0xff) :: u8)]"
  have low: "(ucast (key AND 0xff) :: u8) = ucast key" by (simp add: and_255)
  have "d = c - Suc j" using Suc.hyps(2) by simp
  from Suc.hyps(1) [OF this, of buf' "drop_bit 8 key"] Suc.prems j
  obtain out where out: "append_key n c [Suc j..<c] (drop_bit 8 key) buf' = Some out" "length out = length buf"
    "\<forall>p < length buf. out ! p = (if n \<le> p \<and> p < n + c - Suc j
      then ucast (drop_bit (8 * (n + c - Suc j - 1 - p)) (drop_bit 8 key)) else buf' ! p)"
    by (auto simp: buf'_def)
  have "append_key n c [j..<c] key buf = Some out"
    using out(1) j Suc.prems(2) by (simp add: upt_conv_Cons buf'_def Let_def)
  moreover have "out ! p = (if n \<le> p \<and> p < n + c - j then ucast (drop_bit (8 * (n + c - j - 1 - p)) key) else buf ! p)"
    if p: "p < length buf" for p
  proof (cases "n \<le> p \<and> p < n + c - Suc j")
    case True
    then have "Suc (n + c - Suc j - 1 - p) = n + c - j - 1 - p" by linarith
    then have "8 * (n + c - Suc j - 1 - p) + 8 = 8 * (n + c - j - 1 - p)" by linarith
    then have "drop_bit (8 * (n + c - Suc j - 1 - p)) (drop_bit 8 key) = drop_bit (8 * (n + c - j - 1 - p)) key"
      by (simp only: drop_bit_drop_bit)
    moreover have "p < n + c - j" using True by linarith
    ultimately show ?thesis using out(3) p True by simp
  next
    case False
    then have "out ! p = buf' ! p" using out(3) p by auto
    also have "\<dots> = (if p = n + c - j - 1 then ucast key else buf ! p)" using p by (simp add: buf'_def low)
    also have "\<dots> = (if n \<le> p \<and> p < n + c - j then ucast (drop_bit (8 * (n + c - j - 1 - p)) key) else buf ! p)"
      using False j by auto
    finally show ?thesis .
  qed
  ultimately show ?case using out(2) by blast
qed

lemma append_key_bytes:
  assumes "n + c \<le> length buf"
  shows "append_key n c [0..<c] key buf = Some (take n buf @ word_bytes c key @ drop (n + c) buf)"
proof -
  from append_key_nth [of 0 c n buf key] assms obtain out where
    out: "append_key n c [0..<c] key buf = Some out" "length out = length buf"
      "\<And>p. p < length buf \<Longrightarrow> out ! p = (if n \<le> p \<and> p < n + c then ucast (drop_bit (8 * (n + c - 1 - p)) key) else buf ! p)"
    by auto
  have "out = take n buf @ word_bytes c key @ drop (n + c) buf"
  proof (rule nth_equalityI)
    show "length out = length (take n buf @ word_bytes c key @ drop (n + c) buf)" using out(2) assms by simp
    fix p assume "p < length out"
    then have p: "p < length buf" using out(2) by simp
    consider "p < n" | i where "p = n + i" "i < c" | "n + c \<le> p"
      by (metis add.commute le_Suc_ex less_or_eq_imp_le linorder_not_less nat_add_left_cancel_less)
    then show "out ! p = (take n buf @ word_bytes c key @ drop (n + c) buf) ! p"
    proof cases
      case 2
      then have "8 * (n + c - 1 - p) = 8 * (c - 1 - i)" by simp
      with 2 out(3) [OF p] assms show ?thesis by (simp add: nth_append word_bytes_def)
    qed (use out(3) [OF p] assms in \<open>auto simp: nth_append\<close>)
  qed
  with out(1) show ?thesis by simp
qed

lemma strip_key_bytes:
  assumes "\<And>i. i < c \<Longrightarrow> buf ! (n + i) = word_bytes c key ! i" and "take_bit (8 * c) key = key"
  shows "strip_key n buf [0..<c] 0 = key"
proof -
  have append: "strip_key n buf (is @ js) x = strip_key n buf js (strip_key n buf is x)" for "is" js x
    by (induction "is" arbitrary: x) simp_all
  have fits: "bit key i \<Longrightarrow> i < 8 * c" for i
    using assms(2) by (metis bit_take_bit_iff)
  have "strip_key n buf [0..<j] 0 = drop_bit (8 * (c - j)) key" if "j \<le> c" for j
    using that
  proof (induction j)
    case 0
    show ?case by (rule bit_word_eqI) (auto simp: bit_drop_bit_eq dest: fits)
  next
    case (Suc j)
    show ?case
    proof (rule bit_word_eqI)
      fix i :: nat assume i: "i < LENGTH(32)"
      have j: "strip_key n buf [0..<j] 0 = drop_bit (8 * (c - j)) key" "8 * (c - j) = 8 * (c - Suc j) + 8"
        using Suc by simp_all
      have "strip_key n buf [0..<Suc j] 0 = push_bit 8 (drop_bit (8 * (c - j)) key) OR ucast (word_bytes c key ! j)"
        using Suc.prems by (simp add: append j(1) assms(1))
      then have "bit (strip_key n buf [0..<Suc j] 0) i \<longleftrightarrow>
          (8 \<le> i \<and> bit key (8 * (c - j) + (i - 8))) \<or> (i < 8 \<and> bit key (8 * (c - 1 - j) + i))"
        using i Suc.prems
        by (auto simp only: bit_or_iff bit_push_bit_iff bit_drop_bit_eq bit_ucast_iff bit_word_bytes o_def possible_bit_word)
      also have "\<dots> \<longleftrightarrow> bit key (8 * (c - Suc j) + i)"
        using j(2) by (cases "8 \<le> i") simp_all
      finally show "bit (strip_key n buf [0..<Suc j] 0) i \<longleftrightarrow> bit (drop_bit (8 * (c - Suc j)) key) i"
        by (simp add: bit_drop_bit_eq)
    qed
  qed
  from this [of c] show ?thesis by simp
qed

section \<open>One stage\<close>

text \<open>What \<open>packetizer_create\<close> sets up for a stage of a scheme of the library itself.\<close>

definition plan_ok :: "fecintlv_plan \<Rightarrow> bool" where
  "plan_ok p \<longleftrightarrow> fec_soft_codec (plan_f p) (fec_correctable (plan_fs p)) (fec_soft_ok (plan_fs p)) \<and>
     fec_get_enc_msg_length (fec_scheme_of (plan_f p)) (dec_msg_len p) = Some (enc_msg_len p) \<and>
     dec_msg_len p < msg_bound \<and> dec_msg_len p \<le> enc_msg_len p \<and>
     interleaver_ok (plan_q p) \<and> il_n (plan_q p) = enc_msg_len p"

lemma make_plan_ok:
  assumes "block_scheme fs" and "n < msg_bound"
  shows "\<exists>p. make_plan L fs n = Some p \<and> plan_ok p \<and> dec_msg_len p = n \<and> enc_msg_len p = block_len fs n \<and> plan_fs p = fs"
proof -
  from fec_create_codec [OF assms(1)] obtain f where f: "fec_create L fs = Some f" "fec_scheme_of f = fs"
    "fec_soft_codec f (fec_correctable fs) (fec_soft_ok fs)" by blast
  have len: "fec_get_enc_msg_length fs n = Some (block_len fs n)" by (rule block_scheme_length [OF assms])
  have "il_n (interleaver_create m) = m" "il_n (interleaver_set_depth (interleaver_create m) 0) = m" for m
    by (simp_all add: interleaver_create_def interleaver_set_depth_def Let_def)
  with f len assms(2) show ?thesis
    by (simp add: make_plan_def plan_ok_def Let_def block_len_bounds interleaver_create_ok interleaver_set_depth_ok)
qed

text \<open>The array \<open>x\<close> carries \<open>data\<close> through a stage: what decoding needs to know of it.\<close>

definition carries :: "fecintlv_plan \<Rightarrow> bytes \<Rightarrow> bytes \<Rightarrow> bool" where
  "carries p data x \<longleftrightarrow> length data = dec_msg_len p \<and> length x = enc_msg_len p \<and>
     (\<exists>out. interleaver_decode (plan_q p) x = Some out \<and> length out = enc_msg_len p \<and>
       fec_correctable (plan_fs p) (dec_msg_len p) out out \<and>
       (\<forall>z. length z = enc_msg_len p \<and> fec_correctable (plan_fs p) (dec_msg_len p) out z \<longrightarrow>
         fec_decode (plan_f p) (dec_msg_len p) z = Some data \<and>
         (fec_soft_ok (plan_fs p) (dec_msg_len p) \<longrightarrow>
           fec_decode_soft (plan_f p) (dec_msg_len p) (soft_of z) = Some data)))"

lemma interleaver_prefix:
  "length x = il_n q \<Longrightarrow> interleaver_encode q (x @ ys) = interleaver_encode q x"
  "length x = il_n q \<Longrightarrow> interleaver_decode q (x @ ys) = interleaver_decode q x"
  "length s = 8 * il_n q \<Longrightarrow> interleaver_decode_soft q (s @ ys) = interleaver_decode_soft q s"
  by (simp_all add: interleaver_encode_def interleaver_decode_def interleaver_decode_soft_def)

lemma encode_stage:
  assumes "plan_ok p" and "enc_msg_len p \<le> length buf0" and "enc_msg_len p \<le> length buf1"
  shows "\<exists>x buf1'. encode_plans (p # ps) buf0 buf1 = encode_plans ps (x @ drop (enc_msg_len p) buf0) buf1' \<and>
    length buf1' = length buf1 \<and> carries p (take (dec_msg_len p) buf0) x"
proof -
  let ?n = "dec_msg_len p" and ?l = "enc_msg_len p" and ?data = "take (dec_msg_len p) buf0"
  from assms(1) have codec: "fec_soft_codec (plan_f p) (fec_correctable (plan_fs p)) (fec_soft_ok (plan_fs p))"
    and len: "fec_get_enc_msg_length (fec_scheme_of (plan_f p)) ?n = Some ?l"
    and n: "?n < msg_bound" "?n \<le> ?l" and q: "interleaver_ok (plan_q p)" "il_n (plan_q p) = ?l"
    by (simp_all add: plan_ok_def)
  have data: "length ?data = ?n" and target: "length (take ?l buf1) = ?l" using n(2) assms(2,3) by simp_all
  from fec_codec.decode_encode [OF fec_soft_codec.axioms(1) [OF codec] n(1) data len target] obtain out where
    out: "fec_encode (plan_f p) ?n ?data (take ?l buf1) = Some out" "length out = ?l"
      "fec_correctable (plan_fs p) ?n out out"
      "\<And>z. length z = ?l \<Longrightarrow> fec_correctable (plan_fs p) ?n out z \<Longrightarrow> fec_decode (plan_f p) ?n z = Some ?data" by blast
  from interleaver_encode_undone [OF q(1), of out] q(2) out(2) obtain x where
    x: "interleaver_encode (plan_q p) out = Some x" "length x = ?l" "interleaver_decode (plan_q p) x = Some out" by auto
  have "encode_plans (p # ps) buf0 buf1 = encode_plans ps (x @ drop ?l buf0) (out @ drop ?l buf1)"
    using out(1,2) x(1,2) q(2) assms(2,3) by (simp add: write_buf_Some interleaver_prefix)
  moreover have "carries p ?data x"
    using data x(2,3) out fec_soft_codec.decode_soft_corrects [OF codec n(1) data len target out(1)]
    unfolding carries_def by auto
  moreover have "length (out @ drop ?l buf1) = length buf1" using out(2) assms(3) by simp
  ultimately show ?thesis by blast
qed

text \<open>The received array differs from \<open>x\<close>, but after de-interleaving the code can correct the errors.\<close>

definition stage_correctable :: "fecintlv_plan \<Rightarrow> bytes \<Rightarrow> bytes \<Rightarrow> bool" where
  "stage_correctable p x rx \<longleftrightarrow> (\<exists>d e. interleaver_decode (plan_q p) x = Some d \<and> interleaver_decode (plan_q p) rx = Some e \<and>
     fec_correctable (plan_fs p) (dec_msg_len p) d e)"

lemma carries_correctable: "carries p data x \<Longrightarrow> stage_correctable p x x"
  by (auto simp: carries_def stage_correctable_def)

lemma carries_decodes:
  assumes "plan_ok p" and "carries p data x" and "length rx = enc_msg_len p" and "stage_correctable p x rx"
  shows "\<exists>e. interleaver_decode (plan_q p) rx = Some e \<and> length e = enc_msg_len p \<and>
    fec_decode (plan_f p) (dec_msg_len p) e = Some data \<and>
    interleaver_decode_soft (plan_q p) (soft_of rx) = Some (soft_of e) \<and>
    (fec_soft_ok (plan_fs p) (dec_msg_len p) \<longrightarrow> fec_decode_soft (plan_f p) (dec_msg_len p) (soft_of e) = Some data)"
proof -
  have q: "interleaver_ok (plan_q p)" "il_n (plan_q p) = length rx" using assms(1,3) by (simp_all add: plan_ok_def)
  from assms(4) obtain d e where de: "interleaver_decode (plan_q p) x = Some d" "interleaver_decode (plan_q p) rx = Some e"
    "fec_correctable (plan_fs p) (dec_msg_len p) d e" by (auto simp: stage_correctable_def)
  moreover have "length e = enc_msg_len p"
    using interleaver_decode_undone [OF q(1), of rx] de(2) q(2) assms(3) by auto
  ultimately show ?thesis
    using assms(2) interleaver_decode_soft_of [OF q(1), of rx] q(2) by (auto simp: carries_def)
qed

lemma decode_stage:
  assumes "plan_ok p" and "carries p data x" and "length rx = enc_msg_len p" and "stage_correctable p x rx"
    and "enc_msg_len p \<le> length buf1"
  shows "\<exists>buf1'. decode_plans (p # ps) (rx @ ys) buf1 =
    decode_plans ps (data @ drop (dec_msg_len p) (rx @ ys)) buf1' \<and> length buf1' = length buf1"
proof -
  from carries_decodes [OF assms(1-4)] obtain e where e: "interleaver_decode (plan_q p) rx = Some e"
    "length e = enc_msg_len p" "fec_decode (plan_f p) (dec_msg_len p) e = Some data" by blast
  have "il_n (plan_q p) = length rx" "dec_msg_len p \<le> length rx" "length data = dec_msg_len p"
    using assms(1-3) by (simp_all add: plan_ok_def carries_def)
  with e assms(3,5) show ?thesis
    by (intro exI [of _ "e @ drop (enc_msg_len p) buf1"]) (simp add: interleaver_prefix write_buf_Some)
qed

section \<open>The packetizer\<close>

text \<open>
  The invariant of a packetizer over codecs of the library: it is as \<open>packetizer_create\<close> made it, up
  to the contents of its buffers, which keep their size.
\<close>

abbreviation packet_bound :: nat where "packet_bound \<equiv> 2 ^ 22"

definition packetizer_inv :: "(fec_scheme \<Rightarrow> fec_s) \<Rightarrow> fec_scheme \<Rightarrow> fec_scheme \<Rightarrow> packetizer_s \<Rightarrow> bool" where
  "packetizer_inv L fec0 fec1 p \<longleftrightarrow>
     packetizer_create L (buffer_0 p) (buffer_1 p) (msg_len p) (check p) fec0 fec1 = Some p \<and>
     block_scheme fec0 \<and> block_scheme fec1 \<and> msg_len p < packet_bound \<and> check p \<noteq> CRC_UNKNOWN \<and>
     length (buffer_0 p) = 8 * packet_len p \<and> length (buffer_1 p) = 8 * packet_len p"

lemma crc_get_length_le: "crc_get_length scheme \<le> 4"
  by (cases scheme) simp_all

lemma packet_lengths:
  fixes crc :: crc_scheme
  assumes "n < packet_bound"
  defines "k \<equiv> n + crc_get_length crc"
  shows "wrap32 k = k" "k < msg_bound" "block_len fec0 k < msg_bound"
proof -
  have k: "k < 2 ^ 22 + 5" using assms crc_get_length_le [of crc] by simp
  then show "wrap32 k = k" "k < msg_bound" by simp_all
  have "block_len fec0 k \<le> 5 * k + 8" by (rule block_len_bounds)
  with k show "block_len fec0 k < msg_bound" by simp
qed

lemma enc_msg_len_closed:
  assumes "block_scheme fec0" and "block_scheme fec1" and "n < packet_bound"
  shows "packetizer_compute_enc_msg_len n crc fec0 fec1 = Some (block_len fec1 (block_len fec0 (n + crc_get_length crc)))"
  using packet_lengths [OF assms(3)] assms(1,2) by (simp add: packetizer_compute_enc_msg_len_def block_scheme_length)

lemma packetizer_plans:
  assumes "block_scheme fec0" and "block_scheme fec1" and "n < packet_bound"
  shows "\<exists>p0 p1. make_plan L fec0 (n + crc_get_length crc) = Some p0 \<and> make_plan L fec1 (enc_msg_len p0) = Some p1 \<and>
    plan_ok p0 \<and> plan_ok p1 \<and> dec_msg_len p0 = n + crc_get_length crc \<and> dec_msg_len p1 = enc_msg_len p0 \<and>
    enc_msg_len p1 = block_len fec1 (block_len fec0 (n + crc_get_length crc)) \<and> plan_fs p0 = fec0 \<and> plan_fs p1 = fec1 \<and>
    packetizer_create L mem0 mem1 n crc fec0 fec1 = Some \<lparr>msg_len = n, packet_len = enc_msg_len p1, check = crc,
      crc_length = crc_get_length crc, buffer_len = enc_msg_len p1, buffer_0 = mem0, buffer_1 = mem1, plan_len = 2, plan = [p0, p1]\<rparr>"
proof -
  note lens = packet_lengths [OF assms(3), where crc = crc]
  from make_plan_ok [OF assms(1) lens(2), of L] obtain p0 where
    p0: "make_plan L fec0 (n + crc_get_length crc) = Some p0" "plan_ok p0" "dec_msg_len p0 = n + crc_get_length crc"
      "enc_msg_len p0 = block_len fec0 (n + crc_get_length crc)" "plan_fs p0 = fec0" by blast
  from make_plan_ok [OF assms(2) lens(3), of L fec0] obtain p1 where
    p1: "make_plan L fec1 (enc_msg_len p0) = Some p1" "plan_ok p1" "dec_msg_len p1 = enc_msg_len p0"
      "enc_msg_len p1 = block_len fec1 (enc_msg_len p0)" "plan_fs p1 = fec1" unfolding p0(4) by blast
  with p0 lens(1) enc_msg_len_closed [OF assms, of crc] show ?thesis
    by (simp add: packetizer_create_def Let_def)
qed

lemma packetizer_inv_parts:
  assumes "packetizer_inv L fec0 fec1 p"
  shows "\<exists>p0 p1. plan p = [p0, p1] \<and> plan_len p = 2 \<and> crc_length p = crc_get_length (check p) \<and> plan_ok p0 \<and> plan_ok p1 \<and>
    plan_fs p0 = fec0 \<and> plan_fs p1 = fec1 \<and> dec_msg_len p0 = msg_len p + crc_get_length (check p) \<and>
    dec_msg_len p1 = enc_msg_len p0 \<and> enc_msg_len p1 = packet_len p \<and> check p \<noteq> CRC_UNKNOWN \<and>
    length (buffer_0 p) = 8 * packet_len p \<and> length (buffer_1 p) = 8 * packet_len p"
proof -
  from assms have bs: "block_scheme fec0" "block_scheme fec1" "msg_len p < packet_bound"
    and p: "packetizer_create L (buffer_0 p) (buffer_1 p) (msg_len p) (check p) fec0 fec1 = Some p"
    and rest: "check p \<noteq> CRC_UNKNOWN" "length (buffer_0 p) = 8 * packet_len p" "length (buffer_1 p) = 8 * packet_len p"
    by (simp_all add: packetizer_inv_def)
  from packetizer_plans [OF bs, of L "check p" "buffer_0 p" "buffer_1 p"] p obtain p0 p1 where
    "p = \<lparr>msg_len = msg_len p, packet_len = enc_msg_len p1, check = check p,
      crc_length = crc_get_length (check p), buffer_len = enc_msg_len p1, buffer_0 = buffer_0 p, buffer_1 = buffer_1 p,
      plan_len = 2, plan = [p0, p1]\<rparr>" (is "p = ?q")
    and ok: "plan_ok p0" "plan_ok p1" "dec_msg_len p0 = msg_len p + crc_get_length (check p)" "dec_msg_len p1 = enc_msg_len p0"
      "plan_fs p0 = fec0" "plan_fs p1 = fec1" by auto
  then have "plan p = plan ?q" "plan_len p = plan_len ?q" "crc_length p = crc_length ?q" "packet_len p = packet_len ?q" by metis+
  with ok rest show ?thesis by simp
qed

lemma packetizer_inv_buffers:
  "packetizer_inv L fec0 fec1 p \<Longrightarrow> length b0 = 8 * packet_len p \<Longrightarrow> length b1 = 8 * packet_len p \<Longrightarrow>
    packetizer_inv L fec0 fec1 (p\<lparr>buffer_0 := b0, buffer_1 := b1\<rparr>)"
  by (cases p) (auto simp: packetizer_inv_def packetizer_create_def Let_def bind_eq_Some_conv)

lemma plan_sizes:
  assumes "plan_ok p0" and "plan_ok p1" and "dec_msg_len p1 = enc_msg_len p0"
  shows "dec_msg_len p0 \<le> enc_msg_len p0" "enc_msg_len p0 \<le> enc_msg_len p1"
  using assms by (simp_all add: plan_ok_def)

text \<open>What the packet carries: the message and its key through the first stage, that through the second.\<close>

lemma packetizer_encode_carries:
  assumes inv: "packetizer_inv L fec0 fec1 p" and plans: "plan p = [p0, p1]" and msg: "length msg = msg_len p"
  shows "\<exists>key x0 x1 b0 b1. crc_generate_key (check p) msg (msg_len p) = Some key \<and>
    carries p0 (msg @ word_bytes (crc_length p) key) x0 \<and> carries p1 x0 x1 \<and> length b0 = 8 * packet_len p \<and>
    length b1 = 8 * packet_len p \<and> packetizer_encode p msg = Some (x1, p\<lparr>buffer_0 := b0, buffer_1 := b1\<rparr>)"
proof -
  from packetizer_inv_parts [OF inv] plans have parts: "plan_len p = 2" "crc_length p = crc_get_length (check p)"
    "plan_ok p0" "plan_ok p1" "dec_msg_len p0 = msg_len p + crc_length p" "dec_msg_len p1 = enc_msg_len p0"
    "enc_msg_len p1 = packet_len p" "check p \<noteq> CRC_UNKNOWN" and bufs: "length (buffer_0 p) = 8 * packet_len p"
    "length (buffer_1 p) = 8 * packet_len p" by auto
  note sizes = plan_sizes [OF parts(3,4,6)]
  let ?n = "msg_len p" and ?c = "crc_length p"
  have fits: "?n + ?c \<le> packet_len p" using sizes parts(5,7) by simp
  define c0 where "c0 = msg @ drop ?n (buffer_0 p)"
  from crc_generate_key_Some [OF parts(8)] obtain key where key: "crc_generate_key (check p) msg ?n = Some key" by blast
  have "crc_generate_key (check p) c0 ?n = Some key"
    using crc_generate_key_cong [of ?n c0 msg "check p"] msg key by (simp add: c0_def nth_append)
  moreover have c0: "length c0 = 8 * packet_len p" "?n + ?c \<le> length c0" using msg bufs fits by (simp_all add: c0_def)
  moreover have "write_buf (buffer_0 p) (take ?n msg) = Some c0"
    using msg bufs fits by (simp add: write_buf_Some c0_def)
  moreover define c1 where "c1 = take ?n c0 @ word_bytes ?c key @ drop (?n + ?c) c0"
  moreover note append_key_bytes [OF c0(2), of key]
  ultimately have run: "packetizer_encode p msg = encode_plans [p0, p1] c1 (buffer_1 p) \<bind>
      (\<lambda>(buf0, buf1). Some (take (packet_len p) buf0, p\<lparr>buffer_0 := buf0, buffer_1 := buf1\<rparr>))"
    using parts(1) by (simp add: packetizer_encode_def plans del: encode_plans.simps)
  have c1: "length c1 = 8 * packet_len p" "take (dec_msg_len p0) c1 = msg @ word_bytes ?c key"
    using c0 msg by (simp_all add: c1_def parts(5)) (simp add: c0_def)
  from encode_stage [OF parts(3), of c1 "buffer_1 p" "[p1]"] c1 bufs sizes parts(7) obtain x0 b1 where
    s0: "encode_plans [p0, p1] c1 (buffer_1 p) = encode_plans [p1] (x0 @ drop (enc_msg_len p0) c1) b1"
      "length b1 = 8 * packet_len p" "carries p0 (msg @ word_bytes ?c key) x0" by auto
  have x0: "length x0 = enc_msg_len p0" using s0(3) by (simp add: carries_def)
  then have "take (dec_msg_len p1) (x0 @ drop (enc_msg_len p0) c1) = x0" by (simp add: parts(6))
  with encode_stage [OF parts(4), of "x0 @ drop (enc_msg_len p0) c1" b1 "[]"] x0 s0(2) c1(1) sizes(2) parts(7) obtain x1 b1' where
    s1: "encode_plans [p1] (x0 @ drop (enc_msg_len p0) c1) b1 =
        Some (x1 @ drop (enc_msg_len p1) (x0 @ drop (enc_msg_len p0) c1), b1')"
      "length b1' = 8 * packet_len p" "carries p1 x0 x1" by auto
  have "length x1 = packet_len p" using s1(3) by (simp add: carries_def parts(7))
  with run s0(1) s1(1) have "packetizer_encode p msg = Some (x1, p\<lparr>
      buffer_0 := x1 @ drop (enc_msg_len p1) (x0 @ drop (enc_msg_len p0) c1), buffer_1 := b1'\<rparr>)"
    by (simp del: encode_plans.simps)
  moreover have "length (x1 @ drop (enc_msg_len p1) (x0 @ drop (enc_msg_len p0) c1)) = 8 * packet_len p"
    using \<open>length x1 = packet_len p\<close> x0 c1(1) sizes(2) parts(7) by simp
  ultimately show ?thesis using key s0(3) s1(2,3) by blast
qed

lemma validate_frame:
  fixes ys :: bytes
  assumes "crc_generate_key (check p) msg (msg_len p) = Some key" and "length msg = msg_len p"
    and "crc_length p = crc_get_length (check p)"
  defines "buf \<equiv> (msg @ word_bytes (crc_length p) key) @ ys"
  shows "crc_validate_message (check p) buf (msg_len p) (strip_key (msg_len p) buf [0..<crc_length p] 0) = Some True"
    and "take (msg_len p) buf = msg"
proof -
  have "strip_key (msg_len p) buf [0..<crc_length p] 0 = key"
  proof (rule strip_key_bytes)
    show "take_bit (8 * crc_length p) key = key"
      unfolding assms(3) by (rule fits_take_bit [OF crc_generate_key_fits [OF assms(1)]])
  qed (use assms(2) in \<open>simp add: buf_def nth_append\<close>)
  moreover have "crc_generate_key (check p) buf (msg_len p) = Some key"
    using crc_generate_key_cong [of "msg_len p" buf msg "check p"] assms(1,2) by (simp add: buf_def nth_append)
  ultimately show "crc_validate_message (check p) buf (msg_len p) (strip_key (msg_len p) buf [0..<crc_length p] 0) = Some True"
    using crc_validate_generate by metis
  show "take (msg_len p) buf = msg" using assms(2) by (simp add: buf_def)
qed

text \<open>Decoding a packet whose outer stage is correctable.\<close>

lemma packetizer_decode_carries:
  assumes inv: "packetizer_inv L fec0 fec1 p" and plans: "plan p = [p0, p1]" and msg: "length msg = msg_len p"
    and key: "crc_generate_key (check p) msg (msg_len p) = Some key"
    and x0: "carries p0 (msg @ word_bytes (crc_length p) key) x0" and x1: "carries p1 x0 x1"
    and rx: "length rx = packet_len p" "stage_correctable p1 x1 rx"
  shows "\<exists>b0 b1. length b0 = 8 * packet_len p \<and> length b1 = 8 * packet_len p \<and>
    packetizer_decode p rx = Some (msg, True, p\<lparr>buffer_0 := b0, buffer_1 := b1\<rparr>)"
    and "fec_soft_ok fec1 (dec_msg_len p1) \<Longrightarrow> \<exists>b0 b1. length b0 = 8 * packet_len p \<and> length b1 = 8 * packet_len p \<and>
    packetizer_decode_soft p (soft_of rx) = Some (msg, True, p\<lparr>buffer_0 := b0, buffer_1 := b1\<rparr>)"
proof -
  from packetizer_inv_parts [OF inv] plans have parts: "plan_len p = 2" "crc_length p = crc_get_length (check p)"
    "plan_ok p0" "plan_ok p1" "dec_msg_len p0 = msg_len p + crc_length p" "dec_msg_len p1 = enc_msg_len p0"
    "enc_msg_len p1 = packet_len p" and bufs: "length (buffer_0 p) = 8 * packet_len p"
    "length (buffer_1 p) = 8 * packet_len p" and fs: "plan_fs p1 = fec1" by auto
  note sizes = plan_sizes [OF parts(3,4,6)]
  let ?frame = "msg @ word_bytes (crc_length p) key"
  have len: "length rx = enc_msg_len p1" "length x0 = enc_msg_len p0" using rx(1) x0 parts(7) by (simp_all add: carries_def)
  have frame: "length ?frame = dec_msg_len p0" using msg parts(5) by simp
  note valid = validate_frame [OF key msg parts(2)]
  have x0': "stage_correctable p0 x0 x0" using x0 by (rule carries_correctable)

  define y0 where "y0 = drop (packet_len p) (buffer_0 p)"
  from decode_stage [OF parts(4) x1 len(1) rx(2), of "buffer_1 p" "[p0]" y0] sizes bufs parts(7) obtain b1 where
    s1: "decode_plans [p1, p0] (rx @ y0) (buffer_1 p) = decode_plans [p0] (x0 @ drop (dec_msg_len p1) (rx @ y0)) b1"
      "length b1 = 8 * packet_len p" by auto
  from decode_stage [OF parts(3) x0 len(2) x0', of b1 "[]" "drop (dec_msg_len p1) (rx @ y0)"] sizes s1(2) parts(7)
  obtain b1' where s0: "decode_plans [p0] (x0 @ drop (dec_msg_len p1) (rx @ y0)) b1 =
      Some (?frame @ drop (dec_msg_len p0) (x0 @ drop (dec_msg_len p1) (rx @ y0)), b1')" "length b1' = 8 * packet_len p"
    by auto
  have "write_buf (buffer_0 p) (take (packet_len p) rx) = Some (rx @ y0)"
    using rx(1) bufs by (simp add: write_buf_Some y0_def)
  then have run: "packetizer_decode p rx = decode_plans [p1, p0] (rx @ y0) (buffer_1 p) \<bind> (\<lambda>(buf0, buf1).
      crc_validate_message (check p) buf0 (msg_len p) (strip_key (msg_len p) buf0 [0..<crc_length p] 0) \<bind>
        (\<lambda>valid. Some (take (msg_len p) buf0, valid, p\<lparr>buffer_0 := buf0, buffer_1 := buf1\<rparr>)))"
    using parts(1) by (simp add: packetizer_decode_def plans Let_def del: decode_plans.simps)
  have "packetizer_decode p rx = Some (msg, True, p\<lparr>
      buffer_0 := ?frame @ drop (dec_msg_len p0) (x0 @ drop (dec_msg_len p1) (rx @ y0)), buffer_1 := b1'\<rparr>)"
    unfolding run s1(1) s0(1) by (simp only: bind.bind_lunit prod.case valid)
  moreover have "length (?frame @ drop (dec_msg_len p0) (x0 @ drop (dec_msg_len p1) (rx @ y0))) = 8 * packet_len p"
    using frame len sizes parts(6,7) bufs by (simp add: y0_def)
  ultimately show "\<exists>b0 b1. length b0 = 8 * packet_len p \<and> length b1 = 8 * packet_len p \<and>
    packetizer_decode p rx = Some (msg, True, p\<lparr>buffer_0 := b0, buffer_1 := b1\<rparr>)" using s0(2) by blast

  assume soft: "fec_soft_ok fec1 (dec_msg_len p1)"
  from carries_decodes [OF parts(4) x1 len(1) rx(2)] soft fs obtain e where
    e: "length e = enc_msg_len p1" "interleaver_decode_soft (plan_q p1) (soft_of rx) = Some (soft_of e)"
      "fec_decode_soft (plan_f p1) (dec_msg_len p1) (soft_of e) = Some x0" by auto
  from carries_decodes [OF parts(3) x0 len(2) x0'] obtain d where
    d: "interleaver_decode (plan_q p0) x0 = Some d" "length d = enc_msg_len p0"
      "fec_decode (plan_f p0) (dec_msg_len p0) d = Some ?frame" by auto
  have q: "il_n (plan_q p0) = length x0" using parts(3) len(2) by (simp add: plan_ok_def)
  define z where "z = drop (length x0) (soft_of rx)"
  have z: "length (x0 @ z) = 8 * packet_len p" using len sizes rx(1) parts(7) by (simp add: z_def)
  define w where "w = d @ drop (length d) (soft_of e)"
  have w: "length w = 8 * packet_len p" using d(2) e(1) sizes parts(7) by (simp add: w_def)
  have steps: "write_buf (buffer_0 p) (take (8 * packet_len p) (soft_of rx)) = Some (soft_of rx)"
    "write_buf (buffer_1 p) (soft_of e) = Some (soft_of e)" "write_buf (soft_of rx) x0 = Some (x0 @ z)"
    "interleaver_decode (plan_q p0) (x0 @ z) = Some d" "write_buf (soft_of e) d = Some w"
    "write_buf (x0 @ z) ?frame = Some (?frame @ drop (length ?frame) (x0 @ z))"
    "take (8 * enc_msg_len p1) (soft_of e) = soft_of e" "take (enc_msg_len p0) w = d"
    using rx(1) bufs e(1) parts(7) z len sizes d w interleaver_prefix(2) [OF q [symmetric], of z] frame
    by (simp_all add: write_buf_Some z_def w_def del: length_append)
  have "packetizer_decode_soft p (soft_of rx) = Some (msg, True, p\<lparr>
      buffer_0 := ?frame @ drop (length ?frame) (x0 @ z), buffer_1 := w\<rparr>)"
    unfolding packetizer_decode_soft_def plans Let_def
    by (simp only: steps e d valid bind.bind_lunit nth_Cons_0 nth_Cons_Suc One_nat_def)
  moreover have "length (?frame @ drop (length ?frame) (x0 @ z)) = 8 * packet_len p"
    using z frame sizes parts(7) unfolding length_append length_drop by linarith
  ultimately show "\<exists>b0 b1. length b0 = 8 * packet_len p \<and> length b1 = 8 * packet_len p \<and>
    packetizer_decode_soft p (soft_of rx) = Some (msg, True, p\<lparr>buffer_0 := b0, buffer_1 := b1\<rparr>)" using w by blast
qed

section \<open>The buffers keep their size\<close>

lemma write_buf_length: "write_buf buf xs = Some buf' \<Longrightarrow> length buf' = length buf"
  by (auto simp: write_buf_def split: if_splits)

lemma append_key_length: "append_key n c is key buf = Some buf' \<Longrightarrow> length buf' = length buf"
  by (induction n c "is" key buf rule: append_key.induct) (auto simp: Let_def split: if_splits)

lemma encode_plans_length:
  "encode_plans ps buf0 buf1 = Some (b0, b1) \<Longrightarrow> length b0 = length buf0 \<and> length b1 = length buf1"
  by (induction ps arbitrary: buf0 buf1) (fastforce simp: bind_eq_Some_conv dest: write_buf_length)+

lemma decode_plans_length:
  "decode_plans ps buf0 buf1 = Some (b0, b1) \<Longrightarrow> length b0 = length buf0 \<and> length b1 = length buf1"
  by (induction ps arbitrary: buf0 buf1) (fastforce simp: bind_eq_Some_conv dest: write_buf_length)+

lemma packetizer_step_buffers:
  "packetizer_encode p msg = Some (pkt, p') \<Longrightarrow> \<exists>b0 b1. p' = p\<lparr>buffer_0 := b0, buffer_1 := b1\<rparr> \<and>
    length b0 = length (buffer_0 p) \<and> length b1 = length (buffer_1 p)"
  "packetizer_decode p pkt = Some (out, valid, p') \<Longrightarrow> \<exists>b0 b1. p' = p\<lparr>buffer_0 := b0, buffer_1 := b1\<rparr> \<and>
    length b0 = length (buffer_0 p) \<and> length b1 = length (buffer_1 p)"
  "packetizer_decode_soft p pkt = Some (out, valid, p') \<Longrightarrow> \<exists>b0 b1. p' = p\<lparr>buffer_0 := b0, buffer_1 := b1\<rparr> \<and>
    length b0 = length (buffer_0 p) \<and> length b1 = length (buffer_1 p)"
  unfolding packetizer_encode_def packetizer_decode_def packetizer_decode_soft_def Let_def
  by (fastforce simp: bind_eq_Some_conv dest!: write_buf_length append_key_length encode_plans_length decode_plans_length)+

lemma packetizer_create_inv:
  assumes "block_scheme fec0" and "block_scheme fec1" and "n < packet_bound" and "crc \<noteq> CRC_UNKNOWN"
    and "packetizer_compute_enc_msg_len n crc fec0 fec1 = Some l" and "length mem0 = 8 * l" and "length mem1 = 8 * l"
  shows "\<exists>p. packetizer_create L mem0 mem1 n crc fec0 fec1 = Some p \<and> packetizer_inv L fec0 fec1 p \<and>
    msg_len p = n \<and> packet_len p = l \<and> check p = crc"
proof -
  have "l = block_len fec1 (block_len fec0 (n + crc_get_length crc))"
    using assms(5) enc_msg_len_closed [OF assms(1-3), of crc] by simp
  with packetizer_plans [OF assms(1-3), of L crc mem0 mem1] assms show ?thesis
    unfolding packetizer_inv_def by fastforce
qed

text \<open>Two packetizers with the same parameters have the same stages.\<close>

lemma packetizer_inv_plan:
  assumes "packetizer_inv L fec0 fec1 p" and "packetizer_inv L fec0 fec1 r" and "msg_len r = msg_len p" and "check r = check p"
  shows "plan r = plan p" "packet_len r = packet_len p" "crc_length r = crc_length p"
proof -
  have "packetizer_create L m0 m1 n crc fec0 fec1 = Some q \<Longrightarrow> packetizer_create L m0' m1' n crc fec0 fec1 = Some q' \<Longrightarrow>
    plan q = plan q' \<and> packet_len q = packet_len q' \<and> crc_length q = crc_length q'" for m0 m1 m0' m1' n crc q q'
    by (auto simp: packetizer_create_def Let_def bind_eq_Some_conv)
  then show "plan r = plan p" "packet_len r = packet_len p" "crc_length r = crc_length p"
    using assms unfolding packetizer_inv_def by metis+
qed

section \<open>The search for the message length\<close>

lemma dec_len_loop_least:
  assumes "\<And>m. m \<le> n \<Longrightarrow> packetizer_compute_enc_msg_len m crc fec0 fec1 = Some (e m)"
    and "k \<le> e n" and "\<And>m. m < n \<Longrightarrow> e m < k" and "j \<le> n" and "k_hat < k"
  shows "dec_len_loop k crc fec0 fec1 j k_hat = Some n"
  using assms(4,5)
proof (induction "n - j" arbitrary: j k_hat)
  case 0
  then have "j = n" by simp
  with 0 assms(1,2) show ?case by (subst dec_len_loop.simps) auto
next
  case (Suc d)
  then have j: "j < n" by simp
  with Suc.hyps(1) [of "Suc j" "e j"] Suc.hyps(2) Suc.prems(2) assms(1) [of j] assms(3) [of j] show ?case
    by (subst dec_len_loop.simps) auto
qed

lemma dec_len_least:
  assumes "block_scheme fec0" and "block_scheme fec1" and "N < packet_bound" and "0 < k"
    and "packetizer_compute_enc_msg_len N crc fec0 fec1 = Some l" and "k \<le> l"
  shows "\<exists>n \<le> N. packetizer_compute_dec_msg_len k crc fec0 fec1 = Some n \<and>
    (\<exists>l. packetizer_compute_enc_msg_len n crc fec0 fec1 = Some l \<and> k \<le> l) \<and>
    (\<forall>m < n. \<exists>l. packetizer_compute_enc_msg_len m crc fec0 fec1 = Some l \<and> l < k)"
proof -
  define e where "e m = block_len fec1 (block_len fec0 (m + crc_get_length crc))" for m
  have enc: "packetizer_compute_enc_msg_len m crc fec0 fec1 = Some (e m)" if "m \<le> N" for m
    using enc_msg_len_closed [OF assms(1,2), of m crc] that assms(3) by (simp add: e_def)
  define n where "n = (LEAST n. k \<le> e n)"
  have N: "k \<le> e N" using enc [of N] assms(5,6) by simp
  then have n: "n \<le> N" "k \<le> e n" unfolding n_def by (rule Least_le, rule LeastI)
  have less: "e m < k" if "m < n" for m using not_less_Least [of m "\<lambda>n. k \<le> e n"] that by (simp add: n_def)
  from dec_len_loop_least [of n crc fec0 fec1 e k 0 0] enc n less assms(4)
  have "packetizer_compute_dec_msg_len k crc fec0 fec1 = Some n" by (simp add: packetizer_compute_dec_msg_len_def)
  with n less enc show ?thesis by (meson le_trans less_imp_le)
qed

lemma dec_len_loop_unknown:
  assumes "fec_get_enc_msg_length fec1 0 = Some 0"
  shows "dec_len_loop k crc FEC_UNKNOWN fec1 n k_hat = Some n' \<Longrightarrow> k \<le> k_hat"
proof -
  have "dec_len_loop k crc fec0 fec1 n k_hat = Some n' \<Longrightarrow>
      fec0 = FEC_UNKNOWN \<and> fec_get_enc_msg_length fec1 0 = Some 0 \<longrightarrow> k \<le> k_hat" for fec0 fec1
  proof (induction rule: dec_len_loop.raw_induct [rotated 1, consumes 1])
    case (1 f k crc fec0 fec1 n k_hat n')
    from 1(2) show ?case
      by (auto simp: packetizer_compute_enc_msg_len_def bind_eq_Some_conv Let_def dest: 1(1) split: if_splits)
  qed
  with assms show "dec_len_loop k crc FEC_UNKNOWN fec1 n k_hat = Some n' \<Longrightarrow> k \<le> k_hat" by blast
qed

section \<open>Properties\<close>





text \<open>C32: Searching the message length of a packet. For codecs of the library the loop of
  \<open>packetizer_compute_dec_msg_len\<close> ends for every packet length that some message of at most \<open>N\<close> bytes fills, and
  yields the least message length whose packet is at least as long.\<close>
theorem packetizer_dec_len_correct:
  assumes "block_scheme fec0" and "block_scheme fec1" and "N < packet_bound" and "0 < k"
    and "packetizer_compute_enc_msg_len N crc fec0 fec1 = Some l" and "k \<le> l"
  shows "\<exists>n \<le> N. packetizer_compute_dec_msg_len k crc fec0 fec1 = Some n \<and>
    (\<exists>l. packetizer_compute_enc_msg_len n crc fec0 fec1 = Some l \<and> k \<le> l) \<and>
    (\<forall>m < n. \<exists>l. packetizer_compute_enc_msg_len m crc fec0 fec1 = Some l \<and> l < k)"
  by (rule dec_len_least [OF assms])

theorem packetizer_dec_len_correct_witness:
  "\<exists>n \<le> 18. packetizer_compute_dec_msg_len 20 CRC_16 FEC_NONE FEC_SECDED7264 = Some n \<and>
    (\<exists>l. packetizer_compute_enc_msg_len n CRC_16 FEC_NONE FEC_SECDED7264 = Some l \<and> 20 \<le> l) \<and>
    (\<forall>m < n. \<exists>l. packetizer_compute_enc_msg_len m CRC_16 FEC_NONE FEC_SECDED7264 = Some l \<and> l < 20)"
proof -
  have "packetizer_compute_enc_msg_len 18 CRC_16 FEC_NONE FEC_SECDED7264 = Some 23"
    using enc_msg_len_closed [of FEC_NONE FEC_SECDED7264 18 CRC_16] by (simp add: block_scheme_def ceil_div_def)
  from packetizer_dec_len_correct [OF _ _ _ _ this, of 20] show ?thesis by (simp add: block_scheme_def)
qed

text \<open>The same search never returns when the inner scheme is the unknown one, whose encoded length is 0 for every
  message: for every packet of at least one byte the loop runs on for ever.\<close>
theorem packetizer_dec_len_diverges:
  assumes "block_scheme fec1" and "0 < k"
  shows "packetizer_compute_dec_msg_len k crc FEC_UNKNOWN fec1 = None"
  using dec_len_loop_unknown [of fec1 k crc 0 0] block_scheme_length [OF assms(1), of 0] assms
  by (cases "packetizer_compute_dec_msg_len k crc FEC_UNKNOWN fec1") (auto simp: packetizer_compute_dec_msg_len_def ceil_div_def block_scheme_def)

theorem packetizer_dec_len_diverges_witness:
  "packetizer_compute_dec_msg_len 1 CRC_32 FEC_UNKNOWN FEC_NONE = None"
  by (rule packetizer_dec_len_diverges) (simp_all add: block_scheme_def)

end
