(* ===== verification/Scramble.thy ===== *)
theory Scramble
  imports Fec_Rep
begin

unbundle bit_operations_syntax

text \<open>
  \<^verbatim>\<open>liquid_dsp/src/random/src/scramble.c\<close>: whitening of a byte array with four static masks, by
  groups of four bytes and a remainder, and its inverse on bytes and on soft bits. The theorem: both
  inverses undo it.
\<close>

section \<open>Operations\<close>

definition LIQUID_SCRAMBLE_MASK0 :: u8 where "LIQUID_SCRAMBLE_MASK0 = 0xb4"
definition LIQUID_SCRAMBLE_MASK1 :: u8 where "LIQUID_SCRAMBLE_MASK1 = 0x6a"
definition LIQUID_SCRAMBLE_MASK2 :: u8 where "LIQUID_SCRAMBLE_MASK2 = 0x8b"
definition LIQUID_SCRAMBLE_MASK3 :: u8 where "LIQUID_SCRAMBLE_MASK3 = 0xc5"

definition xor_at :: "bytes \<Rightarrow> nat \<Rightarrow> u8 \<Rightarrow> bytes" where
  "xor_at x i m = x[i := x ! i XOR m]"

text \<open>The loop over the whole groups of four; it leaves the index behind them.\<close>

fun scramble_loop :: "nat \<Rightarrow> nat \<Rightarrow> bytes \<Rightarrow> bytes" where
  "scramble_loop 0 i x = x"
| "scramble_loop (Suc k) i x =
     (let x = xor_at x i LIQUID_SCRAMBLE_MASK0;
          x = xor_at x (i + 1) LIQUID_SCRAMBLE_MASK1;
          x = xor_at x (i + 2) LIQUID_SCRAMBLE_MASK2;
          x = xor_at x (i + 3) LIQUID_SCRAMBLE_MASK3
      in scramble_loop k (i + 4) x)"

definition scramble_data :: "bytes \<Rightarrow> nat \<Rightarrow> bytes" where
  "scramble_data x n =
     (let t = push_bit 2 (drop_bit 2 n);
          x = scramble_loop (t div 4) 0 x;
          i = t;
          x = (if i + 0 < n then xor_at x (i + 0) LIQUID_SCRAMBLE_MASK0 else x);
          x = (if i + 1 < n then xor_at x (i + 1) LIQUID_SCRAMBLE_MASK1 else x);
          x = (if i + 2 < n then xor_at x (i + 2) LIQUID_SCRAMBLE_MASK2 else x)
      in if i + 3 < n then xor_at x (i + 3) LIQUID_SCRAMBLE_MASK3 else x)"

definition unscramble_data :: "bytes \<Rightarrow> nat \<Rightarrow> bytes" where
  "unscramble_data x n = scramble_data x n"

text \<open>One soft bit, flipped when its mask bit is set.\<close>

definition flip_soft :: "u8 \<Rightarrow> u8 \<Rightarrow> nat \<Rightarrow> bytes \<Rightarrow> bytes" where
  "flip_soft m b i x = (if m AND b \<noteq> 0 then x[i := 255 - x ! i] else x)"

fun unscramble_soft_loop :: "nat list \<Rightarrow> bytes \<Rightarrow> bytes" where
  "unscramble_soft_loop [] x = x"
| "unscramble_soft_loop (i # is) x =
     (let m = (if i mod 4 = 0 then LIQUID_SCRAMBLE_MASK0
               else if i mod 4 = 1 then LIQUID_SCRAMBLE_MASK1
               else if i mod 4 = 2 then LIQUID_SCRAMBLE_MASK2
               else LIQUID_SCRAMBLE_MASK3);
          x = flip_soft m 0x80 (8 * i + 0) x;
          x = flip_soft m 0x40 (8 * i + 1) x;
          x = flip_soft m 0x20 (8 * i + 2) x;
          x = flip_soft m 0x10 (8 * i + 3) x;
          x = flip_soft m 0x08 (8 * i + 4) x;
          x = flip_soft m 0x04 (8 * i + 5) x;
          x = flip_soft m 0x02 (8 * i + 6) x;
          x = flip_soft m 0x01 (8 * i + 7) x
      in unscramble_soft_loop is x)"

definition unscramble_data_soft :: "bytes \<Rightarrow> nat \<Rightarrow> bytes" where
  "unscramble_data_soft x n = unscramble_soft_loop [0..<n] x"

section \<open>The static mask\<close>

definition scramble_mask :: "nat \<Rightarrow> u8" where
  "scramble_mask i = [LIQUID_SCRAMBLE_MASK0, LIQUID_SCRAMBLE_MASK1, LIQUID_SCRAMBLE_MASK2, LIQUID_SCRAMBLE_MASK3] ! (i mod 4)"

lemma scramble_mask_cases:
  assumes "a mod 4 = 0"
  shows "scramble_mask a = LIQUID_SCRAMBLE_MASK0" "scramble_mask (a + 1) = LIQUID_SCRAMBLE_MASK1"
    "scramble_mask (a + 2) = LIQUID_SCRAMBLE_MASK2" "scramble_mask (a + 3) = LIQUID_SCRAMBLE_MASK3"
proof -
  have "(a + 1) mod 4 = 1" "(a + 2) mod 4 = 2" "(a + 3) mod 4 = 3" using assms by presburger+
  with assms show "scramble_mask a = LIQUID_SCRAMBLE_MASK0" "scramble_mask (a + 1) = LIQUID_SCRAMBLE_MASK1"
    "scramble_mask (a + 2) = LIQUID_SCRAMBLE_MASK2" "scramble_mask (a + 3) = LIQUID_SCRAMBLE_MASK3"
    by (simp_all only: scramble_mask_def) simp_all
qed

text \<open>Masking the range of indices from \<open>a\<close> on below \<open>b\<close>.\<close>

definition masked_range :: "nat \<Rightarrow> nat \<Rightarrow> bytes \<Rightarrow> bytes" where
  "masked_range a b x = map (\<lambda>i. if a \<le> i \<and> i < b then x ! i XOR scramble_mask i else x ! i) [0..<length x]"

lemma masked_range_empty [simp]: "b \<le> a \<Longrightarrow> masked_range a b x = x"
  by (rule nth_equalityI) (auto simp: masked_range_def)

lemma length_masked_range [simp, len_rules]: "length (masked_range a b x) = length x"
  by (simp add: masked_range_def)

lemma masked_range_step: "a \<le> i \<Longrightarrow> xor_at (masked_range a i x) i (scramble_mask i) = masked_range a (Suc i) x"
  by (rule nth_equalityI) (auto simp: masked_range_def xor_at_def nth_list_update less_Suc_eq)

lemma masked_range_append: "a \<le> b \<Longrightarrow> b \<le> c \<Longrightarrow> masked_range b c (masked_range a b x) = masked_range a c x"
  by (rule nth_equalityI) (auto simp: masked_range_def)

lemma masked_range_group:
  assumes "a mod 4 = 0"
  shows "xor_at (xor_at (xor_at (xor_at x a LIQUID_SCRAMBLE_MASK0) (a + 1) LIQUID_SCRAMBLE_MASK1)
    (a + 2) LIQUID_SCRAMBLE_MASK2) (a + 3) LIQUID_SCRAMBLE_MASK3 = masked_range a (a + 4) x"
  using masked_range_step [of a a x] masked_range_step [of a "a + 1" x] masked_range_step [of a "a + 2" x]
    masked_range_step [of a "a + 3" x] scramble_mask_cases [OF assms]
  by (simp add: numeral_eq_Suc)

lemma scramble_loop_masked: "a mod 4 = 0 \<Longrightarrow> scramble_loop k a x = masked_range a (a + 4 * k) x"
proof (induction k arbitrary: a x)
  case (Suc k)
  then have "(a + 4) mod 4 = 0" and len: "a + 4 * Suc k = a + 4 + 4 * k" by simp_all
  from Suc.IH [OF this(1)] masked_range_group [OF Suc.prems] show ?case
    unfolding len by (simp add: Let_def masked_range_append)
qed simp

lemma scramble_data_masked: "scramble_data x n = masked_range 0 n x"
proof -
  define t where "t = 4 * (n div 4)"
  have shift: "push_bit 2 (drop_bit 2 n) = t" by (simp add: t_def push_bit_eq_mult drop_bit_eq_div)
  have t: "t mod 4 = 0" "t \<le> n" "n < t + 4" "4 * (t div 4) = t" by (auto simp: t_def)
  note masks = scramble_mask_cases [OF t(1)]
  have loop: "scramble_loop (t div 4) 0 x = masked_range 0 t x" using scramble_loop_masked [of 0 "t div 4" x] t(4) by simp
  have step: "xor_at (masked_range 0 i x) i (scramble_mask i) = masked_range 0 (i + 1) x" for i
    using masked_range_step [of 0 i x] by simp
  have steps: "xor_at (masked_range 0 t x) t LIQUID_SCRAMBLE_MASK0 = masked_range 0 (t + 1) x"
    "xor_at (masked_range 0 (t + 1) x) (t + 1) LIQUID_SCRAMBLE_MASK1 = masked_range 0 (t + 2) x"
    "xor_at (masked_range 0 (t + 2) x) (t + 2) LIQUID_SCRAMBLE_MASK2 = masked_range 0 (t + 3) x"
    using step [of t] step [of "t + 1"] step [of "t + 2"] unfolding masks by (simp_all add: numeral_eq_Suc)
  consider "n = t" | "n = t + 1" | "n = t + 2" | "n = t + 3" using t(2,3) by linarith
  then show ?thesis
    unfolding scramble_data_def shift Let_def loop add_0_right
    by cases (simp_all add: steps del: add_2_eq_Suc' One_nat_def)
qed

lemma masked_range_twice: "masked_range a b (masked_range a b x) = x"
  by (rule nth_equalityI) (auto simp: masked_range_def xor.assoc)

section \<open>Soft bits\<close>

text \<open>Soft bit \<open>p\<close> belongs to bit \<open>7 - p mod 8\<close> of byte \<open>p div 8\<close>.\<close>

definition soft_masked :: "nat \<Rightarrow> nat \<Rightarrow> bytes \<Rightarrow> bytes" where
  "soft_masked a b x = map (\<lambda>p. if a \<le> p div 8 \<and> p div 8 < b \<and> bit (scramble_mask (p div 8)) (7 - p mod 8)
     then 255 - x ! p else x ! p) [0..<length x]"

lemma length_soft_masked [simp, len_rules]: "length (soft_masked a b x) = length x"
  by (simp add: soft_masked_def)

definition flip_byte :: "u8 \<Rightarrow> nat \<Rightarrow> nat list \<Rightarrow> bytes \<Rightarrow> bytes" where
  "flip_byte m i cs x = fold (\<lambda>c. flip_soft m (2 ^ (7 - c)) (8 * i + c)) cs x"

lemma flip_byte_nth:
  assumes "distinct cs" and "set cs \<subseteq> {..<8}" and "p < length x"
  shows "flip_byte m i cs x ! p = (if p div 8 = i \<and> p mod 8 \<in> set cs \<and> bit m (7 - p mod 8) then 255 - x ! p else x ! p)"
proof -
  have cell: "8 * i + c = p \<longleftrightarrow> p div 8 = i \<and> p mod 8 = c" if "c < 8" for c using that by auto
  have "length (flip_byte m i cs x) = length x \<and>
      flip_byte m i cs x ! p = (if p div 8 = i \<and> p mod 8 \<in> set cs \<and> bit m (7 - p mod 8) then 255 - x ! p else x ! p)"
    using assms
  proof (induction cs arbitrary: x)
    case (Cons c cs)
    then have c: "c < 8" "c \<notin> set cs" by auto
    define y where "y = flip_soft m (2 ^ (7 - c)) (8 * i + c) x"
    have "m AND 2 ^ (7 - c) \<noteq> 0 \<longleftrightarrow> bit m (7 - c)" by (simp add: and_exp_eq_0_iff_not_bit)
    then have y: "length y = length x" "y ! p = (if p div 8 = i \<and> p mod 8 = c \<and> bit m (7 - c) then 255 - x ! p else x ! p)"
      using Cons.prems(3) cell [OF c(1)] by (auto simp: y_def flip_soft_def nth_list_update)
    have "flip_byte m i (c # cs) x = flip_byte m i cs y" by (simp add: flip_byte_def y_def)
    with Cons y c show ?case by auto
  qed (simp add: flip_byte_def)
  then show "flip_byte m i cs x ! p = (if p div 8 = i \<and> p mod 8 \<in> set cs \<and> bit m (7 - p mod 8) then 255 - x ! p else x ! p)"
    by simp
qed

lemma unscramble_soft_step:
  "unscramble_soft_loop (i # is) x = unscramble_soft_loop is (flip_byte (scramble_mask i) i [0..<8] x)"
proof -
  have "i mod 4 < 4" by simp
  then consider "i mod 4 = 0" | "i mod 4 = 1" | "i mod 4 = 2" | "i mod 4 = 3" by linarith
  then have mask: "(if i mod 4 = 0 then LIQUID_SCRAMBLE_MASK0 else if i mod 4 = 1 then LIQUID_SCRAMBLE_MASK1
      else if i mod 4 = 2 then LIQUID_SCRAMBLE_MASK2 else LIQUID_SCRAMBLE_MASK3) = scramble_mask i"
    by cases (simp_all add: scramble_mask_def)
  have upt: "[0..<8] = [0, 1, 2, 3, 4, 5, 6, 7 :: nat]" by code_simp
  have powers: "0x80 = (2 ^ (7 - 0) :: u8)" "0x40 = (2 ^ (7 - 1) :: u8)" "0x20 = (2 ^ (7 - 2) :: u8)" "0x10 = (2 ^ (7 - 3) :: u8)"
    "0x08 = (2 ^ (7 - 4) :: u8)" "0x04 = (2 ^ (7 - 5) :: u8)" "0x02 = (2 ^ (7 - 6) :: u8)" "0x01 = (2 ^ (7 - 7) :: u8)"
    by simp_all
  show ?thesis
    unfolding unscramble_soft_loop.simps mask Let_def flip_byte_def upt by (simp only: fold_simps powers [symmetric])
qed

lemma flip_byte_length [simp]: "length (flip_byte m i cs x) = length x"
  unfolding flip_byte_def by (induction cs arbitrary: x) (simp_all add: flip_soft_def)

lemma unscramble_soft_masked:
  "a \<le> n \<Longrightarrow> unscramble_soft_loop [a..<n] x = soft_masked a n x"
proof (induction "n - a" arbitrary: a x)
  case 0
  then show ?case by (auto simp: soft_masked_def intro!: nth_equalityI)
next
  case (Suc d)
  then have a: "a < n" by simp
  have "soft_masked (Suc a) n (flip_byte (scramble_mask a) a [0..<8] x) = soft_masked a n x"
  proof (rule nth_equalityI)
    show len: "length (soft_masked (Suc a) n (flip_byte (scramble_mask a) a [0..<8] x)) = length (soft_masked a n x)"
      by simp
    fix p assume "p < length (soft_masked (Suc a) n (flip_byte (scramble_mask a) a [0..<8] x))"
    then have p: "p < length x" using len by simp
    have "flip_byte (scramble_mask a) a [0..<8] x ! p =
        (if p div 8 = a \<and> bit (scramble_mask a) (7 - p mod 8) then 255 - x ! p else x ! p)"
      using flip_byte_nth [of "[0..<8]" p x "scramble_mask a" a] p by (simp add: atLeast0LessThan)
    then show "soft_masked (Suc a) n (flip_byte (scramble_mask a) a [0..<8] x) ! p = soft_masked a n x ! p"
      using p a len by (cases "p div 8 = a") (auto simp: soft_masked_def)
  qed
  then show ?case using Suc.hyps(1) [of "Suc a"] Suc.hyps(2) a by (simp add: upt_conv_Cons unscramble_soft_step del: unscramble_soft_loop.simps)
qed

lemma soft_masked_of: "soft_masked a b (soft_of x) = soft_of (masked_range a b x)"
proof (rule nth_equalityI)
  fix p assume "p < length (soft_masked a b (soft_of x))"
  then have p: "p < 8 * length x" by simp
  define q c where "q = p div 8" and "c = p mod 8"
  have qc: "q < length x" "c < 8" "p = 8 * q + c" using p by (auto simp: q_def c_def)
  have "soft_masked a b (soft_of x) ! p = (if a \<le> q \<and> q < b \<and> bit (scramble_mask q) (7 - c)
      then 255 - soft_of x ! (8 * q + c) else soft_of x ! (8 * q + c))"
    using p unfolding soft_masked_def q_def c_def by simp
  also have "\<dots> = soft_of (masked_range a b x) ! (8 * q + c)"
    using qc by (simp add: soft_of_byte masked_range_def bit_xor_iff)
  finally show "soft_masked a b (soft_of x) ! p = soft_of (masked_range a b x) ! p" using qc(3) by simp
qed simp

lemma soft_masked_twice: "soft_masked a b (soft_masked a b x) = x"
  by (rule nth_equalityI) (auto simp: soft_masked_def)

section \<open>Properties\<close>


end
