(* ===== verification/Payload.thy ===== *)
theory Payload
  imports Radio_Prelude
begin

text \<open>
  \<^verbatim>\<open>ofdm_radio/src_reusable/TxPayload.cc\<close> and \<^verbatim>\<open>RxPayload.cc\<close>: a network packet cut into frames on the
  sending side and put together again on the receiving side. A pointer into an array of bytes is
  the part of the array from there on; \<open>None\<close> is the process ending in a division by zero or in a
  copy beyond an array. The theorems: the frames of a packet, in any order and with repetitions,
  rebuild the packet exactly when all are there, and the frames handed out one after the other are
  the packet cut into pieces.
\<close>

section \<open>Sending side\<close>

record tx_payload =
  tx_id :: int
  destination_id :: nat
  tx_payload_size :: nat
  tx_frame_size :: nat
  tx_last_frame_size :: nat
  next_frame :: nat
  retrieved :: bool
  frame_transmitted :: "bool list"
  tx_frames_per_packet :: nat
  tx_bytes :: bytes

definition TxPayload :: "int \<Rightarrow> nat \<Rightarrow> bytes \<Rightarrow> nat \<Rightarrow> nat \<Rightarrow> tx_payload option" where
  "TxPayload pid dest payload payload_size frame_size =
     (if frame_size = 0 \<or> length payload < payload_size then None
      else
        let this_frame_size = (if payload_size < frame_size then payload_size else frame_size);
            frames = payload_size div frame_size + 1;
            last = payload_size mod frame_size;
            (frames, last) = (if last = 0 then (frames - 1, frame_size) else (frames, last))
        in Some \<lparr>tx_id = pid, destination_id = dest, tx_payload_size = payload_size, tx_frame_size = this_frame_size,
             tx_last_frame_size = last, next_frame = 0, retrieved = False, frame_transmitted = replicate frames False,
             tx_frames_per_packet = frames, tx_bytes = take payload_size payload\<rparr>)"

definition get_frames_per_packet :: "tx_payload \<Rightarrow> nat" where
  "get_frames_per_packet t = tx_frames_per_packet t"

definition allFramesTransmitted :: "tx_payload \<Rightarrow> bool" where
  "allFramesTransmitted t = list_all (\<lambda>i. frame_transmitted t ! i) [0..<tx_frames_per_packet t]"

definition get_frame :: "tx_payload \<Rightarrow> nat \<Rightarrow> bytes option \<times> tx_payload" where
  "get_frame t frame_id =
     (if frame_id \<ge> tx_frames_per_packet t then (None, t)
      else (Some (drop (frame_id * tx_frame_size t) (tx_bytes t)),
            t\<lparr>frame_transmitted := (frame_transmitted t)[frame_id := True]\<rparr>))"

text \<open>What \<open>get_next_frame\<close> hands out: the pointer and the four values it stores through its arguments.\<close>

record next_frame_result =
  nf_data :: bytes
  nf_packet_id :: int
  nf_frame_id :: nat
  nf_frame_size :: nat
  nf_total_len :: nat

definition get_next_frame :: "tx_payload \<Rightarrow> next_frame_result option \<times> tx_payload" where
  "get_next_frame t =
     (if next_frame t < tx_frames_per_packet t
      then
        let return_index = next_frame t;
            t1 = t\<lparr>frame_transmitted := (frame_transmitted t)[return_index := True], next_frame := return_index + 1\<rparr>;
            t2 = (if allFramesTransmitted t1 then t1\<lparr>retrieved := True\<rparr> else t1);
            size = (if return_index = tx_frames_per_packet t - 1 then tx_last_frame_size t else tx_frame_size t)
        in (Some \<lparr>nf_data = drop (return_index * tx_frame_size t) (tx_bytes t), nf_packet_id = tx_id t,
              nf_frame_id = return_index, nf_frame_size = size, nf_total_len = tx_payload_size t\<rparr>, t2)
      else (None, t))"

section \<open>Receiving side\<close>

record rx_payload =
  rx_id :: int
  rx_payload_size :: nat
  rx_bytes :: bytes
  frame_received :: "bool list"
  rx_frames_per_packet :: nat
  rx_frame_size :: nat
  rx_last_frame_size :: nat

text \<open>\<open>mem\<close> is what the allocated array holds at first.\<close>

definition RxPayload :: "bytes \<Rightarrow> int \<Rightarrow> nat \<Rightarrow> nat \<Rightarrow> rx_payload option" where
  "RxPayload mem pid payload_size frame_size =
     (if frame_size = 0 then None
      else
        let frames = payload_size div frame_size + 1;
            last = payload_size mod frame_size;
            (frames, last) = (if last = 0 then (frames - 1, frame_size) else (frames, last))
        in Some \<lparr>rx_id = pid, rx_payload_size = payload_size, rx_bytes = mem, frame_received = replicate frames False,
             rx_frames_per_packet = frames, rx_frame_size = frame_size, rx_last_frame_size = last\<rparr>)"

definition isComplete :: "rx_payload \<Rightarrow> bool" where
  "isComplete r = list_all (\<lambda>i. frame_received r ! i) [0..<rx_frames_per_packet r]"

text \<open>\<^verbatim>\<open>memcpy(dst + off, src, n)\<close>, which must stay inside both arrays.\<close>

definition copy_to :: "bytes \<Rightarrow> nat \<Rightarrow> bytes \<Rightarrow> nat \<Rightarrow> bytes option" where
  "copy_to dst off src n =
     (if off + n \<le> length dst \<and> n \<le> length src then Some (take off dst @ take n src @ drop (off + n) dst) else None)"

definition rx_add_frame :: "rx_payload \<Rightarrow> nat \<Rightarrow> bytes \<Rightarrow> (bool \<times> rx_payload) option" where
  "rx_add_frame r frame_id data =
     (if frame_id \<ge> rx_frames_per_packet r then Some (False, r)
      else if frame_received r ! frame_id then Some (False, r)
      else do {
        buf \<leftarrow> copy_to (rx_bytes r) (frame_id * rx_frame_size r) data
          (if frame_id = rx_frames_per_packet r - 1 then rx_last_frame_size r else rx_frame_size r);
        Some (True, r\<lparr>rx_bytes := buf, frame_received := (frame_received r)[frame_id := True]\<rparr>)
      })"

definition num_frames_remaining :: "rx_payload \<Rightarrow> nat" where
  "num_frames_remaining r = length (filter (\<lambda>i. \<not> frame_received r ! i) [0..<rx_frames_per_packet r])"

section \<open>The cut into frames\<close>

text \<open>The number of frames and the length of the last one, as both constructors compute them.\<close>

definition frame_count :: "nat \<Rightarrow> nat \<Rightarrow> nat" where
  "frame_count len fs = (if len mod fs = 0 then len div fs else len div fs + 1)"

definition piece_len :: "nat \<Rightarrow> nat \<Rightarrow> nat \<Rightarrow> nat" where
  "piece_len len fs i = (if i = frame_count len fs - 1 then (if len mod fs = 0 then fs else len mod fs) else fs)"

lemma frame_count_bound: "0 < fs \<Longrightarrow> q < len \<Longrightarrow> q div fs < frame_count len fs"
proof -
  assume a: "0 < fs" "q < len"
  have "q div fs * fs \<le> q" by simp
  moreover have "len = len div fs * fs + len mod fs" by simp
  moreover have "len mod fs < fs" using a by simp
  ultimately have "q div fs * fs < len div fs * fs + len mod fs" using a by linarith
  show ?thesis
  proof (cases "len mod fs = 0")
    case True
    then have "q div fs * fs < len div fs * fs" using \<open>q div fs * fs < _\<close> by simp
    then show ?thesis using True by (simp add: frame_count_def)
  next
    case False
    have "q div fs \<le> len div fs" using a by (simp add: div_le_mono)
    then show ?thesis using False by (simp add: frame_count_def)
  qed
qed

lemma frame_count_size:
  assumes "0 < fs"
  shows "len = 0 \<and> frame_count len fs = 0
       \<or> 0 < frame_count len fs \<and> len = (frame_count len fs - 1) * fs + piece_len len fs (frame_count len fs - 1)
         \<and> 0 < piece_len len fs (frame_count len fs - 1) \<and> piece_len len fs (frame_count len fs - 1) \<le> fs"
proof (cases "len mod fs = 0")
  case True
  then obtain k where k: "len = k * fs" by (metis mod_0_imp_dvd dvd_def mult.commute)
  then show ?thesis using assms by (cases k) (simp_all add: frame_count_def piece_len_def)
next
  case False
  have "len mod fs < fs" using assms by simp
  then show ?thesis using False by (simp add: frame_count_def piece_len_def less_imp_le)
qed

lemma piece_fits: "0 < fs \<Longrightarrow> i < frame_count len fs \<Longrightarrow> i * fs + piece_len len fs i \<le> len"
proof -
  assume a: "0 < fs" "i < frame_count len fs"
  then consider "i = frame_count len fs - 1" | "i + 1 \<le> frame_count len fs - 1" by linarith
  then show ?thesis
  proof cases
    case 1 then show ?thesis using a frame_count_size [of fs len] by auto
  next
    case 2
    then have "(i + 1) * fs \<le> (frame_count len fs - 1) * fs" by (rule mult_le_mono1)
    moreover have "piece_len len fs i = fs" using 2 by (auto simp: piece_len_def)
    ultimately show ?thesis using a frame_count_size [of fs len] by auto
  qed
qed

lemma piece_covers:
  assumes "0 < fs" "q < len"
  shows "i = q div fs \<longleftrightarrow> i < frame_count len fs \<and> i * fs \<le> q \<and> q < i * fs + piece_len len fs i"
proof
  assume i: "i = q div fs"
  have b: "i < frame_count len fs" using frame_count_bound [OF assms] i by simp
  have lo: "i * fs \<le> q" using i by simp
  have "q mod fs < fs" using assms by simp
  then have hi: "q < i * fs + fs" unfolding i using div_mult_mod_eq [of q fs] by linarith
  have "q < i * fs + piece_len len fs i"
  proof (cases "i = frame_count len fs - 1")
    case True
    then show ?thesis using frame_count_size [OF assms(1), of len] assms(2) by auto
  next
    case False
    then show ?thesis using hi by (simp add: piece_len_def)
  qed
  then show "i < frame_count len fs \<and> i * fs \<le> q \<and> q < i * fs + piece_len len fs i" using b lo by simp
next
  assume a: "i < frame_count len fs \<and> i * fs \<le> q \<and> q < i * fs + piece_len len fs i"
  have "len mod fs < fs" using assms by simp
  then have "piece_len len fs i \<le> fs" by (simp add: piece_len_def less_imp_le)
  then have "q < (i + 1) * fs" using a by simp
  moreover have "i * fs \<le> q" using a by simp
  ultimately show "i = q div fs"
    by (metis Suc_eq_plus1 div_nat_eqI mult.commute)
qed

lemma TxPayload_eq:
  "0 < fs \<Longrightarrow> len \<le> length payload \<Longrightarrow> TxPayload pid dest payload len fs =
     Some \<lparr>tx_id = pid, destination_id = dest, tx_payload_size = len, tx_frame_size = min len fs,
       tx_last_frame_size = (if len mod fs = 0 then fs else len mod fs), next_frame = 0, retrieved = False,
       frame_transmitted = replicate (frame_count len fs) False, tx_frames_per_packet = frame_count len fs,
       tx_bytes = take len payload\<rparr>"
  by (auto simp: TxPayload_def frame_count_def Let_def min_def)

lemma RxPayload_eq:
  "0 < fs \<Longrightarrow> RxPayload mem pid len fs =
     Some \<lparr>rx_id = pid, rx_payload_size = len, rx_bytes = mem, frame_received = replicate (frame_count len fs) False,
       rx_frames_per_packet = frame_count len fs, rx_frame_size = fs,
       rx_last_frame_size = (if len mod fs = 0 then fs else len mod fs)\<rparr>"
  by (auto simp: RxPayload_def frame_count_def Let_def)

lemma tx_offset: "0 < fs \<Longrightarrow> i < frame_count len fs \<Longrightarrow> i * min len fs = i * fs"
proof (cases "len < fs")
  case True
  assume "0 < fs" "i < frame_count len fs"
  then have "i = 0" using True by (auto simp: frame_count_def split: if_splits)
  then show ?thesis by simp
qed simp

section \<open>Reassembly\<close>

text \<open>What holds of a receiving payload while frames of one packet arrive: every byte of a frame marked
  as received is the packet's.\<close>

definition rx_ok :: "nat \<Rightarrow> bytes \<Rightarrow> rx_payload \<Rightarrow> bool" where
  "rx_ok fs payload r \<longleftrightarrow>
     rx_payload_size r = length payload \<and> rx_frame_size r = fs \<and> length (rx_bytes r) = length payload \<and>
     rx_frames_per_packet r = frame_count (length payload) fs \<and>
     rx_last_frame_size r = (if length payload mod fs = 0 then fs else length payload mod fs) \<and>
     length (frame_received r) = frame_count (length payload) fs \<and>
     (\<forall>q<length payload. frame_received r ! (q div fs) \<longrightarrow> rx_bytes r ! q = payload ! q)"

lemma copy_to_Some:
  "off + n \<le> length dst \<Longrightarrow> n \<le> length src \<Longrightarrow>
   \<exists>buf. copy_to dst off src n = Some buf \<and> length buf = length dst \<and>
     (\<forall>q<length dst. buf ! q = (if off \<le> q \<and> q < off + n then src ! (q - off) else dst ! q))"
  by (auto simp: copy_to_def nth_append min_def)

lemma rx_new_ok:
  "0 < fs \<Longrightarrow> length mem = length payload \<Longrightarrow>
   \<exists>r. RxPayload mem pid (length payload) fs = Some r \<and> rx_ok fs payload r \<and> frame_received r = replicate (frame_count (length payload) fs) False"
  by (auto simp: RxPayload_eq rx_ok_def frame_count_bound)

lemma rx_add_ok:
  assumes fs: "0 < fs" and ok: "rx_ok fs payload r" and i: "i < frame_count (length payload) fs"
    and d: "piece_len (length payload) fs i \<le> length d"
      "\<And>k. k < piece_len (length payload) fs i \<Longrightarrow> d ! k = payload ! (i * fs + k)"
  shows "\<exists>b r'. rx_add_frame r i d = Some (b, r') \<and> rx_ok fs payload r' \<and> b = (\<not> frame_received r ! i) \<and>
    frame_received r' = (frame_received r)[i := True]"
proof (cases "frame_received r ! i")
  case True
  then have "(frame_received r)[i := True] = frame_received r" by (metis (full_types) list_update_id)
  then show ?thesis using True ok i by (intro exI [of _ False] exI [of _ r]) (simp add: rx_add_frame_def rx_ok_def)
next
  case False
  let ?n = "piece_len (length payload) fs i"
  have "i * fs + ?n \<le> length (rx_bytes r)" using piece_fits [OF fs i] ok by (simp add: rx_ok_def)
  then obtain buf where b: "copy_to (rx_bytes r) (i * fs) d ?n = Some buf" "length buf = length payload"
    "\<forall>q<length payload. buf ! q = (if i * fs \<le> q \<and> q < i * fs + ?n then d ! (q - i * fs) else rx_bytes r ! q)"
    using copy_to_Some [of "i * fs" ?n "rx_bytes r" d] d(1) ok by (auto simp: rx_ok_def)
  have n: "(if i = rx_frames_per_packet r - 1 then rx_last_frame_size r else rx_frame_size r) = ?n"
    using ok by (simp add: rx_ok_def piece_len_def)
  have new: "buf ! q = payload ! q" if q: "q < length payload" "(frame_received r)[i := True] ! (q div fs)" for q
  proof (cases "i * fs \<le> q \<and> q < i * fs + ?n")
    case True
    then have "q - i * fs < ?n" by linarith
    then show ?thesis using d(2) [of "q - i * fs"] True b(3) q(1) by simp
  next
    case out: False
    then have "i \<noteq> q div fs" using piece_covers [OF fs q(1), of i] by blast
    then have "frame_received r ! (q div fs)" using q(2) by simp
    moreover have "buf ! q = rx_bytes r ! q" using b(3) q(1) out by presburger
    ultimately show ?thesis using q(1) ok by (simp add: rx_ok_def)
  qed
  let ?r = "r\<lparr>rx_bytes := buf, frame_received := (frame_received r)[i := True]\<rparr>"
  have "rx_frames_per_packet r = frame_count (length payload) fs" "rx_frame_size r = fs" using ok by (simp_all add: rx_ok_def)
  then have "rx_add_frame r i d = Some (True, ?r)"
    using False i b(1) n by (simp only: rx_add_frame_def) simp
  moreover have "rx_ok fs payload ?r" using ok b(2) new by (simp add: rx_ok_def)
  ultimately show ?thesis using False by (intro exI [of _ True] exI [of _ ?r]) simp
qed

lemma rx_add_piece:
  assumes "0 < fs" "rx_ok fs payload r" "i < frame_count (length payload) fs"
  shows "\<exists>b r'. rx_add_frame r i (drop (i * fs) payload) = Some (b, r') \<and> rx_ok fs payload r' \<and>
    frame_received r' = (frame_received r)[i := True]"
proof -
  have "piece_len (length payload) fs i \<le> length (drop (i * fs) payload)"
    using piece_fits [OF assms(1,3)] by (simp add: le_diff_conv2 add.commute)
  then show ?thesis
    using rx_add_ok [OF assms, of "drop (i * fs) payload"] piece_fits [OF assms(1,3)] by (metis nth_drop add_leD1)
qed

lemma rx_complete_bytes:
  assumes "0 < fs" "rx_ok fs payload r" "isComplete r"
  shows "rx_bytes r = payload"
proof (rule nth_equalityI)
  show "length (rx_bytes r) = length payload" using assms(2) by (simp add: rx_ok_def)
  fix q assume "q < length (rx_bytes r)"
  then have q: "q < length payload" using assms(2) by (simp add: rx_ok_def)
  then have "q div fs < rx_frames_per_packet r" using frame_count_bound [OF assms(1) q] assms(2) by (simp add: rx_ok_def)
  then have "frame_received r ! (q div fs)" using assms(3) by (simp add: isComplete_def list_all_iff)
  then show "rx_bytes r ! q = payload ! q" using assms(2) q by (simp add: rx_ok_def)
qed

text \<open>Frames of a sending payload delivered to a receiving one.\<close>

fun deliver :: "tx_payload \<Rightarrow> nat list \<Rightarrow> rx_payload \<Rightarrow> rx_payload option" where
  "deliver t [] r = Some r"
| "deliver t (i # is) r =
     (case get_frame t i of
        (None, _) \<Rightarrow> None
      | (Some d, t') \<Rightarrow> do { (b, r') \<leftarrow> rx_add_frame r i d; deliver t' is r' })"

definition tx_ok :: "nat \<Rightarrow> bytes \<Rightarrow> tx_payload \<Rightarrow> bool" where
  "tx_ok fs payload t \<longleftrightarrow> tx_payload_size t = length payload \<and> tx_frame_size t = min (length payload) fs \<and>
     tx_frames_per_packet t = frame_count (length payload) fs \<and> tx_bytes t = payload \<and>
     tx_last_frame_size t = (if length payload mod fs = 0 then fs else length payload mod fs) \<and>
     length (frame_transmitted t) = frame_count (length payload) fs"

lemma tx_new_ok:
  "0 < fs \<Longrightarrow> \<exists>t. TxPayload pid dest payload (length payload) fs = Some t \<and> tx_ok fs payload t \<and> next_frame t = 0 \<and>
     \<not> retrieved t \<and> tx_id t = pid \<and> frame_transmitted t = replicate (frame_count (length payload) fs) False"
  by (simp add: TxPayload_eq tx_ok_def)

lemma deliver_ok:
  assumes "0 < fs"
  shows "tx_ok fs payload t \<Longrightarrow> rx_ok fs payload r \<Longrightarrow> set is \<subseteq> {..<frame_count (length payload) fs} \<Longrightarrow>
    \<exists>r'. deliver t is r = Some r' \<and> rx_ok fs payload r' \<and>
      (\<forall>k<frame_count (length payload) fs. frame_received r' ! k \<longleftrightarrow> frame_received r ! k \<or> k \<in> set is)"
proof (induction "is" arbitrary: t r)
  case (Cons i "is")
  let ?d = "drop (i * fs) payload"
  have i: "i < frame_count (length payload) fs" using Cons.prems by simp
  have g: "get_frame t i = (Some ?d, t\<lparr>frame_transmitted := (frame_transmitted t)[i := True]\<rparr>)"
    using Cons.prems(1) i by (simp add: get_frame_def tx_ok_def tx_offset [OF assms i] del: mult_cancel1 mult_cancel2)
  have t': "tx_ok fs payload (t\<lparr>frame_transmitted := (frame_transmitted t)[i := True]\<rparr>)"
    using Cons.prems(1) by (simp add: tx_ok_def)
  obtain b r' where r': "rx_add_frame r i ?d = Some (b, r')" "rx_ok fs payload r'"
    "frame_received r' = (frame_received r)[i := True]"
    using rx_add_piece [OF assms Cons.prems(2) i] by blast
  obtain r'' where "deliver (t\<lparr>frame_transmitted := (frame_transmitted t)[i := True]\<rparr>) is r' = Some r''"
    "rx_ok fs payload r''"
    "\<forall>k<frame_count (length payload) fs. frame_received r'' ! k \<longleftrightarrow> frame_received r' ! k \<or> k \<in> set is"
    using Cons.IH [OF t' r'(2)] Cons.prems(3) by auto
  moreover have "length (frame_received r) = frame_count (length payload) fs" using Cons.prems(2) by (simp add: rx_ok_def)
  ultimately show ?case using g r' i by (auto simp: nth_list_update)
qed simp

lemma num_remaining_eq:
  "rx_ok fs payload r \<Longrightarrow> frame_count (length payload) fs = n \<Longrightarrow>
   (\<And>k. k < n \<Longrightarrow> frame_received r ! k \<longleftrightarrow> k \<in> S) \<Longrightarrow> S \<subseteq> {..<n} \<Longrightarrow> num_frames_remaining r = n - card S"
proof -
  assume a: "rx_ok fs payload r" "frame_count (length payload) fs = n"
    "\<And>k. k < n \<Longrightarrow> frame_received r ! k \<longleftrightarrow> k \<in> S" "S \<subseteq> {..<n}"
  have "num_frames_remaining r = card (set (filter (\<lambda>i. \<not> frame_received r ! i) [0..<n]))"
    using a(1,2) by (subst distinct_card) (simp_all add: num_frames_remaining_def rx_ok_def)
  also have "set (filter (\<lambda>i. \<not> frame_received r ! i) [0..<n]) = {..<n} - S" using a(3,4) by auto
  also have "card \<dots> = n - card S" using a(4) by (simp add: card_Diff_subset finite_subset)
  finally show ?thesis .
qed

text \<open>
  a packet of any length, sent in frames of any positive size, is rebuilt from its frames in any
  order and with any repetitions: no copy leaves an array, the packet is complete exactly when
  every frame has arrived, it is then the bytes that were sent, and until then the number of
  remaining frames is right.
\<close>

theorem payload_reassembly:
  assumes "0 < fs" "length mem = length payload" "set is \<subseteq> {..<frame_count (length payload) fs}"
  shows "\<exists>t r r'. TxPayload pid dest payload (length payload) fs = Some t \<and> RxPayload mem pid (length payload) fs = Some r \<and>
    get_frames_per_packet t = frame_count (length payload) fs \<and>
    deliver t is r = Some r' \<and> (isComplete r' \<longleftrightarrow> set is = {..<frame_count (length payload) fs}) \<and>
    (isComplete r' \<longrightarrow> rx_bytes r' = payload) \<and> num_frames_remaining r' = frame_count (length payload) fs - card (set is)"
proof -
  let ?n = "frame_count (length payload) fs"
  obtain t where t: "TxPayload pid dest payload (length payload) fs = Some t" "tx_ok fs payload t"
    using tx_new_ok [OF assms(1)] by blast
  obtain r where r: "RxPayload mem pid (length payload) fs = Some r" "rx_ok fs payload r" "frame_received r = replicate ?n False"
    using rx_new_ok [OF assms(1,2)] by blast
  obtain r' where r': "deliver t is r = Some r'" "rx_ok fs payload r'"
    "\<forall>k<?n. frame_received r' ! k \<longleftrightarrow> frame_received r ! k \<or> k \<in> set is"
    using deliver_ok [OF assms(1) t(2) r(2) assms(3)] by blast
  have rec: "\<And>k. k < ?n \<Longrightarrow> frame_received r' ! k \<longleftrightarrow> k \<in> set is" using r' r(3) by simp
  have "isComplete r' \<longleftrightarrow> set is = {..<?n}"
    using r'(2) rec assms(3) by (auto simp: isComplete_def rx_ok_def list_all_iff)
  moreover have "num_frames_remaining r' = ?n - card (set is)"
    by (rule num_remaining_eq [OF r'(2) refl rec assms(3)])
  ultimately show ?thesis
    using t r(1) r'(1) rx_complete_bytes [OF assms(1) r'(2)] by (auto simp: get_frames_per_packet_def tx_ok_def)
qed

section \<open>Handing out the frames\<close>

fun next_frames :: "nat \<Rightarrow> tx_payload \<Rightarrow> next_frame_result option list \<times> tx_payload" where
  "next_frames 0 t = ([], t)"
| "next_frames (Suc n) t = (let (r, t1) = get_next_frame t; (rs, t2) = next_frames n t1 in (r # rs, t2))"

definition frame_at :: "nat \<Rightarrow> int \<Rightarrow> bytes \<Rightarrow> nat \<Rightarrow> next_frame_result" where
  "frame_at fs pid payload i = \<lparr>nf_data = drop (i * fs) payload, nf_packet_id = pid, nf_frame_id = i,
     nf_frame_size = piece_len (length payload) fs i, nf_total_len = length payload\<rparr>"

definition handed_out :: "nat \<Rightarrow> int \<Rightarrow> bytes \<Rightarrow> nat \<Rightarrow> tx_payload \<Rightarrow> bool" where
  "handed_out fs pid payload k t \<longleftrightarrow> tx_ok fs payload t \<and> tx_id t = pid \<and> next_frame t = k \<and>
     k \<le> frame_count (length payload) fs \<and>
     frame_transmitted t = replicate k True @ replicate (frame_count (length payload) fs - k) False \<and>
     (retrieved t \<longleftrightarrow> k = frame_count (length payload) fs \<and> 0 < k)"

lemma transmitted_step:
  "k < n \<Longrightarrow> (replicate k True @ replicate (n - k) False)[k := True] = replicate (Suc k) True @ replicate (n - Suc k) False"
  by (rule nth_equalityI) (auto simp: nth_list_update nth_append simp del: replicate_Suc)

lemma all_transmitted:
  "k < n \<Longrightarrow> list_all (\<lambda>i. (replicate (Suc k) True @ replicate (n - Suc k) False) ! i) [0..<n] \<longleftrightarrow> Suc k = n"
  by (auto simp: list_all_iff nth_append simp del: replicate_Suc)

lemma tx_piece_size:
  assumes "0 < fs" "tx_ok fs payload t" "k < frame_count (length payload) fs"
  shows "(if k = tx_frames_per_packet t - 1 then tx_last_frame_size t else tx_frame_size t) = piece_len (length payload) fs k"
proof (cases "k = frame_count (length payload) fs - 1")
  case False
  then have "Suc k < frame_count (length payload) fs" using assms(3) by simp
  from piece_fits [OF assms(1,3)] have "piece_len (length payload) fs k \<le> length payload" by simp
  then have "fs \<le> length payload" using False by (simp add: piece_len_def)
  then show ?thesis using False assms(2) by (simp add: piece_len_def tx_ok_def)
qed (use assms(2) in \<open>simp add: piece_len_def tx_ok_def\<close>)

lemma get_next_frame_result:
  assumes "0 < fs" "tx_ok fs payload t" "next_frame t < frame_count (length payload) fs"
  shows "fst (get_next_frame t) = Some (frame_at fs (tx_id t) payload (next_frame t))"
proof -
  have off: "next_frame t * tx_frame_size t = next_frame t * fs"
    using assms(2) tx_offset [OF assms(1,3)] by (simp add: tx_ok_def)
  have fp: "next_frame t < tx_frames_per_packet t" "tx_bytes t = payload" "tx_payload_size t = length payload"
    using assms(2,3) by (simp_all add: tx_ok_def)
  show ?thesis
    by (simp only: get_next_frame_def Let_def if_P [OF fp(1)] fst_conv off tx_piece_size [OF assms] frame_at_def fp(2,3))
qed

lemma get_next_frame_step:
  assumes "0 < fs" "handed_out fs pid payload k t" "k < frame_count (length payload) fs"
  shows "\<exists>t'. get_next_frame t = (Some (frame_at fs pid payload k), t') \<and> handed_out fs pid payload (Suc k) t'"
proof -
  let ?n = "frame_count (length payload) fs"
  have h: "tx_ok fs payload t" "tx_id t = pid" "next_frame t = k" "tx_frames_per_packet t = ?n"
    "frame_transmitted t = replicate k True @ replicate (?n - k) False" "\<not> retrieved t"
    using assms by (auto simp: handed_out_def tx_ok_def)
  have at: "allFramesTransmitted (t\<lparr>frame_transmitted := (frame_transmitted t)[k := True], next_frame := k + 1\<rparr>) \<longleftrightarrow> Suc k = ?n"
    unfolding allFramesTransmitted_def using all_transmitted [OF assms(3)]
    by (simp add: h(4,5) transmitted_step [OF assms(3)] del: replicate_Suc)
  let ?t1 = "t\<lparr>frame_transmitted := (frame_transmitted t)[k := True], next_frame := k + 1\<rparr>"
  let ?t2 = "if allFramesTransmitted ?t1 then ?t1\<lparr>retrieved := True\<rparr> else ?t1"
  have "get_next_frame t = (Some (frame_at fs pid payload k), ?t2)"
    using get_next_frame_result [OF assms(1) h(1)] assms(3) h(2,3,4) by (simp add: get_next_frame_def Let_def)
  moreover have "handed_out fs pid payload (Suc k) ?t2"
  proof (cases "Suc k = ?n")
    case True
    then have "?t2 = ?t1\<lparr>retrieved := True\<rparr>" using at by simp
    then show ?thesis using True h(1,2,5) transmitted_step [OF assms(3)]
      by (simp add: handed_out_def tx_ok_def del: replicate_Suc)
  next
    case False
    then have "?t2 = ?t1" using at by simp
    then show ?thesis using False h(1,2,5,6) assms(3) transmitted_step [OF assms(3)]
      by (simp add: handed_out_def tx_ok_def del: replicate_Suc)
  qed
  ultimately show ?thesis by blast
qed

lemma next_frames_run:
  assumes "0 < fs"
  shows "handed_out fs pid payload k t \<Longrightarrow> k + m \<le> frame_count (length payload) fs \<Longrightarrow>
    \<exists>t'. next_frames m t = (map (Some \<circ> frame_at fs pid payload) [k..<k + m], t') \<and> handed_out fs pid payload (k + m) t'"
proof (induction m arbitrary: k t)
  case (Suc m)
  obtain t1 where t1: "get_next_frame t = (Some (frame_at fs pid payload k), t1)" "handed_out fs pid payload (Suc k) t1"
    using get_next_frame_step [OF assms Suc.prems(1)] Suc.prems(2) by auto
  obtain t2 where "next_frames m t1 = (map (Some \<circ> frame_at fs pid payload) [Suc k..<Suc k + m], t2)"
    "handed_out fs pid payload (Suc k + m) t2"
    using Suc.IH [OF t1(2)] Suc.prems(2) by auto
  moreover have "[k..<k + Suc m] = k # [Suc k..<Suc k + m]" by (simp add: upt_conv_Cons del: upt_Suc)
  ultimately show ?case using t1(1) by (simp del: upt_Suc)
qed simp

lemma next_frames_end: "next_frame t = tx_frames_per_packet t \<Longrightarrow> next_frames m t = (replicate m None, t)"
  by (induction m) (simp_all add: get_next_frame_def)

lemma next_frames_add:
  "next_frames (m + n) t = (let (rs, t1) = next_frames m t; (rs', t2) = next_frames n t1 in (rs @ rs', t2))"
  by (induction m arbitrary: t) (simp_all add: Let_def split_def)

lemma piece_take:
  assumes "0 < fs" "i < frame_count (length payload) fs"
  shows "take (piece_len (length payload) fs i) (drop (i * fs) payload) = take fs (drop (i * fs) payload)"
  using frame_count_size [OF assms(1), of "length payload"] assms(2)
  by (cases "i = frame_count (length payload) fs - 1") (auto simp: piece_len_def)

lemma concat_pieces: "concat (map (\<lambda>i. take fs (drop (i * fs) payload)) [0..<m]) = take (m * fs) payload"
  by (induction m) (simp_all add: take_add [symmetric] add.commute)

text \<open>
  The sending payload hands out its frames one after the other: frame \<open>i\<close> is the \<open>i\<close>-th piece of the
  packet, with the packet's id and length, the pieces lie inside the packet and make it up, the
  payload counts as retrieved from the last frame on and not before, and every later call hands
  out nothing.
\<close>

theorem payload_handed_out:
  assumes "0 < fs" "m < frame_count (length payload) fs"
  shows "\<exists>t t1 t2 fr. TxPayload pid dest payload (length payload) fs = Some t \<and>
    next_frames m t = (map Some (take m fr), t1) \<and> \<not> retrieved t1 \<and>
    next_frames (frame_count (length payload) fs + n) t = (map Some fr @ replicate n None, t2) \<and> retrieved t2 \<and>
    map nf_frame_id fr = [0..<frame_count (length payload) fs] \<and>
    list_all (\<lambda>f. nf_packet_id f = pid \<and> nf_total_len f = length payload \<and> nf_frame_size f \<le> length (nf_data f)) fr \<and>
    concat (map (\<lambda>f. take (nf_frame_size f) (nf_data f)) fr) = payload"
proof -
  let ?n = "frame_count (length payload) fs"
  let ?fr = "map (frame_at fs pid payload) [0..<?n]"
  obtain t where t: "TxPayload pid dest payload (length payload) fs = Some t" "handed_out fs pid payload 0 t"
    using tx_new_ok [OF assms(1), of pid dest payload] by (auto simp: handed_out_def)
  obtain t1 where t1: "next_frames m t = (map (Some \<circ> frame_at fs pid payload) [0..<m], t1)" "handed_out fs pid payload m t1"
    using next_frames_run [OF assms(1) t(2), of m] assms(2) by auto
  obtain t2 where t2: "next_frames ?n t = (map (Some \<circ> frame_at fs pid payload) [0..<?n], t2)" "handed_out fs pid payload ?n t2"
    using next_frames_run [OF assms(1) t(2), of ?n] by auto
  have e: "next_frames (?n + n) t = (map Some ?fr @ replicate n None, t2)"
    using t2 next_frames_end [of t2 n] by (simp add: next_frames_add handed_out_def tx_ok_def)
  have "map (\<lambda>f. take (nf_frame_size f) (nf_data f)) ?fr = map (\<lambda>i. take fs (drop (i * fs) payload)) [0..<?n]"
    by (auto simp: frame_at_def piece_take [OF assms(1)])
  then have "concat (map (\<lambda>f. take (nf_frame_size f) (nf_data f)) ?fr) = take (?n * fs) payload"
    by (simp only: concat_pieces)
  moreover have "length payload \<le> ?n * fs"
    using frame_count_size [OF assms(1), of "length payload"] mult_eq_if [of ?n fs] by auto
  ultimately have "concat (map (\<lambda>f. take (nf_frame_size f) (nf_data f)) ?fr) = payload" by simp
  moreover have "map nf_frame_id ?fr = [0..<?n]" by (simp add: frame_at_def comp_def)
  moreover have "list_all (\<lambda>f. nf_packet_id f = pid \<and> nf_total_len f = length payload \<and> nf_frame_size f \<le> length (nf_data f)) ?fr"
    using piece_fits [OF assms(1), of _ "length payload"] by (fastforce simp: list_all_iff frame_at_def)
  moreover have "next_frames m t = (map Some (take m ?fr), t1)" using t1(1) assms(2) by (simp add: take_map)
  moreover have "\<not> retrieved t1" "retrieved t2" using t1(2) t2(2) assms(2) by (auto simp: handed_out_def)
  ultimately show ?thesis using t(1) e by blast
qed

lemma payload_reassembly_witness:
  "\<exists>t r r'. TxPayload 7 2 [1, 2, 3, 4, 5] (length [1, 2, 3, 4, 5 :: u8]) 2 = Some t \<and>
    RxPayload [0, 0, 0, 0, 0] 7 (length [1, 2, 3, 4, 5 :: u8]) 2 = Some r \<and>
    get_frames_per_packet t = frame_count (length [1, 2, 3, 4, 5 :: u8]) 2 \<and>
    deliver t [2, 0, 2] r = Some r' \<and>
    (isComplete r' \<longleftrightarrow> set [2, 0, 2] = {..<frame_count (length [1, 2, 3, 4, 5 :: u8]) 2}) \<and>
    (isComplete r' \<longrightarrow> rx_bytes r' = [1, 2, 3, 4, 5]) \<and>
    num_frames_remaining r' = frame_count (length [1, 2, 3, 4, 5 :: u8]) 2 - card (set [2, 0, 2 :: nat])"
  by (rule payload_reassembly) (simp_all add: frame_count_def)

lemma payload_handed_out_witness:
  "\<exists>t t1 t2 fr. TxPayload 7 2 [1, 2, 3] (length [1, 2, 3 :: u8]) 2 = Some t \<and>
    next_frames 1 t = (map Some (take 1 fr), t1) \<and> \<not> retrieved t1 \<and>
    next_frames (frame_count (length [1, 2, 3 :: u8]) 2 + 1) t = (map Some fr @ replicate 1 None, t2) \<and> retrieved t2 \<and>
    map nf_frame_id fr = [0..<frame_count (length [1, 2, 3 :: u8]) 2] \<and>
    list_all (\<lambda>f. nf_packet_id f = 7 \<and> nf_total_len f = length [1, 2, 3 :: u8] \<and> nf_frame_size f \<le> length (nf_data f)) fr \<and>
    concat (map (\<lambda>f. take (nf_frame_size f) (nf_data f)) fr) = [1, 2, 3]"
  by (rule payload_handed_out) (simp_all add: frame_count_def)

end
