(* ===== verification/Packet_Store.thy ===== *)
theory Packet_Store
  imports Payload
begin

text \<open>
  \<^verbatim>\<open>ofdm_radio/src_reusable/PacketStore.cc\<close> with the read and write calls of \<^verbatim>\<open>TunTap.cc\<close>: the packets
  waiting to be sent and the packets being received. The answers of the operating system are
  arguments: what \<open>select\<close>, \<open>read\<close> and \<open>write\<close> return. \<open>None\<close> is the process ending, by \<open>exit\<close>, a division by zero
  or a copy beyond an array. Every operation is one step; the thread of \<open>readPackets\<close> interleaves its
  steps with those of the callers. The theorems: packets come out of the receiving side exactly
  when complete and byte for byte as they were sent, the waiting packets form a queue for every
  destination, and of every waiting packet only the first frame is ever handed out.
\<close>

section \<open>The tap interface\<close>

text \<open>\<open>nread\<close> is a \<^verbatim>\<open>uint16_t\<close>: the comparison with zero in the code is never true, and a failed \<open>read\<close>
  counts as 65535 bytes.\<close>

definition cread :: "int \<Rightarrow> bool \<Rightarrow> int \<Rightarrow> nat option" where
  "cread select_result is_set read_result =
     (if select_result < 0 then None
      else Some (if is_set then nat (read_result mod 2 ^ 16) else 0))"

definition cwrite :: "(bytes \<Rightarrow> int) \<Rightarrow> bytes \<Rightarrow> int option" where
  "cwrite os_write buf = (if os_write buf < 0 then None else Some (os_write buf))"

section \<open>State\<close>

text \<open>The packets given to the tap interface are kept in \<open>tun_out\<close>.\<close>

record packet_store =
  rx_packets :: "rx_payload list"
  completed_packets :: "nat list"
  tx_packets :: "tx_payload list"
  frame_len :: nat
  next_packet :: nat
  written_packets :: nat
  num_nodes_in_net :: nat
  data_flowing :: bool
  continue_reading :: bool
  using_tun_tap :: bool
  tun_out :: "bytes list"

definition PacketStore :: "nat \<Rightarrow> nat \<Rightarrow> bool \<Rightarrow> packet_store" where
  "PacketStore nodes frame_size use_tap =
     \<lparr>rx_packets = [], completed_packets = [], tx_packets = [], frame_len = frame_size, next_packet = 0,
      written_packets = 0, num_nodes_in_net = nodes, data_flowing = False, continue_reading = True,
      using_tun_tap = use_tap, tun_out = []\<rparr>"

definition PACKET_NOT_COMPLETE :: nat where "PACKET_NOT_COMPLETE = 101"
definition PACKET_COMPLETE :: nat where "PACKET_COMPLETE = 102"
definition P2M_FRAME_PAYLOAD_MAX_SIZE :: nat where "P2M_FRAME_PAYLOAD_MAX_SIZE = 10000"

section \<open>Sending side\<close>

fun get_frame_in :: "tx_payload list \<Rightarrow> int \<Rightarrow> nat \<Rightarrow> bytes option \<times> tx_payload list" where
  "get_frame_in [] packet_id frame_id = (None, [])"
| "get_frame_in (t # ts) packet_id frame_id =
     (if tx_id t = packet_id then let (r, t') = get_frame t frame_id in (r, t' # ts)
      else let (r, ts') = get_frame_in ts packet_id frame_id in (r, t # ts'))"

definition store_get_frame :: "packet_store \<Rightarrow> int \<Rightarrow> nat \<Rightarrow> bytes option \<times> packet_store" where
  "store_get_frame st packet_id frame_id =
     (let (r, ts) = get_frame_in (tx_packets st) packet_id frame_id in (r, st\<lparr>tx_packets := ts\<rparr>))"

definition store_get_next_frame :: "packet_store \<Rightarrow> bytes option \<times> packet_store" where
  "store_get_next_frame st =
     store_get_frame (st\<lparr>next_packet := wrap32 (next_packet st + 1)\<rparr>) (int (next_packet st)) 0"

text \<open>The destination is returned as an \<^verbatim>\<open>int\<close>.\<close>

definition get_next_frame_destination :: "packet_store \<Rightarrow> int" where
  "get_next_frame_destination st =
     (case List.find (\<lambda>t. tx_id t = int (next_packet st)) (tx_packets st) of
        Some t \<Rightarrow> signed_take_bit 31 (int (destination_id t))
      | None \<Rightarrow> - 1)"

fun take_frame_for :: "tx_payload list \<Rightarrow> nat \<Rightarrow> next_frame_result option \<times> tx_payload list" where
  "take_frame_for [] dest_id = (None, [])"
| "take_frame_for (t # ts) dest_id =
     (if destination_id t = dest_id \<and> \<not> retrieved t then (fst (get_next_frame t), ts)
      else let (r, ts') = take_frame_for ts dest_id in (r, t # ts'))"

text \<open>When nothing is handed out, the variables of the caller keep their values: the assignment of 0
  changes the pointer \<open>total_packet_len\<close>, not what it points to.\<close>

definition get_next_frame_for_destination :: "packet_store \<Rightarrow> nat \<Rightarrow> next_frame_result option \<times> packet_store" where
  "get_next_frame_for_destination st dest_id =
     (let (r, ts) = take_frame_for (tx_packets st) dest_id in (r, st\<lparr>tx_packets := ts\<rparr>))"

text \<open>One round of the loop of the reading thread: its buffer and its counter, and the answers of the
  operating system; \<open>got\<close> are the bytes \<open>read\<close> has written to the start of the buffer.\<close>

record reader =
  rd_data :: bytes
  rd_count :: int

definition read_packet ::
  "int \<Rightarrow> bool \<Rightarrow> int \<Rightarrow> bytes \<Rightarrow> reader \<Rightarrow> packet_store \<Rightarrow> (reader \<times> packet_store) option" where
  "read_packet select_result is_set read_result got rd st = do {
     total \<leftarrow> cread select_result is_set read_result;
     let data = (if is_set then got @ drop (length got) (rd_data rd) else rd_data rd);
     let rd1 = rd\<lparr>rd_data := data\<rparr>;
     if total > 0 \<and> total \<le> P2M_FRAME_PAYLOAD_MAX_SIZE then do {
       let dest_id = unat (data ! 33);
       if dest_id > 0 \<and> dest_id \<le> num_nodes_in_net st then do {
         payload \<leftarrow> TxPayload (rd_count rd) dest_id data total (frame_len st);
         Some (rd1\<lparr>rd_count := rd_count rd + 1\<rparr>, st\<lparr>data_flowing := True, tx_packets := tx_packets st @ [payload]\<rparr>)
       } else Some (rd1, st)
     } else Some (rd1, st\<lparr>data_flowing := False\<rparr>)
   }"

definition data_is_streaming :: "packet_store \<Rightarrow> bool" where
  "data_is_streaming st = data_flowing st"

definition store_size :: "packet_store \<Rightarrow> int" where
  "store_size st = signed_take_bit 31 (int (length (tx_packets st)))"

section \<open>Receiving side\<close>

text \<open>What follows a frame added to \<open>r\<close>, in both places of the code: a complete packet is written to the
  tap interface, and the packet is completed if all its bytes have been taken.\<close>

definition finish_packet :: "(bytes \<Rightarrow> int) \<Rightarrow> int \<Rightarrow> rx_payload \<Rightarrow> packet_store \<Rightarrow> (bool \<times> packet_store) option" where
  "finish_packet os_write packet_id r st =
     (if isComplete r then do {
        result \<leftarrow> cwrite os_write (rx_bytes r);
        let st1 = st\<lparr>tun_out := tun_out st @ [rx_bytes r]\<rparr>;
        if wrap32 (nat result) = rx_payload_size r
        then Some (True, st1\<lparr>written_packets := wrap32 (written_packets st + 1),
                            completed_packets := completed_packets st @ [nat (packet_id mod 2 ^ 32)]\<rparr>)
        else Some (False, st1)
      } else Some (False, st))"

fun rx_index :: "rx_payload list \<Rightarrow> int \<Rightarrow> nat option" where
  "rx_index [] packet_id = None"
| "rx_index (r # rs) packet_id = (if rx_id r = packet_id then Some 0 else map_option Suc (rx_index rs packet_id))"

text \<open>\<open>mem n\<close> is what a newly allocated array of \<open>n\<close> bytes holds.\<close>

definition store_add_frame ::
  "(nat \<Rightarrow> bytes) \<Rightarrow> (bytes \<Rightarrow> int) \<Rightarrow> packet_store \<Rightarrow> int \<Rightarrow> nat \<Rightarrow> bytes \<Rightarrow> nat \<Rightarrow> (nat \<times> packet_store) option" where
  "store_add_frame mem os_write st packet_id frame_id data total_packet_len =
     (case rx_index (rx_packets st) packet_id of
        Some k \<Rightarrow> do {
          (b, r) \<leftarrow> rx_add_frame (rx_packets st ! k) frame_id data;
          (fin, st') \<leftarrow> finish_packet os_write packet_id r (st\<lparr>rx_packets := (rx_packets st)[k := r]\<rparr>);
          Some (if fin then PACKET_COMPLETE else PACKET_NOT_COMPLETE, st')
        }
      | None \<Rightarrow> do {
          rxp \<leftarrow> RxPayload (mem total_packet_len) packet_id total_packet_len (frame_len st);
          (b, r) \<leftarrow> rx_add_frame rxp frame_id data;
          (fin, st') \<leftarrow> finish_packet os_write packet_id r st;
          Some (if fin then (PACKET_COMPLETE, st')
                else (PACKET_NOT_COMPLETE, st'\<lparr>rx_packets := rx_packets st' @ [r]\<rparr>))
        })"

definition get_written_packets :: "packet_store \<Rightarrow> nat" where
  "get_written_packets st = written_packets st"

definition store_close_interface :: "packet_store \<Rightarrow> packet_store" where
  "store_close_interface st = st\<lparr>continue_reading := False\<rparr>"

section \<open>Reassembly of interleaved packets\<close>

text \<open>Events are pairs of a packet and a frame number; \<open>pk\<close> gives the bytes of every packet, and the data of
  an event is the piece of the packet (the pointer the sender hands out).\<close>

fun receive_all ::
  "(nat \<Rightarrow> bytes) \<Rightarrow> (bytes \<Rightarrow> int) \<Rightarrow> nat \<Rightarrow> (int \<Rightarrow> bytes) \<Rightarrow> (int \<times> nat) list \<Rightarrow> packet_store \<Rightarrow> (nat list \<times> packet_store) option" where
  "receive_all mem os_write fl pk [] st = Some ([], st)"
| "receive_all mem os_write fl pk (e # es) st = do {
     (res, st1) \<leftarrow> store_add_frame mem os_write st (fst e) (snd e) (drop (snd e * fl) (pk (fst e))) (length (pk (fst e)));
     (rest, st2) \<leftarrow> receive_all mem os_write fl pk es st1;
     Some (res # rest, st2)
   }"

definition frames_of :: "nat \<Rightarrow> (int \<Rightarrow> bytes) \<Rightarrow> int \<Rightarrow> nat" where
  "frames_of fl pk p = frame_count (length (pk p)) fl"

definition all_frames :: "nat \<Rightarrow> (int \<Rightarrow> bytes) \<Rightarrow> (int \<times> nat) list \<Rightarrow> int \<Rightarrow> bool" where
  "all_frames fl pk es p \<longleftrightarrow> list_all (\<lambda>k. (p, k) \<in> set es) [0..<frames_of fl pk p]"

definition store_ok :: "nat \<Rightarrow> (int \<Rightarrow> bytes) \<Rightarrow> (int \<times> nat) list \<Rightarrow> packet_store \<Rightarrow> bool" where
  "store_ok fl pk es st \<longleftrightarrow> frame_len st = fl \<and> distinct (map rx_id (rx_packets st)) \<and>
     (\<forall>r\<in>set (rx_packets st). rx_ok fl (pk (rx_id r)) r \<and>
        (\<forall>k<frames_of fl pk (rx_id r). frame_received r ! k \<longleftrightarrow> (rx_id r, k) \<in> set es)) \<and>
     (\<forall>p k. (p, k) \<in> set es \<longrightarrow> p \<notin> rx_id ` set (rx_packets st) \<longrightarrow> frames_of fl pk p = 1)"

lemma all_frames_iff: "all_frames fl pk es p \<longleftrightarrow> (\<forall>k<frames_of fl pk p. (p, k) \<in> set es)"
  by (auto simp: all_frames_def list_all_iff)

lemma rx_index_None: "rx_index rs p = None \<longleftrightarrow> p \<notin> rx_id ` set rs"
  by (induction rs) auto

lemma rx_index_Some: "rx_index rs p = Some k \<Longrightarrow> k < length rs \<and> rx_id (rs ! k) = p"
  by (induction rs arbitrary: k) (auto split: if_splits)

lemma rx_add_frame_id: "rx_add_frame r i d = Some (b, r') \<Longrightarrow> rx_id r' = rx_id r"
  by (auto simp: rx_add_frame_def split: if_splits Option.bind_splits)

lemma isComplete_iff: "rx_ok fl payload r \<Longrightarrow> isComplete r \<longleftrightarrow> (\<forall>k<frame_count (length payload) fl. frame_received r ! k)"
  by (auto simp: isComplete_def rx_ok_def list_all_iff)

lemma RxPayload_id: "RxPayload mem p len fs = Some r \<Longrightarrow> rx_id r = p"
  by (auto simp: RxPayload_def Let_def split: if_splits prod.splits)

lemma finish_packet_eq:
  assumes "0 < fl" "rx_ok fl payload r" "os_write payload = int (length payload)" "length payload < 2 ^ 32"
  shows "finish_packet os_write p r st =
    (if isComplete r
     then Some (True, st\<lparr>tun_out := tun_out st @ [payload], written_packets := wrap32 (written_packets st + 1),
                        completed_packets := completed_packets st @ [nat (p mod 2 ^ 32)]\<rparr>)
     else Some (False, st))"
  using rx_complete_bytes [OF assms(1,2)] assms
  by (auto simp: finish_packet_def cwrite_def wrap32_def rx_ok_def)

lemma add_known:
  assumes "0 < fl" "store_ok fl pk es st" "rx_index (rx_packets st) p = Some k" "i < frames_of fl pk p"
  shows "\<exists>b r. rx_add_frame (rx_packets st ! k) i (drop (i * fl) (pk p)) = Some (b, r) \<and> rx_ok fl (pk p) r \<and> rx_id r = p \<and>
    (\<forall>j<frames_of fl pk p. frame_received r ! j \<longleftrightarrow> (p, j) \<in> set (es @ [(p, i)]))"
proof -
  let ?r = "rx_packets st ! k"
  have k: "k < length (rx_packets st)" "rx_id ?r = p" using rx_index_Some [OF assms(3)] by auto
  have "rx_ok fl (pk (rx_id ?r)) ?r \<and>
    (\<forall>j<frames_of fl pk (rx_id ?r). frame_received ?r ! j \<longleftrightarrow> (rx_id ?r, j) \<in> set es)"
    using assms(2) nth_mem [OF k(1)] unfolding store_ok_def by blast
  then have r: "rx_ok fl (pk p) ?r" "\<forall>j<frames_of fl pk p. frame_received ?r ! j \<longleftrightarrow> (p, j) \<in> set es"
    using k(2) by auto
  have i: "i < frame_count (length (pk p)) fl" using assms(4) by (simp add: frames_of_def)
  obtain b r' where r': "rx_add_frame ?r i (drop (i * fl) (pk p)) = Some (b, r')" "rx_ok fl (pk p) r'"
    "frame_received r' = (frame_received ?r)[i := True]"
    using rx_add_piece [OF assms(1) r(1) i] by blast
  have "length (frame_received ?r) = frames_of fl pk p" using r(1) by (simp add: rx_ok_def frames_of_def)
  then have "\<forall>j<frames_of fl pk p. frame_received r' ! j \<longleftrightarrow> (p, j) \<in> set (es @ [(p, i)])"
    using r(2) r'(3) assms(4) by (auto simp: nth_list_update)
  then show ?thesis using r' rx_add_frame_id [OF r'(1)] k(2) by blast
qed

lemma add_new:
  assumes "0 < fl" "store_ok fl pk es st" "p \<notin> rx_id ` set (rx_packets st)" "i < frames_of fl pk p" "\<And>n. length (mem n) = n"
  shows "\<exists>r0 b r. RxPayload (mem (length (pk p))) p (length (pk p)) fl = Some r0 \<and>
    rx_add_frame r0 i (drop (i * fl) (pk p)) = Some (b, r) \<and> rx_ok fl (pk p) r \<and> rx_id r = p \<and>
    (isComplete r \<longleftrightarrow> frames_of fl pk p = 1) \<and>
    (frames_of fl pk p \<noteq> 1 \<longrightarrow> (\<forall>j<frames_of fl pk p. frame_received r ! j \<longleftrightarrow> (p, j) \<in> set (es @ [(p, i)])))"
proof -
  have i: "i < frame_count (length (pk p)) fl" using assms(4) by (simp add: frames_of_def)
  obtain r0 where r0: "RxPayload (mem (length (pk p))) p (length (pk p)) fl = Some r0" "rx_ok fl (pk p) r0"
    "frame_received r0 = replicate (frames_of fl pk p) False"
    using rx_new_ok [OF assms(1), of "mem (length (pk p))" "pk p" p] assms(5) by (auto simp: frames_of_def)
  obtain b r where r: "rx_add_frame r0 i (drop (i * fl) (pk p)) = Some (b, r)" "rx_ok fl (pk p) r"
    "frame_received r = (replicate (frames_of fl pk p) False)[i := True]"
    using rx_add_piece [OF assms(1) r0(2) i] unfolding r0(3) by blast
  have rec: "\<And>j. j < frames_of fl pk p \<Longrightarrow> frame_received r ! j \<longleftrightarrow> j = i"
    using r(3) assms(4) by (simp add: nth_list_update)
  have "isComplete r \<longleftrightarrow> (\<forall>j<frames_of fl pk p. j = i)"
    using isComplete_iff [OF r(2)] rec by (simp add: frames_of_def)
  also have "\<dots> \<longleftrightarrow> frames_of fl pk p = 1"
  proof
    assume a: "\<forall>j<frames_of fl pk p. j = i"
    show "frames_of fl pk p = 1"
    proof (rule ccontr)
      assume "frames_of fl pk p \<noteq> 1"
      then have "0 < frames_of fl pk p" "1 < frames_of fl pk p" using assms(4) by auto
      then show False using a by (metis zero_neq_one)
    qed
  qed (use assms(4) in auto)
  finally have c: "isComplete r \<longleftrightarrow> frames_of fl pk p = 1" .
  have "(p, j) \<notin> set es" if "frames_of fl pk p \<noteq> 1" for j
    using assms(2,3) that by (auto simp: store_ok_def)
  then have "frames_of fl pk p \<noteq> 1 \<longrightarrow> (\<forall>j<frames_of fl pk p. frame_received r ! j \<longleftrightarrow> (p, j) \<in> set (es @ [(p, i)]))"
    using rec by auto
  moreover have "rx_id r = p" using rx_add_frame_id [OF r(1)] RxPayload_id [OF r0(1)] by simp
  ultimately show ?thesis using r0(1) r c by blast
qed

lemma store_ok_update:
  assumes "store_ok fl pk es st" "rx_index (rx_packets st) p = Some k" "rx_ok fl (pk p) r" "rx_id r = p"
    "\<forall>j<frames_of fl pk p. frame_received r ! j \<longleftrightarrow> (p, j) \<in> set (es @ [(p, i)])"
    "rx_packets st' = (rx_packets st)[k := r]" "frame_len st' = fl"
  shows "store_ok fl pk (es @ [(p, i)]) st'"
proof -
  have k: "k < length (rx_packets st)" "rx_id (rx_packets st ! k) = p" using rx_index_Some [OF assms(2)] by auto
  have ids: "map rx_id (rx_packets st') = map rx_id (rx_packets st)"
    using k assms(4,6) by (metis list_update_id map_update)
  have other: "rx_id q \<noteq> p" if q: "q \<in> set (rx_packets st')" "q \<noteq> r" for q
  proof -
    obtain j where j: "j < length (rx_packets st)" "q = (rx_packets st)[k := r] ! j" "j \<noteq> k"
      using q assms(6) k(1) by (metis in_set_conv_nth length_list_update nth_list_update_eq)
    have "rx_id (rx_packets st ! j) \<noteq> rx_id (rx_packets st ! k)"
      using assms(1) j(1,3) k(1) by (simp add: store_ok_def distinct_conv_nth)
    then show ?thesis using j k by simp
  qed
  have old: "rx_ok fl (pk (rx_id q)) q \<and> (\<forall>j<frames_of fl pk (rx_id q). frame_received q ! j \<longleftrightarrow> (rx_id q, j) \<in> set es)"
    if "q \<in> set (rx_packets st')" "q \<noteq> r" for q
    using that assms(1,6) set_update_subset_insert [of "rx_packets st" k r] by (auto simp: store_ok_def)
  have "rx_ok fl (pk (rx_id q)) q \<and>
    (\<forall>j<frames_of fl pk (rx_id q). frame_received q ! j \<longleftrightarrow> (rx_id q, j) \<in> set (es @ [(p, i)]))"
    if q: "q \<in> set (rx_packets st')" for q
    using assms(3-5) old [OF q] other [OF q] by (cases "q = r") auto
  moreover have "p \<in> rx_id ` set (rx_packets st)" using k by force
  moreover have "rx_id ` set (rx_packets st') = rx_id ` set (rx_packets st)" using ids by (metis list.set_map)
  moreover have "distinct (map rx_id (rx_packets st'))" using assms(1) ids by (simp add: store_ok_def)
  moreover have "\<forall>p k. (p, k) \<in> set es \<longrightarrow> p \<notin> rx_id ` set (rx_packets st) \<longrightarrow> frames_of fl pk p = 1"
    using assms(1) unfolding store_ok_def by blast
  ultimately show ?thesis
    unfolding store_ok_def using assms(7) by (simp only: set_append) force
qed

lemma store_ok_keep:
  assumes "store_ok fl pk es st" "frames_of fl pk p = 1" "p \<notin> rx_id ` set (rx_packets st)"
    "rx_packets st' = rx_packets st" "frame_len st' = fl"
  shows "store_ok fl pk (es @ [(p, i)]) st'"
proof -
  have "rx_id r \<noteq> p" if "r \<in> set (rx_packets st)" for r using assms(3) that by blast
  then show ?thesis using assms(1,2,4,5) by (simp add: store_ok_def)
qed

lemma store_ok_snoc:
  assumes "store_ok fl pk es st" "p \<notin> rx_id ` set (rx_packets st)" "rx_ok fl (pk p) r" "rx_id r = p"
    "\<forall>j<frames_of fl pk p. frame_received r ! j \<longleftrightarrow> (p, j) \<in> set (es @ [(p, i)])"
    "rx_packets st' = rx_packets st @ [r]" "frame_len st' = fl"
  shows "store_ok fl pk (es @ [(p, i)]) st'"
proof -
  have "rx_id q \<noteq> p" if "q \<in> set (rx_packets st)" for q using assms(2) that by blast
  then have "\<forall>q\<in>set (rx_packets st). rx_ok fl (pk (rx_id q)) q \<and>
      (\<forall>j<frames_of fl pk (rx_id q). frame_received q ! j \<longleftrightarrow> (rx_id q, j) \<in> set (es @ [(p, i)]))"
    using assms(1) by (simp add: store_ok_def)
  moreover have "distinct (map rx_id (rx_packets st'))" using assms(1,2,4,6) by (simp add: store_ok_def)
  moreover have "\<forall>q k. (q, k) \<in> set (es @ [(p, i)]) \<longrightarrow> q \<notin> rx_id ` set (rx_packets st') \<longrightarrow> frames_of fl pk q = 1"
    using assms(1,4,6) by (auto simp: store_ok_def)
  ultimately show ?thesis using assms(3-7) by (simp add: store_ok_def)
qed

lemma store_add_frame_ok:
  assumes "0 < fl" "store_ok fl pk es st" "i < frames_of fl pk p" "\<And>n. length (mem n) = n"
    "os_write (pk p) = int (length (pk p))" "length (pk p) < 2 ^ 32"
  shows "\<exists>st'. store_add_frame mem os_write st p i (drop (i * fl) (pk p)) (length (pk p)) =
      Some (if all_frames fl pk (es @ [(p, i)]) p then PACKET_COMPLETE else PACKET_NOT_COMPLETE, st') \<and>
    store_ok fl pk (es @ [(p, i)]) st' \<and>
    tun_out st' = tun_out st @ (if all_frames fl pk (es @ [(p, i)]) p then [pk p] else [])"
proof (cases "rx_index (rx_packets st) p")
  case (Some k)
  obtain b r where r: "rx_add_frame (rx_packets st ! k) i (drop (i * fl) (pk p)) = Some (b, r)" "rx_ok fl (pk p) r" "rx_id r = p"
    "\<forall>j<frames_of fl pk p. frame_received r ! j \<longleftrightarrow> (p, j) \<in> set (es @ [(p, i)])"
    using add_known [OF assms(1,2) Some assms(3)] by blast
  have c: "isComplete r \<longleftrightarrow> all_frames fl pk (es @ [(p, i)]) p"
    using isComplete_iff [OF r(2)] r(4) by (simp add: all_frames_iff frames_of_def)
  have fl: "frame_len st = fl" using assms(2) by (simp add: store_ok_def)
  let ?st1 = "st\<lparr>rx_packets := (rx_packets st)[k := r]\<rparr>"
  have f: "finish_packet os_write p r ?st1 = (if isComplete r
     then Some (True, ?st1\<lparr>tun_out := tun_out ?st1 @ [pk p], written_packets := wrap32 (written_packets ?st1 + 1),
                        completed_packets := completed_packets ?st1 @ [nat (p mod 2 ^ 32)]\<rparr>)
     else Some (False, ?st1))"
    by (rule finish_packet_eq [where os_write = os_write, OF assms(1) r(2) assms(5,6)])
  show ?thesis
  proof (cases "isComplete r")
    case True
    then show ?thesis using r(1) f c Some fl
      by (simp add: store_add_frame_def store_ok_update [OF assms(2) Some r(2-4)])
  next
    case False
    then show ?thesis using r(1) f c Some fl
      by (simp add: store_add_frame_def store_ok_update [OF assms(2) Some r(2-4)])
  qed
next
  case None
  then have new: "p \<notin> rx_id ` set (rx_packets st)" by (simp add: rx_index_None)
  obtain r0 b r where r: "RxPayload (mem (length (pk p))) p (length (pk p)) fl = Some r0"
    "rx_add_frame r0 i (drop (i * fl) (pk p)) = Some (b, r)" "rx_ok fl (pk p) r" "rx_id r = p"
    "isComplete r \<longleftrightarrow> frames_of fl pk p = 1"
    "frames_of fl pk p \<noteq> 1 \<longrightarrow> (\<forall>j<frames_of fl pk p. frame_received r ! j \<longleftrightarrow> (p, j) \<in> set (es @ [(p, i)]))"
    using add_new [OF assms(1,2) new assms(3,4)] by blast
  have c: "isComplete r \<longleftrightarrow> all_frames fl pk (es @ [(p, i)]) p"
  proof (cases "frames_of fl pk p = 1")
    case True
    then show ?thesis using r(5) assms(3) by (simp add: all_frames_iff)
  next
    case False
    then show ?thesis using isComplete_iff [OF r(3)] r(6) by (simp add: all_frames_iff frames_of_def)
  qed
  have fl: "frame_len st = fl" using assms(2) by (simp add: store_ok_def)
  have f: "finish_packet os_write p r st = (if isComplete r
     then Some (True, st\<lparr>tun_out := tun_out st @ [pk p], written_packets := wrap32 (written_packets st + 1),
                        completed_packets := completed_packets st @ [nat (p mod 2 ^ 32)]\<rparr>)
     else Some (False, st))"
    by (rule finish_packet_eq [where os_write = os_write, OF assms(1) r(3) assms(5,6)])
  show ?thesis
  proof (cases "isComplete r")
    case True
    then have "frames_of fl pk p = 1" using r(5) by simp
    then show ?thesis using True r(1,2) f c None fl
      by (simp add: store_add_frame_def store_ok_keep [OF assms(2) _ new])
  next
    case False
    then have n: "\<forall>j<frames_of fl pk p. frame_received r ! j \<longleftrightarrow> (p, j) \<in> set (es @ [(p, i)])" using r(5,6) by simp
    then show ?thesis using False r(1,2) f c None fl
      by (simp add: store_add_frame_def store_ok_snoc [OF assms(2) new r(3,4) n])
  qed
qed

definition complete_events :: "nat \<Rightarrow> (int \<Rightarrow> bytes) \<Rightarrow> (int \<times> nat) list \<Rightarrow> nat list" where
  "complete_events fl pk es = filter (\<lambda>j. all_frames fl pk (take (Suc j) es) (fst (es ! j))) [0..<length es]"

lemma complete_events_snoc:
  "complete_events fl pk (es @ [e]) = complete_events fl pk es @ (if all_frames fl pk (es @ [e]) (fst e) then [length es] else [])"
  by (auto simp: complete_events_def nth_append intro!: filter_cong)

lemma receive_all_append:
  "receive_all mem os_write fl pk (es @ es') st = do {
     (rs, st1) \<leftarrow> receive_all mem os_write fl pk es st;
     (rs', st2) \<leftarrow> receive_all mem os_write fl pk es' st1;
     Some (rs @ rs', st2)
   }"
  by (induction es arbitrary: st) (auto split: Option.bind_splits prod.splits)

lemma receive_all_ok:
  assumes "0 < fl" "\<And>n. length (mem n) = n" "\<And>p. os_write (pk p) = int (length (pk p))" "\<And>p. length (pk p) < 2 ^ 32"
  shows "store_ok fl pk [] st \<Longrightarrow> list_all (\<lambda>(p, i). i < frames_of fl pk p) es \<Longrightarrow>
    \<exists>st'. receive_all mem os_write fl pk es st =
        Some (map (\<lambda>j. if j \<in> set (complete_events fl pk es) then PACKET_COMPLETE else PACKET_NOT_COMPLETE) [0..<length es], st') \<and>
      store_ok fl pk es st' \<and> tun_out st' = tun_out st @ map (\<lambda>j. pk (fst (es ! j))) (complete_events fl pk es)"
proof (induction es rule: rev_induct)
  case Nil
  then show ?case by (simp add: complete_events_def)
next
  case (snoc e es)
  obtain p i where e: "e = (p, i)" by (cases e)
  obtain st1 where st1: "receive_all mem os_write fl pk es st =
      Some (map (\<lambda>j. if j \<in> set (complete_events fl pk es) then PACKET_COMPLETE else PACKET_NOT_COMPLETE) [0..<length es], st1)"
    "store_ok fl pk es st1" "tun_out st1 = tun_out st @ map (\<lambda>j. pk (fst (es ! j))) (complete_events fl pk es)"
    using snoc by auto
  let ?c = "all_frames fl pk (es @ [(p, i)]) p"
  have "i < frames_of fl pk p" using snoc.prems e by simp
  then obtain st2 where st2: "store_add_frame mem os_write st1 p i (drop (i * fl) (pk p)) (length (pk p)) =
      Some (if ?c then PACKET_COMPLETE else PACKET_NOT_COMPLETE, st2)"
    "store_ok fl pk (es @ [(p, i)]) st2" "tun_out st2 = tun_out st1 @ (if ?c then [pk p] else [])"
    using store_add_frame_ok [OF assms(1) st1(2), of i p mem os_write] assms(2-4) by blast
  have lt: "\<And>j. j \<in> set (complete_events fl pk es) \<Longrightarrow> j < length es" by (simp add: complete_events_def)
  have m: "map (\<lambda>j. pk (fst ((es @ [e]) ! j))) (complete_events fl pk es) = map (\<lambda>j. pk (fst (es ! j))) (complete_events fl pk es)"
    using lt by (intro map_cong) (auto simp: nth_append)
  have "receive_all mem os_write fl pk (es @ [e]) st = Some (map (\<lambda>j. if j \<in> set (complete_events fl pk es)
      then PACKET_COMPLETE else PACKET_NOT_COMPLETE) [0..<length es] @ [if ?c then PACKET_COMPLETE else PACKET_NOT_COMPLETE], st2)"
    using st1(1) st2(1) e by (simp add: receive_all_append)
  moreover have "map (\<lambda>j. if j \<in> set (complete_events fl pk (es @ [e])) then PACKET_COMPLETE else PACKET_NOT_COMPLETE)
      [0..<length (es @ [e])] = map (\<lambda>j. if j \<in> set (complete_events fl pk es)
      then PACKET_COMPLETE else PACKET_NOT_COMPLETE) [0..<length es] @ [if ?c then PACKET_COMPLETE else PACKET_NOT_COMPLETE]"
    using lt e by (auto simp: complete_events_snoc)
  ultimately show ?case using st2(2,3) st1(3) m e by (simp add: complete_events_snoc)
qed

text \<open>
  C33: with a tap interface that takes whole packets, the receiving side rebuilds any number of packets
  from their frames in any interleaving, order and repetition: adding a frame reports completion
  exactly when all frames of its packet have now been seen, the interface is given the bytes of
  that packet at each of these moments and never anything else. In particular a frame that comes
  again after its packet was complete writes the packet a second time.
\<close>

theorem packet_store_delivers:
  assumes "0 < fl" "\<And>n. length (mem n) = n" "\<And>p. os_write (pk p) = int (length (pk p))" "\<And>p. length (pk p) < 2 ^ 32"
    "list_all (\<lambda>(p, i). i < frames_of fl pk p) es"
  shows "\<exists>st'. receive_all mem os_write fl pk es (PacketStore nodes fl tap) =
        Some (map (\<lambda>j. if j \<in> set (complete_events fl pk es) then PACKET_COMPLETE else PACKET_NOT_COMPLETE) [0..<length es], st') \<and>
      tun_out st' = map (\<lambda>j. pk (fst (es ! j))) (complete_events fl pk es)"
  using receive_all_ok [of fl mem os_write pk "PacketStore nodes fl tap" es] assms
  by (auto simp: store_ok_def PacketStore_def)

lemma packet_store_delivers_witness:
  "\<exists>st'. receive_all (\<lambda>n. replicate n 0) (\<lambda>b. int (length b)) 2 (\<lambda>p. if p = 0 then [1, 2, 3] else [7]) [(0, 1), (5, 0), (0, 0), (0, 1)]
        (PacketStore 4 2 True) =
      Some (map (\<lambda>j. if j \<in> set (complete_events 2 (\<lambda>p. if p = 0 then [1, 2, 3] else [7]) [(0, 1), (5, 0), (0, 0), (0, 1)])
          then PACKET_COMPLETE else PACKET_NOT_COMPLETE) [0..<length [(0 :: int, 1 :: nat), (5, 0), (0, 0), (0, 1)]], st') \<and>
    tun_out st' = map (\<lambda>j. (\<lambda>p :: int. if p = 0 then [1, 2, 3] else [7]) (fst ([(0, 1 :: nat), (5, 0), (0, 0), (0, 1)] ! j)))
      (complete_events 2 (\<lambda>p. if p = 0 then [1, 2, 3] else [7]) [(0, 1), (5, 0), (0, 0), (0, 1)])"
  by (rule packet_store_delivers) (simp_all add: frames_of_def frame_count_def)

section \<open>The waiting packets\<close>

text \<open>A waiting payload is one no frame of which has been handed out; ids are given in order. \<open>nodes\<close> are the
  nodes of the net.\<close>

definition tx_fresh :: "nat \<Rightarrow> tx_payload \<Rightarrow> bool" where
  "tx_fresh fl t \<longleftrightarrow> tx_ok fl (tx_bytes t) t \<and> tx_bytes t \<noteq> [] \<and> next_frame t = 0 \<and> \<not> retrieved t"

definition waiting_ok :: "reader \<Rightarrow> packet_store \<Rightarrow> bool" where
  "waiting_ok rd st \<longleftrightarrow> 0 < frame_len st \<and> length (rd_data rd) = P2M_FRAME_PAYLOAD_MAX_SIZE \<and>
     sorted_wrt (<) (map tx_id (tx_packets st)) \<and>
     (\<forall>t\<in>set (tx_packets st). tx_fresh (frame_len st) t \<and> tx_id t < rd_count rd \<and>
        0 < destination_id t \<and> destination_id t \<le> num_nodes_in_net st)"

text \<open>The operations of the callers and the rounds of the reading thread, in any order. The only thing
  asked of the operating system is that \<open>read\<close> returns -1 or the number of bytes it has written.\<close>

inductive store_step :: "reader \<times> packet_store \<Rightarrow> reader \<times> packet_store \<Rightarrow> bool" where
  read: "read_packet sel is_set n got rd st = Some (rd', st') \<Longrightarrow> (if n < 0 then n = - 1 \<and> got = [] else int (length got) = n) \<Longrightarrow>
    length got \<le> P2M_FRAME_PAYLOAD_MAX_SIZE \<Longrightarrow> store_step (rd, st) (rd', st')"
| next_for: "get_next_frame_for_destination st d = (r, st') \<Longrightarrow> store_step (rd, st) (rd, st')"
| get: "store_get_frame st p i = (r, st') \<Longrightarrow> store_step (rd, st) (rd, st')"
| get_next: "store_get_next_frame st = (r, st') \<Longrightarrow> store_step (rd, st) (rd, st')"
| add: "store_add_frame mem os_write st p i d len = Some (c, st') \<Longrightarrow> store_step (rd, st) (rd, st')"
| close: "store_step (rd, st) (rd, store_close_interface st)"

inductive store_reachable :: "reader \<times> packet_store \<Rightarrow> reader \<times> packet_store \<Rightarrow> bool" for s0 where
  start: "store_reachable s0 s0"
| step: "store_reachable s0 s \<Longrightarrow> store_step s s' \<Longrightarrow> store_reachable s0 s'"

inductive_cases store_stepE [elim!]: "store_step (rd, st) s'"

lemma take_frame_for_split:
  "take_frame_for ts d = (r, ts') \<Longrightarrow>
   ts' = ts \<and> r = None \<and> (\<forall>t\<in>set ts. destination_id t = d \<longrightarrow> retrieved t)
   \<or> (\<exists>us t vs. ts = us @ t # vs \<and> ts' = us @ vs \<and> destination_id t = d \<and> \<not> retrieved t \<and>
        (\<forall>u\<in>set us. destination_id u = d \<longrightarrow> retrieved u) \<and> r = fst (get_next_frame t))"
proof (induction ts arbitrary: r ts')
  case (Cons t ts)
  show ?case
  proof (cases "destination_id t = d \<and> \<not> retrieved t")
    case True
    then have "r = fst (get_next_frame t) \<and> ts' = ts" using Cons.prems by simp
    then show ?thesis using True by (intro disjI2 exI [of _ "[]"] exI [of _ t] exI [of _ ts]) simp
  next
    case False
    then obtain rs where rs: "take_frame_for ts d = (r, rs)" "ts' = t # rs"
      using Cons.prems by (auto split: prod.splits)
    from Cons.IH [OF rs(1)] show ?thesis
    proof (elim disjE exE conjE)
      fix us v vs
      assume "ts = us @ v # vs" "rs = us @ vs" "destination_id v = d" "\<not> retrieved v"
        "\<forall>u\<in>set us. destination_id u = d \<longrightarrow> retrieved u" "r = fst (get_next_frame v)"
      then show ?thesis using rs(2) False
        by (intro disjI2 exI [of _ "t # us"] exI [of _ v] exI [of _ vs]) simp
    qed (use rs(2) False in simp)
  qed
qed simp

lemma take_frame_for_waiting:
  assumes "waiting_ok rd st" "get_next_frame_for_destination st d = (r, st')"
  shows "st' = st \<and> r = None \<and> (\<forall>t\<in>set (tx_packets st). destination_id t \<noteq> d)
    \<or> (\<exists>us t vs. tx_packets st = us @ t # vs \<and> st' = st\<lparr>tx_packets := us @ vs\<rparr> \<and> destination_id t = d \<and>
        (\<forall>u\<in>set us. destination_id u \<noteq> d) \<and> r = Some (frame_at (frame_len st) (tx_id t) (tx_bytes t) 0))"
proof -
  obtain ts where ts: "take_frame_for (tx_packets st) d = (r, ts)" "st' = st\<lparr>tx_packets := ts\<rparr>"
    using assms(2) by (auto simp: get_next_frame_for_destination_def split: prod.splits)
  have fresh: "\<not> retrieved t" if "t \<in> set (tx_packets st)" for t
    using assms(1) that by (auto simp: waiting_ok_def tx_fresh_def)
  have first: "fst (get_next_frame t) = Some (frame_at (frame_len st) (tx_id t) (tx_bytes t) 0)"
    if "t \<in> set (tx_packets st)" for t
  proof -
    have t: "tx_fresh (frame_len st) t" "0 < frame_len st" using assms(1) that by (auto simp: waiting_ok_def)
    then have "next_frame t < frame_count (length (tx_bytes t)) (frame_len st)"
      using frame_count_size [of "frame_len st" "length (tx_bytes t)"] by (auto simp: tx_fresh_def)
    from get_next_frame_result [OF t(2) _ this] show ?thesis using t(1) by (simp add: tx_fresh_def)
  qed
  from take_frame_for_split [OF ts(1)] show ?thesis
  proof (elim disjE exE conjE)
    fix us t vs
    assume s: "tx_packets st = us @ t # vs" "ts = us @ vs" "destination_id t = d"
      "\<forall>u\<in>set us. destination_id u = d \<longrightarrow> retrieved u" "r = fst (get_next_frame t)"
    then have "\<forall>u\<in>set us. destination_id u \<noteq> d" using fresh by auto
    then show ?thesis using s first [of t] ts(2) by auto
  qed (use fresh ts(2) in auto)
qed

definition tx_same :: "tx_payload \<Rightarrow> tx_payload \<Rightarrow> bool" where
  "tx_same t t' \<longleftrightarrow> (\<exists>ft. t' = t\<lparr>frame_transmitted := ft\<rparr> \<and> length ft = length (frame_transmitted t))"

lemma tx_sameD:
  "tx_same t t' \<Longrightarrow> tx_id t' = tx_id t \<and> destination_id t' = destination_id t \<and> tx_bytes t' = tx_bytes t \<and>
    (tx_fresh fl t' \<longleftrightarrow> tx_fresh fl t)"
  by (auto simp: tx_same_def tx_fresh_def tx_ok_def)

lemma tx_same_refl: "tx_same t t"
  unfolding tx_same_def by (rule exI [of _ "frame_transmitted t"]) simp

lemma get_frame_same: "tx_same t (snd (get_frame t i))"
  using tx_same_refl [of t] by (auto simp: get_frame_def tx_same_def)

lemma get_frame_in_same: "list_all2 tx_same ts (snd (get_frame_in ts p i))"
  by (induction ts) (simp_all add: get_frame_same tx_same_refl list.rel_refl split_def Let_def)

lemma same_waiting:
  assumes "list_all2 tx_same ts ts'"
  shows "map tx_id ts' = map tx_id ts"
    and "\<And>t'. t' \<in> set ts' \<Longrightarrow> \<exists>t\<in>set ts. tx_same t t'"
  using assms by (induction rule: list_all2_induct) (auto dest: tx_sameD)

lemma finish_packet_tx: "finish_packet os_write p r st = Some (b, st') \<Longrightarrow>
  tx_packets st' = tx_packets st \<and> frame_len st' = frame_len st \<and> num_nodes_in_net st' = num_nodes_in_net st"
  by (auto simp: finish_packet_def Let_def split: if_splits Option.bind_splits)

lemma add_frame_tx: "store_add_frame mem os_write st p i d len = Some (c, st') \<Longrightarrow>
  tx_packets st' = tx_packets st \<and> frame_len st' = frame_len st \<and> num_nodes_in_net st' = num_nodes_in_net st"
  by (auto simp: store_add_frame_def split: option.splits Option.bind_splits prod.splits if_splits dest: finish_packet_tx)

lemma get_keeps:
  assumes "waiting_ok rd st" "store_get_frame st p i = (r, st')"
  shows "waiting_ok rd st'"
proof -
  let ?ts = "snd (get_frame_in (tx_packets st) p i)"
  have st': "st' = st\<lparr>tx_packets := ?ts\<rparr>" using assms(2) by (auto simp: store_get_frame_def split: prod.splits)
  have "tx_fresh (frame_len st) t' \<and> tx_id t' < rd_count rd \<and> 0 < destination_id t' \<and> destination_id t' \<le> num_nodes_in_net st"
    if t': "t' \<in> set ?ts" for t'
  proof -
    obtain t where "t \<in> set (tx_packets st)" "tx_same t t'" using same_waiting(2) [OF get_frame_in_same t'] by blast
    then show ?thesis using assms(1) tx_sameD [of t t'] by (simp add: waiting_ok_def)
  qed
  then show ?thesis using assms(1) st' same_waiting(1) [OF get_frame_in_same, of "tx_packets st" p i]
    by (simp add: waiting_ok_def)
qed

lemma new_waiting:
  "0 < fl \<Longrightarrow> len \<le> length data \<Longrightarrow> 0 < len \<Longrightarrow>
   \<exists>t. TxPayload pid dest data len fl = Some t \<and> tx_bytes t = take len data \<and> tx_id t = pid \<and> destination_id t = dest \<and> tx_fresh fl t"
  by (auto simp: TxPayload_eq tx_fresh_def tx_ok_def)

lemma read_packet_ok:
  assumes "waiting_ok rd st" "if n < 0 then n = - 1 \<and> got = [] else int (length got) = n" "length got \<le> P2M_FRAME_PAYLOAD_MAX_SIZE"
    "0 \<le> sel"
  shows "\<exists>rd' st'. read_packet sel is_set n got rd st = Some (rd', st') \<and> waiting_ok rd' st' \<and>
    (st' = st\<lparr>data_flowing := data_flowing st'\<rparr> \<or>
     (\<exists>t. st' = st\<lparr>data_flowing := True, tx_packets := tx_packets st @ [t]\<rparr> \<and> is_set \<and> tx_bytes t = got \<and>
        tx_id t = rd_count rd \<and> destination_id t = unat ((got @ drop (length got) (rd_data rd)) ! 33)))"
proof -
  let ?data = "if is_set then got @ drop (length got) (rd_data rd) else rd_data rd"
  have len: "length ?data = P2M_FRAME_PAYLOAD_MAX_SIZE" using assms(1,3) by (simp add: waiting_ok_def)
  define total where "total = (if is_set then nat (n mod 2 ^ 16) else 0)"
  have cr: "cread sel is_set n = Some total" using assms(4) by (simp add: cread_def total_def)
  show ?thesis
  proof (cases "total > 0 \<and> total \<le> P2M_FRAME_PAYLOAD_MAX_SIZE")
    case False
    then have "read_packet sel is_set n got rd st = Some (rd\<lparr>rd_data := ?data\<rparr>, st\<lparr>data_flowing := False\<rparr>)"
      using cr by (auto simp: read_packet_def Let_def)
    then show ?thesis using assms(1) len by (simp add: waiting_ok_def)
  next
    case True
    then have s: is_set "total = length got"
    proof -
      show is_set using True by (auto simp: total_def split: if_splits)
      moreover have "n \<ge> 0"
        using True \<open>is_set\<close> assms(2,3) by (cases "n < 0") (auto simp: total_def P2M_FRAME_PAYLOAD_MAX_SIZE_def)
      ultimately show "total = length got"
        using assms(2,3) by (auto simp: total_def P2M_FRAME_PAYLOAD_MAX_SIZE_def)
    qed
    let ?dest = "unat (?data ! 33)"
    show ?thesis
    proof (cases "?dest > 0 \<and> ?dest \<le> num_nodes_in_net st")
      case False
      then have "read_packet sel is_set n got rd st = Some (rd\<lparr>rd_data := ?data\<rparr>, st)"
        using cr True by (auto simp: read_packet_def Let_def)
      then show ?thesis using assms(1) len by (simp add: waiting_ok_def)
    next
      case d: True
      have fl: "0 < frame_len st" using assms(1) by (simp add: waiting_ok_def)
      have "take total ?data = got" using s by simp
      moreover have "total \<le> length ?data" using len True by simp
      ultimately obtain t where t: "TxPayload (rd_count rd) ?dest ?data total (frame_len st) = Some t" "tx_bytes t = got"
        "tx_id t = rd_count rd" "destination_id t = ?dest" "tx_fresh (frame_len st) t"
        using new_waiting [OF fl, of total ?data "rd_count rd" ?dest] True by metis
      let ?rd = "rd\<lparr>rd_data := ?data, rd_count := rd_count rd + 1\<rparr>"
      let ?st = "st\<lparr>data_flowing := True, tx_packets := tx_packets st @ [t]\<rparr>"
      have "read_packet sel is_set n got rd st = Some (?rd, ?st)"
        using cr True d t(1) by (auto simp: read_packet_def Let_def)
      moreover have "waiting_ok ?rd ?st"
      proof -
        have "tx_id u < rd_count rd + 1" if "u \<in> set (tx_packets st)" for u
          using assms(1) that by (fastforce simp: waiting_ok_def)
        then show ?thesis using assms(1) len d t(3-5) by (simp add: waiting_ok_def sorted_wrt_append)
      qed
      ultimately show ?thesis using s(1) t(2-4) by auto
    qed
  qed
qed

lemma waiting_ok_step: "waiting_ok rd st \<Longrightarrow> store_step (rd, st) (rd', st') \<Longrightarrow> waiting_ok rd' st'"
proof (erule store_stepE; clarsimp)
  fix sel is_set n got
  assume a: "waiting_ok rd st" "read_packet sel is_set n got rd st = Some (rd', st')"
    "if n < 0 then n = - 1 \<and> got = [] else int (length got) = n" "length got \<le> P2M_FRAME_PAYLOAD_MAX_SIZE"
  then have "0 \<le> sel" by (auto simp: read_packet_def cread_def split: if_splits)
  then show "waiting_ok rd' st'" using read_packet_ok [OF a(1,3,4), of sel is_set] a(2) by auto
next
  fix d r
  assume a: "waiting_ok rd st" "get_next_frame_for_destination st d = (r, st')"
  from take_frame_for_waiting [OF this] show "waiting_ok rd st'"
  proof (elim disjE exE conjE)
    fix us t vs
    assume "tx_packets st = us @ t # vs" "st' = st\<lparr>tx_packets := us @ vs\<rparr>"
    then show ?thesis using a(1) by (auto simp: waiting_ok_def sorted_wrt_append)
  qed (use a in simp)
next
  fix p i r assume "waiting_ok rd st" "store_get_frame st p i = (r, st')"
  then show "waiting_ok rd st'" by (rule get_keeps)
next
  fix r assume a: "waiting_ok rd st" "store_get_next_frame st = (r, st')"
  have "waiting_ok rd (st\<lparr>next_packet := wrap32 (next_packet st + 1)\<rparr>)" using a(1) by (simp add: waiting_ok_def)
  then show "waiting_ok rd st'" using a(2) unfolding store_get_next_frame_def by (rule get_keeps)
next
  fix mem os_write p i d len c
  assume "waiting_ok rd st" "store_add_frame mem os_write st p i d len = Some (c, st')"
  then show "waiting_ok rd st'" using add_frame_tx [of mem os_write st p i d len c st'] by (simp add: waiting_ok_def)
next
  assume "waiting_ok rd st"
  then show "waiting_ok rd (store_close_interface st)" by (simp add: waiting_ok_def store_close_interface_def)
qed


text \<open>What a caller sees of the waiting packets: for every destination, the queue of ids and bytes.\<close>

definition waiting :: "packet_store \<Rightarrow> nat \<Rightarrow> (int \<times> bytes) list" where
  "waiting st d = map (\<lambda>t. (tx_id t, tx_bytes t)) (filter (\<lambda>t. destination_id t = d) (tx_packets st))"

text \<open>
  C34: the waiting packets refine one queue for every destination. Asking for the next frame for a
  destination hands out the first frame of the packet at the head of its queue, removes that packet
  and leaves the other queues alone; an empty queue hands out nothing. A round of the reading thread
  puts the packet it has read at the end of at most one queue. The removed packet is gone: no
  later frame of it can be had by any call, although the packet may have more than one.
\<close>

theorem packet_store_queues:
  assumes "waiting_ok rd st" "get_next_frame_for_destination st d = (r, st')"
    "read_packet sel is_set n got rd st = Some (rd'', st'')"
    "if n < 0 then n = - 1 \<and> got = [] else int (length got) = n" "length got \<le> P2M_FRAME_PAYLOAD_MAX_SIZE"
  shows "r = (case waiting st d of [] \<Rightarrow> None | (p, b) # q \<Rightarrow> Some (frame_at (frame_len st) p b 0)) \<and>
    (\<forall>e. waiting st' e = (if e = d then tl (waiting st d) else waiting st e)) \<and>
    (\<forall>p b q k. waiting st d = (p, b) # q \<longrightarrow> fst (store_get_frame st' p k) = None) \<and>
    (waiting st'' = waiting st \<or> (\<exists>e. waiting st'' = (waiting st)(e := waiting st e @ [(rd_count rd, got)])))"
proof -
  have "0 \<le> sel" using assms(3) by (auto simp: read_packet_def cread_def split: if_splits)
  from read_packet_ok [OF assms(1,4,5) this, of is_set] assms(3)
  have "st'' = st\<lparr>data_flowing := data_flowing st''\<rparr> \<or>
    (\<exists>t. st'' = st\<lparr>data_flowing := True, tx_packets := tx_packets st @ [t]\<rparr> \<and> tx_bytes t = got \<and> tx_id t = rd_count rd)"
    by auto
  then have rd: "waiting st'' = waiting st \<or> (\<exists>e. waiting st'' = (waiting st)(e := waiting st e @ [(rd_count rd, got)]))"
  proof (elim disjE exE conjE)
    assume "st'' = st\<lparr>data_flowing := data_flowing st''\<rparr>"
    then have "tx_packets st'' = tx_packets st" by (rule ssubst) simp
    then show ?thesis by (simp add: waiting_def fun_eq_iff)
  next
    fix t assume "st'' = st\<lparr>data_flowing := True, tx_packets := tx_packets st @ [t]\<rparr>" "tx_bytes t = got" "tx_id t = rd_count rd"
    then show ?thesis by (intro disjI2 exI [of _ "destination_id t"]) (simp add: waiting_def fun_eq_iff)
  qed
  show ?thesis
    using take_frame_for_waiting [OF assms(1,2)]
  proof (elim disjE exE conjE)
    assume "st' = st" "r = None" "\<forall>t\<in>set (tx_packets st). destination_id t \<noteq> d"
    moreover from this have "waiting st d = []" by (auto simp: waiting_def filter_empty_conv)
    ultimately show ?thesis using rd by simp
  next
    fix us t vs
    assume s: "tx_packets st = us @ t # vs" "st' = st\<lparr>tx_packets := us @ vs\<rparr>" "destination_id t = d"
      "\<forall>u\<in>set us. destination_id u \<noteq> d" "r = Some (frame_at (frame_len st) (tx_id t) (tx_bytes t) 0)"
    have none: "fst (get_frame_in ts p k) = None" if "p \<notin> tx_id ` set ts" for ts p k
      using that by (induction ts) (auto simp: split_def Let_def)
    have us: "filter (\<lambda>u. destination_id u = d) us = []" using s(4) by (auto simp: filter_empty_conv)
    then have w: "waiting st d = (tx_id t, tx_bytes t) # map (\<lambda>t. (tx_id t, tx_bytes t)) (filter (\<lambda>t. destination_id t = d) vs)"
      using s(1,3) by (simp add: waiting_def)
    have "tx_id t \<notin> tx_id ` set (us @ vs)"
      using assms(1) s(1) by (auto simp: waiting_ok_def sorted_wrt_append)
    then have "fst (store_get_frame st' (tx_id t) k) = None" for k
      using none [of "tx_id t" "us @ vs" k] s(2) by (simp add: store_get_frame_def split_def Let_def)
    moreover have "waiting st' e = (if e = d then tl (waiting st d) else waiting st e)" for e
      using s(1-3) us w by (auto simp: waiting_def)
    ultimately show ?thesis using w s(5) rd by simp
  qed
qed


lemma packet_store_queues_witness:
  "\<exists>t st' rd'' st''. TxPayload 0 1 [1, 2, 3] 3 2 = Some t \<and>
    get_next_frame_for_destination ((PacketStore 4 2 True)\<lparr>tx_packets := [t]\<rparr>) 1 = (Some (frame_at 2 0 [1, 2, 3] 0), st') \<and>
    waiting st' 1 = [] \<and> fst (store_get_frame st' 0 1) = None \<and>
    read_packet 0 False 0 [] \<lparr>rd_data = replicate P2M_FRAME_PAYLOAD_MAX_SIZE 0, rd_count = 1\<rparr> ((PacketStore 4 2 True)\<lparr>tx_packets := [t]\<rparr>) = Some (rd'', st'') \<and>
    (waiting st'' = waiting ((PacketStore 4 2 True)\<lparr>tx_packets := [t]\<rparr>) \<or>
     (\<exists>e. waiting st'' = (waiting ((PacketStore 4 2 True)\<lparr>tx_packets := [t]\<rparr>))
        (e := waiting ((PacketStore 4 2 True)\<lparr>tx_packets := [t]\<rparr>) e @ [(1, [])])))"
proof -
  let ?rd = "\<lparr>rd_data = replicate P2M_FRAME_PAYLOAD_MAX_SIZE 0, rd_count = 1\<rparr>"
  obtain t where t: "TxPayload 0 1 [1, 2, 3] 3 2 = Some t" "tx_fresh 2 t" "tx_id t = 0" "destination_id t = 1" "tx_bytes t = [1, 2, 3]"
    by (simp add: TxPayload_eq tx_fresh_def tx_ok_def numeral_3_eq_3)
  let ?st = "(PacketStore 4 2 True)\<lparr>tx_packets := [t]\<rparr>"
  have w: "waiting_ok ?rd ?st"
    using t(2-4) by (simp add: waiting_ok_def PacketStore_def P2M_FRAME_PAYLOAD_MAX_SIZE_def)
  obtain r st' where g: "get_next_frame_for_destination ?st 1 = (r, st')" by fastforce
  obtain rd'' st'' where rd: "read_packet 0 False 0 [] ?rd ?st = Some (rd'', st'')"
    using read_packet_ok [OF w, of 0 "[]" 0 False] by auto
  have "waiting ?st 1 = [(0, [1, 2, 3])]" "frame_len ?st = 2" using t(3-5) by (simp_all add: waiting_def PacketStore_def)
  then show ?thesis using packet_store_queues [OF w g rd] t(1) g rd by simp
qed

end
