(* ===== verification/Bsequence.thy ===== *)
theory Bsequence
  imports Byte_Utilities
begin

unbundle bit_operations_syntax

text \<open>
  \<^verbatim>\<open>liquid_dsp/src/sequence/src/bsequence.c\<close>: binary sequences packed into blocks of 32 bits, the first block
  holding the most significant bits. \<open>None\<close> is a run that ends in \<^verbatim>\<open>exit\<close> or in an access outside an
  array. The theorems: the operations implement lists of bits, and the complementary codes are
  complementary: at every shift but 0 the agreements of the two codes with themselves add up to
  their length, so that their side lobes cancel.
\<close>

section \<open>State and operations\<close>

record bsequence =
  bs_s :: "u32 list"
  bs_num_bits :: nat
  num_bits_msb :: nat
  bit_mask_msb :: u32
  s_len :: nat

definition bsequence_clear :: "bsequence \<Rightarrow> bsequence" where
  "bsequence_clear bs = bs\<lparr>bs_s := replicate (s_len bs) 0\<rparr>"

text \<open>A length of \<open>2 ^ 31\<close> or more is negative as the \<^verbatim>\<open>int\<close> argument of \<^verbatim>\<open>div\<close>; the array it then asks for has
  more than 8 GB and is taken not to be there. \<open>junk\<close> is what the allocation holds.\<close>

definition bsequence_create :: "u32 list \<Rightarrow> nat \<Rightarrow> bsequence option" where
  "bsequence_create junk num_bits =
     (if num_bits \<ge> 2 ^ 31 then None
      else
        let msb = (if num_bits mod 32 = 0 then 32 else num_bits mod 32)
        in Some (bsequence_clear
          \<lparr>bs_s = junk, bs_num_bits = num_bits, num_bits_msb = msb,
           bit_mask_msb = fold (\<lambda>i m. push_bit 1 m OR 1) [0..<msb] 0,
           s_len = num_bits div 32 + (if num_bits mod 32 > 0 then 1 else 0)\<rparr>))"

fun push_loop :: "nat list \<Rightarrow> u32 list \<Rightarrow> u32 list" where
  "push_loop [] s = s"
| "push_loop (i # is) s =
     (let overflow = drop_bit 31 (s ! i) AND 1;
          s1 = s[i := push_bit 1 (s ! i)]
      in push_loop is (s1[i - 1 := s1 ! (i - 1) OR overflow]))"

definition bsequence_push :: "bsequence \<Rightarrow> u32 \<Rightarrow> bsequence option" where
  "bsequence_push bs b =
     (if s_len bs = 0 then None
      else
        let s0 = (bs_s bs)[0 := push_bit 1 (bs_s bs ! 0) AND bit_mask_msb bs];
            s1 = push_loop [1..<s_len bs] s0
        in Some (bs\<lparr>bs_s := s1[s_len bs - 1 := s1 ! (s_len bs - 1) OR (b AND 1)]\<rparr>))"

definition bsequence_circshift :: "bsequence \<Rightarrow> bsequence option" where
  "bsequence_circshift bs =
     (if s_len bs = 0 then None
      else
        let msb_mask = push_bit (num_bits_msb bs - 1) 1;
            b = drop_bit (num_bits_msb bs - 1) (bs_s bs ! 0 AND msb_mask)
        in bsequence_push bs b)"

text \<open>The loop of \<^verbatim>\<open>bsequence_init\<close> from bit \<open>i\<close> on; \<open>byte\<close> and \<open>mask\<close> are only read after they were set at \<open>i = 0\<close>.\<close>

fun init_loop :: "nat list \<Rightarrow> bytes \<Rightarrow> nat \<Rightarrow> u8 \<Rightarrow> u8 \<Rightarrow> bsequence \<Rightarrow> bsequence option" where
  "init_loop [] v k byte msk bs = Some bs"
| "init_loop (i # is) v k byte msk bs =
     (if i mod 8 = 0 then
        (if k < length v then do {
           bs \<leftarrow> bsequence_push bs (if v ! k AND 0x80 \<noteq> 0 then 1 else 0);
           init_loop is v (k + 1) (v ! k) (drop_bit 1 0x80) bs
         } else None)
      else do {
        bs \<leftarrow> bsequence_push bs (if byte AND msk \<noteq> 0 then 1 else 0);
        init_loop is v k byte (drop_bit 1 msk) bs
      })"

definition bsequence_init :: "bsequence \<Rightarrow> bytes \<Rightarrow> bsequence option" where
  "bsequence_init bs v = init_loop [0..<bs_num_bits bs] v 0 0 0x80 bs"

definition bsequence_correlate :: "bsequence \<Rightarrow> bsequence \<Rightarrow> int option" where
  "bsequence_correlate bs1 bs2 =
     (if s_len bs1 \<noteq> s_len bs2 then None
      else Some ((\<Sum>i\<leftarrow>[0..<s_len bs1]. int (liquid_count_ones (NOT (bs_s bs1 ! i XOR bs_s bs2 ! i)))) -
             int (32 - num_bits_msb bs1)))"

definition bsequence_add :: "bsequence \<Rightarrow> bsequence \<Rightarrow> bsequence \<Rightarrow> bsequence option" where
  "bsequence_add bs1 bs2 bs3 =
     (if s_len bs1 \<noteq> s_len bs2 \<or> s_len bs1 \<noteq> s_len bs3 \<or> s_len bs2 \<noteq> s_len bs3 then None
      else Some (bs3\<lparr>bs_s := map (\<lambda>i. bs_s bs1 ! i XOR bs_s bs2 ! i) [0..<s_len bs1]\<rparr>))"

definition bsequence_mul :: "bsequence \<Rightarrow> bsequence \<Rightarrow> bsequence \<Rightarrow> bsequence option" where
  "bsequence_mul bs1 bs2 bs3 =
     (if s_len bs1 \<noteq> s_len bs2 \<or> s_len bs1 \<noteq> s_len bs3 \<or> s_len bs2 \<noteq> s_len bs3 then None
      else Some (bs3\<lparr>bs_s := map (\<lambda>i. bs_s bs1 ! i AND bs_s bs2 ! i) [0..<s_len bs1]\<rparr>))"

definition bsequence_accumulate :: "bsequence \<Rightarrow> nat" where
  "bsequence_accumulate bs = wrap32 (\<Sum>i\<leftarrow>[0..<s_len bs]. liquid_count_ones (bs_s bs ! i))"

definition bsequence_get_length :: "bsequence \<Rightarrow> nat" where
  "bsequence_get_length bs = bs_num_bits bs"

definition bsequence_index :: "bsequence \<Rightarrow> nat \<Rightarrow> u32 option" where
  "bsequence_index bs i =
     (if i \<ge> bs_num_bits bs then None
      else Some (drop_bit (i mod 32) (bs_s bs ! (s_len bs - i div 32 - 1)) AND 1))"

text \<open>\<^verbatim>\<open>memmove(&dst[p], &src[q], n)\<close>; an index below the array is a negative \<open>p\<close>.\<close>

definition move_block :: "bytes \<Rightarrow> int \<Rightarrow> bytes \<Rightarrow> int \<Rightarrow> nat \<Rightarrow> bytes option" where
  "move_block dst p src q n =
     (if p < 0 \<or> q < 0 \<or> nat p + n > length dst \<or> nat q + n > length src then None
      else Some (take (nat p) dst @ take n (drop (nat q) src) @ drop (nat p + n) dst))"

definition complement_tail :: "nat \<Rightarrow> nat \<Rightarrow> bytes \<Rightarrow> bytes" where
  "complement_tail num_bytes n b = fold (\<lambda>i b. b[num_bytes - i - 1 := b ! (num_bytes - i - 1) XOR 0xff]) [0..<n] b"

text \<open>\<^verbatim>\<open>i_n0\<close> is below 0 when \<open>n\<close> is more than half of the bytes.\<close>

function ccodes_loop :: "nat \<Rightarrow> nat \<Rightarrow> bytes \<Rightarrow> bytes \<Rightarrow> (bytes \<times> bytes) option" where
  "ccodes_loop num_bytes n a b =
     (if n = 0 \<or> num_bytes \<le> n then Some (a, b)
      else do {
        let i_n1 = int num_bytes - int n;
        let i_n0 = int num_bytes - 2 * int n;
        a1 \<leftarrow> move_block a i_n0 a i_n1 n;
        b1 \<leftarrow> move_block b i_n0 a1 i_n1 n;
        a2 \<leftarrow> move_block a1 i_n1 b1 i_n1 n;
        b2 \<leftarrow> move_block b1 i_n1 b1 i_n1 n;
        ccodes_loop num_bytes (n + n) a2 (complement_tail num_bytes n b2)
      })"
  by pat_completeness auto
termination by (relation "measure (\<lambda>(num_bytes, n, a, b). num_bytes - n)") auto

declare ccodes_loop.simps [simp del]

definition bsequence_create_ccodes :: "bsequence \<Rightarrow> bsequence \<Rightarrow> (bsequence \<times> bsequence) option" where
  "bsequence_create_ccodes qa qb =
     (if bs_num_bits qa \<noteq> bs_num_bits qb \<or> bs_num_bits qa < 8 \<or> bs_num_bits qa mod 8 \<noteq> 0 then None
      else do {
        let num_bytes = bs_num_bits qa div 8;
        (a, b) \<leftarrow> ccodes_loop num_bytes 1 ((replicate num_bytes 0)[num_bytes - 1 := 0xb8])
                  ((replicate num_bytes 0)[num_bytes - 1 := 0xb7]);
        qa \<leftarrow> bsequence_init qa a;
        qb \<leftarrow> bsequence_init qb b;
        Some (qa, qb)
      })"


section \<open>Sequences as lists of bits\<close>

text \<open>Bit \<open>p\<close> of the sequence, counted from the one pushed last; the list has the one pushed first in front.\<close>

definition bs_bit :: "bsequence \<Rightarrow> nat \<Rightarrow> bool" where
  "bs_bit bs p = bit (bs_s bs ! (s_len bs - p div 32 - 1)) (p mod 32)"

definition bs_bits :: "bsequence \<Rightarrow> bool list" where
  "bs_bits bs = map (bs_bit bs) (rev [0..<bs_num_bits bs])"

definition bs_ok :: "bsequence \<Rightarrow> bool" where
  "bs_ok bs \<longleftrightarrow> 0 < bs_num_bits bs \<and> bs_num_bits bs < 2 ^ 31 \<and> s_len bs = ceil_div (bs_num_bits bs) 32 \<and>
     num_bits_msb bs + 32 * (s_len bs - 1) = bs_num_bits bs \<and> bit_mask_msb bs = mask (num_bits_msb bs) \<and>
     length (bs_s bs) = s_len bs \<and> (\<forall>p<32 * s_len bs. bs_num_bits bs \<le> p \<longrightarrow> \<not> bs_bit bs p)"

lemma bs_sizes:
  assumes "bs_ok bs"
  shows "0 < s_len bs" "bs_num_bits bs \<le> 32 * s_len bs" "32 * (s_len bs - 1) < bs_num_bits bs"
    "0 < num_bits_msb bs" "num_bits_msb bs \<le> 32"
proof -
  have n: "0 < bs_num_bits bs" "s_len bs = ceil_div (bs_num_bits bs) 32" "num_bits_msb bs + 32 * (s_len bs - 1) = bs_num_bits bs"
    using assms by (auto simp: bs_ok_def)
  show p: "0 < s_len bs" using n(1,2) by (cases "bs_num_bits bs mod 32 = 0") (auto simp: ceil_div_def)
  show le: "bs_num_bits bs \<le> 32 * s_len bs" unfolding n(2) by (rule le_mult_ceil_div) simp
  have "\<not> ceil_div (bs_num_bits bs) 32 \<le> s_len bs - 1" using n(2) p by simp
  then show lt: "32 * (s_len bs - 1) < bs_num_bits bs" by (simp add: ceil_div_le_iff)
  show "0 < num_bits_msb bs" "num_bits_msb bs \<le> 32" using n(3) le lt p by linarith+
qed

lemma length_bs_bits [simp]: "length (bs_bits bs) = bs_num_bits bs"
  by (simp add: bs_bits_def)

lemma bs_bits_nth: "i < bs_num_bits bs \<Longrightarrow> bs_bits bs ! i = bs_bit bs (bs_num_bits bs - 1 - i)"
  by (simp add: bs_bits_def rev_nth)

lemma bs_bits_eqI: "bs_num_bits bs = length xs \<Longrightarrow> (\<And>p. p < length xs \<Longrightarrow> bs_bit bs p = xs ! (length xs - 1 - p)) \<Longrightarrow> bs_bits bs = xs"
  by (rule nth_equalityI) (simp_all add: bs_bits_nth)

lemma bs_bit_upd: "bs_bit (bs\<lparr>bs_s := s\<rparr>) p = bit (s ! (s_len bs - p div 32 - 1)) (p mod 32)"
  by (simp add: bs_bit_def)

section \<open>Pushing a bit\<close>

abbreviation carry :: "u32 \<Rightarrow> u32" where "carry w \<equiv> drop_bit 31 w AND 1"

lemma bit_carry: "bit (carry w) k \<longleftrightarrow> k = 0 \<and> bit w 31"
  by (auto simp: bit_and_iff bit_drop_bit_eq bit_1_iff)

lemma push_loop_nth:
  "1 \<le> j \<Longrightarrow> n \<le> length s \<Longrightarrow> length (push_loop [j..<n] s) = length s \<and>
   (\<forall>i<length s. push_loop [j..<n] s ! i =
      (if i + 1 = j \<and> j < n then s ! i OR carry (s ! j)
       else if j \<le> i \<and> i < n then push_bit 1 (s ! i) OR (if i + 1 < n then carry (s ! (i + 1)) else 0)
       else s ! i))"
proof (induction "n - j" arbitrary: j s)
  case 0
  then show ?case by auto
next
  case (Suc d)
  then have j: "j < n" by simp
  define s1 where "s1 = s[j := push_bit 1 (s ! j)]"
  define s2 where "s2 = s1[j - 1 := s1 ! (j - 1) OR carry (s ! j)]"
  have e: "push_loop [j..<n] s = push_loop [Suc j..<n] s2"
    using j by (simp add: upt_conv_Cons s1_def s2_def Let_def)
  have "d = n - Suc j" using Suc.hyps(2) by simp
  from Suc.hyps(1) [OF this, of s2] Suc.prems
  have ih: "length (push_loop [Suc j..<n] s2) = length s"
    "\<And>i. i < length s \<Longrightarrow> push_loop [Suc j..<n] s2 ! i =
      (if i = j \<and> Suc j < n then s2 ! i OR carry (s2 ! Suc j)
       else if Suc j \<le> i \<and> i < n then push_bit 1 (s2 ! i) OR (if i + 1 < n then carry (s2 ! (i + 1)) else 0)
       else s2 ! i)"
    by (simp_all add: s2_def s1_def)
  have s2: "s2 ! i = (if i + 1 = j then s ! i OR carry (s ! j) else if i = j then push_bit 1 (s ! i) else s ! i)" if "i < length s" for i
    using that Suc.prems j by (auto simp: s2_def s1_def nth_list_update)
  have "push_loop [Suc j..<n] s2 ! i =
      (if i + 1 = j \<and> j < n then s ! i OR carry (s ! j)
       else if j \<le> i \<and> i < n then push_bit 1 (s ! i) OR (if i + 1 < n then carry (s ! (i + 1)) else 0)
       else s ! i)" if i: "i < length s" for i
  proof -
    consider "i + 1 = j" | "i = j" | "j < i" "i < n" | "i + 1 < j \<or> n \<le> i" using j by linarith
    then show ?thesis
    proof cases
      case 2
      have "Suc j < n \<Longrightarrow> s2 ! Suc j = s ! Suc j" using s2 [of "Suc j"] Suc.prems by simp
      then show ?thesis using 2 ih(2) [OF i] s2 [OF i] j by simp
    next
      case 3
      have "Suc i < n \<Longrightarrow> s2 ! Suc i = s ! Suc i" using s2 [of "Suc i"] Suc.prems 3 by simp
      then show ?thesis using 3 ih(2) [OF i] s2 [OF i] j by simp
    qed (use ih(2) [OF i] s2 [OF i] j in auto)
  qed
  then show ?case using e ih(1) by simp
qed

lemma bit_and_1: "bit (b AND 1 :: u32) k \<longleftrightarrow> k = 0 \<and> bit b 0"
  by (auto simp: bit_and_iff bit_1_iff)

lemma bit_shifted: "bit ((if t then push_bit 1 w AND mask m else push_bit 1 w) OR (if c then carry v else b AND 1) :: u32) r \<longleftrightarrow>
    (0 < r \<and> r < 32 \<and> bit w (r - 1) \<and> (t \<longrightarrow> r < m)) \<or> (r = 0 \<and> (if c then bit v 31 else bit b 0))"
proof -
  have "bit (push_bit 1 w) r \<longleftrightarrow> 0 < r \<and> r < 32 \<and> bit w (r - 1)" by (auto simp add: bit_push_bit_iff simp del: push_bit_numeral push_bit_Suc push_bit_of_1)
  moreover have "bit (mask m :: u32) r \<longleftrightarrow> r < m" if "r < 32" using that by (simp add: bit_mask_iff)
  moreover have "bit (if c then carry v else b AND 1) r \<longleftrightarrow> r = 0 \<and> (if c then bit v 31 else bit b 0)"
    by (cases c) (use bit_carry [of v r] bit_and_1 [of b r] in \<open>simp_all only: if_True if_False\<close>)
  ultimately show ?thesis by (cases t) (auto simp only: bit_or_iff bit_and_iff if_True if_False)
qed

lemma push_nth:
  assumes "length s = n" "0 < n" "i < n"
  shows "(let s1 = push_loop [1..<n] (s[0 := push_bit 1 (s ! 0) AND m]) in s1[n - 1 := s1 ! (n - 1) OR (b AND 1)]) ! i =
    ((if i = 0 then push_bit 1 (s ! i) AND m else push_bit 1 (s ! i)) OR (if i + 1 < n then carry (s ! (i + 1)) else b AND 1))"
proof -
  let ?s0 = "s[0 := push_bit 1 (s ! 0) AND m]"
  have "push_loop [1..<n] ?s0 ! i =
     (if i + 1 = 1 \<and> 1 < n then ?s0 ! i OR carry (?s0 ! 1)
      else if 1 \<le> i \<and> i < n then push_bit 1 (?s0 ! i) OR (if i + 1 < n then carry (?s0 ! (i + 1)) else 0) else ?s0 ! i)"
    "length (push_loop [1..<n] ?s0) = n"
    using push_loop_nth [of 1 n ?s0] assms by (auto simp del: upt_Suc)
  moreover have "i + 1 < n \<longleftrightarrow> i \<noteq> n - 1" using assms(3) by linarith
  ultimately show ?thesis using assms by (cases "i = 0") (auto simp: Let_def nth_list_update)
qed

lemma push_bits:
  assumes ok: "bs_ok bs"
  shows "\<exists>bs'. bsequence_push bs b = Some bs' \<and> bs_ok bs' \<and> bs_num_bits bs' = bs_num_bits bs \<and>
    bs_bits bs' = tl (bs_bits bs) @ [bit b 0]"
proof -
  let ?n = "s_len bs" and ?N = "bs_num_bits bs"
  note sz = bs_sizes [OF ok]
  have len: "length (bs_s bs) = ?n" and msk: "bit_mask_msb bs = mask (num_bits_msb bs)"
    and msb: "num_bits_msb bs + 32 * (?n - 1) = ?N" and z: "\<And>p. p < 32 * ?n \<Longrightarrow> ?N \<le> p \<Longrightarrow> \<not> bs_bit bs p"
    using ok by (auto simp: bs_ok_def)
  define s where "s = (let s1 = push_loop [1..<?n] ((bs_s bs)[0 := push_bit 1 (bs_s bs ! 0) AND bit_mask_msb bs])
    in s1[?n - 1 := s1 ! (?n - 1) OR (b AND 1)])"
  have push: "bsequence_push bs b = Some (bs\<lparr>bs_s := s\<rparr>)"
    using sz(1) by (simp add: bsequence_push_def s_def Let_def)
  have ls: "length s = ?n" using push_loop_nth [of 1 ?n "(bs_s bs)[0 := push_bit 1 (bs_s bs ! 0) AND bit_mask_msb bs]"] len
    by (simp add: s_def Let_def)
  have nth: "s ! i = ((if i = 0 then push_bit 1 (bs_s bs ! i) AND mask (num_bits_msb bs) else push_bit 1 (bs_s bs ! i)) OR
      (if i + 1 < ?n then carry (bs_s bs ! (i + 1)) else b AND 1))" if "i < ?n" for i
    unfolding s_def msk [symmetric] by (rule push_nth [OF len sz(1) that])
  have bit: "bs_bit (bs\<lparr>bs_s := s\<rparr>) p = (if p = 0 then bit b 0 else p < ?N \<and> bs_bit bs (p - 1))" if p: "p < 32 * ?n" for p
  proof -
    define q r where "q = p div 32" and "r = p mod 32"
    have pqr: "p = 32 * q + r" "r < 32" by (simp_all add: q_def r_def)
    have q: "q < ?n" using p pqr by linarith
    have top: "?n - q - 1 = 0 \<longleftrightarrow> q = ?n - 1" using q by linarith
    have r1: "(p - 1) div 32 = q" "(p - 1) mod 32 = r - 1" if "0 < r"
    proof -
      have "p - 1 = 32 * q + (r - 1)" using that pqr by simp
      then show "(p - 1) div 32 = q" "(p - 1) mod 32 = r - 1" using pqr(2) by simp_all
    qed
    have r0: "(p - 1) div 32 = q - 1 \<and> (p - 1) mod 32 = 31" if "r = 0" "0 < p"
    proof -
      have "p - 1 = 32 * (q - 1) + 31" using that pqr by (cases q) auto
      then show ?thesis by simp
    qed
    have m': "r < num_bits_msb bs \<longleftrightarrow> p < ?N" if "q = ?n - 1" using that msb pqr by auto
    have lt: "p < ?N" if "q \<noteq> ?n - 1"
    proof -
      have "q + 1 \<le> ?n - 1" using that q by linarith
      then have "32 * (q + 1) \<le> 32 * (?n - 1)" by (intro mult_le_mono2)
      then have "32 * (q + 1) < ?N" using sz(3) by (rule le_less_trans)
      then show ?thesis using pqr by simp
    qed
    have s: "bs_bit (bs\<lparr>bs_s := s\<rparr>) p = bit (s ! (?n - q - 1)) r" by (simp add: bs_bit_upd q_def r_def)
    have i: "?n - q - 1 < ?n" using q by linarith
    have nx: "?n - q - 1 + 1 < ?n \<longleftrightarrow> 0 < q" using q by linarith
    have nxe: "?n - q - 1 + 1 = ?n - (q - 1) - 1" if "0 < q" using q that by linarith
    show ?thesis
    proof (cases "r = 0")
      case True
      then have "bit (s ! (?n - q - 1)) 0 \<longleftrightarrow> (if 0 < q then bit (bs_s bs ! (?n - q - 1 + 1)) 31 else bit b 0)"
        unfolding nth [OF i] bit_shifted nx by simp
      moreover have "p < ?N" if "0 < q"
      proof (cases "q = ?n - 1")
        case True
        then show ?thesis using m' [OF True] sz(4) \<open>r = 0\<close> by simp
      qed (rule lt)
      ultimately show ?thesis using True s pqr(1) r0 nxe by (auto simp: bs_bit_def)
    next
      case False
      have "bit (s ! (?n - q - 1)) r \<longleftrightarrow> bit (bs_s bs ! (?n - q - 1)) (r - 1) \<and> (q = ?n - 1 \<longrightarrow> p < ?N)"
        unfolding nth [OF i] bit_shifted top using False pqr m' by auto
      then show ?thesis using False s pqr(1) r1 lt by (auto simp: bs_bit_def)
    qed
  qed
  have ok': "bs_ok (bs\<lparr>bs_s := s\<rparr>)" using ok ls bit by (auto simp: bs_ok_def)
  have "bs_bits (bs\<lparr>bs_s := s\<rparr>) = tl (bs_bits bs) @ [bit b 0]"
  proof (rule bs_bits_eqI)
    show "bs_num_bits (bs\<lparr>bs_s := s\<rparr>) = length (tl (bs_bits bs) @ [bit b 0])" using ok by (simp add: bs_ok_def)
  next
    fix p assume "p < length (tl (bs_bits bs) @ [bit b 0])"
    then have p: "p < ?N" using ok by (simp add: bs_ok_def)
    show "bs_bit (bs\<lparr>bs_s := s\<rparr>) p = (tl (bs_bits bs) @ [bit b 0]) ! (length (tl (bs_bits bs) @ [bit b 0]) - 1 - p)"
    proof (cases p)
      case (Suc k)
      then have "?N - Suc (Suc (?N - Suc (Suc k))) = k" using p by linarith
      then show ?thesis using bit [of p] p sz(2) Suc by (auto simp: nth_append nth_tl bs_bits_nth)
    qed (use bit [of p] p sz(2) in \<open>auto simp: nth_append\<close>)
  qed
  then show ?thesis using push ok' by auto
qed


section \<open>Windows of bits\<close>

text \<open>The interface of the operations that only push bits: a window of fixed length over a stream of bits.\<close>

fun push_all :: "('s \<Rightarrow> u32 \<Rightarrow> 's option) \<Rightarrow> u32 list \<Rightarrow> 's \<Rightarrow> 's option" where
  "push_all push [] s = Some s"
| "push_all push (b # bs) s = do { s' \<leftarrow> push s b; push_all push bs s' }"

locale bit_window =
  fixes ok :: "'s \<Rightarrow> bool" and bits :: "'s \<Rightarrow> bool list" and push :: "'s \<Rightarrow> u32 \<Rightarrow> 's option"
  assumes nonempty: "ok s \<Longrightarrow> bits s \<noteq> []"
    and push_law: "ok s \<Longrightarrow> \<exists>s'. push s b = Some s' \<and> ok s' \<and> bits s' = tl (bits s) @ [bit b 0]"
begin

lemma push_all_law:
  "ok s \<Longrightarrow> \<exists>s'. push_all push bs s = Some s' \<and> ok s' \<and> bits s' = drop (length bs) (bits s @ map (\<lambda>b. bit b 0) bs)"
proof (induction bs arbitrary: s)
  case (Cons b bs)
  obtain s1 where s1: "push s b = Some s1" "ok s1" "bits s1 = tl (bits s) @ [bit b 0]" using push_law [OF Cons.prems] by blast
  obtain s2 where "push_all push bs s1 = Some s2" "ok s2" "bits s2 = drop (length bs) (bits s1 @ map (\<lambda>b. bit b 0) bs)"
    using Cons.IH [OF s1(2)] by blast
  moreover have "drop (length bs) (bits s1 @ map (\<lambda>b. bit b 0) bs) = drop (length (b # bs)) (bits s @ map (\<lambda>b. bit b 0) (b # bs))"
    using s1(3) nonempty [OF Cons.prems] by (cases "bits s") auto
  ultimately show ?case using s1(1) by auto
qed simp

lemma filled:
  assumes "ok s" "length bs = length (bits s)"
  shows "\<exists>s'. push_all push bs s = Some s' \<and> ok s' \<and> bits s' = map (\<lambda>b. bit b 0) bs"
  using push_all_law [OF assms(1), of bs] assms(2) by auto

lemma turn:
  assumes "ok s" "bit b 0 = hd (bits s)"
  shows "\<exists>s'. push s b = Some s' \<and> ok s' \<and> bits s' = rotate1 (bits s)"
  using push_law [OF assms(1), of b] nonempty [OF assms(1)] assms(2) by (cases "bits s") auto

end

definition sized :: "nat \<Rightarrow> bsequence \<Rightarrow> bool" where
  "sized n bs \<longleftrightarrow> bs_ok bs \<and> bs_num_bits bs = n"

interpretation bseq: bit_window "sized n" bs_bits bsequence_push for n
proof
  fix s b assume s: "sized n s"
  show "\<exists>s'. bsequence_push s b = Some s' \<and> sized n s' \<and> bs_bits s' = tl (bs_bits s) @ [bit b 0]"
    using push_bits [of s b] s by (auto simp: sized_def)
next
  fix s assume "sized n s"
  then have "length (bs_bits s) \<noteq> 0" unfolding length_bs_bits sized_def bs_ok_def by simp
  then show "bs_bits s \<noteq> []" by (simp del: length_bs_bits)
qed

lemma circshift_push:
  assumes "bs_ok bs"
  shows "\<exists>b. bsequence_circshift bs = bsequence_push bs b \<and> bit b 0 = hd (bs_bits bs)"
proof -
  let ?m = "num_bits_msb bs - 1"
  note sz = bs_sizes [OF assms]
  have N: "?m + 32 * (s_len bs - 1) = bs_num_bits bs - 1" "?m < 32" using assms sz(4,5) by (auto simp: bs_ok_def)
  have d: "(bs_num_bits bs - 1) div 32 = s_len bs - 1" "(bs_num_bits bs - 1) mod 32 = ?m"
    unfolding N(1) [symmetric] using N(2) by simp_all
  have "hd (bs_bits bs) = bs_bits bs ! 0" using assms by (intro hd_conv_nth) (auto simp: bs_ok_def simp flip: length_0_conv)
  also have "\<dots> = bit (bs_s bs ! 0) ?m" using assms d sz(1) by (simp add: bs_bits_nth bs_ok_def bs_bit_def)
  finally have "bit (drop_bit ?m (bs_s bs ! 0 AND push_bit ?m 1)) 0 = hd (bs_bits bs)"
    using N(2) by (simp only: bit_drop_bit_eq comp_apply add_0_right bit_and_iff bit_exp_word) simp
  then show ?thesis using sz(1) by (auto simp: bsequence_circshift_def Let_def simp del: One_nat_def)
qed

lemma circshift_bits:
  assumes "bs_ok bs"
  shows "\<exists>bs'. bsequence_circshift bs = Some bs' \<and> bs_ok bs' \<and> bs_num_bits bs' = bs_num_bits bs \<and> bs_bits bs' = rotate1 (bs_bits bs)"
proof -
  obtain b where b: "bsequence_circshift bs = bsequence_push bs b" "bit b 0 = hd (bs_bits bs)" using circshift_push [OF assms] by blast
  show ?thesis using bseq.turn [of "bs_num_bits bs" bs b] b assms by (auto simp: sized_def)
qed

section \<open>Initialization\<close>

lemma bits_of_created:
  assumes "0 < n" "n < 2 ^ 31"
  shows "\<exists>bs. bsequence_create junk n = Some bs \<and> bs_ok bs \<and> bs_num_bits bs = n \<and> bs_bits bs = replicate n False"
proof -
  have m: "fold (\<lambda>i m. push_bit 1 m OR 1) [0..<k] 0 = (mask k :: u32)" for k
    by (induction k) (simp_all add: mask_Suc_double or.commute mult.commute)
  define l where "l = n div 32 + (if n mod 32 > 0 then 1 else 0)"
  define msb where "msb = (if n mod 32 = 0 then 32 else n mod 32)"
  have l: "msb + 32 * (l - 1) = n" using assms(1) unfolding l_def msb_def by (cases "n mod 32 = 0") auto
  define bs where "bs = \<lparr>bs_s = replicate l 0, bs_num_bits = n, num_bits_msb = msb, bit_mask_msb = mask msb, s_len = l\<rparr>"
  have c: "bsequence_create junk n = Some bs"
    unfolding bsequence_create_def bsequence_clear_def m Let_def using assms(2) by (simp add: bs_def l_def msb_def)
  have b: "\<not> bs_bit bs p" if "p < 32 * l" for p
  proof -
    have "p div 32 < l" using that by (simp add: less_mult_imp_div_less mult.commute)
    then have "l - p div 32 - 1 < l" by simp
    then show ?thesis by (simp add: bs_bit_def bs_def)
  qed
  have n: "n \<le> 32 * l" using le_mult_ceil_div [of 32 n] by (simp add: ceil_div_def l_def)
  have ok: "bs_ok bs" using assms l b by (auto simp: bs_ok_def bs_def ceil_div_def l_def)
  moreover have "bs_bits bs = replicate n False"
    using b n by (intro bs_bits_eqI) (auto simp: bs_def)
  moreover have "bs_num_bits bs = n" by (simp add: bs_def)
  ultimately show ?thesis using c by blast
qed

text \<open>The first \<open>n\<close> bits of an array of bytes, each from its most significant bit.\<close>

definition byte_bits :: "bytes \<Rightarrow> nat \<Rightarrow> bool list" where
  "byte_bits v n = map (\<lambda>i. bit (v ! (i div 8)) (7 - i mod 8)) [0..<n]"

lemma and_mask_bit: "k \<le> 7 \<Longrightarrow> (v AND drop_bit k 0x80 \<noteq> (0 :: u8)) = bit v (7 - k)"
proof -
  assume k: "k \<le> 7"
  have "list_all (\<lambda>k. drop_bit k (0x80 :: u8) = push_bit (7 - k) 1) [0..<8]" by (simp add: upt_8)
  then have "drop_bit k (0x80 :: u8) = push_bit (7 - k) 1" using k by (simp add: list_all_upt)
  then show ?thesis by (simp only: push_bit_of_1 and_exp_eq_0_iff_not_bit not_not)
qed


lemma init_loop_pushes:
  "n \<le> 8 * length v \<Longrightarrow> i \<le> n \<Longrightarrow> k = (if i mod 8 = 0 then i div 8 else i div 8 + 1) \<Longrightarrow>
   (i mod 8 \<noteq> 0 \<Longrightarrow> byte = v ! (i div 8) \<and> msk = drop_bit (i mod 8) 0x80) \<Longrightarrow>
   init_loop [i..<n] v k byte msk bs =
     push_all bsequence_push (map (\<lambda>i. if bit (v ! (i div 8)) (7 - i mod 8) then 1 else 0) [i..<n]) bs"
proof (induction "n - i" arbitrary: i k byte msk bs)
  case 0
  then show ?case by simp
next
  case (Suc d)
  then have i: "i < n" by simp
  have d: "d = n - Suc i" using Suc.hyps(2) by simp
  have step: "Suc i \<le> n" using i by simp
  show ?case
  proof (cases "i mod 8 = 0")
    case True
    have k: "k = i div 8" using Suc.prems(3) True by simp
    have lt: "k < length v" using i Suc.prems(1) unfolding k by (simp add: less_mult_imp_div_less mult.commute)
    have nx: "Suc i mod 8 = 1" "Suc i div 8 = i div 8" using True by (simp_all add: mod_Suc div_Suc)
    have "init_loop [Suc i..<n] v (k + 1) (v ! k) (drop_bit 1 0x80) bs' =
        push_all bsequence_push (map (\<lambda>i. if bit (v ! (i div 8)) (7 - i mod 8) then 1 else 0) [Suc i..<n]) bs'" for bs'
      by (rule Suc.hyps(1) [OF d Suc.prems(1) step]) (simp_all only: nx k if_False one_neq_zero not_False_eq_True simp_thms)
    then have "init_loop [Suc i..<n] v (k + 1) (v ! k) (drop_bit 1 0x80) =
        push_all bsequence_push (map (\<lambda>i. if bit (v ! (i div 8)) (7 - i mod 8) then 1 else 0) [Suc i..<n])"
      by (rule ext)
    moreover have "(v ! k AND 0x80 \<noteq> 0) = bit (v ! k) 7" using and_mask_bit [of 0 "v ! k"] by simp
    ultimately show ?thesis using i lt True k by (simp only: upt_conv_Cons init_loop.simps if_True list.map push_all.simps diff_zero simp_thms)
  next
    case False
    have b: "byte = v ! (i div 8)" "msk = drop_bit (i mod 8) 0x80" using Suc.prems(4) [OF False] by simp_all
    have k: "k = i div 8 + 1" using Suc.prems(3) False by simp
    have "init_loop [Suc i..<n] v k byte (drop_bit 1 msk) bs' =
        push_all bsequence_push (map (\<lambda>i. if bit (v ! (i div 8)) (7 - i mod 8) then 1 else 0) [Suc i..<n]) bs'" for bs'
    proof (rule Suc.hyps(1) [OF d Suc.prems(1) step])
      show "k = (if Suc i mod 8 = 0 then Suc i div 8 else Suc i div 8 + 1)" using k False by (auto simp: mod_Suc div_Suc)
      assume "Suc i mod 8 \<noteq> 0"
      then have "Suc i mod 8 = Suc (i mod 8)" "Suc i div 8 = i div 8" by (auto simp: mod_Suc div_Suc split: if_splits)
      then show "byte = v ! (Suc i div 8) \<and> drop_bit 1 msk = drop_bit (Suc i mod 8) 0x80" using b by (simp only: drop_bit_drop_bit) simp
    qed
    then have "init_loop [Suc i..<n] v k byte (drop_bit 1 msk) =
        push_all bsequence_push (map (\<lambda>i. if bit (v ! (i div 8)) (7 - i mod 8) then 1 else 0) [Suc i..<n])"
      by (rule ext)
    moreover have "(byte AND msk \<noteq> 0) = bit (v ! (i div 8)) (7 - i mod 8)"
      unfolding b by (rule and_mask_bit) (use mod_less_divisor [of 8 i] in linarith)
    ultimately show ?thesis using i False by (simp only: upt_conv_Cons init_loop.simps if_False list.map push_all.simps)
  qed
qed

lemma init_bits:
  assumes "bs_ok bs" "bs_num_bits bs \<le> 8 * length v"
  shows "\<exists>bs'. bsequence_init bs v = Some bs' \<and> bs_ok bs' \<and> bs_num_bits bs' = bs_num_bits bs \<and> bs_bits bs' = byte_bits v (bs_num_bits bs)"
proof -
  let ?l = "map (\<lambda>i. if bit (v ! (i div 8)) (7 - i mod 8) then 1 else 0 :: u32) [0..<bs_num_bits bs]"
  have "bsequence_init bs v = push_all bsequence_push ?l bs"
    unfolding bsequence_init_def by (rule init_loop_pushes) (use assms(2) in auto)
  moreover have "map (\<lambda>b. bit b 0) ?l = byte_bits v (bs_num_bits bs)" by (simp add: byte_bits_def)
  ultimately show ?thesis using bseq.filled [of "bs_num_bits bs" bs ?l] assms(1) by (auto simp: sized_def)
qed

section \<open>Whole-block operations\<close>

lemma block_sum: "(\<Sum>i\<leftarrow>[0..<n]. ones (f i :: u32)) = (\<Sum>p<n * 32. of_bool (bit (f (n - p div 32 - 1)) (p mod 32)))"
proof -
  have one: "ones w = (\<Sum>r<32. of_bool (bit w r))" for w :: u32
    by (simp add: ones_def length_filter_sum sum_list_distinct_conv_sum_set atLeast0LessThan)
  have "(\<Sum>i\<leftarrow>[0..<n]. ones (f i)) = (\<Sum>i<n. ones (f i))" by (simp add: sum_list_distinct_conv_sum_set atLeast0LessThan)
  also have "\<dots> = (\<Sum>q<n. ones (f (n - Suc q)))" by (rule sum.nat_diff_reindex [symmetric])
  also have "\<dots> = (\<Sum>q<n. \<Sum>p = q * 32..<q * 32 + 32. of_bool (bit (f (n - p div 32 - 1)) (p mod 32)))"
  proof (rule sum.cong [OF refl])
    fix q
    have "(\<Sum>p = q * 32..<q * 32 + 32. of_bool (bit (f (n - p div 32 - 1)) (p mod 32)) :: nat) =
        (\<Sum>r<32. of_bool (bit (f (n - (r + q * 32) div 32 - 1)) ((r + q * 32) mod 32)))"
      using sum.shift_bounds_nat_ivl [of "\<lambda>p. of_bool (bit (f (n - p div 32 - 1)) (p mod 32)) :: nat" 0 "q * 32" 32]
      by (simp only: add_0 atLeast0LessThan add.commute)
    also have "\<dots> = (\<Sum>r<32. of_bool (bit (f (n - Suc q)) r))" by (rule sum.cong) auto
    finally show "ones (f (n - Suc q)) = (\<Sum>p = q * 32..<q * 32 + 32. of_bool (bit (f (n - p div 32 - 1)) (p mod 32)))"
      by (simp only: one)
  qed
  also have "\<dots> = (\<Sum>p<n * 32. of_bool (bit (f (n - p div 32 - 1)) (p mod 32)))" by (rule sum.nat_group)
  finally show ?thesis .
qed

text \<open>The positions at which two lists agree.\<close>

definition agreements :: "bool list \<Rightarrow> bool list \<Rightarrow> nat" where
  "agreements xs ys = length (filter (\<lambda>(x, y). x = y) (zip xs ys))"

lemma bits_sum: "(\<Sum>x\<leftarrow>bs_bits bs. f x) = (\<Sum>p<bs_num_bits bs. f (bs_bit bs p) :: nat)"
  by (simp add: bs_bits_def sum_list_rev rev_map [symmetric] sum_list_distinct_conv_sum_set atLeast0LessThan)

lemma agreements_sum: "bs_num_bits a = bs_num_bits b \<Longrightarrow> agreements (bs_bits a) (bs_bits b) = (\<Sum>p<bs_num_bits a. of_bool (bs_bit a p = bs_bit b p))"
proof -
  assume "bs_num_bits a = bs_num_bits b"
  then have "zip (bs_bits a) (bs_bits b) = map (\<lambda>p. (bs_bit a p, bs_bit b p)) (rev [0..<bs_num_bits a])"
    by (simp add: bs_bits_def zip_map_map zip_same_conv_map)
  then show ?thesis
    by (simp add: agreements_def length_filter_sum split_def rev_map [symmetric] sum_list_rev sum_list_distinct_conv_sum_set
        atLeast0LessThan o_def)
qed


text \<open>The bit at a position of the blocks whose number is computed from the other end.\<close>

lemma of_bool_sum_upto:
  fixes f :: "nat \<Rightarrow> bool"
  assumes "n \<le> m" "\<And>p. n \<le> p \<Longrightarrow> p < m \<Longrightarrow> f p"
  shows "(\<Sum>p<m. of_bool (f p) :: nat) = (\<Sum>p<n. of_bool (f p)) + (m - n)"
proof -
  have "(\<Sum>p<m. of_bool (f p) :: nat) = (\<Sum>p\<in>{..<n} \<union> {n..<m}. of_bool (f p))" using assms(1) by (simp add: ivl_disj_un)
  also have "\<dots> = (\<Sum>p<n. of_bool (f p)) + (\<Sum>p = n..<m. of_bool (f p))" by (intro sum.union_disjoint) auto
  also have "(\<Sum>p = n..<m. of_bool (f p) :: nat) = (\<Sum>p = n..<m. 1)" using assms(2) by (intro sum.cong) auto
  finally show ?thesis by simp
qed

lemma correlate_bits:
  assumes "bs_ok a" "bs_ok b" "bs_num_bits a = bs_num_bits b"
  shows "bsequence_correlate a b = Some (int (agreements (bs_bits a) (bs_bits b)))"
proof -
  let ?n = "s_len a" and ?N = "bs_num_bits a"
  note sz = bs_sizes [OF assms(1)]
  have n: "s_len b = ?n" using assms by (simp add: bs_ok_def)
  have "(\<Sum>i\<leftarrow>[0..<?n]. liquid_count_ones (NOT (bs_s a ! i XOR bs_s b ! i))) =
      (\<Sum>p<?n * 32. of_bool (bit (NOT (bs_s a ! (?n - p div 32 - 1) XOR bs_s b ! (?n - p div 32 - 1))) (p mod 32)))"
    unfolding liquid_count_ones_ones by (rule block_sum)
  also have "\<dots> = (\<Sum>p<?n * 32. of_bool (bs_bit a p = bs_bit b p))"
    by (intro sum.cong) (auto simp: bs_bit_def n bit_not_iff bit_xor_iff)
  also have "\<dots> = (\<Sum>p<?N. of_bool (bs_bit a p = bs_bit b p)) + (?n * 32 - ?N)"
    by (rule of_bool_sum_upto) (use sz assms n in \<open>auto simp: bs_ok_def\<close>)
  finally have "(\<Sum>i\<leftarrow>[0..<?n]. liquid_count_ones (NOT (bs_s a ! i XOR bs_s b ! i))) =
    agreements (bs_bits a) (bs_bits b) + (?n * 32 - ?N)" by (simp only: agreements_sum [OF assms(3)])
  moreover have "?n * 32 - ?N = 32 - num_bits_msb a"
  proof -
    have "num_bits_msb a + 32 * (?n - 1) = ?N" using assms(1) by (auto simp: bs_ok_def)
    then show ?thesis using sz(1) by (cases ?n) auto
  qed
  moreover have "(\<Sum>i\<leftarrow>xs. int (f i)) = int (\<Sum>i\<leftarrow>xs. f i)" for f and xs :: "nat list" by (induction xs) simp_all
  ultimately show ?thesis using n by (simp add: bsequence_correlate_def)
qed

lemma accumulate_bits:
  assumes "bs_ok bs"
  shows "bsequence_accumulate bs = length (filter id (bs_bits bs))"
proof -
  let ?n = "s_len bs" and ?N = "bs_num_bits bs"
  note sz = bs_sizes [OF assms]
  have "(\<Sum>i\<leftarrow>[0..<?n]. liquid_count_ones (bs_s bs ! i)) = (\<Sum>p<?n * 32. of_bool (bs_bit bs p))"
    unfolding liquid_count_ones_ones block_sum bs_bit_def ..
  also have "\<dots> = (\<Sum>p<?N. of_bool (bs_bit bs p))"
    by (rule sum.mono_neutral_right) (use sz assms in \<open>auto simp: bs_ok_def\<close>)
  also have "\<dots> = length (filter id (bs_bits bs))" by (simp add: length_filter_sum bits_sum)
  finally have s: "(\<Sum>i\<leftarrow>[0..<?n]. liquid_count_ones (bs_s bs ! i)) = length (filter id (bs_bits bs))" .
  have "length (filter id (bs_bits bs)) \<le> ?N" using length_filter_le [of id "bs_bits bs"] by simp
  then have "length (filter id (bs_bits bs)) < 2 ^ 32" using assms by (simp add: bs_ok_def)
  then show ?thesis unfolding bsequence_accumulate_def s by (rule wrap32_id)
qed

lemma index_bits:
  assumes "bs_ok bs"
  shows "bsequence_index bs i = (if i < bs_num_bits bs then Some (of_bool (rev (bs_bits bs) ! i)) else None)"
proof -
  have "drop_bit r w AND 1 = of_bool (bit w r)" for r and w :: u32
    by (simp add: bit_iff_and_drop_bit_eq_1 and_one_eq odd_iff_mod_2_eq_one)
  moreover have "rev (bs_bits bs) = map (bs_bit bs) [0..<bs_num_bits bs]" by (simp add: bs_bits_def rev_map)
  ultimately show ?thesis by (simp add: bsequence_index_def bs_bit_def)
qed

lemma zip_bits:
  assumes "bs_ok a" "bs_ok b" "bs_ok c" "bs_num_bits a = bs_num_bits b" "bs_num_bits a = bs_num_bits c"
    "\<And>x y k. bit (f x y :: u32) k = g (bit (x :: u32) k) (bit (y :: u32) k)" "\<not> g False False"
  defines "s \<equiv> map (\<lambda>i. f (bs_s a ! i) (bs_s b ! i)) [0..<s_len a]"
  shows "bs_ok (c\<lparr>bs_s := s\<rparr>) \<and> bs_bits (c\<lparr>bs_s := s\<rparr>) = map2 g (bs_bits a) (bs_bits b)"
proof -
  have n: "s_len b = s_len a" "s_len c = s_len a" using assms(1-5) by (simp_all add: bs_ok_def)
  have bit: "bs_bit (c\<lparr>bs_s := s\<rparr>) p = g (bs_bit a p) (bs_bit b p)" if "p < 32 * s_len a" for p
  proof -
    have "p div 32 < s_len a" using that by (simp add: less_mult_imp_div_less mult.commute)
    then show ?thesis by (simp add: bs_bit_def s_def n assms(6))
  qed
  have z: "\<not> bs_bit a p" "\<not> bs_bit b p" if "p < 32 * s_len a" "bs_num_bits a \<le> p" for p
    using assms(1,2,4) that n(1) unfolding bs_ok_def by metis+
  have "\<forall>p<32 * s_len a. bs_num_bits a \<le> p \<longrightarrow> \<not> bs_bit (c\<lparr>bs_s := s\<rparr>) p"
    using bit z assms(7) by simp
  moreover have "length s = s_len a" by (simp add: s_def)
  ultimately have "bs_ok (c\<lparr>bs_s := s\<rparr>)"
    using assms(3) unfolding bs_ok_def by (elim conjE) (simp add: n assms(5) [symmetric])
  moreover have "bs_bits (c\<lparr>bs_s := s\<rparr>) = map2 g (bs_bits a) (bs_bits b)"
    by (rule bs_bits_eqI) (use assms(4,5) bit bs_sizes(2) [OF assms(1)] in \<open>auto simp: bs_bits_nth\<close>)
  ultimately show ?thesis by simp
qed

lemma add_mul_bits:
  assumes "bs_ok a" "bs_ok b" "bs_ok c" "bs_num_bits a = bs_num_bits b" "bs_num_bits a = bs_num_bits c"
  shows "\<exists>r. bsequence_add a b c = Some r \<and> bs_ok r \<and> bs_bits r = map2 (\<noteq>) (bs_bits a) (bs_bits b)"
    "\<exists>r. bsequence_mul a b c = Some r \<and> bs_ok r \<and> bs_bits r = map2 (\<and>) (bs_bits a) (bs_bits b)"
proof -
  have n: "s_len b = s_len a" "s_len c = s_len a" using assms by (simp_all add: bs_ok_def)
  show "\<exists>r. bsequence_add a b c = Some r \<and> bs_ok r \<and> bs_bits r = map2 (\<noteq>) (bs_bits a) (bs_bits b)"
    using zip_bits [OF assms, of "(XOR)" "(\<noteq>)"] n by (simp add: bsequence_add_def bit_xor_iff)
  show "\<exists>r. bsequence_mul a b c = Some r \<and> bs_ok r \<and> bs_bits r = map2 (\<and>) (bs_bits a) (bs_bits b)"
    using zip_bits [OF assms, of "(AND)" "(\<and>)"] n by (simp add: bsequence_mul_def bit_and_iff)
qed

text \<open>
  C17: the operations on packed binary sequences implement lists of bits, for every length from 1 to
  \<open>2 ^ 31 - 1\<close> whatever the rest of the last block: creation gives zeros; pushing drops the first bit and
  appends the new one; the circular shift is a rotation; initialization reads the bits of the bytes
  from the most significant one on; an index counts from the last bit; addition and multiplication are
  bitwise and the correlation of two sequences is the number of positions at which they agree.
\<close>

theorem bsequence_refines_bits:
  assumes "bs_ok a" "bs_ok b" "bs_num_bits b = bs_num_bits a" "0 < n" "n < 2 ^ 31" "bs_num_bits a \<le> 8 * length v"
  shows "(\<exists>c. bsequence_create junk n = Some c \<and> bs_ok c \<and> bs_bits c = replicate n False) \<and>
    (\<exists>c. bsequence_push a x = Some c \<and> bs_ok c \<and> bs_bits c = tl (bs_bits a) @ [odd x]) \<and>
    (\<exists>c. bsequence_circshift a = Some c \<and> bs_ok c \<and> bs_bits c = rotate1 (bs_bits a)) \<and>
    (\<exists>c. bsequence_init a v = Some c \<and> bs_ok c \<and> bs_bits c = byte_bits v (bs_num_bits a)) \<and>
    (\<exists>c. bsequence_add a b a = Some c \<and> bs_ok c \<and> bs_bits c = map2 (\<noteq>) (bs_bits a) (bs_bits b)) \<and>
    (\<exists>c. bsequence_mul a b a = Some c \<and> bs_ok c \<and> bs_bits c = map2 (\<and>) (bs_bits a) (bs_bits b)) \<and>
    bsequence_correlate a b = Some (int (agreements (bs_bits a) (bs_bits b))) \<and>
    bsequence_accumulate a = length (filter id (bs_bits a)) \<and>
    bsequence_index a i = (if i < bs_num_bits a then Some (of_bool (rev (bs_bits a) ! i)) else None) \<and>
    bsequence_get_length a = length (bs_bits a)"
proof -
  have o: "odd x = bit x 0" by (simp add: bit_0)
  show ?thesis
    unfolding o
    using bits_of_created [OF assms(4,5), of junk] push_bits [OF assms(1), of x] circshift_bits [OF assms(1)]
      init_bits [OF assms(1,6)] add_mul_bits [OF assms(1,2,1)] correlate_bits [OF assms(1,2)] accumulate_bits [OF assms(1)]
      index_bits [OF assms(1), of i] assms(3)
    by (auto simp: bsequence_get_length_def)
qed


section \<open>Complementary sequences\<close>

definition sign :: "bool \<Rightarrow> int" where
  "sign x = (if x then 1 else -1)"

text \<open>The correlation of a sequence with itself at shift \<open>j\<close>, not wrapped around.\<close>

definition lobe :: "bool list \<Rightarrow> nat \<Rightarrow> int" where
  "lobe xs j = (\<Sum>i<length xs - j. sign (xs ! i) * sign (xs ! (i + j)))"

definition complementary :: "bool list \<Rightarrow> bool list \<Rightarrow> bool" where
  "complementary xs ys \<longleftrightarrow> length xs = length ys \<and> (\<forall>j>0. lobe xs j + lobe ys j = 0)"

definition sig :: "bool list \<Rightarrow> nat \<Rightarrow> int" where
  "sig xs i = (if i < length xs then sign (xs ! i) else 0)"

lemma lobe_sig: "length xs \<le> m \<Longrightarrow> lobe xs j = (\<Sum>i<m. sig xs i * sig xs (i + j))"
proof -
  assume m: "length xs \<le> m"
  have "(\<Sum>i<m. sig xs i * sig xs (i + j)) = (\<Sum>i<length xs - j. sig xs i * sig xs (i + j))"
    by (rule sum.mono_neutral_right) (use m in \<open>auto simp: sig_def\<close>)
  also have "\<dots> = lobe xs j" unfolding lobe_def by (rule sum.cong) (auto simp: sig_def)
  finally show ?thesis ..
qed

lemma sig_append: "sig (xs @ ys) i = sig xs i + (if length xs \<le> i then sig ys (i - length xs) else 0)"
  by (auto simp: sig_def nth_append)

lemma sig_Not: "sig (map Not ys) i = - sig ys i"
  by (auto simp: sig_def sign_def)

lemma complementary_double:
  assumes "complementary xs ys"
  shows "complementary (xs @ ys) (xs @ map Not ys)"
proof -
  let ?n = "length xs"
  define x where "x = sig xs"
  define y where "y i = (if ?n \<le> i then sig ys (i - ?n) else 0)" for i
  have n: "length ys = ?n" using assms by (simp add: complementary_def)
  have zs: "sig (xs @ ys) = (\<lambda>i. x i + y i)" "sig (xs @ map Not ys) = (\<lambda>i. x i - y i)"
    by (auto simp: sig_append sig_Not x_def y_def)
  have "lobe (xs @ ys) j + lobe (xs @ map Not ys) j = 0" if j: "0 < j" for j
  proof -
    have z: "y i * x (i + j) = 0" for i by (simp add: y_def x_def sig_def)
    have "lobe (xs @ ys) j + lobe (xs @ map Not ys) j =
        (\<Sum>i<2 * ?n. (x i + y i) * (x (i + j) + y (i + j)) + (x i - y i) * (x (i + j) - y (i + j)))"
      using lobe_sig [of "xs @ ys" "2 * ?n" j] lobe_sig [of "xs @ map Not ys" "2 * ?n" j] n by (simp add: zs sum.distrib)
    also have "\<dots> = (\<Sum>i<2 * ?n. 2 * (x i * x (i + j)) + 2 * (y i * y (i + j)))"
      using z by (intro sum.cong) (auto simp: algebra_simps)
    also have "\<dots> = 2 * (\<Sum>i<2 * ?n. x i * x (i + j)) + 2 * (\<Sum>i<2 * ?n. y i * y (i + j))"
      by (simp add: sum.distrib sum_distrib_left)
    also have "(\<Sum>i<2 * ?n. y i * y (i + j)) = (\<Sum>i = ?n..<2 * ?n. y i * y (i + j))"
      by (rule sum.mono_neutral_right) (auto simp: y_def)
    also have "\<dots> = (\<Sum>i<?n. sig ys i * sig ys (i + j))"
      using sum.shift_bounds_nat_ivl [of "\<lambda>i. y i * y (i + j)" 0 ?n ?n]
      by (simp add: mult_2 atLeast0LessThan y_def)
    also have "\<dots> = lobe ys j" using lobe_sig [of ys ?n j] n by simp
    also have "(\<Sum>i<2 * ?n. x i * x (i + j)) = lobe xs j" using lobe_sig [of xs "2 * ?n" j] by (simp add: x_def)
    finally have "lobe (xs @ ys) j + lobe (xs @ map Not ys) j = 2 * (lobe xs j + lobe ys j)" by simp
    also have "lobe xs j + lobe ys j = 0" using assms j by (simp add: complementary_def)
    finally show ?thesis by simp
  qed
  then show ?thesis using n by (simp add: complementary_def)
qed

text \<open>With wrap-around, the agreements of a sequence and its rotation.\<close>

lemma agreements_rotate:
  assumes "0 < j" "j < length xs"
  shows "2 * int (agreements xs (rotate j xs)) = int (length xs) + lobe xs j + lobe xs (length xs - j)"
proof -
  let ?n = "length xs"
  let ?f = "\<lambda>i. sign (xs ! i) * sign (xs ! ((i + j) mod ?n))"
  have "zip xs (rotate j xs) = map (\<lambda>i. (xs ! i, xs ! ((i + j) mod ?n))) [0..<?n]"
    by (rule nth_equalityI) (simp_all add: nth_rotate add.commute)
  then have "agreements xs (rotate j xs) = (\<Sum>i<?n. of_bool (xs ! i = xs ! ((i + j) mod ?n)))"
    by (simp add: agreements_def length_filter_sum o_def sum_list_distinct_conv_sum_set atLeast0LessThan)
  then have "2 * int (agreements xs (rotate j xs)) = (\<Sum>i<?n. 2 * of_bool (xs ! i = xs ! ((i + j) mod ?n)))"
    by (simp add: sum_distrib_left)
  also have "\<dots> = (\<Sum>i<?n. 1 + ?f i)" by (rule sum.cong) (auto simp: sign_def)
  also have "\<dots> = int ?n + (\<Sum>i<?n. ?f i)" by (simp add: sum.distrib)
  also have "(\<Sum>i<?n. ?f i) = (\<Sum>i<?n - j. ?f i) + (\<Sum>i = ?n - j..<?n. ?f i)"
    using assms by (subst sum.union_disjoint [symmetric]) (auto simp: ivl_disj_un)
  also have "(\<Sum>i<?n - j. ?f i) = lobe xs j" by (simp add: lobe_def)
  also have "(\<Sum>i = ?n - j..<?n. ?f i) = (\<Sum>i<j. ?f (i + (?n - j)))"
    using sum.shift_bounds_nat_ivl [of ?f 0 "?n - j" j] assms by (simp add: atLeast0LessThan)
  also have "\<dots> = lobe xs (?n - j)"
    unfolding lobe_def using assms by (intro sum.cong) (auto simp: mult.commute)
  finally show ?thesis by simp
qed

lemma complementary_agreements:
  assumes "complementary xs ys" "0 < j" "j < length xs"
  shows "agreements xs (rotate j xs) + agreements ys (rotate j ys) = length xs"
proof -
  have n: "length ys = length xs" and c: "lobe xs i + lobe ys i = 0" if "0 < i" for i
    using assms(1) that by (simp_all add: complementary_def)
  have "2 * int (agreements xs (rotate j xs)) + 2 * int (agreements ys (rotate j ys)) = 2 * int (length xs)"
    using agreements_rotate [OF assms(2,3)] agreements_rotate [of j ys] assms(2,3) n [OF assms(2)] c [OF assms(2)] c [of "length xs - j"] by simp
  then show ?thesis by simp
qed

section \<open>The codes\<close>

definition bits8 :: "u8 \<Rightarrow> bool list" where
  "bits8 b = map (\<lambda>i. bit b (7 - i)) [0..<8]"

lemma bits8_complement: "bits8 (b XOR 0xff) = map Not (bits8 b)"
proof -
  have "bit (0xff :: u8) (7 - i)" for i
  proof -
    have "list_all (\<lambda>k. bit (0xff :: u8) k) [0..<8]" by (simp add: upt_8)
    then show ?thesis by (simp add: list_all_upt)
  qed
  then show ?thesis by (simp add: bits8_def bit_xor_iff)
qed

lemma byte_bits_concat: "byte_bits v (8 * length v) = concat (map bits8 v)"
proof -
  have "byte_bits v (8 * m) = concat (map bits8 (take m v))" if "m \<le> length v" for m
    using that
  proof (induction m)
    case (Suc m)
    have "[0..<8 * Suc m] = [0..<8 * m] @ map (\<lambda>i. 8 * m + i) [0..<8]"
      using upt_add_eq_append [of 0 "8 * m" 8] map_add_upt [of "8 * m" 8] by (simp only: mult_Suc_right add.commute le0)
    moreover have "(8 * m + i) div 8 = m \<and> (8 * m + i) mod 8 = i" if "i < 8" for i using that by simp
    ultimately have "byte_bits v (8 * Suc m) = byte_bits v (8 * m) @ bits8 (v ! m)"
      by (simp add: byte_bits_def bits8_def)
    then show ?case using Suc by (simp add: take_Suc_conv_app_nth)
  qed (simp add: byte_bits_def)
  then show ?thesis by simp
qed

fun ccode :: "nat \<Rightarrow> bytes \<times> bytes" where
  "ccode 0 = ([0xb8], [0xb7])"
| "ccode (Suc k) = (let (a, b) = ccode k in (a @ b, a @ map (\<lambda>x. x XOR 0xff) b))"

lemma ccode_complementary:
  "complementary (concat (map bits8 (fst (ccode k)))) (concat (map bits8 (snd (ccode k)))) \<and>
   length (fst (ccode k)) = 2 ^ k \<and> length (snd (ccode k)) = 2 ^ k"
proof (induction k)
  case 0
  have b: "bits8 0xb8 = [True, False, True, True, True, False, False, False]"
    "bits8 0xb7 = [True, False, True, True, False, True, True, True]" by (simp_all add: bits8_def upt_8)
  have "lobe (bits8 0xb8) j + lobe (bits8 0xb7) j = 0" if "0 < j" for j
  proof (cases "j < 8")
    case True
    have l: "lobe xs j = (\<Sum>i\<leftarrow>[0..<length xs - j]. sign (xs ! i) * sign (xs ! (i + j)))" for xs j
      by (simp add: lobe_def sum_list_distinct_conv_sum_set atLeast0LessThan)
    have "list_all (\<lambda>j. lobe (bits8 0xb8) j + lobe (bits8 0xb7) j = 0) [1, 2, 3, 4, 5, 6, 7]"
      unfolding b l by code_simp
    moreover have "j \<in> set [1, 2, 3, 4, 5, 6, 7]" using True that by auto
    ultimately show ?thesis unfolding list_all_iff by blast
  qed (simp add: lobe_def b)
  then show ?case by (simp add: complementary_def b)
next
  case (Suc k)
  obtain a b where ab: "ccode k = (a, b)" by (cases "ccode k")
  have "concat (map bits8 (map (\<lambda>x. x XOR 0xff) b)) = map Not (concat (map bits8 b))"
    by (simp add: bits8_complement map_concat o_def)
  then show ?case using Suc complementary_double ab by fastforce
qed


lemma move_block_append:
  "length x = n \<Longrightarrow> length y = n \<Longrightarrow> p = int (length pre) \<Longrightarrow> q = int (length src) \<Longrightarrow>
   move_block (pre @ x @ post) p (src @ y @ rest) q n = Some (pre @ y @ post)"
  by (simp add: move_block_def)

lemma complement_tail_append: "n = length b \<Longrightarrow> complement_tail (length a + n) n (a @ b) = a @ map (\<lambda>x. x XOR 0xff) b"
proof -
  have "length (complement_tail (length v) n v) = length v \<and>
      (\<forall>p<length v. complement_tail (length v) n v ! p = (if length v - n \<le> p then v ! p XOR 0xff else v ! p))"
    if "n \<le> length v" for n and v :: bytes
    using that
  proof (induction n)
    case (Suc n)
    have "length v - Suc n \<le> p \<longleftrightarrow> length v - n \<le> p \<or> p = length v - Suc n" if "p < length v" for p using that Suc.prems by linarith
    moreover have "\<not> length v - n \<le> length v - Suc n" using Suc.prems by linarith
    ultimately show ?case using Suc by (simp add: complement_tail_def nth_list_update)
  qed (simp add: complement_tail_def)
  from this [of n "a @ b"] show "n = length b \<Longrightarrow> ?thesis"
    by (intro nth_equalityI) (auto simp: nth_append)
qed

lemma ccodes_loop_ccode:
  "length pa + 2 ^ m = 2 ^ (m + d) \<Longrightarrow> length pb + 2 ^ m = 2 ^ (m + d) \<Longrightarrow>
   ccodes_loop (2 ^ (m + d)) (2 ^ m) (pa @ fst (ccode m)) (pb @ snd (ccode m)) = Some (ccode (m + d))"
proof (induction d arbitrary: m pa pb)
  case 0
  then show ?case by (simp add: ccodes_loop.simps)
next
  case (Suc d)
  define N n :: nat where "N = 2 ^ (m + Suc d)" and "n = 2 ^ m"
  obtain A B where AB: "ccode m = (A, B)" by (cases "ccode m")
  have l: "length A = n" "length B = n" using ccode_complementary [of m] AB by (simp_all add: n_def)
  have "2 ^ 1 * n \<le> 2 ^ Suc d * n" by (intro mult_le_mono1 power_increasing) auto
  then have N: "2 * n \<le> N" by (simp add: power_add mult.commute N_def n_def)
  have n0: "0 < n" by (simp add: n_def)
  have lp: "length pa = N - n" "length pb = N - n" using Suc.prems by (simp_all add: N_def n_def)
  obtain pa1 ma where pa: "pa = pa1 @ ma" "length pa1 = N - 2 * n" "length ma = n"
    using N lp(1) append_take_drop_id [of "N - 2 * n" pa] by (intro that [of "take (N - 2 * n) pa" "drop (N - 2 * n) pa"]) auto
  obtain pb1 mb where pb: "pb = pb1 @ mb" "length pb1 = N - 2 * n" "length mb = n"
    using N lp(2) append_take_drop_id [of "N - 2 * n" pb] by (intro that [of "take (N - 2 * n) pb" "drop (N - 2 * n) pb"]) auto
  have i: "int N - 2 * int n = int (N - 2 * n)" "int N - int n = int (N - n)" using N by auto
  have m1: "move_block (pa1 @ ma @ A) (int N - 2 * int n) ((pa1 @ ma) @ A @ []) (int N - int n) n = Some (pa1 @ A @ A)"
    unfolding i by (rule move_block_append) (use pa l N in auto)
  have m2: "move_block (pb1 @ mb @ B) (int N - 2 * int n) ((pa1 @ A) @ A @ []) (int N - int n) n = Some (pb1 @ A @ B)"
    unfolding i by (rule move_block_append) (use pa pb l N in auto)
  have m3: "move_block ((pa1 @ A) @ A @ []) (int N - int n) ((pb1 @ A) @ B @ []) (int N - int n) n = Some ((pa1 @ A) @ B @ [])"
    unfolding i by (rule move_block_append) (use pa pb l N in auto)
  have m4: "move_block ((pb1 @ A) @ B @ []) (int N - int n) ((pb1 @ A) @ B @ []) (int N - int n) n = Some ((pb1 @ A) @ B @ [])"
    unfolding i by (rule move_block_append) (use pb l N in auto)
  have "length (pb1 @ A) + n = N" using pb l N by simp
  then have ct: "complement_tail N n (pb1 @ A @ B) = pb1 @ A @ map (\<lambda>x. x XOR 0xff) B"
    using complement_tail_append [of n B "pb1 @ A"] l(2) by simp
  have "ccodes_loop N n (pa @ A) (pb @ B) = ccodes_loop N (n + n) (pa1 @ A @ B) (pb1 @ A @ map (\<lambda>x. x XOR 0xff) B)"
    using m1 m2 m3 m4 n0 N ct by (subst ccodes_loop.simps) (simp add: pa(1) pb(1) Let_def)
  also have "n + n = 2 ^ Suc m" by (simp add: n_def)
  also have "ccodes_loop N (2 ^ Suc m) (pa1 @ A @ B) (pb1 @ A @ map (\<lambda>x. x XOR 0xff) B) =
    ccodes_loop (2 ^ (Suc m + d)) (2 ^ Suc m) (pa1 @ fst (ccode (Suc m))) (pb1 @ snd (ccode (Suc m)))"
    by (simp add: AB N_def)
  also have "\<dots> = Some (ccode (Suc m + d))"
    by (rule Suc.IH) (use pa(2) pb(2) N in \<open>simp_all add: N_def n_def\<close>)
  finally show ?case using AB by (simp add: N_def n_def)
qed

lemma ccodes_loop_power:
  "n = 2 ^ m \<Longrightarrow> n \<le> N \<Longrightarrow> ccodes_loop N n a b \<noteq> None \<Longrightarrow> \<exists>k. N = 2 ^ k"
proof (induction N n a b arbitrary: m rule: ccodes_loop.induct)
  case (1 N n a b)
  show ?case
  proof (cases "N \<le> n")
    case True
    then show ?thesis using 1(2,3) by auto
  next
    case False
    let ?i1 = "int N - int n" and ?i0 = "int N - 2 * int n"
    have n: "\<not> (n = 0 \<or> N \<le> n)" using 1(2) False by simp
    have r: "ccodes_loop N n a b = do {
        a1 \<leftarrow> move_block a ?i0 a ?i1 n;
        b1 \<leftarrow> move_block b ?i0 a1 ?i1 n;
        a2 \<leftarrow> move_block a1 ?i1 b1 ?i1 n;
        b2 \<leftarrow> move_block b1 ?i1 b1 ?i1 n;
        ccodes_loop N (n + n) a2 (complement_tail N n b2)
      }"
      using n by (subst ccodes_loop.simps) (simp only: if_False Let_def)
    then obtain a1 where a1: "move_block a ?i0 a ?i1 n = Some a1" using 1(4) by (cases "move_block a ?i0 a ?i1 n") auto
    then obtain b1 where b1: "move_block b ?i0 a1 ?i1 n = Some b1" using 1(4) r by (cases "move_block b ?i0 a1 ?i1 n") auto
    then obtain a2 where a2: "move_block a1 ?i1 b1 ?i1 n = Some a2" using 1(4) r a1 by (cases "move_block a1 ?i1 b1 ?i1 n") auto
    then obtain b2 where b2: "move_block b1 ?i1 b1 ?i1 n = Some b2" using 1(4) r a1 b1 by (cases "move_block b1 ?i1 b1 ?i1 n") auto
    have nn: "ccodes_loop N (n + n) a2 (complement_tail N n b2) \<noteq> None" using 1(4) r a1 b1 a2 b2 by simp
    have "0 \<le> ?i0" using a1 by (auto simp: move_block_def split: if_splits)
    then have le: "n + n \<le> N" by linarith
    show ?thesis by (rule 1(1) [OF n refl refl a1 b1 a2 b2 _ le nn, of "Suc m"]) (simp add: 1(2))
  qed
qed


text \<open>A sequence circularly shifted \<open>j\<close> times.\<close>

fun turns :: "nat \<Rightarrow> bsequence \<Rightarrow> bsequence option" where
  "turns 0 bs = Some bs"
| "turns (Suc j) bs = do { bs' \<leftarrow> bsequence_circshift bs; turns j bs' }"

lemma turns_bits:
  "bs_ok bs \<Longrightarrow> \<exists>bs'. turns j bs = Some bs' \<and> bs_ok bs' \<and> bs_num_bits bs' = bs_num_bits bs \<and> bs_bits bs' = rotate j (bs_bits bs)"
proof (induction j arbitrary: bs)
  case (Suc j)
  obtain b1 where b1: "bsequence_circshift bs = Some b1" "bs_ok b1" "bs_num_bits b1 = bs_num_bits bs" "bs_bits b1 = rotate1 (bs_bits bs)"
    using circshift_bits [OF Suc.prems] by blast
  obtain b2 where "turns j b1 = Some b2" "bs_ok b2" "bs_num_bits b2 = bs_num_bits b1" "bs_bits b2 = rotate j (bs_bits b1)"
    using Suc.IH [OF b1(2)] by blast
  then show ?case using b1 by (simp add: rotate1_rotate_swap)
qed simp

lemma ccodes_made:
  assumes "bs_ok qa" "bs_ok qb" "bs_num_bits qb = bs_num_bits qa" "bs_num_bits qa = 8 * 2 ^ k"
  shows "\<exists>a b. bsequence_create_ccodes qa qb = Some (a, b) \<and> bs_ok a \<and> bs_ok b \<and> bs_num_bits a = 8 * 2 ^ k \<and>
    bs_num_bits b = 8 * 2 ^ k \<and> bs_bits a = concat (map bits8 (fst (ccode k))) \<and> bs_bits b = concat (map bits8 (snd (ccode k)))"
proof -
  let ?n = "bs_num_bits qa div 8"
  have n: "?n = 2 ^ k" using assms(4) by simp
  have r: "(replicate (2 ^ k) 0)[2 ^ k - 1 := x] = replicate (2 ^ k - 1) (0 :: u8) @ [x]" for x
    by (rule nth_equalityI) (auto simp: nth_append nth_list_update)
  have "ccodes_loop (2 ^ (0 + k)) (2 ^ 0) (replicate (2 ^ k - 1) 0 @ fst (ccode 0)) (replicate (2 ^ k - 1) 0 @ snd (ccode 0)) =
    Some (ccode (0 + k))"
    by (rule ccodes_loop_ccode) simp_all
  then have c: "ccodes_loop ?n 1 ((replicate ?n 0)[?n - 1 := 0xb8]) ((replicate ?n 0)[?n - 1 := 0xb7]) = Some (ccode k)"
    unfolding n r by simp
  obtain A B where AB: "ccode k = (A, B)" by (cases "ccode k")
  have l: "length A = 2 ^ k" "length B = 2 ^ k" using ccode_complementary [of k] AB by simp_all
  obtain a where a: "bsequence_init qa A = Some a" "bs_ok a" "bs_num_bits a = 8 * 2 ^ k" "bs_bits a = byte_bits A (8 * length A)"
    using init_bits [OF assms(1), of A] assms(4) l by auto
  obtain b where b: "bsequence_init qb B = Some b" "bs_ok b" "bs_num_bits b = 8 * 2 ^ k" "bs_bits b = byte_bits B (8 * length B)"
    using init_bits [OF assms(2), of B] assms(3,4) l by auto
  have "bsequence_create_ccodes qa qb = Some (a, b)"
    using c a(1) b(1) AB assms(3,4) by (simp add: bsequence_create_ccodes_def Let_def)
  then show ?thesis using a b AB byte_bits_concat [of A] byte_bits_concat [of B] by auto
qed

text \<open>
  C18: the complementary codes are made exactly when the two sequences have the same length and it is 8
  times a power of 2; another multiple of 8, which the code does not refuse, makes it write before
  its arrays. The codes are complementary: when both are circularly shifted by the same number of
  bits, other than 0, and correlated with themselves, the two correlations add up to the length
  of one sequence, as many agreements as disagreements, and the side lobes cancel.
\<close>

theorem ccodes_complementary:
  assumes "bs_ok qa" "bs_ok qb"
  shows "(bsequence_create_ccodes qa qb = None \<longleftrightarrow> bs_num_bits qa \<noteq> bs_num_bits qb \<or> (\<forall>k. bs_num_bits qa \<noteq> 8 * 2 ^ k)) \<and>
    (\<forall>a b j. bsequence_create_ccodes qa qb = Some (a, b) \<and> j < bs_num_bits qa \<longrightarrow>
      (\<exists>a' b' x y. turns j a = Some a' \<and> turns j b = Some b' \<and>
        bsequence_correlate a a' = Some x \<and> bsequence_correlate b b' = Some y \<and>
        x + y = (if j = 0 then 2 * int (bs_num_bits qa) else int (bs_num_bits qa))))"
proof (cases "bs_num_bits qa = bs_num_bits qb \<and> (\<exists>k. bs_num_bits qa = 8 * 2 ^ k)")
  case True
  then obtain k where k: "bs_num_bits qb = bs_num_bits qa" "bs_num_bits qa = 8 * 2 ^ k" by metis
  obtain a b where ab: "bsequence_create_ccodes qa qb = Some (a, b)" "bs_ok a" "bs_ok b" "bs_num_bits a = 8 * 2 ^ k"
    "bs_num_bits b = 8 * 2 ^ k" "bs_bits a = concat (map bits8 (fst (ccode k)))" "bs_bits b = concat (map bits8 (snd (ccode k)))"
    using ccodes_made [OF assms k] by blast
  have "\<exists>a' b' x y. turns j a = Some a' \<and> turns j b = Some b' \<and> bsequence_correlate a a' = Some x \<and> bsequence_correlate b b' = Some y \<and>
      x + y = (if j = 0 then 2 * int (bs_num_bits qa) else int (bs_num_bits qa))" if j: "j < bs_num_bits qa" for j
  proof -
    obtain a' where a': "turns j a = Some a'" "bs_ok a'" "bs_num_bits a' = bs_num_bits a" "bs_bits a' = rotate j (bs_bits a)"
      using turns_bits [OF ab(2)] by blast
    obtain b' where b': "turns j b = Some b'" "bs_ok b'" "bs_num_bits b' = bs_num_bits b" "bs_bits b' = rotate j (bs_bits b)"
      using turns_bits [OF ab(3)] by blast
    have same: "agreements xs xs = length xs" for xs by (induction xs) (simp_all add: agreements_def)
    have "complementary (bs_bits a) (bs_bits b)" using ccode_complementary [of k] ab(6,7) by simp
    then have "agreements (bs_bits a) (rotate j (bs_bits a)) + agreements (bs_bits b) (rotate j (bs_bits b)) =
        (if j = 0 then 2 * bs_num_bits qa else bs_num_bits qa)"
      using complementary_agreements [of "bs_bits a" "bs_bits b" j] same ab(4,5) k(2) j by simp
    then show ?thesis
      using a' b' correlate_bits [OF ab(2) a'(2)] correlate_bits [OF ab(3) b'(2)] by (auto simp flip: of_nat_add)
  qed
  moreover have "\<not> (bs_num_bits qa \<noteq> bs_num_bits qb \<or> (\<forall>k. bs_num_bits qa \<noteq> 8 * 2 ^ k))" using True by blast
  ultimately show ?thesis using ab(1) by auto
next
  case False
  have "bsequence_create_ccodes qa qb = None"
  proof (rule ccontr)
    assume n: "bsequence_create_ccodes qa qb \<noteq> None"
    let ?n = "bs_num_bits qa div 8"
    have e: "bs_num_bits qa = bs_num_bits qb" "8 \<le> bs_num_bits qa" "bs_num_bits qa mod 8 = 0"
      using n by (auto simp: bsequence_create_ccodes_def split: if_splits)
    have c: "ccodes_loop ?n 1 ((replicate ?n 0)[?n - 1 := 0xb8]) ((replicate ?n 0)[?n - 1 := 0xb7]) \<noteq> None"
      using n e by (intro notI) (simp add: bsequence_create_ccodes_def Let_def)
    have "1 \<le> ?n" using e(2) by simp
    then obtain k where "?n = 2 ^ k" using ccodes_loop_power [of 1 0 ?n, OF _ _ c] by auto
    then have "bs_num_bits qa = 8 * 2 ^ k" using e(3) by auto
    then show False using False e(1) by blast
  qed
  then show ?thesis using False by auto
qed

section \<open>Concrete sequences\<close>

definition some_bits :: "nat \<Rightarrow> bsequence" where
  "some_bits n = the (bsequence_create [] n)"

lemma some_bits_ok: "0 < n \<Longrightarrow> n < 2 ^ 31 \<Longrightarrow> bs_ok (some_bits n) \<and> bs_num_bits (some_bits n) = n"
  using bits_of_created [of n "[]"] by (auto simp: some_bits_def)


lemma bsequence_refines_bits_witness:
  "(\<exists>c. bsequence_create [7] 33 = Some c \<and> bs_ok c \<and> bs_bits c = replicate 33 False) \<and>
    (\<exists>c. bsequence_push (some_bits 40) 3 = Some c \<and> bs_ok c \<and> bs_bits c = tl (bs_bits (some_bits 40)) @ [odd (3 :: u32)]) \<and>
    (\<exists>c. bsequence_circshift (some_bits 40) = Some c \<and> bs_ok c \<and> bs_bits c = rotate1 (bs_bits (some_bits 40))) \<and>
    (\<exists>c. bsequence_init (some_bits 40) [1, 2, 3, 0xfe, 5] = Some c \<and> bs_ok c \<and>
      bs_bits c = byte_bits [1, 2, 3, 0xfe, 5] (bs_num_bits (some_bits 40))) \<and>
    (\<exists>c. bsequence_add (some_bits 40) (some_bits 40) (some_bits 40) = Some c \<and> bs_ok c \<and>
      bs_bits c = map2 (\<noteq>) (bs_bits (some_bits 40)) (bs_bits (some_bits 40))) \<and>
    (\<exists>c. bsequence_mul (some_bits 40) (some_bits 40) (some_bits 40) = Some c \<and> bs_ok c \<and>
      bs_bits c = map2 (\<and>) (bs_bits (some_bits 40)) (bs_bits (some_bits 40))) \<and>
    bsequence_correlate (some_bits 40) (some_bits 40) = Some (int (agreements (bs_bits (some_bits 40)) (bs_bits (some_bits 40)))) \<and>
    bsequence_accumulate (some_bits 40) = length (filter id (bs_bits (some_bits 40))) \<and>
    bsequence_index (some_bits 40) 39 =
      (if 39 < bs_num_bits (some_bits 40) then Some (of_bool (rev (bs_bits (some_bits 40)) ! 39)) else None) \<and>
    bsequence_get_length (some_bits 40) = length (bs_bits (some_bits 40))"
  by (rule bsequence_refines_bits) (simp_all add: some_bits_ok)

lemma ccodes_complementary_witness:
  "\<exists>a b a' b' x y. bsequence_create_ccodes (some_bits 16) (some_bits 16) = Some (a, b) \<and>
    turns 3 a = Some a' \<and> turns 3 b = Some b' \<and>
    bsequence_correlate a a' = Some x \<and> bsequence_correlate b b' = Some y \<and> x + y = 16"
proof -
  have n: "bs_ok (some_bits 16)" "bs_num_bits (some_bits 16) = 16" using some_bits_ok [of 16] by simp_all
  have "bs_num_bits (some_bits 16) = 8 * 2 ^ 1" using n(2) by simp
  then have "bsequence_create_ccodes (some_bits 16) (some_bits 16) \<noteq> None"
    using ccodes_complementary [OF n(1) n(1)] by blast
  then obtain a b where ab: "bsequence_create_ccodes (some_bits 16) (some_bits 16) = Some (a, b)" by auto
  have "3 < bs_num_bits (some_bits 16)" using n(2) by simp
  then have "\<exists>a' b' x y. turns 3 a = Some a' \<and> turns 3 b = Some b' \<and> bsequence_correlate a a' = Some x \<and>
      bsequence_correlate b b' = Some y \<and> x + y = (if (3 :: nat) = 0 then 2 * int (bs_num_bits (some_bits 16)) else int (bs_num_bits (some_bits 16)))"
    using ccodes_complementary [OF n(1) n(1)] ab by blast
  then show ?thesis using ab n(2) by simp
qed

end
