(* ===== verification/Modular_Arithmetic.thy ===== *)
theory Modular_Arithmetic
  imports Radio_Prelude
begin

text \<open>
  \<^verbatim>\<open>liquid_dsp/src/math/src/modular_arithmetic.c\<close>: primality, factorization, modular powers, primitive roots
  and Euler's totient by trial division. Numbers are naturals below \<open>2 ^ 32\<close>, and products are
  reduced to 32 bits. The theorems: primality, factors and unique factors are the ones of arithmetic,
  the totient counts the coprime residues, and the primitive root is the least generator of the
  residues, the last two as long as the products of two residues fit into 32 bits.
\<close>

section \<open>Operations\<close>

fun is_prime_loop :: "nat \<Rightarrow> nat list \<Rightarrow> bool" where
  "is_prime_loop n [] = True"
| "is_prime_loop n (i # is) = (if n mod i = 0 then False else is_prime_loop n is)"

definition liquid_is_prime :: "nat \<Rightarrow> bool" where
  "liquid_is_prime n = (if n < 4 then True else is_prime_loop n [2..<n])"

definition LIQUID_MAX_FACTORS :: nat where
  "LIQUID_MAX_FACTORS = 40"

text \<open>The \<^verbatim>\<open>for\<close> loop over the candidates \<open>k\<close>, left at the first divisor.\<close>

fun find_factor :: "nat \<Rightarrow> nat list \<Rightarrow> nat option" where
  "find_factor n [] = None"
| "find_factor n (k # ks) = (if n mod k = 0 then Some k else find_factor n ks)"

lemma find_factor_Some: "find_factor n ks = Some k \<Longrightarrow> k \<in> set ks \<and> k dvd n"
  by (induction ks) (auto split: if_splits)

lemma find_factor_None: "1 < n \<Longrightarrow> find_factor n [2..<n + 1] \<noteq> None"
proof -
  assume n: "1 < n"
  have "find_factor n ks \<noteq> None" if "n \<in> set ks" for ks using that by (induction ks) auto
  then show ?thesis using n by simp
qed

lemma factor_decreases: "find_factor n [2..<n + 1] = Some k \<Longrightarrow> n div k < n"
  using find_factor_Some [of n "[2..<n + 1]" k] by auto

definition factor_pass :: "nat \<Rightarrow> nat list \<Rightarrow> nat \<times> nat list" where
  "factor_pass n factors =
     (case find_factor n [2..<n + 1] of None \<Rightarrow> (n, factors) | Some k \<Rightarrow> (n div k, factors @ [k]))"

lemma factor_pass_less: "factor_pass n factors = (n', factors') \<Longrightarrow> 1 < n' \<Longrightarrow> n' < n"
  using find_factor_None [of n] factor_decreases [of n] by (auto simp: factor_pass_def split: option.splits)

function factor_loop :: "nat \<Rightarrow> nat list \<Rightarrow> nat \<times> nat list" where
  "factor_loop n factors =
     (case factor_pass n factors of (n', factors') \<Rightarrow>
        if n' > 1 \<and> length factors' < LIQUID_MAX_FACTORS then factor_loop n' factors' else (n', factors'))"
  by pat_completeness auto
termination
proof (relation "measure fst")
  fix n n' :: nat and factors factors'
  assume a: "(n', factors') = factor_pass n factors" "n' > 1 \<and> length factors' < LIQUID_MAX_FACTORS"
  from factor_pass_less [OF a(1) [symmetric]] a(2) show "((n', factors'), n, factors) \<in> measure fst" by simp
qed simp

definition liquid_factor :: "nat \<Rightarrow> nat list option" where
  "liquid_factor n =
     (case factor_loop n [] of (n', factors) \<Rightarrow>
        if n' > 1 \<and> length factors = LIQUID_MAX_FACTORS then None else Some factors)"

text \<open>A repeated factor is written behind the counted ones, and the count stays.\<close>

definition unique_pass :: "nat \<Rightarrow> nat list \<Rightarrow> nat \<times> nat list" where
  "unique_pass n factors =
     (case find_factor n [2..<n + 1] of
        None \<Rightarrow> (n, factors)
      | Some k \<Rightarrow> (n div k, if factors = [] \<or> last factors \<noteq> k then factors @ [k] else factors))"

lemma unique_pass_less: "unique_pass n factors = (n', factors') \<Longrightarrow> 1 < n' \<Longrightarrow> n' < n"
  using find_factor_None [of n] factor_decreases [of n] by (auto simp: unique_pass_def split: option.splits)

function unique_loop :: "nat \<Rightarrow> nat list \<Rightarrow> nat \<times> nat list" where
  "unique_loop n factors =
     (case unique_pass n factors of (n', factors') \<Rightarrow>
        if n' > 1 \<and> length factors' < LIQUID_MAX_FACTORS then unique_loop n' factors' else (n', factors'))"
  by pat_completeness auto
termination
proof (relation "measure fst")
  fix n n' :: nat and factors factors'
  assume a: "(n', factors') = unique_pass n factors" "n' > 1 \<and> length factors' < LIQUID_MAX_FACTORS"
  from unique_pass_less [OF a(1) [symmetric]] a(2) show "((n', factors'), n, factors) \<in> measure fst" by simp
qed simp

definition liquid_unique_factor :: "nat \<Rightarrow> nat list option" where
  "liquid_unique_factor n =
     (case unique_loop n [] of (n', factors) \<Rightarrow>
        if n' > 1 \<and> length factors = LIQUID_MAX_FACTORS then None else Some factors)"

text \<open>Reduction by \<open>n = 0\<close> ends the process.\<close>

definition liquid_modpow :: "nat \<Rightarrow> nat \<Rightarrow> nat \<Rightarrow> nat option" where
  "liquid_modpow base e n =
     (if n = 0 \<and> 0 < e then None else Some (fold (\<lambda>i c. wrap32 (c * base) mod n) [0..<e] 1))"

fun is_root_loop :: "nat \<Rightarrow> nat \<Rightarrow> nat list \<Rightarrow> bool option" where
  "is_root_loop g n [] = Some True"
| "is_root_loop g n (f # fs) = do {
     c \<leftarrow> liquid_modpow g ((n - 1) div f) n;
     if c = 1 then Some False else is_root_loop g n fs
   }"

text \<open>Without a root the search ends with \<open>n\<close>.\<close>

fun root_loop :: "nat \<Rightarrow> nat list \<Rightarrow> nat list \<Rightarrow> nat option" where
  "root_loop n fs [] = Some (max 2 n)"
| "root_loop n fs (g # gs) = do {
     r \<leftarrow> is_root_loop g n fs;
     if r then Some g else root_loop n fs gs
   }"

definition liquid_primitive_root_prime :: "nat \<Rightarrow> nat option" where
  "liquid_primitive_root_prime n = root_loop n (snd (unique_loop (wrap32 (n + (2 ^ 32 - 1))) [])) [2..<n]"

text \<open>The search for a modulus that is not prime is not written yet in the code.\<close>

definition liquid_primitive_root :: "nat \<Rightarrow> nat" where
  "liquid_primitive_root n = 1"

definition totient_pass :: "nat \<Rightarrow> nat \<Rightarrow> nat \<Rightarrow> nat \<times> nat \<times> nat" where
  "totient_pass t n p =
     (case find_factor n [2..<n + 1] of
        None \<Rightarrow> (t, n, p)
      | Some k \<Rightarrow> (if p \<noteq> k then wrap32 (t * (k - 1)) div k else t, n div k, k))"

lemma totient_pass_less: "totient_pass t n p = (t', n', p') \<Longrightarrow> 1 < n' \<Longrightarrow> n' < n"
  using find_factor_None [of n] factor_decreases [of n] by (auto simp: totient_pass_def split: option.splits)

function totient_loop :: "nat \<Rightarrow> nat \<Rightarrow> nat \<Rightarrow> nat" where
  "totient_loop t n p =
     (case totient_pass t n p of (t', n', p') \<Rightarrow> if n' > 1 then totient_loop t' n' p' else t')"
  by pat_completeness auto
termination
proof (relation "measure (\<lambda>(t, n, p). n)")
  fix t n p t' n' p' :: nat and q
  assume a: "(t', q) = totient_pass t n p" "(n', p') = q" "n' > 1"
  have "totient_pass t n p = (t', n', p')" using a(1,2) by simp
  from totient_pass_less [OF this a(3)] show "((t', n', p'), t, n, p) \<in> measure (\<lambda>(t, n, p). n)" by simp
qed simp

definition liquid_totient :: "nat \<Rightarrow> nat" where
  "liquid_totient n = totient_loop n n 0"

declare factor_loop.simps [simp del] unique_loop.simps [simp del] totient_loop.simps [simp del]

section \<open>Primes\<close>

definition prime_nat :: "nat \<Rightarrow> bool" where
  "prime_nat p \<longleftrightarrow> 1 < p \<and> (\<forall>d. d dvd p \<longrightarrow> d = 1 \<or> d = p)"

lemma prime_coprime: "prime_nat p \<Longrightarrow> \<not> p dvd a \<Longrightarrow> coprime p a"
  unfolding prime_nat_def coprime_iff_gcd_eq_1 by (metis gcd_dvd1 gcd_dvd2)

lemma prime_dvd_mult: "prime_nat p \<Longrightarrow> p dvd a * b \<longleftrightarrow> p dvd a \<or> p dvd b"
  by (metis prime_coprime coprime_dvd_mult_right_iff dvd_mult dvd_mult2)

lemma prime_dvd_prod_list: "prime_nat p \<Longrightarrow> p dvd prod_list xs \<longleftrightarrow> (\<exists>x\<in>set xs. p dvd x)"
  by (induction xs) (auto simp: prime_dvd_mult prime_nat_def)

lemma primes_dvd: "prime_nat p \<Longrightarrow> prime_nat q \<Longrightarrow> p dvd q \<longleftrightarrow> p = q"
  unfolding prime_nat_def by (metis dvd_refl less_irrefl)

text \<open>The first divisor found is the least prime divisor.\<close>

lemma find_factor_least: "find_factor n ks = Some k \<Longrightarrow> sorted ks \<Longrightarrow> j \<in> set ks \<Longrightarrow> j dvd n \<Longrightarrow> k \<le> j"
  by (induction ks) (auto split: if_splits)

lemma first_factor:
  assumes "1 < n"
  obtains k where "find_factor n [2..<n + 1] = Some k" "prime_nat k" "k dvd n" "\<And>j. 2 \<le> j \<Longrightarrow> j dvd n \<Longrightarrow> k \<le> j"
proof -
  obtain k where k: "find_factor n [2..<n + 1] = Some k" using find_factor_None [OF assms] by auto
  then have kk: "2 \<le> k" "k dvd n" using find_factor_Some by fastforce+
  have least: "k \<le> j" if "2 \<le> j" "j dvd n" for j
  proof (rule find_factor_least [OF k _ _ that(2)])
    show "j \<in> set [2..<n + 1]" using that dvd_imp_le [OF that(2)] assms by auto
  qed (rule sorted_upt)
  have "d = 1 \<or> d = k" if "d dvd k" for d
  proof -
    have "d dvd n" using that kk(2) by (rule dvd_trans)
    moreover have "0 < d" using that kk(1) by (cases d) auto
    moreover have "d \<le> k" using that kk(1) by (intro dvd_imp_le) auto
    ultimately show ?thesis using least [of d] by fastforce
  qed
  then have "prime_nat k" using kk(1) by (auto simp: prime_nat_def)
  then show thesis using that [OF k _ kk(2) least] by blast
qed

lemma is_prime_loop_iff: "is_prime_loop n ks \<longleftrightarrow> (\<forall>i\<in>set ks. \<not> i dvd n)"
  by (induction ks) auto

lemma prime_no_divisor: "1 < n \<Longrightarrow> prime_nat n \<longleftrightarrow> (\<forall>i. 2 \<le> i \<and> i < n \<longrightarrow> \<not> i dvd n)"
proof -
  assume n: "1 < n"
  show ?thesis
  proof
    assume "prime_nat n"
    then show "\<forall>i. 2 \<le> i \<and> i < n \<longrightarrow> \<not> i dvd n" unfolding prime_nat_def by fastforce
  next
    assume r: "\<forall>i. 2 \<le> i \<and> i < n \<longrightarrow> \<not> i dvd n"
    have "d = 1 \<or> d = n" if "d dvd n" for d
    proof -
      have "0 < d" "d \<le> n" using that n dvd_pos_nat [of n d] dvd_imp_le [of d n] by simp_all
      then show ?thesis using r that n by (metis One_nat_def Suc_1 Suc_leI le_neq_implies_less nat_less_le)
    qed
    then show "prime_nat n" using n by (simp add: prime_nat_def)
  qed
qed

text \<open>
  A number from 2 on is reported prime exactly when it is; 0 and 1 are reported prime as well.
\<close>

theorem liquid_is_prime_correct: "liquid_is_prime n \<longleftrightarrow> prime_nat n \<or> n \<le> 1"
proof (cases "n < 4")
  case True
  have "2 \<le> i \<and> i < 3 \<longleftrightarrow> i = 2" for i :: nat by auto
  then have "prime_nat 3" using prime_no_divisor [of 3] by simp
  moreover have "prime_nat 2" using prime_no_divisor [of 2] by (auto simp: not_less)
  moreover have "n = 0 \<or> n = 1 \<or> n = 2 \<or> n = 3" using True by linarith
  ultimately show ?thesis by (auto simp: liquid_is_prime_def)
next
  case False
  then show ?thesis using prime_no_divisor [of n] by (auto simp: liquid_is_prime_def is_prime_loop_iff)
qed


section \<open>Factors\<close>

lemma two_power_prod: "list_all prime_nat fs \<Longrightarrow> 2 ^ length fs \<le> prod_list fs"
  by (induction fs) (auto simp: prime_nat_def intro!: mult_le_mono)

lemma few_factors: "list_all prime_nat fs \<Longrightarrow> prod_list fs \<le> m \<Longrightarrow> m < 2 ^ 32 \<Longrightarrow> length fs < LIQUID_MAX_FACTORS"
proof -
  assume a: "list_all prime_nat fs" "prod_list fs \<le> m" "m < 2 ^ 32"
  have "2 ^ length fs < (2 :: nat) ^ 32" using two_power_prod [OF a(1)] a(2,3) by linarith
  then have "length fs < 32" using power_less_imp_less_exp [of 2 "length fs" 32] by simp
  then show ?thesis by (simp add: LIQUID_MAX_FACTORS_def)
qed

text \<open>The factors found so far are bounds from below of the divisors to come.\<close>

definition below :: "nat list \<Rightarrow> nat \<Rightarrow> bool" where
  "below fs n \<longleftrightarrow> (\<forall>f\<in>set fs. \<forall>j. 2 \<le> j \<longrightarrow> j dvd n \<longrightarrow> f \<le> j)"

lemma below_snoc: "below fs n \<Longrightarrow> m dvd n \<Longrightarrow> (\<And>j. 2 \<le> j \<Longrightarrow> j dvd n \<Longrightarrow> k \<le> j) \<Longrightarrow> below fs m \<and> below (fs @ [k]) m"
  by (auto simp: below_def dest: dvd_trans)

lemma quotient: "k dvd n \<Longrightarrow> 0 < n \<Longrightarrow> 0 < n div k \<and> n div k dvd n" for n k :: nat
  using dvd_div_eq_0_iff [of k n] dvd_triv_right [of "n div k" k] by simp

lemma factor_loop_ok:
  "0 < n \<Longrightarrow> prod_list fs * n = N \<Longrightarrow> N < 2 ^ 32 \<Longrightarrow> list_all prime_nat fs \<Longrightarrow> sorted fs \<Longrightarrow> below fs n \<Longrightarrow>
   \<exists>fs'. factor_loop n fs = (1, fs') \<and> prod_list fs' = N \<and> list_all prime_nat fs' \<and> sorted fs'"
proof (induction n fs rule: factor_loop.induct)
  case (1 n fs)
  show ?case
  proof (cases "n = 1")
    case True
    then have "factor_pass n fs = (1, fs)" by (simp add: factor_pass_def)
    then show ?thesis using 1(3,5,6) True by (subst factor_loop.simps) simp
  next
    case False
    then have n: "1 < n" using 1(2) by simp
    obtain k where k: "find_factor n [2..<n + 1] = Some k" "prime_nat k" "k dvd n" "\<And>j. 2 \<le> j \<Longrightarrow> j dvd n \<Longrightarrow> k \<le> j"
      using first_factor [OF n] by blast
    have p: "factor_pass n fs = (n div k, fs @ [k])" using k(1) by (simp add: factor_pass_def)
    have k0: "0 < k" "2 \<le> k" using k(2) by (auto simp: prime_nat_def)
    have pos: "0 < n div k" "n div k dvd n" using quotient [OF k(3) 1(2)] by simp_all
    have prod: "prod_list (fs @ [k]) * (n div k) = N" using 1(3) k(3) by (simp add: mult.assoc)
    have primes: "list_all prime_nat (fs @ [k])" using 1(5) k(2) by simp
    have sorted: "sorted (fs @ [k])" using 1(6,7) k(3) k0 by (auto simp: sorted_append below_def)
    have below: "below (fs @ [k]) (n div k)" using below_snoc [OF 1(7) pos(2) k(4)] by blast
    have few: "length (fs @ [k]) < LIQUID_MAX_FACTORS"
      by (rule few_factors [OF primes _ 1(4)]) (use prod pos(1) in \<open>metis One_nat_def Suc_leI mult_le_mono2 nat_mult_1_right\<close>)
    show ?thesis
    proof (cases "n div k > 1")
      case True
      then have "n div k > 1 \<and> length (fs @ [k]) < LIQUID_MAX_FACTORS" using few by simp
      from 1(1) [OF p [symmetric] this pos(1) prod 1(4) primes sorted below]
      show ?thesis using p True few by (subst factor_loop.simps) simp
    next
      case False
      then have "n div k = 1" using pos(1) by linarith
      then show ?thesis using p prod primes sorted by (subst factor_loop.simps) simp
    qed
  qed
qed

lemma sorted_le_last: "sorted xs \<Longrightarrow> x \<in> set xs \<Longrightarrow> x \<le> last xs" for xs :: "nat list"
  by (induction xs) auto

lemma unique_loop_ok:
  "0 < n \<Longrightarrow> M * n = N \<Longrightarrow> N < 2 ^ 32 \<Longrightarrow> set fs = {p. prime_nat p \<and> p dvd M} \<Longrightarrow> sorted fs \<Longrightarrow> distinct fs \<Longrightarrow> below fs n \<Longrightarrow>
   prod_list fs dvd M \<Longrightarrow> 0 < M \<Longrightarrow>
   \<exists>fs'. unique_loop n fs = (1, fs') \<and> set fs' = {p. prime_nat p \<and> p dvd N} \<and> sorted fs' \<and> distinct fs'"
proof (induction n fs arbitrary: M rule: unique_loop.induct)
  case (1 n fs)
  show ?case
  proof (cases "n = 1")
    case True
    then have "unique_pass n fs = (1, fs)" by (simp add: unique_pass_def)
    then show ?thesis using 1(3,5-7) True by (subst unique_loop.simps) simp
  next
    case False
    then have n: "1 < n" using 1(2) by simp
    obtain k where k: "find_factor n [2..<n + 1] = Some k" "prime_nat k" "k dvd n" "\<And>j. 2 \<le> j \<Longrightarrow> j dvd n \<Longrightarrow> k \<le> j"
      using first_factor [OF n] by blast
    define gs where "gs = (if fs = [] \<or> last fs \<noteq> k then fs @ [k] else fs)"
    have p: "unique_pass n fs = (n div k, gs)" using k(1) by (simp add: unique_pass_def gs_def)
    have k0: "0 < k" "2 \<le> k" using k(2) by (auto simp: prime_nat_def)
    have pos: "0 < n div k" "n div k dvd n" using quotient [OF k(3) 1(2)] by simp_all
    have prod: "M * k * (n div k) = N" using 1(3) k(3) by (simp add: mult.assoc)
    have le: "f \<le> k" if "f \<in> set fs" for f using 1(8) that k(3) k0 by (auto simp: below_def)
    have last: "k \<notin> set fs \<longleftrightarrow> fs = [] \<or> last fs \<noteq> k"
    proof (cases "fs = []")
      case False
      have "last fs = k" if "k \<in> set fs"
        using le [OF last_in_set [OF False]] sorted_le_last [OF 1(6) that] by simp
      then show ?thesis using False last_in_set [OF False] by auto
    qed simp
    have "{p. prime_nat p \<and> p dvd M * k} = insert k {p. prime_nat p \<and> p dvd M}"
      using k(2) by (auto simp: prime_dvd_mult primes_dvd)
    then have set: "set gs = {p. prime_nat p \<and> p dvd M * k}" using 1(5) last by (auto simp: gs_def)
    have sorted: "sorted gs" using 1(6) le by (auto simp: gs_def sorted_append)
    have distinct: "distinct gs" using 1(7) last by (auto simp: gs_def)
    have below: "below gs (n div k)" using below_snoc [OF 1(8) pos(2) k(4)] by (auto simp: gs_def)
    have dvd: "prod_list gs dvd M * k" using 1(9) by (auto simp: gs_def)
    have M0: "0 < M * k" using 1(10) k0 by simp
    have few: "length gs < LIQUID_MAX_FACTORS"
    proof (rule few_factors [OF _ _ 1(4)])
      show "list_all prime_nat gs" using set by (auto simp: list_all_iff)
      have "prod_list gs \<le> M * k" using dvd M0 by (rule dvd_imp_le)
      also have "\<dots> \<le> N" using prod pos(1) by (metis One_nat_def Suc_leI mult_le_mono2 nat_mult_1_right)
      finally show "prod_list gs \<le> N" .
    qed
    show ?thesis
    proof (cases "n div k > 1")
      case True
      then have "n div k > 1 \<and> length gs < LIQUID_MAX_FACTORS" using few by simp
      from 1(1) [OF p [symmetric] this pos(1) prod 1(4) set sorted distinct below dvd M0]
      show ?thesis using p True few by (subst unique_loop.simps) simp
    next
      case False
      then have "n div k = 1" using pos(1) by linarith
      then show ?thesis using p prod set sorted distinct by (subst unique_loop.simps) simp
    qed
  qed
qed

text \<open>
  For every number from 1 to \<open>2 ^ 32 - 1\<close> both factorizations end within the 40 entries of their
  array. The factors are primes in ascending order whose product is the number; the unique factors
  are the prime divisors, each once, in ascending order.
\<close>

theorem liquid_factor_correct:
  assumes "0 < n" "n < 2 ^ 32"
  shows "(\<exists>fs. liquid_factor n = Some fs \<and> list_all prime_nat fs \<and> sorted fs \<and> prod_list fs = n) \<and>
    (\<exists>fs. liquid_unique_factor n = Some fs \<and> set fs = {p. prime_nat p \<and> p dvd n} \<and> sorted fs \<and> distinct fs)"
proof -
  obtain fs where "factor_loop n [] = (1, fs)" "prod_list fs = n" "list_all prime_nat fs" "sorted fs"
    using factor_loop_ok [of n "[]" n] assms by (auto simp: below_def)
  moreover obtain gs where "unique_loop n [] = (1, gs)" "set gs = {p. prime_nat p \<and> p dvd n}" "sorted gs" "distinct gs"
    using unique_loop_ok [of n 1 n "[]"] assms by (auto simp: below_def prime_nat_def)
  ultimately show ?thesis by (simp add: liquid_factor_def liquid_unique_factor_def)
qed


section \<open>Totient\<close>

text \<open>The residues coprime to \<open>n\<close>.\<close>

definition phi :: "nat \<Rightarrow> nat" where
  "phi n = card {a. a < n \<and> coprime a n}"

lemma phi_block: "0 < m \<Longrightarrow> card {a. a < m * k \<and> coprime a m} = k * phi m"
proof -
  assume m: "0 < m"
  let ?D = "{..<k} \<times> {b. b < m \<and> coprime b m}" and ?A = "{a. a < m * k \<and> coprime a m}"
  have cop: "coprime (q * m + b) m \<longleftrightarrow> coprime b m" for q b
    unfolding coprime_iff_gcd_eq_1 by (metis gcd_red_nat gcd.commute mod_mult_self3)
  have "(\<lambda>(q, b). q * m + b) ` ?D \<subseteq> ?A"
  proof (clarsimp simp: cop)
    fix q b assume q: "q < k" "b < m"
    have "Suc q * m \<le> k * m" using q(1) by (intro mult_le_mono1) simp
    then show "q * m + b < m * k" using q(2) by (simp add: mult.commute)
  qed
  moreover have "(\<lambda>a. (a div m, a mod m)) ` ?A \<subseteq> ?D"
  proof clarsimp
    fix a assume a: "a < m * k" "coprime a m"
    have "coprime (a mod m) m" using cop [of "a div m" "a mod m"] a(2) by simp
    then show "a div m < k \<and> a mod m < m \<and> coprime (a mod m) m" using a(1) m by (simp add: less_mult_imp_div_less mult.commute)
  qed
  ultimately have "bij_betw (\<lambda>(q, b). q * m + b) ?D ?A"
    by (intro bij_betw_byWitness [where f' = "\<lambda>a. (a div m, a mod m)"]) auto
  from bij_betw_same_card [OF this] show ?thesis by (simp add: phi_def card_cartesian_product)
qed

lemma coprime_prime: "prime_nat k \<Longrightarrow> coprime a k \<longleftrightarrow> \<not> k dvd a"
  using prime_coprime [of k a] unfolding prime_nat_def by (metis coprime_commute coprime_absorb_left nat_dvd_1_iff_1 less_irrefl)

lemma phi_same: "prime_nat k \<Longrightarrow> k dvd m \<Longrightarrow> 0 < m \<Longrightarrow> phi (m * k) = k * phi m"
proof -
  assume a: "prime_nat k" "k dvd m" "0 < m"
  have "coprime a (m * k) \<longleftrightarrow> coprime a m" for a
    using a(2) by (metis coprime_divisors coprime_mult_right_iff dvd_refl)
  then show ?thesis using phi_block [OF a(3), of k] by (simp add: phi_def)
qed

lemma phi_new: "prime_nat k \<Longrightarrow> \<not> k dvd m \<Longrightarrow> 0 < m \<Longrightarrow> phi (m * k) = (k - 1) * phi m"
proof -
  assume a: "prime_nat k" "\<not> k dvd m" "0 < m"
  let ?A = "{a. a < m * k \<and> coprime a m}" and ?B = "{b. b < m \<and> coprime b m}"
  have k: "0 < k" using a(1) by (simp add: prime_nat_def)
  have km: "coprime k m" using prime_coprime [OF a(1,2)] .
  have "{a. a < m * k \<and> coprime a (m * k)} = ?A - (\<lambda>b. k * b) ` ?B"
    using k km a(1) by (auto simp: coprime_prime elim!: dvdE)
  moreover have "(\<lambda>b. k * b) ` ?B \<subseteq> ?A" using k km by (auto simp: mult.commute)
  ultimately have "phi (m * k) = card ?A - card ((\<lambda>b. k * b) ` ?B)"
    using card_Diff_subset [of "(\<lambda>b. k * b) ` ?B" ?A] by (simp add: phi_def)
  also have "card ((\<lambda>b. k * b) ` ?B) = phi m" using k by (simp add: phi_def card_image inj_on_def)
  finally show ?thesis using phi_block [OF a(3), of k] by (simp add: diff_mult_distrib)
qed

lemma totient_loop_ok:
  "0 < n \<Longrightarrow> 0 < m \<Longrightarrow> m * n = N \<Longrightarrow> N \<le> 2 ^ 16 \<Longrightarrow> t = phi m * n \<Longrightarrow> (\<And>q. prime_nat q \<Longrightarrow> q dvd m \<Longrightarrow> q \<le> p) \<Longrightarrow>
   p = 0 \<or> p dvd m \<Longrightarrow> (\<And>j. 2 \<le> j \<Longrightarrow> j dvd n \<Longrightarrow> p \<le> j) \<Longrightarrow>
   totient_loop t n p = phi N"
proof (induction t n p arbitrary: m rule: totient_loop.induct)
  case (1 t n p)
  show ?case
  proof (cases "n = 1")
    case True
    then have "totient_pass t n p = (t, 1, p)" by (simp add: totient_pass_def)
    then show ?thesis using 1(4,6) True by (subst totient_loop.simps) simp
  next
    case False
    then have n: "1 < n" using 1(2) by simp
    obtain k where k: "find_factor n [2..<n + 1] = Some k" "prime_nat k" "k dvd n" "\<And>j. 2 \<le> j \<Longrightarrow> j dvd n \<Longrightarrow> k \<le> j"
      using first_factor [OF n] by blast
    have k0: "0 < k" "2 \<le> k" using k(2) by (auto simp: prime_nat_def)
    have pos: "0 < n div k" "n div k dvd n" using quotient [OF k(3) 1(2)] by simp_all
    have prod: "m * k * (n div k) = N" using 1(4) k(3) by (simp add: mult.assoc)
    have pk: "p \<le> k" using 1(9) k(3) k0 by blast
    have old: "p = k \<longleftrightarrow> k dvd m" using 1(7) [OF k(2)] pk 1(8) k0 by auto
    define t' where "t' = (if p \<noteq> k then wrap32 (t * (k - 1)) div k else t)"
    have p: "totient_pass t n p = (t', n div k, k)" using k(1) by (simp add: totient_pass_def t'_def)
    have t': "t' = phi (m * k) * (n div k)"
    proof (cases "p = k")
      case True
      then have "phi (m * k) = k * phi m" using old phi_same [OF k(2) _ 1(3)] by simp
      then show ?thesis using 1(6) True k(3) by (simp add: t'_def mult.assoc mult.left_commute)
    next
      case False
      then have e: "phi (m * k) = (k - 1) * phi m" using old phi_new [OF k(2) _ 1(3)] by simp
      have "phi m \<le> m" unfolding phi_def using card_mono [of "{..<m}" "{a. a < m \<and> coprime a m}"] by auto
      then have "t \<le> N" unfolding 1(6) using 1(4) mult_le_mono1 by blast
      moreover have "k - 1 < N"
      proof -
        have "1 * n \<le> m * n" using 1(3) by (intro mult_le_mono1) simp
        then show ?thesis using dvd_imp_le [OF k(3) 1(2)] 1(4) k0 by linarith
      qed
      moreover have "0 < N" using 1(2-4) by auto
      ultimately have "t * (k - 1) \<le> N * (k - 1)" "N * (k - 1) < N * N" by (simp_all only: mult_le_mono1 mult_less_mono2)
      then have "t * (k - 1) < N * N" by (rule le_less_trans)
      also have "\<dots> \<le> 2 ^ 16 * 2 ^ 16" using 1(5) by (intro mult_le_mono)
      finally have "wrap32 (t * (k - 1)) = t * (k - 1)" by (intro wrap32_id) simp
      moreover have "t * (k - 1) = k * (phi (m * k) * (n div k))"
      proof -
        have "t * (k - 1) = phi m * (k * (n div k)) * (k - 1)" by (simp only: 1(6) dvd_mult_div_cancel [OF k(3)])
        then show ?thesis unfolding e by (simp only: mult_ac)
      qed
      ultimately show ?thesis using False k0 by (simp add: t'_def)
    qed
    have max: "q \<le> k" if "prime_nat q" "q dvd m * k" for q
      using 1(7) [OF that(1)] pk that prime_dvd_mult [OF that(1), of m k] primes_dvd [OF that(1) k(2)] by fastforce
    have least: "k \<le> j" if "2 \<le> j" "j dvd n div k" for j using k(4) [OF that(1) dvd_trans [OF that(2) pos(2)]] .
    have M0: "0 < m * k" using 1(3) k0 by simp
    show ?thesis
    proof (cases "n div k > 1")
      case True
      have "totient_loop t' (n div k) k = phi N"
        by (rule 1(1) [OF p [symmetric] refl True pos(1) M0 prod 1(5) t']) (use max least in auto)
      then show ?thesis using p True by (subst totient_loop.simps) simp
    next
      case False
      then have "n div k = 1" using pos(1) by linarith
      then show ?thesis using p prod t' by (subst totient_loop.simps) simp
    qed
  qed
qed

text \<open>
  For numbers up to \<open>2 ^ 16\<close> the totient is the number of residues coprime to the number; above, the
  product with \<open>k - 1\<close> can exceed 32 bits.
\<close>

theorem liquid_totient_correct: "0 < n \<Longrightarrow> n \<le> 2 ^ 16 \<Longrightarrow> liquid_totient n = card {a. a < n \<and> coprime a n}"
  unfolding liquid_totient_def phi_def [symmetric]
  by (rule totient_loop_ok [where m = 1]) (auto simp: phi_def prime_nat_def)


section \<open>Orbits\<close>

text \<open>An orbit that comes back after \<open>N\<close> steps and not after \<open>N / p\<close> steps for a prime \<open>p\<close> has exactly \<open>N\<close> states.\<close>

lemma orbit_full:
  fixes s :: "nat \<Rightarrow> 'a"
  assumes step: "\<And>i. s (Suc i) = f (s i)" and inj: "inj_on f A" and A: "\<And>i. s i \<in> A"
    and N: "s N = s 0" "0 < N" and P: "\<And>p. prime_nat p \<Longrightarrow> p dvd N \<Longrightarrow> s (N div p) \<noteq> s 0"
  shows "inj_on s {..<N}"
proof -
  have shift: "s (i + j) = s i \<Longrightarrow> s j = s 0" for i j
    by (induction i) (auto simp: step dest!: inj_onD [OF inj] intro: A)
  define d where "d = (LEAST d. 0 < d \<and> s d = s 0)"
  have d: "0 < d" "s d = s 0" using LeastI [of "\<lambda>d. 0 < d \<and> s d = s 0" N] N by (simp_all add: d_def)
  have least: "d \<le> e" if "0 < e" "s e = s 0" for e unfolding d_def using that by (intro Least_le) simp
  have per: "s (d + i) = s i" for i by (induction i) (simp_all add: d(2) step)
  have mult: "s (q * d + i) = s i" for q i by (induction q) (simp_all add: per add.assoc)
  have "s (N mod d) = s 0" using mult [of "N div d" "N mod d"] N(1) by simp
  then have "N mod d = 0" using least [of "N mod d"] d(1) mod_less_divisor [OF d(1), of N] by (cases "N mod d = 0") auto
  then have dN: "d dvd N" by (simp add: dvd_eq_mod_eq_0)
  have "d = N"
  proof (rule ccontr)
    assume "d \<noteq> N"
    obtain e where e: "N = d * e" using dN by (auto elim: dvdE)
    then have "1 < e" using \<open>d \<noteq> N\<close> N(2) by (cases e) auto
    then obtain p where p: "prime_nat p" "p dvd e" using first_factor by blast
    then have "N div p = (e div p) * d" unfolding e by (simp add: div_mult_swap mult.commute)
    then have "s (N div p) = s 0" using mult [of "e div p" 0] by simp
    then show False using P [OF p(1)] p(2) e by auto
  qed
  have "s i \<noteq> s j" if "i < j" "j < N" for i j
  proof
    assume "s i = s j"
    then have "s (j - i) = s 0" using shift [of i "j - i"] that by simp
    then show False using least [of "j - i"] that \<open>d = N\<close> by simp
  qed
  then show ?thesis by (metis inj_onI lessThan_iff linorder_neqE_nat)
qed

section \<open>Primitive roots\<close>

lemma modpow_eq: "1 < n \<Longrightarrow> n \<le> 2 ^ 16 \<Longrightarrow> g < n \<Longrightarrow> liquid_modpow g e n = Some (g ^ e mod n)"
proof -
  assume n: "1 < n" "n \<le> 2 ^ 16" "g < n"
  have "fold (\<lambda>i c. wrap32 (c * g) mod n) [0..<e] 1 = g ^ e mod n" for e
  proof (induction e)
    case (Suc e)
    have "g ^ e mod n * g \<le> 2 ^ 16 * g" using n mod_less_divisor [of n "g ^ e"] by (intro mult_le_mono1) linarith
    also have "\<dots> < 2 ^ 16 * 2 ^ 16" using n by (intro mult_less_mono2) auto
    finally have "wrap32 (g ^ e mod n * g) = g ^ e mod n * g" by (intro wrap32_id) simp
    then show ?case using Suc by (simp add: mod_mult_left_eq mod_mult_right_eq mult.commute)
  qed (use n in simp)
  then show ?thesis using n by (simp add: liquid_modpow_def)
qed

lemma residue_cancel: "prime_nat n \<Longrightarrow> \<not> n dvd g \<Longrightarrow> a * g mod n = b * g mod n \<Longrightarrow> a < n \<Longrightarrow> b < n \<Longrightarrow> a = b" for a b :: nat
proof -
  have le: "prime_nat n \<Longrightarrow> \<not> n dvd g \<Longrightarrow> a * g mod n = b * g mod n \<Longrightarrow> a < n \<Longrightarrow> b \<le> a \<Longrightarrow> a = b" for a b :: nat
  proof -
    assume a: "prime_nat n" "\<not> n dvd g" "a * g mod n = b * g mod n" "a < n" "b \<le> a"
    then have "n dvd a * g - b * g" by (simp add: mod_eq_dvd_iff_nat)
    then have "n dvd (a - b) * g" by (simp add: diff_mult_distrib)
    then have "n dvd a - b" using prime_dvd_mult [OF a(1)] a(2) by blast
    then show "a = b" using a(4,5) by (metis diff_is_0_eq dvd_imp_le le_antisym less_imp_diff_less linorder_not_le neq0_conv)
  qed
  assume a: "prime_nat n" "\<not> n dvd g" "a * g mod n = b * g mod n" "a < n" "b < n"
  show ?thesis using le [OF a(1-4)] le [OF a(1,2) a(3) [symmetric] a(5)] by linarith
qed

lemma residue_inj: "prime_nat n \<Longrightarrow> \<not> n dvd g \<Longrightarrow> inj_on (\<lambda>a. a * g mod n) {1..<n}"
  by (rule inj_onI, rule residue_cancel) auto

lemma fermat:
  assumes n: "prime_nat n" and g: "\<not> n dvd g"
  shows "g ^ (n - 1) mod n = 1"
proof -
  let ?R = "{1..<n}"
  have n1: "1 < n" using n by (simp add: prime_nat_def)
  have into: "a * g mod n \<in> ?R" if "a \<in> ?R" for a
  proof -
    have "\<not> n dvd a" using that by (auto dest: dvd_imp_le)
    then have "\<not> n dvd a * g" using prime_dvd_mult [OF n] g by blast
    then show ?thesis using n1 by (auto simp: dvd_eq_mod_eq_0)
  qed
  have inj: "inj_on (\<lambda>a. a * g mod n) ?R" by (rule residue_inj [OF n g])
  have "(\<lambda>a. a * g mod n) ` ?R = ?R" using into inj by (intro endo_inj_surj) auto
  then have "(\<Prod>a\<in>?R. a) = (\<Prod>a\<in>?R. a * g mod n)" using prod.reindex [OF inj, of id] by (simp add: o_def)
  then have "(\<Prod>a\<in>?R. a) mod n = (\<Prod>a\<in>?R. a * g) mod n" by (simp add: mod_prod_eq)
  also have "(\<Prod>a\<in>?R. a * g) = (\<Prod>a\<in>?R. a) * g ^ (n - 1)" by (simp add: prod.distrib)
  finally have e: "1 * (\<Prod>a\<in>?R. a) mod n = g ^ (n - 1) mod n * (\<Prod>a\<in>?R. a) mod n"
    by (simp only: mod_mult_left_eq mult_1 mult.commute [of "g ^ (n - 1)"])
  have "\<not> n dvd (\<Prod>a\<in>A. a)" if "finite A" "A \<subseteq> ?R" for A
    using that
  proof (induction A)
    case (insert a A)
    then have "\<not> n dvd a" by (auto dest: dvd_imp_le)
    then show ?case using insert prime_dvd_mult [OF n] by simp
  qed (use n1 in simp)
  then have "\<not> n dvd (\<Prod>a\<in>?R. a)" by simp
  from residue_cancel [OF n this e] show ?thesis using n1 by simp
qed

text \<open>The powers of a generator are all the residues but 0.\<close>

definition generates :: "nat \<Rightarrow> nat \<Rightarrow> bool" where
  "generates g n \<longleftrightarrow> (\<lambda>i. g ^ i mod n) ` {..<n - 1} = {1..<n}"

lemma generates_iff:
  assumes n: "prime_nat n" and g: "2 \<le> g" "g < n"
  shows "generates g n \<longleftrightarrow> (\<forall>p. prime_nat p \<longrightarrow> p dvd n - 1 \<longrightarrow> g ^ ((n - 1) div p) mod n \<noteq> 1)"
proof -
  let ?s = "\<lambda>i. g ^ i mod n"
  have n2: "2 < n" using g by simp
  have nd: "\<not> n dvd g" using g by (auto dest: dvd_imp_le)
  have "\<not> n dvd g ^ i" for i by (induction i) (use nd n2 prime_dvd_mult [OF n] in auto)
  then have "g ^ i mod n \<noteq> 0" for i by (simp add: dvd_eq_mod_eq_0)
  then have A: "?s i \<in> {1..<n}" for i using n2 by (simp add: Suc_le_eq)
  show ?thesis
  proof
    assume gen: "generates g n"
    then have "card (?s ` {..<n - 1}) = card {..<n - 1}" by (simp add: generates_def)
    then have inj: "inj_on ?s {..<n - 1}" by (rule eq_card_imp_inj_on [rotated]) simp
    show "\<forall>p. prime_nat p \<longrightarrow> p dvd n - 1 \<longrightarrow> g ^ ((n - 1) div p) mod n \<noteq> 1"
    proof (intro allI impI notI)
      fix p assume p: "prime_nat p" "p dvd n - 1" "g ^ ((n - 1) div p) mod n = 1"
      have "0 < (n - 1) div p" using quotient [OF p(2)] n2 by simp
      moreover have "(n - 1) div p < n - 1" using p(1) n2 by (simp add: prime_nat_def)
      ultimately show False using inj_onD [OF inj, of "(n - 1) div p" 0] p(3) n2 by auto
    qed
  next
    assume P: "\<forall>p. prime_nat p \<longrightarrow> p dvd n - 1 \<longrightarrow> g ^ ((n - 1) div p) mod n \<noteq> 1"
    have "inj_on ?s {..<n - 1}"
    proof (rule orbit_full [where f = "\<lambda>c. c * g mod n" and A = "{1..<n}"])
      show "?s (Suc i) = ?s i * g mod n" for i by (simp only: mod_mult_left_eq power_Suc2)
      show "inj_on (\<lambda>c. c * g mod n) {1..<n}" by (rule residue_inj [OF n nd])
      show "?s (n - 1) = ?s 0" using fermat [OF n nd] n2 by simp
    qed (use A P n2 in auto)
    moreover have "?s ` {..<n - 1} \<subseteq> {1..<n}" using A by auto
    ultimately show "generates g n"
      unfolding generates_def by (intro card_subset_eq) (auto simp: card_image)
  qed
qed

lemma is_root_loop_eq:
  "1 < n \<Longrightarrow> n \<le> 2 ^ 16 \<Longrightarrow> g < n \<Longrightarrow> is_root_loop g n fs = Some (\<forall>f\<in>set fs. g ^ ((n - 1) div f) mod n \<noteq> 1)"
  by (induction fs) (simp_all add: modpow_eq)

lemma root_loop_eq:
  "(\<And>g. g \<in> set gs \<Longrightarrow> is_root_loop g n fs = Some (R g)) \<Longrightarrow>
   root_loop n fs gs = Some (case List.find R gs of Some g \<Rightarrow> g | None \<Rightarrow> max 2 n)"
  by (induction gs) auto

text \<open>
  For a prime from 3 to \<open>2 ^ 16\<close> the search returns the least number from 2 on whose powers are all
  the residues but 0, and the prime itself if there were none.
\<close>

theorem liquid_primitive_root_correct:
  assumes "prime_nat n" "2 < n" "n \<le> 2 ^ 16"
  shows "liquid_primitive_root_prime n = Some (case List.find (\<lambda>g. generates g n) [2..<n] of Some g \<Rightarrow> g | None \<Rightarrow> n)"
proof -
  have w: "wrap32 (n + (2 ^ 32 - 1)) = n - 1"
  proof -
    have "n + (2 ^ 32 - 1) = n - 1 + 2 ^ 32" using assms(2) by simp
    then have "(n + (2 ^ 32 - 1)) mod 2 ^ 32 = (n - 1) mod 2 ^ 32" by (simp only: mod_add_self2)
    then show ?thesis unfolding wrap32_def using assms(3) by simp
  qed
  obtain fs where fs: "unique_loop (n - 1) [] = (1, fs)" "set fs = {p. prime_nat p \<and> p dvd n - 1}"
  proof -
    have "{} = {p. prime_nat p \<and> p dvd 1}" by (auto simp: prime_nat_def)
    moreover have "n - 1 < 2 ^ 32" "0 < n - 1" using assms(2,3) by simp_all
    ultimately show thesis using that unique_loop_ok [of "n - 1" 1 "n - 1" "[]"] by (auto simp: below_def)
  qed
  have "liquid_primitive_root_prime n = root_loop n fs [2..<n]" unfolding liquid_primitive_root_prime_def w fs(1) by simp
  also have "\<dots> = Some (case List.find (\<lambda>g. generates g n) [2..<n] of Some g \<Rightarrow> g | None \<Rightarrow> max 2 n)"
  proof (rule root_loop_eq)
    fix g assume "g \<in> set [2..<n]"
    then have g: "2 \<le> g" "g < n" by simp_all
    show "is_root_loop g n fs = Some (generates g n)"
      using is_root_loop_eq [of n g fs] generates_iff [OF assms(1) g] fs(2) assms g by auto
  qed
  finally show ?thesis using assms(2) by (simp add: max_def split: option.split)
qed

lemma liquid_totient_correct_witness: "liquid_totient 12 = card {a. a < 12 \<and> coprime a (12 :: nat)}"
  by (rule liquid_totient_correct) simp_all

lemma liquid_factor_correct_witness:
  "(\<exists>fs. liquid_factor 360 = Some fs \<and> list_all prime_nat fs \<and> sorted fs \<and> prod_list fs = 360) \<and>
    (\<exists>fs. liquid_unique_factor 360 = Some fs \<and> set fs = {p. prime_nat p \<and> p dvd 360} \<and> sorted fs \<and> distinct fs)"
  by (rule liquid_factor_correct) simp_all

lemma liquid_primitive_root_correct_witness:
  "liquid_primitive_root_prime 7 = Some (case List.find (\<lambda>g. generates g 7) [2..<7] of Some g \<Rightarrow> g | None \<Rightarrow> 7)"
proof (rule liquid_primitive_root_correct)
  have "is_prime_loop 7 [2, 3, 4, 5, 6]" by simp
  then have "\<not> i dvd 7" if "2 \<le> i \<and> i < 7" for i :: nat
  proof -
    have "i \<in> set [2, 3, 4, 5, 6]" using that by auto
    then show ?thesis using \<open>is_prime_loop 7 [2, 3, 4, 5, 6]\<close> unfolding is_prime_loop_iff by blast
  qed
  then show "prime_nat 7" by (simp add: prime_no_divisor)
qed simp_all

end
