(* ===== verification/Msequence.thy ===== *)
theory Msequence
  imports Bsequence Msb_Index Modular_Arithmetic
begin

unbundle bit_operations_syntax

text \<open>
  \<^verbatim>\<open>liquid_dsp/src/sequence/src/msequence.c\<close>: linear feedback shift registers of 2 to 15 bits. \<open>None\<close> is a run
  ending in \<^verbatim>\<open>exit\<close>. The register is abstracted to the list of its bits, a step to a linear map on such
  lists, and the default generator polynomials are shown to be primitive: from any state but 0 the
  register runs through all the \<open>2 ^ m - 1\<close> states but 0, the outputs of a period are balanced, and their
  correlation with every proper shift of themselves is the same.
\<close>

section \<open>State and operations\<close>

record msequence =
  ms_m :: nat
  ms_g :: u32
  ms_a :: u32
  ms_n :: u32
  ms_v :: u32
  ms_b :: u32

definition LIQUID_MIN_MSEQUENCE_M :: nat where "LIQUID_MIN_MSEQUENCE_M = 2"
definition LIQUID_MAX_MSEQUENCE_M :: nat where "LIQUID_MAX_MSEQUENCE_M = 15"

definition ms_row :: "nat \<Rightarrow> u32 \<Rightarrow> u32 \<Rightarrow> u32 \<Rightarrow> u32 \<Rightarrow> u32 \<Rightarrow> msequence" where
  "ms_row m g a n v b = \<lparr>ms_m = m, ms_g = g, ms_a = a, ms_n = n, ms_v = v, ms_b = b\<rparr>"

definition msequence_default :: "msequence list" where
  "msequence_default =
    [ms_row 0  0      1      0     1      0,
     ms_row 0  0      1      0     1      0,
     ms_row 2  0x0003 0x0002 3     0x0002 0,
     ms_row 3  0x0005 0x0004 7     0x0004 0,
     ms_row 4  0x0009 0x0008 15    0x0008 0,
     ms_row 5  0x0012 0x0010 31    0x0010 0,
     ms_row 6  0x0021 0x0020 63    0x0020 0,
     ms_row 7  0x0044 0x0040 127   0x0040 0,
     ms_row 8  0x008E 0x0080 255   0x0080 0,
     ms_row 9  0x0108 0x0100 511   0x0100 0,
     ms_row 10 0x0204 0x0200 1023  0x0200 0,
     ms_row 11 0x0402 0x0400 2047  0x0400 0,
     ms_row 12 0x0829 0x0800 4095  0x0800 0,
     ms_row 13 0x100d 0x1000 8191  0x1000 0,
     ms_row 14 0x2015 0x2000 16383 0x2000 0,
     ms_row 15 0x4001 0x4000 32767 0x4000 0]"

text \<open>The register in reversed order: the loop over \<open>m\<close> bits, with what is left of the argument.\<close>

definition reverse_state :: "nat \<Rightarrow> u32 \<Rightarrow> u32" where
  "reverse_state m a = fst (fold (\<lambda>i (r, a). (push_bit 1 r OR (a AND 1), drop_bit 1 a)) [0..<m] (0, a))"

definition msequence_create :: "nat \<Rightarrow> u32 \<Rightarrow> u32 \<Rightarrow> msequence option" where
  "msequence_create m g a =
     (if m > LIQUID_MAX_MSEQUENCE_M \<or> m < LIQUID_MIN_MSEQUENCE_M then None
      else Some \<lparr>ms_m = m, ms_g = drop_bit 1 g, ms_a = reverse_state m a, ms_n = push_bit m 1 - 1,
        ms_v = reverse_state m a, ms_b = 0\<rparr>)"

definition msequence_create_genpoly :: "u32 \<Rightarrow> msequence option" where
  "msequence_create_genpoly g =
     (let t = liquid_msb_index g in if t < 2 then None else msequence_create (t - 1) g 1)"

text \<open>The generator polynomials \<^verbatim>\<open>LIQUID_MSEQUENCE_GENPOLY_M2\<close> to \<^verbatim>\<open>M15\<close> of the header, in this order.\<close>

definition LIQUID_MSEQUENCE_GENPOLY :: "u32 list" where
  "LIQUID_MSEQUENCE_GENPOLY =
    [0x0007, 0x000B, 0x0013, 0x0025, 0x0043, 0x0089, 0x011D, 0x0211, 0x0409, 0x0805, 0x1053, 0x201b, 0x402b, 0x8003]"

definition msequence_create_default :: "nat \<Rightarrow> msequence option" where
  "msequence_create_default m =
     (if m > LIQUID_MAX_MSEQUENCE_M \<or> m < LIQUID_MIN_MSEQUENCE_M then None else Some (msequence_default ! m))"

definition msequence_advance :: "msequence \<Rightarrow> u32 \<times> msequence" where
  "msequence_advance ms =
     (let b = liquid_bdotprod (ms_v ms) (ms_g ms);
          v = push_bit 1 (ms_v ms);
          v = v OR b;
          v = v AND ms_n ms
      in (b, ms\<lparr>ms_b := b, ms_v := v\<rparr>))"

definition msequence_generate_symbol :: "msequence \<Rightarrow> nat \<Rightarrow> u32 \<times> msequence" where
  "msequence_generate_symbol ms bps =
     fold (\<lambda>i (s, ms). let (b, ms') = msequence_advance ms in (push_bit 1 s OR b, ms')) [0..<bps] (0, ms)"

definition msequence_reset :: "msequence \<Rightarrow> msequence" where
  "msequence_reset ms = ms\<lparr>ms_v := ms_a ms\<rparr>"

fun init_msequence_loop :: "nat list \<Rightarrow> bsequence \<Rightarrow> msequence \<Rightarrow> (bsequence \<times> msequence) option" where
  "init_msequence_loop [] bs ms = Some (bs, ms)"
| "init_msequence_loop (i # is) bs ms =
     (let (b, ms') = msequence_advance ms
      in do { bs' \<leftarrow> bsequence_push bs b; init_msequence_loop is bs' ms' })"

definition bsequence_init_msequence :: "bsequence \<Rightarrow> msequence \<Rightarrow> (bsequence \<times> msequence) option" where
  "bsequence_init_msequence bs ms = init_msequence_loop [0..<unat (ms_n ms)] (bsequence_clear bs) ms"

definition msequence_get_length :: "msequence \<Rightarrow> nat" where
  "msequence_get_length ms = unat (ms_n ms)"

definition msequence_get_state :: "msequence \<Rightarrow> u32" where
  "msequence_get_state ms = ms_v ms"

definition msequence_set_state :: "msequence \<Rightarrow> u32 \<Rightarrow> msequence" where
  "msequence_set_state ms a = ms\<lparr>ms_v := a\<rparr>"

section \<open>Shift registers as lists of bits\<close>

fun dot :: "bool list \<Rightarrow> bool list \<Rightarrow> bool" where
  "dot (x # xs) (y # ys) = ((x \<and> y) \<noteq> dot xs ys)"
| "dot _ _ = False"

definition lfsr_step :: "bool list \<Rightarrow> bool list \<Rightarrow> bool list" where
  "lfsr_step taps v = dot v taps # butlast v"

fun xorl :: "bool list \<Rightarrow> bool list \<Rightarrow> bool list" where
  "xorl (x # xs) (y # ys) = (x \<noteq> y) # xorl xs ys"
| "xorl _ _ = []"

abbreviation "zeros_of xs \<equiv> map (\<lambda>_. False) xs"

lemma xorl_length [simp]: "length (xorl xs ys) = min (length xs) (length ys)"
  by (induction xs ys rule: xorl.induct) auto

lemma xorl_nth: "i < length xs \<Longrightarrow> i < length ys \<Longrightarrow> xorl xs ys ! i = (xs ! i \<noteq> ys ! i)"
  by (induction xs ys arbitrary: i rule: xorl.induct) (auto simp: nth_Cons split: nat.split)

lemma xorl_eqI: "length xs = length ys \<Longrightarrow> length zs = length ys \<Longrightarrow> (\<And>i. i < length ys \<Longrightarrow> zs ! i = (xs ! i \<noteq> ys ! i)) \<Longrightarrow> xorl xs ys = zs"
  by (rule nth_equalityI) (auto simp: xorl_nth)

lemma xorl_zero1: "length xs = length ys \<Longrightarrow> xorl (zeros_of xs) ys = ys" for xs :: "'a list"
  by (auto intro!: xorl_eqI)

lemma xorl_zero2: "length xs = length ys \<Longrightarrow> xorl ys (zeros_of xs) = ys" for xs :: "'a list"
  by (auto intro!: xorl_eqI)

lemmas xorl_zero = xorl_zero1 xorl_zero2

lemma xorl_self: "xorl xs xs = zeros_of xs"
  by (auto intro!: xorl_eqI)

lemma xorl_eq_zero: "length xs = length ys \<Longrightarrow> xorl xs ys = zeros_of xs \<longleftrightarrow> xs = ys"
proof
  assume a: "length xs = length ys" "xorl xs ys = zeros_of xs"
  show "xs = ys"
  proof (rule nth_equalityI)
    fix i assume "i < length xs"
    then show "xs ! i = ys ! i" using arg_cong [OF a(2), of "\<lambda>l. l ! i"] a(1) by (simp add: xorl_nth)
  qed (rule a(1))
qed (simp add: xorl_self)

lemma dot_xorl: "length xs = length ys \<Longrightarrow> dot (xorl xs ys) ts = (dot xs ts \<noteq> dot ys ts)"
proof (induction xs ys arbitrary: ts rule: list_induct2)
  case (Cons x xs y ys)
  then show ?case by (cases ts) auto
qed simp

lemma dot_zero: "\<not> dot (zeros_of xs) ts"
  by (induction xs arbitrary: ts) (case_tac ts; simp)+

lemma xorl_butlast: "length xs = length ys \<Longrightarrow> xorl (butlast xs) (butlast ys) = butlast (xorl xs ys)"
  by (rule xorl_eqI) (auto simp: nth_butlast xorl_nth)

lemma step_linear: "length xs = length ys \<Longrightarrow> lfsr_step ts (xorl xs ys) = xorl (lfsr_step ts xs) (lfsr_step ts ys)"
  by (simp add: lfsr_step_def dot_xorl xorl_butlast)

lemma step_zero: "xs \<noteq> [] \<Longrightarrow> lfsr_step ts (zeros_of xs) = zeros_of xs"
  by (rule nth_equalityI) (auto simp: lfsr_step_def dot_zero nth_Cons nth_butlast split: nat.split)

lemma step_length: "xs \<noteq> [] \<Longrightarrow> length (lfsr_step ts xs) = length xs"
  by (simp add: lfsr_step_def)


lemma dot_last: "length v = length ts \<Longrightarrow> ts \<noteq> [] \<Longrightarrow> last ts \<Longrightarrow> butlast v = zeros_of (butlast v) \<Longrightarrow> dot v ts = last v"
proof (induction v ts rule: list_induct2)
  case (Cons x xs y ys)
  then show ?case by (cases "ys = []") auto
qed simp

lemma step_kernel: "length v = length ts \<Longrightarrow> ts \<noteq> [] \<Longrightarrow> last ts \<Longrightarrow> lfsr_step ts v = zeros_of v \<Longrightarrow> v = zeros_of v"
proof -
  assume a: "length v = length ts" "ts \<noteq> []" "last ts" "lfsr_step ts v = zeros_of v"
  obtain w x where v: "v = w @ [x]" using a(1,2) by (cases v rule: rev_cases) auto
  have "dot v ts # w = False # zeros_of w" using a(4) v by (cases w) (auto simp: lfsr_step_def map_replicate_const replicate_append_same)
  then have "w = zeros_of w" "\<not> dot v ts" by auto
  then show ?thesis using dot_last [OF a(1-3)] v by simp
qed

lemma step_inj: "ts \<noteq> [] \<Longrightarrow> last ts \<Longrightarrow> inj_on (lfsr_step ts) {v. length v = length ts}"
proof (rule inj_onI, clarify)
  fix v w
  assume a: "ts \<noteq> []" "last ts" "length v = length ts" "length w = length ts" "lfsr_step ts v = lfsr_step ts w"
  have ne: "v \<noteq> []" "w \<noteq> []" using a by auto
  have "lfsr_step ts (xorl v w) = zeros_of (lfsr_step ts v)" using a by (simp add: step_linear xorl_self)
  also have "\<dots> = zeros_of (xorl v w)" using a(3,4) ne by (intro nth_equalityI) (auto simp: step_length)
  finally have "xorl v w = zeros_of (xorl v w)" using a by (intro step_kernel) auto
  then have "xorl v w = zeros_of v" using a(3,4) by (metis length_map map_replicate_const min.idem xorl_length)
  then show "v = w" using a(3,4) by (simp add: xorl_eq_zero)
qed

section \<open>Powers of a step\<close>

text \<open>A linear map as the list of its values on the unit vectors, and its value on any vector.\<close>

fun units :: "'a list \<Rightarrow> bool list list" where
  "units [] = []"
| "units (x # xs) = (True # zeros_of xs) # map ((#) False) (units xs)"

fun apply_map :: "bool list list \<Rightarrow> bool list \<Rightarrow> bool list \<Rightarrow> bool list" where
  "apply_map (c # M) (b # v) acc = (if b then apply_map M v (xorl c acc) else apply_map M v acc)"
| "apply_map _ _ acc = acc"

definition linear :: "nat \<Rightarrow> (bool list \<Rightarrow> bool list) \<Rightarrow> bool" where
  "linear m F \<longleftrightarrow> (\<forall>x. length x = m \<longrightarrow> length (F x) = m) \<and>
     (\<forall>x y. length x = m \<longrightarrow> length y = m \<longrightarrow> F (xorl x y) = xorl (F x) (F y))"

lemma linear_zero: "linear m F \<Longrightarrow> length xs = m \<Longrightarrow> F (zeros_of xs) = zeros_of xs" for xs :: "'a list"
proof -
  assume a: "linear m F" "length xs = m"
  let ?x = "zeros_of xs"
  have "F (xorl ?x ?x) = xorl (F ?x) (F ?x)" using a by (simp add: linear_def)
  also have "\<dots> = zeros_of xs" unfolding xorl_self using a by (intro nth_equalityI) (auto simp: linear_def)
  finally show ?thesis by (simp add: xorl_self o_def)
qed

lemma linear_step: "ts \<noteq> [] \<Longrightarrow> linear (length ts) (lfsr_step ts)"
  by (auto simp: linear_def step_linear step_length simp flip: length_greater_0_conv)

lemma linear_comp: "linear m F \<Longrightarrow> linear m G \<Longrightarrow> linear m (F \<circ> G)"
  by (simp add: linear_def)

lemma linear_funpow: "linear m F \<Longrightarrow> linear m (F ^^ k)"
  by (induction k) (simp_all add: linear_comp, simp add: linear_def)

lemma units_length: "u \<in> set (units xs) \<Longrightarrow> length u = length xs"
  by (induction xs arbitrary: u) auto

lemma apply_map_linear: "linear m F \<Longrightarrow> (\<And>u. u \<in> set us \<Longrightarrow> length u = m) \<Longrightarrow> length acc = m \<Longrightarrow>
  apply_map (map F us) v (F acc) = F (apply_map us v acc)"
proof (induction us v acc rule: apply_map.induct)
  case (1 c M b v acc)
  show ?case
  proof (cases b)
    case True
    have "F (xorl c acc) = xorl (F c) (F acc)" using 1(3-5) by (simp add: linear_def)
    then show ?thesis using 1(1) [OF True 1(3)] 1(4,5) True by simp
  next
    case False
    then show ?thesis using 1(2) [OF False 1(3)] 1(4,5) by simp
  qed
qed simp_all

lemma apply_map_Cons: "apply_map (map ((#) False) us) v (h # acc) = h # apply_map us v acc"
  by (induction us v acc rule: apply_map.induct) simp_all

lemma apply_map_units: "length v = length xs \<Longrightarrow> length acc = length xs \<Longrightarrow> apply_map (units xs) v acc = xorl v acc"
proof (induction xs arbitrary: v acc)
  case (Cons x xs)
  then obtain b v' a acc' where v: "v = b # v'" "acc = a # acc'" by (metis length_Suc_conv)
  then show ?case using Cons by (simp add: apply_map_Cons xorl_zero)
qed simp

lemma apply_map_eq: "linear (length ts) F \<Longrightarrow> length v = length ts \<Longrightarrow> apply_map (map F (units ts)) v (zeros_of ts) = F v"
proof -
  assume a: "linear (length ts) F" "length v = length ts"
  have "apply_map (map F (units ts)) v (F (zeros_of ts)) = F (apply_map (units ts) v (zeros_of ts))"
    by (rule apply_map_linear [OF a(1)]) (auto simp: units_length)
  then show ?thesis using a linear_zero [OF a(1), of ts] by (simp add: apply_map_units xorl_zero)
qed

text \<open>The powers of a map at several exponents given by their bits, by repeated squaring.\<close>

fun powers :: "'a list \<Rightarrow> bool list \<Rightarrow> bool list list \<Rightarrow> (bool list \<times> bool list) list \<Rightarrow> bool list list" where
  "powers [] z M kvs = map snd kvs"
| "powers (x # xs) z M kvs =
     powers xs z (map (\<lambda>c. apply_map M c z) M)
       (map (\<lambda>(k, v). case k of [] \<Rightarrow> ([], v) | b # k \<Rightarrow> (k, if b then apply_map M v z else v)) kvs)"

fun number :: "bool list \<Rightarrow> nat" where
  "number [] = 0"
| "number (b # bs) = of_bool b + 2 * number bs"

lemma powers_eq:
  "linear (length ts) F \<Longrightarrow> (\<And>k v. (k, v) \<in> set kvs \<Longrightarrow> length k \<le> length xs \<and> length v = length ts) \<Longrightarrow>
   powers xs (zeros_of ts) (map F (units ts)) kvs = map (\<lambda>(k, v). (F ^^ number k) v) kvs"
proof (induction xs arbitrary: F kvs)
  case Nil
  have "number k = 0" if "(k, v) \<in> set kvs" for k v using Nil(2) [OF that] by simp
  then show ?case by (auto simp: split_def)
next
  case (Cons x xs)
  let ?F2 = "F ^^ 2"
  have F2: "linear (length ts) ?F2" using Cons.prems(1) by (rule linear_funpow)
  have len: "length (F v) = length ts" if "length v = length ts" for v using Cons.prems(1) that by (simp add: linear_def)
  have sq: "map (\<lambda>c. apply_map (map F (units ts)) c (zeros_of ts)) (map F (units ts)) = map ?F2 (units ts)"
    using apply_map_eq [OF Cons.prems(1)] len units_length by (auto simp: numeral_2_eq_2)
  have f: "(F ^^ (2 * n)) v = (?F2 ^^ n) v" for n v by (simp only: funpow_mult mult.commute)
  let ?kvs = "map (\<lambda>(k, v). case k of [] \<Rightarrow> ([], v) | b # k \<Rightarrow> (k, if b then apply_map (map F (units ts)) v (zeros_of ts) else v)) kvs"
  have pair: "(\<lambda>(k, v). (?F2 ^^ number k) v) (case k of [] \<Rightarrow> ([], v) | b # k \<Rightarrow> (k, if b then apply_map (map F (units ts)) v (zeros_of ts) else v)) =
      (F ^^ number k) v" if "length v = length ts" for k v
    using apply_map_eq [OF Cons.prems(1) that] by (cases k) (auto simp: f funpow_Suc_right simp del: funpow.simps(2))
  have "powers (x # xs) (zeros_of ts) (map F (units ts)) kvs = powers xs (zeros_of ts) (map ?F2 (units ts)) ?kvs"
    unfolding powers.simps sq ..
  also have "\<dots> = map (\<lambda>(k, v). (?F2 ^^ number k) v) ?kvs"
  proof (rule Cons.IH [OF F2])
    fix k' v' assume "(k', v') \<in> set ?kvs"
    then obtain k v where kv: "(k, v) \<in> set kvs" "(k', v') = (case k of [] \<Rightarrow> ([], v) | b # k \<Rightarrow> (k, if b then apply_map (map F (units ts)) v (zeros_of ts) else v))"
      by auto
    then show "length k' \<le> length xs \<and> length v' = length ts"
      using Cons.prems(2) [OF kv(1)] apply_map_eq [OF Cons.prems(1)] len by (cases k) auto
  qed
  also have "\<dots> = map (\<lambda>(k, v). (F ^^ number k) v) kvs"
    unfolding map_map by (rule map_cong [OF refl]) (use pair Cons.prems(2) in \<open>fastforce simp: o_def split_def\<close>)
  finally show ?case .
qed


section \<open>Maximal registers\<close>

text \<open>From the state with only the last bit set the register comes back after \<open>2 ^ m - 1\<close> steps, and after
  none of the given numbers of steps.\<close>

definition returns_only :: "bool list \<Rightarrow> bool list list \<Rightarrow> bool" where
  "returns_only ts ks =
     (let z = zeros_of ts;
          v = butlast z @ [True];
          r = powers ts z (map (lfsr_step ts) (units ts)) (map (\<lambda>k. (k, v)) (map (\<lambda>_. True) ts # ks))
      in hd r = v \<and> list_all (\<lambda>w. w \<noteq> v) (tl r))"

definition maximal :: "bool list \<Rightarrow> bool" where
  "maximal ts \<longleftrightarrow> ts \<noteq> [] \<and> last ts \<and>
     (\<forall>v. length v = length ts \<longrightarrow> v \<noteq> zeros_of v \<longrightarrow>
        bij_betw (\<lambda>i. (lfsr_step ts ^^ i) v) {..<2 ^ length ts - 1} {v. length v = length ts \<and> v \<noteq> zeros_of v} \<and>
        (lfsr_step ts ^^ (2 ^ length ts - 1)) v = v)"

lemma number_ones: "number (map (\<lambda>_. True) xs) = 2 ^ length xs - 1"
proof -
  have "number (map (\<lambda>_. True) xs) + 1 = 2 ^ length xs" by (induction xs) auto
  then show ?thesis by linarith
qed

lemma nonzero_card: "card {v :: bool list. length v = n \<and> v \<noteq> zeros_of v} = 2 ^ n - 1"
proof -
  have "{v :: bool list. length v = n \<and> v \<noteq> zeros_of v} = {v. set v \<subseteq> UNIV \<and> length v = n} - {replicate n False}"
    by (auto simp: map_replicate_const)
  moreover have "card {v :: bool list. set v \<subseteq> UNIV \<and> length v = n} = 2 ^ n"
    using card_lists_length_eq [of "UNIV :: bool set" n] by simp
  ultimately show ?thesis by (simp add: card_Diff_subset)
qed

lemma funpow_zero: "ts \<noteq> [] \<Longrightarrow> (lfsr_step ts ^^ i) (zeros_of ts) = zeros_of ts"
  by (rule linear_zero [OF linear_funpow [OF linear_step]]) simp_all

lemma funpow_length: "ts \<noteq> [] \<Longrightarrow> length v = length ts \<Longrightarrow> length ((lfsr_step ts ^^ i) v) = length ts"
  using linear_funpow [OF linear_step [of ts], of i] by (simp add: linear_def)

lemma funpow_inj: "ts \<noteq> [] \<Longrightarrow> last ts \<Longrightarrow> length v = length ts \<Longrightarrow> length w = length ts \<Longrightarrow>
  (lfsr_step ts ^^ i) v = (lfsr_step ts ^^ i) w \<Longrightarrow> v = w"
proof (induction i)
  case (Suc i)
  then show ?case using inj_onD [OF step_inj [OF Suc.prems(1,2)]] by (simp add: funpow_length)
qed simp

lemma zeros_eq: "length v = length ts \<Longrightarrow> zeros_of v = zeros_of ts"
  by (simp add: map_replicate_const)

lemma maximalI:
  assumes ts: "ts \<noteq> []" "last ts" and r: "returns_only ts ks"
    and ks: "\<And>k. k \<in> set ks \<Longrightarrow> length k \<le> length ts"
    and P: "\<And>p. prime_nat p \<Longrightarrow> p dvd 2 ^ length ts - 1 \<Longrightarrow> (2 ^ length ts - 1) div p \<in> number ` set ks"
  shows "maximal ts"
proof -
  let ?f = "lfsr_step ts" and ?N = "2 ^ length ts - 1 :: nat" and ?B = "{v. length v = length ts \<and> v \<noteq> zeros_of v}"
  define v0 where "v0 = butlast (zeros_of ts) @ [True]"
  have lv: "length v0 = length ts" using ts(1) by (simp add: v0_def)
  have nz: "v0 \<noteq> zeros_of v0" by (simp add: v0_def)
  have N0: "0 < ?N" using ts(1) one_less_power [of "2 :: nat" "length ts"] by simp
  have lin: "linear (length ts) ?f" by (rule linear_step [OF ts(1)])
  have "powers ts (zeros_of ts) (map ?f (units ts)) (map (\<lambda>k. (k, v0)) (map (\<lambda>_. True) ts # ks)) =
      map (\<lambda>(k, v). (?f ^^ number k) v) (map (\<lambda>k. (k, v0)) (map (\<lambda>_. True) ts # ks))"
    by (rule powers_eq [OF lin]) (use ks lv in auto)
  then have "hd (map (\<lambda>k. (?f ^^ number k) v0) (map (\<lambda>_. True) ts # ks)) = v0"
    "list_all (\<lambda>w. w \<noteq> v0) (map (\<lambda>k. (?f ^^ number k) v0) ks)"
    using r by (simp_all add: returns_only_def Let_def v0_def o_def)
  then have again: "(?f ^^ ?N) v0 = v0" and only: "\<And>k. k \<in> set ks \<Longrightarrow> (?f ^^ number k) v0 \<noteq> v0"
    by (simp_all add: number_ones list_all_iff)
  have inA: "(?f ^^ i) v0 \<in> {v. length v = length ts}" for i using funpow_length [OF ts(1) lv] by simp
  have inj: "inj_on (\<lambda>i. (?f ^^ i) v0) {..<?N}"
  proof (rule orbit_full [where f = ?f and A = "{v. length v = length ts}"])
    show "inj_on ?f {v. length v = length ts}" by (rule step_inj [OF ts])
    show "(?f ^^ (?N div p)) v0 \<noteq> (?f ^^ 0) v0" if "prime_nat p" "p dvd ?N" for p
      using P [OF that] only by auto
  qed (use inA again N0 in auto)
  have into: "(?f ^^ i) v \<in> ?B" if "v \<in> ?B" for i v
  proof -
    have l: "length v = length ts" using that by simp
    have "(?f ^^ i) v \<noteq> zeros_of ts"
    proof
      assume "(?f ^^ i) v = zeros_of ts"
      then have "(?f ^^ i) v = (?f ^^ i) (zeros_of ts)" using funpow_zero [OF ts(1)] by simp
      then have "v = zeros_of ts" by (rule funpow_inj [OF ts l, rotated]) simp
      then show False using that by simp
    qed
    then show ?thesis using funpow_length [OF ts(1) l] zeros_eq [of "(?f ^^ i) v" ts] by simp
  qed
  have fin: "finite ?B" using nonzero_card [of "length ts"] N0 by (intro card_ge_0_finite) simp
  have v0: "v0 \<in> ?B" using lv nz by simp
  have all: "(\<lambda>i. (?f ^^ i) v0) ` {..<?N} = ?B"
  proof (rule card_subset_eq [OF fin])
    show "(\<lambda>i. (?f ^^ i) v0) ` {..<?N} \<subseteq> ?B" using into [OF v0] by blast
    show "card ((\<lambda>i. (?f ^^ i) v0) ` {..<?N}) = card ?B" using inj by (simp add: card_image nonzero_card)
  qed
  have "bij_betw (\<lambda>i. (?f ^^ i) v) {..<?N} ?B \<and> (?f ^^ ?N) v = v" if v: "v \<in> ?B" for v
  proof -
    obtain k where k: "v = (?f ^^ k) v0" using all v by auto
    have e: "(?f ^^ i) v = (?f ^^ k) ((?f ^^ i) v0)" for i unfolding k by (metis add.commute comp_apply funpow_add)
    have "inj_on (\<lambda>i. (?f ^^ i) v) {..<?N}"
    proof (rule inj_onI)
      fix i j assume ij: "i \<in> {..<?N}" "j \<in> {..<?N}" "(?f ^^ i) v = (?f ^^ j) v"
      have "(?f ^^ i) v0 = (?f ^^ j) v0"
        by (rule funpow_inj [OF ts, where i = k]) (use ij(3) e inA in auto)
      then show "i = j" using inj ij by (auto dest: inj_onD)
    qed
    moreover from this have "(\<lambda>i. (?f ^^ i) v) ` {..<?N} = ?B"
      using into [OF v] by (intro card_subset_eq [OF fin]) (auto simp: card_image nonzero_card)
    moreover have "(?f ^^ ?N) v = v" unfolding e again k [symmetric] ..
    ultimately show ?thesis by (simp add: bij_betw_def)
  qed
  then show ?thesis using ts by (simp add: maximal_def)
qed

lemma prime_natI:
  assumes "1 < p" "p < k * k" "list_all (\<lambda>i. p mod i \<noteq> 0) [2..<k]"
  shows "prime_nat p"
proof -
  obtain q where q: "prime_nat q" "q dvd p" "\<And>j. 2 \<le> j \<Longrightarrow> j dvd p \<Longrightarrow> q \<le> j" using first_factor [OF assms(1)] by blast
  have "p = q"
  proof (rule ccontr)
    assume "p \<noteq> q"
    obtain r where r: "p = q * r" using q(2) by (auto elim: dvdE)
    then have "2 \<le> r" using assms(1) \<open>p \<noteq> q\<close> by (cases "r = 0"; cases "r = 1") auto
    then have "q * q \<le> p" using q(3) [of r] r by simp
    then have "q < k" using assms(2) by (meson leD le_less_trans mult_le_mono not_less)
    moreover have "2 \<le> q" using q(1) by (auto simp: prime_nat_def)
    ultimately have "p mod q \<noteq> 0" using assms(3) by (simp add: list_all_iff)
    then show False using q(2) by (simp add: dvd_eq_mod_eq_0)
  qed
  then show ?thesis using q(1) by simp
qed

lemma prime_divisors: "N = prod_list ps \<Longrightarrow> list_all prime_nat ps \<Longrightarrow> prime_nat p \<Longrightarrow> p dvd N \<Longrightarrow> p \<in> set ps"
  by (auto simp: prime_dvd_prod_list list_all_iff primes_dvd)

lemma some_primes:
  shows "prime_nat 3" and "prime_nat 5" and "prime_nat 7" and "prime_nat 11" and "prime_nat 13" and "prime_nat 17" and "prime_nat 23"
    and "prime_nat 31" and "prime_nat 43" and "prime_nat 73" and "prime_nat 89" and "prime_nat 127" and "prime_nat 151" and "prime_nat 8191"
proof -
  show "prime_nat 3" "prime_nat 5" "prime_nat 7" by (rule prime_natI [where k = 3]; simp)+
  show "prime_nat 11" "prime_nat 13" by (rule prime_natI [where k = 4]; simp)+
  show "prime_nat 17" "prime_nat 23" by (rule prime_natI [where k = 5]; simp)+
  show "prime_nat 31" "prime_nat 43" by (rule prime_natI [where k = 7]; simp)+
  show "prime_nat 73" "prime_nat 89" by (rule prime_natI [where k = 10]; simp)+
  show "prime_nat 127" "prime_nat 151" by (rule prime_natI [where k = 13]; simp)+
  show "prime_nat 8191" by (rule prime_natI [where k = 91]; simp)+
qed

section \<open>The registers of the code\<close>

definition ms_bits :: "nat \<Rightarrow> u32 \<Rightarrow> bool list" where
  "ms_bits m w = map (bit w) [0..<m]"

lemma ms_bits_length [simp]: "length (ms_bits m w) = m"
  by (simp add: ms_bits_def)

text \<open>A certificate for a generator polynomial: the prime factors of the period.\<close>

lemma number_bits: "number (map (\<lambda>i. odd (k div 2 ^ i)) [0..<m]) = k mod 2 ^ m"
proof (induction m arbitrary: k)
  case (Suc m)
  have "[0..<Suc m] = 0 # map Suc [0..<m]" by (simp add: map_Suc_upt upt_conv_Cons del: upt_Suc)
  then have "number (map (\<lambda>i. odd (k div 2 ^ i)) [0..<Suc m]) = of_bool (odd k) + 2 * number (map (\<lambda>i. odd (k div 2 div 2 ^ i)) [0..<m])"
    by (simp add: o_def div_mult2_eq del: upt_Suc)
  also have "\<dots> = of_bool (odd k) + 2 * (k div 2 mod 2 ^ m)" by (simp only: Suc)
  also have "\<dots> = k mod 2 ^ Suc m" unfolding power_Suc mod_mult2_eq by (simp add: mod_2_eq_odd)
  finally show ?case .
qed simp

lemma maximal_check:
  assumes "0 < m" "bit g (m - 1)" "2 ^ m - 1 = prod_list qs" "list_all prime_nat qs"
    "returns_only (ms_bits m g) (map (\<lambda>q. map (\<lambda>i. odd ((2 ^ m - 1) div q div 2 ^ i)) [0..<m]) qs)"
  shows "maximal (ms_bits m g)"
proof (rule maximalI [OF _ _ assms(5)])
  show "ms_bits m g \<noteq> []" using assms(1) by (simp add: ms_bits_def)
  show "last (ms_bits m g)" using assms(1,2) by (simp add: ms_bits_def last_map)
next
  fix k assume "k \<in> set (map (\<lambda>q. map (\<lambda>i. odd ((2 ^ m - 1) div q div 2 ^ i)) [0..<m]) qs)"
  then show "length k \<le> length (ms_bits m g)" by auto
next
  fix p assume p: "prime_nat p" "p dvd 2 ^ length (ms_bits m g) - 1"
  let ?N = "2 ^ m - 1 :: nat"
  have "p \<in> set qs" using prime_divisors [OF assms(3,4) p(1)] p(2) by simp
  moreover have "?N div p mod 2 ^ m = ?N div p"
  proof (rule mod_less)
    have "?N div p \<le> ?N" by (rule div_le_dividend)
    also have "\<dots> < 2 ^ m" by simp
    finally show "?N div p < 2 ^ m" .
  qed
  ultimately show "(2 ^ length (ms_bits m g) - 1) div p \<in> number ` set (map (\<lambda>q. map (\<lambda>i. odd (?N div q div 2 ^ i)) [0..<m]) qs)"
    by (auto simp: number_bits image_iff intro!: bexI [of _ p])
qed

lemma default_polynomials:
  shows "maximal (ms_bits 2 0x0003)"
    and "maximal (ms_bits 3 0x0005)"
    and "maximal (ms_bits 4 0x0009)"
    and "maximal (ms_bits 5 0x0012)"
    and "maximal (ms_bits 6 0x0021)"
    and "maximal (ms_bits 7 0x0044)"
    and "maximal (ms_bits 8 0x008E)"
    and "maximal (ms_bits 9 0x0108)"
    and "maximal (ms_bits 10 0x0204)"
    and "maximal (ms_bits 11 0x0402)"
    and "maximal (ms_bits 12 0x0829)"
    and "maximal (ms_bits 13 0x100d)"
    and "maximal (ms_bits 14 0x2015)"
    and "maximal (ms_bits 15 0x4001)"
proof -
  show "maximal (ms_bits 2 0x0003)"
    by (rule maximal_check [where qs = "[3]"]) (simp_all add: some_primes ms_bits_def upt_conv_Cons bit_numeral_rec, code_simp)
  show "maximal (ms_bits 3 0x0005)"
    by (rule maximal_check [where qs = "[7]"]) (simp_all add: some_primes ms_bits_def upt_conv_Cons bit_numeral_rec, code_simp)
  show "maximal (ms_bits 4 0x0009)"
    by (rule maximal_check [where qs = "[3, 5]"]) (simp_all add: some_primes ms_bits_def upt_conv_Cons bit_numeral_rec, code_simp)
  show "maximal (ms_bits 5 0x0012)"
    by (rule maximal_check [where qs = "[31]"]) (simp_all add: some_primes ms_bits_def upt_conv_Cons bit_numeral_rec, code_simp)
  show "maximal (ms_bits 6 0x0021)"
    by (rule maximal_check [where qs = "[3, 3, 7]"]) (simp_all add: some_primes ms_bits_def upt_conv_Cons bit_numeral_rec, code_simp)
  show "maximal (ms_bits 7 0x0044)"
    by (rule maximal_check [where qs = "[127]"]) (simp_all add: some_primes ms_bits_def upt_conv_Cons bit_numeral_rec, code_simp)
  show "maximal (ms_bits 8 0x008E)"
    by (rule maximal_check [where qs = "[3, 5, 17]"]) (simp_all add: some_primes ms_bits_def upt_conv_Cons bit_numeral_rec, code_simp)
  show "maximal (ms_bits 9 0x0108)"
    by (rule maximal_check [where qs = "[7, 73]"]) (simp_all add: some_primes ms_bits_def upt_conv_Cons bit_numeral_rec, code_simp)
  show "maximal (ms_bits 10 0x0204)"
    by (rule maximal_check [where qs = "[3, 11, 31]"]) (simp_all add: some_primes ms_bits_def upt_conv_Cons bit_numeral_rec, code_simp)
  show "maximal (ms_bits 11 0x0402)"
    by (rule maximal_check [where qs = "[23, 89]"]) (simp_all add: some_primes ms_bits_def upt_conv_Cons bit_numeral_rec, code_simp)
  show "maximal (ms_bits 12 0x0829)"
    by (rule maximal_check [where qs = "[3, 3, 5, 7, 13]"]) (simp_all add: some_primes ms_bits_def upt_conv_Cons bit_numeral_rec, code_simp)
  show "maximal (ms_bits 13 0x100d)"
    by (rule maximal_check [where qs = "[8191]"]) (simp_all add: some_primes ms_bits_def upt_conv_Cons bit_numeral_rec, code_simp)
  show "maximal (ms_bits 14 0x2015)"
    by (rule maximal_check [where qs = "[3, 43, 127]"]) (simp_all add: some_primes ms_bits_def upt_conv_Cons bit_numeral_rec, code_simp)
  show "maximal (ms_bits 15 0x4001)"
    by (rule maximal_check [where qs = "[7, 31, 151]"]) (simp_all add: some_primes ms_bits_def upt_conv_Cons bit_numeral_rec, code_simp)
qed

section \<open>A period of outputs\<close>

lemma nonzero_hd_card:
  assumes "0 < m"
  shows "card {v :: bool list. length v = m \<and> v \<noteq> zeros_of v \<and> \<not> hd v} = 2 ^ (m - 1) - 1"
proof -
  have "{v :: bool list. length v = m \<and> v \<noteq> zeros_of v \<and> \<not> hd v} = (#) False ` {v. length v = m - 1 \<and> v \<noteq> zeros_of v}"
  proof (intro equalityI subsetI)
    fix v :: "bool list" assume "v \<in> {v. length v = m \<and> v \<noteq> zeros_of v \<and> \<not> hd v}"
    then show "v \<in> (#) False ` {v. length v = m - 1 \<and> v \<noteq> zeros_of v}" using assms by (cases v) auto
  qed (use assms in auto)
  then show ?thesis by (simp add: card_image nonzero_card)
qed

lemma maximal_orbit:
  assumes "maximal ts" "length v = length ts" "v \<noteq> zeros_of v"
  shows "bij_betw (\<lambda>i. (lfsr_step ts ^^ i) v) {..<2 ^ length ts - 1} {v. length v = length ts \<and> v \<noteq> zeros_of v}"
    and "(lfsr_step ts ^^ (2 ^ length ts - 1)) v = v" and "ts \<noteq> []" and "last ts"
  using assms by (auto simp: maximal_def)

lemma orbit_nonzero:
  assumes "maximal ts" "length v = length ts" "v \<noteq> zeros_of v"
  shows "(lfsr_step ts ^^ i) v \<noteq> zeros_of ((lfsr_step ts ^^ i) v)"
proof
  note o = maximal_orbit [OF assms]
  assume "(lfsr_step ts ^^ i) v = zeros_of ((lfsr_step ts ^^ i) v)"
  then have "(lfsr_step ts ^^ i) v = (lfsr_step ts ^^ i) (zeros_of ts)"
    using funpow_zero [OF o(3)] zeros_eq [OF funpow_length [OF o(3) assms(2)]] by metis
  then have "v = zeros_of ts" by (rule funpow_inj [OF o(3,4) assms(2), rotated]) simp
  then show False using assms(3) by simp
qed

text \<open>The zeros among the outputs of a period, whatever the state it starts from.\<close>

lemma outputs_zero:
  assumes "maximal ts" "length v = length ts" "v \<noteq> zeros_of v"
  shows "(\<Sum>i<2 ^ length ts - 1. of_bool (\<not> hd ((lfsr_step ts ^^ Suc i) v)) :: nat) = 2 ^ (length ts - 1) - 1"
proof -
  let ?f = "lfsr_step ts" and ?N = "2 ^ length ts - 1 :: nat"
  note o = maximal_orbit [OF assms]
  define w where "w = ?f v"
  have l: "length w = length ts" using funpow_length [OF o(3) assms(2), of 1] by (simp add: w_def)
  have nz: "w \<noteq> zeros_of w" using orbit_nonzero [OF assms, of 1] by (simp add: w_def)
  have e: "(?f ^^ Suc i) v = (?f ^^ i) w" for i by (simp add: w_def funpow_Suc_right del: funpow.simps(2))
  have b: "bij_betw (\<lambda>i. (?f ^^ i) w) {..<?N} {v. length v = length ts \<and> v \<noteq> zeros_of v}" by (rule maximal_orbit(1) [OF assms(1) l nz])
  have "(\<Sum>i<?N. of_bool (\<not> hd ((?f ^^ i) w)) :: nat) = (\<Sum>u | length u = length ts \<and> u \<noteq> zeros_of u. of_bool (\<not> hd u))"
    using sum.reindex_bij_betw [OF b, of "\<lambda>u. of_bool (\<not> hd u) :: nat"] .
  also have "\<dots> = card {u. length u = length ts \<and> u \<noteq> zeros_of u \<and> \<not> hd u}"
  proof -
    have "finite {u :: bool list. length u = length ts \<and> u \<noteq> zeros_of u}"
      using finite_lists_length_eq [of "UNIV :: bool set" "length ts"] by (rule rev_finite_subset) auto
    then have "(\<Sum>u | length u = length ts \<and> u \<noteq> zeros_of u. of_bool (\<not> hd u) :: nat) =
      card ({u. length u = length ts \<and> u \<noteq> zeros_of u} \<inter> {u. \<not> hd u})" by simp
    then show ?thesis by (simp add: Collect_conj_eq Int_assoc)
  qed
  finally show ?thesis using nonzero_hd_card [of "length ts"] o(3) unfolding e by simp
qed

lemma count_both: "(\<Sum>i<n :: nat. of_bool (P i) :: nat) + (\<Sum>i<n. of_bool (\<not> P i)) = n"
  by (induction n) auto

definition period_bits :: "bool list \<Rightarrow> bool list \<Rightarrow> bool list" where
  "period_bits ts v = map (\<lambda>i. hd ((lfsr_step ts ^^ Suc i) v)) [0..<2 ^ length ts - 1]"

lemma period_ones:
  assumes "maximal ts" "length v = length ts" "v \<noteq> zeros_of v"
  shows "length (filter id (period_bits ts v)) = 2 ^ (length ts - 1)"
proof -
  let ?N = "2 ^ length ts - 1 :: nat"
  have "length (filter id (period_bits ts v)) = (\<Sum>i<?N. of_bool (hd ((lfsr_step ts ^^ Suc i) v)))"
    by (simp add: period_bits_def length_filter_sum o_def sum_list_distinct_conv_sum_set atLeast0LessThan del: funpow.simps)
  moreover have "(\<Sum>i<?N. of_bool (hd ((lfsr_step ts ^^ Suc i) v)) :: nat) + (\<Sum>i<?N. of_bool (\<not> hd ((lfsr_step ts ^^ Suc i) v))) = ?N"
    by (rule count_both)
  moreover have "(2 :: nat) ^ length ts = 2 * 2 ^ (length ts - 1)"
    using maximal_orbit(3) [OF assms] by (cases ts) auto
  moreover have "(1 :: nat) \<le> 2 ^ (length ts - 1)" by simp
  ultimately show ?thesis using outputs_zero [OF assms] by linarith
qed

lemma hd_xorl: "x \<noteq> [] \<Longrightarrow> y \<noteq> [] \<Longrightarrow> hd (xorl x y) = (hd x \<noteq> hd y)"
  by (cases x; cases y) simp_all

lemma period_agreements:
  assumes "maximal ts" "length v = length ts" "v \<noteq> zeros_of v" and j: "0 < j" "j < 2 ^ length ts - 1"
  shows "agreements (period_bits ts v) (rotate j (period_bits ts v)) = 2 ^ (length ts - 1) - 1"
proof -
  let ?f = "lfsr_step ts" and ?N = "2 ^ length ts - 1 :: nat"
  note o = maximal_orbit [OF assms(1-3)]
  have lin: "linear (length ts) (?f ^^ i)" for i by (rule linear_funpow [OF linear_step [OF o(3)]])
  have len: "length ((?f ^^ i) v) = length ts" for i by (rule funpow_length [OF o(3) assms(2)])
  define w where "w = xorl v ((?f ^^ j) v)"
  have lw: "length w = length ts" using len assms(2) by (simp add: w_def)
  have "v \<noteq> (?f ^^ j) v"
  proof
    assume "v = (?f ^^ j) v"
    then have "(?f ^^ j) v = (?f ^^ 0) v" by simp
    moreover have "0 \<in> {..<?N}" "j \<in> {..<?N}" using j by auto
    moreover have "inj_on (\<lambda>i. (?f ^^ i) v) {..<?N}" using o(1) by (rule bij_betw_imp_inj_on)
    ultimately have "j = 0" by (intro inj_onD [of "\<lambda>i. (?f ^^ i) v" "{..<?N}" j 0])
    then show False using j(1) by simp
  qed
  then have nz: "w \<noteq> zeros_of w" using xorl_eq_zero [of v "(?f ^^ j) v"] assms(2) len zeros_eq [OF lw] zeros_eq [OF assms(2)]
    by (simp add: w_def)
  have mod: "(?f ^^ Suc ((i + j) mod (2 ^ length ts - Suc 0))) v = (?f ^^ Suc (i + j)) v" for i
    using funpow_mod_eq [where f = ?f and n = ?N and m = "i + j" and x = v] o(2) by simp
  have cmp: "hd ((?f ^^ Suc i) v) = hd ((?f ^^ (Suc i + j)) v) \<longleftrightarrow> \<not> hd ((?f ^^ Suc i) w)" for i
  proof -
    have "(?f ^^ Suc i) w = xorl ((?f ^^ Suc i) v) ((?f ^^ Suc i) ((?f ^^ j) v))"
      using lin [of "Suc i"] assms(2) len unfolding w_def linear_def by blast
    also have "(?f ^^ Suc i) ((?f ^^ j) v) = (?f ^^ (Suc i + j)) v" by (simp add: funpow_add)
    finally have x: "(?f ^^ Suc i) w = xorl ((?f ^^ Suc i) v) ((?f ^^ (Suc i + j)) v)" .
    have "(?f ^^ Suc i) v \<noteq> []" "(?f ^^ (Suc i + j)) v \<noteq> []" using len o(3) by (metis length_0_conv)+
    then have "hd (xorl ((?f ^^ Suc i) v) ((?f ^^ (Suc i + j)) v)) = (hd ((?f ^^ Suc i) v) \<noteq> hd ((?f ^^ (Suc i + j)) v))"
      by (rule hd_xorl)
    then show ?thesis using x by auto
  qed
  have "zip (period_bits ts v) (rotate j (period_bits ts v)) = map (\<lambda>i. (hd ((?f ^^ Suc i) v), hd ((?f ^^ (Suc i + j)) v))) [0..<?N]"
    by (rule nth_equalityI) (simp_all add: period_bits_def nth_rotate mod add.commute del: funpow.simps)
  then have "agreements (period_bits ts v) (rotate j (period_bits ts v)) = (\<Sum>i<?N. of_bool (\<not> hd ((?f ^^ Suc i) w)))"
    using cmp by (simp add: agreements_def length_filter_sum o_def sum_list_distinct_conv_sum_set atLeast0LessThan del: funpow.simps)
  then show ?thesis using outputs_zero [OF assms(1) lw nz] by simp
qed

section \<open>The registers as lists of bits\<close>

lemma dot_filter: "dot (map f is) (map g is) \<longleftrightarrow> odd (length (filter (\<lambda>i. f i \<and> g i) is))"
  by (induction "is") auto

lemma dot_parity:
  assumes "m < 32" "take_bit m g = g"
  shows "parity_of (v AND g) \<longleftrightarrow> dot (ms_bits m v) (ms_bits m g)"
proof -
  have "v AND g = take_bit m (v AND g)" using assms(2) by (metis and.assoc take_bit_eq_mask)
  then have "ones (v AND g) = length (filter (bit (v AND g)) [0..<m])" using ones_take_bit [of m "v AND g"] assms(1) by simp
  moreover have "bit (v AND g) = (\<lambda>i. bit v i \<and> bit g i)" by (simp add: fun_eq_iff bit_and_iff)
  ultimately show ?thesis unfolding parity_of_def ms_bits_def dot_filter by simp
qed

lemma advance_bits:
  assumes "0 < m" "m < 32" "ms_n ms = mask m" "take_bit m (ms_g ms) = ms_g ms"
  shows "fst (msequence_advance ms) = of_bool (dot (ms_bits m (ms_v ms)) (ms_bits m (ms_g ms)))"
    and "ms_bits m (ms_v (snd (msequence_advance ms))) = lfsr_step (ms_bits m (ms_g ms)) (ms_bits m (ms_v ms))"
    and "take_bit m (ms_v (snd (msequence_advance ms))) = ms_v (snd (msequence_advance ms))"
    and "ms_b (snd (msequence_advance ms)) = fst (msequence_advance ms)"
    and "ms_n (snd (msequence_advance ms)) = ms_n ms" and "ms_g (snd (msequence_advance ms)) = ms_g ms"
proof -
  let ?d = "dot (ms_bits m (ms_v ms)) (ms_bits m (ms_g ms))"
  have b: "liquid_bdotprod (ms_v ms) (ms_g ms) = of_bool ?d"
    using dot_parity [OF assms(2,4)] by (simp add: liquid_bdotprod_parity)
  show "fst (msequence_advance ms) = of_bool ?d" by (simp add: msequence_advance_def b)
  have v: "ms_v (snd (msequence_advance ms)) = take_bit m (push_bit 1 (ms_v ms) OR of_bool ?d)"
    unfolding msequence_advance_def by (simp add: Let_def b assms(3) take_bit_eq_mask del: push_bit_numeral push_bit_Suc)
  show "take_bit m (ms_v (snd (msequence_advance ms))) = ms_v (snd (msequence_advance ms))" unfolding v by simp
  show "ms_bits m (ms_v (snd (msequence_advance ms))) = lfsr_step (ms_bits m (ms_g ms)) (ms_bits m (ms_v ms))"
  proof (rule nth_equalityI)
    show "length (ms_bits m (ms_v (snd (msequence_advance ms)))) = length (lfsr_step (ms_bits m (ms_g ms)) (ms_bits m (ms_v ms)))"
      using assms(1) by (simp add: lfsr_step_def)
  next
    fix i assume "i < length (ms_bits m (ms_v (snd (msequence_advance ms))))"
    then have i: "i < m" by simp
    have "bit (of_bool ?d :: u32) i \<longleftrightarrow> i = 0 \<and> ?d" by (cases ?d) (auto simp: bit_1_iff)
    moreover have "bit (push_bit 1 (ms_v ms)) i \<longleftrightarrow> 0 < i \<and> bit (ms_v ms) (i - 1)"
      using i assms(2) by (auto simp add: bit_push_bit_iff simp del: push_bit_numeral push_bit_Suc push_bit_of_1)
    ultimately have "bit (ms_v (snd (msequence_advance ms))) i \<longleftrightarrow> (if i = 0 then ?d else bit (ms_v ms) (i - 1))"
      unfolding v bit_take_bit_iff bit_or_iff using i by auto
    then show "ms_bits m (ms_v (snd (msequence_advance ms))) ! i = lfsr_step (ms_bits m (ms_g ms)) (ms_bits m (ms_v ms)) ! i"
      using i by (auto simp: ms_bits_def lfsr_step_def nth_Cons nth_butlast split: nat.split)
  qed
qed (simp_all add: msequence_advance_def Let_def)

text \<open>The register after some steps.\<close>

fun advance_n :: "nat \<Rightarrow> msequence \<Rightarrow> msequence" where
  "advance_n 0 ms = ms"
| "advance_n (Suc i) ms = snd (msequence_advance (advance_n i ms))"

definition ms_ok :: "nat \<Rightarrow> msequence \<Rightarrow> bool" where
  "ms_ok m ms \<longleftrightarrow> 0 < m \<and> m < 32 \<and> ms_n ms = mask m \<and> take_bit m (ms_g ms) = ms_g ms \<and> take_bit m (ms_v ms) = ms_v ms \<and>
     maximal (ms_bits m (ms_g ms)) \<and> ms_v ms \<noteq> 0"

lemma ms_bits_zero: "take_bit m w = w \<Longrightarrow> m \<le> 32 \<Longrightarrow> ms_bits m w = zeros_of (ms_bits m w) \<longleftrightarrow> w = 0"
proof
  assume a: "take_bit m w = w" "m \<le> 32" "ms_bits m w = zeros_of (ms_bits m w)"
  show "w = 0"
  proof (rule bit_word_eqI)
    fix i assume "i < LENGTH(32)"
    have "\<not> bit w i" if "i < m" using arg_cong [OF a(3), of "\<lambda>l. l ! i"] that by (simp add: ms_bits_def)
    moreover have "\<not> bit w i" if "\<not> i < m" using a(1) that by (metis bit_take_bit_iff)
    ultimately show "bit w i \<longleftrightarrow> bit 0 i" by auto
  qed
qed (simp add: ms_bits_def)

lemma ms_bits_inj: "take_bit m v = v \<Longrightarrow> take_bit m w = w \<Longrightarrow> ms_bits m v = ms_bits m w \<Longrightarrow> v = w"
proof (rule bit_word_eqI)
  fix i
  assume a: "take_bit m v = v" "take_bit m w = w" "ms_bits m v = ms_bits m w"
  have "bit v i \<longleftrightarrow> bit w i" if "i < m" using arg_cong [OF a(3), of "\<lambda>l. l ! i"] that by (simp add: ms_bits_def)
  moreover have "\<not> bit v i" "\<not> bit w i" if "\<not> i < m" using a(1,2) that by (metis bit_take_bit_iff)+
  ultimately show "bit v i \<longleftrightarrow> bit w i" by blast
qed

lemma ms_bits_surj: "length l = m \<Longrightarrow> m \<le> 32 \<Longrightarrow> \<exists>w. take_bit m w = w \<and> ms_bits m w = l"
proof -
  assume a: "length l = m" "m \<le> 32"
  have b: "bit (horner_sum of_bool 2 l :: u32) i \<longleftrightarrow> i < m \<and> l ! i" if "i < 32" for i
    using that a by (simp add: bit_horner_sum_bit_word_iff)
  have "take_bit m (horner_sum of_bool 2 l :: u32) = horner_sum of_bool 2 l"
    by (rule bit_word_eqI) (auto simp: bit_take_bit_iff b)
  moreover have "ms_bits m (horner_sum of_bool 2 l) = l" by (rule nth_equalityI) (use a b in \<open>auto simp: ms_bits_def\<close>)
  ultimately show ?thesis by blast
qed

lemma advance_n_bits:
  assumes "ms_ok m ms"
  shows "ms_bits m (ms_v (advance_n i ms)) = (lfsr_step (ms_bits m (ms_g ms)) ^^ i) (ms_bits m (ms_v ms))
    \<and> take_bit m (ms_v (advance_n i ms)) = ms_v (advance_n i ms) \<and> ms_n (advance_n i ms) = mask m
    \<and> ms_g (advance_n i ms) = ms_g ms \<and> (0 < i \<longrightarrow> ms_b (advance_n i ms) = of_bool (hd (ms_bits m (ms_v (advance_n i ms)))))"
proof (induction i)
  case 0
  then show ?case using assms by (simp add: ms_ok_def)
next
  case (Suc i)
  have m: "0 < m" "m < 32" using assms by (simp_all add: ms_ok_def)
  note a = advance_bits [of m "advance_n i ms"]
  have n: "ms_n (advance_n i ms) = mask m" and g: "ms_g (advance_n i ms) = ms_g ms" and t: "take_bit m (ms_g (advance_n i ms)) = ms_g (advance_n i ms)"
    using Suc assms by (simp_all add: ms_ok_def)
  show ?case using a [OF m n t] Suc.IH by (simp add: g lfsr_step_def)
qed


lemma default_ok:
  assumes "2 \<le> m" "m \<le> 15" "msequence_create_default m = Some ms" "0 < a" "a < 2 ^ m"
  shows "ms_ok m (msequence_set_state ms a)"
proof -
  have row: "ms = msequence_default ! m" using assms by (simp add: msequence_create_default_def LIQUID_MAX_MSEQUENCE_M_def LIQUID_MIN_MSEQUENCE_M_def)
  have "m \<in> {2, 3, 4, 5, 6, 7, 8, 9, 10, 11, 12, 13, 14, 15}" using assms(1,2) by (simp only: insert_iff empty_iff) presburger
  then have "ms_n ms = mask m \<and> take_bit m (ms_g ms) = ms_g ms \<and> maximal (ms_bits m (ms_g ms))"
    unfolding row by (auto simp: msequence_default_def ms_row_def default_polynomials [simplified] mask_eq_exp_minus_1)
  moreover have "take_bit m a = a" using assms(2,5) by (simp add: take_bit_self)
  ultimately show ?thesis using assms by (simp add: ms_ok_def msequence_set_state_def)
qed

text \<open>
  C20: a default register of 2 to 15 bits, from any state but 0, takes all the non-zero states of its width,
  each once, before it comes back to the state it started from; of the bits it puts out in this period one
  more is 1 than is 0.
\<close>

theorem msequence_period:
  assumes "2 \<le> m" "m \<le> 15" "msequence_create_default m = Some ms" "0 < a" "a < 2 ^ m"
  shows "bij_betw (\<lambda>i. ms_v (advance_n i (msequence_set_state ms a))) {..<2 ^ m - 1} {v. 0 < v \<and> v < 2 ^ m} \<and>
    ms_v (advance_n (2 ^ m - 1) (msequence_set_state ms a)) = a \<and>
    length (filter (\<lambda>i. fst (msequence_advance (advance_n i (msequence_set_state ms a))) = 1) [0..<2 ^ m - 1]) = 2 ^ (m - 1)"
proof -
  let ?s = "msequence_set_state ms a" and ?W = "{v :: u32. 0 < v \<and> v < 2 ^ m}" and ?N = "2 ^ m - 1 :: nat"
  have ok: "ms_ok m ?s" by (rule default_ok [OF assms])
  let ?ts = "ms_bits m (ms_g ?s)" and ?v = "ms_bits m a"
  note st = advance_n_bits [OF ok]
  have v: "ms_v ?s = a" by (simp add: msequence_set_state_def)
  have max: "maximal ?ts" and t: "take_bit m a = a" using ok v by (simp_all add: ms_ok_def)
  have W: "w \<in> ?W \<longleftrightarrow> take_bit m w = w \<and> w \<noteq> 0" for w
    using assms(2) by (auto simp: take_bit_self word_gt_0)
  have nz: "?v \<noteq> zeros_of ?v" using ms_bits_zero [OF t] assms(2,4) by simp
  note o = maximal_orbit [OF max, of ?v, simplified, OF nz]
  let ?L = "{l. length l = m \<and> l \<noteq> zeros_of l}"
  have bW: "bij_betw (ms_bits m) ?W ?L"
  proof (rule bij_betw_imageI)
    show "inj_on (ms_bits m) ?W" by (rule inj_onI) (use W ms_bits_inj in blast)
    show "ms_bits m ` ?W = ?L"
    proof (intro equalityI subsetI)
      fix l assume "l \<in> ?L"
      then obtain w where "take_bit m w = w" "ms_bits m w = l" "l \<noteq> zeros_of l" using ms_bits_surj [of l m] assms(2) by auto
      then show "l \<in> ms_bits m ` ?W" using W ms_bits_zero [of m w] assms(2) by (auto intro!: image_eqI [of _ _ w])
    next
      fix l assume "l \<in> ms_bits m ` ?W"
      then obtain w where "take_bit m w = w" "w \<noteq> 0" "l = ms_bits m w" using W by blast
      then show "l \<in> ?L" using ms_bits_zero [of m w] assms(2) by simp
    qed
  qed
  have comp: "ms_bits m \<circ> (\<lambda>i. ms_v (advance_n i ?s)) = (\<lambda>i. (lfsr_step ?ts ^^ i) ?v)" using st v by (simp add: fun_eq_iff)
  have into: "(\<lambda>i. ms_v (advance_n i ?s)) ` {..<?N} \<subseteq> ?W"
  proof clarify
    fix i
    have "ms_bits m (ms_v (advance_n i ?s)) \<noteq> zeros_of (ms_bits m (ms_v (advance_n i ?s)))"
      using orbit_nonzero [OF max, of ?v i] nz st [of i] v by simp
    then have "ms_v (advance_n i ?s) \<in> ?W" unfolding W using st [of i] ms_bits_zero [of m "ms_v (advance_n i ?s)"] assms(2) by auto
    then show "0 < ms_v (advance_n i ?s) \<and> ms_v (advance_n i ?s) < 2 ^ m" by simp
  qed
  have 1: "bij_betw (\<lambda>i. ms_v (advance_n i ?s)) {..<?N} ?W"
    using bij_betw_comp_iff2 [OF bW into] o(1) unfolding comp by simp
  have "ms_bits m (ms_v (advance_n ?N ?s)) = ms_bits m a" using st [of ?N] o(2) v by simp
  then have 2: "ms_v (advance_n ?N ?s) = a" using ms_bits_inj st [of ?N] t by blast
  have out: "fst (msequence_advance (advance_n i ?s)) = of_bool (hd ((lfsr_step ?ts ^^ Suc i) ?v))" for i
  proof -
    have "ms_b (advance_n (Suc i) ?s) = fst (msequence_advance (advance_n i ?s))" by (simp add: msequence_advance_def Let_def)
    then show ?thesis using st [of "Suc i"] v by simp
  qed
  have "(of_bool x = (1 :: u32)) = x" for x by (cases x) simp_all
  then have "length (filter (\<lambda>i. fst (msequence_advance (advance_n i ?s)) = 1) [0..<?N]) = length (filter id (period_bits ?ts ?v))"
    unfolding out by (simp add: period_bits_def filter_map o_def)
  also have "\<dots> = 2 ^ (m - 1)" using period_ones [OF max, of ?v] nz by simp
  finally show ?thesis using 1 2 by blast
qed


section \<open>Sequences made by a register\<close>

lemma clear_ok: "bs_ok bs \<Longrightarrow> bs_ok (bsequence_clear bs) \<and> bs_num_bits (bsequence_clear bs) = bs_num_bits bs"
proof -
  assume ok: "bs_ok bs"
  have "\<not> bs_bit (bsequence_clear bs) p" if "p < 32 * s_len bs" for p
  proof -
    have "p div 32 < s_len bs" using that by (simp add: less_mult_imp_div_less mult.commute)
    then have "s_len bs - p div 32 - 1 < s_len bs" by simp
    then show ?thesis by (simp add: bs_bit_def bsequence_clear_def)
  qed
  then show ?thesis using ok by (auto simp: bs_ok_def bsequence_clear_def)
qed

lemma advance_n_Suc: "advance_n i (snd (msequence_advance ms)) = advance_n (Suc i) ms"
  by (induction i) simp_all

abbreviation "outputs n ms \<equiv> map (\<lambda>i. fst (msequence_advance (advance_n i ms))) [0..<n]"

lemma init_loop_outputs:
  "init_msequence_loop is bs ms = map_option (\<lambda>q. (q, advance_n (length is) ms)) (push_all bsequence_push (outputs (length is) ms) bs)"
proof (induction "is" arbitrary: bs ms)
  case (Cons i "is")
  obtain b ms' where a: "msequence_advance ms = (b, ms')" by fastforce
  then have n: "advance_n k ms' = advance_n (Suc k) ms" for k using advance_n_Suc [of k ms] by simp
  have "outputs (Suc (length is)) ms = b # outputs (length is) ms'"
    unfolding n by (simp add: upt_conv_Cons a o_def map_Suc_upt [symmetric] del: upt_Suc advance_n.simps(2))
  then show ?case using a Cons.IH n by (cases "bsequence_push bs b") (simp_all del: upt_Suc advance_n.simps)
qed simp

lemma outputs_period:
  assumes "2 \<le> m" "m \<le> 15" "msequence_create_default m = Some ms" "0 < a" "a < 2 ^ m"
  shows "\<exists>ts. length ts = m \<and> maximal ts \<and> length (ms_bits m a) = m \<and> ms_bits m a \<noteq> zeros_of (ms_bits m a) \<and>
    map (\<lambda>b. bit b 0) (outputs (2 ^ m - 1) (msequence_set_state ms a)) = period_bits ts (ms_bits m a)"
proof -
  let ?s = "msequence_set_state ms a"
  have ok: "ms_ok m ?s" by (rule default_ok [OF assms])
  have v: "ms_v ?s = a" by (simp add: msequence_set_state_def)
  have t: "take_bit m a = a" and max: "maximal (ms_bits m (ms_g ?s))" using ok v by (simp_all add: ms_ok_def)
  have "fst (msequence_advance (advance_n i ?s)) = of_bool (hd ((lfsr_step (ms_bits m (ms_g ?s)) ^^ Suc i) (ms_bits m a)))" for i
  proof -
    have "ms_b (advance_n (Suc i) ?s) = fst (msequence_advance (advance_n i ?s))" by (simp add: msequence_advance_def Let_def)
    then show ?thesis using advance_n_bits [OF ok, of "Suc i"] v by simp
  qed
  then have "map (\<lambda>b. bit b 0) (outputs (2 ^ m - 1) ?s) = period_bits (ms_bits m (ms_g ?s)) (ms_bits m a)"
    by (simp add: period_bits_def del: funpow.simps)
  moreover have "ms_bits m a \<noteq> zeros_of (ms_bits m a)" using ms_bits_zero [OF t] assms(2,4) by simp
  ultimately show ?thesis using max by (intro exI [of _ "ms_bits m (ms_g ?s)"]) simp
qed

text \<open>
  C19: a binary sequence of \<open>2 ^ m - 1\<close> bits that is filled from a default register of \<open>m\<close> bits in any
  state but 0 takes one period of it, and leaves the register in the state it was in. It has
  \<open>2 ^ (m - 1)\<close> ones, and correlated with itself circularly shifted by any number of bits but 0
  it agrees in \<open>2 ^ (m - 1) - 1\<close> places, one less than half of them.
\<close>

theorem msequence_correlation:
  assumes "2 \<le> m" "m \<le> 15" "msequence_create_default m = Some ms" "0 < a" "a < 2 ^ m"
    and "bs_ok bs" "bs_num_bits bs = 2 ^ m - 1"
  shows "\<exists>q ms'. bsequence_init_msequence bs (msequence_set_state ms a) = Some (q, ms') \<and> msequence_get_state ms' = a \<and>
    bsequence_accumulate q = 2 ^ (m - 1) \<and>
    (\<forall>j < 2 ^ m - 1. \<exists>q'. turns j q = Some q' \<and>
      bsequence_correlate q q' = Some (if j = 0 then 2 ^ m - 1 else 2 ^ (m - 1) - 1))"
proof -
  let ?s = "msequence_set_state ms a" and ?N = "2 ^ m - 1 :: nat"
  have ok: "ms_ok m ?s" by (rule default_ok [OF assms(1-5)])
  have len: "unat (ms_n ?s) = ?N"
  proof -
    have "(2 :: nat) ^ m \<le> 2 ^ 32" using assms(2) by (intro power_increasing) simp_all
    then have "2 ^ m - 1 < (2 :: nat) ^ 32" by simp
    moreover have "ms_n ?s = of_nat (2 ^ m - 1)" using ok by (simp add: ms_ok_def mask_eq_exp_minus_1 of_nat_diff)
    ultimately show ?thesis unfolding \<open>ms_n ?s = of_nat ?N\<close> unat_of_nat by (intro mod_less) simp
  qed
  obtain ts where ts: "length ts = m" "maximal ts" "ms_bits m a \<noteq> zeros_of (ms_bits m a)"
    "map (\<lambda>b. bit b 0) (outputs ?N ?s) = period_bits ts (ms_bits m a)"
    using outputs_period [OF assms(1-5)] by blast
  have lv: "length (ms_bits m a) = length ts" using ts(1) by simp
  obtain q where q: "push_all bsequence_push (outputs ?N ?s) (bsequence_clear bs) = Some q" "sized ?N q" "bs_bits q = period_bits ts (ms_bits m a)"
    using bseq.filled [of ?N "bsequence_clear bs" "outputs ?N ?s"] clear_ok [OF assms(6)] assms(7) ts(4) by (auto simp: sized_def)
  have init: "bsequence_init_msequence bs ?s = Some (q, advance_n ?N ?s)"
    unfolding bsequence_init_msequence_def init_loop_outputs len using q(1) by simp
  have qok: "bs_ok q" "bs_num_bits q = ?N" using q(2) by (simp_all add: sized_def)
  have "\<exists>q'. turns j q = Some q' \<and> bsequence_correlate q q' = Some (if j = 0 then 2 ^ m - 1 else 2 ^ (m - 1) - 1)" if j: "j < ?N" for j
  proof -
    obtain q' where q': "turns j q = Some q'" "bs_ok q'" "bs_num_bits q' = bs_num_bits q" "bs_bits q' = rotate j (bs_bits q)"
      using turns_bits [OF qok(1)] by blast
    have same: "agreements xs xs = length xs" for xs by (induction xs) (simp_all add: agreements_def)
    have "length (bs_bits q) = ?N" using qok(2) by simp
    then have "agreements (bs_bits q) (rotate j (bs_bits q)) = (if j = 0 then ?N else 2 ^ (m - 1) - 1)"
      using period_agreements [OF ts(2) lv ts(3), of j] same j ts(1) by (simp add: q(3))
    then show ?thesis using q' correlate_bits [OF qok(1) q'(2)] by (auto simp: of_nat_diff)
  qed
  moreover have "bsequence_accumulate q = 2 ^ (m - 1)"
    using accumulate_bits [OF qok(1)] period_ones [OF ts(2) lv ts(3)] ts(1) by (simp add: q(3))
  moreover have "ms_v (advance_n ?N ?s) = a"
  proof -
    have v: "ms_v ?s = a" and t: "take_bit m a = a" and max: "maximal (ms_bits m (ms_g ?s))"
      using ok by (simp_all add: ms_ok_def msequence_set_state_def)
    have "ms_bits m (ms_v (advance_n ?N ?s)) = ms_bits m a"
      using advance_n_bits [OF ok, of ?N] maximal_orbit(2) [OF max, of "ms_bits m a"] ts(3) v by simp
    then show ?thesis using ms_bits_inj advance_n_bits [OF ok, of ?N] t by blast
  qed
  ultimately show ?thesis using init by (simp add: msequence_get_state_def)
qed

lemma msequence_period_witness:
  "\<exists>ms. msequence_create_default 4 = Some ms \<and>
    bij_betw (\<lambda>i. ms_v (advance_n i (msequence_set_state ms 5))) {..<2 ^ 4 - 1} {v. 0 < v \<and> v < 2 ^ 4} \<and>
    ms_v (advance_n (2 ^ 4 - 1) (msequence_set_state ms 5)) = 5 \<and>
    length (filter (\<lambda>i. fst (msequence_advance (advance_n i (msequence_set_state ms 5))) = 1) [0..<2 ^ 4 - 1]) = 2 ^ (4 - 1)"
proof -
  have "msequence_create_default 4 = Some (msequence_default ! 4)"
    by (simp add: msequence_create_default_def LIQUID_MAX_MSEQUENCE_M_def LIQUID_MIN_MSEQUENCE_M_def)
  moreover note msequence_period [OF _ _ this, of 5]
  ultimately show ?thesis by simp
qed

lemma msequence_correlation_witness:
  "\<exists>ms q ms' q'. msequence_create_default 5 = Some ms \<and>
    bsequence_init_msequence (some_bits 31) (msequence_set_state ms 7) = Some (q, ms') \<and> msequence_get_state ms' = 7 \<and>
    bsequence_accumulate q = 16 \<and> turns 9 q = Some q' \<and> bsequence_correlate q q' = Some 15"
proof -
  have c: "msequence_create_default 5 = Some (msequence_default ! 5)"
    by (simp add: msequence_create_default_def LIQUID_MAX_MSEQUENCE_M_def LIQUID_MIN_MSEQUENCE_M_def)
  have n: "bs_ok (some_bits 31)" "bs_num_bits (some_bits 31) = 2 ^ 5 - 1" using some_bits_ok [of 31] by simp_all
  obtain q ms' where q: "bsequence_init_msequence (some_bits 31) (msequence_set_state (msequence_default ! 5) 7) = Some (q, ms')"
    "msequence_get_state ms' = 7" "bsequence_accumulate q = 2 ^ (5 - 1)"
    "\<forall>j < 2 ^ 5 - 1. \<exists>q'. turns j q = Some q' \<and> bsequence_correlate q q' = Some (if j = 0 then 2 ^ 5 - 1 else 2 ^ (5 - 1) - 1)"
    using msequence_correlation [OF _ _ c _ _ n, of 7] by auto
  have "(9 :: nat) < 2 ^ 5 - 1" by simp
  then obtain q' where "turns 9 q = Some q'" "bsequence_correlate q q' = Some (if 9 = (0 :: nat) then 2 ^ 5 - 1 else 2 ^ (5 - 1) - 1)"
    using q(4) by blast
  then show ?thesis using c q(1-3) by (intro exI [of _ "msequence_default ! 5"] exI [of _ q] exI [of _ ms'] exI [of _ q']) simp
qed


text \<open>The table of default registers and the generator polynomials of the header agree.\<close>

lemma genpoly_default: "map msequence_create_genpoly LIQUID_MSEQUENCE_GENPOLY = map msequence_create_default [2..<16]"
  by (simp add: upt_conv_Cons LIQUID_MSEQUENCE_GENPOLY_def msequence_create_genpoly_def liquid_msb_index_bit_width msequence_create_def
      reverse_state_def msequence_create_default_def msequence_default_def LIQUID_MAX_MSEQUENCE_M_def LIQUID_MIN_MSEQUENCE_M_def ms_row_def)
end
