(* ===== verification/Modem_Schemes.thy ===== *)
theory Modem_Schemes
  imports Fec_Rep
begin

unbundle bit_operations_syntax

text \<open>
  \<^verbatim>\<open>liquid_dsp/src/modem/src/modem_utilities.c\<close>: the table of the modulation schemes, Gray coding of symbols
  and the soft bits of a symbol. The modulators themselves compute with floating-point numbers and are not
  modelled.
\<close>

section \<open>Schemes\<close>

datatype modulation_scheme =
    MODEM_UNKNOWN | MODEM_PSK2 | MODEM_PSK4 | MODEM_PSK8 | MODEM_PSK16 | MODEM_PSK32 |
    MODEM_PSK64 | MODEM_PSK128 | MODEM_PSK256 | MODEM_DPSK2 | MODEM_DPSK4 | MODEM_DPSK8 |
    MODEM_DPSK16 | MODEM_DPSK32 | MODEM_DPSK64 | MODEM_DPSK128 | MODEM_DPSK256 | MODEM_ASK2 |
    MODEM_ASK4 | MODEM_ASK8 | MODEM_ASK16 | MODEM_ASK32 | MODEM_ASK64 | MODEM_ASK128 |
    MODEM_ASK256 | MODEM_QAM4 | MODEM_QAM8 | MODEM_QAM16 | MODEM_QAM32 | MODEM_QAM64 |
    MODEM_QAM128 | MODEM_QAM256 | MODEM_APSK4 | MODEM_APSK8 | MODEM_APSK16 | MODEM_APSK32 |
    MODEM_APSK64 | MODEM_APSK128 | MODEM_APSK256 | MODEM_BPSK | MODEM_QPSK | MODEM_OOK |
    MODEM_SQAM32 | MODEM_SQAM128 | MODEM_V29 | MODEM_ARB16OPT | MODEM_ARB32OPT | MODEM_ARB64OPT |
    MODEM_ARB128OPT | MODEM_ARB256OPT | MODEM_ARB64VT | MODEM_ARB

text \<open>Name, full name, scheme and bits per symbol, in the order of the enumeration.\<close>

definition modulation_types :: "(string \<times> string \<times> modulation_scheme \<times> nat) list" where
  "modulation_types = [
    (''unknown'', ''unkown'', MODEM_UNKNOWN, 0),
    (''psk2'', ''phase-shift keying (2)'', MODEM_PSK2, 1),
    (''psk4'', ''phase-shift keying (4)'', MODEM_PSK4, 2),
    (''psk8'', ''phase-shift keying (8)'', MODEM_PSK8, 3),
    (''psk16'', ''phase-shift keying (16)'', MODEM_PSK16, 4),
    (''psk32'', ''phase-shift keying (32)'', MODEM_PSK32, 5),
    (''psk64'', ''phase-shift keying (64)'', MODEM_PSK64, 6),
    (''psk128'', ''phase-shift keying (128)'', MODEM_PSK128, 7),
    (''psk256'', ''phase-shift keying (256)'', MODEM_PSK256, 8),
    (''dpsk2'', ''differential phase-shift keying (2)'', MODEM_DPSK2, 1),
    (''dpsk4'', ''differential phase-shift keying (4)'', MODEM_DPSK4, 2),
    (''dpsk8'', ''differential phase-shift keying (8)'', MODEM_DPSK8, 3),
    (''dpsk16'', ''differential phase-shift keying (16)'', MODEM_DPSK16, 4),
    (''dpsk32'', ''differential phase-shift keying (32)'', MODEM_DPSK32, 5),
    (''dpsk64'', ''differential phase-shift keying (64)'', MODEM_DPSK64, 6),
    (''dpsk128'', ''differential phase-shift keying (128)'', MODEM_DPSK128, 7),
    (''dpsk256'', ''differential phase-shift keying (256)'', MODEM_DPSK256, 8),
    (''ask2'', ''amplitude-shift keying (2)'', MODEM_ASK2, 1),
    (''ask4'', ''amplitude-shift keying (4)'', MODEM_ASK4, 2),
    (''ask8'', ''amplitude-shift keying (8)'', MODEM_ASK8, 3),
    (''ask16'', ''amplitude-shift keying (16)'', MODEM_ASK16, 4),
    (''ask32'', ''amplitude-shift keying (32)'', MODEM_ASK32, 5),
    (''ask64'', ''amplitude-shift keying (64)'', MODEM_ASK64, 6),
    (''ask128'', ''amplitude-shift keying (128)'', MODEM_ASK128, 7),
    (''ask256'', ''amplitude-shift keying (256)'', MODEM_ASK256, 8),
    (''qam4'', ''quadrature amplitude-shift keying (4)'', MODEM_QAM4, 2),
    (''qam8'', ''quadrature amplitude-shift keying (8)'', MODEM_QAM8, 3),
    (''qam16'', ''quadrature amplitude-shift keying (16)'', MODEM_QAM16, 4),
    (''qam32'', ''quadrature amplitude-shift keying (32)'', MODEM_QAM32, 5),
    (''qam64'', ''quadrature amplitude-shift keying (64)'', MODEM_QAM64, 6),
    (''qam128'', ''quadrature amplitude-shift keying (128)'', MODEM_QAM128, 7),
    (''qam256'', ''quadrature amplitude-shift keying (256)'', MODEM_QAM256, 8),
    (''apsk4'', ''amplitude/phase-shift keying (4)'', MODEM_APSK4, 2),
    (''apsk8'', ''amplitude/phase-shift keying (8)'', MODEM_APSK8, 3),
    (''apsk16'', ''amplitude/phase-shift keying (16)'', MODEM_APSK16, 4),
    (''apsk32'', ''amplitude/phase-shift keying (32)'', MODEM_APSK32, 5),
    (''apsk64'', ''amplitude/phase-shift keying (64)'', MODEM_APSK64, 6),
    (''apsk128'', ''amplitude/phase-shift keying (128)'', MODEM_APSK128, 7),
    (''apsk256'', ''amplitude/phase-shift keying (256)'', MODEM_APSK256, 8),
    (''bpsk'', ''binary phase-shift keying'', MODEM_BPSK, 1),
    (''qpsk'', ''quaternary phase-shift keying'', MODEM_QPSK, 2),
    (''ook'', ''ook (on/off keying)'', MODEM_OOK, 1),
    (''sqam32'', ([CHR 0x27] @ ''square'' @ [CHR 0x27] @ '' 32-QAM''), MODEM_SQAM32, 5),
    (''sqam128'', ([CHR 0x27] @ ''square'' @ [CHR 0x27] @ '' 128-QAM''), MODEM_SQAM128, 7),
    (''V29'', ''V.29'', MODEM_V29, 4),
    (''arb16opt'', ''arb16opt (optimal 16-qam)'', MODEM_ARB16OPT, 4),
    (''arb32opt'', ''arb32opt (optimal 32-qam)'', MODEM_ARB32OPT, 5),
    (''arb64opt'', ''arb64opt (optimal 64-qam)'', MODEM_ARB64OPT, 6),
    (''arb128opt'', ''arb128opt (optimal 128-qam)'', MODEM_ARB128OPT, 7),
    (''arb256opt'', ''arb256opt (optimal 256-qam)'', MODEM_ARB256OPT, 8),
    (''arb64vt'', ''arb64vt (64-qam vt logo)'', MODEM_ARB64VT, 6),
    (''arb'', ''arbitrary constellation'', MODEM_ARB, 0)]"

definition LIQUID_MODEM_NUM_SCHEMES :: nat where "LIQUID_MODEM_NUM_SCHEMES = 52"
definition MAX_MOD_BITS_PER_SYMBOL :: nat where "MAX_MOD_BITS_PER_SYMBOL = 8"

text \<open>The values of an enumeration are the positions in its list.\<close>

definition index_of :: "'a list \<Rightarrow> 'a \<Rightarrow> nat" where
  "index_of xs x = length (takeWhile (\<lambda>y. y \<noteq> x) xs)"

lemma index_of_nth: "x \<in> set xs \<Longrightarrow> index_of xs x < length xs \<and> xs ! index_of xs x = x"
  by (induction xs) (auto simp: index_of_def)

definition modem_schemes :: "modulation_scheme list" where
  "modem_schemes = map (\<lambda>(name, fullname, scheme, bps). scheme) modulation_types"

definition modem_num :: "modulation_scheme \<Rightarrow> nat" where
  "modem_num s = index_of modem_schemes s"

definition modem_of_num :: "nat \<Rightarrow> modulation_scheme" where
  "modem_of_num k = modem_schemes ! k"

definition modem_bps :: "modulation_scheme \<Rightarrow> nat" where
  "modem_bps s = snd (snd (snd (modulation_types ! modem_num s)))"

fun str2mod_loop :: "string \<Rightarrow> nat list \<Rightarrow> modulation_scheme" where
  "str2mod_loop str [] = MODEM_UNKNOWN"
| "str2mod_loop str (i # is) = (if str = fst (modulation_types ! i) then modem_of_num i else str2mod_loop str is)"

definition liquid_getopt_str2mod :: "string \<Rightarrow> modulation_scheme" where
  "liquid_getopt_str2mod str = str2mod_loop str [0..<LIQUID_MODEM_NUM_SCHEMES]"

definition liquid_modem_is_psk :: "modulation_scheme \<Rightarrow> bool" where
  "liquid_modem_is_psk s \<longleftrightarrow>
     s \<in> {MODEM_PSK2, MODEM_PSK4, MODEM_PSK8, MODEM_PSK16, MODEM_PSK32, MODEM_PSK64, MODEM_PSK128, MODEM_PSK256}"

definition liquid_modem_is_dpsk :: "modulation_scheme \<Rightarrow> bool" where
  "liquid_modem_is_dpsk s \<longleftrightarrow>
     s \<in> {MODEM_DPSK2, MODEM_DPSK4, MODEM_DPSK8, MODEM_DPSK16, MODEM_DPSK32, MODEM_DPSK64, MODEM_DPSK128, MODEM_DPSK256}"

definition liquid_modem_is_ask :: "modulation_scheme \<Rightarrow> bool" where
  "liquid_modem_is_ask s \<longleftrightarrow>
     s \<in> {MODEM_ASK2, MODEM_ASK4, MODEM_ASK8, MODEM_ASK16, MODEM_ASK32, MODEM_ASK64, MODEM_ASK128, MODEM_ASK256}"

definition liquid_modem_is_qam :: "modulation_scheme \<Rightarrow> bool" where
  "liquid_modem_is_qam s \<longleftrightarrow>
     s \<in> {MODEM_QAM4, MODEM_QAM8, MODEM_QAM16, MODEM_QAM32, MODEM_QAM64, MODEM_QAM128, MODEM_QAM256}"

definition liquid_modem_is_apsk :: "modulation_scheme \<Rightarrow> bool" where
  "liquid_modem_is_apsk s \<longleftrightarrow>
     s \<in> {MODEM_APSK4, MODEM_APSK8, MODEM_APSK16, MODEM_APSK32, MODEM_APSK64, MODEM_APSK128, MODEM_APSK256}"

lemma all_schemes: "s \<in> set modem_schemes"
  by (cases s) (simp_all add: modem_schemes_def modulation_types_def)

lemma length_modem_schemes [simp]: "length modem_schemes = 52"
  by (simp add: modem_schemes_def modulation_types_def)

lemma modem_num_less: "modem_num s < 52"
  using index_of_nth [OF all_schemes [of s]] by (simp add: modem_num_def)

lemma modem_of_num_num [simp]: "modem_of_num (modem_num s) = s"
  using index_of_nth [OF all_schemes [of s]] by (simp add: modem_num_def modem_of_num_def)

lemma modem_bps_le: "modem_bps s \<le> 8"
proof -
  have "list_all (\<lambda>r. snd (snd (snd r)) \<le> 8) modulation_types" by (simp add: modulation_types_def)
  moreover have "modem_num s < length modulation_types" using modem_num_less [of s] by (simp add: modulation_types_def)
  ultimately show ?thesis unfolding modem_bps_def by (simp add: list_all_length)
qed

lemma modem_bps_BPSK [simp]: "modem_bps MODEM_BPSK = 1" and modem_bps_QPSK [simp]: "modem_bps MODEM_QPSK = 2"
  by (simp_all add: modem_bps_def modem_num_def index_of_def modem_schemes_def modulation_types_def)

section \<open>Gray coding\<close>

definition gray_encode :: "u32 \<Rightarrow> u32" where
  "gray_encode s = s XOR drop_bit 1 s"

fun gray_loop :: "nat list \<Rightarrow> u32 \<Rightarrow> u32 \<Rightarrow> u32" where
  "gray_loop [] m out = out"
| "gray_loop (i # is) m out =
     (let out = out XOR drop_bit 1 m;
          out = out XOR drop_bit 2 m;
          out = out XOR drop_bit 3 m;
          out = out XOR drop_bit 4 m
      in gray_loop is (drop_bit 4 m) out)"

definition gray_decode :: "u32 \<Rightarrow> u32" where
  "gray_decode s = gray_loop [i\<leftarrow>[0..<MAX_MOD_BITS_PER_SYMBOL]. i mod 4 = 0] s s"

lemma gray_decode_bits: "bit (gray_decode s) i \<longleftrightarrow> odd (length (filter (\<lambda>k. bit s (i + k)) [0..<9]))"
proof -
  have "[i\<leftarrow>[0..<MAX_MOD_BITS_PER_SYMBOL]. i mod 4 = 0] = [0, 4]"
    by (simp add: MAX_MOD_BITS_PER_SYMBOL_def upt_rec)
  moreover have "[0..<9] = [0, 1, 2, 3, 4, 5, 6, 7, 8 :: nat]" by (simp add: upt_rec)
  ultimately show ?thesis
    by (simp add: gray_decode_def bit_xor_iff bit_drop_bit_eq add.commute)
qed

lemma telescope: "odd (length (filter (\<lambda>k. f k \<noteq> f (Suc k)) [0..<n])) \<longleftrightarrow> f 0 \<noteq> f n" for f :: "nat \<Rightarrow> bool"
  by (induction n) auto

lemma gray_decode_encode: "bit (gray_decode (gray_encode s)) i \<longleftrightarrow> (bit s i \<noteq> bit s (i + 9))"
proof -
  have "bit (gray_encode s) (i + k) \<longleftrightarrow> (bit s (i + k) \<noteq> bit s (i + Suc k))" for k
    by (simp add: gray_encode_def bit_xor_iff bit_drop_bit_eq)
  then show ?thesis unfolding gray_decode_bits using telescope [of "\<lambda>k. bit s (i + k)" 9] by simp
qed

lemma gray_encode_decode: "bit (gray_encode (gray_decode s)) i \<longleftrightarrow> (bit s i \<noteq> bit s (i + 9))"
proof -
  have "bit (gray_encode (gray_decode s)) i \<longleftrightarrow> odd (length (filter (\<lambda>k. bit s (i + k) \<noteq> bit s (i + Suc k)) [0..<9]))"
    unfolding odd_length_filter_neq by (simp add: gray_encode_def bit_xor_iff bit_drop_bit_eq gray_decode_bits)
  then show ?thesis using telescope [of "\<lambda>k. bit s (i + k)" 9] by simp
qed

text \<open>A number and its successor differ in their last bits up to the first zero.\<close>

lemma xor_Suc: "\<exists>k. n XOR Suc n = mask (Suc k)" for n :: nat
proof (induction n rule: less_induct)
  case (less n)
  show ?case
  proof (cases "even n")
    case True
    then have "n XOR Suc n = mask (Suc 0)" by (auto elim!: evenE simp: xor_nat_rec [of _ "Suc _"] mask_Suc_double)
    then show ?thesis by blast
  next
    case False
    then obtain m where m: "n = 2 * m + 1" by (auto elim: oddE)
    obtain k where "m XOR Suc m = mask (Suc k)" using less.IH [of m] m by auto
    then have "n XOR Suc n = mask (Suc (Suc k))"
      by (simp add: m xor_nat_rec [of "Suc (2 * m)"] mask_Suc_double [of "Suc k"] Suc_0_or_eq)
    then show ?thesis by blast
  qed
qed


definition LIQUID_SOFTBIT_0 :: u8 where "LIQUID_SOFTBIT_0 = 0"
definition LIQUID_SOFTBIT_1 :: u8 where "LIQUID_SOFTBIT_1 = 255"

definition liquid_pack_soft_bits :: "bytes \<Rightarrow> nat \<Rightarrow> u32 option" where
  "liquid_pack_soft_bits soft_bits bps =
     (if bps > MAX_MOD_BITS_PER_SYMBOL then None
      else Some (fold (\<lambda>i s. push_bit 1 s OR (if unat (soft_bits ! i) > LIQUID_SOFTBIT_ERASURE then 1 else 0)) [0..<bps] 0))"

definition liquid_unpack_soft_bits :: "u32 \<Rightarrow> nat \<Rightarrow> bytes option" where
  "liquid_unpack_soft_bits sym_in bps =
     (if bps > MAX_MOD_BITS_PER_SYMBOL then None
      else Some (map (\<lambda>i. if drop_bit (bps - i - 1) sym_in AND 1 \<noteq> 0 then LIQUID_SOFTBIT_1 else LIQUID_SOFTBIT_0) [0..<bps]))"

lemma pack_soft_fold:
  "k \<le> 8 \<Longrightarrow> bit (fold (\<lambda>i s. push_bit 1 s OR (if P i then 1 else 0)) [0..<k] (0 :: u32)) j \<longleftrightarrow> j < k \<and> P (k - 1 - j)"
proof (induction k arbitrary: j)
  case (Suc k)
  have "bit (push_bit 1 w OR (if P k then 1 else 0) :: u32) j \<longleftrightarrow> (if j = 0 then P k else j < 32 \<and> bit w (j - 1))" for w
    by (cases "P k") (auto simp add: bit_or_iff bit_push_bit_iff bit_1_iff simp del: push_bit_numeral push_bit_Suc push_bit_of_1)
  then show ?case using Suc by (cases j) auto
qed simp

lemma gray_step: "s \<noteq> -1 \<Longrightarrow> ones (gray_encode s XOR gray_encode (s + 1)) = 1"
proof -
  assume "s \<noteq> -1"
  then have "unat s \<noteq> 2 ^ 32 - 1" by (auto simp: word_unat_eq_iff unsigned_minus_1_eq_mask mask_eq_exp_minus_1)
  then have "unat s + 1 < 2 ^ 32" proof -
    have "unat s < 2 ^ 32" using unsigned_less [of s] by simp
    then show ?thesis using \<open>unat s \<noteq> 2 ^ 32 - 1\<close> by simp
  qed
  then have u: "unat (s + 1) = Suc (unat s)" by (simp add: unat_word_ariths(1))
  obtain k where k: "unat s XOR Suc (unat s) = mask (Suc k)" using xor_Suc by blast
  have x: "bit (s XOR (s + 1)) i \<longleftrightarrow> i \<le> k" if "i < 32" for i
  proof -
    have "bit (unat (s XOR (s + 1))) i \<longleftrightarrow> i \<le> k" unfolding unsigned_xor_eq u k by (auto simp: bit_mask_iff)
    then show ?thesis using that by (simp add: bit_unsigned_iff)
  qed
  have "k < 32"
  proof (rule ccontr)
    assume "\<not> k < 32"
    then have "bit (unat s XOR Suc (unat s)) k" unfolding k by (simp add: bit_mask_iff)
    then have "bit (unat (s XOR (s + 1))) k" by (simp only: unsigned_xor_eq u)
    then show False using \<open>\<not> k < 32\<close> by (auto simp: bit_unsigned_iff dest: bit_imp_le_length)
  qed
  define X where "X = s XOR (s + 1)"
  have X: "bit X i \<longleftrightarrow> i \<le> k" for i
    using x [of i] \<open>k < 32\<close> unfolding X_def by (cases "i < 32") (auto dest: bit_imp_le_length)
  have "gray_encode s XOR gray_encode (s + 1) = X XOR drop_bit 1 X"
    by (rule bit_word_eqI) (auto simp: X_def gray_encode_def bit_xor_iff bit_drop_bit_eq)
  moreover have "bit (X XOR drop_bit 1 X) i \<longleftrightarrow> i = k" for i
    by (auto simp: bit_xor_iff bit_drop_bit_eq X)
  ultimately have "ones (gray_encode s XOR gray_encode (s + 1)) = length (filter (\<lambda>i. i = k) [0..<32])"
    unfolding ones_def by (intro arg_cong [of _ _ length] filter_cong) auto
  also have "\<dots> = 1" using \<open>k < 32\<close> by (simp add: distinct_length_filter)
  finally show ?thesis .
qed

lemma soft_bits_roundtrip:
  assumes "bps \<le> 8" "s < 2 ^ bps"
  shows "\<exists>soft. liquid_unpack_soft_bits s bps = Some soft \<and> liquid_pack_soft_bits soft bps = Some s"
proof -
  let ?f = "\<lambda>i. if drop_bit (bps - i - 1) s AND 1 \<noteq> 0 then LIQUID_SOFTBIT_1 else LIQUID_SOFTBIT_0"
  have odd: "drop_bit j s AND 1 \<noteq> 0 \<longleftrightarrow> bit s j" for j
    by (simp add: bit_iff_odd_drop_bit and_one_eq odd_iff_mod_2_eq_one)
  have "fold (\<lambda>i s. push_bit 1 s OR (if unat (map ?f [0..<bps] ! i) > LIQUID_SOFTBIT_ERASURE then 1 else 0)) [0..<bps] 0 =
      fold (\<lambda>i s. push_bit 1 s OR (if bit (s0 :: u32) (bps - 1 - i) then 1 else 0)) [0..<bps] 0" if "s0 = s" for s0
    using that by (intro fold_cong) (auto simp: odd LIQUID_SOFTBIT_1_def LIQUID_SOFTBIT_0_def LIQUID_SOFTBIT_ERASURE_def fun_eq_iff)
  also have "fold (\<lambda>i s'. push_bit 1 s' OR (if bit s (bps - 1 - i) then 1 else 0)) [0..<bps] (0 :: u32) = s"
  proof (rule bit_word_eqI)
    fix j assume "j < LENGTH(32)"
    have "take_bit bps s = s" using assms take_bit_self [of bps s] by simp
    then have "bit s j \<Longrightarrow> j < bps" by (metis bit_take_bit_iff)
    then show "bit (fold (\<lambda>i s'. push_bit 1 s' OR (if bit s (bps - 1 - i) then 1 else 0)) [0..<bps] (0 :: u32)) j \<longleftrightarrow> bit s j"
      using pack_soft_fold [OF assms(1), of "\<lambda>i. bit s (bps - 1 - i)" j] by (auto simp: Suc_diff_Suc)
  qed
  finally show ?thesis using assms(1)
    by (auto simp: liquid_unpack_soft_bits_def liquid_pack_soft_bits_def MAX_MOD_BITS_PER_SYMBOL_def)
qed

text \<open>
  C39: Gray coding. Encoding and decoding undo each other on every symbol of at most 9 bits, and a symbol of 10 bits,
  \<open>2 ^ 9\<close>, is not decoded to itself; the codes of a number and its successor differ in exactly one bit; packing
  the soft bits of a symbol of at most 8 bits gives the symbol.
\<close>

theorem gray_code_correct:
  shows "(s < 2 ^ 9 \<longrightarrow> gray_decode (gray_encode s) = s \<and> gray_encode (gray_decode s) = s) \<and>
    gray_decode (gray_encode (2 ^ 9)) \<noteq> 2 ^ 9 \<and>
    (s \<noteq> -1 \<longrightarrow> ones (gray_encode s XOR gray_encode (s + 1)) = 1) \<and>
    (bps \<le> 8 \<and> s < 2 ^ bps \<longrightarrow> (\<exists>soft. liquid_unpack_soft_bits s bps = Some soft \<and> liquid_pack_soft_bits soft bps = Some s))"
proof (intro conjI impI)
  show "gray_decode (gray_encode (2 ^ 9)) \<noteq> 2 ^ 9"
    using gray_decode_encode [of "2 ^ 9" 0] by (auto simp: bit_exp_iff dest: arg_cong [of _ _ "\<lambda>w. bit w 0"])
  assume "s < 2 ^ 9"
  then have "take_bit 9 s = s" using take_bit_self [of 9 s] by simp
  then have "\<not> bit s (i + 9)" for i by (metis bit_take_bit_iff not_add_less2)
  then show "gray_decode (gray_encode s) = s" "gray_encode (gray_decode s) = s"
    by (auto intro!: bit_word_eqI simp: gray_decode_encode gray_encode_decode)
qed (use gray_step soft_bits_roundtrip in blast)+

theorem gray_code_correct_witness:
  "gray_decode (gray_encode 0x1a5) = 0x1a5 \<and> ones (gray_encode 0x1a5 XOR gray_encode 0x1a6) = 1 \<and>
    (\<exists>soft. liquid_unpack_soft_bits 5 4 = Some soft \<and> liquid_pack_soft_bits soft 4 = Some 5)"
  using gray_code_correct [of "0x1a5" 0] gray_code_correct [of 5 4] by simp

end
