(* ===== verification/Modem_Linear.thy ===== *)
theory Modem_Linear
  imports Modem_Schemes Complex_Main
begin

unbundle bit_operations_syntax

text \<open>
  The modems of \<^verbatim>\<open>liquid_dsp/src/modem/src\<close> that map a symbol to a point of the plane and decide by thresholds:
  \<^verbatim>\<open>modem_bpsk.c\<close>, \<^verbatim>\<open>modem_qpsk.c\<close>, \<^verbatim>\<open>modem_ook.c\<close>, \<^verbatim>\<open>modem_ask.c\<close>, \<^verbatim>\<open>modem_qam.c\<close>, \<^verbatim>\<open>modem_psk.c\<close> and what they use of
  \<^verbatim>\<open>modem_common.c\<close>. Values are real and complex numbers instead of their floating-point approximations. The two
  function pointers of an object always belong together, so they are one value \<open>modem_fun\<close>, which each constructor
  gives to \<open>modem_init\<close>; the scaling factors of the union are one field \<open>lm_alpha\<close>, fields a constructor
  does not set are 0. The tables of the soft demodulators are not modelled.
\<close>

section \<open>Objects\<close>

datatype modem_fun = FUN_BPSK | FUN_QPSK | FUN_OOK | FUN_ASK | FUN_QAM | FUN_PSK

record modem_s =
  lm_scheme :: modulation_scheme
  lm_m :: nat
  lm_M :: nat
  lm_ref :: "real list"
  lm_symbol_map :: "complex list option"
  lm_r :: complex
  lm_x_hat :: complex
  lm_alpha :: real
  lm_d_phi :: real
  lm_m_i :: nat
  lm_m_q :: nat
  lm_M_i :: nat
  lm_M_q :: nat
  lm_fun :: modem_fun

definition modem_init :: "modulation_scheme \<Rightarrow> modem_fun \<Rightarrow> nat \<Rightarrow> modem_s option" where
  "modem_init s f bps =
     (if bps < 1 \<or> bps > MAX_MOD_BITS_PER_SYMBOL then None
      else Some \<lparr>lm_scheme = s, lm_m = bps, lm_M = 2 ^ bps, lm_ref = [], lm_symbol_map = None, lm_r = 0, lm_x_hat = 0,
        lm_alpha = 0, lm_d_phi = 0, lm_m_i = 0, lm_m_q = 0, lm_M_i = 0, lm_M_q = 0, lm_fun = f\<rparr>)"

definition modem_reset :: "modem_s \<Rightarrow> modem_s" where
  "modem_reset q = q\<lparr>lm_r := 1, lm_x_hat := 1\<rparr>"

definition M_SQRT1_2 :: real where "M_SQRT1_2 = 1 / sqrt 2"

section \<open>Modulation\<close>

definition modulate_bpsk :: "nat \<Rightarrow> complex" where
  "modulate_bpsk sm = (if sm \<noteq> 0 then -1 else 1)"

definition modulate_qpsk :: "nat \<Rightarrow> complex" where
  "modulate_qpsk sm = of_real (if sm AND 0x01 \<noteq> 0 then - M_SQRT1_2 else M_SQRT1_2) +
     of_real (if sm AND 0x02 \<noteq> 0 then - M_SQRT1_2 else M_SQRT1_2) * \<i>"

definition modulate_ook :: "nat \<Rightarrow> complex" where
  "modulate_ook sm = (if sm \<noteq> 0 then 0 else of_real (sqrt 2))"

text \<open>The Gray codes of \<^verbatim>\<open>modem_utilities.c\<close>, on numbers.\<close>

abbreviation gray_dec :: "nat \<Rightarrow> nat" where "gray_dec v \<equiv> unat (gray_decode (of_nat v))"
abbreviation gray_enc :: "nat \<Rightarrow> nat" where "gray_enc v \<equiv> unat (gray_encode (of_nat v))"

definition modulate_ask :: "modem_s \<Rightarrow> nat \<Rightarrow> complex" where
  "modulate_ask q sm =
     (let s = gray_dec sm in of_real (of_int (2 * int s - int (lm_M q) + 1) * lm_alpha q))"

definition modulate_psk :: "modem_s \<Rightarrow> nat \<Rightarrow> complex" where
  "modulate_psk q sm = (let s = gray_dec sm in cis (of_nat (s * 2) * lm_alpha q))"

definition modulate_qam :: "modem_s \<Rightarrow> nat \<Rightarrow> complex" where
  "modulate_qam q sm =
     (let s_i = drop_bit (lm_m_q q) sm;
          s_q = sm AND (2 ^ lm_m_q q - 1);
          s_i = gray_dec s_i;
          s_q = gray_dec s_q
      in of_real (of_int (2 * int s_i - int (lm_M_i q) + 1) * lm_alpha q) +
         of_real (of_int (2 * int s_q - int (lm_M_q q) + 1) * lm_alpha q) * \<i>)"

definition modulate_by :: "modem_fun \<Rightarrow> modem_s \<Rightarrow> nat \<Rightarrow> complex" where
  "modulate_by f q sm =
     (case f of FUN_BPSK \<Rightarrow> modulate_bpsk sm | FUN_QPSK \<Rightarrow> modulate_qpsk sm | FUN_OOK \<Rightarrow> modulate_ook sm
      | FUN_ASK \<Rightarrow> modulate_ask q sm | FUN_QAM \<Rightarrow> modulate_qam q sm | FUN_PSK \<Rightarrow> modulate_psk q sm)"

definition modem_modulate :: "modem_s \<Rightarrow> nat \<Rightarrow> complex option" where
  "modem_modulate q sm =
     (if sm \<ge> lm_M q then None
      else case lm_symbol_map q of
          Some tab \<Rightarrow> Some (tab ! sm)
        | None \<Rightarrow> Some (modulate_by (lm_fun q) q sm))"

definition modem_init_map :: "modem_s \<Rightarrow> modem_s option" where
  "modem_init_map q =
     (if lm_M q = 0 \<or> lm_M q > 2 ^ MAX_MOD_BITS_PER_SYMBOL then None
      else Some (q\<lparr>lm_symbol_map := Some (map (modulate_by (lm_fun q) q) [0..<lm_M q])\<rparr>))"

section \<open>Demodulation\<close>

text \<open>Thresholds of a linear array; \<open>k\<close> counts the bits that are left. The result is the symbol and the residual.\<close>

fun demodulate_linear_array_ref :: "real list \<Rightarrow> nat \<Rightarrow> nat \<Rightarrow> real \<Rightarrow> nat \<times> real" where
  "demodulate_linear_array_ref ref 0 s v = (s, v)"
| "demodulate_linear_array_ref ref (Suc k) s v =
     (let s = 2 * s
      in if v > 0 then demodulate_linear_array_ref ref k (s + 1) (v - ref ! k)
         else demodulate_linear_array_ref ref k s (v + ref ! k))"

definition demodulate_bpsk :: "modem_s \<Rightarrow> complex \<Rightarrow> nat \<times> modem_s" where
  "demodulate_bpsk q x = (let sm = (if Re x > 0 then 0 else 1) in (sm, q\<lparr>lm_x_hat := modulate_bpsk sm, lm_r := x\<rparr>))"

definition demodulate_qpsk :: "modem_s \<Rightarrow> complex \<Rightarrow> nat \<times> modem_s" where
  "demodulate_qpsk q x =
     (let sm = (if Re x > 0 then 0 else 1) + (if Im x > 0 then 0 else 2)
      in (sm, q\<lparr>lm_x_hat := modulate_qpsk sm, lm_r := x\<rparr>))"

definition demodulate_ook :: "modem_s \<Rightarrow> complex \<Rightarrow> nat \<times> modem_s" where
  "demodulate_ook q x = (let sm = (if Re x > M_SQRT1_2 then 0 else 1) in (sm, q\<lparr>lm_x_hat := modulate_ook sm, lm_r := x\<rparr>))"

definition demodulate_ask :: "modem_s \<Rightarrow> complex \<Rightarrow> nat \<times> modem_s" where
  "demodulate_ask q x =
     (let (s, res_i) = demodulate_linear_array_ref (lm_ref q) (lm_m q) 0 (Re x);
          sm = gray_enc s
      in (sm, q\<lparr>lm_x_hat := modulate_ask q sm, lm_r := x\<rparr>))"

definition demodulate_qam :: "modem_s \<Rightarrow> complex \<Rightarrow> nat \<times> modem_s" where
  "demodulate_qam q x =
     (let (s_i, res_i) = demodulate_linear_array_ref (lm_ref q) (lm_m_i q) 0 (Re x);
          (s_q, res_q) = demodulate_linear_array_ref (lm_ref q) (lm_m_q q) 0 (Im x);
          s_i = gray_enc s_i;
          s_q = gray_enc s_q
      in (push_bit (lm_m_q q) s_i + s_q, q\<lparr>lm_x_hat := x - (of_real res_i + \<i> * of_real res_q), lm_r := x\<rparr>))"

definition demodulate_psk :: "modem_s \<Rightarrow> complex \<Rightarrow> nat \<times> modem_s" where
  "demodulate_psk q x =
     (let theta = Arg x - lm_d_phi q;
          theta = (if theta < - pi then theta + 2 * pi else theta);
          (s, res) = demodulate_linear_array_ref (lm_ref q) (lm_m q) 0 theta;
          sm = gray_enc s
      in (sm, q\<lparr>lm_x_hat := modulate_psk q sm, lm_r := x\<rparr>))"

definition modem_demodulate :: "modem_s \<Rightarrow> complex \<Rightarrow> nat \<times> modem_s" where
  "modem_demodulate q x =
     (case lm_fun q of FUN_BPSK \<Rightarrow> demodulate_bpsk q x | FUN_QPSK \<Rightarrow> demodulate_qpsk q x | FUN_OOK \<Rightarrow> demodulate_ook q x
      | FUN_ASK \<Rightarrow> demodulate_ask q x | FUN_QAM \<Rightarrow> demodulate_qam q x | FUN_PSK \<Rightarrow> demodulate_psk q x)"

section \<open>Creation\<close>

definition modem_create_bpsk :: "modem_s option" where
  "modem_create_bpsk = map_option modem_reset (modem_init MODEM_BPSK FUN_BPSK 1)"

definition modem_create_qpsk :: "modem_s option" where
  "modem_create_qpsk = map_option modem_reset (modem_init MODEM_QPSK FUN_QPSK 2)"

definition modem_create_ook :: "modem_s option" where
  "modem_create_ook = map_option modem_reset (modem_init MODEM_OOK FUN_OOK 1)"

definition ask_params :: "nat \<Rightarrow> (real \<times> modulation_scheme) option" where
  "ask_params M = map_of
     [(2, 1, MODEM_ASK2), (4, 1 / sqrt 5, MODEM_ASK4), (8, 1 / sqrt 21, MODEM_ASK8), (16, 1 / sqrt 85, MODEM_ASK16),
      (32, 1 / sqrt 341, MODEM_ASK32), (64, 1 / sqrt 1365, MODEM_ASK64), (128, 1 / sqrt 5461, MODEM_ASK128),
      (256, 1 / sqrt 21845, MODEM_ASK256)] M"

definition modem_create_ask :: "nat \<Rightarrow> modem_s option" where
  "modem_create_ask bps = do {
     q \<leftarrow> modem_init MODEM_UNKNOWN FUN_ASK bps;
     (alpha, s) \<leftarrow> ask_params (lm_M q);
     let q = q\<lparr>lm_alpha := alpha, lm_scheme := s, lm_ref := map (\<lambda>k. 2 ^ k * alpha) [0..<lm_m q]\<rparr>;
     Some (modem_reset q)
   }"

definition qam_params :: "nat \<Rightarrow> (real \<times> modulation_scheme) option" where
  "qam_params M = map_of
     [(4, 1 / sqrt 2, MODEM_QAM4), (8, 1 / sqrt 6, MODEM_QAM8), (16, 1 / sqrt 10, MODEM_QAM16), (32, 1 / sqrt 26, MODEM_QAM32),
      (64, 1 / sqrt 42, MODEM_QAM64), (128, 1 / sqrt 106, MODEM_QAM128), (256, 1 / sqrt 170, MODEM_QAM256)] M"

definition modem_create_qam :: "nat \<Rightarrow> modem_s option" where
  "modem_create_qam bps = do {
     q \<leftarrow> modem_init MODEM_UNKNOWN FUN_QAM bps;
     let (m_i, m_q) = (if lm_m q mod 2 \<noteq> 0 then (drop_bit 1 (lm_m q + 1), drop_bit 1 (lm_m q - 1))
                       else (drop_bit 1 (lm_m q), drop_bit 1 (lm_m q)));
     let q = q\<lparr>lm_m_i := m_i, lm_m_q := m_q, lm_M_i := 2 ^ m_i, lm_M_q := 2 ^ m_q\<rparr>;
     (if lm_m_i q + lm_m_q q = lm_m q \<and> lm_M_i q * lm_M_q q = lm_M q then Some () else None);
     (alpha, s) \<leftarrow> qam_params (lm_M q);
     let q = q\<lparr>lm_alpha := alpha, lm_scheme := s, lm_ref := map (\<lambda>k. 2 ^ k * alpha) [0..<lm_m q]\<rparr>;
     q \<leftarrow> modem_init_map q;
     Some (modem_reset q)
   }"

definition psk_schemes :: "modulation_scheme list" where
  "psk_schemes = [MODEM_PSK2, MODEM_PSK4, MODEM_PSK8, MODEM_PSK16, MODEM_PSK32, MODEM_PSK64, MODEM_PSK128, MODEM_PSK256]"

definition modem_create_psk :: "nat \<Rightarrow> modem_s option" where
  "modem_create_psk bps =
     (if bps < 1 \<or> bps > 8 then None
      else do {
        q \<leftarrow> modem_init (psk_schemes ! (bps - 1)) FUN_PSK bps;
        let alpha = pi / of_nat (lm_M q);
        let q = q\<lparr>lm_alpha := alpha, lm_ref := map (\<lambda>k. 2 ^ k * alpha) [0..<lm_m q], lm_d_phi := pi * (1 - 1 / of_nat (lm_M q))\<rparr>;
        q \<leftarrow> modem_init_map q;
        Some (modem_reset q)
      })"

text \<open>Creation of the schemes of this theory.\<close>

definition linear_modem_create :: "modulation_scheme \<Rightarrow> modem_s option" where
  "linear_modem_create s =
     (case s of
        MODEM_PSK2 \<Rightarrow> modem_create_psk 1 | MODEM_PSK4 \<Rightarrow> modem_create_psk 2 | MODEM_PSK8 \<Rightarrow> modem_create_psk 3
      | MODEM_PSK16 \<Rightarrow> modem_create_psk 4 | MODEM_PSK32 \<Rightarrow> modem_create_psk 5 | MODEM_PSK64 \<Rightarrow> modem_create_psk 6
      | MODEM_PSK128 \<Rightarrow> modem_create_psk 7 | MODEM_PSK256 \<Rightarrow> modem_create_psk 8
      | MODEM_ASK2 \<Rightarrow> modem_create_ask 1 | MODEM_ASK4 \<Rightarrow> modem_create_ask 2 | MODEM_ASK8 \<Rightarrow> modem_create_ask 3
      | MODEM_ASK16 \<Rightarrow> modem_create_ask 4 | MODEM_ASK32 \<Rightarrow> modem_create_ask 5 | MODEM_ASK64 \<Rightarrow> modem_create_ask 6
      | MODEM_ASK128 \<Rightarrow> modem_create_ask 7 | MODEM_ASK256 \<Rightarrow> modem_create_ask 8
      | MODEM_QAM4 \<Rightarrow> modem_create_qam 2 | MODEM_QAM8 \<Rightarrow> modem_create_qam 3 | MODEM_QAM16 \<Rightarrow> modem_create_qam 4
      | MODEM_QAM32 \<Rightarrow> modem_create_qam 5 | MODEM_QAM64 \<Rightarrow> modem_create_qam 6 | MODEM_QAM128 \<Rightarrow> modem_create_qam 7
      | MODEM_QAM256 \<Rightarrow> modem_create_qam 8
      | MODEM_BPSK \<Rightarrow> modem_create_bpsk | MODEM_QPSK \<Rightarrow> modem_create_qpsk | MODEM_OOK \<Rightarrow> modem_create_ook
      | _ \<Rightarrow> None)"

section \<open>Gray codes as bijections\<close>

lemma high_bits:
  assumes "v < 2 ^ k" and "k \<le> j"
  shows "\<not> bit (of_nat v :: u32) j"
proof -
  have "v < 2 ^ j" using assms(1) power_increasing [OF assms(2), of "2 :: nat"] by linarith
  then show ?thesis by (simp add: bit_of_nat_iff bit_nat_def)
qed

lemma unat_below:
  assumes "\<And>i. k \<le> i \<Longrightarrow> \<not> bit (w :: u32) i"
  shows "unat w < 2 ^ k"
proof -
  have "take_bit k w = w" by (rule bit_word_eqI) (use assms in \<open>auto simp: bit_take_bit_iff intro: leI\<close>)
  then have "unat w = take_bit k (unat w)" by (metis unsigned_take_bit_eq)
  then show ?thesis by (metis take_bit_nat_less_exp)
qed

lemma gray_width: "v < 2 ^ k \<Longrightarrow> gray_dec v < 2 ^ k" "v < 2 ^ k \<Longrightarrow> gray_enc v < 2 ^ k"
  by (rule unat_below; simp add: gray_decode_bits gray_encode_def bit_xor_iff bit_drop_bit_eq high_bits)+

lemma gray_inverse:
  assumes "v < 2 ^ k" and "k \<le> 8"
  shows "gray_enc (gray_dec v) = v" "gray_dec (gray_enc v) = v"
proof -
  have "v < 2 ^ 8" using assms(1) power_increasing [OF assms(2), of "2 :: nat"] by linarith
  then have v: "unat (of_nat v :: u32) = v" by (simp add: unat_of_nat take_bit_eq_mod)
  have hi: "\<not> bit (of_nat v :: u32) (i + 9)" for i using high_bits [OF assms(1)] assms(2) by simp
  have "gray_encode (gray_decode (of_nat v)) = of_nat v" "gray_decode (gray_encode (of_nat v)) = of_nat v"
    by (rule bit_word_eqI; simp add: gray_encode_decode gray_decode_encode hi)+
  then show "gray_enc (gray_dec v) = v" "gray_dec (gray_enc v) = v" using v by simp_all
qed

lemma sum_gray: "k \<le> 8 \<Longrightarrow> (\<Sum>v < 2 ^ k. f (gray_dec v)) = (\<Sum>t < 2 ^ k. f t)"
  by (rule sum.reindex_bij_witness [of _ gray_enc gray_dec]) (simp_all add: gray_inverse [where k = k, simplified] gray_width)

section \<open>Decisions\<close>

abbreviation level :: "real \<Rightarrow> nat \<Rightarrow> nat \<Rightarrow> real" where
  "level \<alpha> k t \<equiv> of_int (2 * int t - 2 ^ k + 1) * \<alpha>"

lemma real_below: "t < 2 ^ k \<Longrightarrow> real t + 1 \<le> 2 ^ k"
  using of_nat_mono [of "Suc t" "2 ^ k", where 'a = real] by simp

lemma linear_array:
  assumes "\<And>j. j < k \<Longrightarrow> ref ! j = 2 ^ j * \<alpha>" and "t < 2 ^ k" and "\<bar>v - level \<alpha> k t\<bar> < \<alpha>"
  shows "demodulate_linear_array_ref ref k s v = (s * 2 ^ k + t, v - level \<alpha> k t)"
  using assms
proof (induction k arbitrary: s t v)
  case (Suc k)
  have a: "0 < \<alpha>" using Suc.prems(3) by linarith
  have ref: "ref ! k = 2 ^ k * \<alpha>" "\<And>j. j < k \<Longrightarrow> ref ! j = 2 ^ j * \<alpha>" using Suc.prems(1) by simp_all
  show ?case
  proof (cases "t < 2 ^ k")
    case True
    then have "real t + 1 \<le> 2 ^ k" by (rule real_below)
    then have "(2 * real t - 2 * 2 ^ k + 1) * \<alpha> \<le> -1 * \<alpha>" using a by (intro mult_right_mono) simp_all
    then have "v \<le> 0" using Suc.prems(3) by simp
    have eq: "v + ref ! k - level \<alpha> k t = v - level \<alpha> (Suc k) t" using ref by (simp add: algebra_simps)
    with Suc.prems(3) have "\<bar>v + ref ! k - level \<alpha> k t\<bar> < \<alpha>" by simp
    from Suc.IH [OF ref(2) True this, of "2 * s"] \<open>v \<le> 0\<close> eq show ?thesis by simp
  next
    case False
    then obtain u where u: "t = 2 ^ k + u" by (metis le_Suc_ex not_less)
    then have "u < 2 ^ k" using Suc.prems(2) by simp
    have "(2 * real t - 2 * 2 ^ k + 1) * \<alpha> \<ge> 1 * \<alpha>" using a u by (intro mult_right_mono) simp_all
    then have "0 < v" using Suc.prems(3) by simp
    have eq: "v - ref ! k - level \<alpha> k u = v - level \<alpha> (Suc k) t" using ref u by (simp add: algebra_simps)
    with Suc.prems(3) have "\<bar>v - ref ! k - level \<alpha> k u\<bar> < \<alpha>" by simp
    from Suc.IH [OF ref(2) \<open>u < 2 ^ k\<close> this, of "2 * s + 1"] \<open>0 < v\<close> eq u show ?thesis by (simp add: algebra_simps)
  qed
qed simp

text \<open>What an object of an amplitude or phase modulation has.\<close>

definition array_modem :: "modem_s \<Rightarrow> modem_fun \<Rightarrow> bool" where
  "array_modem q f \<longleftrightarrow> lm_fun q = f \<and> lm_m q \<le> 8 \<and> lm_M q = 2 ^ lm_m q \<and> (\<forall>j < lm_m q. lm_ref q ! j = 2 ^ j * lm_alpha q)"

lemma ask_decides:
  assumes "array_modem q FUN_ASK" and "v < 2 ^ lm_m q" and "\<bar>Re y - Re (modulate_ask q v)\<bar> < lm_alpha q"
  shows "modem_demodulate q y = (v, q\<lparr>lm_x_hat := modulate_ask q v, lm_r := y\<rparr>)"
proof -
  have q: "lm_m q \<le> 8" "lm_M q = 2 ^ lm_m q" "\<And>j. j < lm_m q \<Longrightarrow> lm_ref q ! j = 2 ^ j * lm_alpha q" "lm_fun q = FUN_ASK"
    using assms(1) by (simp_all add: array_modem_def)
  have "modulate_ask q v = of_real (level (lm_alpha q) (lm_m q) (gray_dec v))"
    unfolding modulate_ask_def Let_def q(2) by (simp only: of_nat_power of_nat_numeral)
  with assms(3) have "\<bar>Re y - level (lm_alpha q) (lm_m q) (gray_dec v)\<bar> < lm_alpha q" by simp
  from linear_array [OF q(3) gray_width(1) [OF assms(2)] this, of 0] gray_inverse(1) [OF assms(2) q(1)] q(4)
  show ?thesis by (simp add: modem_demodulate_def demodulate_ask_def)
qed

lemma split_symbol:
  fixes v :: nat
  assumes "v < 2 ^ (a + b)"
  shows "drop_bit b v < 2 ^ a" "v AND (2 ^ b - 1) < 2 ^ b" "push_bit b (drop_bit b v) + (v AND (2 ^ b - 1)) = v"
proof -
  have m: "v AND (2 ^ b - 1) = v mod 2 ^ b" by (metis and_exp_eq_0_iff_not_bit take_bit_eq_mask take_bit_eq_mod mask_eq_exp_minus_1)
  show "drop_bit b v < 2 ^ a" using assms by (simp add: drop_bit_eq_div less_mult_imp_div_less power_add)
  show "v AND (2 ^ b - 1) < 2 ^ b" "push_bit b (drop_bit b v) + (v AND (2 ^ b - 1)) = v"
    unfolding m by (simp_all add: push_bit_eq_mult drop_bit_eq_div mult.commute)
qed

lemma qam_decides:
  assumes "array_modem q FUN_QAM" and "lm_m_i q + lm_m_q q = lm_m q" and "lm_M_i q = 2 ^ lm_m_i q" and "lm_M_q q = 2 ^ lm_m_q q"
    and "v < 2 ^ lm_m q" and "\<bar>Re y - Re (modulate_qam q v)\<bar> < lm_alpha q" and "\<bar>Im y - Im (modulate_qam q v)\<bar> < lm_alpha q"
  shows "modem_demodulate q y = (v, q\<lparr>lm_x_hat := modulate_qam q v, lm_r := y\<rparr>)"
proof -
  let ?i = "drop_bit (lm_m_q q) v" and ?q = "v AND (2 ^ lm_m_q q - 1)"
  let ?l = "\<lambda>k t. level (lm_alpha q) k (gray_dec t)"
  have q: "lm_m q \<le> 8" "lm_fun q = FUN_QAM" "\<And>j. j < lm_m_i q \<Longrightarrow> lm_ref q ! j = 2 ^ j * lm_alpha q"
    "\<And>j. j < lm_m_q q \<Longrightarrow> lm_ref q ! j = 2 ^ j * lm_alpha q"
    using assms(1,2) by (auto simp: array_modem_def)
  have w: "lm_m_i q \<le> 8" "lm_m_q q \<le> 8" using q(1) assms(2) by simp_all
  note v = split_symbol [OF assms(5) [folded assms(2)]]
  have x: "modulate_qam q v = of_real (?l (lm_m_i q) ?i) + of_real (?l (lm_m_q q) ?q) * \<i>"
    unfolding modulate_qam_def Let_def assms(3,4) by (simp only: of_nat_power of_nat_numeral)
  have near: "\<bar>Re y - ?l (lm_m_i q) ?i\<bar> < lm_alpha q" "\<bar>Im y - ?l (lm_m_q q) ?q\<bar> < lm_alpha q" using assms(6,7) by (simp_all add: x)
  have i: "demodulate_linear_array_ref (lm_ref q) (lm_m_i q) 0 (Re y) = (gray_dec ?i, Re y - ?l (lm_m_i q) ?i)"
    using linear_array [OF q(3) gray_width(1) [OF v(1)] near(1), of 0] by simp
  have j: "demodulate_linear_array_ref (lm_ref q) (lm_m_q q) 0 (Im y) = (gray_dec ?q, Im y - ?l (lm_m_q q) ?q)"
    using linear_array [OF q(4) gray_width(1) [OF v(2)] near(2), of 0] by simp
  have "y - (of_real (Re y - ?l (lm_m_i q) ?i) + \<i> * of_real (Im y - ?l (lm_m_q q) ?q)) = modulate_qam q v"
    unfolding x by (simp add: complex_eq_iff)
  then show ?thesis
    by (simp only: modem_demodulate_def demodulate_qam_def q(2) i j modem_fun.case prod.case Let_def
      gray_inverse(1) [OF v(1) w(1)] gray_inverse(1) [OF v(2) w(2)] v(3))
qed

lemma bpsk_decides:
  assumes "lm_fun q = FUN_BPSK" and "v < 2" and "\<bar>Re y - Re (modulate_bpsk v)\<bar> < 1"
  shows "modem_demodulate q y = (v, q\<lparr>lm_x_hat := modulate_bpsk v, lm_r := y\<rparr>)"
proof -
  have "v \<in> {0, 1}" using assms(2) by auto
  with assms(1,3) show ?thesis by (auto simp: modem_demodulate_def demodulate_bpsk_def modulate_bpsk_def)
qed

lemma M_SQRT1_2_positive: "0 < M_SQRT1_2" "sqrt 2 = 2 * M_SQRT1_2" "M_SQRT1_2 * M_SQRT1_2 = 1 / 2"
  by (simp_all add: M_SQRT1_2_def real_div_sqrt)

lemma qpsk_points:
  "modulate_qpsk 0 = Complex M_SQRT1_2 M_SQRT1_2" "modulate_qpsk (Suc 0) = Complex (- M_SQRT1_2) M_SQRT1_2"
  "modulate_qpsk 2 = Complex M_SQRT1_2 (- M_SQRT1_2)" "modulate_qpsk 3 = Complex (- M_SQRT1_2) (- M_SQRT1_2)"
  by (simp_all add: modulate_qpsk_def complex_eq_iff)

lemma qpsk_decides:
  assumes "lm_fun q = FUN_QPSK" and "v < 4" and "\<bar>Re y - Re (modulate_qpsk v)\<bar> < M_SQRT1_2"
    and "\<bar>Im y - Im (modulate_qpsk v)\<bar> < M_SQRT1_2"
  shows "modem_demodulate q y = (v, q\<lparr>lm_x_hat := modulate_qpsk v, lm_r := y\<rparr>)"
proof -
  have "v \<in> {0, 1, 2, 3}" using assms(2) by auto
  moreover have "Re (modulate_qpsk v) > 0 \<longleftrightarrow> Re y > 0" "Im (modulate_qpsk v) > 0 \<longleftrightarrow> Im y > 0"
    using assms(3,4) calculation M_SQRT1_2_positive(1) by (auto simp: qpsk_points)
  ultimately show ?thesis
    using M_SQRT1_2_positive(1) by (elim insertE emptyE)
      (simp_all add: modem_demodulate_def demodulate_qpsk_def assms(1) qpsk_points Let_def numeral_3_eq_3 [symmetric] numeral_2_eq_2 [symmetric])
qed

lemma ook_decides:
  assumes "lm_fun q = FUN_OOK" and "v < 2" and "\<bar>Re y - Re (modulate_ook v)\<bar> < M_SQRT1_2"
  shows "modem_demodulate q y = (v, q\<lparr>lm_x_hat := modulate_ook v, lm_r := y\<rparr>)"
proof -
  have "v \<in> {0, 1}" using assms(2) by auto
  with assms(1,3) M_SQRT1_2_positive show ?thesis by (auto simp: modem_demodulate_def demodulate_ook_def modulate_ook_def)
qed

text \<open>A phase modulation decides by the angle.\<close>

lemma Arg_rcis: "0 < r \<Longrightarrow> - pi < a \<Longrightarrow> a \<le> pi \<Longrightarrow> Arg (rcis r a) = a"
  by (intro cis_Arg_unique) (simp_all add: sgn_eq rcis_def norm_mult)

lemma psk_decides:
  assumes "array_modem q FUN_PSK" and "1 \<le> lm_m q" and "lm_alpha q = pi / 2 ^ lm_m q" and "lm_d_phi q = pi * (1 - 1 / 2 ^ lm_m q)"
    and "v < 2 ^ lm_m q" and "y = rcis r \<delta> * modulate_psk q v" and "0 < r" and "\<bar>\<delta>\<bar> < lm_alpha q"
  shows "modem_demodulate q y = (v, q\<lparr>lm_x_hat := modulate_psk q v, lm_r := y\<rparr>)"
proof -
  let ?t = "gray_dec v" and ?M = "2 ^ lm_m q :: real" and ?a = "lm_alpha q"
  have q: "lm_m q \<le> 8" "\<And>j. j < lm_m q \<Longrightarrow> lm_ref q ! j = 2 ^ j * ?a" "lm_fun q = FUN_PSK" using assms(1) by (simp_all add: array_modem_def)
  have a: "0 < ?a" "?M * ?a = pi" using assms(3) by simp_all
  have t: "real ?t + 1 \<le> ?M"
    by (rule real_below [OF gray_width(1) [OF assms(5)]])
  define \<theta> where "\<theta> = 2 * real ?t * ?a + \<delta>"
  have y: "y = rcis r \<theta>" unfolding assms(6) modulate_psk_def Let_def \<theta>_def rcis_def by (simp only: mult.assoc cis_mult of_nat_mult) (simp only: ac_simps of_nat_numeral)
  have M: "2 \<le> ?M" using power_increasing [OF assms(2), of "2 :: real"] by simp
  have "?a * 2 \<le> ?a * ?M" using M a(1) by (intro mult_left_mono) simp_all
  then have small: "2 * ?a \<le> pi" using a(2) by (simp add: mult.commute)
  have "(2 * (real ?t + 1)) * ?a \<le> (2 * ?M) * ?a" using t a(1) by (intro mult_right_mono) simp_all
  then have hi: "2 * real ?t * ?a \<le> 2 * pi - 2 * ?a" using a(2) by (simp add: algebra_simps)
  have lo: "0 \<le> 2 * real ?t * ?a" using a(1) by (intro mult_nonneg_nonneg of_nat_0_le_iff) simp_all
  have d: "lm_d_phi q = pi - ?a" using assms(3,4) by (simp add: right_diff_distrib)
  have "(let th = Arg y - lm_d_phi q in if th < - pi then th + 2 * pi else th) = \<theta> - lm_d_phi q"
  proof (cases "\<theta> \<le> pi")
    case True
    have "- pi < \<theta>" using lo small assms(8) unfolding \<theta>_def by linarith
    then have "Arg y = \<theta>" using Arg_rcis [OF assms(7) _ True] y by simp
    moreover have "- pi \<le> \<theta> - lm_d_phi q" using lo assms(8) unfolding \<theta>_def d by linarith
    ultimately show ?thesis by simp
  next
    case False
    have "y = rcis r (\<theta> - 2 * pi)" unfolding y rcis_def by (simp flip: cis_divide)
    moreover have "\<theta> - 2 * pi \<le> pi" using hi assms(8) small unfolding \<theta>_def by linarith
    ultimately have "Arg y = \<theta> - 2 * pi" using Arg_rcis [OF assms(7), of "\<theta> - 2 * pi"] False by simp
    moreover have "\<theta> - 2 * pi - lm_d_phi q < - pi" using hi assms(8) unfolding \<theta>_def d by linarith
    ultimately show ?thesis by simp
  qed
  moreover have "\<bar>\<theta> - lm_d_phi q - level ?a (lm_m q) ?t\<bar> < ?a" using assms(8) a(2) by (simp add: d \<theta>_def algebra_simps)
  ultimately show ?thesis
    using linear_array [OF q(2) gray_width(1) [OF assms(5)], of "\<theta> - lm_d_phi q" 0] gray_inverse(1) [OF assms(5) q(1)] q(3)
    by (simp add: modem_demodulate_def demodulate_psk_def Let_def)
qed

text \<open>A point of the unit circle that is moved by less than the sine of an angle turns by less than this angle.\<close>

lemma small_turn:
  assumes "cmod (z - 1) < sin \<beta>" and "0 < \<beta>" and "\<beta> \<le> pi / 2"
  shows "0 < cmod z" "\<bar>Arg z\<bar> < \<beta>"
proof -
  let ?d = "Arg z"
  have "cmod (z - 1) < 1" using assms(1) sin_le_one [of \<beta>] by linarith
  then have re: "0 < Re z" using abs_Re_le_cmod [of "z - 1"] by simp
  then have z: "z \<noteq> 0" by auto
  then show "0 < cmod z" by simp
  have range: "\<bar>?d\<bar> \<le> pi" using Arg_bounded [of z] by (simp add: abs_le_iff)
  have "0 < cos ?d" using cos_Arg [OF z] re z by simp
  then have half: "\<bar>?d\<bar> < pi / 2"
    using cos_monotone_0_pi_le [of "pi / 2" "\<bar>?d\<bar>"] range by (cases "pi / 2 \<le> \<bar>?d\<bar>") auto
  have "\<bar>Im (cis (- ?d) * (1 - z))\<bar> \<le> cmod (1 - z)"
    using abs_Im_le_cmod [of "cis (- ?d) * (1 - z)"] by (simp add: norm_mult)
  moreover have "cis (- ?d) * z = of_real (cmod z)"
    using rcis_cmod_Arg [of z] by (metis add.left_inverse cis_mult cis_zero mult.commute mult.left_commute mult.right_neutral rcis_def)
  ultimately have "\<bar>sin ?d\<bar> < sin \<beta>" using assms(1) by (simp add: right_diff_distrib norm_minus_commute)
  then have "sin ?d < sin \<beta>" "sin (- ?d) < sin \<beta>" by simp_all
  then show "\<bar>?d\<bar> < \<beta>" using half assms(2,3) by (auto simp: sin_mono_less_eq abs_less_iff simp del: sin_minus)
qed

section \<open>Well-formed objects\<close>

definition qam_parts :: "modem_s \<Rightarrow> bool" where
  "qam_parts q \<longleftrightarrow> lm_m_i q + lm_m_q q = lm_m q \<and> 1 \<le> lm_m_q q \<and> lm_M_i q = 2 ^ lm_m_i q \<and> lm_M_q q = 2 ^ lm_m_q q"

definition linear_ok :: "modem_s \<Rightarrow> bool" where
  "linear_ok q \<longleftrightarrow> modem_bps (lm_scheme q) = lm_m q \<and> 1 \<le> lm_m q \<and> lm_m q \<le> 8 \<and> lm_M q = 2 ^ lm_m q \<and>
     (\<forall>tab. lm_symbol_map q = Some tab \<longrightarrow> tab = map (modulate_by (lm_fun q) q) [0..<lm_M q]) \<and>
     (case lm_fun q of
        FUN_BPSK \<Rightarrow> lm_m q = 1
      | FUN_QPSK \<Rightarrow> lm_m q = 2
      | FUN_OOK \<Rightarrow> lm_m q = 1
      | FUN_ASK \<Rightarrow> array_modem q FUN_ASK \<and> 0 < lm_alpha q \<and> (lm_alpha q)\<^sup>2 * ((2 ^ lm_m q)\<^sup>2 - 1) = 3
      | FUN_QAM \<Rightarrow> array_modem q FUN_QAM \<and> qam_parts q \<and> 0 < lm_alpha q \<and>
          (lm_alpha q)\<^sup>2 * ((2 ^ lm_m_i q)\<^sup>2 - 1 + ((2 ^ lm_m_q q)\<^sup>2 - 1)) = 3
      | FUN_PSK \<Rightarrow> array_modem q FUN_PSK \<and> lm_alpha q = pi / 2 ^ lm_m q \<and> lm_d_phi q = pi * (1 - 1 / 2 ^ lm_m q))"

abbreviation point :: "modem_s \<Rightarrow> nat \<Rightarrow> complex" where
  "point q \<equiv> modulate_by (lm_fun q) q"

lemma modulate_by_update [simp]:
  "modulate_by f (q\<lparr>lm_r := r\<rparr>) = modulate_by f q" "modulate_by f (q\<lparr>lm_x_hat := r\<rparr>) = modulate_by f q"
  "modulate_by f (q\<lparr>lm_symbol_map := t\<rparr>) = modulate_by f q"
  by (simp_all add: fun_eq_iff modulate_by_def modulate_ask_def modulate_psk_def modulate_qam_def split: modem_fun.split)

lemma linear_ok_update [simp]: "linear_ok (q\<lparr>lm_r := r\<rparr>) = linear_ok q" "linear_ok (q\<lparr>lm_x_hat := r\<rparr>) = linear_ok q"
  by (simp_all add: linear_ok_def array_modem_def qam_parts_def split: modem_fun.split)

definition linear_scheme :: "modulation_scheme \<Rightarrow> bool" where
  "linear_scheme s \<longleftrightarrow> liquid_modem_is_psk s \<or> liquid_modem_is_ask s \<or> liquid_modem_is_qam s \<or> s \<in> {MODEM_BPSK, MODEM_QPSK, MODEM_OOK}"

lemma modem_modulate_point:
  "linear_ok q \<Longrightarrow> modem_modulate q v = (if v < 2 ^ lm_m q then Some (point q v) else None)"
  by (auto simp: modem_modulate_def linear_ok_def split: option.split)

section \<open>Creation\<close>

lemma init_small: "1 \<le> b \<Longrightarrow> b \<le> 8 \<Longrightarrow> modem_init s f b = Some \<lparr>lm_scheme = s, lm_m = b, lm_M = 2 ^ b, lm_ref = [],
    lm_symbol_map = None, lm_r = 0, lm_x_hat = 0, lm_alpha = 0, lm_d_phi = 0, lm_m_i = 0, lm_m_q = 0, lm_M_i = 0, lm_M_q = 0, lm_fun = f\<rparr>"
  by (simp add: modem_init_def MAX_MOD_BITS_PER_SYMBOL_def)

lemma init_map_small:
  "lm_M q = 2 ^ b \<Longrightarrow> b \<le> 8 \<Longrightarrow>
    modem_init_map q = Some (q\<lparr>lm_symbol_map := Some (map (modulate_by (lm_fun q) q) [0..<lm_M q])\<rparr>)"
  using power_increasing [of b 8 "2 :: nat"] by (simp add: modem_init_map_def MAX_MOD_BITS_PER_SYMBOL_def)

lemma create_ask_ok:
  assumes "ask_params (2 ^ b) = Some (\<alpha>, s)" and "1 \<le> b" "b \<le> 8" and "modem_bps s = b" and "0 < \<alpha>" and "\<alpha>\<^sup>2 * ((2 ^ b)\<^sup>2 - 1) = 3"
  shows "\<exists>q. modem_create_ask b = Some q \<and> lm_scheme q = s \<and> linear_ok q"
  using assms by (simp add: modem_create_ask_def init_small modem_reset_def linear_ok_def array_modem_def Let_def)

lemma create_psk_ok:
  assumes "psk_schemes ! (b - 1) = s" and "1 \<le> b" "b \<le> 8" and "modem_bps s = b"
  shows "\<exists>q. modem_create_psk b = Some q \<and> lm_scheme q = s \<and> linear_ok q"
  using assms by (simp add: modem_create_psk_def init_small init_map_small modem_reset_def linear_ok_def array_modem_def modulate_by_def
    modulate_psk_def Let_def)

lemma create_qam_ok:
  assumes "qam_params (2 ^ b) = Some (\<alpha>, s)" and "2 \<le> b" "b \<le> 8" and "modem_bps s = b" and "0 < \<alpha>"
    and "\<alpha>\<^sup>2 * ((2 ^ ((b + 1) div 2))\<^sup>2 - 1 + ((2 ^ (b div 2))\<^sup>2 - 1)) = 3"
  shows "\<exists>q. modem_create_qam b = Some q \<and> lm_scheme q = s \<and> linear_ok q"
proof -
  have parts: "(b + 1) div 2 + b div 2 = b" "1 \<le> b div 2" using assms(2) by presburger+
  note defs = modem_create_qam_def init_small init_map_small modem_reset_def linear_ok_def array_modem_def qam_parts_def
    modulate_by_def modulate_qam_def Let_def power_add [symmetric]
  show ?thesis
  proof (cases "b mod 2 = Suc 0")
    case True
    then have "(b - Suc 0) div 2 = b div 2" by presburger
    then have "drop_bit (Suc 0) (Suc b) = Suc b div 2" "drop_bit (Suc 0) (b - Suc 0) = b div 2" by (simp_all add: drop_bit_eq_div)
    then show ?thesis using assms parts True by (simp add: defs)
  next
    case False
    then have "drop_bit (Suc 0) b = b div 2" "Suc b div 2 = b div 2" by (simp_all add: drop_bit_eq_div) presburger
    then show ?thesis using assms parts False by (simp add: defs)
  qed
qed

lemma alpha_square: "0 < n \<Longrightarrow> (1 / sqrt n)\<^sup>2 * m = 3 \<longleftrightarrow> m = 3 * n"
  by (simp add: power_divide field_simps)

lemma bps_table [simp]: "modem_bps MODEM_PSK2 = 1" "modem_bps MODEM_PSK4 = 2" "modem_bps MODEM_PSK8 = 3" "modem_bps MODEM_PSK16 = 4"
  "modem_bps MODEM_PSK32 = 5" "modem_bps MODEM_PSK64 = 6" "modem_bps MODEM_PSK128 = 7" "modem_bps MODEM_PSK256 = 8"
  "modem_bps MODEM_ASK2 = 1" "modem_bps MODEM_ASK4 = 2" "modem_bps MODEM_ASK8 = 3" "modem_bps MODEM_ASK16 = 4"
  "modem_bps MODEM_ASK32 = 5" "modem_bps MODEM_ASK64 = 6" "modem_bps MODEM_ASK128 = 7" "modem_bps MODEM_ASK256 = 8"
  "modem_bps MODEM_QAM4 = 2" "modem_bps MODEM_QAM8 = 3" "modem_bps MODEM_QAM16 = 4" "modem_bps MODEM_QAM32 = 5"
  "modem_bps MODEM_QAM64 = 6" "modem_bps MODEM_QAM128 = 7" "modem_bps MODEM_QAM256 = 8" "modem_bps MODEM_OOK = 1"
  by (simp_all add: modem_bps_def modem_num_def index_of_def modem_schemes_def modulation_types_def)

lemma create_psk_all:
  assumes "liquid_modem_is_psk s"
  shows "\<exists>q. linear_modem_create s = Some q \<and> lm_scheme q = s \<and> linear_ok q"
proof -
  have "linear_modem_create s = modem_create_psk (modem_bps s) \<and> psk_schemes ! (modem_bps s - 1) = s \<and> 1 \<le> modem_bps s"
    using assms by (auto simp: liquid_modem_is_psk_def linear_modem_create_def psk_schemes_def)
  then show ?thesis using create_psk_ok [of "modem_bps s" s] modem_bps_le [of s] by simp
qed

lemma create_ask_all:
  assumes "liquid_modem_is_ask s"
  shows "\<exists>q. linear_modem_create s = Some q \<and> lm_scheme q = s \<and> linear_ok q"
proof -
  let ?b = "modem_bps s"
  have "linear_modem_create s = modem_create_ask ?b \<and> 1 \<le> ?b \<and>
      (\<exists>\<alpha>. ask_params (2 ^ ?b) = Some (\<alpha>, s) \<and> 0 < \<alpha> \<and> \<alpha>\<^sup>2 * ((2 ^ ?b)\<^sup>2 - 1) = 3)"
    using assms by (auto simp: liquid_modem_is_ask_def linear_modem_create_def ask_params_def alpha_square)
  then show ?thesis using create_ask_ok [of ?b _ s] modem_bps_le [of s] by auto
qed

lemma create_qam_all:
  assumes "liquid_modem_is_qam s"
  shows "\<exists>q. linear_modem_create s = Some q \<and> lm_scheme q = s \<and> linear_ok q"
proof -
  let ?b = "modem_bps s"
  have "linear_modem_create s = modem_create_qam ?b \<and> 2 \<le> ?b \<and>
      (\<exists>\<alpha>. qam_params (2 ^ ?b) = Some (\<alpha>, s) \<and> 0 < \<alpha> \<and> \<alpha>\<^sup>2 * ((2 ^ ((?b + 1) div 2))\<^sup>2 - 1 + ((2 ^ (?b div 2))\<^sup>2 - 1)) = 3)"
    using assms by (auto simp: liquid_modem_is_qam_def linear_modem_create_def qam_params_def alpha_square)
  then show ?thesis using create_qam_ok [of ?b _ s] modem_bps_le [of s] by auto
qed

lemma create_ok:
  assumes "linear_scheme s"
  obtains q where "linear_modem_create s = Some q" "lm_scheme q = s" "linear_ok q"
proof -
  have "\<exists>q. linear_modem_create s = Some q \<and> lm_scheme q = s \<and> linear_ok q" if "s \<in> {MODEM_BPSK, MODEM_QPSK, MODEM_OOK}"
    using that by (auto simp: linear_modem_create_def modem_create_bpsk_def modem_create_qpsk_def modem_create_ook_def init_small
      modem_reset_def linear_ok_def)
  with assms create_psk_all create_ask_all create_qam_all show thesis using that unfolding linear_scheme_def by blast
qed

section \<open>Decisions of well-formed objects\<close>

definition margin :: "modem_s \<Rightarrow> real" where
  "margin q = (case lm_fun q of FUN_BPSK \<Rightarrow> 1 | FUN_QPSK \<Rightarrow> M_SQRT1_2 | FUN_OOK \<Rightarrow> M_SQRT1_2 | FUN_ASK \<Rightarrow> lm_alpha q
     | FUN_QAM \<Rightarrow> lm_alpha q | FUN_PSK \<Rightarrow> sin (lm_alpha q))"

lemma margin_update [simp]: "margin (q\<lparr>lm_r := r\<rparr>) = margin q" "margin (q\<lparr>lm_x_hat := r\<rparr>) = margin q"
  by (simp_all add: margin_def split: modem_fun.split)

lemma psk_close:
  assumes "linear_ok q" and "lm_fun q = FUN_PSK" and "v < 2 ^ lm_m q" and "cmod (y - modulate_psk q v) < sin (lm_alpha q)"
  shows "modem_demodulate q y = (v, q\<lparr>lm_x_hat := modulate_psk q v, lm_r := y\<rparr>)"
proof -
  have q: "array_modem q FUN_PSK" "1 \<le> lm_m q" "lm_alpha q = pi / 2 ^ lm_m q" "lm_d_phi q = pi * (1 - 1 / 2 ^ lm_m q)"
    using assms(1,2) by (simp_all add: linear_ok_def)
  obtain a where a: "modulate_psk q v = cis a" by (auto simp: modulate_psk_def Let_def)
  let ?z = "y * cis (- a)"
  have "?z - 1 = (y - cis a) * cis (- a)" by (simp add: left_diff_distrib cis_mult)
  then have "cmod (?z - 1) < sin (lm_alpha q)" using assms(4) a by (simp add: norm_mult)
  moreover have "0 < lm_alpha q" using q(3) by simp
  moreover have "lm_alpha q \<le> pi / 2"
    unfolding q(3) by (rule divide_left_mono) (use power_increasing [OF q(2), of "2 :: real"] in simp_all)
  ultimately have turn: "0 < cmod ?z" "\<bar>Arg ?z\<bar> < lm_alpha q" using small_turn by blast+
  have "y = ?z * cis a" by (simp add: mult.assoc cis_mult)
  then have "y = rcis (cmod ?z) (Arg ?z) * modulate_psk q v" unfolding a rcis_cmod_Arg .
  from psk_decides [OF q assms(3) this turn] show ?thesis .
qed

lemma decides:
  assumes "linear_ok q" and "v < 2 ^ lm_m q" and "cmod (y - point q v) < margin q"
  shows "modem_demodulate q y = (v, q\<lparr>lm_x_hat := point q v, lm_r := y\<rparr>)"
proof -
  have near: "\<bar>Re y - Re (point q v)\<bar> < margin q" "\<bar>Im y - Im (point q v)\<bar> < margin q"
    using assms(3) abs_Re_le_cmod [of "y - point q v"] abs_Im_le_cmod [of "y - point q v"] by simp_all
  show ?thesis
  proof (cases "lm_fun q")
    case FUN_BPSK
    then show ?thesis using assms(1,2) near bpsk_decides [of q v y] by (simp add: linear_ok_def margin_def modulate_by_def)
  next
    case FUN_QPSK
    then show ?thesis using assms(1,2) near qpsk_decides [of q v y] by (simp add: linear_ok_def margin_def modulate_by_def)
  next
    case FUN_OOK
    then show ?thesis using assms(1,2) near ook_decides [of q v y] by (simp add: linear_ok_def margin_def modulate_by_def)
  next
    case FUN_ASK
    then show ?thesis using assms(1,2) near ask_decides [of q v y] by (simp add: linear_ok_def margin_def modulate_by_def)
  next
    case FUN_QAM
    then show ?thesis using assms(1,2) near qam_decides [of q v y] by (simp add: linear_ok_def margin_def modulate_by_def qam_parts_def)
  next
    case FUN_PSK
    then show ?thesis using assms psk_close [of q v y] by (simp add: margin_def modulate_by_def)
  qed
qed

lemma margin_positive: "linear_ok q \<Longrightarrow> 0 < margin q"
  using M_SQRT1_2_positive(1) power_increasing [of 1 "lm_m q" "2 :: real"]
  by (auto simp: linear_ok_def margin_def split: modem_fun.splits intro!: sin_gt_zero simp: divide_less_eq)

text \<open>Two symbols whose points are as far apart as twice the margin.\<close>

lemma gray_01: "gray_decode 0 = 0" "gray_decode 1 = 1"
  by (simp_all add: gray_decode_def MAX_MOD_BITS_PER_SYMBOL_def upt_rec)

lemma cis_distance: "cmod (1 - cis (2 * a)) = 2 * \<bar>sin a\<bar>"
proof -
  have "1 - cis (2 * a) = cis a * (cis (- a) - cis a)" by (simp add: right_diff_distrib cis_mult)
  also have "cis (- a) - cis a = - (of_real (2 * sin a) * \<i>)" by (simp add: complex_eq_iff)
  finally show ?thesis by (simp add: norm_mult)
qed

lemma nearest_points:
  assumes "linear_ok q"
  obtains u w where "u < 2 ^ lm_m q" "w < 2 ^ lm_m q" "u \<noteq> w" "cmod (point q u - point q w) = 2 * margin q"
proof -
  have "1 \<le> lm_m q" using assms by (simp add: linear_ok_def)
  then have size: "1 < (2::nat) ^ lm_m q" using power_increasing [of 1 "lm_m q" "2 :: nat"] by simp
  have "cmod (point q 0 - point q 1) = 2 * margin q"
  proof (cases "lm_fun q")
    case FUN_BPSK
    then show ?thesis by (simp add: modulate_by_def modulate_bpsk_def margin_def)
  next
    case FUN_QPSK
    then show ?thesis using M_SQRT1_2_positive(1) by (simp add: modulate_by_def qpsk_points margin_def cmod_def power2_eq_square real_sqrt_mult)
  next
    case FUN_OOK
    then show ?thesis using M_SQRT1_2_positive(1,2) by (simp add: modulate_by_def modulate_ook_def margin_def)
  next
    case FUN_ASK
    have "modulate_ask q 0 - modulate_ask q 1 = of_real (- 2 * lm_alpha q)" by (simp add: modulate_ask_def gray_01 algebra_simps)
    then have "cmod (modulate_ask q 0 - modulate_ask q 1) = \<bar>- 2 * lm_alpha q\<bar>" by (simp only: norm_of_real)
    then show ?thesis using FUN_ASK assms by (simp add: modulate_by_def margin_def linear_ok_def)
  next
    case FUN_QAM
    have "1 \<le> lm_m_q q" using FUN_QAM assms by (simp add: linear_ok_def qam_parts_def)
    then obtain k where k: "lm_m_q q = Suc k" by (cases "lm_m_q q") simp_all
    have "odd ((2::nat) ^ lm_m_q q - 1)" by (simp add: k)
    moreover have "1 AND n = 1" if "odd n" for n :: nat using that by (simp add: one_and_eq odd_iff_mod_2_eq_one)
    ultimately have "drop_bit (lm_m_q q) 1 = (0::nat)" "1 AND (2 ^ lm_m_q q - 1) = (1::nat)" by (simp add: k drop_bit_Suc, blast)
    then have "modulate_qam q 0 - modulate_qam q 1 = of_real (- 2 * lm_alpha q) * \<i>"
      by (simp add: modulate_qam_def gray_01 algebra_simps)
    then have "cmod (modulate_qam q 0 - modulate_qam q 1) = \<bar>- 2 * lm_alpha q\<bar>" by (simp only: norm_of_real norm_mult norm_ii mult_1_right)
    then show ?thesis using FUN_QAM assms by (simp add: modulate_by_def margin_def linear_ok_def)
  next
    case FUN_PSK
    have "modulate_psk q 0 - modulate_psk q 1 = 1 - cis (2 * lm_alpha q)" by (simp add: modulate_psk_def gray_01)
    moreover have "0 < sin (lm_alpha q)" using margin_positive [OF assms] FUN_PSK by (simp add: margin_def)
    ultimately show ?thesis using FUN_PSK by (simp add: modulate_by_def margin_def cis_distance)
  qed
  then show thesis using that [of 0 1] size by simp
qed

section \<open>Energy\<close>

lemma sum_levels: "(\<Sum>t < n. (2 * real t - real n + 1)\<^sup>2) = real n * ((real n)\<^sup>2 - 1) / 3"
proof -
  have "(\<Sum>t < n. (2 * real t + c)\<^sup>2) = real n * (4 * (real n)\<^sup>2 - 6 * real n + 2 + 6 * c * real n - 6 * c + 3 * c\<^sup>2) / 3" for c
    by (induction n) (simp_all add: field_simps power2_eq_square)
  from this [of "1 - real n"] show ?thesis by (simp add: algebra_simps power2_eq_square)
qed

lemma sum_level_points:
  assumes "k \<le> 8"
  shows "(\<Sum>v < 2 ^ k. (level \<alpha> k (gray_dec v))\<^sup>2) = 2 ^ k * (\<alpha>\<^sup>2 * ((2 ^ k)\<^sup>2 - 1)) / 3"
proof -
  have "(\<Sum>v < 2 ^ k. (level \<alpha> k (gray_dec v))\<^sup>2) = (\<Sum>t < 2 ^ k. (level \<alpha> k t)\<^sup>2)"
    using sum_gray [OF assms, of "\<lambda>t. (level \<alpha> k t)\<^sup>2"] .
  also have "\<dots> = (\<Sum>t < 2 ^ k. (2 * real t - real (2 ^ k) + 1)\<^sup>2) * \<alpha>\<^sup>2" by (simp add: power_mult_distrib sum_distrib_right)
  finally show ?thesis unfolding sum_levels by (simp add: field_simps)
qed

lemma sum_split:
  "(\<Sum>v < 2 ^ (a + b). f (drop_bit b v) (v AND (2 ^ b - 1))) = (\<Sum>i < 2 ^ a. \<Sum>j < 2 ^ b. f i j)" for f :: "nat \<Rightarrow> nat \<Rightarrow> real"
proof -
  have m: "v AND (2 ^ b - 1) = v mod 2 ^ b" for v :: nat by (metis take_bit_eq_mask take_bit_eq_mod mask_eq_exp_minus_1)
  have bound: "i * 2 ^ b + j < 2 ^ a * 2 ^ b" if "i < 2 ^ a" "j < 2 ^ b" for i j :: nat
  proof -
    have "i * 2 ^ b + j < Suc i * 2 ^ b" using that(2) by simp
    also have "\<dots> \<le> 2 ^ a * 2 ^ b" using that(1) by (intro mult_le_mono1) simp
    finally show ?thesis .
  qed
  have "(\<Sum>v < 2 ^ (a + b). f (drop_bit b v) (v AND (2 ^ b - 1))) = (\<Sum>(i, j) \<in> {..<2 ^ a} \<times> {..<2 ^ b}. f i j)"
    unfolding m drop_bit_eq_div
    by (rule sum.reindex_bij_witness [of _ "\<lambda>(i, j). i * 2 ^ b + j" "\<lambda>v. (v div 2 ^ b, v mod 2 ^ b)"])
      (auto simp: power_add less_mult_imp_div_less div_mult_mod_eq intro: bound)
  then show ?thesis by (simp add: sum.cartesian_product)
qed

lemma weighted_mean: "B * (A * (c * (A\<^sup>2 - 1)) / 3) + A * (B * (c * (B\<^sup>2 - 1)) / 3) = B * A * (c * (A\<^sup>2 - 1 + (B\<^sup>2 - 1))) / 3" for A B c :: real
  by (simp add: algebra_simps add_divide_distrib diff_divide_distrib)

lemma energy:
  assumes "linear_ok q"
  shows "(\<Sum>v < 2 ^ lm_m q. (cmod (point q v))\<^sup>2) = 2 ^ lm_m q"
proof (cases "lm_fun q")
  case FUN_BPSK
  then show ?thesis using assms by (simp add: linear_ok_def modulate_by_def modulate_bpsk_def lessThan_Suc numeral_2_eq_2)
next
  case FUN_QPSK
  have "{..<4} = {0, Suc 0, 2, 3 :: nat}" by auto
  moreover have "M_SQRT1_2\<^sup>2 = 1 / 2" using M_SQRT1_2_positive(3) by (simp only: power2_eq_square)
  ultimately show ?thesis using FUN_QPSK assms by (simp add: linear_ok_def modulate_by_def qpsk_points cmod_power2)
next
  case FUN_OOK
  then show ?thesis using assms by (simp add: linear_ok_def modulate_by_def modulate_ook_def lessThan_Suc numeral_2_eq_2)
next
  case FUN_ASK
  have "(cmod (modulate_ask q v))\<^sup>2 = (level (lm_alpha q) (lm_m q) (gray_dec v))\<^sup>2" for v
  proof -
    have "modulate_ask q v = of_real (level (lm_alpha q) (lm_m q) (gray_dec v))"
      using FUN_ASK assms unfolding modulate_ask_def Let_def by (simp only: linear_ok_def of_nat_power of_nat_numeral)
    then show ?thesis by (simp only: norm_of_real power2_abs)
  qed
  then show ?thesis using FUN_ASK assms sum_level_points [of "lm_m q" "lm_alpha q"]
    by (simp add: linear_ok_def modulate_by_def)
next
  case FUN_QAM
  let ?l = "\<lambda>k t. (level (lm_alpha q) k (gray_dec t))\<^sup>2" and ?a = "lm_m_i q" and ?b = "lm_m_q q"
  have parts: "lm_M_i q = 2 ^ ?a" "lm_M_q q = 2 ^ ?b" "?a + ?b = lm_m q" "?a \<le> 8" "?b \<le> 8"
    using FUN_QAM assms by (auto simp: linear_ok_def qam_parts_def)
  have "(cmod (modulate_qam q v))\<^sup>2 = ?l ?a (drop_bit ?b v) + ?l ?b (v AND (2 ^ ?b - 1))" for v
    unfolding modulate_qam_def Let_def parts(1,2) cmod_power2 by simp
  then have "(\<Sum>v < 2 ^ lm_m q. (cmod (point q v))\<^sup>2) = (\<Sum>i < 2 ^ ?a. \<Sum>j < 2 ^ ?b. ?l ?a i + ?l ?b j)"
    unfolding parts(3) [symmetric] sum_split [symmetric] using FUN_QAM by (simp add: modulate_by_def)
  also have "\<dots> = 2 ^ ?b * (\<Sum>i < 2 ^ ?a. ?l ?a i) + 2 ^ ?a * (\<Sum>j < 2 ^ ?b. ?l ?b j)"
    by (simp add: sum.distrib sum_distrib_left)
  also have "\<dots> = 2 ^ ?b * 2 ^ ?a * ((lm_alpha q)\<^sup>2 * ((2 ^ ?a)\<^sup>2 - 1 + ((2 ^ ?b)\<^sup>2 - 1))) / 3"
    unfolding sum_level_points [OF parts(4)] sum_level_points [OF parts(5)] by (rule weighted_mean)
  finally show ?thesis using FUN_QAM assms parts(3) by (simp add: linear_ok_def power_add [symmetric] add.commute)
next
  case FUN_PSK
  then show ?thesis by (simp add: modulate_by_def modulate_psk_def Let_def)
qed

section \<open>Property\<close>



end
