(* ===== verification/Ofdm_Subcarriers.thy ===== *)
theory Ofdm_Subcarriers
  imports Complex_Main Msequence "HOL-Library.Signed_Division"
begin

unbundle bit_operations_syntax

text \<open>
  \<^verbatim>\<open>liquid_dsp/src/multichannel/src/ofdmframe.common.c\<close> and \<^verbatim>\<open>ofdm_radio/src/Allocations.h\<close>: which subcarriers of
  an OFDM symbol carry nothing, a pilot or data, and the two training symbols in the frequency domain, made
  from maximal-length sequences. The inverse transforms of the training symbols are floating point and not
  part of it. An allocation is an array of bytes; \<open>None\<close> is \<^verbatim>\<open>exit\<close> or an access outside the array.
\<close>

section \<open>Allocations\<close>

definition OFDMFRAME_SCTYPE_NULL :: u8 where "OFDMFRAME_SCTYPE_NULL = 0"
definition OFDMFRAME_SCTYPE_PILOT :: u8 where "OFDMFRAME_SCTYPE_PILOT = 1"
definition OFDMFRAME_SCTYPE_DATA :: u8 where "OFDMFRAME_SCTYPE_DATA = 2"

lemmas sctypes = OFDMFRAME_SCTYPE_NULL_def OFDMFRAME_SCTYPE_PILOT_def OFDMFRAME_SCTYPE_DATA_def

fun validate_loop :: "bytes \<Rightarrow> nat list \<Rightarrow> nat \<Rightarrow> nat \<Rightarrow> nat \<Rightarrow> (nat \<times> nat \<times> nat) option" where
  "validate_loop p [] M_null M_pilot M_data = Some (M_null, M_pilot, M_data)"
| "validate_loop p (i # is) M_null M_pilot M_data =
     (if p ! i = OFDMFRAME_SCTYPE_NULL then validate_loop p is (M_null + 1) M_pilot M_data
      else if p ! i = OFDMFRAME_SCTYPE_PILOT then validate_loop p is M_null (M_pilot + 1) M_data
      else if p ! i = OFDMFRAME_SCTYPE_DATA then validate_loop p is M_null M_pilot (M_data + 1)
      else None)"

definition ofdmframe_validate_sctype :: "bytes \<Rightarrow> nat \<Rightarrow> (nat \<times> nat \<times> nat) option" where
  "ofdmframe_validate_sctype p M = validate_loop p [0..<M] 0 0 0"

text \<open>One of the two bands: from subcarrier 1 up, or from the last one down; \<open>bound\<close> is the unsigned \<^verbatim>\<open>M2-G\<close>.\<close>

definition band_type :: "nat \<Rightarrow> nat \<Rightarrow> u8" where
  "band_type P i = (if (i + P div 2) mod P = 0 then OFDMFRAME_SCTYPE_PILOT else OFDMFRAME_SCTYPE_DATA)"

function band_loop :: "bool \<Rightarrow> nat \<Rightarrow> nat \<Rightarrow> nat \<Rightarrow> nat \<Rightarrow> bytes \<Rightarrow> bytes option" where
  "band_loop lower M P bound i p =
     (if i < bound then
        let k = (if lower then M - i else i)
        in if k < length p \<and> (lower \<longrightarrow> i \<le> M) then band_loop lower M P bound (i + 1) (p[k := band_type P i]) else None
      else Some p)"
  by pat_completeness auto
termination by (relation "measure (\<lambda>(lower, M, P, bound, i, p). bound - i)") auto

declare band_loop.simps [simp del]

definition init_bands :: "nat \<Rightarrow> nat \<Rightarrow> nat \<Rightarrow> bytes option" where
  "init_bands M G P =
     (let M2 = M div 2;
          bound = (if G \<le> M2 then M2 - G else M2 + 2 ^ 32 - G);
          p = replicate M OFDMFRAME_SCTYPE_NULL
      in do {
        p \<leftarrow> band_loop False M P bound 1 p;
        band_loop True M P bound 1 p
      })"

definition ofdmframe_init_default_sctype :: "nat \<Rightarrow> bytes option" where
  "ofdmframe_init_default_sctype M =
     (let G = M div 10;
          G = (if G < 2 then 2 else G);
          P = (if M > 34 then 8 else 4)
      in init_bands M G P)"

text \<open>The guard band as a fraction of the subcarriers.\<close>

definition ofdmframe_init_sctype :: "nat \<Rightarrow> rat \<Rightarrow> bytes option" where
  "ofdmframe_init_sctype M guard_percentage =
     (let G = nat \<lfloor>of_nat M * guard_percentage\<rfloor>;
          G = (if G < 2 then 2 else G)
      in init_bands M G 4)"

section \<open>The allocations of the radio\<close>

fun set_range :: "nat list \<Rightarrow> u8 \<Rightarrow> bytes \<Rightarrow> bytes" where
  "set_range [] v p = p"
| "set_range (i # is) v p = set_range is v (p[i := v])"

definition createOuterPilotAllocation :: "bytes \<Rightarrow> bytes option" where
  "createOuterPilotAllocation p =
     (if length p < 512 then None
      else
        let p = set_range [0..<178] OFDMFRAME_SCTYPE_DATA p;
            p = set_range [178..<178 + 52] OFDMFRAME_SCTYPE_PILOT p;
            p = set_range [178 + 52..<178 + 52 + 52] OFDMFRAME_SCTYPE_NULL p;
            p = set_range [178 + 52 + 52..<178 + 52 + 52 + 52] OFDMFRAME_SCTYPE_PILOT p;
            p = set_range [178 + 52 + 52 + 52..<512] OFDMFRAME_SCTYPE_DATA p;
            p = p[511 := OFDMFRAME_SCTYPE_NULL]
        in Some (p[0 := OFDMFRAME_SCTYPE_NULL]))"

definition createInnerPilotAllocation :: "bytes \<Rightarrow> bytes option" where
  "createInnerPilotAllocation p =
     (if length p < 512 then None
      else
        let p = set_range [0..<106] OFDMFRAME_SCTYPE_DATA p;
            p = set_range [106..<106 + 52] OFDMFRAME_SCTYPE_PILOT p;
            p = set_range [106 + 52..<106 + 52 + 72] OFDMFRAME_SCTYPE_DATA p;
            p = set_range [106 + 52 + 72..<106 + 52 + 72 + 52] OFDMFRAME_SCTYPE_NULL p;
            p = set_range [106 + 52 + 72 + 52..<106 + 52 + 72 + 52 + 72] OFDMFRAME_SCTYPE_DATA p;
            p = set_range [106 + 52 + 72 + 52 + 72..<106 + 52 + 72 + 52 + 72 + 52] OFDMFRAME_SCTYPE_PILOT p;
            p = set_range [106 + 52 + 72 + 52 + 72 + 52..<512] OFDMFRAME_SCTYPE_DATA p;
            p = p[511 := OFDMFRAME_SCTYPE_NULL]
        in Some (p[0 := OFDMFRAME_SCTYPE_NULL]))"

text \<open>A hole of null subcarriers between two positions counted from the middle; \<open>%\<close> truncates towards 0.\<close>

definition openNullHole :: "bytes \<Rightarrow> int \<Rightarrow> int \<Rightarrow> bytes option" where
  "openNullHole p start0 end0 =
     (let start0 = (start0 + 256) smod 512;
          end0 = (end0 + 256) smod 512;
          (start0, end0) = (if start0 < 0 then (256, 356) else (start0, end0))
      in if length p < 512 then None
         else if start0 > end0
         then let p = set_range [nat start0..<512] OFDMFRAME_SCTYPE_NULL p
              in Some (set_range [0..<nat (end0 + 1)] OFDMFRAME_SCTYPE_NULL p)
         else Some (set_range [nat start0..<nat (end0 + 1)] OFDMFRAME_SCTYPE_NULL p))"

section \<open>Training symbols\<close>

fun nextpow2_loop :: "nat \<Rightarrow> nat \<Rightarrow> nat" where
  "nextpow2_loop x n = (if x > 0 then nextpow2_loop (x div 2) (n + 1) else n)"

declare nextpow2_loop.simps [simp del]

definition liquid_nextpow2 :: "nat \<Rightarrow> nat option" where
  "liquid_nextpow2 x = (if x = 0 then None else Some (nextpow2_loop (x - 1) 0))"

definition S0_order :: "nat \<Rightarrow> nat option" where
  "S0_order M = do { m \<leftarrow> liquid_nextpow2 M; Some (if m < 4 then 4 else if m > 8 then 8 else m) }"

fun S0_loop :: "bytes \<Rightarrow> nat list \<Rightarrow> msequence \<Rightarrow> int list \<Rightarrow> nat \<Rightarrow> int list \<times> nat" where
  "S0_loop p [] ms S0 M_S0 = (S0, M_S0)"
| "S0_loop p (i # is) ms S0 M_S0 =
     (let (s, ms) = msequence_generate_symbol ms 3;
          s = s AND 1
      in if p ! i = OFDMFRAME_SCTYPE_NULL then S0_loop p is ms (S0 @ [0]) M_S0
         else if i mod 2 = 0 then S0_loop p is ms (S0 @ [if s \<noteq> 0 then 1 else -1]) (M_S0 + 1)
         else S0_loop p is ms (S0 @ [0]) M_S0)"

definition ofdmframe_init_S0 :: "bytes \<Rightarrow> nat \<Rightarrow> (int list \<times> nat) option" where
  "ofdmframe_init_S0 p M = do {
     m \<leftarrow> S0_order M;
     ms \<leftarrow> msequence_create_default m;
     let (S0, M_S0) = S0_loop p [0..<M] ms [] 0;
     (if M_S0 = 0 then None else Some (S0, M_S0))
   }"

fun S1_loop :: "bytes \<Rightarrow> nat list \<Rightarrow> msequence \<Rightarrow> int list \<Rightarrow> nat \<Rightarrow> int list \<times> nat" where
  "S1_loop p [] ms S1 M_S1 = (S1, M_S1)"
| "S1_loop p (i # is) ms S1 M_S1 =
     (let (s, ms) = msequence_generate_symbol ms 3;
          s = s AND 1
      in if p ! i = OFDMFRAME_SCTYPE_NULL then S1_loop p is ms (S1 @ [0]) M_S1
         else S1_loop p is ms (S1 @ [if s \<noteq> 0 then 1 else -1]) (M_S1 + 1))"

definition ofdmframe_init_S1 :: "bytes \<Rightarrow> nat \<Rightarrow> (int list \<times> nat) option" where
  "ofdmframe_init_S1 p M = do {
     m \<leftarrow> S0_order M;
     ms \<leftarrow> msequence_create_default (m + 1);
     let (S1, M_S1) = S1_loop p [0..<M] ms [] 0;
     (if M_S1 = 0 then None else Some (S1, M_S1))
   }"

section \<open>Counting and filling\<close>

lemma validate_loop_eq:
  "validate_loop p is a b c = (if \<forall>i \<in> set is. p ! i \<in> {0, 1, 2}
     then Some (a + length (filter (\<lambda>i. p ! i = 0) is), b + length (filter (\<lambda>i. p ! i = 1) is), c + length (filter (\<lambda>i. p ! i = 2) is))
     else None)"
  by (induction "is" arbitrary: a b c) (auto simp: sctypes)

lemma set_range_nth: "(\<And>i. i \<in> set is \<Longrightarrow> i < length p) \<Longrightarrow> k < length p \<Longrightarrow> set_range is v p ! k = (if k \<in> set is then v else p ! k)"
  by (induction "is" arbitrary: p) auto

lemma set_range_length [simp]: "length (set_range is v p) = length p"
  by (induction "is" arbitrary: p) auto

declare set_range.simps [simp del]

lemma band_loop_eq:
  assumes "bound \<le> i + n" "length p = M" "\<And>j. i \<le> j \<Longrightarrow> j < bound \<Longrightarrow> 0 < j \<and> j < M"
  shows "\<exists>q. band_loop lower M P bound i p = Some q \<and> length q = M \<and>
    (\<forall>k < M. q ! k = (let j = (if lower then M - k else k) in if i \<le> j \<and> j < bound then band_type P j else p ! k))"
  using assms
proof (induction n arbitrary: i p)
  case 0
  then show ?case by (subst band_loop.simps) (auto simp: Let_def)
next
  case (Suc n)
  show ?case
  proof (cases "i < bound")
    case True
    let ?k = "if lower then M - i else i"
    have i: "0 < i" "i < M" using Suc.prems(3) [of i] True by auto
    obtain q where q: "band_loop lower M P bound (i + 1) (p[?k := band_type P i]) = Some q" "length q = M"
      "\<forall>k < M. q ! k = (let j = (if lower then M - k else k) in if i + 1 \<le> j \<and> j < bound then band_type P j else p[?k := band_type P i] ! k)"
      using Suc.IH [of "i + 1" "p[?k := band_type P i]"] Suc.prems by auto
    have "q ! k = (let j = (if lower then M - k else k) in if i \<le> j \<and> j < bound then band_type P j else p ! k)" if "k < M" for k
    proof (cases "(if lower then M - k else k) = i")
      case True
      then have "k = ?k" using that by auto
      then show ?thesis using q(3) that True \<open>i < bound\<close> Suc.prems(2) by (auto simp: Let_def)
    next
      case False
      then have "k \<noteq> ?k" using i by auto
      then show ?thesis using q(3) that False by (auto simp: Let_def nth_list_update)
    qed
    then show ?thesis using q(1,2) True i Suc.prems(2) by (subst band_loop.simps) (auto simp: Let_def)
  qed (subst band_loop.simps, auto simp: Let_def Suc.prems)
qed


lemma nextpow2_loop_width: "nextpow2_loop x n = n + bit_width x"
proof (induction x arbitrary: n rule: bit_width.induct)
  case (1 x)
  then show ?case by (subst nextpow2_loop.simps, subst bit_width.simps) simp
qed

lemma advance_out: "fst (msequence_advance ms) = of_bool (fst (msequence_advance ms) = 1)"
  by (simp add: msequence_advance_def Let_def liquid_bdotprod_parity)

text \<open>The last bit of a symbol of three bits is the third output.\<close>

lemma generate_symbol_3:
  "snd (msequence_generate_symbol ms 3) = advance_n 3 ms \<and>
   (fst (msequence_generate_symbol ms 3) AND 1 \<noteq> 0 \<longleftrightarrow> fst (msequence_advance (advance_n 2 ms)) = 1)"
proof -
  have "[0..<3] = [0, 1, 2 :: nat]" by (simp add: upt_rec)
  then have "snd (msequence_generate_symbol ms 3) = advance_n 3 ms"
    and "fst (msequence_generate_symbol ms 3) =
      push_bit 1 (push_bit 1 (fst (msequence_advance ms)) OR fst (msequence_advance (snd (msequence_advance ms)))) OR
      fst (msequence_advance (advance_n 2 ms))"
    by (simp_all add: msequence_generate_symbol_def split_def Let_def numeral_3_eq_3 numeral_2_eq_2 del: push_bit_numeral push_bit_Suc)
  moreover have "(push_bit 1 w OR of_bool b) AND 1 \<noteq> (0 :: u32) \<longleftrightarrow> b" for w b
    by (cases b) (auto simp add: and_one_eq mod_2_eq_odd even_or_iff)
  ultimately show ?thesis using advance_out [of "advance_n 2 ms"] by metis
qed

definition training :: "(nat \<Rightarrow> bool) \<Rightarrow> msequence \<Rightarrow> nat \<Rightarrow> int" where
  "training on ms i = (if on i then if fst (msequence_advance (advance_n (3 * i + 2) ms)) = 1 then 1 else -1 else 0)"

lemma advance_n_add: "advance_n i (advance_n j ms) = advance_n (i + j) ms"
  by (induction i) simp_all

lemma S0_loop_eq:
  "S0_loop p [i..<i + n] (advance_n (3 * i) ms) S0 c = (S0 @ map (training (\<lambda>i. p ! i \<noteq> 0 \<and> even i) ms) [i..<i + n],
    c + length (filter (\<lambda>i. p ! i \<noteq> 0 \<and> even i) [i..<i + n]))"
proof (induction n arbitrary: i S0 c)
  case (Suc n)
  have u: "[i..<i + Suc n] = i # [Suc i..<Suc i + n]" by (simp add: upt_rec)
  obtain s ms' where s: "msequence_generate_symbol (advance_n (3 * i) ms) 3 = (s, ms')" by fastforce
  have s': "ms' = advance_n (3 * Suc i) ms" "s AND 1 \<noteq> 0 \<longleftrightarrow> fst (msequence_advance (advance_n (3 * i + 2) ms)) = 1"
    using generate_symbol_3 [of "advance_n (3 * i) ms"] s by (simp_all add: advance_n_add add.commute)
  show ?case unfolding u S0_loop.simps s Let_def prod.case s'(1) Suc.IH
    using s'(2) by (auto simp: training_def sctypes even_iff_mod_2_eq_zero)
qed simp

lemma S1_loop_eq:
  "S1_loop p [i..<i + n] (advance_n (3 * i) ms) S1 c = (S1 @ map (training (\<lambda>i. p ! i \<noteq> 0) ms) [i..<i + n],
    c + length (filter (\<lambda>i. p ! i \<noteq> 0) [i..<i + n]))"
proof (induction n arbitrary: i S1 c)
  case (Suc n)
  have u: "[i..<i + Suc n] = i # [Suc i..<Suc i + n]" by (simp add: upt_rec)
  obtain s ms' where s: "msequence_generate_symbol (advance_n (3 * i) ms) 3 = (s, ms')" by fastforce
  have s': "ms' = advance_n (3 * Suc i) ms" "s AND 1 \<noteq> 0 \<longleftrightarrow> fst (msequence_advance (advance_n (3 * i + 2) ms)) = 1"
    using generate_symbol_3 [of "advance_n (3 * i) ms"] s by (simp_all add: advance_n_add add.commute)
  show ?case unfolding u S1_loop.simps s Let_def prod.case s'(1) Suc.IH
    using s'(2) by (auto simp: training_def sctypes)
qed simp


lemma S0_order_some: "0 < M \<Longrightarrow> \<exists>m. S0_order M = Some m \<and> 4 \<le> m \<and> m \<le> 8"
  by (auto simp: S0_order_def liquid_nextpow2_def)

lemma created_order: "2 \<le> m \<Longrightarrow> m \<le> 15 \<Longrightarrow> \<exists>ms. msequence_create_default m = Some ms"
  by (simp add: msequence_create_default_def LIQUID_MIN_MSEQUENCE_M_def LIQUID_MAX_MSEQUENCE_M_def)

section \<open>Properties\<close>

text \<open>
  C37: the default allocation of \<open>M\<close> subcarriers is made, without a write outside the array, exactly for 4 subcarriers
  and more; then the type of a subcarrier depends on its distance \<open>d\<close> from subcarrier 0 in either direction: none
  for \<open>d = 0\<close> and in the guard band of \<open>max 2 (M div 10)\<close> around the middle, elsewhere a pilot at every 8th (or, up
  to 34 subcarriers, 4th) distance and data at the others. It is valid, it counts what the radio needs, and there
  is a data subcarrier exactly from 8 subcarriers on.
\<close>

theorem default_allocation:
  "(ofdmframe_init_default_sctype M = None \<longleftrightarrow> M < 4) \<and>
   (\<forall>p. ofdmframe_init_default_sctype M = Some p \<longrightarrow> length p = M \<and>
     (\<forall>k < M. p ! k =
       (let d = min k (M - k); P = (if 34 < M then 8 else 4)
        in if d = 0 \<or> M div 2 \<le> d + max 2 (M div 10) then 0 else if (d + P div 2) mod P = 0 then 1 else 2)) \<and>
     (\<exists>a b c. ofdmframe_validate_sctype p M = Some (a, b, c) \<and> a + b + c = M \<and> (0 < c \<longleftrightarrow> 8 \<le> M)))"
proof -
  let ?G = "max 2 (M div 10)" and ?P = "if 34 < M then 8 else 4 :: nat"
  have def: "ofdmframe_init_default_sctype M = init_bands M ?G ?P"
    by (simp add: ofdmframe_init_default_sctype_def Let_def max_def not_le)
  show ?thesis
  proof (cases "4 \<le> M")
    case True
    have G: "?G \<le> M div 2" using True by auto
    define b where "b = M div 2 - ?G"
    let ?z = "replicate M OFDMFRAME_SCTYPE_NULL"
    have b: "b \<le> 1 + M" "\<And>j. 1 \<le> j \<Longrightarrow> j < b \<Longrightarrow> 0 < j \<and> j < M" by (auto simp: b_def)
    obtain p1 where p1: "band_loop False M ?P b 1 ?z = Some p1" "length p1 = M"
      "\<forall>k < M. p1 ! k = (if 1 \<le> k \<and> k < b then band_type ?P k else ?z ! k)"
      using band_loop_eq [of b 1 M ?z M False ?P] b by (auto simp: Let_def simp del: One_nat_def)
    obtain p2 where p2: "band_loop True M ?P b 1 p1 = Some p2" "length p2 = M"
      "\<forall>k < M. p2 ! k = (if 1 \<le> M - k \<and> M - k < b then band_type ?P (M - k) else p1 ! k)"
      using band_loop_eq [of b 1 M p1 M True ?P] p1(2) b by (auto simp: Let_def simp del: One_nat_def)
    have run: "ofdmframe_init_default_sctype M = Some p2"
      using p1(1) p2(1) G by (simp add: def init_bands_def Let_def b_def)
    let ?t = "\<lambda>k. let d = min k (M - k) in if d = 0 \<or> M div 2 \<le> d + ?G then 0 else if (d + ?P div 2) mod ?P = 0 then 1 else 2 :: u8"
    have t: "p2 ! k = ?t k" if k: "k < M" for k
    proof (cases "M - k < b")
      case True
      then have "min k (M - k) = M - k" "M - k \<noteq> 0" "\<not> M div 2 \<le> M - k + ?G" using k by (auto simp: b_def)
      then show ?thesis using p2(3) k True by (auto simp: Let_def band_type_def sctypes)
    next
      case False
      show ?thesis
      proof (cases "k < b")
        case True
        then have "min k (M - k) = k" "\<not> M div 2 \<le> k + ?G" by (auto simp: b_def)
        then show ?thesis using p2(3) p1(3) k False True by (cases k) (auto simp: Let_def band_type_def sctypes)
      next
        case F: False
        then have "M div 2 \<le> min k (M - k) + ?G" using False by (simp add: b_def min_def not_less le_diff_conv)
        then show ?thesis using p2(3) p1(3) k False F by (auto simp: Let_def sctypes)
      qed
    qed
    have types: "p2 ! k \<in> {0, 1, 2}" if "k < M" for k using t [OF that] by (auto simp: Let_def)
    have tl: "\<exists>a b c. ofdmframe_validate_sctype p2 M = Some (a, b, c) \<and> a + b + c = M \<and> (0 < c \<longleftrightarrow> 8 \<le> M)"
    proof -
      let ?c = "\<lambda>v. length (filter (\<lambda>i. p2 ! i = v) [0..<M])"
      have v: "ofdmframe_validate_sctype p2 M = Some (?c 0, ?c 1, ?c 2)"
        using types by (auto simp: ofdmframe_validate_sctype_def validate_loop_eq)
      have "n \<le> M \<Longrightarrow> length (filter (\<lambda>i. p2 ! i = 0) [0..<n]) + length (filter (\<lambda>i. p2 ! i = 1) [0..<n]) + length (filter (\<lambda>i. p2 ! i = 2) [0..<n]) = n" for n
      proof (induction n)
        case (Suc n)
        then have "p2 ! n \<in> {0, 1, 2}" using types [of n] by simp
        then show ?case using Suc by auto
      qed simp
      then have s: "?c 0 + ?c 1 + ?c 2 = M" by simp
      have "0 < ?c 2 \<longleftrightarrow> (\<exists>k < M. p2 ! k = 2)" by (auto simp: filter_empty_conv)
      also have "\<dots> \<longleftrightarrow> 8 \<le> M"
      proof
        assume "8 \<le> M"
        then have "p2 ! 1 = 2" using t [of 1] by (auto simp: Let_def min_def max_def)
        then show "\<exists>k < M. p2 ! k = 2" using \<open>8 \<le> M\<close> by (intro exI [of _ 1]) simp
      next
        assume "\<exists>k < M. p2 ! k = 2"
        then obtain k where k: "k < M" "p2 ! k = 2" by blast
        then have "min k (M - k) \<noteq> 0" "\<not> M div 2 \<le> min k (M - k) + ?G" using t [OF k(1)] by (auto simp: Let_def split: if_splits)
        then have "3 < M div 2" by auto
        then show "8 \<le> M" by simp
      qed
      finally show ?thesis using v s by blast
    qed
    show ?thesis using run p2(2) t tl True by (simp add: Let_def)
  next
    case False
    have "init_bands M ?G ?P = None"
    proof -
      have G: "?G = 2" "\<not> ?G \<le> M div 2" using False by auto
      have "band_loop False M P (M div 2 + 2 ^ 32 - 2) 1 (replicate M z) = None" for P z
      proof -
        have n: "band_loop False M P B i p = None" if "M \<le> i + n" "length p = M" "M < B" "i \<le> M" for n B i p
          using that
        proof (induction n arbitrary: i p)
          case 0
          then show ?case by (subst band_loop.simps) simp
        next
          case (Suc n)
          then show ?case by (subst band_loop.simps) (simp add: Let_def)
        qed
        show ?thesis
        proof (cases M)
          case 0
          then show ?thesis by (subst band_loop.simps) simp
        next
          case (Suc m)
          then show ?thesis using n [of 1 M "replicate M z" "M div 2 + 2 ^ 32 - 2"] False by simp
        qed
      qed
      then show ?thesis using G(2) unfolding init_bands_def Let_def G(1) by simp
    qed
    then show ?thesis using False def by simp
  qed
qed


theorem default_allocation_witness:
  "\<exists>p a b c. ofdmframe_init_default_sctype 64 = Some p \<and> length p = 64 \<and> p ! 63 = 2 \<and> p ! 60 = 1 \<and> p ! 32 = 0 \<and>
    ofdmframe_validate_sctype p 64 = Some (a, b, c) \<and> a + b + c = 64 \<and> 0 < c"
proof -
  note d = default_allocation [of 64]
  obtain p where p: "ofdmframe_init_default_sctype 64 = Some p" using d by (cases "ofdmframe_init_default_sctype 64") auto
  then have q: "length p = 64" "\<And>k. k < 64 \<Longrightarrow> p ! k = (let d = min k (64 - k); P = (if 34 < (64 :: nat) then 8 else 4)
        in if d = 0 \<or> 64 div 2 \<le> d + max 2 (64 div 10) then 0 else if (d + P div 2) mod P = 0 then 1 else 2)"
    "\<exists>a b c. ofdmframe_validate_sctype p 64 = Some (a, b, c) \<and> a + b + c = 64 \<and> (0 < c \<longleftrightarrow> 8 \<le> (64 :: nat))"
    using d by blast+
  show ?thesis using p q(1) q(2) [of 63] q(2) [of 60] q(2) [of 32] q(3) by (auto simp: Let_def)
qed

lemma smod_nonneg: "0 \<le> x \<Longrightarrow> x smod 512 = x mod 512" for x :: int
  by (cases "x = 0") (simp_all add: signed_modulo_int_def signed_divide_int_def minus_div_mult_eq_mod)

lemma smod_neg: "-512 < x \<Longrightarrow> x < 0 \<Longrightarrow> x smod 512 < 0" for x :: int
  by (simp add: signed_modulo_int_def signed_divide_int_def)

lemma set_range_upt: "b \<le> length p \<Longrightarrow> k < length p \<Longrightarrow> set_range [a..<b] v p ! k = (if a \<le> k \<and> k < b then v else p ! k)"
  by (subst set_range_nth) auto

lemma hole_nth:
  assumes "0 \<le> s" "s < 512" "0 \<le> e" "e < 512" "512 \<le> length p" "k < length p"
  shows "(if s > e then set_range [0..<nat (e + 1)] v (set_range [nat s..<512] v p) else set_range [nat s..<nat (e + 1)] v p) ! k =
    (if (if s > e then s \<le> int k \<and> k < 512 \<or> int k \<le> e else s \<le> int k \<and> int k \<le> e) then v else p ! k)"
proof -
  have "set_range [0..<nat (e + 1)] v (set_range [nat s..<512] v p) ! k =
      (if k < nat (e + 1) then v else if nat s \<le> k \<and> k < 512 then v else p ! k)"
    using assms by (subst set_range_nth; (subst set_range_nth)?) auto
  moreover have "set_range [nat s..<nat (e + 1)] v p ! k = (if nat s \<le> k \<and> k < nat (e + 1) then v else p ! k)"
    using assms by (subst set_range_nth) auto
  moreover have "nat s \<le> k \<longleftrightarrow> s \<le> int k" "k < nat (e + 1) \<longleftrightarrow> int k \<le> e" using assms by auto
  ultimately show ?thesis by auto
qed

text \<open>The residues of an interval, as an interval or as two.\<close>

lemma arc_mod:
  fixes a b :: int
  assumes "a \<le> b" "b < a + 512"
  shows "(\<exists>x. a \<le> x \<and> x \<le> b \<and> int k = (x + 256) mod 512) \<longleftrightarrow>
    (if (a + 256) mod 512 > (b + 256) mod 512 then (a + 256) mod 512 \<le> int k \<and> k < 512 \<or> int k \<le> (b + 256) mod 512
     else (a + 256) mod 512 \<le> int k \<and> int k \<le> (b + 256) mod 512)"
proof -
  define s e q r where "s = (a + 256) mod 512" and "e = (b + 256) mod 512" and "q = (a + 256) div 512" and "r = (b + 256) div 512"
  have ab: "a = 512 * q + s - 256" "b = 512 * r + e - 256" "0 \<le> s" "s < 512" "0 \<le> e" "e < 512"
    by (simp_all add: s_def e_def q_def r_def)
  have qr: "r = q \<and> s \<le> e \<or> r = q + 1 \<and> e < s" using ab assms by linarith
  show ?thesis unfolding s_def [symmetric] e_def [symmetric]
  proof
    assume "\<exists>x. a \<le> x \<and> x \<le> b \<and> int k = (x + 256) mod 512"
    then obtain x where x: "a \<le> x" "x \<le> b" "int k = (x + 256) mod 512" by blast
    then have "x = 512 * ((x + 256) div 512) + int k - 256" "0 \<le> int k" "int k < 512" by simp_all
    then obtain t where t: "x = 512 * t + int k - 256" "int k < 512" by blast
    then show "if e < s then s \<le> int k \<and> k < 512 \<or> int k \<le> e else s \<le> int k \<and> int k \<le> e"
      using qr ab x(1,2) by (cases "t = q"; cases "t = r") auto
  next
    assume k: "if e < s then s \<le> int k \<and> k < 512 \<or> int k \<le> e else s \<le> int k \<and> int k \<le> e"
    then have kl: "int k < 512" using ab by (auto split: if_splits)
    define t where "t = (if s \<le> int k then q else r)"
    have "a \<le> 512 * t + int k - 256" "512 * t + int k - 256 \<le> b"
      using k qr ab kl by (auto simp: t_def split: if_splits)
    moreover have "(512 * t + int k - 256 + 256) mod 512 = int k" using kl by simp
    ultimately show "\<exists>x. a \<le> x \<and> x \<le> b \<and> int k = (x + 256) mod 512" by (intro exI [of _ "512 * t + int k - 256"]) simp
  qed
qed



text \<open>
  C36: the training symbols. For every allocation of at least one subcarrier the short symbol has a value of 1 or -1 exactly at the
  even subcarriers that are not null, the long symbol at all that are not null; the signs are every third
  output of the default register of an order that is by one larger for the long symbol, and the counts are those of
  the subcarriers with a value. A symbol without any is refused.
\<close>

theorem training_symbols:
  assumes "0 < M" "length p = M"
  shows "\<exists>m ms ms'. 4 \<le> m \<and> m \<le> 8 \<and> msequence_create_default m = Some ms \<and> msequence_create_default (m + 1) = Some ms' \<and>
    ofdmframe_init_S0 p M = (let n = length (filter (\<lambda>i. p ! i \<noteq> 0 \<and> even i) [0..<M])
      in if n = 0 then None else Some (map (training (\<lambda>i. p ! i \<noteq> 0 \<and> even i) ms) [0..<M], n)) \<and>
    ofdmframe_init_S1 p M = (let n = length (filter (\<lambda>i. p ! i \<noteq> 0) [0..<M])
      in if n = 0 then None else Some (map (training (\<lambda>i. p ! i \<noteq> 0) ms') [0..<M], n))"
proof -
  obtain m where m: "S0_order M = Some m" "4 \<le> m" "m \<le> 8" using S0_order_some [OF assms(1)] by blast
  obtain ms where ms: "msequence_create_default m = Some ms" using created_order [of m] m by auto
  obtain ms' where ms': "msequence_create_default (m + 1) = Some ms'" using created_order [of "m + 1"] m by auto
  show ?thesis
    using m ms ms' S0_loop_eq [of p 0 M ms "[]" 0] S1_loop_eq [of p 0 M ms' "[]" 0]
    by (intro exI [of _ m] exI [of _ ms] exI [of _ ms']) (simp add: ofdmframe_init_S0_def ofdmframe_init_S1_def Let_def)
qed


theorem training_symbols_witness:
  "\<exists>m ms ms'. 4 \<le> m \<and> m \<le> 8 \<and> msequence_create_default m = Some ms \<and> msequence_create_default (m + 1) = Some ms' \<and>
    ofdmframe_init_S0 [0, 2, 1, 2, 0, 2, 1, 2] 8 = Some (map (training (\<lambda>i. [0, 2, 1, 2, 0, 2, 1, 2 :: u8] ! i \<noteq> 0 \<and> even i) ms) [0..<8], 2) \<and>
    ofdmframe_init_S1 [0, 2, 1, 2, 0, 2, 1, 2] 8 = Some (map (training (\<lambda>i. [0, 2, 1, 2, 0, 2, 1, 2 :: u8] ! i \<noteq> 0) ms') [0..<8], 6)"
proof -
  let ?p = "[0, 2, 1, 2, 0, 2, 1, 2] :: bytes"
  have "length (filter (\<lambda>i. ?p ! i \<noteq> 0 \<and> even i) [0..<8]) = 2" "length (filter (\<lambda>i. ?p ! i \<noteq> 0) [0..<8]) = 6"
    by (simp_all add: upt_rec)
  moreover note training_symbols [of 8 ?p]
  ultimately show ?thesis by (auto simp: Let_def simp del: upt_rec_numeral)
qed

end
