(* ===== verification/Ofdm_Flexframe_Gen.thy ===== *)
theory Ofdm_Flexframe_Gen
  imports Packetizer Scramble Modem_Schemes Ofdm_Subcarriers
begin

unbundle bit_operations_syntax

text \<open>
  \<^verbatim>\<open>liquid_dsp/src/framing/src/ofdmflexframegen.c\<close>: the frame generator, for one user and for several (OFDMA). A frame
  is two short training symbols, a long one, the symbols of the header and those of the payload; the model ends
  where a symbol is handed to \<^verbatim>\<open>ofdmframegen\<close> to be transformed to the time domain, with the values of all
  its subcarriers. The modems are a parameter \<open>A\<close> (\<open>modem_api\<close>), the contents of new memory a function \<open>mem\<close> of its
  size, the random symbols a function \<open>rnd\<close> of the subcarrier. \<open>None\<close> is \<^verbatim>\<open>exit\<close>, an access outside an array
  or a division by zero. The transform lengths and the object \<^verbatim>\<open>fg\<close> are not part of the state, nor is the
  buffer \<^verbatim>\<open>X\<close>, which is the output. The parallel arrays of the users are one list of records.
\<close>

section \<open>Modems\<close>

record ('m, 'c) modem_api =
  api_create :: "modulation_scheme \<Rightarrow> 'm option"
  api_scheme :: "'m \<Rightarrow> modulation_scheme"
  api_size :: "'m \<Rightarrow> nat"
  api_modulate :: "'m \<Rightarrow> nat \<Rightarrow> ('c \<times> 'm) option"
  api_demodulate :: "'m \<Rightarrow> 'c \<Rightarrow> nat \<times> 'm"

definition modem_recreate :: "('m, 'c) modem_api \<Rightarrow> 'm \<Rightarrow> modulation_scheme \<Rightarrow> 'm option" where
  "modem_recreate A m s = (if api_scheme A m \<noteq> s then api_create A s else Some m)"

section \<open>State\<close>

definition OFDMFLEXFRAME_VERSION :: nat where "OFDMFLEXFRAME_VERSION = 104"
definition OFDMFLEXFRAME_H_USER :: nat where "OFDMFLEXFRAME_H_USER = 8"
definition OFDMFLEXFRAME_H_DEC :: nat where "OFDMFLEXFRAME_H_DEC = OFDMFLEXFRAME_H_USER + 6"
definition OFDMFLEXFRAME_H_CRC :: crc_scheme where "OFDMFLEXFRAME_H_CRC = CRC_32"
definition OFDMFLEXFRAME_H_FEC :: fec_scheme where "OFDMFLEXFRAME_H_FEC = FEC_GOLAY2412"
definition OFDMFLEXFRAME_H_ENC :: nat where "OFDMFLEXFRAME_H_ENC = 36"
definition OFDMFLEXFRAME_H_MOD :: modulation_scheme where "OFDMFLEXFRAME_H_MOD = MODEM_BPSK"
definition OFDMFLEXFRAME_H_BPS :: nat where "OFDMFLEXFRAME_H_BPS = 1"
definition OFDMFLEXFRAME_H_SYM :: nat where "OFDMFLEXFRAME_H_SYM = 288"

definition UNALLOCATED :: nat where "UNALLOCATED = 100"
definition RESERVED :: nat where "RESERVED = 101"

record ofdmflexframegenprops_s =
  fp_check :: crc_scheme
  fp_fec0 :: fec_scheme
  fp_fec1 :: fec_scheme
  fp_mod_scheme :: modulation_scheme

definition ofdmflexframegenprops_default :: ofdmflexframegenprops_s where
  "ofdmflexframegenprops_default =
     \<lparr>fp_check = CRC_32, fp_fec0 = FEC_NONE, fp_fec1 = FEC_NONE, fp_mod_scheme = MODEM_QPSK\<rparr>"

datatype gen_state = GEN_S0a | GEN_S0b | GEN_S1 | GEN_HEADER | GEN_PAYLOAD

record 'm flex_user =
  u_packetizer :: packetizer_s
  u_dec_len :: nat
  u_modem :: 'm
  u_payload :: bytes
  u_enc :: bytes
  u_mod :: bytes
  u_enc_len :: nat
  u_mod_len :: nat
  u_symbol_index :: nat

record 'm ofdmflexframegen =
  fg_M :: nat
  fg_p :: bytes
  fg_M_null :: nat
  fg_M_pilot :: nat
  fg_M_data :: nat
  num_symbols_header :: nat
  num_symbols_payload :: nat
  mod_header :: 'm
  p_header :: packetizer_s
  fg_header :: bytes
  header_enc :: bytes
  header_mod :: bytes
  p_payload :: packetizer_s
  payload_dec_len :: nat
  mod_payload :: 'm
  payload_enc :: bytes
  payload_mod :: bytes
  payload_enc_len :: nat
  payload_mod_len :: nat
  fg_users :: "'m flex_user list"
  fg_ofdma :: bool
  dummy_data :: bool
  num_users :: nat
  subcarrier_map :: bytes
  num_subcarriers :: "nat list"
  frames_sent_since_last_use :: "nat list"
  reallocation_delay :: nat
  largest_payload :: nat
  index_of_user_with_largest_payload :: nat
  index_of_user_with_least_subcarriers :: nat
  h_user_dynamic :: nat
  h_dec_dynamic :: nat
  h_enc_dynamic :: nat
  h_sym_dynamic :: nat
  symbol_number :: nat
  gen_state :: gen_state
  frame_assembled :: bool
  frame_complete :: bool
  header_symbol_index :: nat
  payload_symbol_index :: nat
  gen_props :: ofdmflexframegenprops_s

section \<open>Memory and lengths\<close>

definition realloc_bytes :: "(nat \<Rightarrow> bytes) \<Rightarrow> bytes \<Rightarrow> nat \<Rightarrow> bytes" where
  "realloc_bytes mem old n = take n old @ drop (length old) (mem n)"

text \<open>The quotient and one more for a remainder; \<^verbatim>\<open>div\<close> by zero is a trap.\<close>

definition div_up :: "nat \<Rightarrow> nat \<Rightarrow> nat option" where
  "div_up a b = (if b = 0 then None else Some (ceil_div a b))"

text \<open>Reading \<open>n\<close> bytes of an array.\<close>

definition read_bytes :: "nat \<Rightarrow> bytes \<Rightarrow> bytes option" where
  "read_bytes n xs = (if n \<le> length xs then Some (take n xs) else None)"

text \<open>The two buffers a new packetizer allocates.\<close>

definition packetizer_mem :: "(nat \<Rightarrow> bytes) \<Rightarrow> nat \<Rightarrow> crc_scheme \<Rightarrow> fec_scheme \<Rightarrow> fec_scheme \<Rightarrow> bytes" where
  "packetizer_mem mem n crc fec0 fec1 =
     (case packetizer_compute_enc_msg_len n crc fec0 fec1 of None \<Rightarrow> [] | Some l \<Rightarrow> mem (8 * l))"

definition new_packetizer ::
  "(fec_scheme \<Rightarrow> fec_s) \<Rightarrow> (nat \<Rightarrow> bytes) \<Rightarrow> nat \<Rightarrow> crc_scheme \<Rightarrow> fec_scheme \<Rightarrow> fec_scheme \<Rightarrow> packetizer_s option" where
  "new_packetizer L mem n crc fec0 fec1 =
     (let b = packetizer_mem mem n crc fec0 fec1 in packetizer_create L b b n crc fec0 fec1)"

definition renew_packetizer ::
  "(fec_scheme \<Rightarrow> fec_s) \<Rightarrow> (nat \<Rightarrow> bytes) \<Rightarrow> packetizer_s \<Rightarrow> nat \<Rightarrow> crc_scheme \<Rightarrow> fec_scheme \<Rightarrow> fec_scheme \<Rightarrow> packetizer_s option" where
  "renew_packetizer L mem p n crc fec0 fec1 =
     (let b = packetizer_mem mem n crc fec0 fec1 in packetizer_recreate L b b (Some p) n crc fec0 fec1)"

definition crc_num :: "crc_scheme \<Rightarrow> nat" where "crc_num c = index_of (map fst crc_scheme_list) c"
definition fec_num :: "fec_scheme \<Rightarrow> nat" where "fec_num f = index_of (map fst fec_scheme_list) f"

section \<open>Configuration\<close>

definition ofdmflexframegen_reconfigure ::
  "('m, 'c) modem_api \<Rightarrow> (fec_scheme \<Rightarrow> fec_s) \<Rightarrow> (nat \<Rightarrow> bytes) \<Rightarrow> 'm ofdmflexframegen \<Rightarrow> 'm ofdmflexframegen option" where
  "ofdmflexframegen_reconfigure A L mem q = do {
     let pr = gen_props q;
     pk \<leftarrow> renew_packetizer L mem (p_payload q) (payload_dec_len q) (fp_check pr) (fp_fec0 pr) (fp_fec1 pr);
     let enc_len = packetizer_get_enc_msg_len pk;
     m \<leftarrow> modem_recreate A (mod_payload q) (fp_mod_scheme pr);
     mod_len \<leftarrow> div_up (8 * enc_len) (modem_bps (fp_mod_scheme pr));
     n \<leftarrow> div_up mod_len (fg_M_data q);
     Some (q\<lparr>p_payload := pk, payload_enc_len := enc_len, payload_enc := realloc_bytes mem (payload_enc q) enc_len,
       mod_payload := m, payload_mod_len := mod_len, payload_mod := realloc_bytes mem (payload_mod q) mod_len,
       num_symbols_payload := n\<rparr>)
   }"

text \<open>The loop of \<^verbatim>\<open>reconfigure_multi_user\<close> over all users.\<close>

fun resize_users :: "(nat \<Rightarrow> bytes) \<Rightarrow> nat \<Rightarrow> 'm flex_user list \<Rightarrow> 'm flex_user list option" where
  "resize_users mem bps [] = Some []"
| "resize_users mem bps (u # us) = do {
     mod_len \<leftarrow> div_up (8 * u_enc_len u) bps;
     us \<leftarrow> resize_users mem bps us;
     Some (u\<lparr>u_mod_len := mod_len, u_mod := realloc_bytes mem (u_mod u) mod_len\<rparr> # us)
   }"

definition ofdmflexframegen_reconfigure_multi_user ::
  "('m, 'c) modem_api \<Rightarrow> (fec_scheme \<Rightarrow> fec_s) \<Rightarrow> (nat \<Rightarrow> bytes) \<Rightarrow> 'm ofdmflexframegen \<Rightarrow> nat \<Rightarrow> 'm ofdmflexframegen option" where
  "ofdmflexframegen_reconfigure_multi_user A L mem q user = do {
     let pr = gen_props q;
     (if user < length (fg_users q) then Some () else None);
     let u = fg_users q ! user;
     pk \<leftarrow> renew_packetizer L mem (u_packetizer u) (u_dec_len u) (fp_check pr) (fp_fec0 pr) (fp_fec1 pr);
     let enc_len = packetizer_get_enc_msg_len pk;
     m \<leftarrow> modem_recreate A (u_modem u) (fp_mod_scheme pr);
     let u = u\<lparr>u_packetizer := pk, u_payload := realloc_bytes mem (u_payload u) (u_dec_len u), u_enc_len := enc_len,
       u_enc := realloc_bytes mem (u_enc u) enc_len, u_modem := m\<rparr>;
     us \<leftarrow> resize_users mem (modem_bps (fp_mod_scheme pr)) ((fg_users q)[user := u]);
     (if index_of_user_with_largest_payload q < length us \<and> index_of_user_with_least_subcarriers q < length (num_subcarriers q)
      then Some () else None);
     n \<leftarrow> div_up (u_mod_len (us ! index_of_user_with_largest_payload q))
            (num_subcarriers q ! index_of_user_with_least_subcarriers q);
     Some (q\<lparr>fg_users := us, num_symbols_payload := n\<rparr>)
   }"

fun reconfigure_users ::
  "('m, 'c) modem_api \<Rightarrow> (fec_scheme \<Rightarrow> fec_s) \<Rightarrow> (nat \<Rightarrow> bytes) \<Rightarrow> nat list \<Rightarrow> 'm ofdmflexframegen \<Rightarrow> 'm ofdmflexframegen option" where
  "reconfigure_users A L mem [] q = Some q"
| "reconfigure_users A L mem (i # is) q = do {
     q \<leftarrow> ofdmflexframegen_reconfigure_multi_user A L mem q i;
     reconfigure_users A L mem is q
   }"

definition ofdmflexframegen_setprops ::
  "('m, 'c) modem_api \<Rightarrow> (fec_scheme \<Rightarrow> fec_s) \<Rightarrow> (nat \<Rightarrow> bytes) \<Rightarrow> 'm ofdmflexframegen \<Rightarrow> ofdmflexframegenprops_s option \<Rightarrow>
   'm ofdmflexframegen option" where
  "ofdmflexframegen_setprops A L mem q props =
     (let pr = (case props of None \<Rightarrow> ofdmflexframegenprops_default | Some pr \<Rightarrow> pr)
      in if fp_check pr = CRC_UNKNOWN then None
         else if fp_fec0 pr = FEC_UNKNOWN \<or> fp_fec1 pr = FEC_UNKNOWN then None
         else if fp_mod_scheme pr = MODEM_UNKNOWN then None
         else
           let q = q\<lparr>gen_props := pr\<rparr>
           in if fg_ofdma q then reconfigure_users A L mem [0..<num_users q] q
              else ofdmflexframegen_reconfigure A L mem q)"

definition ofdmflexframegen_reset :: "'m ofdmflexframegen \<Rightarrow> 'm ofdmflexframegen" where
  "ofdmflexframegen_reset q =
     q\<lparr>symbol_number := 0, gen_state := GEN_S0a, frame_assembled := False, frame_complete := False,
       header_symbol_index := 0, payload_symbol_index := 0\<rparr>"

definition ofdmflexframegen_reset_multi_user :: "'m ofdmflexframegen \<Rightarrow> 'm ofdmflexframegen" where
  "ofdmflexframegen_reset_multi_user q =
     q\<lparr>symbol_number := 0, gen_state := GEN_S0a, frame_assembled := False, frame_complete := False,
       header_symbol_index := 0, payload_symbol_index := 0,
       fg_users := map (\<lambda>u. u\<lparr>u_symbol_index := 0\<rparr>) (fg_users q)\<rparr>"

section \<open>Creation\<close>

text \<open>The checks of the object of \<^verbatim>\<open>ofdmframegen.c\<close> that the generator hands its symbols to.\<close>

definition ofdmframegen_create :: "nat \<Rightarrow> nat \<Rightarrow> nat \<Rightarrow> bytes \<Rightarrow> (nat \<times> nat \<times> nat) option" where
  "ofdmframegen_create M cp_len taper_len p =
     (if M < 2 \<or> M mod 2 \<noteq> 0 \<or> cp_len > M \<or> taper_len > cp_len then None
      else do {
        (M_null, M_pilot, M_data) \<leftarrow> ofdmframe_validate_sctype p M;
        (if M_pilot + M_data = 0 \<or> M_data = 0 \<or> M_pilot < 2 then None else Some ());
        (S0, M_S0) \<leftarrow> ofdmframe_init_S0 p M;
        (S1, M_S1) \<leftarrow> ofdmframe_init_S1 p M;
        Some (M_null, M_pilot, M_data)
      })"

definition given_or_default :: "nat \<Rightarrow> bytes option \<Rightarrow> bytes option" where
  "given_or_default M p = (case p of None \<Rightarrow> ofdmframe_init_default_sctype M | Some p \<Rightarrow> read_bytes M p)"

text \<open>What is only set for several users is left as it was allocated and never read.\<close>

definition ofdmflexframegen_create ::
  "('m, 'c) modem_api \<Rightarrow> (fec_scheme \<Rightarrow> fec_s) \<Rightarrow> (nat \<Rightarrow> bytes) \<Rightarrow> nat \<Rightarrow> nat \<Rightarrow> nat \<Rightarrow> bytes option \<Rightarrow>
   ofdmflexframegenprops_s option \<Rightarrow> 'm ofdmflexframegen option" where
  "ofdmflexframegen_create A L mem M cp_len taper_len p props =
     (if M < 2 \<or> M mod 2 \<noteq> 0 then None
      else do {
        p \<leftarrow> given_or_default M p;
        (M_null, M_pilot, M_data) \<leftarrow> ofdmframe_validate_sctype p M;
        _ \<leftarrow> ofdmframegen_create M cp_len taper_len p;
        mh \<leftarrow> api_create A OFDMFLEXFRAME_H_MOD;
        ph \<leftarrow> new_packetizer L mem OFDMFLEXFRAME_H_DEC OFDMFLEXFRAME_H_CRC OFDMFLEXFRAME_H_FEC FEC_NONE;
        (if packetizer_get_enc_msg_len ph = OFDMFLEXFRAME_H_ENC then Some () else None);
        nh \<leftarrow> div_up OFDMFLEXFRAME_H_SYM M_data;
        pp \<leftarrow> new_packetizer L mem 1 CRC_NONE FEC_NONE FEC_NONE;
        let enc_len = packetizer_get_enc_msg_len pp;
        mp \<leftarrow> api_create A MODEM_QPSK;
        let q = \<lparr>fg_M = M, fg_p = p, fg_M_null = M_null, fg_M_pilot = M_pilot, fg_M_data = M_data,
          num_symbols_header = nh, num_symbols_payload = 0, mod_header = mh, p_header = ph,
          fg_header = mem OFDMFLEXFRAME_H_DEC, header_enc = mem OFDMFLEXFRAME_H_ENC, header_mod = mem OFDMFLEXFRAME_H_SYM,
          p_payload = pp, payload_dec_len = 1, mod_payload = mp, payload_enc = mem enc_len, payload_mod = mem 1,
          payload_enc_len = enc_len, payload_mod_len = 1,
          fg_users = [], fg_ofdma = False, dummy_data = False, num_users = 0, subcarrier_map = [], num_subcarriers = [],
          frames_sent_since_last_use = [], reallocation_delay = 50, largest_payload = 0,
          index_of_user_with_largest_payload = 0, index_of_user_with_least_subcarriers = 0,
          h_user_dynamic = 0, h_dec_dynamic = 0, h_enc_dynamic = 0, h_sym_dynamic = 0,
          symbol_number = 0, gen_state = GEN_S0a, frame_assembled = False, frame_complete = False,
          header_symbol_index = 0, payload_symbol_index = 0, gen_props = ofdmflexframegenprops_default\<rparr>;
        q \<leftarrow> ofdmflexframegen_setprops A L mem q props;
        Some (ofdmflexframegen_reset q)
      })"

text \<open>The data subcarriers are dealt to the users in turn; \<open>cnt\<close> counts them.\<close>

fun deal_subcarriers :: "bytes \<Rightarrow> nat \<Rightarrow> nat list \<Rightarrow> nat \<Rightarrow> bytes \<Rightarrow> nat list \<Rightarrow> (bytes \<times> nat list) option" where
  "deal_subcarriers p n [] current_user sc_map cnt = Some (sc_map, cnt)"
| "deal_subcarriers p n (i # is) current_user sc_map cnt =
     (if p ! i = OFDMFRAME_SCTYPE_DATA then
        if current_user < length cnt
        then deal_subcarriers p n is ((current_user + 1) mod n) (sc_map @ [of_nat current_user])
               (cnt[current_user := cnt ! current_user + 1])
        else None
      else deal_subcarriers p n is current_user (sc_map @ [of_nat RESERVED]) cnt)"

fun find_least :: "nat list \<Rightarrow> nat list \<Rightarrow> nat \<Rightarrow> nat \<Rightarrow> nat" where
  "find_least cnt [] least idx = idx"
| "find_least cnt (i # is) least idx =
     (if cnt ! i < least then find_least cnt is (cnt ! i) i else find_least cnt is least idx)"

fun create_users ::
  "('m, 'c) modem_api \<Rightarrow> (fec_scheme \<Rightarrow> fec_s) \<Rightarrow> (nat \<Rightarrow> bytes) \<Rightarrow> nat \<Rightarrow> 'm flex_user list option" where
  "create_users A L mem 0 = Some []"
| "create_users A L mem (Suc n) = do {
     pk \<leftarrow> new_packetizer L mem 0 CRC_NONE FEC_NONE FEC_NONE;
     m \<leftarrow> api_create A MODEM_QPSK;
     us \<leftarrow> create_users A L mem n;
     Some (\<lparr>u_packetizer = pk, u_dec_len = 0, u_modem = m, u_payload = mem 0, u_enc = mem (packetizer_get_enc_msg_len pk),
       u_mod = mem 0, u_enc_len = packetizer_get_enc_msg_len pk, u_mod_len = 0, u_symbol_index = 0\<rparr> # us)
   }"

text \<open>\<open>garbage\<close> is what the allocation holds for the user with the least subcarriers; it stays when one user has all.\<close>

definition ofdmflexframegen_create_multi_user ::
  "('m, 'c) modem_api \<Rightarrow> (fec_scheme \<Rightarrow> fec_s) \<Rightarrow> (nat \<Rightarrow> bytes) \<Rightarrow> nat \<Rightarrow> nat \<Rightarrow> nat \<Rightarrow> nat \<Rightarrow> bytes option \<Rightarrow>
   ofdmflexframegenprops_s option \<Rightarrow> nat \<Rightarrow> 'm ofdmflexframegen option" where
  "ofdmflexframegen_create_multi_user A L mem garbage M cp_len taper_len p props users =
     (if M < 2 \<or> M mod 2 \<noteq> 0 then None
      else do {
        p \<leftarrow> given_or_default M p;
        (M_null, M_pilot, M_data) \<leftarrow> ofdmframe_validate_sctype p M;
        _ \<leftarrow> ofdmframegen_create M cp_len taper_len p;
        mh \<leftarrow> api_create A OFDMFLEXFRAME_H_MOD;
        let h_user = 8 + M + 2 * users;
        let h_dec = h_user + 6;
        ph \<leftarrow> new_packetizer L mem h_dec OFDMFLEXFRAME_H_CRC OFDMFLEXFRAME_H_FEC FEC_NONE;
        let h_enc = packetizer_get_enc_msg_len ph;
        let h_sym = 8 * h_enc;
        nh \<leftarrow> div_up h_sym M_data;
        pp \<leftarrow> new_packetizer L mem 1 CRC_NONE FEC_NONE FEC_NONE;
        let enc_len = packetizer_get_enc_msg_len pp;
        mp \<leftarrow> api_create A MODEM_QPSK;
        (sc_map, cnt) \<leftarrow> deal_subcarriers p users [0..<M] 0 [] (replicate users 0);
        us \<leftarrow> create_users A L mem users;
        let q = \<lparr>fg_M = M, fg_p = p, fg_M_null = M_null, fg_M_pilot = M_pilot, fg_M_data = M_data,
          num_symbols_header = nh, num_symbols_payload = 0, mod_header = mh, p_header = ph,
          fg_header = mem h_dec, header_enc = mem h_enc, header_mod = mem h_sym,
          p_payload = pp, payload_dec_len = 1, mod_payload = mp, payload_enc = mem enc_len, payload_mod = mem 1,
          payload_enc_len = enc_len, payload_mod_len = 1,
          fg_users = us, fg_ofdma = True, dummy_data = False, num_users = users, subcarrier_map = sc_map, num_subcarriers = cnt,
          frames_sent_since_last_use = replicate M 0, reallocation_delay = 50, largest_payload = 0,
          index_of_user_with_largest_payload = 0,
          index_of_user_with_least_subcarriers = find_least cnt [0..<users] M garbage,
          h_user_dynamic = h_user, h_dec_dynamic = h_dec, h_enc_dynamic = h_enc, h_sym_dynamic = h_sym,
          symbol_number = 0, gen_state = GEN_S0a, frame_assembled = False, frame_complete = False,
          header_symbol_index = 0, payload_symbol_index = 0, gen_props = ofdmflexframegenprops_default\<rparr>;
        q \<leftarrow> ofdmflexframegen_setprops A L mem q props;
        Some (ofdmflexframegen_reset_multi_user q)
      })"

section \<open>Subcarriers of the users\<close>

definition ofdmflexframegen_set_dummy_data :: "'m ofdmflexframegen \<Rightarrow> bool \<Rightarrow> 'm ofdmflexframegen" where
  "ofdmflexframegen_set_dummy_data q d = q\<lparr>dummy_data := d\<rparr>"

definition ofdmflexframegen_set_reallocation_delay :: "'m ofdmflexframegen \<Rightarrow> nat \<Rightarrow> 'm ofdmflexframegen" where
  "ofdmflexframegen_set_reallocation_delay q delay = (if delay = 0 then q else q\<lparr>reallocation_delay := delay\<rparr>)"

definition ofdmflexframegen_update_subcarrier_allocation :: "'m ofdmflexframegen \<Rightarrow> bytes \<Rightarrow> 'm ofdmflexframegen option" where
  "ofdmflexframegen_update_subcarrier_allocation q new_allocation =
     (if fg_M q \<le> length new_allocation then Some (q\<lparr>fg_p := take (fg_M q) new_allocation\<rparr>) else None)"

definition ofdmflexframegen_deallocate_subcarrier ::
  "('m, 'c) modem_api \<Rightarrow> (fec_scheme \<Rightarrow> fec_s) \<Rightarrow> (nat \<Rightarrow> bytes) \<Rightarrow> 'm ofdmflexframegen \<Rightarrow> nat \<Rightarrow> 'm ofdmflexframegen option" where
  "ofdmflexframegen_deallocate_subcarrier A L mem q subcarrier =
     (if \<not> fg_ofdma q then Some q
      else if subcarrier \<ge> length (subcarrier_map q) then None
      else
        let user = unat (subcarrier_map q ! subcarrier)
        in if user = UNALLOCATED then Some q
           else if user \<ge> length (num_subcarriers q) then None
           else if num_subcarriers q ! user > 2 then
             let cnt = (num_subcarriers q)[user := num_subcarriers q ! user - 1];
                 least = index_of_user_with_least_subcarriers q;
                 q = q\<lparr>subcarrier_map := (subcarrier_map q)[subcarrier := of_nat UNALLOCATED], num_subcarriers := cnt,
                       index_of_user_with_least_subcarriers := (if cnt ! user < cnt ! least then user else least)\<rparr>
             in ofdmflexframegen_reconfigure_multi_user A L mem q user
           else Some q)"

definition ofdmflexframegen_reallocate_subcarrier ::
  "('m, 'c) modem_api \<Rightarrow> (fec_scheme \<Rightarrow> fec_s) \<Rightarrow> (nat \<Rightarrow> bytes) \<Rightarrow> 'm ofdmflexframegen \<Rightarrow> nat \<Rightarrow> 'm ofdmflexframegen option" where
  "ofdmflexframegen_reallocate_subcarrier A L mem q subcarrier =
     (if \<not> fg_ofdma q then Some q
      else if subcarrier \<ge> length (subcarrier_map q) then None
      else if unat (subcarrier_map q ! subcarrier) = RESERVED then Some q
      else if unat (subcarrier_map q ! subcarrier) \<noteq> UNALLOCATED then Some q
      else
        let user = index_of_user_with_least_subcarriers q
        in if user \<ge> length (num_subcarriers q) then None
           else
             let cnt = (num_subcarriers q)[user := num_subcarriers q ! user + 1];
                 least = fold (\<lambda>i l. if cnt ! i < cnt ! l then i else l) [0..<num_users q] user;
                 q = q\<lparr>subcarrier_map := (subcarrier_map q)[subcarrier := of_nat user],
                       frames_sent_since_last_use := (frames_sent_since_last_use q)[subcarrier := 0],
                       num_subcarriers := cnt, index_of_user_with_least_subcarriers := least\<rparr>
             in ofdmflexframegen_reconfigure_multi_user A L mem q least)"

section \<open>Assembling a frame\<close>

definition encode_header_bytes :: "nat \<Rightarrow> nat \<Rightarrow> ofdmflexframegenprops_s \<Rightarrow> bytes \<Rightarrow> bytes" where
  "encode_header_bytes n len pr h =
     (let h = h[n + 0 := of_nat OFDMFLEXFRAME_VERSION];
          h = h[n + 1 := of_nat (len div 256)];
          h = h[n + 2 := of_nat len];
          h = h[n + 3 := of_nat (modem_num (fp_mod_scheme pr))];
          h = h[n + 4 := push_bit 5 (of_nat (crc_num (fp_check pr)) AND 0x07)];
          h = h[n + 4 := h ! (n + 4) OR (of_nat (fec_num (fp_fec0 pr)) AND 0x1f)]
      in h[n + 5 := of_nat (fec_num (fp_fec1 pr)) AND 0x1f])"

definition ofdmflexframegen_encode_header :: "'m ofdmflexframegen \<Rightarrow> 'm ofdmflexframegen option" where
  "ofdmflexframegen_encode_header q = do {
     let n = (if fg_ofdma q then h_user_dynamic q else OFDMFLEXFRAME_H_USER);
     (if n + 5 < length (fg_header q) then Some () else None);
     let h = encode_header_bytes n (payload_dec_len q) (gen_props q) (fg_header q);
     (enc, ph) \<leftarrow> packetizer_encode (p_header q) h;
     buf \<leftarrow> write_buf (header_enc q) enc;
     Some (q\<lparr>fg_header := h, p_header := ph,
       header_enc := scramble_data buf (if fg_ofdma q then h_enc_dynamic q else OFDMFLEXFRAME_H_ENC)\<rparr>)
   }"

definition ofdmflexframegen_modulate_header :: "'m ofdmflexframegen \<Rightarrow> 'm ofdmflexframegen option" where
  "ofdmflexframegen_modulate_header q = do {
     let enc_len = (if fg_ofdma q then h_enc_dynamic q else OFDMFLEXFRAME_H_ENC);
     let sym_len = (if fg_ofdma q then h_sym_dynamic q else OFDMFLEXFRAME_H_SYM);
     out \<leftarrow> liquid_repack_bytes (header_enc q) 8 enc_len (modem_bps OFDMFLEXFRAME_H_MOD) sym_len;
     buf \<leftarrow> write_buf (header_mod q) out;
     Some (q\<lparr>header_mod := buf\<rparr>)
   }"

definition ofdmflexframegen_assemble ::
  "('m, 'c) modem_api \<Rightarrow> (fec_scheme \<Rightarrow> fec_s) \<Rightarrow> (nat \<Rightarrow> bytes) \<Rightarrow> 'm ofdmflexframegen \<Rightarrow> bytes \<Rightarrow> bytes \<Rightarrow> nat \<Rightarrow>
   'm ofdmflexframegen option" where
  "ofdmflexframegen_assemble A L mem q hdr payload payload_len = do {
     q \<leftarrow> (if payload_len \<noteq> payload_dec_len q
           then ofdmflexframegen_reconfigure A L mem (q\<lparr>payload_dec_len := payload_len\<rparr>) else Some q);
     let q = q\<lparr>frame_assembled := True\<rparr>;
     user_hdr \<leftarrow> read_bytes OFDMFLEXFRAME_H_USER hdr;
     h \<leftarrow> write_buf (fg_header q) user_hdr;
     q \<leftarrow> ofdmflexframegen_encode_header (q\<lparr>fg_header := h\<rparr>);
     q \<leftarrow> ofdmflexframegen_modulate_header q;
     payload \<leftarrow> read_bytes payload_len payload;
     (enc, pk) \<leftarrow> packetizer_encode (p_payload q) payload;
     buf \<leftarrow> write_buf (payload_enc q) enc;
     out \<leftarrow> liquid_repack_bytes buf 8 (payload_enc_len q) (modem_bps (fp_mod_scheme (gen_props q))) (payload_mod_len q);
     syms \<leftarrow> write_buf (replicate (payload_mod_len q) 0) out;
     Some (q\<lparr>p_payload := pk, payload_enc := buf, payload_mod := syms\<rparr>)
   }"

definition ofdmflexframegen_multi_user_update_data ::
  "('m, 'c) modem_api \<Rightarrow> (fec_scheme \<Rightarrow> fec_s) \<Rightarrow> (nat \<Rightarrow> bytes) \<Rightarrow> 'm ofdmflexframegen \<Rightarrow> bytes \<Rightarrow> nat \<Rightarrow> nat \<Rightarrow>
   'm ofdmflexframegen option" where
  "ofdmflexframegen_multi_user_update_data A L mem q payload payload_len user = do {
     let q = (if payload_len > largest_payload q
              then q\<lparr>largest_payload := payload_len, index_of_user_with_largest_payload := user\<rparr> else q);
     (if user < length (fg_users q) then Some () else None);
     q \<leftarrow> (if payload_len \<noteq> u_dec_len (fg_users q ! user)
           then ofdmflexframegen_reconfigure_multi_user A L mem
                  (q\<lparr>fg_users := (fg_users q)[user := (fg_users q ! user)\<lparr>u_dec_len := payload_len\<rparr>]\<rparr>) user
           else Some q);
     payload \<leftarrow> read_bytes payload_len payload;
     buf \<leftarrow> write_buf (u_payload (fg_users q ! user)) payload;
     Some (q\<lparr>fg_users := (fg_users q)[user := (fg_users q ! user)\<lparr>u_payload := buf\<rparr>]\<rparr>)
   }"

fun write_user_lens :: "nat \<Rightarrow> nat list \<Rightarrow> bytes \<Rightarrow> bytes option" where
  "write_user_lens i [] h = Some h"
| "write_user_lens i (len # lens) h =
     (if i + 1 < length h then write_user_lens (i + 2) lens (h[i := of_nat (len div 256), i + 1 := of_nat len]) else None)"

fun encode_users :: "nat \<Rightarrow> 'm flex_user list \<Rightarrow> 'm flex_user list option" where
  "encode_users bps [] = Some []"
| "encode_users bps (u # us) = do {
     (enc, pk) \<leftarrow> packetizer_encode (u_packetizer u) (u_payload u);
     buf \<leftarrow> write_buf (u_enc u) enc;
     out \<leftarrow> liquid_repack_bytes buf 8 (u_enc_len u) bps (u_mod_len u);
     syms \<leftarrow> write_buf (replicate (u_mod_len u) 0) out;
     us \<leftarrow> encode_users bps us;
     Some (u\<lparr>u_packetizer := pk, u_enc := buf, u_mod := syms\<rparr> # us)
   }"

definition ofdmflexframegen_assemble_multi_user :: "'m ofdmflexframegen \<Rightarrow> bytes \<Rightarrow> 'm ofdmflexframegen option" where
  "ofdmflexframegen_assemble_multi_user q hdr = do {
     let q = q\<lparr>frame_assembled := True\<rparr>;
     let n = OFDMFLEXFRAME_H_USER;
     user_hdr \<leftarrow> read_bytes n hdr;
     h \<leftarrow> write_buf (fg_header q) (user_hdr @ take (fg_M q) (subcarrier_map q));
     h \<leftarrow> write_user_lens (n + fg_M q) (map u_dec_len (fg_users q)) h;
     q \<leftarrow> ofdmflexframegen_encode_header (q\<lparr>fg_header := h\<rparr>);
     q \<leftarrow> ofdmflexframegen_modulate_header q;
     us \<leftarrow> encode_users (modem_bps (fp_mod_scheme (gen_props q))) (fg_users q);
     Some (q\<lparr>fg_users := us\<rparr>)
   }"

section \<open>Writing the symbols\<close>

datatype 'c tx_symbol = TX_S0a | TX_S0b | TX_S1 | TX_data "'c list"

fun write_header_loop ::
  "('m, 'c::zero) modem_api \<Rightarrow> (nat \<Rightarrow> nat) \<Rightarrow> nat \<Rightarrow> nat list \<Rightarrow> 'm ofdmflexframegen \<Rightarrow> 'c list \<Rightarrow>
   ('m ofdmflexframegen \<times> 'c list) option" where
  "write_header_loop A rnd n [] q X = Some (q, X)"
| "write_header_loop A rnd n (i # is) q X =
     (if fg_p q ! i = OFDMFRAME_SCTYPE_DATA then
        if header_symbol_index q < n then
          if header_symbol_index q < length (header_mod q) then do {
            (x, m) \<leftarrow> api_modulate A (mod_header q) (unat (header_mod q ! header_symbol_index q));
            write_header_loop A rnd n is (q\<lparr>mod_header := m, header_symbol_index := header_symbol_index q + 1\<rparr>) (X @ [x])
          } else None
        else do {
          (x, m) \<leftarrow> api_modulate A (mod_payload q) (rnd i mod api_size A (mod_payload q));
          write_header_loop A rnd n is (q\<lparr>mod_payload := m\<rparr>) (X @ [x])
        }
      else write_header_loop A rnd n is q (X @ [0]))"

definition ofdmflexframegen_write_header ::
  "('m, 'c::zero) modem_api \<Rightarrow> (nat \<Rightarrow> nat) \<Rightarrow> 'm ofdmflexframegen \<Rightarrow> ('m ofdmflexframegen \<times> 'c list) option" where
  "ofdmflexframegen_write_header A rnd q = do {
     let n = (if fg_ofdma q then h_sym_dynamic q else OFDMFLEXFRAME_H_SYM);
     (q, X) \<leftarrow> write_header_loop A rnd n [0..<fg_M q] q [];
     Some (if symbol_number q = num_symbols_header q then q\<lparr>symbol_number := 0, gen_state := GEN_PAYLOAD\<rparr> else q, X)
   }"

text \<open>One data subcarrier of a payload symbol, for several users. The code reads the arrays at \<open>UNALLOCATED\<close> before it tests
  for it; what it reads there has no effect.\<close>

definition user_cell ::
  "('m, 'c::zero) modem_api \<Rightarrow> (nat \<Rightarrow> nat) \<Rightarrow> nat \<Rightarrow> 'm ofdmflexframegen \<Rightarrow> ('m ofdmflexframegen \<times> 'c) option" where
  "user_cell A rnd i q =
     (let j = unat (subcarrier_map q ! i)
      in if j = UNALLOCATED then Some (q, 0)
         else if j \<ge> length (fg_users q) then None
         else
           let u = fg_users q ! j
           in if u_symbol_index u < u_mod_len u then
                if u_symbol_index u < length (u_mod u) then do {
                  (x, m) \<leftarrow> api_modulate A (u_modem u) (unat (u_mod u ! u_symbol_index u));
                  Some (q\<lparr>fg_users := (fg_users q)[j := u\<lparr>u_modem := m, u_symbol_index := u_symbol_index u + 1\<rparr>]\<rparr>, x)
                } else None
              else if u_mod_len u = 336 \<and> dummy_data q then do {
                (x, m) \<leftarrow> api_modulate A (u_modem u) (rnd i mod api_size A (u_modem u));
                Some (q\<lparr>fg_users := (fg_users q)[j := u\<lparr>u_modem := m\<rparr>]\<rparr>, x)
              }
              else Some (q, 0))"

definition single_cell :: "('m, 'c::zero) modem_api \<Rightarrow> 'm ofdmflexframegen \<Rightarrow> ('m ofdmflexframegen \<times> 'c) option" where
  "single_cell A q =
     (if payload_symbol_index q < payload_mod_len q then
        if payload_symbol_index q < length (payload_mod q) then do {
          (x, m) \<leftarrow> api_modulate A (mod_payload q) (unat (payload_mod q ! payload_symbol_index q));
          Some (q\<lparr>mod_payload := m, payload_symbol_index := payload_symbol_index q + 1\<rparr>, x)
        } else None
      else Some (q, 0))"

fun write_payload_loop ::
  "('m, 'c::zero) modem_api \<Rightarrow> (nat \<Rightarrow> nat) \<Rightarrow> nat list \<Rightarrow> 'm ofdmflexframegen \<Rightarrow> 'c list \<Rightarrow>
   ('m ofdmflexframegen \<times> 'c list) option" where
  "write_payload_loop A rnd [] q X = Some (q, X)"
| "write_payload_loop A rnd (i # is) q X =
     (if fg_p q ! i = OFDMFRAME_SCTYPE_DATA then do {
        (q, x) \<leftarrow> (if fg_ofdma q then user_cell A rnd i q else single_cell A q);
        write_payload_loop A rnd is q (X @ [x])
      }
      else write_payload_loop A rnd is q (X @ [0]))"

fun age_subcarriers ::
  "('m, 'c) modem_api \<Rightarrow> (fec_scheme \<Rightarrow> fec_s) \<Rightarrow> (nat \<Rightarrow> bytes) \<Rightarrow> nat list \<Rightarrow> 'm ofdmflexframegen \<Rightarrow> 'm ofdmflexframegen option" where
  "age_subcarriers A L mem [] q = Some q"
| "age_subcarriers A L mem (k # ks) q =
     (if unat (subcarrier_map q ! k) = UNALLOCATED then
        if frames_sent_since_last_use q ! k \<ge> reallocation_delay q then do {
          q \<leftarrow> ofdmflexframegen_reallocate_subcarrier A L mem q k;
          age_subcarriers A L mem ks q
        }
        else age_subcarriers A L mem ks
          (q\<lparr>frames_sent_since_last_use := (frames_sent_since_last_use q)[k := frames_sent_since_last_use q ! k + 1]\<rparr>)
      else age_subcarriers A L mem ks q)"

definition ofdmflexframegen_write_payload ::
  "('m, 'c::zero) modem_api \<Rightarrow> (fec_scheme \<Rightarrow> fec_s) \<Rightarrow> (nat \<Rightarrow> bytes) \<Rightarrow> (nat \<Rightarrow> nat) \<Rightarrow> 'm ofdmflexframegen \<Rightarrow>
   ('m ofdmflexframegen \<times> 'c list) option" where
  "ofdmflexframegen_write_payload A L mem rnd q = do {
     (q, X) \<leftarrow> write_payload_loop A rnd [0..<fg_M q] q [];
     (if symbol_number q = num_symbols_payload q then
        let q = q\<lparr>frame_complete := True\<rparr>
        in if fg_ofdma q then do {
             q \<leftarrow> age_subcarriers A L mem [0..<fg_M q] q;
             Some (q, X)
           } else Some (q, X)
      else Some (q, X))
   }"

text \<open>The result is the value of the code, the symbol written, if any, and the new state.\<close>

definition ofdmflexframegen_writesymbol ::
  "('m, 'c::zero) modem_api \<Rightarrow> (fec_scheme \<Rightarrow> fec_s) \<Rightarrow> (nat \<Rightarrow> bytes) \<Rightarrow> (nat \<Rightarrow> nat) \<Rightarrow> 'm ofdmflexframegen \<Rightarrow>
   (bool \<times> 'c tx_symbol option \<times> 'm ofdmflexframegen) option" where
  "ofdmflexframegen_writesymbol A L mem rnd q =
     (if \<not> frame_assembled q then Some (True, None, q)
      else do {
        let q = q\<lparr>symbol_number := wrap32 (symbol_number q + 1)\<rparr>;
        (x, q) \<leftarrow> (case gen_state q of
            GEN_S0a \<Rightarrow> Some (TX_S0a, q\<lparr>gen_state := GEN_S0b\<rparr>)
          | GEN_S0b \<Rightarrow> Some (TX_S0b, q\<lparr>gen_state := GEN_S1\<rparr>)
          | GEN_S1 \<Rightarrow> Some (TX_S1, q\<lparr>symbol_number := 0, gen_state := GEN_HEADER\<rparr>)
          | GEN_HEADER \<Rightarrow> do { (q, X) \<leftarrow> ofdmflexframegen_write_header A rnd q; Some (TX_data X, q) }
          | GEN_PAYLOAD \<Rightarrow> do { (q, X) \<leftarrow> ofdmflexframegen_write_payload A L mem rnd q; Some (TX_data X, q) });
        (if frame_complete q
         then Some (True, Some x, if fg_ofdma q then ofdmflexframegen_reset_multi_user q else ofdmflexframegen_reset q)
         else Some (False, Some x, q))
      })"

definition ofdmflexframegen_is_assembled :: "'m ofdmflexframegen \<Rightarrow> bool" where
  "ofdmflexframegen_is_assembled q = frame_assembled q"

definition ofdmflexframegen_getframelen :: "'m ofdmflexframegen \<Rightarrow> nat" where
  "ofdmflexframegen_getframelen q = 2 + 1 + num_symbols_header q + num_symbols_payload q"

end
