(* ===== verification/Ofdm_Flexframe_Sync.thy ===== *)
theory Ofdm_Flexframe_Sync
  imports Ofdm_Flexframe_Gen
begin

unbundle bit_operations_syntax

text \<open>
  \<^verbatim>\<open>liquid_dsp/src/framing/src/ofdmflexframesync.c\<close>: the frame synchronizer, for one user and for several (OFDMA). The
  model begins where \<^verbatim>\<open>ofdmframesync\<close> calls back with the values of the subcarriers of one received symbol. It
  collects the bits of the header, decodes it, configures the payload receiver from it, collects the symbols of
  the payload (in OFDMA those of its own subcarriers) and calls the user's function; an \<open>rx_event\<close> holds the
  arguments of such a call. Calling a null function is \<open>None\<close>, as are \<^verbatim>\<open>exit\<close>, a failed assertion and an access
  outside an array. The error vector magnitudes and the strength of the signal, which are only reported, are not part
  of the state; the parameters are those of the generator.
\<close>

section \<open>State\<close>

datatype sync_state = SYNC_HEADER | SYNC_PAYLOAD

record rx_event =
  ev_header :: bytes
  ev_header_valid :: bool
  ev_payload :: "bytes option"
  ev_payload_len :: nat
  ev_payload_valid :: bool
  ev_mod_scheme :: modulation_scheme
  ev_mod_bps :: nat
  ev_check :: crc_scheme
  ev_fec0 :: fec_scheme
  ev_fec1 :: fec_scheme

record 'm ofdmflexframesync =
  fs_M :: nat
  fs_p :: bytes
  fs_M_null :: nat
  fs_M_pilot :: nat
  fs_M_data :: nat
  fs_mod_header :: 'm
  fs_p_header :: packetizer_s
  fs_header :: bytes
  fs_header_enc :: bytes
  fs_header_mod :: bytes
  header_valid :: bool
  fs_ofdma :: bool
  user_id :: nat
  fs_num_users :: nat
  fs_h_user_dynamic :: nat
  fs_h_dec_dynamic :: nat
  fs_h_enc_dynamic :: nat
  fs_h_sym_dynamic :: nat
  fs_subcarrier_map :: bytes
  ms_payload :: modulation_scheme
  bps_payload :: nat
  payload_len :: nat
  fs_check :: crc_scheme
  fs_fec0 :: fec_scheme
  fs_fec1 :: fec_scheme
  fs_p_payload :: packetizer_s
  fs_mod_payload :: 'm
  fs_payload_enc :: bytes
  fs_payload_dec :: bytes
  fs_payload_enc_len :: nat
  fs_payload_mod_len :: nat
  payload_valid :: bool
  has_callback :: bool
  symbol_counter :: nat
  sync_state :: sync_state
  fs_header_symbol_index :: nat
  fs_payload_symbol_index :: nat
  payload_buffer_index :: nat

definition ofdmflexframesync_update_subcarrier_allocation :: "'m ofdmflexframesync \<Rightarrow> bytes \<Rightarrow> 'm ofdmflexframesync option" where
  "ofdmflexframesync_update_subcarrier_allocation q new_allocation = do {
     p \<leftarrow> read_bytes (fs_M q) new_allocation;
     Some (q\<lparr>fs_p := p\<rparr>)
   }"

section \<open>Creation\<close>

text \<open>The checks of the object of \<^verbatim>\<open>ofdmframesync.c\<close>; fewer than 8 subcarriers only give a warning, even an odd number.\<close>

definition ofdmframesync_create :: "nat \<Rightarrow> nat \<Rightarrow> bytes \<Rightarrow> (nat \<times> nat \<times> nat) option" where
  "ofdmframesync_create M cp_len p =
     (if 8 \<le> M \<and> (M mod 2 \<noteq> 0 \<or> cp_len > M) then None
      else do {
        (M_null, M_pilot, M_data) \<leftarrow> ofdmframe_validate_sctype p M;
        (if M_pilot + M_data = 0 \<or> M_data = 0 \<or> M_pilot < 2 then None else Some ());
        (S0, M_S0) \<leftarrow> ofdmframe_init_S0 p M;
        (S1, M_S1) \<leftarrow> ofdmframe_init_S1 p M;
        Some (M_null, M_pilot, M_data)
      })"

definition ofdmflexframesync_reset :: "'m ofdmflexframesync \<Rightarrow> 'm ofdmflexframesync" where
  "ofdmflexframesync_reset q =
     q\<lparr>sync_state := SYNC_HEADER, symbol_counter := 0, fs_header_symbol_index := 0, fs_payload_symbol_index := 0,
       payload_buffer_index := 0\<rparr>"

text \<open>What is set only for several users, and the flags that are not set at first, have the value 0.\<close>

definition ofdmflexframesync_create ::
  "('m, 'c) modem_api \<Rightarrow> (fec_scheme \<Rightarrow> fec_s) \<Rightarrow> (nat \<Rightarrow> bytes) \<Rightarrow> nat \<Rightarrow> nat \<Rightarrow> bytes option \<Rightarrow> bool \<Rightarrow>
   'm ofdmflexframesync option" where
  "ofdmflexframesync_create A L mem M cp_len p callback =
     (if 8 \<le> M \<and> (M mod 2 \<noteq> 0 \<or> cp_len > M) then None
      else do {
        p \<leftarrow> given_or_default M p;
        (M_null, M_pilot, M_data) \<leftarrow> ofdmframe_validate_sctype p M;
        _ \<leftarrow> ofdmframesync_create M cp_len p;
        mh \<leftarrow> api_create A OFDMFLEXFRAME_H_MOD;
        ph \<leftarrow> new_packetizer L mem OFDMFLEXFRAME_H_DEC OFDMFLEXFRAME_H_CRC OFDMFLEXFRAME_H_FEC FEC_NONE;
        (if packetizer_get_enc_msg_len ph = OFDMFLEXFRAME_H_ENC then Some () else None);
        mp \<leftarrow> api_create A MODEM_QPSK;
        pp \<leftarrow> new_packetizer L mem 1 CRC_NONE FEC_NONE FEC_NONE;
        let enc_len = packetizer_get_enc_msg_len pp;
        let q = \<lparr>fs_M = M, fs_p = p, fs_M_null = M_null, fs_M_pilot = M_pilot, fs_M_data = M_data,
          fs_mod_header = mh, fs_p_header = ph, fs_header = mem OFDMFLEXFRAME_H_DEC,
          fs_header_enc = mem OFDMFLEXFRAME_H_ENC, fs_header_mod = mem OFDMFLEXFRAME_H_SYM, header_valid = False,
          fs_ofdma = False, user_id = 0, fs_num_users = 0,
          fs_h_user_dynamic = 0, fs_h_dec_dynamic = 0, fs_h_enc_dynamic = 0, fs_h_sym_dynamic = 0, fs_subcarrier_map = mem 1,
          ms_payload = MODEM_QPSK, bps_payload = 2, payload_len = 1, fs_check = CRC_NONE, fs_fec0 = FEC_NONE, fs_fec1 = FEC_NONE,
          fs_p_payload = pp, fs_mod_payload = mp, fs_payload_enc = mem enc_len, fs_payload_dec = mem 1,
          fs_payload_enc_len = enc_len, fs_payload_mod_len = 0, payload_valid = False, has_callback = callback,
          symbol_counter = 0, sync_state = SYNC_HEADER, fs_header_symbol_index = 0, fs_payload_symbol_index = 0,
          payload_buffer_index = 0\<rparr>;
        Some (ofdmflexframesync_reset q)
      })"

definition ofdmflexframesync_create_multi_user ::
  "('m, 'c) modem_api \<Rightarrow> (fec_scheme \<Rightarrow> fec_s) \<Rightarrow> (nat \<Rightarrow> bytes) \<Rightarrow> nat \<Rightarrow> nat \<Rightarrow> bytes option \<Rightarrow> bool \<Rightarrow> nat \<Rightarrow> nat \<Rightarrow>
   'm ofdmflexframesync option" where
  "ofdmflexframesync_create_multi_user A L mem M cp_len p callback user users =
     (if 8 \<le> M \<and> (M mod 2 \<noteq> 0 \<or> cp_len > M) then None
      else do {
        p \<leftarrow> given_or_default M p;
        (M_null, M_pilot, M_data) \<leftarrow> ofdmframe_validate_sctype p M;
        let h_user = 8 + M + 2 * users;
        let h_dec = h_user + 6;
        _ \<leftarrow> ofdmframesync_create M cp_len p;
        mh \<leftarrow> api_create A OFDMFLEXFRAME_H_MOD;
        ph \<leftarrow> new_packetizer L mem h_dec OFDMFLEXFRAME_H_CRC OFDMFLEXFRAME_H_FEC FEC_NONE;
        let h_enc = packetizer_get_enc_msg_len ph;
        let h_sym = 8 * h_enc;
        mp \<leftarrow> api_create A MODEM_QPSK;
        pp \<leftarrow> new_packetizer L mem 1 CRC_NONE FEC_NONE FEC_NONE;
        let enc_len = packetizer_get_enc_msg_len pp;
        let q = \<lparr>fs_M = M, fs_p = p, fs_M_null = M_null, fs_M_pilot = M_pilot, fs_M_data = M_data,
          fs_mod_header = mh, fs_p_header = ph, fs_header = mem h_dec, fs_header_enc = mem h_enc, fs_header_mod = mem h_sym,
          header_valid = False, fs_ofdma = True, user_id = user, fs_num_users = users,
          fs_h_user_dynamic = h_user, fs_h_dec_dynamic = h_dec, fs_h_enc_dynamic = h_enc, fs_h_sym_dynamic = h_sym,
          fs_subcarrier_map = mem M,
          ms_payload = MODEM_QPSK, bps_payload = 2, payload_len = 1, fs_check = CRC_NONE, fs_fec0 = FEC_NONE, fs_fec1 = FEC_NONE,
          fs_p_payload = pp, fs_mod_payload = mp, fs_payload_enc = mem enc_len, fs_payload_dec = mem 1,
          fs_payload_enc_len = enc_len, fs_payload_mod_len = 0, payload_valid = False, has_callback = callback,
          symbol_counter = 0, sync_state = SYNC_HEADER, fs_header_symbol_index = 0, fs_payload_symbol_index = 0,
          payload_buffer_index = 0\<rparr>;
        Some (ofdmflexframesync_reset q)
      })"

section \<open>The header\<close>

definition configure_payload ::
  "('m, 'c) modem_api \<Rightarrow> (fec_scheme \<Rightarrow> fec_s) \<Rightarrow> (nat \<Rightarrow> bytes) \<Rightarrow> 'm ofdmflexframesync \<Rightarrow> modulation_scheme \<Rightarrow> nat \<Rightarrow>
   crc_scheme \<Rightarrow> fec_scheme \<Rightarrow> fec_scheme \<Rightarrow> 'm ofdmflexframesync option" where
  "configure_payload A L mem q ms len crc fec0 fec1 = do {
     q \<leftarrow> (if ms \<noteq> ms_payload q then do {
             m \<leftarrow> modem_recreate A (fs_mod_payload q) ms;
             Some (q\<lparr>ms_payload := ms, bps_payload := modem_bps ms, fs_mod_payload := m\<rparr>)
           } else Some q);
     pk \<leftarrow> renew_packetizer L mem (fs_p_payload q) len crc fec0 fec1;
     let enc_len = packetizer_get_enc_msg_len pk;
     mod_len \<leftarrow> div_up (8 * enc_len) (bps_payload q);
     Some (q\<lparr>payload_len := len, fs_check := crc, fs_fec0 := fec0, fs_fec1 := fec1, fs_p_payload := pk,
       fs_payload_enc_len := enc_len, fs_payload_enc := realloc_bytes mem (fs_payload_enc q) enc_len,
       fs_payload_dec := realloc_bytes mem (fs_payload_dec q) len, fs_payload_mod_len := mod_len\<rparr>)
   }"

text \<open>The fields of a header whose packet is valid. An unknown scheme makes it invalid, but only an unknown modulation
  scheme ends the function.\<close>

definition parse_header ::
  "('m, 'c) modem_api \<Rightarrow> (fec_scheme \<Rightarrow> fec_s) \<Rightarrow> (nat \<Rightarrow> bytes) \<Rightarrow> 'm ofdmflexframesync \<Rightarrow> 'm ofdmflexframesync option" where
  "parse_header A L mem q =
     (let h = fs_header q;
          n = (if fs_ofdma q then fs_h_user_dynamic q else OFDMFLEXFRAME_H_USER);
          valid = (unat (h ! n) = OFDMFLEXFRAME_VERSION);
          l = (if fs_ofdma q then OFDMFLEXFRAME_H_USER + fs_M q + 2 * user_id q else n + 1)
      in if n + 5 \<ge> length h \<or> l + 1 \<ge> length h then None
         else
           let len = 256 * unat (h ! l) + unat (h ! (l + 1));
               ms = unat (h ! (n + 3))
           in if ms = 0 \<or> ms \<ge> LIQUID_MODEM_NUM_SCHEMES then Some (q\<lparr>header_valid := False\<rparr>)
              else
                let crc = unat (drop_bit 5 (h ! (n + 4)) AND 0x07);
                    fec0 = unat (h ! (n + 4) AND 0x1f);
                    fec1 = unat (h ! (n + 5) AND 0x1f);
                    valid = (valid \<and> crc < length crc_scheme_list \<and> fec0 < length fec_scheme_list \<and> fec1 < length fec_scheme_list)
                in do {
                     sc_map \<leftarrow> (if fs_ofdma q then write_buf (fs_subcarrier_map q) (take (fs_M q) (drop OFDMFLEXFRAME_H_USER h))
                               else Some (fs_subcarrier_map q));
                     let q = q\<lparr>header_valid := valid, fs_subcarrier_map := sc_map\<rparr>;
                     (if valid
                      then configure_payload A L mem q (modem_of_num ms) len (fst (crc_scheme_list ! crc))
                             (fst (fec_scheme_list ! fec0)) (fst (fec_scheme_list ! fec1))
                      else Some q)
                   })"

definition ofdmflexframesync_decode_header ::
  "('m, 'c) modem_api \<Rightarrow> (fec_scheme \<Rightarrow> fec_s) \<Rightarrow> (nat \<Rightarrow> bytes) \<Rightarrow> 'm ofdmflexframesync \<Rightarrow> 'm ofdmflexframesync option" where
  "ofdmflexframesync_decode_header A L mem q = do {
     let enc_len = (if fs_ofdma q then fs_h_enc_dynamic q else OFDMFLEXFRAME_H_ENC);
     let sym_len = (if fs_ofdma q then fs_h_sym_dynamic q else OFDMFLEXFRAME_H_SYM);
     out \<leftarrow> liquid_repack_bytes (fs_header_mod q) OFDMFLEXFRAME_H_BPS sym_len 8 enc_len;
     (if length out = enc_len then Some () else None);
     buf \<leftarrow> write_buf (fs_header_enc q) out;
     let buf = unscramble_data buf enc_len;
     (h, valid, pk) \<leftarrow> packetizer_decode (fs_p_header q) buf;
     h \<leftarrow> write_buf (fs_header q) h;
     let q = q\<lparr>fs_header_enc := buf, fs_p_header := pk, fs_header := h, header_valid := valid\<rparr>;
     (if valid then parse_header A L mem q else Some q)
   }"

definition header_event :: "'m ofdmflexframesync \<Rightarrow> rx_event" where
  "header_event q = \<lparr>ev_header = fs_header q, ev_header_valid = header_valid q, ev_payload = None, ev_payload_len = 0,
     ev_payload_valid = False, ev_mod_scheme = MODEM_UNKNOWN, ev_mod_bps = 0, ev_check = CRC_UNKNOWN, ev_fec0 = FEC_UNKNOWN,
     ev_fec1 = FEC_UNKNOWN\<rparr>"

text \<open>All symbols of the header are there; the function of the user is called without a test that there is one.\<close>

definition header_extracted ::
  "('m, 'c) modem_api \<Rightarrow> (fec_scheme \<Rightarrow> fec_s) \<Rightarrow> (nat \<Rightarrow> bytes) \<Rightarrow> 'm ofdmflexframesync \<Rightarrow>
   (rx_event list \<times> 'm ofdmflexframesync) option" where
  "header_extracted A L mem q = do {
     q \<leftarrow> ofdmflexframesync_decode_header A L mem q;
     (if header_valid q then Some ([], q\<lparr>sync_state := SYNC_PAYLOAD\<rparr>)
      else if has_callback q then Some ([header_event q], ofdmflexframesync_reset q)
      else None)
   }"

fun rxheader_loop ::
  "('m, 'c) modem_api \<Rightarrow> (fec_scheme \<Rightarrow> fec_s) \<Rightarrow> (nat \<Rightarrow> bytes) \<Rightarrow> nat list \<Rightarrow> 'm ofdmflexframesync \<Rightarrow> 'c list \<Rightarrow>
   (rx_event list \<times> 'm ofdmflexframesync) option" where
  "rxheader_loop A L mem [] q X = Some ([], q)"
| "rxheader_loop A L mem (i # is) q X =
     (if fs_p q ! i = OFDMFRAME_SCTYPE_DATA then
        let (sym, m) = api_demodulate A (fs_mod_header q) (X ! i);
            k = fs_header_symbol_index q;
            n = (if fs_ofdma q then fs_h_sym_dynamic q else OFDMFLEXFRAME_H_SYM)
        in if k < length (fs_header_mod q) then
             let q = q\<lparr>fs_mod_header := m, fs_header_mod := (fs_header_mod q)[k := of_nat sym], fs_header_symbol_index := k + 1\<rparr>
             in if k + 1 = n then header_extracted A L mem q else rxheader_loop A L mem is q X
           else None
      else rxheader_loop A L mem is q X)"

definition ofdmflexframesync_rxheader ::
  "('m, 'c) modem_api \<Rightarrow> (fec_scheme \<Rightarrow> fec_s) \<Rightarrow> (nat \<Rightarrow> bytes) \<Rightarrow> 'm ofdmflexframesync \<Rightarrow> 'c list \<Rightarrow>
   (rx_event list \<times> 'm ofdmflexframesync) option" where
  "ofdmflexframesync_rxheader A L mem q X = rxheader_loop A L mem [0..<fs_M q] q X"

section \<open>The payload\<close>

definition payload_event :: "'m ofdmflexframesync \<Rightarrow> rx_event" where
  "payload_event q = \<lparr>ev_header = fs_header q, ev_header_valid = header_valid q, ev_payload = Some (fs_payload_dec q),
     ev_payload_len = payload_len q, ev_payload_valid = payload_valid q, ev_mod_scheme = ms_payload q, ev_mod_bps = bps_payload q,
     ev_check = fs_check q, ev_fec0 = fs_fec0 q, ev_fec1 = fs_fec1 q\<rparr>"

definition payload_extracted :: "'m ofdmflexframesync \<Rightarrow> (rx_event list \<times> 'm ofdmflexframesync) option" where
  "payload_extracted q = do {
     (out, valid, pk) \<leftarrow> packetizer_decode (fs_p_payload q) (fs_payload_enc q);
     buf \<leftarrow> write_buf (fs_payload_dec q) out;
     let q = q\<lparr>fs_p_payload := pk, fs_payload_dec := buf, payload_valid := valid\<rparr>;
     Some (if has_callback q then [payload_event q] else [], ofdmflexframesync_reset q)
   }"

fun rxpayload_loop ::
  "('m, 'c) modem_api \<Rightarrow> nat list \<Rightarrow> 'm ofdmflexframesync \<Rightarrow> 'c list \<Rightarrow> (rx_event list \<times> 'm ofdmflexframesync) option" where
  "rxpayload_loop A [] q X = Some ([], q)"
| "rxpayload_loop A (i # is) q X =
     (let data_for_user = (\<not> (fs_ofdma q \<and> unat (fs_subcarrier_map q ! i) \<noteq> user_id q))
      in if fs_p q ! i = OFDMFRAME_SCTYPE_DATA \<and> data_for_user then
           let (sym, m) = api_demodulate A (fs_mod_payload q) (X ! i)
           in do {
                enc \<leftarrow> liquid_pack_array (fs_payload_enc q) (fs_payload_enc_len q) (payload_buffer_index q) (bps_payload q) (of_nat sym);
                let q = q\<lparr>fs_mod_payload := m, fs_payload_enc := enc,
                  payload_buffer_index := payload_buffer_index q + bps_payload q,
                  fs_payload_symbol_index := fs_payload_symbol_index q + 1\<rparr>;
                (if fs_payload_symbol_index q = fs_payload_mod_len q then payload_extracted q else rxpayload_loop A is q X)
              }
         else rxpayload_loop A is q X)"

definition ofdmflexframesync_rxpayload ::
  "('m, 'c) modem_api \<Rightarrow> 'm ofdmflexframesync \<Rightarrow> 'c list \<Rightarrow> (rx_event list \<times> 'm ofdmflexframesync) option" where
  "ofdmflexframesync_rxpayload A q X = rxpayload_loop A [0..<fs_M q] q X"

definition ofdmflexframesync_internal_callback ::
  "('m, 'c) modem_api \<Rightarrow> (fec_scheme \<Rightarrow> fec_s) \<Rightarrow> (nat \<Rightarrow> bytes) \<Rightarrow> 'm ofdmflexframesync \<Rightarrow> 'c list \<Rightarrow>
   (rx_event list \<times> 'm ofdmflexframesync) option" where
  "ofdmflexframesync_internal_callback A L mem q X =
     (let q = q\<lparr>symbol_counter := wrap32 (symbol_counter q + 1)\<rparr>
      in case sync_state q of
           SYNC_HEADER \<Rightarrow> ofdmflexframesync_rxheader A L mem q X
         | SYNC_PAYLOAD \<Rightarrow> ofdmflexframesync_rxpayload A q X)"

end
