(* ===== verification/Ofdm_Frame_Symbols.thy ===== *)
theory Ofdm_Frame_Symbols
  imports Ofdm_Flexframe_Sync
begin

unbundle bit_operations_syntax

text \<open>
  What one symbol of the frame generator carries and what the frame synchronizer reads from it. The modems are
  the parameter of both; what is used of them is the law \<open>clean_modems\<close>: an object of one of the schemes can be made, it
  modulates every symbol below the size of its constellation, and any object of the same scheme demodulates every
  value \<open>near\<close> the modulated one to the symbol. This holds of the schemes without memory, so not of
  the differential ones, nor of those whose objects report the scheme \<open>MODEM_ARB\<close>.
\<close>

section \<open>Modems and subcarriers\<close>

definition carries_sym :: "('m, 'c) modem_api \<Rightarrow> ('c \<Rightarrow> 'c \<Rightarrow> bool) \<Rightarrow> modulation_scheme \<Rightarrow> 'c \<Rightarrow> nat \<Rightarrow> bool" where
  "carries_sym A near s x v \<longleftrightarrow>
     (\<forall>r y. api_scheme A r = s \<and> near x y \<longrightarrow> (\<exists>r'. api_demodulate A r y = (v, r') \<and> api_scheme A r' = s))"

definition clean_modems :: "('m, 'c) modem_api \<Rightarrow> modulation_scheme set \<Rightarrow> ('c \<Rightarrow> 'c \<Rightarrow> bool) \<Rightarrow> bool" where
  "clean_modems A S near \<longleftrightarrow>
     (\<forall>s \<in> S. \<exists>m. api_create A s = Some m \<and> api_scheme A m = s) \<and>
     (\<forall>m. api_scheme A m \<in> S \<longrightarrow> api_size A m = 2 ^ modem_bps (api_scheme A m) \<and>
       (\<forall>v < api_size A m. \<exists>x m'. api_modulate A m v = Some (x, m') \<and> api_scheme A m' = api_scheme A m \<and>
         carries_sym A near (api_scheme A m) x v))"

lemma clean_modulate:
  assumes "clean_modems A S near" and "api_scheme A m = s" and "s \<in> S" and "v < 2 ^ modem_bps s"
  obtains x m' where "api_modulate A m v = Some (x, m')" "api_scheme A m' = s" "carries_sym A near s x v"
  using assms unfolding clean_modems_def by metis

lemma clean_create:
  assumes "clean_modems A S near" and "s \<in> S"
  obtains m where "api_create A s = Some m" "api_scheme A m = s"
  using assms unfolding clean_modems_def by metis

lemma clean_recreate:
  assumes "clean_modems A S near" and "s \<in> S"
  obtains m' where "modem_recreate A m s = Some m'" "api_scheme A m' = s"
  using assms by (cases "api_scheme A m = s") (auto simp: modem_recreate_def elim: clean_create)

lemma clean_random:
  assumes "clean_modems A S near" and "api_scheme A m \<in> S"
  obtains x m' where "api_modulate A m (k mod api_size A m) = Some (x, m')" "api_scheme A m' = api_scheme A m"
proof -
  have "0 < api_size A m" "api_size A m = 2 ^ modem_bps (api_scheme A m)" using assms unfolding clean_modems_def by simp_all
  then show ?thesis using clean_modulate [OF assms(1) refl assms(2), of "k mod api_size A m"] that by (metis mod_less_divisor)
qed

text \<open>The number of subcarriers before \<open>i\<close> that carry symbols.\<close>

definition rank :: "(nat \<Rightarrow> bool) \<Rightarrow> nat \<Rightarrow> nat" where
  "rank mine i = length (filter mine [0..<i])"

lemma rank_0 [simp]: "rank mine 0 = 0" and rank_Suc [simp]: "rank mine (Suc i) = rank mine i + of_bool (mine i)"
  by (simp_all add: rank_def)

lemma rank_mono: "i \<le> j \<Longrightarrow> rank mine i \<le> rank mine j"
  by (induction j) (auto simp: le_Suc_eq)

text \<open>The values of a symbol carry a part of the list \<open>vals\<close>, from position \<open>t\<close> on.\<close>

definition symbol_carries ::
  "('m, 'c) modem_api \<Rightarrow> ('c \<Rightarrow> 'c \<Rightarrow> bool) \<Rightarrow> modulation_scheme \<Rightarrow> (nat \<Rightarrow> bool) \<Rightarrow> bytes \<Rightarrow> nat \<Rightarrow> nat \<Rightarrow> 'c list \<Rightarrow> bool" where
  "symbol_carries A near s mine vals n t X \<longleftrightarrow>
     (\<forall>i < length X. mine i \<and> t + rank mine i < n \<longrightarrow> carries_sym A near s (X ! i) (unat (vals ! (t + rank mine i))))"

section \<open>Writing a symbol\<close>

lemma upt_front: "[i..<i + Suc k] = i # [Suc i..<Suc i + k]"
  by (simp add: upt_rec)

text \<open>One subcarrier of a header symbol, and all of them.\<close>

lemma write_header_cell:
  assumes clean: "clean_modems A S near" "MODEM_BPSK \<in> S" and "api_scheme A (mod_header q) = MODEM_BPSK"
    and "api_scheme A (mod_payload q) \<in> S" and "n \<le> length (header_mod q)" and "\<And>j. j < n \<Longrightarrow> unat (header_mod q ! j) < 2"
    and "header_symbol_index q = min n (t + rank (\<lambda>i. fg_p q ! i = 2) i)"
  shows "\<exists>x m m'. write_header_loop A rnd n (i # js) q X = write_header_loop A rnd n js (q\<lparr>mod_header := m, mod_payload := m',
        header_symbol_index := min n (t + rank (\<lambda>i. fg_p q ! i = 2) (Suc i))\<rparr>) (X @ [x]) \<and>
      api_scheme A m = MODEM_BPSK \<and> api_scheme A m' = api_scheme A (mod_payload q) \<and>
      (fg_p q ! i = 2 \<and> t + rank (\<lambda>i. fg_p q ! i = 2) i < n \<longrightarrow>
        carries_sym A near MODEM_BPSK x (unat (header_mod q ! (t + rank (\<lambda>i. fg_p q ! i = 2) i))))"
proof -
  let ?mine = "\<lambda>i. fg_p q ! i = 2"
  consider (null) "\<not> ?mine i" | (sym) "?mine i" "t + rank ?mine i < n" | (pad) "?mine i" "n \<le> t + rank ?mine i" by linarith
  then show ?thesis
  proof cases
    case null
    then have "min n (t + rank ?mine (Suc i)) = header_symbol_index q" using assms(7) by simp
    then show ?thesis using null assms(3)
      by - (rule exI [of _ 0], rule exI [of _ "mod_header q"], rule exI [of _ "mod_payload q"], simp add: sctypes del: rank_Suc)
  next
    case sym
    have "unat (header_mod q ! (t + rank ?mine i)) < 2 ^ modem_bps MODEM_BPSK" using assms(6) sym by simp
    from clean_modulate [OF clean(1) assms(3) clean(2) this] obtain x m where
      "api_modulate A (mod_header q) (unat (header_mod q ! (t + rank ?mine i))) = Some (x, m)" "api_scheme A m = MODEM_BPSK"
        "carries_sym A near MODEM_BPSK x (unat (header_mod q ! (t + rank ?mine i)))" .
    then show ?thesis using sym assms(5,7)
      by - (rule exI [of _ x], rule exI [of _ m], rule exI [of _ "mod_payload q"], simp add: sctypes)
  next
    case pad
    from clean_random [OF clean(1) assms(4), of "rnd i"] obtain x m where
      "api_modulate A (mod_payload q) (rnd i mod api_size A (mod_payload q)) = Some (x, m)"
        "api_scheme A m = api_scheme A (mod_payload q)" .
    moreover have "min n (t + rank ?mine (Suc i)) = header_symbol_index q" "\<not> header_symbol_index q < n" using pad assms(7) by simp_all
    ultimately show ?thesis using pad assms(3)
      by - (rule exI [of _ x], rule exI [of _ "mod_header q"], rule exI [of _ m], simp add: sctypes del: rank_Suc)
  qed
qed

lemma write_header_run:
  assumes clean: "clean_modems A S near" "MODEM_BPSK \<in> S" and "api_scheme A (mod_header q) = MODEM_BPSK"
    and "api_scheme A (mod_payload q) \<in> S" and "n \<le> length (header_mod q)" and "\<And>j. j < n \<Longrightarrow> unat (header_mod q ! j) < 2"
    and "header_symbol_index q = min n (t + rank (\<lambda>i. fg_p q ! i = 2) i)"
  shows "\<exists>Xs m m'. write_header_loop A rnd n [i..<i + k] q X = Some (q\<lparr>mod_header := m, mod_payload := m',
        header_symbol_index := min n (t + rank (\<lambda>i. fg_p q ! i = 2) (i + k))\<rparr>, X @ Xs) \<and>
      length Xs = k \<and> api_scheme A m = MODEM_BPSK \<and> api_scheme A m' = api_scheme A (mod_payload q) \<and>
      (\<forall>j < k. fg_p q ! (i + j) = 2 \<and> t + rank (\<lambda>i. fg_p q ! i = 2) (i + j) < n \<longrightarrow>
        carries_sym A near MODEM_BPSK (Xs ! j) (unat (header_mod q ! (t + rank (\<lambda>i. fg_p q ! i = 2) (i + j)))))"
  using assms(3-7)
proof (induction k arbitrary: i q X)
  case 0
  show ?case by (rule exI [of _ "[]"], rule exI [of _ "mod_header q"], rule exI [of _ "mod_payload q"]) (simp add: 0)
next
  case (Suc k)
  let ?mine = "\<lambda>i. fg_p q ! i = 2"
  let ?on = "\<lambda>j x. ?mine j \<and> t + rank ?mine j < n \<longrightarrow> carries_sym A near MODEM_BPSK x (unat (header_mod q ! (t + rank ?mine j)))"
  from write_header_cell [OF clean Suc.prems, where rnd = rnd and js = "[Suc i..<Suc i + k]" and X = X] obtain x m1 m1' where
    one: "write_header_loop A rnd n [i..<i + Suc k] q X = write_header_loop A rnd n [Suc i..<Suc i + k] (q\<lparr>mod_header := m1,
        mod_payload := m1', header_symbol_index := min n (t + rank ?mine (Suc i))\<rparr>) (X @ [x])"
      "api_scheme A m1 = MODEM_BPSK" "api_scheme A m1' = api_scheme A (mod_payload q)" "?on i x" unfolding upt_front by blast
  from Suc.IH [of "q\<lparr>mod_header := m1, mod_payload := m1', header_symbol_index := min n (t + rank ?mine (Suc i))\<rparr>" "Suc i" "X @ [x]"]
    one(2,3) Suc.prems obtain Xs m m' where
    rest: "write_header_loop A rnd n [Suc i..<Suc i + k] (q\<lparr>mod_header := m1, mod_payload := m1',
          header_symbol_index := min n (t + rank ?mine (Suc i))\<rparr>) (X @ [x]) =
        Some (q\<lparr>mod_header := m, mod_payload := m', header_symbol_index := min n (t + rank ?mine (Suc i + k))\<rparr>, (X @ [x]) @ Xs)"
      "length Xs = k" "api_scheme A m = MODEM_BPSK" "api_scheme A m' = api_scheme A (mod_payload q)"
      "\<forall>j < k. ?on (Suc i + j) (Xs ! j)" by auto
  have "\<forall>j < Suc k. ?on (i + j) ((x # Xs) ! j)"
    using one(4) rest(5) by (auto simp: less_Suc_eq_0_disj simp del: rank_Suc)
  then show ?case using one(1) rest(1-4)
    by - (rule exI [of _ "x # Xs"], rule exI [of _ m], rule exI [of _ m'], simp del: rank_Suc)
qed

text \<open>The symbols of the payload, for one user.\<close>

lemma write_payload_cell:
  assumes clean: "clean_modems A S near" "s \<in> S" and "api_scheme A (mod_payload q) = s" and "\<not> fg_ofdma q"
    and "payload_mod_len q \<le> length (payload_mod q)" and "\<And>j. j < payload_mod_len q \<Longrightarrow> unat (payload_mod q ! j) < 2 ^ modem_bps s"
    and "payload_symbol_index q = min (payload_mod_len q) (t + rank (\<lambda>i. fg_p q ! i = 2) i)"
  shows "\<exists>x m. write_payload_loop A rnd (i # js) q X = write_payload_loop A rnd js (q\<lparr>mod_payload := m,
        payload_symbol_index := min (payload_mod_len q) (t + rank (\<lambda>i. fg_p q ! i = 2) (Suc i))\<rparr>) (X @ [x]) \<and>
      api_scheme A m = s \<and> (fg_p q ! i = 2 \<and> t + rank (\<lambda>i. fg_p q ! i = 2) i < payload_mod_len q \<longrightarrow>
        carries_sym A near s x (unat (payload_mod q ! (t + rank (\<lambda>i. fg_p q ! i = 2) i))))"
proof -
  let ?mine = "\<lambda>i. fg_p q ! i = 2" and ?n = "payload_mod_len q"
  show ?thesis
  proof (cases "?mine i \<and> t + rank ?mine i < ?n")
    case True
    have "unat (payload_mod q ! (t + rank ?mine i)) < 2 ^ modem_bps s" using assms(6) True by simp
    from clean_modulate [OF clean(1) assms(3) clean(2) this] obtain x m where
      "api_modulate A (mod_payload q) (unat (payload_mod q ! (t + rank ?mine i))) = Some (x, m)" "api_scheme A m = s"
        "carries_sym A near s x (unat (payload_mod q ! (t + rank ?mine i)))" .
    then show ?thesis using True assms(4,5,7)
      by - (rule exI [of _ x], rule exI [of _ m], simp add: sctypes single_cell_def)
  next
    case False
    then have "min ?n (t + rank ?mine (Suc i)) = payload_symbol_index q" "\<not> ?mine i \<or> \<not> payload_symbol_index q < ?n" using assms(7) by auto
    then show ?thesis using False assms(3,4)
      by - (rule exI [of _ 0], rule exI [of _ "mod_payload q"], auto simp add: sctypes single_cell_def simp del: rank_Suc)
  qed
qed

lemma write_payload_run:
  assumes clean: "clean_modems A S near" "s \<in> S" and "api_scheme A (mod_payload q) = s" and "\<not> fg_ofdma q"
    and "payload_mod_len q \<le> length (payload_mod q)" and "\<And>j. j < payload_mod_len q \<Longrightarrow> unat (payload_mod q ! j) < 2 ^ modem_bps s"
    and "payload_symbol_index q = min (payload_mod_len q) (t + rank (\<lambda>i. fg_p q ! i = 2) i)"
  shows "\<exists>Xs m. write_payload_loop A rnd [i..<i + k] q X = Some (q\<lparr>mod_payload := m,
        payload_symbol_index := min (payload_mod_len q) (t + rank (\<lambda>i. fg_p q ! i = 2) (i + k))\<rparr>, X @ Xs) \<and>
      length Xs = k \<and> api_scheme A m = s \<and>
      (\<forall>j < k. fg_p q ! (i + j) = 2 \<and> t + rank (\<lambda>i. fg_p q ! i = 2) (i + j) < payload_mod_len q \<longrightarrow>
        carries_sym A near s (Xs ! j) (unat (payload_mod q ! (t + rank (\<lambda>i. fg_p q ! i = 2) (i + j)))))"
  using assms(3-7)
proof (induction k arbitrary: i q X)
  case 0
  show ?case by (rule exI [of _ "[]"], rule exI [of _ "mod_payload q"]) (simp add: 0)
next
  case (Suc k)
  let ?mine = "\<lambda>i. fg_p q ! i = 2" and ?n = "payload_mod_len q"
  let ?on = "\<lambda>j x. ?mine j \<and> t + rank ?mine j < ?n \<longrightarrow> carries_sym A near s x (unat (payload_mod q ! (t + rank ?mine j)))"
  from write_payload_cell [OF clean Suc.prems, where rnd = rnd and js = "[Suc i..<Suc i + k]" and X = X] obtain x m1 where
    one: "write_payload_loop A rnd [i..<i + Suc k] q X = write_payload_loop A rnd [Suc i..<Suc i + k] (q\<lparr>mod_payload := m1,
        payload_symbol_index := min ?n (t + rank ?mine (Suc i))\<rparr>) (X @ [x])"
      "api_scheme A m1 = s" "?on i x" unfolding upt_front by blast
  from Suc.IH [of "q\<lparr>mod_payload := m1, payload_symbol_index := min ?n (t + rank ?mine (Suc i))\<rparr>" "Suc i" "X @ [x]"]
    one(2) Suc.prems obtain Xs m where
    rest: "write_payload_loop A rnd [Suc i..<Suc i + k] (q\<lparr>mod_payload := m1,
          payload_symbol_index := min ?n (t + rank ?mine (Suc i))\<rparr>) (X @ [x]) =
        Some (q\<lparr>mod_payload := m, payload_symbol_index := min ?n (t + rank ?mine (Suc i + k))\<rparr>, (X @ [x]) @ Xs)"
      "length Xs = k" "api_scheme A m = s" "\<forall>j < k. ?on (Suc i + j) (Xs ! j)" by auto
  have "\<forall>j < Suc k. ?on (i + j) ((x # Xs) ! j)"
    using one(3) rest(4) by (auto simp: less_Suc_eq_0_disj simp del: rank_Suc)
  then show ?case using one(1) rest(1-3)
    by - (rule exI [of _ "x # Xs"], rule exI [of _ m], simp del: rank_Suc)
qed

section \<open>Reading a symbol\<close>

text \<open>The received values \<open>Y\<close> of the subcarriers from \<open>i\<close> on are demodulated to the values of \<open>vals\<close>.\<close>

definition reads ::
  "('m, 'c) modem_api \<Rightarrow> modulation_scheme \<Rightarrow> (nat \<Rightarrow> bool) \<Rightarrow> bytes \<Rightarrow> nat \<Rightarrow> nat \<Rightarrow> 'c list \<Rightarrow> nat \<Rightarrow> bool" where
  "reads A s mine vals n t Y M \<longleftrightarrow> (\<forall>i < M. mine i \<and> t + rank mine i < n \<longrightarrow>
     (\<forall>r. api_scheme A r = s \<longrightarrow> (\<exists>r'. api_demodulate A r (Y ! i) = (unat (vals ! (t + rank mine i)), r') \<and> api_scheme A r' = s)))"

lemma readsD:
  assumes "reads A s mine vals n t Y M" and "i < M" and "mine i" and "t + rank mine i < n" and "api_scheme A r = s"
  obtains r' where "api_demodulate A r (Y ! i) = (unat (vals ! (t + rank mine i)), r')" "api_scheme A r' = s"
  using assms unfolding reads_def by metis

definition header_syms :: "'m ofdmflexframesync \<Rightarrow> nat" where
  "header_syms q = (if fs_ofdma q then fs_h_sym_dynamic q else OFDMFLEXFRAME_H_SYM)"

lemma header_syms_update [simp]:
  "header_syms (q\<lparr>fs_mod_header := m, fs_header_mod := hm, fs_header_symbol_index := k\<rparr>) = header_syms q"
  by (simp add: header_syms_def)

lemma rxheader_run:
  assumes "reads A MODEM_BPSK (\<lambda>i. fs_p q ! i = 2) vals n t Y M" and "n = header_syms q"
    and "api_scheme A (fs_mod_header q) = MODEM_BPSK" and "length (fs_header_mod q) = n" and "length vals = n"
    and "fs_header_symbol_index q = t + rank (\<lambda>i. fs_p q ! i = 2) i" and "t + rank (\<lambda>i. fs_p q ! i = 2) i < n"
    and "\<And>j. j < t + rank (\<lambda>i. fs_p q ! i = 2) i \<Longrightarrow> fs_header_mod q ! j = vals ! j" and "i + k \<le> M"
  shows "\<exists>m hm. api_scheme A m = MODEM_BPSK \<and> length hm = n \<and>
    (\<forall>j < min n (t + rank (\<lambda>i. fs_p q ! i = 2) (i + k)). hm ! j = vals ! j) \<and>
    rxheader_loop A L mem [i..<i + k] q Y =
      (let q' = q\<lparr>fs_mod_header := m, fs_header_mod := hm,
         fs_header_symbol_index := min n (t + rank (\<lambda>i. fs_p q ! i = 2) (i + k))\<rparr>
       in if t + rank (\<lambda>i. fs_p q ! i = 2) (i + k) < n then Some ([], q') else header_extracted A L mem q')"
  using assms
proof (induction k arbitrary: i q)
  case 0
  then show ?case by - (rule exI [of _ "fs_mod_header q"], rule exI [of _ "fs_header_mod q"], simp)
next
  case (Suc k)
  let ?mine = "\<lambda>i. fs_p q ! i = 2" and ?k = "t + rank (\<lambda>i. fs_p q ! i = 2) i"
  show ?case
  proof (cases "?mine i")
    case False
    then have eq: "rxheader_loop A L mem [i..<i + Suc k] q Y = rxheader_loop A L mem [Suc i..<Suc i + k] q Y"
      unfolding upt_front by (simp add: sctypes del: upt_Suc)
    show ?thesis unfolding eq using Suc.IH [of q "Suc i"] Suc.prems False by simp
  next
    case True
    have i: "i < M" using Suc.prems(9) by simp
    from readsD [OF Suc.prems(1) i True Suc.prems(7,3)] obtain m where
      m: "api_demodulate A (fs_mod_header q) (Y ! i) = (unat (vals ! ?k), m)" "api_scheme A m = MODEM_BPSK" .
    let ?hm = "(fs_header_mod q)[?k := vals ! ?k]"
    let ?q = "q\<lparr>fs_mod_header := m, fs_header_mod := ?hm, fs_header_symbol_index := Suc ?k\<rparr>"
    have run: "rxheader_loop A L mem [i..<i + Suc k] q Y =
        (if Suc ?k = n then header_extracted A L mem ?q else rxheader_loop A L mem [Suc i..<Suc i + k] ?q Y)"
      using True m(1) Suc.prems(2,4,6,7) unfolding upt_front by (simp add: sctypes Let_def header_syms_def del: upt_Suc)
    have hm: "length ?hm = n" "\<And>j. j < Suc ?k \<Longrightarrow> ?hm ! j = vals ! j"
      using Suc.prems(4,7,8) by (auto simp: nth_list_update less_Suc_eq)
    show ?thesis
    proof (cases "Suc ?k = n")
      case True
      then have "n \<le> t + rank ?mine (i + Suc k)" using rank_mono [of "Suc i" "i + Suc k" ?mine] \<open>?mine i\<close> by simp
      then show ?thesis using run True hm m(2)
        by - (rule exI [of _ m], rule exI [of _ ?hm], simp add: Let_def del: rank_Suc)
    next
      case False
      then have eq: "rxheader_loop A L mem [i..<i + Suc k] q Y = rxheader_loop A L mem [Suc i..<Suc i + k] ?q Y" using run by simp
      show ?thesis unfolding eq using Suc.IH [of ?q "Suc i"] Suc.prems hm m(2) False \<open>?mine i\<close> by simp
    qed
  qed
qed

text \<open>The symbols packed so far are the first bits of the array.\<close>

definition packed_syms :: "nat \<Rightarrow> bytes \<Rightarrow> nat \<Rightarrow> bytes \<Rightarrow> bool" where
  "packed_syms b vals k buf \<longleftrightarrow> (\<forall>t < 8 * length buf. t < b * k \<longrightarrow> sym_bit 8 buf t = sym_bit b vals t)"

lemma packed_step:
  assumes "packed_syms b vals k buf" and "0 < b" "b \<le> 8" and "b * k < 8 * length buf"
  obtains out where "liquid_pack_array buf (length buf) (b * k) b (vals ! k) = Some out" "length out = length buf"
    "packed_syms b vals (Suc k) out"
proof -
  from liquid_pack_array_bits [OF refl assms(4,3), of "vals ! k"] obtain out where
    out: "liquid_pack_array buf (length buf) (b * k) b (vals ! k) = Some out" by blast
  note stream = liquid_pack_array_stream [OF refl assms(4,3) out]
  have "sym_bit 8 out t = sym_bit b vals t" if t: "t < 8 * length out" "t < b * Suc k" for t
  proof (cases "t < b * k")
    case True
    then show ?thesis using stream t assms(1) by (simp add: packed_syms_def)
  next
    case False
    then obtain c where c: "t = b * k + c" "c < b" using t(2) by (metis add_less_cancel_left le_Suc_ex linorder_not_less mult_Suc_right add.commute)
    have "b * k + b - 1 - t = b - 1 - c" using c by simp
    then show ?thesis using stream t c sym_bit_block [OF c(2), of vals k] by simp
  qed
  with out stream(1) that show thesis unfolding packed_syms_def by blast
qed

lemma packed_all:
  assumes "packed_syms b vals (ceil_div (8 * length enc) b) buf" and "length buf = length enc" and "0 < b"
    and "\<And>t. t < 8 * length enc \<Longrightarrow> sym_bit b vals t = sym_bit 8 enc t"
  shows "buf = enc"
  using assms le_mult_ceil_div [OF assms(3), of "8 * length enc"]
  by (intro bytes_eqI_sym_bit) (auto simp: packed_syms_def)

definition data_for :: "'m ofdmflexframesync \<Rightarrow> nat \<Rightarrow> bool" where
  "data_for q i \<longleftrightarrow> fs_p q ! i = 2 \<and> (fs_ofdma q \<longrightarrow> unat (fs_subcarrier_map q ! i) = user_id q)"

lemma data_for_update [simp]:
  "data_for (q\<lparr>fs_mod_payload := m, fs_payload_enc := buf, payload_buffer_index := j, fs_payload_symbol_index := k\<rparr>) = data_for q"
  by (simp add: data_for_def fun_eq_iff)

lemma rxpayload_run:
  assumes "reads A (ms_payload q) (data_for q) vals n t Y M" and "n = fs_payload_mod_len q"
    and "n = ceil_div (8 * length (fs_payload_enc q)) (bps_payload q)" and "fs_payload_enc_len q = length (fs_payload_enc q)"
    and "0 < bps_payload q" "bps_payload q \<le> 8" and "api_scheme A (fs_mod_payload q) = ms_payload q"
    and "fs_payload_symbol_index q = t + rank (data_for q) i" and "payload_buffer_index q = bps_payload q * (t + rank (data_for q) i)"
    and "t + rank (data_for q) i < n" and "packed_syms (bps_payload q) vals (t + rank (data_for q) i) (fs_payload_enc q)" and "i + k \<le> M"
  shows "\<exists>m buf. api_scheme A m = ms_payload q \<and> length buf = length (fs_payload_enc q) \<and>
    packed_syms (bps_payload q) vals (min n (t + rank (data_for q) (i + k))) buf \<and>
    rxpayload_loop A [i..<i + k] q Y =
      (let q' = q\<lparr>fs_mod_payload := m, fs_payload_enc := buf,
         payload_buffer_index := bps_payload q * min n (t + rank (data_for q) (i + k)),
         fs_payload_symbol_index := min n (t + rank (data_for q) (i + k))\<rparr>
       in if t + rank (data_for q) (i + k) < n then Some ([], q') else payload_extracted q')"
  using assms
proof (induction k arbitrary: i q)
  case 0
  then show ?case by - (rule exI [of _ "fs_mod_payload q"], rule exI [of _ "fs_payload_enc q"], simp)
next
  case (Suc k)
  let ?k = "t + rank (data_for q) i" and ?b = "bps_payload q"
  show ?case
  proof (cases "data_for q i")
    case False
    then have eq: "rxpayload_loop A [i..<i + Suc k] q Y = rxpayload_loop A [Suc i..<Suc i + k] q Y"
      unfolding upt_front by (auto simp add: sctypes data_for_def Let_def simp del: upt_Suc)
    show ?thesis unfolding eq using Suc.IH [of q "Suc i"] Suc.prems False by simp
  next
    case True
    have i: "i < M" using Suc.prems(12) by simp
    have on: "fs_p q ! i = 2" "fs_ofdma q \<longrightarrow> unat (fs_subcarrier_map q ! i) = user_id q" using True by (simp_all add: data_for_def)
    from readsD [OF Suc.prems(1) i True Suc.prems(10,7)] obtain m where
      m: "api_demodulate A (fs_mod_payload q) (Y ! i) = (unat (vals ! ?k), m)" "api_scheme A m = ms_payload q" .
    have "?b * ?k < 8 * length (fs_payload_enc q)"
      using Suc.prems(10) ceil_div_le_iff [OF Suc.prems(5), of "8 * length (fs_payload_enc q)" ?k] unfolding Suc.prems(3) by linarith
    from packed_step [OF Suc.prems(11,5,6) this] obtain buf where
      buf: "liquid_pack_array (fs_payload_enc q) (length (fs_payload_enc q)) (?b * ?k) ?b (vals ! ?k) = Some buf"
        "length buf = length (fs_payload_enc q)" "packed_syms ?b vals (Suc ?k) buf" .
    let ?q = "q\<lparr>fs_mod_payload := m, fs_payload_enc := buf, payload_buffer_index := ?b * Suc ?k, fs_payload_symbol_index := Suc ?k\<rparr>"
    have run: "rxpayload_loop A [i..<i + Suc k] q Y =
        (if Suc ?k = n then payload_extracted ?q else rxpayload_loop A [Suc i..<Suc i + k] ?q Y)"
      using on m(1) buf(1) Suc.prems(4,8,9) Suc.prems(2) [symmetric] unfolding upt_front
      by (cases "n = Suc ?k") (simp_all add: sctypes Let_def add.commute del: upt_Suc)
    show ?thesis
    proof (cases "Suc ?k = n")
      case True
      then have "n \<le> t + rank (data_for q) (i + Suc k)"
        using rank_mono [of "Suc i" "i + Suc k" "data_for q"] \<open>data_for q i\<close> by simp
      then have "min n (t + rank (data_for q) (i + Suc k)) = Suc ?k" "\<not> t + rank (data_for q) (i + Suc k) < n" using True by simp_all
      then show ?thesis using run True buf m(2)
        by - (rule exI [of _ m], rule exI [of _ buf], simp add: Let_def del: rank_Suc)
    next
      case False
      then have eq: "rxpayload_loop A [i..<i + Suc k] q Y = rxpayload_loop A [Suc i..<Suc i + k] ?q Y" using run by simp
      show ?thesis unfolding eq using Suc.IH [of ?q "Suc i"] Suc.prems buf m(2) False \<open>data_for q i\<close> by simp
    qed
  qed
qed

section \<open>Packets and symbols\<close>

definition mem_ok :: "(nat \<Rightarrow> bytes) \<Rightarrow> bool" where
  "mem_ok mem \<longleftrightarrow> (\<forall>n. length (mem n) = n)"

lemma realloc_length [simp]: "mem_ok mem \<Longrightarrow> length (realloc_bytes mem old n) = n"
  by (simp add: realloc_bytes_def mem_ok_def)

text \<open>A packetizer for messages of \<open>n\<close> bytes.\<close>

definition packs :: "(fec_scheme \<Rightarrow> fec_s) \<Rightarrow> nat \<Rightarrow> crc_scheme \<Rightarrow> fec_scheme \<Rightarrow> fec_scheme \<Rightarrow> packetizer_s \<Rightarrow> bool" where
  "packs L n crc fec0 fec1 p \<longleftrightarrow> packetizer_inv L fec0 fec1 p \<and> msg_len p = n \<and> check p = crc"

definition packet_size :: "nat \<Rightarrow> crc_scheme \<Rightarrow> fec_scheme \<Rightarrow> fec_scheme \<Rightarrow> nat" where
  "packet_size n crc fec0 fec1 = block_len fec1 (block_len fec0 (n + crc_get_length crc))"

lemma packs_size:
  assumes "packs L n crc fec0 fec1 p"
  shows "packetizer_get_enc_msg_len p = packet_size n crc fec0 fec1" "packet_len p = packet_size n crc fec0 fec1"
proof -
  from assms have inv: "packetizer_inv L fec0 fec1 p" "msg_len p = n" "check p = crc" by (simp_all add: packs_def)
  then have bs: "block_scheme fec0" "block_scheme fec1" "n < packet_bound"
    and p: "packetizer_create L (buffer_0 p) (buffer_1 p) n crc fec0 fec1 = Some p" by (auto simp: packetizer_inv_def)
  from p have "packetizer_compute_enc_msg_len n crc fec0 fec1 = Some (packet_len p)"
    by (auto simp: packetizer_create_def bind_eq_Some_conv Let_def dest: arg_cong [of _ p packet_len])
  with enc_msg_len_closed [OF bs, of crc] show "packet_len p = packet_size n crc fec0 fec1" by (simp add: packet_size_def)
  then show "packetizer_get_enc_msg_len p = packet_size n crc fec0 fec1" by (simp add: packetizer_get_enc_msg_len_def)
qed

lemma new_packetizer_packs:
  assumes "block_scheme fec0" "block_scheme fec1" "n < packet_bound" "crc \<noteq> CRC_UNKNOWN" "mem_ok mem"
  obtains p where "new_packetizer L mem n crc fec0 fec1 = Some p" "packs L n crc fec0 fec1 p"
proof -
  obtain l where l: "packetizer_compute_enc_msg_len n crc fec0 fec1 = Some l" using enc_msg_len_closed [OF assms(1-3)] by blast
  then have "length (packetizer_mem mem n crc fec0 fec1) = 8 * l" using assms(5) by (simp add: packetizer_mem_def mem_ok_def)
  from packetizer_create_inv [OF assms(1-4) l this this, of L] that show ?thesis
    by (auto simp: new_packetizer_def packs_def Let_def)
qed

lemma renew_packetizer_packs:
  assumes "block_scheme fec0" "block_scheme fec1" "n < packet_bound" "crc \<noteq> CRC_UNKNOWN" "mem_ok mem"
    and "packetizer_inv L f0 f1 p"
  obtains p' where "renew_packetizer L mem p n crc fec0 fec1 = Some p'" "packs L n crc fec0 fec1 p'"
proof -
  from packetizer_inv_parts [OF assms(6)] have plans: "plan_fs (plan p ! 0) = f0" "plan_fs (plan p ! 1) = f1" by auto
  from new_packetizer_packs [OF assms(1-5)] obtain pn where
    "new_packetizer L mem n crc fec0 fec1 = Some pn" "packs L n crc fec0 fec1 pn" .
  with plans assms(6) have "\<exists>p'. renew_packetizer L mem p n crc fec0 fec1 = Some p' \<and> packs L n crc fec0 fec1 p'"
    by (auto simp: renew_packetizer_def packetizer_recreate_def new_packetizer_def packs_def Let_def)
  with that show ?thesis by blast
qed

text \<open>What one packetizer encodes every other one for the same messages decodes.\<close>

lemma packs_roundtrip:
  assumes "packs L n crc fec0 fec1 p" and "length msg = n"
  obtains pkt p' where "packetizer_encode p msg = Some (pkt, p')" "packs L n crc fec0 fec1 p'" "length pkt = packet_size n crc fec0 fec1"
    "\<And>r. packs L n crc fec0 fec1 r \<Longrightarrow> \<exists>r'. packetizer_decode r pkt = Some (msg, True, r') \<and> packs L n crc fec0 fec1 r'"
proof -
  from assms have inv: "packetizer_inv L fec0 fec1 p" "length msg = msg_len p" by (simp_all add: packs_def)
  from packetizer_inv_parts [OF inv(1)] obtain p0 p1 where plans: "plan p = [p0, p1]" and len: "enc_msg_len p1 = packet_len p" by auto
  from packetizer_encode_carries [OF inv(1) plans inv(2)] obtain key x0 x1 b0 b1 where
    key: "crc_generate_key (check p) msg (msg_len p) = Some key" and x: "carries p0 (msg @ word_bytes (crc_length p) key) x0"
      "carries p1 x0 x1" and b: "length b0 = 8 * packet_len p" "length b1 = 8 * packet_len p"
    and run: "packetizer_encode p msg = Some (x1, p\<lparr>buffer_0 := b0, buffer_1 := b1\<rparr>)" by blast
  have x1: "length x1 = packet_len p" using x(2) len by (simp add: carries_def)
  have "packs L n crc fec0 fec1 (p\<lparr>buffer_0 := b0, buffer_1 := b1\<rparr>)"
    using packetizer_inv_buffers [OF inv(1) b] assms(1) by (simp add: packs_def)
  moreover have "\<exists>r'. packetizer_decode r x1 = Some (msg, True, r') \<and> packs L n crc fec0 fec1 r'" if r: "packs L n crc fec0 fec1 r" for r
  proof -
    from r assms(1) have r': "packetizer_inv L fec0 fec1 r" "msg_len r = msg_len p" "check r = check p" by (simp_all add: packs_def)
    note same = packetizer_inv_plan [OF inv(1) r']
    have *: "plan r = [p0, p1]" "length msg = msg_len r" "crc_generate_key (check r) msg (msg_len r) = Some key"
      "carries p0 (msg @ word_bytes (crc_length r) key) x0" "length x1 = packet_len r"
      using same plans inv(2) r' key x(1) x1 by simp_all
    from packetizer_decode_carries [OF r'(1) * (1-4) x(2) * (5) carries_correctable [OF x(2)]] obtain b0 b1 where
      "length b0 = 8 * packet_len r" "length b1 = 8 * packet_len r"
      "packetizer_decode r x1 = Some (msg, True, r\<lparr>buffer_0 := b0, buffer_1 := b1\<rparr>)" by blast
    then show ?thesis using packetizer_inv_buffers [OF r'(1), of b0 b1] r by (auto simp: packs_def)
  qed
  ultimately show thesis using that [OF run] x1 packs_size(2) [OF assms(1)] by simp
qed

text \<open>Bytes cut into symbols.\<close>

lemma repack_bytes_run:
  assumes "0 < b" "b \<le> 8" and "ceil_div (8 * n) b \<le> l"
  obtains out where "liquid_repack_bytes xs 8 n b l = Some out" "length out = ceil_div (8 * n) b"
    "\<And>j. j < length out \<Longrightarrow> unat (out ! j) < 2 ^ b" "\<And>t. t < 8 * n \<Longrightarrow> sym_bit b out t = sym_bit 8 xs t"
proof -
  from liquid_repack_bytes_stream [of 8 b n l xs] assms obtain out where
    out: "liquid_repack_bytes xs 8 n b l = Some out" "length out = ceil_div (8 * n) b"
      "\<And>q i. q < length out \<Longrightarrow> bit (out ! q) i \<longleftrightarrow> i < b \<and> b * q + (b - 1 - i) < n * 8 \<and> sym_bit 8 xs (b * q + (b - 1 - i))"
    by (auto simp: mult.commute)
  have "unat (out ! j) < 2 ^ b" if "j < length out" for j
  proof -
    have "take_bit b (out ! j) = out ! j" by (rule bit_word_eqI) (use out(3) [OF that] in \<open>auto simp: bit_take_bit_iff\<close>)
    then have "unat (out ! j) = take_bit b (unat (out ! j))" by (metis unsigned_take_bit_eq)
    then show ?thesis by (metis take_bit_nat_less_exp)
  qed
  moreover have "sym_bit b out t = sym_bit 8 xs t" if "t < 8 * n" for t
  proof -
    have t: "t div b < length out" "b * (t div b) + t mod b = t" "t mod b < b"
      using that assms(1) le_mult_ceil_div [OF assms(1), of "8 * n"] out(2)
      by (auto simp: div_less_iff_less_mult mult.commute)
    then have "b - 1 - (b - 1 - t mod b) = t mod b" "b - 1 - t mod b < b" by linarith+
    then show ?thesis using out(3) [OF t(1), of "b - 1 - t mod b"] t(2) that by (simp add: sym_bit_def [of b] mult.commute)
  qed
  ultimately show thesis using that out(1,2) by blast
qed

section \<open>The bytes of the header\<close>

lemma index_of_list:
  assumes "x \<in> set (map fst ys)"
  shows "index_of (map fst ys) x < length ys" "fst (ys ! index_of (map fst ys) x) = x"
  using index_of_nth [OF assms] by auto

lemma crc_num_list: "crc_num c < 7" "crc_num c < length crc_scheme_list" "fst (crc_scheme_list ! crc_num c) = c"
proof -
  have "c \<in> set (map fst crc_scheme_list)" by (cases c) (simp_all add: crc_scheme_list_def)
  from index_of_list [OF this] show "crc_num c < length crc_scheme_list" "fst (crc_scheme_list ! crc_num c) = c"
    by (simp_all add: crc_num_def)
  then show "crc_num c < 7" by (simp add: crc_scheme_list_def)
qed

lemma fec_num_list: "fec_num f < 28" "fec_num f < length fec_scheme_list" "fst (fec_scheme_list ! fec_num f) = f"
proof -
  have "f \<in> set (map fst fec_scheme_list)" by (cases f) (simp_all add: fec_scheme_list_def)
  from index_of_list [OF this] show "fec_num f < length fec_scheme_list" "fst (fec_scheme_list ! fec_num f) = f"
    by (simp_all add: fec_num_def)
  then show "fec_num f < 28" by (simp add: fec_scheme_list_def)
qed

lemma small_byte: "k < 2 ^ j \<Longrightarrow> j \<le> 8 \<Longrightarrow> bit (of_nat k :: u8) i \<Longrightarrow> i < j"
  by (metis bit_of_nat_iff bit_take_bit_iff take_bit_nat_eq_self_iff)

lemma unat_small_byte: "k < 256 \<Longrightarrow> unat (of_nat k :: u8) = k"
  by (simp add: unat_of_nat)

lemma bit_0x07: "bit (0x07 :: u8) i \<longleftrightarrow> i < 3" and bit_0x1f: "bit (0x1f :: u8) i \<longleftrightarrow> i < 5"
proof -
  have e: "(0x07 :: u8) = mask 3" "(0x1f :: u8) = mask 5" by (simp_all add: mask_eq_exp_minus_1)
  show "bit (0x07 :: u8) i \<longleftrightarrow> i < 3" unfolding e(1) by (auto simp add: bit_mask_iff)
  show "bit (0x1f :: u8) i \<longleftrightarrow> i < 5" unfolding e(2) by (auto simp add: bit_mask_iff)
qed

lemma header_fields:
  assumes "c < 8" and "f < 32"
  defines "w \<equiv> push_bit 5 (of_nat c) OR of_nat f :: u8"
  shows "of_nat c AND 0x07 = (of_nat c :: u8)" "of_nat f AND 0x1f = (of_nat f :: u8)"
    "drop_bit 5 w AND 0x07 = of_nat c" "w AND 0x1f = of_nat f"
proof -
  have c: "bit (of_nat c :: u8) i \<Longrightarrow> i < 3" and f: "bit (of_nat f :: u8) i \<Longrightarrow> i < 5" for i
    using small_byte [of c 3 i] small_byte [of f 5 i] assms by simp_all
  show "of_nat c AND 0x07 = (of_nat c :: u8)"
    by (rule bit_word_eqI) (simp only: bit_and_iff bit_0x07, use c in blast)
  show "of_nat f AND 0x1f = (of_nat f :: u8)"
    by (rule bit_word_eqI) (simp only: bit_and_iff bit_0x1f, use f in blast)
  show "drop_bit 5 w AND 0x07 = of_nat c"
    by (rule bit_word_eqI) (simp only: w_def bit_and_iff bit_or_iff bit_drop_bit_eq bit_push_bit_iff bit_0x07 o_def, use c f in auto)
  show "w AND 0x1f = of_nat f"
    by (rule bit_word_eqI) (simp only: w_def bit_and_iff bit_or_iff bit_push_bit_iff bit_0x1f, use c f in auto)
qed

definition framing_info :: "nat \<Rightarrow> ofdmflexframegenprops_s \<Rightarrow> bytes" where
  "framing_info len pr = [104, of_nat (len div 256), of_nat len, of_nat (modem_num (fp_mod_scheme pr)),
     push_bit 5 (of_nat (crc_num (fp_check pr))) OR of_nat (fec_num (fp_fec0 pr)), of_nat (fec_num (fp_fec1 pr))]"

lemma encode_header_bytes_eq:
  assumes "length h = n + 6"
  shows "encode_header_bytes n len pr h = take n h @ framing_info len pr"
proof -
  have "length (drop n h) = Suc (Suc (Suc (Suc (Suc (Suc 0)))))" using assms by simp
  then obtain a b c d e f where "drop n h = [a, b, c, d, e, f]"
    by (auto simp: length_Suc_conv simp del: length_drop)
  then obtain t where h: "h = t @ [a, b, c, d, e, f]" "length t = n" using assms
    by (metis add.commute append_take_drop_id length_take min.absorb2 le_add2)
  have "fec_num g < 32" "crc_num x < 8" for g x using fec_num_list(1) [of g] crc_num_list(1) [of x] by simp_all
  then have "of_nat (crc_num x) AND 0x07 = (of_nat (crc_num x) :: u8)" "of_nat (fec_num g) AND 0x1f = (of_nat (fec_num g) :: u8)" for x g
    using header_fields(1,2) by blast+
  then show ?thesis
    by (simp add: encode_header_bytes_def Let_def framing_info_def OFDMFLEXFRAME_VERSION_def list_update_append nth_append h)
qed

end
