(* ===== verification/Ofdm_Frame_Sending.thy ===== *)
theory Ofdm_Frame_Sending
  imports Ofdm_Frame_Symbols
begin

unbundle bit_operations_syntax

text \<open>
  The sending side for one user: what the symbols of a frame carry, the generator after an assembled frame, and
  \<open>write_frame\<close>: the symbols written until the frame is complete, and the generator ready for the next one.
\<close>

section \<open>What the symbols carry\<close>

abbreviation header_packs :: "(fec_scheme \<Rightarrow> fec_s) \<Rightarrow> nat \<Rightarrow> packetizer_s \<Rightarrow> bool" where
  "header_packs L n \<equiv> packs L n CRC_32 FEC_GOLAY2412 FEC_NONE"

abbreviation header_size :: "nat \<Rightarrow> nat" where
  "header_size n \<equiv> packet_size n CRC_32 FEC_GOLAY2412 FEC_NONE"

definition header_carries :: "(fec_scheme \<Rightarrow> fec_s) \<Rightarrow> bytes \<Rightarrow> bytes \<Rightarrow> bool" where
  "header_carries L h vals \<longleftrightarrow>
     (let enc = header_size (length h)
      in length vals = 8 * enc \<and> (\<forall>j < 8 * enc. unat (vals ! j) < 2) \<and>
         (\<forall>p. header_packs L (length h) p \<longrightarrow>
           (\<exists>out p'. liquid_repack_bytes vals 1 (8 * enc) 8 enc = Some out \<and> length out = enc \<and>
             packetizer_decode p (unscramble_data out enc) = Some (h, True, p') \<and> header_packs L (length h) p')))"

definition payload_carries ::
  "(fec_scheme \<Rightarrow> fec_s) \<Rightarrow> ofdmflexframegenprops_s \<Rightarrow> bytes \<Rightarrow> bytes \<Rightarrow> bool" where
  "payload_carries L pr payload vals \<longleftrightarrow>
     (let b = modem_bps (fp_mod_scheme pr);
          packs = packs L (length payload) (fp_check pr) (fp_fec0 pr) (fp_fec1 pr)
      in \<exists>pkt. length pkt = packet_size (length payload) (fp_check pr) (fp_fec0 pr) (fp_fec1 pr) \<and>
         length vals = ceil_div (8 * length pkt) b \<and> (\<forall>j < length vals. unat (vals ! j) < 2 ^ b) \<and>
         (\<forall>t < 8 * length pkt. sym_bit b vals t = sym_bit 8 pkt t) \<and>
         (\<forall>p. packs p \<longrightarrow> (\<exists>p'. packetizer_decode p pkt = Some (payload, True, p') \<and> packs p')))"

lemma packet_size_bounds: "n + crc_get_length crc \<le> packet_size n crc fec0 fec1"
  using block_len_bounds(1) [where n = "n + crc_get_length crc" and scheme = fec0]
    block_len_bounds(1) [where n = "block_len fec0 (n + crc_get_length crc)" and scheme = fec1]
  unfolding packet_size_def by (rule le_trans)

lemma encode_header_run:
  assumes "header_packs L (n + 6) (p_header g)" and "length (fg_header g) = n + 6"
    and "n = (if fg_ofdma g then h_user_dynamic g else OFDMFLEXFRAME_H_USER)"
    and "header_size (n + 6) = (if fg_ofdma g then h_enc_dynamic g else OFDMFLEXFRAME_H_ENC)"
    and "8 * header_size (n + 6) = (if fg_ofdma g then h_sym_dynamic g else OFDMFLEXFRAME_H_SYM)"
    and "length (header_enc g) = header_size (n + 6)" and "length (header_mod g) = 8 * header_size (n + 6)"
  obtains g1 ph enc vals where "ofdmflexframegen_encode_header g = Some g1"
    "ofdmflexframegen_modulate_header g1 = Some (g\<lparr>fg_header := take n (fg_header g) @ framing_info (payload_dec_len g) (gen_props g),
       p_header := ph, header_enc := enc, header_mod := vals\<rparr>)"
    "header_packs L (n + 6) ph" "length enc = header_size (n + 6)"
    "header_carries L (take n (fg_header g) @ framing_info (payload_dec_len g) (gen_props g)) vals"
proof -
  let ?enc = "header_size (n + 6)" and ?h = "take n (fg_header g) @ framing_info (payload_dec_len g) (gen_props g)"
  have h: "length ?h = n + 6" using assms(2) by (simp add: framing_info_def)
  from packs_roundtrip [OF assms(1) h] obtain pkt ph where
    pkt: "packetizer_encode (p_header g) ?h = Some (pkt, ph)" "header_packs L (n + 6) ph" "length pkt = ?enc"
    and dec: "\<And>r. header_packs L (n + 6) r \<Longrightarrow> \<exists>r'. packetizer_decode r pkt = Some (?h, True, r') \<and> header_packs L (n + 6) r'"
    by blast
  let ?s = "scramble_data pkt ?enc"
  let ?g1 = "g\<lparr>fg_header := ?h, p_header := ph, header_enc := ?s\<rparr>"
  have s: "length ?s = ?enc" using pkt(3) by (simp add: scramble_data_masked)
  have one: "ofdmflexframegen_encode_header g = Some ?g1"
    using pkt(1,3) assms(2,3,4,6) by (auto simp: ofdmflexframegen_encode_header_def encode_header_bytes_eq write_buf_Some)
  have "\<exists>vals res. liquid_repack_bytes ?s 8 ?enc 1 (8 * ?enc) = Some vals \<and> liquid_repack_bytes vals 1 (length vals) 8 ?enc = Some res \<and>
      take ?enc res = ?s"
    by (rule liquid_repack_bytes_inverse) (use s in \<open>auto simp: ceil_div_def take_bit_word_eq_self\<close>)
  then obtain vals res where
    v: "liquid_repack_bytes ?s 8 ?enc 1 (8 * ?enc) = Some vals" "liquid_repack_bytes vals 1 (length vals) 8 ?enc = Some res"
      "take ?enc res = ?s" by blast
  from repack_bytes_run [of 1 ?enc "8 * ?enc" ?s] v(1) have vals: "length vals = 8 * ?enc" "\<And>j. j < 8 * ?enc \<Longrightarrow> unat (vals ! j) < 2"
    by (auto simp: ceil_div_def)
  from liquid_repack_bytes_stream [of 1 8 "8 * ?enc" ?enc vals] v(2) vals(1) have "length res = ?enc" by (auto simp: ceil_div_def)
  then have res: "res = ?s" using v(3) by simp
  have two: "ofdmflexframegen_modulate_header ?g1 = Some (?g1\<lparr>header_mod := vals\<rparr>)"
    using v(1) vals(1) assms(4,5,7) by (auto simp: ofdmflexframegen_modulate_header_def OFDMFLEXFRAME_H_MOD_def write_buf_Some Let_def)
  have "unscramble_data ?s ?enc = pkt" by (simp add: unscramble_data_def scramble_data_masked masked_range_twice)
  then have "header_carries L ?h vals"
    using vals v(2) res s dec unfolding header_carries_def h Let_def by simp
  with one two pkt(2) s that show thesis by simp
qed

section \<open>The generator\<close>

definition props_ok :: "modulation_scheme set \<Rightarrow> ofdmflexframegenprops_s \<Rightarrow> bool" where
  "props_ok S pr \<longleftrightarrow> fp_check pr \<noteq> CRC_UNKNOWN \<and> block_scheme (fp_fec0 pr) \<and> block_scheme (fp_fec1 pr) \<and>
     fp_mod_scheme pr \<in> S \<and> 0 < modem_bps (fp_mod_scheme pr)"

text \<open>The parts of the generator that no frame changes, and those that depend on the payload.\<close>

definition gen_base :: "('m, 'c) modem_api \<Rightarrow> (fec_scheme \<Rightarrow> fec_s) \<Rightarrow> 'm ofdmflexframegen \<Rightarrow> bool" where
  "gen_base A L g \<longleftrightarrow> \<not> fg_ofdma g \<and> fg_M_data g = rank (\<lambda>i. fg_p g ! i = 2) (fg_M g) \<and> 0 < fg_M_data g \<and>
     num_symbols_header g = ceil_div 288 (fg_M_data g) \<and> api_scheme A (mod_header g) = MODEM_BPSK \<and>
     header_packs L 14 (p_header g) \<and> length (fg_header g) = 14 \<and> length (header_enc g) = 36 \<and> length (header_mod g) = 288 \<and>
     (\<exists>f0 f1. packetizer_inv L f0 f1 (p_payload g))"

definition gen_payload :: "('m, 'c) modem_api \<Rightarrow> (fec_scheme \<Rightarrow> fec_s) \<Rightarrow> modulation_scheme set \<Rightarrow> 'm ofdmflexframegen \<Rightarrow> bool" where
  "gen_payload A L S g \<longleftrightarrow>
     (let pr = gen_props g; b = modem_bps (fp_mod_scheme pr)
      in props_ok S pr \<and> api_scheme A (mod_payload g) = fp_mod_scheme pr \<and>
         packs L (payload_dec_len g) (fp_check pr) (fp_fec0 pr) (fp_fec1 pr) (p_payload g) \<and>
         payload_enc_len g = packet_size (payload_dec_len g) (fp_check pr) (fp_fec0 pr) (fp_fec1 pr) \<and>
         length (payload_enc g) = payload_enc_len g \<and> payload_mod_len g = ceil_div (8 * payload_enc_len g) b \<and>
         num_symbols_payload g = ceil_div (payload_mod_len g) (fg_M_data g))"

definition gen_idle :: "'m ofdmflexframegen \<Rightarrow> bool" where
  "gen_idle g \<longleftrightarrow> gen_state g = GEN_S0a \<and> symbol_number g = 0 \<and> \<not> frame_complete g \<and> header_symbol_index g = 0 \<and>
     payload_symbol_index g = 0"

lemma reconfigure_run:
  assumes "clean_modems A S near" and "mem_ok mem" and "gen_base A L g" and "props_ok S (gen_props g)" and "payload_dec_len g < packet_bound"
  obtains g' where "ofdmflexframegen_reconfigure A L mem g = Some g'" "gen_base A L g'" "gen_payload A L S g'"
    "gen_props g' = gen_props g" "payload_dec_len g' = payload_dec_len g" "gen_idle g' = gen_idle g" "fg_p g' = fg_p g" "fg_M g' = fg_M g"
    "fg_M_data g' = fg_M_data g" "num_symbols_header g' = num_symbols_header g"
proof -
  let ?pr = "gen_props g"
  from assms(3) obtain f0 f1 where "packetizer_inv L f0 f1 (p_payload g)" by (auto simp: gen_base_def)
  then have inv: "packetizer_inv L f0 f1 (p_payload g)" .
  have ok: "block_scheme (fp_fec0 ?pr)" "block_scheme (fp_fec1 ?pr)" "fp_check ?pr \<noteq> CRC_UNKNOWN" using assms(4) by (simp_all add: props_ok_def)
  from renew_packetizer_packs [OF ok(1,2) assms(5) ok(3) assms(2) inv] obtain pk where
    pk: "renew_packetizer L mem (p_payload g) (payload_dec_len g) (fp_check ?pr) (fp_fec0 ?pr) (fp_fec1 ?pr) = Some pk"
      "packs L (payload_dec_len g) (fp_check ?pr) (fp_fec0 ?pr) (fp_fec1 ?pr) pk" .
  from clean_recreate [OF assms(1), of "fp_mod_scheme ?pr" "mod_payload g"] assms(4) obtain m where
    m: "modem_recreate A (mod_payload g) (fp_mod_scheme ?pr) = Some m" "api_scheme A m = fp_mod_scheme ?pr"
    by (auto simp: props_ok_def)
  let ?enc = "packet_size (payload_dec_len g) (fp_check ?pr) (fp_fec0 ?pr) (fp_fec1 ?pr)"
  let ?n = "ceil_div (8 * ?enc) (modem_bps (fp_mod_scheme ?pr))"
  let ?g = "g\<lparr>p_payload := pk, payload_enc_len := ?enc, payload_enc := realloc_bytes mem (payload_enc g) ?enc,
       mod_payload := m, payload_mod_len := ?n, payload_mod := realloc_bytes mem (payload_mod g) ?n,
       num_symbols_payload := ceil_div ?n (fg_M_data g)\<rparr>"
  have run: "ofdmflexframegen_reconfigure A L mem g = Some ?g"
    using pk m assms(3,4) by (simp add: ofdmflexframegen_reconfigure_def packs_size(1) [OF pk(2)] div_up_def props_ok_def gen_base_def Let_def)
  show thesis
    by (rule that [OF run]) (use pk m assms in \<open>auto simp: gen_base_def gen_payload_def gen_idle_def packs_def Let_def\<close>)
qed

section \<open>Assembling\<close>

text \<open>An assembled frame: the symbols to be written carry the header and the payload.\<close>

definition assembled ::
  "('m, 'c) modem_api \<Rightarrow> (fec_scheme \<Rightarrow> fec_s) \<Rightarrow> modulation_scheme set \<Rightarrow> bytes \<Rightarrow> bytes \<Rightarrow> 'm ofdmflexframegen \<Rightarrow> bool" where
  "assembled A L S hdr payload g \<longleftrightarrow> gen_base A L g \<and> gen_payload A L S g \<and> frame_assembled g \<and> payload_dec_len g = length payload \<and>
     header_carries L (hdr @ framing_info (length payload) (gen_props g)) (header_mod g) \<and>
     payload_carries L (gen_props g) payload (payload_mod g)"

lemma header_size_14: "header_size 14 = 36"
  by (simp add: packet_size_def)

lemma assemble_run:
  assumes "clean_modems A S near" and "mem_ok mem" and "gen_base A L g" and "gen_payload A L S g"
    and "length hdr = 8" and "length payload < packet_bound"
  obtains g' where "ofdmflexframegen_assemble A L mem g hdr payload (length payload) = Some g'" "assembled A L S hdr payload g'"
    "gen_props g' = gen_props g" "gen_idle g' = gen_idle g" "fg_p g' = fg_p g" "fg_M g' = fg_M g" "fg_M_data g' = fg_M_data g"
proof -
  let ?n = "length payload" and ?pr = "gen_props g"
  have "props_ok S ?pr" using assms(4) by (simp add: gen_payload_def Let_def)
  obtain g1 where g1: "(if ?n \<noteq> payload_dec_len g then ofdmflexframegen_reconfigure A L mem (g\<lparr>payload_dec_len := ?n\<rparr>) else Some g) = Some g1"
    "gen_base A L g1" "gen_payload A L S g1" "gen_props g1 = ?pr" "payload_dec_len g1 = ?n" "gen_idle g1 = gen_idle g"
    "fg_p g1 = fg_p g" "fg_M g1 = fg_M g" "fg_M_data g1 = fg_M_data g"
  proof (cases "?n = payload_dec_len g")
    case False
    have "gen_base A L (g\<lparr>payload_dec_len := ?n\<rparr>)" using assms(3) by (simp add: gen_base_def)
    from reconfigure_run [OF assms(1,2) this] \<open>props_ok S ?pr\<close> assms(6) obtain g1 where
      "ofdmflexframegen_reconfigure A L mem (g\<lparr>payload_dec_len := ?n\<rparr>) = Some g1" "gen_base A L g1" "gen_payload A L S g1"
      "gen_props g1 = ?pr" "payload_dec_len g1 = ?n" "gen_idle g1 = gen_idle (g\<lparr>payload_dec_len := ?n\<rparr>)"
      "fg_p g1 = fg_p g" "fg_M g1 = fg_M g" "fg_M_data g1 = fg_M_data g" by auto
    with that [of g1] False show thesis by (simp add: gen_idle_def)
  qed (use that assms in simp)
  define g2 where "g2 = g1\<lparr>frame_assembled := True, fg_header := hdr @ drop 8 (fg_header g1)\<rparr>"
  have b: "gen_base A L g2" "fg_header g2 = hdr @ drop 8 (fg_header g1)" using g1(2) assms(5) by (simp_all add: gen_base_def g2_def)
  then have h: "length (fg_header g2) = 8 + 6" "take 8 (fg_header g2) = hdr" using g1(2) assms(5) by (simp_all add: gen_base_def)
  from b(1) have hs: "header_packs L (8 + 6) (p_header g2)" "8 = (if fg_ofdma g2 then h_user_dynamic g2 else OFDMFLEXFRAME_H_USER)"
    "header_size (8 + 6) = (if fg_ofdma g2 then h_enc_dynamic g2 else OFDMFLEXFRAME_H_ENC)"
    "8 * header_size (8 + 6) = (if fg_ofdma g2 then h_sym_dynamic g2 else OFDMFLEXFRAME_H_SYM)"
    "length (header_enc g2) = header_size (8 + 6)" "length (header_mod g2) = 8 * header_size (8 + 6)"
    by (simp_all add: gen_base_def header_size_14 OFDMFLEXFRAME_H_USER_def OFDMFLEXFRAME_H_ENC_def OFDMFLEXFRAME_H_SYM_def)
  have same: "payload_dec_len g2 = ?n" "gen_props g2 = ?pr" using g1(4,5) by (simp_all add: g2_def)
  from encode_header_run [OF hs(1) h(1) hs(2-6), unfolded same h(2)] obtain g3 ph enc vals where
    hd: "ofdmflexframegen_encode_header g2 = Some g3"
      "ofdmflexframegen_modulate_header g3 = Some (g2\<lparr>fg_header := hdr @ framing_info ?n ?pr,
         p_header := ph, header_enc := enc, header_mod := vals\<rparr>)"
      "header_packs L (8 + 6) ph" "length enc = header_size (8 + 6)" "header_carries L (hdr @ framing_info ?n ?pr) vals" .
  have p: "packs L ?n (fp_check ?pr) (fp_fec0 ?pr) (fp_fec1 ?pr) (p_payload g1)" using g1(3-5) by (simp add: gen_payload_def Let_def)
  let ?size = "packet_size ?n (fp_check ?pr) (fp_fec0 ?pr) (fp_fec1 ?pr)" and ?b = "modem_bps (fp_mod_scheme ?pr)"
  from packs_roundtrip [OF p refl] obtain pkt pk where
    pkt: "packetizer_encode (p_payload g1) payload = Some (pkt, pk)"
      "packs L ?n (fp_check ?pr) (fp_fec0 ?pr) (fp_fec1 ?pr) pk" "length pkt = ?size"
      "\<And>r. packs L ?n (fp_check ?pr) (fp_fec0 ?pr) (fp_fec1 ?pr) r \<Longrightarrow> \<exists>r'. packetizer_decode r pkt = Some (payload, True, r') \<and>
        packs L ?n (fp_check ?pr) (fp_fec0 ?pr) (fp_fec1 ?pr) r'" by blast
  have bps: "0 < ?b" "?b \<le> 8" using \<open>props_ok S ?pr\<close> modem_bps_le by (auto simp: props_ok_def)
  from repack_bytes_run [OF bps le_refl, where n = ?size and xs = pkt] obtain syms where
    syms: "liquid_repack_bytes pkt 8 ?size ?b (ceil_div (8 * ?size) ?b) = Some syms" "length syms = ceil_div (8 * ?size) ?b"
      "\<And>j. j < length syms \<Longrightarrow> unat (syms ! j) < 2 ^ ?b" "\<And>t. t < 8 * ?size \<Longrightarrow> sym_bit ?b syms t = sym_bit 8 pkt t" by blast
  have pay: "payload_carries L ?pr payload syms" 
    unfolding payload_carries_def Let_def by (rule exI [of _ pkt]) (use pkt(3,4) syms(2-4) in simp)
  have len: "payload_enc_len g1 = ?size" "length (payload_enc g1) = ?size" "payload_mod_len g1 = ceil_div (8 * ?size) ?b"
    using g1(3-5) by (simp_all add: gen_payload_def Let_def)
  define g4 where "g4 = g2\<lparr>fg_header := hdr @ framing_info ?n ?pr, p_header := ph, header_enc := enc, header_mod := vals,
    p_payload := pk, payload_enc := pkt, payload_mod := syms\<rparr>"
  have "read_bytes OFDMFLEXFRAME_H_USER hdr = Some hdr" "read_bytes (length payload) payload = Some payload"
    using assms(5) by (simp_all add: read_bytes_def OFDMFLEXFRAME_H_USER_def)
  moreover have "write_buf (fg_header g1) hdr = Some (fg_header g2)" using g1(2) assms(5) by (simp add: write_buf_Some gen_base_def g2_def)
  ultimately have run: "ofdmflexframegen_assemble A L mem g hdr payload ?n = Some g4"
    unfolding ofdmflexframegen_assemble_def g1(1)
    using hd(1,2) pkt(1,3) syms(1,2) len g1(4) by (simp add: g2_def g4_def write_buf_Some)
  have "length vals = 288" using hd(5) assms(5) by (simp add: header_carries_def framing_info_def header_size_14 Let_def)
  then have "gen_base A L g4" "gen_payload A L S g4"
    using g1(2-5) hd(3,4) pkt(2,3) assms(5)
    by (auto simp: gen_base_def gen_payload_def g4_def g2_def framing_info_def packs_def Let_def header_size_14)
  then have "assembled A L S hdr payload g4" using hd(5) pay g1(4,5) by (simp add: assembled_def g4_def g2_def)
  then show thesis by (rule that [OF run]) (use g1(4-9) in \<open>simp_all add: g4_def g2_def gen_idle_def\<close>)
qed

section \<open>Writing a frame\<close>

text \<open>Writing \<open>k\<close> symbols; the random symbols of each are a function of its own.\<close>

fun write_symbols ::
  "('m, 'c::zero) modem_api \<Rightarrow> (fec_scheme \<Rightarrow> fec_s) \<Rightarrow> (nat \<Rightarrow> bytes) \<Rightarrow> (nat \<Rightarrow> nat \<Rightarrow> nat) \<Rightarrow> nat \<Rightarrow> 'm ofdmflexframegen \<Rightarrow>
   ((bool \<times> 'c tx_symbol option) list \<times> 'm ofdmflexframegen) option" where
  "write_symbols A L mem rnd 0 g = Some ([], g)"
| "write_symbols A L mem rnd (Suc k) g = do {
     (last, x, g) \<leftarrow> ofdmflexframegen_writesymbol A L mem (rnd 0) g;
     (xs, g) \<leftarrow> write_symbols A L mem (\<lambda>i. rnd (Suc i)) k g;
     Some ((last, x) # xs, g)
   }"

lemma write_symbols_add:
  assumes "write_symbols A L mem rnd j g = Some (xs, g1)" and "write_symbols A L mem (\<lambda>i. rnd (i + j)) k g1 = Some (ys, g2)"
  shows "write_symbols A L mem rnd (j + k) g = Some (xs @ ys, g2)"
  using assms
proof (induction j arbitrary: rnd g xs)
  case (Suc j)
  then show ?case by (auto simp: bind_eq_Some_conv split: prod.splits)
qed simp

abbreviation data_cell :: "'m ofdmflexframegen \<Rightarrow> nat \<Rightarrow> bool" where
  "data_cell g \<equiv> \<lambda>i. fg_p g ! i = 2"

lemma write_header_symbol:
  assumes clean: "clean_modems A S near" "MODEM_BPSK \<in> S" and "gen_base A L g" and "api_scheme A (mod_payload g) \<in> S"
    and "frame_assembled g" "\<not> frame_complete g" "gen_state g = GEN_HEADER" "symbol_number g = t" "t < num_symbols_header g"
    and "header_symbol_index g = min 288 (t * fg_M_data g)" and "\<And>j. j < 288 \<Longrightarrow> unat (header_mod g ! j) < 2"
  obtains X m m' where "ofdmflexframegen_writesymbol A L mem rnd g = Some (False, Some (TX_data X),
      (let g' = g\<lparr>mod_header := m, mod_payload := m', header_symbol_index := min 288 (Suc t * fg_M_data g)\<rparr>
       in if Suc t = num_symbols_header g then g'\<lparr>symbol_number := 0, gen_state := GEN_PAYLOAD\<rparr> else g'\<lparr>symbol_number := Suc t\<rparr>))"
    "length X = fg_M g" "symbol_carries A near MODEM_BPSK (data_cell g) (header_mod g) 288 (t * fg_M_data g) X"
    "api_scheme A m = MODEM_BPSK" "api_scheme A m' = api_scheme A (mod_payload g)"
proof -
  let ?g = "g\<lparr>symbol_number := Suc t\<rparr>"
  have b: "\<not> fg_ofdma g" "fg_M_data g = rank (data_cell g) (fg_M g)" "api_scheme A (mod_header g) = MODEM_BPSK" "length (header_mod g) = 288"
    and nh: "num_symbols_header g = ceil_div 288 (fg_M_data g)" "0 < fg_M_data g" using assms(3) by (simp_all add: gen_base_def)
  have "num_symbols_header g \<le> 288" unfolding nh(1) by (rule ceil_div_le_self [OF nh(2)])
  then have w: "wrap32 (symbol_number g + 1) = Suc t" using assms(8,9) by simp
  have "\<exists>Xs m m'. write_header_loop A rnd 288 [0..<0 + fg_M g] ?g [] = Some (?g\<lparr>mod_header := m, mod_payload := m',
        header_symbol_index := min 288 (t * fg_M_data g + rank (data_cell ?g) (0 + fg_M g))\<rparr>, [] @ Xs) \<and> length Xs = fg_M g \<and>
      api_scheme A m = MODEM_BPSK \<and> api_scheme A m' = api_scheme A (mod_payload ?g) \<and>
      (\<forall>j < fg_M g. fg_p ?g ! (0 + j) = 2 \<and> t * fg_M_data g + rank (data_cell ?g) (0 + j) < 288 \<longrightarrow>
        carries_sym A near MODEM_BPSK (Xs ! j) (unat (header_mod ?g ! (t * fg_M_data g + rank (data_cell ?g) (0 + j)))))"
    by (rule write_header_run [OF clean]) (use b(3,4) assms(4,10,11) in simp_all)
  then obtain X m m' where X: "write_header_loop A rnd 288 [0..<fg_M g] ?g [] = Some (?g\<lparr>mod_header := m, mod_payload := m',
        header_symbol_index := min 288 (t * fg_M_data g + rank (data_cell g) (fg_M g))\<rparr>, X)"
      "length X = fg_M g" "api_scheme A m = MODEM_BPSK" "api_scheme A m' = api_scheme A (mod_payload g)"
      "\<And>j. j < fg_M g \<Longrightarrow> data_cell g j \<Longrightarrow> t * fg_M_data g + rank (data_cell g) j < 288 \<Longrightarrow>
        carries_sym A near MODEM_BPSK (X ! j) (unat (header_mod g ! (t * fg_M_data g + rank (data_cell g) j)))" by auto
  have idx: "min 288 (t * fg_M_data g + rank (data_cell g) (fg_M g)) = min 288 (Suc t * fg_M_data g)" using b(2) by (simp add: add.commute)
  have "ofdmflexframegen_writesymbol A L mem rnd g = Some (False, Some (TX_data X),
      (let g' = g\<lparr>mod_header := m, mod_payload := m', header_symbol_index := min 288 (Suc t * fg_M_data g)\<rparr>
       in if Suc t = num_symbols_header g then g'\<lparr>symbol_number := 0, gen_state := GEN_PAYLOAD\<rparr> else g'\<lparr>symbol_number := Suc t\<rparr>))"
    using X(1) b(1) assms(5-7) unfolding ofdmflexframegen_writesymbol_def w ofdmflexframegen_write_header_def idx
    by (simp add: OFDMFLEXFRAME_H_SYM_def Let_def)
  with X(2-5) that show thesis by (simp add: symbol_carries_def)
qed

lemma write_header_symbols:
  assumes clean: "clean_modems A S near" "MODEM_BPSK \<in> S" and "gen_base A L g" and "api_scheme A (mod_payload g) \<in> S"
    and "frame_assembled g" "\<not> frame_complete g" "gen_state g = GEN_HEADER" "symbol_number g = t" "t + Suc r = num_symbols_header g"
    and "header_symbol_index g = min 288 (t * fg_M_data g)" and "\<And>j. j < 288 \<Longrightarrow> unat (header_mod g ! j) < 2"
  shows "\<exists>Xs m m'. write_symbols A L mem rnd (Suc r) g = Some (map (\<lambda>X. (False, Some (TX_data X))) Xs,
      g\<lparr>mod_header := m, mod_payload := m', header_symbol_index := 288, symbol_number := 0, gen_state := GEN_PAYLOAD\<rparr>) \<and>
    length Xs = Suc r \<and> api_scheme A m = MODEM_BPSK \<and> api_scheme A m' = api_scheme A (mod_payload g) \<and>
    (\<forall>j < Suc r. length (Xs ! j) = fg_M g \<and>
      symbol_carries A near MODEM_BPSK (data_cell g) (header_mod g) 288 ((t + j) * fg_M_data g) (Xs ! j))"
  using assms(3-11)
proof (induction r arbitrary: t g rnd)
  case 0
  have t: "t < num_symbols_header g" using 0(7) by simp
  from write_header_symbol [OF clean 0(1-6) t 0(8,9), of mem "rnd 0"] obtain X m m' where
    one: "ofdmflexframegen_writesymbol A L mem (rnd 0) g = Some (False, Some (TX_data X),
      (let g' = g\<lparr>mod_header := m, mod_payload := m', header_symbol_index := min 288 (Suc t * fg_M_data g)\<rparr>
       in if Suc t = num_symbols_header g then g'\<lparr>symbol_number := 0, gen_state := GEN_PAYLOAD\<rparr> else g'\<lparr>symbol_number := Suc t\<rparr>))"
    "length X = fg_M g" "symbol_carries A near MODEM_BPSK (data_cell g) (header_mod g) 288 (t * fg_M_data g) X"
    "api_scheme A m = MODEM_BPSK" "api_scheme A m' = api_scheme A (mod_payload g)" .
  have "288 \<le> fg_M_data g * ceil_div 288 (fg_M_data g)" using le_mult_ceil_div 0(1) by (simp add: gen_base_def)
  then have "288 \<le> fg_M_data g * Suc t" using 0(1,7) by (simp add: gen_base_def)
  then have "min 288 (fg_M_data g + t * fg_M_data g) = 288" by (simp add: mult.commute)
  with one 0(7) show ?case
    by - (rule exI [of _ "[X]"], rule exI [of _ m], rule exI [of _ m'], simp add: Let_def)
next
  case (Suc r)
  have t: "t < num_symbols_header g" using Suc.prems(7) by simp
  from write_header_symbol [OF clean Suc.prems(1-6) t Suc.prems(8,9), of mem "rnd 0"] obtain X m1 m1' where
    one: "ofdmflexframegen_writesymbol A L mem (rnd 0) g = Some (False, Some (TX_data X),
      (let g' = g\<lparr>mod_header := m1, mod_payload := m1', header_symbol_index := min 288 (Suc t * fg_M_data g)\<rparr>
       in if Suc t = num_symbols_header g then g'\<lparr>symbol_number := 0, gen_state := GEN_PAYLOAD\<rparr> else g'\<lparr>symbol_number := Suc t\<rparr>))"
    "length X = fg_M g" "symbol_carries A near MODEM_BPSK (data_cell g) (header_mod g) 288 (t * fg_M_data g) X"
    "api_scheme A m1 = MODEM_BPSK" "api_scheme A m1' = api_scheme A (mod_payload g)" .
  let ?g = "g\<lparr>mod_header := m1, mod_payload := m1', header_symbol_index := min 288 (Suc t * fg_M_data g), symbol_number := Suc t\<rparr>"
  have "gen_base A L ?g" using Suc.prems(1) one(4) by (simp add: gen_base_def)
  with Suc.IH [of ?g "Suc t" "\<lambda>i. rnd (Suc i)"] one(5) Suc.prems obtain Xs m m' where
    rest: "write_symbols A L mem (\<lambda>i. rnd (Suc i)) (Suc r) ?g = Some (map (\<lambda>X. (False, Some (TX_data X))) Xs,
      g\<lparr>mod_header := m, mod_payload := m', header_symbol_index := 288, symbol_number := 0, gen_state := GEN_PAYLOAD\<rparr>)"
    "length Xs = Suc r" "api_scheme A m = MODEM_BPSK" "api_scheme A m' = api_scheme A (mod_payload g)"
    "\<forall>j < Suc r. length (Xs ! j) = fg_M g \<and>
      symbol_carries A near MODEM_BPSK (data_cell g) (header_mod g) 288 ((Suc t + j) * fg_M_data g) (Xs ! j)" by auto
  have "Suc t \<noteq> num_symbols_header g" using Suc.prems(7) by simp
  then have "write_symbols A L mem rnd (Suc (Suc r)) g = Some (map (\<lambda>X. (False, Some (TX_data X))) (X # Xs),
      g\<lparr>mod_header := m, mod_payload := m', header_symbol_index := 288, symbol_number := 0, gen_state := GEN_PAYLOAD\<rparr>)"
    by (subst write_symbols.simps) (simp add: one(1) rest(1) Let_def del: write_symbols.simps mult_Suc)
  moreover have "\<forall>j < Suc (Suc r). length ((X # Xs) ! j) = fg_M g \<and>
      symbol_carries A near MODEM_BPSK (data_cell g) (header_mod g) 288 ((t + j) * fg_M_data g) ((X # Xs) ! j)"
    using rest(5) one(2,3) by (auto simp: less_Suc_eq_0_disj)
  ultimately show ?case using rest(2-4)
    by - (rule exI [of _ "X # Xs"], rule exI [of _ m], rule exI [of _ m'], simp del: write_symbols.simps)
qed

text \<open>The payload; the last symbol completes the frame and resets the generator.\<close>

lemma write_payload_symbol:
  assumes clean: "clean_modems A S near" and "gen_base A L g" and "gen_payload A L S g"
    and "frame_assembled g" "\<not> frame_complete g" "gen_state g = GEN_PAYLOAD" "symbol_number g = t" "t < num_symbols_payload g"
    and "num_symbols_payload g < 2 ^ 32" and "payload_symbol_index g = min (payload_mod_len g) (t * fg_M_data g)"
    and "payload_mod_len g \<le> length (payload_mod g)"
    and "\<And>j. j < payload_mod_len g \<Longrightarrow> unat (payload_mod g ! j) < 2 ^ modem_bps (fp_mod_scheme (gen_props g))"
  obtains X m where "ofdmflexframegen_writesymbol A L mem rnd g = Some (Suc t = num_symbols_payload g, Some (TX_data X),
      (let g' = g\<lparr>mod_payload := m, payload_symbol_index := min (payload_mod_len g) (Suc t * fg_M_data g), symbol_number := Suc t\<rparr>
       in if Suc t = num_symbols_payload g then ofdmflexframegen_reset g' else g'))"
    "length X = fg_M g" "api_scheme A m = fp_mod_scheme (gen_props g)"
    "symbol_carries A near (fp_mod_scheme (gen_props g)) (data_cell g) (payload_mod g) (payload_mod_len g) (t * fg_M_data g) X"
proof -
  let ?g = "g\<lparr>symbol_number := Suc t\<rparr>" and ?s = "fp_mod_scheme (gen_props g)" and ?n = "payload_mod_len g"
  have b: "\<not> fg_ofdma g" "fg_M_data g = rank (data_cell g) (fg_M g)" and s: "?s \<in> S" "api_scheme A (mod_payload g) = ?s"
    using assms(2,3) by (simp_all add: gen_base_def gen_payload_def props_ok_def Let_def)
  have w: "wrap32 (symbol_number g + 1) = Suc t" using assms(7-9) by simp
  have "\<exists>Xs m. write_payload_loop A rnd [0..<0 + fg_M g] ?g [] = Some (?g\<lparr>mod_payload := m,
        payload_symbol_index := min (payload_mod_len ?g) (t * fg_M_data g + rank (data_cell ?g) (0 + fg_M g))\<rparr>, [] @ Xs) \<and>
      length Xs = fg_M g \<and> api_scheme A m = ?s \<and>
      (\<forall>j < fg_M g. fg_p ?g ! (0 + j) = 2 \<and> t * fg_M_data g + rank (data_cell ?g) (0 + j) < payload_mod_len ?g \<longrightarrow>
        carries_sym A near ?s (Xs ! j) (unat (payload_mod ?g ! (t * fg_M_data g + rank (data_cell ?g) (0 + j)))))"
    by (rule write_payload_run [OF clean s(1)]) (use b s(2) assms(10-12) in simp_all)
  then obtain X m where X: "write_payload_loop A rnd [0..<fg_M g] ?g [] = Some (?g\<lparr>mod_payload := m,
        payload_symbol_index := min ?n (t * fg_M_data g + rank (data_cell g) (fg_M g))\<rparr>, X)"
      "length X = fg_M g" "api_scheme A m = ?s"
      "\<And>j. j < fg_M g \<Longrightarrow> data_cell g j \<Longrightarrow> t * fg_M_data g + rank (data_cell g) j < ?n \<Longrightarrow>
        carries_sym A near ?s (X ! j) (unat (payload_mod g ! (t * fg_M_data g + rank (data_cell g) j)))" by auto
  have idx: "min ?n (t * fg_M_data g + rank (data_cell g) (fg_M g)) = min ?n (Suc t * fg_M_data g)" using b(2) by (simp add: add.commute)
  have "ofdmflexframegen_writesymbol A L mem rnd g = Some (Suc t = num_symbols_payload g, Some (TX_data X),
      (let g' = g\<lparr>mod_payload := m, payload_symbol_index := min ?n (Suc t * fg_M_data g), symbol_number := Suc t\<rparr>
       in if Suc t = num_symbols_payload g then ofdmflexframegen_reset g' else g'))"
    using X(1) b(1) assms(4-6) unfolding ofdmflexframegen_writesymbol_def w ofdmflexframegen_write_payload_def idx
    by (simp add: Let_def ofdmflexframegen_reset_def)
  with X(2-4) that show thesis by (simp add: symbol_carries_def)
qed

definition payload_marks :: "nat \<Rightarrow> bool list" where
  "payload_marks r = replicate r False @ [True]"

lemma write_payload_symbols:
  assumes clean: "clean_modems A S near" and "gen_base A L g" and "gen_payload A L S g"
    and "frame_assembled g" "\<not> frame_complete g" "gen_state g = GEN_PAYLOAD" "symbol_number g = t" "t + Suc r = num_symbols_payload g"
    and "num_symbols_payload g < 2 ^ 32" and "payload_symbol_index g = min (payload_mod_len g) (t * fg_M_data g)"
    and "payload_mod_len g \<le> length (payload_mod g)"
    and "\<And>j. j < payload_mod_len g \<Longrightarrow> unat (payload_mod g ! j) < 2 ^ modem_bps (fp_mod_scheme (gen_props g))"
  shows "\<exists>Xs m. write_symbols A L mem rnd (Suc r) g = Some (zip (payload_marks r) (map (\<lambda>X. Some (TX_data X)) Xs),
      ofdmflexframegen_reset (g\<lparr>mod_payload := m\<rparr>)) \<and>
    length Xs = Suc r \<and> api_scheme A m = fp_mod_scheme (gen_props g) \<and>
    (\<forall>j < Suc r. length (Xs ! j) = fg_M g \<and> symbol_carries A near (fp_mod_scheme (gen_props g)) (data_cell g) (payload_mod g)
      (payload_mod_len g) ((t + j) * fg_M_data g) (Xs ! j))"
  using assms(2-12)
proof (induction r arbitrary: t g rnd)
  case 0
  have t: "t < num_symbols_payload g" using 0(7) by simp
  from write_payload_symbol [OF clean 0(1-6) t 0(8-11), of mem "rnd 0"] obtain X m where
    "ofdmflexframegen_writesymbol A L mem (rnd 0) g = Some (Suc t = num_symbols_payload g, Some (TX_data X),
      (let g' = g\<lparr>mod_payload := m, payload_symbol_index := min (payload_mod_len g) (Suc t * fg_M_data g), symbol_number := Suc t\<rparr>
       in if Suc t = num_symbols_payload g then ofdmflexframegen_reset g' else g'))"
    "length X = fg_M g" "api_scheme A m = fp_mod_scheme (gen_props g)"
    "symbol_carries A near (fp_mod_scheme (gen_props g)) (data_cell g) (payload_mod g) (payload_mod_len g) (t * fg_M_data g) X" .
  with 0(7) show ?case
    by - (rule exI [of _ "[X]"], rule exI [of _ m], simp add: Let_def payload_marks_def ofdmflexframegen_reset_def)
next
  case (Suc r)
  have t: "t < num_symbols_payload g" "Suc t \<noteq> num_symbols_payload g" using Suc.prems(7) by simp_all
  from write_payload_symbol [OF clean Suc.prems(1-6) t(1) Suc.prems(8-11), of mem "rnd 0"] obtain X m1 where
    one: "ofdmflexframegen_writesymbol A L mem (rnd 0) g = Some (Suc t = num_symbols_payload g, Some (TX_data X),
      (let g' = g\<lparr>mod_payload := m1, payload_symbol_index := min (payload_mod_len g) (Suc t * fg_M_data g), symbol_number := Suc t\<rparr>
       in if Suc t = num_symbols_payload g then ofdmflexframegen_reset g' else g'))"
    "length X = fg_M g" "api_scheme A m1 = fp_mod_scheme (gen_props g)"
    "symbol_carries A near (fp_mod_scheme (gen_props g)) (data_cell g) (payload_mod g) (payload_mod_len g) (t * fg_M_data g) X" .
  let ?g = "g\<lparr>mod_payload := m1, payload_symbol_index := min (payload_mod_len g) (Suc t * fg_M_data g), symbol_number := Suc t\<rparr>"
  have "gen_base A L ?g" "gen_payload A L S ?g" using Suc.prems(1,2) one(3) by (simp_all add: gen_base_def gen_payload_def Let_def)
  with Suc.IH [of ?g "Suc t" "\<lambda>i. rnd (Suc i)"] Suc.prems obtain Xs m where
    rest: "write_symbols A L mem (\<lambda>i. rnd (Suc i)) (Suc r) ?g = Some (zip (payload_marks r) (map (\<lambda>X. Some (TX_data X)) Xs),
      ofdmflexframegen_reset (g\<lparr>mod_payload := m\<rparr>))" "length Xs = Suc r" "api_scheme A m = fp_mod_scheme (gen_props g)"
    "\<forall>j < Suc r. length (Xs ! j) = fg_M g \<and> symbol_carries A near (fp_mod_scheme (gen_props g)) (data_cell g) (payload_mod g)
      (payload_mod_len g) ((Suc t + j) * fg_M_data g) (Xs ! j)" by (auto simp: ofdmflexframegen_reset_def)
  have "write_symbols A L mem rnd (Suc (Suc r)) g = Some (zip (payload_marks (Suc r)) (map (\<lambda>X. Some (TX_data X)) (X # Xs)),
      ofdmflexframegen_reset (g\<lparr>mod_payload := m\<rparr>))"
    by (subst write_symbols.simps) (use t(2) in \<open>simp add: one(1) rest(1) Let_def payload_marks_def del: write_symbols.simps mult_Suc\<close>)
  moreover have "\<forall>j < Suc (Suc r). length ((X # Xs) ! j) = fg_M g \<and> symbol_carries A near (fp_mod_scheme (gen_props g)) (data_cell g)
      (payload_mod g) (payload_mod_len g) ((t + j) * fg_M_data g) ((X # Xs) ! j)"
    using rest(4) one(2,4) by (auto simp: less_Suc_eq_0_disj)
  ultimately show ?case using rest(2,3)
    by - (rule exI [of _ "X # Xs"], rule exI [of _ m], simp del: write_symbols.simps)
qed

lemma write_frame:
  assumes clean: "clean_modems A S near" "MODEM_BPSK \<in> S" and g: "assembled A L S hdr payload g" "gen_idle g"
    and "0 < num_symbols_payload g" "num_symbols_payload g < 2 ^ 32"
  obtains xs Hs Ps g' where "write_symbols A L mem rnd (ofdmflexframegen_getframelen g) g = Some (xs, g')"
    "map fst xs = replicate (length xs - 1) False @ [True]"
    "map snd xs = map Some ([TX_S0a, TX_S0b, TX_S1] @ map TX_data (Hs @ Ps))"
    "length Hs = num_symbols_header g" "length Ps = num_symbols_payload g"
    "\<forall>j < length Hs. length (Hs ! j) = fg_M g \<and>
      symbol_carries A near MODEM_BPSK (data_cell g) (header_mod g) 288 (j * fg_M_data g) (Hs ! j)"
    "\<forall>j < length Ps. length (Ps ! j) = fg_M g \<and> symbol_carries A near (fp_mod_scheme (gen_props g)) (data_cell g)
      (payload_mod g) (payload_mod_len g) (j * fg_M_data g) (Ps ! j)"
    "gen_base A L g'" "gen_payload A L S g'" "gen_idle g'" "gen_props g' = gen_props g" "fg_p g' = fg_p g" "fg_M g' = fg_M g"
proof -
  from g(1) have b: "gen_base A L g" "gen_payload A L S g" "frame_assembled g"
    and vals: "header_carries L (hdr @ framing_info (length payload) (gen_props g)) (header_mod g)"
    and pay: "payload_carries L (gen_props g) payload (payload_mod g)" "payload_dec_len g = length payload" by (simp_all add: assembled_def)
  let ?g = "g\<lparr>symbol_number := 0, gen_state := GEN_HEADER\<rparr>" and ?s = "fp_mod_scheme (gen_props g)"
  have three: "write_symbols A L mem rnd 3 g = Some ([(False, Some TX_S0a), (False, Some TX_S0b), (False, Some TX_S1)], ?g)"
    using b(3) g(2) by (simp add: numeral_3_eq_3 ofdmflexframegen_writesymbol_def gen_idle_def)
  have syms: "\<And>j. j < 288 \<Longrightarrow> unat (header_mod g ! j) < 2"
  proof -
    fix j :: nat assume "j < 288"
    moreover have "length (header_mod g) = 288" using b(1) by (simp add: gen_base_def)
    ultimately show "unat (header_mod g ! j) < 2" using vals by (metis (mono_tags, lifting) header_carries_def)
  qed
  have D: "0 < fg_M_data g" "num_symbols_header g = ceil_div 288 (fg_M_data g)" using b(1) by (simp_all add: gen_base_def)
  then have "288 \<le> fg_M_data g * num_symbols_header g" using le_mult_ceil_div by simp
  then obtain r where r: "num_symbols_header g = Suc r" by (cases "num_symbols_header g") auto
  from assms(5) obtain r' where r': "num_symbols_payload g = Suc r'" by (cases "num_symbols_payload g") auto
  have base: "gen_base A L ?g" "api_scheme A (mod_payload ?g) \<in> S"
    using b(1,2) by (simp_all add: gen_base_def gen_payload_def props_ok_def Let_def)
  have "\<exists>Xs m m'. write_symbols A L mem (\<lambda>i. rnd (i + 3)) (Suc r) ?g = Some (map (\<lambda>X. (False, Some (TX_data X))) Xs,
      ?g\<lparr>mod_header := m, mod_payload := m', header_symbol_index := 288, symbol_number := 0, gen_state := GEN_PAYLOAD\<rparr>) \<and>
    length Xs = Suc r \<and> api_scheme A m = MODEM_BPSK \<and> api_scheme A m' = api_scheme A (mod_payload ?g) \<and>
    (\<forall>j < Suc r. length (Xs ! j) = fg_M ?g \<and>
      symbol_carries A near MODEM_BPSK (data_cell ?g) (header_mod ?g) 288 ((0 + j) * fg_M_data ?g) (Xs ! j))"
    by (rule write_header_symbols [OF clean base]) (use b(3) g(2) r syms in \<open>simp_all add: gen_idle_def\<close>)
  then obtain Hs m m' where hd: "write_symbols A L mem (\<lambda>i. rnd (i + 3)) (Suc r) ?g = Some (map (\<lambda>X. (False, Some (TX_data X))) Hs,
      g\<lparr>mod_header := m, mod_payload := m', header_symbol_index := 288, symbol_number := 0, gen_state := GEN_PAYLOAD\<rparr>)"
    "length Hs = Suc r" "api_scheme A m = MODEM_BPSK" "api_scheme A m' = api_scheme A (mod_payload g)"
    "\<forall>j < Suc r. length (Hs ! j) = fg_M g \<and> symbol_carries A near MODEM_BPSK (data_cell g) (header_mod g) 288 (j * fg_M_data g) (Hs ! j)"
    by auto
  let ?h = "g\<lparr>mod_header := m, mod_payload := m', header_symbol_index := 288, symbol_number := 0, gen_state := GEN_PAYLOAD\<rparr>"
  have ph: "gen_base A L ?h" "gen_payload A L S ?h"
    using b(1,2) hd(3,4) by (simp_all add: gen_base_def gen_payload_def Let_def)
  have ps: "payload_mod_len g \<le> length (payload_mod g)" "\<And>j. j < payload_mod_len g \<Longrightarrow> unat (payload_mod g ! j) < 2 ^ modem_bps ?s"
    using pay b(2) by (auto simp: payload_carries_def gen_payload_def Let_def)
  have "\<exists>Xs m. write_symbols A L mem (\<lambda>i. rnd (i + (3 + Suc r))) (Suc r') ?h = Some (zip (payload_marks r') (map (\<lambda>X. Some (TX_data X)) Xs),
      ofdmflexframegen_reset (?h\<lparr>mod_payload := m\<rparr>)) \<and>
    length Xs = Suc r' \<and> api_scheme A m = fp_mod_scheme (gen_props ?h) \<and>
    (\<forall>j < Suc r'. length (Xs ! j) = fg_M ?h \<and> symbol_carries A near (fp_mod_scheme (gen_props ?h)) (data_cell ?h) (payload_mod ?h)
      (payload_mod_len ?h) ((0 + j) * fg_M_data ?h) (Xs ! j))"
    by (rule write_payload_symbols [OF clean(1) ph]) (use b(3) g(2) r' assms(6) ps in \<open>simp_all add: gen_idle_def\<close>)
  then obtain Ps mp where py: "write_symbols A L mem (\<lambda>i. rnd (i + (3 + Suc r))) (Suc r') ?h =
      Some (zip (payload_marks r') (map (\<lambda>X. Some (TX_data X)) Ps), ofdmflexframegen_reset (?h\<lparr>mod_payload := mp\<rparr>))"
    "length Ps = Suc r'" "api_scheme A mp = ?s"
    "\<forall>j < Suc r'. length (Ps ! j) = fg_M g \<and> symbol_carries A near ?s (data_cell g) (payload_mod g) (payload_mod_len g)
      (j * fg_M_data g) (Ps ! j)" by auto
  let ?xs = "[(False, Some TX_S0a), (False, Some TX_S0b), (False, Some TX_S1)] @ map (\<lambda>X. (False, Some (TX_data X))) Hs @
    zip (payload_marks r') (map (\<lambda>X. Some (TX_data X)) Ps)"
  let ?g' = "ofdmflexframegen_reset (?h\<lparr>mod_payload := mp\<rparr>)"
  have "write_symbols A L mem rnd (3 + Suc r + Suc r') g = Some (?xs, ?g')"
    using write_symbols_add [OF write_symbols_add [OF three hd(1)] py(1)] by simp
  then have run: "write_symbols A L mem rnd (ofdmflexframegen_getframelen g) g = Some (?xs, ?g')"
    by (simp add: ofdmflexframegen_getframelen_def r r' del: write_symbols.simps)
  have marks: "length (payload_marks r') = length Ps" using py(2) by (simp add: payload_marks_def)
  have firsts: "map fst ?xs = replicate (length ?xs - 1) False @ [True]"
    using py(2) marks by (simp add: map_fst_zip payload_marks_def o_def map_replicate_const replicate_add [symmetric] flip: append_assoc)
  have seconds: "map snd ?xs = map Some ([TX_S0a, TX_S0b, TX_S1] @ map TX_data (Hs @ Ps))"
    using marks by (simp add: map_snd_zip)
  have after: "gen_base A L ?g'" "gen_payload A L S ?g'" "gen_idle ?g'"
    using ph py(3) by (simp_all add: gen_base_def gen_payload_def gen_idle_def ofdmflexframegen_reset_def Let_def)
  show thesis
    by (rule that [OF run firsts seconds _ _ _ _ after])
      (use hd(2,5) py(2,4) r r' in \<open>simp_all add: ofdmflexframegen_reset_def\<close>)
qed

end
