(* ===== verification/Ofdm_Frame_Delivery.thy ===== *)
theory Ofdm_Frame_Delivery
  imports Ofdm_Frame_Sending Modem_Linear
begin

unbundle bit_operations_syntax

text \<open>
  The synchronizer for one user reads what the generator writes, and the theorem that every frame is delivered, for any
  number of frames through the same two objects.
\<close>

section \<open>The state of the synchronizer\<close>

definition sync_base :: "('m, 'c) modem_api \<Rightarrow> (fec_scheme \<Rightarrow> fec_s) \<Rightarrow> modulation_scheme set \<Rightarrow> 'm ofdmflexframesync \<Rightarrow> bool" where
  "sync_base A L S q \<longleftrightarrow> \<not> fs_ofdma q \<and> api_scheme A (fs_mod_header q) = MODEM_BPSK \<and> header_packs L 14 (fs_p_header q) \<and>
     length (fs_header q) = 14 \<and> length (fs_header_enc q) = 36 \<and> length (fs_header_mod q) = 288 \<and>
     api_scheme A (fs_mod_payload q) = ms_payload q \<and> bps_payload q = modem_bps (ms_payload q) \<and>
     (\<exists>f0 f1. packetizer_inv L f0 f1 (fs_p_payload q))"

definition sync_idle :: "'m ofdmflexframesync \<Rightarrow> bool" where
  "sync_idle q \<longleftrightarrow> sync_state q = SYNC_HEADER \<and> fs_header_symbol_index q = 0 \<and> fs_payload_symbol_index q = 0 \<and>
     payload_buffer_index q = 0"

text \<open>The payload receiver is configured for a payload of \<open>len\<close> bytes.\<close>

definition configured :: "(fec_scheme \<Rightarrow> fec_s) \<Rightarrow> nat \<Rightarrow> ofdmflexframegenprops_s \<Rightarrow> 'm ofdmflexframesync \<Rightarrow> bool" where
  "configured L len pr q \<longleftrightarrow>
     (let size = packet_size len (fp_check pr) (fp_fec0 pr) (fp_fec1 pr)
      in ms_payload q = fp_mod_scheme pr \<and> fs_check q = fp_check pr \<and> fs_fec0 q = fp_fec0 pr \<and> fs_fec1 q = fp_fec1 pr \<and>
         payload_len q = len \<and> packs L len (fp_check pr) (fp_fec0 pr) (fp_fec1 pr) (fs_p_payload q) \<and>
         fs_payload_enc_len q = size \<and> length (fs_payload_enc q) = size \<and> length (fs_payload_dec q) = len \<and>
         fs_payload_mod_len q = ceil_div (8 * size) (modem_bps (fp_mod_scheme pr)))"

section \<open>The header\<close>

lemma configure_payload_run:
  assumes "clean_modems A S near" and "mem_ok mem" and "sync_base A L S q" and "props_ok S pr" and "len < packet_bound"
  obtains q' where "configure_payload A L mem q (fp_mod_scheme pr) len (fp_check pr) (fp_fec0 pr) (fp_fec1 pr) = Some q'"
    "sync_base A L S q'" "configured L len pr q'" "header_valid q' = header_valid q" "fs_header q' = fs_header q"
    "fs_p q' = fs_p q" "fs_M q' = fs_M q" "has_callback q' = has_callback q"
    "fs_payload_symbol_index q' = fs_payload_symbol_index q" "payload_buffer_index q' = payload_buffer_index q"
proof -
  from assms(3) obtain f0 f1 where inv: "packetizer_inv L f0 f1 (fs_p_payload q)" by (auto simp: sync_base_def)
  have ok: "block_scheme (fp_fec0 pr)" "block_scheme (fp_fec1 pr)" "fp_check pr \<noteq> CRC_UNKNOWN" "fp_mod_scheme pr \<in> S"
    "0 < modem_bps (fp_mod_scheme pr)" using assms(4) by (simp_all add: props_ok_def)
  from renew_packetizer_packs [OF ok(1,2) assms(5) ok(3) assms(2) inv] obtain pk where
    pk: "renew_packetizer L mem (fs_p_payload q) len (fp_check pr) (fp_fec0 pr) (fp_fec1 pr) = Some pk"
      "packs L len (fp_check pr) (fp_fec0 pr) (fp_fec1 pr) pk" .
  obtain m where m: "(if fp_mod_scheme pr \<noteq> ms_payload q then modem_recreate A (fs_mod_payload q) (fp_mod_scheme pr)
      else Some (fs_mod_payload q)) = Some m" "api_scheme A m = fp_mod_scheme pr"
  proof (cases "fp_mod_scheme pr = ms_payload q")
    case True
    then show ?thesis using that [of "fs_mod_payload q"] assms(3) by (simp add: sync_base_def)
  next
    case False
    from clean_recreate [OF assms(1) ok(4)] obtain m where
      "modem_recreate A (fs_mod_payload q) (fp_mod_scheme pr) = Some m" "api_scheme A m = fp_mod_scheme pr" .
    then show ?thesis using that [of m] False by simp
  qed
  let ?size = "packet_size len (fp_check pr) (fp_fec0 pr) (fp_fec1 pr)"
  let ?q = "q\<lparr>ms_payload := fp_mod_scheme pr, bps_payload := modem_bps (fp_mod_scheme pr), fs_mod_payload := m, payload_len := len,
       fs_check := fp_check pr, fs_fec0 := fp_fec0 pr, fs_fec1 := fp_fec1 pr, fs_p_payload := pk,
       fs_payload_enc_len := ?size, fs_payload_enc := realloc_bytes mem (fs_payload_enc q) ?size,
       fs_payload_dec := realloc_bytes mem (fs_payload_dec q) len,
       fs_payload_mod_len := ceil_div (8 * ?size) (modem_bps (fp_mod_scheme pr))\<rparr>"
  have run: "configure_payload A L mem q (fp_mod_scheme pr) len (fp_check pr) (fp_fec0 pr) (fp_fec1 pr) = Some ?q"
    using pk(1) m ok(5) assms(3)
    by (cases "fp_mod_scheme pr = ms_payload q")
      (simp_all add: configure_payload_def packs_size(1) [OF pk(2)] div_up_def Let_def sync_base_def)
  show thesis
    by (rule that [OF run]) (use assms(2,3) m(2) pk(2) in \<open>auto simp: sync_base_def configured_def packs_def Let_def\<close>)
qed

lemma parse_header_run:
  assumes "clean_modems A S near" and "mem_ok mem" and "sync_base A L S q" and "props_ok S pr" and "len < 2 ^ 16"
    and "length hdr = 8" and "fs_header q = hdr @ framing_info len pr"
  obtains q' where "parse_header A L mem q = Some q'" "sync_base A L S q'" "configured L len pr q'" "header_valid q'"
    "fs_header q' = fs_header q" "fs_p q' = fs_p q" "fs_M q' = fs_M q" "has_callback q' = has_callback q"
    "fs_payload_symbol_index q' = fs_payload_symbol_index q" "payload_buffer_index q' = payload_buffer_index q"
proof -
  let ?q = "q\<lparr>header_valid := True\<rparr>"
  have "sync_base A L S ?q" "len < packet_bound" using assms(3,5) by (simp_all add: sync_base_def)
  from configure_payload_run [OF assms(1,2) this(1) assms(4) this(2)] obtain q' where
    q': "configure_payload A L mem ?q (fp_mod_scheme pr) len (fp_check pr) (fp_fec0 pr) (fp_fec1 pr) = Some q'"
    "sync_base A L S q'" "configured L len pr q'" "header_valid q' = header_valid ?q" "fs_header q' = fs_header ?q"
    "fs_p q' = fs_p ?q" "fs_M q' = fs_M ?q" "has_callback q' = has_callback ?q"
    "fs_payload_symbol_index q' = fs_payload_symbol_index ?q" "payload_buffer_index q' = payload_buffer_index ?q" .
  have nth: "fs_header q ! (8 + k) = framing_info len pr ! k" for k using assms(6,7) by (simp add: nth_append)
  have at: "fs_header q ! 8 = 104" "fs_header q ! 9 = of_nat (len div 256)" "fs_header q ! 10 = of_nat len"
    "fs_header q ! 11 = of_nat (modem_num (fp_mod_scheme pr))"
    "fs_header q ! 12 = push_bit 5 (of_nat (crc_num (fp_check pr))) OR of_nat (fec_num (fp_fec0 pr))"
    "fs_header q ! 13 = of_nat (fec_num (fp_fec1 pr))"
    using nth [of 0] nth [of 1] nth [of 2] nth [of 3] nth [of 4] nth [of 5] by (simp_all add: framing_info_def)
  have small: "crc_num c < 8" "fec_num f < 32" for c f using crc_num_list(1) [of c] fec_num_list(1) [of f] by simp_all
  note fields = header_fields [OF small]
  have len: "256 * unat (of_nat (len div 256) :: u8) + unat (of_nat len :: u8) = len"
    using assms(5) by (simp add: unat_of_nat take_bit_eq_mod)
  have ms: "unat (of_nat (modem_num (fp_mod_scheme pr)) :: u8) = modem_num (fp_mod_scheme pr)"
    using modem_num_less [of "fp_mod_scheme pr"] by (simp add: unat_small_byte)
  have nums: "unat (of_nat (crc_num c) :: u8) = crc_num c" "unat (of_nat (fec_num f) :: u8) = fec_num f" for c f
    using crc_num_list(1) [of c] fec_num_list(1) [of f] by (simp_all add: unat_small_byte)
  have pos: "modem_num (fp_mod_scheme pr) \<noteq> 0"
  proof
    assume "modem_num (fp_mod_scheme pr) = 0"
    then have "modem_bps (fp_mod_scheme pr) = 0" by (simp add: modem_bps_def modulation_types_def)
    with assms(4) show False by (simp add: props_ok_def)
  qed
  have "parse_header A L mem q = configure_payload A L mem ?q (fp_mod_scheme pr) len (fp_check pr) (fp_fec0 pr) (fp_fec1 pr)"
    using assms(3) pos modem_num_less [of "fp_mod_scheme pr"] crc_num_list fec_num_list
    by (simp add: parse_header_def sync_base_def OFDMFLEXFRAME_H_USER_def at fields len ms nums LIQUID_MODEM_NUM_SCHEMES_def
      OFDMFLEXFRAME_VERSION_def del: drop_bit_or)
  with q' that show thesis by simp
qed

lemma header_extracted_run:
  assumes "clean_modems A S near" and "mem_ok mem" and "sync_base A L S q" and "props_ok S pr" and "len < 2 ^ 16"
    and "length hdr = 8" and "header_carries L (hdr @ framing_info len pr) (fs_header_mod q)"
  obtains q' where "header_extracted A L mem q = Some ([], q')" "sync_base A L S q'" "configured L len pr q'" "header_valid q'"
    "sync_state q' = SYNC_PAYLOAD" "fs_header q' = hdr @ framing_info len pr" "fs_p q' = fs_p q" "fs_M q' = fs_M q"
    "has_callback q' = has_callback q" "fs_payload_symbol_index q' = fs_payload_symbol_index q"
    "payload_buffer_index q' = payload_buffer_index q"
proof -
  let ?h = "hdr @ framing_info len pr"
  have h: "length ?h = 14" using assms(6) by (simp add: framing_info_def)
  have "header_packs L (length ?h) (fs_p_header q)" using assms(3) unfolding h by (simp add: sync_base_def)
  with assms(7) obtain out pk where
    out: "liquid_repack_bytes (fs_header_mod q) 1 288 8 36 = Some out" "length out = 36"
      "packetizer_decode (fs_p_header q) (unscramble_data out 36) = Some (?h, True, pk)" "header_packs L 14 pk"
    unfolding header_carries_def h Let_def header_size_14 by auto
  let ?q = "q\<lparr>fs_header_enc := unscramble_data out 36, fs_p_header := pk, fs_header := ?h, header_valid := True\<rparr>"
  have "length (unscramble_data out 36) = 36" using out(2) by (simp add: unscramble_data_def scramble_data_masked)
  then have "sync_base A L S ?q" using assms(3) out(4) h by (simp add: sync_base_def)
  from parse_header_run [OF assms(1,2) this assms(4-6)] obtain q' where
    q': "parse_header A L mem ?q = Some q'" "sync_base A L S q'" "configured L len pr q'" "header_valid q'"
    "fs_header q' = fs_header ?q" "fs_p q' = fs_p ?q" "fs_M q' = fs_M ?q" "has_callback q' = has_callback ?q"
    "fs_payload_symbol_index q' = fs_payload_symbol_index ?q" "payload_buffer_index q' = payload_buffer_index ?q" by auto
  have "ofdmflexframesync_decode_header A L mem q = parse_header A L mem ?q"
    using out(1-3) assms(3) h
    by (simp add: ofdmflexframesync_decode_header_def sync_base_def OFDMFLEXFRAME_H_BPS_def OFDMFLEXFRAME_H_SYM_def
      OFDMFLEXFRAME_H_ENC_def write_buf_Some Let_def)
  with q'(1,4) have run: "header_extracted A L mem q = Some ([], q'\<lparr>sync_state := SYNC_PAYLOAD\<rparr>)" by (simp add: header_extracted_def)
  show thesis
    by (rule that [OF run]) (use q'(2-) in \<open>auto simp: sync_base_def configured_def Let_def\<close>)
qed

section \<open>Receiving symbols\<close>

fun receive ::
  "('m, 'c) modem_api \<Rightarrow> (fec_scheme \<Rightarrow> fec_s) \<Rightarrow> (nat \<Rightarrow> bytes) \<Rightarrow> 'm ofdmflexframesync \<Rightarrow> 'c list list \<Rightarrow>
   (rx_event list \<times> 'm ofdmflexframesync) option" where
  "receive A L mem q [] = Some ([], q)"
| "receive A L mem q (Y # Ys) = do {
     (es, q) \<leftarrow> ofdmflexframesync_internal_callback A L mem q Y;
     (es', q) \<leftarrow> receive A L mem q Ys;
     Some (es @ es', q)
   }"

lemma receive_append:
  assumes "receive A L mem q Ys = Some (es, q1)" and "receive A L mem q1 Zs = Some (es', q2)"
  shows "receive A L mem q (Ys @ Zs) = Some (es @ es', q2)"
  using assms by (induction Ys arbitrary: q es) (auto simp: bind_eq_Some_conv split: prod.splits)

lemma receive_single: "receive A L mem q [Y] = ofdmflexframesync_internal_callback A L mem q Y"
  by (cases "ofdmflexframesync_internal_callback A L mem q Y") auto

lemma rx_header_symbol:
  assumes "sync_base A L S q" and "sync_state q = SYNC_HEADER" and "D = rank (\<lambda>i. fs_p q ! i = 2) (fs_M q)"
    and "fs_header_symbol_index q = t * D" and "t * D < 288" and "length vals = 288" and "\<And>j. j < t * D \<Longrightarrow> fs_header_mod q ! j = vals ! j"
    and "reads A MODEM_BPSK (\<lambda>i. fs_p q ! i = 2) vals 288 (t * D) Y (fs_M q)"
  obtains m hm sc where "api_scheme A m = MODEM_BPSK" "length hm = 288" "\<And>j. j < min 288 (Suc t * D) \<Longrightarrow> hm ! j = vals ! j"
    "ofdmflexframesync_internal_callback A L mem q Y =
      (let q' = q\<lparr>symbol_counter := sc, fs_mod_header := m, fs_header_mod := hm, fs_header_symbol_index := min 288 (Suc t * D)\<rparr>
       in if Suc t * D < 288 then Some ([], q') else header_extracted A L mem q')"
proof -
  let ?sc = "wrap32 (symbol_counter q + 1)" let ?q = "q\<lparr>symbol_counter := ?sc\<rparr>"
  have "\<exists>m hm. api_scheme A m = MODEM_BPSK \<and> length hm = 288 \<and>
    (\<forall>j < min 288 (t * D + rank (\<lambda>i. fs_p ?q ! i = 2) (0 + fs_M q)). hm ! j = vals ! j) \<and>
    rxheader_loop A L mem [0..<0 + fs_M q] ?q Y =
      (let q' = ?q\<lparr>fs_mod_header := m, fs_header_mod := hm,
         fs_header_symbol_index := min 288 (t * D + rank (\<lambda>i. fs_p ?q ! i = 2) (0 + fs_M q))\<rparr>
       in if t * D + rank (\<lambda>i. fs_p ?q ! i = 2) (0 + fs_M q) < 288 then Some ([], q') else header_extracted A L mem q')"
    by (rule rxheader_run [where M = "fs_M q"])
      (use assms in \<open>simp_all add: sync_base_def header_syms_def OFDMFLEXFRAME_H_SYM_def\<close>)
  then obtain m hm where "api_scheme A m = MODEM_BPSK" "length hm = 288" "\<And>j. j < min 288 (t * D + D) \<Longrightarrow> hm ! j = vals ! j"
    "rxheader_loop A L mem [0..<fs_M q] ?q Y =
      (let q' = ?q\<lparr>fs_mod_header := m, fs_header_mod := hm, fs_header_symbol_index := min 288 (t * D + D)\<rparr>
       in if t * D + D < 288 then Some ([], q') else header_extracted A L mem q')" unfolding assms(3) by auto
  then show thesis
    using that [of m hm ?sc] assms(2)
    by (simp add: ofdmflexframesync_internal_callback_def ofdmflexframesync_rxheader_def add.commute)
qed

lemma rx_header_symbols:
  assumes "sync_base A L S q" and "sync_state q = SYNC_HEADER" and "D = rank (\<lambda>i. fs_p q ! i = 2) (fs_M q)"
    and "fs_header_symbol_index q = t * D" and "length Ys = Suc r" and "(t + r) * D < 288" and "288 \<le> (t + Suc r) * D"
    and "length vals = 288" and "\<And>j. j < t * D \<Longrightarrow> fs_header_mod q ! j = vals ! j"
    and "\<And>j. j < Suc r \<Longrightarrow> reads A MODEM_BPSK (\<lambda>i. fs_p q ! i = 2) vals 288 ((t + j) * D) (Ys ! j) (fs_M q)"
  shows "\<exists>m sc. api_scheme A m = MODEM_BPSK \<and> receive A L mem q Ys = header_extracted A L mem
    (q\<lparr>symbol_counter := sc, fs_mod_header := m, fs_header_mod := vals, fs_header_symbol_index := 288\<rparr>)"
  using assms
proof (induction r arbitrary: t q Ys)
  case 0
  then obtain Y where Y: "Ys = [Y]" by (auto simp: length_Suc_conv)
  have t: "t * D < 288" "reads A MODEM_BPSK (\<lambda>i. fs_p q ! i = 2) vals 288 (t * D) Y (fs_M q)" using 0(6) 0(10) [of 0] Y by simp_all
  from rx_header_symbol [OF 0(1-4) t(1) 0(8,9) t(2)] obtain m hm sc where
    one: "api_scheme A m = MODEM_BPSK" "length hm = 288" "\<And>j. j < min 288 (Suc t * D) \<Longrightarrow> hm ! j = vals ! j"
      "ofdmflexframesync_internal_callback A L mem q Y =
      (let q' = q\<lparr>symbol_counter := sc, fs_mod_header := m, fs_header_mod := hm, fs_header_symbol_index := min 288 (Suc t * D)\<rparr>
       in if Suc t * D < 288 then Some ([], q') else header_extracted A L mem q')" by blast
  have full: "\<not> Suc t * D < 288" "min 288 (Suc t * D) = 288" using 0(7) by simp_all
  then have "hm = vals" using one(2,3) 0(8) by (intro nth_equalityI) auto
  then show ?case using one(1,4) full unfolding Y receive_single
    by - (rule exI [of _ m], rule exI [of _ sc], simp add: Let_def del: mult_Suc)
next
  case (Suc r)
  then obtain Y Zs where Y: "Ys = Y # Zs" "length Zs = Suc r" by (auto simp: length_Suc_conv)
  have t: "t * D < 288" "reads A MODEM_BPSK (\<lambda>i. fs_p q ! i = 2) vals 288 (t * D) Y (fs_M q)" and le: "Suc t * D \<le> (t + Suc r) * D"
    using Suc.prems(6) Suc.prems(10) [of 0] Y by (simp_all add: algebra_simps)
  from rx_header_symbol [OF Suc.prems(1-4) t(1) Suc.prems(8,9) t(2)] obtain m hm sc where
    one: "api_scheme A m = MODEM_BPSK" "length hm = 288" "\<And>j. j < min 288 (Suc t * D) \<Longrightarrow> hm ! j = vals ! j"
      "ofdmflexframesync_internal_callback A L mem q Y =
      (let q' = q\<lparr>symbol_counter := sc, fs_mod_header := m, fs_header_mod := hm, fs_header_symbol_index := min 288 (Suc t * D)\<rparr>
       in if Suc t * D < 288 then Some ([], q') else header_extracted A L mem q')" by blast
  have more: "Suc t * D < 288" "min 288 (Suc t * D) = Suc t * D"
    using le_less_trans [OF le Suc.prems(6)] by (simp_all only: min.absorb2 less_imp_le)
  let ?q = "q\<lparr>symbol_counter := sc, fs_mod_header := m, fs_header_mod := hm, fs_header_symbol_index := Suc t * D\<rparr>"
  have "reads A MODEM_BPSK (\<lambda>i. fs_p ?q ! i = 2) vals 288 ((Suc t + j) * D) (Zs ! j) (fs_M ?q)" if "j < Suc r" for j
    using Suc.prems(10) [of "Suc j"] that Y(1) by simp
  moreover have "sync_base A L S ?q" using Suc.prems(1) one(1,2) by (simp add: sync_base_def)
  moreover have "(Suc t + r) * D < 288" "288 \<le> (Suc t + Suc r) * D" using Suc.prems(6,7) by simp_all
  ultimately have "\<exists>m sc. api_scheme A m = MODEM_BPSK \<and> receive A L mem ?q Zs = header_extracted A L mem
      (?q\<lparr>symbol_counter := sc, fs_mod_header := m, fs_header_mod := vals, fs_header_symbol_index := 288\<rparr>)"
    using Suc.IH [of ?q "Suc t" Zs] Suc.prems(2,3,8) Y(2) one(3) more(2) by simp
  moreover have "receive A L mem q Ys = receive A L mem ?q Zs"
    using one(4) more unfolding Y(1) by (cases "receive A L mem ?q Zs") (simp_all add: Let_def split_beta)
  ultimately show ?case by simp
qed

section \<open>The payload\<close>

text \<open>The event of a delivered frame.\<close>

definition delivers :: "ofdmflexframegenprops_s \<Rightarrow> bytes \<times> bytes \<Rightarrow> rx_event \<Rightarrow> bool" where
  "delivers pr frame e \<longleftrightarrow> ev_header_valid e \<and> take 8 (ev_header e) = fst frame \<and> ev_payload e = Some (snd frame) \<and>
     ev_payload_len e = length (snd frame) \<and> ev_payload_valid e \<and> ev_mod_scheme e = fp_mod_scheme pr \<and>
     ev_check e = fp_check pr \<and> ev_fec0 e = fp_fec0 pr \<and> ev_fec1 e = fp_fec1 pr"

lemma payload_extracted_run:
  assumes "sync_base A L S q" and "configured L (length payload) pr q" and "header_valid q" and "take 8 (fs_header q) = hdr"
    and "has_callback q"
    and "\<And>p. packs L (length payload) (fp_check pr) (fp_fec0 pr) (fp_fec1 pr) p \<Longrightarrow>
      \<exists>p'. packetizer_decode p (fs_payload_enc q) = Some (payload, True, p') \<and> packs L (length payload) (fp_check pr) (fp_fec0 pr) (fp_fec1 pr) p'"
  obtains e q' where "payload_extracted q = Some ([e], q')" "delivers pr (hdr, payload) e" "sync_base A L S q'" "sync_idle q'"
    "fs_p q' = fs_p q" "fs_M q' = fs_M q" "has_callback q'"
proof -
  from assms(2,6) obtain pk where
    pk: "packetizer_decode (fs_p_payload q) (fs_payload_enc q) = Some (payload, True, pk)"
      "packs L (length payload) (fp_check pr) (fp_fec0 pr) (fp_fec1 pr) pk" by (auto simp: configured_def Let_def)
  let ?q = "q\<lparr>fs_p_payload := pk, fs_payload_dec := payload, payload_valid := True\<rparr>"
  have run: "payload_extracted q = Some ([payload_event ?q], ofdmflexframesync_reset ?q)"
    using pk(1) assms(2,5) by (simp add: payload_extracted_def configured_def write_buf_Some Let_def)
  show thesis
    by (rule that [OF run])
      (use assms(1-5) pk(2) in \<open>auto simp: delivers_def payload_event_def sync_base_def sync_idle_def configured_def packs_def
        ofdmflexframesync_reset_def Let_def\<close>)
qed

lemma data_for_counter [simp]: "data_for (q\<lparr>symbol_counter := k\<rparr>) = data_for q"
  by (simp add: data_for_def fun_eq_iff)

lemma rx_payload_symbol:
  assumes "sync_base A L S q" and "configured L len pr q" and "props_ok S pr" and "sync_state q = SYNC_PAYLOAD"
    and "D = rank (\<lambda>i. fs_p q ! i = 2) (fs_M q)" and "fs_payload_symbol_index q = t * D"
    and "payload_buffer_index q = bps_payload q * (t * D)" and "t * D < fs_payload_mod_len q"
    and "packed_syms (bps_payload q) vals (t * D) (fs_payload_enc q)"
    and "reads A (fp_mod_scheme pr) (\<lambda>i. fs_p q ! i = 2) vals (fs_payload_mod_len q) (t * D) Y (fs_M q)"
  obtains m buf sc where "api_scheme A m = fp_mod_scheme pr" "length buf = length (fs_payload_enc q)"
    "packed_syms (bps_payload q) vals (min (fs_payload_mod_len q) (Suc t * D)) buf"
    "ofdmflexframesync_internal_callback A L mem q Y =
      (let q' = q\<lparr>symbol_counter := sc, fs_mod_payload := m, fs_payload_enc := buf,
         payload_buffer_index := bps_payload q * min (fs_payload_mod_len q) (Suc t * D),
         fs_payload_symbol_index := min (fs_payload_mod_len q) (Suc t * D)\<rparr>
       in if Suc t * D < fs_payload_mod_len q then Some ([], q') else payload_extracted q')"
proof -
  let ?sc = "wrap32 (symbol_counter q + 1)" let ?q = "q\<lparr>symbol_counter := ?sc\<rparr>" and ?n = "fs_payload_mod_len q"
  have mine: "data_for q = (\<lambda>i. fs_p q ! i = 2)" using assms(1) by (auto simp: data_for_def sync_base_def)
  have ms: "ms_payload q = fp_mod_scheme pr" "bps_payload q = modem_bps (fp_mod_scheme pr)" using assms(1,2)
    by (simp_all add: configured_def sync_base_def Let_def)
  have "\<exists>m buf. api_scheme A m = ms_payload ?q \<and> length buf = length (fs_payload_enc ?q) \<and>
    packed_syms (bps_payload ?q) vals (min ?n (t * D + rank (data_for ?q) (0 + fs_M q))) buf \<and>
    rxpayload_loop A [0..<0 + fs_M q] ?q Y =
      (let q' = ?q\<lparr>fs_mod_payload := m, fs_payload_enc := buf,
         payload_buffer_index := bps_payload ?q * min ?n (t * D + rank (data_for ?q) (0 + fs_M q)),
         fs_payload_symbol_index := min ?n (t * D + rank (data_for ?q) (0 + fs_M q))\<rparr>
       in if t * D + rank (data_for ?q) (0 + fs_M q) < ?n then Some ([], q') else payload_extracted q')"
    by (rule rxpayload_run [where M = "fs_M q"])
      (use assms ms modem_bps_le in \<open>simp_all add: mine sync_base_def configured_def props_ok_def Let_def\<close>)
  then obtain m buf where "api_scheme A m = fp_mod_scheme pr" "length buf = length (fs_payload_enc q)"
    "packed_syms (bps_payload q) vals (min ?n (t * D + D)) buf"
    "rxpayload_loop A [0..<fs_M q] ?q Y =
      (let q' = ?q\<lparr>fs_mod_payload := m, fs_payload_enc := buf,
         payload_buffer_index := bps_payload q * min ?n (t * D + D), fs_payload_symbol_index := min ?n (t * D + D)\<rparr>
       in if t * D + D < ?n then Some ([], q') else payload_extracted q')" unfolding assms(5) ms(1) [symmetric] by (auto simp: mine)
  then show thesis
    using that [of m buf ?sc] assms(4)
    by (simp add: ofdmflexframesync_internal_callback_def ofdmflexframesync_rxpayload_def add.commute)
qed

lemma rx_payload_symbols:
  assumes "sync_base A L S q" and "configured L len pr q" and "props_ok S pr" and "sync_state q = SYNC_PAYLOAD"
    and "D = rank (\<lambda>i. fs_p q ! i = 2) (fs_M q)" and "fs_payload_symbol_index q = t * D"
    and "payload_buffer_index q = bps_payload q * (t * D)" and "length Ys = Suc r" and "(t + r) * D < fs_payload_mod_len q"
    and "fs_payload_mod_len q \<le> (t + Suc r) * D" and "packed_syms (bps_payload q) vals (t * D) (fs_payload_enc q)"
    and "\<And>j. j < Suc r \<Longrightarrow> reads A (fp_mod_scheme pr) (\<lambda>i. fs_p q ! i = 2) vals (fs_payload_mod_len q) ((t + j) * D) (Ys ! j) (fs_M q)"
  shows "\<exists>m buf sc. api_scheme A m = fp_mod_scheme pr \<and> length buf = length (fs_payload_enc q) \<and>
    packed_syms (bps_payload q) vals (fs_payload_mod_len q) buf \<and> receive A L mem q Ys = payload_extracted
      (q\<lparr>symbol_counter := sc, fs_mod_payload := m, fs_payload_enc := buf,
        payload_buffer_index := bps_payload q * fs_payload_mod_len q, fs_payload_symbol_index := fs_payload_mod_len q\<rparr>)"
  using assms
proof (induction r arbitrary: t q Ys)
  case 0
  let ?n = "fs_payload_mod_len q"
  from 0(8) obtain Y where Y: "Ys = [Y]" by (auto simp: length_Suc_conv)
  have t: "t * D < ?n" "reads A (fp_mod_scheme pr) (\<lambda>i. fs_p q ! i = 2) vals ?n (t * D) Y (fs_M q)" using 0(9) 0(12) [of 0] Y by simp_all
  from rx_payload_symbol [OF 0(1-7) t(1) 0(11) t(2)] obtain m buf sc where
    one: "api_scheme A m = fp_mod_scheme pr" "length buf = length (fs_payload_enc q)"
    "packed_syms (bps_payload q) vals (min ?n (Suc t * D)) buf"
    "ofdmflexframesync_internal_callback A L mem q Y =
      (let q' = q\<lparr>symbol_counter := sc, fs_mod_payload := m, fs_payload_enc := buf,
         payload_buffer_index := bps_payload q * min ?n (Suc t * D), fs_payload_symbol_index := min ?n (Suc t * D)\<rparr>
       in if Suc t * D < ?n then Some ([], q') else payload_extracted q')" by blast
  have full: "\<not> Suc t * D < ?n" "min ?n (Suc t * D) = ?n" using 0(10) by simp_all
  show ?case unfolding Y receive_single using one full
    by - (rule exI [of _ m], rule exI [of _ buf], rule exI [of _ sc], simp add: Let_def del: mult_Suc)
next
  case (Suc r)
  let ?n = "fs_payload_mod_len q"
  from Suc.prems(8) obtain Y Zs where Y: "Ys = Y # Zs" "length Zs = Suc r" by (auto simp: length_Suc_conv)
  have t: "t * D < ?n" "reads A (fp_mod_scheme pr) (\<lambda>i. fs_p q ! i = 2) vals ?n (t * D) Y (fs_M q)" and le: "Suc t * D \<le> (t + Suc r) * D"
    using Suc.prems(9) Suc.prems(12) [of 0] Y by (simp_all add: algebra_simps)
  from rx_payload_symbol [OF Suc.prems(1-7) t(1) Suc.prems(11) t(2)] obtain m buf sc where
    one: "api_scheme A m = fp_mod_scheme pr" "length buf = length (fs_payload_enc q)"
    "packed_syms (bps_payload q) vals (min ?n (Suc t * D)) buf"
    "ofdmflexframesync_internal_callback A L mem q Y =
      (let q' = q\<lparr>symbol_counter := sc, fs_mod_payload := m, fs_payload_enc := buf,
         payload_buffer_index := bps_payload q * min ?n (Suc t * D), fs_payload_symbol_index := min ?n (Suc t * D)\<rparr>
       in if Suc t * D < ?n then Some ([], q') else payload_extracted q')" by blast
  have more: "Suc t * D < ?n" "min ?n (Suc t * D) = Suc t * D"
    using le_less_trans [OF le Suc.prems(9)] by (simp_all only: min.absorb2 less_imp_le)
  let ?q = "q\<lparr>symbol_counter := sc, fs_mod_payload := m, fs_payload_enc := buf,
     payload_buffer_index := bps_payload q * (Suc t * D), fs_payload_symbol_index := Suc t * D\<rparr>"
  have reads: "reads A (fp_mod_scheme pr) (\<lambda>i. fs_p ?q ! i = 2) vals (fs_payload_mod_len ?q) ((Suc t + j) * D) (Zs ! j) (fs_M ?q)"
    if "j < Suc r" for j using Suc.prems(12) [of "Suc j"] that Y(1) by simp
  have inv: "sync_base A L S ?q" "configured L len pr ?q"
    using Suc.prems(1,2) one(1,2) by (simp_all add: sync_base_def configured_def Let_def)
  have "\<exists>m buf sc. api_scheme A m = fp_mod_scheme pr \<and> length buf = length (fs_payload_enc ?q) \<and>
    packed_syms (bps_payload ?q) vals (fs_payload_mod_len ?q) buf \<and> receive A L mem ?q Zs = payload_extracted
      (?q\<lparr>symbol_counter := sc, fs_mod_payload := m, fs_payload_enc := buf,
        payload_buffer_index := bps_payload ?q * fs_payload_mod_len ?q, fs_payload_symbol_index := fs_payload_mod_len ?q\<rparr>)"
    by (rule Suc.IH [OF inv Suc.prems(3) _ _ _ _ Y(2) _ _ _ reads])
      (use Suc.prems(4,5,9,10) one(3) more in \<open>simp_all del: mult_Suc\<close>)
  moreover have "receive A L mem q Ys = receive A L mem ?q Zs"
    using one(4) more unfolding Y(1) by (cases "receive A L mem ?q Zs") (simp_all add: Let_def split_beta)
  ultimately show ?case using one(2) by simp
qed

section \<open>One frame\<close>

text \<open>A received symbol is near the one sent at every data subcarrier.\<close>

definition near_symbol :: "('c \<Rightarrow> 'c \<Rightarrow> bool) \<Rightarrow> bytes \<Rightarrow> 'c list \<Rightarrow> 'c list \<Rightarrow> bool" where
  "near_symbol near p X Y \<longleftrightarrow> length Y = length X \<and> (\<forall>i < length X. p ! i = 2 \<longrightarrow> near (X ! i) (Y ! i))"

lemma carries_reads:
  assumes "symbol_carries A near s (\<lambda>i. p ! i = 2) vals n t X" and "near_symbol near p X Y" and "length X = M"
  shows "reads A s (\<lambda>i. p ! i = 2) vals n t Y M"
  using assms unfolding symbol_carries_def near_symbol_def reads_def carries_sym_def by blast

lemma ceil_div_Suc:
  assumes "0 < d" and "ceil_div n d = Suc r"
  shows "r * d < n" "n \<le> Suc r * d"
  using ceil_div_le_iff [OF assms(1), of n r] ceil_div_le_iff [OF assms(1), of n "Suc r"] assms(2)
  by (simp_all add: mult.commute)

lemma ceil_div_positive: "0 < d \<Longrightarrow> 0 < n \<Longrightarrow> \<exists>r. ceil_div n d = Suc r"
  using ceil_div_le_iff [of d n 0] by (metis mult_0_right not_less not0_implies_Suc zero_less_iff_neq_zero le_zero_eq)

text \<open>The symbols of the header configure the receiver.\<close>

lemma receive_header:
  assumes "clean_modems A S near" and "mem_ok mem" and g: "assembled A L S hdr payload g" and "length hdr = 8" and "length payload < 2 ^ 16"
    and Hs: "length Hs = num_symbols_header g" "\<forall>j < length Hs. length (Hs ! j) = fg_M g \<and>
      symbol_carries A near MODEM_BPSK (data_cell g) (header_mod g) 288 (j * fg_M_data g) (Hs ! j)"
    and q: "sync_base A L S q" "sync_idle q" "fs_p q = fg_p g" "fs_M q = fg_M g"
    and Ys: "list_all2 (near_symbol near (fg_p g)) Hs Ys"
  obtains q' where "receive A L mem q Ys = Some ([], q')" "sync_base A L S q'" "configured L (length payload) (gen_props g) q'"
    "header_valid q'" "sync_state q' = SYNC_PAYLOAD" "take 8 (fs_header q') = hdr" "fs_p q' = fs_p q" "fs_M q' = fs_M q"
    "has_callback q' = has_callback q" "fs_payload_symbol_index q' = 0" "payload_buffer_index q' = 0"
proof -
  let ?D = "fg_M_data g" and ?pr = "gen_props g" and ?len = "length payload"
  from g have b: "gen_base A L g" "props_ok S ?pr" and hc: "header_carries L (hdr @ framing_info ?len ?pr) (header_mod g)"
    by (simp_all add: assembled_def gen_payload_def Let_def)
  have D: "0 < ?D" "?D = rank (\<lambda>i. fs_p q ! i = 2) (fs_M q)" "length (header_mod g) = 288" "num_symbols_header g = ceil_div 288 ?D"
    using b(1) q(3,4) by (simp_all add: gen_base_def)
  from ceil_div_positive [OF D(1), of 288] D(4) obtain r where r: "num_symbols_header g = Suc r" by auto
  have len: "length Ys = Suc r" using Ys Hs(1) r by (simp add: list_all2_lengthD)
  note hn = ceil_div_Suc [OF D(1), of 288 r, folded D(4), OF r]
  have rd: "reads A MODEM_BPSK (\<lambda>i. fs_p q ! i = 2) (header_mod g) 288 ((0 + j) * ?D) (Ys ! j) (fs_M q)" if "j < Suc r" for j
    using carries_reads [of A near MODEM_BPSK "fg_p g" "header_mod g" 288 "j * ?D" "Hs ! j" "Ys ! j" "fg_M g"] Hs that r
      list_all2_nthD [OF Ys, of j] q(3,4) by simp
  have "\<exists>m sc. api_scheme A m = MODEM_BPSK \<and> receive A L mem q Ys = header_extracted A L mem
      (q\<lparr>symbol_counter := sc, fs_mod_header := m, fs_header_mod := header_mod g, fs_header_symbol_index := 288\<rparr>)"
    by (rule rx_header_symbols [OF q(1) _ D(2) _ len _ _ D(3) _ rd]) (use q(2) hn in \<open>simp_all add: sync_idle_def\<close>)
  then obtain m sc where m: "api_scheme A m = MODEM_BPSK" and rx: "receive A L mem q Ys = header_extracted A L mem
      (q\<lparr>symbol_counter := sc, fs_mod_header := m, fs_header_mod := header_mod g, fs_header_symbol_index := 288\<rparr>)" by blast
  let ?q = "q\<lparr>symbol_counter := sc, fs_mod_header := m, fs_header_mod := header_mod g, fs_header_symbol_index := 288\<rparr>"
  have "sync_base A L S ?q" "header_carries L (hdr @ framing_info ?len ?pr) (fs_header_mod ?q)"
    using q(1) m D(3) hc by (simp_all add: sync_base_def)
  from header_extracted_run [OF assms(1,2) this(1) b(2) assms(5,4) this(2)] obtain q1 where
    "header_extracted A L mem ?q = Some ([], q1)" "sync_base A L S q1" "configured L ?len ?pr q1" "header_valid q1"
    "sync_state q1 = SYNC_PAYLOAD" "fs_header q1 = hdr @ framing_info ?len ?pr" "fs_p q1 = fs_p ?q" "fs_M q1 = fs_M ?q"
    "has_callback q1 = has_callback ?q" "fs_payload_symbol_index q1 = fs_payload_symbol_index ?q"
    "payload_buffer_index q1 = payload_buffer_index ?q" .
  then show thesis using that [of q1] rx assms(4) q(2) by (simp add: sync_idle_def)
qed

text \<open>The symbols of the payload deliver it.\<close>

lemma receive_payload:
  assumes g: "assembled A L S hdr payload g"
    and Ps: "length Ps = num_symbols_payload g" "0 < num_symbols_payload g" "\<forall>j < length Ps. length (Ps ! j) = fg_M g \<and>
      symbol_carries A near (fp_mod_scheme (gen_props g)) (data_cell g) (payload_mod g) (payload_mod_len g) (j * fg_M_data g) (Ps ! j)"
    and q: "sync_base A L S q" "configured L (length payload) (gen_props g) q" "header_valid q" "sync_state q = SYNC_PAYLOAD"
      "take 8 (fs_header q) = hdr" "has_callback q" "fs_payload_symbol_index q = 0" "payload_buffer_index q = 0" "fs_p q = fg_p g" "fs_M q = fg_M g"
    and Ys: "list_all2 (near_symbol near (fg_p g)) Ps Ys"
  obtains e q' where "receive A L mem q Ys = Some ([e], q')" "delivers (gen_props g) (hdr, payload) e"
    "sync_base A L S q'" "sync_idle q'" "has_callback q'" "fs_p q' = fs_p q" "fs_M q' = fs_M q"
proof -
  let ?D = "fg_M_data g" and ?pr = "gen_props g" and ?len = "length payload" and ?n = "payload_mod_len g"
  let ?s = "fp_mod_scheme (gen_props g)"
  from g have b: "gen_base A L g" "gen_payload A L S g" "payload_dec_len g = ?len" and pc: "payload_carries L ?pr payload (payload_mod g)"
    by (simp_all add: assembled_def)
  have D: "0 < ?D" "?D = rank (\<lambda>i. fs_p q ! i = 2) (fs_M q)" using b(1) q(9,10) by (simp_all add: gen_base_def)
  have pr: "props_ok S ?pr" using b(2) by (simp add: gen_payload_def Let_def)
  have n: "fs_payload_mod_len q = ?n" "num_symbols_payload g = ceil_div ?n ?D" and bps: "bps_payload q = modem_bps ?s"
    using q(1,2) b(2,3) by (simp_all add: configured_def gen_payload_def sync_base_def Let_def)
  obtain r where r: "num_symbols_payload g = Suc r" using Ps(2) by (cases "num_symbols_payload g") auto
  have len: "length Ys = Suc r" using Ys Ps(1) r by (simp add: list_all2_lengthD)
  note pn = ceil_div_Suc [OF D(1), of ?n r, folded n(2), OF r]
  have rd: "reads A ?s (\<lambda>i. fs_p q ! i = 2) (payload_mod g) (fs_payload_mod_len q) ((0 + j) * ?D) (Ys ! j) (fs_M q)" if "j < Suc r" for j
    using carries_reads [of A near ?s "fg_p g" "payload_mod g" ?n "j * ?D" "Ps ! j" "Ys ! j" "fg_M g"] Ps(1,3) that r
      list_all2_nthD [OF Ys, of j] q(9,10) n(1) by simp
  have "\<exists>m buf sc. api_scheme A m = ?s \<and> length buf = length (fs_payload_enc q) \<and>
    packed_syms (bps_payload q) (payload_mod g) (fs_payload_mod_len q) buf \<and> receive A L mem q Ys = payload_extracted
      (q\<lparr>symbol_counter := sc, fs_mod_payload := m, fs_payload_enc := buf,
        payload_buffer_index := bps_payload q * fs_payload_mod_len q, fs_payload_symbol_index := fs_payload_mod_len q\<rparr>)"
    by (rule rx_payload_symbols [OF q(1,2) pr q(4) D(2) _ _ len _ _ _ rd])
      (use q(7,8) pn n(1) in \<open>simp_all add: packed_syms_def\<close>)
  then obtain m buf sc where m: "api_scheme A m = ?s" "length buf = length (fs_payload_enc q)"
    "packed_syms (bps_payload q) (payload_mod g) (fs_payload_mod_len q) buf" and rx: "receive A L mem q Ys = payload_extracted
      (q\<lparr>symbol_counter := sc, fs_mod_payload := m, fs_payload_enc := buf,
        payload_buffer_index := bps_payload q * fs_payload_mod_len q, fs_payload_symbol_index := fs_payload_mod_len q\<rparr>)" by blast
  let ?q = "q\<lparr>symbol_counter := sc, fs_mod_payload := m, fs_payload_enc := buf,
        payload_buffer_index := bps_payload q * fs_payload_mod_len q, fs_payload_symbol_index := fs_payload_mod_len q\<rparr>"
  from pc obtain pkt where pkt: "length pkt = packet_size ?len (fp_check ?pr) (fp_fec0 ?pr) (fp_fec1 ?pr)"
      "\<And>t. t < 8 * length pkt \<Longrightarrow> sym_bit (modem_bps ?s) (payload_mod g) t = sym_bit 8 pkt t"
      "\<And>p. packs L ?len (fp_check ?pr) (fp_fec0 ?pr) (fp_fec1 ?pr) p \<Longrightarrow> \<exists>p'. packetizer_decode p pkt = Some (payload, True, p') \<and>
        packs L ?len (fp_check ?pr) (fp_fec0 ?pr) (fp_fec1 ?pr) p'" unfolding payload_carries_def Let_def by blast
  have lens: "length (fs_payload_enc q) = length pkt" "fs_payload_mod_len q = ceil_div (8 * length pkt) (modem_bps ?s)"
    using q(2) pkt(1) by (simp_all add: configured_def Let_def)
  have buf: "buf = pkt"
    using packed_all [of "modem_bps ?s" "payload_mod g" pkt buf] m(2,3) lens pkt(2) bps pr by (simp add: props_ok_def)
  have inv: "sync_base A L S ?q" "configured L ?len ?pr ?q" "header_valid ?q" "take 8 (fs_header ?q) = hdr" "has_callback ?q"
    using q m(1,2) by (simp_all add: sync_base_def configured_def Let_def)
  from payload_extracted_run [OF inv] pkt(3) buf obtain e q2 where
    "payload_extracted ?q = Some ([e], q2)" "delivers ?pr (hdr, payload) e" "sync_base A L S q2" "sync_idle q2"
    "fs_p q2 = fs_p ?q" "fs_M q2 = fs_M ?q" "has_callback q2" by auto
  then show thesis using that [of e q2] rx by simp
qed

section \<open>Any number of frames\<close>

lemma packet_size_le: "packet_size n crc fec0 fec1 \<le> 25 * n + 148"
proof -
  have "block_len fec0 (n + crc_get_length crc) \<le> 5 * (n + 4) + 8"
    using block_len_bounds(2) [where n = "n + crc_get_length crc" and scheme = fec0] crc_get_length_le [of crc] by simp
  then show ?thesis
    using block_len_bounds(2) [where n = "block_len fec0 (n + crc_get_length crc)" and scheme = fec1] by (simp add: packet_size_def)
qed

lemma frame_symbols:
  assumes "assembled A L S hdr payload g" and "length payload < 2 ^ 16" and "0 < length payload + crc_get_length (fp_check (gen_props g))"
  shows "0 < num_symbols_payload g" "num_symbols_payload g < 2 ^ 32"
proof -
  let ?pr = "gen_props g" and ?b = "modem_bps (fp_mod_scheme (gen_props g))"
  let ?size = "packet_size (length payload) (fp_check ?pr) (fp_fec0 ?pr) (fp_fec1 ?pr)"
  from assms(1) have n: "num_symbols_payload g = ceil_div (ceil_div (8 * ?size) ?b) (fg_M_data g)" "0 < ?b" "0 < fg_M_data g"
    by (simp_all add: assembled_def gen_payload_def gen_base_def props_ok_def Let_def)
  have "0 < ?size" using assms(3) packet_size_bounds [of "length payload" "fp_check ?pr" "fp_fec0 ?pr" "fp_fec1 ?pr"] by linarith
  with ceil_div_positive [OF n(2), of "8 * ?size"] have "0 < ceil_div (8 * ?size) ?b" by auto
  from ceil_div_positive [OF n(3) this] n(1) show "0 < num_symbols_payload g" by auto
  have "num_symbols_payload g \<le> 8 * ?size"
    unfolding n(1) using ceil_div_le_self [OF n(3)] ceil_div_le_self [OF n(2)] le_trans by blast
  also have "\<dots> < 2 ^ 32" using packet_size_le [of "length payload" "fp_check ?pr" "fp_fec0 ?pr" "fp_fec1 ?pr"] assms(2) by simp
  finally show "num_symbols_payload g < 2 ^ 32" .
qed

text \<open>Assembling and writing frames one after the other; the result has the symbols of each.\<close>

fun send_frames ::
  "('m, 'c::zero) modem_api \<Rightarrow> (fec_scheme \<Rightarrow> fec_s) \<Rightarrow> (nat \<Rightarrow> bytes) \<Rightarrow> (nat \<Rightarrow> nat \<Rightarrow> nat \<Rightarrow> nat) \<Rightarrow> 'm ofdmflexframegen \<Rightarrow>
   (bytes \<times> bytes) list \<Rightarrow> ((bool \<times> 'c tx_symbol option) list list \<times> 'm ofdmflexframegen) option" where
  "send_frames A L mem rnd g [] = Some ([], g)"
| "send_frames A L mem rnd g ((hdr, payload) # fs) = do {
     g \<leftarrow> ofdmflexframegen_assemble A L mem g hdr payload (length payload);
     (xs, g) \<leftarrow> write_symbols A L mem (rnd (length fs)) (ofdmflexframegen_getframelen g) g;
     (xss, g) \<leftarrow> send_frames A L mem rnd g fs;
     Some (xs # xss, g)
   }"

text \<open>Three training symbols, then the symbols with data; the last is marked.\<close>

definition frame_shape :: "(bool \<times> 'c tx_symbol option) list \<Rightarrow> bool" where
  "frame_shape xs \<longleftrightarrow> map fst xs = replicate (length xs - 1) False @ [True] \<and>
     (\<exists>Xs. map snd xs = map Some ([TX_S0a, TX_S0b, TX_S1] @ map TX_data Xs))"

definition data_symbols :: "(bool \<times> 'c tx_symbol option) list \<Rightarrow> 'c list list" where
  "data_symbols xs = concat (map (\<lambda>(last, x). case x of Some (TX_data X) \<Rightarrow> [X] | _ \<Rightarrow> []) xs)"

lemma data_symbols_frame:
  assumes "map snd xs = map Some ([TX_S0a, TX_S0b, TX_S1] @ map TX_data Xs)"
  shows "data_symbols xs = Xs"
proof -
  have "data_symbols xs = concat (map (\<lambda>x. case x of Some (TX_data X) \<Rightarrow> [X] | _ \<Rightarrow> []) (map snd xs))"
    by (simp add: data_symbols_def split_def o_def)
  also have "\<dots> = concat (map (\<lambda>X. [X]) Xs)" unfolding assms by (simp add: o_def)
  finally show ?thesis by simp
qed

lemma frames_run:
  assumes clean: "clean_modems A S near" "MODEM_BPSK \<in> S" and mem: "mem_ok mem" "mem_ok mem'"
    and "gen_base A L g" "gen_payload A L S g" "gen_idle g" "gen_props g = pr" "fg_p g = p"
    and "sync_base A L S q" "sync_idle q" "has_callback q" "fs_p q = p" "fs_M q = fg_M g"
    and "\<And>hdr payload. (hdr, payload) \<in> set frames \<Longrightarrow> length hdr = 8 \<and> length payload < 2 ^ 16 \<and>
      0 < length payload + crc_get_length (fp_check pr)"
  shows "\<exists>xss g'. send_frames A L mem rnd g frames = Some (xss, g') \<and> length xss = length frames \<and> list_all frame_shape xss \<and>
    (\<forall>Ys. list_all2 (near_symbol near p) (data_symbols (concat xss)) Ys \<longrightarrow>
      (\<exists>es q'. receive A L mem' q Ys = Some (es, q') \<and> list_all2 (delivers pr) frames es))"
  using assms(5-15)
proof (induction frames arbitrary: g q)
  case Nil
  then show ?case by (simp add: data_symbols_def)
next
  case (Cons frame fs)
  obtain hdr payload where f: "frame = (hdr, payload)" by fastforce
  with Cons.prems(11) have hp: "length hdr = 8" "length payload < 2 ^ 16" "0 < length payload + crc_get_length (fp_check pr)" by auto
  have bound: "length payload < packet_bound" using hp(2) by simp
  from assemble_run [OF clean(1) mem(1) Cons.prems(1,2) hp(1) bound] obtain g1 where
    g1: "ofdmflexframegen_assemble A L mem g hdr payload (length payload) = Some g1" "assembled A L S hdr payload g1"
    "gen_props g1 = gen_props g" "gen_idle g1 = gen_idle g" "fg_p g1 = fg_p g" "fg_M g1 = fg_M g" .
  have idle: "gen_idle g1" using g1(4) Cons.prems(3) by simp
  have num: "0 < num_symbols_payload g1" "num_symbols_payload g1 < 2 ^ 32"
    using frame_symbols [OF g1(2) hp(2)] hp(3) g1(3) Cons.prems(4) by simp_all
  from write_frame [OF clean g1(2) idle num, where mem = mem and rnd = "rnd (length fs)"] obtain xs Hs Ps g2 where
    w: "write_symbols A L mem (rnd (length fs)) (ofdmflexframegen_getframelen g1) g1 = Some (xs, g2)"
    "map fst xs = replicate (length xs - 1) False @ [True]" "map snd xs = map Some ([TX_S0a, TX_S0b, TX_S1] @ map TX_data (Hs @ Ps))"
    "length Hs = num_symbols_header g1" "length Ps = num_symbols_payload g1"
    "\<forall>j < length Hs. length (Hs ! j) = fg_M g1 \<and>
      symbol_carries A near MODEM_BPSK (data_cell g1) (header_mod g1) 288 (j * fg_M_data g1) (Hs ! j)"
    "\<forall>j < length Ps. length (Ps ! j) = fg_M g1 \<and> symbol_carries A near (fp_mod_scheme (gen_props g1)) (data_cell g1)
      (payload_mod g1) (payload_mod_len g1) (j * fg_M_data g1) (Ps ! j)"
    and g2: "gen_base A L g2" "gen_payload A L S g2" "gen_idle g2" "gen_props g2 = gen_props g1" "fg_p g2 = fg_p g1" "fg_M g2 = fg_M g1" .
  have same: "gen_props g2 = pr" "fg_p g2 = p" using g2(4,5) g1(3,5) Cons.prems(4,5) by simp_all
  have ok: "\<And>hdr payload. (hdr, payload) \<in> set fs \<Longrightarrow> length hdr = 8 \<and> length payload < 2 ^ 16 \<and>
      0 < length payload + crc_get_length (fp_check pr)" by (rule Cons.prems(11)) simp
  have q: "fs_p q = fg_p g1" "fs_M q = fg_M g1" "fs_M q = fg_M g2" using Cons.prems(5,9,10) g1(5,6) g2(6) by simp_all
  obtain xss g3 where rest: "send_frames A L mem rnd g2 fs = Some (xss, g3)" "length xss = length fs" "list_all frame_shape xss"
    using Cons.IH [OF g2(1-3) same Cons.prems(6-9) q(3) ok] by blast
  have "frame_shape xs" unfolding frame_shape_def using w(2,3) by blast
  moreover have "\<exists>es q'. receive A L mem' q Ys = Some (es, q') \<and> list_all2 (delivers pr) (frame # fs) es"
    if "list_all2 (near_symbol near p) (data_symbols (concat (xs # xss))) Ys" for Ys
  proof -
    have "data_symbols (concat (xs # xss)) = (Hs @ Ps) @ data_symbols (concat xss)"
      using data_symbols_frame [OF w(3)] by (simp add: data_symbols_def)
    with that obtain Yh Yp Y2 where Y: "Ys = Yh @ Yp @ Y2" "list_all2 (near_symbol near p) Hs Yh"
      "list_all2 (near_symbol near p) Ps Yp" "list_all2 (near_symbol near p) (data_symbols (concat xss)) Y2"
      by (auto simp: list_all2_append1)
    have p: "fg_p g1 = p" using g1(5) Cons.prems(5) by simp
    note Yhp = Y(2,3) [folded p]
    from receive_header [OF clean(1) mem(2) g1(2) hp(1,2) w(4,6) Cons.prems(6,7) q(1,2) Yhp(1)] obtain q1 where
      q1: "receive A L mem' q Yh = Some ([], q1)" "sync_base A L S q1" "configured L (length payload) (gen_props g1) q1"
      "header_valid q1" "sync_state q1 = SYNC_PAYLOAD" "take 8 (fs_header q1) = hdr" "fs_p q1 = fs_p q" "fs_M q1 = fs_M q"
      "has_callback q1 = has_callback q" "fs_payload_symbol_index q1 = 0" "payload_buffer_index q1 = 0" by blast
    have q1': "has_callback q1" "fs_p q1 = fg_p g1" "fs_M q1 = fg_M g1" using q1(7-9) Cons.prems(8) q(1,2) by simp_all
    from receive_payload [OF g1(2) w(5) num(1) w(7) q1(2-6) q1'(1) q1(10,11) q1'(2,3) Yhp(2)] obtain e q2 where
      q2: "receive A L mem' q1 Yp = Some ([e], q2)" "delivers (gen_props g1) (hdr, payload) e" "sync_base A L S q2" "sync_idle q2"
      "has_callback q2" "fs_p q2 = fs_p q1" "fs_M q2 = fs_M q1" by blast
    have q2': "fs_p q2 = p" "fs_M q2 = fg_M g2" using q2(6,7) q1(7,8) Cons.prems(9) q(3) by simp_all
    from Cons.IH [OF g2(1-3) same q2(3-5) q2' ok] rest(1) Y(4) obtain es q3 where
      es: "receive A L mem' q2 Y2 = Some (es, q3)" "list_all2 (delivers pr) fs es" by auto
    have "receive A L mem' q Ys = Some (e # es, q3)"
      using receive_append [OF q1(1) receive_append [OF q2(1) es(1)]] Y(1) by simp
    moreover have "list_all2 (delivers pr) (frame # fs) (e # es)" using es(2) q2(2) g1(3) Cons.prems(4) f by simp
    ultimately show ?thesis by blast
  qed
  ultimately show ?case
    using rest g1(1) w(1) f by (intro exI [of _ "xs # xss"] exI [of _ g3]) simp
qed

section \<open>Creation\<close>

lemma modem_bps_UNKNOWN: "modem_bps MODEM_UNKNOWN = 0"
  by (simp add: modem_bps_def modem_num_def index_of_def modem_schemes_def modulation_types_def)

lemma validate_counts:
  "ofdmframe_validate_sctype p M = Some (a, b, c) \<Longrightarrow> c = rank (\<lambda>i. p ! i = 2) M"
  by (auto simp: ofdmframe_validate_sctype_def validate_loop_eq rank_def split: if_splits)

lemma create_parts:
  assumes "ofdmframegen_create M cp_len taper_len p = Some (a, b, c)"
  shows "2 \<le> M" "M mod 2 = 0" "cp_len \<le> M" "ofdmframe_validate_sctype p M = Some (a, b, c)" "0 < c"
    "ofdmframesync_create M cp_len p = Some (a, b, c)"
  using assms by (auto simp: ofdmframegen_create_def ofdmframesync_create_def bind_eq_Some_conv split: if_splits)

text \<open>The objects both ends create for the header and, at first, for the payload.\<close>

lemma initial_objects:
  assumes "clean_modems A S near" and "{MODEM_BPSK, MODEM_QPSK} \<subseteq> S" and "mem_ok mem"
  obtains mh mp ph pp where "api_create A OFDMFLEXFRAME_H_MOD = Some mh" "api_scheme A mh = MODEM_BPSK"
    "api_create A MODEM_QPSK = Some mp" "api_scheme A mp = MODEM_QPSK"
    "new_packetizer L mem OFDMFLEXFRAME_H_DEC OFDMFLEXFRAME_H_CRC OFDMFLEXFRAME_H_FEC FEC_NONE = Some ph" "header_packs L 14 ph"
    "packetizer_get_enc_msg_len ph = OFDMFLEXFRAME_H_ENC"
    "new_packetizer L mem 1 CRC_NONE FEC_NONE FEC_NONE = Some pp" "packetizer_inv L FEC_NONE FEC_NONE pp"
proof -
  have S: "MODEM_BPSK \<in> S" "MODEM_QPSK \<in> S" using assms(2) by simp_all
  have bs: "block_scheme FEC_GOLAY2412" "block_scheme FEC_NONE" by (simp_all add: block_scheme_def)
  from clean_create [OF assms(1) S(1)] obtain mh where mh: "api_create A MODEM_BPSK = Some mh" "api_scheme A mh = MODEM_BPSK" .
  from clean_create [OF assms(1) S(2)] obtain mp where mp: "api_create A MODEM_QPSK = Some mp" "api_scheme A mp = MODEM_QPSK" .
  from new_packetizer_packs [OF bs _ _ assms(3), of 14 CRC_32 L] obtain ph where
    ph: "new_packetizer L mem 14 CRC_32 FEC_GOLAY2412 FEC_NONE = Some ph" "header_packs L 14 ph" by auto
  from new_packetizer_packs [OF bs(2,2) _ _ assms(3), of 1 CRC_NONE L] obtain pp where
    pp: "new_packetizer L mem 1 CRC_NONE FEC_NONE FEC_NONE = Some pp" "packs L 1 CRC_NONE FEC_NONE FEC_NONE pp" by auto
  show thesis
    by (rule that [of mh mp ph pp]) (use mh mp ph pp packs_size(1) [OF ph(2)] in \<open>simp_all add: OFDMFLEXFRAME_H_MOD_def OFDMFLEXFRAME_H_DEC_def
      OFDMFLEXFRAME_H_USER_def OFDMFLEXFRAME_H_CRC_def OFDMFLEXFRAME_H_FEC_def OFDMFLEXFRAME_H_ENC_def header_size_14 packs_def\<close>)
qed

lemma create_generator:
  assumes clean: "clean_modems A S near" "{MODEM_BPSK, MODEM_QPSK} \<subseteq> S" and mem: "mem_ok mem" and pr: "props_ok S pr"
    and p: "given_or_default M p = Some alloc" "ofdmframegen_create M cp_len taper_len alloc = Some (a, b, c)"
  obtains g where "ofdmflexframegen_create A L mem M cp_len taper_len p (Some pr) = Some g" "gen_base A L g" "gen_payload A L S g"
    "gen_idle g" "gen_props g = pr" "fg_p g = alloc" "fg_M g = M"
proof -
  note parts = create_parts [OF p(2)]
  from initial_objects [OF clean mem, of L] obtain mh mp ph pp where
    o: "api_create A OFDMFLEXFRAME_H_MOD = Some mh" "api_scheme A mh = MODEM_BPSK"
    "api_create A MODEM_QPSK = Some mp" "api_scheme A mp = MODEM_QPSK"
    "new_packetizer L mem OFDMFLEXFRAME_H_DEC OFDMFLEXFRAME_H_CRC OFDMFLEXFRAME_H_FEC FEC_NONE = Some ph" "header_packs L 14 ph"
    "packetizer_get_enc_msg_len ph = OFDMFLEXFRAME_H_ENC"
    "new_packetizer L mem 1 CRC_NONE FEC_NONE FEC_NONE = Some pp" "packetizer_inv L FEC_NONE FEC_NONE pp" .
  let ?g = "\<lparr>fg_M = M, fg_p = alloc, fg_M_null = a, fg_M_pilot = b, fg_M_data = c,
    num_symbols_header = ceil_div OFDMFLEXFRAME_H_SYM c, num_symbols_payload = 0, mod_header = mh, p_header = ph,
    fg_header = mem OFDMFLEXFRAME_H_DEC, header_enc = mem OFDMFLEXFRAME_H_ENC, header_mod = mem OFDMFLEXFRAME_H_SYM,
    p_payload = pp, payload_dec_len = 1, mod_payload = mp, payload_enc = mem (packetizer_get_enc_msg_len pp), payload_mod = mem 1,
    payload_enc_len = packetizer_get_enc_msg_len pp, payload_mod_len = 1,
    fg_users = [], fg_ofdma = False, dummy_data = False, num_users = 0, subcarrier_map = [], num_subcarriers = [],
    frames_sent_since_last_use = [], reallocation_delay = 50, largest_payload = 0,
    index_of_user_with_largest_payload = 0, index_of_user_with_least_subcarriers = 0,
    h_user_dynamic = 0, h_dec_dynamic = 0, h_enc_dynamic = 0, h_sym_dynamic = 0,
    symbol_number = 0, gen_state = GEN_S0a, frame_assembled = False, frame_complete = False,
    header_symbol_index = 0, payload_symbol_index = 0, gen_props = pr\<rparr>"
  have "gen_base A L ?g"
    using o(2,6,9) parts(5) validate_counts [OF parts(4)] mem
    by (auto simp: gen_base_def mem_ok_def OFDMFLEXFRAME_H_SYM_def OFDMFLEXFRAME_H_DEC_def OFDMFLEXFRAME_H_USER_def OFDMFLEXFRAME_H_ENC_def)
  moreover have "props_ok S (gen_props ?g)" "payload_dec_len ?g < packet_bound" using pr by simp_all
  ultimately obtain g where g: "ofdmflexframegen_reconfigure A L mem ?g = Some g" "gen_base A L g" "gen_payload A L S g"
    "gen_props g = gen_props ?g" "payload_dec_len g = payload_dec_len ?g" "gen_idle g = gen_idle ?g" "fg_p g = fg_p ?g" "fg_M g = fg_M ?g"
    using reconfigure_run [OF clean(1) mem, of L ?g] by blast
  have ok: "fp_check pr \<noteq> CRC_UNKNOWN" "fp_fec0 pr \<noteq> FEC_UNKNOWN" "fp_fec1 pr \<noteq> FEC_UNKNOWN" "fp_mod_scheme pr \<noteq> MODEM_UNKNOWN"
    using pr modem_bps_UNKNOWN by (auto simp: props_ok_def block_scheme_def)
  have run: "ofdmflexframegen_create A L mem M cp_len taper_len p (Some pr) = Some (ofdmflexframegen_reset g)"
    using p parts(1,2,4,5) o(1,3,5,7,8) ok g(1)
    by (simp add: ofdmflexframegen_create_def div_up_def Let_def ofdmflexframegen_setprops_def)
  show thesis
    by (rule that [OF run]) (use g(2-) in \<open>simp_all add: ofdmflexframegen_reset_def gen_base_def gen_payload_def gen_idle_def Let_def\<close>)
qed

lemma create_synchronizer:
  assumes clean: "clean_modems A S near" "{MODEM_BPSK, MODEM_QPSK} \<subseteq> S" and mem: "mem_ok mem"
    and p: "given_or_default M p = Some alloc" "ofdmframegen_create M cp_len taper_len alloc = Some (a, b, c)"
  obtains q where "ofdmflexframesync_create A L mem M cp_len p callback = Some q" "sync_base A L S q" "sync_idle q"
    "has_callback q = callback" "fs_p q = alloc" "fs_M q = M"
proof -
  note parts = create_parts [OF p(2)]
  from initial_objects [OF clean mem, of L] obtain mh mp ph pp where
    o: "api_create A OFDMFLEXFRAME_H_MOD = Some mh" "api_scheme A mh = MODEM_BPSK"
    "api_create A MODEM_QPSK = Some mp" "api_scheme A mp = MODEM_QPSK"
    "new_packetizer L mem OFDMFLEXFRAME_H_DEC OFDMFLEXFRAME_H_CRC OFDMFLEXFRAME_H_FEC FEC_NONE = Some ph" "header_packs L 14 ph"
    "packetizer_get_enc_msg_len ph = OFDMFLEXFRAME_H_ENC"
    "new_packetizer L mem 1 CRC_NONE FEC_NONE FEC_NONE = Some pp" "packetizer_inv L FEC_NONE FEC_NONE pp" .
  obtain q where run: "ofdmflexframesync_create A L mem M cp_len p callback = Some q"
    and q: "\<not> fs_ofdma q" "fs_mod_header q = mh" "fs_p_header q = ph" "fs_header q = mem OFDMFLEXFRAME_H_DEC"
    "fs_header_enc q = mem OFDMFLEXFRAME_H_ENC" "fs_header_mod q = mem OFDMFLEXFRAME_H_SYM" "fs_mod_payload q = mp"
    "ms_payload q = MODEM_QPSK" "bps_payload q = 2" "fs_p_payload q = pp" "sync_idle q" "has_callback q = callback" "fs_p q = alloc" "fs_M q = M"
    using p(1) parts o by (simp add: ofdmflexframesync_create_def ofdmflexframesync_reset_def sync_idle_def Let_def)
  show thesis
    by (rule that [OF run]) (use q o mem in \<open>auto simp: sync_base_def mem_ok_def OFDMFLEXFRAME_H_SYM_def OFDMFLEXFRAME_H_DEC_def
      OFDMFLEXFRAME_H_USER_def OFDMFLEXFRAME_H_ENC_def\<close>)
qed

section \<open>Property\<close>

text \<open>
  C2: Every frame is delivered. Let \<open>alloc\<close> be the allocation of the subcarriers, given or the default one, let the
  generator and the synchronizer be created over it, and let the properties name a CRC, two block codes and a
  modulation scheme of \<open>S\<close>. Both creations succeed, and for every list of frames (a header of 8 bytes, a payload of less
  than \<open>2 ^ 16\<close> bytes that is not empty unless it has a checksum), whatever the random symbols, assembling and writing
  them in turn succeeds and each becomes three training symbols and then symbols with data, of which exactly the last is
  reported as the last of its frame. A synchronizer that receives symbols near those with data, of all frames
  in a row, calls its callback exactly once for each frame, in their order, with its header and its payload marked as
  valid, and with the scheme, the checksum and the codes of the frame. The modems are any that satisfy \<open>clean_modems\<close>.
\<close>

theorem ofdm_frames_delivered:
  assumes "clean_modems A S near" and "{MODEM_BPSK, MODEM_QPSK} \<subseteq> S" and "props_ok S pr" and "mem_ok mem" and "mem_ok mem'"
    and "given_or_default M p = Some alloc" and "ofdmframegen_create M cp_len taper_len alloc = Some (a, b, c)"
  shows "\<exists>g q. ofdmflexframegen_create A L mem M cp_len taper_len p (Some pr) = Some g \<and>
    ofdmflexframesync_create A L mem' M cp_len p True = Some q \<and>
    (\<forall>rnd frames. (\<forall>(hdr, payload) \<in> set frames. length hdr = 8 \<and> length payload < 2 ^ 16 \<and>
        0 < length payload + crc_get_length (fp_check pr)) \<longrightarrow>
      (\<exists>xss g'. send_frames A L mem rnd g frames = Some (xss, g') \<and> length xss = length frames \<and> list_all frame_shape xss \<and>
        (\<forall>Ys. list_all2 (near_symbol near alloc) (data_symbols (concat xss)) Ys \<longrightarrow>
          (\<exists>es q'. receive A L mem' q Ys = Some (es, q') \<and> list_all2 (delivers pr) frames es))))"
proof -
  have bpsk: "MODEM_BPSK \<in> S" using assms(2) by simp
  from create_generator [OF assms(1,2,4,3,6,7), of L] obtain g where
    g: "ofdmflexframegen_create A L mem M cp_len taper_len p (Some pr) = Some g" "gen_base A L g" "gen_payload A L S g"
    "gen_idle g" "gen_props g = pr" "fg_p g = alloc" "fg_M g = M" .
  from create_synchronizer [OF assms(1,2,5,6,7), of L True] obtain q where
    q: "ofdmflexframesync_create A L mem' M cp_len p True = Some q" "sync_base A L S q" "sync_idle q"
    "has_callback q" "fs_p q = alloc" "fs_M q = M" by auto
  have M: "fs_M q = fg_M g" using g(7) q(6) by simp
  note run = frames_run [OF assms(1) bpsk assms(4,5) g(2-6) q(2-5) M]
  show ?thesis
  proof (rule exI [of _ g], rule exI [of _ q], intro conjI allI impI g(1) q(1))
    fix rnd and frames :: "(bytes \<times> bytes) list"
    assume "\<forall>(hdr, payload) \<in> set frames. length hdr = 8 \<and> length payload < 2 ^ 16 \<and> 0 < length payload + crc_get_length (fp_check pr)"
    then show "\<exists>xss g'. send_frames A L mem rnd g frames = Some (xss, g') \<and> length xss = length frames \<and> list_all frame_shape xss \<and>
        (\<forall>Ys. list_all2 (near_symbol near alloc) (data_symbols (concat xss)) Ys \<longrightarrow>
          (\<exists>es q'. receive A L mem' q Ys = Some (es, q') \<and> list_all2 (delivers pr) frames es))"
      by (intro run) (drule (1) bspec, simp only: prod.case)
  qed
qed

section \<open>The modems of the library\<close>

text \<open>The objects of \<open>Modem_Linear\<close> as an instance of \<open>modem_api\<close>; schemes that are not of that theory are not created.\<close>

definition made_modem :: "modem_s \<Rightarrow> bool" where
  "made_modem q \<longleftrightarrow> (\<exists>q0 r h. linear_modem_create (lm_scheme q) = Some q0 \<and> linear_ok q0 \<and> lm_scheme q0 = lm_scheme q \<and>
     q = q0\<lparr>lm_r := r, lm_x_hat := h\<rparr>)"

lemma made_modem_update:
  assumes "made_modem q"
  shows "made_modem (q\<lparr>lm_x_hat := h, lm_r := r\<rparr>)"
proof -
  from assms obtain q0 r0 h0 where q: "linear_modem_create (lm_scheme q) = Some q0" "linear_ok q0" "lm_scheme q0 = lm_scheme q"
    "q = q0\<lparr>lm_r := r0, lm_x_hat := h0\<rparr>" unfolding made_modem_def by blast
  have "q\<lparr>lm_x_hat := h, lm_r := r\<rparr> = q0\<lparr>lm_r := r, lm_x_hat := h\<rparr>" unfolding q(4) by simp
  moreover have "lm_scheme (q\<lparr>lm_x_hat := h, lm_r := r\<rparr>) = lm_scheme q" by simp
  ultimately show ?thesis unfolding made_modem_def using q(1-3) by metis
qed

lemma made_modem_created:
  assumes "linear_modem_create s = Some q" and "lm_scheme q = s" and "linear_ok q"
  shows "made_modem q"
proof -
  have "q = q\<lparr>lm_r := lm_r q, lm_x_hat := lm_x_hat q\<rparr>" by (cases q) (simp only: modem_s.simps)
  with assms show ?thesis unfolding made_modem_def by metis
qed

lemma made_modem_demodulate: "made_modem q \<Longrightarrow> made_modem (snd (modem_demodulate q y))"
  by (auto simp: modem_demodulate_def demodulate_bpsk_def demodulate_qpsk_def demodulate_ook_def demodulate_ask_def demodulate_qam_def
    demodulate_psk_def Let_def made_modem_update split: modem_fun.split prod.split)

typedef made = "{q. made_modem q}"
proof -
  obtain q where "linear_modem_create MODEM_BPSK = Some q" "lm_scheme q = MODEM_BPSK" "linear_ok q"
    using create_ok [of MODEM_BPSK] by (auto simp: linear_scheme_def)
  then have "made_modem q" by (rule made_modem_created)
  then show ?thesis by blast
qed

definition linear_modems :: "(made, complex) modem_api" where
  "linear_modems = \<lparr>api_create = (\<lambda>s. map_option Abs_made (linear_modem_create s)), api_scheme = (\<lambda>m. lm_scheme (Rep_made m)),
     api_size = (\<lambda>m. lm_M (Rep_made m)), api_modulate = (\<lambda>m v. map_option (\<lambda>x. (x, m)) (modem_modulate (Rep_made m) v)),
     api_demodulate = (\<lambda>m y. map_prod id Abs_made (modem_demodulate (Rep_made m) y))\<rparr>"

definition schemes_with_margin :: "real \<Rightarrow> modulation_scheme set" where
  "schemes_with_margin d = {s. \<exists>q. linear_modem_create s = Some q \<and> lm_scheme q = s \<and> linear_ok q \<and> d \<le> margin q}"

lemma linear_modems_clean: "clean_modems linear_modems (schemes_with_margin d) (\<lambda>x y. cmod (y - x) < d)"
proof -
  have made: "\<exists>r h. Rep_made m = q\<lparr>lm_r := r, lm_x_hat := h\<rparr>" if "linear_modem_create (lm_scheme (Rep_made m)) = Some q" for m q
    using Rep_made [of m] that by (auto simp: made_modem_def)
  have size: "lm_M q = 2 ^ modem_bps (lm_scheme q)" if "linear_ok q" for q using that by (simp add: linear_ok_def)
  have "\<exists>m. api_create linear_modems s = Some m \<and> api_scheme linear_modems m = s" if "s \<in> schemes_with_margin d" for s
    using that made_modem_created by (fastforce simp: schemes_with_margin_def linear_modems_def Abs_made_inverse)
  moreover have "api_size linear_modems m = 2 ^ modem_bps (api_scheme linear_modems m) \<and>
      (\<forall>v < api_size linear_modems m. \<exists>x m'. api_modulate linear_modems m v = Some (x, m') \<and>
        api_scheme linear_modems m' = api_scheme linear_modems m \<and>
        carries_sym linear_modems (\<lambda>x y. cmod (y - x) < d) (api_scheme linear_modems m) x v)"
    if "api_scheme linear_modems m \<in> schemes_with_margin d" for m
  proof -
    from that obtain q where q: "linear_modem_create (lm_scheme (Rep_made m)) = Some q" "lm_scheme q = lm_scheme (Rep_made m)"
      "linear_ok q" "d \<le> margin q" by (auto simp: schemes_with_margin_def linear_modems_def)
    have same: "linear_ok (Rep_made r)" "margin (Rep_made r) = margin q" "lm_m (Rep_made r) = lm_m q"
      "modulate_by (lm_fun (Rep_made r)) (Rep_made r) = modulate_by (lm_fun q) q" if "lm_scheme (Rep_made r) = lm_scheme q" for r
      using made [of r q] that q(1-3) by auto
    have "carries_sym linear_modems (\<lambda>x y. cmod (y - x) < d) (lm_scheme q) (point q v) v" if v: "v < 2 ^ lm_m q" for v
    proof -
      have "\<exists>r'. api_demodulate linear_modems r y = (v, r') \<and> lm_scheme (Rep_made r') = lm_scheme q"
        if "lm_scheme (Rep_made r) = lm_scheme q" "cmod (y - point q v) < d" for r y
      proof -
        from decides [OF same(1) [OF that(1)], of v y] have
          "modem_demodulate (Rep_made r) y = (v, (Rep_made r)\<lparr>lm_x_hat := point q v, lm_r := y\<rparr>)"
          using same(2-4) [OF that(1)] v that(2) q(4) by simp
        moreover have "made_modem ((Rep_made r)\<lparr>lm_x_hat := point q v, lm_r := y\<rparr>)"
          using made_modem_update Rep_made [of r] by simp
        ultimately show ?thesis using that(1) by (simp add: linear_modems_def Abs_made_inverse)
      qed
      then show ?thesis by (auto simp: carries_sym_def linear_modems_def)
    qed
    moreover have "lm_M (Rep_made m) = 2 ^ modem_bps (lm_scheme (Rep_made m))" "modem_bps (lm_scheme q) = lm_m q"
      using size [OF same(1) [of m]] q(2,3) by (simp_all add: linear_ok_def)
    ultimately show ?thesis
      using q(2) modem_modulate_point [OF same(1) [of m]] same(3,4) [of m] by (simp add: linear_modems_def)
  qed
  ultimately show ?thesis unfolding clean_modems_def by blast
qed

lemma bpsk_qpsk_margin: "{MODEM_BPSK, MODEM_QPSK} \<subseteq> schemes_with_margin (1 / 2)"
proof -
  have "1 / 2 \<le> M_SQRT1_2" using real_sqrt_le_iff [of 2 4] by (simp add: M_SQRT1_2_def field_simps)
  then show ?thesis
    by (simp add: schemes_with_margin_def linear_modem_create_def modem_create_bpsk_def modem_create_qpsk_def init_small modem_reset_def
      linear_ok_def margin_def)
qed

text \<open>Eight subcarriers, of which two are null, two are pilots and four carry data.\<close>

abbreviation alloc8 :: bytes where
  "alloc8 \<equiv> [0, 2, 1, 2, 0, 2, 1, 2]"

lemma alloc8_created: "ofdmframegen_create 8 2 1 alloc8 = Some (2, 2, 4)"
proof -
  obtain m where m: "S0_order 8 = Some m" "4 \<le> m" "m \<le> 8" using S0_order_some [of 8] by auto
  obtain ms where ms: "msequence_create_default m = Some ms" using created_order [of m] m by auto
  obtain ms' where ms': "msequence_create_default (m + 1) = Some ms'" using created_order [of "m + 1"] m by auto
  have n: "length (filter (\<lambda>i. alloc8 ! i \<noteq> 0 \<and> even i) [0..<8]) = 2" "length (filter (\<lambda>i. alloc8 ! i \<noteq> 0) [0..<8]) = 6"
    "length (filter (\<lambda>i. alloc8 ! i = 0) [0..<8]) = 2" by (simp_all add: upt_rec)
  have "ofdmframe_validate_sctype alloc8 8 = Some (2, 2, 4)"
    by (simp add: ofdmframe_validate_sctype_def upt_rec OFDMFRAME_SCTYPE_NULL_def OFDMFRAME_SCTYPE_PILOT_def OFDMFRAME_SCTYPE_DATA_def)
  moreover have "\<exists>x. ofdmframe_init_S0 alloc8 8 = Some x" "\<exists>x. ofdmframe_init_S1 alloc8 8 = Some x"
    using m ms ms' n S0_loop_eq [of alloc8 0 8 ms "[]" 0] S1_loop_eq [of alloc8 0 8 ms' "[]" 0]
    by (simp_all add: ofdmframe_init_S0_def ofdmframe_init_S1_def Let_def del: upt_rec_numeral)
  ultimately show ?thesis by (auto simp: ofdmframegen_create_def)
qed

theorem ofdm_frames_delivered_witness:
  "\<exists>g q xss g' es q'.
    ofdmflexframegen_create linear_modems (\<lambda>_. fec_pass_create) (\<lambda>n. replicate n 0) 8 2 1 (Some alloc8)
      (Some \<lparr>fp_check = CRC_16, fp_fec0 = FEC_HAMMING128, fp_fec1 = FEC_REP3, fp_mod_scheme = MODEM_QPSK\<rparr>) = Some g \<and>
    ofdmflexframesync_create linear_modems (\<lambda>_. fec_pass_create) (\<lambda>n. replicate n 1) 8 2 (Some alloc8) True = Some q \<and>
    send_frames linear_modems (\<lambda>_. fec_pass_create) (\<lambda>n. replicate n 0) (\<lambda>_ _ i. i) g
      [([1, 2, 3, 4, 5, 6, 7, 8], [9, 10, 11]), (replicate 8 12, [])] = Some (xss, g') \<and>
    receive linear_modems (\<lambda>_. fec_pass_create) (\<lambda>n. replicate n 1) q
      (map (map (\<lambda>x. x + 1 / 4)) (data_symbols (concat xss))) = Some (es, q') \<and>
    map ev_payload es = [Some [9, 10, 11], Some []] \<and> map (take 8 \<circ> ev_header) es = [[1, 2, 3, 4, 5, 6, 7, 8], replicate 8 12]"
proof -
  let ?pr = "\<lparr>fp_check = CRC_16, fp_fec0 = FEC_HAMMING128, fp_fec1 = FEC_REP3, fp_mod_scheme = MODEM_QPSK\<rparr>"
  let ?A = linear_modems and ?L = "\<lambda>_. fec_pass_create" and ?m = "\<lambda>n. replicate n (0 :: u8)" and ?m' = "\<lambda>n. replicate n (1 :: u8)"
  let ?fs = "[([1, 2, 3, 4, 5, 6, 7, 8], [9, 10, 11]), (replicate 8 12, [])] :: (bytes \<times> bytes) list"
  let ?S = "schemes_with_margin (1 / 2)" and ?near = "\<lambda>x y. cmod (y - x) < 1 / 2"
  have S: "{MODEM_BPSK, MODEM_QPSK} \<subseteq> ?S" by (rule bpsk_qpsk_margin)
  have pr: "props_ok ?S ?pr" using S by (simp add: props_ok_def block_scheme_def)
  have mem: "mem_ok ?m" "mem_ok ?m'" by (simp_all add: mem_ok_def)
  have p: "given_or_default 8 (Some alloc8) = Some alloc8" by (simp add: given_or_default_def read_bytes_def)
  have ok: "\<forall>(hdr, payload) \<in> set ?fs. length hdr = 8 \<and> length payload < 2 ^ 16 \<and> 0 < length payload + crc_get_length (fp_check ?pr)"
    by simp
  from ofdm_frames_delivered [OF linear_modems_clean S pr mem p alloc8_created, of ?L] obtain g q where
    g: "ofdmflexframegen_create ?A ?L ?m 8 2 1 (Some alloc8) (Some ?pr) = Some g"
    and q: "ofdmflexframesync_create ?A ?L ?m' 8 2 (Some alloc8) True = Some q"
    and all: "\<forall>rnd frames. (\<forall>(hdr, payload) \<in> set frames. length hdr = 8 \<and> length payload < 2 ^ 16 \<and>
        0 < length payload + crc_get_length (fp_check ?pr)) \<longrightarrow>
      (\<exists>xss g'. send_frames ?A ?L ?m rnd g frames = Some (xss, g') \<and> length xss = length frames \<and> list_all frame_shape xss \<and>
        (\<forall>Ys. list_all2 (near_symbol ?near alloc8) (data_symbols (concat xss)) Ys \<longrightarrow>
          (\<exists>es q'. receive ?A ?L ?m' q Ys = Some (es, q') \<and> list_all2 (delivers ?pr) frames es)))" by blast
  from all [THEN spec, THEN spec, THEN mp, OF ok] obtain xss g' where
    s: "send_frames ?A ?L ?m (\<lambda>_ _ i. i) g ?fs = Some (xss, g')"
    and r: "\<forall>Ys. list_all2 (near_symbol ?near alloc8) (data_symbols (concat xss)) Ys \<longrightarrow>
      (\<exists>es q'. receive ?A ?L ?m' q Ys = Some (es, q') \<and> list_all2 (delivers ?pr) ?fs es)" by blast
  let ?Ys = "map (map (\<lambda>x. x + 1 / 4)) (data_symbols (concat xss))"
  have "list_all2 (near_symbol ?near alloc8) (data_symbols (concat xss)) ?Ys"
    by (simp add: list.rel_map near_symbol_def norm_divide list_all2_same)
  with r obtain es q' where e: "receive ?A ?L ?m' q ?Ys = Some (es, q')" "list_all2 (delivers ?pr) ?fs es" by blast
  from e(2) have "map ev_payload es = [Some [9, 10, 11], Some []]" "map (take 8 \<circ> ev_header) es = [[1, 2, 3, 4, 5, 6, 7, 8], replicate 8 12]"
    by (auto simp: list_all2_Cons1 delivers_def)
  with g q s e(1) show ?thesis
    by - (rule exI [of _ g], rule exI [of _ q], rule exI [of _ xss], rule exI [of _ g'], rule exI [of _ es], rule exI [of _ q'],
      intro conjI)
qed

end
