(* ===== verification/Fh_Seq_Generator.thy ===== *)
theory Fh_Seq_Generator
  imports Radio_Prelude
begin

text \<open>
  \<^verbatim>\<open>ofdm_radio/src/FhSeqGenerator.cc\<close>: the sequence of frequency-table indices a radio hops through. \<open>None\<close> is a
  run that does not come to its end: \<open>exit\<close>, a write beyond a table, or a loop that never ends. Loops
  with a fixed range are recursions over the list of their indices. The theorems: the sequence of
  every algorithm in closed form, every hop cycle visits all pairs of frequencies exactly once,
  generation hangs when a table is empty, and scrubbing brings every index into range.
\<close>

section \<open>State\<close>

datatype fh_alg = FH_SEQ_NONE | FH_SEQ_ONE | FH_SEQ_TOGGLE | FH_SEQ_RESTART_SWEEP_RF | FH_SEQ_RESTART_SWEEP_DSP
  | FH_SEQ_RESTART_SWEEP_RFDSP | FH_SEQ_RESTART_SWEEP_DSPRF | FH_SEQ_RESTART_ALG_A | FH_SEQ_RESTART_ALG_B | FH_SEQ_TEST

record fsg =
  seq_algorithm :: fh_alg
  num_seq_steps :: nat
  rf_table_size :: nat
  dsp_table_size :: nat
  rf_idx_table :: "nat list"
  dsp_idx_table :: "nat list"
  rf_seq_state :: nat
  dsp_seq_state :: nat
  fh_seq_generations :: nat
  fh_state_resets :: nat
  scrub_requests :: nat
  scrub_repaired_rf :: nat
  scrub_repaired_dsp :: nat

definition resetFhSeqState :: "fsg \<Rightarrow> fsg" where
  "resetFhSeqState g = g\<lparr>rf_seq_state := 0, dsp_seq_state := 0, fh_state_resets := wrap32 (fh_state_resets g + 1)\<rparr>"

definition resetFsgStats :: "fsg \<Rightarrow> fsg" where
  "resetFsgStats g = g\<lparr>fh_seq_generations := 0, fh_state_resets := 0, scrub_requests := 0, scrub_repaired_rf := 0,
     scrub_repaired_dsp := 0\<rparr>"

text \<open>\<open>junk\<close> is the object before its construction, whose counters the first reset reads.\<close>

definition FhSeqGenerator :: "fsg \<Rightarrow> fh_alg \<Rightarrow> nat \<Rightarrow> nat \<Rightarrow> nat \<Rightarrow> nat \<Rightarrow> fsg option" where
  "FhSeqGenerator junk alg steps rf_size dsp_size channels =
     (if channels > 1 then None
      else Some (resetFsgStats (resetFhSeqState
        (junk\<lparr>seq_algorithm := alg, num_seq_steps := steps, rf_table_size := rf_size, dsp_table_size := dsp_size,
              rf_idx_table := replicate steps 0, dsp_idx_table := replicate steps 0\<rparr>))))"

section \<open>Writing the tables\<close>

definition write_at :: "'a list \<Rightarrow> nat \<Rightarrow> 'a \<Rightarrow> 'a list option" where
  "write_at xs i v = (if i < length xs then Some (xs[i := v]) else None)"

definition put_idx :: "nat \<Rightarrow> nat \<Rightarrow> nat \<Rightarrow> fsg \<Rightarrow> fsg option" where
  "put_idx seq_ctr rf dsp g = do {
     rf_t \<leftarrow> write_at (rf_idx_table g) seq_ctr rf;
     dsp_t \<leftarrow> write_at (dsp_idx_table g) seq_ctr dsp;
     Some (g\<lparr>rf_idx_table := rf_t, dsp_idx_table := dsp_t\<rparr>)
   }"

fun const_loop :: "nat \<Rightarrow> nat list \<Rightarrow> fsg \<Rightarrow> fsg option" where
  "const_loop v [] g = Some g"
| "const_loop v (k # ks) g = do { g1 \<leftarrow> put_idx k 0 v g; const_loop v ks g1 }"

fun toggle_loop :: "nat list \<Rightarrow> fsg \<Rightarrow> fsg option" where
  "toggle_loop [] g = Some g"
| "toggle_loop (k # ks) g = do {
     g1 \<leftarrow> put_idx k 0 (if dsp_idx_table g ! (k - 1) = 1 then 2 else 1) g;
     toggle_loop ks g1
   }"

fun sweep_rf_loop :: "nat list \<Rightarrow> fsg \<Rightarrow> fsg option" where
  "sweep_rf_loop [] g = Some g"
| "sweep_rf_loop (k # ks) g = do {
     g1 \<leftarrow> put_idx k (rf_seq_state g) 0 g;
     let s = rf_seq_state g + 1;
     sweep_rf_loop ks (g1\<lparr>rf_seq_state := (if s \<ge> rf_table_size g then 0 else s)\<rparr>)
   }"

fun sweep_dsp_loop :: "nat list \<Rightarrow> fsg \<Rightarrow> fsg option" where
  "sweep_dsp_loop [] g = Some g"
| "sweep_dsp_loop (k # ks) g = do {
     g1 \<leftarrow> put_idx k 0 (dsp_seq_state g) g;
     let s = dsp_seq_state g + 1;
     sweep_dsp_loop ks (g1\<lparr>dsp_seq_state := (if s \<ge> dsp_table_size g then 0 else s)\<rparr>)
   }"

section \<open>Nested sweeps\<close>

text \<open>
  The code has the nest of three loops four times: with the RF index in the outer loop and the DSP
  index in the inner one (\<open>rf_outer\<close>) or the other way round, and with the loop counters themselves or
  the entries of the permutation arrays they select as indices (\<open>fr\<close> and \<open>fd\<close>).
\<close>

definition set_outer :: "bool \<Rightarrow> nat \<Rightarrow> fsg \<Rightarrow> fsg" where
  "set_outer rf_outer i g = (if rf_outer then g\<lparr>rf_seq_state := i\<rparr> else g\<lparr>dsp_seq_state := i\<rparr>)"

definition set_inner :: "bool \<Rightarrow> nat \<Rightarrow> fsg \<Rightarrow> fsg" where
  "set_inner rf_outer i g = (if rf_outer then g\<lparr>dsp_seq_state := i\<rparr> else g\<lparr>rf_seq_state := i\<rparr>)"

definition outer_size :: "bool \<Rightarrow> fsg \<Rightarrow> nat" where
  "outer_size rf_outer g = (if rf_outer then rf_table_size g else dsp_table_size g)"

definition inner_size :: "bool \<Rightarrow> fsg \<Rightarrow> nat" where
  "inner_size rf_outer g = (if rf_outer then dsp_table_size g else rf_table_size g)"

fun sweep_inner :: "bool \<Rightarrow> (nat \<Rightarrow> nat) \<Rightarrow> (nat \<Rightarrow> nat) \<Rightarrow> nat list \<Rightarrow> nat \<Rightarrow> fsg \<Rightarrow> (nat \<times> fsg) option" where
  "sweep_inner ro fr fd [] seq_ctr g = Some (seq_ctr, set_inner ro (inner_size ro g) g)"
| "sweep_inner ro fr fd (j # js) seq_ctr g = do {
     let g0 = set_inner ro j g;
     g1 \<leftarrow> put_idx seq_ctr (fr (rf_seq_state g0)) (fd (dsp_seq_state g0)) g0;
     if seq_ctr + 1 \<ge> num_seq_steps g then Some (seq_ctr + 1, g1)
     else sweep_inner ro fr fd js (seq_ctr + 1) g1
   }"

fun sweep_outer :: "bool \<Rightarrow> (nat \<Rightarrow> nat) \<Rightarrow> (nat \<Rightarrow> nat) \<Rightarrow> nat list \<Rightarrow> nat \<Rightarrow> fsg \<Rightarrow> (nat \<times> fsg) option" where
  "sweep_outer ro fr fd [] seq_ctr g = Some (seq_ctr, set_outer ro (outer_size ro g) g)"
| "sweep_outer ro fr fd (i # is) seq_ctr g = do {
     (c1, g1) \<leftarrow> sweep_inner ro fr fd [0..<inner_size ro g] seq_ctr (set_outer ro i g);
     if c1 \<ge> num_seq_steps g then Some (c1, g1)
     else sweep_outer ro fr fd is c1 g1
   }"

partial_function (option) sweep_while :: "bool \<Rightarrow> (nat \<Rightarrow> nat) \<Rightarrow> (nat \<Rightarrow> nat) \<Rightarrow> nat \<Rightarrow> fsg \<Rightarrow> fsg option" where
  [code]: "sweep_while ro fr fd seq_ctr g =
     (if seq_ctr < num_seq_steps g
      then do {
        (c1, g1) \<leftarrow> sweep_outer ro fr fd [0..<outer_size ro g] seq_ctr g;
        sweep_while ro fr fd c1 g1
      }
      else Some g)"

section \<open>Permutation arrays\<close>

text \<open>\<^verbatim>\<open>ceil(sqrt(n))\<close>, exact in double precision for 32-bit \<open>n\<close>.\<close>

definition ceil_sqrt :: "nat \<Rightarrow> nat" where
  "ceil_sqrt n = length (filter (\<lambda>k. k * k < n) [0..<n])"

fun small_loop :: "nat \<Rightarrow> nat list \<Rightarrow> nat list \<Rightarrow> nat list option" where
  "small_loop n [] arr = Some arr"
| "small_loop n (k # ks) arr = do { arr1 \<leftarrow> write_at arr k (n - k - 1); small_loop n ks arr1 }"

fun perm_inner :: "nat \<Rightarrow> nat \<Rightarrow> nat \<Rightarrow> nat list \<Rightarrow> nat \<Rightarrow> nat list \<Rightarrow> (nat \<times> nat list) option" where
  "perm_inner n stride offset [] idx_ctr arr = Some (idx_ctr, arr)"
| "perm_inner n stride offset (c # cs) idx_ctr arr =
     (let pick_idx = c * stride + offset
      in if pick_idx < n then do {
           arr1 \<leftarrow> write_at arr idx_ctr pick_idx;
           perm_inner n stride offset cs (idx_ctr + 1) arr1
         } else perm_inner n stride offset cs idx_ctr arr)"

fun perm_outer :: "nat \<Rightarrow> nat \<Rightarrow> nat list \<Rightarrow> nat \<Rightarrow> nat list \<Rightarrow> (nat \<times> nat list) option" where
  "perm_outer n stride [] idx_ctr arr = Some (idx_ctr, arr)"
| "perm_outer n stride (d # ds) idx_ctr arr = do {
     (k, arr1) \<leftarrow> perm_inner n stride d [0..<stride] idx_ctr arr;
     perm_outer n stride ds k arr1
   }"

text \<open>\<open>mem\<close> is what the allocated array holds at first.\<close>

definition seq_state2idx :: "nat list \<Rightarrow> nat \<Rightarrow> nat list option" where
  "seq_state2idx mem n =
     (if n < 4 then small_loop n [0..<n] mem
      else map_option snd (let stride = ceil_sqrt n in perm_outer n stride [0..<stride] 0 mem))"

section \<open>Generation\<close>

definition seq_of_alg :: "(nat \<Rightarrow> nat list) \<Rightarrow> fsg \<Rightarrow> fsg option" where
  "seq_of_alg mem g =
     (let steps = [0..<num_seq_steps g]; g0 = g\<lparr>rf_seq_state := 0, dsp_seq_state := 0\<rparr>
      in case seq_algorithm g of
           FH_SEQ_NONE \<Rightarrow> map_option (\<lambda>g. g\<lparr>rf_seq_state := 0, dsp_seq_state := 0\<rparr>) (const_loop 0 steps g)
         | FH_SEQ_ONE \<Rightarrow> map_option (\<lambda>g. g\<lparr>rf_seq_state := 0, dsp_seq_state := 0\<rparr>) (const_loop 1 steps g)
         | FH_SEQ_TOGGLE \<Rightarrow> do {
             g1 \<leftarrow> put_idx 0 0 1 g;
             g2 \<leftarrow> toggle_loop [1..<num_seq_steps g] g1;
             Some (g2\<lparr>rf_seq_state := 0, dsp_seq_state := 0\<rparr>)
           }
         | FH_SEQ_RESTART_SWEEP_RF \<Rightarrow> sweep_rf_loop steps g0
         | FH_SEQ_RESTART_SWEEP_DSP \<Rightarrow> sweep_dsp_loop steps g0
         | FH_SEQ_RESTART_SWEEP_RFDSP \<Rightarrow> sweep_while True (\<lambda>i. i) (\<lambda>i. i) 0 g0
         | FH_SEQ_RESTART_SWEEP_DSPRF \<Rightarrow> sweep_while False (\<lambda>i. i) (\<lambda>i. i) 0 g0
         | FH_SEQ_TEST \<Rightarrow> Some g
         | _ \<Rightarrow> do {
             rf_seq_state2idx \<leftarrow> seq_state2idx (mem (rf_table_size g)) (rf_table_size g);
             dsp_seq_state2idx \<leftarrow> seq_state2idx (mem (dsp_table_size g)) (dsp_table_size g);
             sweep_while (seq_algorithm g = FH_SEQ_RESTART_ALG_A) ((!) rf_seq_state2idx) ((!) dsp_seq_state2idx) 0 g0
           })"

definition makeSeq :: "(nat \<Rightarrow> nat list) \<Rightarrow> fsg \<Rightarrow> fsg option" where
  "makeSeq mem g = do {
     g1 \<leftarrow> seq_of_alg mem g;
     Some (g1\<lparr>fh_seq_generations := wrap32 (fh_seq_generations g1 + 1)\<rparr>)
   }"

definition getFhSeqRfIdx :: "fsg \<Rightarrow> nat \<Rightarrow> nat option" where
  "getFhSeqRfIdx g seq_step = (if seq_step \<ge> num_seq_steps g then None else Some (rf_idx_table g ! seq_step))"

definition getFhSeqDspIdx :: "fsg \<Rightarrow> nat \<Rightarrow> nat option" where
  "getFhSeqDspIdx g seq_step = (if seq_step \<ge> num_seq_steps g then None else Some (dsp_idx_table g ! seq_step))"

fun scrub_loop :: "nat list \<Rightarrow> fsg \<Rightarrow> fsg" where
  "scrub_loop [] g = g"
| "scrub_loop (k # ks) g =
     (let g1 = (if rf_idx_table g ! k \<ge> rf_table_size g
                then g\<lparr>rf_idx_table := (rf_idx_table g)[k := 0], scrub_repaired_rf := wrap32 (scrub_repaired_rf g + 1)\<rparr> else g);
          g2 = (if dsp_idx_table g1 ! k \<ge> dsp_table_size g1
                then g1\<lparr>dsp_idx_table := (dsp_idx_table g1)[k := 0], scrub_repaired_dsp := wrap32 (scrub_repaired_dsp g1 + 1)\<rparr> else g1)
      in scrub_loop ks g2)"

definition scrubSeq :: "fsg \<Rightarrow> fsg" where
  "scrubSeq g = scrub_loop [0..<num_seq_steps g] (g\<lparr>scrub_requests := wrap32 (scrub_requests g + 1)\<rparr>)"

section \<open>The permutation arrays are permutations\<close>

lemma ceil_sqrt_char: "k < ceil_sqrt n \<longleftrightarrow> k * k < n"
proof -
  have mono: "j * j < n" if "j \<le> k" "k * k < n" for j k
    using mult_le_mono [OF that(1) that(1)] that(2) by (rule le_less_trans)
  have lt: "k < n" if "k * k < n" for k using that le_square [of k] by linarith
  define S where "S = {k. k * k < n}"
  have sub: "S \<subseteq> {..<n}" unfolding S_def using lt by blast
  have fin: "finite S" by (rule finite_subset [OF sub]) simp
  have "set (filter (\<lambda>k. k * k < n) [0..<n]) = S" using sub by (auto simp: S_def)
  then have c: "ceil_sqrt n = card S"
    unfolding ceil_sqrt_def by (metis distinct_card distinct_filter distinct_upt)
  show ?thesis
  proof
    assume "k < ceil_sqrt n"
    show "k * k < n"
    proof (rule ccontr)
      assume k: "\<not> k * k < n"
      have "S \<subseteq> {..<k}"
      proof
        fix j assume "j \<in> S"
        then have "j * j < n" by (simp add: S_def)
        then have "\<not> k \<le> j" using k mono [of k j] by blast
        then show "j \<in> {..<k}" by simp
      qed
      then have "card S \<le> k" by (metis card_lessThan card_mono finite_lessThan)
      then show False using \<open>k < ceil_sqrt n\<close> c by simp
    qed
  next
    assume "k * k < n"
    then have "{..k} \<subseteq> S" using mono by (auto simp: S_def)
    then have "card {..k} \<le> card S" by (rule card_mono [OF fin])
    then show "k < ceil_sqrt n" using c by simp
  qed
qed

definition picks :: "nat \<Rightarrow> nat \<Rightarrow> nat list \<Rightarrow> nat \<Rightarrow> nat list" where
  "picks n stride cs d = filter (\<lambda>p. p < n) (map (\<lambda>c. c * stride + d) cs)"

definition fh_perm :: "nat \<Rightarrow> nat list" where
  "fh_perm n = (if n < 4 then rev [0..<n]
     else let s = ceil_sqrt n in concat (map (picks n s [0..<s]) [0..<s]))"

text \<open>\<open>overwrite arr k vs\<close> is \<open>arr\<close> with \<open>vs\<close> written from position \<open>k\<close> on.\<close>

definition overwrite :: "'a list \<Rightarrow> nat \<Rightarrow> 'a list \<Rightarrow> 'a list" where
  "overwrite arr k vs = take k arr @ vs @ drop (k + length vs) arr"

lemma overwrite_length [simp]: "k + length vs \<le> length arr \<Longrightarrow> length (overwrite arr k vs) = length arr"
  by (simp add: overwrite_def)

lemma overwrite_all: "length vs = length arr \<Longrightarrow> overwrite arr 0 vs = vs"
  by (simp add: overwrite_def)

lemma overwrite_Cons:
  "k + length (v # vs) \<le> length arr \<Longrightarrow> overwrite (arr[k := v]) (Suc k) vs = overwrite arr k (v # vs)"
  by (simp add: overwrite_def take_Suc_conv_app_nth)

lemma overwrite_append:
  "k + length (us @ vs) \<le> length arr \<Longrightarrow> overwrite (overwrite arr k us) (k + length us) vs = overwrite arr k (us @ vs)"
  by (simp add: overwrite_def ac_simps)

lemma perm_inner_run:
  "k + length (picks n stride cs d) \<le> length arr \<Longrightarrow>
   perm_inner n stride d cs k arr = Some (k + length (picks n stride cs d), overwrite arr k (picks n stride cs d))"
proof (induction cs arbitrary: k arr)
  case (Cons c cs)
  show ?case
  proof (cases "c * stride + d < n")
    case True
    then have p: "picks n stride (c # cs) d = (c * stride + d) # picks n stride cs d" by (simp add: picks_def)
    then have "perm_inner n stride d cs (Suc k) (arr[k := c * stride + d]) =
        Some (Suc k + length (picks n stride cs d), overwrite (arr[k := c * stride + d]) (Suc k) (picks n stride cs d))"
      using Cons.prems by (intro Cons.IH) simp
    then show ?thesis using True p Cons.prems overwrite_Cons [of k "c * stride + d" "picks n stride cs d" arr]
      by (simp add: write_at_def Let_def)
  next
    case False
    then have "picks n stride (c # cs) d = picks n stride cs d" by (simp add: picks_def)
    then show ?thesis using False Cons by simp
  qed
qed (simp add: picks_def overwrite_def)

lemma perm_outer_run:
  "k + length (concat (map (picks n stride [0..<stride]) ds)) \<le> length arr \<Longrightarrow>
   perm_outer n stride ds k arr =
     Some (k + length (concat (map (picks n stride [0..<stride]) ds)), overwrite arr k (concat (map (picks n stride [0..<stride]) ds)))"
proof (induction ds arbitrary: k arr)
  case (Cons d ds)
  then show ?case by (simp add: perm_inner_run overwrite_append add.assoc)
qed (simp add: overwrite_def)

lemma small_loop_run:
  "m \<le> n \<Longrightarrow> n \<le> length arr \<Longrightarrow>
   small_loop n [m..<n] arr = Some (overwrite arr m (map (\<lambda>k. n - k - 1) [m..<n]))"
proof (induction "n - m" arbitrary: m arr)
  case 0
  then show ?case by (simp add: overwrite_def)
next
  case (Suc x)
  then have m: "m < n" "[m..<n] = m # [Suc m..<n]" by (simp_all add: upt_conv_Cons)
  have "small_loop n [Suc m..<n] (arr[m := n - m - 1]) =
      Some (overwrite (arr[m := n - m - 1]) (Suc m) (map (\<lambda>k. n - k - 1) [Suc m..<n]))"
    using Suc.hyps(2) Suc.prems by (intro Suc.hyps(1)) auto
  then show ?case using m Suc.prems overwrite_Cons [of m "n - m - 1" "map (\<lambda>k. n - k - 1) [Suc m..<n]" arr]
    by (simp add: write_at_def)
qed

lemma rows_columns_set:
  assumes "n \<le> s * s"
  shows "set (concat (map (picks n s [0..<s]) [0..<s])) = {..<n}"
proof
  show "{..<n} \<subseteq> set (concat (map (picks n s [0..<s]) [0..<s]))"
  proof
    fix k assume "k \<in> {..<n}"
    then have k: "k < n" "k < s * s" using assms by auto
    then have s: "0 < s" by (cases s) auto
    have "k div s < s" using k(2) by (simp add: less_mult_imp_div_less)
    moreover have "k mod s < s" using s by simp
    moreover have "k = k div s * s + k mod s" by simp
    ultimately have "k \<in> set (picks n s [0..<s] (k mod s))" using k(1) by (force simp: picks_def)
    then show "k \<in> set (concat (map (picks n s [0..<s]) [0..<s]))" using \<open>k mod s < s\<close> by auto
  qed
qed (auto simp: picks_def)

lemma rows_columns_distinct: "distinct (concat (map (picks n s [0..<s]) [0..<d]))" if "d \<le> s"
  using that
proof (induction d)
  case (Suc d)
  have "distinct (picks n s [0..<s] d)" using Suc.prems by (auto simp: picks_def distinct_map inj_on_def intro!: distinct_filter)
  moreover have "p mod s = d" if "p \<in> set (picks n s [0..<s] d)" for p using that Suc.prems by (auto simp: picks_def)
  moreover have "p mod s < d" if "p \<in> set (concat (map (picks n s [0..<s]) [0..<d]))" for p
    using that Suc.prems by (auto simp: picks_def)
  ultimately show ?case using Suc by fastforce
qed simp

lemma fh_perm_permutation: "distinct (fh_perm n) \<and> set (fh_perm n) = {..<n} \<and> length (fh_perm n) = n"
proof -
  have "n \<le> ceil_sqrt n * ceil_sqrt n" using ceil_sqrt_char [of "ceil_sqrt n" n] by simp
  then have "distinct (fh_perm n) \<and> set (fh_perm n) = {..<n}"
    using rows_columns_set [of n "ceil_sqrt n"] rows_columns_distinct [of "ceil_sqrt n" "ceil_sqrt n" n]
    by (auto simp: fh_perm_def Let_def)
  then show ?thesis using distinct_card [of "fh_perm n"] by simp
qed

lemma seq_state2idx_eq: "length mem = n \<Longrightarrow> seq_state2idx mem n = Some (fh_perm n)"
proof -
  assume l: "length mem = n"
  show ?thesis
  proof (cases "n < 4")
    case True
    have "map (\<lambda>k. n - k - 1) [0..<n] = rev [0..<n]" by (rule nth_equalityI) (simp_all add: rev_nth)
    then show ?thesis using True l small_loop_run [of 0 n mem]
      by (simp add: seq_state2idx_def fh_perm_def overwrite_all)
  next
    case False
    then have p: "concat (map (picks n (ceil_sqrt n) [0..<ceil_sqrt n]) [0..<ceil_sqrt n]) = fh_perm n"
      by (simp add: fh_perm_def Let_def)
    have len: "length (fh_perm n) = n" using fh_perm_permutation by simp
    have "perm_outer n (ceil_sqrt n) [0..<ceil_sqrt n] 0 mem = Some (n, fh_perm n)"
      using perm_outer_run [of 0 n "ceil_sqrt n" "[0..<ceil_sqrt n]" mem] l
      unfolding p len by (simp add: overwrite_all len)
    then show ?thesis using False by (simp add: seq_state2idx_def Let_def)
  qed
qed

section \<open>The sequences in closed form\<close>

text \<open>The pair of indices at step \<open>k\<close>.\<close>

definition fh_index :: "fh_alg \<Rightarrow> nat \<Rightarrow> nat \<Rightarrow> nat \<Rightarrow> nat \<times> nat" where
  "fh_index alg rf dsp k =
     (case alg of
        FH_SEQ_NONE \<Rightarrow> (0, 0)
      | FH_SEQ_ONE \<Rightarrow> (0, 1)
      | FH_SEQ_TOGGLE \<Rightarrow> (0, if even k then 1 else 2)
      | FH_SEQ_RESTART_SWEEP_RF \<Rightarrow> (k mod rf, 0)
      | FH_SEQ_RESTART_SWEEP_DSP \<Rightarrow> (0, k mod dsp)
      | FH_SEQ_RESTART_SWEEP_RFDSP \<Rightarrow> (k div dsp mod rf, k mod dsp)
      | FH_SEQ_RESTART_SWEEP_DSPRF \<Rightarrow> (k mod rf, k div rf mod dsp)
      | FH_SEQ_RESTART_ALG_A \<Rightarrow> (fh_perm rf ! (k div dsp mod rf), fh_perm dsp ! (k mod dsp))
      | FH_SEQ_RESTART_ALG_B \<Rightarrow> (fh_perm rf ! (k mod rf), fh_perm dsp ! (k div rf mod dsp))
      | FH_SEQ_TEST \<Rightarrow> (0, 0))"

text \<open>What holds of the generator \<open>g\<close> made from \<open>g0\<close> when the first \<open>c\<close> steps are written.\<close>

definition filled :: "fsg \<Rightarrow> (nat \<Rightarrow> nat \<times> nat) \<Rightarrow> nat \<Rightarrow> fsg \<Rightarrow> bool" where
  "filled g0 spec c g \<longleftrightarrow>
     g = g0\<lparr>rf_idx_table := rf_idx_table g, dsp_idx_table := dsp_idx_table g,
            rf_seq_state := rf_seq_state g, dsp_seq_state := dsp_seq_state g\<rparr> \<and>
     length (rf_idx_table g) = num_seq_steps g0 \<and> length (dsp_idx_table g) = num_seq_steps g0 \<and>
     (\<forall>k<c. rf_idx_table g ! k = fst (spec k) \<and> dsp_idx_table g ! k = snd (spec k))"

definition tables_ok :: "fsg \<Rightarrow> bool" where
  "tables_ok g \<longleftrightarrow> length (rf_idx_table g) = num_seq_steps g \<and> length (dsp_idx_table g) = num_seq_steps g"

lemma filled_params:
  assumes "filled g0 spec c g"
  shows "num_seq_steps g = num_seq_steps g0" "rf_table_size g = rf_table_size g0" "dsp_table_size g = dsp_table_size g0"
    "fh_seq_generations g = fh_seq_generations g0"
proof -
  have g: "g = g0\<lparr>rf_idx_table := rf_idx_table g, dsp_idx_table := dsp_idx_table g,
            rf_seq_state := rf_seq_state g, dsp_seq_state := dsp_seq_state g\<rparr>"
    using assms by (simp add: filled_def)
  show "num_seq_steps g = num_seq_steps g0" "rf_table_size g = rf_table_size g0" "dsp_table_size g = dsp_table_size g0"
    "fh_seq_generations g = fh_seq_generations g0"
    by (subst g, simp)+
qed

lemma filled_start: "tables_ok g0 \<Longrightarrow> filled g0 spec 0 g0"
  by (simp add: filled_def tables_ok_def)

lemma filled_state: "filled g0 spec c g \<Longrightarrow> filled g0 spec c (g\<lparr>rf_seq_state := a\<rparr>) \<and> filled g0 spec c (g\<lparr>dsp_seq_state := b\<rparr>)"
  unfolding filled_def by (cases g, cases g0) simp

lemma filled_set:
  "filled g0 spec c g \<Longrightarrow> filled g0 spec c (set_inner ro i g)"
  "filled g0 spec c g \<Longrightarrow> filled g0 spec c (set_outer ro i g)"
  by (simp_all add: set_inner_def set_outer_def filled_state)

lemma put_filled:
  assumes "filled g0 spec c g" "c < num_seq_steps g0" "spec c = (a, b)"
  shows "\<exists>g'. put_idx c a b g = Some g' \<and> filled g0 spec (Suc c) g' \<and> rf_seq_state g' = rf_seq_state g \<and>
    dsp_seq_state g' = dsp_seq_state g"
proof -
  let ?g = "g\<lparr>rf_idx_table := (rf_idx_table g)[c := a], dsp_idx_table := (dsp_idx_table g)[c := b]\<rparr>"
  have "put_idx c a b g = Some ?g" using assms(1,2) by (simp add: put_idx_def write_at_def filled_def)
  moreover have "filled g0 spec (Suc c) ?g"
    using assms unfolding filled_def by (cases g, cases g0) (auto simp: nth_list_update less_Suc_eq)
  ultimately show ?thesis by simp
qed

lemma filled_cong: "filled g0 spec c g \<Longrightarrow> (\<And>k. k < c \<Longrightarrow> spec k = spec' k) \<Longrightarrow> filled g0 spec' c g"
  by (simp add: filled_def)

subsection \<open>Single loops\<close>

lemma const_loop_run:
  "filled g0 (\<lambda>_. (0, v)) c g \<Longrightarrow> c \<le> num_seq_steps g0 \<Longrightarrow>
   \<exists>g'. const_loop v [c..<num_seq_steps g0] g = Some g' \<and> filled g0 (\<lambda>_. (0, v)) (num_seq_steps g0) g'"
proof (induction "num_seq_steps g0 - c" arbitrary: c g)
  case (Suc x)
  then have c: "c < num_seq_steps g0" by simp
  obtain g1 where g1: "put_idx c 0 v g = Some g1" "filled g0 (\<lambda>_. (0, v)) (Suc c) g1"
    using put_filled [OF Suc.prems(1) c] by blast
  show ?case using Suc.hyps(1) [OF _ g1(2)] Suc.hyps(2) c g1(1) by (simp add: upt_conv_Cons)
qed simp

lemma toggle_loop_run:
  "filled g0 (fh_index FH_SEQ_TOGGLE rf dsp) (Suc c) g \<Longrightarrow> Suc c \<le> num_seq_steps g0 \<Longrightarrow>
   \<exists>g'. toggle_loop [Suc c..<num_seq_steps g0] g = Some g' \<and> filled g0 (fh_index FH_SEQ_TOGGLE rf dsp) (num_seq_steps g0) g'"
proof (induction "num_seq_steps g0 - Suc c" arbitrary: c g)
  case (Suc x)
  then have c: "Suc c < num_seq_steps g0" by simp
  have d: "dsp_idx_table g ! c = (if even c then 1 else 2)"
    using Suc.prems(1) by (simp add: filled_def fh_index_def)
  have sp: "fh_index FH_SEQ_TOGGLE rf dsp (Suc c) = (0, if dsp_idx_table g ! c = 1 then 2 else 1)"
    using d by (simp add: fh_index_def)
  obtain g1 where g1: "put_idx (Suc c) 0 (if dsp_idx_table g ! c = 1 then 2 else 1) g = Some g1"
    "filled g0 (fh_index FH_SEQ_TOGGLE rf dsp) (Suc (Suc c)) g1"
    using put_filled [OF Suc.prems(1) c sp] by blast
  have "[Suc c..<num_seq_steps g0] = Suc c # [Suc (Suc c)..<num_seq_steps g0]" using c by (simp add: upt_conv_Cons)
  then show ?case using Suc.hyps(1) [OF _ g1(2)] Suc.hyps(2) c g1(1) by simp
qed simp

lemma mod_step: "0 < m \<Longrightarrow> (if k mod m + 1 \<ge> m then 0 else k mod m + 1) = Suc k mod m" for k m :: nat
proof -
  assume "0 < m"
  then have "k mod m < m" by simp
  then show ?thesis by (auto simp: mod_Suc)
qed

lemma sweep_rf_run:
  "filled g0 (fh_index FH_SEQ_RESTART_SWEEP_RF (rf_table_size g0) dsp) c g \<Longrightarrow> c \<le> num_seq_steps g0 \<Longrightarrow> 0 < rf_table_size g0 \<Longrightarrow>
   rf_seq_state g = c mod rf_table_size g0 \<Longrightarrow>
   \<exists>g'. sweep_rf_loop [c..<num_seq_steps g0] g = Some g' \<and>
     filled g0 (fh_index FH_SEQ_RESTART_SWEEP_RF (rf_table_size g0) dsp) (num_seq_steps g0) g'"
proof (induction "num_seq_steps g0 - c" arbitrary: c g)
  case (Suc x)
  then have c: "c < num_seq_steps g0" by simp
  obtain g1 where g1: "put_idx c (rf_seq_state g) 0 g = Some g1"
    "filled g0 (fh_index FH_SEQ_RESTART_SWEEP_RF (rf_table_size g0) dsp) (Suc c) g1"
    using put_filled [OF Suc.prems(1) c, of "rf_seq_state g" 0] Suc.prems(4) by (auto simp: fh_index_def)
  have st: "(if rf_seq_state g + 1 \<ge> rf_table_size g then 0 else rf_seq_state g + 1) = Suc c mod rf_table_size g0"
    unfolding Suc.prems(4) filled_params(2) [OF Suc.prems(1)] by (rule mod_step [OF Suc.prems(3)])
  have "filled g0 (fh_index FH_SEQ_RESTART_SWEEP_RF (rf_table_size g0) dsp) (Suc c) (g1\<lparr>rf_seq_state := Suc c mod rf_table_size g0\<rparr>)"
    using filled_state [OF g1(2)] by blast
  moreover have "sweep_rf_loop [c..<num_seq_steps g0] g =
      sweep_rf_loop [Suc c..<num_seq_steps g0] (g1\<lparr>rf_seq_state := Suc c mod rf_table_size g0\<rparr>)"
    by (simp only: upt_conv_Cons [OF c] sweep_rf_loop.simps g1(1) Option.bind_lunit Let_def st)
  ultimately show ?case using Suc.hyps(1) Suc.hyps(2) Suc.prems(3) c by simp
qed simp

lemma sweep_dsp_run:
  "filled g0 (fh_index FH_SEQ_RESTART_SWEEP_DSP rf (dsp_table_size g0)) c g \<Longrightarrow> c \<le> num_seq_steps g0 \<Longrightarrow> 0 < dsp_table_size g0 \<Longrightarrow>
   dsp_seq_state g = c mod dsp_table_size g0 \<Longrightarrow>
   \<exists>g'. sweep_dsp_loop [c..<num_seq_steps g0] g = Some g' \<and>
     filled g0 (fh_index FH_SEQ_RESTART_SWEEP_DSP rf (dsp_table_size g0)) (num_seq_steps g0) g'"
proof (induction "num_seq_steps g0 - c" arbitrary: c g)
  case (Suc x)
  then have c: "c < num_seq_steps g0" by simp
  obtain g1 where g1: "put_idx c 0 (dsp_seq_state g) g = Some g1"
    "filled g0 (fh_index FH_SEQ_RESTART_SWEEP_DSP rf (dsp_table_size g0)) (Suc c) g1"
    using put_filled [OF Suc.prems(1) c, of 0 "dsp_seq_state g"] Suc.prems(4) by (auto simp: fh_index_def)
  have st: "(if dsp_seq_state g + 1 \<ge> dsp_table_size g then 0 else dsp_seq_state g + 1) = Suc c mod dsp_table_size g0"
    unfolding Suc.prems(4) filled_params(3) [OF Suc.prems(1)] by (rule mod_step [OF Suc.prems(3)])
  have "filled g0 (fh_index FH_SEQ_RESTART_SWEEP_DSP rf (dsp_table_size g0)) (Suc c) (g1\<lparr>dsp_seq_state := Suc c mod dsp_table_size g0\<rparr>)"
    using filled_state [OF g1(2)] by blast
  moreover have "sweep_dsp_loop [c..<num_seq_steps g0] g =
      sweep_dsp_loop [Suc c..<num_seq_steps g0] (g1\<lparr>dsp_seq_state := Suc c mod dsp_table_size g0\<rparr>)"
    by (simp only: upt_conv_Cons [OF c] sweep_dsp_loop.simps g1(1) Option.bind_lunit Let_def st)
  ultimately show ?case using Suc.hyps(1) Suc.hyps(2) Suc.prems(3) c by simp
qed simp

subsection \<open>Nested loops\<close>

definition outer_state :: "bool \<Rightarrow> fsg \<Rightarrow> nat" where
  "outer_state ro g = (if ro then rf_seq_state g else dsp_seq_state g)"

text \<open>The pair the nested loops write at step \<open>k\<close>, for outer and inner loops of \<open>no\<close> and \<open>ni\<close> rounds.\<close>

definition nest_index :: "bool \<Rightarrow> (nat \<Rightarrow> nat) \<Rightarrow> (nat \<Rightarrow> nat) \<Rightarrow> nat \<Rightarrow> nat \<Rightarrow> nat \<Rightarrow> nat \<times> nat" where
  "nest_index ro fr fd no ni k =
     (if ro then (fr (k div ni mod no), fd (k mod ni)) else (fr (k mod ni), fd (k div ni mod no)))"

lemma state_set_inner [simp]:
  "outer_state ro (set_inner ro i g) = outer_state ro g"
  "num_seq_steps (set_inner ro i g) = num_seq_steps g" "inner_size ro (set_inner ro i g) = inner_size ro g"
  "num_seq_steps (set_outer ro i g) = num_seq_steps g" "inner_size ro (set_outer ro i g) = inner_size ro g"
  "outer_state ro (set_outer ro i g) = i"
  by (simp_all add: outer_state_def set_inner_def set_outer_def inner_size_def)

lemma nest_pair:
  "outer_state ro g = c div ni mod no \<Longrightarrow> c mod ni = j \<Longrightarrow>
   nest_index ro fr fd no ni c = (fr (rf_seq_state (set_inner ro j g)), fd (dsp_seq_state (set_inner ro j g)))"
  by (auto simp: nest_index_def outer_state_def set_inner_def split: if_splits)

lemma sweep_inner_run:
  assumes "0 < ni" "ni = inner_size ro g0"
  shows "filled g0 (nest_index ro fr fd no ni) c g \<Longrightarrow> c < num_seq_steps g0 \<Longrightarrow> c mod ni = j \<Longrightarrow>
    outer_state ro g = c div ni mod no \<Longrightarrow>
    \<exists>c' g'. sweep_inner ro fr fd [j..<ni] c g = Some (c', g') \<and> filled g0 (nest_index ro fr fd no ni) c' g' \<and> c < c' \<and>
      (c' = num_seq_steps g0 \<or> c' < num_seq_steps g0 \<and> c' = (c div ni + 1) * ni)"
proof (induction "ni - j" arbitrary: c g j)
  case 0
  then have "ni \<le> c mod ni" by simp
  then show ?case using mod_less_divisor [OF assms(1), of c] by simp
next
  case (Suc x)
  then have j: "j < ni" by simp
  let ?g = "set_inner ro j g"
  have eq: "nest_index ro fr fd no ni c = (fr (rf_seq_state ?g), fd (dsp_seq_state ?g))" by (rule nest_pair [OF Suc.prems(4,3)])
  obtain g1 where g1: "put_idx c (fr (rf_seq_state ?g)) (fd (dsp_seq_state ?g)) ?g = Some g1"
    "filled g0 (nest_index ro fr fd no ni) (Suc c) g1" "rf_seq_state g1 = rf_seq_state ?g" "dsp_seq_state g1 = dsp_seq_state ?g"
    using put_filled [OF filled_set(1) [OF Suc.prems(1)] Suc.prems(2) eq] by blast
  have os: "outer_state ro g1 = c div ni mod no" 
    using g1(3,4) Suc.prems(4) by (cases ro) (simp_all add: outer_state_def set_inner_def)
  have l: "[j..<ni] = j # [Suc j..<ni]" using j by (simp add: upt_conv_Cons)
  have n: "num_seq_steps g = num_seq_steps g0" by (rule filled_params(1) [OF Suc.prems(1)])
  have ce: "c = c div ni * ni + j" using Suc.prems(3) div_mult_mod_eq [of c ni] by simp
  show ?case
  proof (cases "Suc c \<ge> num_seq_steps g0")
    case True
    then have "Suc c = num_seq_steps g0" using Suc.prems(2) by simp
    moreover have "sweep_inner ro fr fd [j..<ni] c g = Some (Suc c, g1)" using True g1(1) n l by (simp add: Let_def)
    ultimately show ?thesis using g1(2) by (intro exI [of _ "Suc c"] exI [of _ g1]) simp
  next
    case False
    then have run: "sweep_inner ro fr fd [j..<ni] c g = sweep_inner ro fr fd [Suc j..<ni] (Suc c) g1"
      using g1(1) n l by (simp add: Let_def)
    show ?thesis
    proof (cases "Suc j = ni")
      case True
      have "Suc c = (c div ni + 1) * ni" using ce True by (simp add: algebra_simps)
      moreover have "sweep_inner ro fr fd [Suc j..<ni] (Suc c) g1 = Some (Suc c, set_inner ro (inner_size ro g1) g1)"
        using True by simp
      ultimately show ?thesis using run False filled_set(1) [OF g1(2)]
        by (intro exI [of _ "Suc c"] exI [of _ "set_inner ro (inner_size ro g1) g1"]) simp
    next
      case inner: False
      then have m: "Suc c mod ni = Suc j" "Suc c div ni = c div ni"
        using Suc.prems(3) by (simp_all add: mod_Suc div_Suc)
      have x: "x = ni - Suc j" "Suc c < num_seq_steps g0" "outer_state ro g1 = Suc c div ni mod no"
        using Suc.hyps(2) False os m(2) by simp_all
      from Suc.hyps(1) [OF x(1) g1(2) x(2) m(1) x(3)] m(2)
      obtain c' g' where "sweep_inner ro fr fd [Suc j..<ni] (Suc c) g1 = Some (c', g')"
        "filled g0 (nest_index ro fr fd no ni) c' g'" "Suc c < c'"
        "c' = num_seq_steps g0 \<or> c' < num_seq_steps g0 \<and> c' = (c div ni + 1) * ni"
        by metis
      then show ?thesis using run by (intro exI [of _ c'] exI [of _ g']) simp
    qed
  qed
qed

lemma sweep_outer_run:
  assumes "0 < ni" "ni = inner_size ro g0" "0 < no" "no = outer_size ro g0"
  shows "filled g0 (nest_index ro fr fd no ni) c g \<Longrightarrow> c < num_seq_steps g0 \<Longrightarrow> c mod ni = 0 \<Longrightarrow> c div ni mod no = i \<Longrightarrow>
    \<exists>c' g'. sweep_outer ro fr fd [i..<no] c g = Some (c', g') \<and> filled g0 (nest_index ro fr fd no ni) c' g' \<and> c < c' \<and>
      (c' = num_seq_steps g0 \<or> c' < num_seq_steps g0 \<and> c' mod ni = 0 \<and> c' div ni mod no = 0)"
proof (induction "no - i" arbitrary: c g i)
  case 0
  then have "no \<le> c div ni mod no" by simp
  then show ?case using mod_less_divisor [OF assms(3), of "c div ni"] by simp
next
  case (Suc x)
  then have i: "i < no" by simp
  have l: "[i..<no] = i # [Suc i..<no]" using i by (simp add: upt_conv_Cons)
  have n: "num_seq_steps g = num_seq_steps g0" by (rule filled_params(1) [OF Suc.prems(1)])
  have isz: "inner_size ro g = ni" using filled_params(2,3) [OF Suc.prems(1)] assms(2) by (simp add: inner_size_def)
  obtain c1 g1 where g1: "sweep_inner ro fr fd [0..<ni] c (set_outer ro i g) = Some (c1, g1)"
    "filled g0 (nest_index ro fr fd no ni) c1 g1" "c < c1"
    "c1 = num_seq_steps g0 \<or> c1 < num_seq_steps g0 \<and> c1 = (c div ni + 1) * ni"
    using sweep_inner_run [OF assms(1,2) filled_set(2) [OF Suc.prems(1), where ro = ro and i = i] Suc.prems(2,3)] Suc.prems(4)
    by auto
  show ?case
  proof (cases "c1 \<ge> num_seq_steps g0")
    case True
    then show ?thesis using g1 n isz l by (intro exI [of _ c1] exI [of _ g1]) auto
  next
    case False
    then have run: "sweep_outer ro fr fd [i..<no] c g = sweep_outer ro fr fd [Suc i..<no] c1 g1" and
      c1: "c1 = (c div ni + 1) * ni" "c1 < num_seq_steps g0"
      using g1 n isz l by auto
    have m: "c1 mod ni = 0" "c1 div ni = Suc (c div ni)" using c1(1) assms(1) by simp_all
    show ?thesis
    proof (cases "Suc i = no")
      case True
      then have "c1 div ni mod no = 0" using m(2) Suc.prems(4) by (simp add: mod_Suc)
      moreover have "sweep_outer ro fr fd [Suc i..<no] c1 g1 = Some (c1, set_outer ro (outer_size ro g1) g1)" using True by simp
      ultimately show ?thesis using run c1(2) m(1) g1(3) filled_set(2) [OF g1(2)]
        by (intro exI [of _ c1] exI [of _ "set_outer ro (outer_size ro g1) g1"]) simp
    next
      case outer: False
      then have r: "c1 div ni mod no = Suc i" using m(2) Suc.prems(4) by (simp add: mod_Suc)
      have x: "x = no - Suc i" using Suc.hyps(2) by simp
      from Suc.hyps(1) [OF x g1(2) c1(2) m(1) r]
      obtain c' g' where "sweep_outer ro fr fd [Suc i..<no] c1 g1 = Some (c', g')"
        "filled g0 (nest_index ro fr fd no ni) c' g'" "c1 < c'"
        "c' = num_seq_steps g0 \<or> c' < num_seq_steps g0 \<and> c' mod ni = 0 \<and> c' div ni mod no = 0"
        by (elim exE conjE) (rule that)
      then show ?thesis using run g1(3) by (intro exI [of _ c'] exI [of _ g']) simp
    qed
  qed
qed

lemma sweep_while_run:
  assumes "0 < inner_size ro g0" "0 < outer_size ro g0"
  shows "filled g0 (nest_index ro fr fd (outer_size ro g0) (inner_size ro g0)) c g \<Longrightarrow> c \<le> num_seq_steps g0 \<Longrightarrow>
    c = num_seq_steps g0 \<or> c mod inner_size ro g0 = 0 \<and> c div inner_size ro g0 mod outer_size ro g0 = 0 \<Longrightarrow>
    \<exists>g'. sweep_while ro fr fd c g = Some g' \<and>
      filled g0 (nest_index ro fr fd (outer_size ro g0) (inner_size ro g0)) (num_seq_steps g0) g'"
proof (induction "num_seq_steps g0 - c" arbitrary: c g rule: less_induct)
  case less
  have n: "num_seq_steps g = num_seq_steps g0" by (rule filled_params(1) [OF less.prems(1)])
  have osz: "outer_size ro g = outer_size ro g0" using filled_params(2,3) [OF less.prems(1)] by (simp add: outer_size_def)
  show ?case
  proof (cases "c < num_seq_steps g0")
    case False
    then have "sweep_while ro fr fd c g = Some g" using n by (subst sweep_while.simps) simp
    then show ?thesis using False less.prems(1,2) by (intro exI [of _ g]) simp
  next
    case True
    then have m: "c mod inner_size ro g0 = 0" "c div inner_size ro g0 mod outer_size ro g0 = 0" using less.prems(3) by auto
    obtain c1 g1 where g1: "sweep_outer ro fr fd [0..<outer_size ro g0] c g = Some (c1, g1)"
      "filled g0 (nest_index ro fr fd (outer_size ro g0) (inner_size ro g0)) c1 g1" "c < c1"
      "c1 = num_seq_steps g0 \<or> c1 < num_seq_steps g0 \<and> c1 mod inner_size ro g0 = 0 \<and> c1 div inner_size ro g0 mod outer_size ro g0 = 0"
      using sweep_outer_run [OF assms(1) refl assms(2) refl less.prems(1) True m] by (elim exE conjE) (rule that)
    then have "sweep_while ro fr fd c g = sweep_while ro fr fd c1 g1"
      using True n osz by (subst sweep_while.simps) simp
    moreover have "num_seq_steps g0 - c1 < num_seq_steps g0 - c" "c1 \<le> num_seq_steps g0" using g1(3,4) True by auto
    ultimately show ?thesis using less.hyps [OF _ g1(2)] g1(4) by auto
  qed
qed

section \<open>Properties of generation\<close>

definition nested_alg :: "fh_alg \<Rightarrow> bool" where
  "nested_alg alg \<longleftrightarrow> alg \<in> {FH_SEQ_RESTART_SWEEP_RFDSP, FH_SEQ_RESTART_SWEEP_DSPRF, FH_SEQ_RESTART_ALG_A, FH_SEQ_RESTART_ALG_B}"

lemma filled_restart:
  "tables_ok g \<Longrightarrow> filled g spec 0 (g\<lparr>rf_seq_state := 0, dsp_seq_state := 0\<rparr>)"
  using filled_start [of g spec] filled_state [of g spec 0] by blast

lemma seq_of_alg_ok:
  assumes "tables_ok g" "0 < rf_table_size g" "0 < dsp_table_size g" "0 < num_seq_steps g" "seq_algorithm g \<noteq> FH_SEQ_TEST"
    "\<And>n. length (mem n) = n"
  shows "\<exists>g'. seq_of_alg mem g = Some g' \<and>
    filled g (fh_index (seq_algorithm g) (rf_table_size g) (dsp_table_size g)) (num_seq_steps g) g'"
proof -
  let ?g0 = "g\<lparr>rf_seq_state := 0, dsp_seq_state := 0\<rparr>"
  have while: "\<exists>g'. sweep_while ro fr fd 0 ?g0 = Some g' \<and>
      filled g (nest_index ro fr fd (outer_size ro g) (inner_size ro g)) (num_seq_steps g) g'" for ro fr fd
    using sweep_while_run [of ro g fr fd 0 ?g0] filled_restart [OF assms(1)] assms(2,3)
    by (simp add: inner_size_def outer_size_def)
  have clear: "filled g spec c h \<Longrightarrow> filled g spec c (h\<lparr>rf_seq_state := 0, dsp_seq_state := 0\<rparr>)" for spec c h
    using filled_state by blast
  show ?thesis
  proof (cases "seq_algorithm g")
    case FH_SEQ_NONE
    have "fh_index FH_SEQ_NONE (rf_table_size g) (dsp_table_size g) = (\<lambda>_. (0, 0))" by (simp add: fun_eq_iff fh_index_def)
    moreover obtain h where "const_loop 0 [0..<num_seq_steps g] g = Some h" "filled g (\<lambda>_. (0, 0)) (num_seq_steps g) h"
      using const_loop_run [OF filled_start [OF assms(1)], of 0] by auto
    ultimately show ?thesis using clear [of "\<lambda>_. (0, 0)"] FH_SEQ_NONE by (simp add: seq_of_alg_def Let_def)
  next
    case FH_SEQ_ONE
    have "fh_index FH_SEQ_ONE (rf_table_size g) (dsp_table_size g) = (\<lambda>_. (0, 1))" by (simp add: fun_eq_iff fh_index_def)
    moreover obtain h where "const_loop 1 [0..<num_seq_steps g] g = Some h" "filled g (\<lambda>_. (0, 1)) (num_seq_steps g) h"
      using const_loop_run [OF filled_start [OF assms(1)], of 1] by auto
    ultimately show ?thesis using clear [of "\<lambda>_. (0, 1)"] FH_SEQ_ONE by (simp add: seq_of_alg_def Let_def)
  next
    case FH_SEQ_TOGGLE
    let ?spec = "fh_index FH_SEQ_TOGGLE (rf_table_size g) (dsp_table_size g)"
    have "?spec 0 = (0, 1)" by (simp add: fh_index_def)
    then obtain g1 where g1: "put_idx 0 0 1 g = Some g1" "filled g ?spec (Suc 0) g1"
      using put_filled [OF filled_start [OF assms(1)] assms(4)] by blast
    obtain g2 where g2: "toggle_loop [Suc 0..<num_seq_steps g] g1 = Some g2" "filled g ?spec (num_seq_steps g) g2"
      using toggle_loop_run [OF g1(2)] assms(4) by auto
    then show ?thesis using g1(1) FH_SEQ_TOGGLE clear [OF g2(2)] by (simp add: seq_of_alg_def Let_def)
  next
    case FH_SEQ_RESTART_SWEEP_RF
    then show ?thesis using sweep_rf_run [OF filled_restart [OF assms(1)] _ assms(2)] by (simp add: seq_of_alg_def Let_def)
  next
    case FH_SEQ_RESTART_SWEEP_DSP
    then show ?thesis using sweep_dsp_run [OF filled_restart [OF assms(1)] _ assms(3)] by (simp add: seq_of_alg_def Let_def)
  next
    case FH_SEQ_RESTART_SWEEP_RFDSP
    have "nest_index True (\<lambda>i. i) (\<lambda>i. i) (outer_size True g) (inner_size True g) =
        fh_index FH_SEQ_RESTART_SWEEP_RFDSP (rf_table_size g) (dsp_table_size g)"
      by (simp add: fun_eq_iff nest_index_def fh_index_def outer_size_def inner_size_def)
    then show ?thesis using while [of True "\<lambda>i. i" "\<lambda>i. i"] FH_SEQ_RESTART_SWEEP_RFDSP by (simp add: seq_of_alg_def Let_def)
  next
    case FH_SEQ_RESTART_SWEEP_DSPRF
    have "nest_index False (\<lambda>i. i) (\<lambda>i. i) (outer_size False g) (inner_size False g) =
        fh_index FH_SEQ_RESTART_SWEEP_DSPRF (rf_table_size g) (dsp_table_size g)"
      by (simp add: fun_eq_iff nest_index_def fh_index_def outer_size_def inner_size_def)
    then show ?thesis using while [of False "\<lambda>i. i" "\<lambda>i. i"] FH_SEQ_RESTART_SWEEP_DSPRF by (simp add: seq_of_alg_def Let_def)
  next
    case FH_SEQ_RESTART_ALG_A
    let ?r = "(!) (fh_perm (rf_table_size g))" and ?d = "(!) (fh_perm (dsp_table_size g))"
    have "nest_index True ?r ?d (outer_size True g) (inner_size True g) =
        fh_index FH_SEQ_RESTART_ALG_A (rf_table_size g) (dsp_table_size g)"
      by (simp add: fun_eq_iff nest_index_def fh_index_def outer_size_def inner_size_def)
    then show ?thesis using while [of True ?r ?d] FH_SEQ_RESTART_ALG_A assms(6)
      by (simp add: seq_of_alg_def Let_def seq_state2idx_eq)
  next
    case FH_SEQ_RESTART_ALG_B
    let ?r = "(!) (fh_perm (rf_table_size g))" and ?d = "(!) (fh_perm (dsp_table_size g))"
    have "nest_index False ?r ?d (outer_size False g) (inner_size False g) =
        fh_index FH_SEQ_RESTART_ALG_B (rf_table_size g) (dsp_table_size g)"
      by (simp add: fun_eq_iff nest_index_def fh_index_def outer_size_def inner_size_def)
    then show ?thesis using while [of False ?r ?d] FH_SEQ_RESTART_ALG_B assms(6)
      by (simp add: seq_of_alg_def Let_def seq_state2idx_eq)
  qed (use assms(5) in simp)
qed

lemma makeSeq_ok:
  assumes "tables_ok g" "0 < rf_table_size g" "0 < dsp_table_size g" "0 < num_seq_steps g" "seq_algorithm g \<noteq> FH_SEQ_TEST"
    "\<And>n. length (mem n) = n"
  shows "\<exists>g'. makeSeq mem g = Some g' \<and> tables_ok g' \<and> num_seq_steps g' = num_seq_steps g \<and>
    rf_table_size g' = rf_table_size g \<and> dsp_table_size g' = dsp_table_size g \<and>
    (\<forall>k<num_seq_steps g. rf_idx_table g' ! k = fst (fh_index (seq_algorithm g) (rf_table_size g) (dsp_table_size g) k) \<and>
      dsp_idx_table g' ! k = snd (fh_index (seq_algorithm g) (rf_table_size g) (dsp_table_size g) k))"
proof -
  obtain h where h: "seq_of_alg mem g = Some h"
    "filled g (fh_index (seq_algorithm g) (rf_table_size g) (dsp_table_size g)) (num_seq_steps g) h"
    using seq_of_alg_ok [OF assms] by blast
  then show ?thesis using filled_params [OF h(2)] by (simp add: makeSeq_def tables_ok_def filled_def)
qed

text \<open>Every hop of the nested algorithms, and every pair of them within one cycle.\<close>

lemma fh_perm_less: "i < n \<Longrightarrow> fh_perm n ! i < n"
  using fh_perm_permutation [of n] nth_mem [of i "fh_perm n"] by auto

lemma fh_perm_inj: "i < n \<Longrightarrow> j < n \<Longrightarrow> fh_perm n ! i = fh_perm n ! j \<longleftrightarrow> i = j"
  using fh_perm_permutation [of n] by (simp add: nth_eq_iff_index_eq)

lemma nested_index_range:
  "nested_alg alg \<Longrightarrow> 0 < rf \<Longrightarrow> 0 < dsp \<Longrightarrow> fh_index alg rf dsp k \<in> {..<rf} \<times> {..<dsp}"
  by (auto simp: nested_alg_def fh_index_def fh_perm_less)

lemma mixed_radix_inj:
  fixes k l m n a :: nat
  assumes "0 < m" "0 < n" "k div m mod n = l div m mod n" "k mod m = l mod m" "a \<le> k" "k < l" "l < a + m * n"
  shows False
proof -
  have "k mod (m * n) = l mod (m * n)" by (simp only: mod_mult2_eq assms(3,4))
  then have "m * n dvd l - k" using assms(6) by (metis mod_eq_dvd_iff_nat less_imp_le)
  moreover have "0 < l - k" "l - k < m * n" using assms(5-7) by auto
  ultimately show False using nat_dvd_not_less by blast
qed

lemma nested_index_inj:
  assumes "nested_alg alg" "0 < rf" "0 < dsp" "fh_index alg rf dsp k = fh_index alg rf dsp l" "a \<le> k" "k < l" "l < a + rf * dsp"
  shows False
proof -
  have "k div dsp mod rf = l div dsp mod rf \<and> k mod dsp = l mod dsp \<or> k div rf mod dsp = l div rf mod dsp \<and> k mod rf = l mod rf"
    using assms(1-4) by (auto simp: nested_alg_def fh_index_def fh_perm_inj)
  then show False
    using mixed_radix_inj [OF assms(3,2) _ _ assms(5,6)] mixed_radix_inj [OF assms(2,3) _ _ assms(5,6)] assms(7)
    by (auto simp: mult.commute)
qed

lemma nested_index_cycle:
  assumes "nested_alg alg" "0 < rf" "0 < dsp"
  shows "distinct (map (fh_index alg rf dsp) [a..<a + rf * dsp]) \<and>
    set (map (fh_index alg rf dsp) [a..<a + rf * dsp]) = {..<rf} \<times> {..<dsp}"
proof -
  let ?f = "fh_index alg rf dsp" and ?A = "{a..<a + rf * dsp}"
  have inj: "inj_on ?f ?A"
    using nested_index_inj [OF assms] by (intro linorder_inj_onI) auto
  then have "card (?f ` ?A) = rf * dsp" by (simp add: card_image)
  moreover have "?f ` ?A \<subseteq> {..<rf} \<times> {..<dsp}" using nested_index_range [OF assms] by blast
  moreover have "card ({..<rf} \<times> {..<dsp}) = rf * dsp" by (simp add: card_cartesian_product)
  ultimately have "?f ` ?A = {..<rf} \<times> {..<dsp}" by (metis card_subset_eq finite_SigmaI finite_lessThan)
  then show ?thesis using inj by (simp add: distinct_map)
qed

definition fh_pair :: "fsg \<Rightarrow> nat \<Rightarrow> nat \<times> nat" where
  "fh_pair g k = (rf_idx_table g ! k, dsp_idx_table g ! k)"

text \<open>
  C9: for every algorithm but the test placeholder, tables of any positive sizes and at least one step,
  making the sequence ends without a write beyond a table, and the getters then give at every step
  the indices of the closed form (constant, alternating, counting modulo the table sizes, or the
  permutation arrays selected by a mixed-radix counter) and refuse every step after the last.
\<close>

theorem fh_sequence:
  assumes "tables_ok g" "0 < rf_table_size g" "0 < dsp_table_size g" "0 < num_seq_steps g" "seq_algorithm g \<noteq> FH_SEQ_TEST"
    "\<And>n. length (mem n) = n"
  shows "\<exists>g'. makeSeq mem g = Some g' \<and>
    (\<forall>k. getFhSeqRfIdx g' k = (if k < num_seq_steps g
        then Some (fst (fh_index (seq_algorithm g) (rf_table_size g) (dsp_table_size g) k)) else None) \<and>
      getFhSeqDspIdx g' k = (if k < num_seq_steps g
        then Some (snd (fh_index (seq_algorithm g) (rf_table_size g) (dsp_table_size g) k)) else None))"
  using makeSeq_ok [OF assms] by (auto simp: getFhSeqRfIdx_def getFhSeqDspIdx_def)

text \<open>
  C10: with the nested sweeps and with algorithms A and B the radio visits, in any run of as many steps
  as there are pairs of an RF and a DSP frequency, every pair exactly once, wherever the run starts.
\<close>

theorem fh_cycle_covers:
  assumes "tables_ok g" "0 < rf_table_size g" "0 < dsp_table_size g" "nested_alg (seq_algorithm g)"
    "\<And>n. length (mem n) = n" "a + rf_table_size g * dsp_table_size g \<le> num_seq_steps g"
  shows "\<exists>g'. makeSeq mem g = Some g' \<and>
    distinct (map (fh_pair g') [a..<a + rf_table_size g * dsp_table_size g]) \<and>
    set (map (fh_pair g') [a..<a + rf_table_size g * dsp_table_size g]) = {..<rf_table_size g} \<times> {..<dsp_table_size g}"
proof -
  have "0 < rf_table_size g * dsp_table_size g" using assms(2,3) by simp
  then have "0 < num_seq_steps g" using assms(6) by linarith
  moreover have "seq_algorithm g \<noteq> FH_SEQ_TEST" using assms(4) by (auto simp: nested_alg_def)
  ultimately obtain g' where g': "makeSeq mem g = Some g'"
    "\<forall>k<num_seq_steps g. fh_pair g' k = fh_index (seq_algorithm g) (rf_table_size g) (dsp_table_size g) k"
    using makeSeq_ok [OF assms(1-3) _ _ assms(5)] by (auto simp: fh_pair_def)
  have "map (fh_pair g') [a..<a + rf_table_size g * dsp_table_size g] =
      map (fh_index (seq_algorithm g) (rf_table_size g) (dsp_table_size g)) [a..<a + rf_table_size g * dsp_table_size g]"
    using g'(2) assms(6) by simp
  then show ?thesis using g'(1) nested_index_cycle [OF assms(4,2,3), of a] by metis
qed

lemma sweep_inner_empty:
  "inner_size ro g = 0 \<Longrightarrow> sweep_outer ro fr fd is c g = Some (c', g') \<Longrightarrow>
    c' = c \<and> num_seq_steps g' = num_seq_steps g \<and> rf_table_size g' = rf_table_size g \<and> dsp_table_size g' = dsp_table_size g"
proof (induction "is" arbitrary: g)
  case Nil
  then show ?case by (auto simp: set_outer_def)
next
  case (Cons i "is")
  then show ?case
    by (fastforce simp: set_outer_def set_inner_def inner_size_def split: if_splits)
qed

lemma sweep_while_diverges:
  assumes "sweep_while ro fr fd c g = Some r"
  shows "\<not> (c < num_seq_steps g \<and> (rf_table_size g = 0 \<or> dsp_table_size g = 0))"
proof (rule sweep_while.raw_induct
    [where P = "\<lambda>ro fr fd c g r. \<not> (c < num_seq_steps g \<and> (rf_table_size g = 0 \<or> dsp_table_size g = 0))", OF _ assms])
  fix sw :: "bool \<Rightarrow> (nat \<Rightarrow> nat) \<Rightarrow> (nat \<Rightarrow> nat) \<Rightarrow> nat \<Rightarrow> fsg \<Rightarrow> fsg option" and ro fr fd c and g r :: fsg
  assume ih: "\<And>ro fr fd c g r. sw ro fr fd c g = Some r \<Longrightarrow> \<not> (c < num_seq_steps g \<and> (rf_table_size g = 0 \<or> dsp_table_size g = 0))"
    and body: "(if c < num_seq_steps g
      then do { (c1, g1) \<leftarrow> sweep_outer ro fr fd [0..<outer_size ro g] c g; sw ro fr fd c1 g1 } else Some g) = Some r"
  show "\<not> (c < num_seq_steps g \<and> (rf_table_size g = 0 \<or> dsp_table_size g = 0))"
  proof
    assume e: "c < num_seq_steps g \<and> (rf_table_size g = 0 \<or> dsp_table_size g = 0)"
    with body obtain c1 g1 where s: "sweep_outer ro fr fd [0..<outer_size ro g] c g = Some (c1, g1)" "sw ro fr fd c1 g1 = Some r"
      by (auto split: if_splits Option.bind_splits)
    have "c1 = c \<and> num_seq_steps g1 = num_seq_steps g \<and> rf_table_size g1 = rf_table_size g \<and> dsp_table_size g1 = dsp_table_size g"
    proof (cases "inner_size ro g = 0")
      case True
      then show ?thesis using sweep_inner_empty [OF True s(1)] by simp
    next
      case False
      then have "outer_size ro g = 0" using e by (auto simp: inner_size_def outer_size_def split: if_splits)
      then show ?thesis using s(1) by (auto simp: set_outer_def)
    qed
    then show False using ih [OF s(2)] e by simp
  qed
qed

text \<open>
  C15: with an empty frequency table the nested sweeps and algorithms A and B never end: the outermost
  loop runs for ever without writing a step, so no sequence is made.
\<close>

theorem fh_sequence_diverges:
  assumes "nested_alg (seq_algorithm g)" "rf_table_size g = 0 \<or> dsp_table_size g = 0" "0 < num_seq_steps g"
    "\<And>n. length (mem n) = n"
  shows "makeSeq mem g = None"
proof -
  have "sweep_while ro fr fd 0 (g\<lparr>rf_seq_state := 0, dsp_seq_state := 0\<rparr>) = None" for ro fr fd
    using sweep_while_diverges [of ro fr fd 0 "g\<lparr>rf_seq_state := 0, dsp_seq_state := 0\<rparr>"] assms(2,3)
    by (cases "sweep_while ro fr fd 0 (g\<lparr>rf_seq_state := 0, dsp_seq_state := 0\<rparr>)") auto
  then show ?thesis using assms(1,4)
    by (auto simp: makeSeq_def seq_of_alg_def nested_alg_def Let_def seq_state2idx_eq)
qed

section \<open>Scrubbing\<close>

definition scrub_one :: "nat \<Rightarrow> fsg \<Rightarrow> fsg" where
  "scrub_one k g =
     (let g1 = (if rf_idx_table g ! k \<ge> rf_table_size g
                then g\<lparr>rf_idx_table := (rf_idx_table g)[k := 0], scrub_repaired_rf := wrap32 (scrub_repaired_rf g + 1)\<rparr> else g)
      in if dsp_idx_table g1 ! k \<ge> dsp_table_size g1
         then g1\<lparr>dsp_idx_table := (dsp_idx_table g1)[k := 0], scrub_repaired_dsp := wrap32 (scrub_repaired_dsp g1 + 1)\<rparr> else g1)"

lemma scrub_loop_fold: "scrub_loop ks g = fold scrub_one ks g"
  by (induction ks arbitrary: g) (simp_all add: scrub_one_def Let_def)

text \<open>What an index becomes by scrubbing.\<close>

definition clip :: "nat \<Rightarrow> nat \<Rightarrow> nat" where
  "clip len i = (if i \<ge> len then 0 else i)"

lemma clip_less: "i < len \<Longrightarrow> clip len i = i" and clip_range: "0 < len \<Longrightarrow> clip len i < len"
  by (simp_all add: clip_def)

text \<open>The generator after scrubbing the first \<open>c\<close> steps of \<open>g0\<close>.\<close>

definition scrubbed :: "fsg \<Rightarrow> nat \<Rightarrow> fsg \<Rightarrow> bool" where
  "scrubbed g0 c g \<longleftrightarrow> tables_ok g \<and> num_seq_steps g = num_seq_steps g0 \<and>
     rf_table_size g = rf_table_size g0 \<and> dsp_table_size g = dsp_table_size g0 \<and>
     (\<forall>k<num_seq_steps g0. rf_idx_table g ! k = (if k < c then clip (rf_table_size g0) (rf_idx_table g0 ! k) else rf_idx_table g0 ! k) \<and>
       dsp_idx_table g ! k = (if k < c then clip (dsp_table_size g0) (dsp_idx_table g0 ! k) else dsp_idx_table g0 ! k)) \<and>
     scrub_repaired_rf g = wrap32 (scrub_repaired_rf g0 + length (filter (\<lambda>k. rf_idx_table g0 ! k \<ge> rf_table_size g0) [0..<c])) \<and>
     scrub_repaired_dsp g = wrap32 (scrub_repaired_dsp g0 + length (filter (\<lambda>k. dsp_idx_table g0 ! k \<ge> dsp_table_size g0) [0..<c]))"

lemma wrap32_Suc: "wrap32 (wrap32 n + 1) = wrap32 (n + 1)"
  by (simp add: wrap32_def mod_Suc_eq)

lemma scrub_one_scrubbed: "scrubbed g0 c g \<Longrightarrow> c < num_seq_steps g0 \<Longrightarrow> scrubbed g0 (Suc c) (scrub_one c g)"
  using wrap32_Suc
  by (auto simp: scrubbed_def scrub_one_def tables_ok_def clip_def Let_def nth_list_update less_Suc_eq)

lemma scrub_fold: "scrubbed g0 0 g \<Longrightarrow> c \<le> num_seq_steps g0 \<Longrightarrow> scrubbed g0 c (fold scrub_one [0..<c] g)"
  by (induction c) (auto intro: scrub_one_scrubbed)

lemma scrubSeq_ok:
  assumes "tables_ok g" "scrub_repaired_rf g < 2 ^ 32" "scrub_repaired_dsp g < 2 ^ 32"
  shows "scrubbed (g\<lparr>scrub_requests := wrap32 (scrub_requests g + 1)\<rparr>) (num_seq_steps g) (scrubSeq g)"
proof -
  let ?g = "g\<lparr>scrub_requests := wrap32 (scrub_requests g + 1)\<rparr>"
  have "scrubbed ?g 0 ?g" using assms by (simp add: scrubbed_def tables_ok_def)
  from scrub_fold [OF this, of "num_seq_steps g"] show ?thesis by (simp add: scrubSeq_def scrub_loop_fold)
qed

text \<open>
  scrubbing replaces by 0 exactly the indices that lie outside their table and counts them, so
  that with non-empty tables the getters only give indices inside the tables afterwards; the
  sequences of the nested algorithms pass it unchanged and uncounted.
\<close>

theorem fh_scrub_in_range:
  assumes "tables_ok g" "scrub_repaired_rf g < 2 ^ 32" "scrub_repaired_dsp g < 2 ^ 32" "0 < rf_table_size g" "0 < dsp_table_size g"
    "k < num_seq_steps g"
  shows "getFhSeqRfIdx (scrubSeq g) k = Some (clip (rf_table_size g) (rf_idx_table g ! k)) \<and>
    getFhSeqDspIdx (scrubSeq g) k = Some (clip (dsp_table_size g) (dsp_idx_table g ! k)) \<and>
    the (getFhSeqRfIdx (scrubSeq g) k) < rf_table_size g \<and> the (getFhSeqDspIdx (scrubSeq g) k) < dsp_table_size g \<and>
    scrub_repaired_rf (scrubSeq g) = wrap32 (scrub_repaired_rf g + length (filter (\<lambda>i. i \<ge> rf_table_size g) (rf_idx_table g))) \<and>
    scrub_repaired_dsp (scrubSeq g) = wrap32 (scrub_repaired_dsp g + length (filter (\<lambda>i. i \<ge> dsp_table_size g) (dsp_idx_table g))) \<and>
    (nested_alg alg \<longrightarrow> clip (rf_table_size g) (fst (fh_index alg (rf_table_size g) (dsp_table_size g) k)) =
        fst (fh_index alg (rf_table_size g) (dsp_table_size g) k) \<and>
      clip (dsp_table_size g) (snd (fh_index alg (rf_table_size g) (dsp_table_size g) k)) =
        snd (fh_index alg (rf_table_size g) (dsp_table_size g) k))"
proof -
  have count: "length (filter P xs) = length (filter (\<lambda>k. P (xs ! k)) [0..<length xs])" for P and xs :: "nat list"
    by (subst map_nth [of xs, symmetric], subst filter_map) (simp add: comp_def)
  have rng: "nested_alg alg \<Longrightarrow> fst (fh_index alg (rf_table_size g) (dsp_table_size g) k) < rf_table_size g \<and>
      snd (fh_index alg (rf_table_size g) (dsp_table_size g) k) < dsp_table_size g"
    using nested_index_range [of alg "rf_table_size g" "dsp_table_size g" k] assms(4,5) by (auto simp: mem_Times_iff)
  show ?thesis
    using scrubSeq_ok [OF assms(1-3)] assms rng
    by (auto simp: scrubbed_def getFhSeqRfIdx_def getFhSeqDspIdx_def tables_ok_def count [of _ "rf_idx_table g"]
        count [of _ "dsp_idx_table g"] clip_less clip_range)
qed

text \<open>A generator as constructed, for the witnesses.\<close>

definition fsg_example :: "fh_alg \<Rightarrow> nat \<Rightarrow> nat \<Rightarrow> nat \<Rightarrow> fsg" where
  "fsg_example alg steps rf dsp = \<lparr>seq_algorithm = alg, num_seq_steps = steps, rf_table_size = rf, dsp_table_size = dsp,
     rf_idx_table = replicate steps 0, dsp_idx_table = replicate steps 0, rf_seq_state = 0, dsp_seq_state = 0,
     fh_seq_generations = 0, fh_state_resets = 0, scrub_requests = 0, scrub_repaired_rf = 0, scrub_repaired_dsp = 0\<rparr>"

lemma fsg_example_constructed:
  "FhSeqGenerator junk alg steps rf dsp 1 = Some (fsg_example alg steps rf dsp)"
  by (simp add: FhSeqGenerator_def fsg_example_def resetFsgStats_def resetFhSeqState_def)

lemma fh_sequence_witness:
  "\<exists>g'. makeSeq (\<lambda>n. replicate n 0) (fsg_example FH_SEQ_RESTART_ALG_B 20 5 3) = Some g' \<and>
    getFhSeqRfIdx g' 6 = Some 3 \<and> getFhSeqDspIdx g' 6 = Some 1 \<and> getFhSeqRfIdx g' 20 = None"
proof -
  have "ceil_sqrt 5 = 3" by (simp add: ceil_sqrt_def upt_rec)
  then have p: "fh_perm 5 = [0, 3, 1, 4, 2]" "fh_perm 3 = [2, 1, 0]"
    by (simp_all add: fh_perm_def picks_def upt_rec Let_def)
  show ?thesis
    using fh_sequence [of "fsg_example FH_SEQ_RESTART_ALG_B 20 5 3" "\<lambda>n. replicate n 0"]
    by (auto simp: fsg_example_def tables_ok_def fh_index_def p)
qed

lemma fh_cycle_covers_witness:
  "\<exists>g'. makeSeq (\<lambda>n. replicate n 0) (fsg_example FH_SEQ_RESTART_ALG_A 20 5 3) = Some g' \<and>
    distinct (map (fh_pair g') [2..<17]) \<and> set (map (fh_pair g') [2..<17]) = {..<5} \<times> {..<3}"
  using fh_cycle_covers [of "fsg_example FH_SEQ_RESTART_ALG_A 20 5 3" "\<lambda>n. replicate n 0" 2]
  by (simp add: fsg_example_def tables_ok_def nested_alg_def)

lemma fh_sequence_diverges_witness:
  "makeSeq (\<lambda>n. replicate n 0) (fsg_example FH_SEQ_RESTART_SWEEP_RFDSP 4 2 0) = None"
  by (rule fh_sequence_diverges) (simp_all add: fsg_example_def nested_alg_def)

lemma fh_scrub_in_range_witness:
  "getFhSeqDspIdx (scrubSeq ((fsg_example FH_SEQ_ONE 4 1 1)\<lparr>dsp_idx_table := [1, 1, 1, 1]\<rparr>)) 2 = Some 0 \<and>
    scrub_repaired_dsp (scrubSeq ((fsg_example FH_SEQ_ONE 4 1 1)\<lparr>dsp_idx_table := [1, 1, 1, 1]\<rparr>)) = 4"
  using fh_scrub_in_range [of "(fsg_example FH_SEQ_ONE 4 1 1)\<lparr>dsp_idx_table := [1, 1, 1, 1]\<rparr>" 2]
  by (simp add: fsg_example_def tables_ok_def clip_def)

end
