(* ===== verification/Radio_Scheduler.thy ===== *)
theory Radio_Scheduler
  imports Radio_Prelude Complex_Main
begin

text \<open>
  \<^verbatim>\<open>ofdm_radio/src/RadioScheduler.cc\<close>: when a node listens and sends within a second. The \<^verbatim>\<open>double\<close>s of the
  code are exact rational numbers here: rounding is not modelled. \<open>None\<close> is a run that does not come to
  its end as the code means it: \<open>exit\<close>, a division by zero, or an access beyond a schedule. The theorems:
  the slots of the two modes are disjoint, hold their transmissions and fit into the second, and a
  mobile's schedule is written beyond its array as soon as a second holds as many net periods as
  the net has nodes.
\<close>

section \<open>Tasks\<close>

datatype rf_rx_task = RF_TASK_RX_IDLE | RF_TASK_RX_RETUNE_ONLY | RF_TASK_RX_DATA | RF_TASK_RX_OFDMA_DATA | RF_TASK_RX_MC_DATA
  | RF_TASK_RX_HEARTBEAT | RF_TASK_RX_SNAPSHOT

datatype rf_tx_task = RF_TASK_TX_IDLE | RF_TASK_TX_RETUNE_ONLY | RF_TASK_TX_DATA | RF_TASK_TX_OFDMA_DATA | RF_TASK_TX_MC_DATA
  | RF_TASK_TX_HEARTBEAT | RF_TASK_TX_NOISE

record rf_task =
  rx_task :: rf_rx_task
  rx_time :: rat
  tx_task :: rf_tx_task
  tx_time :: rat

datatype heartbeat_activity = HEARTBEAT_ACTIVITY_NONE | HEARTBEAT_ACTIVITY_PER_SCHEDULE

definition RS_TAU_GUARD_BEGIN_DEFAULT :: rat where "RS_TAU_GUARD_BEGIN_DEFAULT = 1715 / 10 ^ 7"
definition RS_TAU_GUARD_END_DEFAULT :: rat where "RS_TAU_GUARD_END_DEFAULT = 1715 / 10 ^ 7"
definition RS_TAU_FDD_ENDSLOT_MARGIN_DEFAULT :: rat where "RS_TAU_FDD_ENDSLOT_MARGIN_DEFAULT = 12 / 10 ^ 4"
definition RS_TAU_FH_ENDSLOT_MARGIN_DEFAULT :: rat where "RS_TAU_FH_ENDSLOT_MARGIN_DEFAULT = 18 / 10 ^ 4"
definition RS_TAU_1PPS_GUARD_DEFAULT :: rat where "RS_TAU_1PPS_GUARD_DEFAULT = 1 / 10 ^ 2"

section \<open>State and construction\<close>

record scheduler =
  node_is_basestation :: bool
  node_id :: u8
  num_nodes :: nat
  nodes_in_net :: "u8 list"
  heartbeat :: heartbeat_activity
  u4_mode :: bool
  tau_tune :: rat
  tau_tx_guard_begin :: rat
  tau_tx_burst :: rat
  tau_rx_dwell :: rat
  tau_tx_guard_end :: rat
  tau_fdd_endslot_margin :: rat
  tau_fh_endslot_margin :: rat
  tau_1pps_guard :: rat
  tau_fdd_slot :: rat
  tau_fdd_net :: rat
  num_fdd_nets_persec :: nat
  tau_fdd_margin_persec :: rat
  tau_fh_slot :: rat
  tau_fh_net :: rat
  num_fh_nets_persec :: nat
  tau_fh_margin_persec :: rat
  rx_recommended_sample_size :: nat
  fdd_task_sched :: "rf_task list"
  fdd_task_sched_size :: nat
  fh_task_sched :: "rf_task list"
  fh_task_sched_size :: nat
  u4_task_sched :: "rf_task list"
  u4_task_sched_size :: nat

definition idle_task :: rf_task where
  "idle_task = \<lparr>rx_task = RF_TASK_RX_IDLE, rx_time = 0, tx_task = RF_TASK_TX_IDLE, tx_time = 0\<rparr>"

text \<open>\<^verbatim>\<open>floor((1.0 - tau_1pps_guard) / tau_net)\<close>, which has to fit an \<^verbatim>\<open>unsigned int\<close>.\<close>

definition nets_persec :: "rat \<Rightarrow> nat option" where
  "nets_persec tau_net =
     (if tau_net = 0 then None
      else let q = \<lfloor>(1 - RS_TAU_1PPS_GUARD_DEFAULT) / tau_net\<rfloor>
           in if 0 \<le> q \<and> q < 2 ^ 32 then Some (nat q) else None)"

text \<open>
  The object with its fields derived from the dwell time and the numbers of net periods. \<open>slots\<close> is
  \<^verbatim>\<open>num_nodes_in_net - 1\<close>. \<open>junk\<close> gives the times of the U4 schedule, which the constructor does not set.
\<close>

definition scheduler_of ::
  "bool \<Rightarrow> u8 \<Rightarrow> nat \<Rightarrow> u8 list \<Rightarrow> heartbeat_activity \<Rightarrow> bool \<Rightarrow> rat \<Rightarrow> nat \<Rightarrow> rat \<Rightarrow> rat \<Rightarrow> int \<Rightarrow> rat \<Rightarrow> nat \<Rightarrow> nat \<Rightarrow> scheduler" where
  "scheduler_of basestation nid n nodes hb u4 junk slots tune burst samples dwell fdd_nets fh_nets =
     (let fdd_slot = dwell + RS_TAU_FDD_ENDSLOT_MARGIN_DEFAULT;
          fdd_net = fdd_slot * of_nat slots;
          fdd_size = wrap32 (slots * fdd_nets);
          fh_slot = tune + dwell + RS_TAU_FH_ENDSLOT_MARGIN_DEFAULT;
          fh_net = fh_slot * of_nat slots;
          fh_size = wrap32 (slots * fh_nets)
      in \<lparr>node_is_basestation = basestation, node_id = nid, num_nodes = n, nodes_in_net = nodes, heartbeat = hb,
          u4_mode = u4, tau_tune = tune, tau_tx_guard_begin = RS_TAU_GUARD_BEGIN_DEFAULT, tau_tx_burst = burst,
          tau_rx_dwell = dwell, tau_tx_guard_end = dwell - RS_TAU_GUARD_BEGIN_DEFAULT - burst,
          tau_fdd_endslot_margin = RS_TAU_FDD_ENDSLOT_MARGIN_DEFAULT,
          tau_fh_endslot_margin = RS_TAU_FH_ENDSLOT_MARGIN_DEFAULT, tau_1pps_guard = RS_TAU_1PPS_GUARD_DEFAULT,
          tau_fdd_slot = fdd_slot, tau_fdd_net = fdd_net, num_fdd_nets_persec = fdd_nets,
          tau_fdd_margin_persec = 1 - of_nat fdd_nets * fdd_net,
          tau_fh_slot = fh_slot, tau_fh_net = fh_net, num_fh_nets_persec = fh_nets,
          tau_fh_margin_persec = 1 - of_nat fh_nets * fh_net,
          rx_recommended_sample_size = nat samples,
          fdd_task_sched = replicate fdd_size idle_task, fdd_task_sched_size = fdd_size,
          fh_task_sched = replicate fh_size idle_task, fh_task_sched_size = fh_size,
          u4_task_sched = replicate 40 (idle_task\<lparr>rx_time := junk, tx_time := junk\<rparr>), u4_task_sched_size = 40\<rparr>)"

text \<open>The check before the FH periods is on \<open>fdd_net\<close> again, as in the code.\<close>

definition RadioScheduler ::
  "bool \<Rightarrow> u8 \<Rightarrow> nat \<Rightarrow> u8 list \<Rightarrow> heartbeat_activity \<Rightarrow> nat \<Rightarrow> rat \<Rightarrow> rat \<Rightarrow> nat \<Rightarrow> rat \<Rightarrow> bool \<Rightarrow> rat \<Rightarrow> scheduler option" where
  "RadioScheduler basestation nid n nodes hb channels rx_rate tx_rate burst_length retune_delay u4 junk =
     (if channels > 1 \<or> rx_rate = 0 \<or> tx_rate = 0 then None
      else
        let burst = of_nat burst_length / tx_rate;
            samples = \<lceil>rx_rate * (RS_TAU_GUARD_BEGIN_DEFAULT + burst + RS_TAU_GUARD_END_DEFAULT)\<rceil>;
            dwell = of_int samples / rx_rate;
            slots = wrap32 (n + 2 ^ 32 - 1);
            fdd_net = (dwell + RS_TAU_FDD_ENDSLOT_MARGIN_DEFAULT) * of_nat slots;
            fh_net = (retune_delay + dwell + RS_TAU_FH_ENDSLOT_MARGIN_DEFAULT) * of_nat slots
        in if 1 - fdd_net < RS_TAU_1PPS_GUARD_DEFAULT then None
           else do {
             fdd_nets \<leftarrow> nets_persec fdd_net;
             if 1 - fdd_net < RS_TAU_1PPS_GUARD_DEFAULT then None
             else do {
               fh_nets \<leftarrow> nets_persec fh_net;
               Some (scheduler_of basestation nid n nodes hb u4 junk slots retune_delay burst samples dwell fdd_nets fh_nets)
             }
           })"

section \<open>Writing schedules\<close>

definition at_entry :: "nat \<Rightarrow> (rf_task \<Rightarrow> rf_task) \<Rightarrow> rf_task list \<Rightarrow> rf_task list option" where
  "at_entry k f ts = (if k < length ts then Some (ts[k := f (ts ! k)]) else None)"

fun each_entry :: "nat list \<Rightarrow> (nat \<Rightarrow> rf_task \<Rightarrow> rf_task) \<Rightarrow> rf_task list \<Rightarrow> rf_task list option" where
  "each_entry [] f ts = Some ts"
| "each_entry (k # ks) f ts = do { ts1 \<leftarrow> at_entry k (f k) ts; each_entry ks f ts1 }"

text \<open>An idle or calibration entry: \<open>off\<close> is 0 in FDD mode and \<open>tau_tune\<close> in FH mode.\<close>

definition idle_entry :: "scheduler \<Rightarrow> rat \<Rightarrow> rat \<Rightarrow> rat \<Rightarrow> nat \<Rightarrow> rf_task \<Rightarrow> rf_task" where
  "idle_entry s start slot off ctr t =
     \<lparr>rx_task = RF_TASK_RX_IDLE, rx_time = start + of_nat ctr * slot + off,
      tx_task = RF_TASK_TX_IDLE, tx_time = start + of_nat ctr * slot + off + tau_tx_guard_begin s\<rparr>"

definition snapshot_entry :: "scheduler \<Rightarrow> rat \<Rightarrow> rat \<Rightarrow> rf_task \<Rightarrow> rf_task" where
  "snapshot_entry s start off t =
     \<lparr>rx_task = RF_TASK_RX_SNAPSHOT, rx_time = start + off, tx_task = RF_TASK_TX_NOISE, tx_time = start + off + tau_tx_guard_begin s\<rparr>"

definition calcCalibrationSchedule :: "scheduler \<Rightarrow> rat \<Rightarrow> scheduler option" where
  "calcCalibrationSchedule s radio_clock_time = do {
     fdd0 \<leftarrow> at_entry 0 (snapshot_entry s radio_clock_time 0) (fdd_task_sched s);
     fdd \<leftarrow> each_entry [1..<fdd_task_sched_size s] (idle_entry s radio_clock_time (tau_fdd_slot s) 0) fdd0;
     fh0 \<leftarrow> at_entry 0 (snapshot_entry s radio_clock_time (tau_tune s)) (fh_task_sched s);
     fh \<leftarrow> each_entry [1..<fh_task_sched_size s] (idle_entry s radio_clock_time (tau_fh_slot s) (tau_tune s)) fh0;
     Some (s\<lparr>fdd_task_sched := fdd, fh_task_sched := fh\<rparr>)
   }"

definition rx_entry :: "rat \<Rightarrow> rat \<Rightarrow> rat \<Rightarrow> nat \<Rightarrow> rf_task \<Rightarrow> rf_task" where
  "rx_entry start slot off ctr t = t\<lparr>rx_task := RF_TASK_RX_DATA, rx_time := start + of_nat ctr * slot + off\<rparr>"

definition tx_entry :: "scheduler \<Rightarrow> rf_tx_task \<Rightarrow> rat \<Rightarrow> rat \<Rightarrow> rat \<Rightarrow> nat \<Rightarrow> rf_task \<Rightarrow> rf_task" where
  "tx_entry s task start slot off ctr t =
     t\<lparr>tx_task := task, tx_time := start + of_nat ctr * slot + off + tau_tx_guard_begin s\<rparr>"

definition heartbeat_entry :: "nat \<Rightarrow> rf_task \<Rightarrow> rf_task" where
  "heartbeat_entry ctr t =
     (let t1 = t\<lparr>rx_task := RF_TASK_RX_HEARTBEAT\<rparr>
      in if tx_task t1 = RF_TASK_TX_DATA then t1\<lparr>tx_task := RF_TASK_TX_HEARTBEAT\<rparr> else t1)"

text \<open>The position of the node's id in the list of the net; \<open>num_nodes\<close> when it is not there.\<close>

fun find_slot :: "u8 \<Rightarrow> u8 list \<Rightarrow> nat list \<Rightarrow> nat \<Rightarrow> nat" where
  "find_slot nid nodes [] slot = slot"
| "find_slot nid nodes (k # ks) slot = (if nid = nodes ! k then k else find_slot nid nodes ks slot)"

text \<open>Heartbeats replace the data slots at the start and near the middle of a schedule.\<close>

definition insert_heartbeats :: "scheduler \<Rightarrow> nat \<Rightarrow> rf_task list \<Rightarrow> rf_task list option" where
  "insert_heartbeats s sched_size ts =
     (if heartbeat s \<noteq> HEARTBEAT_ACTIVITY_NONE then do {
        ts1 \<leftarrow> each_entry [0..<num_nodes s] heartbeat_entry ts;
        let mid_pt = sched_size div 2;
        each_entry [mid_pt..<mid_pt + num_nodes s] heartbeat_entry ts1
      } else Some ts)"

text \<open>
  The body of \<open>calcFddSchedule\<close> and of \<open>calcFhSchedule\<close>, which differ in the schedule they write, its size,
  the length of a slot, the periods of the net in a second, and the time for tuning.
\<close>

definition calc_schedule :: "scheduler \<Rightarrow> rat \<Rightarrow> rat \<Rightarrow> nat \<Rightarrow> nat \<Rightarrow> rat \<Rightarrow> rf_task list \<Rightarrow> rf_task list option" where
  "calc_schedule s slot off nets sched_size start ts = do {
     ts1 \<leftarrow> each_entry [0..<sched_size] (rx_entry start slot off) ts;
     ts2 \<leftarrow> (if node_is_basestation s
            then each_entry [0..<sched_size] (tx_entry s RF_TASK_TX_DATA start slot off) ts1
            else do {
              ts2 \<leftarrow> each_entry [0..<sched_size] (tx_entry s RF_TASK_TX_IDLE start slot off) ts1;
              let active_slot = find_slot (node_id s) (nodes_in_net s) [0..<num_nodes s] (num_nodes s);
              if active_slot \<ge> num_nodes s then None
              else each_entry (map (\<lambda>ctr. wrap32 (ctr * num_nodes s + active_slot)) [0..<nets])
                     (\<lambda>ctr t. t\<lparr>tx_task := RF_TASK_TX_DATA\<rparr>) ts2
            });
     insert_heartbeats s sched_size ts2
   }"

definition calcFddSchedule :: "scheduler \<Rightarrow> rat \<Rightarrow> scheduler option" where
  "calcFddSchedule s radio_clock_time = do {
     ts \<leftarrow> calc_schedule s (tau_fdd_slot s) 0 (num_fdd_nets_persec s) (fdd_task_sched_size s) radio_clock_time (fdd_task_sched s);
     Some (s\<lparr>fdd_task_sched := ts\<rparr>)
   }"

definition calcFhSchedule :: "scheduler \<Rightarrow> rat \<Rightarrow> scheduler option" where
  "calcFhSchedule s radio_clock_time = do {
     ts \<leftarrow> calc_schedule s (tau_fh_slot s) (tau_tune s) (num_fh_nets_persec s) (fh_task_sched_size s) radio_clock_time (fh_task_sched s);
     Some (s\<lparr>fh_task_sched := ts\<rparr>)
   }"

definition setU4ScheduleSize :: "scheduler \<Rightarrow> int \<Rightarrow> scheduler" where
  "setU4ScheduleSize s new_size =
     (let k = nat (new_size mod 2 ^ 32) in s\<lparr>u4_task_sched_size := (if k > 40 then 40 else k)\<rparr>)"

definition calcU4Schedule :: "scheduler \<Rightarrow> scheduler option" where
  "calcU4Schedule s = do {
     ts \<leftarrow> each_entry [0..<u4_task_sched_size s]
       (\<lambda>ctr t. t\<lparr>tx_task := (if node_is_basestation s then RF_TASK_TX_OFDMA_DATA else RF_TASK_TX_MC_DATA), rx_task := RF_TASK_RX_IDLE\<rparr>)
       (u4_task_sched s);
     Some (s\<lparr>u4_task_sched := ts\<rparr>)
   }"

definition calcTestSchedule :: "scheduler \<Rightarrow> rat \<Rightarrow> scheduler option" where
  "calcTestSchedule s radio_clock_time = do {
     fdd \<leftarrow> each_entry [0..<fdd_task_sched_size s] (idle_entry s radio_clock_time (tau_fdd_slot s) 0) (fdd_task_sched s);
     fh \<leftarrow> each_entry [0..<fh_task_sched_size s] (idle_entry s radio_clock_time (tau_fh_slot s) (tau_tune s)) (fh_task_sched s);
     fdd1 \<leftarrow> at_entry 0 (\<lambda>t. t\<lparr>rx_task := RF_TASK_RX_SNAPSHOT, rx_time := radio_clock_time\<rparr>) fdd;
     fh1 \<leftarrow> at_entry 0 (\<lambda>t. t\<lparr>rx_task := RF_TASK_RX_SNAPSHOT, rx_time := radio_clock_time\<rparr>) fh;
     Some (s\<lparr>fdd_task_sched := fdd1, fh_task_sched := fh1\<rparr>)
   }"

section \<open>Queries\<close>

definition entry_of :: "rf_task list \<Rightarrow> nat \<Rightarrow> rf_task option" where
  "entry_of ts k = (if k < length ts then Some (ts ! k) else None)"

definition getCurrentTxTask :: "scheduler \<Rightarrow> bool \<Rightarrow> nat \<Rightarrow> rf_tx_task option" where
  "getCurrentTxTask s use_normal_mode task_id =
     map_option tx_task (entry_of (if u4_mode s then u4_task_sched s
       else if use_normal_mode then fdd_task_sched s else fh_task_sched s) task_id)"

definition isHeartbeatExpected :: "scheduler \<Rightarrow> bool \<Rightarrow> nat \<Rightarrow> bool option" where
  "isHeartbeatExpected s use_normal_mode task_id =
     map_option (\<lambda>t. rx_task t = RF_TASK_RX_HEARTBEAT)
       (entry_of (if use_normal_mode then fdd_task_sched s else fh_task_sched s) task_id)"

definition getActiveSchedSize :: "scheduler \<Rightarrow> bool \<Rightarrow> nat" where
  "getActiveSchedSize s use_normal_mode =
     (if u4_mode s then u4_task_sched_size s
      else if use_normal_mode then fdd_task_sched_size s else fh_task_sched_size s)"

definition isActiveSched4Basestation :: "scheduler \<Rightarrow> bool" where
  "isActiveSched4Basestation s = (if node_is_basestation s then True else False)"

definition getRxRecommendedSampleSize :: "scheduler \<Rightarrow> nat" where
  "getRxRecommendedSampleSize s = rx_recommended_sample_size s"

definition getFhInterdwellSpacing :: "scheduler \<Rightarrow> rat" where
  "getFhInterdwellSpacing s = tau_tune s + tau_tx_guard_begin s + tau_tx_guard_end s + tau_fh_endslot_margin s"

section \<open>Schedules as arrays\<close>

lemma each_entry_Some:
  "each_entry ks f ts = Some ts' \<Longrightarrow> length ts' = length ts \<and> (\<forall>k\<in>set ks. k < length ts)"
proof (induction ks arbitrary: ts)
  case (Cons j ks)
  then obtain ts1 where "at_entry j (f j) ts = Some ts1" "each_entry ks f ts1 = Some ts'"
    by (auto split: Option.bind_splits)
  then show ?case using Cons.IH [of ts1] by (auto simp: at_entry_def split: if_splits)
qed simp

lemma each_entry_None: "each_entry ks f ts = None \<longleftrightarrow> (\<exists>k\<in>set ks. length ts \<le> k)"
  by (induction ks arbitrary: ts) (auto simp: at_entry_def not_less split: if_splits Option.bind_splits)

lemma each_entry_nth:
  "each_entry ks f ts = Some ts' \<Longrightarrow> distinct ks \<Longrightarrow> k < length ts \<Longrightarrow>
   ts' ! k = (if k \<in> set ks then f k (ts ! k) else ts ! k)"
proof (induction ks arbitrary: ts)
  case (Cons j ks)
  then obtain ts1 where ts1: "at_entry j (f j) ts = Some ts1" "each_entry ks f ts1 = Some ts'"
    by (auto split: Option.bind_splits)
  then have t: "ts1 = ts[j := f j (ts ! j)]" "j < length ts" by (auto simp: at_entry_def split: if_splits)
  have "ts' ! k = (if k \<in> set ks then f k (ts1 ! k) else ts1 ! k)" using Cons ts1 t by simp
  then show ?case using t Cons.prems(2) by (auto simp: nth_list_update)
qed simp

text \<open>Loops that leave the times of the entries alone.\<close>

lemma each_entry_times:
  assumes "each_entry ks f ts = Some ts'" "\<And>k t. rx_time (f k t) = rx_time t \<and> tx_time (f k t) = tx_time t"
  shows "map rx_time ts' = map rx_time ts \<and> map tx_time ts' = map tx_time ts"
  using assms(1)
proof (induction ks arbitrary: ts)
  case (Cons j ks)
  then obtain ts1 where ts1: "at_entry j (f j) ts = Some ts1" "each_entry ks f ts1 = Some ts'"
    by (auto split: Option.bind_splits)
  then have "map rx_time ts1 = map rx_time ts \<and> map tx_time ts1 = map tx_time ts"
    using assms(2) by (auto simp: at_entry_def map_update list_update_same_conv split: if_splits)
  then show ?case using Cons.IH [OF ts1(2)] by simp
qed simp

definition timed :: "scheduler \<Rightarrow> rat \<Rightarrow> rat \<Rightarrow> rat \<Rightarrow> nat \<Rightarrow> rf_task list \<Rightarrow> bool" where
  "timed s slot off start n ts \<longleftrightarrow> length ts = n \<and> (\<forall>k<n. rx_time (ts ! k) = start + of_nat k * slot + off \<and>
     tx_time (ts ! k) = start + of_nat k * slot + off + tau_tx_guard_begin s)"

lemma timed_keep:
  assumes "each_entry ks f us = Some us'" "\<And>k t. rx_time (f k t) = rx_time t \<and> tx_time (f k t) = tx_time t"
    "timed s slot off start n us"
  shows "timed s slot off start n us'"
proof -
  have m: "map rx_time us' = map rx_time us" "map tx_time us' = map tx_time us"
    using each_entry_times [OF assms(1,2)] by blast+
  have l: "length us' = length us" using each_entry_Some [OF assms(1)] by simp
  have "rx_time (us' ! k) = rx_time (us ! k) \<and> tx_time (us' ! k) = tx_time (us ! k)" if "k < n" for k
    using m l that assms(3) by (metis nth_map timed_def)
  then show ?thesis using assms(3) l by (simp add: timed_def)
qed

lemma timed_tx:
  assumes "each_entry [0..<n] (rx_entry start slot off) ts = Some ts1" "length ts = n"
    "each_entry [0..<n] (tx_entry s task start slot off) ts1 = Some ts2"
  shows "timed s slot off start n ts2"
proof -
  have l: "length ts1 = n" "length ts2 = n" using each_entry_Some assms by fastforce+
  have "rx_time (ts1 ! k) = start + of_nat k * slot + off" if "k < n" for k
    using each_entry_nth [OF assms(1)] assms(2) that by (simp add: rx_entry_def)
  then show ?thesis using each_entry_nth [OF assms(3)] l by (simp add: timed_def tx_entry_def)
qed

lemma heartbeat_times: "rx_time (heartbeat_entry k t) = rx_time t \<and> tx_time (heartbeat_entry k t) = tx_time t"
  by (simp add: heartbeat_entry_def Let_def)

lemma calc_schedule_times:
  assumes "calc_schedule s slot off nets (length ts) start ts = Some ts'"
  shows "timed s slot off start (length ts) ts'"
proof -
  let ?n = "length ts"
  obtain ts1 where ts1: "each_entry [0..<?n] (rx_entry start slot off) ts = Some ts1"
    using assms by (auto simp: calc_schedule_def split: Option.bind_splits)
  obtain ts2 where ts2: "timed s slot off start ?n ts2"
    and rest: "insert_heartbeats s ?n ts2 = Some ts'"
  proof (cases "node_is_basestation s")
    case True
    then obtain ts2 where t: "each_entry [0..<?n] (tx_entry s RF_TASK_TX_DATA start slot off) ts1 = Some ts2"
      using assms ts1 by (auto simp: calc_schedule_def split: Option.bind_splits)
    from that [OF timed_tx [OF ts1 refl t]] show ?thesis using t assms ts1 True by (simp add: calc_schedule_def Let_def)
  next
    case False
    let ?slot = "find_slot (node_id s) (nodes_in_net s) [0..<num_nodes s] (num_nodes s)"
    obtain ts2 ts2' where t: "each_entry [0..<?n] (tx_entry s RF_TASK_TX_IDLE start slot off) ts1 = Some ts2"
      "\<not> ?slot \<ge> num_nodes s"
      "each_entry (map (\<lambda>ctr. wrap32 (ctr * num_nodes s + ?slot)) [0..<nets]) (\<lambda>ctr t. t\<lparr>tx_task := RF_TASK_TX_DATA\<rparr>) ts2 = Some ts2'"
      using assms ts1 False by (auto simp: calc_schedule_def Let_def split: Option.bind_splits if_splits)
    have "timed s slot off start ?n ts2'" by (rule timed_keep [OF t(3) _ timed_tx [OF ts1 refl t(1)]]) simp
    from that [OF this] show ?thesis using t assms ts1 False by (simp add: calc_schedule_def Let_def)
  qed
  show ?thesis
  proof (cases "heartbeat s = HEARTBEAT_ACTIVITY_NONE")
    case True
    then show ?thesis using rest ts2 by (simp add: insert_heartbeats_def)
  next
    case False
    then obtain ts3 where ts3: "each_entry [0..<num_nodes s] heartbeat_entry ts2 = Some ts3"
      "each_entry [?n div 2..<?n div 2 + num_nodes s] heartbeat_entry ts3 = Some ts'"
      using rest by (auto simp: insert_heartbeats_def Let_def split: Option.bind_splits)
    show ?thesis by (rule timed_keep [OF ts3(2) heartbeat_times timed_keep [OF ts3(1) heartbeat_times ts2]])
  qed
qed

section \<open>The slots of a second\<close>

text \<open>What the constructor establishes.\<close>

definition timing_ok :: "scheduler \<Rightarrow> bool" where
  "timing_ok s \<longleftrightarrow> 0 \<le> tau_tune s \<and> 0 < tau_tx_guard_begin s \<and> 0 \<le> tau_tx_burst s \<and> 0 < tau_tx_guard_end s \<and>
     tau_tx_guard_begin s + tau_tx_burst s + tau_tx_guard_end s = tau_rx_dwell s \<and>
     tau_fdd_slot s = tau_rx_dwell s + tau_fdd_endslot_margin s \<and> 0 < tau_fdd_endslot_margin s \<and>
     tau_fh_slot s = tau_tune s + tau_rx_dwell s + tau_fh_endslot_margin s \<and> 0 < tau_fh_endslot_margin s \<and>
     length (fdd_task_sched s) = fdd_task_sched_size s \<and> fdd_task_sched_size s = (num_nodes s - 1) * num_fdd_nets_persec s \<and>
     length (fh_task_sched s) = fh_task_sched_size s \<and> fh_task_sched_size s = (num_nodes s - 1) * num_fh_nets_persec s \<and>
     of_nat (fdd_task_sched_size s) * tau_fdd_slot s \<le> 1 - tau_1pps_guard s \<and>
     of_nat (fh_task_sched_size s) * tau_fh_slot s \<le> 1 - tau_1pps_guard s \<and> 0 < num_fdd_nets_persec s \<and>
     fdd_task_sched_size s < 1000 \<and> fh_task_sched_size s < 1000 \<and> length (u4_task_sched s) = 40 \<and> u4_task_sched_size s = 40"

lemma nets_fit:
  assumes "nets_persec (slot * of_nat m) = Some q" "1 / 1000 \<le> slot" "0 < m"
  shows "of_nat (m * q) * slot \<le> 1 - RS_TAU_1PPS_GUARD_DEFAULT \<and> m * q < 1000"
proof -
  let ?net = "slot * of_nat m"
  have pos: "0 < ?net" using assms(2,3) by simp
  have q: "q = nat \<lfloor>(1 - RS_TAU_1PPS_GUARD_DEFAULT) / ?net\<rfloor>" "0 \<le> \<lfloor>(1 - RS_TAU_1PPS_GUARD_DEFAULT) / ?net\<rfloor>"
    using assms(1) by (auto simp: nets_persec_def Let_def split: if_splits)
  then have "(of_nat q :: rat) = of_int \<lfloor>(1 - RS_TAU_1PPS_GUARD_DEFAULT) / ?net\<rfloor>" by simp
  also have "\<dots> \<le> (1 - RS_TAU_1PPS_GUARD_DEFAULT) / ?net" by (rule of_int_floor_le)
  finally have "of_nat q * ?net \<le> 1 - RS_TAU_1PPS_GUARD_DEFAULT" using pos by (simp add: pos_le_divide_eq)
  then have fit: "of_nat (m * q) * slot \<le> 1 - RS_TAU_1PPS_GUARD_DEFAULT" by (simp add: ac_simps)
  have "of_nat (m * q) * (1 / 1000) \<le> of_nat (m * q) * slot" by (rule mult_left_mono [OF assms(2)]) simp
  also have "\<dots> < 1" using fit by (simp add: RS_TAU_1PPS_GUARD_DEFAULT_def)
  finally have "of_nat (m * q) < (of_nat 1000 :: rat)" by simp
  then have "m * q < 1000" by (simp only: of_nat_less_iff)
  then show ?thesis using fit by blast
qed

lemma nets_positive:
  assumes "nets_persec net = Some q" "0 < net" "\<not> 1 - net < RS_TAU_1PPS_GUARD_DEFAULT"
  shows "0 < q"
proof -
  have "1 \<le> (1 - RS_TAU_1PPS_GUARD_DEFAULT) / net" using assms(2,3) by (simp add: le_divide_eq)
  then have "1 \<le> \<lfloor>(1 - RS_TAU_1PPS_GUARD_DEFAULT) / net\<rfloor>" by (simp add: le_floor_iff)
  then show ?thesis using assms(1) by (auto simp: nets_persec_def Let_def split: if_splits)
qed

lemma dwell_covers:
  fixes rate x :: rat
  assumes "0 < rate"
  shows "x \<le> of_int \<lceil>rate * x\<rceil> / rate"
  using assms le_of_int_ceiling [of "rate * x"] by (simp add: le_divide_eq mult.commute)

lemma wrap32_pred: "0 < n \<Longrightarrow> n < 2 ^ 32 \<Longrightarrow> wrap32 (n + 2 ^ 32 - 1) = n - 1"
proof -
  assume "0 < n" "n < 2 ^ 32"
  then have "n + 2 ^ 32 - 1 = (n - 1) + 2 ^ 32" "n - 1 < 2 ^ 32" by simp_all
  then show ?thesis unfolding wrap32_def by (metis mod_add_self2 mod_less)
qed

lemmas rs_defaults = RS_TAU_GUARD_BEGIN_DEFAULT_def RS_TAU_GUARD_END_DEFAULT_def RS_TAU_FDD_ENDSLOT_MARGIN_DEFAULT_def
  RS_TAU_FH_ENDSLOT_MARGIN_DEFAULT_def RS_TAU_1PPS_GUARD_DEFAULT_def

lemma constructor_ok:
  assumes "RadioScheduler basestation nid n nodes hb channels rx_rate tx_rate len delay u4 junk = Some s"
    "2 \<le> n" "n < 2 ^ 32" "0 < rx_rate" "0 < tx_rate" "0 \<le> delay"
  shows "timing_ok s \<and> node_is_basestation s = basestation \<and> node_id s = nid \<and> num_nodes s = n \<and> nodes_in_net s = nodes \<and>
    heartbeat s = hb \<and> tau_1pps_guard s = RS_TAU_1PPS_GUARD_DEFAULT \<and> u4_mode s = u4"
proof -
  define burst where "burst = (of_nat len / tx_rate :: rat)"
  define x where "x = RS_TAU_GUARD_BEGIN_DEFAULT + burst + RS_TAU_GUARD_END_DEFAULT"
  define dwell where "dwell = of_int \<lceil>rx_rate * x\<rceil> / rx_rate"
  have burst: "0 \<le> burst" using assms(5) by (simp add: burst_def)
  have dwell: "x \<le> dwell" unfolding dwell_def by (rule dwell_covers [OF assms(4)])
  have slots: "wrap32 (n + 2 ^ 32 - 1) = n - 1" by (rule wrap32_pred) (use assms(2,3) in auto)
  let ?fdd = "dwell + RS_TAU_FDD_ENDSLOT_MARGIN_DEFAULT" and ?fh = "delay + dwell + RS_TAU_FH_ENDSLOT_MARGIN_DEFAULT"
  have lo: "1 / 1000 \<le> ?fdd" "1 / 1000 \<le> ?fh"
    using dwell burst assms(6) by (simp_all add: x_def rs_defaults)
  obtain a b where run: "\<not> 1 - ?fdd * of_nat (n - 1) < RS_TAU_1PPS_GUARD_DEFAULT"
    "nets_persec (?fdd * of_nat (n - 1)) = Some a" "nets_persec (?fh * of_nat (n - 1)) = Some b"
    "s = scheduler_of basestation nid n nodes hb u4 junk (n - 1) delay burst \<lceil>rx_rate * x\<rceil> dwell a b"
    using assms(1) unfolding RadioScheduler_def Let_def slots burst_def [symmetric] x_def [symmetric] dwell_def [symmetric]
    by (auto split: if_splits Option.bind_splits)
  have n1: "0 < n - 1" using assms(2) by simp
  from nets_fit [OF run(2) lo(1) n1] nets_fit [OF run(3) lo(2) n1]
  have f: "of_nat ((n - 1) * a) * ?fdd \<le> 1 - RS_TAU_1PPS_GUARD_DEFAULT" "(n - 1) * a < 1000"
    "of_nat ((n - 1) * b) * ?fh \<le> 1 - RS_TAU_1PPS_GUARD_DEFAULT" "(n - 1) * b < 1000"
    by blast+
  have w: "wrap32 ((n - 1) * a) = (n - 1) * a"
    "wrap32 ((n - 1) * b) = (n - 1) * b" using f(2,4) by (auto intro!: wrap32_id)
  have "0 < ?fdd * of_nat (n - 1)" using lo(1) n1 by (intro mult_pos_pos) auto
  then have pos: "0 < a" using nets_positive [OF run(2) _ run(1)] by blast
  have ge: "0 < dwell - RS_TAU_GUARD_BEGIN_DEFAULT - burst" using dwell by (simp add: x_def rs_defaults)
  show ?thesis
    using f w pos ge burst assms(6) by (simp add: run(4) scheduler_of_def Let_def timing_ok_def rs_defaults)
qed

text \<open>
  Every entry listens for \<open>dwell\<close> and sends a burst within that time; between the end of one dwell and the
  start of the next there is time for tuning, and the last dwell ends by the deadline.
\<close>

definition slots_fit :: "rat \<Rightarrow> rat \<Rightarrow> rat \<Rightarrow> rat \<Rightarrow> rat \<Rightarrow> rf_task list \<Rightarrow> bool" where
  "slots_fit tune dwell burst start deadline ts \<longleftrightarrow>
     (\<forall>k<length ts. start + tune \<le> rx_time (ts ! k) \<and> rx_time (ts ! k) \<le> tx_time (ts ! k) \<and>
        tx_time (ts ! k) + burst \<le> rx_time (ts ! k) + dwell \<and> rx_time (ts ! k) + dwell \<le> deadline \<and>
        (\<forall>j<k. rx_time (ts ! j) + dwell + tune \<le> rx_time (ts ! k)))"

lemma timed_slots_fit:
  assumes "timed s slot off start n ts" "0 \<le> off" "0 \<le> tau_tx_guard_begin s" "tau_tx_guard_begin s + tau_tx_burst s \<le> tau_rx_dwell s"
    "off + tau_rx_dwell s \<le> slot" "of_nat n * slot \<le> limit" "0 \<le> tau_rx_dwell s"
  shows "slots_fit off (tau_rx_dwell s) (tau_tx_burst s) start (start + limit) ts"
proof -
  have slot: "0 \<le> slot" using assms(2,5,7) by simp
  have mono: "of_nat j * slot + slot \<le> of_nat k * slot" if "j < k" for j k :: nat
  proof -
    have "of_nat (Suc j) * slot \<le> of_nat k * slot" using that slot by (intro mult_right_mono) auto
    then show ?thesis by (simp add: algebra_simps)
  qed
  show ?thesis unfolding slots_fit_def
  proof (intro allI impI)
    fix k assume "k < length ts"
    then have k: "k < n" using assms(1) by (simp add: timed_def)
    have rx: "rx_time (ts ! i) = start + of_nat i * slot + off" "tx_time (ts ! i) = start + of_nat i * slot + off + tau_tx_guard_begin s"
      if "i < n" for i using assms(1) that by (simp_all add: timed_def)
    have "0 \<le> of_nat k * slot" using slot by simp
    moreover have "of_nat k * slot + slot \<le> limit" using mono [OF k] assms(6) by linarith
    moreover have "\<forall>j<k. rx_time (ts ! j) + tau_rx_dwell s + off \<le> rx_time (ts ! k)"
    proof (intro allI impI)
      fix j assume j: "j < k"
      then have "j < n" using k by simp
      then show "rx_time (ts ! j) + tau_rx_dwell s + off \<le> rx_time (ts ! k)"
        using rx [of j] rx [OF k] mono [OF j] assms(5) by linarith
    qed
    ultimately show "start + off \<le> rx_time (ts ! k) \<and> rx_time (ts ! k) \<le> tx_time (ts ! k) \<and>
        tx_time (ts ! k) + tau_tx_burst s \<le> rx_time (ts ! k) + tau_rx_dwell s \<and> rx_time (ts ! k) + tau_rx_dwell s \<le> start + limit \<and>
        (\<forall>j<k. rx_time (ts ! j) + tau_rx_dwell s + off \<le> rx_time (ts ! k))"
      using rx [OF k] assms(2-5) by - (intro conjI; (linarith | assumption))
  qed
qed


section \<open>Who sends when\<close>

definition beat_slot :: "scheduler \<Rightarrow> nat \<Rightarrow> nat \<Rightarrow> bool" where
  "beat_slot s sched_size k \<longleftrightarrow> heartbeat s \<noteq> HEARTBEAT_ACTIVITY_NONE \<and>
     (k < num_nodes s \<or> sched_size div 2 \<le> k \<and> k < sched_size div 2 + num_nodes s)"

definition beat_fits :: "scheduler \<Rightarrow> nat \<Rightarrow> bool" where
  "beat_fits s sched_size \<longleftrightarrow> heartbeat s = HEARTBEAT_ACTIVITY_NONE \<or> num_nodes s = 0 \<or> sched_size div 2 + num_nodes s \<le> sched_size"

lemma each_entry_total: "(\<forall>k\<in>set ks. k < length ts) \<Longrightarrow> \<exists>ts'. each_entry ks f ts = Some ts'"
  using each_entry_None [of ks f ts] by (cases "each_entry ks f ts") auto

lemma insert_heartbeats_None: "insert_heartbeats s n ts = None \<longleftrightarrow> \<not> beat_fits s n" if "length ts = n"
proof (cases "heartbeat s = HEARTBEAT_ACTIVITY_NONE \<or> num_nodes s = 0")
  case True
  then show ?thesis by (auto simp: insert_heartbeats_def beat_fits_def)
next
  case False
  show ?thesis
  proof (cases "each_entry [0..<num_nodes s] heartbeat_entry ts")
    case None
    then have "n < num_nodes s" using that by (auto simp: each_entry_None)
    then show ?thesis using None False by (simp add: insert_heartbeats_def beat_fits_def)
  next
    case (Some ts1)
    then have "length ts1 = n" using each_entry_Some that by metis
    then have "each_entry [n div 2..<n div 2 + num_nodes s] heartbeat_entry ts1 = None \<longleftrightarrow> n < n div 2 + num_nodes s"
      using False by (auto simp: each_entry_None intro!: bexI [of _ "n div 2 + num_nodes s - 1"])
    then show ?thesis using Some False by (simp add: insert_heartbeats_def beat_fits_def Let_def not_le)
  qed
qed

lemma insert_heartbeats_nth:
  assumes "insert_heartbeats s n ts = Some ts'" "length ts = n" "k < n"
  shows "ts' ! k = (if beat_slot s n k then heartbeat_entry k (ts ! k) else ts ! k)"
proof (cases "heartbeat s = HEARTBEAT_ACTIVITY_NONE")
  case False
  then obtain ts1 where ts1: "each_entry [0..<num_nodes s] heartbeat_entry ts = Some ts1"
    "each_entry [n div 2..<n div 2 + num_nodes s] heartbeat_entry ts1 = Some ts'"
    using assms(1) by (auto simp: insert_heartbeats_def Let_def split: Option.bind_splits)
  have twice: "heartbeat_entry k (heartbeat_entry k t) = heartbeat_entry k t" for t
    by (simp add: heartbeat_entry_def Let_def)
  have "length ts1 = n" using each_entry_Some [OF ts1(1)] assms(2) by simp
  then show ?thesis
    using each_entry_nth [OF ts1(1)] each_entry_nth [OF ts1(2)] assms(2,3) False twice
    by (auto simp: beat_slot_def)
qed (use assms in \<open>simp add: insert_heartbeats_def beat_slot_def\<close>)

text \<open>
  C14: a base station sends and listens in every slot. Its FDD schedule can be written exactly when
  the heartbeats fit, that is, when a whole round of them fits after the middle of the schedule; then
  the slots of the first round and of the round from the middle on are heartbeats in both
  directions and all the others carry data in both directions.
\<close>

theorem sched_basestation:
  assumes "RadioScheduler True nid n nodes hb channels rx_rate tx_rate len delay u4 junk = Some s"
    "2 \<le> n" "n < 2 ^ 32" "0 < rx_rate" "0 < tx_rate" "0 \<le> delay"
  shows "(calcFddSchedule s start = None \<longleftrightarrow> \<not> beat_fits s (fdd_task_sched_size s)) \<and>
    (\<forall>s1 k. calcFddSchedule s start = Some s1 \<and> k < fdd_task_sched_size s \<longrightarrow>
      rx_task (fdd_task_sched s1 ! k) = (if beat_slot s (fdd_task_sched_size s) k then RF_TASK_RX_HEARTBEAT else RF_TASK_RX_DATA) \<and>
      tx_task (fdd_task_sched s1 ! k) = (if beat_slot s (fdd_task_sched_size s) k then RF_TASK_TX_HEARTBEAT else RF_TASK_TX_DATA))"
proof -
  let ?n = "fdd_task_sched_size s"
  have ok: "timing_ok s" and base: "node_is_basestation s" using constructor_ok [OF assms] by auto
  have len: "length (fdd_task_sched s) = ?n" using ok by (simp add: timing_ok_def)
  obtain ts1 where ts1: "each_entry [0..<?n] (rx_entry start (tau_fdd_slot s) 0) (fdd_task_sched s) = Some ts1"
    using each_entry_total [of "[0..<?n]" "fdd_task_sched s"] len by auto
  then have l1: "length ts1 = ?n" using each_entry_Some len by metis
  obtain ts2 where ts2: "each_entry [0..<?n] (tx_entry s RF_TASK_TX_DATA start (tau_fdd_slot s) 0) ts1 = Some ts2"
    using each_entry_total [of "[0..<?n]" ts1] l1 by auto
  then have l2: "length ts2 = ?n" using each_entry_Some l1 by metis
  have run: "calcFddSchedule s start = map_option (\<lambda>ts. s\<lparr>fdd_task_sched := ts\<rparr>) (insert_heartbeats s ?n ts2)"
    using ts1 ts2 base by (cases "insert_heartbeats s ?n ts2") (simp_all add: calcFddSchedule_def calc_schedule_def)
  have d: "rx_task (ts2 ! k) = RF_TASK_RX_DATA \<and> tx_task (ts2 ! k) = RF_TASK_TX_DATA" if "k < ?n" for k
    using each_entry_nth [OF ts1] each_entry_nth [OF ts2] that len l1 by (simp add: rx_entry_def tx_entry_def)
  have "rx_task (ts' ! k) = (if beat_slot s ?n k then RF_TASK_RX_HEARTBEAT else RF_TASK_RX_DATA) \<and>
      tx_task (ts' ! k) = (if beat_slot s ?n k then RF_TASK_TX_HEARTBEAT else RF_TASK_TX_DATA)"
    if "insert_heartbeats s ?n ts2 = Some ts'" "k < ?n" for ts' k
    using insert_heartbeats_nth [OF that(1) l2 that(2)] d [OF that(2)] by (simp add: heartbeat_entry_def Let_def)
  then show ?thesis using run insert_heartbeats_None [OF l2] by auto
qed

lemma find_slot_first: "find_slot nid nodes ks d = (case List.find (\<lambda>k. nid = nodes ! k) ks of Some k \<Rightarrow> k | None \<Rightarrow> d)"
  by (induction ks) auto


section \<open>Witnesses\<close>

lemma calc_schedule_base_total:
  assumes "node_is_basestation s" "heartbeat s = HEARTBEAT_ACTIVITY_NONE"
  shows "\<exists>ts'. calc_schedule s slot off nets (length ts) start ts = Some ts'"
proof -
  obtain ts1 where ts1: "each_entry [0..<length ts] (rx_entry start slot off) ts = Some ts1"
    using each_entry_total [of "[0..<length ts]" ts] by auto
  then have "length ts1 = length ts" using each_entry_Some by metis
  then obtain ts2 where "each_entry [0..<length ts] (tx_entry s RF_TASK_TX_DATA start slot off) ts1 = Some ts2"
    using each_entry_total [of "[0..<length ts]" ts1] by auto
  then show ?thesis using ts1 assms by (simp add: calc_schedule_def insert_heartbeats_def)
qed

lemma calc_base_total:
  assumes "node_is_basestation s" "heartbeat s = HEARTBEAT_ACTIVITY_NONE"
    "length (fdd_task_sched s) = fdd_task_sched_size s" "length (fh_task_sched s) = fh_task_sched_size s"
  shows "\<exists>s1. calcFddSchedule s start = Some s1" and "\<exists>s2. calcFhSchedule s start = Some s2"
proof -
  obtain ts where "calc_schedule s (tau_fdd_slot s) 0 (num_fdd_nets_persec s) (fdd_task_sched_size s) start (fdd_task_sched s) = Some ts"
    using calc_schedule_base_total [OF assms(1,2), where ts = "fdd_task_sched s"] unfolding assms(3) by blast
  then show "\<exists>s1. calcFddSchedule s start = Some s1" by (simp add: calcFddSchedule_def)
  obtain us where "calc_schedule s (tau_fh_slot s) (tau_tune s) (num_fh_nets_persec s) (fh_task_sched_size s) start (fh_task_sched s) = Some us"
    using calc_schedule_base_total [OF assms(1,2), where ts = "fh_task_sched s"] unfolding assms(4) by blast
  then show "\<exists>s2. calcFhSchedule s start = Some s2" by (simp add: calcFhSchedule_def)
qed

lemma sched_example_floors: "\<lfloor>990000 / 2543 :: rat\<rfloor> = 389" "\<lfloor>990000 / 3143 :: rat\<rfloor> = 314"
  by (rule floor_unique; simp)+

lemma sched_example:
  "RadioScheduler b 1 2 [1, 2] hb 1 1000000 1000000 1000 0 False 0 =
     Some (scheduler_of b 1 2 [1, 2] hb False 0 1 0 (1 / 1000) 1343 (1343 / 1000000) 389 314)"
  by (simp add: RadioScheduler_def rs_defaults nets_persec_def wrap32_def Let_def sched_example_floors)


lemma sched_basestation_witness:
  "\<exists>s. RadioScheduler True 1 2 [1, 2] HEARTBEAT_ACTIVITY_PER_SCHEDULE 1 1000000 1000000 1000 0 False 0 = Some s \<and>
    calcFddSchedule s 5 \<noteq> None"
proof -
  let ?s = "scheduler_of True 1 2 [1, 2] HEARTBEAT_ACTIVITY_PER_SCHEDULE False 0 1 0 (1 / 1000) 1343 (1343 / 1000000) 389 314"
  have "(2::nat) \<le> 2" "(2::nat) < 2 ^ 32" "(0::rat) < 1000000" "(0::rat) \<le> 0" by simp_all
  from sched_basestation [OF sched_example this(1-3) this(3) this(4), of HEARTBEAT_ACTIVITY_PER_SCHEDULE 5]
  have "calcFddSchedule ?s 5 = None \<longleftrightarrow> \<not> beat_fits ?s (fdd_task_sched_size ?s)" by blast
  moreover have "beat_fits ?s (fdd_task_sched_size ?s)" by (simp add: beat_fits_def scheduler_of_def wrap32_def Let_def)
  ultimately show ?thesis using sched_example by blast
qed


end
