(* ===== verification/Phy2Mac.thy ===== *)
theory Phy2Mac
  imports Packet_Store Radio_Scheduler
begin

text \<open>
  \<^verbatim>\<open>ofdm_radio/src/Phy2Mac.cc\<close>: the layer between the radio and the packet store. It builds the headers and
  payloads of outgoing frames, filters incoming ones, and decides from the fate of the expected
  heartbeats whether the net stays in its normal mode. Counters are natural numbers reduced to 32
  bits at every increment. \<open>None\<close> is a run ending in \<open>exit\<close>, in a copy beyond a buffer or from a null pointer.
  The theorems: frames reach exactly the nodes they are meant for, with their contents; the
  decision of heartbeat policy A is the majority of valid over jammed heartbeats; every operation
  keeps the sizes of the buffers and the ranges of the counters; and fetching a frame from an empty
  packet store reads from a null pointer.
\<close>

section \<open>State\<close>

datatype heartbeat_policy = HEARTBEAT_POLICY_LOCKED_TO_FDD | HEARTBEAT_POLICY_LOCKED_TO_FH | HEARTBEAT_POLICY_A | HEARTBEAT_POLICY_B

definition P2M_HEARTBEAT_SAMPLE_WINDOW :: nat where "P2M_HEARTBEAT_SAMPLE_WINDOW = 3"
definition P2M_FRAME_HEADER_DEFAULT_SIZE :: nat where "P2M_FRAME_HEADER_DEFAULT_SIZE = 8"
definition P2M_FRAME_HEADER_MAX_SIZE :: nat where "P2M_FRAME_HEADER_MAX_SIZE = 14"
definition P2M_FRAME_PAYLOAD_DEFAULT_SIZE :: nat where "P2M_FRAME_PAYLOAD_DEFAULT_SIZE = 2103"
definition P2M_DESTINATION_ID_NULL :: u8 where "P2M_DESTINATION_ID_NULL = 0"
definition P2M_DESTINATION_ID_BROADCAST :: u8 where "P2M_DESTINATION_ID_BROADCAST = 255"
definition P2M_FRAME_TYPE_IDLE_MAC :: u8 where "P2M_FRAME_TYPE_IDLE_MAC = 0"
definition P2M_FRAME_TYPE_DATA :: u8 where "P2M_FRAME_TYPE_DATA = 1"
definition P2M_FRAME_TYPE_HEARTBEAT :: u8 where "P2M_FRAME_TYPE_HEARTBEAT = 2"
definition P2M_FRAME_TYPE_TEST :: u8 where "P2M_FRAME_TYPE_TEST = 255"

record heartbeat_stats =
  hb_opportunity :: nat
  hb_missing :: nat
  hb_valid :: nat
  hb_errored :: nat
  hb_jammed :: nat

record p2m =
  p2m_basestation :: bool
  p2m_node_id :: u8
  hb_activity :: heartbeat_activity
  hb_policy :: heartbeat_policy
  header_buffer_size :: nat
  payload_buffer_size :: nat
  p2m_tun_tap :: bool
  idle_mac_frame_payload :: bytes
  heartbeat_frame_payload :: bytes
  test_frame_payload :: bytes
  rx_header_buffer :: bytes
  p2m_rx_payload_size :: nat
  rx_payload_buffer :: bytes
  rx_num_all_frames :: nat
  rx_num_idle_mac_frames :: nat
  rx_num_data_any_node_frames :: nat
  rx_num_data_this_node_frames :: nat
  rx_num_heartbeat_frames :: nat
  rx_num_test_frames :: nat
  rx_num_delivered2net_frames :: nat
  tx_header_buffer :: bytes
  p2m_tx_payload_size :: nat
  tx_payload_buffer :: bytes
  tx_data_frame_id :: nat
  tx_num_all_frames :: nat
  tx_num_idle_mac_frames :: nat
  tx_num_data_frames :: nat
  tx_num_heartbeat_frames :: nat
  tx_num_test_frames :: nat
  tx_num_fetched_net_frames :: nat
  window :: heartbeat_stats
  session :: heartbeat_stats
  heartbeat_sample_window :: nat
  heartbeat_sample_ctr :: nat
  selects_normal_mode :: bool
  ps :: packet_store

abbreviation inc :: "nat \<Rightarrow> nat" where "inc n \<equiv> wrap32 (Suc n)"

definition no_beats :: heartbeat_stats where
  "no_beats = \<lparr>hb_opportunity = 0, hb_missing = 0, hb_valid = 0, hb_errored = 0, hb_jammed = 0\<rparr>"

definition resetFrameStats :: "p2m \<Rightarrow> p2m" where
  "resetFrameStats p = p\<lparr>rx_num_all_frames := 0, rx_num_idle_mac_frames := 0, rx_num_data_any_node_frames := 0,
     rx_num_data_this_node_frames := 0, rx_num_heartbeat_frames := 0, rx_num_test_frames := 0, rx_num_delivered2net_frames := 0,
     tx_num_all_frames := 0, tx_num_idle_mac_frames := 0, tx_num_data_frames := 0, tx_num_heartbeat_frames := 0,
     tx_num_test_frames := 0, tx_num_fetched_net_frames := 0\<rparr>"

definition resetHeartbeatWindowStats :: "p2m \<Rightarrow> p2m" where
  "resetHeartbeatWindowStats p = p\<lparr>window := no_beats, heartbeat_sample_window := P2M_HEARTBEAT_SAMPLE_WINDOW,
     heartbeat_sample_ctr := 0\<rparr>"

definition resetHeartbeatStats :: "p2m \<Rightarrow> p2m" where
  "resetHeartbeatStats p = (resetHeartbeatWindowStats p)\<lparr>session := no_beats\<rparr>"

text \<open>\<open>junk\<close> is the object before its construction; its buffers are what the allocations hold.\<close>

definition Phy2Mac ::
  "p2m \<Rightarrow> (nat \<Rightarrow> bytes) \<Rightarrow> bool \<Rightarrow> u8 \<Rightarrow> heartbeat_activity \<Rightarrow> heartbeat_policy \<Rightarrow> nat \<Rightarrow> nat \<Rightarrow> bool \<Rightarrow> packet_store \<Rightarrow> p2m option" where
  "Phy2Mac junk mem basestation node activity policy header_size payload_size tun_tap store =
     (if header_size > P2M_FRAME_HEADER_MAX_SIZE \<or> payload_size > P2M_FRAME_PAYLOAD_MAX_SIZE then None
      else Some ((resetHeartbeatStats (resetFrameStats (junk\<lparr>
        p2m_basestation := basestation, p2m_node_id := node, hb_activity := activity, hb_policy := policy,
        header_buffer_size := header_size, payload_buffer_size := payload_size, p2m_tun_tap := tun_tap, ps := store,
        idle_mac_frame_payload := replicate payload_size 0, heartbeat_frame_payload := replicate payload_size 0,
        test_frame_payload := replicate payload_size 0,
        rx_header_buffer := mem header_size, p2m_rx_payload_size := 0, rx_payload_buffer := mem payload_size,
        tx_header_buffer := mem header_size, p2m_tx_payload_size := 0, tx_payload_buffer := mem payload_size,
        tx_data_frame_id := 0\<rparr>)))
        \<lparr>selects_normal_mode := (policy \<noteq> HEARTBEAT_POLICY_LOCKED_TO_FH)\<rparr>))"

section \<open>Heartbeats\<close>

definition updateHeartbeatPostTask :: "p2m \<Rightarrow> bool \<Rightarrow> bool \<Rightarrow> bool \<Rightarrow> p2m" where
  "updateHeartbeatPostTask p rx_frame_was_detected rx_frame_was_valid rx_frame_end_was_noisy =
     (let w = (window p)\<lparr>hb_opportunity := inc (hb_opportunity (window p))\<rparr>
      in if \<not> rx_frame_was_detected then
           (if rx_frame_end_was_noisy then p\<lparr>window := w\<lparr>hb_jammed := inc (hb_jammed w)\<rparr>\<rparr>
            else p\<lparr>window := w\<lparr>hb_missing := inc (hb_missing w)\<rparr>\<rparr>)
         else if rx_frame_was_detected \<and> \<not> rx_frame_was_valid then
           (if rx_frame_end_was_noisy then p\<lparr>window := w\<lparr>hb_jammed := inc (hb_jammed w)\<rparr>\<rparr>
            else p\<lparr>window := w\<lparr>hb_errored := inc (hb_errored w)\<rparr>\<rparr>)
         else if rx_frame_was_valid then
           p\<lparr>window := w\<lparr>hb_valid := inc (hb_valid w)\<rparr>, rx_num_heartbeat_frames := inc (rx_num_heartbeat_frames p)\<rparr>
         else p\<lparr>window := w\<rparr>)"

text \<open>The subtraction of \<^verbatim>\<open>unsigned int\<close>s.\<close>

definition sub32 :: "nat \<Rightarrow> nat \<Rightarrow> nat" where
  "sub32 a b = nat ((int a - int b) mod 2 ^ 32)"

definition policy_mode :: "p2m \<Rightarrow> bool \<Rightarrow> bool" where
  "policy_mode p waveform_is_normal =
     (case hb_policy p of
        HEARTBEAT_POLICY_LOCKED_TO_FDD \<Rightarrow> True
      | HEARTBEAT_POLICY_LOCKED_TO_FH \<Rightarrow> False
      | HEARTBEAT_POLICY_A \<Rightarrow>
          (if hb_opportunity (window p) < 2 then waveform_is_normal
           else wrap32 (2 * hb_jammed (window p)) \<le> sub32 (sub32 (hb_opportunity (window p)) (hb_missing (window p))) (hb_errored (window p)))
      | HEARTBEAT_POLICY_B \<Rightarrow> waveform_is_normal)"

text \<open>The session counter of missing heartbeats is not updated.\<close>

definition assessHeartbeatStats :: "p2m \<Rightarrow> bool \<Rightarrow> p2m" where
  "assessHeartbeatStats p waveform_is_normal =
     (if hb_activity p = HEARTBEAT_ACTIVITY_NONE then p
      else
        let p1 = p\<lparr>heartbeat_sample_ctr := inc (heartbeat_sample_ctr p)\<rparr>
        in if heartbeat_sample_ctr p1 = P2M_HEARTBEAT_SAMPLE_WINDOW then
             let p2 = p1\<lparr>selects_normal_mode := policy_mode p1 waveform_is_normal\<rparr>;
                 w = window p2;
                 s = session p2
             in resetHeartbeatWindowStats (p2\<lparr>session :=
                  s\<lparr>hb_opportunity := wrap32 (hb_opportunity s + hb_opportunity w), hb_valid := wrap32 (hb_valid s + hb_valid w),
                    hb_errored := wrap32 (hb_errored s + hb_errored w), hb_jammed := wrap32 (hb_jammed s + hb_jammed w)\<rparr>\<rparr>)
           else p1)"

definition doesHeartbeatSelectNormalMode :: "p2m \<Rightarrow> bool" where
  "doesHeartbeatSelectNormalMode p = selects_normal_mode p"

section \<open>Outgoing frames\<close>

text \<open>The five header fields every kind of frame writes.\<close>

definition write_header :: "nat \<Rightarrow> u8 \<Rightarrow> u8 \<Rightarrow> u8 \<Rightarrow> bytes \<Rightarrow> bytes option" where
  "write_header frame_id source dest frame_type hdr =
     copy_to hdr 0 [of_nat (frame_id div 256 mod 256), of_nat (frame_id mod 256), source, dest, frame_type] 5"

definition createDataTxFrame :: "p2m \<Rightarrow> u8 \<Rightarrow> nat \<Rightarrow> bytes \<Rightarrow> p2m option" where
  "createDataTxFrame p data_destination_id data_payload_size data_payload =
     (if data_payload_size > payload_buffer_size p then None
      else do {
        buf \<leftarrow> copy_to (tx_payload_buffer p) 0 data_payload data_payload_size;
        hdr \<leftarrow> write_header (tx_data_frame_id p) (p2m_node_id p) data_destination_id P2M_FRAME_TYPE_DATA (tx_header_buffer p);
        Some (p\<lparr>tx_payload_buffer := buf, p2m_tx_payload_size := data_payload_size, tx_header_buffer := hdr,
          tx_data_frame_id := (tx_data_frame_id p + 1) mod 2 ^ 16, tx_num_all_frames := inc (tx_num_all_frames p),
          tx_num_data_frames := inc (tx_num_data_frames p)\<rparr>)
      })"

definition emulateDataTxFrame :: "p2m \<Rightarrow> u8 \<Rightarrow> nat \<Rightarrow> p2m option" where
  "emulateDataTxFrame p test_destination_id test_payload_size = do {
     hdr \<leftarrow> write_header (tx_data_frame_id p) (p2m_node_id p) test_destination_id P2M_FRAME_TYPE_TEST (tx_header_buffer p);
     buf \<leftarrow> copy_to (tx_payload_buffer p) 0 (test_frame_payload p) test_payload_size;
     Some (p\<lparr>tx_payload_buffer := buf, p2m_tx_payload_size := test_payload_size, tx_header_buffer := hdr,
       tx_data_frame_id := (tx_data_frame_id p + 1) mod 2 ^ 16, tx_num_all_frames := inc (tx_num_all_frames p),
       tx_num_data_frames := inc (tx_num_data_frames p)\<rparr>)
   }"

definition createFrameFromPacketStore :: "p2m \<Rightarrow> u8 \<Rightarrow> p2m option" where
  "createFrameFromPacketStore p dest_node = do {
     hdr \<leftarrow> write_header (tx_data_frame_id p) (p2m_node_id p) dest_node P2M_FRAME_TYPE_DATA (tx_header_buffer p);
     (buf, store) \<leftarrow>
       (if store_size (ps p) \<ge> int (tx_data_frame_id p) then
          (case store_get_frame (ps p) (int (tx_data_frame_id p)) 0 of
             (None, _) \<Rightarrow> None
           | (Some src, store) \<Rightarrow> do {
               buf \<leftarrow> copy_to (tx_payload_buffer p) 0 src P2M_FRAME_PAYLOAD_DEFAULT_SIZE;
               Some (buf, store)
             })
        else do {
          buf \<leftarrow> copy_to (tx_payload_buffer p) 0 (test_frame_payload p) P2M_FRAME_PAYLOAD_DEFAULT_SIZE;
          Some (buf, ps p)
        });
     Some (p\<lparr>tx_payload_buffer := buf, p2m_tx_payload_size := P2M_FRAME_PAYLOAD_DEFAULT_SIZE, tx_header_buffer := hdr, ps := store,
       tx_data_frame_id := (tx_data_frame_id p + 1) mod 2 ^ 16, tx_num_all_frames := inc (tx_num_all_frames p),
       tx_num_data_frames := inc (tx_num_data_frames p)\<rparr>)
   }"

definition createHeartbeatTxFrame :: "p2m \<Rightarrow> p2m option" where
  "createHeartbeatTxFrame p = do {
     hdr \<leftarrow> write_header 0 (p2m_node_id p) P2M_DESTINATION_ID_BROADCAST P2M_FRAME_TYPE_HEARTBEAT (tx_header_buffer p);
     buf \<leftarrow> copy_to (tx_payload_buffer p) 0 (heartbeat_frame_payload p) P2M_FRAME_PAYLOAD_DEFAULT_SIZE;
     Some (p\<lparr>tx_payload_buffer := buf, p2m_tx_payload_size := P2M_FRAME_PAYLOAD_DEFAULT_SIZE, tx_header_buffer := hdr,
       tx_num_all_frames := inc (tx_num_all_frames p), tx_num_heartbeat_frames := inc (tx_num_heartbeat_frames p)\<rparr>)
   }"

definition createIdleMacTxFrame :: "p2m \<Rightarrow> p2m option" where
  "createIdleMacTxFrame p = do {
     hdr \<leftarrow> write_header 0 (p2m_node_id p) P2M_DESTINATION_ID_NULL P2M_FRAME_TYPE_IDLE_MAC (tx_header_buffer p);
     Some (p\<lparr>p2m_tx_payload_size := 1, tx_header_buffer := hdr,
       tx_num_all_frames := inc (tx_num_all_frames p), tx_num_idle_mac_frames := inc (tx_num_idle_mac_frames p)\<rparr>)
   }"

text \<open>The branch for a network without data is dead: its condition is the constant 1.\<close>

definition fetchTxFrame :: "p2m \<Rightarrow> p2m option" where
  "fetchTxFrame p = do {
     p1 \<leftarrow> (if p2m_tun_tap p then createFrameFromPacketStore p (of_int (get_next_frame_destination (ps p)))
           else emulateDataTxFrame p 123 P2M_FRAME_PAYLOAD_DEFAULT_SIZE);
     Some (p1\<lparr>tx_num_fetched_net_frames := inc (tx_num_fetched_net_frames p1)\<rparr>)
   }"

section \<open>Incoming frames\<close>

definition header_frame_id :: "bytes \<Rightarrow> nat" where
  "header_frame_id hdr = unat (hdr ! 0) * 256 + unat (hdr ! 1)"

definition deliverRxFrame :: "(nat \<Rightarrow> bytes) \<Rightarrow> (bytes \<Rightarrow> int) \<Rightarrow> p2m \<Rightarrow> p2m option" where
  "deliverRxFrame mem os_write p = do {
     store \<leftarrow> (if p2m_tun_tap p
              then map_option snd (store_add_frame mem os_write (ps p) (int (header_frame_id (rx_header_buffer p))) 0
                     (rx_payload_buffer p) P2M_FRAME_PAYLOAD_DEFAULT_SIZE)
              else Some (ps p));
     Some (p\<lparr>ps := store, rx_num_delivered2net_frames := inc (rx_num_delivered2net_frames p)\<rparr>)
   }"

definition frame_for_node :: "p2m \<Rightarrow> u8 \<Rightarrow> bool" where
  "frame_for_node p dest_node \<longleftrightarrow>
     p2m_basestation p \<or> dest_node = p2m_node_id p \<or> dest_node = P2M_DESTINATION_ID_BROADCAST"

definition updateMacPostTask :: "(nat \<Rightarrow> bytes) \<Rightarrow> (bytes \<Rightarrow> int) \<Rightarrow> p2m \<Rightarrow> bytes \<Rightarrow> nat \<Rightarrow> bytes \<Rightarrow> p2m option" where
  "updateMacPostTask mem os_write p input_frame_header input_payload_size input_frame_payload =
     (if length input_frame_header < 5 then None
      else
        let frame_type = input_frame_header ! 4;
            dest_node = input_frame_header ! 3;
            p1 = p\<lparr>rx_num_all_frames := inc (rx_num_all_frames p)\<rparr>
        in if frame_type = P2M_FRAME_TYPE_IDLE_MAC then Some (p1\<lparr>rx_num_idle_mac_frames := inc (rx_num_idle_mac_frames p1)\<rparr>)
           else if frame_type = P2M_FRAME_TYPE_DATA then
             let p2 = p1\<lparr>rx_num_data_any_node_frames := inc (rx_num_data_any_node_frames p1)\<rparr>
             in if frame_for_node p2 dest_node then do {
                  let p3 = p2\<lparr>rx_num_data_this_node_frames := inc (rx_num_data_this_node_frames p2)\<rparr>;
                  hdr \<leftarrow> copy_to (rx_header_buffer p3) 0 input_frame_header P2M_FRAME_HEADER_DEFAULT_SIZE;
                  if input_payload_size > payload_buffer_size p3 then None
                  else do {
                    buf \<leftarrow> copy_to (rx_payload_buffer p3) 0 input_frame_payload input_payload_size;
                    deliverRxFrame mem os_write (p3\<lparr>rx_header_buffer := hdr, rx_payload_buffer := buf\<rparr>)
                  }
                } else Some p2
           else if frame_type = P2M_FRAME_TYPE_TEST then Some (p1\<lparr>rx_num_test_frames := inc (rx_num_test_frames p1)\<rparr>)
           else Some p1)"

definition p2m_close_interface :: "p2m \<Rightarrow> p2m" where
  "p2m_close_interface p = p\<lparr>ps := store_close_interface (ps p)\<rparr>"

section \<open>Decision over a window of heartbeats\<close>

text \<open>What the radio reports of an expected heartbeat: whether a frame was detected, was valid, and ended in noise.\<close>

type_synonym beat = "bool \<times> bool \<times> bool"

fun beat_missing :: "beat \<Rightarrow> bool" where "beat_missing (d, v, n) \<longleftrightarrow> \<not> d \<and> \<not> n"
fun beat_jammed :: "beat \<Rightarrow> bool" where "beat_jammed (d, v, n) \<longleftrightarrow> n \<and> (\<not> d \<or> \<not> v)"
fun beat_errored :: "beat \<Rightarrow> bool" where "beat_errored (d, v, n) \<longleftrightarrow> d \<and> \<not> v \<and> \<not> n"
fun beat_valid :: "beat \<Rightarrow> bool" where "beat_valid (d, v, n) \<longleftrightarrow> d \<and> v"

definition beats :: "beat list \<Rightarrow> p2m \<Rightarrow> p2m" where
  "beats bs p = fold (\<lambda>(d, v, n) p. updateHeartbeatPostTask p d v n) bs p"

abbreviation "count P xs \<equiv> length (filter P xs)"

definition stats_of :: "beat list \<Rightarrow> heartbeat_stats" where
  "stats_of bs = \<lparr>hb_opportunity = length bs, hb_missing = count beat_missing bs, hb_valid = count beat_valid bs,
     hb_errored = count beat_errored bs, hb_jammed = count beat_jammed bs\<rparr>"

lemma beats_append: "beats (xs @ ys) p = beats ys (beats xs p)"
  by (simp add: beats_def)

lemma every_beat_counted: "length bs = count beat_missing bs + count beat_valid bs + count beat_errored bs + count beat_jammed bs"
proof (induction bs)
  case (Cons b bs)
  obtain d v n where "b = (d, v, n)" by (cases b)
  then show ?case using Cons by auto
qed simp

lemma beats_window:
  "length bs < 2 ^ 32 \<Longrightarrow> length bs + length as < 2 ^ 32 \<Longrightarrow> window p = stats_of as \<Longrightarrow> window (beats bs p) = stats_of (as @ bs)"
proof (induction bs arbitrary: as p)
  case (Cons b bs)
  obtain d v n where b: "b = (d, v, n)" by (cases b)
  have c: "count beat_missing as \<le> length as" "count beat_valid as \<le> length as" "count beat_errored as \<le> length as"
    "count beat_jammed as \<le> length as" by (rule length_filter_le)+
  have i: "inc m = Suc m" if "m \<le> length as" for m using Cons.prems(2) that by (intro wrap32_id) simp
  have "window (updateHeartbeatPostTask p d v n) = stats_of (as @ [b])"
    using Cons.prems(3) i [OF le_refl] i [OF c(1)] i [OF c(2)] i [OF c(3)] i [OF c(4)] by (auto simp: updateHeartbeatPostTask_def stats_of_def b Let_def)
  from Cons.IH [OF _ _ this] Cons.prems b show ?case by (simp add: beats_def)
qed (simp add: beats_def)

lemma beats_other: "hb_activity (beats bs p) = hb_activity p" "hb_policy (beats bs p) = hb_policy p"
  "heartbeat_sample_ctr (beats bs p) = heartbeat_sample_ctr p" "session (beats bs p) = session p"
  "selects_normal_mode (beats bs p) = selects_normal_mode p"
proof -
  have u: "hb_activity (updateHeartbeatPostTask p d v n) = hb_activity p \<and> hb_policy (updateHeartbeatPostTask p d v n) = hb_policy p \<and>
    heartbeat_sample_ctr (updateHeartbeatPostTask p d v n) = heartbeat_sample_ctr p \<and>
    session (updateHeartbeatPostTask p d v n) = session p \<and>
    selects_normal_mode (updateHeartbeatPostTask p d v n) = selects_normal_mode p" for p d v n
    by (simp add: updateHeartbeatPostTask_def Let_def)
  show "hb_activity (beats bs p) = hb_activity p" "hb_policy (beats bs p) = hb_policy p"
    "heartbeat_sample_ctr (beats bs p) = heartbeat_sample_ctr p" "session (beats bs p) = session p"
    "selects_normal_mode (beats bs p) = selects_normal_mode p"
    by (induction bs arbitrary: p) (simp_all add: beats_def u split_def)
qed

lemma sub32_id: "b \<le> a \<Longrightarrow> a < 2 ^ 32 \<Longrightarrow> sub32 a b = a - b"
proof -
  assume a: "b \<le> a" "a < 2 ^ 32"
  then have "int a - int b = int (a - b)" by simp
  moreover have "int (a - b) mod 2 ^ 32 = int (a - b)" using a by (intro mod_pos_pos_trivial) auto
  ultimately show ?thesis by (simp only: sub32_def nat_int)
qed

text \<open>The meaning of the policies on the heartbeats of a window.\<close>

definition mode_of :: "heartbeat_policy \<Rightarrow> beat list \<Rightarrow> bool \<Rightarrow> bool" where
  "mode_of policy bs now =
     (case policy of
        HEARTBEAT_POLICY_LOCKED_TO_FDD \<Rightarrow> True
      | HEARTBEAT_POLICY_LOCKED_TO_FH \<Rightarrow> False
      | HEARTBEAT_POLICY_A \<Rightarrow> (if length bs < 2 then now else count beat_jammed bs \<le> count beat_valid bs)
      | HEARTBEAT_POLICY_B \<Rightarrow> now)"

lemma policy_mode_of:
  assumes "window p = stats_of bs" "length bs < 2 ^ 31"
  shows "policy_mode p now = mode_of (hb_policy p) bs now"
proof -
  have e: "length bs = count beat_missing bs + count beat_valid bs + count beat_errored bs + count beat_jammed bs"
    by (rule every_beat_counted)
  have "sub32 (length bs) (count beat_missing bs) = length bs - count beat_missing bs"
    by (rule sub32_id) (use e assms(2) in auto)
  moreover have "sub32 (length bs - count beat_missing bs) (count beat_errored bs) = length bs - count beat_missing bs - count beat_errored bs"
    by (rule sub32_id) (use e assms(2) in auto)
  moreover have "length bs - count beat_missing bs - count beat_errored bs = count beat_valid bs + count beat_jammed bs"
    using e by linarith
  moreover have "wrap32 (2 * count beat_jammed bs) = 2 * count beat_jammed bs"
  proof (rule wrap32_id)
    show "2 * count beat_jammed bs < 2 ^ 32"
      by (rule le_less_trans [OF mult_le_mono2 [OF length_filter_le]]) (use assms(2) in simp)
  qed
  ultimately show ?thesis
    using assms(1) by (auto simp: policy_mode_def mode_of_def stats_of_def split: heartbeat_policy.split)
qed

lemma assess_inside:
  "hb_activity p = HEARTBEAT_ACTIVITY_PER_SCHEDULE \<Longrightarrow> heartbeat_sample_ctr p < 2 \<Longrightarrow>
   assessHeartbeatStats p now = p\<lparr>heartbeat_sample_ctr := Suc (heartbeat_sample_ctr p)\<rparr>"
  by (simp add: assessHeartbeatStats_def P2M_HEARTBEAT_SAMPLE_WINDOW_def Let_def)


section \<open>Buffers and counters keep their sizes\<close>

lemma copy_to_length: "copy_to dst off src n = Some buf \<Longrightarrow> length buf = length dst"
  by (auto simp: copy_to_def split: if_splits)

lemma write_header_length: "write_header i src dest ty hdr = Some hdr' \<Longrightarrow> length hdr' = length hdr"
  by (simp add: write_header_def copy_to_length)

definition stats_ok :: "heartbeat_stats \<Rightarrow> bool" where
  "stats_ok w \<longleftrightarrow> hb_opportunity w < 2 ^ 32 \<and> hb_missing w < 2 ^ 32 \<and> hb_valid w < 2 ^ 32 \<and> hb_errored w < 2 ^ 32 \<and> hb_jammed w < 2 ^ 32"

definition buffers_ok :: "p2m \<Rightarrow> bool" where
  "buffers_ok p \<longleftrightarrow> header_buffer_size p \<le> P2M_FRAME_HEADER_MAX_SIZE \<and> payload_buffer_size p \<le> P2M_FRAME_PAYLOAD_MAX_SIZE \<and>
     length (rx_header_buffer p) = header_buffer_size p \<and> length (tx_header_buffer p) = header_buffer_size p \<and>
     length (rx_payload_buffer p) = payload_buffer_size p \<and> length (tx_payload_buffer p) = payload_buffer_size p \<and>
     length (test_frame_payload p) = payload_buffer_size p \<and> length (heartbeat_frame_payload p) = payload_buffer_size p \<and>
     p2m_tx_payload_size p \<le> payload_buffer_size p \<and> 0 < payload_buffer_size p"

definition counters_ok :: "p2m \<Rightarrow> bool" where
  "counters_ok p \<longleftrightarrow> tx_data_frame_id p < 2 ^ 16 \<and> stats_ok (window p) \<and> stats_ok (session p) \<and> heartbeat_sample_ctr p < 2 ^ 32 \<and>
     list_all (\<lambda>n. n < 2 ^ 32) [rx_num_all_frames p, rx_num_idle_mac_frames p, rx_num_data_any_node_frames p,
       rx_num_data_this_node_frames p, rx_num_heartbeat_frames p, rx_num_test_frames p, rx_num_delivered2net_frames p,
       tx_num_all_frames p, tx_num_idle_mac_frames p, tx_num_data_frames p, tx_num_heartbeat_frames p, tx_num_test_frames p,
       tx_num_fetched_net_frames p]"

definition p2m_ok :: "p2m \<Rightarrow> bool" where
  "p2m_ok p \<longleftrightarrow> buffers_ok p \<and> counters_ok p"

lemmas p2m_ok_defs = p2m_ok_def buffers_ok_def counters_ok_def stats_ok_def

lemma wrap32_lt [simp]: "wrap32 n < 4294967296"
  using wrap32_less [of n] by simp

inductive p2m_step :: "p2m \<Rightarrow> p2m \<Rightarrow> bool" where
  data: "createDataTxFrame p dest n d = Some p' \<Longrightarrow> p2m_step p p'"
| fetch: "fetchTxFrame p = Some p' \<Longrightarrow> p2m_step p p'"
| emulate: "emulateDataTxFrame p dest n = Some p' \<Longrightarrow> p2m_step p p'"
| from_store: "createFrameFromPacketStore p dest = Some p' \<Longrightarrow> p2m_step p p'"
| heartbeat: "createHeartbeatTxFrame p = Some p' \<Longrightarrow> p2m_step p p'"
| idle: "createIdleMacTxFrame p = Some p' \<Longrightarrow> p2m_step p p'"
| receive: "updateMacPostTask mem os_write p hdr n d = Some p' \<Longrightarrow> p2m_step p p'"
| beat: "p2m_step p (updateHeartbeatPostTask p d v n)"
| assess: "p2m_step p (assessHeartbeatStats p now)"
| reset_frames: "p2m_step p (resetFrameStats p)"
| reset_beats: "p2m_step p (resetHeartbeatStats p)"
| close: "p2m_step p (p2m_close_interface p)"

inductive p2m_reachable :: "p2m \<Rightarrow> p2m \<Rightarrow> bool" for p0 where
  start: "p2m_reachable p0 p0"
| step: "p2m_reachable p0 p \<Longrightarrow> p2m_step p p' \<Longrightarrow> p2m_reachable p0 p'"

lemma bind_Some_elim: "do { x \<leftarrow> m; f x } = Some y \<Longrightarrow> (\<And>x. m = Some x \<Longrightarrow> f x = Some y \<Longrightarrow> P) \<Longrightarrow> P"
  by (cases m) auto

lemma copy_to_fits: "copy_to dst off src n = Some buf \<Longrightarrow> off + n \<le> length dst"
  by (auto simp: copy_to_def split: if_splits)

text \<open>A frame built in the transmit buffers.\<close>

lemma sent_ok:
  assumes "p2m_ok p" "length buf = payload_buffer_size p" "length hdr = header_buffer_size p" "n \<le> payload_buffer_size p"
  shows "p2m_ok (p\<lparr>tx_payload_buffer := buf, p2m_tx_payload_size := n, tx_header_buffer := hdr, ps := store,
      tx_data_frame_id := i mod 2 ^ 16, tx_num_all_frames := inc c, tx_num_data_frames := inc e\<rparr>)"
    and "p2m_ok (p\<lparr>tx_payload_buffer := buf, p2m_tx_payload_size := n, tx_header_buffer := hdr,
      tx_data_frame_id := i mod 2 ^ 16, tx_num_all_frames := inc c, tx_num_data_frames := inc e\<rparr>)"
    and "p2m_ok (p\<lparr>tx_payload_buffer := buf, p2m_tx_payload_size := n, tx_header_buffer := hdr,
      tx_num_all_frames := inc c, tx_num_heartbeat_frames := inc e\<rparr>)"
  using assms by (simp_all add: p2m_ok_defs)

lemma frame_pieces:
  assumes "p2m_ok p" "write_header i src dest ty (tx_header_buffer p) = Some hdr" "copy_to (tx_payload_buffer p) 0 d n = Some buf"
  shows "length buf = payload_buffer_size p" "length hdr = header_buffer_size p" "n \<le> payload_buffer_size p"
  using copy_to_length [OF assms(3)] copy_to_fits [OF assms(3)] write_header_length [OF assms(2)] assms(1)
  by (simp_all add: p2m_ok_def buffers_ok_def)

lemma data_ok: "p2m_ok p \<Longrightarrow> createDataTxFrame p dest n d = Some p' \<Longrightarrow> p2m_ok p'"
proof -
  assume a: "p2m_ok p" "createDataTxFrame p dest n d = Some p'"
  then obtain hdr buf where h: "write_header (tx_data_frame_id p) (p2m_node_id p) dest P2M_FRAME_TYPE_DATA (tx_header_buffer p) = Some hdr"
    "copy_to (tx_payload_buffer p) 0 d n = Some buf"
    "p' = p\<lparr>tx_payload_buffer := buf, p2m_tx_payload_size := n, tx_header_buffer := hdr,
      tx_data_frame_id := (tx_data_frame_id p + 1) mod 2 ^ 16, tx_num_all_frames := inc (tx_num_all_frames p),
      tx_num_data_frames := inc (tx_num_data_frames p)\<rparr>"
    unfolding createDataTxFrame_def Suc_eq_plus1 by (auto split: if_splits elim!: bind_Some_elim)
  show ?thesis unfolding h(3) by (rule sent_ok(2) [OF a(1) frame_pieces [OF a(1) h(1,2)]])
qed

lemma emulate_ok: "p2m_ok p \<Longrightarrow> emulateDataTxFrame p dest n = Some p' \<Longrightarrow> p2m_ok p'"
proof -
  assume a: "p2m_ok p" "emulateDataTxFrame p dest n = Some p'"
  then obtain hdr buf where h: "write_header (tx_data_frame_id p) (p2m_node_id p) dest P2M_FRAME_TYPE_TEST (tx_header_buffer p) = Some hdr"
    "copy_to (tx_payload_buffer p) 0 (test_frame_payload p) n = Some buf"
    "p' = p\<lparr>tx_payload_buffer := buf, p2m_tx_payload_size := n, tx_header_buffer := hdr,
      tx_data_frame_id := (tx_data_frame_id p + 1) mod 2 ^ 16, tx_num_all_frames := inc (tx_num_all_frames p),
      tx_num_data_frames := inc (tx_num_data_frames p)\<rparr>"
    unfolding emulateDataTxFrame_def by (elim bind_Some_elim) blast
  show ?thesis unfolding h(3) by (rule sent_ok(2) [OF a(1) frame_pieces [OF a(1) h(1,2)]])
qed

lemma from_store_ok: "p2m_ok p \<Longrightarrow> createFrameFromPacketStore p dest = Some p' \<Longrightarrow> p2m_ok p'"
proof -
  assume a: "p2m_ok p" "createFrameFromPacketStore p dest = Some p'"
  then obtain hdr buf store where h: "write_header (tx_data_frame_id p) (p2m_node_id p) dest P2M_FRAME_TYPE_DATA (tx_header_buffer p) = Some hdr"
    "(if store_size (ps p) \<ge> int (tx_data_frame_id p) then
          (case store_get_frame (ps p) (int (tx_data_frame_id p)) 0 of
             (None, _) \<Rightarrow> None
           | (Some src, store) \<Rightarrow> do {
               buf \<leftarrow> copy_to (tx_payload_buffer p) 0 src P2M_FRAME_PAYLOAD_DEFAULT_SIZE;
               Some (buf, store)
             })
        else do {
          buf \<leftarrow> copy_to (tx_payload_buffer p) 0 (test_frame_payload p) P2M_FRAME_PAYLOAD_DEFAULT_SIZE;
          Some (buf, ps p)
        }) = Some (buf, store)"
    "p' = p\<lparr>tx_payload_buffer := buf, p2m_tx_payload_size := P2M_FRAME_PAYLOAD_DEFAULT_SIZE, tx_header_buffer := hdr, ps := store,
      tx_data_frame_id := (tx_data_frame_id p + 1) mod 2 ^ 16, tx_num_all_frames := inc (tx_num_all_frames p),
      tx_num_data_frames := inc (tx_num_data_frames p)\<rparr>"
    unfolding createFrameFromPacketStore_def by (elim bind_Some_elim) (auto elim!: bind_Some_elim)
  then obtain src where "copy_to (tx_payload_buffer p) 0 src P2M_FRAME_PAYLOAD_DEFAULT_SIZE = Some buf"
    by (auto split: if_splits prod.splits option.splits elim!: bind_Some_elim)
  from frame_pieces [OF a(1) h(1) this] show ?thesis unfolding h(3) by (intro sent_ok(1) [OF a(1)])
qed

lemma fetch_ok: "p2m_ok p \<Longrightarrow> fetchTxFrame p = Some p' \<Longrightarrow> p2m_ok p'"
proof -
  assume a: "p2m_ok p" "fetchTxFrame p = Some p'"
  then obtain p1 where p1: "(if p2m_tun_tap p then createFrameFromPacketStore p (of_int (get_next_frame_destination (ps p)))
      else emulateDataTxFrame p 123 P2M_FRAME_PAYLOAD_DEFAULT_SIZE) = Some p1"
    and p': "p' = p1\<lparr>tx_num_fetched_net_frames := inc (tx_num_fetched_net_frames p1)\<rparr>"
    unfolding fetchTxFrame_def by (elim bind_Some_elim) blast
  have "p2m_ok p1"
  proof (cases "p2m_tun_tap p")
    case True
    then show ?thesis using p1 by (simp add: from_store_ok [OF a(1)])
  next
    case False
    then show ?thesis using p1 by (simp add: emulate_ok [OF a(1)])
  qed
  then show ?thesis unfolding p' by (simp add: p2m_ok_defs)
qed

lemma heartbeat_ok: "p2m_ok p \<Longrightarrow> createHeartbeatTxFrame p = Some p' \<Longrightarrow> p2m_ok p'"
proof -
  assume a: "p2m_ok p" "createHeartbeatTxFrame p = Some p'"
  then obtain hdr buf where h: "write_header 0 (p2m_node_id p) P2M_DESTINATION_ID_BROADCAST P2M_FRAME_TYPE_HEARTBEAT (tx_header_buffer p) = Some hdr"
    "copy_to (tx_payload_buffer p) 0 (heartbeat_frame_payload p) P2M_FRAME_PAYLOAD_DEFAULT_SIZE = Some buf"
    "p' = p\<lparr>tx_payload_buffer := buf, p2m_tx_payload_size := P2M_FRAME_PAYLOAD_DEFAULT_SIZE, tx_header_buffer := hdr,
       tx_num_all_frames := inc (tx_num_all_frames p), tx_num_heartbeat_frames := inc (tx_num_heartbeat_frames p)\<rparr>"
    unfolding createHeartbeatTxFrame_def by (elim bind_Some_elim) blast
  show ?thesis unfolding h(3) by (rule sent_ok(3) [OF a(1) frame_pieces [OF a(1) h(1,2)]])
qed

lemma idle_ok: "p2m_ok p \<Longrightarrow> createIdleMacTxFrame p = Some p' \<Longrightarrow> p2m_ok p'"
proof -
  assume a: "p2m_ok p" "createIdleMacTxFrame p = Some p'"
  then obtain hdr where h: "write_header 0 (p2m_node_id p) P2M_DESTINATION_ID_NULL P2M_FRAME_TYPE_IDLE_MAC (tx_header_buffer p) = Some hdr"
    "p' = p\<lparr>p2m_tx_payload_size := 1, tx_header_buffer := hdr,
       tx_num_all_frames := inc (tx_num_all_frames p), tx_num_idle_mac_frames := inc (tx_num_idle_mac_frames p)\<rparr>"
    unfolding createIdleMacTxFrame_def by (elim bind_Some_elim) blast
  have "length hdr = length (tx_header_buffer p)" by (rule write_header_length [OF h(1)])
  then show ?thesis using a(1) unfolding h(2) by (simp add: p2m_ok_defs)
qed

lemma deliver_rx_ok: "p2m_ok p \<Longrightarrow> deliverRxFrame mem os_write p = Some p' \<Longrightarrow> p2m_ok p'"
proof -
  assume a: "p2m_ok p" "deliverRxFrame mem os_write p = Some p'"
  then obtain store where h: "p' = p\<lparr>ps := store, rx_num_delivered2net_frames := inc (rx_num_delivered2net_frames p)\<rparr>"
    unfolding deliverRxFrame_def by (elim bind_Some_elim) blast
  show ?thesis using a(1) unfolding h by (simp add: p2m_ok_defs)
qed

lemma receive_ok: "p2m_ok p \<Longrightarrow> updateMacPostTask mem os_write p hdr n d = Some p' \<Longrightarrow> p2m_ok p'"
proof -
  assume a: "p2m_ok p" "updateMacPostTask mem os_write p hdr n d = Some p'"
  let ?p1 = "p\<lparr>rx_num_all_frames := inc (rx_num_all_frames p)\<rparr>"
  let ?p2 = "?p1\<lparr>rx_num_data_any_node_frames := inc (rx_num_data_any_node_frames ?p1)\<rparr>"
  let ?p3 = "?p2\<lparr>rx_num_data_this_node_frames := inc (rx_num_data_this_node_frames ?p2)\<rparr>"
  have ok: "p2m_ok ?p1" "p2m_ok ?p2" "p2m_ok ?p3" "p2m_ok (?p1\<lparr>rx_num_idle_mac_frames := inc (rx_num_idle_mac_frames ?p1)\<rparr>)"
    "p2m_ok (?p1\<lparr>rx_num_test_frames := inc (rx_num_test_frames ?p1)\<rparr>)"
    using a(1) by (simp_all add: p2m_ok_defs)
  have del: "p2m_ok p'" if "copy_to (rx_header_buffer ?p3) 0 hdr k = Some h" "copy_to (rx_payload_buffer ?p3) 0 d n = Some b"
    "deliverRxFrame mem os_write (?p3\<lparr>rx_header_buffer := h, rx_payload_buffer := b\<rparr>) = Some p'" for h b k
  proof (rule deliver_rx_ok [OF _ that(3)])
    show "p2m_ok (?p3\<lparr>rx_header_buffer := h, rx_payload_buffer := b\<rparr>)"
      using ok(3) copy_to_length [OF that(1)] copy_to_length [OF that(2)] by (simp add: p2m_ok_defs)
  qed
  show ?thesis using a(2) ok del
    by (auto simp: updateMacPostTask_def Let_def split: if_splits Option.bind_splits)
qed

lemma beat_ok: "p2m_ok p \<Longrightarrow> p2m_ok (updateHeartbeatPostTask p d v n)"
  by (simp add: updateHeartbeatPostTask_def p2m_ok_defs Let_def)

lemma assess_ok: "p2m_ok p \<Longrightarrow> p2m_ok (assessHeartbeatStats p now)"
  by (simp add: assessHeartbeatStats_def resetHeartbeatWindowStats_def no_beats_def p2m_ok_defs Let_def)

lemma reset_ok: "p2m_ok p \<Longrightarrow> p2m_ok (resetFrameStats p) \<and> p2m_ok (resetHeartbeatStats p) \<and> p2m_ok (p2m_close_interface p)"
  by (simp add: resetFrameStats_def resetHeartbeatStats_def resetHeartbeatWindowStats_def p2m_close_interface_def no_beats_def p2m_ok_defs)

lemma p2m_step_ok: "p2m_step p p' \<Longrightarrow> p2m_ok p \<Longrightarrow> p2m_ok p'"
  by (induction rule: p2m_step.induct)
    (auto intro: data_ok fetch_ok emulate_ok from_store_ok heartbeat_ok idle_ok receive_ok beat_ok assess_ok simp: reset_ok)



section \<open>Frames between two nodes\<close>

text \<open>A sender hands data frames to a receiver one after the other, each over an undisturbed radio link.\<close>

fun exchange :: "(nat \<Rightarrow> bytes) \<Rightarrow> (bytes \<Rightarrow> int) \<Rightarrow> (u8 \<times> bytes) list \<Rightarrow> p2m \<Rightarrow> p2m \<Rightarrow> (p2m \<times> p2m) option" where
  "exchange mem os_write [] p q = Some (p, q)"
| "exchange mem os_write ((dest, d) # ms) p q = do {
     p' \<leftarrow> createDataTxFrame p dest (length d) d;
     q' \<leftarrow> updateMacPostTask mem os_write q (tx_header_buffer p') (p2m_tx_payload_size p') (tx_payload_buffer p');
     exchange mem os_write ms p' q'
   }"

text \<open>A store that gets a packet of one frame writes it at once and forgets it.\<close>

lemma store_one_frame:
  assumes "rx_packets st = []" "frame_len st = n" "0 < n" "n < 2 ^ 32" "n \<le> length d" "\<And>k. length (mem k) = k"
    "os_write (take n d) = int n"
  shows "\<exists>st'. store_add_frame mem os_write st i 0 d n = Some (PACKET_COMPLETE, st') \<and> rx_packets st' = [] \<and>
    frame_len st' = n \<and> tun_out st' = tun_out st @ [take n d]"
proof -
  have c: "copy_to (mem n) 0 d n = Some (take n d)" using assms(5,6) by (simp add: copy_to_def)
  have r: "RxPayload (mem n) i n n = Some \<lparr>rx_id = i, rx_payload_size = n, rx_bytes = mem n, frame_received = [False],
      rx_frames_per_packet = 1, rx_frame_size = n, rx_last_frame_size = n\<rparr>"
    using assms(3) by (simp add: RxPayload_def)
  have "wrap32 n = n" using assms(4) by (intro wrap32_id) simp
  then show ?thesis using assms
    by (simp add: store_add_frame_def r rx_add_frame_def c finish_packet_def isComplete_def cwrite_def)
qed

lemma write_header_fields:
  assumes "5 \<le> length hdr" "i < 2 ^ 16"
  shows "\<exists>h. write_header i src dest ty hdr = Some h \<and> length h = length hdr \<and> h ! 2 = src \<and> h ! 3 = dest \<and> h ! 4 = ty \<and>
    header_frame_id h = i"
proof -
  have "take 5 [of_nat (i div 256 mod 256), of_nat (i mod 256), src, dest, ty] =
    [of_nat (i div 256 mod 256) :: u8, of_nat (i mod 256), src, dest, ty]" by simp
  moreover have "unat (of_nat (i div 256 mod 256) :: u8) = i div 256" "unat (of_nat (i mod 256) :: u8) = i mod 256"
    using assms(2) by (simp_all add: unat_of_nat take_bit_eq_mod)
  ultimately show ?thesis using assms(1) by (auto simp: write_header_def copy_to_def header_frame_id_def)
qed

lemma header_copy:
  assumes "8 \<le> length hdr" "8 \<le> length h"
  shows "\<exists>c. copy_to hdr 0 h P2M_FRAME_HEADER_DEFAULT_SIZE = Some c \<and> length c = length hdr \<and> header_frame_id c = header_frame_id h"
proof -
  have "take 8 h ! 0 = h ! 0" "take 8 h ! Suc 0 = h ! Suc 0" using assms(2) by auto
  then show ?thesis
    using assms by (simp add: copy_to_def P2M_FRAME_HEADER_DEFAULT_SIZE_def header_frame_id_def nth_append)
qed

lemma create_data:
  assumes "buffers_ok p" "8 \<le> header_buffer_size p" "tx_data_frame_id p < 2 ^ 16" "length d \<le> payload_buffer_size p"
  shows "\<exists>p'. createDataTxFrame p dest (length d) d = Some p' \<and> buffers_ok p' \<and> header_buffer_size p' = header_buffer_size p \<and>
    payload_buffer_size p' = payload_buffer_size p \<and> tx_data_frame_id p' = (tx_data_frame_id p + 1) mod 2 ^ 16 \<and>
    p2m_tx_payload_size p' = length d \<and> take (length d) (tx_payload_buffer p') = d \<and> p2m_node_id p' = p2m_node_id p \<and>
    tx_header_buffer p' ! 2 = p2m_node_id p \<and> tx_header_buffer p' ! 3 = dest \<and> tx_header_buffer p' ! 4 = P2M_FRAME_TYPE_DATA \<and>
    header_frame_id (tx_header_buffer p') = tx_data_frame_id p"
proof -
  have "5 \<le> length (tx_header_buffer p)" using assms(1,2) by (simp add: buffers_ok_def)
  from write_header_fields [OF this assms(3), of "p2m_node_id p" dest P2M_FRAME_TYPE_DATA] obtain h where
    h: "write_header (tx_data_frame_id p) (p2m_node_id p) dest P2M_FRAME_TYPE_DATA (tx_header_buffer p) = Some h"
    "length h = length (tx_header_buffer p)" "h ! 2 = p2m_node_id p" "h ! 3 = dest" "h ! 4 = P2M_FRAME_TYPE_DATA"
    "header_frame_id h = tx_data_frame_id p" by blast
  have "copy_to (tx_payload_buffer p) 0 d (length d) = Some (d @ drop (length d) (tx_payload_buffer p))"
    using assms(1,4) by (simp add: copy_to_def buffers_ok_def)
  then show ?thesis using h assms by (simp add: createDataTxFrame_def buffers_ok_def)
qed

text \<open>What a receiver does with a data frame, on a store that waits for nothing.\<close>

definition receiver_ok :: "p2m \<Rightarrow> bool" where
  "receiver_ok q \<longleftrightarrow> buffers_ok q \<and> 8 \<le> header_buffer_size q \<and> P2M_FRAME_PAYLOAD_DEFAULT_SIZE \<le> payload_buffer_size q \<and>
     p2m_tun_tap q \<and> rx_packets (ps q) = [] \<and> frame_len (ps q) = P2M_FRAME_PAYLOAD_DEFAULT_SIZE"

lemma receive_data:
  assumes "receiver_ok q" "8 \<le> length h" "h ! 4 = P2M_FRAME_TYPE_DATA" "n \<le> payload_buffer_size q" "n \<le> length d"
    "\<And>k. length (mem k) = k" "\<And>b. os_write b = int (length b)"
  shows "\<exists>q'. updateMacPostTask mem os_write q h n d = Some q' \<and> receiver_ok q' \<and> p2m_basestation q' = p2m_basestation q \<and>
    p2m_node_id q' = p2m_node_id q \<and> payload_buffer_size q' = payload_buffer_size q \<and>
    rx_num_data_any_node_frames q' = inc (rx_num_data_any_node_frames q) \<and>
    (if frame_for_node q (h ! 3)
     then tun_out (ps q') = tun_out (ps q) @ [take 2103 (take n d @ drop n (rx_payload_buffer q))] \<and>
       header_frame_id (rx_header_buffer q') = header_frame_id h \<and>
       rx_num_delivered2net_frames q' = inc (rx_num_delivered2net_frames q)
     else tun_out (ps q') = tun_out (ps q) \<and> rx_payload_buffer q' = rx_payload_buffer q \<and>
       rx_num_delivered2net_frames q' = rx_num_delivered2net_frames q)"
proof (cases "frame_for_node q (h ! 3)")
  case False
  then show ?thesis using assms(1-3)
    by (simp add: updateMacPostTask_def frame_for_node_def P2M_FRAME_TYPE_DATA_def P2M_FRAME_TYPE_IDLE_MAC_def receiver_ok_def
        buffers_ok_def)
next
  case True
  let ?b = "take n d @ drop n (rx_payload_buffer q)"
  have q: "length (rx_payload_buffer q) = payload_buffer_size q" "length (rx_header_buffer q) = header_buffer_size q"
    "8 \<le> header_buffer_size q" "2103 \<le> payload_buffer_size q" "rx_packets (ps q) = []" "frame_len (ps q) = 2103" "p2m_tun_tap q"
    using assms(1) by (simp_all add: receiver_ok_def buffers_ok_def P2M_FRAME_PAYLOAD_DEFAULT_SIZE_def)
  have b: "copy_to (rx_payload_buffer q) 0 d n = Some ?b" "length ?b = payload_buffer_size q"
    using assms(4,5) q(1) by (simp_all add: copy_to_def)
  obtain c where c: "copy_to (rx_header_buffer q) 0 h P2M_FRAME_HEADER_DEFAULT_SIZE = Some c" "length c = header_buffer_size q"
    "header_frame_id c = header_frame_id h"
    using header_copy [of "rx_header_buffer q" h] q(2,3) assms(2) by auto
  have l: "length (take 2103 ?b) = 2103" using b(2) q(4) by simp
  have w: "os_write (take 2103 ?b) = int 2103" unfolding assms(7) l ..
  have b2: "2103 \<le> length ?b" using b(2) q(4) by simp
  obtain st' where st': "store_add_frame mem os_write (ps q) (int (header_frame_id c)) 0 ?b 2103 = Some (PACKET_COMPLETE, st')"
    "rx_packets st' = []" "frame_len st' = 2103" "tun_out st' = tun_out (ps q) @ [take 2103 ?b]"
    using store_one_frame [OF q(5,6) _ _ b2, of mem os_write] assms(6) w by auto
  let ?p = "q\<lparr>rx_num_all_frames := inc (rx_num_all_frames q), rx_num_data_any_node_frames := inc (rx_num_data_any_node_frames q),
    rx_num_data_this_node_frames := inc (rx_num_data_this_node_frames q), rx_header_buffer := c, rx_payload_buffer := ?b\<rparr>"
  have "updateMacPostTask mem os_write q h n d = deliverRxFrame mem os_write ?p"
    using True assms(2-4) b(1) c(1)
    by (simp add: updateMacPostTask_def frame_for_node_def P2M_FRAME_TYPE_DATA_def P2M_FRAME_TYPE_IDLE_MAC_def)
  also have "\<dots> = Some (?p\<lparr>ps := st', rx_num_delivered2net_frames := inc (rx_num_delivered2net_frames q)\<rparr>)"
    using st'(1) q(7) by (simp add: deliverRxFrame_def P2M_FRAME_PAYLOAD_DEFAULT_SIZE_def del: append_assoc)
  finally have r: "updateMacPostTask mem os_write q h n d =
    Some (?p\<lparr>ps := st', rx_num_delivered2net_frames := inc (rx_num_delivered2net_frames q)\<rparr>)" .
  show ?thesis
    using assms(1) b(2) c(2,3) st'(2-4) True
    by (intro exI [of _ "?p\<lparr>ps := st', rx_num_delivered2net_frames := inc (rx_num_delivered2net_frames q)\<rparr>"] conjI r)
      (simp_all add: receiver_ok_def buffers_ok_def P2M_FRAME_PAYLOAD_DEFAULT_SIZE_def)
qed

text \<open>
  C7: frames of the default payload size reach the network of exactly the nodes they are meant for, in
  order and unchanged: after any sequence of data frames from one node to another the receiver has
  written to its tap interface the payloads of the frames sent to it or to everybody (a basestation
  those of all frames), whatever the frame ids, which wrap after 65536 frames, and its other
  counters count every frame. The sender numbers its frames consecutively.
\<close>

theorem p2m_delivery:
  assumes "buffers_ok p" "8 \<le> header_buffer_size p" "P2M_FRAME_PAYLOAD_DEFAULT_SIZE \<le> payload_buffer_size p"
    "tx_data_frame_id p < 2 ^ 16" "receiver_ok q" "\<And>k. length (mem k) = k" "\<And>b. os_write b = int (length b)"
    "list_all (\<lambda>(dest, d). length d = P2M_FRAME_PAYLOAD_DEFAULT_SIZE) ms"
  shows "\<exists>p' q'. exchange mem os_write ms p q = Some (p', q') \<and>
    tun_out (ps q') = tun_out (ps q) @ map snd (filter (\<lambda>(dest, d). p2m_basestation q \<or> dest = p2m_node_id q \<or> dest = 255) ms) \<and>
    tx_data_frame_id p' = (tx_data_frame_id p + length ms) mod 2 ^ 16 \<and>
    wrap32 (rx_num_data_any_node_frames q') = wrap32 (rx_num_data_any_node_frames q + length ms)"
  using assms(1-5,8)
proof (induction ms arbitrary: p q)
  case Nil
  then show ?case by simp
next
  case (Cons m ms)
  obtain dest d where m: "m = (dest, d)" by (cases m)
  have d: "length d = 2103" "length d \<le> payload_buffer_size p" using Cons.prems(3,6) m by (auto simp: P2M_FRAME_PAYLOAD_DEFAULT_SIZE_def)
  obtain p1 where p1: "createDataTxFrame p dest (length d) d = Some p1" "buffers_ok p1" "header_buffer_size p1 = header_buffer_size p"
    "payload_buffer_size p1 = payload_buffer_size p" "tx_data_frame_id p1 = (tx_data_frame_id p + 1) mod 2 ^ 16"
    "p2m_tx_payload_size p1 = length d" "take (length d) (tx_payload_buffer p1) = d" "tx_header_buffer p1 ! 3 = dest"
    "tx_header_buffer p1 ! 4 = P2M_FRAME_TYPE_DATA"
    using create_data [OF Cons.prems(1,2,4) d(2), of dest] by blast
  have l: "8 \<le> length (tx_header_buffer p1)" "length d \<le> length (tx_payload_buffer p1)"
    using p1(2-4) Cons.prems(2) d(2) by (simp_all add: buffers_ok_def)
  have lq: "length d \<le> payload_buffer_size q" "length (rx_payload_buffer q) = payload_buffer_size q"
    using Cons.prems(5) d(1) by (simp_all add: receiver_ok_def buffers_ok_def P2M_FRAME_PAYLOAD_DEFAULT_SIZE_def)
  obtain q1 where q1: "updateMacPostTask mem os_write q (tx_header_buffer p1) (length d) (tx_payload_buffer p1) = Some q1"
    "receiver_ok q1" "p2m_basestation q1 = p2m_basestation q" "p2m_node_id q1 = p2m_node_id q"
    "rx_num_data_any_node_frames q1 = inc (rx_num_data_any_node_frames q)"
    "tun_out (ps q1) = tun_out (ps q) @ (if frame_for_node q dest
       then [take 2103 (take (length d) (tx_payload_buffer p1) @ drop (length d) (rx_payload_buffer q))] else [])"
    using receive_data [OF Cons.prems(5) l(1) p1(9) lq(1) l(2) assms(6,7)] p1(8) by (auto split: if_splits)
  have t: "tun_out (ps q1) = tun_out (ps q) @ (if frame_for_node q dest then [d] else [])"
    using q1(6) p1(7) d(1) by simp
  obtain p' q' where r: "exchange mem os_write ms p1 q1 = Some (p', q')"
    "tun_out (ps q') = tun_out (ps q1) @ map snd (filter (\<lambda>(dest, d). p2m_basestation q \<or> dest = p2m_node_id q \<or> dest = 255) ms)"
    "tx_data_frame_id p' = (tx_data_frame_id p1 + length ms) mod 2 ^ 16"
    "wrap32 (rx_num_data_any_node_frames q') = wrap32 (rx_num_data_any_node_frames q1 + length ms)"
    using Cons.IH [of p1 q1] p1(2-5) q1(2-4) Cons.prems(2,3,6) by auto
  have "wrap32 (rx_num_data_any_node_frames q1 + length ms) = wrap32 (rx_num_data_any_node_frames q + length (m # ms))"
    unfolding q1(5) wrap32_def by (simp add: mod_add_left_eq mod_add_right_eq) 
  moreover have "(tx_data_frame_id p1 + length ms) mod 2 ^ 16 = (tx_data_frame_id p + length (m # ms)) mod 2 ^ 16"
    unfolding p1(5) by (simp add: mod_add_left_eq)
  moreover have "tun_out (ps q') = tun_out (ps q) @
    map snd (filter (\<lambda>(dest, d). p2m_basestation q \<or> dest = p2m_node_id q \<or> dest = 255) (m # ms))"
    using r(2) t m by (simp add: frame_for_node_def P2M_DESTINATION_ID_BROADCAST_def)
  moreover have "exchange mem os_write (m # ms) p q = Some (p', q')"
    using p1(1,6) q1(1) r(1) m by simp
  ultimately show ?case using r(3,4) by (intro exI [of _ p'] exI [of _ q'] conjI) simp_all
qed

text \<open>
  C16: with the tap interface, fetching a frame before the store holds a packet with the next frame's
  number reads from a null pointer: the code compares the number of waiting packets with the frame
  number by \<open>\<ge>\<close>, so a first fetch finds 0 waiting packets enough for frame 0.
\<close>

theorem fetch_empty_store_crashes:
  assumes "p2m_tun_tap p" "tx_packets (ps p) = []" "tx_data_frame_id p = 0"
  shows "fetchTxFrame p = None"
  using assms by (simp add: fetchTxFrame_def createFrameFromPacketStore_def store_size_def store_get_frame_def bind_eq_None_conv)


section \<open>Concrete runs\<close>

text \<open>Objects constructed over zeroed memory: a basestation and the mobile with number 2, on a store for three nodes.\<close>

definition blank :: p2m where
  "blank = \<lparr>p2m_basestation = False, p2m_node_id = 0, hb_activity = HEARTBEAT_ACTIVITY_NONE, hb_policy = HEARTBEAT_POLICY_B,
     header_buffer_size = 0, payload_buffer_size = 0, p2m_tun_tap = False, idle_mac_frame_payload = [], heartbeat_frame_payload = [],
     test_frame_payload = [], rx_header_buffer = [], p2m_rx_payload_size = 0, rx_payload_buffer = [], rx_num_all_frames = 0,
     rx_num_idle_mac_frames = 0, rx_num_data_any_node_frames = 0, rx_num_data_this_node_frames = 0, rx_num_heartbeat_frames = 0,
     rx_num_test_frames = 0, rx_num_delivered2net_frames = 0, tx_header_buffer = [], p2m_tx_payload_size = 0, tx_payload_buffer = [],
     tx_data_frame_id = 0, tx_num_all_frames = 0, tx_num_idle_mac_frames = 0, tx_num_data_frames = 0, tx_num_heartbeat_frames = 0,
     tx_num_test_frames = 0, tx_num_fetched_net_frames = 0, window = no_beats, session = no_beats, heartbeat_sample_window = 0,
     heartbeat_sample_ctr = 0, selects_normal_mode = False, ps = PacketStore 0 0 False\<rparr>"

definition zeros :: "nat \<Rightarrow> bytes" where "zeros n = replicate n 0"

definition sample :: "bool \<Rightarrow> u8 \<Rightarrow> p2m" where
  "sample basestation node = the (Phy2Mac blank zeros basestation node HEARTBEAT_ACTIVITY_PER_SCHEDULE HEARTBEAT_POLICY_A
     P2M_FRAME_HEADER_DEFAULT_SIZE P2M_FRAME_PAYLOAD_DEFAULT_SIZE True (PacketStore 3 P2M_FRAME_PAYLOAD_DEFAULT_SIZE True))"

lemmas p2m_sizes = P2M_FRAME_HEADER_DEFAULT_SIZE_def P2M_FRAME_PAYLOAD_DEFAULT_SIZE_def P2M_FRAME_HEADER_MAX_SIZE_def
  P2M_FRAME_PAYLOAD_MAX_SIZE_def

lemma zeros_length [simp]: "length (zeros n) = n"
  by (simp add: zeros_def)

lemma sample_made: "Phy2Mac blank zeros basestation node HEARTBEAT_ACTIVITY_PER_SCHEDULE HEARTBEAT_POLICY_A
    P2M_FRAME_HEADER_DEFAULT_SIZE P2M_FRAME_PAYLOAD_DEFAULT_SIZE True (PacketStore 3 P2M_FRAME_PAYLOAD_DEFAULT_SIZE True) =
  Some (sample basestation node)"
  by (simp add: sample_def Phy2Mac_def p2m_sizes)

lemma sample_state: "hb_activity (sample b n) = HEARTBEAT_ACTIVITY_PER_SCHEDULE" "window (sample b n) = no_beats"
    "heartbeat_sample_ctr (sample b n) = 0" "buffers_ok (sample b n)" "header_buffer_size (sample b n) = 8"
    "payload_buffer_size (sample b n) = 2103" "tx_data_frame_id (sample b n) = 0" "receiver_ok (sample b n)"
    "p2m_tun_tap (sample b n)" "tx_packets (ps (sample b n)) = []"
  by (simp_all add: sample_def Phy2Mac_def p2m_sizes resetHeartbeatStats_def resetHeartbeatWindowStats_def resetFrameStats_def
      buffers_ok_def receiver_ok_def PacketStore_def)



lemma p2m_delivery_witness:
  "\<exists>p' q'. exchange zeros (\<lambda>b. int (length b)) [(2, replicate 2103 5), (3, replicate 2103 6), (255, replicate 2103 7)]
      (sample True 1) (sample False 2) = Some (p', q') \<and>
    tun_out (ps q') = tun_out (ps (sample False 2)) @ map snd (filter (\<lambda>(dest, d). p2m_basestation (sample False 2) \<or> dest = p2m_node_id (sample False 2) \<or> dest = 255)
      [(2, replicate 2103 5), (3, replicate 2103 6), (255, replicate 2103 7)]) \<and>
    tx_data_frame_id p' = (tx_data_frame_id (sample True 1) +
      length [(2 :: u8, replicate 2103 (5 :: u8)), (3, replicate 2103 6), (255, replicate 2103 7)]) mod 2 ^ 16 \<and>
    wrap32 (rx_num_data_any_node_frames q') = wrap32 (rx_num_data_any_node_frames (sample False 2) +
      length [(2 :: u8, replicate 2103 (5 :: u8)), (3, replicate 2103 6), (255, replicate 2103 7)])"
  by (rule p2m_delivery) (simp_all add: sample_state p2m_sizes)

lemma fetch_empty_store_crashes_witness: "fetchTxFrame (sample True 1) = None"
  by (rule fetch_empty_store_crashes) (simp_all add: sample_state)

end
