(* ===== verification/Spec2Isabelle.thy ===== *)
theory Spec2Isabelle
  imports Radio_Prelude Byte_Utilities Msb_Index Pack_Bytes Shift_Array Crc
    Fec_Scheme Fec_Rep Block_Codes Fec_Hamming_Table Fec_Golay Hamming_Codes Fec_Hamming128
    Fec_Hamming_Long Secded_Codes Fec_Secded Interleaver
    Fec_Codec Packetizer Scramble Payload Packet_Store
    Bsequence Modular_Arithmetic Msequence Modem_Schemes Modem_Linear Ofdm_Subcarriers
    Ofdm_Flexframe_Gen Ofdm_Flexframe_Sync Ofdm_Frame_Symbols Ofdm_Frame_Sending Ofdm_Frame_Delivery
    Fh_Seq_Generator Radio_Scheduler Phy2Mac
begin

text \<open>
  Verification library for the OFDM reference radio: the digital core of the liquid-dsp library it
  is built on (\<^verbatim>\<open>dependencies/liquid_dsp\<close>) and the packet, scheduling and MAC layers of the radio
  (\<^verbatim>\<open>ofdm_radio\<close>).

  \<^bold>\<open>The program.\<close> A node of the radio net exchanges frames with the other nodes in time slots of a
  schedule. On the sending side network packets are read from a tap interface into the packet
  store, cut into frames, given a header by the MAC layer, and handed to the physical layer, which
  protects them with a checksum and two codes (the packetizer), scrambles them and modulates
  them (the frame generator); the receiving side is the inverse of it, down to the packet store that rebuilds the packets.
  The scheduler says in which slot a node sends, the hopping sequences on which frequency, and the
  statistics of the heartbeats whether the net has to leave its normal mode.

  \<^bold>\<open>liquid-dsp: utility\<close> (\<^verbatim>\<open>src/utility/src\<close>).
  \<^item> \<open>Byte_Utilities\<close> (\<^verbatim>\<open>byte_utilities.c\<close>): counting, comparing and reversing bits by tables; the
    definitions they compute.
  \<^item> \<open>Msb_Index\<close> (\<^verbatim>\<open>msb_index.c\<close>): the index of the most significant bit, in the portable and in the x86 branch.
  \<^item> \<open>Pack_Bytes\<close> (\<^verbatim>\<open>pack_bytes.c\<close>): symbols of 1 to 8 bits in arrays of bytes; read after write, repacking and back.
  \<^item> \<open>Shift_Array\<close> (\<^verbatim>\<open>shift_array.c\<close>, \<^verbatim>\<open>bshift_array.c\<close>): shifts and rotations of arrays by bytes and by bits.

  \<^bold>\<open>liquid-dsp: forward error correction\<close> (\<^verbatim>\<open>src/fec/src\<close>).
  \<^item> \<open>Crc\<close> (\<^verbatim>\<open>crc.c\<close>): checksum and CRCs; the locale \<open>crc_register\<close> holds the shift register once for all widths.
  \<^item> \<open>Fec_Scheme\<close> (\<^verbatim>\<open>fec.c\<close>): schemes, names, encoded lengths and rates.
  \<^item> \<open>Fec_Rep\<close>, \<open>Fec_Hamming_Table\<close>, \<open>Fec_Golay\<close>, \<open>Fec_Hamming128\<close>, \<open>Fec_Hamming_Long\<close>, \<open>Fec_Secded\<close>: the codecs
    of the files of the same names, with the tables of the source; encoders, hard and soft decoders.
    \<open>Block_Codes\<close>, \<open>Hamming_Codes\<close> and \<open>Secded_Codes\<close> hold the locales they are interpretations of: minimum
    distance and nearest words, Hamming codes by their syndrome, and SEC-DED codes.
  \<^item> \<open>Interleaver\<close> (\<^verbatim>\<open>interleaver.c\<close>): the four kinds of passes as sequences of swaps (locale \<open>pair_swap\<close>); the search
    of each pass is a \<open>partial_function\<close> whose termination is proved.
  \<^item> \<open>Fec_Codec\<close> (\<^verbatim>\<open>fec.c\<close>): the codec objects with their function pointers; the locales \<open>fec_codec\<close> and
    \<open>fec_soft_codec\<close> are the contract of a codec, interpreted for every codec of the library.
  \<^item> \<open>Packetizer\<close> (\<^verbatim>\<open>packetizer.c\<close>): checksum, two codecs and two interleavers over the two buffers of the
    object; round trip, invariant and the search for the length of a message.

  \<^bold>\<open>liquid-dsp: random\<close>. \<open>Scramble\<close> (\<^verbatim>\<open>src/random/src/scramble.c\<close>): hard and soft scrambling.

  \<^bold>\<open>liquid-dsp: sequences and arithmetic\<close>.
  \<^item> \<open>Bsequence\<close> (\<^verbatim>\<open>src/sequence/src/bsequence.c\<close>): binary sequences in blocks of 32 bits, refined to lists of bits;
    the locale \<open>bit_window\<close> is a window over a stream, and the complementary codes are made from it.
  \<^item> \<open>Msequence\<close> (\<^verbatim>\<open>src/sequence/src/msequence.c\<close>): shift registers as linear maps on lists of bits; the default
    polynomials are primitive by a certificate of the prime factors of the period.
  \<^item> \<open>Modular_Arithmetic\<close> (\<^verbatim>\<open>src/math/src/modular_arithmetic.c\<close>): primes, factors, powers, totients, primitive roots.

  \<^bold>\<open>OFDM\<close>.
  \<^item> \<open>Modem_Schemes\<close> (\<^verbatim>\<open>src/modem/src/modem_utilities.c\<close>): the modulation schemes, Gray coding, soft bits.
  \<^item> \<open>Modem_Linear\<close> (\<^verbatim>\<open>modem_bpsk.c\<close>, \<^verbatim>\<open>modem_qpsk.c\<close>, \<^verbatim>\<open>modem_ook.c\<close>, \<^verbatim>\<open>modem_ask.c\<close>, \<^verbatim>\<open>modem_qam.c\<close>, \<^verbatim>\<open>modem_psk.c\<close> of
    \<^verbatim>\<open>src/modem/src\<close>): constellations, their energy, and decisions within half the least distance, over the reals.
  \<^item> \<open>Ofdm_Subcarriers\<close> (\<^verbatim>\<open>src/multichannel/src/ofdmframe.common.c\<close> and \<^verbatim>\<open>Allocations.h\<close> of the radio): which subcarriers
    carry pilots and data, and the training symbols.
  \<^item> \<open>Ofdm_Flexframe_Gen\<close> (\<^verbatim>\<open>src/framing/src/ofdmflexframegen.c\<close>): the frame generator, for one user and for several, up to
    the values of the subcarriers of each symbol. The modems are a record of functions, \<open>modem_api\<close>.
  \<^item> \<open>Ofdm_Flexframe_Sync\<close> (\<^verbatim>\<open>src/framing/src/ofdmflexframesync.c\<close>): the frame synchronizer from the values of the subcarriers of
    each received symbol to the calls of the user's function, an \<open>rx_event\<close> each.
  \<^item> \<open>Ofdm_Frame_Symbols\<close>, \<open>Ofdm_Frame_Sending\<close> and \<open>Ofdm_Frame_Delivery\<close>: the two together, for one user. \<open>Symbols\<close> says what one
    symbol carries and what is read from it, \<open>Sending\<close> what the symbols of a frame carry and that the generator is ready
    for the next one, \<open>Delivery\<close> that the synchronizer delivers every frame, by induction over the frames; its law
    \<open>clean_modems\<close> of the modems is proved there for those of \<open>Modem_Linear\<close>.

  \<^bold>\<open>The radio\<close> (\<^verbatim>\<open>src_reusable\<close> and \<^verbatim>\<open>src\<close> of \<^verbatim>\<open>ofdm_radio\<close>).
  \<^item> \<open>Payload\<close> (\<^verbatim>\<open>TxPayload.cc\<close>, \<^verbatim>\<open>RxPayload.cc\<close>): a packet cut into frames and put together again.
  \<^item> \<open>Packet_Store\<close> (\<^verbatim>\<open>PacketStore.cc\<close>, \<^verbatim>\<open>TunTap.cc\<close>): the waiting packets, refined to one queue per destination, and the
    reassembly of the received ones; the reading thread is a step of the relation \<open>store_step\<close>.
  \<^item> \<open>Fh_Seq_Generator\<close> (\<^verbatim>\<open>FhSeqGenerator.cc\<close>): the hopping sequences and their scrubbing.
  \<^item> \<open>Radio_Scheduler\<close> (\<^verbatim>\<open>RadioScheduler.cc\<close>): the schedules of one second.
  \<^item> \<open>Phy2Mac\<close> (\<^verbatim>\<open>Phy2Mac.cc\<close>): building, filtering and delivering frames, and the decision from the heartbeats.

  \<^bold>\<open>Conventions.\<close> Bytes are \<open>8 word\<close>, the words of the codecs and CRCs \<open>32 word\<close>; lengths, indices and counters are
  natural numbers, reduced modulo \<open>2 ^ 32\<close> (\<open>wrap32\<close>) or \<open>2 ^ 16\<close> where the code may wrap. An object is a record
  with the fields of the source. \<open>None\<close> is a run that does not return: \<^verbatim>\<open>exit\<close>, a failed assertion, an access
  outside an array, a null pointer, a division by zero, or a loop that does not end. The contents of
  allocated memory and the answers of the operating system are arguments (\<open>mem\<close>, \<open>junk\<close>, \<open>os_write\<close>). A loop with
  a fixed range is a recursion over the list of its indices; a loop whose end is not evident is a
  \<open>partial_function\<close>, and its termination, or that it runs for ever, is a theorem. Where a length can overflow the
  theorems assume the bounds \<open>msg_bound\<close> (\<open>2 ^ 26\<close> bytes, below which no length computation of the codecs wraps) or
  \<open>packet_bound\<close> (\<open>2 ^ 22\<close>, the same for two codecs in sequence). The times of the scheduler are exact rationals.

  \<^bold>\<open>Not modelled.\<close> The codecs on libfec (\<^verbatim>\<open>fec_conv.c\<close>, \<^verbatim>\<open>fec_rs.c\<close>), whose routines are not in the repository:
  they are the parameter \<open>libfec_create\<close>. The floating-point signal processing of liquid-dsp (filters,
  transforms, synchronisation in time, soft demodulation and the other modems) and the tables of carrier frequencies. Of the frames for several users
  the operations are modelled; the theorem of delivery is for one user. The hardware
  configuration, the threads and timers of the task manager, configuration files and the main
  loop, which are calls of libraries and of the device. Console output, and the freeing of memory.
  The vendored UHD driver and firmware, libconfig and the other third-party code.
\<close>

end
